(* ===== verification/Quark_Prelude.thy ===== *)
theory Quark_Prelude
  imports Main "HOL-Library.Word"
begin

text \<open>
  Shared vocabulary of the development: the machine types of the C++ sources, the engine's
  error values (\<open>include/quark/core/error.hpp\<close>), and the generic facts on words, little-endian
  byte strings and lists that several components use.  Facts that evaluate byte strings are
  collected in \<open>wire_simps\<close>, facts about unsigned words read as naturals in \<open>unat_simps\<close>.
\<close>

unbundle bit_operations_syntax

named_theorems wire_simps
named_theorems unat_simps

type_synonym u8 = "8 word"
type_synonym u32 = "32 word"
type_synonym u64 = "64 word"
type_synonym bytes = "8 word list"

section \<open>Errors\<close>

datatype errc =
    Ok | Cancelled | Validation | NotFound | Unavailable | Overloaded | Timeout
  | Serialization | SupervisedStop | Internal | CircuitOpen

text \<open>The error value: a code and a borrowed static message.\<close>

datatype error = Error (err_code: errc) (err_detail: string)

type_synonym 'a result = "error + 'a"

definition fail :: "errc \<Rightarrow> string \<Rightarrow> 'a result" where
  "fail c d = Inl (Error c d)"

lemma fail_not_Inr [simp]: "fail c d \<noteq> Inr x" "Inr x \<noteq> fail c d"
  by (simp_all add: fail_def)

lemma fail_eq_iff [simp]: "fail c d = fail c' d' \<longleftrightarrow> c = c' \<and> d = d'"
  by (simp add: fail_def)

section \<open>Unsigned words read as naturals\<close>

lemma and_mask_eq_mod:
  fixes x :: nat
  shows "x AND (2 ^ k - 1) = x mod 2 ^ k"
  by (metis mask_eq_exp_minus_1 take_bit_eq_mask take_bit_eq_mod)

lemma unat_and_mask [unat_simps]:
  fixes x :: "'a::len word"
  shows "unat (x AND mask k) = unat x mod 2 ^ k"
  by (metis take_bit_eq_mask take_bit_eq_mod unsigned_take_bit_eq)

lemma unat_drop_bit_div [unat_simps]:
  fixes x :: "'a::len word"
  shows "unat (drop_bit k x) = unat x div 2 ^ k"
  by (metis unat_drop_bit_eq drop_bit_eq_div)

lemma word_bits_eq_iff:
  fixes a b :: "'a::len word"
  shows "a = b \<longleftrightarrow> (\<forall>k. bit a k = bit b k)"
  by (auto intro: bit_word_eqI)

lemma unat_less_exp: "unat (w :: 'a::len word) < 2 ^ LENGTH('a)"
  by (rule unsigned_less)

lemma unat_plus_1_no_wrap:
  fixes x :: u64
  assumes "unat x < 2 ^ 64 - 1"
  shows "unat (x + 1) = Suc (unat x)"
  using assms by (simp add: unat_word_ariths)

lemma word_less_plus_1:
  fixes x :: u64
  assumes "unat x < 2 ^ 64 - 1"
  shows "x < x + 1"
  using unat_plus_1_no_wrap [OF assms] by (simp add: word_less_nat_alt)

lemma unat_plus_no_wrap:
  fixes x y :: u64
  assumes "unat x + unat y < 2 ^ 64"
  shows "unat (x + y) = unat x + unat y"
  using assms by (simp add: unat_word_ariths)

lemma unat_minus_le:
  fixes x y :: "'a::len word"
  assumes "y \<le> x"
  shows "unat (x - y) = unat x - unat y"
  using assms by (simp add: unat_sub)

lemma unat_times_no_wrap:
  fixes x y :: u64
  assumes "unat x * unat y < 2 ^ 64"
  shows "unat (x * y) = unat x * unat y"
  using assms by (simp add: unat_word_ariths)

lemma unat_of_int_nonneg:
  assumes "0 \<le> e" and "e < 2 ^ 64"
  shows "unat (of_int e :: u64) = nat e"
proof -
  have "(of_int e :: u64) = of_nat (nat e)" using assms(1) by simp
  moreover have "nat e < 2 ^ 64" using assms by (simp add: nat_less_iff)
  ultimately show ?thesis using unat_of_nat [of "nat e", where 'a = 64] by simp
qed

lemma sint_eq_int_unat:
  fixes w :: u64
  assumes "unat w < 2 ^ 63"
  shows "sint w = int (unat w)"
proof -
  have "int (unat w) < int (2 ^ 63)" using assms by (simp only: of_nat_less_iff)
  then have u: "uint w < 2 ^ 63" by simp
  have "signed_take_bit 63 (uint w) = uint w"
    by (rule signed_take_bit_int_eq_self) (use u in \<open>auto intro: order_trans [of _ 0]\<close>)
  then show ?thesis by (simp add: sint_uint)
qed

section \<open>Leading bits\<close>

text \<open>\<open>std::countl_zero\<close> on 64-bit values, by scanning from the top bit.\<close>

definition countl_zero :: "u64 \<Rightarrow> nat" where
  "countl_zero d = length (takeWhile (\<lambda>i. \<not> bit d i) (rev [0..<64]))"

lemma unat_less_exp_iff_bits:
  fixes d :: "'a::len word"
  shows "unat d < 2 ^ n \<longleftrightarrow> (\<forall>j\<ge>n. \<not> bit d j)"
proof
  assume d: "unat d < 2 ^ n"
  show "\<forall>j\<ge>n. \<not> bit d j"
  proof (intro allI impI)
    fix j
    assume "n \<le> j"
    then have "(2::nat) ^ n \<le> 2 ^ j" by simp
    with d have "unat d < 2 ^ j" by (rule order_less_le_trans)
    then have "unat d div 2 ^ j = 0" by (rule div_less)
    then have "\<not> bit (unat d) j" by (simp add: bit_iff_odd)
    then show "\<not> bit d j" by (simp add: bit_unsigned_iff)
  qed
next
  assume nb: "\<forall>j\<ge>n. \<not> bit d j"
  have "bit (take_bit n d) k = bit d k" for k
    using nb by (cases "k < n") (auto simp: bit_take_bit_iff)
  then have "take_bit n d = d" by (simp add: word_bits_eq_iff)
  then have "unat d = take_bit n (unat d)" by (metis unsigned_take_bit_eq)
  then show "unat d < 2 ^ n" by (metis take_bit_nat_less_exp)
qed

lemma bit_imp_exp_le:
  fixes d :: "'a::len word"
  assumes "bit d n"
  shows "2 ^ n \<le> unat d"
  using assms unat_less_exp_iff_bits [of d n] by (meson linorder_not_less order_refl)

lemma countl_zero_less: "d \<noteq> 0 \<Longrightarrow> countl_zero d < 64"
proof -
  assume "d \<noteq> 0"
  then obtain k where "bit d k" by (auto simp: word_bits_eq_iff)
  moreover from this have "k < 64" using bit_imp_le_length [of d k] by simp
  ultimately have "\<exists>x\<in>set (rev [0..<64]). \<not> \<not> bit d x" by auto
  then have "takeWhile (\<lambda>i. \<not> bit d i) (rev [0..<64]) \<noteq> rev [0..<64]"
    by (metis takeWhile_eq_all_conv)
  then have "length (takeWhile (\<lambda>i. \<not> bit d i) (rev [0..<64])) \<noteq> length (rev [0..<64])"
    by (metis takeWhile_eq_take take_all order_refl)
  then show ?thesis
    using length_takeWhile_le [of "\<lambda>i. \<not> bit d i" "rev [0..<64]"]
    unfolding countl_zero_def by (simp del: upt_conv_Cons)
qed

lemma nth_rev_upt_64: "i < 64 \<Longrightarrow> rev [0..<64] ! i = 63 - i"
  by (simp add: rev_nth del: upt_conv_Cons)

lemma top_bit_countl_zero:
  assumes "d \<noteq> 0"
  shows "bit d (63 - countl_zero d)" and "\<And>j. 63 - countl_zero d < j \<Longrightarrow> \<not> bit d j"
proof -
  let ?l = "rev [0..<64]" and ?P = "\<lambda>i. \<not> bit d i"
  have c: "countl_zero d < 64" by (rule countl_zero_less [OF assms])
  then have "length (takeWhile ?P ?l) < length ?l" by (simp add: countl_zero_def del: upt_conv_Cons)
  then have "\<not> ?P (?l ! length (takeWhile ?P ?l))" by (rule nth_length_takeWhile)
  then show "bit d (63 - countl_zero d)"
    using c nth_rev_upt_64 [of "countl_zero d"] unfolding countl_zero_def by simp
  show "\<not> bit d j" if j: "63 - countl_zero d < j" for j
  proof (cases "j < 64")
    case True
    then have "63 - j < countl_zero d" using j c by linarith
    then have "?P (?l ! (63 - j))"
      unfolding countl_zero_def by (metis nth_mem set_takeWhileD takeWhile_nth)
    with True nth_rev_upt_64 [of "63 - j"] show ?thesis by simp
  next
    case False
    then show ?thesis using bit_imp_le_length [of d j] by auto
  qed
qed

lemma countl_zero_bounds:
  assumes "d \<noteq> 0"
  shows "2 ^ (63 - countl_zero d) \<le> unat d" and "unat d < 2 ^ Suc (63 - countl_zero d)"
proof -
  show "2 ^ (63 - countl_zero d) \<le> unat d"
    by (rule bit_imp_exp_le [OF top_bit_countl_zero(1) [OF assms]])
  have "\<forall>j\<ge>Suc (63 - countl_zero d). \<not> bit d j"
    using top_bit_countl_zero(2) [OF assms] by (simp add: Suc_le_eq)
  then show "unat d < 2 ^ Suc (63 - countl_zero d)"
    by (rule iffD2 [OF unat_less_exp_iff_bits])
qed

lemma countl_zero_less_iff:
  assumes "d \<noteq> 0"
  shows "63 - countl_zero d < n \<longleftrightarrow> unat d < 2 ^ n"
proof
  assume "63 - countl_zero d < n"
  then have "(2::nat) ^ Suc (63 - countl_zero d) \<le> 2 ^ n"
    by (intro power_increasing) simp_all
  with countl_zero_bounds(2) [OF assms] show "unat d < 2 ^ n" by (rule order_less_le_trans)
next
  assume d: "unat d < 2 ^ n"
  show "63 - countl_zero d < n"
  proof (rule ccontr)
    assume "\<not> 63 - countl_zero d < n"
    then have "(2::nat) ^ n \<le> 2 ^ (63 - countl_zero d)" by simp
    with d countl_zero_bounds(1) [OF assms] show False by linarith
  qed
qed

text \<open>Evaluation: the leading bit is found from the two powers of two around the value.\<close>

lemma countl_zero_eqI:
  assumes "m \<le> 63" and "2 ^ m \<le> unat d" and "unat d < 2 ^ Suc m"
  shows "countl_zero d = 63 - m"
proof -
  have d: "d \<noteq> 0" using assms(2) by auto
  have "63 - countl_zero d < Suc m" using countl_zero_less_iff [OF d] assms(3) by blast
  moreover have "\<not> 63 - countl_zero d < m"
    using countl_zero_less_iff [OF d] assms(2) by (simp add: not_less)
  ultimately show ?thesis using countl_zero_less [OF d] assms(1) by linarith
qed

section \<open>Little-endian byte strings\<close>

text \<open>
  The loops \<open>for (i = 0; i < n; ++i) put(v >> (8 * i))\<close> and
  \<open>v |= byte(i) << (8 * i)\<close> that every codec of the repository uses for fixed-width integers.
\<close>

definition put_le :: "nat \<Rightarrow> 'a::len word \<Rightarrow> bytes" where
  "put_le n v = map (\<lambda>i. ucast (drop_bit (8 * i) v)) [0..<n]"

fun get_le_from :: "nat \<Rightarrow> bytes \<Rightarrow> 'a::len word" where
  "get_le_from i [] = 0"
| "get_le_from i (b # bs) = push_bit (8 * i) (ucast b) OR get_le_from (Suc i) bs"

definition get_le :: "bytes \<Rightarrow> 'a::len word" where
  "get_le bs = get_le_from 0 bs"

lemma length_put_le [simp, wire_simps]: "length (put_le n v) = n"
  by (simp add: put_le_def)

lemma bit_get_le_from:
  "bit (get_le_from i bs :: 'a::len word) k \<longleftrightarrow>
     k < LENGTH('a) \<and> 8 * i \<le> k \<and> (k - 8 * i) div 8 < length bs \<and>
     bit (bs ! ((k - 8 * i) div 8)) ((k - 8 * i) mod 8)"
proof (induction bs arbitrary: i)
  case Nil
  then show ?case by simp
next
  case (Cons b bs)
  consider "k < 8 * i" | "8 * i \<le> k" "k < 8 * Suc i" | "8 * Suc i \<le> k" by linarith
  then show ?case
  proof cases
    case 1
    then show ?thesis by (simp add: Cons.IH bit_or_iff bit_push_bit_iff)
  next
    case 2
    then have "(k - 8 * i) div 8 = 0" "(k - 8 * i) mod 8 = k - 8 * i" by auto
    with 2 show ?thesis by (auto simp add: Cons.IH bit_or_iff bit_push_bit_iff bit_ucast_iff)
  next
    case 3
    define q where "q = k - 8 * Suc i"
    from 3 have k: "k - 8 * i = q + 8" by (simp add: q_def)
    have "\<not> bit b (q + 8)" using bit_imp_le_length [of b "q + 8"] by auto
    moreover have "(q + 8) div 8 = Suc (q div 8)" "(q + 8) mod 8 = q mod 8" by simp_all
    moreover have "8 * i \<le> k" "k - (8 + 8 * i) = q" using 3 by (simp_all add: q_def)
    ultimately show ?thesis
      using 3 by (simp add: Cons.IH bit_or_iff bit_push_bit_iff bit_ucast_iff k)
  qed
qed

lemma bit_get_le:
  "bit (get_le bs :: 'a::len word) k \<longleftrightarrow>
     k < LENGTH('a) \<and> k div 8 < length bs \<and> bit (bs ! (k div 8)) (k mod 8)"
  by (simp add: get_le_def bit_get_le_from)

lemma bit_nth_put_le:
  assumes "i < n"
  shows "bit (put_le n (v :: 'a::len word) ! i) k \<longleftrightarrow> k < 8 \<and> bit v (8 * i + k)"
  using assms by (auto simp: put_le_def bit_ucast_iff bit_drop_bit_eq)

lemma get_put_le [simp, wire_simps]:
  fixes v :: "'a::len word"
  assumes "LENGTH('a) = 8 * n"
  shows "get_le (put_le n v) = v"
proof (rule bit_word_eqI)
  fix k
  assume k: "k < LENGTH('a)"
  then have "k div 8 < n" using assms by auto
  with k show "bit (get_le (put_le n v) :: 'a word) k = bit v k"
    by (simp add: bit_get_le bit_nth_put_le)
qed

lemma put_get_le:
  fixes bs :: bytes
  assumes "length bs = n" and "8 * n = LENGTH('a::len)"
  shows "put_le n (get_le bs :: 'a word) = bs"
proof (rule nth_equalityI)
  show "length (put_le n (get_le bs :: 'a word)) = length bs" using assms by simp
next
  fix i
  assume "i < length (put_le n (get_le bs :: 'a word))"
  then have i: "i < n" by simp
  show "put_le n (get_le bs :: 'a word) ! i = bs ! i"
  proof (rule bit_word_eqI)
    fix k
    assume k: "k < LENGTH(8)"
    have "(8 * i + k) div 8 = i" "(8 * i + k) mod 8 = k" using k by auto
    with i k assms show "bit (put_le n (get_le bs :: 'a word) ! i) k = bit (bs ! i) k"
      by (simp add: bit_nth_put_le bit_get_le)
  qed
qed

lemma get_le_put_le_32 [simp, wire_simps]: "get_le (put_le 4 v) = (v :: u32)"
  by simp

lemma get_le_put_le_64 [simp, wire_simps]: "get_le (put_le 8 v) = (v :: u64)"
  by simp

section \<open>Lists and maps\<close>

lemma map_of_filter_fst:
  "map_of (filter (\<lambda>(k, v). P k) kvs) x = (if P x then map_of kvs x else None)"
  by (induction kvs) auto

lemma sorted_wrt_snoc:
  fixes xs :: "'a::linorder list"
  shows "sorted_wrt (<) (xs @ [x]) \<longleftrightarrow> sorted_wrt (<) xs \<and> (\<forall>y\<in>set xs. y < x)"
  by (auto simp: sorted_wrt_append)

end
