(* ===== verification/Ids.thy ===== *)
theory Ids
  imports Quark_Prelude
begin

text \<open>
  The identity value types of \<open>include/quark/core/ids.hpp\<close>, the integer mixers of
  \<open>include/quark/detail/hash.hpp\<close> and the principal of \<open>include/quark/core/principal.hpp\<close>.
  The one-field structs NodeId, ClusterId and TypeKey are their 64-bit value; ActorId, FenceToken
  and Principal keep their constructors.  FenceToken carries the order the store's fence check uses,
  as an instance of \<open>linorder\<close>.
\<close>

type_synonym node_id = u64
type_synonym cluster_id = u64
type_synonym type_key = u64

section \<open>Mixers\<close>

definition splitmix64 :: "u64 \<Rightarrow> u64" where
  "splitmix64 x0 =
     (let x1 = x0 + 0x9E3779B97F4A7C15;
          x2 = (x1 XOR drop_bit 30 x1) * 0xBF58476D1CE4E5B9;
          x3 = (x2 XOR drop_bit 27 x2) * 0x94D049BB133111EB
      in x3 XOR drop_bit 31 x3)"

definition hash_combine :: "u64 \<Rightarrow> u64 \<Rightarrow> u64" where
  "hash_combine a b = splitmix64 (a XOR (b + 0x9E3779B97F4A7C15 + push_bit 6 a + drop_bit 2 a))"

section \<open>Node and actor identity\<close>

definition kClientNodeBit :: u64 where
  "kClientNodeBit = push_bit 63 1"

definition is_client_node :: "node_id \<Rightarrow> bool" where
  "is_client_node n \<longleftrightarrow> n AND kClientNodeBit \<noteq> 0"

lemma is_client_node_iff_bit: "is_client_node n \<longleftrightarrow> bit n 63"
proof -
  have "bit (n AND kClientNodeBit) k \<longleftrightarrow> k = 63 \<and> bit n 63" for k
    unfolding kClientNodeBit_def bit_and_iff bit_push_bit_iff bit_1_iff
    by (cases k "63::nat" rule: linorder_cases) auto
  then show ?thesis by (auto simp: is_client_node_def word_bits_eq_iff)
qed

datatype actor_id = ActorId (aid_type: type_key) (aid_key: u64)

definition actor_hash :: "actor_id \<Rightarrow> u64" where
  "actor_hash a = hash_combine (aid_type a) (aid_key a)"

section \<open>Fencing tokens\<close>

datatype fence_token = FenceToken (token_value: u64)

instantiation fence_token :: linorder
begin

definition less_fence_token :: "fence_token \<Rightarrow> fence_token \<Rightarrow> bool" where
  "less_fence_token a b \<longleftrightarrow> token_value a < token_value b"

definition less_eq_fence_token :: "fence_token \<Rightarrow> fence_token \<Rightarrow> bool" where
  "less_eq_fence_token a b \<longleftrightarrow> token_value a \<le> token_value b"

instance
  by standard (auto simp: less_fence_token_def less_eq_fence_token_def fence_token.expand)

end

lemma fence_less_iff [simp]: "FenceToken a < FenceToken b \<longleftrightarrow> a < b"
  by (simp add: less_fence_token_def)

lemma fence_le_iff [simp]: "FenceToken a \<le> FenceToken b \<longleftrightarrow> a \<le> b"
  by (simp add: less_eq_fence_token_def)

section \<open>Principals\<close>

record principal =
  subject :: u64
  rights :: u64

definition anonymous :: "principal \<Rightarrow> bool" where
  "anonymous p \<longleftrightarrow> subject p = 0 \<and> rights p = 0"

definition dominates :: "principal \<Rightarrow> principal \<Rightarrow> bool" where
  "dominates holder other \<longleftrightarrow> rights other AND NOT (rights holder) = 0"

definition is_amplification :: "principal \<Rightarrow> principal \<Rightarrow> bool" where
  "is_amplification inbound requested \<longleftrightarrow> rights requested AND NOT (rights inbound) \<noteq> 0"

definition attenuate :: "principal \<Rightarrow> principal \<Rightarrow> principal" where
  "attenuate inbound requested =
     \<lparr>subject = subject requested, rights = rights inbound AND rights requested\<rparr>"

definition inherit_principal :: "principal \<Rightarrow> principal" where
  "inherit_principal inbound = inbound"

lemma and_not_eq_0_iff:
  fixes a b :: u64
  shows "a AND NOT b = 0 \<longleftrightarrow> (\<forall>k. bit a k \<longrightarrow> bit b k)"
proof -
  have "bit (a AND NOT b) k \<longleftrightarrow> bit a k \<and> \<not> bit b k" for k
    by (auto simp: bit_and_iff bit_not_iff dest: bit_imp_le_length)
  then show ?thesis by (auto simp: word_bits_eq_iff)
qed

lemma dominates_trans: "dominates a b \<Longrightarrow> dominates b c \<Longrightarrow> dominates a c"
  by (auto simp: dominates_def and_not_eq_0_iff)

lemma dominates_attenuate: "dominates inbound (attenuate inbound requested)"
  by (simp add: dominates_def attenuate_def and_not_eq_0_iff bit_and_iff)

lemma attenuate_unchanged_iff:
  "rights (attenuate inbound requested) = rights requested \<longleftrightarrow> \<not> is_amplification inbound requested"
proof -
  have "rights (attenuate inbound requested) = rights requested \<longleftrightarrow>
      (\<forall>k. bit (rights requested) k \<longrightarrow> bit (rights inbound) k)"
    by (auto simp: attenuate_def word_bits_eq_iff bit_and_iff)
  then show ?thesis by (simp add: is_amplification_def and_not_eq_0_iff)
qed

text \<open>A chain of sends, each hop stamping its own requested principal.\<close>

definition attenuate_chain :: "principal \<Rightarrow> principal list \<Rightarrow> principal" where
  "attenuate_chain p reqs = fold (\<lambda>r acc. attenuate acc r) reqs p"

lemma attenuate_chain_dominated: "dominates p (attenuate_chain p reqs)"
proof (induction reqs arbitrary: p)
  case Nil
  then show ?case by (simp add: attenuate_chain_def dominates_def and_not_eq_0_iff)
next
  case (Cons r rs)
  have "dominates (attenuate p r) (attenuate_chain (attenuate p r) rs)" by (rule Cons)
  then have "dominates p (attenuate_chain (attenuate p r) rs)"
    by (rule dominates_trans [OF dominates_attenuate])
  then show ?case by (simp add: attenuate_chain_def)
qed

end
