(* ===== verification/Flat_Actor_Map.thy ===== *)
theory Flat_Actor_Map
  imports Ids
begin

text \<open>
  \<open>include/quark/detail/flat_actor_map.hpp\<close>: the open-addressing registry behind
  \<open>Engine::resolve\<close>.  A slot is empty when its value is the null pointer (\<open>None\<close>).  The probe
  loops of the source have no bound of their own; here they carry one step of fuel per slot, and
  running out of it (\<open>None\<close>) stands for a loop that never returns.  The lemmas show that this never
  happens on a well-formed table and that the table implements a partial map.  The locale
  \<open>actor_registry\<close> states what a client of the registry may rely on.
\<close>

section \<open>The table\<close>

record 'v slot =
  slot_key :: actor_id
  slot_value :: "'v option"

record 'v flat_map =
  fm_slots :: "'v slot list"
  fm_size :: nat

definition kMinCapacity :: nat where
  "kMinCapacity = 16"

definition empty_slot :: "'v slot" where
  "empty_slot = \<lparr>slot_key = ActorId 0 0, slot_value = None\<rparr>"

definition flat_init :: "'v flat_map" where
  "flat_init = \<lparr>fm_slots = replicate kMinCapacity empty_slot, fm_size = 0\<rparr>"

definition home_index :: "nat \<Rightarrow> actor_id \<Rightarrow> nat" where
  "home_index cap aid = unat (actor_hash aid) AND (cap - 1)"

fun probe_from :: "'v slot list \<Rightarrow> actor_id \<Rightarrow> nat \<Rightarrow> nat \<Rightarrow> nat option" where
  "probe_from slots aid i 0 = None"
| "probe_from slots aid i (Suc fuel) =
     (if slot_value (slots ! i) \<noteq> None \<and> slot_key (slots ! i) \<noteq> aid
      then probe_from slots aid ((i + 1) AND (length slots - 1)) fuel
      else Some i)"

definition probe :: "'v slot list \<Rightarrow> actor_id \<Rightarrow> nat option" where
  "probe slots aid = probe_from slots aid (home_index (length slots) aid) (length slots)"

fun find_from :: "'v slot list \<Rightarrow> actor_id \<Rightarrow> nat \<Rightarrow> nat \<Rightarrow> 'v option option" where
  "find_from slots aid i 0 = None"
| "find_from slots aid i (Suc fuel) =
     (case slot_value (slots ! i) of
        None \<Rightarrow> Some None
      | Some v \<Rightarrow>
          if slot_key (slots ! i) = aid then Some (Some v)
          else find_from slots aid ((i + 1) AND (length slots - 1)) fuel)"

definition flat_find :: "'v flat_map \<Rightarrow> actor_id \<Rightarrow> 'v option option" where
  "flat_find m aid =
     find_from (fm_slots m) aid (home_index (length (fm_slots m)) aid) (length (fm_slots m))"

fun grow_into :: "'v slot list \<Rightarrow> 'v slot list \<Rightarrow> 'v slot list option" where
  "grow_into [] acc = Some acc"
| "grow_into (s # ss) acc =
     (if slot_value s \<noteq> None
      then (case probe acc (slot_key s) of
              None \<Rightarrow> None
            | Some i \<Rightarrow> grow_into ss (acc[i := s]))
      else grow_into ss acc)"

definition grow :: "'v slot list \<Rightarrow> 'v slot list option" where
  "grow slots = grow_into slots (replicate (length slots * 2) empty_slot)"

definition insert_or_assign :: "'v flat_map \<Rightarrow> actor_id \<Rightarrow> 'v \<Rightarrow> 'v flat_map option" where
  "insert_or_assign m aid v =
     (let grown = (if (fm_size m + 1) * 2 > length (fm_slots m)
                   then grow (fm_slots m) else Some (fm_slots m))
      in case grown of
           None \<Rightarrow> None
         | Some slots \<Rightarrow>
             (case probe slots aid of
                None \<Rightarrow> None
              | Some i \<Rightarrow>
                  Some \<lparr>fm_slots = slots[i := \<lparr>slot_key = aid, slot_value = Some v\<rparr>],
                        fm_size = (if slot_value (slots ! i) = None then fm_size m + 1
                                   else fm_size m)\<rparr>))"

section \<open>Probing\<close>

definition stops :: "'v slot list \<Rightarrow> actor_id \<Rightarrow> nat \<Rightarrow> bool" where
  "stops slots aid j \<longleftrightarrow> slot_value (slots ! j) = None \<or> slot_key (slots ! j) = aid"

definition pow2_length :: "'v slot list \<Rightarrow> bool" where
  "pow2_length slots \<longleftrightarrow> (\<exists>k. length slots = 2 ^ k)"

lemma pow2_length_pos: "pow2_length slots \<Longrightarrow> 0 < length slots"
  by (auto simp: pow2_length_def)

lemma next_index_mod [simp]:
  "pow2_length slots \<Longrightarrow> x AND (length slots - Suc 0) = x mod length slots"
  using and_mask_eq_mod by (fastforce simp: pow2_length_def)

lemma home_index_less: "pow2_length slots \<Longrightarrow> home_index (length slots) aid < length slots"
  by (simp add: home_index_def mod_less_divisor [OF pow2_length_pos])

lemma mod_Suc_shift [simp]: "(Suc i mod n + t) mod n = Suc (i + t) mod (n::nat)"
  by (simp add: mod_simps)

lemma probe_from_SomeD:
  assumes "pow2_length slots" and "i < length slots" and "probe_from slots aid i fuel = Some j"
  shows "\<exists>t<fuel. j = (i + t) mod length slots \<and> stops slots aid j \<and>
           (\<forall>u<t. \<not> stops slots aid ((i + u) mod length slots))"
  using assms(2,3)
proof (induction fuel arbitrary: i)
  case 0
  then show ?case by simp
next
  case (Suc fuel)
  show ?case
  proof (cases "stops slots aid i")
    case True
    with Suc.prems have "j = i" by (auto simp: stops_def)
    with True Suc.prems show ?thesis by (intro exI [of _ 0]) auto
  next
    case False
    let ?i = "Suc i mod length slots"
    have i': "?i < length slots" using pow2_length_pos [OF assms(1)] by simp
    from False Suc.prems have "probe_from slots aid ?i fuel = Some j"
      using assms(1) by (auto simp: stops_def)
    from Suc.IH [OF i' this] obtain t where t: "t < fuel" "j = (?i + t) mod length slots"
      "stops slots aid j" "\<forall>u<t. \<not> stops slots aid ((?i + u) mod length slots)" by blast
    have "\<forall>u<Suc t. \<not> stops slots aid ((i + u) mod length slots)"
    proof (intro allI impI)
      fix u
      assume "u < Suc t"
      then show "\<not> stops slots aid ((i + u) mod length slots)"
        using False t(4) Suc.prems(1) by (cases u) auto
    qed
    with t Suc.prems(1) show ?thesis by (intro exI [of _ "Suc t"]) auto
  qed
qed

lemma probe_from_SomeI:
  assumes "pow2_length slots" and "i < length slots" and "t < fuel"
    and "stops slots aid ((i + t) mod length slots)"
    and "\<forall>u<t. \<not> stops slots aid ((i + u) mod length slots)"
  shows "probe_from slots aid i fuel = Some ((i + t) mod length slots)"
  using assms(2-)
proof (induction fuel arbitrary: i t)
  case 0
  then show ?case by simp
next
  case (Suc fuel)
  show ?case
  proof (cases t)
    case 0
    with Suc.prems show ?thesis by (auto simp: stops_def)
  next
    case (Suc t')
    let ?i = "Suc i mod length slots"
    have i': "?i < length slots" using pow2_length_pos [OF assms(1)] by simp
    have ns: "\<not> stops slots aid i" using Suc.prems(1,4) \<open>t = Suc t'\<close> by force
    have "probe_from slots aid ?i fuel = Some ((?i + t') mod length slots)"
    proof (rule Suc.IH [OF i'])
      show "t' < fuel" using Suc.prems(2) \<open>t = Suc t'\<close> by simp
      show "stops slots aid ((?i + t') mod length slots)"
        using Suc.prems(3) \<open>t = Suc t'\<close> by simp
      show "\<forall>u<t'. \<not> stops slots aid ((?i + u) mod length slots)"
        using Suc.prems(4) \<open>t = Suc t'\<close> by force
    qed
    with ns Suc.prems(1) \<open>t = Suc t'\<close> assms(1) show ?thesis
      by (auto simp: stops_def)
  qed
qed

lemma find_from_probe_from:
  "find_from slots aid i fuel = map_option (\<lambda>j. slot_value (slots ! j)) (probe_from slots aid i fuel)"
  by (induction fuel arbitrary: i) (auto split: option.splits)

lemma flat_find_probe:
  "flat_find m aid = map_option (\<lambda>j. slot_value (fm_slots m ! j)) (probe (fm_slots m) aid)"
  by (simp add: flat_find_def probe_def find_from_probe_from)

lemma probe_SomeD:
  assumes "pow2_length slots" and "probe slots aid = Some j"
  shows "j < length slots" and "stops slots aid j"
  using probe_from_SomeD [OF assms(1) home_index_less [OF assms(1)] assms(2) [unfolded probe_def]]
    pow2_length_pos [OF assms(1)] by auto

lemma probe_total:
  assumes p2: "pow2_length slots" and j: "j < length slots" and st: "stops slots aid j"
  shows "\<exists>i. probe slots aid = Some i"
proof -
  let ?h = "home_index (length slots) aid" and ?n = "length slots"
  have h: "?h < ?n" by (rule home_index_less [OF p2])
  define t0 where "t0 = (j + (?n - ?h)) mod ?n"
  have "(?h + t0) mod ?n = (?h + (j + (?n - ?h))) mod ?n" by (simp add: t0_def mod_simps)
  also have "\<dots> = (j + ?n) mod ?n" using h by simp
  also have "\<dots> = j" using j by simp
  finally have P0: "stops slots aid ((?h + t0) mod ?n)" using st by simp
  define t where "t = (LEAST t. stops slots aid ((?h + t) mod ?n))"
  have "stops slots aid ((?h + t) mod ?n)" using P0 unfolding t_def by (rule LeastI)
  moreover have "t \<le> t0" using P0 unfolding t_def by (rule Least_le)
  then have "t < ?n" using pow2_length_pos [OF p2] by (simp add: t0_def order_le_less_trans)
  moreover have "\<forall>u<t. \<not> stops slots aid ((?h + u) mod ?n)"
    using not_less_Least t_def by blast
  ultimately show ?thesis
    using probe_from_SomeI [OF p2 h] unfolding probe_def by blast
qed

section \<open>Well-formed tables\<close>

text \<open>
  A table is well formed when its length is a power of two and probing for the key of an occupied
  slot arrives at that slot: this says both that no key is stored twice and that no probe sequence
  is interrupted.
\<close>

definition wf_table :: "'v slot list \<Rightarrow> bool" where
  "wf_table slots \<longleftrightarrow> pow2_length slots \<and>
     (\<forall>j<length slots. slot_value (slots ! j) \<noteq> None \<longrightarrow> probe slots (slot_key (slots ! j)) = Some j)"

definition occupied :: "'v slot list \<Rightarrow> nat" where
  "occupied slots = card {j. j < length slots \<and> slot_value (slots ! j) \<noteq> None}"

definition table_map :: "'v slot list \<Rightarrow> actor_id \<Rightarrow> 'v option" where
  "table_map slots aid = Option.bind (probe slots aid) (\<lambda>j. slot_value (slots ! j))"

lemma has_empty_slot:
  assumes "occupied slots < length slots"
  shows "\<exists>j<length slots. slot_value (slots ! j) = None"
proof (rule ccontr)
  assume "\<not> ?thesis"
  then have "{j. j < length slots \<and> slot_value (slots ! j) \<noteq> None} = {..<length slots}" by auto
  then show False using assms by (simp add: occupied_def)
qed

lemma probe_returns:
  assumes "wf_table slots" and "occupied slots < length slots"
  shows "\<exists>j. probe slots aid = Some j"
  using has_empty_slot [OF assms(2)] probe_total assms(1) by (fastforce simp: wf_table_def stops_def)

lemma table_map_Some_iff:
  assumes wf: "wf_table slots"
  shows "table_map slots aid = Some v \<longleftrightarrow>
     (\<exists>j<length slots. slot_key (slots ! j) = aid \<and> slot_value (slots ! j) = Some v)"
proof
  assume "table_map slots aid = Some v"
  then obtain j where j: "probe slots aid = Some j" "slot_value (slots ! j) = Some v"
    by (auto simp: table_map_def bind_eq_Some_conv)
  with probe_SomeD [of slots aid j] wf
  show "\<exists>j<length slots. slot_key (slots ! j) = aid \<and> slot_value (slots ! j) = Some v"
    by (auto simp: wf_table_def stops_def)
next
  assume "\<exists>j<length slots. slot_key (slots ! j) = aid \<and> slot_value (slots ! j) = Some v"
  then show "table_map slots aid = Some v" using wf by (auto simp: wf_table_def table_map_def)
qed

lemma inj_on_occupied_key:
  assumes "wf_table slots"
  shows "inj_on (\<lambda>j. slot_key (slots ! j)) {j. j < length slots \<and> slot_value (slots ! j) \<noteq> None}"
  using assms by (intro inj_onI) (metis (mono_tags, lifting) mem_Collect_eq option.inject wf_table_def)

lemma occupied_eq_card_dom:
  assumes wf: "wf_table slots"
  shows "occupied slots = card (dom (table_map slots))"
proof -
  have "dom (table_map slots) =
      (\<lambda>j. slot_key (slots ! j)) ` {j. j < length slots \<and> slot_value (slots ! j) \<noteq> None}"
    by (auto simp: dom_def table_map_Some_iff [OF wf])
  then show ?thesis
    unfolding occupied_def using card_image [OF inj_on_occupied_key [OF wf]] by metis
qed

lemma probe_update:
  assumes p2: "pow2_length slots" and j: "probe slots aid = Some j" and j': "probe slots aid' = Some j'"
    and diff: "j' = j \<Longrightarrow> aid' = aid"
    and x: "slot_key x = aid" "slot_value x \<noteq> None"
    and occ: "slot_value (slots ! j') \<noteq> None \<or> j' = j"
  shows "probe (slots[j := x]) aid' = Some j'"
proof -
  let ?s = "slots[j := x]" and ?h = "home_index (length slots) aid'" and ?n = "length slots"
  have jn: "j < ?n" and stj: "stops slots aid j" using probe_SomeD [OF p2 j] by auto
  have h: "?h < ?n" by (rule home_index_less [OF p2])
  from probe_from_SomeD [OF p2 h j' [unfolded probe_def]]
  obtain t where t: "t < ?n" "j' = (?h + t) mod ?n" "stops slots aid' j'"
    "\<forall>u<t. \<not> stops slots aid' ((?h + u) mod ?n)" by blast
  have p2': "pow2_length ?s" using p2 by (simp add: pow2_length_def)
  have "stops ?s aid' j'" using t(3) occ diff jn x by (auto simp: stops_def nth_list_update)
  moreover have "\<not> stops ?s aid' ((?h + u) mod ?n)" if u: "u < t" for u
  proof -
    let ?p = "(?h + u) mod ?n"
    have ns: "\<not> stops slots aid' ?p" using t(4) u by blast
    show ?thesis
    proof (cases "?p = j")
      case True
      with ns stj have "aid \<noteq> aid'" by (auto simp: stops_def)
      with True jn x show ?thesis by (auto simp: stops_def)
    next
      case False
      with ns show ?thesis by (simp add: stops_def)
    qed
  qed
  ultimately have "probe_from ?s aid' ?h (length ?s) = Some ((?h + t) mod length ?s)"
    using p2' h t(1,2) by (intro probe_from_SomeI) auto
  then show ?thesis using t(2) by (simp add: probe_def)
qed

lemma wf_table_insert:
  assumes wf: "wf_table slots" and j: "probe slots aid = Some j"
    and x: "slot_key x = aid" "slot_value x = Some v"
  shows "wf_table (slots[j := x])" and "table_map (slots[j := x]) = (table_map slots)(aid \<mapsto> v)"
proof -
  let ?s = "slots[j := x]"
  have p2: "pow2_length slots" using wf by (simp add: wf_table_def)
  have jn: "j < length slots" and stj: "stops slots aid j" using probe_SomeD [OF p2 j] by auto
  have step: "probe ?s (slot_key (?s ! i)) = Some i"
    if i: "i < length slots" "slot_value (?s ! i) \<noteq> None" for i
  proof (cases "i = j")
    case True
    then show ?thesis using probe_update [OF p2 j j] x jn by simp
  next
    case False
    with i wf have p: "probe slots (slot_key (slots ! i)) = Some i" by (simp add: wf_table_def)
    have "probe ?s (slot_key (slots ! i)) = Some i"
      using False i x by (intro probe_update [OF p2 j p]) auto
    with False show ?thesis by simp
  qed
  show wf': "wf_table ?s" using step p2 by (simp add: wf_table_def pow2_length_def)
  show "table_map ?s = (table_map slots)(aid \<mapsto> v)"
  proof (rule ext)
    fix aid'
    show "table_map ?s aid' = ((table_map slots)(aid \<mapsto> v)) aid'"
    proof (cases "aid' = aid")
      case True
      have "table_map ?s aid = Some v" unfolding table_map_Some_iff [OF wf']
        using jn x by (intro exI [of _ j]) simp
      with True show ?thesis by simp
    next
      case False
      have "table_map ?s aid' = Some w \<longleftrightarrow> table_map slots aid' = Some w" for w
        unfolding table_map_Some_iff [OF wf'] table_map_Some_iff [OF wf]
        using False jn stj x by (auto simp: nth_list_update stops_def split: if_splits) (metis option.distinct(1))+
      then show ?thesis using False by (metis fun_upd_other not_Some_eq)
    qed
  qed
qed

section \<open>Growing and inserting\<close>

definition slot_pairs :: "'v slot list \<Rightarrow> (actor_id \<times> 'v) list" where
  "slot_pairs ss = List.map_filter (\<lambda>s. map_option (Pair (slot_key s)) (slot_value s)) ss"

lemma slot_pairs_simps [simp]:
  "slot_pairs [] = []"
  "slot_pairs (s # ss) =
     (case slot_value s of None \<Rightarrow> slot_pairs ss | Some v \<Rightarrow> (slot_key s, v) # slot_pairs ss)"
  by (auto simp: slot_pairs_def List.map_filter_def split: option.splits)

lemma wf_table_replicate: "pow2_length (replicate n (empty_slot :: 'v slot)) \<Longrightarrow>
    wf_table (replicate n (empty_slot :: 'v slot))"
  by (simp add: wf_table_def empty_slot_def)

lemma occupied_replicate [simp]: "occupied (replicate n empty_slot) = 0"
  by (simp add: occupied_def empty_slot_def)

lemma table_map_replicate:
  assumes "pow2_length (replicate n (empty_slot :: 'v slot))"
  shows "table_map (replicate n (empty_slot :: 'v slot)) = Map.empty"
proof (rule ext)
  fix x
  show "table_map (replicate n (empty_slot :: 'v slot)) x = None"
    using probe_SomeD(1) [OF assms, of x]
    by (cases "probe (replicate n (empty_slot :: 'v slot)) x") (auto simp: table_map_def empty_slot_def)
qed

lemma finite_dom_table_map: "wf_table slots \<Longrightarrow> finite (dom (table_map slots))"
  by (rule finite_subset [where B = "(\<lambda>j. slot_key (slots ! j)) ` {..<length slots}"])
    (auto simp: table_map_Some_iff dom_def)

lemma occupied_insert:
  assumes wf: "wf_table slots" and j: "probe slots aid = Some j"
    and x: "slot_key x = aid" "slot_value x = Some v"
  shows "occupied (slots[j := x]) =
    (if slot_value (slots ! j) = None then Suc (occupied slots) else occupied slots)"
proof -
  have "slot_value (slots ! j) = None \<longleftrightarrow> aid \<notin> dom (table_map slots)"
    using j by (auto simp: table_map_def)
  moreover have "occupied (slots[j := x]) = card (insert aid (dom (table_map slots)))"
    using occupied_eq_card_dom [OF wf_table_insert(1) [OF wf j x]] wf_table_insert(2) [OF wf j x] by simp
  ultimately show ?thesis
    using finite_dom_table_map [OF wf] occupied_eq_card_dom [OF wf]
    by (auto simp: card_insert_if insert_absorb)
qed

lemma grow_into_correct:
  assumes "wf_table acc" and "occupied acc + length (slot_pairs ss) < length acc"
  shows "\<exists>acc'. grow_into ss acc = Some acc' \<and> wf_table acc' \<and> length acc' = length acc \<and>
           table_map acc' = table_map acc ++ map_of (rev (slot_pairs ss))"
  using assms
proof (induction ss arbitrary: acc)
  case Nil
  then show ?case by simp
next
  case (Cons s ss)
  show ?case
  proof (cases "slot_value s")
    case None
    with Cons show ?thesis by simp
  next
    case (Some v)
    with Cons.prems obtain j where j: "probe acc (slot_key s) = Some j"
      using probe_returns [OF Cons.prems(1), of "slot_key s"] by auto
    let ?acc = "acc[j := s]"
    note ins = wf_table_insert [OF Cons.prems(1) j refl Some]
    have "occupied ?acc + length (slot_pairs ss) < length ?acc"
      using Cons.prems(2) Some occupied_insert [OF Cons.prems(1) j refl Some] by auto
    from Cons.IH [OF ins(1) this] obtain acc' where "grow_into ss ?acc = Some acc'" "wf_table acc'"
      "length acc' = length acc" "table_map acc' = table_map ?acc ++ map_of (rev (slot_pairs ss))"
      by auto
    with ins(2) Some j show ?thesis by (simp add: map_add_def fun_eq_iff split: option.splits)
  qed
qed

lemma length_slot_pairs: "length (slot_pairs slots) = occupied slots"
proof -
  have "length (slot_pairs slots) = length (filter (\<lambda>s. slot_value s \<noteq> None) slots)"
    by (induction slots) (auto split: option.splits)
  then show ?thesis by (simp add: occupied_def length_filter_conv_card)
qed

lemma set_slot_pairs:
  "(k, v) \<in> set (slot_pairs slots) \<longleftrightarrow> (\<exists>j<length slots. slot_key (slots ! j) = k \<and> slot_value (slots ! j) = Some v)"
proof -
  have "(k, v) \<in> set (slot_pairs slots) \<longleftrightarrow> (\<exists>s\<in>set slots. slot_key s = k \<and> slot_value s = Some v)"
    by (induction slots) (auto split: option.splits)
  then show ?thesis by (metis in_set_conv_nth)
qed

lemma map_of_rev_slot_pairs:
  assumes wf: "wf_table slots"
  shows "map_of (rev (slot_pairs slots)) = table_map slots"
proof (rule ext)
  fix k
  have uniq: "v = w" if "(k, v) \<in> set (slot_pairs slots)" "(k, w) \<in> set (slot_pairs slots)" for v w
    using that wf by (metis option.inject set_slot_pairs table_map_Some_iff)
  have "map_of (rev (slot_pairs slots)) k = Some v \<longleftrightarrow> (k, v) \<in> set (slot_pairs slots)" for v
  proof
    assume "map_of (rev (slot_pairs slots)) k = Some v"
    then show "(k, v) \<in> set (slot_pairs slots)" by (auto dest: map_of_SomeD)
  next
    assume kv: "(k, v) \<in> set (slot_pairs slots)"
    then obtain w where w: "map_of (rev (slot_pairs slots)) k = Some w"
      by (metis map_of_eq_None_iff image_eqI fst_conv set_rev not_Some_eq)
    then have "(k, w) \<in> set (slot_pairs slots)" by (auto dest: map_of_SomeD)
    with uniq kv w show "map_of (rev (slot_pairs slots)) k = Some v" by blast
  qed
  then show "map_of (rev (slot_pairs slots)) k = table_map slots k"
    by (metis not_Some_eq set_slot_pairs table_map_Some_iff [OF wf])
qed

lemma grow_correct:
  assumes wf: "wf_table slots"
  shows "\<exists>slots'. grow slots = Some slots' \<and> wf_table slots' \<and>
           length slots' = length slots * 2 \<and> table_map slots' = table_map slots"
proof -
  let ?acc = "replicate (length slots * 2) empty_slot :: 'a slot list"
  obtain k where k: "length slots = 2 ^ k" using wf by (auto simp: wf_table_def pow2_length_def)
  then have "length slots * 2 = 2 ^ Suc k" by simp
  then have p2: "pow2_length ?acc" unfolding pow2_length_def length_replicate by blast
  have "occupied slots \<le> length slots"
    unfolding occupied_def by (rule order_trans [OF card_mono [of "{..<length slots}"]]) auto
  moreover have "0 < length slots" using k by simp
  ultimately have "occupied ?acc + length (slot_pairs slots) < length ?acc"
    unfolding length_slot_pairs length_replicate occupied_replicate by linarith
  from grow_into_correct [OF wf_table_replicate [OF p2] this] show ?thesis
    by (auto simp: grow_def table_map_replicate [OF p2] map_of_rev_slot_pairs [OF wf])
qed

section \<open>The registry\<close>

text \<open>The invariant every registry state keeps: a well-formed table at most half full.\<close>

definition flat_inv :: "'v flat_map \<Rightarrow> bool" where
  "flat_inv m \<longleftrightarrow> wf_table (fm_slots m) \<and> fm_size m = occupied (fm_slots m) \<and>
     fm_size m * 2 \<le> length (fm_slots m)"

definition flat_map_of :: "'v flat_map \<Rightarrow> actor_id \<Rightarrow> 'v option" where
  "flat_map_of m = table_map (fm_slots m)"

lemma flat_inv_init: "flat_inv flat_init" and flat_map_of_init: "flat_map_of flat_init = Map.empty"
proof -
  have "pow2_length (replicate 16 (empty_slot :: 'v slot))"
    unfolding pow2_length_def by (intro exI [of _ 4]) simp
  then show "flat_inv (flat_init :: 'v flat_map)" and "flat_map_of flat_init = (Map.empty :: _ \<Rightarrow> 'v option)"
    using wf_table_replicate table_map_replicate
    by (auto simp: flat_inv_def flat_init_def kMinCapacity_def flat_map_of_def)
qed

lemma flat_inv_room: "flat_inv m \<Longrightarrow> occupied (fm_slots m) < length (fm_slots m)"
proof -
  assume "flat_inv m"
  then have "0 < length (fm_slots m)" "occupied (fm_slots m) * 2 \<le> length (fm_slots m)"
    using pow2_length_pos by (auto simp: flat_inv_def wf_table_def)
  then show "occupied (fm_slots m) < length (fm_slots m)" by linarith
qed

lemma flat_find_correct:
  assumes "flat_inv m"
  shows "flat_find m aid = Some (flat_map_of m aid)"
  using assms probe_returns [of "fm_slots m" aid] flat_inv_room [OF assms]
  by (auto simp: flat_inv_def flat_find_probe flat_map_of_def table_map_def)

lemma insert_or_assign_correct:
  assumes inv: "flat_inv m"
  shows "\<exists>m'. insert_or_assign m aid v = Some m' \<and> flat_inv m' \<and>
           flat_map_of m' = (flat_map_of m)(aid \<mapsto> v)"
proof -
  have wf: "wf_table (fm_slots m)" using inv by (simp add: flat_inv_def)
  define grown where "grown = (if (fm_size m + 1) * 2 > length (fm_slots m)
    then grow (fm_slots m) else Some (fm_slots m))"
  obtain s where s: "grown = Some s" "wf_table s" "table_map s = table_map (fm_slots m)"
    "(fm_size m + 1) * 2 \<le> length s"
  proof (cases "(fm_size m + 1) * 2 > length (fm_slots m)")
    case True
    obtain s where "grow (fm_slots m) = Some s" "wf_table s"
      "length s = length (fm_slots m) * 2" "table_map s = table_map (fm_slots m)"
      using grow_correct [OF wf] by blast
    moreover from this have "(fm_size m + 1) * 2 \<le> length s"
      using inv flat_inv_room [OF inv] by (auto simp: flat_inv_def)
    ultimately show ?thesis using that True by (simp add: grown_def)
  next
    case False
    with that wf show ?thesis by (simp add: grown_def)
  qed
  have occ: "occupied s = fm_size m"
    using inv s(2,3) wf by (simp add: flat_inv_def occupied_eq_card_dom)
  then obtain i where i: "probe s aid = Some i" using probe_returns [OF s(2)] s(4) by fastforce
  let ?x = "\<lparr>slot_key = aid, slot_value = Some v\<rparr>"
  have x: "slot_key ?x = aid" "slot_value ?x = Some v" by simp_all
  note ins = wf_table_insert [OF s(2) i x] occupied_insert [OF s(2) i x]
  have "insert_or_assign m aid v = Some \<lparr>fm_slots = s[i := ?x],
      fm_size = (if slot_value (s ! i) = None then fm_size m + 1 else fm_size m)\<rparr>"
    using s(1) i by (simp add: insert_or_assign_def grown_def)
  then show ?thesis
    using ins s(3,4) occ by (simp add: flat_inv_def flat_map_of_def)
qed

lemma flat_size_correct: "flat_inv m \<Longrightarrow> fm_size m = card (dom (flat_map_of m))"
  by (simp add: flat_inv_def flat_map_of_def occupied_eq_card_dom)

subsection \<open>The registry interface\<close>

text \<open>
  What \<open>Engine\<close> relies on: registration returns, keeps the invariant and overwrites one key;
  lookup returns and answers from the map.  A start-up phase registers a list of actors in order.
\<close>

locale actor_registry =
  fixes init :: 'm
    and lookup :: "'m \<Rightarrow> actor_id \<Rightarrow> 'v option option"
    and register :: "'m \<Rightarrow> actor_id \<Rightarrow> 'v \<Rightarrow> 'm option"
    and inv :: "'m \<Rightarrow> bool"
    and view :: "'m \<Rightarrow> actor_id \<Rightarrow> 'v option"
  assumes reg_init: "inv init" "view init = Map.empty"
    and reg_lookup: "inv m \<Longrightarrow> lookup m aid = Some (view m aid)"
    and reg_register: "inv m \<Longrightarrow> \<exists>m'. register m aid v = Some m' \<and> inv m' \<and> view m' = (view m)(aid \<mapsto> v)"
begin

primrec register_all :: "'m \<Rightarrow> (actor_id \<times> 'v) list \<Rightarrow> 'm option" where
  "register_all m [] = Some m"
| "register_all m (x # xs) = Option.bind (register m (fst x) (snd x)) (\<lambda>m'. register_all m' xs)"

lemma register_all_view:
  "inv m \<Longrightarrow> \<exists>m'. register_all m xs = Some m' \<and> inv m' \<and> view m' = view m ++ map_of (rev xs)"
proof (induction xs arbitrary: m)
  case Nil
  then show ?case by simp
next
  case (Cons x xs)
  obtain m1 where m1: "register m (fst x) (snd x) = Some m1" "inv m1"
    "view m1 = (view m)(fst x \<mapsto> snd x)"
    using reg_register [OF Cons.prems] by blast
  obtain m' where m': "register_all m1 xs = Some m'" "inv m'" "view m' = view m1 ++ map_of (rev xs)"
    using Cons.IH [OF m1(2)] by blast
  have "view m ++ map_of (rev (x # xs)) = view m1 ++ map_of (rev xs)"
    unfolding m1(3) by (cases x) simp
  with m1 m' show ?case by simp
qed

lemma resolve_registered:
  "\<exists>m. register_all init xs = Some m \<and> (\<forall>aid. lookup m aid = Some (map_of (rev xs) aid))"
  using register_all_view [OF reg_init(1), of xs] reg_init(2) reg_lookup by fastforce

end

interpretation flat: actor_registry flat_init flat_find insert_or_assign flat_inv flat_map_of
  by unfold_locales
    (auto simp: flat_inv_init flat_map_of_init flat_find_correct intro: insert_or_assign_correct)

text \<open>The registration loop and lookup of the engine, over the flat table.\<close>

fun register_actors :: "'v flat_map \<Rightarrow> (actor_id \<times> 'v) list \<Rightarrow> 'v flat_map option" where
  "register_actors m [] = Some m"
| "register_actors m (x # xs) =
     Option.bind (insert_or_assign m (fst x) (snd x)) (\<lambda>m'. register_actors m' xs)"

lemma register_actors_eq: "register_actors m xs = flat.register_all m xs"
  by (induction m xs rule: register_actors.induct) (auto cong: Option.bind_cong)

section \<open>Property\<close>

text \<open>
  Property C39.  Start-up registration followed by lookup: registering any list of actors in order
  always returns, whatever their hashes and however often the table grows, and afterwards every
  lookup terminates and answers with the last value registered for the actor, or with null when
  the actor was never registered; the size counts the distinct actors.
\<close>

theorem flat_registry_resolves:
  "\<exists>m. register_actors flat_init xs = Some m \<and>
       (\<forall>aid. flat_find m aid = Some (map_of (rev xs) aid)) \<and>
       fm_size m = card (fst ` set xs)"
proof -
  obtain m where m: "flat.register_all flat_init xs = Some m" "flat_inv m"
    "flat_map_of m = flat_map_of flat_init ++ map_of (rev xs)"
    using flat.register_all_view [OF flat_inv_init] by blast
  then have "flat_map_of m = map_of (rev xs)" by (simp add: flat_map_of_init)
  with m show ?thesis
    by (auto simp: register_actors_eq flat_find_correct flat_size_correct dom_map_of_conv_image_fst)
qed

end
