(* ===== verification/Membership.thy ===== *)
theory Membership
  imports Ids
begin

text \<open>
  \<open>include/quark/core/membership.hpp\<close>: the membership view handed to placement, the event and
  health records of the seam, and \<open>InProcessMembership\<close>, the in-process provider.  A pinned
  snapshot is an immutable list, so a view is a value; a callback invocation is an event the
  operation returns.  The locale \<open>membership_seam\<close> is what a client of the seam may rely on.
\<close>

section \<open>Events, health and views\<close>

datatype member_status = Alive | Suspect | Dead | Left

datatype membership_event_kind =
    Joined | SuspectEvent | Recovered | DeadEvent | LeftEvent | VersionRefused | Evicted
  | Suspended | Resumed

datatype refusal_reason = NoRefusal | ClusterMismatch | WireVersionTooOld | WireVersionTooNew

record membership_event =
  ev_kind :: membership_event_kind
  ev_node :: node_id
  ev_incarnation :: u64
  ev_epoch :: u64
  ev_protocol_version :: u8
  ev_at_ns :: int
  ev_refusal :: refusal_reason
  ev_refused_by_peer :: bool

record node_health =
  nh_node :: node_id
  nh_state :: member_status
  nh_incarnation :: u64
  nh_protocol_version :: u8
  nh_verified :: bool
  nh_last_refusal :: refusal_reason
  nh_refused_version :: u8
  nh_suspended :: bool

record membership_view =
  view_nodes :: "node_id list"
  view_epoch :: u64

definition view_size :: "membership_view \<Rightarrow> nat" where
  "view_size v = length (view_nodes v)"

definition view_empty :: "membership_view \<Rightarrow> bool" where
  "view_empty v \<longleftrightarrow> view_size v = 0"

text \<open>\<open>std::binary_search\<close>: a lower bound, then one comparison.\<close>

definition std_lower_bound :: "u64 list \<Rightarrow> u64 \<Rightarrow> nat" where
  "std_lower_bound xs x = length (takeWhile (\<lambda>y. y < x) xs)"

definition std_binary_search :: "u64 list \<Rightarrow> u64 \<Rightarrow> bool" where
  "std_binary_search xs x \<longleftrightarrow>
     std_lower_bound xs x < length xs \<and> \<not> x < xs ! std_lower_bound xs x"

definition view_contains :: "membership_view \<Rightarrow> node_id \<Rightarrow> bool" where
  "view_contains v n \<longleftrightarrow> std_binary_search (view_nodes v) n"

lemma std_binary_search_correct:
  assumes "sorted_wrt (<) xs"
  shows "std_binary_search xs x \<longleftrightarrow> x \<in> set xs"
  using assms
proof (induction xs)
  case Nil
  then show ?case by (simp add: std_binary_search_def std_lower_bound_def)
next
  case (Cons y ys)
  then show ?case
    by (cases "y < x") (auto simp: std_binary_search_def std_lower_bound_def)
qed

section \<open>The in-process provider\<close>

record in_process_membership =
  ipm_self :: node_id
  ipm_snapshot :: "node_id list"
  ipm_epoch :: u64

definition publish_locked :: "in_process_membership \<Rightarrow> node_id list \<Rightarrow> in_process_membership" where
  "publish_locked m nodes =
     m\<lparr>ipm_snapshot := remdups_adj (sort nodes), ipm_epoch := ipm_epoch m + 1\<rparr>"

definition ipm_create :: "node_id \<Rightarrow> node_id list \<Rightarrow> in_process_membership" where
  "ipm_create self initial =
     publish_locked \<lparr>ipm_self = self, ipm_snapshot = [], ipm_epoch = 0\<rparr> initial"

definition ipm_view :: "in_process_membership \<Rightarrow> membership_view" where
  "ipm_view m = \<lparr>view_nodes = ipm_snapshot m, view_epoch = ipm_epoch m\<rparr>"

definition roster_event :: "membership_event_kind \<Rightarrow> node_id \<Rightarrow> u64 \<Rightarrow> membership_event" where
  "roster_event k n epoch =
     \<lparr>ev_kind = k, ev_node = n, ev_incarnation = 0, ev_epoch = epoch, ev_protocol_version = 0,
      ev_at_ns = 0, ev_refusal = NoRefusal, ev_refused_by_peer = False\<rparr>"

definition ipm_join ::
  "in_process_membership \<Rightarrow> node_id \<Rightarrow> in_process_membership \<times> membership_event option" where
  "ipm_join m n =
     (if n \<in> set (ipm_snapshot m) then (m, None)
      else let m' = publish_locked m (ipm_snapshot m @ [n])
           in (m', Some (roster_event Joined n (ipm_epoch m'))))"

definition ipm_leave ::
  "in_process_membership \<Rightarrow> node_id \<Rightarrow> in_process_membership \<times> membership_event option" where
  "ipm_leave m n =
     (let next = removeAll n (ipm_snapshot m)
      in if length next = length (ipm_snapshot m) then (m, None)
         else let m' = publish_locked m next
              in (m', Some (roster_event LeftEvent n (ipm_epoch m'))))"

definition ipm_health :: "in_process_membership \<Rightarrow> node_id \<Rightarrow> node_health option" where
  "ipm_health m n =
     (if \<not> view_contains (ipm_view m) n then None
      else Some \<lparr>nh_node = n, nh_state = Alive, nh_incarnation = 0, nh_protocol_version = 0,
             nh_verified = True, nh_last_refusal = NoRefusal, nh_refused_version = 0,
             nh_suspended = False\<rparr>)"

section \<open>Invariant and behaviour\<close>

definition ipm_inv :: "in_process_membership \<Rightarrow> bool" where
  "ipm_inv m \<longleftrightarrow> sorted_wrt (<) (ipm_snapshot m)"

lemma strict_sorted_remdups_adj: "sorted xs \<Longrightarrow> sorted_wrt (<) (remdups_adj (xs :: u64 list))"
  by (induction xs rule: remdups_adj.induct) auto

lemma ipm_inv_publish: "ipm_inv (publish_locked m nodes)"
  by (simp add: ipm_inv_def publish_locked_def strict_sorted_remdups_adj)

lemma set_publish [simp]: "set (ipm_snapshot (publish_locked m nodes)) = set nodes"
  by (simp add: publish_locked_def)

lemma ipm_inv_create: "ipm_inv (ipm_create self initial)"
  by (simp add: ipm_create_def ipm_inv_publish)

lemma ipm_inv_join: "ipm_inv m \<Longrightarrow> ipm_inv (fst (ipm_join m n))"
  by (simp add: ipm_join_def Let_def ipm_inv_publish)

lemma ipm_inv_leave: "ipm_inv m \<Longrightarrow> ipm_inv (fst (ipm_leave m n))"
  by (simp add: ipm_leave_def Let_def ipm_inv_publish)

lemma set_ipm_join: "set (ipm_snapshot (fst (ipm_join m n))) = insert n (set (ipm_snapshot m))"
  by (auto simp: ipm_join_def Let_def)

lemma length_removeAll_eq_iff: "length (removeAll x xs) = length xs \<longleftrightarrow> x \<notin> set xs"
  by (metis length_removeAll_less less_irrefl removeAll_id)

lemma set_ipm_leave: "set (ipm_snapshot (fst (ipm_leave m n))) = set (ipm_snapshot m) - {n}"
  by (auto simp: ipm_leave_def Let_def length_removeAll_eq_iff)

lemma ipm_contains: "ipm_inv m \<Longrightarrow> view_contains (ipm_view m) n \<longleftrightarrow> n \<in> set (ipm_snapshot m)"
  by (simp add: view_contains_def ipm_view_def ipm_inv_def std_binary_search_correct)

section \<open>The seam as an interface\<close>

text \<open>
  The membership seam publishes the live set as an ascending list without repetition; joins and
  leaves are set insertion and deletion.  Two providers with the same live set therefore publish
  the same list, which is what makes placement a function of the live set.
\<close>

locale membership_seam =
  fixes inv :: "'m \<Rightarrow> bool"
    and nodes :: "'m \<Rightarrow> node_id list"
    and join :: "'m \<Rightarrow> node_id \<Rightarrow> 'm"
    and leave :: "'m \<Rightarrow> node_id \<Rightarrow> 'm"
  assumes seam_sorted: "inv m \<Longrightarrow> sorted_wrt (<) (nodes m)"
    and seam_inv: "inv m \<Longrightarrow> inv (join m n)" "inv m \<Longrightarrow> inv (leave m n)"
    and seam_set: "set (nodes (join m n)) = insert n (set (nodes m))"
      "set (nodes (leave m n)) = set (nodes m) - {n}"
begin

lemma seam_canonical:
  assumes "inv m" "inv m'" "set (nodes m) = set (nodes m')"
  shows "nodes m = nodes m'"
  using assms seam_sorted by (metis sorted_distinct_set_unique strict_sorted_iff)

lemma seam_join_join: "inv m \<Longrightarrow> nodes (join (join m a) b) = nodes (join (join m b) a)"
  by (intro seam_canonical) (auto simp: seam_inv seam_set)

lemma seam_join_leave: "inv m \<Longrightarrow> n \<notin> set (nodes m) \<Longrightarrow> nodes (leave (join m n) n) = nodes m"
  by (intro seam_canonical) (auto simp: seam_inv seam_set)

lemma seam_join_idem: "inv m \<Longrightarrow> n \<in> set (nodes m) \<Longrightarrow> nodes (join m n) = nodes m"
  by (intro seam_canonical) (auto simp: seam_inv seam_set)

end

interpretation ipm: membership_seam ipm_inv ipm_snapshot
    "\<lambda>m n. fst (ipm_join m n)" "\<lambda>m n. fst (ipm_leave m n)"
  by unfold_locales (simp_all add: ipm_inv_join ipm_inv_leave set_ipm_join set_ipm_leave, simp add: ipm_inv_def)

text \<open>A run of the provider: joins and leaves in any order, with the events it delivers.\<close>

datatype roster_op = JoinNode node_id | LeaveNode node_id

fun ipm_step :: "in_process_membership \<Rightarrow> roster_op \<Rightarrow> in_process_membership \<times> membership_event option" where
  "ipm_step m (JoinNode n) = ipm_join m n"
| "ipm_step m (LeaveNode n) = ipm_leave m n"

fun ipm_run :: "in_process_membership \<Rightarrow> roster_op list \<Rightarrow> in_process_membership \<times> membership_event list" where
  "ipm_run m [] = (m, [])"
| "ipm_run m (x # xs) =
     (let (m', e) = ipm_step m x; (m'', es) = ipm_run m' xs
      in (m'', (case e of None \<Rightarrow> es | Some v \<Rightarrow> v # es)))"

fun live_after :: "node_id set \<Rightarrow> roster_op list \<Rightarrow> node_id set" where
  "live_after S [] = S"
| "live_after S (JoinNode n # xs) = live_after (insert n S) xs"
| "live_after S (LeaveNode n # xs) = live_after (S - {n}) xs"

definition event_count :: "membership_event option \<Rightarrow> u64" where
  "event_count e = (case e of None \<Rightarrow> 0 | Some _ \<Rightarrow> 1)"

lemma ipm_step_inv: "ipm_inv m \<Longrightarrow> ipm_inv (fst (ipm_step m x))"
  by (cases x) (simp_all add: ipm_inv_join ipm_inv_leave)

lemma ipm_step_set: "set (ipm_snapshot (fst (ipm_step m x))) = live_after (set (ipm_snapshot m)) [x]"
  by (cases x) (simp_all add: set_ipm_join set_ipm_leave)

lemma ipm_step_epoch: "ipm_epoch (fst (ipm_step m x)) = ipm_epoch m + event_count (snd (ipm_step m x))"
  by (cases x) (simp_all add: ipm_join_def ipm_leave_def publish_locked_def event_count_def Let_def)

lemma live_after_Cons: "live_after S (x # xs) = live_after (live_after S [x]) xs"
  by (cases x) simp_all

lemma ipm_run_facts:
  assumes "ipm_inv m"
  shows "ipm_inv (fst (ipm_run m ops)) \<and>
    set (ipm_snapshot (fst (ipm_run m ops))) = live_after (set (ipm_snapshot m)) ops \<and>
    ipm_epoch (fst (ipm_run m ops)) = ipm_epoch m + of_nat (length (snd (ipm_run m ops)))"
  using assms
proof (induction ops arbitrary: m)
  case Nil
  then show ?case by simp
next
  case (Cons x xs)
  obtain m' e where s: "ipm_step m x = (m', e)" by force
  obtain m'' es where r: "ipm_run m' xs = (m'', es)" by force
  have m': "ipm_inv m'" "set (ipm_snapshot m') = live_after (set (ipm_snapshot m)) [x]"
    "ipm_epoch m' = ipm_epoch m + event_count e"
    using ipm_step_inv [of m x] ipm_step_set [of m x] ipm_step_epoch [of m x] Cons.prems s by simp_all
  from Cons.IH [OF m'(1)] m' s r show ?case
    by (simp add: live_after_Cons [of _ x xs] event_count_def split: option.splits)
qed

text \<open>
  After any sequence of joins and leaves the in-process membership publishes exactly
  the live set, in ascending order without repetition, \<open>contains\<close> (a binary search) answers
  membership of that set, and the epoch has advanced by one per delivered Joined/Left event, so
  idempotent joins and leaves neither bump the epoch nor notify.
\<close>

theorem membership_run_correct:
  assumes "ipm_run (ipm_create self initial) ops = (m, events)"
  shows "sorted_wrt (<) (ipm_snapshot m) \<and>
     set (ipm_snapshot m) = live_after (set initial) ops \<and>
     (\<forall>n. view_contains (ipm_view m) n \<longleftrightarrow> n \<in> live_after (set initial) ops) \<and>
     ipm_epoch m = 1 + of_nat (length events)"
  using ipm_run_facts [OF ipm_inv_create, of self initial ops] assms
  by (simp add: ipm_contains) (simp add: ipm_inv_def ipm_create_def publish_locked_def)

theorem membership_run_correct_witness:
  "\<exists>m events. ipm_run (ipm_create 7 [9, 7]) [JoinNode 3, JoinNode 9, LeaveNode 7] = (m, events) \<and>
     ipm_snapshot m = [3, 9] \<and> view_contains (ipm_view m) 9 \<and> ipm_epoch m = 3"
proof -
  obtain m events where run: "ipm_run (ipm_create 7 [9, 7]) [JoinNode 3, JoinNode 9, LeaveNode 7] = (m, events)"
    by force
  note facts = membership_run_correct [OF this]
  have "ipm_snapshot m = [3, 9]" "length events = 2"
    using run by (auto simp: ipm_create_def publish_locked_def ipm_join_def ipm_leave_def Let_def)
  with facts run show ?thesis by auto
qed

end
