(* ===== verification/Placement.thy ===== *)
theory Placement
  imports Membership
begin

text \<open>
  \<open>include/quark/core/placement.hpp\<close>: coordinator-free placement by rendezvous hashing.  The loop of
  \<open>place_hash\<close> carries the source's three variables; its result is the maximum of the live set in
  the order (weight, node id), which gives order-independence and minimal disruption.  The locale
  \<open>placement_oracle\<close> is what a client that caches or routes over the oracle relies on.
\<close>

section \<open>The placement loop\<close>

definition rendezvous_weight :: "node_id \<Rightarrow> u64 \<Rightarrow> u64" where
  "rendezvous_weight n key_hash = splitmix64 (splitmix64 n XOR key_hash)"

record hrw_state =
  hrw_have :: bool
  hrw_best :: node_id
  hrw_best_w :: u64

definition hrw_step :: "u64 \<Rightarrow> hrw_state \<Rightarrow> node_id \<Rightarrow> hrw_state" where
  "hrw_step key_hash s n =
     (let w = rendezvous_weight n key_hash in
      if \<not> hrw_have s \<or> hrw_best_w s < w \<or> (w = hrw_best_w s \<and> hrw_best s < n)
      then \<lparr> hrw_have = True, hrw_best = n, hrw_best_w = w \<rparr>
      else s)"

definition place_hash :: "u64 \<Rightarrow> node_id list \<Rightarrow> node_id option" where
  "place_hash key_hash nodes =
     (let s = foldl (hrw_step key_hash) \<lparr> hrw_have = False, hrw_best = 0, hrw_best_w = 0 \<rparr> nodes in
      if \<not> hrw_have s then None else Some (hrw_best s))"

definition place :: "actor_id \<Rightarrow> membership_view \<Rightarrow> node_id option" where
  "place a v = place_hash (actor_hash a) (view_nodes v)"

section \<open>The winner is the maximum of the live set\<close>

text \<open>The order the loop compares in: the weight, then the node id.\<close>

definition outranks :: "u64 \<Rightarrow> node_id \<Rightarrow> node_id \<Rightarrow> bool" where
  "outranks k m n \<longleftrightarrow>
     rendezvous_weight n k < rendezvous_weight m k \<or>
     (rendezvous_weight n k = rendezvous_weight m k \<and> n < m)"

lemma outranks_irrefl [simp]: "\<not> outranks k n n"
  by (simp add: outranks_def)

lemma outranks_trans: "outranks k a b \<Longrightarrow> outranks k b c \<Longrightarrow> outranks k a c"
  by (auto simp: outranks_def)

lemma outranks_total: "a \<noteq> b \<Longrightarrow> outranks k a b \<or> outranks k b a"
  by (auto simp: outranks_def)

lemma outranks_asym: "outranks k a b \<Longrightarrow> \<not> outranks k b a"
  using outranks_trans [of k a b a] by auto

definition is_winner :: "u64 \<Rightarrow> node_id set \<Rightarrow> node_id \<Rightarrow> bool" where
  "is_winner k S n \<longleftrightarrow> n \<in> S \<and> (\<forall>m\<in>S. m \<noteq> n \<longrightarrow> outranks k n m)"

lemma is_winner_unique: "is_winner k S n \<Longrightarrow> is_winner k S m \<Longrightarrow> m = n"
  unfolding is_winner_def using outranks_asym by metis

lemma is_winner_subset: "is_winner k S n \<Longrightarrow> T \<subseteq> S \<Longrightarrow> n \<in> T \<Longrightarrow> is_winner k T n"
  by (auto simp: is_winner_def)

lemma is_winner_insert:
  assumes "is_winner k S b"
  shows "is_winner k (insert n S) (if outranks k n b then n else b)"
  using assms outranks_trans [of k n b] outranks_total [of n b k] by (auto simp: is_winner_def)

definition hrw_ok :: "u64 \<Rightarrow> node_id set \<Rightarrow> hrw_state \<Rightarrow> bool" where
  "hrw_ok k S s \<longleftrightarrow>
     (if hrw_have s
      then is_winner k S (hrw_best s) \<and> hrw_best_w s = rendezvous_weight (hrw_best s) k
      else S = {})"

lemma hrw_step_ok: "hrw_ok k S s \<Longrightarrow> hrw_ok k (insert n S) (hrw_step k s n)"
proof (cases "hrw_have s")
  case False
  then show "hrw_ok k S s \<Longrightarrow> ?thesis"
    by (simp add: hrw_ok_def hrw_step_def Let_def is_winner_def)
next
  case True
  assume ok: "hrw_ok k S s"
  with True have w: "is_winner k S (hrw_best s)"
    and bw: "hrw_best_w s = rendezvous_weight (hrw_best s) k" by (simp_all add: hrw_ok_def)
  have "outranks k n (hrw_best s) \<longleftrightarrow>
      hrw_best_w s < rendezvous_weight n k \<or>
      (rendezvous_weight n k = hrw_best_w s \<and> hrw_best s < n)"
    by (auto simp: outranks_def bw)
  then show ?thesis
    using is_winner_insert [OF w, of n] True bw
    by (auto simp: hrw_ok_def hrw_step_def Let_def split: if_splits)
qed

lemma hrw_fold_ok: "hrw_ok k S s \<Longrightarrow> hrw_ok k (S \<union> set ns) (foldl (hrw_step k) s ns)"
proof (induction ns arbitrary: S s)
  case Nil
  then show ?case by simp
next
  case (Cons n ns)
  from Cons.IH [OF hrw_step_ok [OF Cons.prems, of n]] show ?case by simp
qed

lemma place_hash_eq_Some_iff: "place_hash k ns = Some n \<longleftrightarrow> is_winner k (set ns) n"
  and place_hash_eq_None_iff: "place_hash k ns = None \<longleftrightarrow> ns = []"
proof -
  define s where "s = foldl (hrw_step k) \<lparr> hrw_have = False, hrw_best = 0, hrw_best_w = 0 \<rparr> ns"
  have ok: "hrw_ok k (set ns) s"
    using hrw_fold_ok [of k "{}" "\<lparr> hrw_have = False, hrw_best = 0, hrw_best_w = 0 \<rparr>" ns]
    unfolding s_def by (simp add: hrw_ok_def)
  have p: "place_hash k ns = (if \<not> hrw_have s then None else Some (hrw_best s))"
    by (simp add: place_hash_def s_def Let_def)
  show "place_hash k ns = Some n \<longleftrightarrow> is_winner k (set ns) n"
    using ok is_winner_unique [of k "set ns"]
    by (auto simp: p hrw_ok_def is_winner_def split: if_splits)
  show "place_hash k ns = None \<longleftrightarrow> ns = []"
    using ok by (auto simp: p hrw_ok_def is_winner_def split: if_splits)
qed

section \<open>The placement seam\<close>

text \<open>
  What a cache or a router may assume of the oracle: it answers exactly on non-empty sets, with a
  member, depends on the set of nodes only, and dropping nodes other than the winner keeps it.
\<close>

locale placement_oracle =
  fixes winner :: "u64 \<Rightarrow> node_id list \<Rightarrow> node_id option"
  assumes oracle_none: "winner k ns = None \<longleftrightarrow> ns = []"
    and oracle_mem: "winner k ns = Some n \<Longrightarrow> n \<in> set ns"
    and oracle_irrelevant:
      "winner k ns = Some n \<Longrightarrow> set ms \<subseteq> set ns \<Longrightarrow> n \<in> set ms \<Longrightarrow> winner k ms = Some n"
begin

lemma oracle_set:
  assumes "set ms = set ns"
  shows "winner k ms = winner k ns"
proof (cases "winner k ns")
  case None
  then have "ns = []" by (simp only: oracle_none)
  with assms show ?thesis by simp
next
  case (Some n)
  have "winner k ms = Some n"
    by (rule oracle_irrelevant [OF Some]) (use assms oracle_mem [OF Some] in simp_all)
  with Some show ?thesis by simp
qed

lemma oracle_some: "ns \<noteq> [] \<Longrightarrow> \<exists>n\<in>set ns. winner k ns = Some n"
  using oracle_none [of k ns] oracle_mem [of k ns] by (cases "winner k ns") auto

lemma oracle_join:
  assumes "set ms = insert j (set ns)"
  shows "winner k ms = winner k ns \<or> winner k ms = Some j"
proof -
  have "ms \<noteq> []" using assms by auto
  then obtain w where w: "w \<in> set ms" "winner k ms = Some w" using oracle_some by blast
  show ?thesis
  proof (cases "w = j")
    case False
    with w assms have "w \<in> set ns" by simp
    then have "winner k ns = Some w" using oracle_irrelevant [OF w(2)] assms by auto
    with w show ?thesis by simp
  qed (use w in simp)
qed

lemma oracle_leave:
  assumes "set ms = set ns - {d}" and "winner k ns \<noteq> Some d"
  shows "winner k ms = winner k ns"
proof (cases "winner k ns")
  case None
  with assms show ?thesis using oracle_none by simp
next
  case (Some w)
  with assms oracle_mem have "w \<in> set ms" by auto
  then have "winner k ms = Some w" using oracle_irrelevant [OF Some] assms by auto
  with Some show ?thesis by simp
qed

lemma oracle_survivor:
  assumes "winner k ns = Some a" and "winner k ms = Some b"
    and "a \<in> set ms" and "b \<in> set ns"
  shows "a = b"
proof -
  define us where "us = filter (\<lambda>n. n \<in> set ms) ns"
  have "winner k us = Some a"
    by (rule oracle_irrelevant [OF assms(1)])
      (use assms oracle_mem [OF assms(1)] in \<open>auto simp: us_def\<close>)
  moreover have "winner k us = Some b"
    by (rule oracle_irrelevant [OF assms(2)])
      (use assms oracle_mem [OF assms(2)] in \<open>auto simp: us_def\<close>)
  ultimately show ?thesis by simp
qed

end

interpretation hrw: placement_oracle place_hash
proof unfold_locales
  show "place_hash k ns = None \<longleftrightarrow> ns = []" for k ns
    by (rule place_hash_eq_None_iff)
  show "n \<in> set ns" if "place_hash k ns = Some n" for k ns n
    using that by (simp add: place_hash_eq_Some_iff is_winner_def)
  show "place_hash k ms = Some n"
    if "place_hash k ns = Some n" "set ms \<subseteq> set ns" "n \<in> set ms" for k ns n ms
    using that by (simp add: place_hash_eq_Some_iff is_winner_subset)
qed

section \<open>Properties\<close>

text \<open>
  \<open>place\<close> returns a node exactly when the view is not empty, and then the member of the
  view that beats every other member in (weight, node id); the answer is the same for every order in
  which the nodes are listed, and for repeated entries.
\<close>

theorem place_is_argmax:
  "(place a v = None \<longleftrightarrow> view_nodes v = []) \<and>
   (place a v = Some n \<longleftrightarrow>
      n \<in> set (view_nodes v) \<and>
      (\<forall>m\<in>set (view_nodes v). m = n \<or> outranks (actor_hash a) n m)) \<and>
   (set ms \<noteq> set (view_nodes v) \<or> place a v = place a (v\<lparr> view_nodes := ms \<rparr>))"
  using hrw.oracle_set [of ms "view_nodes v" "actor_hash a"]
  by (auto simp: place_def place_hash_eq_Some_iff place_hash_eq_None_iff is_winner_def)

theorem place_is_argmax_witness:
  "place (ActorId 5 9) \<lparr> view_nodes = [3, 3], view_epoch = 1 \<rparr> = Some 3 \<and>
   place (ActorId 5 9) \<lparr> view_nodes = [3, 3], view_epoch = 1 \<rparr> = place (ActorId 5 9) \<lparr> view_nodes = [3], view_epoch = 1 \<rparr>"
  using place_is_argmax [of "ActorId 5 9" "\<lparr> view_nodes = [3, 3], view_epoch = 1 \<rparr>" 3 "[3]"] by auto

text \<open>
  Minimal disruption: when the live set changes from the nodes of \<open>v\<close> to those of
  \<open>w\<close>, an actor whose owner changes had an owner that left the set, or has an owner that has joined
  it.  No actor moves between two nodes that are in both sets.
\<close>

theorem place_minimal_disruption:
  assumes "place a v = Some p" and "place a w = Some q" and "p \<noteq> q"
  shows "p \<notin> set (view_nodes w) \<or> q \<notin> set (view_nodes v)"
  using assms hrw.oracle_survivor [of "actor_hash a" "view_nodes v" p "view_nodes w" q]
  by (auto simp: place_def)

theorem place_minimal_disruption_witness:
  "place (ActorId 5 9) \<lparr> view_nodes = [1], view_epoch = 1 \<rparr> = Some 1 \<and>
   place (ActorId 5 9) \<lparr> view_nodes = [2], view_epoch = 2 \<rparr> = Some 2 \<and>
   (1 \<in> set [2 :: u64] \<longleftrightarrow> False)"
proof -
  have s: "place a \<lparr> view_nodes = [n], view_epoch = e \<rparr> = Some n" for a n e
    by (simp add: place_def place_hash_eq_Some_iff is_winner_def)
  show ?thesis
    using place_minimal_disruption
      [of "ActorId 5 9" "\<lparr> view_nodes = [1], view_epoch = 1 \<rparr>" 1
          "\<lparr> view_nodes = [2], view_epoch = 2 \<rparr>" 2] s by simp
qed

end
