(* ===== verification/Topology.thy ===== *)
theory Topology
  imports Placement
begin

text \<open>
  \<open>include/quark/core/cluster_topology.hpp\<close>: the large-cluster fast paths over the placement oracle.
  \<open>VirtualBins\<close> caches the winner of every bin, \<open>KademliaTable\<close> and \<open>RelayOverlay\<close> route greedily by
  XOR distance, \<open>BoundedPartialView\<close> selects peers, \<open>PathPin\<close> holds a stream's path, and
  \<open>ClusterTopologyConfig\<close> validates the three policy axes.  A snapshot (\<open>shared_ptr\<close> to an immutable
  table) is the table itself.
\<close>

section \<open>Sizing helpers\<close>

text \<open>The assignment \<open>x |= x >> w\<close>.\<close>

definition smear :: "nat \<Rightarrow> u64 \<Rightarrow> u64" where
  "smear w x = x OR drop_bit w x"

definition next_pow2 :: "u64 \<Rightarrow> u64" where
  "next_pow2 x0 =
     (if x0 \<le> 1 then 1
      else
        let x = x0 - 1;
            x = smear 1 x;
            x = smear 2 x;
            x = smear 4 x;
            x = smear 8 x;
            x = smear 16 x;
            x = smear 32 x
        in x + 1)"

definition virtual_bin_count :: "u64 \<Rightarrow> u64" where
  "virtual_bin_count max_nodes = next_pow2 (16 * (if max_nodes = 0 then 1 else max_nodes))"

definition bin_key :: "u64 \<Rightarrow> u64" where
  "bin_key bin = splitmix64 (bin XOR 0xD1B54A32D192ED03)"

definition roster_digest :: "node_id list \<Rightarrow> u64" where
  "roster_digest nodes = foldl (\<lambda>acc n. acc XOR splitmix64 (n + 0x9E3779B97F4A7C15)) 0 nodes"

text \<open>Smearing the leading bit down: after the six steps every bit below it is set.\<close>

definition smeared :: "nat \<Rightarrow> nat \<Rightarrow> u64 \<Rightarrow> bool" where
  "smeared m w x \<longleftrightarrow> m < 64 \<and> (\<forall>j>m. \<not> bit x j) \<and> (\<forall>j\<le>m. m < w + j \<longrightarrow> bit x j)"

lemma smeared_step:
  assumes "smeared m w x" and "0 < w"
  shows "smeared m (w + w) (smear w x)"
proof -
  have hi: "\<not> bit (smear w x) j" if "j > m" for j
    using assms that by (simp add: smeared_def smear_def bit_or_iff bit_drop_bit_eq)
  have lo: "bit (smear w x) j" if j: "j \<le> m" "m < w + w + j" for j
  proof (cases "m < w + j")
    case True
    with assms j show ?thesis by (simp add: smeared_def smear_def bit_or_iff)
  next
    case False
    with assms j have "bit x (w + j)" by (simp add: smeared_def)
    then show ?thesis by (simp add: smear_def bit_or_iff bit_drop_bit_eq)
  qed
  show ?thesis using assms hi lo by (simp add: smeared_def)
qed

lemma smeared_init: "d \<noteq> 0 \<Longrightarrow> smeared (63 - countl_zero d) 1 d"
proof -
  assume d: "d \<noteq> 0"
  have "bit d j" if "j \<le> 63 - countl_zero d" "63 - countl_zero d < 1 + j" for j
  proof -
    from that have "j = 63 - countl_zero d" by linarith
    with top_bit_countl_zero(1) [OF d] show ?thesis by simp
  qed
  with top_bit_countl_zero(2) [OF d] show ?thesis by (simp add: smeared_def)
qed

lemma smeared_final:
  assumes "smeared m 64 x"
  shows "x = mask (Suc m)"
proof (rule bit_word_eqI)
  fix j
  assume "j < LENGTH(64)"
  with assms show "bit x j = bit (mask (Suc m) :: u64) j"
    by (cases "j \<le> m") (auto simp: smeared_def bit_mask_iff)
qed

lemma smear_all:
  assumes "d \<noteq> 0"
  shows "smear 32 (smear 16 (smear 8 (smear 4 (smear 2 (smear 1 d))))) = mask (Suc (63 - countl_zero d))"
proof -
  have 1: "smeared (63 - countl_zero d) 2 (smear 1 d)"
    using smeared_step [OF smeared_init [OF assms]] by (simp add: numeral_2_eq_2)
  have 2: "smeared (63 - countl_zero d) 4 (smear 2 (smear 1 d))"
    using smeared_step [OF 1] by simp
  have 3: "smeared (63 - countl_zero d) 8 (smear 4 (smear 2 (smear 1 d)))"
    using smeared_step [OF 2] by simp
  have 4: "smeared (63 - countl_zero d) 16 (smear 8 (smear 4 (smear 2 (smear 1 d))))"
    using smeared_step [OF 3] by simp
  have 5: "smeared (63 - countl_zero d) 32 (smear 16 (smear 8 (smear 4 (smear 2 (smear 1 d)))))"
    using smeared_step [OF 4] by simp
  show ?thesis using smeared_step [OF 5] by (intro smeared_final) simp
qed

lemma next_pow2_mask:
  assumes "1 < x"
  shows "next_pow2 x = mask (Suc (63 - countl_zero (x - 1))) + 1"
proof -
  have "x - 1 \<noteq> 0" using assms by auto
  from smear_all [OF this] show ?thesis using assms by (simp add: next_pow2_def Let_def not_le)
qed

lemma unat_next_pow2:
  assumes "1 < x" and "unat x \<le> 2 ^ 63"
  defines "m \<equiv> Suc (63 - countl_zero (x - 1))"
  shows "unat (next_pow2 x) = 2 ^ m" and "m \<le> 63"
proof -
  have nz: "x - 1 \<noteq> 0" using assms by auto
  have u: "unat (x - 1) = unat x - 1" using assms(1) by (simp add: unat_minus_le)
  then have "unat (x - 1) < 2 ^ 63" using assms(2) by simp
  then show m: "m \<le> 63" using countl_zero_less_iff [OF nz, of 63] by (simp add: m_def)
  then have lt: "(2::nat) ^ m < 2 ^ 64" by (intro power_strict_increasing) simp_all
  have "mask m + 1 = (2 ^ m :: u64)" by (simp add: mask_eq_exp_minus_1)
  moreover have "unat (2 ^ m :: u64) = 2 ^ m"
    using lt unat_of_nat [of "2 ^ m", where 'a = 64] by simp
  ultimately show "unat (next_pow2 x) = 2 ^ m" using next_pow2_mask [OF assms(1)] by (simp add: m_def)
qed

lemma next_pow2_power:
  assumes "unat x \<le> 2 ^ 63"
  obtains m where "m \<le> 63" and "unat (next_pow2 x) = 2 ^ m"
proof (cases "1 < x")
  case True
  then show ?thesis using that unat_next_pow2 [OF True assms] by blast
next
  case False
  then have "unat (next_pow2 x) = 2 ^ 0" by (simp add: next_pow2_def not_less)
  then show ?thesis using that [of 0] by blast
qed

lemma next_pow2_ge: "unat x \<le> 2 ^ 63 \<Longrightarrow> unat x \<le> unat (next_pow2 x)"
proof (cases "1 < x")
  case True
  assume le: "unat x \<le> 2 ^ 63"
  have nz: "x - 1 \<noteq> 0" using True by auto
  have "unat (x - 1) < 2 ^ Suc (63 - countl_zero (x - 1))" by (rule countl_zero_bounds(2) [OF nz])
  then show ?thesis using unat_next_pow2(1) [OF True le] True by (simp add: unat_minus_le)
next
  case False
  then show ?thesis by (simp add: next_pow2_def not_less word_le_nat_alt)
qed

lemma next_pow2_least:
  assumes "unat x \<le> 2 ^ 63" and "unat x \<le> 2 ^ k"
  shows "unat (next_pow2 x) \<le> 2 ^ k"
proof (cases "1 < x")
  case True
  let ?m = "63 - countl_zero (x - 1)"
  have nz: "x - 1 \<noteq> 0" using True by auto
  have "unat (x - 1) < 2 ^ k"
    using assms(2) True word_less_nat_alt [of 1 x] by (simp add: unat_minus_le)
  then have "?m < k" using countl_zero_less_iff [OF nz] by blast
  then have "(2::nat) ^ Suc ?m \<le> 2 ^ k" by (intro power_increasing) simp_all
  then show ?thesis using unat_next_pow2(1) [OF True assms(1)] by simp
next
  case False
  then show ?thesis by (simp add: next_pow2_def not_less)
qed

text \<open>
  \<open>next_pow2\<close> is the smallest power of two that is at least its argument, for every
  argument up to \<open>2 ^ 63\<close> (above it the 64-bit result wraps to 0).
\<close>

theorem next_pow2_smallest:
  assumes "unat x \<le> 2 ^ 63"
  shows "(\<exists>m\<le>63. unat (next_pow2 x) = 2 ^ m) \<and> unat x \<le> unat (next_pow2 x) \<and>
         (\<forall>k. unat x \<le> 2 ^ k \<longrightarrow> unat (next_pow2 x) \<le> 2 ^ k)"
  using assms next_pow2_ge next_pow2_least next_pow2_power [OF assms] by metis

theorem next_pow2_smallest_witness:
  "(\<exists>m\<le>63. unat (next_pow2 80) = 2 ^ m) \<and> next_pow2 80 = 128"
proof
  show "\<exists>m\<le>63. unat (next_pow2 80) = 2 ^ m" using next_pow2_smallest [of 80] by simp
  show "next_pow2 80 = 128" by (simp add: next_pow2_def smear_def Let_def word_le_nat_alt)
qed

section \<open>Virtual bins\<close>

record virtual_bins =
  vb_table :: "node_id list"
  vb_mask :: u64
  vb_digest :: u64
  vb_empty :: bool

definition vb_rebuild :: "node_id list \<Rightarrow> u64 \<Rightarrow> virtual_bins" where
  "vb_rebuild nodes bucket_count =
     (let b = next_pow2 bucket_count;
          empty = (nodes = []);
          table = replicate (unat b) 0
      in \<lparr> vb_table =
             (if empty then table
              else map (\<lambda>bin. case place_hash (bin_key (of_nat bin)) nodes of Some w \<Rightarrow> w | None \<Rightarrow> 0)
                     [0..<unat b]),
           vb_mask = b - 1, vb_digest = roster_digest nodes, vb_empty = empty \<rparr>)"

definition vb_bin_of :: "virtual_bins \<Rightarrow> actor_id \<Rightarrow> u64" where
  "vb_bin_of t a = splitmix64 (actor_hash a) AND vb_mask t"

definition vb_owner_of :: "virtual_bins \<Rightarrow> actor_id \<Rightarrow> node_id option" where
  "vb_owner_of t a =
     (if vb_empty t then None
      else Some (vb_table t ! unat (splitmix64 (actor_hash a) AND vb_mask t)))"

definition vb_owner_of_bin :: "virtual_bins \<Rightarrow> u64 \<Rightarrow> node_id" where
  "vb_owner_of_bin t bin = vb_table t ! unat (bin AND vb_mask t)"

definition vb_bucket_count :: "virtual_bins \<Rightarrow> u64" where
  "vb_bucket_count t = vb_mask t + 1"

lemma vb_mask_index:
  assumes "unat b \<le> 2 ^ 63"
  shows "unat (h AND vb_mask (vb_rebuild ns b)) < unat (next_pow2 b)"
proof -
  obtain m where m: "unat (next_pow2 b) = 2 ^ m" by (rule next_pow2_power [OF assms])
  then have "next_pow2 b \<noteq> 0" by auto
  then have "unat (next_pow2 b - 1) < unat (next_pow2 b)"
    by (simp add: unat_minus_one unat_gt_0)
  moreover have "unat (h AND (next_pow2 b - 1)) \<le> unat (next_pow2 b - 1)"
    by (metis word_and_le1 word_le_nat_alt)
  ultimately show ?thesis by (simp add: vb_rebuild_def Let_def)
qed

lemma length_vb_table: "length (vb_table (vb_rebuild ns b)) = unat (next_pow2 b)"
  by (simp add: vb_rebuild_def Let_def)

lemma vb_owner_is_bin_winner:
  assumes "unat b \<le> 2 ^ 63"
  shows "vb_owner_of (vb_rebuild ns b) a = place_hash (bin_key (vb_bin_of (vb_rebuild ns b) a)) ns"
proof (cases "ns = []")
  case True
  have "place_hash k [] = None" for k by (simp add: place_hash_eq_None_iff)
  with True show ?thesis by (simp add: vb_owner_of_def vb_rebuild_def Let_def)
next
  case False
  let ?t = "vb_rebuild ns b" and ?i = "splitmix64 (actor_hash a) AND vb_mask (vb_rebuild ns b)"
  have i: "unat ?i < unat (next_pow2 b)" by (rule vb_mask_index [OF assms])
  obtain w where w: "place_hash (bin_key ?i) ns = Some w" using hrw.oracle_some [OF False] by blast
  have "vb_table ?t ! unat ?i = w"
    using False i w by (simp add: vb_rebuild_def Let_def)
  with False w show ?thesis by (simp add: vb_owner_of_def vb_bin_of_def vb_rebuild_def Let_def)
qed

lemma vb_bin_of_rebuild: "vb_bin_of (vb_rebuild ns b) a = vb_bin_of (vb_rebuild ms b) a"
  by (simp add: vb_bin_of_def vb_rebuild_def Let_def)

text \<open>
  The bin table answers in one load with the rendezvous winner of the actor's bin: the
  index is inside the table, the answer is \<open>place_hash\<close> of the bin's key over the live nodes (hence
  none exactly on the empty roster), and two nodes that see the same set of live nodes, in any
  order, build tables that agree on every actor.
\<close>

theorem virtual_bins_oracle:
  assumes "unat b \<le> 2 ^ 63"
  shows "unat (vb_bin_of (vb_rebuild ns b) a) < length (vb_table (vb_rebuild ns b)) \<and>
         vb_owner_of (vb_rebuild ns b) a = place_hash (bin_key (vb_bin_of (vb_rebuild ns b) a)) ns \<and>
         (vb_owner_of (vb_rebuild ns b) a = None \<longleftrightarrow> ns = []) \<and>
         (set ms = set ns \<longrightarrow> vb_owner_of (vb_rebuild ms b) a = vb_owner_of (vb_rebuild ns b) a)"
  unfolding vb_owner_is_bin_winner [OF assms] length_vb_table
  using vb_mask_index [OF assms] hrw.oracle_set hrw.oracle_none vb_bin_of_rebuild
  by (metis vb_bin_of_def)

theorem virtual_bins_oracle_witness:
  "vb_owner_of (vb_rebuild [7] 4) (ActorId 1 2) = Some 7"
proof -
  let ?n = "place_hash (bin_key (vb_bin_of (vb_rebuild [7] 4) (ActorId 1 2))) [7]"
  have "vb_owner_of (vb_rebuild [7] 4) (ActorId 1 2) = ?n"
    using virtual_bins_oracle [of 4 "[7]" "ActorId 1 2"] by simp
  moreover have "?n = Some 7" by (simp add: place_hash_eq_Some_iff is_winner_def)
  ultimately show ?thesis by simp
qed

text \<open>
  The bin table inherits minimal disruption: when the roster changes, an actor's
  cached owner changes only away from a node that left or to a node that joined.
\<close>

theorem virtual_bins_minimal_disruption:
  assumes "unat b \<le> 2 ^ 63"
    and "vb_owner_of (vb_rebuild ns b) a = Some p"
    and "vb_owner_of (vb_rebuild ms b) a = Some q" and "p \<noteq> q"
  shows "p \<notin> set ms \<or> q \<notin> set ns"
  using assms hrw.oracle_survivor
  unfolding vb_owner_is_bin_winner [OF assms(1)] vb_bin_of_rebuild [of ms b a ns] by metis

theorem virtual_bins_minimal_disruption_witness:
  "vb_owner_of (vb_rebuild [7] 4) (ActorId 1 2) = Some 7 \<and>
   vb_owner_of (vb_rebuild [9] 4) (ActorId 1 2) = Some 9 \<and>
   (7 \<in> set [9 :: u64] \<longleftrightarrow> False)"
proof -
  have o: "vb_owner_of (vb_rebuild [n] 4) (ActorId 1 2) = Some n" for n
    by (subst vb_owner_is_bin_winner) (simp_all add: place_hash_eq_Some_iff is_winner_def)
  from virtual_bins_minimal_disruption [of 4 "[7]" "ActorId 1 2" 7 "[9]" 9] o show ?thesis by simp
qed

section \<open>The epoch-swap cache of bin tables\<close>

record virtual_bins_cache =
  vbc_bucket_count :: u64
  vbc_snapshot :: "virtual_bins option"
  vbc_epoch :: u64

definition vbc_init :: "u64 \<Rightarrow> virtual_bins_cache" where
  "vbc_init bucket_count =
     \<lparr> vbc_bucket_count = next_pow2 bucket_count, vbc_snapshot = None, vbc_epoch = 0 \<rparr>"

definition vbc_rebuild_for :: "membership_view \<Rightarrow> virtual_bins_cache \<Rightarrow> bool \<times> virtual_bins_cache" where
  "vbc_rebuild_for view c =
     (let d = roster_digest (view_nodes view) in
      if (case vbc_snapshot c of None \<Rightarrow> False | Some t \<Rightarrow> vb_digest t = d) then (False, c)
      else
        let fresh = vb_rebuild (view_nodes view) (vbc_bucket_count c)
        in (True, c\<lparr> vbc_snapshot := Some fresh, vbc_epoch := vbc_epoch c + 1 \<rparr>))"

definition vbc_run :: "membership_view list \<Rightarrow> virtual_bins_cache \<Rightarrow> virtual_bins_cache" where
  "vbc_run views c = foldl (\<lambda>c v. snd (vbc_rebuild_for v c)) c views"

text \<open>The published table was built from some roster of the history with the current digest.\<close>

definition vbc_inv :: "node_id list set \<Rightarrow> virtual_bins_cache \<Rightarrow> bool" where
  "vbc_inv R c \<longleftrightarrow>
     (case vbc_snapshot c of None \<Rightarrow> True
      | Some t \<Rightarrow> \<exists>ns\<in>R. t = vb_rebuild ns (vbc_bucket_count c))"

lemma vb_digest_rebuild [simp]: "vb_digest (vb_rebuild ns b) = roster_digest ns"
  by (simp add: vb_rebuild_def Let_def)

lemma vbc_rebuild_for_inv:
  assumes "vbc_inv R c"
  shows "vbc_inv (insert (view_nodes v) R) (snd (vbc_rebuild_for v c))"
    and "\<exists>t. vbc_snapshot (snd (vbc_rebuild_for v c)) = Some t \<and> vb_digest t = roster_digest (view_nodes v)"
    and "vbc_bucket_count (snd (vbc_rebuild_for v c)) = vbc_bucket_count c"
  using assms by (auto simp: vbc_inv_def vbc_rebuild_for_def Let_def split: option.splits)

lemma vbc_run_inv:
  "vbc_inv R c \<Longrightarrow> vbc_inv (view_nodes ` set vs \<union> R) (vbc_run vs c) \<and>
     vbc_bucket_count (vbc_run vs c) = vbc_bucket_count c"
proof (induction vs arbitrary: R c)
  case (Cons v vs)
  from Cons.IH [OF vbc_rebuild_for_inv(1) [OF Cons.prems, of v]]
  show ?case using vbc_rebuild_for_inv(3) [OF Cons.prems, of v] by (simp add: vbc_run_def Un_commute)
qed (simp add: vbc_run_def)

text \<open>
  After any history of membership views, the cache that has been rebuilt for the
  current view serves the owners of the current roster, provided the content digest tells the
  rosters of the history apart; rebuilding again for the same roster publishes nothing and leaves
  the cache (its epoch included) as it is.
\<close>

theorem bins_cache_serves_current_roster:
  assumes "unat b \<le> 2 ^ 62"
    and "\<forall>u\<in>set (vs @ [v]). roster_digest (view_nodes u) = roster_digest (view_nodes v) \<longrightarrow>
                               set (view_nodes u) = set (view_nodes v)"
  shows "(\<exists>t. vbc_snapshot (vbc_run (vs @ [v]) (vbc_init b)) = Some t \<and>
             (\<forall>a. vb_owner_of t a = place_hash (bin_key (vb_bin_of t a)) (view_nodes v))) \<and>
         vbc_rebuild_for v (vbc_run (vs @ [v]) (vbc_init b)) =
           (False, vbc_run (vs @ [v]) (vbc_init b))"
proof -
  let ?c = "vbc_run vs (vbc_init b)" and ?d = "vbc_run (vs @ [v]) (vbc_init b)"
  let ?b = "next_pow2 b"
  have d: "?d = snd (vbc_rebuild_for v ?c)" by (simp add: vbc_run_def)
  have b63: "unat ?b \<le> 2 ^ 63"
    using next_pow2_least [of b 62] assms(1) by simp
  have "vbc_inv {} (vbc_init b)" by (simp add: vbc_inv_def vbc_init_def)
  from vbc_run_inv [OF this, of "vs @ [v]"]
  have inv: "vbc_inv (view_nodes ` set (vs @ [v])) ?d" "vbc_bucket_count ?d = ?b"
    by (simp_all add: vbc_init_def)
  from vbc_run_inv [OF \<open>vbc_inv {} (vbc_init b)\<close>, of vs] have c: "vbc_inv (view_nodes ` set vs) ?c"
    by simp
  obtain t where t: "vbc_snapshot ?d = Some t" "vb_digest t = roster_digest (view_nodes v)"
    using vbc_rebuild_for_inv(2) [OF c, of v] d by auto
  with inv obtain u where u: "u \<in> set (vs @ [v])" "t = vb_rebuild (view_nodes u) ?b"
    by (auto simp: vbc_inv_def)
  with t(2) assms(2) have su: "set (view_nodes u) = set (view_nodes v)" by auto
  have "vb_owner_of t a = place_hash (bin_key (vb_bin_of t a)) (view_nodes v)" for a
    unfolding u(2) vb_owner_is_bin_winner [OF b63] by (rule hrw.oracle_set [OF su])
  moreover have "vbc_rebuild_for v ?d = (False, ?d)"
    using t by (simp add: vbc_rebuild_for_def)
  ultimately show ?thesis using t by blast
qed

theorem bins_cache_serves_current_roster_witness:
  "\<exists>t. vbc_snapshot (vbc_run [\<lparr> view_nodes = [3], view_epoch = 1 \<rparr>, \<lparr> view_nodes = [5], view_epoch = 2 \<rparr>]
                           (vbc_init 16)) = Some t \<and> vb_owner_of t (ActorId 1 2) = Some 5"
proof -
  have "place_hash k [5] = Some 5" for k by (simp add: place_hash_eq_Some_iff is_winner_def)
  moreover have "roster_digest [3] \<noteq> roster_digest [5]"
    by (simp add: roster_digest_def splitmix64_def Let_def)
  ultimately show ?thesis
    using bins_cache_serves_current_roster
      [of 16 "[\<lparr> view_nodes = [3], view_epoch = 1 \<rparr>]" "\<lparr> view_nodes = [5], view_epoch = 2 \<rparr>"]
    by auto
qed

section \<open>The XOR routing table\<close>

definition xor_distance :: "node_id \<Rightarrow> node_id \<Rightarrow> u64" where
  "xor_distance a b = a XOR b"

record kademlia_table =
  kt_self :: node_id
  kt_buckets :: "node_id list list"

text \<open>\<open>build\<close>: the distribution loop over the 64 buckets, then sort and truncate each.\<close>

definition kt_insert :: "node_id \<Rightarrow> node_id list list \<Rightarrow> node_id \<Rightarrow> node_id list list" where
  "kt_insert self bs n =
     (if n = self then bs
      else
        let d = xor_distance self n; idx = 63 - countl_zero d
        in bs[idx := bs ! idx @ [n]])"

definition kt_trim :: "node_id \<Rightarrow> nat \<Rightarrow> node_id list \<Rightarrow> node_id list" where
  "kt_trim self k b =
     (let s = sort_key (xor_distance self) b
      in if k \<noteq> 0 \<and> k < length s then take k s else s)"

definition kt_build :: "node_id \<Rightarrow> node_id list \<Rightarrow> nat \<Rightarrow> kademlia_table" where
  "kt_build self known k =
     \<lparr> kt_self = self,
       kt_buckets = map (kt_trim self k) (foldl (kt_insert self) (replicate 64 []) known) \<rparr>"

record nh_state =
  nhs_have :: bool
  nhs_best :: node_id
  nhs_best_d :: u64

definition nh_step :: "node_id \<Rightarrow> nh_state \<Rightarrow> node_id \<Rightarrow> nh_state" where
  "nh_step target s n =
     (let d = xor_distance n target in
      if \<not> nhs_have s \<or> d < nhs_best_d s
      then \<lparr> nhs_have = True, nhs_best = n, nhs_best_d = d \<rparr> else s)"

definition kt_next_hop :: "kademlia_table \<Rightarrow> node_id \<Rightarrow> node_id option" where
  "kt_next_hop t target =
     (if target = kt_self t then Some (kt_self t)
      else
        let self_d = xor_distance (kt_self t) target;
            s = foldl (foldl (nh_step target)) \<lparr> nhs_have = False, nhs_best = 0, nhs_best_d = 0 \<rparr>
                  (kt_buckets t)
        in if nhs_have s \<and> nhs_best_d s < self_d then Some (nhs_best s) else None)"

definition kt_known_count :: "kademlia_table \<Rightarrow> nat" where
  "kt_known_count t = foldl (\<lambda>n b. n + length b) 0 (kt_buckets t)"

text \<open>The bucket a peer is filed in is the position of the leading bit of its distance.\<close>

definition bucket_of :: "node_id \<Rightarrow> node_id \<Rightarrow> nat" where
  "bucket_of self n = 63 - countl_zero (xor_distance self n)"

lemma xor_distance_0_iff [simp]: "xor_distance a b = 0 \<longleftrightarrow> a = b"
  by (auto simp: xor_distance_def word_bits_eq_iff bit_xor_iff)

lemma bucket_of_less: "bucket_of self n < 64"
  by (simp add: bucket_of_def)

lemma kt_insert_nth:
  assumes "length bs = 64" and "i < 64"
  shows "kt_insert self bs n ! i = (if n \<noteq> self \<and> i = bucket_of self n then bs ! i @ [n] else bs ! i)"
  using assms by (simp add: kt_insert_def Let_def bucket_of_def nth_list_update)

lemma kt_insert_length [simp]: "length (kt_insert self bs n) = length bs"
  by (simp add: kt_insert_def Let_def)

lemma kt_fill:
  assumes "length bs = 64" and "i < 64"
  shows "length (foldl (kt_insert self) bs known) = 64 \<and>
     foldl (kt_insert self) bs known ! i =
       bs ! i @ filter (\<lambda>n. n \<noteq> self \<and> bucket_of self n = i) known"
  using assms
  by (induction known arbitrary: bs) (auto simp: kt_insert_nth)

lemma kt_buckets_nth:
  assumes "i < 64"
  shows "kt_buckets (kt_build self known k) ! i =
     kt_trim self k (filter (\<lambda>n. n \<noteq> self \<and> bucket_of self n = i) known)"
  using assms kt_fill [of "replicate 64 []" i self known] by (simp add: kt_build_def)

lemma length_kt_buckets: "length (kt_buckets (kt_build self known k)) = 64"
  using kt_fill [of "replicate 64 []" 0 self known] by (simp add: kt_build_def)

lemma set_kt_trim: "set (kt_trim self k b) \<subseteq> set b"
  by (auto simp: kt_trim_def Let_def dest: in_set_takeD)

lemma kt_trim_nonempty: "b \<noteq> [] \<Longrightarrow> kt_trim self k b \<noteq> []"
proof -
  have "length (kt_trim self k b) = (if k \<noteq> 0 \<and> k < length b then k else length b)"
    by (simp add: kt_trim_def Let_def)
  then show "b \<noteq> [] \<Longrightarrow> ?thesis" by (metis length_0_conv)
qed

lemma kt_peers_subset:
  "set (concat (kt_buckets (kt_build self known k))) \<subseteq> set known - {self}"
proof
  fix n
  assume "n \<in> set (concat (kt_buckets (kt_build self known k)))"
  then obtain b where "b \<in> set (kt_buckets (kt_build self known k))" "n \<in> set b" by auto
  then obtain i where "i < 64" "n \<in> set (kt_buckets (kt_build self known k) ! i)"
    using length_kt_buckets [of self known k] by (metis in_set_conv_nth)
  then have "n \<in> set (filter (\<lambda>n. n \<noteq> self \<and> bucket_of self n = i) known)"
    unfolding kt_buckets_nth [OF \<open>i < 64\<close>] using set_kt_trim by blast
  then show "n \<in> set known - {self}" by simp
qed

text \<open>A maintained bucket is never empty when somebody belongs in it.\<close>

lemma kt_bucket_inhabited:
  assumes "m \<in> set known" and "m \<noteq> self"
  shows "\<exists>n\<in>set (concat (kt_buckets (kt_build self known k))). bucket_of self n = bucket_of self m \<and> n \<noteq> self"
proof -
  let ?i = "bucket_of self m" and ?t = "kt_build self known k"
  let ?l = "filter (\<lambda>n. n \<noteq> self \<and> bucket_of self n = ?i) known"
  have "m \<in> set ?l" using assms by simp
  then have "?l \<noteq> []" by (rule length_pos_if_in_set [THEN length_greater_0_conv [THEN iffD1]])
  then obtain n where n: "n \<in> set (kt_trim self k ?l)"
    using last_in_set [OF kt_trim_nonempty] by blast
  then have "n \<in> set (kt_buckets ?t ! ?i)" by (simp add: kt_buckets_nth bucket_of_less)
  moreover have "kt_buckets ?t ! ?i \<in> set (kt_buckets ?t)"
    by (rule nth_mem) (simp add: length_kt_buckets bucket_of_less)
  ultimately have "n \<in> set (concat (kt_buckets ?t))" by auto
  moreover have "n \<in> set ?l" using n by (rule set_mp [OF set_kt_trim, rotated])
  ultimately show ?thesis by (intro bexI [of _ n]) simp_all
qed

text \<open>The scan keeps the peer nearest to the target.\<close>

definition nh_ok :: "node_id \<Rightarrow> node_id set \<Rightarrow> nh_state \<Rightarrow> bool" where
  "nh_ok target S s \<longleftrightarrow>
     (if nhs_have s
      then nhs_best s \<in> S \<and> nhs_best_d s = xor_distance (nhs_best s) target \<and>
           (\<forall>n\<in>S. nhs_best_d s \<le> xor_distance n target)
      else S = {})"

lemma nh_ok_have:
  "nh_ok target S s \<Longrightarrow> nhs_have s \<Longrightarrow>
     nhs_best s \<in> S \<and> nhs_best_d s = xor_distance (nhs_best s) target \<and>
     (\<forall>n\<in>S. nhs_best_d s \<le> xor_distance n target)"
  by (auto simp: nh_ok_def)

lemma nh_step_ok: "nh_ok target S s \<Longrightarrow> nh_ok target (insert n S) (nh_step target s n)"
  by (auto simp: nh_ok_def nh_step_def Let_def split: if_splits)

lemma nh_foldl_ok: "nh_ok target S s \<Longrightarrow> nh_ok target (S \<union> set ns) (foldl (nh_step target) s ns)"
proof (induction ns arbitrary: S s)
  case (Cons n ns)
  from Cons.IH [OF nh_step_ok [OF Cons.prems, of n]] show ?case by simp
qed simp

lemma nh_foldl_concat: "foldl (foldl f) s bs = foldl f s (concat bs)"
  by (induction bs arbitrary: s) simp_all

lemma nh_ok_select:
  assumes "nh_ok target S s"
  shows "nhs_have s \<and> nhs_best_d s < d \<Longrightarrow>
           nhs_best s \<in> S \<and> xor_distance (nhs_best s) target < d \<and>
           (\<forall>m\<in>S. xor_distance (nhs_best s) target \<le> xor_distance m target)"
    and "\<not> (nhs_have s \<and> nhs_best_d s < d) \<Longrightarrow> m \<in> S \<Longrightarrow> d \<le> xor_distance m target"
proof -
  show "nhs_have s \<and> nhs_best_d s < d \<Longrightarrow>
      nhs_best s \<in> S \<and> xor_distance (nhs_best s) target < d \<and>
      (\<forall>m\<in>S. xor_distance (nhs_best s) target \<le> xor_distance m target)"
    using nh_ok_have [OF assms] by auto
  show "d \<le> xor_distance m target" if n: "\<not> (nhs_have s \<and> nhs_best_d s < d)" and m: "m \<in> S"
  proof (cases "nhs_have s")
    case True
    with n have "d \<le> nhs_best_d s" by simp
    also have "\<dots> \<le> xor_distance m target" using nh_ok_have [OF assms True] m by blast
    finally show ?thesis .
  next
    case False
    with assms m show ?thesis by (simp add: nh_ok_def)
  qed
qed

lemma kt_next_hop_spec:
  assumes "target \<noteq> kt_self t"
  defines "S \<equiv> set (concat (kt_buckets t))"
  shows "kt_next_hop t target = Some n \<Longrightarrow>
           n \<in> S \<and> xor_distance n target < xor_distance (kt_self t) target \<and>
           (\<forall>m\<in>S. xor_distance n target \<le> xor_distance m target)"
    and "kt_next_hop t target = None \<Longrightarrow> m \<in> S \<Longrightarrow>
           xor_distance (kt_self t) target \<le> xor_distance m target"
proof -
  define s where "s = foldl (foldl (nh_step target)) \<lparr> nhs_have = False, nhs_best = 0, nhs_best_d = 0 \<rparr>
    (kt_buckets t)"
  have ok: "nh_ok target S s"
    using nh_foldl_ok [of target "{}" "\<lparr> nhs_have = False, nhs_best = 0, nhs_best_d = 0 \<rparr>"
        "concat (kt_buckets t)"]
    unfolding s_def S_def nh_foldl_concat by (simp add: nh_ok_def)
  have nh: "kt_next_hop t target =
      (if nhs_have s \<and> nhs_best_d s < xor_distance (kt_self t) target then Some (nhs_best s) else None)"
    using assms by (simp add: kt_next_hop_def s_def Let_def)
  note sel = nh_ok_select [OF ok, of "xor_distance (kt_self t) target"]
  show "kt_next_hop t target = Some n \<Longrightarrow>
      n \<in> S \<and> xor_distance n target < xor_distance (kt_self t) target \<and>
      (\<forall>m\<in>S. xor_distance n target \<le> xor_distance m target)"
    unfolding nh using sel(1) by (simp split: if_splits)
  show "kt_next_hop t target = None \<Longrightarrow> m \<in> S \<Longrightarrow>
      xor_distance (kt_self t) target \<le> xor_distance m target"
    unfolding nh using sel(2) by (simp split: if_splits)
qed

text \<open>Two distances with the same leading bit cancel it: greedy forwarding gains a whole bit.\<close>

lemma same_bucket_closer:
  assumes "n \<noteq> self" and "m \<noteq> self" and "bucket_of self n = bucket_of self m"
  shows "unat (xor_distance n m) < 2 ^ bucket_of self m"
proof -
  have nz: "xor_distance self n \<noteq> 0" "xor_distance self m \<noteq> 0" using assms by auto
  have "xor_distance n m = xor_distance self n XOR xor_distance self m"
    by (auto simp: xor_distance_def word_bits_eq_iff bit_xor_iff)
  moreover have "\<not> bit (xor_distance self n XOR xor_distance self m) j" if "bucket_of self m \<le> j" for j
    using top_bit_countl_zero [OF nz(1)] top_bit_countl_zero [OF nz(2)] that assms(3)
    by (cases "j = bucket_of self m") (auto simp: bit_xor_iff bucket_of_def)
  ultimately show ?thesis using iffD2 [OF unat_less_exp_iff_bits] by metis
qed

lemma kt_next_hop_progress:
  assumes "dst \<in> set known" and "dst \<noteq> self"
  shows "\<exists>n. kt_next_hop (kt_build self known k) dst = Some n \<and> n \<in> set known \<and> n \<noteq> self \<and>
             unat (xor_distance n dst) < 2 ^ bucket_of self dst"
proof -
  let ?t = "kt_build self known k"
  have self: "kt_self ?t = self" by (simp add: kt_build_def)
  obtain p where p: "p \<in> set (concat (kt_buckets ?t))" "bucket_of self p = bucket_of self dst" "p \<noteq> self"
    using kt_bucket_inhabited [OF assms] by blast
  from same_bucket_closer [OF p(3) assms(2) p(2)]
  have pd: "unat (xor_distance p dst) < 2 ^ bucket_of self dst" .
  have "2 ^ bucket_of self dst \<le> unat (xor_distance self dst)"
    using countl_zero_bounds(1) [of "xor_distance self dst"] assms(2) by (simp add: bucket_of_def)
  with pd have "\<not> xor_distance self dst \<le> xor_distance p dst" by (simp add: word_le_nat_alt)
  then have "kt_next_hop ?t dst \<noteq> None"
    using kt_next_hop_spec(2) [of dst ?t, OF _ _ p(1)] assms(2) self by metis
  then obtain n where n: "kt_next_hop ?t dst = Some n" by auto
  have "dst \<noteq> kt_self ?t" using assms(2) self by simp
  from kt_next_hop_spec(1) [OF this n] p(1)
  have "n \<in> set (concat (kt_buckets ?t))" "xor_distance n dst \<le> xor_distance p dst" by blast+
  moreover from this(1) have "n \<in> set known - {self}" by (rule set_mp [OF kt_peers_subset])
  moreover have "unat (xor_distance n dst) < 2 ^ bucket_of self dst"
    using calculation(2) pd unfolding word_le_nat_alt by (rule order_le_less_trans)
  ultimately show ?thesis using n by blast
qed

section \<open>Greedy relay routes\<close>

record relay_overlay =
  ro_roster :: "node_id list"
  ro_tables :: "u64 \<rightharpoonup> kademlia_table"

definition ro_emplace :: "(u64 \<rightharpoonup> kademlia_table) \<Rightarrow> u64 \<Rightarrow> kademlia_table \<Rightarrow> (u64 \<rightharpoonup> kademlia_table)" where
  "ro_emplace m n t = (if m n = None then m(n \<mapsto> t) else m)"

text \<open>The constructor with a known set per node, and the default one (every node knows the roster).\<close>

definition ro_build_known :: "node_id list \<Rightarrow> nat \<Rightarrow> (node_id \<Rightarrow> node_id list) \<Rightarrow> relay_overlay" where
  "ro_build_known roster k known_of =
     (let r = sort roster in
      \<lparr> ro_roster = r,
        ro_tables = foldl (\<lambda>m n. ro_emplace m n (kt_build n (known_of n) k)) (\<lambda>_. None) r \<rparr>)"

definition ro_build :: "node_id list \<Rightarrow> nat \<Rightarrow> relay_overlay" where
  "ro_build roster k =
     (let r = sort roster in
      \<lparr> ro_roster = r,
        ro_tables = foldl (\<lambda>m n. ro_emplace m n (kt_build n r k)) (\<lambda>_. None) r \<rparr>)"

definition ro_next_hop :: "relay_overlay \<Rightarrow> node_id \<Rightarrow> node_id \<Rightarrow> node_id option" where
  "ro_next_hop ov cur target =
     (case ro_tables ov cur of None \<Rightarrow> None | Some t \<Rightarrow> kt_next_hop t target)"

fun route_loop :: "relay_overlay \<Rightarrow> node_id \<Rightarrow> nat \<Rightarrow> node_id \<Rightarrow> node_id list \<Rightarrow> node_id list" where
  "route_loop ov dst 0 cur path = []"
| "route_loop ov dst (Suc h) cur path =
     (if cur = dst then path
      else case ro_next_hop ov cur dst of
        None \<Rightarrow> []
      | Some n \<Rightarrow>
          if n = cur then []
          else if n = dst then path @ [n]
          else route_loop ov dst h n (path @ [n]))"

definition route :: "relay_overlay \<Rightarrow> node_id \<Rightarrow> node_id \<Rightarrow> nat \<Rightarrow> node_id list" where
  "route ov src dst max_hops = route_loop ov dst max_hops src []"

lemma ro_emplace_fold:
  "foldl (\<lambda>m n. ro_emplace m n (f n)) m ns n =
     (case m n of Some t \<Rightarrow> Some t | None \<Rightarrow> if n \<in> set ns then Some (f n) else None)"
  by (induction ns arbitrary: m) (auto simp: ro_emplace_def split: option.splits)

lemma ro_next_hop_known:
  assumes "cur \<in> set roster"
  shows "ro_next_hop (ro_build_known roster k f) cur dst = kt_next_hop (kt_build cur (f cur) k) dst"
  using assms
  by (simp add: ro_next_hop_def ro_build_known_def Let_def ro_emplace_fold [of "\<lambda>n. kt_build n (f n) k"])

lemma ro_next_hop_full:
  assumes "cur \<in> set roster"
  shows "ro_next_hop (ro_build roster k) cur dst = kt_next_hop (kt_build cur (sort roster) k) dst"
  using assms
  by (simp add: ro_next_hop_def ro_build_def Let_def ro_emplace_fold [of "\<lambda>n. kt_build n (sort roster) k"])

lemma bucket_of_less_exp:
  "n \<noteq> m \<Longrightarrow> unat (xor_distance n m) < 2 ^ b \<longleftrightarrow> bucket_of n m < b"
  using countl_zero_less_iff [of "xor_distance n m" b] by (simp add: bucket_of_def)

definition closing_in :: "node_id \<Rightarrow> node_id list \<Rightarrow> bool" where
  "closing_in dst ns = sorted_wrt (\<lambda>a b. xor_distance b dst < xor_distance a dst) ns"

lemma route_loop_arrives:
  assumes "cur \<in> set roster" and "dst \<in> set roster" and "cur \<noteq> dst" and "bucket_of cur dst < h"
  shows "\<exists>q. route_loop (ro_build roster k) dst h cur path = path @ q \<and> q \<noteq> [] \<and> last q = dst \<and>
             length q \<le> Suc (bucket_of cur dst) \<and> set q \<subseteq> set roster \<and> closing_in dst (cur # q)"
  using assms
proof (induction h arbitrary: cur path)
  case (Suc h)
  obtain n where n: "kt_next_hop (kt_build cur (sort roster) k) dst = Some n" "n \<in> set roster" "n \<noteq> cur"
      "unat (xor_distance n dst) < 2 ^ bucket_of cur dst"
    using kt_next_hop_progress [of dst "sort roster" cur k] Suc.prems by auto
  have "2 ^ bucket_of cur dst \<le> unat (xor_distance cur dst)"
    using countl_zero_bounds(1) [of "xor_distance cur dst"] Suc.prems by (simp add: bucket_of_def)
  with n(4) have closer: "xor_distance n dst < xor_distance cur dst" by (simp add: word_less_nat_alt)
  have nh: "ro_next_hop (ro_build roster k) cur dst = Some n"
    using n Suc.prems by (simp add: ro_next_hop_full)
  show ?case
  proof (cases "n = dst")
    case True
    with nh n Suc.prems closer show ?thesis
      by (intro exI [of _ "[n]"]) (auto simp: closing_in_def)
  next
    case False
    then have b: "bucket_of n dst < bucket_of cur dst" using n(4) bucket_of_less_exp by blast
    with Suc.prems have "bucket_of n dst < h" by simp
    from Suc.IH [OF n(2) Suc.prems(2) False this, of "path @ [n]"] obtain q where
      q: "route_loop (ro_build roster k) dst h n (path @ [n]) = (path @ [n]) @ q" "q \<noteq> []"
        "last q = dst" "length q \<le> Suc (bucket_of n dst)" "set q \<subseteq> set roster"
        "closing_in dst (n # q)" by blast
    have "closing_in dst (cur # n # q)"
      using q(6) closer unfolding closing_in_def by (auto intro: less_trans)
    moreover have "route_loop (ro_build roster k) dst (Suc h) cur path = path @ n # q"
      using nh n(3) False Suc.prems(3) q(1) by simp
    ultimately show ?thesis using q b n(2) by (intro exI [of _ "n # q"]) auto
  qed
qed simp



lemma route_loop_sound:
  "route_loop ov dst h cur path = r \<Longrightarrow> r \<noteq> [] \<Longrightarrow> path \<noteq> [] \<longrightarrow> last path = cur \<Longrightarrow>
     last r = dst \<and> length r \<le> length path + h"
proof (induction h arbitrary: cur path)
  case (Suc h)
  then show ?case
    by (fastforce split: if_splits option.splits dest: Suc.IH)
qed simp

text \<open>
  Whatever each node knows (an unmaintained overlay included), a route that is not
  empty ends in the destination and respects the hop bound: the overlay either delivers or reports
  the dead end, and never returns a partial path.
\<close>

theorem relay_route_never_partial:
  "route (ro_build_known roster k f) src dst max_hops = [] \<or>
   (last (route (ro_build_known roster k f) src dst max_hops) = dst \<and>
    length (route (ro_build_known roster k f) src dst max_hops) \<le> max_hops)"
  using route_loop_sound [of "ro_build_known roster k f" dst max_hops src "[]"]
  by (auto simp: route_def)

section \<open>Bounded partial views\<close>

text \<open>Sizes are \<open>std::size_t\<close> values far below \<open>2 ^ 64\<close>; they are natural numbers here.\<close>

definition ceil_log2_width :: "u64 \<Rightarrow> nat" where
  "ceil_log2_width max_nodes = (let n = if max_nodes < 2 then 2 else max_nodes in 64 - countl_zero (n - 1))"

definition active_view_bound :: "u64 \<Rightarrow> nat \<Rightarrow> nat" where
  "active_view_bound max_nodes c =
     (let bound = c * ceil_log2_width max_nodes in if bound = 0 then 1 else bound)"

record bounded_partial_view =
  bpv_self :: node_id
  bpv_active :: "node_id list"
  bpv_passive :: "node_id list"

definition bpv_build ::
  "node_id \<Rightarrow> node_id list \<Rightarrow> u64 \<Rightarrow> nat \<Rightarrow> nat \<Rightarrow> nat \<Rightarrow> bounded_partial_view" where
  "bpv_build self roster max_nodes active_size passive_size fanout_c =
     (let bound = active_view_bound max_nodes fanout_c;
          want_active = (if active_size \<noteq> 0 then active_size else bound);
          want_passive = (if passive_size \<noteq> 0 then passive_size else 6 * want_active);
          peers = sort_key (xor_distance self) (filter (\<lambda>n. n \<noteq> self) roster);
          na = min want_active (length peers);
          np = min want_passive (length peers - na)
      in \<lparr> bpv_self = self, bpv_active = take na peers, bpv_passive = take np (drop na peers) \<rparr>)"

definition bpv_is_active :: "bounded_partial_view \<Rightarrow> node_id \<Rightarrow> bool" where
  "bpv_is_active v n \<longleftrightarrow> n \<in> set (bpv_active v)"

lemma sorted_key_take_drop:
  assumes "sorted (map f xs)" and "a \<in> set (take n xs)" and "b \<in> set (drop n xs)"
  shows "f a \<le> f b"
  using assms sorted_append [of "map f (take n xs)" "map f (drop n xs)"]
  by (simp flip: map_append)

text \<open>
  The partial view of a node: with duplicate-free rosters the active and passive
  views are disjoint, never hold the node itself, contain roster nodes only, stay within the
  requested sizes (by default \<open>c * ceil(log2 max_nodes)\<close> active peers), and no passive or left-out
  peer is closer to the node than an active one.
\<close>

theorem partial_view_bounded:
  fixes self roster max_nodes c
  assumes "distinct roster"
  defines "v \<equiv> bpv_build self roster max_nodes 0 0 c"
  shows "length (bpv_active v) \<le> active_view_bound max_nodes c \<and>
         length (bpv_passive v) \<le> 6 * active_view_bound max_nodes c \<and>
         distinct (bpv_active v @ bpv_passive v) \<and>
         set (bpv_active v @ bpv_passive v) \<subseteq> set roster - {self} \<and>
         (\<forall>a b. bpv_is_active v a \<longrightarrow> b \<in> set roster - {self} \<longrightarrow> \<not> bpv_is_active v b \<longrightarrow>
            xor_distance self a < xor_distance self b)"
proof -
  define ps where "ps = sort_key (xor_distance self) (filter (\<lambda>n. n \<noteq> self) roster)"
  define na where "na = min (active_view_bound max_nodes c) (length ps)"
  define np where "np = min (6 * active_view_bound max_nodes c) (length ps - na)"
  have v: "bpv_active v = take na ps" "bpv_passive v = take np (drop na ps)"
    unfolding v_def bpv_build_def Let_def na_def np_def ps_def by simp_all
  have dist: "distinct ps" using assms(1) by (simp add: ps_def)
  have sps: "set ps = set roster - {self}" by (auto simp: ps_def)
  have split: "take na ps @ take np (drop na ps) = take (na + np) ps" by (simp add: take_add)
  have closer: "xor_distance self a < xor_distance self b"
    if a: "a \<in> set (take na ps)" and b: "b \<in> set ps" "b \<notin> set (take na ps)" for a b
  proof -
    have "b \<in> set (drop na ps)" using b by (metis Un_iff append_take_drop_id set_append)
    with a have "xor_distance self a \<le> xor_distance self b"
      by (intro sorted_key_take_drop [of _ ps]) (simp_all add: ps_def)
    moreover have "xor_distance self a \<noteq> xor_distance self b"
    proof
      assume "xor_distance self a = xor_distance self b"
      then have "a = b" by (auto simp: xor_distance_def word_bits_eq_iff bit_xor_iff)
      with a b show False by simp
    qed
    ultimately show ?thesis by simp
  qed
  have "distinct (bpv_active v @ bpv_passive v)" "set (bpv_active v @ bpv_passive v) \<subseteq> set ps"
    unfolding v split using dist set_take_subset by (auto dest: in_set_takeD)
  moreover have "length (bpv_active v) \<le> active_view_bound max_nodes c"
    "length (bpv_passive v) \<le> 6 * active_view_bound max_nodes c"
    by (auto simp: v na_def np_def)
  ultimately show ?thesis using closer by (simp add: sps v bpv_is_active_def)
qed

theorem partial_view_bounded_witness:
  "length (bpv_active (bpv_build 1 [1, 2, 3, 4] 4 0 0 3)) \<le> 6 \<and>
   \<not> bpv_is_active (bpv_build 1 [1, 2, 3, 4] 4 0 0 3) 1"
proof -
  have "active_view_bound 4 3 = 6"
    using countl_zero_eqI [of 1 3] by (simp add: active_view_bound_def ceil_log2_width_def)
  then show ?thesis
    using partial_view_bounded [of "[1, 2, 3, 4]" 1 4 3] by (auto simp: bpv_is_active_def)
qed

section \<open>Pinned paths\<close>

record 'p path_pin =
  pp_path :: 'p
  pp_digest :: u64
  pp_pinned :: bool

definition pp_resolve ::
  "(u64 \<Rightarrow> 'p) \<Rightarrow> u64 \<Rightarrow> bool \<Rightarrow> 'p path_pin \<Rightarrow> 'p \<times> 'p path_pin" where
  "pp_resolve compute digest at_drain_boundary pp =
     (if \<not> pp_pinned pp
      then let pp' = pp\<lparr> pp_path := compute digest, pp_digest := digest, pp_pinned := True \<rparr>
           in (pp_path pp', pp')
      else if digest \<noteq> pp_digest pp \<and> at_drain_boundary
      then let pp' = pp\<lparr> pp_path := compute digest, pp_digest := digest \<rparr> in (pp_path pp', pp')
      else (pp_path pp, pp))"

definition pp_change_pending :: "'p path_pin \<Rightarrow> u64 \<Rightarrow> bool" where
  "pp_change_pending pp current_digest \<longleftrightarrow> pp_pinned pp \<and> current_digest \<noteq> pp_digest pp"

text \<open>The messages of one stream: the digest seen and whether the stream had drained.\<close>

fun pp_run :: "(u64 \<Rightarrow> 'p) \<Rightarrow> (u64 \<times> bool) list \<Rightarrow> 'p path_pin \<Rightarrow> 'p list" where
  "pp_run compute [] pp = []"
| "pp_run compute ((digest, drained) # ms) pp =
     (case pp_resolve compute digest drained pp of (p, pp') \<Rightarrow> p # pp_run compute ms pp')"

definition pp_inv :: "(u64 \<Rightarrow> 'p) \<Rightarrow> 'p path_pin \<Rightarrow> bool" where
  "pp_inv compute pp \<longleftrightarrow> (pp_pinned pp \<longrightarrow> pp_path pp = compute (pp_digest pp))"

lemma pp_resolve_spec:
  assumes "pp_inv compute pp" and "pp_resolve compute d b pp = (p, pp')"
  shows "pp_inv compute pp'" and "pp_pinned pp'" and "p = pp_path pp'"
    and "b \<Longrightarrow> p = compute d"
    and "pp_pinned pp \<Longrightarrow> p \<noteq> pp_path pp \<Longrightarrow> b \<and> d \<noteq> pp_digest pp"
    and "pp_change_pending pp' d \<Longrightarrow> \<not> b"
  using assms by (auto simp: pp_resolve_def pp_inv_def pp_change_pending_def Let_def split: if_splits)

lemma length_pp_run [simp]: "length (pp_run compute ms pp) = length ms"
  by (induction ms arbitrary: pp) (auto split: prod.splits)

lemma pp_run_nth:
  assumes "pp_inv compute pp" and "i < length ms"
  shows "(snd (ms ! i) \<longrightarrow> pp_run compute ms pp ! i = compute (fst (ms ! i))) \<and>
         (Suc i < length ms \<longrightarrow> \<not> snd (ms ! Suc i) \<longrightarrow>
            pp_run compute ms pp ! Suc i = pp_run compute ms pp ! i)"
  using assms
proof (induction ms arbitrary: pp i)
  case (Cons m ms)
  obtain d b where m: "m = (d, b)" by force
  obtain p pp' where r: "pp_resolve compute d b pp = (p, pp')" by force
  note spec = pp_resolve_spec [OF Cons.prems(1) r]
  show ?case
  proof (cases i)
    case 0
    have "pp_run compute ms pp' ! 0 = p" if "ms \<noteq> []" "\<not> snd (ms ! 0)"
    proof -
      obtain d' b' ms' where ms: "ms = (d', b') # ms'" using \<open>ms \<noteq> []\<close> by (metis list.exhaust prod.exhaust)
      obtain q pq where q: "pp_resolve compute d' b' pp' = (q, pq)" by force
      from pp_resolve_spec(5) [OF spec(1) q spec(2)] that ms spec(3) have "q = p" by auto
      with q ms show ?thesis by simp
    qed
    with 0 m r spec(4) show ?thesis by auto
  next
    case (Suc j)
    with Cons.IH [OF spec(1), of j] Cons.prems(2) m r show ?thesis by auto
  qed
qed simp

text \<open>
  Path pinning: along a stream the path of a message differs from the path of its
  predecessor only if the stream had drained in between, and a message sent at a drain boundary
  goes over the path of the current digest; \<open>p0\<close> is the value the pin is created with.
\<close>

theorem path_pin_fifo:
  fixes compute :: "u64 \<Rightarrow> 'p" and p0
  defines "out \<equiv> \<lambda>ms. pp_run compute ms \<lparr> pp_path = p0, pp_digest = 0, pp_pinned = False \<rparr>"
  assumes "i < length ms"
  shows "(snd (ms ! i) \<longrightarrow> out ms ! i = compute (fst (ms ! i))) \<and>
         (Suc i < length ms \<longrightarrow> out ms ! Suc i \<noteq> out ms ! i \<longrightarrow> snd (ms ! Suc i))"
  using pp_run_nth [of compute "\<lparr> pp_path = p0, pp_digest = 0, pp_pinned = False \<rparr>" i ms] assms
  by (auto simp: pp_inv_def)

theorem path_pin_fifo_witness:
  "pp_run (\<lambda>d. d) [(5, False), (6, False), (6, True)]
     \<lparr> pp_path = 0, pp_digest = 0, pp_pinned = False \<rparr> ! 2 = (6 :: u64)"
  using path_pin_fifo [of 2 "[(5, False), (6, False), (6, True)]" "\<lambda>d. d" 0] by simp

section \<open>Configuration\<close>

datatype topology = Flat | Partitioned | PartialView
datatype conn = FullMesh | Gateway | BoundedPartialView
datatype cache = Direct | VirtualBins | Resolved

record cluster_topology_config =
  ct_topology :: topology
  ct_connections :: conn
  ct_placement_cache :: cache
  ct_max_nodes :: u64
  ct_active_view :: u32
  ct_relay_cap :: u32
  ct_gateways_per_group :: u32

definition ct_default :: cluster_topology_config where
  "ct_default =
     \<lparr> ct_topology = Flat, ct_connections = FullMesh, ct_placement_cache = Direct, ct_max_nodes = 1,
       ct_active_view = 0, ct_relay_cap = 0, ct_gateways_per_group = 0 \<rparr>"

definition ct_large_scale :: "u64 \<Rightarrow> cluster_topology_config" where
  "ct_large_scale max_nodes =
     \<lparr> ct_topology = PartialView, ct_connections = BoundedPartialView,
       ct_placement_cache = VirtualBins, ct_max_nodes = max_nodes,
       ct_active_view = 0, ct_relay_cap = 0, ct_gateways_per_group = 0 \<rparr>"

definition ct_buckets :: "cluster_topology_config \<Rightarrow> u64" where
  "ct_buckets c = (if ct_placement_cache c = VirtualBins then virtual_bin_count (ct_max_nodes c) else 0)"

definition ct_effective_relay_cap :: "cluster_topology_config \<Rightarrow> nat" where
  "ct_effective_relay_cap c =
     (if ct_relay_cap c \<noteq> 0 then unat (ct_relay_cap c) else ceil_log2_width (ct_max_nodes c))"

definition ct_effective_active_view :: "cluster_topology_config \<Rightarrow> nat" where
  "ct_effective_active_view c =
     (if ct_active_view c \<noteq> 0 then unat (ct_active_view c) else active_view_bound (ct_max_nodes c) 3)"

definition ct_validation_error :: "cluster_topology_config \<Rightarrow> string option" where
  "ct_validation_error c =
     (if ct_max_nodes c = 0 then Some ''max_nodes must be >= 1''
      else if ct_placement_cache c = VirtualBins \<and> ct_buckets c < 16 * ct_max_nodes c
      then Some ''B must be >= 16 * max_nodes (026/008)''
      else if ct_topology c = Flat \<and>
              (ct_placement_cache c = VirtualBins \<or> ct_connections c = BoundedPartialView)
      then Some ''Flat topology must instantiate no large-scale cache/connection machinery''
      else None)"

definition ct_valid :: "cluster_topology_config \<Rightarrow> bool" where
  "ct_valid c \<longleftrightarrow> \<not> ct_validation_error c \<noteq> None"

definition direct_owner_of :: "actor_id \<Rightarrow> membership_view \<Rightarrow> node_id option" where
  "direct_owner_of a v = place a v"

lemma unat_16_times: "unat n \<le> 2 ^ 59 \<Longrightarrow> unat (16 * n :: u64) = 16 * unat n"
  by (simp add: unat_word_ariths)

text \<open>
  For clusters of up to \<open>2 ^ 59\<close> nodes a configuration is rejected exactly when it names
  no node or is flat and asks for large-cluster machinery: the bin count it derives is a power
  of two that always covers 16 bins per node, so the bin rule never fires.
\<close>

theorem topology_validation:
  assumes "unat (ct_max_nodes c) \<le> 2 ^ 59"
  shows "(ct_valid c \<longleftrightarrow>
            ct_max_nodes c \<noteq> 0 \<and>
            (ct_topology c = Flat \<longrightarrow>
               ct_placement_cache c \<noteq> VirtualBins \<and> ct_connections c \<noteq> BoundedPartialView)) \<and>
         (ct_valid c \<longrightarrow> ct_placement_cache c = VirtualBins \<longrightarrow>
            16 * unat (ct_max_nodes c) \<le> unat (ct_buckets c) \<and>
            (\<exists>m. unat (ct_buckets c) = 2 ^ m))"
proof (cases "ct_max_nodes c = 0")
  case True
  then show ?thesis by (simp add: ct_valid_def ct_validation_error_def)
next
  case False
  let ?x = "16 * ct_max_nodes c"
  have x: "unat ?x = 16 * unat (ct_max_nodes c)" by (rule unat_16_times [OF assms])
  then have x63: "unat ?x \<le> 2 ^ 63" using assms by simp
  have ge: "16 * unat (ct_max_nodes c) \<le> unat (next_pow2 ?x)" using next_pow2_ge [OF x63] x by simp
  then have "\<not> next_pow2 ?x < ?x" by (simp add: x word_less_nat_alt)
  moreover obtain m where "unat (next_pow2 ?x) = 2 ^ m" by (rule next_pow2_power [OF x63])
  ultimately show ?thesis
    using False ge
    by (auto simp: ct_valid_def ct_validation_error_def ct_buckets_def virtual_bin_count_def)
qed

theorem topology_validation_witness:
  "ct_valid (ct_large_scale 1000) \<and> 16000 \<le> unat (ct_buckets (ct_large_scale 1000))"
  using topology_validation [of "ct_large_scale 1000"] by (simp add: ct_large_scale_def)

text \<open>
  The bin rule does not survive the wrap of \<open>16 * max_nodes\<close>: with \<open>2 ^ 60\<close> nodes the
  configuration is accepted with a single bin.
\<close>

theorem topology_validation_wraps:
  "ct_valid (ct_large_scale 0x1000000000000000) \<and> ct_buckets (ct_large_scale 0x1000000000000000) = 1"
  by code_simp

text \<open>
  The default hop cap is not a delivery bound of the table: in the roster
  \<open>14, 6, 2, 0\<close> with one peer per bucket the route from 14 to 0 takes three hops, while the cap for
  four nodes is \<open>ceil(log2 4) = 2\<close>, under which the route is reported as a dead end.
\<close>

theorem relay_cap_below_route_length:
  "length (route (ro_build [14, 6, 2, 0] 1) 14 0 64) = 3 \<and>
   ct_effective_relay_cap (ct_large_scale 4) = 2 \<and>
   route (ro_build [14, 6, 2, 0] 1) 14 0 (ct_effective_relay_cap (ct_large_scale 4)) = []"
  by code_simp

end
