(* ===== verification/Deadline.thy ===== *)
theory Deadline
  imports Quark_Prelude
begin

text \<open>
  \<open>include/quark/core/deadline.hpp\<close> and \<open>deadline_propagation.hpp\<close>: absolute deadlines on a node's
  monotonic clock, inheritance, and the translation to a remaining duration on the wire.  Signed
  64-bit nanosecond counts are integers; the two saturating additions are written out, and the other
  differences are of non-negative clock readings, which cannot overflow.  The current reading of the
  clock (\<open>pal::now()\<close>) is an argument, as it is in the source.
\<close>

section \<open>Deadlines on one node\<close>

definition INT64_MAX :: int where
  "INT64_MAX = 2 ^ 63 - 1"

definition INT64_MIN :: int where
  "INT64_MIN = - (2 ^ 63)"

datatype deadline = Deadline (deadline_ns: int)

definition none_sentinel :: int where
  "none_sentinel = 0"

definition deadline_at_ns :: "int \<Rightarrow> deadline" where
  "deadline_at_ns ns = Deadline ns"

definition deadline_none :: deadline where
  "deadline_none = Deadline none_sentinel"

definition deadline_after :: "int \<Rightarrow> int \<Rightarrow> deadline" where
  "deadline_after d now =
     (let base = now; budget = (if d < 0 then 0 else d) in
      if INT64_MAX - base < budget then Deadline INT64_MAX
      else let ns = base + budget in Deadline (if ns = none_sentinel then 1 else ns))"

definition has_deadline :: "deadline \<Rightarrow> bool" where
  "has_deadline dl \<longleftrightarrow> deadline_ns dl \<noteq> none_sentinel"

definition deadline_expired :: "deadline \<Rightarrow> int \<Rightarrow> bool" where
  "deadline_expired dl now \<longleftrightarrow> has_deadline dl \<and> deadline_ns dl \<le> now"

definition deadline_remaining :: "deadline \<Rightarrow> int \<Rightarrow> int" where
  "deadline_remaining dl now = (if \<not> has_deadline dl then INT64_MAX else deadline_ns dl - now)"

definition remaining_clamped :: "deadline \<Rightarrow> int \<Rightarrow> int" where
  "remaining_clamped dl now = (let r = deadline_remaining dl now in if r < 0 then 0 else r)"

definition earlier :: "deadline \<Rightarrow> deadline \<Rightarrow> deadline" where
  "earlier a b =
     (if \<not> has_deadline a then b
      else if \<not> has_deadline b then a
      else deadline_at_ns (min (deadline_ns a) (deadline_ns b)))"

definition inherit_deadline :: "deadline \<Rightarrow> deadline \<Rightarrow> deadline" where
  "inherit_deadline parent child_request = earlier parent child_request"

text \<open>The context's \<open>deadline_ns\<close> field stands for the context.\<close>

definition deadline_of :: "int \<Rightarrow> deadline" where
  "deadline_of ctx_deadline_ns = deadline_at_ns ctx_deadline_ns"

definition child_deadline :: "int \<Rightarrow> deadline \<Rightarrow> deadline" where
  "child_deadline parent_deadline_ns tighter = inherit_deadline (deadline_of parent_deadline_ns) tighter"

definition check_deadline :: "deadline \<Rightarrow> int \<Rightarrow> unit result" where
  "check_deadline dl now =
     (if deadline_expired dl now then fail Timeout ''deadline exceeded'' else Inr ())"

text \<open>
  The instant a deadline stands for: none is later than every instant.  Inheritance is the minimum
  in this order.
\<close>

definition deadline_le :: "deadline \<Rightarrow> deadline \<Rightarrow> bool" where
  "deadline_le a b \<longleftrightarrow> \<not> has_deadline b \<or> (has_deadline a \<and> deadline_ns a \<le> deadline_ns b)"

lemmas deadline_defs = deadline_at_ns_def deadline_none_def has_deadline_def deadline_expired_def
  deadline_remaining_def none_sentinel_def deadline_of_def deadline_le_def

lemma deadline_le_refl [simp]: "deadline_le a a"
  by (simp add: deadline_le_def)

lemma deadline_le_trans: "deadline_le a b \<Longrightarrow> deadline_le b c \<Longrightarrow> deadline_le a c"
  by (auto simp: deadline_le_def)

lemma earlier_greatest_lower_bound:
  "deadline_le (earlier a b) a" "deadline_le (earlier a b) b"
  "deadline_le c a \<Longrightarrow> deadline_le c b \<Longrightarrow> deadline_le c (earlier a b)"
  by (auto simp: earlier_def deadline_defs)

lemma earlier_commute: "earlier a b = earlier b a"
  by (cases a; cases b) (simp add: earlier_def deadline_defs min.commute)

text \<open>
  Building a deadline from a budget: for a clock reading between 0 and \<open>INT64_MAX\<close> the
  instant is never the none sentinel, never wraps (it lies between the reading and \<open>INT64_MAX\<close>), is the
  exact sum when the sum fits, and saturates otherwise; negative budgets count as 0.
\<close>

theorem deadline_after_saturates:
  assumes "0 \<le> now" and "now \<le> INT64_MAX"
  shows "has_deadline (deadline_after d now) \<and>
         now \<le> deadline_ns (deadline_after d now) \<and> deadline_ns (deadline_after d now) \<le> INT64_MAX \<and>
         (0 < now \<longrightarrow> now + max d 0 \<le> INT64_MAX \<longrightarrow>
            deadline_remaining (deadline_after d now) now = max d 0) \<and>
         (INT64_MAX < now + max d 0 \<longrightarrow> deadline_ns (deadline_after d now) = INT64_MAX) \<and>
         (deadline_expired (deadline_after d now) now \<longleftrightarrow>
            0 < now \<and> d \<le> 0 \<or> now = INT64_MAX)"
  using assms by (auto simp: deadline_after_def deadline_defs Let_def INT64_MAX_def)

theorem deadline_after_saturates_witness:
  "deadline_remaining (deadline_after 500 1000) 1000 = 500"
  using deadline_after_saturates [of 1000 500] by (simp add: INT64_MAX_def)

text \<open>
  Inheritance never loosens: the child's deadline is the greatest deadline that is
  no later than both the parent's and the requested one (none counting as never), so a child of an
  expired parent is rejected with a timeout whatever it asks for, and a child whose parent and
  request are both still open is not.
\<close>

theorem child_deadline_never_loosens:
  "deadline_le (child_deadline p t) (deadline_of p) \<and> deadline_le (child_deadline p t) t \<and>
   (\<forall>c. deadline_le c (deadline_of p) \<and> deadline_le c t \<longrightarrow> deadline_le c (child_deadline p t)) \<and>
   (check_deadline (child_deadline p t) now = fail Timeout ''deadline exceeded'' \<longleftrightarrow>
      deadline_expired (deadline_of p) now \<or> deadline_expired t now)"
proof -
  have "deadline_expired (child_deadline p t) now \<longleftrightarrow>
      deadline_expired (deadline_of p) now \<or> deadline_expired t now"
    by (auto simp: child_deadline_def inherit_deadline_def earlier_def deadline_defs)
  then show ?thesis
    using earlier_greatest_lower_bound
    by (simp add: check_deadline_def child_deadline_def inherit_deadline_def fail_def)
qed

theorem child_deadline_never_loosens_witness:
  "deadline_le (deadline_at_ns 4) (child_deadline 10 (deadline_at_ns 5)) \<and>
   check_deadline (child_deadline 10 (deadline_at_ns 5)) 7 = fail Timeout ''deadline exceeded''"
proof -
  have "deadline_le (deadline_at_ns 4) (deadline_of 10)" "deadline_le (deadline_at_ns 4) (deadline_at_ns 5)"
    "deadline_expired (deadline_at_ns 5) 7" by (simp_all add: deadline_defs)
  with child_deadline_never_loosens [of 10 "deadline_at_ns 5" 7] show ?thesis by blast
qed

section \<open>Deadlines across nodes\<close>

datatype transit_estimate = TransitEstimate (one_way: int)

definition transit_from_rtt :: "int \<Rightarrow> transit_estimate" where
  "transit_from_rtt rtt = (if rtt \<le> 0 then TransitEstimate 0 else TransitEstimate (rtt div 2))"

definition transit_unknown :: transit_estimate where
  "transit_unknown = TransitEstimate 0"

definition encode_deadline_for_wire :: "deadline \<Rightarrow> int \<Rightarrow> int option" where
  "encode_deadline_for_wire dl now_a =
     (if \<not> has_deadline dl then None else Some (deadline_remaining dl now_a))"

definition rebase_deadline_from_wire :: "int \<Rightarrow> transit_estimate \<Rightarrow> int \<Rightarrow> deadline" where
  "rebase_deadline_from_wire remaining transit now_b =
     (let base = now_b; budget = remaining - one_way transit in
      if 0 < budget \<and> INT64_MAX - base < budget then deadline_at_ns INT64_MAX
      else deadline_at_ns (base + budget))"

text \<open>
  One hop of a request chain: the handler checks its deadline, derives the child's, ships the
  remaining duration, and the receiver rebases it on its own clock.  No duration on the wire means
  no deadline at the receiver.
\<close>

record hop =
  hop_tighter :: deadline
  hop_now_send :: int
  hop_transit :: transit_estimate
  hop_now_recv :: int

definition deadline_hop :: "hop \<Rightarrow> deadline \<Rightarrow> deadline result" where
  "deadline_hop h dl =
     (case check_deadline dl (hop_now_send h) of
        Inl e \<Rightarrow> Inl e
      | Inr _ \<Rightarrow>
          (case encode_deadline_for_wire (child_deadline (deadline_ns dl) (hop_tighter h)) (hop_now_send h) of
             None \<Rightarrow> Inr deadline_none
           | Some remaining \<Rightarrow>
               Inr (rebase_deadline_from_wire remaining (hop_transit h) (hop_now_recv h))))"

fun deadline_chain :: "hop list \<Rightarrow> deadline \<Rightarrow> deadline result" where
  "deadline_chain [] dl = Inr dl"
| "deadline_chain (h # hs) dl =
     (case deadline_hop h dl of Inl e \<Rightarrow> Inl e | Inr dl' \<Rightarrow> deadline_chain hs dl')"

text \<open>
  What the clocks and the estimator guarantee: readings are non-negative and do not run backwards on
  a node, an estimate is not negative and less than the receiver's time since boot, and a handler's
  own request lies in its future.
\<close>

fun hops_ok :: "int \<Rightarrow> hop list \<Rightarrow> bool" where
  "hops_ok now [] \<longleftrightarrow> True"
| "hops_ok now (h # hs) \<longleftrightarrow>
     now \<le> hop_now_send h \<and> 0 \<le> one_way (hop_transit h) \<and>
     one_way (hop_transit h) < hop_now_recv h \<and>
     (has_deadline (hop_tighter h) \<longrightarrow> hop_now_send h < deadline_ns (hop_tighter h)) \<and>
     hops_ok (hop_now_recv h) hs"

definition last_clock :: "int \<Rightarrow> hop list \<Rightarrow> int" where
  "last_clock now hs = (if hs = [] then now else hop_now_recv (last hs))"

lemma last_clock_Cons [simp]: "last_clock now (h # hs) = last_clock (hop_now_recv h) hs"
  by (simp add: last_clock_def)

lemma rebase_remaining:
  assumes "0 < rem" and "0 \<le> one_way tr" and "one_way tr < now"
  shows "has_deadline (rebase_deadline_from_wire rem tr now) \<and>
         deadline_ns (rebase_deadline_from_wire rem tr now) - now \<le> rem - one_way tr"
  using assms by (auto simp: rebase_deadline_from_wire_def deadline_defs Let_def INT64_MAX_def)

lemma deadline_hop_budget:
  assumes "deadline_hop h dl = Inr dl'" and "has_deadline dl" and "hops_ok now (h # hs)"
  shows "has_deadline dl' \<and>
         deadline_ns dl' - hop_now_recv h \<le> deadline_ns dl - now - one_way (hop_transit h)"
proof -
  let ?c = "child_deadline (deadline_ns dl) (hop_tighter h)"
  have ne: "\<not> deadline_expired dl (hop_now_send h)"
    using assms(1) by (auto simp: deadline_hop_def check_deadline_def fail_def split: if_splits)
  have c: "has_deadline ?c" "deadline_ns ?c \<le> deadline_ns dl" "hop_now_send h < deadline_ns ?c"
    using assms(2,3) ne
    by (auto simp: child_deadline_def inherit_deadline_def earlier_def deadline_defs)
  have "dl' = rebase_deadline_from_wire (deadline_ns ?c - hop_now_send h) (hop_transit h) (hop_now_recv h)"
    using assms(1) ne c(1)
    by (simp add: deadline_hop_def check_deadline_def encode_deadline_for_wire_def deadline_remaining_def)
  moreover note rebase_remaining [of "deadline_ns ?c - hop_now_send h" "hop_transit h" "hop_now_recv h"]
  ultimately show ?thesis using c assms(3) by auto
qed

text \<open>
  A request chain over any number of nodes never gains time: with a deadline at the
  start, every node it reaches has one, and the budget left there is at most the budget at the
  start less every transit charged on the way, whatever the nodes' clock epochs are and whatever
  the handlers ask for.
\<close>

theorem deadline_chain_never_gains:
  assumes "deadline_chain hs dl = Inr dl'" and "has_deadline dl" and "hops_ok now hs"
  shows "has_deadline dl' \<and>
         deadline_ns dl' - last_clock now hs \<le>
           deadline_ns dl - now - sum_list (map (\<lambda>h. one_way (hop_transit h)) hs)"
  using assms
proof (induction hs arbitrary: dl now)
  case Nil
  then show ?case by (simp add: last_clock_def)
next
  case (Cons h hs)
  then obtain dl1 where h: "deadline_hop h dl = Inr dl1" "deadline_chain hs dl1 = Inr dl'"
    by (auto split: sum.splits)
  from deadline_hop_budget [OF h(1) Cons.prems(2,3)] Cons.IH [OF h(2), of "hop_now_recv h"] Cons.prems(3)
  show ?case by force
qed

theorem deadline_chain_never_gains_witness:
  "deadline_chain
     [\<lparr> hop_tighter = deadline_none, hop_now_send = 150, hop_transit = TransitEstimate 10, hop_now_recv = 9000 \<rparr>,
      \<lparr> hop_tighter = Deadline 9300, hop_now_send = 9100, hop_transit = TransitEstimate 5, hop_now_recv = 40 \<rparr>]
     (Deadline 1000) = Inr (Deadline 235) \<and> 235 - (40 :: int) \<le> 1000 - 100 - 15"
proof -
  let ?hs = "[\<lparr> hop_tighter = deadline_none, hop_now_send = 150, hop_transit = TransitEstimate 10, hop_now_recv = 9000 \<rparr>,
      \<lparr> hop_tighter = Deadline 9300, hop_now_send = 9100, hop_transit = TransitEstimate 5, hop_now_recv = 40 \<rparr>]"
  have "deadline_chain ?hs (Deadline 1000) = Inr (Deadline 235)" by code_simp
  moreover have "hops_ok 100 ?hs" by code_simp
  ultimately show ?thesis
    using deadline_chain_never_gains [of ?hs "Deadline 1000" "Deadline 235" 100]
    by (simp add: deadline_defs last_clock_def)
qed

text \<open>
  The rebase is lenient and exact: with no estimate the receiver gets precisely the
  sender's remaining budget, and an estimate from a round-trip time charges at most half of it, so a
  deadline that is open after the charge is open at the receiver.
\<close>

theorem rebase_lenient:
  assumes "has_deadline dl" and "encode_deadline_for_wire dl now_a = Some rem"
    and "0 < now_b" and "0 \<le> now_a" and "deadline_ns dl \<le> INT64_MAX"
    and "now_b + rem \<le> INT64_MAX" and "0 < rem"
  shows "deadline_remaining (rebase_deadline_from_wire rem transit_unknown now_b) now_b = deadline_remaining dl now_a \<and>
         (2 * rem > rtt \<longrightarrow>
            \<not> deadline_expired (rebase_deadline_from_wire rem (transit_from_rtt rtt) now_b) now_b)"
proof -
  have rem: "rem = deadline_remaining dl now_a" using assms(1,2) by (simp add: encode_deadline_for_wire_def)
  have "rtt div 2 < rem" if "rtt < 2 * rem" using that by presburger
  then show ?thesis
    using assms rem
    by (auto simp: rebase_deadline_from_wire_def transit_unknown_def transit_from_rtt_def deadline_defs Let_def)
qed

theorem rebase_lenient_witness:
  "deadline_remaining (rebase_deadline_from_wire 400 transit_unknown 7) 7 = 400"
  using rebase_lenient [of "Deadline 1000" 600 400 7 10]
  by (simp add: deadline_defs encode_deadline_for_wire_def INT64_MAX_def)

text \<open>
  The epoch corner that \<open>Deadline::after\<close> guards is open in the rebase: a message that is
  late by exactly the receiver's clock reading is rebased to the none sentinel, so an expired
  deadline turns into no deadline and passes the check.
\<close>

theorem rebase_epoch_corner:
  "rebase_deadline_from_wire (- now_b) transit_unknown now_b = deadline_none \<and>
   check_deadline (rebase_deadline_from_wire (- now_b) transit_unknown now_b) now_b = Inr ()"
  by (simp add: rebase_deadline_from_wire_def transit_unknown_def check_deadline_def deadline_defs
      INT64_MAX_def)

end
