(* ===== verification/Governance.thy ===== *)
theory Governance
  imports Ids
begin

text \<open>
  Admission control: \<open>include/quark/detail/rate_bucket.hpp\<close> (the integer token bucket of the control
  and data planes) and, of \<open>include/quark/core/governance.hpp\<close>, the circuit breaker and the per-peer
  congestion gates.  Clock readings are integers, counters keep their width.  The floating-point
  \<open>TokenBucket\<close> a gate holds enters as a parameter: its check is a function of the instant, the cost
  and the bucket.
\<close>

section \<open>The integer rate bucket\<close>

record rate_bucket =
  rb_last_ns :: int
  rb_tokens :: u64

definition rb_fresh :: rate_bucket where
  "rb_fresh = \<lparr> rb_last_ns = 0, rb_tokens = 0 \<rparr>"

definition rb_refill :: "int \<Rightarrow> u64 \<Rightarrow> u64 \<Rightarrow> rate_bucket \<Rightarrow> rate_bucket" where
  "rb_refill now rate burst b =
     (if rb_last_ns b = 0 then \<lparr> rb_last_ns = now, rb_tokens = burst \<rparr>
      else if rb_last_ns b < now then
        let elapsed = now - rb_last_ns b in
        if elapsed \<ge> 1000000000 then \<lparr> rb_last_ns = now, rb_tokens = burst \<rparr>
        else
          let add = of_int elapsed * rate div 1000000000 in
          if 0 < add then
            let want = rb_tokens b + add in
            \<lparr> rb_last_ns = (if burst < want then now else rb_last_ns b + sint (add * 1000000000 div rate)),
              rb_tokens = min burst want \<rparr>
          else b
      else b)"

definition rb_admit :: "int \<Rightarrow> u64 \<Rightarrow> u64 \<Rightarrow> rate_bucket \<Rightarrow> bool \<times> rate_bucket" where
  "rb_admit now rate burst b0 =
     (let b = rb_refill now rate burst b0 in
      if rb_tokens b = 0 then (False, b)
      else (True, b\<lparr> rb_tokens := rb_tokens b - 1 \<rparr>))"

text \<open>The sizes a deployment uses: the products of a sub-second elapsed time fit in 64 bits.\<close>

definition rate_ok :: "u64 \<Rightarrow> u64 \<Rightarrow> bool" where
  "rate_ok rate burst \<longleftrightarrow>
     0 < unat rate \<and> unat rate \<le> 1000000000 \<and> 1 \<le> unat burst \<and> unat burst \<le> 2 ^ 62"

text \<open>A bucket in use: its clock is a past instant and it never holds more than the burst.\<close>

definition rb_inv :: "u64 \<Rightarrow> rate_bucket \<Rightarrow> bool" where
  "rb_inv burst b \<longleftrightarrow> 0 < rb_last_ns b \<and> unat (rb_tokens b) \<le> unat burst"

text \<open>Counters are compared as integers of their natural value.\<close>

declare of_nat_unat [simp del]

text \<open>The refill over unbounded integers: with sizes in range nothing wraps.\<close>

lemma rb_add_value:
  assumes "0 < e" and "e < 1000000000" and "rate_ok rate burst"
  defines "add \<equiv> of_int e * rate div 1000000000 :: u64"
  shows "int (unat add) = e * int (unat rate) div 1000000000"
    and "sint (add * 1000000000 div rate) = int (unat add) * 1000000000 div int (unat rate)"
    and "int (unat add) \<le> e"
proof -
  have e: "unat (of_int e :: u64) = nat e"
    using assms(1,2) by (simp add: unat_of_int_nonneg)
  have r: "0 < unat rate" "unat rate \<le> 1000000000" using assms(3) by (simp_all add: rate_ok_def)
  have prod: "nat e * unat rate \<le> 1000000000 * 1000000000"
    using assms(2) r by (intro mult_mono) auto
  then have "unat (of_int e * rate :: u64) = nat e * unat rate"
    by (subst unat_times_no_wrap) (simp_all add: e)
  then have a: "unat add = nat e * unat rate div 1000000000"
    by (simp add: add_def unat_div)
  then show v: "int (unat add) = e * int (unat rate) div 1000000000"
    using assms(1) by (simp add: zdiv_int)
  have le: "unat add * 1000000000 \<le> nat e * unat rate" by (simp add: a)
  have m: "unat (add * 1000000000) = unat add * 1000000000"
    by (subst unat_times_no_wrap) (use le prod in simp_all)
  have q: "unat (add * 1000000000 div rate) = unat add * 1000000000 div unat rate"
    by (simp add: unat_div m)
  also have "\<dots> \<le> nat e"
    using div_le_mono [OF le, of "unat rate"] r(1) by simp
  finally have "unat (add * 1000000000 div rate) \<le> nat e" .
  then have "unat (add * 1000000000 div rate) < 2 ^ 63" using assms(2) by simp
  then have "sint (add * 1000000000 div rate) = int (unat (add * 1000000000 div rate))"
    by (rule sint_eq_int_unat)
  then show "sint (add * 1000000000 div rate) = int (unat add) * 1000000000 div int (unat rate)"
    by (simp add: q zdiv_int)
  have "unat add \<le> nat e * 1000000000 div 1000000000"
    unfolding a using r(2) by (intro div_le_mono mult_le_mono2) simp
  then have "unat add \<le> nat e" by simp
  then show "int (unat add) \<le> e" using assms(1) by linarith
qed
lemma rb_add_pos:
  assumes "0 < e" and "e < 1000000000" and "rate_ok rate burst"
    and "0 < (of_int e * rate div 1000000000 :: u64)"
  defines "add \<equiv> of_int e * rate div 1000000000 :: u64"
  shows "0 < int (unat add) \<and> int (unat add) \<le> e \<and> 1000000000 * int (unat add) \<le> e * int (unat rate) \<and>
         sint (add * 1000000000 div rate) = int (unat add) * 1000000000 div int (unat rate)"
proof -
  note v = rb_add_value [OF assms(1-3), folded add_def]
  have "0 < unat add" using assms(4) by (simp add: add_def word_less_nat_alt)
  moreover have "1000000000 * (e * int (unat rate) div 1000000000) \<le> e * int (unat rate)" by simp
  ultimately show ?thesis using v by linarith
qed

text \<open>
  The credit a refill may create: what the larger of rate and burst allows for the time the bucket's
  clock advanced, and, when the rate does not divide a second evenly, one rounding per call.
\<close>

definition rb_slack :: "u64 \<Rightarrow> int" where
  "rb_slack rate = (if int (unat rate) dvd 1000000000 then 0 else int (unat rate))"

lemma rb_slack_nonneg: "0 \<le> rb_slack rate"
  by (simp add: rb_slack_def)

lemma div_slack:
  fixes a r :: int
  assumes "0 < r"
  shows "1000000000 * a \<le> r * (a * 1000000000 div r) + (if r dvd 1000000000 then 0 else r)"
proof (cases "r dvd 1000000000")
  case True
  then have "r dvd a * 1000000000" by simp
  then show ?thesis using True by simp
next
  case False
  have "a * 1000000000 = r * (a * 1000000000 div r) + a * 1000000000 mod r" by simp
  moreover have "a * 1000000000 mod r < r" using assms by simp
  ultimately have "1000000000 * a \<le> r * (a * 1000000000 div r) + r" by linarith
  with False show ?thesis by simp
qed

lemma credit_arith:
  fixes m T A x y :: int
  assumes "1000000000 * A \<le> x" and "x \<le> y" and "m \<le> T + A"
  shows "1000000000 * m \<le> 1000000000 * T + y"
  using assms by linarith

lemma rb_refill_credit:
  assumes ok: "rate_ok rate burst" and inv: "rb_inv burst b" and now: "rb_last_ns b \<le> now"
  defines "b' \<equiv> rb_refill now rate burst b"
  shows "rb_inv burst b'" and "rb_last_ns b \<le> rb_last_ns b'" and "rb_last_ns b' \<le> now"
    and "1000000000 * int (unat (rb_tokens b')) \<le>
           1000000000 * int (unat (rb_tokens b)) +
           max (int (unat rate)) (int (unat burst)) * (rb_last_ns b' - rb_last_ns b) + rb_slack rate"
    and "rb_tokens b' = 0 \<Longrightarrow> b' = b \<and> (now - rb_last_ns b) * int (unat rate) < 1000000000"
proof -
  define r where "r = int (unat rate)"
  define B where "B = int (unat burst)"
  define M where "M = max r B"
  define T where "T = int (unat (rb_tokens b))"
  define L where "L = rb_last_ns b"
  define e where "e = now - L"
  define add where "add = (of_int e * rate div 1000000000 :: u64)"
  have r: "0 < r" "r \<le> 1000000000" and B: "1 \<le> B" using ok unfolding rate_ok_def r_def B_def by linarith+
  have L: "0 < L" "0 \<le> T" "T \<le> B" using inv unfolding rb_inv_def L_def T_def B_def by linarith+
  have M: "r \<le> M" "B \<le> M" by (simp_all add: M_def)
  have sl: "0 \<le> rb_slack rate" by (rule rb_slack_nonneg)
  consider (same) "e \<le> 0" | (idle) "1000000000 \<le> e" | (none) "0 < e" "e < 1000000000" "\<not> 0 < add"
    | (add) "0 < e" "e < 1000000000" "0 < add" by linarith
  then have "rb_inv burst b' \<and> L \<le> rb_last_ns b' \<and> rb_last_ns b' \<le> now \<and>
      1000000000 * int (unat (rb_tokens b')) \<le> 1000000000 * T + M * (rb_last_ns b' - L) + rb_slack rate \<and>
      (rb_tokens b' = 0 \<longrightarrow> b' = b \<and> e * r < 1000000000)"
  proof cases
    case same
    then have "b' = b" using L(1) by (simp add: b'_def rb_refill_def e_def L_def)
    moreover have "e = 0" using same now by (simp add: e_def L_def)
    ultimately show ?thesis using inv now sl by (simp add: L_def T_def)
  next
    case idle
    then have b': "b' = \<lparr> rb_last_ns = now, rb_tokens = burst \<rparr>"
      using L(1) by (simp add: b'_def rb_refill_def e_def L_def)
    have "B * 1000000000 \<le> M * e" using idle B M by (intro mult_mono) auto
    moreover have "rb_tokens b' \<noteq> 0" using B b' by (auto simp: B_def)
    ultimately show ?thesis using L sl idle b' B by (auto simp: rb_inv_def B_def e_def)
  next
    case none
    then have b': "b' = b"
      using L(1) by (simp add: b'_def rb_refill_def e_def L_def add_def Let_def)
    have "int (unat add) = 0" using none(3) by (simp add: word_less_nat_alt)
    then have "e * r div 1000000000 = 0"
      using rb_add_value(1) [OF none(1,2) ok] by (simp add: r_def add_def)
    then have "e * r < 1000000000" using none r by (simp add: div_eq_0_iff)
    then show ?thesis using b' inv now sl by (simp add: L_def T_def)
  next
    case add
    define A where "A = int (unat add)"
    have A: "0 < A" "A \<le> e" "1000000000 * A \<le> e * r"
      and s: "sint (add * 1000000000 div rate) = A * 1000000000 div r"
      using rb_add_pos [OF add(1,2) ok] add(3) unfolding A_def add_def r_def by blast+
    have st: "A * 1000000000 div r \<le> e"
      using zdiv_mono1 [OF A(3) r(1)] r(1) by (simp add: mult.commute)
    have st0: "0 \<le> A * 1000000000 div r" using A(1) r(1) by (simp add: pos_imp_zdiv_nonneg_iff)
    have want: "unat (rb_tokens b + add) = unat (rb_tokens b) + unat add"
    proof (rule unat_plus_no_wrap)
      have "unat burst \<le> 4611686018427387904" using ok by (simp add: rate_ok_def)
      then have "unat (rb_tokens b) + unat add < 18446744073709551616"
        using L(3) A(2) add(2) unfolding T_def B_def A_def by linarith
      then show "unat (rb_tokens b) + unat add < 2 ^ 64" by simp
    qed
    have b': "b' = \<lparr> rb_last_ns = (if burst < rb_tokens b + add then now else L + A * 1000000000 div r),
                      rb_tokens = min burst (rb_tokens b + add) \<rparr>"
      using L(1) add s by (simp add: b'_def rb_refill_def e_def L_def add_def Let_def)
    have tk: "int (unat (min burst (rb_tokens b + add))) = min B (T + A)"
      using want by (auto simp: min_def B_def T_def A_def word_le_nat_alt)
    have iv: "unat (rb_tokens b') \<le> unat burst"
      using b' by (simp add: word_le_nat_alt [symmetric])
    have tk': "int (unat (rb_tokens b')) = min B (T + A)" using tk b' by simp
    have mn: "min B (T + A) \<le> T + A" by simp
    have nz: "rb_tokens b' \<noteq> 0"
      using tk A(1) B L(2) b' by (auto simp: min_def split: if_splits)
    show ?thesis
    proof (cases "burst < rb_tokens b + add")
      case True
      have "e * r \<le> M * e" using add(1) M mult_right_mono [of r M e] by (simp add: mult.commute)
      from credit_arith [OF A(3) this mn]
      have "1000000000 * min B (T + A) \<le> 1000000000 * T + M * e" .
      moreover have "rb_last_ns b' = now" using b' True by simp
      ultimately show ?thesis
        using L(1) add(1) sl tk' nz iv unfolding rb_inv_def e_def by simp
    next
      case False
      have "1000000000 * A \<le> r * (A * 1000000000 div r) + rb_slack rate"
        using div_slack [OF r(1), of A] unfolding rb_slack_def r_def [symmetric] .
      moreover have "r * (A * 1000000000 div r) + rb_slack rate \<le> M * (A * 1000000000 div r) + rb_slack rate"
        using st0 M by (simp add: mult_right_mono)
      ultimately have "1000000000 * min B (T + A) \<le>
          1000000000 * T + (M * (A * 1000000000 div r) + rb_slack rate)"
        using mn by (rule credit_arith)
      moreover have "rb_last_ns b' = L + A * 1000000000 div r" using b' False by simp
      ultimately show ?thesis
        using L(1) st st0 tk' nz iv unfolding rb_inv_def e_def by simp
    qed
  qed
  then show "rb_inv burst b'" "rb_last_ns b \<le> rb_last_ns b'" "rb_last_ns b' \<le> now"
    "1000000000 * int (unat (rb_tokens b')) \<le> 1000000000 * int (unat (rb_tokens b)) +
       max (int (unat rate)) (int (unat burst)) * (rb_last_ns b' - rb_last_ns b) + rb_slack rate"
    "rb_tokens b' = 0 \<Longrightarrow> b' = b \<and> (now - rb_last_ns b) * int (unat rate) < 1000000000"
    unfolding M_def L_def T_def r_def B_def e_def by blast+
qed

lemma rb_admit_credit:
  assumes ok: "rate_ok rate burst" and inv: "rb_inv burst b" and now: "rb_last_ns b \<le> now"
    and adm: "rb_admit now rate burst b = (a, b')"
  shows "rb_inv burst b'" and "rb_last_ns b \<le> rb_last_ns b'" and "rb_last_ns b' \<le> now"
    and "1000000000 * ((if a then 1 else 0) + int (unat (rb_tokens b'))) \<le>
           1000000000 * int (unat (rb_tokens b)) +
           (max (int (unat rate)) (int (unat burst)) * (rb_last_ns b' - rb_last_ns b) + rb_slack rate)"
    and "\<not> a \<Longrightarrow> b' = b \<and> (now - rb_last_ns b) * int (unat rate) < 1000000000"
proof -
  let ?r = "rb_refill now rate burst b"
  note c = rb_refill_credit [OF ok inv now]
  have last: "rb_last_ns b' = rb_last_ns ?r" using adm by (auto simp: rb_admit_def Let_def split: if_splits)
  have tok: "(if a then 1 else 0) + int (unat (rb_tokens b')) = int (unat (rb_tokens ?r))"
    "unat (rb_tokens b') \<le> unat (rb_tokens ?r)"
    using adm by (auto simp: rb_admit_def Let_def unat_minus_one unat_gt_0 of_nat_diff Suc_le_eq split: if_splits)
  show "rb_inv burst b'" using c(1) last tok(2) by (simp add: rb_inv_def)
  show "rb_last_ns b \<le> rb_last_ns b'" "rb_last_ns b' \<le> now" using c(2,3) last by simp_all
  show "1000000000 * ((if a then 1 else 0) + int (unat (rb_tokens b'))) \<le>
      1000000000 * int (unat (rb_tokens b)) +
      (max (int (unat rate)) (int (unat burst)) * (rb_last_ns b' - rb_last_ns b) + rb_slack rate)"
    unfolding tok(1) last using c(4) by linarith
  show "b' = b \<and> (now - rb_last_ns b) * int (unat rate) < 1000000000" if "\<not> a"
  proof -
    have "rb_tokens ?r = 0" "b' = ?r" using adm that by (auto simp: rb_admit_def Let_def split: if_splits)
    with c(5) show ?thesis by simp
  qed
qed

text \<open>One sender's calls in time order, counting the admitted ones.\<close>

fun rb_run :: "u64 \<Rightarrow> u64 \<Rightarrow> int list \<Rightarrow> rate_bucket \<Rightarrow> nat \<times> rate_bucket" where
  "rb_run rate burst [] b = (0, b)"
| "rb_run rate burst (now # ts) b =
     (case rb_admit now rate burst b of (a, b1) \<Rightarrow>
        case rb_run rate burst ts b1 of (n, b2) \<Rightarrow> ((if a then Suc n else n), b2))"

lemma rb_run_credit:
  assumes "rate_ok rate burst" and "rb_inv burst b" and "sorted (rb_last_ns b # ts)"
    and "rb_run rate burst ts b = (n, b')"
  shows "rb_inv burst b' \<and> rb_last_ns b' \<le> last (rb_last_ns b # ts) \<and>
         1000000000 * (int n + int (unat (rb_tokens b'))) \<le>
           1000000000 * int (unat (rb_tokens b)) +
           (max (int (unat rate)) (int (unat burst)) * (rb_last_ns b' - rb_last_ns b) +
            rb_slack rate * int (length ts))"
  using assms
proof (induction ts arbitrary: b n)
  case (Cons now ts)
  obtain a b1 where a: "rb_admit now rate burst b = (a, b1)" by force
  obtain m where m: "rb_run rate burst ts b1 = (m, b')" "n = (if a then Suc m else m)"
    using Cons.prems(4) a by (auto split: prod.splits)
  have now: "rb_last_ns b \<le> now" using Cons.prems(3) by simp
  note c = rb_admit_credit [OF Cons.prems(1,2) now a]
  have "sorted (rb_last_ns b1 # ts)" using Cons.prems(3) c(3) by auto
  note ih = Cons.IH [OF Cons.prems(1) c(1) this m(1)]
  let ?M = "max (int (unat rate)) (int (unat burst))"
  have "?M * (rb_last_ns b' - rb_last_ns b) =
      ?M * (rb_last_ns b1 - rb_last_ns b) + ?M * (rb_last_ns b' - rb_last_ns b1)"
    by (simp add: algebra_simps)
  moreover have "rb_slack rate * int (length (now # ts)) = rb_slack rate + rb_slack rate * int (length ts)"
    by (simp add: algebra_simps)
  moreover have "int n = (if a then 1 else 0) + int m" using m(2) by simp
  moreover have "rb_last_ns b' \<le> last (rb_last_ns b # now # ts)"
    using ih c(3) by (cases ts) auto
  ultimately show ?case using ih c(4) by (auto simp: algebra_simps)
qed simp

text \<open>
  The rate bound: whatever a sender does, the calls admitted from its first one on are
  at most the burst plus what the larger of rate and burst allows for the time since (a full second
  of silence refills the whole burst), with one rounding of at most \<open>rate\<close> nanotokens per call when
  the rate does not divide a second, and exactly none when it does.
\<close>

theorem rate_bucket_bounds_admissions:
  assumes "rate_ok rate burst" and "0 < t0" and "sorted (t0 # ts)"
  shows "1000000000 * int (fst (rb_run rate burst (t0 # ts) rb_fresh)) \<le>
           1000000000 * int (unat burst) +
           max (int (unat rate)) (int (unat burst)) * (last (t0 # ts) - t0) +
           rb_slack rate * int (length ts)"
proof -
  let ?b = "\<lparr> rb_last_ns = t0, rb_tokens = burst - 1 \<rparr>"
  let ?M = "max (int (unat rate)) (int (unat burst))"
  have "burst \<noteq> 0" using assms(1) by (auto simp: rate_ok_def)
  then have a: "rb_admit t0 rate burst rb_fresh = (True, ?b)"
    by (simp add: rb_admit_def rb_refill_def rb_fresh_def)
  have bu: "unat (burst - 1) = unat burst - 1" using \<open>burst \<noteq> 0\<close> by (simp add: unat_minus_one)
  obtain n b' where n: "rb_run rate burst ts ?b = (n, b')" by force
  have "rb_inv burst ?b" using assms(2) bu by (simp add: rb_inv_def)
  from rb_run_credit [OF assms(1) this _ n] assms(3)
  have c: "rb_last_ns b' \<le> last (t0 # ts)"
    "1000000000 * (int n + int (unat (rb_tokens b'))) \<le>
       1000000000 * int (unat burst - 1) + (?M * (rb_last_ns b' - t0) + rb_slack rate * int (length ts))"
    by (simp_all add: bu)
  have "?M * (rb_last_ns b' - t0) \<le> ?M * (last (t0 # ts) - t0)"
    using c(1) by (intro mult_left_mono) auto
  moreover have "int (unat burst - 1) = int (unat burst) - 1"
    using assms(1) by (simp add: rate_ok_def of_nat_diff)
  ultimately show ?thesis using a n c(2) by (simp add: algebra_simps)
qed

theorem rate_bucket_bounds_admissions_witness:
  "fst (rb_run 10 2 [1000, 1001, 1002, 200000000] rb_fresh) = 3 \<and>
   1000000000 * int (fst (rb_run 10 2 [1000, 1001, 1002, 200000000] rb_fresh)) \<le>
     2000000000 + 10 * (200000000 - 1000)"
proof
  show "fst (rb_run 10 2 [1000, 1001, 1002, 200000000] rb_fresh) = 3" by code_simp
  show "1000000000 * int (fst (rb_run 10 2 [1000, 1001, 1002, 200000000] rb_fresh)) \<le>
      2000000000 + 10 * (200000000 - 1000)"
    using rate_bucket_bounds_admissions [of 10 2 1000 "[1001, 1002, 200000000]"]
    by (simp add: rate_ok_def rb_slack_def)
qed

text \<open>
  No starvation: a refused call leaves the bucket exactly as it was (it does not discard the
  time waited), and a call made when the bucket's clock lies at least one token's time back is
  admitted, so a sender that keeps calling is served at the rate.
\<close>

theorem rate_bucket_never_starves:
  assumes "rate_ok rate burst" and "rb_inv burst b" and "rb_last_ns b \<le> now"
  shows "(\<not> fst (rb_admit now rate burst b) \<longrightarrow> snd (rb_admit now rate burst b) = b) \<and>
         (1000000000 \<le> (now - rb_last_ns b) * int (unat rate) \<longrightarrow> fst (rb_admit now rate burst b))"
  using rb_admit_credit(5) [OF assms surjective_pairing] by fastforce

theorem rate_bucket_never_starves_witness:
  "fst (rb_admit 100001000 10 2 \<lparr> rb_last_ns = 1000, rb_tokens = 0 \<rparr>)"
  using rate_bucket_never_starves [of 10 2 "\<lparr> rb_last_ns = 1000, rb_tokens = 0 \<rparr>" 100001000]
  by (simp add: rate_ok_def rb_inv_def)

section \<open>The circuit breaker\<close>

datatype admit = Accept | Shed | Delay

datatype cb_state = Closed | Open | HalfOpen

record circuit_breaker =
  cb_fail_threshold :: u32
  cb_open_ns :: int
  cb_consec_fail :: u32
  cb_opened_at_ns :: int
  cb_status :: cb_state
  cb_probe_inflight :: bool

definition cb_init :: "u32 \<Rightarrow> int \<Rightarrow> circuit_breaker" where
  "cb_init fail_threshold open_ns =
     \<lparr> cb_fail_threshold = (if fail_threshold = 0 then 1 else fail_threshold), cb_open_ns = open_ns,
       cb_consec_fail = 0, cb_opened_at_ns = 0, cb_status = Closed, cb_probe_inflight = False \<rparr>"

definition cb_trip :: "int \<Rightarrow> circuit_breaker \<Rightarrow> circuit_breaker" where
  "cb_trip now c = c\<lparr> cb_status := Open, cb_opened_at_ns := now, cb_probe_inflight := False \<rparr>"

definition cb_on_send :: "int \<Rightarrow> circuit_breaker \<Rightarrow> admit \<times> circuit_breaker" where
  "cb_on_send now c =
     (case cb_status c of
        Closed \<Rightarrow> (Accept, c)
      | Open \<Rightarrow>
          if cb_open_ns c \<le> now - cb_opened_at_ns c
          then (Accept, c\<lparr> cb_status := HalfOpen, cb_probe_inflight := True \<rparr>)
          else (Shed, c)
      | HalfOpen \<Rightarrow>
          if cb_probe_inflight c then (Shed, c) else (Accept, c\<lparr> cb_probe_inflight := True \<rparr>))"

definition cb_on_result :: "bool \<Rightarrow> int \<Rightarrow> circuit_breaker \<Rightarrow> circuit_breaker" where
  "cb_on_result ok now c =
     (if cb_status c = HalfOpen then
        let c = c\<lparr> cb_probe_inflight := False \<rparr> in
        if ok then c\<lparr> cb_status := Closed, cb_consec_fail := 0 \<rparr> else cb_trip now c
      else if ok then c\<lparr> cb_consec_fail := 0 \<rparr>
      else
        let c = c\<lparr> cb_consec_fail := cb_consec_fail c + 1 \<rparr> in
        if cb_fail_threshold c \<le> cb_consec_fail c then cb_trip now c else c)"

datatype cb_event = Send int | Result bool int

text \<open>A step of the breaker: a send with its verdict, or a result.\<close>

inductive cb_step :: "circuit_breaker \<Rightarrow> cb_event \<Rightarrow> admit option \<Rightarrow> circuit_breaker \<Rightarrow> bool" where
  send: "cb_on_send now c = (v, c') \<Longrightarrow> cb_step c (Send now) (Some v) c'"
| result: "cb_on_result ok now c = c' \<Longrightarrow> cb_step c (Result ok now) None c'"

inductive cb_reachable :: "u32 \<Rightarrow> int \<Rightarrow> circuit_breaker \<Rightarrow> bool" for thr open_ns where
  init: "cb_reachable thr open_ns (cb_init thr open_ns)"
| step: "cb_reachable thr open_ns c \<Longrightarrow> cb_step c e v c' \<Longrightarrow> cb_reachable thr open_ns c'"

inductive_cases cb_step_sendE: "cb_step c (Send now) v c'"
inductive_cases cb_step_resultE: "cb_step c (Result ok now) v c'"

definition cb_inv :: "u32 \<Rightarrow> int \<Rightarrow> circuit_breaker \<Rightarrow> bool" where
  "cb_inv thr open_ns c \<longleftrightarrow>
     cb_fail_threshold c = (if thr = 0 then 1 else thr) \<and> cb_open_ns c = open_ns \<and>
     (cb_probe_inflight c \<longleftrightarrow> cb_status c = HalfOpen) \<and>
     (cb_status c = Closed \<longrightarrow> cb_consec_fail c < cb_fail_threshold c)"

lemma cb_reachable_inv: "cb_reachable thr open_ns c \<Longrightarrow> cb_inv thr open_ns c"
proof (induction rule: cb_reachable.induct)
  case init
  have "(0 :: u32) < thr" if "thr \<noteq> 0" using that word_neq_0_conv by blast
  then show ?case by (auto simp: cb_inv_def cb_init_def)
next
  case (step c e v c')
  have "(0 :: u32) < (if thr = 0 then 1 else thr)" using word_neq_0_conv by auto
  with step.IH step.hyps(2) show ?case
    by (cases e)
      (auto elim!: cb_step_sendE cb_step_resultE
        simp: cb_inv_def cb_on_send_def cb_on_result_def cb_trip_def Let_def not_le
        split: cb_state.splits if_splits)
qed

text \<open>
  The breaker's states as its callers see them.  In every reachable state: closed means
  every send is admitted and fewer than the threshold consecutive failures are counted; open means a
  send is shed until the cooldown has passed since the trip and the first one after it becomes the
  probe; half-open means the probe is out and every further send is shed, until its result closes
  the breaker with the count reset or re-opens it with the cooldown restarted.
\<close>

theorem circuit_breaker_states:
  assumes "cb_reachable thr open_ns c"
  shows "(cb_status c = Closed \<longrightarrow>
            cb_on_send now c = (Accept, c) \<and> cb_consec_fail c < cb_fail_threshold c) \<and>
         (cb_status c = Open \<longrightarrow>
            (now - cb_opened_at_ns c < open_ns \<longrightarrow> cb_on_send now c = (Shed, c)) \<and>
            (open_ns \<le> now - cb_opened_at_ns c \<longrightarrow>
               fst (cb_on_send now c) = Accept \<and> cb_status (snd (cb_on_send now c)) = HalfOpen)) \<and>
         (cb_status c = HalfOpen \<longrightarrow>
            cb_on_send now c = (Shed, c) \<and>
            cb_status (cb_on_result True now c) = Closed \<and> cb_consec_fail (cb_on_result True now c) = 0 \<and>
            cb_status (cb_on_result False now c) = Open \<and> cb_opened_at_ns (cb_on_result False now c) = now)"
  using cb_reachable_inv [OF assms]
  by (auto simp: cb_inv_def cb_on_send_def cb_on_result_def cb_trip_def Let_def)

theorem circuit_breaker_states_witness:
  "cb_on_send 7 (cb_on_result False 5 (cb_init 1 100)) = (Shed, cb_on_result False 5 (cb_init 1 100))"
proof -
  have "cb_reachable 1 100 (cb_on_result False 5 (cb_init 1 100))"
    by (rule cb_reachable.step [OF cb_reachable.init cb_step.result [OF refl]])
  from circuit_breaker_states [OF this, of 7] show ?thesis
    by (simp add: cb_on_result_def cb_init_def cb_trip_def)
qed

definition cb_failures :: "int list \<Rightarrow> circuit_breaker \<Rightarrow> circuit_breaker" where
  "cb_failures ts c = foldl (\<lambda>c now. cb_on_result False now c) c ts"

lemma cb_failures_below:
  assumes "cb_status c = Closed"
    and "unat (cb_consec_fail c) + length ts < unat (cb_fail_threshold c)"
  shows "cb_status (cb_failures ts c) = Closed \<and>
         unat (cb_consec_fail (cb_failures ts c)) = unat (cb_consec_fail c) + length ts \<and>
         cb_fail_threshold (cb_failures ts c) = cb_fail_threshold c"
  using assms
proof (induction ts arbitrary: c)
  case (Cons now ts)
  have "unat (cb_consec_fail c) + 1 < 2 ^ 32"
    using Cons.prems(2) unat_less_exp [of "cb_fail_threshold c"] by simp
  then have n: "unat (cb_consec_fail c + 1) = Suc (unat (cb_consec_fail c))"
    by (simp add: unat_word_ariths)
  let ?c = "cb_on_result False now c"
  have c: "?c = c\<lparr> cb_consec_fail := cb_consec_fail c + 1 \<rparr>"
    using Cons.prems n by (simp add: cb_on_result_def Let_def word_le_nat_alt)
  show ?case using Cons.IH [of ?c] Cons.prems n c by (simp add: cb_failures_def)
qed (simp add: cb_failures_def)

text \<open>
  The breaker trips exactly on the threshold: from closed with no failure counted, fewer
  consecutive failures than the threshold leave it closed, and the failure that reaches the
  threshold opens it at its own instant.
\<close>

theorem circuit_breaker_trips_at_threshold:
  assumes "0 < length ts" and "length ts \<le> unat thr"
  shows "cb_status (cb_failures ts (cb_init thr open_ns)) = (if length ts < unat thr then Closed else Open) \<and>
         (length ts = unat thr \<longrightarrow> cb_opened_at_ns (cb_failures ts (cb_init thr open_ns)) = last ts)"
proof (cases ts rule: rev_cases)
  case (snoc us now)
  have thr: "thr \<noteq> 0" using assms by auto
  let ?c = "cb_failures us (cb_init thr open_ns)"
  have f: "cb_failures ts (cb_init thr open_ns) = cb_on_result False now ?c"
    by (simp add: cb_failures_def snoc)
  have c: "cb_status ?c = Closed" "unat (cb_consec_fail ?c) = length us" "cb_fail_threshold ?c = thr"
    using cb_failures_below [of "cb_init thr open_ns" us] assms snoc thr by (simp_all add: cb_init_def)
  have "length us + 1 < 2 ^ 32 \<or> length us + 1 \<le> unat thr" using assms snoc by simp
  then have "unat (cb_consec_fail ?c + 1) = length ts"
    using c(2) snoc assms(2) unat_less_exp [of thr] by (simp add: unat_word_ariths)
  then show ?thesis
    using c f assms(2) snoc by (auto simp: cb_on_result_def cb_trip_def Let_def word_le_nat_alt)
qed (use assms in simp)

theorem circuit_breaker_trips_at_threshold_witness:
  "cb_status (cb_failures [10, 20, 30] (cb_init 3 100)) = Open \<and>
   cb_opened_at_ns (cb_failures [10, 20, 30] (cb_init 3 100)) = 30"
  using circuit_breaker_trips_at_threshold [of "[10, 20, 30]" 3 100] by simp

section \<open>Per-peer congestion gates\<close>

text \<open>
  \<open>'b\<close> is the bucket a gate holds and \<open>check now cost b\<close> its decision (the source's \<open>TokenBucket\<close>, in
  floating point); \<open>fresh\<close> is the bucket a new gate starts with.
\<close>

record 'b congestion_gate =
  pg_congested_until_ns :: int
  pg_bucket :: 'b

type_synonym 'b bucket_check = "int \<Rightarrow> u32 \<Rightarrow> 'b \<Rightarrow> admit \<times> 'b"

definition pg_mark_congested :: "int \<Rightarrow> 'b congestion_gate \<Rightarrow> 'b congestion_gate" where
  "pg_mark_congested until g = g\<lparr> pg_congested_until_ns := until \<rparr>"

definition pg_congested :: "int \<Rightarrow> 'b congestion_gate \<Rightarrow> bool" where
  "pg_congested now g \<longleftrightarrow> now < pg_congested_until_ns g"

definition pg_admit ::
  "'b bucket_check \<Rightarrow> int \<Rightarrow> u32 \<Rightarrow> 'b congestion_gate \<Rightarrow> admit \<times> 'b congestion_gate" where
  "pg_admit check now cost g =
     (if pg_congested_until_ns g \<le> now then (Accept, g)
      else case check now cost (pg_bucket g) of (v, b) \<Rightarrow> (v, g\<lparr> pg_bucket := b \<rparr>))"

record 'b congestion_table =
  pct_fresh :: 'b
  pct_max_gates :: nat
  pct_gates :: "(u64 \<times> 'b congestion_gate) list"

definition pct_init :: "'b \<Rightarrow> nat \<Rightarrow> 'b congestion_table" where
  "pct_init fresh max_gates = \<lparr> pct_fresh = fresh, pct_max_gates = max_gates, pct_gates = [] \<rparr>"

definition pct_size :: "'b congestion_table \<Rightarrow> nat" where
  "pct_size t = length (pct_gates t)"

text \<open>
  \<open>gate_for\<close> returns the table after the possible sweep and insertion, and the gate for the peer;
  whether the gate is the table's own is whether the peer has an entry.
\<close>

definition pct_gate_for ::
  "node_id \<Rightarrow> int \<Rightarrow> 'b congestion_table \<Rightarrow> 'b congestion_table \<times> 'b congestion_gate" where
  "pct_gate_for peer now t =
     (case map_of (pct_gates t) peer of
        Some g \<Rightarrow> (t, g)
      | None \<Rightarrow>
          let t = (if pct_max_gates t \<le> length (pct_gates t)
                   then t\<lparr> pct_gates := filter (\<lambda>(k, g). pg_congested now g) (pct_gates t) \<rparr>
                   else t);
              gate = \<lparr> pg_congested_until_ns = 0, pg_bucket = pct_fresh t \<rparr>
          in if pct_max_gates t \<le> length (pct_gates t) then (t, gate)
             else (t\<lparr> pct_gates := (peer, gate) # pct_gates t \<rparr>, gate))"

text \<open>A write through the shared gate pointer: it reaches the table only if the gate is in it.\<close>

definition pct_store :: "node_id \<Rightarrow> 'b congestion_gate \<Rightarrow> 'b congestion_table \<Rightarrow> 'b congestion_table" where
  "pct_store peer g t =
     t\<lparr> pct_gates := map (\<lambda>(k, h). (k, if k = peer then g else h)) (pct_gates t) \<rparr>"

definition pct_admit ::
  "'b bucket_check \<Rightarrow> node_id \<Rightarrow> int \<Rightarrow> u32 \<Rightarrow> 'b congestion_table \<Rightarrow> bool \<times> 'b congestion_table" where
  "pct_admit check peer now cost t =
     (case pct_gate_for peer now t of (t, g) \<Rightarrow>
        case pg_admit check now cost g of (v, g') \<Rightarrow> (v = Accept, pct_store peer g' t))"

definition pct_mark_congested :: "node_id \<Rightarrow> int \<Rightarrow> 'b congestion_table \<Rightarrow> 'b congestion_table" where
  "pct_mark_congested peer until t =
     (case pct_gate_for peer 0 t of (t, g) \<Rightarrow> pct_store peer (pg_mark_congested until g) t)"

datatype pct_op = PctAdmit node_id int u32 | PctMark node_id int

fun pct_step :: "'b bucket_check \<Rightarrow> 'b congestion_table \<Rightarrow> pct_op \<Rightarrow> 'b congestion_table" where
  "pct_step check t (PctAdmit peer now cost) = snd (pct_admit check peer now cost t)"
| "pct_step check t (PctMark peer until) = pct_mark_congested peer until t"

lemma map_of_pct_store:
  "map_of (pct_gates (pct_store peer g t)) p =
     (if p = peer \<and> map_of (pct_gates t) p \<noteq> None then Some g else map_of (pct_gates t) p)"
proof -
  have "map_of (map (\<lambda>(k, h). (k, if k = peer then g else h)) kvs) p =
      (if p = peer \<and> map_of kvs p \<noteq> None then Some g else map_of kvs p)" for kvs
    by (induction kvs) auto
  then show ?thesis by (simp add: pct_store_def)
qed

lemma pct_store_fields [simp]:
  "length (pct_gates (pct_store peer g t)) = length (pct_gates t)"
  "pct_max_gates (pct_store peer g t) = pct_max_gates t"
  "pct_fresh (pct_store peer g t) = pct_fresh t"
  "fst ` set (pct_gates (pct_store peer g t)) = fst ` set (pct_gates t)"
  by (auto simp: pct_store_def image_image case_prod_unfold)

lemma pct_gate_for_bounded:
  assumes "length (pct_gates t) \<le> pct_max_gates t" and "pct_gate_for peer now t = (t', g)"
  shows "length (pct_gates t') \<le> pct_max_gates t' \<and> pct_max_gates t' = pct_max_gates t"
  using assms length_filter_le [of "\<lambda>(k, g). pg_congested now g" "pct_gates t"]
  by (auto simp: pct_gate_for_def Let_def split: option.splits if_splits simp del: length_filter_le)

lemma pct_step_bounded:
  assumes "length (pct_gates t) \<le> pct_max_gates t"
  shows "length (pct_gates (pct_step check t op)) \<le> pct_max_gates (pct_step check t op) \<and>
         pct_max_gates (pct_step check t op) = pct_max_gates t"
proof (cases op)
  case (PctAdmit peer now cost)
  obtain t' g where g: "pct_gate_for peer now t = (t', g)" by force
  then show ?thesis
    using pct_gate_for_bounded [OF assms g] PctAdmit by (simp add: pct_admit_def split: prod.split)
next
  case (PctMark peer until)
  obtain t' g where g: "pct_gate_for peer 0 t = (t', g)" by force
  then show ?thesis
    using pct_gate_for_bounded [OF assms g] PctMark by (simp add: pct_mark_congested_def)
qed

text \<open>
  The congestion table is bounded: whatever peers send or report congestion, and
  whatever the bucket decides, it never holds more than \<open>max_gates\<close> gates.
\<close>

theorem congestion_table_bounded:
  "pct_size (foldl (pct_step check) (pct_init fresh max_gates) ops) \<le> max_gates"
proof -
  have "length (pct_gates (foldl (pct_step check) t ops)) \<le> pct_max_gates t"
    if "length (pct_gates t) \<le> pct_max_gates t" for t
    using that
  proof (induction ops arbitrary: t)
    case (Cons op ops)
    from pct_step_bounded [OF Cons.prems, of check op] Cons.IH show ?case by fastforce
  qed simp
  from this [of "pct_init fresh max_gates"] show ?thesis by (simp add: pct_init_def pct_size_def)
qed

text \<open>What keeps a congested peer's gate: no other mark on it, and no sweep at or after its deadline.\<close>

fun pct_keeps :: "node_id \<Rightarrow> int \<Rightarrow> pct_op \<Rightarrow> bool" where
  "pct_keeps peer until (PctAdmit p now cost) \<longleftrightarrow> now < until"
| "pct_keeps peer until (PctMark p u) \<longleftrightarrow> p \<noteq> peer"

lemma pct_gate_for_keeps:
  assumes "map_of (pct_gates t) peer = Some g" and "now < pg_congested_until_ns g"
    and "distinct (map fst (pct_gates t))" and "pct_gate_for p now t = (t', g')"
  shows "map_of (pct_gates t') peer = Some g \<and> distinct (map fst (pct_gates t')) \<and>
         (p = peer \<longrightarrow> g' = g \<and> t' = t)"
proof (cases "map_of (pct_gates t) p")
  case None
  then have ne: "p \<noteq> peer" using assms(1) by auto
  have np: "p \<notin> fst ` set (pct_gates t)" using None by (simp add: map_of_eq_None_iff)
  let ?f = "filter (\<lambda>(k, g). pg_congested now g) (pct_gates t)"
  have "(peer, g) \<in> set ?f" using assms(1,2) by (auto simp: pg_congested_def dest: map_of_SomeD)
  moreover have d: "distinct (map fst ?f)" using assms(3) by (rule distinct_map_filter)
  ultimately have "map_of ?f peer = Some g" by (simp add: map_of_is_SomeI)
  with assms ne np d None show ?thesis
    by (auto simp: pct_gate_for_def Let_def split: if_splits)
next
  case (Some h)
  then have "t' = t" "g' = h" using assms(4) by (simp_all add: pct_gate_for_def)
  moreover have "p = peer \<longrightarrow> h = g" using assms(1) Some by (auto simp del: map_of_eq_Some_iff)
  ultimately show ?thesis using assms(1,3) by simp
qed

lemma pct_store_distinct [simp]:
  "distinct (map fst (pct_gates (pct_store peer g t))) \<longleftrightarrow> distinct (map fst (pct_gates t))"
proof -
  have "map fst (pct_gates (pct_store peer g t)) = map fst (pct_gates t)"
    by (simp add: pct_store_def case_prod_unfold)
  then show ?thesis by simp
qed

lemma pct_step_keeps:
  assumes "map_of (pct_gates t) peer = Some g" and "pg_congested_until_ns g = until" and "0 < until"
    and "distinct (map fst (pct_gates t))" and "pct_keeps peer until op"
  shows "distinct (map fst (pct_gates (pct_step check t op))) \<and>
         (\<exists>g'. map_of (pct_gates (pct_step check t op)) peer = Some g' \<and> pg_congested_until_ns g' = until)"
proof (cases op)
  case (PctAdmit p now cost)
  obtain t' h where h: "pct_gate_for p now t = (t', h)" by force
  have "now < pg_congested_until_ns g" using assms(2,5) PctAdmit by simp
  note k = pct_gate_for_keeps [OF assms(1) this assms(4) h]
  obtain v h' where v: "pg_admit check now cost h = (v, h')" by force
  then have "pg_congested_until_ns h' = pg_congested_until_ns h"
    by (auto simp: pg_admit_def split: if_splits prod.splits)
  then show ?thesis using PctAdmit h k v assms(2) by (auto simp: pct_admit_def map_of_pct_store)
next
  case (PctMark p u)
  obtain t' h where h: "pct_gate_for p 0 t = (t', h)" by force
  have "0 < pg_congested_until_ns g" using assms(2,3) by simp
  note k = pct_gate_for_keeps [OF assms(1) this assms(4) h]
  then show ?thesis using PctMark h assms(2,5) by (auto simp: pct_mark_congested_def map_of_pct_store)
qed

text \<open>
  A congestion mark is honoured until it runs out: once a registered peer is marked
  until an instant, then through any sequence of sends before that instant and marks of other peers
  (sweeps of a full table included) the peer's gate survives with its deadline, so every send to
  that peer is put to the gate's bucket and let through only if the bucket accepts it.
\<close>

theorem congestion_mark_honoured:
  assumes "map_of (pct_gates t) peer = Some g" and "pg_congested_until_ns g = until" and "0 < until"
    and "distinct (map fst (pct_gates t))" and "list_all (pct_keeps peer until) ops" and "now < until"
  shows "\<exists>g'. map_of (pct_gates (foldl (pct_step check) t ops)) peer = Some g' \<and>
              pg_congested_until_ns g' = until \<and>
              (fst (pct_admit check peer now cost (foldl (pct_step check) t ops)) \<longleftrightarrow>
                 fst (check now cost (pg_bucket g')) = Accept)"
  using assms
proof (induction ops arbitrary: t g)
  case Nil
  then show ?case
    by (auto simp: pct_admit_def pct_gate_for_def pg_admit_def split: prod.splits)
next
  case (Cons op ops)
  from pct_step_keeps [OF Cons.prems(1-4), of op check] Cons.prems(5) obtain g1 where
    "distinct (map fst (pct_gates (pct_step check t op)))"
    "map_of (pct_gates (pct_step check t op)) peer = Some g1" "pg_congested_until_ns g1 = until" by auto
  with Cons.IH [of "pct_step check t op" g1] Cons.prems show ?case by simp
qed

theorem congestion_mark_honoured_witness:
  "\<not> fst (pct_admit (\<lambda>_ _ n. if n = 0 then (Shed, n) else (Accept, n - 1)) 7 50 1
            (foldl (pct_step (\<lambda>_ _ n. if n = 0 then (Shed, n) else (Accept, n - 1)))
              (pct_mark_congested 7 100 (pct_init (1 :: nat) 1)) [PctAdmit 9 20 1, PctAdmit 7 30 1]))"
proof -
  let ?check = "\<lambda>_ _ n. if n = 0 then (Shed, n) else (Accept, n - 1)"
  let ?t = "pct_mark_congested 7 100 (pct_init (1 :: nat) 1)"
  let ?ops = "[PctAdmit 9 20 1, PctAdmit 7 30 1]"
  have t: "?t = \<lparr> pct_fresh = 1, pct_max_gates = 1,
      pct_gates = [(7, \<lparr> pg_congested_until_ns = 100, pg_bucket = 1 \<rparr>)] \<rparr>"
    by (simp add: pct_mark_congested_def pct_gate_for_def pct_init_def pct_store_def pg_mark_congested_def Let_def)
  let ?s = "foldl (pct_step ?check) ?t ?ops"
  have s: "pct_gates ?s = [(7, \<lparr> pg_congested_until_ns = 100, pg_bucket = 0 \<rparr>)]"
    unfolding t by (simp add: pct_admit_def pct_gate_for_def pg_admit_def pct_store_def pg_congested_def Let_def)
  have "\<exists>g'. map_of (pct_gates ?s) 7 = Some g' \<and> pg_congested_until_ns g' = 100 \<and>
      (fst (pct_admit ?check 7 50 1 ?s) \<longleftrightarrow> fst (?check 50 1 (pg_bucket g')) = Accept)"
    by (rule congestion_mark_honoured [where g = "\<lparr> pg_congested_until_ns = 100, pg_bucket = 1 \<rparr>"])
      (simp_all only: t, simp_all)
  then show ?thesis unfolding s by simp
qed

end
