(* ===== verification/Mailbox.thy ===== *)
theory Mailbox
  imports Quark_Prelude
begin

text \<open>
  \<open>include/quark/core/mailbox.hpp\<close>: the intrusive multi-producer single-consumer queue.  Every atomic
  access is a step of its own and producers interleave with the consumer at each of them; the steps
  are ordered by one total order (sequential consistency), so the memory orders themselves are not
  part of the model.  Descriptors are numbers, 0 is the stub, and the intrusive link of every
  descriptor is a map.  The abstract contract is a queue in the order of the exchanges on \<open>tail_\<close>.
\<close>

section \<open>State and operations\<close>

type_synonym dref = nat

definition stub :: dref where
  "stub = 0"

datatype drain_status = Message dref | Empty | Busy

record mailbox =
  mb_head :: dref
  mb_tail :: dref
  mb_next :: "dref \<Rightarrow> dref option"

definition mb_init :: mailbox where
  "mb_init = \<lparr> mb_head = stub, mb_tail = stub, mb_next = (\<lambda>_. None) \<rparr>"

text \<open>\<open>link_push\<close>: the exchange (with the store to the still private link), then the link store.\<close>

definition mb_exchange :: "dref \<Rightarrow> mailbox \<Rightarrow> dref \<times> mailbox" where
  "mb_exchange d m = (mb_tail m, m\<lparr> mb_next := (mb_next m)(d := None), mb_tail := d \<rparr>)"

definition mb_link :: "dref \<Rightarrow> dref \<Rightarrow> mailbox \<Rightarrow> mailbox" where
  "mb_link prev d m = m\<lparr> mb_next := (mb_next m)(prev := Some d) \<rparr>"

definition enqueue :: "dref \<Rightarrow> mailbox \<Rightarrow> mailbox" where
  "enqueue d m = (case mb_exchange d m of (prev, m) \<Rightarrow> mb_link prev d m)"

definition probe_has_work :: "mailbox \<Rightarrow> bool" where
  "probe_has_work m \<longleftrightarrow> mb_tail m \<noteq> stub"

text \<open>
  \<open>try_dequeue\<close>, one access to shared memory per step; the counter holds the local variables that are
  still used.  A step either continues or returns.
\<close>

datatype consumer_pc =
    Start
  | TailStub
  | Front dref
  | TailFront dref
  | Rearm dref
  | RearmLink dref dref
  | Last dref

definition take_next :: "dref \<Rightarrow> mailbox \<Rightarrow> consumer_pc \<Rightarrow> mailbox \<times> (consumer_pc + drain_status)" where
  "take_next front m otherwise =
     (case mb_next m front of
        Some n \<Rightarrow> (m\<lparr> mb_head := n \<rparr>, Inr (Message front))
      | None \<Rightarrow> (m, Inl otherwise))"

fun consumer_step :: "consumer_pc \<Rightarrow> mailbox \<Rightarrow> mailbox \<times> (consumer_pc + drain_status)" where
  "consumer_step Start m =
     (let front = mb_head m in
      if front = stub then
        (case mb_next m front of
           None \<Rightarrow> (m, Inl TailStub)
         | Some n \<Rightarrow> (m\<lparr> mb_head := n \<rparr>, Inl (Front n)))
      else take_next front m (TailFront front))"
| "consumer_step TailStub m = (m, Inr (if mb_tail m = stub then Empty else Busy))"
| "consumer_step (Front front) m = take_next front m (TailFront front)"
| "consumer_step (TailFront front) m =
     (m, if front \<noteq> mb_tail m then Inr Busy else Inl (Rearm front))"
| "consumer_step (Rearm front) m =
     (case mb_exchange stub m of (prev, m) \<Rightarrow> (m, Inl (RearmLink front prev)))"
| "consumer_step (RearmLink front prev) m = (mb_link prev stub m, Inl (Last front))"
| "consumer_step (Last front) m =
     (case mb_next m front of
        Some n \<Rightarrow> (m\<lparr> mb_head := n \<rparr>, Inr (Message front))
      | None \<Rightarrow> (m, Inr Busy))"

text \<open>Without interference the call runs through; it takes at most seven steps.\<close>

fun drain_run :: "nat \<Rightarrow> consumer_pc \<Rightarrow> mailbox \<Rightarrow> (mailbox \<times> drain_status) option" where
  "drain_run 0 pc m = None"
| "drain_run (Suc n) pc m =
     (case consumer_step pc m of
        (m', Inr r) \<Rightarrow> Some (m', r)
      | (m', Inl pc') \<Rightarrow> drain_run n pc' m')"

definition try_dequeue :: "mailbox \<Rightarrow> (mailbox \<times> drain_status) option" where
  "try_dequeue m = drain_run 7 Start m"

section \<open>Interleavings\<close>

text \<open>
  The mailbox with its clients: the pairs of producers between exchange and link store, the
  consumer's program counter, and the histories of exchanges and of returned messages.
\<close>

record mb_system =
  ms_box :: mailbox
  ms_pc :: consumer_pc
  ms_pending :: "(dref \<times> dref) set"
  ms_enq :: "dref list"
  ms_deq :: "dref list"

definition ms_queue :: "mb_system \<Rightarrow> dref list" where
  "ms_queue s = drop (length (ms_deq s)) (ms_enq s)"

definition ms_init :: mb_system where
  "ms_init = \<lparr> ms_box = mb_init, ms_pc = Start, ms_pending = {}, ms_enq = [], ms_deq = [] \<rparr>"

definition ms_returned :: "drain_status \<Rightarrow> dref list" where
  "ms_returned r = (case r of Message d \<Rightarrow> [d] | _ \<Rightarrow> [])"

text \<open>A producer enqueues a descriptor it owns: one that is not the stub and not in the queue.\<close>

inductive mb_step :: "mb_system \<Rightarrow> drain_status option \<Rightarrow> mb_system \<Rightarrow> bool" where
  exchange: "d \<noteq> stub \<Longrightarrow> d \<notin> set (ms_queue s) \<Longrightarrow> mb_exchange d (ms_box s) = (prev, m) \<Longrightarrow>
     mb_step s None (s\<lparr> ms_box := m, ms_pending := insert (prev, d) (ms_pending s),
                        ms_enq := ms_enq s @ [d] \<rparr>)"
| link: "(prev, d) \<in> ms_pending s \<Longrightarrow>
     mb_step s None (s\<lparr> ms_box := mb_link prev d (ms_box s), ms_pending := ms_pending s - {(prev, d)} \<rparr>)"
| continue: "consumer_step (ms_pc s) (ms_box s) = (m, Inl pc) \<Longrightarrow>
     mb_step s None (s\<lparr> ms_box := m, ms_pc := pc \<rparr>)"
| return: "consumer_step (ms_pc s) (ms_box s) = (m, Inr r) \<Longrightarrow>
     mb_step s (Some r) (s\<lparr> ms_box := m, ms_pc := Start, ms_deq := ms_deq s @ ms_returned r \<rparr>)"

inductive mb_reachable :: "mb_system \<Rightarrow> bool" where
  init: "mb_reachable ms_init"
| step: "mb_reachable s \<Longrightarrow> mb_step s l s' \<Longrightarrow> mb_reachable s'"

section \<open>The chain invariant\<close>

text \<open>
  The nodes from \<open>head_\<close> to \<open>tail_\<close>: neighbours are linked, or the link store between them is still
  pending; the last one has no link.
\<close>

fun chain_ok :: "(dref \<Rightarrow> dref option) \<Rightarrow> (dref \<times> dref) set \<Rightarrow> dref list \<Rightarrow> bool" where
  "chain_ok nx P [] \<longleftrightarrow> False"
| "chain_ok nx P [a] \<longleftrightarrow> nx a = None"
| "chain_ok nx P (a # b # r) \<longleftrightarrow>
     nx a = (if (a, b) \<in> P then None else Some b) \<and> chain_ok nx P (b # r)"

lemma chain_ok_exchange:
  assumes "chain_ok nx P ch" and "d \<notin> set ch"
  shows "chain_ok (nx(d := None)) (insert (last ch, d) P) (ch @ [d])"
  using assms by (induction nx P ch rule: chain_ok.induct) auto

lemma chain_ok_cong:
  assumes "\<And>a. a \<in> set ch \<Longrightarrow> nx a = nx' a"
    and "\<And>a b. a \<in> set ch \<Longrightarrow> (a, b) \<in> P \<longleftrightarrow> (a, b) \<in> P'"
  shows "chain_ok nx P ch \<longleftrightarrow> chain_ok nx' P' ch"
  using assms by (induction nx P ch rule: chain_ok.induct) auto

lemma chain_ok_link:
  assumes "chain_ok nx P ch" and "distinct ch" and "(p, d) \<in> set (zip ch (tl ch))"
  shows "chain_ok (nx(p := Some d)) (P - {(p, d)}) ch"
  using assms
proof (induction nx P ch rule: chain_ok.induct)
  case (3 nx P a b r)
  have c: "nx a = (if (a, b) \<in> P then None else Some b)" "chain_ok nx P (b # r)" using 3(2) by simp_all
  show ?case
  proof (cases "a = p")
    case True
    have p: "p \<notin> set (b # r)" using 3(3) True by simp
    then have d: "d = b" using 3(4) True by (auto dest: set_zip_leftD)
    have "chain_ok (nx(p := Some d)) (P - {(p, d)}) (b # r) \<longleftrightarrow> chain_ok nx P (b # r)"
      by (rule chain_ok_cong) (use p in auto)
    with c(2) d True show ?thesis unfolding chain_ok.simps(3) by (intro conjI) simp_all
  next
    case False
    have "distinct (b # r)" "(p, d) \<in> set (zip (b # r) (tl (b # r)))" using 3(3,4) False by auto
    from 3(1) [OF c(2) this] have r: "chain_ok (nx(p := Some d)) (P - {(p, d)}) (b # r)" .
    have h: "(nx(p := Some d)) a = (if (a, b) \<in> P - {(p, d)} then None else Some b)"
      using c(1) False by simp
    show ?thesis unfolding chain_ok.simps(3) by (rule conjI [OF h r])
  qed
qed auto

lemma chain_ok_nonempty: "chain_ok nx P ch \<Longrightarrow> ch \<noteq> []"
  by auto

lemma chain_ok_last: "chain_ok nx P ch \<Longrightarrow> nx (last ch) = None"
  by (induction nx P ch rule: chain_ok.induct) auto

lemma chain_ok_advance:
  assumes "chain_ok nx P ch" and "nx (hd ch) = Some n" and "distinct ch"
    and "P \<subseteq> set (zip ch (tl ch))"
  obtains r where "ch = hd ch # n # r" and "chain_ok nx P (n # r)" and "P \<subseteq> set (zip (n # r) r)"
proof -
  obtain a r' where ch: "ch = a # r'" using chain_ok_nonempty [OF assms(1)] by (cases ch) auto
  with assms(1,2) obtain b r where "r' = b # r" by (cases r') auto
  with ch assms that [of r] show thesis by (auto split: if_splits)
qed

lemma zip_tl_snoc: "ch \<noteq> [] \<Longrightarrow> zip (ch @ [d]) (tl (ch @ [d])) = zip ch (tl ch) @ [(last ch, d)]"
  by (induction ch rule: rev_induct) (auto simp: zip_append1 tl_append split: list.split)

fun linking :: "consumer_pc \<Rightarrow> (dref \<times> dref) set" where
  "linking (RearmLink f prev) = {(prev, stub)}"
| "linking _ = {}"

definition ms_links :: "mb_system \<Rightarrow> (dref \<times> dref) set" where
  "ms_links s = ms_pending s \<union> linking (ms_pc s)"

lemma linking_none: "(\<And>f prev. pc \<noteq> RearmLink f prev) \<Longrightarrow> linking pc = {}"
  by (cases pc) auto

lemma linking_snd: "x \<in> linking pc \<Longrightarrow> snd x = stub"
  by (cases pc) auto

fun pc_ok :: "consumer_pc \<Rightarrow> dref list \<Rightarrow> bool" where
  "pc_ok Start ch \<longleftrightarrow> True"
| "pc_ok TailStub ch \<longleftrightarrow> hd ch = stub"
| "pc_ok (Front f) ch \<longleftrightarrow> f = hd ch \<and> f \<noteq> stub"
| "pc_ok (TailFront f) ch \<longleftrightarrow> f = hd ch \<and> f \<noteq> stub"
| "pc_ok (Rearm f) ch \<longleftrightarrow> f = hd ch \<and> f \<noteq> stub \<and> stub \<notin> set ch"
| "pc_ok (RearmLink f prev) ch \<longleftrightarrow> f = hd ch \<and> f \<noteq> stub"
| "pc_ok (Last f) ch \<longleftrightarrow> f = hd ch \<and> f \<noteq> stub"

definition mb_inv :: "mb_system \<Rightarrow> dref list \<Rightarrow> bool" where
  "mb_inv s ch \<longleftrightarrow>
     chain_ok (mb_next (ms_box s)) (ms_links s) ch \<and> distinct ch \<and>
     hd ch = mb_head (ms_box s) \<and> last ch = mb_tail (ms_box s) \<and>
     ms_links s \<subseteq> set (zip ch (tl ch)) \<and> (\<forall>x\<in>ms_pending s. snd x \<noteq> stub) \<and>
     filter (\<lambda>d. d \<noteq> stub) ch = ms_queue s \<and>
     length (ms_deq s) \<le> length (ms_enq s) \<and> ms_deq s = take (length (ms_deq s)) (ms_enq s) \<and>
     pc_ok (ms_pc s) ch"

lemma mb_inv_init: "mb_inv ms_init [stub]"
  by (simp add: mb_inv_def ms_init_def mb_init_def ms_links_def ms_queue_def)

lemma mb_inv_exchange:
  assumes "mb_inv s ch" and "d \<noteq> stub" and "d \<notin> set (ms_queue s)"
    and "mb_exchange d (ms_box s) = (prev, m)"
  shows "mb_inv (s\<lparr> ms_box := m, ms_pending := insert (prev, d) (ms_pending s), ms_enq := ms_enq s @ [d] \<rparr>)
           (ch @ [d])"
proof -
  let ?s = "s\<lparr> ms_box := m, ms_pending := insert (prev, d) (ms_pending s), ms_enq := ms_enq s @ [d] \<rparr>"
  note inv = assms(1)[unfolded mb_inv_def]
  have ne: "ch \<noteq> []" using inv chain_ok_nonempty by blast
  have d: "d \<notin> set ch" using assms(2,3) inv by (metis (mono_tags, lifting) mem_Collect_eq set_filter)
  have m: "prev = last ch" "m = (ms_box s)\<lparr> mb_next := (mb_next (ms_box s))(d := None), mb_tail := d \<rparr>"
    using assms(4) inv by (auto simp: mb_exchange_def)
  have l: "ms_links ?s = insert (last ch, d) (ms_links s)" by (simp add: ms_links_def m(1))
  have "pc_ok (ms_pc s) (ch @ [d])"
    using inv assms(2) ne by (cases "ms_pc s") auto
  moreover have "chain_ok (mb_next m) (ms_links ?s) (ch @ [d])"
    unfolding l using chain_ok_exchange [OF _ d] inv by (simp add: m(2))
  moreover have "ms_links ?s \<subseteq> set (zip (ch @ [d]) (tl (ch @ [d])))"
    using inv unfolding l zip_tl_snoc [OF ne] by auto
  ultimately show ?thesis
    using inv d ne assms(2) m(2) by (simp add: mb_inv_def ms_queue_def)
qed

lemma mb_inv_link:
  assumes "mb_inv s ch" and "(prev, d) \<in> ms_pending s"
  shows "mb_inv (s\<lparr> ms_box := mb_link prev d (ms_box s), ms_pending := ms_pending s - {(prev, d)} \<rparr>) ch"
proof -
  note inv = assms(1)[unfolded mb_inv_def]
  have d: "d \<noteq> stub" using assms inv by auto
  let ?s = "s\<lparr> ms_box := mb_link prev d (ms_box s), ms_pending := ms_pending s - {(prev, d)} \<rparr>"
  have l: "ms_links ?s = ms_links s - {(prev, d)}"
    using d by (auto simp: ms_links_def dest: linking_snd)
  have "(prev, d) \<in> ms_links s" using assms(2) by (simp add: ms_links_def)
  then have "chain_ok ((mb_next (ms_box s))(prev := Some d)) (ms_links s - {(prev, d)}) ch"
    using inv by (intro chain_ok_link) auto
  then show ?thesis using inv unfolding mb_inv_def l by (auto simp: mb_link_def ms_queue_def)
qed

text \<open>The abstract effect of a consumer step: it takes the oldest message or takes nothing.\<close>

definition consumer_next ::
  "mb_system \<Rightarrow> mailbox \<Rightarrow> consumer_pc + drain_status \<Rightarrow> mb_system" where
  "consumer_next s m r =
     (case r of
        Inl pc \<Rightarrow> s\<lparr> ms_box := m, ms_pc := pc \<rparr>
      | Inr v \<Rightarrow> s\<lparr> ms_box := m, ms_pc := Start, ms_deq := ms_deq s @ ms_returned v \<rparr>)"

lemma mb_inv_pc:
  assumes "mb_inv s ch" and "\<And>f prev. ms_pc s \<noteq> RearmLink f prev" and "\<And>f prev. pc \<noteq> RearmLink f prev"
    and "pc_ok pc ch"
  shows "mb_inv (s\<lparr> ms_box := ms_box s, ms_pc := pc \<rparr>) ch"
  using assms linking_none [OF assms(2)] linking_none [OF assms(3)]
  by (simp add: mb_inv_def ms_links_def ms_queue_def)

lemma mb_inv_skip_stub:
  assumes "mb_inv s ch" and "mb_head (ms_box s) = stub" and "mb_next (ms_box s) stub = Some n"
    and "ms_pc s = Start"
  shows "mb_inv (s\<lparr> ms_box := (ms_box s)\<lparr> mb_head := n \<rparr>, ms_pc := Front n \<rparr>) (tl ch)"
proof -
  note inv = assms(1)[unfolded mb_inv_def]
  have h: "hd ch = stub" using inv assms(2) by simp
  obtain r where r: "ch = hd ch # n # r" "chain_ok (mb_next (ms_box s)) (ms_links s) (n # r)"
      "ms_links s \<subseteq> set (zip (n # r) r)"
    by (rule chain_ok_advance [of "mb_next (ms_box s)" "ms_links s" ch n]) (use inv assms(3) h in auto)
  have ch: "ch = stub # n # r" using r(1) h by simp
  then have n: "n \<noteq> stub" "distinct (n # r)" and f: "filter (\<lambda>d. d \<noteq> stub) (n # r) = ms_queue s"
    using inv by auto
  show ?thesis
    using inv r(2,3) n f assms(4) unfolding ch list.sel(3)
    by (simp add: mb_inv_def ms_links_def ms_queue_def)
qed

lemma mb_inv_pop:
  assumes "mb_inv s ch" and "hd ch = f" and "f \<noteq> stub" and "mb_next (ms_box s) f = Some n"
    and "\<And>f prev. ms_pc s \<noteq> RearmLink f prev"
  shows "mb_inv (s\<lparr> ms_box := (ms_box s)\<lparr> mb_head := n \<rparr>, ms_pc := Start, ms_deq := ms_deq s @ [f] \<rparr>) (tl ch)
         \<and> ms_queue s = f # filter (\<lambda>d. d \<noteq> stub) (tl ch)"
proof -
  note inv = assms(1)[unfolded mb_inv_def]
  let ?q = "filter (\<lambda>d. d \<noteq> stub)"
  obtain r where r: "ch = f # n # r" "chain_ok (mb_next (ms_box s)) (ms_links s) (n # r)"
      "ms_links s \<subseteq> set (zip (n # r) r)"
    by (rule chain_ok_advance [of "mb_next (ms_box s)" "ms_links s" ch n]) (use inv assms(2,4) in auto)
  have q: "ms_queue s = f # ?q (n # r)" using inv r(1) assms(3) by auto
  then have "drop (length (ms_deq s)) (ms_enq s) \<noteq> []" by (simp add: ms_queue_def)
  then have lt: "length (ms_deq s) < length (ms_enq s)" by (metis drop_all not_le)
  then have "ms_enq s ! length (ms_deq s) = f"
    using q by (simp add: ms_queue_def Cons_nth_drop_Suc [symmetric])
  then have tk: "ms_deq s @ [f] = take (Suc (length (ms_deq s))) (ms_enq s)"
    using inv lt by (simp add: take_Suc_conv_app_nth)
  have dr: "drop (Suc (length (ms_deq s))) (ms_enq s) = ?q (n # r)"
  proof -
    have "drop (Suc (length (ms_deq s))) (ms_enq s) = tl (ms_queue s)"
      by (simp add: ms_queue_def drop_Suc tl_drop)
    with q show ?thesis by simp
  qed
  have l: "ms_links s = ms_pending s" using linking_none [OF assms(5)] by (simp add: ms_links_def)
  show ?thesis
    using inv r lt tk dr q l by (simp add: mb_inv_def ms_links_def ms_queue_def)
qed

lemma mb_inv_rearm:
  assumes "mb_inv s ch" and "ms_pc s = Rearm f" and "mb_exchange stub (ms_box s) = (prev, m)"
  shows "mb_inv (s\<lparr> ms_box := m, ms_pc := RearmLink f prev \<rparr>) (ch @ [stub])"
proof -
  let ?s = "s\<lparr> ms_box := m, ms_pc := RearmLink f prev \<rparr>"
  note inv = assms(1)[unfolded mb_inv_def]
  have ne: "ch \<noteq> []" using inv chain_ok_nonempty by blast
  have f: "f = hd ch" "f \<noteq> stub" and d: "stub \<notin> set ch" using inv assms(2) by auto
  have m: "prev = last ch" "m = (ms_box s)\<lparr> mb_next := (mb_next (ms_box s))(stub := None), mb_tail := stub \<rparr>"
    using assms(3) inv by (auto simp: mb_exchange_def)
  have l: "ms_links ?s = insert (last ch, stub) (ms_links s)"
    using assms(2) by (simp add: ms_links_def m(1))
  have "chain_ok (mb_next m) (ms_links ?s) (ch @ [stub])"
    unfolding l using chain_ok_exchange [OF _ d] inv by (simp add: m(2))
  moreover have "ms_links ?s \<subseteq> set (zip (ch @ [stub]) (tl (ch @ [stub])))"
    using inv unfolding l zip_tl_snoc [OF ne] by auto
  ultimately show ?thesis
    using inv d ne f m(2) by (simp add: mb_inv_def ms_queue_def)
qed

lemma mb_inv_rearm_link:
  assumes "mb_inv s ch" and "ms_pc s = RearmLink f prev"
  shows "mb_inv (s\<lparr> ms_box := mb_link prev stub (ms_box s), ms_pc := Last f \<rparr>) ch"
proof -
  let ?s = "s\<lparr> ms_box := mb_link prev stub (ms_box s), ms_pc := Last f \<rparr>"
  note inv = assms(1)[unfolded mb_inv_def]
  have l: "ms_links ?s = ms_links s - {(prev, stub)}" and i: "(prev, stub) \<in> ms_links s"
    using inv assms(2) by (auto simp: ms_links_def)
  then have "chain_ok ((mb_next (ms_box s))(prev := Some stub)) (ms_links s - {(prev, stub)}) ch"
    using inv by (intro chain_ok_link) auto
  then show ?thesis using inv assms(2) unfolding mb_inv_def l by (auto simp: mb_link_def ms_queue_def)
qed

text \<open>What a returned status says about the queue at the step that returns it.\<close>

fun status_ok :: "drain_status \<Rightarrow> dref list \<Rightarrow> bool" where
  "status_ok (Message d) q \<longleftrightarrow> q \<noteq> [] \<and> d = hd q"
| "status_ok Empty q \<longleftrightarrow> q = []"
| "status_ok Busy q \<longleftrightarrow> q \<noteq> []"

lemma mb_inv_stay_front:
  assumes "mb_inv s ch" and "hd ch = f" and "f \<noteq> stub"
  shows "ms_queue s \<noteq> []" and "hd (ms_queue s) = f"
proof -
  note inv = assms(1)[unfolded mb_inv_def]
  have "ch \<noteq> []" using inv chain_ok_nonempty by blast
  with assms(2,3) have "filter (\<lambda>d. d \<noteq> stub) ch = f # filter (\<lambda>d. d \<noteq> stub) (tl ch)" by (cases ch) auto
  with inv have "ms_queue s = f # filter (\<lambda>d. d \<noteq> stub) (tl ch)" by metis
  then show "ms_queue s \<noteq> []" "hd (ms_queue s) = f" by simp_all
qed

lemma mb_inv_stub_front:
  assumes "mb_inv s ch" and "hd ch = stub"
  shows "ms_queue s = [] \<longleftrightarrow> mb_tail (ms_box s) = stub"
proof -
  note inv = assms(1)[unfolded mb_inv_def]
  obtain r where r: "ch = stub # r" using inv chain_ok_nonempty assms(2) by (cases ch) auto
  have "stub \<notin> set r" using inv r by simp
  then have q: "filter (\<lambda>d. d \<noteq> stub) ch = r" unfolding r by (simp add: filter_id_conv) metis
  have "last ch = stub \<longleftrightarrow> r = []"
  proof
    assume l: "last ch = stub"
    show "r = []"
    proof (rule ccontr)
      assume "r \<noteq> []"
      then have "last r \<in> set r" by simp
      with l r \<open>r \<noteq> []\<close> \<open>stub \<notin> set r\<close> show False by simp
    qed
  qed (simp add: r)
  with q inv show ?thesis by auto
qed

lemma mb_inv_take_next:
  assumes "mb_inv s ch" and "hd ch = f" and "f \<noteq> stub" and "\<And>f prev. ms_pc s \<noteq> RearmLink f prev"
    and "take_next f (ms_box s) (TailFront f) = (m, r)"
  shows "(\<exists>ch'. mb_inv (consumer_next s m r) ch') \<and> (case r of Inl _ \<Rightarrow> True | Inr v \<Rightarrow> status_ok v (ms_queue s))"
proof (cases "mb_next (ms_box s) f")
  case None
  then have "m = ms_box s" "r = Inl (TailFront f)" using assms(5) by (simp_all add: take_next_def)
  then show ?thesis
    using mb_inv_pc [OF assms(1,4), of "TailFront f"] assms(2,3) by (auto simp: consumer_next_def)
next
  case (Some n)
  then have "m = (ms_box s)\<lparr> mb_head := n \<rparr>" "r = Inr (Message f)"
    using assms(5) by (simp_all add: take_next_def)
  then show ?thesis
    using mb_inv_pop [OF assms(1-3) Some assms(4)] by (auto simp: consumer_next_def ms_returned_def)
qed

lemma mb_inv_return_none:
  assumes "mb_inv s ch" and "\<And>f prev. ms_pc s \<noteq> RearmLink f prev" and "ms_returned v = []"
  shows "mb_inv (consumer_next s (ms_box s) (Inr v)) ch"
  using mb_inv_pc [OF assms(1,2), of Start] assms(3)
  by (simp add: consumer_next_def mb_inv_def ms_links_def ms_queue_def)

lemma mb_inv_consumer:
  assumes inv: "mb_inv s ch" and step: "consumer_step (ms_pc s) (ms_box s) = (m, r)"
  shows "(\<exists>ch'. mb_inv (consumer_next s m r) ch') \<and> (case r of Inl _ \<Rightarrow> True | Inr v \<Rightarrow> status_ok v (ms_queue s))"
proof -
  have hd: "hd ch = mb_head (ms_box s)" and pc: "pc_ok (ms_pc s) ch"
    and tail: "last ch = mb_tail (ms_box s)" using inv by (simp_all add: mb_inv_def)
  have ne: "ch \<noteq> []" using inv chain_ok_nonempty unfolding mb_inv_def by blast
  show ?thesis
  proof (cases "ms_pc s")
    case Start
    show ?thesis
    proof (cases "mb_head (ms_box s) = stub")
      case True
      show ?thesis
      proof (cases "mb_next (ms_box s) stub")
        case None
        then have "m = ms_box s" "r = Inl TailStub" using step Start True by (simp_all add: Let_def)
        then show ?thesis
          using mb_inv_pc [OF inv, of TailStub] Start True hd by (auto simp: consumer_next_def)
      next
        case (Some n)
        then have "m = (ms_box s)\<lparr> mb_head := n \<rparr>" "r = Inl (Front n)"
          using step Start True by (simp_all add: Let_def)
        then show ?thesis using mb_inv_skip_stub [OF inv True Some Start] by (auto simp: consumer_next_def)
      qed
    next
      case False
      then show ?thesis
        using mb_inv_take_next [OF inv hd False] step Start by (simp add: Let_def)
    qed
  next
    case TailStub
    then have m: "m = ms_box s" "r = Inr (if mb_tail (ms_box s) = stub then Empty else Busy)"
      using step by auto
    have "status_ok (if mb_tail (ms_box s) = stub then Empty else Busy) (ms_queue s)"
      using mb_inv_stub_front [OF inv] pc TailStub by simp
    moreover have "ms_returned (if mb_tail (ms_box s) = stub then Empty else Busy) = []"
      by (simp add: ms_returned_def)
    ultimately have "mb_inv (consumer_next s m r) ch"
      unfolding m by (intro mb_inv_return_none [OF inv]) (simp_all add: TailStub)
    with \<open>status_ok _ _\<close> show ?thesis unfolding m by auto
  next
    case (Front f)
    then show ?thesis using mb_inv_take_next [OF inv, of f] step pc by simp
  next
    case (TailFront f)
    then have f: "hd ch = f" "f \<noteq> stub" using pc by simp_all
    show ?thesis
    proof (cases "f = mb_tail (ms_box s)")
      case False
      then have "m = ms_box s" "r = Inr Busy" using step TailFront by simp_all
      then show ?thesis
        using mb_inv_return_none [OF inv, of Busy] mb_inv_stay_front [OF inv f] TailFront
        by (auto simp: ms_returned_def)
    next
      case True
      have "distinct ch" using inv by (simp add: mb_inv_def)
      then have "ch = [f]" using True f tail ne
        by (metis distinct.simps(2) last_ConsR last_in_set list.collapse)
      then have "mb_inv (s\<lparr> ms_box := ms_box s, ms_pc := Rearm f \<rparr>) ch"
        using mb_inv_pc [OF inv, of "Rearm f"] TailFront f by auto
      then show ?thesis using step TailFront True by (auto simp: consumer_next_def)
    qed
  next
    case (Rearm f)
    then show ?thesis
      using mb_inv_rearm [OF inv Rearm] step by (auto simp: consumer_next_def split: prod.splits)
  next
    case (RearmLink f prev)
    then show ?thesis using mb_inv_rearm_link [OF inv RearmLink] step by (auto simp: consumer_next_def)
  next
    case (Last f)
    then have f: "hd ch = f" "f \<noteq> stub" using pc by simp_all
    show ?thesis
    proof (cases "mb_next (ms_box s) f")
      case None
      then have "m = ms_box s" "r = Inr Busy" using step Last by simp_all
      then show ?thesis
        using mb_inv_return_none [OF inv, of Busy] mb_inv_stay_front [OF inv f] Last
        by (auto simp: ms_returned_def)
    next
      case (Some n)
      then have "m = (ms_box s)\<lparr> mb_head := n \<rparr>" "r = Inr (Message f)" using step Last by simp_all
      then show ?thesis
        using mb_inv_pop [OF inv f Some] Last by (auto simp: consumer_next_def ms_returned_def)
    qed
  qed
qed

lemma mb_step_inv:
  assumes "mb_step s l s'" and "mb_inv s ch"
  shows "(\<exists>ch'. mb_inv s' ch') \<and> (\<forall>v. l = Some v \<longrightarrow> status_ok v (ms_queue s))"
  using assms
proof (cases rule: mb_step.cases)
  case exchange
  then show ?thesis using mb_inv_exchange [OF assms(2)] by blast
next
  case link
  then show ?thesis using mb_inv_link [OF assms(2)] by blast
next
  case (continue m pc)
  then show ?thesis using mb_inv_consumer [OF assms(2) continue(3)] by (simp add: consumer_next_def)
next
  case (return m r)
  then show ?thesis using mb_inv_consumer [OF assms(2) return(3)] by (simp add: consumer_next_def)
qed

lemma mb_reachable_inv: "mb_reachable s \<Longrightarrow> \<exists>ch. mb_inv s ch"
proof (induction rule: mb_reachable.induct)
  case init
  then show ?case using mb_inv_init by blast
next
  case (step s l s')
  then show ?case using mb_step_inv by blast
qed

section \<open>Properties\<close>

text \<open>
  Property C36.  The mailbox is a queue in the order of the exchanges, under every interleaving of any
  number of producers with the consumer at the granularity of single atomic accesses: the messages
  returned are exactly the first ones exchanged, in that order, each once.  At the step that
  returns, a message is the oldest of the queue, \<open>Empty\<close> is returned only when the queue is empty, and
  \<open>Busy\<close> only when it is not.
\<close>

theorem mailbox_fifo:
  assumes "mb_reachable s"
  shows "ms_enq s = ms_deq s @ ms_queue s \<and> distinct (ms_queue s) \<and>
         (mb_step s (Some v) s' \<longrightarrow> status_ok v (ms_queue s))"
proof -
  obtain ch where inv: "mb_inv s ch" using mb_reachable_inv [OF assms] by blast
  then have "ms_deq s = take (length (ms_deq s)) (ms_enq s)" "filter (\<lambda>d. d \<noteq> stub) ch = ms_queue s" "distinct ch"
    by (simp_all add: mb_inv_def)
  then show ?thesis using mb_step_inv [OF _ inv] by (metis append_take_drop_id distinct_filter ms_queue_def)
qed

text \<open>A short run: one producer exchanges and links, the consumer skips the stub and goes for the node.\<close>

theorem mailbox_fifo_witness:
  "\<exists>s. mb_reachable s \<and> ms_enq s = [7] \<and> ms_enq s = ms_deq s @ ms_queue s"
proof -
  have "mb_step ms_init None
      (ms_init\<lparr> ms_box := snd (mb_exchange 7 mb_init), ms_pending := {(0, 7)}, ms_enq := [7] \<rparr>)"
    using mb_step.exchange [of 7 ms_init 0 "snd (mb_exchange 7 mb_init)"]
    by (simp add: ms_init_def mb_init_def mb_exchange_def stub_def ms_queue_def)
  note r = mb_reachable.step [OF mb_reachable.init this]
  from r mailbox_fifo [OF r] show ?thesis
    by (intro exI [of _ "ms_init\<lparr> ms_box := snd (mb_exchange 7 mb_init), ms_pending := {(0, 7)}, ms_enq := [7] \<rparr>"])
      (simp add: ms_init_def)
qed

lemma drain_run_numeral:
  "drain_run (numeral k) pc m =
     (case consumer_step pc m of
        (m', Inr r) \<Rightarrow> Some (m', r)
      | (m', Inl pc') \<Rightarrow> drain_run (pred_numeral k) pc' m')"
  by (simp add: numeral_eq_Suc)

lemma drain_run_front:
  assumes "chain_ok (mb_next m) {} (f # r)" and "f \<noteq> stub" and "last (f # r) = mb_tail m"
    and "5 \<le> n"
  shows "\<exists>m'. drain_run n (Front f) m = Some (m', Message f)"
proof -
  have n: "n = Suc (Suc (Suc (Suc (Suc (n - 5)))))" using assms(4) by simp
  show ?thesis
  proof (cases r)
    case Nil
    then show ?thesis using assms
      by (subst n) (simp add: take_next_def mb_exchange_def mb_link_def)
  next
    case (Cons b r')
    then show ?thesis using assms by (subst n) (simp add: take_next_def)
  qed
qed

text \<open>
  Progress: with no producer between its exchange and its link store, a call of
  \<open>try_dequeue\<close> that runs undisturbed returns, with the oldest message, or with \<open>Empty\<close> if there is none
  (never \<open>Busy\<close>).
\<close>

theorem try_dequeue_progress:
  assumes "mb_reachable s" and "ms_pc s = Start" and "ms_pending s = {}"
  shows "\<exists>m. try_dequeue (ms_box s) =
             Some (m, if ms_queue s = [] then Empty else Message (hd (ms_queue s)))"
proof -
  obtain ch where inv: "mb_inv s ch" using mb_reachable_inv [OF assms(1)] by blast
  let ?m = "ms_box s"
  have c: "chain_ok (mb_next ?m) {} ch" "last ch = mb_tail ?m" "hd ch = mb_head ?m" "distinct ch"
    using inv assms(2,3) by (simp_all add: mb_inv_def ms_links_def)
  obtain f r where ch: "ch = f # r" using chain_ok_nonempty [OF c(1)] by (cases ch) auto
  show ?thesis
  proof (cases "f = stub")
    case False
    have "drain_run 7 Start ?m = drain_run 7 (Front f) ?m"
      using c(3) ch False by (simp add: drain_run_numeral Let_def)
    then show ?thesis
      using drain_run_front [of ?m f r 7] c ch False mb_inv_stay_front [OF inv _ False]
      by (simp add: try_dequeue_def)
  next
    case True
    note q = mb_inv_stub_front [OF inv]
    show ?thesis
    proof (cases r)
      case Nil
      then show ?thesis using c ch True q by (simp add: try_dequeue_def drain_run_numeral)
    next
      case (Cons g r')
      have g: "g \<noteq> stub" "chain_ok (mb_next ?m) {} (g # r')" "last (g # r') = mb_tail ?m"
        "mb_next ?m stub = Some g" using c ch Cons True by auto
      have "filter (\<lambda>d. d \<noteq> stub) ch = ms_queue s" using inv by (simp add: mb_inv_def)
      then have "ms_queue s = g # filter (\<lambda>d. d \<noteq> stub) r'" using ch Cons True g(1) by simp
      then have "ms_queue s \<noteq> []" "hd (ms_queue s) = g" by simp_all
      moreover have "\<exists>m'. drain_run 6 (Front g) (?m\<lparr> mb_head := g \<rparr>) = Some (m', Message g)"
        using g by (intro drain_run_front [of _ g r']) simp_all
      moreover have "drain_run 7 Start ?m = drain_run 6 (Front g) (?m\<lparr> mb_head := g \<rparr>)"
        using c(3) ch True g(4) by (subst drain_run_numeral) (simp add: Let_def)
      ultimately show ?thesis by (simp add: try_dequeue_def)
    qed
  qed
qed

theorem try_dequeue_progress_witness:
  "\<exists>m. try_dequeue mb_init = Some (m, Empty)"
  using try_dequeue_progress [OF mb_reachable.init] by (simp add: ms_init_def ms_queue_def)

end
