(* ===== verification/Exec_State.thy ===== *)
theory Exec_State
  imports Quark_Prelude "HOL-Library.Multiset"
begin

text \<open>
  \<open>include/quark/core/exec_state.hpp\<close>, with the protocol its users run on it: the producer's wake edge,
  the worker's run and close-out (\<open>activation.hpp\<close>), the run queue hand-off and the reclaim sweep
  (\<open>engine.hpp\<close>).  Every atomic access is one step; the steps of all threads interleave in one total
  order.  Threads are anonymous: the state holds the multiset of their program counters, the number of
  messages in the mailbox and the number of run-queue entries of the activation.
\<close>

section \<open>The exec-state cell\<close>

datatype exec_state = Idle | Scheduled | Running | Parked | Dormant | Retired

definition cas :: "exec_state \<Rightarrow> exec_state \<Rightarrow> exec_state \<Rightarrow> bool \<times> exec_state" where
  "cas expected desired s = (if s = expected then (True, desired) else (False, s))"

definition notify_enqueued :: "exec_state \<Rightarrow> bool \<times> exec_state" where
  "notify_enqueued s = cas Idle Scheduled s"

definition try_acquire :: "exec_state \<Rightarrow> bool \<times> exec_state" where
  "try_acquire s = cas Scheduled Running s"

definition reacquire_from_idle :: "exec_state \<Rightarrow> bool \<times> exec_state" where
  "reacquire_from_idle s = cas Idle Running s"

definition reacquire_from_parked :: "exec_state \<Rightarrow> bool \<times> exec_state" where
  "reacquire_from_parked s = cas Parked Running s"

definition reacquire_from_dormant :: "exec_state \<Rightarrow> bool \<times> exec_state" where
  "reacquire_from_dormant s = cas Dormant Running s"

definition release_to_idle :: "exec_state \<Rightarrow> exec_state" where
  "release_to_idle s = Idle"

definition yield_to_scheduled :: "exec_state \<Rightarrow> exec_state" where
  "yield_to_scheduled s = Scheduled"

definition park :: "exec_state \<Rightarrow> exec_state" where
  "park s = Parked"

definition retire_to_dormant :: "exec_state \<Rightarrow> exec_state" where
  "retire_to_dormant s = Dormant"

definition readmit_from_parked :: "exec_state \<Rightarrow> bool \<times> exec_state" where
  "readmit_from_parked s = cas Parked Scheduled s"

definition readmit_from_dormant :: "exec_state \<Rightarrow> bool \<times> exec_state" where
  "readmit_from_dormant s = cas Dormant Scheduled s"

definition retire_from_dormant :: "exec_state \<Rightarrow> bool \<times> exec_state" where
  "retire_from_dormant s = cas Dormant Retired s"

definition readmit_from_retired :: "exec_state \<Rightarrow> bool \<times> exec_state" where
  "readmit_from_retired s = cas Retired Scheduled s"

lemmas exec_ops = cas_def notify_enqueued_def try_acquire_def reacquire_from_idle_def
  reacquire_from_parked_def reacquire_from_dormant_def release_to_idle_def yield_to_scheduled_def
  park_def retire_to_dormant_def readmit_from_parked_def readmit_from_dormant_def
  retire_from_dormant_def readmit_from_retired_def

section \<open>The threads\<close>

text \<open>
  Producers: after the enqueue exchange, before the CAS, after a failed CAS, before the readmit, and
  with a wake to push.  Workers: with a popped entry, draining, having seen the mailbox empty (and
  whether retirement was requested), before the probe and before the re-acquire of the state that was
  stored, and with the activation to push back.
\<close>

datatype pc =
    PSent | PCas | PRecheck | PReadmit | PPush
  | WClaim | WDrain | WClose bool | WProbe exec_state | WReacquire exec_state | WRequeue

text \<open>\<open>notify_enqueued_fast\<close>, one access per step.\<close>

fun notify_fast_step :: "pc \<Rightarrow> exec_state \<Rightarrow> exec_state \<times> pc option" where
  "notify_fast_step PSent s =
     (s, if s = Idle then Some PCas else if s = Dormant then Some PReadmit else None)"
| "notify_fast_step PCas s =
     (case notify_enqueued s of (ok, s') \<Rightarrow> (s', Some (if ok then PPush else PRecheck)))"
| "notify_fast_step PRecheck s = (s, if s = Dormant then Some PReadmit else None)"
| "notify_fast_step PReadmit s =
     (case readmit_from_dormant s of (ok, s') \<Rightarrow> (s', if ok then Some PPush else None))"
| "notify_fast_step _ s = (s, None)"

text \<open>
  \<open>close_out\<close> and \<open>close_out_retire\<close>: the relinquishing store, the read-only probe of the mailbox and the
  re-acquire.  The result is the program counter to go on with, if any.
\<close>

fun close_out_step :: "pc \<Rightarrow> nat \<Rightarrow> exec_state \<Rightarrow> exec_state \<times> pc option" where
  "close_out_step (WClose retire_requested) msgs s =
     (if retire_requested then (retire_to_dormant s, Some (WProbe Dormant))
      else (release_to_idle s, Some (WProbe Idle)))"
| "close_out_step (WProbe stored) msgs s = (s, if msgs \<noteq> 0 then Some (WReacquire stored) else None)"
| "close_out_step (WReacquire stored) msgs s =
     (case (if stored = Dormant then reacquire_from_dormant s else reacquire_from_idle s) of
        (ok, s') \<Rightarrow> (s', if ok then Some WDrain else None))"
| "close_out_step _ msgs s = (s, None)"

record exec_system =
  xs_exec :: exec_state
  xs_msgs :: nat
  xs_tokens :: nat
  xs_parked :: nat
  xs_threads :: "pc multiset"

definition xs_init :: exec_system where
  "xs_init = \<lparr> xs_exec = Idle, xs_msgs = 0, xs_tokens = 0, xs_parked = 0, xs_threads = {#} \<rparr>"

definition opt_mset :: "'a option \<Rightarrow> 'a multiset" where
  "opt_mset x = (case x of None \<Rightarrow> {#} | Some y \<Rightarrow> {#y#})"

text \<open>A thread at \<open>p\<close> goes on at \<open>q\<close> (or leaves), having set the cell to \<open>e\<close>.\<close>

definition advance :: "pc \<Rightarrow> exec_state \<Rightarrow> pc option \<Rightarrow> exec_system \<Rightarrow> exec_system" where
  "advance p e q s = s\<lparr> xs_exec := e, xs_threads := xs_threads s - {#p#} + opt_mset q \<rparr>"

text \<open>
  One run of an activation by a worker that popped its entry: claim it, dispatch messages, then either
  suspend, yield back to the queue, or close out once the mailbox was seen empty.
\<close>

inductive run_activation_step :: "exec_system \<Rightarrow> exec_system \<Rightarrow> bool" where
  claim: "WClaim \<in># xs_threads s \<Longrightarrow> try_acquire (xs_exec s) = (ok, e) \<Longrightarrow>
     run_activation_step s (advance WClaim e (if ok then Some WDrain else None) s)"
| dispatch: "WDrain \<in># xs_threads s \<Longrightarrow> xs_msgs s = Suc n \<Longrightarrow>
     run_activation_step s (s\<lparr> xs_msgs := n \<rparr>)"
| suspend: "WDrain \<in># xs_threads s \<Longrightarrow>
     run_activation_step s ((advance WDrain (park (xs_exec s)) None s)\<lparr> xs_parked := Suc (xs_parked s) \<rparr>)"
| yield: "WDrain \<in># xs_threads s \<Longrightarrow>
     run_activation_step s (advance WDrain (yield_to_scheduled (xs_exec s)) (Some WRequeue) s)"
| requeue: "WRequeue \<in># xs_threads s \<Longrightarrow>
     run_activation_step s ((advance WRequeue (xs_exec s) None s)\<lparr> xs_tokens := Suc (xs_tokens s) \<rparr>)"
| drained: "WDrain \<in># xs_threads s \<Longrightarrow> xs_msgs s = 0 \<Longrightarrow>
     run_activation_step s (advance WDrain (xs_exec s) (Some (WClose retire_requested)) s)"

definition is_notify :: "pc \<Rightarrow> bool" where
  "is_notify p \<longleftrightarrow> p = PSent \<or> p = PCas \<or> p = PRecheck \<or> p = PReadmit"

definition is_close :: "pc \<Rightarrow> bool" where
  "is_close p \<longleftrightarrow> (\<exists>r. p = WClose r) \<or> (\<exists>e. p = WProbe e) \<or> (\<exists>e. p = WReacquire e)"

inductive xs_step :: "exec_system \<Rightarrow> exec_system \<Rightarrow> bool" where
  post: "xs_step s (s\<lparr> xs_msgs := Suc (xs_msgs s), xs_threads := add_mset PSent (xs_threads s) \<rparr>)"
| notify: "p \<in># xs_threads s \<Longrightarrow> is_notify p \<Longrightarrow> notify_fast_step p (xs_exec s) = (e, q) \<Longrightarrow>
     xs_step s (advance p e q s)"
| push: "PPush \<in># xs_threads s \<Longrightarrow>
     xs_step s ((advance PPush (xs_exec s) None s)\<lparr> xs_tokens := Suc (xs_tokens s) \<rparr>)"
| pop: "xs_tokens s = Suc n \<Longrightarrow>
     xs_step s (s\<lparr> xs_tokens := n, xs_threads := add_mset WClaim (xs_threads s) \<rparr>)"
| run: "run_activation_step s s' \<Longrightarrow> xs_step s s'"
| close: "p \<in># xs_threads s \<Longrightarrow> is_close p \<Longrightarrow> close_out_step p (xs_msgs s) (xs_exec s) = (e, q) \<Longrightarrow>
     xs_step s (advance p e q s)"
| complete: "xs_parked s = Suc n \<Longrightarrow> readmit_from_parked (xs_exec s) = (True, e) \<Longrightarrow>
     xs_step s (s\<lparr> xs_exec := e, xs_parked := n, xs_threads := add_mset PPush (xs_threads s) \<rparr>)"
| sweep: "retire_from_dormant (xs_exec s) = (True, e) \<Longrightarrow> xs_step s (s\<lparr> xs_exec := e \<rparr>)"
| rescue: "xs_msgs s \<noteq> 0 \<Longrightarrow> readmit_from_retired (xs_exec s) = (True, e) \<Longrightarrow>
     xs_step s (s\<lparr> xs_exec := e, xs_threads := add_mset PPush (xs_threads s) \<rparr>)"

inductive xs_reachable :: "exec_system \<Rightarrow> bool" where
  init: "xs_reachable xs_init"
| step: "xs_reachable s \<Longrightarrow> xs_step s s' \<Longrightarrow> xs_reachable s'"

section \<open>Invariants\<close>

definition holders :: "pc multiset \<Rightarrow> nat" where
  "holders T = count T WDrain + count T (WClose True) + count T (WClose False)"

definition entries :: "exec_system \<Rightarrow> nat" where
  "entries s = xs_tokens s + count (xs_threads s) PPush + count (xs_threads s) WClaim +
     count (xs_threads s) WRequeue"

text \<open>Who is bound to notice the messages of an idle or dormant activation.\<close>

definition responsible :: "exec_state \<Rightarrow> pc multiset \<Rightarrow> bool" where
  "responsible e T \<longleftrightarrow>
     0 < count T PSent \<or> 0 < count T PCas \<or> 0 < count T (WProbe e) \<or> 0 < count T (WReacquire e) \<or>
     (e = Dormant \<and> (0 < count T PRecheck \<or> 0 < count T PReadmit))"

definition xs_inv :: "exec_system \<Rightarrow> bool" where
  "xs_inv s \<longleftrightarrow>
     holders (xs_threads s) = (if xs_exec s = Running then 1 else 0) \<and>
     entries s = (if xs_exec s = Scheduled then 1 else 0) \<and>
     xs_parked s = (if xs_exec s = Parked then 1 else 0) \<and>
     (xs_msgs s \<noteq> 0 \<and> (xs_exec s = Idle \<or> xs_exec s = Dormant) \<longrightarrow>
        responsible (xs_exec s) (xs_threads s)) \<and>
     (\<forall>e. WProbe e \<in># xs_threads s \<or> WReacquire e \<in># xs_threads s \<longrightarrow> e = Idle \<or> e = Dormant)"

lemmas xs_inv_defs = xs_inv_def holders_def entries_def responsible_def advance_def opt_mset_def

lemma advance_split:
  assumes "p \<in># xs_threads s"
  obtains T where "xs_threads s = add_mset p T"
    and "\<And>e q. advance p e q s = s\<lparr> xs_exec := e, xs_threads := T + opt_mset q \<rparr>"
proof -
  from assms obtain T where "xs_threads s = add_mset p T" by (meson multi_member_split)
  moreover from this have "\<And>e q. advance p e q s = s\<lparr> xs_exec := e, xs_threads := T + opt_mset q \<rparr>"
    by (simp add: advance_def)
  ultimately show thesis by (rule that)
qed

lemma xs_inv_notify:
  assumes inv: "xs_inv s" and p: "p \<in># xs_threads s" "is_notify p"
    and st: "notify_fast_step p (xs_exec s) = (e, q)"
  shows "xs_inv (advance p e q s)"
proof -
  obtain T where T: "xs_threads s = add_mset p T"
    "\<And>e q. advance p e q s = s\<lparr> xs_exec := e, xs_threads := T + opt_mset q \<rparr>"
    by (rule advance_split [OF p(1)], rule that)
  consider "p = PSent" | "p = PCas" | "p = PRecheck" | "p = PReadmit" using p(2) by (auto simp: is_notify_def)
  then show ?thesis
    using inv st unfolding T(2)
    by cases (cases "xs_exec s"; auto simp: xs_inv_defs T(1) exec_ops)+
qed

lemma xs_inv_close:
  assumes inv: "xs_inv s" and p: "p \<in># xs_threads s" "is_close p"
    and st: "close_out_step p (xs_msgs s) (xs_exec s) = (e, q)"
  shows "xs_inv (advance p e q s)"
proof -
  obtain T where T: "xs_threads s = add_mset p T"
    "\<And>e q. advance p e q s = s\<lparr> xs_exec := e, xs_threads := T + opt_mset q \<rparr>"
    by (rule advance_split [OF p(1)], rule that)
  consider (close) r where "p = WClose r" | (probe) d where "p = WProbe d" | (reacq) d where "p = WReacquire d"
    using p(2) by (auto simp: is_close_def)
  then show ?thesis
  proof cases
    case close
    have run: "xs_exec s = Running"
      using inv close by (cases r) (auto simp: xs_inv_def holders_def T(1) split: if_splits)
    then show ?thesis
      using inv st close unfolding T(2)
      by (cases r) (auto simp: xs_inv_defs T(1) exec_ops)
  next
    case probe
    then have "d = Idle \<or> d = Dormant" using inv p(1) by (auto simp: xs_inv_def)
    then show ?thesis
      using inv st probe unfolding T(2)
      by (cases "xs_exec s") (auto simp: xs_inv_defs T(1) split: if_splits)
  next
    case reacq
    then have "d = Idle \<or> d = Dormant" using inv p(1) by (auto simp: xs_inv_def)
    then show ?thesis
      using inv st reacq unfolding T(2)
      by (cases "xs_exec s") (auto simp: xs_inv_defs T(1) exec_ops split: if_splits)
  qed
qed

lemma xs_inv_run:
  assumes inv: "xs_inv s" and st: "run_activation_step s s'"
  shows "xs_inv s'"
  using st
proof cases
  case (claim ok e)
  obtain T where T: "xs_threads s = add_mset WClaim T"
    "\<And>e q. advance WClaim e q s = s\<lparr> xs_exec := e, xs_threads := T + opt_mset q \<rparr>"
    by (rule advance_split [OF claim(2)], rule that)
  have "xs_exec s = Scheduled"
    using inv by (auto simp: xs_inv_def entries_def T(1) split: if_splits)
  then show ?thesis
    using inv claim(3) unfolding claim(1) T(2) by (auto simp: xs_inv_defs T(1) exec_ops)
next
  case (dispatch n)
  have "xs_exec s = Running"
  proof -
    have "0 < count (xs_threads s) WDrain" using dispatch(2) by simp
    then have "holders (xs_threads s) \<noteq> 0" by (simp add: holders_def)
    with inv show ?thesis by (simp add: xs_inv_def split: if_splits)
  qed
  then show ?thesis using inv unfolding dispatch(1) by (simp add: xs_inv_defs)
next
  case suspend
  obtain T where T: "xs_threads s = add_mset WDrain T"
    "\<And>e q. advance WDrain e q s = s\<lparr> xs_exec := e, xs_threads := T + opt_mset q \<rparr>"
    by (rule advance_split [OF suspend(2)], rule that)
  have "xs_exec s = Running" using inv by (auto simp: xs_inv_def holders_def T(1) split: if_splits)
  then show ?thesis using inv unfolding suspend(1) T(2) by (simp add: xs_inv_defs T(1) exec_ops)
next
  case yield
  obtain T where T: "xs_threads s = add_mset WDrain T"
    "\<And>e q. advance WDrain e q s = s\<lparr> xs_exec := e, xs_threads := T + opt_mset q \<rparr>"
    by (rule advance_split [OF yield(2)], rule that)
  have "xs_exec s = Running" using inv by (auto simp: xs_inv_def holders_def T(1) split: if_splits)
  then show ?thesis using inv unfolding yield(1) T(2) by (simp add: xs_inv_defs T(1) exec_ops)
next
  case requeue
  obtain T where T: "xs_threads s = add_mset WRequeue T"
    "\<And>e q. advance WRequeue e q s = s\<lparr> xs_exec := e, xs_threads := T + opt_mset q \<rparr>"
    by (rule advance_split [OF requeue(2)], rule that)
  show ?thesis using inv unfolding requeue(1) T(2) by (simp add: xs_inv_defs T(1))
next
  case (drained r)
  obtain T where T: "xs_threads s = add_mset WDrain T"
    "\<And>e q. advance WDrain e q s = s\<lparr> xs_exec := e, xs_threads := T + opt_mset q \<rparr>"
    by (rule advance_split [OF drained(2)], rule that)
  show ?thesis using inv unfolding drained(1) T(2) by (cases r) (simp_all add: xs_inv_defs T(1))
qed

lemma xs_inv_step:
  assumes inv: "xs_inv s" and st: "xs_step s s'"
  shows "xs_inv s'"
  using st
proof cases
  case post
  then show ?thesis using inv by (simp add: xs_inv_defs)
next
  case notify
  then show ?thesis using xs_inv_notify [OF inv] by simp
next
  case push
  obtain T where T: "xs_threads s = add_mset PPush T"
    "\<And>e q. advance PPush e q s = s\<lparr> xs_exec := e, xs_threads := T + opt_mset q \<rparr>"
    by (rule advance_split [OF push(2)], rule that)
  show ?thesis using inv unfolding push(1) T(2) by (simp add: xs_inv_defs T(1))
next
  case (pop n)
  then show ?thesis using inv by (simp add: xs_inv_defs)
next
  case run
  then show ?thesis using xs_inv_run [OF inv] by simp
next
  case close
  then show ?thesis using xs_inv_close [OF inv] by simp
next
  case (complete n e)
  then show ?thesis using inv by (auto simp: xs_inv_defs exec_ops split: if_splits)
next
  case (sweep e)
  then show ?thesis using inv by (auto simp: xs_inv_defs exec_ops split: if_splits)
next
  case (rescue e)
  then show ?thesis using inv by (auto simp: xs_inv_defs exec_ops split: if_splits)
qed

lemma xs_reachable_inv: "xs_reachable s \<Longrightarrow> xs_inv s"
proof (induction rule: xs_reachable.induct)
  case init
  then show ?case by (simp add: xs_inv_defs xs_init_def)
next
  case (step s s')
  then show ?case using xs_inv_step by blast
qed

section \<open>Properties\<close>

text \<open>
  Property C34.  Single executor, under every interleaving of producers, workers, completions and the
  sweep: at most one thread holds the activation, exactly when the cell says Running; the activation
  is in the run queue (or on its way into it or out of it) at most once, exactly when the cell says
  Scheduled, so a popped entry is always claimed; and while the cell is Parked nobody can claim it.
\<close>

theorem single_executor:
  assumes "xs_reachable s"
  shows "holders (xs_threads s) = (if xs_exec s = Running then 1 else 0) \<and>
         entries s = (if xs_exec s = Scheduled then 1 else 0) \<and>
         (WClaim \<in># xs_threads s \<longrightarrow> fst (try_acquire (xs_exec s))) \<and>
         (xs_exec s = Parked \<longrightarrow> xs_parked s = 1 \<and> holders (xs_threads s) = 0 \<and> entries s = 0)"
proof -
  have inv: "xs_inv s" by (rule xs_reachable_inv [OF assms])
  have "xs_exec s = Scheduled" if "WClaim \<in># xs_threads s"
  proof -
    have "0 < count (xs_threads s) WClaim" using that by simp
    then have "entries s \<noteq> 0" by (simp add: entries_def)
    with inv show ?thesis by (simp add: xs_inv_def split: if_splits)
  qed
  with inv show ?thesis by (auto simp: xs_inv_def exec_ops)
qed

lemma xs_run_example: "xs_reachable \<lparr> xs_exec = Idle, xs_msgs = 1, xs_tokens = 0, xs_parked = 0, xs_threads = {#PSent#} \<rparr>"
  using xs_reachable.step [OF xs_reachable.init xs_step.post] by (simp add: xs_init_def)

theorem single_executor_witness:
  "holders {#PSent#} = 0 \<and> entries \<lparr> xs_exec = Idle, xs_msgs = 1, xs_tokens = 0, xs_parked = 0, xs_threads = {#PSent#} \<rparr> = 0"
  using single_executor [OF xs_run_example] by simp

text \<open>
  Property C35.  No wakeup is lost: in every reachable state in which a message is in the mailbox, either
  some thread or run-queue entry is still under way for the activation, or a suspended handler's
  completion is due, or the sweep has sealed the activation and will rescue the message.  In
  particular, once every thread has left and the run queue is empty, an activation that is not
  parked and not retired has an empty mailbox.
\<close>

theorem no_lost_wakeup:
  assumes "xs_reachable s" and "xs_msgs s \<noteq> 0"
  shows "xs_threads s \<noteq> {#} \<or> xs_tokens s \<noteq> 0 \<or> (xs_exec s = Parked \<and> xs_parked s = 1) \<or> xs_exec s = Retired"
proof -
  have inv: "xs_inv s" by (rule xs_reachable_inv [OF assms(1)])
  show ?thesis
  proof (cases "xs_threads s = {#}")
    case True
    then show ?thesis
      using inv assms(2) by (cases "xs_exec s") (auto simp: xs_inv_def entries_def holders_def responsible_def)
  qed simp
qed

theorem no_lost_wakeup_witness:
  "xs_threads \<lparr> xs_exec = Idle, xs_msgs = 1, xs_tokens = 0, xs_parked = 0, xs_threads = {#PSent#} \<rparr> \<noteq> {#}"
  using no_lost_wakeup [OF xs_run_example] by simp

end
