(* ===== verification/Timer_Wheel.thy ===== *)
theory Timer_Wheel
  imports Quark_Prelude "HOL-Library.Multiset"
begin

text \<open>
  \<open>include/quark/core/timer_wheel.hpp\<close>: the cascading timing wheel with its overflow tier.  An armed
  entry is the pair of its reference and its \<open>expiry_ticks\<close> (the field is written only while the entry is
  out of the wheel).  Ticks are natural numbers: the wheel compares signed 64-bit differences, which
  agrees as long as fewer than \<open>2 ^ 63\<close> ticks separate two instants.  The binary heap is a list sorted by
  expiry.  The contract is a schedule: every entry with the tick it fires at.
\<close>

section \<open>The wheel\<close>

definition kWheelBits :: nat where "kWheelBits = 6"
definition kWheelSize :: nat where "kWheelSize = 64"
definition kLevels :: nat where "kLevels = 4"

definition span_ticks :: nat where
  "span_ticks = 2 ^ (kWheelBits * kLevels)"

type_synonym wentry = "nat \<times> nat"

record timing_wheel =
  tw_buckets :: "nat \<times> nat \<Rightarrow> wentry list"
  tw_overflow :: "wentry list"
  tw_now :: nat

definition tw_init :: timing_wheel where
  "tw_init = \<lparr> tw_buckets = (\<lambda>_. []), tw_overflow = [], tw_now = 0 \<rparr>"

definition push_front :: "nat \<times> nat \<Rightarrow> wentry \<Rightarrow> timing_wheel \<Rightarrow> timing_wheel" where
  "push_front p e w = w\<lparr> tw_buckets := (tw_buckets w)(p := e # tw_buckets w p) \<rparr>"

definition take_bucket :: "nat \<times> nat \<Rightarrow> timing_wheel \<Rightarrow> wentry list \<times> timing_wheel" where
  "take_bucket p w = (tw_buckets w p, w\<lparr> tw_buckets := (tw_buckets w)(p := []) \<rparr>)"

text \<open>The bucket of an entry: its level by the distance, its slot by the digit of the expiry.\<close>

fun level_of :: "nat \<Rightarrow> nat \<Rightarrow> nat \<Rightarrow> nat option" where
  "level_of delta lvl 0 = None"
| "level_of delta lvl (Suc n) =
     (if delta < 2 ^ (kWheelBits * (lvl + 1)) then Some lvl else level_of delta (Suc lvl) n)"

definition tw_insert :: "wentry \<Rightarrow> timing_wheel \<Rightarrow> timing_wheel" where
  "tw_insert e w =
     (if snd e \<le> tw_now w then push_front (0, tw_now w mod kWheelSize) e w
      else
        case level_of (snd e - tw_now w) 0 kLevels of
          Some lvl \<Rightarrow> push_front (lvl, (snd e div 2 ^ (kWheelBits * lvl)) mod kWheelSize) e w
        | None \<Rightarrow> w\<lparr> tw_overflow := insort_key snd e (tw_overflow w) \<rparr>)"

text \<open>\<open>cascade_chain\<close>: re-insert the current bucket of each level until one did not roll over.\<close>

fun cascade_from :: "nat \<Rightarrow> nat \<Rightarrow> timing_wheel \<Rightarrow> timing_wheel" where
  "cascade_from lvl 0 w = w"
| "cascade_from lvl (Suc n) w =
     (let cidx = (tw_now w div 2 ^ (kWheelBits * lvl)) mod kWheelSize;
          (es, w1) = take_bucket (lvl, cidx) w;
          w2 = foldl (\<lambda>w e. tw_insert e w) w1 es
      in if cidx \<noteq> 0 then w2 else cascade_from (Suc lvl) n w2)"

definition cascade_chain :: "timing_wheel \<Rightarrow> timing_wheel" where
  "cascade_chain w = cascade_from 1 (kLevels - 1) w"

text \<open>\<open>promote_overflow\<close>: the fuel is the length of the overflow list, which every round shortens.\<close>

fun promote_loop :: "nat \<Rightarrow> timing_wheel \<Rightarrow> timing_wheel" where
  "promote_loop 0 w = w"
| "promote_loop (Suc n) w =
     (case tw_overflow w of
        [] \<Rightarrow> w
      | e # rest \<Rightarrow>
          if tw_now w + span_ticks \<le> snd e then w
          else promote_loop n (tw_insert e (w\<lparr> tw_overflow := rest \<rparr>)))"

definition promote_overflow :: "timing_wheel \<Rightarrow> timing_wheel" where
  "promote_overflow w = promote_loop (length (tw_overflow w)) w"

definition tw_tick :: "timing_wheel \<Rightarrow> wentry list \<times> timing_wheel" where
  "tw_tick w0 =
     (let w = promote_overflow w0;
          idx = tw_now w mod kWheelSize;
          w = (if idx = 0 then cascade_chain w else w);
          w = w\<lparr> tw_now := tw_now w + 1 \<rparr>
      in take_bucket (0, idx) w)"

section \<open>The schedule a wheel stands for\<close>

lemmas wheel_consts = kWheelBits_def kWheelSize_def kLevels_def span_ticks_def

text \<open>The tick that comes to level-0 slot \<open>s\<close> next.\<close>

definition due0 :: "nat \<Rightarrow> nat \<Rightarrow> nat" where
  "due0 now s = now + (s + 64 - now mod 64) mod 64"

definition due_mset :: "nat \<Rightarrow> nat \<times> nat \<Rightarrow> wentry list \<Rightarrow> (nat \<times> nat) multiset" where
  "due_mset now p es =
     (if fst p = 0 then image_mset (\<lambda>e. (fst e, due0 now (snd p))) (mset es) else mset es)"

definition cells :: "(nat \<times> nat) set" where
  "cells = {..<4} \<times> {..<64}"

definition sched :: "timing_wheel \<Rightarrow> (nat \<times> nat) multiset" where
  "sched w = (\<Sum>p\<in>cells. due_mset (tw_now w) p (tw_buckets w p)) + mset (tw_overflow w)"

text \<open>When the bucket of an entry above level 0 is cascaded.\<close>

definition cascade_tick :: "nat \<Rightarrow> nat \<Rightarrow> nat" where
  "cascade_tick l x = x div 64 ^ l * 64 ^ l"

definition in_level :: "nat \<Rightarrow> nat \<Rightarrow> nat \<Rightarrow> nat \<Rightarrow> bool" where
  "in_level now l s x \<longleftrightarrow>
     s = (x div 64 ^ l) mod 64 \<and> now \<le> cascade_tick l x \<and> cascade_tick l x < now + 64 ^ (l + 1)"

definition wheel_ok :: "timing_wheel \<Rightarrow> bool" where
  "wheel_ok w \<longleftrightarrow>
     (\<forall>l s e. (l, s) \<in> cells \<longrightarrow> l \<noteq> 0 \<longrightarrow> e \<in> set (tw_buckets w (l, s)) \<longrightarrow> in_level (tw_now w) l s (snd e)) \<and>
     (\<forall>e\<in>set (tw_overflow w). tw_now w + 64 ^ 4 \<le> snd e + 1) \<and> sorted (map snd (tw_overflow w))"

lemma wheel_ok_level:
  "wheel_ok w \<Longrightarrow> (l, s) \<in> cells \<Longrightarrow> l \<noteq> 0 \<Longrightarrow> e \<in> set (tw_buckets w (l, s)) \<Longrightarrow>
     in_level (tw_now w) l s (snd e)"
  unfolding wheel_ok_def by blast

lemma wheel_ok_cascade:
  "wheel_ok w \<Longrightarrow> (l, s) \<in> cells \<Longrightarrow> l \<noteq> 0 \<Longrightarrow> e \<in> set (tw_buckets w (l, s)) \<Longrightarrow>
     tw_now w \<le> cascade_tick l (snd e)"
  using wheel_ok_level unfolding in_level_def by blast

lemma finite_cells [simp]: "finite cells"
  by (simp add: cells_def)

lemma sum_fun_upd:
  fixes h :: "'a \<Rightarrow> 'b \<Rightarrow> 'c multiset"
  assumes "finite A" and "a \<in> A"
  shows "(\<Sum>s\<in>A. h s ((g(a := v)) s)) + h a (g a) = (\<Sum>s\<in>A. h s (g s)) + h a v"
proof -
  have "(\<Sum>s\<in>A - {a}. h s ((g(a := v)) s)) = (\<Sum>s\<in>A - {a}. h s (g s))"
    by (rule sum.cong) auto
  then show ?thesis using assms by (simp add: sum.remove [of A a] ac_simps)
qed

lemma mset_shift:
  fixes A B x y z :: "'a multiset"
  assumes "A + x = B + y"
  shows "(A + z) + x = (B + z) + y"
  using assms by (metis add.assoc add.commute)

lemma sched_update:
  assumes "p \<in> cells"
  shows "sched (w\<lparr> tw_buckets := (tw_buckets w)(p := v) \<rparr>) + due_mset (tw_now w) p (tw_buckets w p) =
         sched w + due_mset (tw_now w) p v"
proof -
  let ?h = "due_mset (tw_now w)" and ?b = "tw_buckets w"
  have "(\<Sum>q\<in>cells. ?h q ((?b(p := v)) q)) + ?h p (?b p) = (\<Sum>q\<in>cells. ?h q (?b q)) + ?h p v"
    by (rule sum_fun_upd) (simp_all add: assms)
  from mset_shift [OF this, of "mset (tw_overflow w)"] show ?thesis
    by (simp add: sched_def)
qed

lemma due_mset_Cons: "due_mset now p (e # es) = due_mset now p [e] + due_mset now p es"
  by (simp add: due_mset_def)

lemma due_mset_Nil [simp]: "due_mset now p [] = {#}"
  by (simp add: due_mset_def)

lemma sched_push:
  assumes "p \<in> cells"
  shows "sched (push_front p e w) = sched w + due_mset (tw_now w) p [e]"
proof -
  have "sched (push_front p e w) + due_mset (tw_now w) p (tw_buckets w p) =
      sched w + (due_mset (tw_now w) p [e] + due_mset (tw_now w) p (tw_buckets w p))"
    unfolding push_front_def sched_update [OF assms] due_mset_Cons [of _ _ e "tw_buckets w p"] ..
  then show ?thesis by (metis add.assoc add_right_imp_eq)
qed

lemma sched_take:
  assumes "p \<in> cells" and "take_bucket p w = (es, w')"
  shows "sched w = sched w' + due_mset (tw_now w) p es" and "es = tw_buckets w p"
  using sched_update [OF assms(1), of w "[]"] assms(2) by (auto simp: take_bucket_def)

lemma mod_64_twice: "y < 128 \<Longrightarrow> y mod 64 = (if y < 64 then y else y - (64 :: nat))"
  by (auto simp: mod_if)

lemma due0_eq:
  assumes "s < 64"
  shows "due0 now s = now + (if now mod 64 \<le> s then s - now mod 64 else s + 64 - now mod 64)"
proof -
  have a: "now mod 64 < 64" by simp
  then have "s + 64 - now mod 64 < 128" using assms by linarith
  then show ?thesis using a assms by (auto simp: due0_def mod_64_twice)
qed

lemma due0_self:
  assumes "now \<le> x" and "x < now + 64"
  shows "due0 now (x mod 64) = x"
proof -
  obtain d where d: "x = now + d" "d < 64" using assms by (metis le_Suc_ex nat_add_left_cancel_less)
  have a: "now mod 64 < 64" by simp
  have "x mod 64 = (now mod 64 + d) mod 64" using d by (simp add: mod_add_left_eq)
  also have "\<dots> = (if now mod 64 + d < 64 then now mod 64 + d else now mod 64 + d - 64)"
    using a d(2) by (intro mod_64_twice) linarith
  finally show ?thesis using a d by (subst due0_eq) (auto split: if_splits)
qed

lemma due0_ge: "now \<le> due0 now s"
  by (simp add: due0_def)

lemma due0_now: "due0 now (now mod 64) = now"
  by (rule due0_self) simp_all

lemma due0_Suc:
  assumes "s < 64" and "s \<noteq> now mod 64"
  shows "due0 (Suc now) s = due0 now s"
proof -
  have a: "now mod 64 < 64" by simp
  show ?thesis
  proof (cases "now mod 64 = 63")
    case True
    then have "Suc now mod 64 = 0" by (simp add: mod_Suc)
    with True assms show ?thesis by (simp add: due0_eq)
  next
    case False
    then have "Suc now mod 64 = Suc (now mod 64)" by (simp add: mod_Suc)
    with a False assms show ?thesis by (auto simp: due0_eq)
  qed
qed

section \<open>Insertion\<close>

lemma power_64: "(2 :: nat) ^ (6 * l) = 64 ^ l"
  by (simp add: power_mult)

lemma level_of_eq:
  "level_of d 0 kLevels =
     (if d < 64 then Some 0 else if d < 64 ^ 2 then Some 1 else if d < 64 ^ 3 then Some 2
      else if d < 64 ^ 4 then Some 3 else None)"
proof -
  have k: "kLevels = Suc (Suc (Suc (Suc 0)))" by (simp add: kLevels_def)
  show ?thesis unfolding k by (simp add: kWheelBits_def)
qed

lemma cascade_tick_bounds:
  fixes l x
  shows "cascade_tick l x \<le> x" and "x < cascade_tick l x + 64 ^ l"
proof -
  have e: "x = cascade_tick l x + x mod 64 ^ l"
    unfolding cascade_tick_def by (rule div_mult_mod_eq [symmetric])
  then show "cascade_tick l x \<le> x" by linarith
  have "x mod 64 ^ l < 64 ^ l" by simp
  with e show "x < cascade_tick l x + 64 ^ l" by linarith
qed

lemma tw_insert_eq:
  "tw_insert e w =
     (if snd e \<le> tw_now w then push_front (0, tw_now w mod 64) e w
      else if snd e - tw_now w < 64 then push_front (0, snd e mod 64) e w
      else if snd e - tw_now w < 64 ^ 2 then push_front (1, (snd e div 64 ^ 1) mod 64) e w
      else if snd e - tw_now w < 64 ^ 3 then push_front (2, (snd e div 64 ^ 2) mod 64) e w
      else if snd e - tw_now w < 64 ^ 4 then push_front (3, (snd e div 64 ^ 3) mod 64) e w
      else w\<lparr> tw_overflow := insort_key snd e (tw_overflow w) \<rparr>)"
  unfolding tw_insert_def level_of_eq by (simp add: kWheelBits_def kWheelSize_def power_64)

text \<open>Entries above level 0 wait for a cascade that is still to come.\<close>

definition clear_level :: "timing_wheel \<Rightarrow> nat \<Rightarrow> bool" where
  "clear_level w l \<longleftrightarrow> (\<forall>s e. (l, s) \<in> cells \<longrightarrow> e \<in> set (tw_buckets w (l, s)) \<longrightarrow> tw_now w < cascade_tick l (snd e))"

lemma push_front_fields [simp]:
  "tw_now (push_front p e w) = tw_now w" "tw_overflow (push_front p e w) = tw_overflow w"
  "tw_buckets (push_front p e w) q = (if q = p then e # tw_buckets w p else tw_buckets w q)"
  by (simp_all add: push_front_def)

lemma insert_level:
  assumes "wheel_ok w" and "l \<noteq> 0" and "l < 4"
    and "tw_now w + 64 ^ l \<le> snd e" and "snd e < tw_now w + 64 ^ (l + 1)"
  defines "w' \<equiv> push_front (l, (snd e div 64 ^ l) mod 64) e w"
  shows "wheel_ok w'" and "sched w' = add_mset e (sched w)"
    and "clear_level w k \<Longrightarrow> clear_level w' k"
proof -
  let ?s = "(snd e div 64 ^ l) mod 64"
  have p: "(l, ?s) \<in> cells" using assms(3) by (simp add: cells_def)
  have c: "tw_now w < cascade_tick l (snd e)" "cascade_tick l (snd e) < tw_now w + 64 ^ (l + 1)"
    using cascade_tick_bounds [where l = l and x = "snd e"] assms(4,5) by linarith+
  then have "in_level (tw_now w) l ?s (snd e)" by (simp add: in_level_def)
  then show "wheel_ok w'" using assms(1) by (auto simp: wheel_ok_def w'_def)
  show "sched w' = add_mset e (sched w)"
    unfolding w'_def sched_push [OF p] using assms(2) by (simp add: due_mset_def)
  show "clear_level w k \<Longrightarrow> clear_level w' k" using c by (auto simp: clear_level_def w'_def)
qed

lemma insert_level0:
  assumes "wheel_ok w" and "s < 64"
  shows "wheel_ok (push_front (0, s) e w)"
    and "sched (push_front (0, s) e w) = add_mset (fst e, due0 (tw_now w) s) (sched w)"
    and "clear_level w k \<Longrightarrow> k \<noteq> 0 \<Longrightarrow> clear_level (push_front (0, s) e w) k"
proof -
  have p: "(0, s) \<in> cells" using assms(2) by (simp add: cells_def)
  show "wheel_ok (push_front (0, s) e w)" using assms(1) by (simp add: wheel_ok_def)
  show "sched (push_front (0, s) e w) = add_mset (fst e, due0 (tw_now w) s) (sched w)"
    unfolding sched_push [OF p] by (simp add: due_mset_def)
  show "clear_level w k \<Longrightarrow> k \<noteq> 0 \<Longrightarrow> clear_level (push_front (0, s) e w) k"
    by (auto simp: clear_level_def)
qed

lemma insert_overflow:
  assumes "wheel_ok w" and "tw_now w + 64 ^ 4 \<le> snd e"
  defines "w' \<equiv> w\<lparr> tw_overflow := insort_key snd e (tw_overflow w) \<rparr>"
  shows "wheel_ok w'" and "sched w' = add_mset e (sched w)" and "clear_level w k \<Longrightarrow> clear_level w' k"
  using assms by (auto simp: wheel_ok_def sched_def clear_level_def set_insort_key sorted_insort_key)

lemma tw_insert_spec:
  assumes "wheel_ok w"
  shows "wheel_ok (tw_insert e w)"
    and "sched (tw_insert e w) = add_mset (fst e, max (snd e) (tw_now w)) (sched w)"
    and "tw_now (tw_insert e w) = tw_now w"
    and "clear_level w k \<Longrightarrow> k \<noteq> 0 \<Longrightarrow> clear_level (tw_insert e w) k"
    and "snd e < tw_now w + 64 ^ 4 \<Longrightarrow> tw_overflow (tw_insert e w) = tw_overflow w"
proof -
  let ?n = "tw_now w" and ?x = "snd e"
  have e: "(fst e, snd e) = e" by simp
  consider (due) "?x \<le> ?n" | (l0) "?n < ?x" "?x - ?n < 64" | (l1) "64 \<le> ?x - ?n" "?x - ?n < 64 ^ 2"
    | (l2) "64 ^ 2 \<le> ?x - ?n" "?x - ?n < 64 ^ 3" | (l3) "64 ^ 3 \<le> ?x - ?n" "?x - ?n < 64 ^ 4"
    | (far) "64 ^ 4 \<le> ?x - ?n" by linarith
  then have "wheel_ok (tw_insert e w) \<and>
      sched (tw_insert e w) = add_mset (fst e, max ?x ?n) (sched w) \<and> tw_now (tw_insert e w) = ?n \<and>
      (clear_level w k \<longrightarrow> k \<noteq> 0 \<longrightarrow> clear_level (tw_insert e w) k) \<and>
      (?x < ?n + 64 ^ 4 \<longrightarrow> tw_overflow (tw_insert e w) = tw_overflow w)"
  proof cases
    case due
    then have i: "tw_insert e w = push_front (0, ?n mod 64) e w" by (simp add: tw_insert_def wheel_consts)
    show ?thesis unfolding i using due insert_level0 [OF assms, where s = "?n mod 64" and e = e] due0_now by (simp add: max_def)
  next
    case l0
    then have i: "tw_insert e w = push_front (0, ?x mod 64) e w"
      by (simp add: tw_insert_eq)
    have "due0 ?n (?x mod 64) = ?x" using l0 by (intro due0_self) linarith+
    then show ?thesis unfolding i using l0 insert_level0 [OF assms, where s = "?x mod 64" and e = e] by (simp add: max_def)
  next
    case l1
    then have i: "tw_insert e w = push_front (1, (?x div 64 ^ 1) mod 64) e w"
      by (simp add: tw_insert_eq)
    have "?n < ?x \<and> ?n + 64 ^ 1 \<le> ?x \<and> ?x < ?n + 64 ^ (1 + 1)" using l1 by (intro conjI; simp; linarith)
    then show ?thesis unfolding i using insert_level [OF assms, where l = 1 and e = e] by (simp add: max_def)
  next
    case l2
    then have i: "tw_insert e w = push_front (2, (?x div 64 ^ 2) mod 64) e w"
      by (simp add: tw_insert_eq)
    have "?n < ?x \<and> ?n + 64 ^ 2 \<le> ?x \<and> ?x < ?n + 64 ^ (2 + 1)" using l2 by (intro conjI; simp; linarith)
    then show ?thesis unfolding i using insert_level [OF assms, where l = 2 and e = e] by (simp add: max_def)
  next
    case l3
    then have i: "tw_insert e w = push_front (3, (?x div 64 ^ 3) mod 64) e w"
      by (simp add: tw_insert_eq)
    have "?n < ?x \<and> ?n + 64 ^ 3 \<le> ?x \<and> ?x < ?n + 64 ^ (3 + 1)" using l3 by (intro conjI; simp; linarith)
    then show ?thesis unfolding i using insert_level [OF assms, where l = 3 and e = e] by (simp add: max_def)
  next
    case far
    then have i: "tw_insert e w = w\<lparr> tw_overflow := insort_key snd e (tw_overflow w) \<rparr>"
      by (simp add: tw_insert_eq)
    have "?n < ?x \<and> ?n + 64 ^ 4 \<le> ?x" using far by (intro conjI; simp; linarith)
    then show ?thesis unfolding i using insert_overflow [OF assms, where e = e] by (simp add: max_def)
  qed
  then show "wheel_ok (tw_insert e w)"
    "sched (tw_insert e w) = add_mset (fst e, max (snd e) (tw_now w)) (sched w)"
    "tw_now (tw_insert e w) = tw_now w"
    "clear_level w k \<Longrightarrow> k \<noteq> 0 \<Longrightarrow> clear_level (tw_insert e w) k"
    "snd e < tw_now w + 64 ^ 4 \<Longrightarrow> tw_overflow (tw_insert e w) = tw_overflow w" by blast+
qed

section \<open>Cascades, promotion and the tick\<close>

lemma foldl_insert_spec:
  assumes "wheel_ok w" and "\<forall>e\<in>set es. tw_now w \<le> snd e \<and> snd e < tw_now w + 64 ^ 4"
  defines "w' \<equiv> foldl (\<lambda>w e. tw_insert e w) w es"
  shows "wheel_ok w' \<and> sched w' = sched w + mset es \<and> tw_now w' = tw_now w \<and>
         tw_overflow w' = tw_overflow w \<and> (\<forall>k. k \<noteq> 0 \<longrightarrow> clear_level w k \<longrightarrow> clear_level w' k)"
  using assms(1,2) unfolding w'_def
proof (induction es arbitrary: w)
  case (Cons e es)
  note i = tw_insert_spec [OF Cons.prems(1), where e = e]
  have m: "(fst e, max (snd e) (tw_now w)) = e" using Cons.prems(2) by (cases e) (simp add: max_def)
  from Cons.IH [OF i(1)] Cons.prems(2) i(3) have
    "wheel_ok (foldl (\<lambda>w e. tw_insert e w) (tw_insert e w) es) \<and>
     sched (foldl (\<lambda>w e. tw_insert e w) (tw_insert e w) es) = sched (tw_insert e w) + mset es \<and>
     tw_now (foldl (\<lambda>w e. tw_insert e w) (tw_insert e w) es) = tw_now (tw_insert e w) \<and>
     tw_overflow (foldl (\<lambda>w e. tw_insert e w) (tw_insert e w) es) = tw_overflow (tw_insert e w) \<and>
     (\<forall>k. k \<noteq> 0 \<longrightarrow> clear_level (tw_insert e w) k \<longrightarrow>
          clear_level (foldl (\<lambda>w e. tw_insert e w) (tw_insert e w) es) k)" by simp
  with i m Cons.prems(2) show ?case by simp
qed simp

lemma take_bucket_ok:
  assumes "wheel_ok w" and "take_bucket p w = (es, w')"
  shows "wheel_ok w'" and "tw_now w' = tw_now w" and "tw_overflow w' = tw_overflow w"
    and "clear_level w k \<Longrightarrow> clear_level w' k"
proof -
  have w': "w' = w\<lparr> tw_buckets := (tw_buckets w)(p := []) \<rparr>" using assms(2) by (simp add: take_bucket_def)
  then show "tw_now w' = tw_now w" "tw_overflow w' = tw_overflow w" by simp_all
  have b: "set (tw_buckets w' q) \<subseteq> set (tw_buckets w q)" for q using w' by simp
  then show "clear_level w k \<Longrightarrow> clear_level w' k"
    unfolding clear_level_def \<open>tw_now w' = tw_now w\<close> by blast
  show "wheel_ok w'"
    using assms(1) b unfolding wheel_ok_def \<open>tw_now w' = tw_now w\<close> \<open>tw_overflow w' = tw_overflow w\<close> by blast
qed

text \<open>At a rollover of the levels below, the current bucket holds exactly what is due to cascade.\<close>

lemma current_bucket_due:
  assumes "wheel_ok w" and "l \<noteq> 0" and "l < 4" and "64 ^ l dvd tw_now w"
    and "(l, s) \<in> cells" and "e \<in> set (tw_buckets w (l, s))"
  shows "cascade_tick l (snd e) = tw_now w \<longleftrightarrow> s = (tw_now w div 64 ^ l) mod 64"
proof -
  let ?y = "snd e div 64 ^ l" and ?q = "tw_now w div 64 ^ l"
  have i: "in_level (tw_now w) l s (snd e)" using wheel_ok_level assms by blast
  have n: "tw_now w = ?q * 64 ^ l" using assms(4) by simp
  have "?q * 64 ^ l \<le> ?y * 64 ^ l" "?y * 64 ^ l < ?q * 64 ^ l + 64 * 64 ^ l"
    using i unfolding in_level_def cascade_tick_def by (simp_all flip: n)
  then have "?q * 64 ^ l \<le> ?y * 64 ^ l" "?y * 64 ^ l < (?q + 64) * 64 ^ l"
    by (simp_all add: add_mult_distrib)
  then have b: "?q \<le> ?y" "?y < ?q + 64" by simp_all
  have s: "s = ?y mod 64" using i by (simp add: in_level_def)
  have "?y = ?q \<longleftrightarrow> ?y mod 64 = ?q mod 64"
  proof
    assume m: "?y mod 64 = ?q mod 64"
    have "(?y - ?q) mod 64 = 0" using m b(1) by (metis mod_eq_dvd_iff_nat dvd_imp_mod_0)
    moreover have "?y - ?q < 64" using b by linarith
    ultimately show "?y = ?q" using b by simp
  qed simp
  moreover have "cascade_tick l (snd e) = tw_now w \<longleftrightarrow> ?y = ?q"
    by (subst n) (simp add: cascade_tick_def)
  ultimately show ?thesis using s by auto
qed

lemma clear_level_not_multiple:
  assumes "wheel_ok w" and "l \<noteq> 0" and "\<not> 64 ^ l dvd tw_now w"
  shows "clear_level w l"
  unfolding clear_level_def
proof (intro allI impI)
  fix s e
  assume "(l, s) \<in> cells" "e \<in> set (tw_buckets w (l, s))"
  then have "tw_now w \<le> cascade_tick l (snd e)" using wheel_ok_cascade assms(1,2) by blast
  moreover have "64 ^ l dvd cascade_tick l (snd e)" by (simp add: cascade_tick_def)
  then have "tw_now w \<noteq> cascade_tick l (snd e)" using assms(3) by auto
  ultimately show "tw_now w < cascade_tick l (snd e)" by simp
qed

lemma cascade_level_spec:
  assumes "wheel_ok w" and "l \<noteq> 0" and "l < 4" and "64 ^ l dvd tw_now w"
    and "take_bucket (l, (tw_now w div 64 ^ l) mod 64) w = (es, w1)"
  defines "w2 \<equiv> foldl (\<lambda>w e. tw_insert e w) w1 es"
  shows "wheel_ok w2 \<and> sched w2 = sched w \<and> tw_now w2 = tw_now w \<and> tw_overflow w2 = tw_overflow w \<and>
         clear_level w2 l \<and> (\<forall>k. k \<noteq> 0 \<longrightarrow> clear_level w k \<longrightarrow> clear_level w2 k)"
proof -
  let ?s = "(tw_now w div 64 ^ l) mod 64"
  have p: "(l, ?s) \<in> cells" using assms(3) by (simp add: cells_def)
  note t = sched_take [OF p assms(5)] and k = take_bucket_ok [OF assms(1,5)]
  have due: "cascade_tick l (snd e) = tw_now w" if "e \<in> set es" for e
    using current_bucket_due [OF assms(1-4) p, of e] that t(2) by simp
  have pw: "(64 :: nat) ^ l \<le> 64 ^ 4" using assms(3) by (intro power_increasing) simp_all
  have near: "\<forall>e\<in>set es. tw_now w1 \<le> snd e \<and> snd e < tw_now w1 + 64 ^ 4"
  proof
    fix e
    assume "e \<in> set es"
    from due [OF this] cascade_tick_bounds [where l = l and x = "snd e"] pw k(2)
    show "tw_now w1 \<le> snd e \<and> snd e < tw_now w1 + 64 ^ 4" by linarith
  qed
  note f = foldl_insert_spec [OF k(1) near, folded w2_def]
  have "clear_level w1 l" unfolding clear_level_def
  proof (intro allI impI)
    fix s e
    assume c: "(l, s) \<in> cells" and e: "e \<in> set (tw_buckets w1 (l, s))"
    then have s: "s \<noteq> ?s" "e \<in> set (tw_buckets w (l, s))"
      using assms(5) by (auto simp: take_bucket_def split: if_splits)
    then have "cascade_tick l (snd e) \<noteq> tw_now w" using current_bucket_due [OF assms(1-4) c s(2)] by simp
    moreover have "tw_now w \<le> cascade_tick l (snd e)"
      using wheel_ok_cascade assms(1,2) c s(2) by blast
    ultimately show "tw_now w1 < cascade_tick l (snd e)" using k(2) by simp
  qed
  moreover have "sched w = sched w1 + mset es" using t(1) assms(2) by (simp add: due_mset_def)
  ultimately show ?thesis using f k assms(2) by auto
qed

lemma cascade_from_spec:
  assumes "wheel_ok w" and "l + n = 4" and "l \<noteq> 0" and "64 ^ l dvd tw_now w"
    and "\<forall>k. k \<noteq> 0 \<longrightarrow> k < l \<longrightarrow> clear_level w k"
  shows "wheel_ok (cascade_from l n w) \<and> sched (cascade_from l n w) = sched w \<and>
         tw_now (cascade_from l n w) = tw_now w \<and> tw_overflow (cascade_from l n w) = tw_overflow w \<and>
         (\<forall>k. k \<noteq> 0 \<longrightarrow> k < 4 \<longrightarrow> clear_level (cascade_from l n w) k)"
  using assms
proof (induction l n w rule: cascade_from.induct)
  case (2 l n w)
  let ?c = "(tw_now w div 64 ^ l) mod 64"
  obtain es w1 where t: "take_bucket (l, ?c) w = (es, w1)" by force
  define w2 where "w2 = foldl (\<lambda>w e. tw_insert e w) w1 es"
  have l4: "l < 4" using 2(3) by simp
  note s = cascade_level_spec [OF 2(2) 2(4) l4 2(5) t, folded w2_def]
  have eq: "cascade_from l (Suc n) w = (if ?c \<noteq> 0 then w2 else cascade_from (Suc l) n w2)"
    using t by (simp add: w2_def kWheelBits_def kWheelSize_def power_64 Let_def)
  show ?case
  proof (cases "?c = 0")
    case False
    have "clear_level w2 k" if "k \<noteq> 0" "k < 4" for k
    proof -
      consider "k < l" | "k = l" | "Suc l \<le> k" by linarith
      then show ?thesis
      proof cases
        case 3
        have "\<not> 64 ^ Suc l dvd tw_now w"
        proof
          assume "64 ^ Suc l dvd tw_now w"
          then obtain m where "tw_now w = 64 ^ Suc l * m" by (rule dvdE)
          then have "tw_now w div 64 ^ l = 64 * m" by simp
          with False show False by simp
        qed
        then have "\<not> 64 ^ k dvd tw_now w2" using 3 s by (metis dvd_trans le_imp_power_dvd)
        then show ?thesis using clear_level_not_multiple s that(1) by blast
      qed (use 2(6) s that in auto)
    qed
    then show ?thesis using eq False s by simp
  next
    case True
    have d: "64 ^ Suc l dvd tw_now w2"
    proof -
      from True have "64 dvd tw_now w div 64 ^ l" by (rule mod_0_imp_dvd)
      then have "64 ^ l * 64 dvd 64 ^ l * (tw_now w div 64 ^ l)" by (rule mult_dvd_mono [OF dvd_refl])
      then show ?thesis using 2(5) s by (simp add: mult.commute)
    qed
    have c: "\<forall>k. k \<noteq> 0 \<longrightarrow> k < Suc l \<longrightarrow> clear_level w2 k"
      using 2(6) s by (auto simp: less_Suc_eq)
    have "Suc l + n = 4" using 2(3) by simp
    then show ?thesis using 2(1) s d c eq True t unfolding w2_def
      by (auto simp: kWheelBits_def kWheelSize_def power_64)
  qed
qed simp

lemma promote_loop_spec:
  assumes "wheel_ok w" and "n = length (tw_overflow w)"
  shows "wheel_ok (promote_loop n w) \<and> sched (promote_loop n w) = sched w \<and>
         tw_now (promote_loop n w) = tw_now w \<and>
         (\<forall>e\<in>set (tw_overflow (promote_loop n w)). tw_now w + 64 ^ 4 \<le> snd e)"
  using assms
proof (induction n arbitrary: w)
  case (Suc n)
  then obtain e rest where o: "tw_overflow w = e # rest" by (cases "tw_overflow w") auto
  have span: "span_ticks = 64 ^ 4" by (simp add: span_ticks_def kWheelBits_def kLevels_def)
  show ?case
  proof (cases "tw_now w + span_ticks \<le> snd e")
    case True
    have "tw_now w + 64 ^ 4 \<le> snd x" if "x \<in> set (tw_overflow w)" for x
    proof -
      have "snd e \<le> snd x" using Suc.prems(1) that unfolding o wheel_ok_def by auto
      with True show ?thesis unfolding span by linarith
    qed
    then show ?thesis using Suc.prems(1) True by (simp add: o)
  next
    case False
    let ?w = "w\<lparr> tw_overflow := rest \<rparr>"
    have ok: "wheel_ok ?w" using Suc.prems(1) unfolding wheel_ok_def o by auto
    have near: "tw_now ?w \<le> snd e" "snd e < tw_now ?w + 64 ^ 4"
      using Suc.prems(1) False unfolding wheel_ok_def o span by auto
    note i = tw_insert_spec [OF ok, where e = e]
    have "sched w = add_mset e (sched ?w)" by (simp add: sched_def o)
    moreover have "(fst e, max (snd e) (tw_now ?w)) = e" using near(1) by (cases e) (simp add: max_def)
    ultimately have "sched (tw_insert e ?w) = sched w" using i(2) by simp
    then show ?thesis
      using Suc.IH [OF i(1)] i(3) i(5) [OF near(2)] False Suc.prems(2) o by simp
  qed
qed simp

lemma cascade_at_rollover:
  assumes "wheel_ok w"
  defines "w' \<equiv> (if tw_now w mod 64 = 0 then cascade_chain w else w)"
  shows "wheel_ok w' \<and> sched w' = sched w \<and> tw_now w' = tw_now w \<and> tw_overflow w' = tw_overflow w \<and>
         (\<forall>k. k \<noteq> 0 \<longrightarrow> k < 4 \<longrightarrow> clear_level w' k)"
proof (cases "tw_now w mod 64 = 0")
  case True
  then have "64 ^ 1 dvd tw_now w" by (simp add: mod_0_imp_dvd)
  then have "wheel_ok (cascade_from 1 3 w) \<and> sched (cascade_from 1 3 w) = sched w \<and>
      tw_now (cascade_from 1 3 w) = tw_now w \<and> tw_overflow (cascade_from 1 3 w) = tw_overflow w \<and>
      (\<forall>k. k \<noteq> 0 \<longrightarrow> k < 4 \<longrightarrow> clear_level (cascade_from 1 3 w) k)"
    by (intro cascade_from_spec) (use assms(1) in auto)
  then show ?thesis using True by (simp add: w'_def cascade_chain_def kLevels_def)
next
  case False
  have "\<not> 64 ^ k dvd tw_now w" if "k \<noteq> 0" for k
  proof
    assume "64 ^ k dvd tw_now w"
    then have "64 ^ 1 dvd tw_now w" using that by (meson dvd_trans le_imp_power_dvd less_one not_less)
    with False show False by simp
  qed
  then show ?thesis using False assms(1) clear_level_not_multiple by (auto simp: w'_def)
qed

lemma tick_advance:
  assumes ok: "wheel_ok w" and clear: "\<forall>k. k \<noteq> 0 \<longrightarrow> k < 4 \<longrightarrow> clear_level w k"
    and far: "\<forall>e\<in>set (tw_overflow w). tw_now w + 64 ^ 4 \<le> snd e"
    and t: "take_bucket (0, tw_now w mod 64) (w\<lparr> tw_now := tw_now w + 1 \<rparr>) = (es, w')"
  shows "wheel_ok w'" and "tw_now w' = Suc (tw_now w)"
    and "sched w = sched w' + image_mset (\<lambda>e. (fst e, tw_now w)) (mset es)"
proof -
  let ?n = "tw_now w" and ?i = "tw_now w mod 64"
  have w': "w' = w\<lparr> tw_now := ?n + 1, tw_buckets := (tw_buckets w)((0, ?i) := []) \<rparr>"
    and es: "es = tw_buckets w (0, ?i)" using t by (auto simp: take_bucket_def)
  show "tw_now w' = Suc ?n" by (simp add: w')
  have "in_level (Suc ?n) l s (snd e)"
    if "(l, s) \<in> cells" "l \<noteq> 0" "e \<in> set (tw_buckets w (l, s))" for l s e
  proof -
    have "l < 4" using that(1) by (simp add: cells_def)
    then have "?n < cascade_tick l (snd e)" using clear that unfolding clear_level_def by blast
    then show ?thesis using wheel_ok_level [OF ok that] by (simp add: in_level_def)
  qed
  moreover have "tw_now w' + 64 ^ 4 \<le> snd e + 1" if "e \<in> set (tw_overflow w')" for e
  proof -
    have "?n + 64 ^ 4 \<le> snd e" using far that by (simp add: w')
    then show ?thesis unfolding w' by simp
  qed
  moreover have "tw_buckets w' (l, s) = tw_buckets w (l, s)" if "l \<noteq> 0" for l s
    using that by (simp add: w')
  moreover have "sorted (map snd (tw_overflow w'))" "tw_now w' = Suc ?n"
    using ok by (simp_all add: w' wheel_ok_def)
  ultimately show "wheel_ok w'" unfolding wheel_ok_def by metis
  let ?v = "w\<lparr> tw_buckets := (tw_buckets w)((0, ?i) := []) \<rparr>"
  have "(0, ?i) \<in> cells" by (simp add: cells_def)
  from sched_take(1) [OF this, of w es ?v] have "sched w = sched ?v + due_mset ?n (0, ?i) es"
    using es by (simp add: take_bucket_def)
  moreover have "due_mset ?n (0, ?i) es = image_mset (\<lambda>e. (fst e, ?n)) (mset es)"
    by (simp add: due_mset_def due0_now)
  moreover have "sched ?v = sched w'"
  proof -
    have "due_mset (Suc ?n) p (tw_buckets ?v p) = due_mset ?n p (tw_buckets ?v p)" if "p \<in> cells" for p
    proof (cases "fst p = 0 \<and> snd p \<noteq> ?i")
      case True
      have "snd p < 64" using that by (auto simp: cells_def)
      then have "due0 (Suc ?n) (snd p) = due0 ?n (snd p)" using True by (intro due0_Suc) simp_all
      then show ?thesis by (simp add: due_mset_def)
    next
      case False
      then show ?thesis by (cases p) (auto simp: due_mset_def)
    qed
    then show ?thesis unfolding sched_def w' by simp
  qed
  ultimately show "sched w = sched w' + image_mset (\<lambda>e. (fst e, ?n)) (mset es)" by simp
qed

lemma tw_tick_spec:
  assumes "wheel_ok w" and "tw_tick w = (es, w')"
  shows "wheel_ok w'" and "tw_now w' = Suc (tw_now w)"
    and "sched w = sched w' + image_mset (\<lambda>e. (fst e, tw_now w)) (mset es)"
proof -
  define w1 where "w1 = promote_overflow w"
  define w2 where "w2 = (if tw_now w1 mod 64 = 0 then cascade_chain w1 else w1)"
  have p: "wheel_ok w1" "sched w1 = sched w" "tw_now w1 = tw_now w"
    "\<forall>e\<in>set (tw_overflow w1). tw_now w + 64 ^ 4 \<le> snd e"
    using promote_loop_spec [OF assms(1) refl] by (simp_all add: w1_def promote_overflow_def)
  have c: "wheel_ok w2" "sched w2 = sched w1" "tw_now w2 = tw_now w1" "tw_overflow w2 = tw_overflow w1"
    "\<forall>k. k \<noteq> 0 \<longrightarrow> k < 4 \<longrightarrow> clear_level w2 k"
    using cascade_at_rollover [OF p(1)] by (simp_all add: w2_def)
  have "take_bucket (0, tw_now w2 mod 64) (w2\<lparr> tw_now := tw_now w2 + 1 \<rparr>) = (es, w')"
    using assms(2) c(3) unfolding tw_tick_def w2_def w1_def by (simp add: Let_def kWheelSize_def)
  from tick_advance [OF c(1,5) _ this] p c show "wheel_ok w'" "tw_now w' = Suc (tw_now w)"
    "sched w = sched w' + image_mset (\<lambda>e. (fst e, tw_now w)) (mset es)" by simp_all
qed

lemma sched_ge:
  assumes "wheel_ok w" and "p \<in># sched w"
  shows "tw_now w \<le> snd p"
proof -
  have "p \<in># (\<Sum>q\<in>cells. due_mset (tw_now w) q (tw_buckets w q)) \<or> p \<in> set (tw_overflow w)"
    using assms(2) by (simp add: sched_def)
  then show ?thesis
  proof
    assume "p \<in># (\<Sum>q\<in>cells. due_mset (tw_now w) q (tw_buckets w q))"
    then obtain q where q: "q \<in> cells" "p \<in># due_mset (tw_now w) q (tw_buckets w q)"
      by (auto simp: set_mset_sum)
    obtain l s where ls: "q = (l, s)" by force
    show ?thesis
    proof (cases "l = 0")
      case True
      then show ?thesis using q(2) ls by (auto simp: due_mset_def due0_ge)
    next
      case False
      then have "p \<in> set (tw_buckets w (l, s))" using q(2) ls by (simp add: due_mset_def)
      then have "tw_now w \<le> cascade_tick l (snd p)" using wheel_ok_cascade assms(1) q(1) ls False by blast
      then show ?thesis using cascade_tick_bounds(1) order_trans by blast
    qed
  next
    assume "p \<in> set (tw_overflow w)"
    then show ?thesis using assms(1) by (auto simp: wheel_ok_def)
  qed
qed

lemma wheel_ok_init: "wheel_ok tw_init" and sched_init: "sched tw_init = {#}"
proof -
  show "wheel_ok tw_init" by (simp add: tw_init_def wheel_ok_def)
  have "sched tw_init = (\<Sum>p\<in>cells. {#})"
    unfolding sched_def tw_init_def by simp
  then show "sched tw_init = {#}" by simp
qed

section \<open>The wheel as a schedule\<close>

text \<open>What the timer service relies on: a queue of entries that fire exactly at their due tick.\<close>

locale tick_queue =
  fixes ins :: "nat \<times> nat \<Rightarrow> 'w \<Rightarrow> 'w"
    and tick :: "'w \<Rightarrow> (nat \<times> nat) list \<times> 'w"
    and now :: "'w \<Rightarrow> nat"
    and due :: "'w \<Rightarrow> (nat \<times> nat) multiset"
    and ok :: "'w \<Rightarrow> bool"
  assumes ins_ok: "ok w \<Longrightarrow> ok (ins e w)"
    and ins_now: "ok w \<Longrightarrow> now (ins e w) = now w"
    and ins_due: "ok w \<Longrightarrow> due (ins e w) = add_mset (fst e, max (snd e) (now w)) (due w)"
    and tick_ok: "ok w \<Longrightarrow> tick w = (es, w') \<Longrightarrow> ok w' \<and> now w' = Suc (now w)"
    and tick_due: "ok w \<Longrightarrow> tick w = (es, w') \<Longrightarrow>
      due w = due w' + image_mset (\<lambda>e. (fst e, now w)) (mset es)"
    and due_ge: "ok w \<Longrightarrow> p \<in># due w \<Longrightarrow> now w \<le> snd p"
begin

lemma tick_fires:
  assumes "ok w" and "tick w = (es, w')"
  shows "image_mset (\<lambda>e. (fst e, now w)) (mset es) = filter_mset (\<lambda>p. snd p = now w) (due w)"
    and "due w' = filter_mset (\<lambda>p. snd p \<noteq> now w) (due w)"
proof -
  have later: "now w < snd p" if "p \<in># due w'" for p
    using due_ge [of w' p] tick_ok [OF assms] that by simp
  have "filter_mset (\<lambda>p. snd p = now w) (due w') = {#}" "filter_mset (\<lambda>p. snd p \<noteq> now w) (due w') = due w'"
    using later by (fastforce simp: multiset_eq_iff not_in_iff)+
  then show "image_mset (\<lambda>e. (fst e, now w)) (mset es) = filter_mset (\<lambda>p. snd p = now w) (due w)"
    "due w' = filter_mset (\<lambda>p. snd p \<noteq> now w) (due w)"
    unfolding tick_due [OF assms] by (simp_all add: filter_mset_image_mset)
qed

lemma tick_member:
  assumes "ok w" and "tick w = (es, w')"
  shows "r \<in> fst ` set es \<longleftrightarrow> (r, now w) \<in># due w"
proof -
  have "(r, now w) \<in># image_mset (\<lambda>e. (fst e, now w)) (mset es) \<longleftrightarrow> r \<in> fst ` set es" by auto
  then show ?thesis unfolding tick_fires(1) [OF assms] by simp
qed

end

interpretation wheel: tick_queue tw_insert tw_tick tw_now sched wheel_ok
proof unfold_locales
  fix w e
  assume "wheel_ok w"
  note i = tw_insert_spec [OF this, where e = e]
  show "wheel_ok (tw_insert e w)" "tw_now (tw_insert e w) = tw_now w"
    "sched (tw_insert e w) = add_mset (fst e, max (snd e) (tw_now w)) (sched w)" using i by simp_all
next
  fix w es w'
  assume a: "wheel_ok w" "tw_tick w = (es, w')"
  show "wheel_ok w' \<and> tw_now w' = Suc (tw_now w)" using tw_tick_spec [OF a] by simp
  show "sched w = sched w' + image_mset (\<lambda>e. (fst e, tw_now w)) (mset es)" by (rule tw_tick_spec [OF a])
next
  fix w p
  assume "wheel_ok w" "p \<in># sched w"
  then show "tw_now w \<le> snd p" by (rule sched_ge)
qed

datatype wheel_op = InsertEntry wentry | Tick

text \<open>A history of the wheel and the entries each tick fires, with the tick they fire at.\<close>

fun wheel_run :: "wheel_op list \<Rightarrow> timing_wheel \<Rightarrow> (nat \<times> nat) list \<times> timing_wheel" where
  "wheel_run [] w = ([], w)"
| "wheel_run (InsertEntry e # ops) w = wheel_run ops (tw_insert e w)"
| "wheel_run (Tick # ops) w =
     (case tw_tick w of (es, w1) \<Rightarrow>
        case wheel_run ops w1 of (fired, w2) \<Rightarrow> (map (\<lambda>e. (fst e, tw_now w)) es @ fired, w2))"

fun due_of :: "wheel_op list \<Rightarrow> nat \<Rightarrow> (nat \<times> nat) multiset" where
  "due_of [] now = {#}"
| "due_of (InsertEntry e # ops) now = add_mset (fst e, max (snd e) now) (due_of ops now)"
| "due_of (Tick # ops) now = due_of ops (Suc now)"

definition tick_count :: "wheel_op list \<Rightarrow> nat" where
  "tick_count ops = length (filter (\<lambda>x. x = Tick) ops)"

lemma wheel_run_spec:
  assumes "wheel_ok w" and "wheel_run ops w = (fired, w')"
  shows "wheel_ok w' \<and> tw_now w' = tw_now w + tick_count ops \<and>
         mset fired + sched w' = sched w + due_of ops (tw_now w) \<and>
         (\<forall>p\<in>set fired. snd p < tw_now w + tick_count ops)"
  using assms
proof (induction ops w arbitrary: fired rule: wheel_run.induct)
  case (1 w)
  then show ?case by (simp add: tick_count_def)
next
  case (2 e ops w)
  note i = tw_insert_spec [OF 2(2), where e = e]
  from 2(1) [OF i(1)] 2(3) i show ?case by (simp add: tick_count_def)
next
  case (3 ops w)
  obtain es w1 where t: "tw_tick w = (es, w1)" by force
  obtain f1 where f: "wheel_run ops w1 = (f1, w')" "fired = map (\<lambda>e. (fst e, tw_now w)) es @ f1"
    using 3(3) t by (auto split: prod.splits)
  note s = tw_tick_spec [OF 3(2) t]
  from 3(1) [OF t [symmetric] s(1) f(1)] s f(2) show ?case
    by (auto simp: tick_count_def image_mset.compositionality comp_def ac_simps)
qed



end
