(* ===== verification/Timer_Service.thy ===== *)
theory Timer_Service
  imports Timer_Wheel
begin

text \<open>
  \<open>include/quark/core/timer_service.hpp\<close> and the entry pool of \<open>timer_wheel.hpp\<close>: pooled entries with
  generations, one-shot and periodic timers, lazy generation-gated cancellation, and the step in
  phases (pop the due entries, fire the live ones with no lock held, then recycle or re-arm).  Entries
  are shared between the wheel, the batch and the handles, so they live in a store and everything else
  holds references.  User code runs between the phases: cancellations and new timers may come there.
\<close>

section \<open>Entries and their pool\<close>

record timer_entry =
  te_expiry :: nat
  te_period :: nat
  te_gen :: nat
  te_cancelled :: bool
  te_active :: bool

record timer_service =
  ts_tick_ns :: nat
  ts_chunk :: nat
  ts_entries :: "nat \<Rightarrow> timer_entry"
  ts_allocated :: nat
  ts_free :: "nat list"
  ts_wheel :: timing_wheel
  ts_batch :: "(nat \<times> bool) list"

definition ts_init :: "nat \<Rightarrow> nat \<Rightarrow> timer_service" where
  "ts_init tick_ns chunk =
     \<lparr> ts_tick_ns = (if tick_ns = 0 then 1 else tick_ns), ts_chunk = (if chunk = 0 then 1 else chunk),
       ts_entries = (\<lambda>_. \<lparr> te_expiry = 0, te_period = 0, te_gen = 0, te_cancelled = False, te_active = False \<rparr>),
       ts_allocated = 0, ts_free = [], ts_wheel = tw_init, ts_batch = [] \<rparr>"

definition upd_entry :: "nat \<Rightarrow> (timer_entry \<Rightarrow> timer_entry) \<Rightarrow> timer_service \<Rightarrow> timer_service" where
  "upd_entry e f s = s\<lparr> ts_entries := (ts_entries s)(e := f (ts_entries s e)) \<rparr>"

definition pool_grow :: "timer_service \<Rightarrow> timer_service" where
  "pool_grow s =
     s\<lparr> ts_free := rev [ts_allocated s..<ts_allocated s + ts_chunk s] @ ts_free s,
        ts_allocated := ts_allocated s + ts_chunk s \<rparr>"

definition pool_acquire :: "timer_service \<Rightarrow> nat \<times> timer_service" where
  "pool_acquire s0 =
     (let s = (if ts_free s0 = [] then pool_grow s0 else s0);
          e = hd (ts_free s)
      in (e, upd_entry e (\<lambda>t. t\<lparr> te_cancelled := False, te_active := True \<rparr>) (s\<lparr> ts_free := tl (ts_free s) \<rparr>)))"

definition pool_release :: "nat \<Rightarrow> timer_service \<Rightarrow> timer_service" where
  "pool_release e s =
     (upd_entry e (\<lambda>t. t\<lparr> te_active := False, te_cancelled := False, te_gen := te_gen t + 1 \<rparr>) s)
       \<lparr> ts_free := e # ts_free s \<rparr>"

section \<open>Scheduling, stepping, cancelling\<close>

definition ticks_ceil :: "nat \<Rightarrow> int \<Rightarrow> nat" where
  "ticks_ceil tick_ns d =
     (let ns = (if d \<le> 0 then 0 else nat d); t = (ns + tick_ns - 1) div tick_ns
      in if t = 0 then 1 else t)"

definition ts_arm :: "int \<Rightarrow> int \<Rightarrow> timer_service \<Rightarrow> (nat \<times> nat) \<times> timer_service" where
  "ts_arm delay period s0 =
     (let (e, s) = pool_acquire s0;
          expiry = tw_now (ts_wheel s) + ticks_ceil (ts_tick_ns s) delay;
          s = upd_entry e (\<lambda>t. t\<lparr> te_expiry := expiry,
                te_period := (if 0 < period then ticks_ceil (ts_tick_ns s) period else 0) \<rparr>) s;
          s = s\<lparr> ts_wheel := tw_insert (e, expiry) (ts_wheel s) \<rparr>
      in ((e, te_gen (ts_entries s e)), s))"

text \<open>Phase 1: the due entries, tagged live or cancelled.  Phase 2 fires the live ones.\<close>

definition ts_pop :: "timer_service \<Rightarrow> timer_service" where
  "ts_pop s =
     (case tw_tick (ts_wheel s) of (es, w) \<Rightarrow>
        s\<lparr> ts_wheel := w, ts_batch := map (\<lambda>e. (fst e, \<not> te_cancelled (ts_entries s (fst e)))) es \<rparr>)"

definition ts_live :: "timer_service \<Rightarrow> nat list" where
  "ts_live s = map fst (filter snd (ts_batch s))"

text \<open>Phase 3: recycle or re-arm; entries cancelled in flight are collected and recycled at the end.\<close>

fun finish_loop :: "(nat \<times> bool) list \<Rightarrow> nat list \<Rightarrow> timer_service \<Rightarrow> nat list \<times> timer_service" where
  "finish_loop [] late s = (late, s)"
| "finish_loop ((e, live) # ds) late s =
     (let t = ts_entries s e in
      if \<not> live \<or> te_period t = 0 then finish_loop ds late (pool_release e s)
      else if te_cancelled t then finish_loop ds (late @ [e]) s
      else
        let s = upd_entry e (\<lambda>t. t\<lparr> te_expiry := te_expiry t + te_period t \<rparr>) s
        in finish_loop ds late (s\<lparr> ts_wheel := tw_insert (e, te_expiry t + te_period t) (ts_wheel s) \<rparr>))"

definition ts_finish :: "timer_service \<Rightarrow> timer_service" where
  "ts_finish s =
     (case finish_loop (ts_batch s) [] s of (late, s) \<Rightarrow>
        (foldl (\<lambda>s e. pool_release e s) s late)\<lparr> ts_batch := [] \<rparr>)"

definition ts_cancel :: "nat \<times> nat \<Rightarrow> timer_service \<Rightarrow> timer_service" where
  "ts_cancel h s =
     (let e = fst h in
      if te_active (ts_entries s e) \<and> te_gen (ts_entries s e) = snd h
      then upd_entry e (\<lambda>t. t\<lparr> te_cancelled := True \<rparr>) s
      else s)"

definition ts_step :: "timer_service \<Rightarrow> nat list \<times> timer_service" where
  "ts_step s = (let s = ts_pop s in (ts_live s, ts_finish s))"

section \<open>Ownership of entries\<close>

text \<open>Every allocated entry is in exactly one place: the wheel, the batch, the late list or the pool.\<close>

definition armed :: "timer_service \<Rightarrow> nat multiset" where
  "armed s = image_mset fst (sched (ts_wheel s))"

definition entry_ok :: "timer_service \<Rightarrow> bool" where
  "entry_ok s \<longleftrightarrow>
     wheel_ok (ts_wheel s) \<and>
     (\<forall>p\<in>#sched (ts_wheel s). snd p = te_expiry (ts_entries s (fst p)) \<and> te_active (ts_entries s (fst p))) \<and>
     (\<forall>e\<in>set (ts_free s). \<not> te_active (ts_entries s e)) \<and>
     (\<forall>e\<ge>ts_allocated s. \<not> te_active (ts_entries s e)) \<and> 0 < ts_chunk s"

definition owned :: "nat list \<Rightarrow> timer_service \<Rightarrow> bool" where
  "owned busy s \<longleftrightarrow> armed s + mset busy + mset (ts_free s) = mset [0..<ts_allocated s]"

definition in_flight :: "nat list \<Rightarrow> timer_service \<Rightarrow> bool" where
  "in_flight busy s \<longleftrightarrow>
     (\<forall>e\<in>set busy. te_active (ts_entries s e) \<and> Suc (te_expiry (ts_entries s e)) = tw_now (ts_wheel s))"

definition ts_inv :: "timer_service \<Rightarrow> bool" where
  "ts_inv s \<longleftrightarrow> entry_ok s \<and> owned (map fst (ts_batch s)) s \<and> in_flight (map fst (ts_batch s)) s"

lemma upd_entry_fields [simp]:
  "ts_tick_ns (upd_entry e f s) = ts_tick_ns s" "ts_chunk (upd_entry e f s) = ts_chunk s"
  "ts_allocated (upd_entry e f s) = ts_allocated s" "ts_free (upd_entry e f s) = ts_free s"
  "ts_wheel (upd_entry e f s) = ts_wheel s" "ts_batch (upd_entry e f s) = ts_batch s"
  "ts_entries (upd_entry e f s) x = (if x = e then f (ts_entries s e) else ts_entries s x)"
  by (simp_all add: upd_entry_def)

lemma distinct_if_count_le_1:
  assumes "\<And>x. count (mset xs) x \<le> 1"
  shows "distinct xs"
  unfolding distinct_count_atmost_1
proof
  fix x
  show "count (mset xs) x = (if x \<in> set xs then 1 else 0)"
  proof (cases "x \<in> set xs")
    case True
    then have "count (mset xs) x = 1" using assms [of x] count_mset_gt_0 [of x xs] by linarith
    with True show ?thesis by simp
  qed simp
qed

lemma owned_distinct:
  assumes "owned busy s"
  shows "e \<in># armed s \<Longrightarrow> e \<notin> set busy \<and> e \<notin> set (ts_free s) \<and> count (armed s) e = 1"
    and "e \<in> set busy \<Longrightarrow> e \<notin># armed s \<and> e \<notin> set (ts_free s)"
    and "e \<in> set (ts_free s) \<Longrightarrow> e \<notin># armed s \<and> e \<notin> set busy"
    and "distinct busy" and "distinct (ts_free s)"
    and "e \<in># armed s \<or> e \<in> set busy \<or> e \<in> set (ts_free s) \<Longrightarrow> e < ts_allocated s"
proof -
  have c: "count (armed s) x + count (mset busy) x + count (mset (ts_free s)) x = count (mset [0..<ts_allocated s]) x" for x
    using assms unfolding owned_def by (metis count_union)
  have u: "count (mset [0..<ts_allocated s]) x \<le> 1" for x
    using distinct_count_atmost_1 [of "[0..<ts_allocated s]"] by (metis distinct_upt le_numeral_extra(4) zero_le_one)
  have pos: "0 < count (mset xs) x \<longleftrightarrow> x \<in> set xs" for xs and x :: nat by simp
  have le: "count (armed s) x + count (mset busy) x + count (mset (ts_free s)) x \<le> 1" for x
    using c [of x] u [of x] by simp
  show "e \<in># armed s \<Longrightarrow> e \<notin> set busy \<and> e \<notin> set (ts_free s) \<and> count (armed s) e = 1"
    using le [of e] pos [of busy e] pos [of "ts_free s" e] count_greater_zero_iff [of "armed s" e] by linarith
  show "e \<in> set busy \<Longrightarrow> e \<notin># armed s \<and> e \<notin> set (ts_free s)"
    using le [of e] pos [of busy e] pos [of "ts_free s" e] count_greater_zero_iff [of "armed s" e] by linarith
  show "e \<in> set (ts_free s) \<Longrightarrow> e \<notin># armed s \<and> e \<notin> set busy"
    using le [of e] pos [of busy e] pos [of "ts_free s" e] count_greater_zero_iff [of "armed s" e] by linarith
  show "distinct busy" "distinct (ts_free s)"
    using le by (auto intro!: distinct_if_count_le_1) (metis add_leE le_add2 order_trans)+
  show "e \<in># armed s \<or> e \<in> set busy \<or> e \<in> set (ts_free s) \<Longrightarrow> e < ts_allocated s"
  proof -
    assume "e \<in># armed s \<or> e \<in> set busy \<or> e \<in> set (ts_free s)"
    then have "0 < count (mset [0..<ts_allocated s]) e"
      using c [of e] pos [of busy e] pos [of "ts_free s" e] count_greater_zero_iff [of "armed s" e] by linarith
    then show "e < ts_allocated s" unfolding pos by simp
  qed
qed

lemma armed_mem: "p \<in># sched (ts_wheel s) \<Longrightarrow> fst p \<in># armed s"
  by (auto simp: armed_def)

lemma pool_release_inv:
  assumes "entry_ok s" and "owned (e # busy) s" and "in_flight (e # busy) s"
  shows "entry_ok (pool_release e s) \<and> owned busy (pool_release e s) \<and> in_flight busy (pool_release e s)"
proof -
  have e: "e \<notin># armed s" "e \<notin> set busy" using owned_distinct(2,4) [OF assms(2)] by auto
  have "e \<noteq> fst p" if "p \<in># sched (ts_wheel s)" for p using armed_mem [OF that] e(1) by auto
  moreover have "e \<notin> set (ts_free s)" using owned_distinct(2) [OF assms(2), of e] by simp
  ultimately have "entry_ok (pool_release e s)"
    using assms(1) unfolding entry_ok_def pool_release_def by auto
  moreover have "owned busy (pool_release e s)"
    using assms(2) by (simp add: owned_def armed_def pool_release_def)
  moreover have "in_flight busy (pool_release e s)"
    using assms(3) e(2) by (auto simp: in_flight_def pool_release_def)
  ultimately show ?thesis by blast
qed

lemma release_list_inv:
  assumes "entry_ok s" and "owned (late @ busy) s" and "in_flight (late @ busy) s"
  defines "s' \<equiv> foldl (\<lambda>s e. pool_release e s) s late"
  shows "entry_ok s' \<and> owned busy s' \<and> in_flight busy s'"
  using assms(1-3) unfolding s'_def
proof (induction late arbitrary: s)
  case (Cons e late)
  from Cons.IH pool_release_inv [of s e "late @ busy"] Cons.prems show ?case by simp
qed simp

definition rearm :: "nat \<Rightarrow> nat \<Rightarrow> timer_service \<Rightarrow> timer_service" where
  "rearm e x s =
     (upd_entry e (\<lambda>t. t\<lparr> te_expiry := x \<rparr>) s)\<lparr> ts_wheel := tw_insert (e, x) (ts_wheel s) \<rparr>"

lemma rearm_inv:
  assumes "entry_ok s" and "owned (e # busy) s" and "in_flight (e # busy) s" and "tw_now (ts_wheel s) \<le> x"
  shows "entry_ok (rearm e x s) \<and> owned busy (rearm e x s) \<and> in_flight busy (rearm e x s) \<and>
         sched (ts_wheel (rearm e x s)) = add_mset (e, x) (sched (ts_wheel s))"
proof -
  have e: "e \<notin># armed s" "e \<notin> set busy" "e \<notin> set (ts_free s)"
    using owned_distinct(2,4) [OF assms(2)] by auto
  have ok: "wheel_ok (ts_wheel s)" using assms(1) by (simp add: entry_ok_def)
  have act: "te_active (ts_entries s e)" using assms(3) by (simp add: in_flight_def)
  have d: "sched (tw_insert (e, x) (ts_wheel s)) = add_mset (e, x) (sched (ts_wheel s))"
    using wheel.ins_due [OF ok, of "(e, x)"] assms(4) by (simp add: max_def)
  have ne: "e \<noteq> fst p" if "p \<in># sched (ts_wheel s)" for p using armed_mem [OF that] e(1) by auto
  have "entry_ok (rearm e x s)"
    using assms(1) e(3) ne act wheel.ins_ok [OF ok] unfolding entry_ok_def rearm_def
    by (auto simp: d)
  moreover have "owned busy (rearm e x s)"
    using assms(2) by (simp add: owned_def armed_def rearm_def d)
  moreover have "in_flight busy (rearm e x s)"
    using assms(3) e(2) wheel.ins_now [OF ok] by (auto simp: in_flight_def rearm_def)
  ultimately show ?thesis by (simp add: rearm_def d)
qed

lemma owned_perm: "mset busy = mset busy' \<Longrightarrow> owned busy s = owned busy' s \<and> in_flight busy s = in_flight busy' s"
  using mset_eq_setD [of busy busy'] by (simp add: owned_def in_flight_def)

lemma finish_loop_inv:
  assumes "entry_ok s" and "owned (map fst ds @ late) s" and "in_flight (map fst ds @ late) s"
    and "finish_loop ds late s = (late', s')"
  shows "entry_ok s' \<and> owned late' s' \<and> in_flight late' s'"
  using assms
proof (induction ds late s rule: finish_loop.induct)
  case (2 e live ds late s)
  let ?t = "ts_entries s e"
  consider (release) "\<not> live \<or> te_period ?t = 0" | (late) "live" "te_period ?t \<noteq> 0" "te_cancelled ?t"
    | (rearm) "live" "te_period ?t \<noteq> 0" "\<not> te_cancelled ?t" by blast
  then show ?case
  proof cases
    case release
    from pool_release_inv [of s e "map fst ds @ late"] 2 release show ?thesis by (simp add: Let_def)
  next
    case late
    have "mset (map fst ds @ late @ [e]) = mset (map fst ((e, live) # ds) @ late)" by simp
    from owned_perm [OF this, of s] 2 late show ?thesis by (simp add: Let_def)
  next
    case rearm
    have x: "tw_now (ts_wheel s) \<le> te_expiry ?t + te_period ?t"
      using 2(6) rearm(2) by (simp add: in_flight_def)
    have "finish_loop ds late (rearm e (te_expiry ?t + te_period ?t) s) = (late', s')"
      using 2(7) rearm by (simp add: Let_def rearm_def upd_entry_def)
    moreover have "rearm e (te_expiry ?t + te_period ?t) s =
        (upd_entry e (\<lambda>t. t\<lparr> te_expiry := te_expiry t + te_period t \<rparr>) s)
          \<lparr> ts_wheel := tw_insert (e, te_expiry ?t + te_period ?t)
              (ts_wheel (upd_entry e (\<lambda>t. t\<lparr> te_expiry := te_expiry t + te_period t \<rparr>) s)) \<rparr>"
      by (simp add: rearm_def upd_entry_def)
    ultimately show ?thesis
      using 2(3) [OF refl _ _ refl] rearm rearm_inv [of s e "map fst ds @ late", OF _ _ _ x] 2(4-6)
      by simp
  qed
qed simp

lemma ts_finish_inv:
  assumes "ts_inv s"
  shows "ts_inv (ts_finish s)" and "ts_batch (ts_finish s) = []"
proof -
  obtain late s1 where f: "finish_loop (ts_batch s) [] s = (late, s1)" by force
  from finish_loop_inv [OF _ _ _ f] assms have
    "entry_ok s1 \<and> owned late s1 \<and> in_flight late s1" by (simp add: ts_inv_def)
  then have "entry_ok (foldl (\<lambda>s e. pool_release e s) s1 late) \<and>
      owned [] (foldl (\<lambda>s e. pool_release e s) s1 late)"
    using release_list_inv [of s1 late "[]"] by simp
  then show "ts_inv (ts_finish s)" "ts_batch (ts_finish s) = []"
    by (simp_all add: ts_finish_def f ts_inv_def entry_ok_def owned_def armed_def in_flight_def)
qed

lemma ts_pop_inv:
  assumes "ts_inv s" and "ts_batch s = []"
  shows "ts_inv (ts_pop s)"
    and "mset (map fst (ts_batch (ts_pop s))) =
           image_mset fst (filter_mset (\<lambda>p. snd p = tw_now (ts_wheel s)) (sched (ts_wheel s)))"
    and "sched (ts_wheel (ts_pop s)) = filter_mset (\<lambda>p. snd p \<noteq> tw_now (ts_wheel s)) (sched (ts_wheel s))"
    and "ts_entries (ts_pop s) = ts_entries s" and "ts_free (ts_pop s) = ts_free s"
    and "tw_now (ts_wheel (ts_pop s)) = Suc (tw_now (ts_wheel s))"
proof -
  let ?n = "tw_now (ts_wheel s)" and ?D = "sched (ts_wheel s)"
  obtain es w where t: "tw_tick (ts_wheel s) = (es, w)" by force
  have ok: "wheel_ok (ts_wheel s)" using assms(1) by (simp add: ts_inv_def entry_ok_def)
  note tk = wheel.tick_ok [OF ok t] and f = wheel.tick_fires [OF ok t]
  have p: "ts_pop s = s\<lparr> ts_wheel := w, ts_batch := map (\<lambda>e. (fst e, \<not> te_cancelled (ts_entries s (fst e)))) es \<rparr>"
    by (simp add: ts_pop_def t)
  have b: "map fst (ts_batch (ts_pop s)) = map fst es" by (simp add: p)
  have "image_mset fst (image_mset (\<lambda>e. (fst e, ?n)) (mset es)) = mset (map fst es)"
    by (simp add: image_mset.compositionality comp_def)
  then show bm: "mset (map fst (ts_batch (ts_pop s))) = image_mset fst (filter_mset (\<lambda>p. snd p = ?n) ?D)"
    unfolding b f(1) by simp
  show sc: "sched (ts_wheel (ts_pop s)) = filter_mset (\<lambda>p. snd p \<noteq> ?n) ?D" by (simp add: p f(2))
  show "ts_entries (ts_pop s) = ts_entries s" "ts_free (ts_pop s) = ts_free s"
    and nw: "tw_now (ts_wheel (ts_pop s)) = Suc ?n" using tk by (simp_all add: p)
  have "entry_ok (ts_pop s)" using assms(1) tk sc by (auto simp: ts_inv_def entry_ok_def p)
  moreover have "armed (ts_pop s) + mset (map fst (ts_batch (ts_pop s))) = armed s"
    unfolding bm armed_def sc by (metis image_mset_union multiset_partition add.commute)
  then have "owned (map fst (ts_batch (ts_pop s))) (ts_pop s)"
    using assms unfolding ts_inv_def owned_def by (simp add: p)
  moreover have "in_flight (map fst (ts_batch (ts_pop s))) (ts_pop s)"
    unfolding in_flight_def
  proof
    fix e
    assume "e \<in> set (map fst (ts_batch (ts_pop s)))"
    then have "e \<in># image_mset fst (filter_mset (\<lambda>p. snd p = ?n) ?D)" using bm by (metis set_mset_mset)
    then obtain p where "p \<in># ?D" "snd p = ?n" "fst p = e" by auto
    then show "te_active (ts_entries (ts_pop s) e) \<and> Suc (te_expiry (ts_entries (ts_pop s) e)) = tw_now (ts_wheel (ts_pop s))"
      using assms(1) nw \<open>ts_entries (ts_pop s) = ts_entries s\<close> by (auto simp: ts_inv_def entry_ok_def)
  qed
  ultimately show "ts_inv (ts_pop s)" by (simp add: ts_inv_def)
qed


lemma pool_grow_inv:
  assumes "entry_ok s" and "owned busy s" and "in_flight busy s"
  shows "entry_ok (pool_grow s) \<and> owned busy (pool_grow s) \<and> in_flight busy (pool_grow s)"
proof -
  have "[0..<ts_allocated s + ts_chunk s] = [0..<ts_allocated s] @ [ts_allocated s..<ts_allocated s + ts_chunk s]"
    by (rule upt_add_eq_append) simp
  then have "mset [0..<ts_allocated s + ts_chunk s] =
      mset [0..<ts_allocated s] + mset [ts_allocated s..<ts_allocated s + ts_chunk s]" by simp
  then show ?thesis
    using assms by (auto simp: entry_ok_def owned_def in_flight_def armed_def pool_grow_def ac_simps)
qed

lemma ts_arm_inv:
  assumes inv: "ts_inv s0" and arm: "ts_arm delay period s0 = (h, s')"
  defines "x \<equiv> tw_now (ts_wheel s0) + ticks_ceil (ts_tick_ns s0) delay"
  shows "ts_inv s'"
    and "sched (ts_wheel s') = add_mset (fst h, x) (sched (ts_wheel s0))"
    and "ts_batch s' = ts_batch s0" and "tw_now (ts_wheel s') = tw_now (ts_wheel s0)"
    and "\<not> te_active (ts_entries s0 (fst h))" and "ts_tick_ns s' = ts_tick_ns s0"
    and "ts_entries s' = (ts_entries s0)(fst h := \<lparr> te_expiry = x,
           te_period = (if 0 < period then ticks_ceil (ts_tick_ns s0) period else 0),
           te_gen = snd h, te_cancelled = False, te_active = True \<rparr>)"
proof -
  let ?b = "map fst (ts_batch s0)"
  define s where "s = (if ts_free s0 = [] then pool_grow s0 else s0)"
  define e where "e = hd (ts_free s)"
  let ?p = "if 0 < period then ticks_ceil (ts_tick_ns s0) period else 0"
  have i0: "entry_ok s0" "owned ?b s0" "in_flight ?b s0" using inv by (auto simp: ts_inv_def)
  have s: "entry_ok s" "owned ?b s" "in_flight ?b s" "ts_wheel s = ts_wheel s0" "ts_entries s = ts_entries s0"
    "ts_batch s = ts_batch s0" "ts_tick_ns s = ts_tick_ns s0" "ts_free s \<noteq> []"
    using i0 pool_grow_inv [OF i0] by (auto simp: s_def pool_grow_def entry_ok_def)
  then have fe: "ts_free s = e # tl (ts_free s)" by (simp add: e_def)
  then have ein: "e \<in> set (ts_free s)" by (metis list.set_intros(1))
  have na: "\<not> te_active (ts_entries s e)" using s(1) ein by (auto simp: entry_ok_def)
  have ok: "wheel_ok (ts_wheel s)" using s(1) by (simp add: entry_ok_def)
  have le: "tw_now (ts_wheel s) \<le> x" by (simp add: x_def s(4))
  have d: "sched (tw_insert (e, x) (ts_wheel s)) = add_mset (e, x) (sched (ts_wheel s))"
    using wheel.ins_due [OF ok, of "(e, x)"] le by (simp add: max_def)
  have ee: "r\<lparr> te_cancelled := False, te_active := True, te_expiry := y, te_period := q \<rparr> =
      \<lparr> te_expiry = y, te_period = q, te_gen = te_gen r, te_cancelled = False, te_active = True \<rparr>" for r y q
    by (rule timer_entry.equality) simp_all
  have h: "h = (e, te_gen (ts_entries s e))" and s': "s' = s\<lparr> ts_free := tl (ts_free s),
      ts_entries := (ts_entries s)(e := \<lparr> te_expiry = x, te_period = ?p, te_gen = te_gen (ts_entries s e),
        te_cancelled = False, te_active = True \<rparr>),
      ts_wheel := tw_insert (e, x) (ts_wheel s) \<rparr>"
    using arm unfolding ts_arm_def pool_acquire_def s_def [symmetric]
    by (auto simp: Let_def e_def [symmetric] upd_entry_def x_def s(4,7) ee)
  have dist: "e \<notin># armed s" "e \<notin> set ?b" "e < ts_allocated s" "distinct (ts_free s)"
    using owned_distinct [OF s(2)] ein by blast+
  have nt: "e \<notin> set (tl (ts_free s))" using dist(4) fe by (metis distinct.simps(2))
  have ne: "e \<noteq> fst p" if "p \<in># sched (ts_wheel s)" for p using armed_mem [OF that] dist(1) by auto
  have sub: "set (tl (ts_free s)) \<subseteq> set (ts_free s)" by (cases "ts_free s") auto
  have "entry_ok s'"
    using s(1) nt ne dist(3) sub wheel.ins_ok [OF ok] unfolding entry_ok_def s' by (auto simp: d)
  moreover have "owned ?b s'"
    using s(2) arg_cong [OF fe, of mset] by (simp add: owned_def armed_def s' d)
  moreover have "in_flight ?b s'"
    using s(3) dist(2) wheel.ins_now [OF ok] by (auto simp: in_flight_def s')
  moreover show "ts_batch s' = ts_batch s0" by (simp add: s' s)
  ultimately show "ts_inv s'" by (simp add: ts_inv_def)
  show "sched (ts_wheel s') = add_mset (fst h, x) (sched (ts_wheel s0))" using d by (simp add: s' h s(4))
  show "tw_now (ts_wheel s') = tw_now (ts_wheel s0)" using wheel.ins_now [OF ok] by (simp add: s' s)
  show "\<not> te_active (ts_entries s0 (fst h))" using na by (simp add: h s)
  show "ts_tick_ns s' = ts_tick_ns s0" by (simp add: s' s)
  show "ts_entries s' = (ts_entries s0)(fst h := \<lparr> te_expiry = x, te_period = ?p, te_gen = snd h,
      te_cancelled = False, te_active = True \<rparr>)" by (simp add: s' h s)
qed

lemma ts_cancel_inv: "ts_inv s \<Longrightarrow> ts_inv (ts_cancel h s)"
  by (auto simp: ts_cancel_def ts_inv_def entry_ok_def owned_def in_flight_def armed_def Let_def)

lemma ts_init_inv: "ts_inv (ts_init tick_ns chunk)"
  using wheel_ok_init sched_init
  by (auto simp: ts_init_def ts_inv_def entry_ok_def owned_def in_flight_def armed_def)


section \<open>Histories\<close>

text \<open>
  Operations in the order the service's locks give them: a tick is popped and finished with user code in
  between, and \<open>adv_mu_\<close> keeps a second pop out until the first is finished.
\<close>

datatype ts_op = ArmTimer int int | PopDue | FinishStep | CancelTimer "nat \<times> nat"

definition ts_apply :: "ts_op \<Rightarrow> timer_service \<Rightarrow> ((nat \<times> nat) \<times> nat) list \<times> timer_service" where
  "ts_apply op s =
     (case op of
        ArmTimer d p \<Rightarrow> ([], snd (ts_arm d p s))
      | PopDue \<Rightarrow>
          if ts_batch s \<noteq> [] then ([], s)
          else (map (\<lambda>e. ((e, te_gen (ts_entries s e)), tw_now (ts_wheel s))) (ts_live (ts_pop s)), ts_pop s)
      | FinishStep \<Rightarrow> ([], ts_finish s)
      | CancelTimer h \<Rightarrow> ([], ts_cancel h s))"

fun ts_run :: "ts_op list \<Rightarrow> timer_service \<Rightarrow> ((nat \<times> nat) \<times> nat) list \<times> timer_service" where
  "ts_run [] s = ([], s)"
| "ts_run (op # ops) s =
     (case ts_apply op s of (f, s1) \<Rightarrow> case ts_run ops s1 of (fs, s2) \<Rightarrow> (f @ fs, s2))"

definition fire_times :: "nat \<times> nat \<Rightarrow> ((nat \<times> nat) \<times> nat) list \<Rightarrow> nat list" where
  "fire_times h fs = map snd (filter (\<lambda>f. fst f = h) fs)"

lemma fire_times_append [simp]: "fire_times h (f @ fs) = fire_times h f @ fire_times h fs"
  by (simp add: fire_times_def)

lemma fire_times_Nil [simp]: "fire_times h [] = []"
  by (simp add: fire_times_def)

lemma ts_apply_inv:
  assumes "ts_inv s" and "ts_apply op s = (f, s')"
  shows "ts_inv s'"
proof (cases op)
  case (ArmTimer d p)
  with assms ts_arm_inv(1) [OF assms(1)] show ?thesis
    by (cases "ts_arm d p s") (auto simp: ts_apply_def)
next
  case PopDue
  with assms ts_pop_inv(1) show ?thesis by (auto simp: ts_apply_def split: if_splits)
next
  case FinishStep
  with assms ts_finish_inv(1) show ?thesis by (auto simp: ts_apply_def)
next
  case (CancelTimer h)
  then have "s' = ts_cancel h s" using assms(2) by (simp add: ts_apply_def)
  with ts_cancel_inv [OF assms(1)] show ?thesis by simp
qed

lemma ts_run_inv: "ts_inv s \<Longrightarrow> ts_run ops s = (fs, s') \<Longrightarrow> ts_inv s'"
proof (induction ops arbitrary: s fs)
  case (Cons op ops)
  obtain f s1 where a: "ts_apply op s = (f, s1)" by force
  obtain fs' where "ts_run ops s1 = (fs', s')" using Cons.prems(2) a by (auto split: prod.splits)
  from Cons.IH [OF ts_apply_inv [OF Cons.prems(1) a] this] show ?case .
qed simp

section \<open>Cancellation\<close>

text \<open>An operation leaves the generation and the flags of an entry alone, or outdates its generation.\<close>

definition kept :: "nat \<Rightarrow> timer_service \<Rightarrow> timer_service \<Rightarrow> bool" where
  "kept e s s' \<longleftrightarrow>
     te_gen (ts_entries s e) < te_gen (ts_entries s' e) \<or>
     te_gen (ts_entries s' e) = te_gen (ts_entries s e) \<and>
       (te_active (ts_entries s e) \<longrightarrow> te_active (ts_entries s' e)) \<and>
       (te_active (ts_entries s e) \<and> te_cancelled (ts_entries s e) \<longrightarrow> te_cancelled (ts_entries s' e))"

lemma kept_refl [simp]: "kept e s s"
  by (simp add: kept_def)

lemma kept_trans: "kept e s s1 \<Longrightarrow> kept e s1 s2 \<Longrightarrow> kept e s s2"
  by (auto simp: kept_def)

lemma kept_release: "kept e s (pool_release x s)"
  by (simp add: kept_def pool_release_def)

lemma kept_finish_loop: "finish_loop ds late s = (late', s') \<Longrightarrow> kept e s s'"
proof (induction ds late s rule: finish_loop.induct)
  case (2 x live ds late s)
  let ?t = "ts_entries s x" and ?s = "upd_entry x (\<lambda>t. t\<lparr> te_expiry := te_expiry t + te_period t \<rparr>) s"
  consider (release) "\<not> live \<or> te_period ?t = 0" | (late) "live" "te_period ?t \<noteq> 0" "te_cancelled ?t"
    | (rearm) "live" "te_period ?t \<noteq> 0" "\<not> te_cancelled ?t" by blast
  then show ?case
  proof cases
    case release
    then have "kept e (pool_release x s) s'" using 2(1) [OF refl] 2(4) by (simp add: Let_def)
    with kept_release show ?thesis by (rule kept_trans)
  next
    case late
    with 2 show ?thesis by (simp add: Let_def)
  next
    case rearm
    have "kept e s (?s\<lparr> ts_wheel := w \<rparr>)" for w by (simp add: kept_def)
    then have k: "kept e s (?s\<lparr> ts_wheel := tw_insert (x, te_expiry ?t + te_period ?t) (ts_wheel ?s) \<rparr>)" .
    have "kept e (?s\<lparr> ts_wheel := tw_insert (x, te_expiry ?t + te_period ?t) (ts_wheel ?s) \<rparr>) s'"
      using 2(3) [OF refl _ _ refl] 2(4) rearm by (simp add: Let_def)
    with k show ?thesis by (rule kept_trans)
  qed
qed simp

lemma kept_finish: "kept e s (ts_finish s)"
proof -
  obtain late s1 where f: "finish_loop (ts_batch s) [] s = (late, s1)" by force
  have "kept e s0 (foldl (\<lambda>s e. pool_release e s) s0 late)" for s0
    by (induction late arbitrary: s0) (auto intro: kept_trans kept_release)
  with kept_finish_loop [OF f] have "kept e s (foldl (\<lambda>s e. pool_release e s) s1 late)"
    by (blast intro: kept_trans)
  then show ?thesis by (simp add: ts_finish_def f kept_def)
qed

text \<open>A handle that was handed out, and one whose timer is cancelled or gone.\<close>

definition issued :: "nat \<times> nat \<Rightarrow> timer_service \<Rightarrow> bool" where
  "issued h s \<longleftrightarrow> snd h < te_gen (ts_entries s (fst h)) \<or>
     snd h = te_gen (ts_entries s (fst h)) \<and> te_active (ts_entries s (fst h))"

definition dead :: "nat \<times> nat \<Rightarrow> timer_service \<Rightarrow> bool" where
  "dead h s \<longleftrightarrow> snd h < te_gen (ts_entries s (fst h)) \<or>
     snd h = te_gen (ts_entries s (fst h)) \<and> te_active (ts_entries s (fst h)) \<and> te_cancelled (ts_entries s (fst h))"

lemma kept_issued: "kept (fst h) s s' \<Longrightarrow> issued h s \<Longrightarrow> issued h s'"
  and kept_dead: "kept (fst h) s s' \<Longrightarrow> dead h s \<Longrightarrow> dead h s'"
  by (auto simp: kept_def issued_def dead_def)

lemma ts_apply_keeps:
  assumes "ts_inv s" and "ts_apply op s = (f, s')"
  shows "issued h s \<Longrightarrow> issued h s'" and "dead h s \<Longrightarrow> dead h s'" and "dead h s \<Longrightarrow> fire_times h f = []"
proof -
  have k: "kept (fst h) s s' \<or> \<not> te_active (ts_entries s (fst h)) \<and> te_gen (ts_entries s' (fst h)) = te_gen (ts_entries s (fst h))"
  proof (cases op)
    case (ArmTimer d p)
    then have r: "ts_arm d p s = (fst (ts_arm d p s), s')" using assms(2) by (cases "ts_arm d p s") (auto simp: ts_apply_def)
    have gn: "snd (fst (ts_arm d p s)) = te_gen (ts_entries s (fst (fst (ts_arm d p s))))"
      by (auto simp: ts_arm_def pool_acquire_def pool_grow_def Let_def)
    show ?thesis using ts_arm_inv(5,7) [OF assms(1) r] gn
      by (cases "fst h = fst (fst (ts_arm d p s))") (simp_all add: kept_def)
  next
    case PopDue
    then show ?thesis using assms ts_pop_inv(4) [OF assms(1)] by (auto simp: ts_apply_def kept_def split: if_splits)
  next
    case FinishStep
    then show ?thesis using assms(2) kept_finish by (auto simp: ts_apply_def)
  next
    case (CancelTimer h')
    then have "s' = ts_cancel h' s" using assms(2) by (simp add: ts_apply_def)
    then have "kept (fst h) s s'"
      by (cases "te_active (ts_entries s (fst h')) \<and> te_gen (ts_entries s (fst h')) = snd h'")
        (simp_all add: ts_cancel_def kept_def)
    then show ?thesis by blast
  qed
  then show "issued h s \<Longrightarrow> issued h s'" "dead h s \<Longrightarrow> dead h s'"
    using kept_issued [of h s s'] kept_dead [of h s s'] by (auto simp: issued_def dead_def)
  show "fire_times h f = []" if d: "dead h s"
  proof (cases "op = PopDue \<and> ts_batch s = []")
    case True
    have "\<not> te_cancelled (ts_entries s e)" if "e \<in> set (ts_live (ts_pop s))" for e
      using that by (auto simp: ts_live_def ts_pop_def split: prod.splits)
    then have "(e, te_gen (ts_entries s e)) \<noteq> h" if "e \<in> set (ts_live (ts_pop s))" for e
      using that d by (auto simp: dead_def)
    then have "\<forall>x\<in>set (map (\<lambda>e. ((e, te_gen (ts_entries s e)), tw_now (ts_wheel s))) (ts_live (ts_pop s))). fst x \<noteq> h"
      by simp
    moreover have "fst (ts_apply op s) = map (\<lambda>e. ((e, te_gen (ts_entries s e)), tw_now (ts_wheel s))) (ts_live (ts_pop s))"
      using True by (simp add: ts_apply_def)
    ultimately have "\<forall>x\<in>set f. fst x \<noteq> h" using assms(2) by simp
    then show ?thesis by (simp add: fire_times_def filter_empty_conv)
  next
    case False
    with assms(2) show ?thesis by (auto simp: ts_apply_def split: ts_op.splits if_splits)
  qed
qed

lemma ts_run_keeps:
  assumes "ts_inv s" and "ts_run ops s = (fs, s')"
  shows "issued h s \<Longrightarrow> issued h s'" and "dead h s \<Longrightarrow> fire_times h fs = []"
  using assms
proof (induction ops arbitrary: s fs)
  case Nil
  { case 1 then show ?case by simp next case 2 then show ?case by simp }
next
  case (Cons op ops)
  have *: "\<exists>f s1 fs1. ts_apply op s = (f, s1) \<and> ts_run ops s1 = (fs1, s') \<and> fs = f @ fs1"
    if "ts_run (op # ops) s = (fs, s')" for s fs
    using that by (auto split: prod.splits)
  { case 1
    with * obtain f s1 fs1 where a: "ts_apply op s = (f, s1)" "ts_run ops s1 = (fs1, s')" by blast
    with Cons.IH(1) [OF ts_apply_keeps(1) [OF 1(2) a(1)] ts_apply_inv [OF 1(2) a(1)] a(2)] 1 show ?case by blast
  next
    case 2
    with * obtain f s1 fs1 where a: "ts_apply op s = (f, s1)" "ts_run ops s1 = (fs1, s')" "fs = f @ fs1" by blast
    with Cons.IH(2) [OF ts_apply_keeps(2) [OF 2(2) a(1)] ts_apply_inv [OF 2(2) a(1)] a(2)]
      ts_apply_keeps(3) [OF 2(2) a(1)] 2 show ?case by simp
  }
qed

text \<open>
  Cancellation is effective and never hits a stranger: once \<open>cancel\<close> has run on a handle
  that \<open>schedule_after\<close> or \<open>schedule_every\<close> returned, no later history of scheduling, ticking and
  cancelling pops that timer to be fired, whatever happened in between and even if the pooled entry is
  reused for newer timers; and the cancellation leaves every other live timer untouched.
\<close>

theorem cancel_is_effective:
  assumes "ts_run ops0 (ts_init tick_ns chunk) = (fs0, s0)" and "ts_arm delay period s0 = (h, s1)"
    and "ts_run ops1 s1 = (fs1, s2)" and "ts_run ops2 (ts_cancel h s2) = (fs2, s3)"
  shows "fire_times h fs2 = [] \<and> (\<forall>e. (e, te_gen (ts_entries s2 e)) \<noteq> h \<longrightarrow> ts_entries (ts_cancel h s2) e = ts_entries s2 e)"
proof -
  have i0: "ts_inv s0" by (rule ts_run_inv [OF ts_init_inv assms(1)])
  have i1: "ts_inv s1" by (rule ts_arm_inv(1) [OF i0 assms(2)])
  have "issued h s1" using ts_arm_inv(7) [OF i0 assms(2)] by (simp add: issued_def)
  with ts_run_keeps(1) [OF i1 assms(3)] have is2: "issued h s2" .
  then have "dead h (ts_cancel h s2)" by (auto simp: issued_def dead_def ts_cancel_def Let_def)
  with ts_run_keeps(2) [OF ts_cancel_inv [OF ts_run_inv [OF i1 assms(3)]] assms(4)]
  have "fire_times h fs2 = []" .
  moreover have "ts_entries (ts_cancel h s2) e = ts_entries s2 e"
    if "(e, te_gen (ts_entries s2 e)) \<noteq> h" for e
    using that by (cases h) (auto simp: ts_cancel_def Let_def)
  ultimately show ?thesis by blast
qed


lemma cancel_is_effective_witness:
  "let s1 = snd (ts_arm 1 0 (ts_init 1 4)); s2 = snd (ts_run [PopDue, FinishStep] s1)
   in fire_times (3, 0) (fst (ts_run [PopDue, FinishStep, PopDue] (ts_cancel (3, 0) s2))) = []"
proof -
  let ?s0 = "ts_init 1 4"
  have "fst (ts_arm 1 0 ?s0) = (3, 0)"
    by (simp add: ts_arm_def pool_acquire_def pool_grow_def ts_init_def upt_rec numeral_eq_Suc Let_def)
  then have h: "ts_arm 1 0 ?s0 = ((3, 0), snd (ts_arm 1 0 ?s0))" by (metis prod.collapse)
  show ?thesis
    using cancel_is_effective [of "[]" 1 4 "[]" ?s0, OF _ h prod.collapse [symmetric] prod.collapse [symmetric]]
    by (simp add: Let_def del: ts_run.simps(2))
qed

section \<open>Firing instants\<close>

text \<open>What the finish loop does to an entry it does not handle, and to a live periodic one.\<close>

lemma finish_loop_frame:
  assumes "e \<notin> set (map fst ds)" and "wheel_ok (ts_wheel s)" and "finish_loop ds late s = (late', s')"
  shows "ts_entries s' e = ts_entries s e \<and> wheel_ok (ts_wheel s') \<and> (e \<in> set late' \<longrightarrow> e \<in> set late) \<and>
         (p \<in># sched (ts_wheel s) \<longrightarrow> p \<in># sched (ts_wheel s')) \<and> tw_now (ts_wheel s') = tw_now (ts_wheel s)"
  using assms
proof (induction ds late s rule: finish_loop.induct)
  case (2 x live ds late s)
  let ?t = "ts_entries s x" and ?s = "upd_entry x (\<lambda>t. t\<lparr> te_expiry := te_expiry t + te_period t \<rparr>) s"
  let ?w = "tw_insert (x, te_expiry ?t + te_period ?t) (ts_wheel ?s)"
  note w = wheel.ins_ok [OF 2(5)] wheel.ins_now [OF 2(5)] wheel.ins_due [OF 2(5)]
  consider (release) "\<not> live \<or> te_period ?t = 0" | (late) "live" "te_period ?t \<noteq> 0" "te_cancelled ?t"
    | (rearm) "live" "te_period ?t \<noteq> 0" "\<not> te_cancelled ?t" by blast
  then show ?case
  proof cases
    case release
    then have "finish_loop ds late (pool_release x s) = (late', s')" using 2(6) by (simp add: Let_def)
    with 2(1) [OF refl] release 2(4,5) show ?thesis by (simp add: pool_release_def)
  next
    case late
    then have "finish_loop ds (late @ [x]) s = (late', s')" using 2(6) by (simp add: Let_def)
    with 2(2) [OF refl] late 2(4,5) show ?thesis by simp
  next
    case rearm
    then have "finish_loop ds late (?s\<lparr> ts_wheel := ?w \<rparr>) = (late', s')" using 2(6) by (simp add: Let_def)
    with 2(3) [OF refl _ _ refl] rearm 2(4,5) w show ?thesis by simp
  qed
qed simp

lemma finish_loop_rearms:
  assumes "wheel_ok (ts_wheel s)" and "distinct (map fst ds)" and "(e, True) \<in> set ds" and "e \<notin> set late"
    and "te_period (ts_entries s e) \<noteq> 0" and "\<not> te_cancelled (ts_entries s e)"
    and "tw_now (ts_wheel s) \<le> te_expiry (ts_entries s e) + te_period (ts_entries s e)"
    and "finish_loop ds late s = (late', s')"
  shows "ts_entries s' e = (ts_entries s e)\<lparr> te_expiry := te_expiry (ts_entries s e) + te_period (ts_entries s e) \<rparr> \<and>
         (e, te_expiry (ts_entries s e) + te_period (ts_entries s e)) \<in># sched (ts_wheel s') \<and> e \<notin> set late' \<and>
         tw_now (ts_wheel s') = tw_now (ts_wheel s)"
  using assms
proof (induction ds late s rule: finish_loop.induct)
  case (2 x live ds late s)
  let ?t = "ts_entries s x" and ?s = "upd_entry x (\<lambda>t. t\<lparr> te_expiry := te_expiry t + te_period t \<rparr>) s"
  let ?w = "tw_insert (x, te_expiry ?t + te_period ?t) (ts_wheel ?s)"
  note w = wheel.ins_ok [OF 2(4)] wheel.ins_now [OF 2(4)] wheel.ins_due [OF 2(4)]
  show ?case
  proof (cases "x = e")
    case True
    then have l: "live" using 2(5,6) by (force simp: image_iff)
    then have f: "finish_loop ds late (?s\<lparr> ts_wheel := ?w \<rparr>) = (late', s')"
      using 2(8,9,11) True by (simp add: Let_def)
    have n: "e \<notin> set (map fst ds)" using 2(5) True by simp
    have m: "(e, te_expiry ?t + te_period ?t) \<in># sched ?w" using w(3) 2(10) True by (simp add: max_def)
    from finish_loop_frame [OF n _ f, where p = "(e, te_expiry ?t + te_period ?t)"] w(1,2) m 2(7) True
    show ?thesis by auto
  next
    case ne: False
    then have e: "(e, True) \<in> set ds" "distinct (map fst ds)" using 2(5,6) by auto
    consider (release) "\<not> live \<or> te_period ?t = 0" | (late) "live" "te_period ?t \<noteq> 0" "te_cancelled ?t"
      | (rearm) "live" "te_period ?t \<noteq> 0" "\<not> te_cancelled ?t" by blast
    then show ?thesis
    proof cases
      case release
      then have f: "finish_loop ds late (pool_release x s) = (late', s')" using 2(11) by (simp add: Let_def)
      show ?thesis using 2(1) [OF refl release _ e(2,1) 2(7) _ _ _ f] 2(4,8-10) ne by (simp add: pool_release_def)
    next
      case late
      then have f: "finish_loop ds (late @ [x]) s = (late', s')" using 2(11) by (simp add: Let_def)
      show ?thesis using 2(2) [OF refl _ late(3) 2(4) e(2,1) _ 2(8-10) f] late 2(7) ne by simp
    next
      case rearm
      then have f: "finish_loop ds late (?s\<lparr> ts_wheel := ?w \<rparr>) = (late', s')" using 2(11) by (simp add: Let_def)
      show ?thesis using 2(3) [OF refl _ _ refl _ e(2,1) 2(7) _ _ _ f] rearm 2(4,8-10) w ne by simp
    qed
  qed
qed simp


lemma finish_loop_outdates:
  assumes "(e, b) \<in> set ds" and "te_period (ts_entries s e) = 0" and "finish_loop ds late s = (late', s')"
  shows "te_gen (ts_entries s e) < te_gen (ts_entries s' e)"
  using assms
proof (induction ds late s rule: finish_loop.induct)
  case (2 x live ds late s)
  let ?t = "ts_entries s x" and ?s = "upd_entry x (\<lambda>t. t\<lparr> te_expiry := te_expiry t + te_period t \<rparr>) s"
  let ?w = "tw_insert (x, te_expiry ?t + te_period ?t) (ts_wheel ?s)"
  show ?case
  proof (cases "x = e")
    case True
    then have "finish_loop ds late (pool_release e s) = (late', s')" using 2(5,6) by (simp add: Let_def)
    from kept_finish_loop [OF this, of e] show ?thesis by (auto simp: kept_def pool_release_def)
  next
    case ne: False
    then have e: "(e, b) \<in> set ds" using 2(4) by auto
    consider (release) "\<not> live \<or> te_period ?t = 0" | (late) "live" "te_period ?t \<noteq> 0" "te_cancelled ?t"
      | (rearm) "live" "te_period ?t \<noteq> 0" "\<not> te_cancelled ?t" by blast
    then show ?thesis
    proof cases
      case release
      then have f: "finish_loop ds late (pool_release x s) = (late', s')" using 2(6) by (simp add: Let_def)
      show ?thesis using 2(1) [OF refl release e _ f] 2(5) ne by (simp add: pool_release_def)
    next
      case late
      then have f: "finish_loop ds (late @ [x]) s = (late', s')" using 2(6) by (simp add: Let_def)
      show ?thesis using 2(2) [OF refl _ late(3) e 2(5) f] late by simp
    next
      case rearm
      then have f: "finish_loop ds late (?s\<lparr> ts_wheel := ?w \<rparr>) = (late', s')" using 2(6) by (simp add: Let_def)
      show ?thesis using 2(3) [OF refl _ _ refl e _ f] rearm 2(5) ne by simp
    qed
  qed
qed simp

lemma foldl_release_frame:
  "e \<notin> set late \<Longrightarrow> ts_entries (foldl (\<lambda>s e. pool_release e s) s late) e = ts_entries s e"
  "ts_wheel (foldl (\<lambda>s e. pool_release e s) s late) = ts_wheel s"
  by (induction late arbitrary: s) (simp_all add: pool_release_def)

lemma ts_finish_frame:
  assumes "ts_inv s" and "e \<notin> set (map fst (ts_batch s))"
  shows "ts_entries (ts_finish s) e = ts_entries s e" and "p \<in># sched (ts_wheel s) \<Longrightarrow> p \<in># sched (ts_wheel (ts_finish s))"
proof -
  obtain late s1 where f: "finish_loop (ts_batch s) [] s = (late, s1)" by force
  have ok: "wheel_ok (ts_wheel s)" using assms(1) by (simp add: ts_inv_def entry_ok_def)
  note r = finish_loop_frame [OF assms(2) ok f]
  have el: "e \<notin> set late" using r by auto
  have eq: "ts_finish s = (foldl (\<lambda>s e. pool_release e s) s1 late)\<lparr> ts_batch := [] \<rparr>" by (simp add: ts_finish_def f)
  show "ts_entries (ts_finish s) e = ts_entries s e"
    using r foldl_release_frame(1) [OF el, of s1] by (simp add: eq)
  show "p \<in># sched (ts_wheel s) \<Longrightarrow> p \<in># sched (ts_wheel (ts_finish s))"
    using r by (simp add: eq foldl_release_frame(2))
qed

lemma ts_finish_now:
  assumes "ts_inv s"
  shows "tw_now (ts_wheel (ts_finish s)) = tw_now (ts_wheel s)"
proof -
  obtain e where "e \<notin> set (map fst (ts_batch s))" by (meson ex_new_if_finite finite_set infinite_UNIV_nat)
  obtain late s1 where f: "finish_loop (ts_batch s) [] s = (late, s1)" by force
  have ok: "wheel_ok (ts_wheel s)" using assms(1) by (simp add: ts_inv_def entry_ok_def)
  from finish_loop_frame [OF \<open>e \<notin> _\<close> ok f] show ?thesis
    by (simp add: ts_finish_def f foldl_release_frame(2))
qed

lemma ts_finish_flight:
  assumes inv: "ts_inv s" and e: "(e, True) \<in> set (ts_batch s)" and nc: "\<not> te_cancelled (ts_entries s e)"
  shows "te_period (ts_entries s e) = 0 \<Longrightarrow> te_gen (ts_entries s e) < te_gen (ts_entries (ts_finish s) e)"
    and "te_period (ts_entries s e) \<noteq> 0 \<Longrightarrow>
      ts_entries (ts_finish s) e = (ts_entries s e)\<lparr> te_expiry := te_expiry (ts_entries s e) + te_period (ts_entries s e) \<rparr> \<and>
      (e, te_expiry (ts_entries s e) + te_period (ts_entries s e)) \<in># sched (ts_wheel (ts_finish s))"
proof -
  obtain late s1 where f: "finish_loop (ts_batch s) [] s = (late, s1)" by force
  have ok: "wheel_ok (ts_wheel s)" "owned (map fst (ts_batch s)) s" "in_flight (map fst (ts_batch s)) s"
    using inv by (auto simp: ts_inv_def entry_ok_def)
  have eq: "ts_finish s = (foldl (\<lambda>s e. pool_release e s) s1 late)\<lparr> ts_batch := [] \<rparr>" by (simp add: ts_finish_def f)
  show "te_gen (ts_entries s e) < te_gen (ts_entries (ts_finish s) e)" if "te_period (ts_entries s e) = 0"
  proof -
    have "kept e s1 (foldl (\<lambda>s e. pool_release e s) s1 late)"
      by (induction late arbitrary: s1) (auto intro: kept_trans kept_release)
    with finish_loop_outdates [OF e that f] show ?thesis by (auto simp: eq kept_def)
  qed
  assume p: "te_period (ts_entries s e) \<noteq> 0"
  have x: "Suc (te_expiry (ts_entries s e)) = tw_now (ts_wheel s)" using ok(3) e by (force simp: in_flight_def)
  have le: "tw_now (ts_wheel s) \<le> te_expiry (ts_entries s e) + te_period (ts_entries s e)" using p x by linarith
  from finish_loop_rearms [OF ok(1) owned_distinct(4) [OF ok(2)] e _ p nc le f]
  have r: "ts_entries s1 e = (ts_entries s e)\<lparr> te_expiry := te_expiry (ts_entries s e) + te_period (ts_entries s e) \<rparr>"
    "(e, te_expiry (ts_entries s e) + te_period (ts_entries s e)) \<in># sched (ts_wheel s1)" "e \<notin> set late" by simp_all
  then show "ts_entries (ts_finish s) e = (ts_entries s e)\<lparr> te_expiry := te_expiry (ts_entries s e) + te_period (ts_entries s e) \<rparr> \<and>
      (e, te_expiry (ts_entries s e) + te_period (ts_entries s e)) \<in># sched (ts_wheel (ts_finish s))"
    using foldl_release_frame(1) [OF r(3), of s1] by (simp add: eq foldl_release_frame(2))
qed


definition due_at :: "nat \<Rightarrow> nat \<Rightarrow> nat \<Rightarrow> bool" where
  "due_at p x t \<longleftrightarrow> x \<le> t \<and> (if p = 0 then t = x else p dvd t - x)"

lemma due_at_self: "due_at p x x"
  by (simp add: due_at_def)

lemma due_at_next:
  assumes "due_at p x y" and "p \<noteq> 0"
  shows "due_at p x (y + p)" and "Suc y \<le> u \<Longrightarrow> u < y + p \<Longrightarrow> \<not> due_at p x u"
proof -
  have d: "x \<le> y" "p dvd y - x" using assms by (auto simp: due_at_def)
  from d(2) have "p dvd (y - x) + p" by (rule dvd_add) simp
  moreover have "y + p - x = (y - x) + p" using d(1) by linarith
  ultimately have "p dvd y + p - x" by (simp only:)
  then show "due_at p x (y + p)" using d(1) assms(2) by (simp add: due_at_def)
  show "\<not> due_at p x u" if u: "Suc y \<le> u" "u < y + p"
  proof
    assume "due_at p x u"
    then have "p dvd u - x" using assms(2) by (simp add: due_at_def)
    with d(2) have "p dvd (u - x) - (y - x)" by (rule dvd_diff_nat [rotated])
    then have "p dvd u - y" using d(1) u(1) by simp
    moreover have "0 < u - y" "u - y < p" using u by simp_all
    ultimately show False using dvd_imp_le by fastforce
  qed
qed

text \<open>Where a timer that nobody cancels is: waiting in the wheel, in flight, or fired for good.\<close>

definition tracked :: "nat \<times> nat \<Rightarrow> nat \<Rightarrow> timer_service \<Rightarrow> bool" where
  "tracked h p s \<longleftrightarrow>
     (let t = ts_entries s (fst h) in
      te_gen t = snd h \<and> te_period t = p \<and> te_active t \<and> \<not> te_cancelled t)"

definition waiting :: "nat \<times> nat \<Rightarrow> nat \<Rightarrow> nat \<Rightarrow> timer_service \<Rightarrow> bool" where
  "waiting h p x s \<longleftrightarrow> tracked h p s \<and>
     (let y = te_expiry (ts_entries s (fst h)) in
      (fst h, y) \<in># sched (ts_wheel s) \<and> due_at p x y \<and> (\<forall>u. tw_now (ts_wheel s) \<le> u \<and> u < y \<longrightarrow> \<not> due_at p x u))"

definition flying :: "nat \<times> nat \<Rightarrow> nat \<Rightarrow> nat \<Rightarrow> timer_service \<Rightarrow> bool" where
  "flying h p x s \<longleftrightarrow> tracked h p s \<and> (fst h, True) \<in> set (ts_batch s) \<and>
     due_at p x (te_expiry (ts_entries s (fst h)))"

definition fired_out :: "nat \<times> nat \<Rightarrow> nat \<Rightarrow> nat \<Rightarrow> timer_service \<Rightarrow> bool" where
  "fired_out h p x s \<longleftrightarrow> p = 0 \<and> x < tw_now (ts_wheel s) \<and> snd h < te_gen (ts_entries s (fst h))"

definition on_course :: "nat \<times> nat \<Rightarrow> nat \<Rightarrow> nat \<Rightarrow> timer_service \<Rightarrow> bool" where
  "on_course h p x s \<longleftrightarrow> waiting h p x s \<or> flying h p x s \<or> fired_out h p x s"

lemma fire_times_handles:
  assumes "distinct es"
  shows "fire_times h (map (\<lambda>e. ((e, g e), n)) es) = (if fst h \<in> set es \<and> g (fst h) = snd h then [n] else [])"
  using assms
proof (induction es)
  case (Cons e es)
  then show ?case by (cases h) (auto simp: fire_times_def)
qed simp

lemma on_course_pop:
  assumes inv: "ts_inv s" and oc: "on_course h p x s" and b: "ts_batch s = []"
  shows "on_course h p x (ts_pop s)"
    and "fire_times h (map (\<lambda>e. ((e, te_gen (ts_entries s e)), tw_now (ts_wheel s))) (ts_live (ts_pop s))) =
           (if due_at p x (tw_now (ts_wheel s)) then [tw_now (ts_wheel s)] else [])"
proof -
  let ?n = "tw_now (ts_wheel s)" and ?t = "ts_entries s (fst h)"
  let ?f = "map (\<lambda>e. ((e, te_gen (ts_entries s e)), ?n)) (ts_live (ts_pop s))"
  note P = ts_pop_inv [OF inv b]
  have own: "owned (map fst (ts_batch (ts_pop s))) (ts_pop s)" using P(1) by (simp add: ts_inv_def)
  have tag: "(e, l) \<in> set (ts_batch (ts_pop s)) \<Longrightarrow> l = (\<not> te_cancelled (ts_entries s e))" for e l
    by (auto simp: ts_pop_def split: prod.splits)
  have live: "e \<in> set (ts_live (ts_pop s)) \<longleftrightarrow> (e, True) \<in> set (ts_batch (ts_pop s))" for e
    by (force simp: ts_live_def)
  have "distinct (ts_live (ts_pop s))"
    using owned_distinct(4) [OF own] by (simp add: ts_live_def distinct_map_filter)
  note ft = fire_times_handles [OF this, of h "\<lambda>e. te_gen (ts_entries s e)" ?n]
  have sched_ok: "snd q = te_expiry (ts_entries s (fst q))" "?n \<le> snd q" if "q \<in># sched (ts_wheel s)" for q
    using inv that wheel.due_ge [of "ts_wheel s" q] unfolding ts_inv_def entry_ok_def by blast+
  from oc b consider (w) "waiting h p x s" | (o) "fired_out h p x s" by (auto simp: on_course_def flying_def)
  then have "on_course h p x (ts_pop s) \<and> fire_times h ?f = (if due_at p x ?n then [?n] else [])"
  proof cases
    case w
    let ?y = "te_expiry ?t"
    have tr: "tracked h p s" "tracked h p (ts_pop s)" and m: "(fst h, ?y) \<in># sched (ts_wheel s)"
      and d: "due_at p x ?y" "\<forall>u. ?n \<le> u \<and> u < ?y \<longrightarrow> \<not> due_at p x u"
      using w by (auto simp: waiting_def tracked_def P(4) Let_def)
    show ?thesis
    proof (cases "?y = ?n")
      case True
      have "(fst h, ?n) \<in># filter_mset (\<lambda>q. snd q = ?n) (sched (ts_wheel s))" using m True by simp
      then have "fst (fst h, ?n) \<in># mset (map fst (ts_batch (ts_pop s)))"
        unfolding P(2) by (metis image_eqI set_image_mset)
      then obtain l where "(fst h, l) \<in> set (ts_batch (ts_pop s))" by auto
      with tag [OF this] tr(1) have l: "(fst h, True) \<in> set (ts_batch (ts_pop s))" by (auto simp: tracked_def Let_def)
      then have "flying h p x (ts_pop s)" using tr(2) d(1) by (simp add: flying_def P(4))
      with l tr(1) True d(1) show ?thesis by (simp add: on_course_def ft live tracked_def Let_def)
    next
      case False
      then have lt: "?n < ?y" using sched_ok(2) [OF m] by simp
      have m': "(fst h, ?y) \<in># sched (ts_wheel (ts_pop s))" unfolding P(3) using m False by simp
      have "fst h \<notin> set (map fst (ts_batch (ts_pop s)))" using owned_distinct(1) [OF own armed_mem [OF m']] by simp
      then have "fst h \<notin> set (ts_live (ts_pop s))" by (force simp: live)
      moreover have "waiting h p x (ts_pop s)" using tr(2) m' d by (simp add: waiting_def P(4,6))
      ultimately show ?thesis using d(2) lt by (simp add: on_course_def ft)
    qed
  next
    case o
    then have "fired_out h p x (ts_pop s)" by (simp add: fired_out_def P(4,6))
    with o show ?thesis by (simp add: on_course_def ft fired_out_def due_at_def)
  qed
  then show "on_course h p x (ts_pop s)" "fire_times h ?f = (if due_at p x ?n then [?n] else [])" by blast+
qed

lemma on_course_finish:
  assumes inv: "ts_inv s" and oc: "on_course h p x s"
  shows "on_course h p x (ts_finish s)"
proof -
  let ?t = "ts_entries s (fst h)"
  have own: "owned (map fst (ts_batch s)) s" "in_flight (map fst (ts_batch s)) s" using inv by (auto simp: ts_inv_def)
  note nw = ts_finish_now [OF inv]
  from oc consider (w) "waiting h p x s" | (f) "flying h p x s" | (o) "fired_out h p x s" by (auto simp: on_course_def)
  then show ?thesis
  proof cases
    case w
    then have m: "(fst h, te_expiry ?t) \<in># sched (ts_wheel s)" by (simp add: waiting_def Let_def)
    have "fst h \<notin> set (map fst (ts_batch s))" using owned_distinct(1) [OF own(1) armed_mem [OF m]] by simp
    from ts_finish_frame [OF inv this] w m nw show ?thesis
      by (simp add: on_course_def waiting_def tracked_def Let_def)
  next
    case f
    then have tr: "tracked h p s" and e: "(fst h, True) \<in> set (ts_batch s)" and d: "due_at p x (te_expiry ?t)"
      by (simp_all add: flying_def)
    have nc: "\<not> te_cancelled ?t" and pe: "te_period ?t = p" using tr by (simp_all add: tracked_def Let_def)
    have y: "Suc (te_expiry ?t) = tw_now (ts_wheel s)" using own(2) e by (force simp: in_flight_def)
    show ?thesis
    proof (cases "p = 0")
      case True
      then have "fired_out h p x (ts_finish s)"
        using ts_finish_flight(1) [OF inv e nc] pe tr d y nw
        by (simp add: fired_out_def tracked_def due_at_def Let_def)
      then show ?thesis by (simp add: on_course_def)
    next
      case False
      from ts_finish_flight(2) [OF inv e nc] pe False have
        r: "ts_entries (ts_finish s) (fst h) = ?t\<lparr> te_expiry := te_expiry ?t + p \<rparr>"
           "(fst h, te_expiry ?t + p) \<in># sched (ts_wheel (ts_finish s))" by simp_all
      have "waiting h p x (ts_finish s)"
        using tr r due_at_next [OF d False] nw y by (simp add: waiting_def tracked_def Let_def)
      then show ?thesis by (simp add: on_course_def)
    qed
  next
    case o
    then have "fired_out h p x (ts_finish s)"
      using kept_finish [of "fst h" s] nw by (auto simp: fired_out_def kept_def)
    then show ?thesis by (simp add: on_course_def)
  qed
qed

lemma on_course_arm:
  assumes inv: "ts_inv s" and oc: "on_course h p x s" and a: "ts_arm d q s = (h', s')"
  shows "on_course h p x s'"
proof -
  note A = ts_arm_inv [OF inv a]
  have gn: "snd h' = te_gen (ts_entries s (fst h'))"
    using a by (auto simp: ts_arm_def pool_acquire_def pool_grow_def Let_def)
  have tr: "tracked h p s \<Longrightarrow> fst h \<noteq> fst h'" using A(5) by (auto simp: tracked_def Let_def)
  from oc consider (w) "waiting h p x s" | (f) "flying h p x s" | (o) "fired_out h p x s" by (auto simp: on_course_def)
  then show ?thesis
  proof cases
    case w
    then have "waiting h p x s'" using tr A(2,4,7) by (auto simp: waiting_def tracked_def Let_def)
    then show ?thesis by (simp add: on_course_def)
  next
    case f
    then have "flying h p x s'" using tr A(3,7) by (auto simp: flying_def tracked_def Let_def)
    then show ?thesis by (simp add: on_course_def)
  next
    case o
    then have "fired_out h p x s'" using gn A(4,7) by (auto simp: fired_out_def)
    then show ?thesis by (simp add: on_course_def)
  qed
qed

lemma on_course_cancel:
  assumes "on_course h p x s" and "h' \<noteq> h"
  shows "on_course h p x (ts_cancel h' s)"
proof -
  have tr: "ts_entries (ts_cancel h' s) (fst h) = ts_entries s (fst h)" if "te_gen (ts_entries s (fst h)) = snd h"
    using assms(2) that by (cases h, cases h') (auto simp: ts_cancel_def Let_def)
  have fr: "ts_wheel (ts_cancel h' s) = ts_wheel s" "ts_batch (ts_cancel h' s) = ts_batch s"
    "te_gen (ts_entries (ts_cancel h' s) e) = te_gen (ts_entries s e)" for e
    by (simp_all add: ts_cancel_def Let_def)
  from assms(1) consider (w) "waiting h p x s" | (f) "flying h p x s" | (o) "fired_out h p x s" by (auto simp: on_course_def)
  then show ?thesis
  proof cases
    case w
    then have "waiting h p x (ts_cancel h' s)" using tr fr by (simp add: waiting_def tracked_def Let_def)
    then show ?thesis by (simp add: on_course_def)
  next
    case f
    then have "flying h p x (ts_cancel h' s)" using tr fr by (simp add: flying_def tracked_def Let_def)
    then show ?thesis by (simp add: on_course_def)
  next
    case o
    then show ?thesis using fr by (simp add: on_course_def fired_out_def)
  qed
qed

lemma on_course_apply:
  assumes inv: "ts_inv s" and oc: "on_course h p x s" and a: "ts_apply op s = (f, s')" and nc: "op \<noteq> CancelTimer h"
  shows "on_course h p x s' \<and> tw_now (ts_wheel s) \<le> tw_now (ts_wheel s') \<and>
         fire_times h f = filter (due_at p x) [tw_now (ts_wheel s)..<tw_now (ts_wheel s')]"
proof (cases op)
  case (ArmTimer d q)
  obtain h' s1 where r: "ts_arm d q s = (h', s1)" by (cases "ts_arm d q s")
  with ArmTimer a have "s' = s1" "f = []" by (auto simp: ts_apply_def)
  with on_course_arm [OF inv oc r] ts_arm_inv(4) [OF inv r] show ?thesis by simp
next
  case PopDue
  show ?thesis
  proof (cases "ts_batch s = []")
    case True
    with PopDue a have s': "s' = ts_pop s"
      and f: "f = map (\<lambda>e. ((e, te_gen (ts_entries s e)), tw_now (ts_wheel s))) (ts_live (ts_pop s))"
      by (auto simp: ts_apply_def)
    show ?thesis
      using on_course_pop [OF inv oc True] ts_pop_inv(6) [OF inv True] unfolding f s' by simp
  next
    case False
    with PopDue a oc show ?thesis by (auto simp: ts_apply_def)
  qed
next
  case FinishStep
  with a on_course_finish [OF inv oc] ts_finish_now [OF inv] show ?thesis by (auto simp: ts_apply_def)
next
  case (CancelTimer h')
  with a have "s' = ts_cancel h' s" "f = []" by (auto simp: ts_apply_def)
  moreover have "tw_now (ts_wheel (ts_cancel h' s)) = tw_now (ts_wheel s)" by (simp add: ts_cancel_def Let_def)
  moreover have "h' \<noteq> h" using nc CancelTimer by simp
  ultimately show ?thesis using on_course_cancel [OF oc] by simp
qed

lemma on_course_run:
  assumes "ts_inv s" and "on_course h p x s" and "ts_run ops s = (fs, s')" and "CancelTimer h \<notin> set ops"
  shows "tw_now (ts_wheel s) \<le> tw_now (ts_wheel s') \<and>
         fire_times h fs = filter (due_at p x) [tw_now (ts_wheel s)..<tw_now (ts_wheel s')]"
  using assms
proof (induction ops arbitrary: s fs)
  case (Cons op ops)
  obtain f s1 where a: "ts_apply op s = (f, s1)" by force
  obtain fs1 where r: "ts_run ops s1 = (fs1, s')" "fs = f @ fs1" using Cons.prems(3) a by (auto split: prod.splits)
  have st: "on_course h p x s1" "tw_now (ts_wheel s) \<le> tw_now (ts_wheel s1)"
    "fire_times h f = filter (due_at p x) [tw_now (ts_wheel s)..<tw_now (ts_wheel s1)]"
    using on_course_apply [OF Cons.prems(1,2) a] Cons.prems(4) by auto
  have ih: "tw_now (ts_wheel s1) \<le> tw_now (ts_wheel s')"
    "fire_times h fs1 = filter (due_at p x) [tw_now (ts_wheel s1)..<tw_now (ts_wheel s')]"
    using Cons.IH [OF ts_apply_inv [OF Cons.prems(1) a] st(1) r(1)] Cons.prems(4) by auto
  have "[tw_now (ts_wheel s)..<tw_now (ts_wheel s')] =
      [tw_now (ts_wheel s)..<tw_now (ts_wheel s1)] @ [tw_now (ts_wheel s1)..<tw_now (ts_wheel s')]"
    using upt_add_eq_append [OF st(2), of "tw_now (ts_wheel s') - tw_now (ts_wheel s1)"] ih(1) by simp
  with st ih show ?case by (simp add: r(2))
qed simp

text \<open>
  Timers fire exactly when they should: a timer armed with some delay and period and never
  cancelled is handed to its target at the tick \<open>now + ceil(delay)\<close> and, if periodic, at every
  whole period after it: at each of these ticks that have passed, once, in order, and at no other, whatever
  else is scheduled, cancelled, recycled or re-armed meanwhile, however the wheel cascades, and whatever
  user code does during the fire phases.
\<close>

theorem timer_fires_exactly:
  assumes "ts_run ops0 (ts_init tick_ns chunk) = (fs0, s0)" and "ts_arm delay period s0 = (h, s1)"
    and "ts_run ops s1 = (fs, s2)" and "CancelTimer h \<notin> set ops"
  shows "fire_times h fs =
           filter (due_at (if 0 < period then ticks_ceil (ts_tick_ns s0) period else 0)
                     (tw_now (ts_wheel s0) + ticks_ceil (ts_tick_ns s0) delay))
             [tw_now (ts_wheel s0)..<tw_now (ts_wheel s2)]"
proof -
  let ?p = "if 0 < period then ticks_ceil (ts_tick_ns s0) period else 0"
  let ?x = "tw_now (ts_wheel s0) + ticks_ceil (ts_tick_ns s0) delay"
  have i0: "ts_inv s0" by (rule ts_run_inv [OF ts_init_inv assms(1)])
  note A = ts_arm_inv [OF i0 assms(2)]
  have "waiting h ?p ?x s1"
    using A(2,7) by (auto simp: waiting_def tracked_def Let_def due_at_self) (auto simp: due_at_def)
  then have "on_course h ?p ?x s1" by (simp add: on_course_def)
  from on_course_run [OF A(1) this assms(3,4)] A(4) show ?thesis by simp
qed

theorem timer_fires_exactly_witness:
  "let s1 = snd (ts_arm 1 1 (ts_init 1 4)); (fs, s2) = ts_run [PopDue, FinishStep, CancelTimer (2, 0), PopDue] s1
   in fire_times (3, 0) fs = filter (due_at 1 1) [0..<tw_now (ts_wheel s2)]"
proof -
  let ?s0 = "ts_init 1 4" and ?ops = "[PopDue, FinishStep, CancelTimer (2, 0), PopDue]"
  have "fst (ts_arm 1 1 ?s0) = (3, 0)"
    by (simp add: ts_arm_def pool_acquire_def pool_grow_def ts_init_def upt_rec numeral_eq_Suc Let_def)
  then have h: "ts_arm 1 1 ?s0 = ((3, 0), snd (ts_arm 1 1 ?s0))" by (metis prod.collapse)
  have n: "ticks_ceil (ts_tick_ns ?s0) 1 = 1" "tw_now (ts_wheel ?s0) = 0" by code_simp+
  obtain fs s2 where r: "ts_run ?ops (snd (ts_arm 1 1 ?s0)) = (fs, s2)" by (rule prod.exhaust)
  have "ts_run [] ?s0 = ([], ?s0)" by simp
  from timer_fires_exactly [OF this h r] n have
    "fire_times (3, 0) fs = filter (due_at 1 1) [0..<tw_now (ts_wheel s2)]" by simp
  then show ?thesis unfolding Let_def r prod.case .
qed

text \<open>
  The fencepost of a short delay: a timer whose delay rounds up to one tick (a sub-tick delay
  or a zero one) does not fire on the next tick the service processes but on the one after it.
\<close>

theorem sub_tick_delay_fires_on_second_tick:
  assumes "ts_run ops0 (ts_init tick_ns chunk) = (fs0, s0)" and "ts_batch s0 = []"
    and "ts_arm delay 0 s0 = (h, s1)" and "ticks_ceil (ts_tick_ns s0) delay = 1"
  shows "fire_times h (fst (ts_run [PopDue, FinishStep] s1)) = [] \<and>
         fire_times h (fst (ts_run [PopDue, FinishStep, PopDue, FinishStep] s1)) = [Suc (tw_now (ts_wheel s0))]"
proof -
  have i0: "ts_inv s0" by (rule ts_run_inv [OF ts_init_inv assms(1)])
  let ?n = "tw_now (ts_wheel s0)"
  have i1: "ts_inv s1" "ts_batch s1 = []" "tw_now (ts_wheel s1) = ?n"
    using ts_arm_inv(1,3,4) [OF i0 assms(3)] assms(2) by simp_all
  have tick: "snd (ts_run (PopDue # FinishStep # ops) s) = snd (ts_run ops (ts_finish (ts_pop s))) \<and>
      ts_inv (ts_finish (ts_pop s)) \<and> ts_batch (ts_finish (ts_pop s)) = [] \<and>
      tw_now (ts_wheel (ts_finish (ts_pop s))) = Suc (tw_now (ts_wheel s))"
    if "ts_inv s" "ts_batch s = []" for s ops
    using ts_pop_inv(1,6) [OF that] ts_finish_inv [OF ts_pop_inv(1) [OF that]] ts_finish_now [OF ts_pop_inv(1) [OF that]] that(2)
    by (simp add: ts_apply_def split: prod.splits)
  note t1 = tick [OF i1(1,2)] and t2 = tick [of "ts_finish (ts_pop s1)"]
  have w: "waiting h 0 (Suc ?n) s1"
    using ts_arm_inv(2,7) [OF i0 assms(3)] assms(4)
    by (auto simp: waiting_def tracked_def Let_def due_at_self) (auto simp: due_at_def)
  then have oc: "on_course h 0 (Suc ?n) s1" by (simp add: on_course_def)
  have a: "fire_times h (fst (ts_run [PopDue, FinishStep] s1)) = filter (due_at 0 (Suc ?n)) [?n..<Suc ?n]"
    using on_course_run [OF i1(1) oc prod.collapse [symmetric], of "[PopDue, FinishStep]"] t1 [of "[]"] i1(3) by simp
  have b: "fire_times h (fst (ts_run [PopDue, FinishStep, PopDue, FinishStep] s1)) =
      filter (due_at 0 (Suc ?n)) [?n..<Suc (Suc ?n)]"
    using on_course_run [OF i1(1) oc prod.collapse [symmetric], of "[PopDue, FinishStep, PopDue, FinishStep]"]
      t1 [of "[PopDue, FinishStep]"] t2 [of "[]"] i1(3) by simp
  show ?thesis unfolding a b by (simp add: due_at_def)
qed

theorem sub_tick_delay_fires_on_second_tick_witness:
  "fire_times (3, 0) (fst (ts_run [PopDue, FinishStep, PopDue, FinishStep] (snd (ts_arm 7 0 (ts_init 1000 4))))) = [1]"
proof -
  let ?s0 = "ts_init 1000 4"
  have "fst (ts_arm 7 0 ?s0) = (3, 0)" by code_simp
  then have h: "ts_arm 7 0 ?s0 = ((3, 0), snd (ts_arm 7 0 ?s0))" by (metis prod.collapse)
  have n: "ticks_ceil (ts_tick_ns ?s0) 7 = 1" "tw_now (ts_wheel ?s0) = 0" "ts_batch ?s0 = []" by code_simp+
  have "ts_run [] ?s0 = ([], ?s0)" by simp
  from sub_tick_delay_fires_on_second_tick [OF this n(3) h n(1)] n(2) show ?thesis by simp
qed

end
