(* ===== verification/Store.thy ===== *)
theory Store
  imports Ids "HOL-Library.AList"
begin

text \<open>
  \<open>include/quark/core/persistence.hpp\<close>: the records a store keeps, the fencing token check, backup
  images and the reference adapter \<open>InMemoryStore\<close>.  Every public method runs under one mutex and is one
  function from store to result and store.  The hash table is an association list: its order is the
  iteration order a backup copies.  \<open>table_[id]\<close> inserts a fresh entry when the actor is unknown, also on
  the paths that then fail; the contract \<open>store_seam\<close> reads a store through \<open>entry_of\<close>, for which an
  absent entry and a fresh one are the same.
\<close>

section \<open>Records\<close>

record snapshot_record =
  snap_fence :: fence_token
  through_seq :: u64
  snap_bytes :: bytes

record event_record =
  ev_seq :: u64
  ev_bytes :: bytes

record store_entry =
  se_owner :: fence_token
  se_last_seq :: u64
  se_snapshot :: "snapshot_record option"
  se_log :: "event_record list"

type_synonym mem_store = "(actor_id \<times> store_entry) list"

definition fresh_entry :: store_entry where
  "fresh_entry = \<lparr> se_owner = FenceToken 0, se_last_seq = 0, se_snapshot = None, se_log = [] \<rparr>"

definition is_unfenced :: "fence_token \<Rightarrow> bool" where
  "is_unfenced t \<longleftrightarrow> token_value t = 0"

definition fenced_error :: "'a result" where
  "fenced_error = fail Unavailable ''fenced: write from a superseded (stale-token) writer''"

definition entry_of :: "actor_id \<Rightarrow> mem_store \<Rightarrow> store_entry" where
  "entry_of k s = (case map_of s k of None \<Rightarrow> fresh_entry | Some e \<Rightarrow> e)"

definition put_entry :: "actor_id \<Rightarrow> store_entry \<Rightarrow> mem_store \<Rightarrow> mem_store" where
  "put_entry k e s = AList.update k e s"

definition fenced_out :: "fence_token \<Rightarrow> store_entry \<Rightarrow> bool" where
  "fenced_out tok e \<longleftrightarrow> is_unfenced tok \<or> tok < se_owner e"

section \<open>The operations of \<open>InMemoryStore\<close>\<close>

definition acquire_fence :: "actor_id \<Rightarrow> mem_store \<Rightarrow> fence_token result \<times> mem_store" where
  "acquire_fence k s =
     (let e = entry_of k s; t = FenceToken (token_value (se_owner e) + 1)
      in (Inr t, put_entry k (e\<lparr> se_owner := t \<rparr>) s))"

definition last_seq :: "actor_id \<Rightarrow> mem_store \<Rightarrow> u64" where
  "last_seq k s = (case map_of s k of None \<Rightarrow> 0 | Some e \<Rightarrow> se_last_seq e)"

definition load_snapshot :: "actor_id \<Rightarrow> mem_store \<Rightarrow> snapshot_record option result" where
  "load_snapshot k s = (case map_of s k of None \<Rightarrow> Inr None | Some e \<Rightarrow> Inr (se_snapshot e))"

definition save_snapshot ::
  "actor_id \<Rightarrow> fence_token \<Rightarrow> snapshot_record \<Rightarrow> mem_store \<Rightarrow> unit result \<times> mem_store" where
  "save_snapshot k tok snap s0 =
     (let e = entry_of k s0; s = put_entry k e s0 in
      if fenced_out tok e then (fenced_error, s)
      else if (case se_snapshot e of None \<Rightarrow> False | Some sn \<Rightarrow> through_seq snap < through_seq sn)
        then (fail Internal ''stale snapshot: through_seq older than the stored snapshot'', s)
      else if se_last_seq e < through_seq snap
        then (fail Internal ''snapshot through_seq ahead of the appended tail'', s)
      else (Inr (), put_entry k (e\<lparr> se_snapshot := Some (snap\<lparr> snap_fence := tok \<rparr>) \<rparr>) s))"

definition append_record :: "actor_id \<Rightarrow> fence_token \<Rightarrow> u64 \<Rightarrow> bytes \<Rightarrow> mem_store \<Rightarrow> unit result \<times> mem_store" where
  "append_record k tok q bs s0 =
     (let e = entry_of k s0; s = put_entry k e s0 in
      if fenced_out tok e then (fenced_error, s)
      else if q \<le> se_last_seq e then (fail Internal ''commit sequence not strictly increasing'', s)
      else (Inr (), put_entry k (e\<lparr> se_log := se_log e @ [\<lparr> ev_seq = q, ev_bytes = bs \<rparr>], se_last_seq := q \<rparr>) s))"

text \<open>The validation loop: the last sequence number of the batch, unless one does not advance.\<close>

fun advance_seq :: "u64 \<Rightarrow> event_record list \<Rightarrow> u64 option" where
  "advance_seq prev [] = Some prev"
| "advance_seq prev (r # rs) = (if ev_seq r \<le> prev then None else advance_seq (ev_seq r) rs)"

definition append_batch ::
  "actor_id \<Rightarrow> fence_token \<Rightarrow> event_record list \<Rightarrow> mem_store \<Rightarrow> unit result \<times> mem_store" where
  "append_batch k tok batch s0 =
     (let e = entry_of k s0; s = put_entry k e s0 in
      if fenced_out tok e then (fenced_error, s)
      else case advance_seq (se_last_seq e) batch of
        None \<Rightarrow> (fail Internal ''commit sequence not strictly increasing'', s)
      | Some q \<Rightarrow> (Inr (), put_entry k (e\<lparr> se_log := se_log e @ batch, se_last_seq := q \<rparr>) s))"

definition read_log :: "actor_id \<Rightarrow> u64 \<Rightarrow> mem_store \<Rightarrow> event_record list result" where
  "read_log k q s =
     (case map_of s k of None \<Rightarrow> Inr [] | Some e \<Rightarrow> Inr (filter (\<lambda>r. q \<le> ev_seq r) (se_log e)))"

definition truncate_log :: "actor_id \<Rightarrow> fence_token \<Rightarrow> u64 \<Rightarrow> mem_store \<Rightarrow> unit result \<times> mem_store" where
  "truncate_log k tok q s0 =
     (let e = entry_of k s0; s = put_entry k e s0 in
      if fenced_out tok e then (fenced_error, s)
      else if (case se_snapshot e of None \<Rightarrow> True | Some sn \<Rightarrow> through_seq sn < q)
        then (fail Internal ''truncate_log: no snapshot subsumes the requested prefix'', s)
      else (Inr (), put_entry k (e\<lparr> se_log := dropWhile (\<lambda>r. ev_seq r \<le> q) (se_log e) \<rparr>) s))"

text \<open>Introspection for tests.\<close>

definition log_size :: "actor_id \<Rightarrow> mem_store \<Rightarrow> nat" where
  "log_size k s = (case map_of s k of None \<Rightarrow> 0 | Some e \<Rightarrow> length (se_log e))"

definition current_owner :: "actor_id \<Rightarrow> mem_store \<Rightarrow> fence_token" where
  "current_owner k s = (case map_of s k of None \<Rightarrow> FenceToken 0 | Some e \<Rightarrow> se_owner e)"

section \<open>Backup and restore\<close>

record actor_backup =
  ab_id :: actor_id
  ab_owner :: fence_token
  ab_last_seq :: u64
  ab_snapshot :: "snapshot_record option"
  ab_log :: "event_record list"

record backup_image =
  bi_epoch :: fence_token
  bi_actors :: "actor_backup list"

definition restore_epoch :: "backup_image \<Rightarrow> fence_token \<Rightarrow> fence_token" where
  "restore_epoch img min_epoch =
     (let m = foldl (\<lambda>m a.
          let m = max m (token_value (ab_owner a))
          in case ab_snapshot a of None \<Rightarrow> m | Some sn \<Rightarrow> max m (token_value (snap_fence sn)))
        (max (token_value (bi_epoch img)) (token_value min_epoch)) (bi_actors img)
      in FenceToken (m + 1))"

fun validate_actors :: "actor_id list \<Rightarrow> actor_backup list \<Rightarrow> unit result" where
  "validate_actors seen [] = Inr ()"
| "validate_actors seen (a # as) =
     (if ab_id a \<in> set seen then fail Validation ''backup: duplicate actor id''
      else case advance_seq 0 (ab_log a) of
        None \<Rightarrow> fail Validation ''backup: log seq not strictly increasing''
      | Some prev \<Rightarrow>
          if ab_last_seq a < prev then fail Validation ''backup: log ahead of last_seq''
          else if (case ab_snapshot a of None \<Rightarrow> False | Some sn \<Rightarrow> ab_last_seq a < through_seq sn)
            then fail Validation ''backup: snapshot ahead of last_seq''
          else validate_actors (ab_id a # seen) as)"

definition validate_backup :: "backup_image \<Rightarrow> unit result" where
  "validate_backup img = validate_actors [] (bi_actors img)"

definition snapshot_to :: "mem_store \<Rightarrow> backup_image" where
  "snapshot_to s =
     \<lparr> bi_epoch = foldl (\<lambda>m (k, e). max m (se_owner e)) (FenceToken 0) s,
       bi_actors = map (\<lambda>(k, e). \<lparr> ab_id = k, ab_owner = se_owner e, ab_last_seq = se_last_seq e,
                                     ab_snapshot = se_snapshot e, ab_log = se_log e \<rparr>) s \<rparr>"

definition restore_from :: "backup_image \<Rightarrow> fence_token \<Rightarrow> mem_store \<Rightarrow> fence_token result \<times> mem_store" where
  "restore_from img min_epoch s =
     (if s \<noteq> [] then (fail Validation ''restore_from: target store is not empty'', s)
      else case validate_backup img of
        Inl er \<Rightarrow> (Inl er, s)
      | Inr _ \<Rightarrow>
          let ep = restore_epoch img min_epoch in
          (Inr ep, foldl (\<lambda>s a. put_entry (ab_id a)
             \<lparr> se_owner = ep, se_last_seq = ab_last_seq a, se_snapshot = ab_snapshot a, se_log = ab_log a \<rparr> s)
             s (bi_actors img)))"

section \<open>Well-formed entries\<close>

lemma entry_of_put [simp]: "entry_of k' (put_entry k e s) = (if k' = k then e else entry_of k' s)"
  by (simp add: entry_of_def put_entry_def update_conv)

lemma entry_of_Nil [simp]: "entry_of k [] = fresh_entry"
  by (simp add: entry_of_def)

lemma last_seq_entry: "last_seq k s = se_last_seq (entry_of k s)"
  by (simp add: last_seq_def entry_of_def fresh_entry_def split: option.split)

lemma load_snapshot_entry: "load_snapshot k s = Inr (se_snapshot (entry_of k s))"
  by (simp add: load_snapshot_def entry_of_def fresh_entry_def split: option.split)

lemma read_log_entry: "read_log k q s = Inr (filter (\<lambda>r. q \<le> ev_seq r) (se_log (entry_of k s)))"
  by (simp add: read_log_def entry_of_def fresh_entry_def split: option.split)

lemmas store_reads = last_seq_entry load_snapshot_entry read_log_entry

lemma fenced_error_not_Inr [simp]: "fenced_error \<noteq> Inr x" "Inr x \<noteq> fenced_error"
  by (simp_all add: fenced_error_def)

definition entry_wf :: "store_entry \<Rightarrow> bool" where
  "entry_wf e \<longleftrightarrow>
     sorted_wrt (<) (map ev_seq (se_log e)) \<and> (\<forall>r\<in>set (se_log e). 0 < ev_seq r \<and> ev_seq r \<le> se_last_seq e) \<and>
     (\<forall>sn. se_snapshot e = Some sn \<longrightarrow> through_seq sn \<le> se_last_seq e)"

lemma fresh_entry_wf [simp]: "entry_wf fresh_entry"
  by (simp add: entry_wf_def fresh_entry_def)

lemma advance_seq_sorted:
  "advance_seq prev rs = Some q \<Longrightarrow>
     sorted_wrt (<) (map ev_seq rs) \<and> (\<forall>r\<in>set rs. prev < ev_seq r \<and> ev_seq r \<le> q) \<and> prev \<le> q"
proof (induction rs arbitrary: prev)
  case (Cons r rs)
  then have p: "prev < ev_seq r" and a: "advance_seq (ev_seq r) rs = Some q" by (auto split: if_splits)
  from Cons.IH [OF a] p show ?case by (auto intro: less_imp_le less_le_trans)
qed simp

lemma advance_seq_eq:
  assumes "sorted_wrt (<) (map ev_seq rs)" and "\<forall>r\<in>set rs. prev < ev_seq r"
  shows "advance_seq prev rs = Some (if rs = [] then prev else ev_seq (last rs))"
  using assms by (induction rs arbitrary: prev) (auto simp: not_less [symmetric])

lemma entry_wf_append:
  assumes "entry_wf e" and "advance_seq (se_last_seq e) rs = Some q"
  shows "entry_wf (e\<lparr> se_log := se_log e @ rs, se_last_seq := q \<rparr>)"
proof -
  note a = advance_seq_sorted [OF assms(2)]
  have "ev_seq x < ev_seq y" if "x \<in> set (se_log e)" "y \<in> set rs" for x y
    using assms(1) a that by (force simp: entry_wf_def intro: le_less_trans)
  with a assms(1) show ?thesis
    by (fastforce simp: entry_wf_def sorted_wrt_append intro: order_trans le_less_trans)
qed

lemma sorted_dropWhile_filter:
  assumes "sorted_wrt (<) (map ev_seq rs)"
  shows "dropWhile (\<lambda>r. ev_seq r \<le> q) rs = filter (\<lambda>r. q < ev_seq r) rs"
  using assms
proof (induction rs)
  case (Cons r rs)
  have "filter (\<lambda>r. q < ev_seq r) rs = rs" if "q < ev_seq r"
    using Cons.prems that by (auto simp: filter_id_conv)
  with Cons show ?case by (auto simp: not_less [symmetric])
qed simp


section \<open>The contract of a store\<close>

text \<open>
  What the \<open>Store\<close> and \<open>CompactableStore\<close> concepts promise, on the entry of one actor: the three
  writes either refuse and change no entry, or do to the entry of that actor what these functions say
  and leave every other alone.
\<close>

definition spec_save :: "fence_token \<Rightarrow> snapshot_record \<Rightarrow> store_entry \<Rightarrow> store_entry option" where
  "spec_save tok snap e =
     (if fenced_out tok e \<or> (\<exists>sn. se_snapshot e = Some sn \<and> through_seq snap < through_seq sn) \<or>
         se_last_seq e < through_seq snap then None
      else Some (e\<lparr> se_snapshot := Some (snap\<lparr> snap_fence := tok \<rparr>) \<rparr>))"

definition spec_append :: "fence_token \<Rightarrow> event_record list \<Rightarrow> store_entry \<Rightarrow> store_entry option" where
  "spec_append tok rs e =
     (if fenced_out tok e then None
      else map_option (\<lambda>q. e\<lparr> se_log := se_log e @ rs, se_last_seq := q \<rparr>) (advance_seq (se_last_seq e) rs))"

definition spec_truncate :: "fence_token \<Rightarrow> u64 \<Rightarrow> store_entry \<Rightarrow> store_entry option" where
  "spec_truncate tok q e =
     (if fenced_out tok e \<or> \<not> (\<exists>sn. se_snapshot e = Some sn \<and> q \<le> through_seq sn) then None
      else Some (e\<lparr> se_log := filter (\<lambda>r. q < ev_seq r) (se_log e) \<rparr>))"

lemma spec_owner:
  "spec_save tok sn e = Some e' \<Longrightarrow> se_owner e' = se_owner e"
  "spec_append tok rs e = Some e' \<Longrightarrow> se_owner e' = se_owner e"
  "spec_truncate tok q e = Some e' \<Longrightarrow> se_owner e' = se_owner e"
  by (auto simp: spec_save_def spec_append_def spec_truncate_def split: if_splits)

record 's store_ops =
  so_acquire :: "actor_id \<Rightarrow> 's \<Rightarrow> fence_token result \<times> 's"
  so_last_seq :: "actor_id \<Rightarrow> 's \<Rightarrow> u64"
  so_load :: "actor_id \<Rightarrow> 's \<Rightarrow> snapshot_record option result"
  so_save :: "actor_id \<Rightarrow> fence_token \<Rightarrow> snapshot_record \<Rightarrow> 's \<Rightarrow> unit result \<times> 's"
  so_append_batch :: "actor_id \<Rightarrow> fence_token \<Rightarrow> event_record list \<Rightarrow> 's \<Rightarrow> unit result \<times> 's"
  so_read_log :: "actor_id \<Rightarrow> u64 \<Rightarrow> 's \<Rightarrow> event_record list result"
  so_truncate :: "actor_id \<Rightarrow> fence_token \<Rightarrow> u64 \<Rightarrow> 's \<Rightarrow> unit result \<times> 's"

definition next_token :: "store_entry \<Rightarrow> fence_token" where
  "next_token e = FenceToken (token_value (se_owner e) + 1)"

locale store_seam =
  fixes st :: "'s store_ops"
    and view :: "actor_id \<Rightarrow> 's \<Rightarrow> store_entry"
    and ok :: "'s \<Rightarrow> bool"
  assumes view_wf: "ok s \<Longrightarrow> entry_wf (view k s)"
    and last_view: "ok s \<Longrightarrow> so_last_seq st k s = se_last_seq (view k s)"
    and load_view: "ok s \<Longrightarrow> so_load st k s = Inr (se_snapshot (view k s))"
    and read_view: "ok s \<Longrightarrow> so_read_log st k q s = Inr (filter (\<lambda>r. q \<le> ev_seq r) (se_log (view k s)))"
    and acquire_ok: "ok s \<Longrightarrow> so_acquire st k s = (a, s') \<Longrightarrow> ok s'"
    and acquire_view: "ok s \<Longrightarrow> so_acquire st k s = (a, s') \<Longrightarrow>
      case a of Inl _ \<Rightarrow> \<forall>k'. view k' s' = view k' s
      | Inr t \<Rightarrow> t = next_token (view k s) \<and> view k s' = (view k s)\<lparr> se_owner := t \<rparr> \<and>
                (\<forall>k'. k' \<noteq> k \<longrightarrow> view k' s' = view k' s)"
    and save_ok: "ok s \<Longrightarrow> so_save st k tok sn s = (r, s') \<Longrightarrow> ok s'"
    and save_view: "ok s \<Longrightarrow> so_save st k tok sn s = (r, s') \<Longrightarrow>
      if r = Inr () then spec_save tok sn (view k s) = Some (view k s') \<and> (\<forall>k'. k' \<noteq> k \<longrightarrow> view k' s' = view k' s)
      else \<forall>k'. view k' s' = view k' s"
    and append_ok: "ok s \<Longrightarrow> so_append_batch st k tok rs s = (r, s') \<Longrightarrow> ok s'"
    and append_view: "ok s \<Longrightarrow> so_append_batch st k tok rs s = (r, s') \<Longrightarrow>
      if r = Inr () then spec_append tok rs (view k s) = Some (view k s') \<and> (\<forall>k'. k' \<noteq> k \<longrightarrow> view k' s' = view k' s)
      else \<forall>k'. view k' s' = view k' s"
    and truncate_ok: "ok s \<Longrightarrow> so_truncate st k tok q s = (r, s') \<Longrightarrow> ok s'"
    and truncate_view: "ok s \<Longrightarrow> so_truncate st k tok q s = (r, s') \<Longrightarrow>
      if r = Inr () then spec_truncate tok q (view k s) = Some (view k s') \<and> (\<forall>k'. k' \<noteq> k \<longrightarrow> view k' s' = view k' s)
      else \<forall>k'. view k' s' = view k' s"
begin

text \<open>A write leaves the owner of every entry alone.\<close>

lemma writes_keep_owner:
  assumes "ok s"
  shows "so_save st k tok sn s = (r, s') \<Longrightarrow> se_owner (view k' s') = se_owner (view k' s)"
    and "so_append_batch st k tok rs s = (r, s') \<Longrightarrow> se_owner (view k' s') = se_owner (view k' s)"
    and "so_truncate st k tok q s = (r, s') \<Longrightarrow> se_owner (view k' s') = se_owner (view k' s)"
proof -
  show "se_owner (view k' s') = se_owner (view k' s)" if "so_save st k tok sn s = (r, s')"
    using save_view [OF assms that]
    by (cases "r = Inr ()"; cases "k' = k") (auto dest: spec_owner)
  show "se_owner (view k' s') = se_owner (view k' s)" if "so_append_batch st k tok rs s = (r, s')"
    using append_view [OF assms that]
    by (cases "r = Inr ()"; cases "k' = k") (auto dest: spec_owner)
  show "se_owner (view k' s') = se_owner (view k' s)" if "so_truncate st k tok q s = (r, s')"
    using truncate_view [OF assms that]
    by (cases "r = Inr ()"; cases "k' = k") (auto dest: spec_owner)
qed

end

definition store_wf :: "mem_store \<Rightarrow> bool" where
  "store_wf s \<longleftrightarrow> distinct (map fst s) \<and> (\<forall>k. entry_wf (entry_of k s))"

lemma store_wf_put: "store_wf s \<Longrightarrow> entry_wf e \<Longrightarrow> store_wf (put_entry k e s)"
  by (simp add: store_wf_def) (simp add: put_entry_def distinct_update)

lemma store_wf_Nil [simp]: "store_wf []"
  by (simp add: store_wf_def)

lemma store_wf_entry: "store_wf s \<Longrightarrow> entry_wf (entry_of k s)"
  by (simp add: store_wf_def)

text \<open>What each write of the reference adapter does, by its outcome.\<close>

lemma save_snapshot_cases:
  assumes "save_snapshot k tok sn s = (r, s')"
  shows "if r = Inr () then \<exists>e'. spec_save tok sn (entry_of k s) = Some e' \<and> s' = put_entry k e' (put_entry k (entry_of k s) s)
         else spec_save tok sn (entry_of k s) = None \<and> s' = put_entry k (entry_of k s) s"
  using assms by (auto simp: save_snapshot_def spec_save_def Let_def split: if_splits option.splits)

lemma append_batch_cases:
  assumes "append_batch k tok rs s = (r, s')"
  shows "if r = Inr () then \<exists>e'. spec_append tok rs (entry_of k s) = Some e' \<and> s' = put_entry k e' (put_entry k (entry_of k s) s)
         else spec_append tok rs (entry_of k s) = None \<and> s' = put_entry k (entry_of k s) s"
  using assms by (auto simp: append_batch_def spec_append_def Let_def split: if_splits option.splits)

lemma append_record_batch:
  "snd (append_record k tok q bs s) = snd (append_batch k tok [\<lparr> ev_seq = q, ev_bytes = bs \<rparr>] s)"
  "fst (append_record k tok q bs s) = fst (append_batch k tok [\<lparr> ev_seq = q, ev_bytes = bs \<rparr>] s)"
  by (simp_all add: append_record_def append_batch_def Let_def)

lemma truncate_log_cases:
  assumes "store_wf s" and "truncate_log k tok q s = (r, s')"
  shows "if r = Inr () then \<exists>e'. spec_truncate tok q (entry_of k s) = Some e' \<and> s' = put_entry k e' (put_entry k (entry_of k s) s)
         else spec_truncate tok q (entry_of k s) = None \<and> s' = put_entry k (entry_of k s) s"
proof -
  have d: "dropWhile (\<lambda>r. ev_seq r \<le> q) (se_log (entry_of k s)) = filter (\<lambda>r. q < ev_seq r) (se_log (entry_of k s))"
    using store_wf_entry [OF assms(1)] by (intro sorted_dropWhile_filter) (simp add: entry_wf_def)
  show ?thesis
    using assms(2) by (auto simp: truncate_log_def spec_truncate_def Let_def d not_less split: if_splits option.splits)
qed

lemma spec_wf:
  assumes "entry_wf e"
  shows "spec_save tok sn e = Some e' \<Longrightarrow> entry_wf e'" and "spec_append tok rs e = Some e' \<Longrightarrow> entry_wf e'"
    and "spec_truncate tok q e = Some e' \<Longrightarrow> entry_wf e'"
proof -
  show "spec_save tok sn e = Some e' \<Longrightarrow> entry_wf e'"
    using assms by (auto simp: spec_save_def entry_wf_def fenced_out_def not_less split: if_splits)
  show "spec_append tok rs e = Some e' \<Longrightarrow> entry_wf e'"
    using entry_wf_append [OF assms] by (auto simp: spec_append_def split: if_splits)
  have f: "map ev_seq (filter (\<lambda>r. q < ev_seq r) l) = filter (\<lambda>x. q < x) (map ev_seq l)" for l
    by (simp add: filter_map comp_def)
  show "spec_truncate tok q e = Some e' \<Longrightarrow> entry_wf e'"
    using assms sorted_wrt_filter [of "(<)" "map ev_seq (se_log e)" "\<lambda>x. q < x"]
    by (auto simp: spec_truncate_def entry_wf_def f split: if_splits)
qed

lemma entry_of_writes:
  "(\<exists>e'. sp = Some e' \<and> s' = put_entry k e' (put_entry k (entry_of k s) s)) \<Longrightarrow>
     sp = Some (entry_of k s') \<and> (\<forall>k'. k' \<noteq> k \<longrightarrow> entry_of k' s' = entry_of k' s)"
  by auto

definition mem_ops :: "mem_store store_ops" where
  "mem_ops = \<lparr> so_acquire = acquire_fence, so_last_seq = last_seq, so_load = load_snapshot, so_save = save_snapshot,
     so_append_batch = append_batch, so_read_log = read_log, so_truncate = truncate_log \<rparr>"

interpretation mem: store_seam mem_ops entry_of store_wf
proof (unfold_locales, simp_all only: mem_ops_def store_ops.simps)
  fix s k a and q :: u64 and tok sn r s' and rs :: "event_record list"
  assume wf: "store_wf s"
  note e = store_wf_entry [OF wf]
  show "entry_wf (entry_of k s)" by (rule e)
  show "last_seq k s = se_last_seq (entry_of k s)" by (rule last_seq_entry)
  show "load_snapshot k s = Inr (se_snapshot (entry_of k s))" by (rule load_snapshot_entry)
  show "read_log k q s = Inr (filter (\<lambda>r. q \<le> ev_seq r) (se_log (entry_of k s)))" by (rule read_log_entry)
  note wf0 = store_wf_put [OF wf e]
  have eo: "entry_wf (entry_of k s\<lparr> se_owner := t \<rparr>)" for t using e by (simp add: entry_wf_def)
  show "store_wf s'" if "acquire_fence k s = (a, s')"
    using that store_wf_put [OF wf eo] by (auto simp: acquire_fence_def Let_def)
  show "case a of Inl _ \<Rightarrow> \<forall>k'. entry_of k' s' = entry_of k' s
      | Inr t \<Rightarrow> t = next_token (entry_of k s) \<and> entry_of k s' = (entry_of k s)\<lparr> se_owner := t \<rparr> \<and>
                (\<forall>k'. k' \<noteq> k \<longrightarrow> entry_of k' s' = entry_of k' s)" if "acquire_fence k s = (a, s')"
    using that by (auto simp: acquire_fence_def next_token_def Let_def)
  show "store_wf s'" if "save_snapshot k tok sn s = (r, s')"
    using save_snapshot_cases [OF that] wf0 spec_wf(1) [OF e] store_wf_put by (auto split: if_splits)
  show "store_wf s'" if "append_batch k tok rs s = (r, s')"
    using append_batch_cases [OF that] wf0 spec_wf(2) [OF e] store_wf_put by (auto split: if_splits)
  show "store_wf s'" if "truncate_log k tok q s = (r, s')"
    using truncate_log_cases [OF wf that] wf0 spec_wf(3) [OF e] store_wf_put by (auto split: if_splits)
  show "if r = Inr () then spec_save tok sn (entry_of k s) = Some (entry_of k s') \<and> (\<forall>k'. k' \<noteq> k \<longrightarrow> entry_of k' s' = entry_of k' s)
      else \<forall>k'. entry_of k' s' = entry_of k' s" if "save_snapshot k tok sn s = (r, s')"
    using save_snapshot_cases [OF that] by (cases "r = Inr ()") auto
  show "if r = Inr () then spec_append tok rs (entry_of k s) = Some (entry_of k s') \<and> (\<forall>k'. k' \<noteq> k \<longrightarrow> entry_of k' s' = entry_of k' s)
      else \<forall>k'. entry_of k' s' = entry_of k' s" if "append_batch k tok rs s = (r, s')"
    using append_batch_cases [OF that] by (cases "r = Inr ()") auto
  show "if r = Inr () then spec_truncate tok q (entry_of k s) = Some (entry_of k s') \<and> (\<forall>k'. k' \<noteq> k \<longrightarrow> entry_of k' s' = entry_of k' s)
      else \<forall>k'. entry_of k' s' = entry_of k' s" if "truncate_log k tok q s = (r, s')"
    using truncate_log_cases [OF wf that] by (cases "r = Inr ()") auto
qed


lemmas mem_facts = mem.save_ok mem.append_ok mem.truncate_ok mem.writes_keep_owner

lemmas mem_writes = mem_facts [unfolded mem_ops_def store_ops.simps]

section \<open>Fencing\<close>

datatype store_op =
    AcquireOp actor_id
  | SaveOp actor_id fence_token snapshot_record
  | AppendOp actor_id fence_token u64 bytes
  | BatchOp actor_id fence_token "event_record list"
  | TruncateOp actor_id fence_token u64

fun store_step :: "store_op \<Rightarrow> mem_store \<Rightarrow> mem_store" where
  "store_step (AcquireOp k) s = snd (acquire_fence k s)"
| "store_step (SaveOp k tok sn) s = snd (save_snapshot k tok sn s)"
| "store_step (AppendOp k tok q bs) s = snd (append_record k tok q bs s)"
| "store_step (BatchOp k tok rs) s = snd (append_batch k tok rs s)"
| "store_step (TruncateOp k tok q) s = snd (truncate_log k tok q s)"

definition store_run :: "store_op list \<Rightarrow> mem_store \<Rightarrow> mem_store" where
  "store_run ops s = foldl (\<lambda>s op. store_step op s) s ops"

definition acquisitions :: "actor_id \<Rightarrow> store_op list \<Rightarrow> nat" where
  "acquisitions k ops = length (filter (\<lambda>op. op = AcquireOp k) ops)"

lemma store_run_simps [simp]:
  "store_run [] s = s" "store_run (op # ops) s = store_run ops (store_step op s)"
  by (simp_all add: store_run_def)

lemma store_step_wf: "store_wf s \<Longrightarrow> store_wf (store_step op s)"
proof (cases op)
  case (AcquireOp k)
  assume s: "store_wf s"
  have "entry_wf (entry_of k s\<lparr> se_owner := t \<rparr>)" for t using store_wf_entry [OF s, of k] by (simp add: entry_wf_def)
  with AcquireOp store_wf_put [OF s] show ?thesis by (simp add: acquire_fence_def Let_def)
next
  assume s: "store_wf s"
  { case SaveOp with s mem_writes(1) show ?thesis by (metis store_step.simps(2) prod.collapse) }
  { case AppendOp with s mem_writes(2) show ?thesis by (metis store_step.simps(3) append_record_batch(1) prod.collapse) }
  { case BatchOp with s mem_writes(2) show ?thesis by (metis store_step.simps(4) prod.collapse) }
  { case TruncateOp with s mem_writes(3) show ?thesis by (metis store_step.simps(5) prod.collapse) }
qed

lemma store_step_owner:
  assumes "store_wf s"
  shows "se_owner (entry_of k (store_step op s)) =
    (if op = AcquireOp k then FenceToken (token_value (se_owner (entry_of k s)) + 1) else se_owner (entry_of k s))"
proof (cases op)
  case AcquireOp
  then show ?thesis by (simp add: acquire_fence_def Let_def)
next
  case SaveOp
  then show ?thesis using mem_writes(4) [OF assms prod.collapse [symmetric]] by simp
next
  case AppendOp
  then show ?thesis using mem_writes(5) [OF assms prod.collapse [symmetric]] by (simp add: append_record_batch)
next
  case BatchOp
  then show ?thesis using mem_writes(5) [OF assms prod.collapse [symmetric]] by simp
next
  case TruncateOp
  then show ?thesis using mem_writes(6) [OF assms prod.collapse [symmetric]] by simp
qed

lemma store_run_owner:
  assumes "store_wf s" and "unat (token_value (se_owner (entry_of k s))) + acquisitions k ops < 2 ^ 64"
  shows "store_wf (store_run ops s) \<and>
    unat (token_value (se_owner (entry_of k (store_run ops s)))) = unat (token_value (se_owner (entry_of k s))) + acquisitions k ops"
  using assms
proof (induction ops arbitrary: s)
  case Nil
  then show ?case by (simp add: acquisitions_def)
next
  case (Cons op ops)
  let ?o = "token_value (se_owner (entry_of k s))" and ?o' = "token_value (se_owner (entry_of k (store_step op s)))"
  have n: "acquisitions k (op # ops) = acquisitions k ops + (if op = AcquireOp k then 1 else 0)"
    by (simp add: acquisitions_def)
  have "unat ?o' = unat ?o + (if op = AcquireOp k then 1 else 0)"
    using store_step_owner [OF Cons.prems(1), of k op] Cons.prems(2) n unat_plus_1_no_wrap [of ?o] by (simp split: if_splits)
  with Cons.IH [OF store_step_wf [OF Cons.prems(1)], of op] Cons.prems(2) n show ?case by (simp split: if_splits)
qed

text \<open>A write under a token older than the owner.\<close>

lemma stale_write_refused:
  assumes "tok < se_owner (entry_of k s)"
  shows "fst (save_snapshot k tok sn s) = fenced_error \<and> fst (append_record k tok q bs s) = fenced_error \<and>
         fst (append_batch k tok rs s) = fenced_error \<and> fst (truncate_log k tok q s) = fenced_error"
    and "op \<in> {SaveOp k tok sn, AppendOp k tok q bs, BatchOp k tok rs, TruncateOp k tok q} \<Longrightarrow>
         entry_of k' (store_step op s) = entry_of k' s"
  using assms
  by (auto simp: save_snapshot_def append_record_def append_batch_def truncate_log_def fenced_out_def Let_def)

text \<open>
  Property C37.  Split-brain fencing: once somebody has acquired the fence of an actor, every older token is
  dead for ever.  Whatever operations follow (further acquisitions included), a save, append, batch or
  truncation under an older token is refused as fenced and changes no entry of the store; the current
  owner's own token is accepted by the fence as long as nobody acquires after it.
\<close>

theorem superseded_writer_locked_out:
  assumes "store_wf s0" and "acquire_fence k s0 = (Inr t, s1)" and "tok < t"
    and "unat (token_value (se_owner (entry_of k s0))) + acquisitions k ops + 1 < 2 ^ 64"
  defines "s2 \<equiv> store_run ops s1"
  shows "fst (save_snapshot k tok sn s2) = fenced_error \<and> fst (append_record k tok q bs s2) = fenced_error \<and>
         fst (append_batch k tok rs s2) = fenced_error \<and> fst (truncate_log k tok q s2) = fenced_error \<and>
         (\<forall>op\<in>{SaveOp k tok sn, AppendOp k tok q bs, BatchOp k tok rs, TruncateOp k tok q}.
           \<forall>k'. entry_of k' (store_step op s2) = entry_of k' s2) \<and>
         (fenced_out t (entry_of k s2) \<longleftrightarrow> 0 < acquisitions k ops)"
proof -
  let ?o = "token_value (se_owner (entry_of k s0))"
  have t: "t = FenceToken (?o + 1)" and s1: "s1 = store_step (AcquireOp k) s0"
    using assms(2) by (auto simp: acquire_fence_def Let_def)
  have o: "unat (?o + 1) = unat ?o + 1" using unat_plus_1_no_wrap [of ?o] assms(4) by simp
  have o1: "se_owner (entry_of k s1) = t" by (simp add: s1 t acquire_fence_def Let_def)
  have wf1: "store_wf s1" unfolding s1 by (rule store_step_wf [OF assms(1)])
  have r: "unat (token_value (se_owner (entry_of k s2))) = unat ?o + 1 + acquisitions k ops"
    using store_run_owner [OF wf1, of k ops] assms(4) o unfolding o1 t s2_def by simp
  then have "t \<le> se_owner (entry_of k s2)"
    using o by (simp add: t less_eq_fence_token_def word_le_nat_alt)
  with assms(3) have lt: "tok < se_owner (entry_of k s2)" by (rule less_le_trans)
  have "fst (save_snapshot k tok sn s2) = fenced_error \<and> fst (append_record k tok q bs s2) = fenced_error \<and>
      fst (append_batch k tok rs s2) = fenced_error \<and> fst (truncate_log k tok q s2) = fenced_error"
    by (rule stale_write_refused(1) [OF lt])
  moreover have "\<forall>op\<in>{SaveOp k tok sn, AppendOp k tok q bs, BatchOp k tok rs, TruncateOp k tok q}.
      \<forall>k'. entry_of k' (store_step op s2) = entry_of k' s2"
    using stale_write_refused(2) [OF lt] by blast
  moreover have nz: "?o + 1 \<noteq> 0" using o by auto
  moreover have "fenced_out t (entry_of k s2) \<longleftrightarrow> 0 < acquisitions k ops"
    using r o nz by (simp add: fenced_out_def is_unfenced_def t less_fence_token_def word_less_nat_alt)
  ultimately show ?thesis by blast
qed

theorem superseded_writer_locked_out_witness:
  "fst (append_record (ActorId 1 2) (FenceToken 1) 5 [] (store_run [BatchOp (ActorId 1 2) (FenceToken 2) []]
     (snd (acquire_fence (ActorId 1 2) (snd (acquire_fence (ActorId 1 2) [])))))) = fenced_error"
proof -
  let ?k = "ActorId 1 2" and ?t = "FenceToken 2"
  have wf: "store_wf (store_step (AcquireOp ?k) [])" by (rule store_step_wf) simp
  then have wf': "store_wf (snd (acquire_fence ?k []))" by simp
  have a: "acquire_fence ?k (snd (acquire_fence ?k [])) = (Inr ?t, snd (acquire_fence ?k (snd (acquire_fence ?k []))))"
    by (simp add: acquire_fence_def Let_def fresh_entry_def)
  from superseded_writer_locked_out [OF wf' a, of "FenceToken 1" "[BatchOp ?k ?t []]"] show ?thesis
    by (simp add: acquire_fence_def Let_def fresh_entry_def acquisitions_def)
qed


section \<open>Atomic batches\<close>

text \<open>
  A batch is all or nothing: \<open>append_batch\<close> succeeds exactly when the token is not fenced out
  and every record of the batch advances the sequence strictly, and then the log grows by exactly the batch
  and \<open>last_seq\<close> is its last number; in every other case no entry changes.
\<close>

theorem append_batch_all_or_nothing:
  fixes k :: actor_id and tok :: fence_token and rs :: "event_record list" and s :: mem_store
  defines "e \<equiv> entry_of k s" and "res \<equiv> append_batch k tok rs s"
  shows "if \<not> fenced_out tok e \<and> sorted_wrt (<) (se_last_seq e # map ev_seq rs)
         then fst res = Inr () \<and> se_log (entry_of k (snd res)) = se_log e @ rs \<and>
              se_last_seq (entry_of k (snd res)) = last (se_last_seq e # map ev_seq rs) \<and>
              (\<forall>k'. k' = k \<or> entry_of k' (snd res) = entry_of k' s)
         else (\<exists>er. fst res = Inl er) \<and> (\<forall>k'. entry_of k' (snd res) = entry_of k' s)"
proof -
  obtain r s' where res: "append_batch k tok rs s = (r, s')" by (rule prod.exhaust)
  have adv: "advance_seq p rs = (if sorted_wrt (<) (p # map ev_seq rs) then Some (last (p # map ev_seq rs)) else None)" for p
    by (induction rs arbitrary: p) (auto simp: not_le intro: less_trans)
  show ?thesis
  proof (cases "\<not> fenced_out tok e \<and> sorted_wrt (<) (se_last_seq e # map ev_seq rs)")
    case True
    then have "append_batch k tok rs s = (Inr (), put_entry k (e\<lparr> se_log := se_log e @ rs,
        se_last_seq := last (se_last_seq e # map ev_seq rs) \<rparr>) (put_entry k e s))"
      by (simp add: append_batch_def Let_def e_def adv)
    with True show ?thesis by (simp add: res_def)
  next
    case False
    then have "spec_append tok rs e = None" by (auto simp: spec_append_def adv)
    with append_batch_cases [OF res] have "r \<noteq> Inr ()" "s' = put_entry k e s" by (auto simp: e_def split: if_splits)
    then have "\<exists>er. r = Inl er" "\<forall>k'. entry_of k' s' = entry_of k' s" by (cases r; simp add: e_def)+
    then show ?thesis by (simp only: False if_False res_def res fst_conv snd_conv simp_thms)
  qed
qed

section \<open>Backup and restore\<close>

lemma validate_actors_ok:
  assumes "distinct (map fst s)" and "\<forall>(k, e)\<in>set s. entry_wf e" and "set seen \<inter> fst ` set s = {}"
  shows "validate_actors seen (map (\<lambda>(k, e). \<lparr> ab_id = k, ab_owner = se_owner e, ab_last_seq = se_last_seq e,
           ab_snapshot = se_snapshot e, ab_log = se_log e \<rparr>) s) = Inr ()"
  using assms
proof (induction s arbitrary: seen)
  case (Cons p s)
  obtain k e where p: "p = (k, e)" by (rule prod.exhaust)
  have wf: "entry_wf e" using Cons.prems(2) p by simp
  then have a: "advance_seq 0 (se_log e) = Some (if se_log e = [] then 0 else ev_seq (last (se_log e)))"
    by (intro advance_seq_eq) (auto simp: entry_wf_def)
  have "\<not> se_last_seq e < (if se_log e = [] then 0 else ev_seq (last (se_log e)))"
    using wf by (auto simp: entry_wf_def not_less)
  moreover have "\<not> (case se_snapshot e of None \<Rightarrow> False | Some sn \<Rightarrow> se_last_seq e < through_seq sn)"
    using wf by (auto simp: entry_wf_def not_less split: option.splits)
  moreover have "k \<notin> set seen" using Cons.prems(3) p by auto
  moreover have "set (k # seen) \<inter> fst ` set s = {}" using Cons.prems(1,3) p by auto
  ultimately show ?case
    using Cons.IH [of "k # seen"] Cons.prems(1,2) by (cases "se_snapshot e") (simp_all add: p a)
qed simp

lemma foldl_max_ge:
  fixes f :: "'a \<Rightarrow> 'b::linorder"
  shows "m \<le> foldl (\<lambda>m a. max m (f a)) m as"
proof (induction as arbitrary: m)
  case (Cons x as)
  show ?case using order_trans [OF max.cobounded1 Cons.IH [of "max m (f x)"]] by simp
qed simp

lemma foldl_max_ge_mem:
  fixes f :: "'a \<Rightarrow> 'b::linorder"
  assumes "a \<in> set as"
  shows "f a \<le> foldl (\<lambda>m a. max m (f a)) m as"
  using assms
proof (induction as arbitrary: m)
  case (Cons x as)
  show ?case
  proof (cases "a = x")
    case True
    with order_trans [OF max.cobounded2 foldl_max_ge [of "max m (f x)" f as]] show ?thesis by simp
  next
    case False
    with Cons show ?thesis by simp
  qed
qed simp

definition backup_floor :: "actor_backup \<Rightarrow> u64" where
  "backup_floor a = (case ab_snapshot a of None \<Rightarrow> token_value (ab_owner a)
                     | Some sn \<Rightarrow> max (token_value (ab_owner a)) (token_value (snap_fence sn)))"

lemma restore_epoch_eq:
  "restore_epoch img m = FenceToken (foldl (\<lambda>x a. max x (backup_floor a))
     (max (token_value (bi_epoch img)) (token_value m)) (bi_actors img) + 1)"
proof -
  have "(\<lambda>x a. let x = max x (token_value (ab_owner a))
      in case ab_snapshot a of None \<Rightarrow> x | Some sn \<Rightarrow> max x (token_value (snap_fence sn))) =
    (\<lambda>x a. max x (backup_floor a))"
    by (rule ext)+ (simp add: backup_floor_def Let_def max.assoc split: option.split)
  then show ?thesis by (simp add: restore_epoch_def)
qed

lemma entry_of_foldl_put:
  assumes "distinct (map fst s)" and "\<forall>k\<in>fst ` set s. map_of s0 k = None"
  shows "entry_of k (foldl (\<lambda>s' (k', e). put_entry k' (g e) s') s0 s) =
    (case map_of s k of None \<Rightarrow> entry_of k s0 | Some e \<Rightarrow> g e)"
  using assms
proof (induction s arbitrary: s0)
  case (Cons p s)
  obtain k' e where p: "p = (k', e)" by (rule prod.exhaust)
  have "\<forall>k\<in>fst ` set s. map_of (put_entry k' (g e) s0) k = None"
    using Cons.prems by (auto simp: p put_entry_def update_conv)
  from Cons.IH [OF _ this] Cons.prems p show ?case
    by (auto simp: map_of_eq_None_iff [symmetric] split: option.split)
qed simp


lemma restore_epoch_above:
  assumes "restore_epoch img m \<noteq> FenceToken 0" and "a \<in> set (bi_actors img)"
  shows "ab_owner a < restore_epoch img m" and "m < restore_epoch img m" and "bi_epoch img < restore_epoch img m"
proof -
  let ?i = "max (token_value (bi_epoch img)) (token_value m)"
  let ?x = "foldl (\<lambda>x a. max x (backup_floor a)) ?i (bi_actors img)"
  have e: "restore_epoch img m = FenceToken (?x + 1)" by (rule restore_epoch_eq)
  have "?x + 1 \<noteq> 0" using assms(1) e by auto
  then have "unat (?x + 1) = Suc (unat ?x)" using unatSuc [of ?x] by (simp add: add.commute)
  then have lt: "y \<le> ?x \<Longrightarrow> y < ?x + 1" for y by (simp add: word_less_nat_alt word_le_nat_alt)
  have "token_value (ab_owner a) \<le> backup_floor a" by (simp add: backup_floor_def split: option.split)
  also have "\<dots> \<le> ?x" by (rule foldl_max_ge_mem [OF assms(2)])
  finally have "token_value (ab_owner a) < ?x + 1" by (rule lt)
  then show "ab_owner a < restore_epoch img m" unfolding e by (simp add: less_fence_token_def)
  have "token_value m \<le> ?x" by (rule order_trans [OF max.cobounded2 foldl_max_ge])
  from lt [OF this] show "m < restore_epoch img m" unfolding e by (simp add: less_fence_token_def)
  have "token_value (bi_epoch img) \<le> ?x" by (rule order_trans [OF max.cobounded1 foldl_max_ge])
  from lt [OF this] show "bi_epoch img < restore_epoch img m" unfolding e by (simp add: less_fence_token_def)
qed

text \<open>
  Backup and restore: the image of a well-formed store restores into an empty store, every
  actor gets back exactly its committed sequence, snapshot and log, and no actor is invented; every actor
  is owned by the new fencing epoch, which is above every owner token of the backed-up store and above the
  operator's floor, so every writer of the old cluster under such a token is refused by the restored store.
\<close>

theorem backup_restore_fences:
  assumes "store_wf s" and "s \<noteq> []" and "restore_epoch (snapshot_to s) m \<noteq> FenceToken 0"
  shows "\<exists>s'. restore_from (snapshot_to s) m [] = (Inr (restore_epoch (snapshot_to s) m), s') \<and>
           (\<forall>k. entry_of k s' = (if k \<in> fst ` set s then (entry_of k s)\<lparr> se_owner := restore_epoch (snapshot_to s) m \<rparr>
                                  else fresh_entry)) \<and>
           (\<forall>k\<in>fst ` set s. \<forall>tok. tok \<le> se_owner (entry_of k s) \<or> tok \<le> m \<longrightarrow> fenced_out tok (entry_of k s'))"
proof -
  let ?ep = "restore_epoch (snapshot_to s) m"
  define s' where "s' = foldl (\<lambda>s' (k', e). put_entry k' (e\<lparr> se_owner := ?ep \<rparr>) s') [] s"
  have d: "distinct (map fst s)" using assms(1) by (simp add: store_wf_def)
  have eo: "entry_of k s = e" if "(k, e) \<in> set s" for k e
    using map_of_is_SomeI [OF d that] by (simp add: entry_of_def)
  have wf: "\<forall>(k, e)\<in>set s. entry_wf e" using eo store_wf_entry [OF assms(1)] by force
  have v: "validate_backup (snapshot_to s) = Inr ()"
    using validate_actors_ok [OF d wf, of "[]"] by (simp add: validate_backup_def snapshot_to_def)
  have fe: "\<lparr> se_owner = ep, se_last_seq = se_last_seq e, se_snapshot = se_snapshot e, se_log = se_log e \<rparr> =
      e\<lparr> se_owner := ep \<rparr>" for e :: store_entry and ep by simp
  have r: "restore_from (snapshot_to s) m [] = (Inr ?ep, s')"
    unfolding restore_from_def v s'_def
    by (simp add: Let_def) (simp add: snapshot_to_def foldl_map fe case_prod_unfold)
  have en: "entry_of k s' = (if k \<in> fst ` set s then (entry_of k s)\<lparr> se_owner := ?ep \<rparr> else fresh_entry)" for k
  proof -
    have "entry_of k s' = (case map_of s k of None \<Rightarrow> entry_of k [] | Some e \<Rightarrow> e\<lparr> se_owner := ?ep \<rparr>)"
      unfolding s'_def by (rule entry_of_foldl_put [OF d]) simp
    moreover have "map_of s k = None \<longleftrightarrow> k \<notin> fst ` set s" by (rule map_of_eq_None_iff)
    ultimately show ?thesis by (cases "map_of s k") (simp_all add: entry_of_def [of k s])
  qed
  have "fenced_out tok (entry_of k s')"
    if k: "k \<in> fst ` set s" and t: "tok \<le> se_owner (entry_of k s) \<or> tok \<le> m" for k tok
  proof -
    from k obtain e where e: "(k, e) \<in> set s" by auto
    let ?a = "\<lparr> ab_id = k, ab_owner = se_owner e, ab_last_seq = se_last_seq e, ab_snapshot = se_snapshot e, ab_log = se_log e \<rparr>"
    have "?a \<in> set (bi_actors (snapshot_to s))" using e by (force simp: snapshot_to_def)
    from restore_epoch_above [OF assms(3) this] eo [OF e] t have "tok < ?ep" by auto
    then show ?thesis using k by (simp add: fenced_out_def en)
  qed
  with r en show ?thesis by blast
qed

theorem backup_restore_fences_witness:
  "let s = snd (append_record (ActorId 1 2) (FenceToken 1) 5 [7] (snd (acquire_fence (ActorId 1 2) [])))
   in \<exists>s'. restore_from (snapshot_to s) (FenceToken 9) [] = (Inr (FenceToken 10), s') \<and>
        fenced_out (FenceToken 9) (entry_of (ActorId 1 2) s')"
proof -
  let ?k = "ActorId 1 2"
  let ?s = "snd (append_record ?k (FenceToken 1) 5 [7] (snd (acquire_fence ?k [])))"
  have "?s = store_run [AcquireOp ?k, AppendOp ?k (FenceToken 1) 5 [7]] []" by simp
  also have "store_wf \<dots>" by (intro store_step_wf | simp add: store_run_def del: store_step.simps)+
  finally have wf: "store_wf ?s" .
  have ne: "?s \<noteq> []" "?k \<in> fst ` set ?s" by code_simp+
  have ep: "restore_epoch (snapshot_to ?s) (FenceToken 9) = FenceToken 10" by code_simp
  from backup_restore_fences [OF wf ne(1), of "FenceToken 9"] ne(2) show ?thesis unfolding ep Let_def by force
qed

end
