(* ===== verification/Lease.thy ===== *)
theory Lease
  imports Store Complex_Main
begin

text \<open>
  \<open>include/quark/core/lease.hpp\<close>: the lease arbiter of one key and the lease holders.  Ticks are 64-bit
  words; the arbiter's store is an argument.  The second half is the system of one arbiter and any number
  of holders: messages are lost, delayed, duplicated and reordered (any message ever sent may arrive at
  any time), every node reads its own clock, and clocks drift within the configured bound.
\<close>

declare of_nat_unat [simp del]

section \<open>Configuration and messages\<close>

record lease_config =
  lc_duration :: u64
  lc_drift_ppm :: u32
  lc_retry :: u64
  lc_renew_before :: u64

definition lease_margin :: "lease_config \<Rightarrow> u64" where
  "lease_margin c = (lc_duration c * 2 * ucast (lc_drift_ppm c)) div 1000000 + 2"

record lease_request =
  rq_from :: u32
  rq_id :: u64

record lease_reply =
  rp_to :: u32
  rp_id :: u64
  rp_granted :: bool
  rp_term :: fence_token

section \<open>The arbiter\<close>

record lease_arbiter =
  la_key :: actor_id
  la_cfg :: lease_config
  la_holder :: "u32 option"
  la_term :: fence_token
  la_expiry :: u64
  la_quiet_until :: u64

definition la_create :: "actor_id \<Rightarrow> lease_config \<Rightarrow> lease_arbiter" where
  "la_create k c = \<lparr> la_key = k, la_cfg = c, la_holder = None, la_term = FenceToken 0, la_expiry = 0, la_quiet_until = 0 \<rparr>"

definition lease_refusal :: "lease_request \<Rightarrow> lease_reply" where
  "lease_refusal rq = \<lparr> rp_to = rq_from rq, rp_id = rq_id rq, rp_granted = False, rp_term = FenceToken 0 \<rparr>"

definition lease_grant :: "lease_request \<Rightarrow> fence_token \<Rightarrow> lease_reply" where
  "lease_grant rq t = \<lparr> rp_to = rq_from rq, rp_id = rq_id rq, rp_granted = True, rp_term = t \<rparr>"

definition on_request ::
  "'s store_ops \<Rightarrow> u64 \<Rightarrow> lease_request \<Rightarrow> lease_arbiter \<Rightarrow> 's \<Rightarrow> lease_reply \<times> lease_arbiter \<times> 's" where
  "on_request st now rq a s =
     (if now < la_quiet_until a then (lease_refusal rq, a, s)
      else if la_holder a = Some (rq_from rq)
        then let a' = a\<lparr> la_expiry := now + lc_duration (la_cfg a) \<rparr> in (lease_grant rq (la_term a'), a', s)
      else if la_holder a \<noteq> None \<and> now < la_expiry a then (lease_refusal rq, a, s)
      else
        case so_acquire st (la_key a) s of
          (Inl _, s') \<Rightarrow> (lease_refusal rq, a, s')
        | (Inr t, s') \<Rightarrow>
            let a' = a\<lparr> la_holder := Some (rq_from rq), la_term := t, la_expiry := now + lc_duration (la_cfg a) \<rparr>
            in (lease_grant rq t, a', s'))"

definition la_restart :: "u64 \<Rightarrow> lease_arbiter \<Rightarrow> lease_arbiter" where
  "la_restart now a = a\<lparr> la_holder := None, la_quiet_until := now + lc_duration (la_cfg a) \<rparr>"

section \<open>The holder\<close>

record lease_holder =
  lh_self :: u32
  lh_cfg :: lease_config
  lh_token :: fence_token
  lh_valid_until :: u64
  lh_outstanding :: bool
  lh_next_id :: u64
  lh_cur_id :: u64
  lh_sent_at :: u64
  lh_not_before :: u64

definition lh_create :: "u32 \<Rightarrow> lease_config \<Rightarrow> lease_holder" where
  "lh_create self c =
     \<lparr> lh_self = self, lh_cfg = c, lh_token = FenceToken 0, lh_valid_until = 0, lh_outstanding = False,
       lh_next_id = 0, lh_cur_id = 0, lh_sent_at = 0, lh_not_before = 0 \<rparr>"

definition believes_leader :: "u64 \<Rightarrow> lease_holder \<Rightarrow> bool" where
  "believes_leader now h \<longleftrightarrow> \<not> is_unfenced (lh_token h) \<and> now < lh_valid_until h"

definition lh_tick :: "u64 \<Rightarrow> lease_holder \<Rightarrow> lease_request option \<times> lease_holder" where
  "lh_tick now h =
     (let valid = believes_leader now h;
          need = (\<not> valid \<or> lh_valid_until h - now \<le> lc_renew_before (lh_cfg h))
      in if \<not> need then (None, h)
         else if lh_outstanding h \<and> now - lh_sent_at h < lc_retry (lh_cfg h) then (None, h)
         else if now < lh_not_before h then (None, h)
         else
           let h' = h\<lparr> lh_outstanding := True, lh_next_id := lh_next_id h + 1, lh_cur_id := lh_next_id h + 1,
                        lh_sent_at := now \<rparr>
           in (Some \<lparr> rq_from = lh_self h', rq_id = lh_cur_id h' \<rparr>, h'))"

definition on_reply :: "u64 \<Rightarrow> lease_reply \<Rightarrow> lease_holder \<Rightarrow> lease_holder" where
  "on_reply now r h =
     (if \<not> lh_outstanding h \<or> rp_id r \<noteq> lh_cur_id h then h
      else
        let h1 = h\<lparr> lh_outstanding := False \<rparr> in
        if \<not> rp_granted r then h1
        else if rp_term r < lh_token h1 then h1
        else
          let until = lh_sent_at h1 + lc_duration (lh_cfg h1) - lease_margin (lh_cfg h1) in
          if until \<le> now then h1
          else h1\<lparr> lh_token := rp_term r, lh_valid_until := until \<rparr>)"

definition backoff_until :: "u64 \<Rightarrow> lease_holder \<Rightarrow> lease_holder" where
  "backoff_until t h = h\<lparr> lh_not_before := t \<rparr>"

section \<open>The system\<close>

text \<open>
  An event happens at a real instant.  Messages carry, for the statement only, the instant they were sent
  at; \<open>arbiter_clock\<close> and \<open>holder_clock p\<close> are the clocks' readings at a real instant.
\<close>

record 's lease_system =
  ls_arbiter :: lease_arbiter
  ls_store :: 's
  ls_holder :: "u32 \<Rightarrow> lease_holder"
  ls_requests :: "(real \<times> lease_request) list"
  ls_replies :: "(real \<times> lease_reply) list"

datatype lease_event =
  HolderTick u32 | RequestArrives nat | ReplyArrives nat | ArbiterRestart | HolderBackoff u32 u64

definition lease_init :: "actor_id \<Rightarrow> lease_config \<Rightarrow> 's \<Rightarrow> 's lease_system" where
  "lease_init k c s =
     \<lparr> ls_arbiter = la_create k c, ls_store = s, ls_holder = (\<lambda>p. lh_create p c), ls_requests = [], ls_replies = [] \<rparr>"

definition set_holder :: "u32 \<Rightarrow> lease_holder \<Rightarrow> 's lease_system \<Rightarrow> 's lease_system" where
  "set_holder p h w = w\<lparr> ls_holder := (ls_holder w)(p := h) \<rparr>"

fun lease_step ::
  "'s store_ops \<Rightarrow> (real \<Rightarrow> u64) \<Rightarrow> (u32 \<Rightarrow> real \<Rightarrow> u64) \<Rightarrow> real \<times> lease_event \<Rightarrow> 's lease_system \<Rightarrow> 's lease_system" where
  "lease_step st ca ch (x, HolderTick p) w =
     (case lh_tick (ch p x) (ls_holder w p) of
        (None, h) \<Rightarrow> set_holder p h w
      | (Some rq, h) \<Rightarrow> (set_holder p h w)\<lparr> ls_requests := ls_requests w @ [(x, rq)] \<rparr>)"
| "lease_step st ca ch (x, RequestArrives n) w =
     (if n < length (ls_requests w) then
        case on_request st (ca x) (snd (ls_requests w ! n)) (ls_arbiter w) (ls_store w) of
          (rp, a, s) \<Rightarrow> w\<lparr> ls_arbiter := a, ls_store := s, ls_replies := ls_replies w @ [(x, rp)] \<rparr>
      else w)"
| "lease_step st ca ch (x, ReplyArrives n) w =
     (if n < length (ls_replies w) then
        let rp = snd (ls_replies w ! n); p = rp_to rp
        in set_holder p (on_reply (ch p x) rp (ls_holder w p)) w
      else w)"
| "lease_step st ca ch (x, ArbiterRestart) w = w\<lparr> ls_arbiter := la_restart (ca x) (ls_arbiter w) \<rparr>"
| "lease_step st ca ch (x, HolderBackoff p t) w = set_holder p (backoff_until t (ls_holder w p)) w"

definition lease_run ::
  "'s store_ops \<Rightarrow> (real \<Rightarrow> u64) \<Rightarrow> (u32 \<Rightarrow> real \<Rightarrow> u64) \<Rightarrow> (real \<times> lease_event) list \<Rightarrow> 's lease_system \<Rightarrow> 's lease_system" where
  "lease_run st ca ch evs w = foldl (\<lambda>w ev. lease_step st ca ch ev w) w evs"

section \<open>Clocks\<close>

definition reading :: "(real \<Rightarrow> u64) \<Rightarrow> real \<Rightarrow> real" where
  "reading clk x = real (unat (clk x))"

text \<open>
  A clock whose rate is within \<open>ppm\<close> parts per million of real time over the interval \<open>{0..T}\<close> and that
  is read in whole ticks.
\<close>

definition bounded_drift :: "u32 \<Rightarrow> real \<Rightarrow> (real \<Rightarrow> u64) \<Rightarrow> bool" where
  "bounded_drift ppm T clk \<longleftrightarrow>
     (\<forall>x y. 0 \<le> x \<and> x \<le> y \<and> y \<le> T \<longrightarrow>
        reading clk x \<le> reading clk y \<and>
        (1 - real (unat ppm) / 1000000) * (y - x) - 1 \<le> reading clk y - reading clk x \<and>
        reading clk y - reading clk x \<le> (1 + real (unat ppm) / 1000000) * (y - x) + 1)"

text \<open>The configuration fits: a drift below 100\%, a lease longer than its margin, no wrap-around until \<open>T\<close>.\<close>

definition lease_fits :: "lease_config \<Rightarrow> real \<Rightarrow> (real \<Rightarrow> u64) \<Rightarrow> bool" where
  "lease_fits c T clk \<longleftrightarrow> reading clk T + real (unat (lc_duration c)) < 2 ^ 64"

definition config_ok :: "lease_config \<Rightarrow> bool" where
  "config_ok c \<longleftrightarrow> unat (lc_drift_ppm c) < 1000000 \<and>
     unat (lc_duration c) * 2 * unat (lc_drift_ppm c) < 2 ^ 64 \<and> unat (lease_margin c) \<le> unat (lc_duration c)"

lemma margin_value:
  assumes "config_ok c"
  shows "unat (lease_margin c) = unat (lc_duration c) * 2 * unat (lc_drift_ppm c) div 1000000 + 2"
proof -
  let ?d = "unat (lc_duration c)" and ?p = "unat (lc_drift_ppm c)"
  have "?p < 2 ^ 32" using unat_less_exp [of "lc_drift_ppm c"] by simp
  then have u: "unat (ucast (lc_drift_ppm c) :: u64) = ?p" by (simp add: unsigned_ucast_eq take_bit_nat_eq_self)
  have "(ucast (lc_drift_ppm c) :: u64) = of_nat (unat (ucast (lc_drift_ppm c) :: u64))" by (simp add: of_nat_unat)
  then have "(ucast (lc_drift_ppm c) :: u64) = of_nat ?p" unfolding u .
  then have "lc_duration c * 2 * ucast (lc_drift_ppm c) = (of_nat (?d * 2 * ?p) :: u64)" by (simp add: of_nat_unat)
  then have n: "unat (lc_duration c * 2 * ucast (lc_drift_ppm c) :: u64) = ?d * 2 * ?p"
    using assms unat_of_nat [of "?d * 2 * ?p", where 'a = 64] by (simp add: config_ok_def)
  have q: "unat ((lc_duration c * 2 * ucast (lc_drift_ppm c) :: u64) div 1000000) = ?d * 2 * ?p div 1000000"
    unfolding unat_div n by simp
  have "?d * 2 * ?p < 2 ^ 64" using assms unfolding config_ok_def by blast
  also have "(2 :: nat) ^ 64 \<le> 2 ^ 63 * 1000000" by simp
  finally have "?d * 2 * ?p < 2 ^ 63 * 1000000" .
  then have "?d * 2 * ?p div 1000000 < 2 ^ 63" by (rule less_mult_imp_div_less)
  then show ?thesis
    unfolding lease_margin_def using unat_plus_no_wrap [of "(lc_duration c * 2 * ucast (lc_drift_ppm c) :: u64) div 1000000" 2] q
    by simp
qed

text \<open>The margin covers the drift of both clocks over one lease and their quantisation.\<close>

lemma margin_covers_drift:
  assumes "config_ok c"
  shows "2 * real (unat (lc_duration c)) * (real (unat (lc_drift_ppm c)) / 1000000) + 1 < real (unat (lease_margin c))"
proof -
  let ?n = "unat (lc_duration c) * 2 * unat (lc_drift_ppm c)"
  have "?n < (?n div 1000000 + 1) * 1000000" by (simp add: dividend_less_div_times)
  then have "real ?n < real ((?n div 1000000 + 1) * 1000000)" by (simp only: of_nat_less_iff)
  then have "real ?n / 1000000 < real (?n div 1000000) + 1" by simp
  then show ?thesis unfolding margin_value [OF assms] by (simp add: mult_ac)
qed

section \<open>The invariant of the system\<close>

definition granted_at :: "'s lease_system \<Rightarrow> u32 \<Rightarrow> real \<Rightarrow> real \<Rightarrow> bool" where
  "granted_at w p s g \<longleftrightarrow> (\<exists>rp. (g, rp) \<in> set (ls_replies w) \<and> rp_granted rp \<and> rp_to rp = p \<and> s \<le> g \<and>
     (s, \<lparr> rq_from = p, rq_id = rp_id rp \<rparr>) \<in> set (ls_requests w))"

definition lease_until :: "lease_config \<Rightarrow> u64 \<Rightarrow> u64" where
  "lease_until c sent = sent + lc_duration c - lease_margin c"

definition net_inv :: "lease_config \<Rightarrow> (u32 \<Rightarrow> real \<Rightarrow> u64) \<Rightarrow> real \<Rightarrow> 's lease_system \<Rightarrow> bool" where
  "net_inv c ch x w \<longleftrightarrow>
     (\<forall>s rq. (s, rq) \<in> set (ls_requests w) \<longrightarrow>
        0 \<le> s \<and> s \<le> x \<and> rq_id rq \<le> lh_next_id (ls_holder w (rq_from rq))) \<and>
     (\<forall>s s' rq. (s, rq) \<in> set (ls_requests w) \<longrightarrow> (s', rq) \<in> set (ls_requests w) \<longrightarrow> s = s') \<and>
     (\<forall>g rp. (g, rp) \<in> set (ls_replies w) \<longrightarrow> rp_granted rp \<longrightarrow> 0 \<le> g \<and> g \<le> x \<and>
        (\<exists>s\<le>g. (s, \<lparr> rq_from = rp_to rp, rq_id = rp_id rp \<rparr>) \<in> set (ls_requests w)))"

lemma net_inv_D:
  assumes "net_inv c ch x w"
  shows "(s, rq) \<in> set (ls_requests w) \<Longrightarrow> 0 \<le> s"
    and "(s, rq) \<in> set (ls_requests w) \<Longrightarrow> s \<le> x"
    and "(s, rq) \<in> set (ls_requests w) \<Longrightarrow> rq_id rq \<le> lh_next_id (ls_holder w (rq_from rq))"
    and "(s, rq) \<in> set (ls_requests w) \<Longrightarrow> (s', rq) \<in> set (ls_requests w) \<Longrightarrow> s = s'"
    and "(g, rp) \<in> set (ls_replies w) \<Longrightarrow> rp_granted rp \<Longrightarrow> 0 \<le> g"
    and "(g, rp) \<in> set (ls_replies w) \<Longrightarrow> rp_granted rp \<Longrightarrow> g \<le> x"
    and "(g, rp) \<in> set (ls_replies w) \<Longrightarrow> rp_granted rp \<Longrightarrow>
      \<exists>s\<le>g. (s, \<lparr> rq_from = rp_to rp, rq_id = rp_id rp \<rparr>) \<in> set (ls_requests w)"
  using assms unfolding net_inv_def by blast+

definition holders_inv :: "lease_config \<Rightarrow> (u32 \<Rightarrow> real \<Rightarrow> u64) \<Rightarrow> 's lease_system \<Rightarrow> bool" where
  "holders_inv c ch w \<longleftrightarrow>
     (\<forall>p. let h = ls_holder w p in
        lh_self h = p \<and> lh_cfg h = c \<and>
        (lh_outstanding h \<longrightarrow> (\<exists>s. (s, \<lparr> rq_from = p, rq_id = lh_cur_id h \<rparr>) \<in> set (ls_requests w) \<and> lh_sent_at h = ch p s)) \<and>
        (lh_valid_until h \<noteq> 0 \<longrightarrow> (\<exists>s g. granted_at w p s g \<and> lh_valid_until h = lease_until c (ch p s))))"

text \<open>When the arbiter may grant the lease to somebody other than \<open>p\<close>, seen from a grant to \<open>p\<close>.\<close>

definition arbiter_bound :: "lease_arbiter \<Rightarrow> nat \<Rightarrow> u32 \<Rightarrow> nat" where
  "arbiter_bound a now p =
     (case la_holder a of
        None \<Rightarrow> unat (la_quiet_until a)
      | Some q \<Rightarrow> if p = q then unat (la_expiry a) else now)"

definition grants_inv :: "lease_config \<Rightarrow> (real \<Rightarrow> u64) \<Rightarrow> real \<Rightarrow> 's lease_system \<Rightarrow> bool" where
  "grants_inv c ca x w \<longleftrightarrow>
     la_cfg (ls_arbiter w) = c \<and>
     (\<forall>g rp. (g, rp) \<in> set (ls_replies w) \<longrightarrow> rp_granted rp \<longrightarrow>
        unat (ca g) + unat (lc_duration c) \<le> arbiter_bound (ls_arbiter w) (unat (ca x)) (rp_to rp)) \<and>
     (\<forall>g rp g' rp'. (g, rp) \<in> set (ls_replies w) \<longrightarrow> (g', rp') \<in> set (ls_replies w) \<longrightarrow>
        rp_granted rp \<longrightarrow> rp_granted rp' \<longrightarrow> rp_to rp \<noteq> rp_to rp' \<longrightarrow> g \<le> g' \<longrightarrow>
          unat (ca g) + unat (lc_duration c) \<le> unat (ca g'))"

lemma grants_inv_D:
  assumes "grants_inv c ca x w"
  shows "la_cfg (ls_arbiter w) = c"
    and "(g, rp) \<in> set (ls_replies w) \<Longrightarrow> rp_granted rp \<Longrightarrow>
      unat (ca g) + unat (lc_duration c) \<le> arbiter_bound (ls_arbiter w) (unat (ca x)) (rp_to rp)"
    and "(g, rp) \<in> set (ls_replies w) \<Longrightarrow> (g', rp') \<in> set (ls_replies w) \<Longrightarrow> rp_granted rp \<Longrightarrow> rp_granted rp' \<Longrightarrow>
      rp_to rp \<noteq> rp_to rp' \<Longrightarrow> g \<le> g' \<Longrightarrow> unat (ca g) + unat (lc_duration c) \<le> unat (ca g')"
  using assms unfolding grants_inv_def by blast+

text \<open>Facts about the clocks that the invariant needs.\<close>

lemma drift_mono:
  assumes "bounded_drift ppm T clk" and "0 \<le> x" and "x \<le> y" and "y \<le> T"
  shows "unat (clk x) \<le> unat (clk y)"
  using assms(1) [unfolded bounded_drift_def reading_def, rule_format, of x y] assms(2-4) by simp

lemma clock_plus_duration:
  assumes "bounded_drift ppm T clk" and "lease_fits c T clk" and "0 \<le> x" and "x \<le> T"
  shows "unat (clk x + lc_duration c) = unat (clk x) + unat (lc_duration c)"
proof -
  have "unat (clk x) \<le> unat (clk T)" using drift_mono [OF assms(1,3,4)] by simp
  moreover have "real (unat (clk T) + unat (lc_duration c)) < real (2 ^ 64)"
    using assms(2) by (simp add: lease_fits_def reading_def)
  then have "unat (clk T) + unat (lc_duration c) < 2 ^ 64" by (simp only: of_nat_less_iff)
  ultimately show ?thesis by (intro unat_plus_no_wrap) linarith
qed

lemma grants_inv_later:
  assumes "grants_inv c ca x w" and "unat (ca x) \<le> unat (ca y)"
  shows "grants_inv c ca y w"
proof -
  have "arbiter_bound a (unat (ca x)) p \<le> arbiter_bound a (unat (ca y)) p" for a p
    using assms(2) by (simp add: arbiter_bound_def split: option.split)
  with grants_inv_D [OF assms(1)] show ?thesis unfolding grants_inv_def by (blast intro: order_trans)
qed

section \<open>Preservation\<close>

lemma net_inv_later: "net_inv c ch x w \<Longrightarrow> x \<le> y \<Longrightarrow> net_inv c ch y w"
  unfolding net_inv_def by (blast intro: order_trans)

lemma granted_at_mono:
  assumes "granted_at w p s g" and "set (ls_requests w) \<subseteq> set (ls_requests w')" and "set (ls_replies w) \<subseteq> set (ls_replies w')"
  shows "granted_at w' p s g"
  using assms unfolding granted_at_def by blast

text \<open>A holder that sends nothing changes only itself.\<close>

lemma set_holder_fields [simp]:
  "ls_arbiter (set_holder p h w) = ls_arbiter w" "ls_store (set_holder p h w) = ls_store w"
  "ls_requests (set_holder p h w) = ls_requests w" "ls_replies (set_holder p h w) = ls_replies w"
  "ls_holder (set_holder p h w) q = (if q = p then h else ls_holder w q)"
  by (simp_all add: set_holder_def)

lemma granted_at_set_holder [simp]: "granted_at (set_holder p h w) q s g = granted_at w q s g"
  by (simp add: granted_at_def)

lemma net_inv_set_holder:
  "net_inv c ch x w \<Longrightarrow> lh_next_id h = lh_next_id (ls_holder w p) \<Longrightarrow> net_inv c ch x (set_holder p h w)"
  unfolding net_inv_def by auto

lemma grants_inv_set_holder [simp]: "grants_inv c ca x (set_holder p h w) = grants_inv c ca x w"
  by (simp only: grants_inv_def set_holder_fields)

lemma holders_inv_set_holder:
  assumes "holders_inv c ch w" and "lh_self h = p" and "lh_cfg h = c"
    and "lh_outstanding h \<Longrightarrow> \<exists>s. (s, \<lparr> rq_from = p, rq_id = lh_cur_id h \<rparr>) \<in> set (ls_requests w) \<and> lh_sent_at h = ch p s"
    and "lh_valid_until h \<noteq> 0 \<Longrightarrow> \<exists>s g. granted_at w p s g \<and> lh_valid_until h = lease_until c (ch p s)"
  shows "holders_inv c ch (set_holder p h w)"
  using assms unfolding holders_inv_def Let_def by simp

lemma holders_inv_D:
  assumes "holders_inv c ch w"
  shows "lh_self (ls_holder w p) = p" and "lh_cfg (ls_holder w p) = c"
    and "lh_outstanding (ls_holder w p) \<Longrightarrow>
      \<exists>s. (s, \<lparr> rq_from = p, rq_id = lh_cur_id (ls_holder w p) \<rparr>) \<in> set (ls_requests w) \<and> lh_sent_at (ls_holder w p) = ch p s"
    and "lh_valid_until (ls_holder w p) \<noteq> 0 \<Longrightarrow>
      \<exists>s g. granted_at w p s g \<and> lh_valid_until (ls_holder w p) = lease_until c (ch p s)"
  using assms unfolding holders_inv_def Let_def by blast+

text \<open>A request joins the network.\<close>

lemma tick_inv:
  assumes net: "net_inv c ch x w" and hol: "holders_inv c ch w" and "0 \<le> x"
    and id: "unat (lh_next_id (ls_holder w p)) < 2 ^ 64 - 1"
    and w'_def: "w' = lease_step st ca ch (x, HolderTick p) w"
  shows "net_inv c ch x w' \<and> holders_inv c ch w' \<and> (grants_inv c ca x w \<longrightarrow> grants_inv c ca x w') \<and>
         unat (lh_next_id (ls_holder w' q)) \<le> Suc (unat (lh_next_id (ls_holder w q)))"
proof -
  let ?h = "ls_holder w p"
  obtain o' h where t: "lh_tick (ch p x) ?h = (o', h)" by (rule prod.exhaust)
  note H = holders_inv_D [OF hol]
  show ?thesis
  proof (cases o')
    case None
    then have "h = ?h" using t by (auto simp: lh_tick_def Let_def split: if_splits)
    then have "w' = w" using t None by (simp add: w'_def set_holder_def)
    then show ?thesis using net hol by simp
  next
    case (Some rq)
    then have h: "h = ?h\<lparr> lh_outstanding := True, lh_next_id := lh_next_id ?h + 1, lh_cur_id := lh_next_id ?h + 1,
        lh_sent_at := ch p x \<rparr>" and rq: "rq = \<lparr> rq_from = p, rq_id = lh_next_id ?h + 1 \<rparr>"
      using t H(1) by (auto simp: lh_tick_def Let_def split: if_splits)
    have w': "w' = (set_holder p h w)\<lparr> ls_requests := ls_requests w @ [(x, rq)] \<rparr>" using t Some by (simp add: w'_def)
    have lt: "lh_next_id ?h < lh_next_id ?h + 1" by (rule word_less_plus_1 [OF id])
    have gr: "granted_at w r s g \<Longrightarrow> granted_at w' r s g" for r s g by (rule granted_at_mono) (auto simp: w')
    have new: "rq' \<noteq> rq" if "(s, rq') \<in> set (ls_requests w)" for s rq'
      using net_inv_D(3) [OF net that] lt by (auto simp: rq)
    have "net_inv c ch x w'"
      unfolding net_inv_def
    proof (intro conjI allI impI)
      fix s rq' assume "(s, rq') \<in> set (ls_requests w')"
      then have "(s, rq') \<in> set (ls_requests w) \<or> s = x \<and> rq' = rq" by (auto simp: w')
      then have "0 \<le> s \<and> s \<le> x \<and> rq_id rq' \<le> lh_next_id (ls_holder w' (rq_from rq'))"
      proof
        assume m: "(s, rq') \<in> set (ls_requests w)"
        then show ?thesis using net_inv_D(1-3) [OF net m] lt by (auto simp: w' h)
      next
        assume "s = x \<and> rq' = rq"
        then show ?thesis using assms(3) by (simp add: w' h rq)
      qed
      then show "0 \<le> s" "s \<le> x" "rq_id rq' \<le> lh_next_id (ls_holder w' (rq_from rq'))" by blast+
    next
      fix s s' rq' assume "(s, rq') \<in> set (ls_requests w')" "(s', rq') \<in> set (ls_requests w')"
      then have "((s, rq') \<in> set (ls_requests w) \<or> s = x \<and> rq' = rq) \<and> ((s', rq') \<in> set (ls_requests w) \<or> s' = x \<and> rq' = rq)"
        by (auto simp: w')
      then show "s = s'" using net_inv_D(4) [OF net, of s rq' s'] new [of s rq'] new [of s' rq'] by blast
    next
      fix g rp assume "(g, rp) \<in> set (ls_replies w')" "rp_granted rp"
      then have r: "(g, rp) \<in> set (ls_replies w)" "rp_granted rp" by (simp_all add: w')
      show "0 \<le> g" "g \<le> x" using net_inv_D(5,6) [OF net r] by blast+
      show "\<exists>s\<le>g. (s, \<lparr> rq_from = rp_to rp, rq_id = rp_id rp \<rparr>) \<in> set (ls_requests w')"
        using net_inv_D(7) [OF net r] by (auto simp: w')
    qed
    moreover have "holders_inv c ch w'"
      unfolding holders_inv_def Let_def
    proof (intro allI conjI impI)
      fix r
      show "lh_self (ls_holder w' r) = r" "lh_cfg (ls_holder w' r) = c" using H(1,2) by (simp_all add: w' h)
      assume "lh_outstanding (ls_holder w' r)"
      then show "\<exists>s. (s, \<lparr> rq_from = r, rq_id = lh_cur_id (ls_holder w' r) \<rparr>) \<in> set (ls_requests w') \<and>
          lh_sent_at (ls_holder w' r) = ch r s"
        using H(3) [of r] by (cases "r = p") (auto simp: w' h rq)
    next
      fix r
      assume "lh_valid_until (ls_holder w' r) \<noteq> 0"
      then show "\<exists>s g. granted_at w' r s g \<and> lh_valid_until (ls_holder w' r) = lease_until c (ch r s)"
        using H(4) [of r] gr by (cases "r = p") (fastforce simp: w' h)+
    qed
    moreover have "grants_inv c ca x w'" if "grants_inv c ca x w" using that unfolding grants_inv_def by (simp add: w')
    moreover have "unat (lh_next_id ?h + 1) = Suc (unat (lh_next_id ?h))" using unat_plus_1_no_wrap [OF id] .
    ultimately show ?thesis by (simp add: w' h)
  qed
qed

text \<open>A reply reaches a holder.\<close>

lemma reply_inv:
  assumes net: "net_inv c ch x w" and hol: "holders_inv c ch w" and rp: "(g, rp) \<in> set (ls_replies w)"
  defines "h' \<equiv> on_reply (ch (rp_to rp) x) rp (ls_holder w (rp_to rp))"
  shows "holders_inv c ch (set_holder (rp_to rp) h' w)" and "lh_next_id h' = lh_next_id (ls_holder w (rp_to rp))"
proof -
  let ?p = "rp_to rp"
  let ?h = "ls_holder w ?p"
  note H = holders_inv_D [OF hol, of ?p]
  show "lh_next_id h' = lh_next_id ?h" by (simp add: h'_def on_reply_def Let_def)
  have f: "lh_self h' = ?p" "lh_cfg h' = c" "lh_cur_id h' = lh_cur_id ?h" "lh_sent_at h' = lh_sent_at ?h"
    "lh_outstanding h' \<Longrightarrow> lh_outstanding ?h" using H(1,2) by (simp_all add: h'_def on_reply_def Let_def split: if_splits)
  have "\<exists>s g. granted_at w ?p s g \<and> lh_valid_until h' = lease_until c (ch ?p s)" if v: "lh_valid_until h' \<noteq> 0"
  proof (cases "lh_valid_until h' = lh_valid_until ?h")
    case True
    with H(4) v show ?thesis by simp
  next
    case False
    then have a: "lh_outstanding ?h" "rp_id rp = lh_cur_id ?h" "rp_granted rp"
      and vu: "lh_valid_until h' = lease_until c (lh_sent_at ?h)"
      using H(2) by (auto simp: h'_def on_reply_def Let_def lease_until_def split: if_splits)
    from H(3) [OF a(1)] obtain s where s: "(s, \<lparr> rq_from = ?p, rq_id = rp_id rp \<rparr>) \<in> set (ls_requests w)"
      "lh_sent_at ?h = ch ?p s" using a(2) by auto
    from net_inv_D(7) [OF net rp a(3)] obtain s' where "s' \<le> g" "(s', \<lparr> rq_from = ?p, rq_id = rp_id rp \<rparr>) \<in> set (ls_requests w)"
      by blast
    moreover from net_inv_D(4) [OF net s(1) this(2)] have "s = s'" .
    ultimately have "granted_at w ?p s g" using rp a(3) unfolding granted_at_def by blast
    then show ?thesis using vu s(2) by auto
  qed
  then show "holders_inv c ch (set_holder ?p h' w)"
    using H(3) f by (intro holders_inv_set_holder [OF hol]) simp_all
qed

text \<open>A request reaches the arbiter.\<close>

lemma on_request_shape:
  assumes "on_request st now rq ar s = (rp, a, s')"
  shows "rp_to rp = rq_from rq \<and> rp_id rp = rq_id rq \<and> la_cfg a = la_cfg ar \<and>
    (if rp_granted rp
     then la_holder a = Some (rq_from rq) \<and> la_expiry a = now + lc_duration (la_cfg ar) \<and> la_quiet_until ar \<le> now \<and>
          (la_holder ar = Some (rq_from rq) \<or> la_holder ar = None \<or> la_expiry ar \<le> now)
     else a = ar)"
  using assms
  by (auto simp: on_request_def lease_refusal_def lease_grant_def Let_def not_less split: if_splits sum.splits prod.splits)

lemma request_inv:
  assumes net: "net_inv c ch x w" and hol: "holders_inv c ch w" and gr: "grants_inv c ca x w" and x: "0 \<le> x" "x \<le> T"
    and drift: "bounded_drift ppm T ca" and fits: "lease_fits c T ca" and D: "0 < unat (lc_duration c)"
    and rq: "(s, rq) \<in> set (ls_requests w)"
    and rs: "on_request st (ca x) rq (ls_arbiter w) (ls_store w) = (rp, a, s')"
  defines "w' \<equiv> w\<lparr> ls_arbiter := a, ls_store := s', ls_replies := ls_replies w @ [(x, rp)] \<rparr>"
  shows "net_inv c ch x w' \<and> holders_inv c ch w' \<and> grants_inv c ca x w'"
proof -
  let ?a = "ls_arbiter w" and ?D = "unat (lc_duration c)"
  note S = on_request_shape [OF rs]
  have cfg: "la_cfg ?a = c" by (rule grants_inv_D(1) [OF gr])
  have fld: "ls_requests w' = ls_requests w" "ls_holder w' = ls_holder w" "ls_arbiter w' = a"
    "(g, r) \<in> set (ls_replies w') \<longleftrightarrow> (g, r) \<in> set (ls_replies w) \<or> g = x \<and> r = rp" for g r
    by (auto simp: w'_def)
  have "net_inv c ch x w'"
    unfolding net_inv_def fld
  proof (intro conjI allI impI)
    fix s rq assume m: "(s, rq) \<in> set (ls_requests w)"
    show "0 \<le> s" "s \<le> x" "rq_id rq \<le> lh_next_id (ls_holder w (rq_from rq))" using net_inv_D(1-3) [OF net m] by blast+
  next
    fix s s' rq assume "(s, rq) \<in> set (ls_requests w)" "(s', rq) \<in> set (ls_requests w)"
    then show "s = s'" by (rule net_inv_D(4) [OF net])
  next
    fix g r assume r: "(g, r) \<in> set (ls_replies w) \<or> g = x \<and> r = rp" and gt: "rp_granted r"
    have "\<lparr> rq_from = rp_to rp, rq_id = rp_id rp \<rparr> = rq" using S by simp
    then have "\<exists>s\<le>x. (s, \<lparr> rq_from = rp_to rp, rq_id = rp_id rp \<rparr>) \<in> set (ls_requests w)"
      using rq net_inv_D(2) [OF net rq] by auto
    with r gt net_inv_D(5-7) [OF net] x
    show "0 \<le> g" "g \<le> x" "\<exists>s\<le>g. (s, \<lparr> rq_from = rp_to r, rq_id = rp_id r \<rparr>) \<in> set (ls_requests w)" by blast+
  qed
  moreover have "holders_inv c ch w'"
  proof -
    have "granted_at w p t g \<Longrightarrow> granted_at w' p t g" for p t g by (rule granted_at_mono) (auto simp: w'_def)
    then show ?thesis using hol unfolding holders_inv_def Let_def fld by blast
  qed
  moreover have "grants_inv c ca x w'"
  proof (cases "rp_granted rp")
    case False
    then have "a = ?a" using S by simp
    then show ?thesis using grants_inv_D [OF gr] False unfolding grants_inv_def fld by blast
  next
    case True
    have mono: "unat (ca g) \<le> unat (ca x)" if "(g, r) \<in> set (ls_replies w)" "rp_granted r" for g r
      by (rule drift_mono [OF drift net_inv_D(5) [OF net that] net_inv_D(6) [OF net that] x(2)])
    have ex: "unat (ca x + lc_duration c) = unat (ca x) + ?D" by (rule clock_plus_duration [OF drift fits x])
    have G: "la_holder a = Some (rq_from rq)" "la_expiry a = ca x + lc_duration c" "la_quiet_until ?a \<le> ca x"
      "la_holder ?a = Some (rq_from rq) \<or> la_holder ?a = None \<or> la_expiry ?a \<le> ca x" "la_cfg a = c"
      using S True cfg by auto
    have others: "unat (ca g) + ?D \<le> unat (ca x)"
      if g: "(g, r) \<in> set (ls_replies w)" "rp_granted r" "rp_to r \<noteq> rq_from rq" for g r
      using grants_inv_D(2) [OF gr g(1,2)] G(3,4) g(3)
      by (auto simp: arbiter_bound_def word_le_nat_alt split: option.splits if_splits)
    have late: "\<not> x \<le> g" if g: "(g, r) \<in> set (ls_replies w)" "rp_granted r" "rp_to r \<noteq> rq_from rq" for g r
    proof
      assume "x \<le> g"
      with net_inv_D(6) [OF net g(1,2)] have "g = x" by simp
      with others [OF g] D show False by simp
    qed
    show ?thesis
      unfolding grants_inv_def fld
    proof (intro conjI allI impI)
      show "la_cfg a = c" by (rule G(5))
    next
      fix g r assume "(g, r) \<in> set (ls_replies w) \<or> g = x \<and> r = rp" "rp_granted r"
      then show "unat (ca g) + ?D \<le> arbiter_bound a (unat (ca x)) (rp_to r)"
        using mono [of g r] others [of g r] S by (auto simp: arbiter_bound_def G(1,2) ex)
    next
      fix g r g' r'
      assume "(g, r) \<in> set (ls_replies w) \<or> g = x \<and> r = rp" "(g', r') \<in> set (ls_replies w) \<or> g' = x \<and> r' = rp"
        and "rp_granted r" "rp_granted r'" "rp_to r \<noteq> rp_to r'" "g \<le> g'"
      then show "unat (ca g) + ?D \<le> unat (ca g')"
        using grants_inv_D(3) [OF gr, of g r g' r'] others [of g r] late [of g' r'] S by auto
    qed
  qed
  ultimately show ?thesis by blast
qed

lemma restart_inv:
  assumes net: "net_inv c ch x w" and hol: "holders_inv c ch w" and gr: "grants_inv c ca x w" and x: "0 \<le> x" "x \<le> T"
    and drift: "bounded_drift ppm T ca" and fits: "lease_fits c T ca"
  defines "w' \<equiv> w\<lparr> ls_arbiter := la_restart (ca x) (ls_arbiter w) \<rparr>"
  shows "net_inv c ch x w' \<and> holders_inv c ch w' \<and> grants_inv c ca x w'"
proof -
  have mono: "unat (ca g) \<le> unat (ca x)" if "(g, r) \<in> set (ls_replies w)" "rp_granted r" for g r
    by (rule drift_mono [OF drift net_inv_D(5) [OF net that] net_inv_D(6) [OF net that] x(2)])
  have fld: "ls_requests w' = ls_requests w" "ls_holder w' = ls_holder w" "ls_replies w' = ls_replies w"
    "ls_arbiter w' = la_restart (ca x) (ls_arbiter w)" by (simp_all add: w'_def)
  have "arbiter_bound (la_restart (ca x) (ls_arbiter w)) n p = unat (ca x) + unat (lc_duration c)" for n p
    using grants_inv_D(1) [OF gr] clock_plus_duration [OF drift fits x] by (simp add: arbiter_bound_def la_restart_def)
  then have "grants_inv c ca x w'"
    using grants_inv_D(1,3) [OF gr] mono unfolding grants_inv_def fld by (auto simp: la_restart_def)
  moreover have "net_inv c ch x w'" using net unfolding net_inv_def fld .
  moreover have "granted_at w' p s g = granted_at w p s g" for p s g by (simp add: granted_at_def fld)
  then have "holders_inv c ch w'" using hol unfolding holders_inv_def Let_def fld by simp
  ultimately show ?thesis by blast
qed

definition lease_inv ::
  "lease_config \<Rightarrow> (real \<Rightarrow> u64) \<Rightarrow> (u32 \<Rightarrow> real \<Rightarrow> u64) \<Rightarrow> nat \<Rightarrow> real \<Rightarrow> 's lease_system \<Rightarrow> bool" where
  "lease_inv c ca ch n x w \<longleftrightarrow> net_inv c ch x w \<and> holders_inv c ch w \<and> grants_inv c ca x w \<and>
     (\<forall>p. unat (lh_next_id (ls_holder w p)) + n < 2 ^ 64)"

lemma lease_step_inv:
  assumes inv: "lease_inv c ca ch (Suc n) x0 w" and x: "0 \<le> x0" "x0 \<le> x" "x \<le> T"
    and drift: "bounded_drift ppm T ca" and fits: "lease_fits c T ca" and D: "0 < unat (lc_duration c)"
  shows "lease_inv c ca ch n x (lease_step st ca ch (x, ev) w)"
proof -
  have I: "net_inv c ch x w" "holders_inv c ch w" "grants_inv c ca x w" "\<forall>p. unat (lh_next_id (ls_holder w p)) + Suc n < 2 ^ 64"
    using inv net_inv_later [OF _ x(2)] grants_inv_later drift_mono [OF drift x(1,2,3)] unfolding lease_inv_def by blast+
  have x0: "0 \<le> x" using x(1,2) by simp
  show ?thesis
  proof (cases ev)
    case (HolderTick p)
    have "unat (lh_next_id (ls_holder w p)) < 2 ^ 64 - 1" using spec [OF I(4), of p] by simp
    note t = tick_inv [OF I(1,2) x0 this refl, of st ca]
    have "unat (lh_next_id (ls_holder (lease_step st ca ch (x, HolderTick p) w) q)) + n < 2 ^ 64" for q
      using t [of q] spec [OF I(4), of q] by simp
    with t I(3) show ?thesis unfolding HolderTick lease_inv_def by blast
  next
    case (RequestArrives k)
    show ?thesis
    proof (cases "k < length (ls_requests w)")
      case True
      obtain s rq where r: "ls_requests w ! k = (s, rq)" by (rule prod.exhaust)
      then have m: "(s, rq) \<in> set (ls_requests w)" using nth_mem [OF True] by simp
      obtain rp a s' where o: "on_request st (ca x) rq (ls_arbiter w) (ls_store w) = (rp, a, s')" by (rule prod_cases3)
      from request_inv [OF I(1-3) x0 x(3) drift fits D m o] I(4) True r o show ?thesis
        unfolding RequestArrives lease_inv_def by (simp add: Suc_lessD)
    next
      case False
      with I show ?thesis unfolding RequestArrives lease_inv_def by (simp add: Suc_lessD)
    qed
  next
    case (ReplyArrives k)
    show ?thesis
    proof (cases "k < length (ls_replies w)")
      case True
      obtain g rp where r: "ls_replies w ! k = (g, rp)" by (rule prod.exhaust)
      then have m: "(g, rp) \<in> set (ls_replies w)" using nth_mem [OF True] by simp
      note R = reply_inv [OF I(1,2) m]
      show ?thesis
        using R(1) net_inv_set_holder [OF I(1) R(2)] I(3,4) True r
        unfolding ReplyArrives lease_inv_def by (simp add: Let_def R(2) Suc_lessD)
    next
      case False
      with I show ?thesis unfolding ReplyArrives lease_inv_def by (simp add: Suc_lessD)
    qed
  next
    case ArbiterRestart
    from restart_inv [OF I(1-3) x0 x(3) drift fits] I(4) show ?thesis
      unfolding ArbiterRestart lease_inv_def by (simp add: Suc_lessD)
  next
    case (HolderBackoff p t)
    have "net_inv c ch x (set_holder p (backoff_until t (ls_holder w p)) w)"
      by (rule net_inv_set_holder [OF I(1)]) (simp add: backoff_until_def)
    moreover have "holders_inv c ch (set_holder p (backoff_until t (ls_holder w p)) w)"
      using holders_inv_D [OF I(2), of p] by (intro holders_inv_set_holder [OF I(2)]) (simp_all add: backoff_until_def)
    ultimately show ?thesis using I(3,4) unfolding HolderBackoff lease_inv_def by (simp add: backoff_until_def Suc_lessD)
  qed
qed

lemma lease_run_inv:
  assumes "lease_inv c ca ch (length evs + n) x0 w" and "0 \<le> x0" and "sorted (x0 # map fst evs @ [x])" and "x \<le> T"
    and "bounded_drift ppm T ca" and "lease_fits c T ca" and "0 < unat (lc_duration c)"
  shows "\<exists>y. lease_inv c ca ch n y (lease_run st ca ch evs w) \<and> 0 \<le> y \<and> y \<le> x"
  using assms(1-3)
proof (induction evs arbitrary: x0 w)
  case Nil
  then show ?case by (auto simp: lease_run_def)
next
  case (Cons ev evs)
  obtain t e where ev: "ev = (t, e)" by (rule prod.exhaust)
  have t: "x0 \<le> t" "t \<le> x" "0 \<le> t" using Cons.prems(2,3) by (auto simp: ev)
  have "lease_inv c ca ch (Suc (length evs + n)) x0 w" using Cons.prems(1) by simp
  from lease_step_inv [OF this Cons.prems(2) t(1) _ assms(5-7)] t(2) assms(4)
  have "lease_inv c ca ch (length evs + n) t (lease_step st ca ch ev w)" by (simp add: ev)
  from Cons.IH [OF this t(3)] Cons.prems(3) show ?case by (simp add: ev lease_run_def)
qed

lemma lease_init_inv: "n < 2 ^ 64 \<Longrightarrow> lease_inv c ca ch n 0 (lease_init k c s)"
  by (simp add: lease_inv_def lease_init_def net_inv_def holders_inv_def grants_inv_def la_create_def lh_create_def)

section \<open>Lease belief is exclusive\<close>

lemma belief_window:
  assumes "bounded_drift (lc_drift_ppm c) T clk" and "lease_fits c T clk" and "config_ok c" and "0 \<le> s" and "s \<le> x" and "x \<le> T"
    and "clk x < lease_until c (clk s)"
  shows "(1 - real (unat (lc_drift_ppm c)) / 1000000) * (x - s) \<le> real (unat (lc_duration c)) - real (unat (lease_margin c))"
proof -
  have m: "unat (lease_margin c) \<le> unat (lc_duration c)" using assms(3) by (simp add: config_ok_def)
  have e: "unat (clk s + lc_duration c) = unat (clk s) + unat (lc_duration c)"
    using clock_plus_duration [OF assms(1,2,4)] assms(5,6) by simp
  then have "lease_margin c \<le> clk s + lc_duration c" using m by (simp add: word_le_nat_alt)
  then have "unat (lease_until c (clk s)) = unat (clk s) + unat (lc_duration c) - unat (lease_margin c)"
    unfolding lease_until_def using e by (simp add: unat_minus_le)
  then have "unat (clk x) + unat (lease_margin c) + 1 \<le> unat (clk s) + unat (lc_duration c)"
    using assms(7) m by (simp add: word_less_nat_alt)
  then have "real (unat (clk x) + unat (lease_margin c) + 1) \<le> real (unat (clk s) + unat (lc_duration c))"
    by (simp only: of_nat_le_iff)
  then have r: "reading clk x - reading clk s \<le> real (unat (lc_duration c)) - real (unat (lease_margin c)) - 1"
    by (simp add: reading_def)
  have "(1 - real (unat (lc_drift_ppm c)) / 1000000) * (x - s) - 1 \<le> reading clk x - reading clk s"
    using assms(1) [unfolded bounded_drift_def, rule_format, of s x] assms(4-6) by simp
  with r show ?thesis by linarith
qed

lemma drift_arith:
  fixes r d m :: real
  assumes "(1 - r) * (d - 1) \<le> (1 + r) * (d - m)" and "0 \<le> r" and "0 \<le> m" and "2 * d * r + 1 < m"
  shows False
proof -
  define p q where "p = r * d" and "q = r * m"
  have "(1 - r) * (d - 1) = d - 1 - p + r" "(1 + r) * (d - m) = d - m + p - q" "2 * d * r = p + p"
    by (simp_all add: algebra_simps p_def q_def)
  moreover have "0 \<le> q" using assms(2,3) by (simp add: q_def)
  ultimately show False using assms by simp
qed

lemma beliefs_conflict:
  assumes inv: "lease_inv c ca ch n y w" and y: "y \<le> x" "x \<le> T" and cok: "config_ok c"
    and drift: "bounded_drift (lc_drift_ppm c) T ca" "\<And>p. bounded_drift (lc_drift_ppm c) T (ch p)"
    and fits: "\<And>p. lease_fits c T (ch p)"
    and p: "granted_at w p s g" "ch p x < lease_until c (ch p s)" and q: "granted_at w q s' g'" and ne: "p \<noteq> q" and le: "g \<le> g'"
  shows False
proof -
  let ?r = "real (unat (lc_drift_ppm c)) / 1000000" and ?D = "real (unat (lc_duration c))" and ?m = "real (unat (lease_margin c))"
  have net: "net_inv c ch y w" and gr: "grants_inv c ca y w" using inv by (simp_all add: lease_inv_def)
  obtain rp rp' where rp: "(g, rp) \<in> set (ls_replies w)" "rp_granted rp" "rp_to rp = p" "s \<le> g"
      "(s, \<lparr> rq_from = p, rq_id = rp_id rp \<rparr>) \<in> set (ls_requests w)"
    and rp': "(g', rp') \<in> set (ls_replies w)" "rp_granted rp'" "rp_to rp' = q"
    using p(1) q unfolding granted_at_def by blast
  have b: "0 \<le> s" "0 \<le> g" "g' \<le> y"
    using net_inv_D(1) [OF net rp(5)] net_inv_D(5) [OF net rp(1,2)] net_inv_D(6) [OF net rp'(1,2)] by blast+
  have "unat (ca g) + unat (lc_duration c) \<le> unat (ca g')"
    using grants_inv_D(3) [OF gr rp(1) rp'(1) rp(2) rp'(2)] rp(3) rp'(3) ne le by simp
  then have "real (unat (ca g) + unat (lc_duration c)) \<le> real (unat (ca g'))" by (simp only: of_nat_le_iff)
  then have "?D \<le> reading ca g' - reading ca g" by (simp add: reading_def)
  also have "\<dots> \<le> (1 + ?r) * (g' - g) + 1"
    using drift(1) [unfolded bounded_drift_def, rule_format, of g g'] b y le by simp
  finally have lo: "?D - 1 \<le> (1 + ?r) * (g' - g)" by simp
  have r0: "0 \<le> ?r" "?r < 1" using cok by (simp_all add: config_ok_def)
  have "(1 - ?r) * (g' - g) \<le> (1 - ?r) * (x - s)"
    using r0 b(3) y(1) rp(4) by (intro mult_left_mono) simp_all
  also have "\<dots> \<le> ?D - ?m"
    using belief_window [OF drift(2) fits cok b(1) _ y(2) p(2)] rp(4) le b(3) y(1) by simp
  finally have hi: "(1 - ?r) * (g' - g) \<le> ?D - ?m" .
  have "(1 - ?r) * (?D - 1) \<le> (1 - ?r) * ((1 + ?r) * (g' - g))" using lo r0 by (intro mult_left_mono) simp_all
  also have "\<dots> = (1 + ?r) * ((1 - ?r) * (g' - g))" by (simp add: mult_ac)
  also have "\<dots> \<le> (1 + ?r) * (?D - ?m)" using hi r0 by (intro mult_left_mono) simp_all
  finally have "(1 - ?r) * (?D - 1) \<le> (1 + ?r) * (?D - ?m)" .
  from drift_arith [OF this r0(1) _ margin_covers_drift [OF cok]] show False by simp
qed

text \<open>
  Property C13.  At most one leader: at every real instant at most one holder believes it holds the lease,
  whatever is lost, delayed, duplicated or reordered on the network, whenever holders retry or back off and
  the arbiter restarts, and whether or not the store grants new terms, provided every clock stays within the
  configured drift bound, the lease is longer than its safety margin and no clock value wraps around.
\<close>

theorem at_most_one_lease_believer:
  assumes "config_ok c" and "\<And>p. bounded_drift (lc_drift_ppm c) T (ch p)" and "bounded_drift (lc_drift_ppm c) T ca"
    and "\<And>p. lease_fits c T (ch p)" and "lease_fits c T ca"
    and "sorted (0 # map fst evs @ [x])" and "x \<le> T" and "length evs < 2 ^ 64"
    and "believes_leader (ch p x) (ls_holder (lease_run st ca ch evs (lease_init k c s)) p)"
    and "believes_leader (ch q x) (ls_holder (lease_run st ca ch evs (lease_init k c s)) q)"
  shows "p = q"
proof (rule ccontr)
  assume ne: "p \<noteq> q"
  let ?w = "lease_run st ca ch evs (lease_init k c s)"
  have m: "2 \<le> unat (lease_margin c)" using margin_value [OF assms(1)] by simp
  then have D: "0 < unat (lc_duration c)" using assms(1) by (simp add: config_ok_def)
  obtain y where y: "lease_inv c ca ch 0 y ?w" "y \<le> x"
    using lease_run_inv [where n = 0 and ch = ch and st = st, OF lease_init_inv order_refl assms(6,7,3,5) D] assms(8) by auto
  have hol: "holders_inv c ch ?w" using y(1) by (simp add: lease_inv_def)
  have bel: "\<exists>t g. granted_at ?w r t g \<and> ch r x < lease_until c (ch r t)"
    if "believes_leader (ch r x) (ls_holder ?w r)" for r
  proof -
    have "ch r x < lh_valid_until (ls_holder ?w r)" using that by (simp add: believes_leader_def)
    moreover from this have "lh_valid_until (ls_holder ?w r) \<noteq> 0" by auto
    ultimately show ?thesis using holders_inv_D(4) [OF hol, of r] by auto
  qed
  obtain t g where p: "granted_at ?w p t g" "ch p x < lease_until c (ch p t)" using bel [OF assms(9)] by blast
  obtain t' g' where q: "granted_at ?w q t' g'" "ch q x < lease_until c (ch q t')" using bel [OF assms(10)] by blast
  note B = beliefs_conflict [OF y assms(7,1,3,2,4)]
  show False
  proof (cases "g \<le> g'")
    case True
    then show False by (rule B [OF p q(1) ne])
  next
    case False
    then have "g' \<le> g" by simp
    then show False by (rule B [OF q p(1) ne [symmetric]])
  qed
qed

text \<open>A perfect clock of one tick per unit of real time.\<close>

definition floor_clock :: "real \<Rightarrow> u64" where
  "floor_clock x = of_int \<lfloor>x\<rfloor>"

definition sample_lease :: lease_config where
  "sample_lease = \<lparr> lc_duration = 100, lc_drift_ppm = 50000, lc_retry = 20, lc_renew_before = 40 \<rparr>"

lemma reading_floor_clock:
  assumes "0 \<le> x" and "x \<le> 1000"
  shows "reading floor_clock x = of_int \<lfloor>x\<rfloor>"
proof -
  have "0 \<le> \<lfloor>x\<rfloor>" "\<lfloor>x\<rfloor> < 2 ^ 64" using assms by (auto simp: floor_less_iff)
  then show ?thesis using unat_of_int_nonneg [of "\<lfloor>x\<rfloor>"] by (simp add: reading_def floor_clock_def)
qed

lemma floor_clock_drift: "bounded_drift 50000 1000 floor_clock"
  unfolding bounded_drift_def
proof (intro allI impI)
  fix x y :: real
  assume a: "0 \<le> x \<and> x \<le> y \<and> y \<le> 1000"
  have p: "unat (50000 :: u32) = 50000" by simp
  have r: "reading floor_clock x = of_int \<lfloor>x\<rfloor>" "reading floor_clock y = of_int \<lfloor>y\<rfloor>"
    using a by (simp_all add: reading_floor_clock)
  have e: "(1 - real 50000 / 1000000) * z = (19 / 20) * z" "(1 + real 50000 / 1000000) * z = (21 / 20) * z"
    for z :: real by simp_all
  have "of_int \<lfloor>x\<rfloor> \<le> x" "x < of_int \<lfloor>x\<rfloor> + 1" "of_int \<lfloor>y\<rfloor> \<le> y" "y < of_int \<lfloor>y\<rfloor> + 1" by linarith+
  moreover have "(of_int \<lfloor>x\<rfloor> :: real) \<le> of_int \<lfloor>y\<rfloor>" using a floor_mono [of x y] by simp
  moreover have "19 / 20 * (y - x) \<le> y - x" "y - x \<le> 21 / 20 * (y - x)" using a by simp_all
  ultimately show "reading floor_clock x \<le> reading floor_clock y \<and>
      (1 - real (unat (50000 :: u32)) / 1000000) * (y - x) - 1 \<le> reading floor_clock y - reading floor_clock x \<and>
      reading floor_clock y - reading floor_clock x \<le> (1 + real (unat (50000 :: u32)) / 1000000) * (y - x) + 1"
    unfolding r p e by (intro conjI) linarith+
qed

theorem at_most_one_lease_believer_witness:
  "let w = lease_run mem_ops floor_clock (\<lambda>_. floor_clock)
         [(0, HolderTick 5), (0, HolderTick 6), (1, RequestArrives 0), (1, RequestArrives 1), (2, ReplyArrives 0), (2, ReplyArrives 1)]
         (lease_init (ActorId 1 2) sample_lease [])
   in believes_leader (floor_clock 3) (ls_holder w 5) \<and> \<not> believes_leader (floor_clock 3) (ls_holder w 6)"
proof -
  let ?evs = "[(0, HolderTick 5), (0, HolderTick 6), (1, RequestArrives 0), (1, RequestArrives 1), (2, ReplyArrives 0),
      (2, ReplyArrives 1)]"
  let ?w = "lease_run mem_ops floor_clock (\<lambda>_. floor_clock) ?evs (lease_init (ActorId 1 2) sample_lease [])"
  have c: "config_ok sample_lease" by (simp add: config_ok_def sample_lease_def lease_margin_def)
  have f: "lease_fits sample_lease 1000 floor_clock" by (simp add: lease_fits_def reading_floor_clock sample_lease_def)
  have d: "bounded_drift (lc_drift_ppm sample_lease) 1000 floor_clock"
    using floor_clock_drift by (simp add: sample_lease_def)
  have b: "believes_leader (floor_clock 3) (ls_holder ?w 5)"
    by (simp add: lease_run_def lease_init_def la_create_def lh_create_def lh_tick_def believes_leader_def is_unfenced_def
        floor_clock_def sample_lease_def set_holder_def on_request_def mem_ops_def acquire_fence_def Let_def fresh_entry_def
        lease_grant_def lease_refusal_def on_reply_def lease_margin_def)
  have "5 = (6 :: u32)" if "believes_leader (floor_clock 3) (ls_holder ?w 6)"
    using at_most_one_lease_believer [where ch = "\<lambda>_. floor_clock" and ca = floor_clock and x = 3, OF c d d f f _ _ _ b that]
    by simp
  with b show ?thesis by auto
qed

text \<open>
  The belief window has no guard for a lease shorter than its margin: with a duration of one
  tick and the default drift bound, a request sent at tick 0 and granted makes the holder believe in its
  lease at every tick up to \<open>2 ^ 64 - 2\<close>, because the subtraction wraps around.
\<close>

theorem lease_margin_wraps:
  fixes now :: u64
  defines "c \<equiv> \<lparr> lc_duration = 1, lc_drift_ppm = 50000, lc_retry = 20, lc_renew_before = 40 \<rparr>"
  defines "h \<equiv> snd (lh_tick 0 (lh_create 5 c))"
  defines "h' \<equiv> on_reply 0 (lease_grant \<lparr> rq_from = 5, rq_id = lh_cur_id h \<rparr> (FenceToken 1)) h"
  shows "believes_leader now h' = (now \<noteq> - 1)"
proof -
  have "h' = h\<lparr> lh_outstanding := False, lh_token := FenceToken 1, lh_valid_until := - 1 \<rparr>"
    by (simp add: h'_def h_def c_def lh_tick_def lh_create_def on_reply_def lease_grant_def believes_leader_def Let_def
        lease_margin_def is_unfenced_def)
  then have v: "lh_valid_until h' = - 1" "lh_token h' = FenceToken 1" by simp_all
  have "now < - 1 \<longleftrightarrow> now \<noteq> - 1" using word_n1_ge [of now] by (auto simp: less_le)
  then show ?thesis by (simp add: believes_leader_def v is_unfenced_def)
qed

end
