(* ===== verification/Byte_Codec.thy ===== *)
theory Byte_Codec
  imports Quark_Prelude
begin

text \<open>
  The byte layer of \<open>include/quark/core/describe.hpp\<close>: the bounds-checked writer and reader, LEB128
  varints, ZigZag and fixed-width little-endian integers.  A writer is the bytes written so far, its
  capacity and its sticky error flag; a reader is the list of the bytes left, and a read returns the value
  with the bytes after it, or nothing.  The reader's own error flag, which nobody consults, is left out.
\<close>

section \<open>Writer and reader\<close>

record byte_writer =
  bw_out :: bytes
  bw_cap :: nat
  bw_ok :: bool

definition bw_create :: "nat \<Rightarrow> byte_writer" where
  "bw_create n = \<lparr> bw_out = [], bw_cap = n, bw_ok = True \<rparr>"

definition put_byte :: "u8 \<Rightarrow> byte_writer \<Rightarrow> bool \<times> byte_writer" where
  "put_byte b w =
     (if bw_cap w \<le> length (bw_out w) then (False, w\<lparr> bw_ok := False \<rparr>)
      else (True, w\<lparr> bw_out := bw_out w @ [b] \<rparr>))"

definition put_bytes :: "bytes \<Rightarrow> byte_writer \<Rightarrow> bool \<times> byte_writer" where
  "put_bytes bs w =
     (if bw_cap w - length (bw_out w) < length bs then (False, w\<lparr> bw_ok := False \<rparr>)
      else (True, w\<lparr> bw_out := bw_out w @ bs \<rparr>))"

definition get_byte :: "bytes \<Rightarrow> (u8 \<times> bytes) option" where
  "get_byte r = (case r of [] \<Rightarrow> None | b # r' \<Rightarrow> Some (b, r'))"

definition get_bytes :: "nat \<Rightarrow> bytes \<Rightarrow> (bytes \<times> bytes) option" where
  "get_bytes n r = (if length r < n then None else Some (take n r, drop n r))"

definition skip_bytes :: "nat \<Rightarrow> bytes \<Rightarrow> bytes option" where
  "skip_bytes n r = (if length r < n then None else Some (drop n r))"

text \<open>
  What a sequence of writes does: from a good writer it appends all its bytes or the writer is marked bad
  for good, and the writes report whether they were complete.
\<close>

definition writes :: "bytes \<Rightarrow> (byte_writer \<Rightarrow> bool \<times> byte_writer) \<Rightarrow> bool" where
  "writes bs f \<longleftrightarrow> (\<forall>w.
     bw_cap (snd (f w)) = bw_cap w \<and> (\<not> bw_ok w \<longrightarrow> \<not> bw_ok (snd (f w))) \<and>
     (bw_ok w \<and> length (bw_out w) \<le> bw_cap w \<longrightarrow>
        (if length (bw_out w) + length bs \<le> bw_cap w
         then fst (f w) \<and> snd (f w) = w\<lparr> bw_out := bw_out w @ bs \<rparr>
         else \<not> fst (f w) \<and> \<not> bw_ok (snd (f w)))))"

text \<open>\<open>if (!first) return false; return second;\<close>\<close>

definition and_then ::
  "(byte_writer \<Rightarrow> bool \<times> byte_writer) \<Rightarrow> (byte_writer \<Rightarrow> bool \<times> byte_writer) \<Rightarrow> byte_writer \<Rightarrow> bool \<times> byte_writer" where
  "and_then f g w = (case f w of (ok, w') \<Rightarrow> if ok then g w' else (False, w'))"

lemma writes_put_byte: "writes [b] (put_byte b)"
  by (auto simp: writes_def put_byte_def)

lemma writes_put_bytes: "writes bs (put_bytes bs)"
  by (auto simp: writes_def put_bytes_def)

lemma writes_nothing: "writes [] (\<lambda>w. (True, w))"
  by (simp add: writes_def)

lemma writes_and_then:
  assumes "writes bs f" and "writes cs g"
  shows "writes (bs @ cs) (and_then f g)"
  unfolding writes_def
proof (intro allI conjI impI)
  fix w
  note F = assms(1) [unfolded writes_def, rule_format, of w]
  obtain ok w1 where f: "f w = (ok, w1)" by (rule prod.exhaust)
  note G = assms(2) [unfolded writes_def, rule_format, of w1]
  show "bw_cap (snd (and_then f g w)) = bw_cap w" using F G f by (simp add: and_then_def)
  show "\<not> bw_ok (snd (and_then f g w))" if "\<not> bw_ok w" using F G f that by (simp add: and_then_def)
  assume w: "bw_ok w \<and> length (bw_out w) \<le> bw_cap w"
  show "if length (bw_out w) + length (bs @ cs) \<le> bw_cap w
      then fst (and_then f g w) \<and> snd (and_then f g w) = w\<lparr> bw_out := bw_out w @ bs @ cs \<rparr>
      else \<not> fst (and_then f g w) \<and> \<not> bw_ok (snd (and_then f g w))"
  proof (cases "length (bw_out w) + length bs \<le> bw_cap w")
    case True
    then have f': "ok" "w1 = w\<lparr> bw_out := bw_out w @ bs \<rparr>" using F f w by auto
    then have "bw_ok w1 \<and> length (bw_out w1) \<le> bw_cap w1" using w True by simp
    with G have "if length (bw_out w1) + length cs \<le> bw_cap w1 then fst (g w1) \<and> snd (g w1) = w1\<lparr> bw_out := bw_out w1 @ cs \<rparr>
      else \<not> fst (g w1) \<and> \<not> bw_ok (snd (g w1))" by blast
    moreover have "and_then f g w = g w1" using f f'(1) by (simp add: and_then_def)
    ultimately show ?thesis unfolding f'(2) by (simp add: add.assoc split: if_splits)
  next
    case False
    then have "\<not> ok" "\<not> bw_ok w1" using F f w by auto
    with False f show ?thesis by (simp add: and_then_def)
  qed
qed

section \<open>Varints\<close>

lemma drop_7_less:
  fixes v :: u64
  assumes "drop_bit 7 v \<noteq> 0"
  shows "unat (drop_bit 7 v) < unat v"
proof -
  have "v \<noteq> 0" using assms by auto
  then have "0 < unat v" by (simp add: unat_gt_0)
  then show ?thesis by (simp add: unat_drop_bit_div)
qed

function uleb_bytes :: "u64 \<Rightarrow> bytes" where
  "uleb_bytes v =
     (let low = ucast (v AND 0x7F); v' = drop_bit 7 v
      in if v' \<noteq> 0 then (low OR 0x80) # uleb_bytes v' else [low])"
  by auto

termination
proof (relation "measure unat")
  fix v low v' :: u64 and l :: u8
  assume "v' = drop_bit 7 v" "v' \<noteq> 0"
  then show "(v', v) \<in> measure unat" using drop_7_less [of v] by simp
qed simp

declare uleb_bytes.simps [simp del]

function put_uleb :: "u64 \<Rightarrow> byte_writer \<Rightarrow> bool \<times> byte_writer" where
  "put_uleb v w =
     (let low = ucast (v AND 0x7F); v' = drop_bit 7 v
      in if v' \<noteq> 0 then (case put_byte (low OR 0x80) w of (ok, w') \<Rightarrow> if ok then put_uleb v' w' else (False, w'))
         else put_byte low w)"
  by auto

termination
proof (relation "measure (\<lambda>(v, w). unat v)")
  fix v low v' :: u64 and l :: u8 and p ok w w'
  assume "v' = drop_bit 7 v" "v' \<noteq> 0"
  then show "((v', w'), (v, w)) \<in> measure (\<lambda>(v, w). unat v)" using drop_7_less [of v] by simp
qed simp

declare put_uleb.simps [simp del]

fun get_uleb_from :: "nat \<Rightarrow> nat \<Rightarrow> u64 \<Rightarrow> bytes \<Rightarrow> (u64 \<times> bytes) option" where
  "get_uleb_from i 0 res r = None"
| "get_uleb_from i (Suc n) res r =
     (case get_byte r of
        None \<Rightarrow> None
      | Some (b, r') \<Rightarrow>
          let res' = res OR push_bit (7 * i) (ucast (b AND 0x7F))
          in if b AND 0x80 = 0 then Some (res', r') else get_uleb_from (Suc i) n res' r')"

definition get_uleb :: "bytes \<Rightarrow> (u64 \<times> bytes) option" where
  "get_uleb r = get_uleb_from 0 10 0 r"

lemma writes_put_uleb: "writes (uleb_bytes v) (put_uleb v)"
proof (induction v rule: uleb_bytes.induct)
  case (1 v)
  let ?low = "ucast (v AND 0x7F) :: u8" and ?v' = "drop_bit 7 v"
  show ?case
  proof (cases "?v' = 0")
    case True
    then have "put_uleb v = put_byte ?low" by (rule_tac ext) (simp add: put_uleb.simps)
    moreover have "uleb_bytes v = [?low]" using True by (simp add: uleb_bytes.simps)
    ultimately show ?thesis by (simp add: writes_put_byte)
  next
    case False
    then have "put_uleb v = and_then (put_byte (?low OR 0x80)) (put_uleb ?v')"
      by (rule_tac ext) (simp add: put_uleb.simps [of v] and_then_def Let_def)
    moreover have "uleb_bytes v = [?low OR 0x80] @ uleb_bytes ?v'" using False by (simp add: uleb_bytes.simps [of v] Let_def)
    ultimately show ?thesis using writes_and_then [OF writes_put_byte 1 [OF refl refl False]] by simp
  qed
qed

lemma low_bits [simp]:
  fixes v :: u64
  shows "(ucast (ucast (v AND 0x7F) :: u8) :: u64) = v AND 0x7F"
    and "(ucast (v AND 0x7F) :: u8) AND 0x80 = 0" and "(ucast (v AND 0x7F) OR 0x80 :: u8) AND 0x80 \<noteq> 0"
    and "(ucast (v AND 0x7F) :: u8) AND 0x7F = ucast (v AND 0x7F)"
    and "(ucast (v AND 0x7F) OR 0x80 :: u8) AND 0x7F = ucast (v AND 0x7F)"
proof -
  have m: "(0x7F :: 'a::len word) = mask 7" by (simp add: mask_eq_exp_minus_1)
  have b80: "bit (0x80 :: u8) k \<longleftrightarrow> k = 7" for k
  proof -
    have p: "(0x80 :: u8) = push_bit 7 1" by (simp add: push_bit_eq_mult)
    show ?thesis unfolding p bit_push_bit_iff bit_1_iff by auto
  qed
  have bv: "bit (ucast (v AND 0x7F) :: u8) k \<longleftrightarrow> k < 7 \<and> bit v k" for k
    unfolding m by (auto simp: bit_ucast_iff bit_and_iff bit_mask_iff)
  show "(ucast (ucast (v AND 0x7F) :: u8) :: u64) = v AND 0x7F"
    unfolding m by (rule bit_word_eqI) (auto simp: bit_ucast_iff bit_and_iff bit_mask_iff)
  show "(ucast (v AND 0x7F) :: u8) AND 0x80 = 0"
    by (rule bit_word_eqI) (unfold bit_and_iff b80 bv, auto)
  show "(ucast (v AND 0x7F) OR 0x80 :: u8) AND 0x80 \<noteq> 0"
  proof
    assume "(ucast (v AND 0x7F) OR 0x80 :: u8) AND 0x80 = 0"
    then have "\<not> bit ((ucast (v AND 0x7F) OR 0x80 :: u8) AND 0x80) 7" by simp
    then show False by (simp add: bit_and_iff bit_or_iff b80)
  qed
  have b7f: "bit (0x7F :: u8) k \<longleftrightarrow> k < 7" for k unfolding m by (auto simp: bit_mask_iff)
  show "(ucast (v AND 0x7F) :: u8) AND 0x7F = ucast (v AND 0x7F)"
    by (rule bit_word_eqI) (unfold bit_and_iff bv b7f, auto)
  show "(ucast (v AND 0x7F) OR 0x80 :: u8) AND 0x7F = ucast (v AND 0x7F)"
    by (rule bit_word_eqI) (unfold bit_and_iff bit_or_iff b80 bv b7f, auto)
qed

lemma split_low_bits:
  fixes v :: u64
  shows "(v AND 0x7F) OR push_bit 7 (drop_bit 7 v) = v"
proof -
  have m: "(0x7F :: u64) = mask 7" by (simp add: mask_eq_exp_minus_1)
  show ?thesis
    unfolding m
  proof (rule bit_word_eqI)
    fix n
    assume n: "n < LENGTH(64)"
    show "bit ((v AND mask 7) OR push_bit 7 (drop_bit 7 v)) n = bit v n"
    proof (cases "n < 7")
      case True
      then show ?thesis by (simp add: bit_or_iff bit_and_iff bit_mask_iff bit_push_bit_iff)
    next
      case False
      then have "7 + (n - 7) = n" by simp
      with False n show ?thesis
        by (simp add: bit_or_iff bit_and_iff bit_mask_iff bit_push_bit_iff bit_drop_bit_eq)
    qed
  qed
qed

text \<open>The number of bytes of a varint: the least \<open>n > 0\<close> with \<open>v < 2 ^ (7 * n)\<close>.\<close>

lemma get_uleb_from_bytes:
  assumes "unat v < 2 ^ (7 * n)" and "0 < n"
  shows "get_uleb_from i n res (uleb_bytes v @ r) = Some (res OR push_bit (7 * i) v, r)"
  using assms
proof (induction n arbitrary: v i res)
  case (Suc n)
  let ?v' = "drop_bit 7 v"
  show ?case
  proof (cases "?v' = 0")
    case True
    then have v: "v AND 0x7F = v" using split_low_bits [of v] by simp
    have "uleb_bytes v = [ucast (v AND 0x7F)]" using True by (simp add: uleb_bytes.simps)
    moreover have "push_bit (7 * i) v AND push_bit (7 * i) 0x7F = push_bit (7 * i) v" by (metis push_bit_and v)
    ultimately show ?thesis by (simp add: get_byte_def Let_def)
  next
    case False
    have "unat ?v' = unat v div 2 ^ 7" by (rule unat_drop_bit_div)
    also have "\<dots> < 2 ^ (7 * n)"
      using Suc.prems(1) by (intro less_mult_imp_div_less) (simp add: power_add mult.commute)
    finally have b: "unat ?v' < 2 ^ (7 * n)" .
    have "0 < n" using b False by (cases n) (auto simp: unat_eq_0)
    note ih = Suc.IH [OF b this, of "Suc i" "res OR push_bit (7 * i) (v AND 0x7F)"]
    have "push_bit (7 * i) (v AND 0x7F) OR push_bit (7 * Suc i) ?v' = push_bit (7 * i) ((v AND 0x7F) OR push_bit 7 ?v')"
      by (simp add: push_bit_or push_bit_push_bit add.commute)
    then have e: "push_bit (7 * i) (v AND 0x7F) OR push_bit (7 * Suc i) ?v' = push_bit (7 * i) v" by (simp only: split_low_bits)
    have "uleb_bytes v = (ucast (v AND 0x7F) OR 0x80) # uleb_bytes ?v'" using False by (simp add: uleb_bytes.simps [of v] Let_def)
    then have "get_uleb_from i (Suc n) res (uleb_bytes v @ r) =
        get_uleb_from (Suc i) n (res OR push_bit (7 * i) (v AND 0x7F)) (uleb_bytes ?v' @ r)"
      by (simp add: get_byte_def Let_def)
    also have "\<dots> = Some ((res OR push_bit (7 * i) (v AND 0x7F)) OR push_bit (7 * Suc i) ?v', r)" by (rule ih)
    finally show ?thesis by (simp only: e or.assoc)
  qed
qed simp

lemma get_uleb_bytes [wire_simps, simp]: "get_uleb (uleb_bytes v @ r) = Some (v, r)"
proof -
  have "unat v < 2 ^ (7 * 10)" using unat_less_exp [of v] by simp
  from get_uleb_from_bytes [OF this] show ?thesis by (simp add: get_uleb_def)
qed

lemma get_uleb_from_shorter: "get_uleb_from i n res r = Some (v, r') \<Longrightarrow> length r' < length r"
  by (induction i n res r rule: get_uleb_from.induct) (fastforce simp: get_byte_def Let_def split: list.splits if_splits)+

lemma get_uleb_shorter: "get_uleb r = Some (v, r') \<Longrightarrow> length r' < length r"
  unfolding get_uleb_def by (rule get_uleb_from_shorter)

lemma uleb_bytes_not_Nil [simp]: "uleb_bytes v \<noteq> []"
  by (simp add: uleb_bytes.simps Let_def)

function uleb_size :: "u64 \<Rightarrow> nat" where
  "uleb_size v = (if v < 0x80 then 1 else Suc (uleb_size (drop_bit 7 v)))"
  by auto

termination
proof (relation "measure unat")
  fix v :: u64
  assume "\<not> v < 0x80"
  then have "128 \<le> unat v" by (simp add: word_less_nat_alt)
  then show "(drop_bit 7 v, v) \<in> measure unat" by (simp add: unat_drop_bit_div)
qed simp

declare uleb_size.simps [simp del]

lemma length_uleb_bytes: "length (uleb_bytes v) = uleb_size v"
proof (induction v rule: uleb_size.induct)
  case (1 v)
  have "unat (drop_bit 7 v) = 0 \<longleftrightarrow> unat v < 128" by (simp add: unat_drop_bit_div div_eq_0_iff)
  then have "drop_bit 7 v = 0 \<longleftrightarrow> v < 0x80" by (simp add: unat_eq_zero word_less_nat_alt)
  then show ?case using 1 by (subst uleb_bytes.simps, subst uleb_size.simps) (simp add: Let_def)
qed

section \<open>ZigZag\<close>

definition zigzag :: "int \<Rightarrow> u64" where
  "zigzag v = push_bit 1 (of_int v) XOR (if v < 0 then - 1 else 0)"

definition unzigzag :: "u64 \<Rightarrow> int" where
  "unzigzag u = sint (drop_bit 1 u XOR (NOT (u AND 1) + 1))"

lemma unzigzag_zigzag:
  assumes "- (2 ^ 63) \<le> v" and "v < 2 ^ 63"
  shows "unzigzag (zigzag v) = v"
proof -
  let ?w = "of_int v :: u64"
  have s: "sint ?w = v" using assms signed_take_bit_int_eq_self [of 63 v] by (simp add: signed_of_int)
  have b63: "bit ?w 63 \<longleftrightarrow> v < 0" using s bit_last_iff [of ?w] by simp
  have m1: "bit (- 1 :: u64) k \<longleftrightarrow> k < 64" for k by simp
  have one: "bit (1 :: u64) k \<longleftrightarrow> k = 0" for k by (simp add: bit_1_iff)
  have low: "bit (zigzag v) 0 \<longleftrightarrow> v < 0" unfolding zigzag_def bit_xor_iff bit_push_bit_iff by auto
  have a1: "zigzag v AND 1 = (if v < 0 then 1 else 0)"
    by (rule bit_word_eqI) (use low in \<open>auto simp: bit_and_iff one intro: gr0I\<close>)
  have neg: "NOT (zigzag v AND 1) + 1 = (if v < 0 then - 1 else 0)" unfolding a1 by simp
  have "drop_bit 1 (zigzag v) XOR (NOT (zigzag v AND 1) + 1) = ?w"
    unfolding neg
  proof (rule bit_word_eqI)
    fix k
    assume k: "k < LENGTH(64)"
    show "bit (drop_bit 1 (zigzag v) XOR (if v < 0 then - 1 else 0)) k = bit ?w k"
    proof (cases "k = 63")
      case True
      have "\<not> bit (zigzag v) 64" using bit_imp_le_length [of "zigzag v" 64] by auto
      then show ?thesis using b63 True by (simp add: bit_xor_iff bit_drop_bit_eq)
    next
      case False
      then show ?thesis
        using k unfolding bit_xor_iff bit_drop_bit_eq zigzag_def bit_push_bit_iff by auto
    qed
  qed
  then show ?thesis by (simp add: unzigzag_def s)
qed

section \<open>Fixed-width integers\<close>

definition put_fixed_le :: "nat \<Rightarrow> 'a::len word \<Rightarrow> byte_writer \<Rightarrow> bool \<times> byte_writer" where
  "put_fixed_le n v w = put_bytes (put_le n v) w"

definition get_fixed_le :: "nat \<Rightarrow> bytes \<Rightarrow> ('a::len word \<times> bytes) option" where
  "get_fixed_le n r = (case get_bytes n r of None \<Rightarrow> None | Some (bs, r') \<Rightarrow> Some (get_le bs, r'))"

lemma writes_put_fixed_le: "writes (put_le n v) (put_fixed_le n v)"
  unfolding put_fixed_le_def [abs_def] by (rule writes_put_bytes)

lemma get_fixed_le_put [wire_simps, simp]:
  fixes v :: "'a::len word"
  assumes "LENGTH('a) = 8 * n"
  shows "get_fixed_le n (put_le n v @ r) = Some (v, r)"
  using assms by (simp add: get_fixed_le_def get_bytes_def)

lemma get_fixed_le_shorter: "get_fixed_le n r = Some (v, r') \<Longrightarrow> n + length r' = length r"
  by (auto simp: get_fixed_le_def get_bytes_def split: if_splits)

end
