(* ===== verification/Tagged_Wire.thy ===== *)
theory Tagged_Wire
  imports Byte_Codec
begin

text \<open>
  The canonical tagged encoding of \<open>include/quark/core/wire.hpp\<close> with the type description and the
  fingerprint of \<open>include/quark/core/describe.hpp\<close>.  The C++ code is a family of templates over the
  member types a \<open>QUARK_SERIALIZE\<close> list may hold; here the member types are data (\<open>mtype\<close>), and one
  function per template branches on them as \<open>if constexpr\<close> does.  A described object is the list of its
  members' values in the order of its field list.  \<open>E elem{}\<close>, the value a vector element has before it
  is decoded, is the parameter \<open>mk\<close>: the default member initialisers belong to the user's type.  The bounds
  of the nested loops are fuel; \<open>tagged_read_object\<close> starts with the length of its input, which is enough.
\<close>

section \<open>Member types and values\<close>

datatype wire_type = Varint | Fixed64 | Bytes | Fixed32

definition wire_code :: "wire_type \<Rightarrow> u8" where
  "wire_code wt = (case wt of Varint \<Rightarrow> 0 | Fixed64 \<Rightarrow> 1 | Bytes \<Rightarrow> 2 | Fixed32 \<Rightarrow> 5)"

text \<open>
  \<open>MEnum w s\<close> and \<open>MInt w s\<close> are the enumerations and integers of \<open>w\<close> bits, signed when \<open>s\<close>; a
  described type has its identity salt, if it declares one, and its fields.
\<close>

datatype mtype =
    MBool
  | MEnum nat bool
  | MDouble
  | MFloat
  | MInt nat bool
  | MString
  | MVec mtype
  | MObj "u64 option" "(u32 \<times> mtype) list"

datatype mval =
    VBool bool
  | VInt int
  | VF64 u64
  | VF32 u32
  | VStr bytes
  | VVec "mval list"
  | VObj "mval list"

type_synonym field_list = "(u32 \<times> mtype) list"

fun wire_type_of :: "mtype \<Rightarrow> wire_type" where
  "wire_type_of MBool = Varint"
| "wire_type_of (MEnum w s) = Varint"
| "wire_type_of MDouble = Fixed64"
| "wire_type_of MFloat = Fixed32"
| "wire_type_of (MInt w s) = Varint"
| "wire_type_of MString = Bytes"
| "wire_type_of (MVec t) = Bytes"
| "wire_type_of (MObj s fs) = Bytes"

definition int_fits :: "nat \<Rightarrow> bool \<Rightarrow> int \<Rightarrow> bool" where
  "int_fits w s i \<longleftrightarrow> 0 < w \<and> w \<le> 64 \<and> (if s then - (2 ^ (w - 1)) \<le> i \<and> i < 2 ^ (w - 1) else 0 \<le> i \<and> i < 2 ^ w)"

fun has_type :: "mtype \<Rightarrow> mval \<Rightarrow> bool" and has_types :: "field_list \<Rightarrow> mval list \<Rightarrow> bool" and all_type :: "mtype \<Rightarrow> mval list \<Rightarrow> bool" where
  "has_type MBool (VBool b) = True"
| "has_type (MEnum w s) (VInt i) = int_fits w s i"
| "has_type MDouble (VF64 x) = True"
| "has_type MFloat (VF32 x) = True"
| "has_type (MInt w s) (VInt i) = int_fits w s i"
| "has_type MString (VStr bs) = True"
| "has_type (MVec t) (VVec vs) = all_type t vs"
| "has_type (MObj s fs) (VObj vs) = has_types fs vs"
| "has_type _ _ = False"
| "has_types [] [] = True"
| "has_types ((tag, t) # fs) (v # vs) = (has_type t v \<and> has_types fs vs)"
| "has_types _ _ = False"
| "all_type t [] = True"
| "all_type t (v # vs) = (has_type t v \<and> all_type t vs)"

section \<open>Size pass\<close>

definition field_key :: "u32 \<Rightarrow> mtype \<Rightarrow> u64" where
  "field_key tag t = push_bit 3 (ucast tag) OR ucast (wire_code (wire_type_of t))"

fun tagged_value_size :: "mtype \<Rightarrow> mval \<Rightarrow> nat" and tagged_content_size :: "mtype \<Rightarrow> mval list \<Rightarrow> nat"
  and tagged_object_size :: "field_list \<Rightarrow> mval list \<Rightarrow> nat" where
  "tagged_value_size MBool v = 1"
| "tagged_value_size (MEnum w s) (VInt i) = uleb_size (of_int i)"
| "tagged_value_size MDouble v = 8"
| "tagged_value_size MFloat v = 4"
| "tagged_value_size (MInt w s) (VInt i) = (if s then uleb_size (zigzag i) else uleb_size (of_int i))"
| "tagged_value_size MString (VStr bs) = uleb_size (of_nat (length bs)) + length bs"
| "tagged_value_size (MVec t) (VVec vs) = (let content = tagged_content_size t vs in uleb_size (of_nat content) + content)"
| "tagged_value_size (MObj s fs) (VObj vs) = (let os = tagged_object_size fs vs in uleb_size (of_nat os) + os)"
| "tagged_value_size _ _ = 0"
| "tagged_content_size t [] = 0"
| "tagged_content_size t (v # vs) = tagged_value_size t v + tagged_content_size t vs"
| "tagged_object_size ((tag, t) # fs) (v # vs) = uleb_size (field_key tag t) + tagged_value_size t v + tagged_object_size fs vs"
| "tagged_object_size _ _ = 0"

section \<open>Write pass\<close>

text \<open>
  \<open>TaggedWriter::field\<close> drops the rest of a field whose key did not fit, but goes on with the next field:
  only the sticky flag of the writer says in the end that something is missing.
\<close>

definition and_also ::
  "(byte_writer \<Rightarrow> bool \<times> byte_writer) \<Rightarrow> (byte_writer \<Rightarrow> bool \<times> byte_writer) \<Rightarrow> byte_writer \<Rightarrow> bool \<times> byte_writer" where
  "and_also f g w = g (snd (f w))"

fun tagged_write_value :: "mtype \<Rightarrow> mval \<Rightarrow> byte_writer \<Rightarrow> bool \<times> byte_writer"
  and tagged_write_elems :: "mtype \<Rightarrow> mval list \<Rightarrow> byte_writer \<Rightarrow> bool \<times> byte_writer"
  and tagged_write_object :: "field_list \<Rightarrow> mval list \<Rightarrow> byte_writer \<Rightarrow> bool \<times> byte_writer" where
  "tagged_write_value MBool (VBool b) w = put_uleb (if b then 1 else 0) w"
| "tagged_write_value (MEnum n s) (VInt i) w = put_uleb (of_int i) w"
| "tagged_write_value MDouble (VF64 x) w = put_fixed_le 8 x w"
| "tagged_write_value MFloat (VF32 x) w = put_fixed_le 4 x w"
| "tagged_write_value (MInt n s) (VInt i) w = put_uleb (if s then zigzag i else of_int i) w"
| "tagged_write_value MString (VStr bs) w = and_then (put_uleb (of_nat (length bs))) (put_bytes bs) w"
| "tagged_write_value (MVec t) (VVec vs) w =
     and_then (put_uleb (of_nat (tagged_content_size t vs))) (tagged_write_elems t vs) w"
| "tagged_write_value (MObj s fs) (VObj vs) w =
     and_then (put_uleb (of_nat (tagged_object_size fs vs))) (tagged_write_object fs vs) w"
| "tagged_write_value _ _ w = (False, w)"
| "tagged_write_elems t [] w = (True, w)"
| "tagged_write_elems t (v # vs) w = and_then (tagged_write_value t v) (tagged_write_elems t vs) w"
| "tagged_write_object ((tag, t) # fs) (v # vs) w =
     and_also (and_then (put_uleb (field_key tag t)) (tagged_write_value t v)) (tagged_write_object fs vs) w"
| "tagged_write_object _ _ w = (bw_ok w, w)"

section \<open>Read pass\<close>

definition tagged_skip_value :: "u8 \<Rightarrow> bytes \<Rightarrow> bytes option" where
  "tagged_skip_value wt r =
     (if wt = 0 then map_option snd (get_uleb r)
      else if wt = 1 then skip_bytes 8 r
      else if wt = 5 then skip_bytes 4 r
      else if wt = 2 then (case get_uleb r of None \<Rightarrow> None | Some (len, r') \<Rightarrow> skip_bytes (unat len) r')
      else None)"

definition read_int :: "nat \<Rightarrow> bool \<Rightarrow> int \<Rightarrow> int" where
  "read_int w s i = (if s then signed_take_bit (w - 1) i else take_bit w i)"

text \<open>
  The reader of a value takes what the member holds before; only a nested described type keeps some of it.
  \<open>tagged_object_loop\<close> is the loop of \<open>tagged_read_object\<close>, and \<open>tagged_decode_field\<close> the walk of
  \<open>TaggedFieldDecoder\<close> over the fields: the first one with the tag read decodes the value, and when
  there is none the result is the third case, \<open>Inr ()\<close>.
\<close>

function (sequential) tagged_read_value :: "(mtype \<Rightarrow> mval) \<Rightarrow> nat \<Rightarrow> mtype \<Rightarrow> mval \<Rightarrow> bytes \<Rightarrow> (mval \<times> bytes) option"
  and tagged_read_elems :: "(mtype \<Rightarrow> mval) \<Rightarrow> nat \<Rightarrow> mtype \<Rightarrow> bytes \<Rightarrow> mval list option"
  and tagged_object_loop :: "(mtype \<Rightarrow> mval) \<Rightarrow> nat \<Rightarrow> field_list \<Rightarrow> bytes \<Rightarrow> mval list \<Rightarrow> mval list option"
  and tagged_decode_field :: "(mtype \<Rightarrow> mval) \<Rightarrow> nat \<Rightarrow> u32 \<Rightarrow> field_list \<Rightarrow> bytes \<Rightarrow> mval list \<Rightarrow> ((mval list \<times> bytes) option) + unit" where
  "tagged_read_value mk n MBool m r = map_option (\<lambda>(v, r'). (VBool (v \<noteq> 0), r')) (get_uleb r)"
| "tagged_read_value mk n (MEnum w s) m r = map_option (\<lambda>(v, r'). (VInt (read_int w s (uint v)), r')) (get_uleb r)"
| "tagged_read_value mk n MDouble m r = map_option (\<lambda>(v, r'). (VF64 v, r')) (get_fixed_le 8 r)"
| "tagged_read_value mk n MFloat m r = map_option (\<lambda>(v, r'). (VF32 v, r')) (get_fixed_le 4 r)"
| "tagged_read_value mk n (MInt w s) m r =
     map_option (\<lambda>(v, r'). (VInt (if s then read_int w True (unzigzag v) else read_int w False (uint v)), r')) (get_uleb r)"
| "tagged_read_value mk n MString m r =
     (case get_uleb r of
        None \<Rightarrow> None
      | Some (len, r') \<Rightarrow>
          if length r' < unat len then None else Some (VStr (take (unat len) r'), drop (unat len) r'))"
| "tagged_read_value mk n (MVec t) m r =
     (case get_uleb r of
        None \<Rightarrow> None
      | Some (content, r') \<Rightarrow>
          if length r' < unat content then None
          else (case tagged_read_elems mk n t (take (unat content) r') of
                  None \<Rightarrow> None
                | Some vs \<Rightarrow> Some (VVec vs, drop (unat content) r')))"
| "tagged_read_value mk n (MObj s fs) m r =
     (case get_uleb r of
        None \<Rightarrow> None
      | Some (os, r') \<Rightarrow>
          if length r' < unat os then None
          else (case tagged_object_loop mk n fs (take (unat os) r') (case m of VObj cs \<Rightarrow> cs | _ \<Rightarrow> []) of
                  None \<Rightarrow> None
                | Some vs \<Rightarrow> Some (VObj vs, drop (unat os) r')))"
| "tagged_read_elems mk n t [] = Some []"
| "tagged_read_elems mk 0 t r = None"
| "tagged_read_elems mk (Suc n) t r =
     (case tagged_read_value mk n t (mk t) r of
        None \<Rightarrow> None
      | Some (v, r') \<Rightarrow> map_option (Cons v) (tagged_read_elems mk n t r'))"
| "tagged_object_loop mk n fs [] cs = Some cs"
| "tagged_object_loop mk 0 fs r cs = None"
| "tagged_object_loop mk (Suc n) fs r cs =
     (case get_uleb r of
        None \<Rightarrow> None
      | Some (key, r') \<Rightarrow>
          (case tagged_decode_field mk n (ucast (drop_bit 3 key)) fs r' cs of
             Inl None \<Rightarrow> None
           | Inl (Some (cs', r'')) \<Rightarrow> tagged_object_loop mk n fs r'' cs'
           | Inr u \<Rightarrow>
               (case tagged_skip_value (ucast (key AND 7)) r' of
                  None \<Rightarrow> None
                | Some r'' \<Rightarrow> tagged_object_loop mk n fs r'' cs)))"
| "tagged_decode_field mk n tag ((tag', t) # fs) r (c # cs) =
     (if tag' = tag then Inl (map_option (\<lambda>(v, r'). (v # cs, r')) (tagged_read_value mk n t c r))
      else (case tagged_decode_field mk n tag fs r cs of
              Inl res \<Rightarrow> Inl (map_option (\<lambda>(cs', r'). (c # cs', r')) res)
            | Inr u \<Rightarrow> Inr ()))"
| "tagged_decode_field mk n tag _ r _ = Inr ()"
  by pat_completeness auto

termination
  by (relation "measures
       [\<lambda>x. case x of Inl (Inl (mk, n, t, m, r)) \<Rightarrow> n | Inl (Inr (mk, n, t, r)) \<Rightarrow> n
          | Inr (Inl (mk, n, fs, r, cs)) \<Rightarrow> n | Inr (Inr (mk, n, tag, fs, r, cs)) \<Rightarrow> n,
        \<lambda>x. case x of Inl (Inl (mk, n, t, m, r)) \<Rightarrow> size t | Inl (Inr (mk, n, t, r)) \<Rightarrow> size t
          | Inr (Inl (mk, n, fs, r, cs)) \<Rightarrow> size_list (size_prod (\<lambda>_. 0) size) fs
          | Inr (Inr (mk, n, tag, fs, r, cs)) \<Rightarrow> size_list (size_prod (\<lambda>_. 0) size) fs]") auto

definition tagged_read_object :: "(mtype \<Rightarrow> mval) \<Rightarrow> field_list \<Rightarrow> bytes \<Rightarrow> mval list \<Rightarrow> nat \<Rightarrow> (mval list \<times> bytes) option" where
  "tagged_read_object mk fs r cs limit =
     (if length r < limit then None
      else (case tagged_object_loop mk limit fs (take limit r) cs of
              None \<Rightarrow> None
            | Some vs \<Rightarrow> Some (vs, drop limit r)))"

section \<open>The public codec\<close>

definition encode_tagged :: "field_list \<Rightarrow> mval list \<Rightarrow> nat \<Rightarrow> bytes result" where
  "encode_tagged fs vs cap =
     (let w = snd (tagged_write_object fs vs (bw_create cap))
      in if \<not> bw_ok w then fail Serialization ''encode buffer too small'' else Inr (bw_out w))"

definition decode_tagged :: "(mtype \<Rightarrow> mval) \<Rightarrow> field_list \<Rightarrow> bytes \<Rightarrow> mval list \<Rightarrow> mval list result" where
  "decode_tagged mk fs buf out =
     (case tagged_read_object mk fs buf out (length buf) of
        None \<Rightarrow> fail Serialization ''malformed tagged stream''
      | Some (vs, r) \<Rightarrow> Inr vs)"

section \<open>What the writer writes\<close>

fun value_bytes :: "mtype \<Rightarrow> mval \<Rightarrow> bytes" and elems_bytes :: "mtype \<Rightarrow> mval list \<Rightarrow> bytes"
  and object_bytes :: "field_list \<Rightarrow> mval list \<Rightarrow> bytes" where
  "value_bytes MBool (VBool b) = uleb_bytes (if b then 1 else 0)"
| "value_bytes (MEnum n s) (VInt i) = uleb_bytes (of_int i)"
| "value_bytes MDouble (VF64 x) = put_le 8 x"
| "value_bytes MFloat (VF32 x) = put_le 4 x"
| "value_bytes (MInt n s) (VInt i) = uleb_bytes (if s then zigzag i else of_int i)"
| "value_bytes MString (VStr bs) = uleb_bytes (of_nat (length bs)) @ bs"
| "value_bytes (MVec t) (VVec vs) = uleb_bytes (of_nat (length (elems_bytes t vs))) @ elems_bytes t vs"
| "value_bytes (MObj s fs) (VObj vs) = uleb_bytes (of_nat (length (object_bytes fs vs))) @ object_bytes fs vs"
| "value_bytes _ _ = []"
| "elems_bytes t [] = []"
| "elems_bytes t (v # vs) = value_bytes t v @ elems_bytes t vs"
| "object_bytes ((tag, t) # fs) (v # vs) = uleb_bytes (field_key tag t) @ value_bytes t v @ object_bytes fs vs"
| "object_bytes _ _ = []"

lemma uleb_size_small: "v < 0x80 \<Longrightarrow> uleb_size v = 1"
  by (simp add: uleb_size.simps)

lemma length_value_bytes:
  shows "has_type t v \<Longrightarrow> length (value_bytes t v) = tagged_value_size t v"
    and "all_type t vs \<Longrightarrow> length (elems_bytes t vs) = tagged_content_size t vs"
    and "has_types fs vs \<Longrightarrow> length (object_bytes fs vs) = tagged_object_size fs vs"
  by (induction t v and t vs and fs vs rule: value_bytes_elems_bytes_object_bytes.induct)
     (auto simp: length_uleb_bytes uleb_size_small Let_def)

text \<open>A write that goes on after a failure, as the fields of an object do.\<close>

definition pours :: "bytes \<Rightarrow> (byte_writer \<Rightarrow> bool \<times> byte_writer) \<Rightarrow> bool" where
  "pours bs f \<longleftrightarrow> writes bs f \<and> (\<forall>w. fst (f w) = bw_ok (snd (f w)))"

lemma pours_done: "pours [] (\<lambda>w. (bw_ok w, w))"
  by (simp add: pours_def writes_def)

lemma pours_and_also:
  assumes f: "writes bs f" and g: "pours cs g"
  shows "pours (bs @ cs) (and_also f g)"
  unfolding pours_def writes_def
proof (intro conjI allI impI)
  fix w
  have G: "fst (g w') = bw_ok (snd (g w'))" for w' using g by (simp add: pours_def)
  have W: "writes cs g" using g by (simp add: pours_def)
  note F1 = f [unfolded writes_def, rule_format, of w] and G1 = W [unfolded writes_def, rule_format, of "snd (f w)"]
  show "fst (and_also f g w) = bw_ok (snd (and_also f g w))" by (simp add: and_also_def G)
  show "bw_cap (snd (and_also f g w)) = bw_cap w" using F1 G1 by (simp add: and_also_def)
  show "\<not> bw_ok (snd (and_also f g w))" if "\<not> bw_ok w" using F1 G1 that by (simp add: and_also_def)
  assume w: "bw_ok w \<and> length (bw_out w) \<le> bw_cap w"
  show "if length (bw_out w) + length (bs @ cs) \<le> bw_cap w
      then fst (and_also f g w) \<and> snd (and_also f g w) = w\<lparr> bw_out := bw_out w @ bs @ cs \<rparr>
      else \<not> fst (and_also f g w) \<and> \<not> bw_ok (snd (and_also f g w))"
  proof (cases "length (bw_out w) + length bs \<le> bw_cap w")
    case True
    then have f': "snd (f w) = w\<lparr> bw_out := bw_out w @ bs \<rparr>" using F1 w by auto
    then have "bw_ok (snd (f w)) \<and> length (bw_out (snd (f w))) \<le> bw_cap (snd (f w))" using w True by simp
    with G1 have "if length (bw_out (snd (f w))) + length cs \<le> bw_cap (snd (f w))
      then fst (g (snd (f w))) \<and> snd (g (snd (f w))) = (snd (f w))\<lparr> bw_out := bw_out (snd (f w)) @ cs \<rparr>
      else \<not> fst (g (snd (f w))) \<and> \<not> bw_ok (snd (g (snd (f w))))" by blast
    then show ?thesis unfolding f' and_also_def by (simp add: add.assoc split: if_splits)
  next
    case False
    then have "\<not> bw_ok (snd (f w))" using F1 w by auto
    with G1 have "\<not> bw_ok (snd (g (snd (f w))))" by blast
    with False G show ?thesis by (simp add: and_also_def)
  qed
qed

lemma writes_cong: "writes bs f \<Longrightarrow> (\<And>w. f w = g w) \<Longrightarrow> writes bs g"
  using ext [of f g] by metis

lemma pours_cong: "pours bs f \<Longrightarrow> (\<And>w. f w = g w) \<Longrightarrow> pours bs g"
  using ext [of f g] by metis

lemma has_types_Nil: "has_types fs [] \<Longrightarrow> fs = []"
  by (cases fs) auto

lemma writes_value:
  shows "has_type t v \<Longrightarrow> writes (value_bytes t v) (tagged_write_value t v)"
    and "all_type t vs \<Longrightarrow> writes (elems_bytes t vs) (tagged_write_elems t vs)"
    and "has_types fs vs \<Longrightarrow> pours (object_bytes fs vs) (tagged_write_object fs vs)"
proof (induction t v and t vs and fs vs rule: value_bytes_elems_bytes_object_bytes.induct)
  case (6 bs)
  then show ?case
    by (simp del: append.simps) (rule writes_cong [OF writes_and_then [OF writes_put_uleb writes_put_bytes]], simp)
next
  case (7 t vs)
  then have "writes (elems_bytes t vs) (tagged_write_elems t vs)" by simp
  from writes_and_then [OF writes_put_uleb this] have
    "writes (value_bytes (MVec t) (VVec vs)) (and_then (put_uleb (of_nat (tagged_content_size t vs))) (tagged_write_elems t vs))"
    using 7 by (simp add: length_value_bytes)
  then show ?case by (rule writes_cong) simp
next
  case (8 s fs vs)
  then have "writes (object_bytes fs vs) (tagged_write_object fs vs)" by (simp add: pours_def)
  from writes_and_then [OF writes_put_uleb this] have
    "writes (value_bytes (MObj s fs) (VObj vs)) (and_then (put_uleb (of_nat (tagged_object_size fs vs))) (tagged_write_object fs vs))"
    using 8 by (simp add: length_value_bytes)
  then show ?case by (rule writes_cong) simp
next
  case (10 t)
  show ?case unfolding elems_bytes.simps using writes_nothing by (rule writes_cong) simp
next
  case (11 t v vs)
  then have "writes (value_bytes t v @ elems_bytes t vs) (and_then (tagged_write_value t v) (tagged_write_elems t vs))"
    by (intro writes_and_then) auto
  then show ?case unfolding elems_bytes.simps by (rule writes_cong) simp
next
  case (12 tag t fs v vs)
  then have "pours ((uleb_bytes (field_key tag t) @ value_bytes t v) @ object_bytes fs vs)
      (and_also (and_then (put_uleb (field_key tag t)) (tagged_write_value t v)) (tagged_write_object fs vs))"
    by (intro pours_and_also writes_and_then writes_put_uleb) auto
  then show ?case unfolding object_bytes.simps append.assoc by (rule pours_cong) simp
next
  case "13_1"
  show ?case unfolding object_bytes.simps using pours_done by (rule pours_cong) simp
qed (auto dest!: has_types_Nil intro: pours_cong [OF pours_done] writes_cong [OF writes_put_uleb] writes_cong [OF writes_put_fixed_le] simp: pours_done)

lemma object_written:
  assumes "has_types fs vs"
  shows "encode_tagged fs vs cap =
    (if length (object_bytes fs vs) \<le> cap then Inr (object_bytes fs vs)
     else fail Serialization ''encode buffer too small'')"
proof -
  have "writes (object_bytes fs vs) (tagged_write_object fs vs)" using writes_value(3) [OF assms] by (simp add: pours_def)
  note W = this [unfolded writes_def, rule_format, of "bw_create cap"]
  have b: "bw_ok (bw_create cap)" "bw_out (bw_create cap) = []" "bw_cap (bw_create cap) = cap" by (simp_all add: bw_create_def)
  show ?thesis
  proof (cases "length (object_bytes fs vs) \<le> cap")
    case True
    then have "snd (tagged_write_object fs vs (bw_create cap)) = (bw_create cap)\<lparr> bw_out := object_bytes fs vs \<rparr>"
      using W b by simp
    with True b show ?thesis by (simp add: encode_tagged_def Let_def)
  next
    case False
    then have "\<not> bw_ok (snd (tagged_write_object fs vs (bw_create cap)))" using W b by simp
    with False show ?thesis by (simp add: encode_tagged_def Let_def)
  qed
qed

end
