(* ===== verification/Tagged_Evolution.thy ===== *)
theory Tagged_Evolution
  imports Tagged_Wire
begin

text \<open>
  What the tagged codec of \<open>include/quark/core/wire.hpp\<close> promises: the size pass is exact, what one version of
  a type writes another version reads (fields are matched by tag, unknown tags are skipped, absent ones keep
  their value), and a stream that ends early is refused.  The reader's result is stated with \<open>absorb\<close>, the
  value a member holds after the bytes of another version of it were read into it.
\<close>

section \<open>Keys\<close>

lemma wire_code_less: "unat (wire_code wt) < 8"
  by (cases wt) (simp_all add: wire_code_def)

lemma bit_wire_code: "bit (wire_code wt) k \<Longrightarrow> k < 3"
  using unat_less_exp_iff_bits [of "wire_code wt" 3] wire_code_less [of wt] by (simp add: not_less [symmetric]) (meson not_less)

lemma field_key_tag [wire_simps]: "(ucast (drop_bit 3 (field_key tag t)) :: u32) = tag"
proof (rule bit_word_eqI)
  fix k
  assume k: "k < LENGTH(32)"
  have "\<not> bit (wire_code (wire_type_of t)) (3 + k)" using bit_wire_code [of _ "3 + k"] by auto
  with k show "bit (ucast (drop_bit 3 (field_key tag t)) :: u32) k = bit tag k"
    by (simp add: field_key_def bit_ucast_iff bit_drop_bit_eq bit_or_iff bit_push_bit_iff)
qed

lemma field_key_type [wire_simps]: "(ucast (field_key tag t AND 7) :: u8) = wire_code (wire_type_of t)"
proof (rule bit_word_eqI)
  fix k
  assume k: "k < LENGTH(8)"
  have m: "(7 :: u64) = mask 3" by (simp add: mask_eq_exp_minus_1)
  show "bit (ucast (field_key tag t AND 7) :: u8) k = bit (wire_code (wire_type_of t)) k"
    using k bit_wire_code [of "wire_type_of t" k]
    unfolding m by (auto simp: field_key_def bit_ucast_iff bit_and_iff bit_or_iff bit_push_bit_iff bit_mask_iff)
qed

section \<open>Skipping\<close>

lemma unat_of_nat_u64: "n < 2 ^ 64 \<Longrightarrow> unat (of_nat n :: u64) = n"
  by (simp add: unat_of_nat)

lemma skip_bytes_prefix [wire_simps]: "length bs = n \<Longrightarrow> skip_bytes n (bs @ r) = Some r"
  by (simp add: skip_bytes_def)

lemma tagged_skip_value_bytes:
  assumes "has_type t v" and "length (value_bytes t v) < 2 ^ 64"
  shows "tagged_skip_value (wire_code (wire_type_of t)) (value_bytes t v @ r) = Some r"
  using assms
  by (cases t; cases v) (simp_all add: tagged_skip_value_def wire_code_def skip_bytes_prefix unat_of_nat_u64)

section \<open>Integers\<close>

lemma int_fits_bounds: "int_fits w s i \<Longrightarrow> - (2 ^ 63) \<le> i \<and> i < 2 ^ 64 \<and> (s \<longrightarrow> i < 2 ^ 63)"
proof -
  assume f: "int_fits w s i"
  then have w: "0 < w" "w \<le> 64" by (auto simp: int_fits_def)
  have "(2::int) ^ (w - 1) \<le> 2 ^ 63" "(2::int) ^ w \<le> 2 ^ 64" using w by (intro power_increasing; simp)+
  then show ?thesis using f by (auto simp: int_fits_def split: if_splits)
qed

lemma read_int_fits: "int_fits w s i \<Longrightarrow> read_int w s i = i"
  by (auto simp: int_fits_def read_int_def take_bit_int_eq_self_iff signed_take_bit_int_eq_self split: if_splits)

lemma read_int_of_int:
  assumes "int_fits w s i"
  shows "read_int w s (uint (of_int i :: u64)) = i"
proof -
  have w: "0 < w" "w \<le> 64" using assms by (auto simp: int_fits_def)
  have u: "uint (of_int i :: u64) = take_bit 64 i" by (simp add: unsigned_of_int)
  have "read_int w s (take_bit 64 i) = read_int w s i"
  proof (cases s)
    case True
    have "signed_take_bit (w - 1) (take_bit 64 i) = signed_take_bit (w - 1) i"
      using w by (intro signed_take_bit_eq_iff_take_bit_eq [THEN iffD2]) (simp add: take_bit_take_bit)
    with True show ?thesis by (simp add: read_int_def)
  next
    case False
    with w show ?thesis by (simp add: read_int_def take_bit_take_bit min_def)
  qed
  then show ?thesis using read_int_fits [OF assms] u by simp
qed

lemma read_int_zigzag: "int_fits w True i \<Longrightarrow> read_int w True (unzigzag (zigzag i)) = i"
  using int_fits_bounds [of w True i] by (simp add: unzigzag_zigzag read_int_fits)

section \<open>What a reader's member holds after another version was read into it\<close>

function (sequential) absorb :: "(mtype \<Rightarrow> mval) \<Rightarrow> mtype \<Rightarrow> mval \<Rightarrow> mtype \<Rightarrow> mval \<Rightarrow> mval"
  and absorb_elems :: "(mtype \<Rightarrow> mval) \<Rightarrow> mtype \<Rightarrow> mtype \<Rightarrow> mval list \<Rightarrow> mval list"
  and absorb_fields :: "(mtype \<Rightarrow> mval) \<Rightarrow> field_list \<Rightarrow> mval list \<Rightarrow> field_list \<Rightarrow> mval list \<Rightarrow> mval list"
  and absorb_field :: "(mtype \<Rightarrow> mval) \<Rightarrow> field_list \<Rightarrow> mval list \<Rightarrow> u32 \<Rightarrow> mtype \<Rightarrow> mval \<Rightarrow> mval list" where
  "absorb mk rt m wt (VVec vs) =
     (case (rt, wt) of (MVec rt', MVec wt') \<Rightarrow> VVec (absorb_elems mk rt' wt' vs) | _ \<Rightarrow> VVec vs)"
| "absorb mk rt m wt (VObj vs) =
     (case (rt, m, wt) of (MObj rs rfs, VObj cs, MObj ws wfs) \<Rightarrow> VObj (absorb_fields mk rfs cs wfs vs) | _ \<Rightarrow> VObj vs)"
| "absorb mk rt m wt (VBool b) = VBool b"
| "absorb mk rt m wt (VInt i) = VInt i"
| "absorb mk rt m wt (VF64 x) = VF64 x"
| "absorb mk rt m wt (VF32 x) = VF32 x"
| "absorb mk rt m wt (VStr bs) = VStr bs"
| "absorb_elems mk rt wt [] = []"
| "absorb_elems mk rt wt (v # vs) = absorb mk rt (mk rt) wt v # absorb_elems mk rt wt vs"
| "absorb_fields mk rfs cs wfs [] = cs"
| "absorb_fields mk rfs cs wfs (v # vs) =
     (case wfs of [] \<Rightarrow> cs | (tag, wt) # wfs' \<Rightarrow> absorb_fields mk rfs (absorb_field mk rfs cs tag wt v) wfs' vs)"
| "absorb_field mk [] cs tag wt v = cs"
| "absorb_field mk (f # rfs) cs tag wt v =
     (case cs of [] \<Rightarrow> []
      | c # cs' \<Rightarrow> if fst f = tag then absorb mk (snd f) c wt v # cs' else c # absorb_field mk rfs cs' tag wt v)"
  by pat_completeness auto

termination
  by (relation "measures
       [\<lambda>x. case x of Inl (Inl (mk, rt, m, wt, v)) \<Rightarrow> size v | Inl (Inr (mk, rt, wt, vs)) \<Rightarrow> size_list size vs
          | Inr (Inl (mk, rfs, cs, wfs, vs)) \<Rightarrow> size_list size vs | Inr (Inr (mk, rfs, cs, tag, wt, v)) \<Rightarrow> size v,
        \<lambda>x. case x of Inl (Inl y) \<Rightarrow> 0 | Inl (Inr y) \<Rightarrow> 0 | Inr (Inl y) \<Rightarrow> 0
          | Inr (Inr (mk, rfs, cs, tag, wt, v)) \<Rightarrow> Suc (length rfs)]") auto

text \<open>Two versions of a type can exchange values when the fields they share have such types.\<close>

fun compat :: "mtype \<Rightarrow> mtype \<Rightarrow> bool" and compat_fields :: "field_list \<Rightarrow> field_list \<Rightarrow> bool"
  and compat_field :: "field_list \<Rightarrow> u32 \<Rightarrow> mtype \<Rightarrow> bool" where
  "compat rt (MVec wt) = (case rt of MVec rt' \<Rightarrow> compat rt' wt | _ \<Rightarrow> False)"
| "compat rt (MObj ws wfs) = (case rt of MObj rs rfs \<Rightarrow> compat_fields rfs wfs | _ \<Rightarrow> False)"
| "compat rt MBool = (rt = MBool)"
| "compat rt (MEnum w s) = (rt = MEnum w s)"
| "compat rt MDouble = (rt = MDouble)"
| "compat rt MFloat = (rt = MFloat)"
| "compat rt (MInt w s) = (rt = MInt w s)"
| "compat rt MString = (rt = MString)"
| "compat_fields rfs [] = True"
| "compat_fields rfs ((tag, wt) # wfs) = (compat_field rfs tag wt \<and> compat_fields rfs wfs)"
| "compat_field [] tag wt = True"
| "compat_field ((tag', rt) # rfs) tag wt = (if tag' = tag then compat rt wt else compat_field rfs tag wt)"

text \<open>The elements of a reader's vectors start from well-typed values.\<close>

fun defaults_ok :: "(mtype \<Rightarrow> mval) \<Rightarrow> mtype \<Rightarrow> bool" and defaults_oks :: "(mtype \<Rightarrow> mval) \<Rightarrow> field_list \<Rightarrow> bool" where
  "defaults_ok mk (MVec t) = (has_type t (mk t) \<and> defaults_ok mk t)"
| "defaults_ok mk (MObj s fs) = defaults_oks mk fs"
| "defaults_ok mk _ = True"
| "defaults_oks mk [] = True"
| "defaults_oks mk ((tag, t) # fs) = (defaults_ok mk t \<and> defaults_oks mk fs)"

lemma has_type_inv:
  "has_type t (VBool b) \<Longrightarrow> t = MBool"
  "has_type t (VInt i) \<Longrightarrow> \<exists>w s. int_fits w s i \<and> (t = MEnum w s \<or> t = MInt w s)"
  "has_type t (VF64 x) \<Longrightarrow> t = MDouble"
  "has_type t (VF32 y) \<Longrightarrow> t = MFloat"
  "has_type t (VStr bs) \<Longrightarrow> t = MString"
  "has_type t (VVec vs) \<Longrightarrow> \<exists>t'. t = MVec t' \<and> all_type t' vs"
  "has_type t (VObj vs) \<Longrightarrow> \<exists>s fs. t = MObj s fs \<and> has_types fs vs"
  by (cases t; simp)+

lemma has_type_MObjD: "has_type (MObj s fs) v \<Longrightarrow> \<exists>vs. v = VObj vs \<and> has_types fs vs"
  by (cases v) auto

lemma compat_MVecD: "compat rt (MVec wt) \<Longrightarrow> \<exists>rt'. rt = MVec rt' \<and> compat rt' wt"
  by (cases rt) auto

lemma compat_MObjD: "compat rt (MObj s wfs) \<Longrightarrow> \<exists>rs rfs. rt = MObj rs rfs \<and> compat_fields rfs wfs"
  by (cases rt) auto

lemma has_types_Cons_left: "has_types (f # fs) cs \<Longrightarrow> \<exists>c cs'. cs = c # cs' \<and> has_type (snd f) c \<and> has_types fs cs'"
  by (cases f; cases cs) auto

lemma has_types_Cons_right: "has_types fs (v # vs) \<Longrightarrow> \<exists>tag t fs'. fs = (tag, t) # fs' \<and> has_type t v \<and> has_types fs' vs"
  by (cases fs) auto

lemma absorb_typed:
  shows "compat rt wt \<Longrightarrow> has_type rt m \<Longrightarrow> has_type wt v \<Longrightarrow> defaults_ok mk rt \<Longrightarrow> has_type rt (absorb mk rt m wt v)"
    and "compat rt wt \<Longrightarrow> all_type wt vs \<Longrightarrow> has_type rt (mk rt) \<Longrightarrow> defaults_ok mk rt \<Longrightarrow> all_type rt (absorb_elems mk rt wt vs)"
    and "compat_fields rfs wfs \<Longrightarrow> has_types rfs cs \<Longrightarrow> has_types wfs vs \<Longrightarrow> defaults_oks mk rfs \<Longrightarrow>
      has_types rfs (absorb_fields mk rfs cs wfs vs)"
    and "compat_field rfs tag wt \<Longrightarrow> has_types rfs cs \<Longrightarrow> has_type wt v \<Longrightarrow> defaults_oks mk rfs \<Longrightarrow>
      has_types rfs (absorb_field mk rfs cs tag wt v)"
proof (induction mk rt m wt v and mk rt wt vs and mk rfs cs wfs vs and mk rfs cs tag wt v
    rule: absorb_absorb_elems_absorb_fields_absorb_field.induct)
  case (1 mk rt m wt vs)
  then show ?case by (auto dest!: has_type_inv compat_MVecD)
next
  case (2 mk rt m wt vs)
  then show ?case by (auto dest!: has_type_inv compat_MObjD has_type_MObjD)
next
  case (11 mk rfs cs wfs v vs)
  then show ?case by (auto dest!: has_types_Cons_right)
next
  case (13 mk f rfs cs tag wt v)
  then show ?case by (cases f) (auto dest!: has_types_Cons_left)
qed (auto dest!: has_type_inv)

lemma absorb_field_absent: "tag \<notin> fst ` set rfs \<Longrightarrow> absorb_field mk rfs cs tag wt v = cs"
  by (induction rfs arbitrary: cs) (auto split: list.split)

lemma value_bytes_not_Nil: "has_type t v \<Longrightarrow> value_bytes t v \<noteq> []"
  by (cases t; cases v) (auto simp: put_le_def)

lemma length_uleb_Suc: obtains j where "length (uleb_bytes v) = Suc j"
  using uleb_bytes_not_Nil [of v] by (cases "uleb_bytes v") auto

lemma tagged_object_loop_step:
  assumes "r \<noteq> []"
  shows "tagged_object_loop mk (Suc n) fs r cs =
     (case get_uleb r of
        None \<Rightarrow> None
      | Some (key, r') \<Rightarrow>
          (case tagged_decode_field mk n (ucast (drop_bit 3 key)) fs r' cs of
             Inl None \<Rightarrow> None
           | Inl (Some (cs', r'')) \<Rightarrow> tagged_object_loop mk n fs r'' cs'
           | Inr u \<Rightarrow>
               (case tagged_skip_value (ucast (key AND 7)) r' of
                  None \<Rightarrow> None
                | Some r'' \<Rightarrow> tagged_object_loop mk n fs r'' cs)))"
  using assms by (cases r) simp_all

lemma object_loop_field:
  "tagged_object_loop mk (Suc j) fs (uleb_bytes (field_key tag wt) @ s) cs =
     (case tagged_decode_field mk j tag fs s cs of
        Inl None \<Rightarrow> None
      | Inl (Some (cs', r'')) \<Rightarrow> tagged_object_loop mk j fs r'' cs'
      | Inr u \<Rightarrow>
          (case tagged_skip_value (wire_code (wire_type_of wt)) s of
             None \<Rightarrow> None
           | Some r'' \<Rightarrow> tagged_object_loop mk j fs r'' cs))"
proof -
  have ne: "uleb_bytes (field_key tag wt) @ s \<noteq> []" by simp
  show ?thesis unfolding tagged_object_loop_step [OF ne] get_uleb_bytes option.case prod.case field_key_tag field_key_type by (simp split: sum.split)
qed

lemma tagged_read_elems_step:
  assumes "r \<noteq> []"
  shows "tagged_read_elems mk (Suc n) t r =
     (case tagged_read_value mk n t (mk t) r of
        None \<Rightarrow> None
      | Some (v, r') \<Rightarrow> map_option (Cons v) (tagged_read_elems mk n t r'))"
  using assms by (cases r) simp_all

text \<open>
  The reader on what a writer of another version wrote.  A value has a first byte of its own, so \<open>n\<close> may be
  one less than the bytes of the value.
\<close>

lemma tagged_read_absorbs:
  shows "compat rt wt \<Longrightarrow> has_type rt m \<Longrightarrow> has_type wt v \<Longrightarrow> defaults_ok mk rt \<Longrightarrow>
      length (value_bytes wt v) < 2 ^ 64 \<Longrightarrow> length (value_bytes wt v) \<le> Suc n \<Longrightarrow>
      tagged_read_value mk n rt m (value_bytes wt v @ r) = Some (absorb mk rt m wt v, r)"
    and "compat rt wt \<Longrightarrow> all_type wt vs \<Longrightarrow> has_type rt (mk rt) \<Longrightarrow> defaults_ok mk rt \<Longrightarrow>
      length (elems_bytes wt vs) < 2 ^ 64 \<Longrightarrow> length (elems_bytes wt vs) \<le> n \<Longrightarrow>
      tagged_read_elems mk n rt (elems_bytes wt vs) = Some (absorb_elems mk rt wt vs)"
    and "compat_fields rfs wfs \<Longrightarrow> has_types rfs cs \<Longrightarrow> has_types wfs vs \<Longrightarrow> defaults_oks mk rfs \<Longrightarrow>
      length (object_bytes wfs vs) < 2 ^ 64 \<Longrightarrow> length (object_bytes wfs vs) \<le> n \<Longrightarrow>
      tagged_object_loop mk n rfs (object_bytes wfs vs) cs = Some (absorb_fields mk rfs cs wfs vs)"
    and "compat_field rfs tag wt \<Longrightarrow> has_types rfs cs \<Longrightarrow> has_type wt v \<Longrightarrow> defaults_oks mk rfs \<Longrightarrow>
      length (value_bytes wt v) < 2 ^ 64 \<Longrightarrow> length (value_bytes wt v) \<le> Suc n \<Longrightarrow>
      tagged_decode_field mk n tag rfs (value_bytes wt v @ r) cs =
        (if tag \<in> fst ` set rfs then Inl (Some (absorb_field mk rfs cs tag wt v, r)) else Inr ())"
proof (induction mk rt m wt v and mk rt wt vs and mk rfs cs wfs vs and mk rfs cs tag wt v
    arbitrary: n r and n and n and n r rule: absorb_absorb_elems_absorb_fields_absorb_field.induct)
  case (1 mk rt m wt vs)
  then obtain wt' rt' where t: "wt = MVec wt'" "rt = MVec rt'" "all_type wt' vs" "compat rt' wt'"
    by (auto dest!: has_type_inv compat_MVecD)
  obtain j where j: "length (uleb_bytes (of_nat (length (elems_bytes wt' vs)))) = Suc j" by (rule length_uleb_Suc)
  then have l: "length (elems_bytes wt' vs) < 2 ^ 64" "length (elems_bytes wt' vs) \<le> n" using 1(6,7) t by simp_all
  with 1(1) [OF _ t(2,1)] 1(5) t have "tagged_read_elems mk n rt' (elems_bytes wt' vs) = Some (absorb_elems mk rt' wt' vs)" by simp
  with l t show ?case by (simp add: unat_of_nat_u64)
next
  case (2 mk rt m wt vs)
  then obtain ws wfs rs rfs cs where t: "wt = MObj ws wfs" "rt = MObj rs rfs" "has_types wfs vs" "compat_fields rfs wfs"
      "m = VObj cs" "has_types rfs cs"
    by (auto dest!: has_type_inv compat_MObjD has_type_MObjD)
  obtain j where j: "length (uleb_bytes (of_nat (length (object_bytes wfs vs)))) = Suc j" by (rule length_uleb_Suc)
  then have l: "length (object_bytes wfs vs) < 2 ^ 64" "length (object_bytes wfs vs) \<le> n" using 2(6,7) t by simp_all
  with 2(1) [OF _ t(2) _ t(5,1)] 2(5) t have "tagged_object_loop mk n rfs (object_bytes wfs vs) cs = Some (absorb_fields mk rfs cs wfs vs)" by simp
  with l t show ?case by (simp add: unat_of_nat_u64)
next
  case (3 mk rt m wt b)
  then show ?case by (auto dest!: has_type_inv)
next
  case (4 mk rt m wt i)
  then show ?case by (auto dest!: has_type_inv simp: read_int_of_int read_int_zigzag)
next
  case (7 mk rt m wt bs)
  then show ?case by (auto dest!: has_type_inv simp: unat_of_nat_u64)
next
  case (9 mk rt wt v vs)
  then have v: "value_bytes wt v \<noteq> []" by (auto dest: value_bytes_not_Nil)
  then obtain j where j: "length (value_bytes wt v) = Suc j" by (cases "value_bytes wt v") auto
  with 9(8) obtain k where n: "n = Suc k" by (cases n) auto
  have l: "length (value_bytes wt v) \<le> Suc k" "length (elems_bytes wt vs) \<le> k" "length (value_bytes wt v) < 2 ^ 64"
    "length (elems_bytes wt vs) < 2 ^ 64" using 9(7,8) n j by simp_all
  have t: "has_type wt v" "all_type wt vs" using 9(4) by simp_all
  have "tagged_read_value mk k rt (mk rt) (value_bytes wt v @ elems_bytes wt vs) =
      Some (absorb mk rt (mk rt) wt v, elems_bytes wt vs)"
    by (rule 9(1) [OF 9(3) 9(5) t(1) 9(6) l(3,1)])
  moreover have "tagged_read_elems mk k rt (elems_bytes wt vs) = Some (absorb_elems mk rt wt vs)"
    by (rule 9(2) [OF 9(3) t(2) 9(5,6) l(4,2)])
  ultimately show ?case using v by (simp add: n tagged_read_elems_step)
next
  case (11 mk rfs cs wfs v vs)
  then obtain tag wt wfs' where w: "wfs = (tag, wt) # wfs'" "has_type wt v" "has_types wfs' vs"
    by (auto dest!: has_types_Cons_right)
  let ?k = "uleb_bytes (field_key tag wt)" and ?v = "value_bytes wt v" and ?o = "object_bytes wfs' vs"
  have c: "compat_field rfs tag wt" "compat_fields rfs wfs'" using 11(3) w by simp_all
  obtain i where k: "length ?k = Suc i" by (rule length_uleb_Suc)
  with 11(8) w obtain j where n: "n = Suc j" by (cases n) auto
  have l: "length ?v \<le> Suc j" "length ?o \<le> j" "length ?v < 2 ^ 64" "length ?o < 2 ^ 64" using 11(7,8) k w n by simp_all
  have field: "tagged_decode_field mk j tag rfs (?v @ ?o) cs =
      (if tag \<in> fst ` set rfs then Inl (Some (absorb_field mk rfs cs tag wt v, ?o)) else Inr ())"
    by (rule 11(1) [OF w(1) refl c(1) 11(4) w(2) 11(6) l(3,1)])
  have typed: "has_types rfs (absorb_field mk rfs cs tag wt v)"
    by (rule absorb_typed(4) [OF c(1) 11(4) w(2) 11(6)])
  have rest: "tagged_object_loop mk j rfs ?o (absorb_field mk rfs cs tag wt v) =
      Some (absorb_fields mk rfs (absorb_field mk rfs cs tag wt v) wfs' vs)"
    by (rule 11(2) [OF w(1) refl c(2) typed w(3) 11(6) l(4,2)])
  have skip: "tagged_skip_value (wire_code (wire_type_of wt)) (?v @ ?o) = Some ?o"
    by (rule tagged_skip_value_bytes [OF w(2) l(3)])
  have loop: "tagged_object_loop mk n rfs (?k @ ?v @ ?o) cs =
      tagged_object_loop mk j rfs ?o (absorb_field mk rfs cs tag wt v)"
  proof (cases "tag \<in> fst ` set rfs")
    case True
    show ?thesis unfolding n object_loop_field field if_P [OF True] by simp
  next
    case False
    show ?thesis unfolding n object_loop_field field if_not_P [OF False] skip by (simp add: absorb_field_absent [OF False])
  qed
  show ?case unfolding w(1) object_bytes.simps loop rest by simp
next
  case (13 mk f rfs cs tag wt v)
  obtain c cs' where cs: "cs = c # cs'" "has_type (snd f) c" "has_types rfs cs'" using has_types_Cons_left [OF 13(4)] by blast
  obtain tag' rt where f: "f = (tag', rt)" by (rule prod.exhaust)
  have d: "defaults_ok mk rt" "defaults_oks mk rfs" using 13(6) f by simp_all
  show ?case
  proof (cases "tag' = tag")
    case True
    then have "tagged_read_value mk n rt c (value_bytes wt v @ r) = Some (absorb mk rt c wt v, r)"
      using 13(1) [OF cs(1), of n r] 13(3,5,7,8) cs d f by simp
    with True f cs show ?thesis by simp
  next
    case False
    then have "tagged_decode_field mk n tag rfs (value_bytes wt v @ r) cs' =
        (if tag \<in> fst ` set rfs then Inl (Some (absorb_field mk rfs cs' tag wt v, r)) else Inr ())"
      using 13(2) [OF cs(1), of n r] 13(3,5,7,8) cs d f by simp
    with False f cs show ?thesis by simp
  qed
next
  case (5 mk rt m wt x)
  then show ?case by (auto dest!: has_type_inv)
next
  case (6 mk rt m wt x)
  then show ?case by (auto dest!: has_type_inv)
next
  case (10 mk rfs cs wfs)
  then show ?case by (cases wfs) auto
qed auto

section \<open>The loops end\<close>

lemma get_fixed_le_less: "get_fixed_le n r = Some (v, r') \<Longrightarrow> 0 < n \<Longrightarrow> length r' < length r"
  using get_fixed_le_shorter by fastforce

lemma tagged_skip_value_le: "tagged_skip_value wt r = Some r' \<Longrightarrow> length r' \<le> length r"
  unfolding tagged_skip_value_def skip_bytes_def by (auto split: if_splits option.splits dest!: get_uleb_shorter)

lemma tagged_read_value_shorter: "tagged_read_value mk n t m r = Some (v, r') \<Longrightarrow> length r' < length r"
proof (cases t)
  case MString
  assume "tagged_read_value mk n t m r = Some (v, r')"
  with MString show ?thesis by (auto split: option.splits if_splits dest!: get_uleb_shorter)
next
  case (MVec t')
  assume "tagged_read_value mk n t m r = Some (v, r')"
  with MVec show ?thesis by (auto split: option.splits if_splits dest!: get_uleb_shorter)
next
  case (MObj s fs)
  assume "tagged_read_value mk n t m r = Some (v, r')"
  with MObj show ?thesis by (auto split: option.splits if_splits dest!: get_uleb_shorter)
qed (auto dest: get_uleb_shorter get_fixed_le_less)

lemma tagged_decode_field_shorter:
  "tagged_decode_field mk n tag fs r cs = Inl (Some (cs', r')) \<Longrightarrow> length r' < length r"
proof (induction fs arbitrary: cs cs')
  case (Cons f fs)
  obtain tag' t where f: "f = (tag', t)" by (rule prod.exhaust)
  show ?case
  proof (cases cs)
    case Nil
    with Cons.prems f show ?thesis by simp
  next
    case (Cons c ds)
    with Cons.prems Cons.IH f show ?thesis
      by (auto split: if_splits sum.splits option.splits dest: tagged_read_value_shorter)
  qed
qed simp

text \<open>Any fuel that is not below the number of bytes gives the same result.\<close>

lemma tagged_read_fuel:
  shows "length r \<le> Suc n \<Longrightarrow> length r \<le> Suc k \<Longrightarrow> tagged_read_value mk n t m r = tagged_read_value mk k t m r"
    and "length r \<le> n \<Longrightarrow> length r \<le> k \<Longrightarrow> tagged_read_elems mk n t r = tagged_read_elems mk k t r"
    and "length r \<le> n \<Longrightarrow> length r \<le> k \<Longrightarrow> tagged_object_loop mk n fs r cs = tagged_object_loop mk k fs r cs"
    and "length r \<le> Suc n \<Longrightarrow> length r \<le> Suc k \<Longrightarrow> tagged_decode_field mk n tag fs r cs = tagged_decode_field mk k tag fs r cs"
proof (induction mk n t m r and mk n t r and mk n fs r cs and mk n tag fs r cs arbitrary: k and k and k and k
    rule: tagged_read_value_tagged_read_elems_tagged_object_loop_tagged_decode_field.induct)
  case (7 mk n t m r)
  show ?case
  proof (cases "get_uleb r")
    case (Some p)
    obtain content r' where p: "p = (content, r')" by (rule prod.exhaust)
    have "length r' < length r" using get_uleb_shorter [of r content r'] Some p by simp
    then have "tagged_read_elems mk n t (take (unat content) r') = tagged_read_elems mk k t (take (unat content) r')"
      if "\<not> length r' < unat content"
      using that 7(2,3) by (intro 7(1) [OF Some p [symmetric]]) auto
    with Some p show ?thesis by simp
  qed simp
next
  case (8 mk n s fs m r)
  show ?case
  proof (cases "get_uleb r")
    case (Some p)
    obtain content r' where p: "p = (content, r')" by (rule prod.exhaust)
    have "length r' < length r" using get_uleb_shorter [of r content r'] Some p by simp
    then have "tagged_object_loop mk n fs (take (unat content) r') cs = tagged_object_loop mk k fs (take (unat content) r') cs"
      if "\<not> length r' < unat content" "cs = (case m of VObj cs \<Rightarrow> cs | _ \<Rightarrow> [])" for cs
      using that(1) 8(2,3) unfolding that(2) by (intro 8(1) [OF Some p [symmetric]]) auto
    with Some p show ?thesis by simp
  qed simp
next
  case (11 mk n t b bs)
  obtain j where k: "k = Suc j" using 11(4) by (cases k) auto
  have v: "tagged_read_value mk n t (mk t) (b # bs) = tagged_read_value mk j t (mk t) (b # bs)"
    using 11(3,4) k by (intro 11(1)) auto
  show ?case
  proof (cases "tagged_read_value mk j t (mk t) (b # bs)")
    case (Some p)
    obtain v r' where p: "p = (v, r')" by (rule prod.exhaust)
    have "length r' < Suc (length bs)" using tagged_read_value_shorter [of mk j t "mk t" "b # bs" v r'] Some p by simp
    then have "tagged_read_elems mk n t r' = tagged_read_elems mk j t r'"
      using v Some p 11(3,4) k by (intro 11(2) [of p v r']) auto
    with v Some p k show ?thesis by simp
  qed (simp add: v k)
next
  case (14 mk n fs b bs cs)
  obtain j where k: "k = Suc j" using 14(5) by (cases k) auto
  show ?case
  proof (cases "get_uleb (b # bs)")
    case (Some p)
    obtain key r' where p: "p = (key, r')" by (rule prod.exhaust)
    have s: "length r' < Suc (length bs)" using get_uleb_shorter [of "b # bs" key r'] Some p by simp
    let ?tag = "ucast (drop_bit 3 key) :: u32"
    have d: "tagged_decode_field mk n ?tag fs r' cs = tagged_decode_field mk j ?tag fs r' cs"
      using 14(4,5) k s by (intro 14(1) [OF Some p [symmetric]]) auto
    show ?thesis
    proof (cases "tagged_decode_field mk j ?tag fs r' cs")
      case (Inl q)
      show ?thesis
      proof (cases q)
        case None
        with Inl Some p k d show ?thesis by simp
      next
        case q: (Some q')
        obtain cs' r'' where q': "q' = (cs', r'')" by (rule prod.exhaust)
        have "length r'' < length r'" using tagged_decode_field_shorter [of mk j ?tag fs r' cs cs' r''] Inl q q' by simp
        then have "tagged_object_loop mk n fs r'' cs' = tagged_object_loop mk j fs r'' cs'"
          using 14(4,5) k s d Inl q by (intro 14(2) [OF Some p [symmetric], of q q' cs' r'']) (auto simp: q')
        with Inl q q' Some p k d show ?thesis by simp
      qed
    next
      case (Inr u)
      show ?thesis
      proof (cases "tagged_skip_value (ucast (key AND 7)) r'")
        case None
        with Inr Some p k d show ?thesis by simp
      next
        case t: (Some r'')
        have "length r'' \<le> length r'" using tagged_skip_value_le [OF t] .
        then have "tagged_object_loop mk n fs r'' cs = tagged_object_loop mk j fs r'' cs"
          using 14(4,5) k s d Inr by (intro 14(3) [OF Some p [symmetric] _ t, of u]) auto
        with t Inr Some p k d show ?thesis by simp
      qed
    qed
  qed (simp add: k)
next
  case (15 mk n tag tag' t fs r c cs)
  show ?case
  proof (cases "tag' = tag")
    case True
    then show ?thesis using 15(1) [OF True 15(3,4)] by simp
  next
    case False
    then show ?thesis using 15(2) [OF False 15(3,4)] by simp
  qed
qed simp_all

section \<open>Evolution and round trip\<close>

text \<open>What a writer wrote under a tag.\<close>

fun written_field :: "field_list \<Rightarrow> mval list \<Rightarrow> u32 \<Rightarrow> (mtype \<times> mval) option" where
  "written_field ((tag', t) # fs) (v # vs) tag = (if tag' = tag then Some (t, v) else written_field fs vs tag)"
| "written_field _ _ tag = None"

lemma has_types_length: "has_types fs vs \<Longrightarrow> length vs = length fs"
  by (induction fs vs rule: has_type_has_types_all_type.induct(2) [where P = "\<lambda>_ _. True" and R = "\<lambda>_ _. True"]) auto

lemma length_absorb_field [simp]: "length (absorb_field mk rfs cs tag wt v) = length cs"
  by (induction rfs arbitrary: cs) (auto split: list.split)

lemma absorb_field_nth:
  assumes "distinct (map fst rfs)" and "length cs = length rfs" and "i < length rfs"
  shows "absorb_field mk rfs cs tag wt v ! i =
    (if fst (rfs ! i) = tag then absorb mk (snd (rfs ! i)) (cs ! i) wt v else cs ! i)"
  using assms
proof (induction rfs arbitrary: cs i)
  case (Cons f rfs)
  obtain c cs' where cs: "cs = c # cs'" using Cons.prems(2) by (cases cs) auto
  show ?case
  proof (cases i)
    case 0
    then show ?thesis by (simp add: cs)
  next
    case (Suc j)
    with Cons.prems(3) have "j < length rfs" by simp
    then have "fst (rfs ! j) \<in> fst ` set rfs" by simp
    moreover have "fst f \<notin> fst ` set rfs" using Cons.prems(1) by simp
    ultimately have "fst f \<noteq> fst (rfs ! j)" by metis
    with Suc Cons.prems Cons.IH [of cs' j] show ?thesis by (auto simp: cs)
  qed
qed simp

lemma written_field_absent: "tag \<notin> fst ` set fs \<Longrightarrow> written_field fs vs tag = None"
  by (induction fs vs tag rule: written_field.induct) auto

lemma absorb_fields_nth:
  assumes "distinct (map fst rfs)" and "distinct (map fst wfs)" and "has_types wfs vs"
    and "length cs = length rfs" and "i < length rfs"
  shows "absorb_fields mk rfs cs wfs vs ! i =
    (case written_field wfs vs (fst (rfs ! i)) of None \<Rightarrow> cs ! i
     | Some (wt, v) \<Rightarrow> absorb mk (snd (rfs ! i)) (cs ! i) wt v)"
  using assms(2-4)
proof (induction wfs arbitrary: vs cs)
  case Nil
  then show ?case by (cases vs) auto
next
  case (Cons f wfs)
  obtain tag wt where f: "f = (tag, wt)" by (rule prod.exhaust)
  obtain v vs' where vs: "vs = v # vs'" "has_types wfs vs'" using Cons.prems(2) f by (cases vs) auto
  have d: "distinct (map fst wfs)" "tag \<notin> fst ` set wfs" using Cons.prems(1) f by auto
  note ih = Cons.IH [OF d(1) vs(2), of "absorb_field mk rfs cs tag wt v"]
  have n: "absorb_field mk rfs cs tag wt v ! i =
      (if fst (rfs ! i) = tag then absorb mk (snd (rfs ! i)) (cs ! i) wt v else cs ! i)"
    by (rule absorb_field_nth [OF assms(1) Cons.prems(3) assms(5)])
  show ?case using ih n written_field_absent [OF d(2), of vs'] Cons.prems(3)
    by (cases "fst (rfs ! i) = tag") (simp_all add: f vs split: option.split)
qed

lemma length_absorb_fields [simp]: "length (absorb_fields mk rfs cs wfs vs) = length cs"
  by (induction vs arbitrary: cs wfs) (auto split: list.split)

text \<open>Within one version a value replaces whatever was there.\<close>

fun tags_distinct :: "mtype \<Rightarrow> bool" and fields_distinct :: "field_list \<Rightarrow> bool" where
  "tags_distinct (MVec t) = tags_distinct t"
| "tags_distinct (MObj s fs) = (distinct (map fst fs) \<and> fields_distinct fs)"
| "tags_distinct _ = True"
| "fields_distinct [] = True"
| "fields_distinct ((tag, t) # fs) = (tags_distinct t \<and> fields_distinct fs)"

lemma fields_distinct_nth: "fields_distinct fs \<Longrightarrow> i < length fs \<Longrightarrow> tags_distinct (snd (fs ! i))"
  by (induction fs arbitrary: i) (auto simp: nth_Cons split: nat.splits)

lemma defaults_oks_nth: "defaults_oks mk fs \<Longrightarrow> i < length fs \<Longrightarrow> defaults_ok mk (snd (fs ! i))"
  by (induction fs arbitrary: i) (auto simp: nth_Cons split: nat.splits)

lemma has_types_nth: "has_types fs vs \<Longrightarrow> i < length fs \<Longrightarrow> has_type (snd (fs ! i)) (vs ! i)"
proof (induction fs arbitrary: i vs)
  case (Cons f fs)
  then show ?case by (cases f; cases vs; cases i) auto
qed simp

lemma written_field_nth:
  assumes "distinct (map fst fs)" and "has_types fs vs" and "i < length fs"
  shows "written_field fs vs (fst (fs ! i)) = Some (snd (fs ! i), vs ! i)"
  using assms
proof (induction fs arbitrary: vs i)
  case (Cons f fs)
  obtain tag t where f: "f = (tag, t)" by (rule prod.exhaust)
  obtain v vs' where vs: "vs = v # vs'" "has_types fs vs'" using Cons.prems(2) f by (cases vs) auto
  show ?case
  proof (cases i)
    case 0
    then show ?thesis by (simp add: f vs)
  next
    case (Suc j)
    then have j: "j < length fs" using Cons.prems(3) by simp
    then have "fst (fs ! j) \<in> fst ` set fs" by simp
    then have "fst (fs ! j) \<noteq> tag" using Cons.prems(1) f by auto
    with j Suc Cons.IH [OF _ vs(2) j] Cons.prems(1) show ?thesis by (auto simp: f vs)
  qed
qed simp

lemma nth_size_mtype: "i < length fs \<Longrightarrow> size (snd (fs ! i)) < size (MObj s fs)"
proof (induction fs arbitrary: i)
  case (Cons f fs)
  then show ?case by (cases f; cases i) force+
qed simp

lemma absorb_same:
  assumes "tags_distinct t" and "has_type t m" and "has_type t v" and "defaults_ok mk t"
  shows "absorb mk t m t v = v"
  using assms
proof (induction t arbitrary: m v rule: measure_induct_rule [of size])
  case (less t)
  note ih = less.IH and p = less.prems
  show ?case
  proof (cases t)
    case (MVec t')
    obtain vs where v: "v = VVec vs" "all_type t' vs" using p(3) MVec by (cases v) auto
    have "size t' < size t" using MVec by simp
    note el = ih [OF this _ _ _ , of "mk t'"]
    have "absorb_elems mk t' t' vs = vs"
      using v(2) el p(1,4) MVec by (induction vs) auto
    with MVec v show ?thesis by simp
  next
    case (MObj s fs)
    obtain vs where v: "v = VObj vs" "has_types fs vs" using p(3) MObj by (cases v) auto
    obtain cs where m: "m = VObj cs" "has_types fs cs" using p(2) MObj by (cases m) auto
    have d: "distinct (map fst fs)" "fields_distinct fs" "defaults_oks mk fs" using p(1,4) MObj by simp_all
    have len: "length vs = length fs" "length cs = length fs" using v m by (simp_all add: has_types_length)
    have "absorb_fields mk fs cs fs vs = vs"
    proof (rule nth_equalityI)
      show "length (absorb_fields mk fs cs fs vs) = length vs" using len by simp
      fix i
      assume "i < length (absorb_fields mk fs cs fs vs)"
      then have i: "i < length fs" using len by simp
      have "absorb mk (snd (fs ! i)) (cs ! i) (snd (fs ! i)) (vs ! i) = vs ! i"
        using ih [OF _ fields_distinct_nth [OF d(2) i] has_types_nth [OF m(2) i] has_types_nth [OF v(2) i]
            defaults_oks_nth [OF d(3) i]] nth_size_mtype [OF i, of s] MObj by simp
      then show "absorb_fields mk fs cs fs vs ! i = vs ! i"
        using absorb_fields_nth [OF d(1) d(1) v(2) len(2) i] written_field_nth [OF d(1) v(2) i] by simp
    qed
    with MObj v m show ?thesis by simp
  qed (use p in \<open>cases v; simp\<close>)+
qed

lemma compat_refl:
  shows "tags_distinct t \<Longrightarrow> compat t t"
proof (induction t rule: measure_induct_rule [of size])
  case (less t)
  note ih = less.IH and p = less.prems
  show ?case
  proof (cases t)
    case (MVec t')
    then show ?thesis using ih [of t'] p by simp
  next
    case (MObj s fs)
    have d: "distinct (map fst fs)" "fields_distinct fs" using p MObj by simp_all
    have nth: "compat_field gs (fst (gs ! i)) (snd (gs ! i))"
      if "distinct (map fst gs)" "i < length gs" "\<And>k. k < length gs \<Longrightarrow> compat (snd (gs ! k)) (snd (gs ! k))" for gs i
      using that
    proof (induction gs arbitrary: i)
      case (Cons g gs)
      obtain tag t where g: "g = (tag, t)" by (rule prod.exhaust)
      show ?case
      proof (cases i)
        case 0
        with Cons.prems(3) [of 0] show ?thesis by (simp add: g)
      next
        case (Suc j)
        then have j: "j < length gs" using Cons.prems(2) by simp
        then have "fst (gs ! j) \<in> fst ` set gs" by simp
        then have "fst (gs ! j) \<noteq> tag" using Cons.prems(1) g by auto
        moreover have "compat_field gs (fst (gs ! j)) (snd (gs ! j))"
          using Cons.IH [OF _ j] Cons.prems(1) Cons.prems(3) [of "Suc k" for k] by auto
        ultimately show ?thesis by (simp add: g Suc)
      qed
    qed simp
    have "compat (snd (fs ! k)) (snd (fs ! k))" if "k < length fs" for k
      using ih [OF _ fields_distinct_nth [OF d(2) that]] nth_size_mtype [OF that, of s] MObj by simp
    then have all: "compat_field fs (fst f) (snd f)" if "f \<in> set fs" for f
      using nth [OF d(1)] that by (metis in_set_conv_nth)
    have "compat_fields fs gs" if "set gs \<subseteq> set fs" for gs
      using that
    proof (induction gs)
      case (Cons g gs)
      then show ?case using all [of g] by (cases g) auto
    qed simp
    then show ?thesis by (simp add: MObj)
  qed simp_all
qed

section \<open>Properties\<close>

text \<open>
  Property C17.  Additive evolution: an object encoded with one version of its field list and decoded with
  another gives, for every field of the reader, the value written under its tag (nested versions are absorbed
  in the same way), and the value the field had before when the writer knows no such tag; fields the reader
  does not know are skipped.  The encoding has the length the size pass announced.
\<close>

theorem tagged_evolution:
  assumes "has_types wfs vs" and "distinct (map fst wfs)" and "tagged_object_size wfs vs \<le> cap" and "cap < 2 ^ 64"
    and "has_types rfs out" and "distinct (map fst rfs)" and "defaults_oks mk rfs" and "compat_fields rfs wfs"
  shows "\<exists>buf new. encode_tagged wfs vs cap = Inr buf \<and> length buf = tagged_object_size wfs vs \<and>
    decode_tagged mk rfs buf out = Inr new \<and> has_types rfs new \<and>
    (\<forall>i. i < length rfs \<longrightarrow> new ! i =
       (case written_field wfs vs (fst (rfs ! i)) of
          None \<Rightarrow> out ! i
        | Some (t, v) \<Rightarrow> absorb mk (snd (rfs ! i)) (out ! i) t v))"
proof -
  let ?buf = "object_bytes wfs vs" and ?new = "absorb_fields mk rfs out wfs vs"
  have len: "length ?buf = tagged_object_size wfs vs" using length_value_bytes(3) assms(1) .
  have enc: "encode_tagged wfs vs cap = Inr ?buf" using object_written [OF assms(1)] assms(3) len by simp
  have "tagged_object_loop mk (length ?buf) rfs ?buf out = Some ?new"
    using assms len by (intro tagged_read_absorbs(3)) auto
  then have dec: "decode_tagged mk rfs ?buf out = Inr ?new" by (simp add: decode_tagged_def tagged_read_object_def)
  have "has_types rfs ?new" using assms by (intro absorb_typed(3))
  moreover have "\<forall>i. i < length rfs \<longrightarrow> ?new ! i =
      (case written_field wfs vs (fst (rfs ! i)) of None \<Rightarrow> out ! i
       | Some (t, v) \<Rightarrow> absorb mk (snd (rfs ! i)) (out ! i) t v)"
    using absorb_fields_nth [OF assms(6,2,1) has_types_length [OF assms(5)]] by blast
  ultimately show ?thesis using len enc dec by blast
qed

definition order_v1 :: field_list where
  "order_v1 = [(1, MInt 32 True), (5, MDouble), (7, MVec (MObj None [(1, MInt 64 False)]))]"

definition order_v2 :: field_list where
  "order_v2 = [(2, MString), (7, MVec (MObj None [(3, MBool), (1, MInt 64 False)])), (1, MInt 32 True)]"

definition order_value :: "mval list" where
  "order_value = [VStr [65, 66], VVec [VObj [VBool True, VInt 300], VObj [VBool False, VInt 0]], VInt (- 5)]"

definition sample_default :: "mtype \<Rightarrow> mval" where
  "sample_default t = VObj [VInt 9]"

theorem tagged_evolution_witness:
  "\<exists>buf new. encode_tagged order_v2 order_value 100 = Inr buf \<and> length buf = tagged_object_size order_v2 order_value \<and>
    decode_tagged sample_default order_v1 buf [VInt 1, VF64 2, VVec []] = Inr new \<and> has_types order_v1 new \<and>
    new ! 0 = VInt (- 5) \<and> new ! 1 = VF64 2 \<and> new ! 2 = VVec [VObj [VInt 300], VObj [VInt 0]]"
proof -
  have h: "has_types order_v2 order_value" "distinct (map fst order_v2)" "tagged_object_size order_v2 order_value \<le> 100"
    "has_types order_v1 [VInt 1, VF64 2, VVec []]" "distinct (map fst order_v1)" "defaults_oks sample_default order_v1"
    "compat_fields order_v1 order_v2" by code_simp+
  obtain buf new where r: "encode_tagged order_v2 order_value 100 = Inr buf" "length buf = tagged_object_size order_v2 order_value"
    "decode_tagged sample_default order_v1 buf [VInt 1, VF64 2, VVec []] = Inr new" "has_types order_v1 new"
    "\<And>i. i < length order_v1 \<Longrightarrow> new ! i =
       (case written_field order_v2 order_value (fst (order_v1 ! i)) of
          None \<Rightarrow> [VInt 1, VF64 2, VVec []] ! i
        | Some (t, v) \<Rightarrow> absorb sample_default (snd (order_v1 ! i)) ([VInt 1, VF64 2, VVec []] ! i) t v)"
    using tagged_evolution [OF h(1-3) _ h(4-7)] by auto
  have v0: "(case written_field order_v2 order_value (fst (order_v1 ! 0)) of
          None \<Rightarrow> [VInt 1, VF64 2, VVec []] ! 0
        | Some (t, v) \<Rightarrow> absorb sample_default (snd (order_v1 ! 0)) ([VInt 1, VF64 2, VVec []] ! 0) t v) =
      VInt (- 5)" by code_simp
  have v1: "(case written_field order_v2 order_value (fst (order_v1 ! 1)) of
          None \<Rightarrow> [VInt 1, VF64 2, VVec []] ! 1
        | Some (t, v) \<Rightarrow> absorb sample_default (snd (order_v1 ! 1)) ([VInt 1, VF64 2, VVec []] ! 1) t v) =
      VF64 2" by code_simp
  have v2: "(case written_field order_v2 order_value (fst (order_v1 ! 2)) of
          None \<Rightarrow> [VInt 1, VF64 2, VVec []] ! 2
        | Some (t, v) \<Rightarrow> absorb sample_default (snd (order_v1 ! 2)) ([VInt 1, VF64 2, VVec []] ! 2) t v) =
      VVec [VObj [VInt 300], VObj [VInt 0]]" by (simp add: order_v1_def order_v2_def order_value_def sample_default_def)
  have len: "length order_v1 = 3" by code_simp
  have "new ! 0 = VInt (- 5)" using r(5) [of 0] v0 len by simp
  moreover have "new ! 1 = VF64 2" using r(5) [of 1] v1 len by simp
  moreover have "new ! 2 = VVec [VObj [VInt 300], VObj [VInt 0]]" using r(5) [of 2] v2 len by simp
  ultimately show ?thesis using r(1-4) by blast
qed

text \<open>
  Property C18.  Round trip: decoding an encoded object with the same field list gives the object back,
  whatever the receiving object held before.
\<close>

theorem tagged_round_trip:
  assumes "has_types fs vs" and "distinct (map fst fs)" and "fields_distinct fs"
    and "has_types fs out" and "defaults_oks mk fs" and "tagged_object_size fs vs \<le> cap" and "cap < 2 ^ 64"
  shows "\<exists>buf. encode_tagged fs vs cap = Inr buf \<and> decode_tagged mk fs buf out = Inr vs"
proof -
  let ?buf = "object_bytes fs vs"
  have len: "length ?buf = tagged_object_size fs vs" using length_value_bytes(3) assms(1) .
  have enc: "encode_tagged fs vs cap = Inr ?buf" using object_written [OF assms(1)] assms(6) len by simp
  have "compat (MObj None fs) (MObj None fs)" using assms(2,3) by (intro compat_refl) simp
  then have "tagged_object_loop mk (length ?buf) fs ?buf out = Some (absorb_fields mk fs out fs vs)"
    using assms len by (intro tagged_read_absorbs(3)) auto
  moreover have "absorb mk (MObj None fs) (VObj out) (MObj None fs) (VObj vs) = VObj vs"
    using assms by (intro absorb_same) simp_all
  ultimately have "decode_tagged mk fs ?buf out = Inr vs" by (simp add: decode_tagged_def tagged_read_object_def)
  with enc show ?thesis by blast
qed

theorem tagged_round_trip_witness:
  "\<exists>buf. encode_tagged order_v2 order_value 64 = Inr buf \<and>
    decode_tagged (\<lambda>t. VObj [VBool False, VInt 0]) order_v2 buf [VStr [], VVec [], VInt 0] = Inr order_value"
proof (rule tagged_round_trip)
  show "has_types order_v2 order_value" by code_simp
  show "distinct (map fst order_v2)" by code_simp
  show "fields_distinct order_v2" by code_simp
  show "has_types order_v2 [VStr [], VVec [], VInt 0]" by code_simp
  show "defaults_oks (\<lambda>t. VObj [VBool False, VInt 0]) order_v2" by code_simp
  show "tagged_object_size order_v2 order_value \<le> 64" by code_simp
  show "(64 :: nat) < 2 ^ 64" by simp
qed

text \<open>
  Decoding always ends with its own answer: the loops of the reader take at most as many turns
  as the buffer has bytes, so a larger bound on them changes nothing, on any input.
\<close>

theorem tagged_decode_terminates:
  assumes "length buf \<le> n"
  shows "decode_tagged mk fs buf out =
    (case tagged_object_loop mk n fs buf out of
       None \<Rightarrow> fail Serialization ''malformed tagged stream''
     | Some vs \<Rightarrow> Inr vs)"
proof -
  have "tagged_object_loop mk (length buf) fs buf out = tagged_object_loop mk n fs buf out"
    by (rule tagged_read_fuel(3)) (use assms in simp_all)
  then show ?thesis by (simp add: decode_tagged_def tagged_read_object_def split: option.split)
qed

theorem tagged_decode_terminates_witness:
  "decode_tagged sample_default order_v1 [8, 9, 250, 1] [VInt 1, VF64 2, VVec []] =
    (case tagged_object_loop sample_default 1000 order_v1 [8, 9, 250, 1] [VInt 1, VF64 2, VVec []] of
       None \<Rightarrow> fail Serialization ''malformed tagged stream''
     | Some vs \<Rightarrow> Inr vs)"
  by (rule tagged_decode_terminates) simp

end
