(* ===== verification/Tagless_Wire.thy ===== *)
theory Tagless_Wire
  imports Tagged_Wire
begin

text \<open>
  The schema fingerprint of \<open>include/quark/core/describe.hpp\<close> and the rest of
  \<open>include/quark/core/wire.hpp\<close>: the tagless codec, unchecked and checked, and the connect-time
  negotiation that decides between it and the tagged one.  Memory is a list of bytes in the little-endian
  layout of the supported platforms; \<open>None\<close> from the unchecked reader is a read past the end of the
  buffer, which the C++ code does not notice, \<open>None\<close> from the checked one is its \<open>false\<close>.  A byte other
  than 0 and 1 in a \<open>bool\<close> has no value in C++ and reads as true here.  The platform's ABI tag and the
  fingerprint of the type at hand are arguments of \<open>negotiate\<close>.
\<close>

section \<open>Fingerprints\<close>

definition fnv_offset :: u64 where
  "fnv_offset = 1469598103934665603"

definition fnv_prime :: u64 where
  "fnv_prime = 1099511628211"

definition fold_byte :: "u64 \<Rightarrow> u8 \<Rightarrow> u64" where
  "fold_byte h b = (h XOR ucast b) * fnv_prime"

definition fold_bytes :: "u64 \<Rightarrow> u64 \<Rightarrow> u64" where
  "fold_bytes h v = foldl fold_byte h (put_le 8 v)"

definition size_of :: "mtype \<Rightarrow> nat" where
  "size_of t = (case t of MBool \<Rightarrow> 1 | MEnum w s \<Rightarrow> w div 8 | MInt w s \<Rightarrow> w div 8 | MDouble \<Rightarrow> 8 | MFloat \<Rightarrow> 4 | _ \<Rightarrow> 0)"

text \<open>\<open>salt\<close> is the value of \<open>quark_type_salt\<close> where the type declares it.\<close>

definition fold_salt :: "u64 option \<Rightarrow> u64 \<Rightarrow> u64" where
  "fold_salt salt h = (case salt of None \<Rightarrow> h | Some v \<Rightarrow> fold_bytes (fold_byte h 0xA5) v)"

fun fold_type :: "mtype \<Rightarrow> u64 \<Rightarrow> u64" and fold_fields :: "field_list \<Rightarrow> u64 \<Rightarrow> u64" where
  "fold_type MBool h = fold_byte h 1"
| "fold_type MString h = fold_byte h 2"
| "fold_type (MVec t) h = fold_type t (fold_byte h 3)"
| "fold_type (MEnum w s) h =
     fold_byte (fold_bytes (fold_byte (fold_byte h 4) 6) (of_nat (w div 8))) (if s then 1 else 0)"
| "fold_type (MObj salt fs) h = fold_bytes (fold_byte h 5) (fold_salt salt (fold_fields fs fnv_offset))"
| "fold_type (MInt w s) h = fold_byte (fold_bytes (fold_byte h 6) (of_nat (w div 8))) (if s then 1 else 0)"
| "fold_type MDouble h = fold_byte (fold_bytes (fold_byte h 6) 8) 1"
| "fold_type MFloat h = fold_byte (fold_bytes (fold_byte h 6) 4) 1"
| "fold_fields [] h = h"
| "fold_fields ((tag, t) # fs) h =
     fold_fields fs (fold_type t (fold_byte (foldl fold_byte h (put_le 4 tag)) (wire_code (wire_type_of t))))"

definition compute_fingerprint :: "u64 option \<Rightarrow> field_list \<Rightarrow> u64" where
  "compute_fingerprint salt fs = fold_salt salt (fold_fields fs fnv_offset)"

section \<open>Tagless writing\<close>

definition trivially_copyable :: "mtype \<Rightarrow> bool" where
  "trivially_copyable t = (case t of MString \<Rightarrow> False | MVec u \<Rightarrow> False | MObj s fs \<Rightarrow> False | _ \<Rightarrow> True)"

text \<open>\<open>std::memcpy\<close> of a scalar, out of it and into it.\<close>

definition native_bytes :: "mtype \<Rightarrow> mval \<Rightarrow> bytes" where
  "native_bytes t v =
     (case v of
        VBool b \<Rightarrow> [if b then 1 else 0]
      | VInt i \<Rightarrow> put_le (size_of t) (of_int i :: u64)
      | VF64 x \<Rightarrow> put_le 8 x
      | VF32 x \<Rightarrow> put_le 4 x
      | _ \<Rightarrow> [])"

definition native_value :: "mtype \<Rightarrow> bytes \<Rightarrow> mval" where
  "native_value t bs =
     (case t of
        MBool \<Rightarrow> VBool (bs \<noteq> [0])
      | MEnum w s \<Rightarrow> VInt (read_int w s (uint (get_le bs :: u64)))
      | MInt w s \<Rightarrow> VInt (read_int w s (uint (get_le bs :: u64)))
      | MDouble \<Rightarrow> VF64 (get_le bs)
      | MFloat \<Rightarrow> VF32 (get_le bs)
      | _ \<Rightarrow> VStr bs)"

text \<open>
  What \<open>tagless_write_value\<close> puts at \<open>p\<close>; the bulk copy of a vector of scalars is its elements' bytes one
  after the other.
\<close>

fun tagless_write_value :: "mtype \<Rightarrow> mval \<Rightarrow> bytes" and tagless_write_elems :: "mtype \<Rightarrow> mval list \<Rightarrow> bytes"
  and tagless_write_object :: "field_list \<Rightarrow> mval list \<Rightarrow> bytes" where
  "tagless_write_value t (VStr bs) = put_le 4 (of_nat (length bs) :: u32) @ bs"
| "tagless_write_value t (VVec vs) =
     put_le 4 (of_nat (length vs) :: u32) @ (case t of MVec u \<Rightarrow> tagless_write_elems u vs | _ \<Rightarrow> [])"
| "tagless_write_value t (VObj vs) = (case t of MObj s fs \<Rightarrow> tagless_write_object fs vs | _ \<Rightarrow> [])"
| "tagless_write_value t (VBool b) = native_bytes t (VBool b)"
| "tagless_write_value t (VInt i) = native_bytes t (VInt i)"
| "tagless_write_value t (VF64 x) = native_bytes t (VF64 x)"
| "tagless_write_value t (VF32 x) = native_bytes t (VF32 x)"
| "tagless_write_elems t [] = []"
| "tagless_write_elems t (v # vs) = tagless_write_value t v @ tagless_write_elems t vs"
| "tagless_write_object fs [] = []"
| "tagless_write_object fs (v # vs) =
     (case fs of [] \<Rightarrow> [] | f # fs' \<Rightarrow> tagless_write_value (snd f) v @ tagless_write_object fs' vs)"

definition encode_tagless :: "field_list \<Rightarrow> mval list \<Rightarrow> bytes" where
  "encode_tagless fs vs = tagless_write_object fs vs"

fun tagless_value_size :: "mtype \<Rightarrow> mval \<Rightarrow> nat" and tagless_elems_size :: "mtype \<Rightarrow> mval list \<Rightarrow> nat"
  and tagless_object_size :: "field_list \<Rightarrow> mval list \<Rightarrow> nat" where
  "tagless_value_size t (VStr bs) = 4 + length bs"
| "tagless_value_size t (VVec vs) =
     (case t of MVec u \<Rightarrow> if trivially_copyable u then 4 + length vs * size_of u else 4 + tagless_elems_size u vs | _ \<Rightarrow> 0)"
| "tagless_value_size t (VObj vs) = (case t of MObj s fs \<Rightarrow> tagless_object_size fs vs | _ \<Rightarrow> 0)"
| "tagless_value_size t (VBool b) = size_of t"
| "tagless_value_size t (VInt i) = size_of t"
| "tagless_value_size t (VF64 x) = size_of t"
| "tagless_value_size t (VF32 x) = size_of t"
| "tagless_elems_size t [] = 0"
| "tagless_elems_size t (v # vs) = tagless_value_size t v + tagless_elems_size t vs"
| "tagless_object_size fs [] = 0"
| "tagless_object_size fs (v # vs) =
     (case fs of [] \<Rightarrow> 0 | f # fs' \<Rightarrow> tagless_value_size (snd f) v + tagless_object_size fs' vs)"

section \<open>Tagless reading, unchecked\<close>

text \<open>\<open>m.resize(n)\<close> followed by one \<open>memcpy\<close> of \<open>n * sizeof(E)\<close> bytes.\<close>

definition bulk_values :: "mtype \<Rightarrow> nat \<Rightarrow> bytes \<Rightarrow> mval list" where
  "bulk_values t n bs = map (\<lambda>i. native_value t (take (size_of t) (drop (i * size_of t) bs))) [0..<n]"

function (sequential) tagless_read_value :: "mtype \<Rightarrow> bytes \<Rightarrow> (mval \<times> bytes) option"
  and tagless_read_elems :: "nat \<Rightarrow> mtype \<Rightarrow> bytes \<Rightarrow> (mval list \<times> bytes) option"
  and tagless_read_object :: "field_list \<Rightarrow> bytes \<Rightarrow> (mval list \<times> bytes) option" where
  "tagless_read_value MString p =
     (case get_bytes 4 p of
        None \<Rightarrow> None
      | Some (nb, p') \<Rightarrow>
          (case get_bytes (unat (get_le nb :: u32)) p' of None \<Rightarrow> None | Some (bs, p'') \<Rightarrow> Some (VStr bs, p'')))"
| "tagless_read_value (MVec t) p =
     (case get_bytes 4 p of
        None \<Rightarrow> None
      | Some (nb, p') \<Rightarrow>
          (let n = unat (get_le nb :: u32)
           in if trivially_copyable t
              then (case get_bytes (n * size_of t) p' of
                      None \<Rightarrow> None
                    | Some (bs, p'') \<Rightarrow> Some (VVec (bulk_values t n bs), p''))
              else (case tagless_read_elems n t p' of None \<Rightarrow> None | Some (vs, p'') \<Rightarrow> Some (VVec vs, p''))))"
| "tagless_read_value (MObj s fs) p =
     (case tagless_read_object fs p of None \<Rightarrow> None | Some (vs, p') \<Rightarrow> Some (VObj vs, p'))"
| "tagless_read_value t p =
     (case get_bytes (size_of t) p of None \<Rightarrow> None | Some (bs, p') \<Rightarrow> Some (native_value t bs, p'))"
| "tagless_read_elems 0 t p = Some ([], p)"
| "tagless_read_elems (Suc n) t p =
     (case tagless_read_value t p of
        None \<Rightarrow> None
      | Some (v, p') \<Rightarrow>
          (case tagless_read_elems n t p' of None \<Rightarrow> None | Some (vs, p'') \<Rightarrow> Some (v # vs, p'')))"
| "tagless_read_object [] p = Some ([], p)"
| "tagless_read_object ((tag, t) # fs) p =
     (case tagless_read_value t p of
        None \<Rightarrow> None
      | Some (v, p') \<Rightarrow>
          (case tagless_read_object fs p' of None \<Rightarrow> None | Some (vs, p'') \<Rightarrow> Some (v # vs, p'')))"
  by pat_completeness auto

termination
  by (relation "measures
       [\<lambda>x. case x of Inl (t, p) \<Rightarrow> size t | Inr (Inl (n, t, p)) \<Rightarrow> size t
          | Inr (Inr (fs, p)) \<Rightarrow> size_list (size_prod (\<lambda>_. 0) size) fs,
        \<lambda>x. case x of Inl y \<Rightarrow> 0 | Inr (Inl (n, t, p)) \<Rightarrow> Suc n | Inr (Inr y) \<Rightarrow> 0]") auto

definition decode_tagless :: "field_list \<Rightarrow> bytes \<Rightarrow> (mval list \<times> nat) option" where
  "decode_tagless fs buf = map_option (\<lambda>(vs, p). (vs, length buf - length p)) (tagless_read_object fs buf)"

section \<open>Tagless reading, checked\<close>

definition kMaxTaglessElements :: nat where
  "kMaxTaglessElements = 2 ^ 20"

text \<open>\<open>bytes / sizeof(E) != n\<close> is tested on the 64-bit product.\<close>

function (sequential) tagless_read_value_checked :: "mtype \<Rightarrow> bytes \<Rightarrow> (mval \<times> bytes) option"
  and tagless_read_elems_checked :: "nat \<Rightarrow> mtype \<Rightarrow> bytes \<Rightarrow> (mval list \<times> bytes) option"
  and tagless_read_object_checked :: "field_list \<Rightarrow> bytes \<Rightarrow> (mval list \<times> bytes) option" where
  "tagless_read_value_checked MString p =
     (if length p < 4 then None
      else let n = unat (get_le (take 4 p) :: u32); p' = drop 4 p
           in if length p' < n then None else Some (VStr (take n p'), drop n p'))"
| "tagless_read_value_checked (MVec t) p =
     (if length p < 4 then None
      else let n = unat (get_le (take 4 p) :: u32); p' = drop 4 p
           in if trivially_copyable t
              then (let k = unat (of_nat n * of_nat (size_of t) :: u64)
                    in if size_of t \<noteq> 0 \<and> k div size_of t \<noteq> n then None
                       else if length p' < k then None
                       else Some (VVec (bulk_values t n (take k p')), drop k p'))
              else if kMaxTaglessElements < n \<or> length p' < n then None
              else (case tagless_read_elems_checked n t p' of None \<Rightarrow> None | Some (vs, p'') \<Rightarrow> Some (VVec vs, p'')))"
| "tagless_read_value_checked (MObj s fs) p =
     (case tagless_read_object_checked fs p of None \<Rightarrow> None | Some (vs, p') \<Rightarrow> Some (VObj vs, p'))"
| "tagless_read_value_checked t p =
     (if length p < size_of t then None else Some (native_value t (take (size_of t) p), drop (size_of t) p))"
| "tagless_read_elems_checked 0 t p = Some ([], p)"
| "tagless_read_elems_checked (Suc n) t p =
     (case tagless_read_value_checked t p of
        None \<Rightarrow> None
      | Some (v, p') \<Rightarrow>
          (case tagless_read_elems_checked n t p' of None \<Rightarrow> None | Some (vs, p'') \<Rightarrow> Some (v # vs, p'')))"
| "tagless_read_object_checked [] p = Some ([], p)"
| "tagless_read_object_checked ((tag, t) # fs) p =
     (case tagless_read_value_checked t p of
        None \<Rightarrow> None
      | Some (v, p') \<Rightarrow>
          (case tagless_read_object_checked fs p' of None \<Rightarrow> None | Some (vs, p'') \<Rightarrow> Some (v # vs, p'')))"
  by pat_completeness auto

termination
  by (relation "measures
       [\<lambda>x. case x of Inl (t, p) \<Rightarrow> size t | Inr (Inl (n, t, p)) \<Rightarrow> size t
          | Inr (Inr (fs, p)) \<Rightarrow> size_list (size_prod (\<lambda>_. 0) size) fs,
        \<lambda>x. case x of Inl y \<Rightarrow> 0 | Inr (Inl (n, t, p)) \<Rightarrow> Suc n | Inr (Inr y) \<Rightarrow> 0]") auto

definition decode_tagless_checked :: "field_list \<Rightarrow> bytes \<Rightarrow> mval list option" where
  "decode_tagless_checked fs buf = map_option fst (tagless_read_object_checked fs buf)"

section \<open>Negotiation\<close>

datatype wire_mode = Tagless | Tagged

record peer_schema =
  ps_fingerprint :: u64
  ps_abi_tag :: u32

definition negotiate :: "peer_schema \<Rightarrow> u64 \<Rightarrow> u32 \<Rightarrow> wire_mode" where
  "negotiate peer fingerprint platform_abi_tag =
     (if ps_fingerprint peer = fingerprint \<and> ps_abi_tag peer = platform_abi_tag then Tagless else Tagged)"

definition local_schema :: "u64 \<Rightarrow> u32 \<Rightarrow> peer_schema" where
  "local_schema fingerprint platform_abi_tag = \<lparr> ps_fingerprint = fingerprint, ps_abi_tag = platform_abi_tag \<rparr>"

record schema_advertisement =
  sa_abi_tag :: u32
  sa_types :: "u64 list"

definition sa_contains :: "schema_advertisement \<Rightarrow> u64 \<Rightarrow> bool" where
  "sa_contains adv key = list_ex (\<lambda>t. t = key) (sa_types adv)"

definition encode_schema_advert :: "schema_advertisement \<Rightarrow> bytes" where
  "encode_schema_advert adv =
     put_le 8 (ucast (sa_abi_tag adv) :: u64) @ put_le 8 (of_nat (length (sa_types adv)) :: u64) @
     concat (map (put_le 8) (sa_types adv))"

fun advert_types :: "nat \<Rightarrow> bytes \<Rightarrow> u64 list" where
  "advert_types 0 p = []"
| "advert_types (Suc n) p = get_le (take 8 p) # advert_types n (drop 8 p)"

definition decode_schema_advert :: "bytes \<Rightarrow> schema_advertisement option" where
  "decode_schema_advert buf =
     (if length buf < 16 then None
      else let abi = get_le (take 8 buf) :: u64; count = unat (get_le (take 8 (drop 8 buf)) :: u64)
           in if 4096 < count \<or> (length buf - 16) div 8 < count then None
              else Some \<lparr> sa_abi_tag = ucast abi, sa_types = advert_types count (drop 16 buf) \<rparr>)"

section \<open>The checked reader is the unchecked one, inside the buffer\<close>

lemma checked_product:
  fixes n s :: nat
  assumes "s \<noteq> 0 \<Longrightarrow> unat (of_nat n * of_nat s :: u64) div s = n"
  shows "unat (of_nat n * of_nat s :: u64) = n * s"
proof (cases "s = 0")
  case False
  have "(of_nat n * of_nat s :: u64) = of_nat (n * s)" by simp
  then have k: "unat (of_nat n * of_nat s :: u64) = n * s mod 2 ^ 64" by (simp only: unat_of_nat) simp
  then have "unat (of_nat n * of_nat s :: u64) \<le> n * s" by simp
  moreover have "n * s \<le> unat (of_nat n * of_nat s :: u64)"
    using assms [OF False] div_times_less_eq_dividend [of "unat (of_nat n * of_nat s :: u64)" s] by simp
  ultimately show ?thesis by simp
qed simp

lemma checked_imp_unchecked:
  shows "tagless_read_value_checked t p = Some x \<Longrightarrow> tagless_read_value t p = Some x"
    and "tagless_read_elems_checked n t p = Some y \<Longrightarrow> tagless_read_elems n t p = Some y"
    and "tagless_read_object_checked fs p = Some y \<Longrightarrow> tagless_read_object fs p = Some y"
proof (induction t p and n t p and fs p arbitrary: x and y and y
    rule: tagless_read_value_checked_tagless_read_elems_checked_tagless_read_object_checked.induct)
  case (2 t p)
  let ?n = "unat (get_le (take 4 p) :: u32)"
  have l: "\<not> length p < 4" using 2(2) by (auto split: if_splits)
  show ?case
  proof (cases "trivially_copyable t")
    case True
    let ?k = "unat (of_nat ?n * of_nat (size_of t) :: u64)"
    have "\<not> (size_of t \<noteq> 0 \<and> ?k div size_of t \<noteq> ?n)" "\<not> length (drop 4 p) < ?k"
      "x = (VVec (bulk_values t ?n (take ?k (drop 4 p))), drop ?k (drop 4 p))"
      using 2(2) l True by (auto simp: Let_def simp del: length_drop split: if_splits)
    moreover from this(1) have "?k = ?n * size_of t" by (intro checked_product) simp
    ultimately show ?thesis using l True by (simp add: get_bytes_def Let_def)
  next
    case False
    then show ?thesis
      using 2 l by (auto simp: get_bytes_def Let_def split: if_splits option.splits)
  qed
next
  case (6 n t p)
  obtain v p' where v: "tagless_read_value_checked t p = Some (v, p')" using 6(3) by (auto split: option.splits)
  then obtain vs p'' where vs: "tagless_read_elems_checked n t p' = Some (vs, p'')" using 6(3) by (auto split: option.splits)
  show ?case using 6(1) [OF v] 6(2) [OF v refl vs] 6(3) v vs by simp
next
  case (8 tag t fs p)
  obtain v p' where v: "tagless_read_value_checked t p = Some (v, p')" using 8(3) by (auto split: option.splits)
  then obtain vs p'' where vs: "tagless_read_object_checked fs p' = Some (vs, p'')" using 8(3) by (auto split: option.splits)
  show ?case using 8(1) [OF v] 8(2) [OF v refl vs] 8(3) v vs by simp
qed (auto simp: get_bytes_def Let_def split: if_splits option.splits)

section \<open>What the writer writes is read back\<close>

lemma trivially_copyable_simps [simp]:
  "trivially_copyable MBool" "trivially_copyable (MEnum w s)" "trivially_copyable (MInt w s)"
  "trivially_copyable MDouble" "trivially_copyable MFloat"
  "\<not> trivially_copyable MString" "\<not> trivially_copyable (MVec t)" "\<not> trivially_copyable (MObj salt fs)"
  by (simp_all add: trivially_copyable_def)

lemma size_of_simps [simp]:
  "size_of MBool = 1" "size_of (MEnum w s) = w div 8" "size_of (MInt w s) = w div 8"
  "size_of MDouble = 8" "size_of MFloat = 4"
  by (simp_all add: size_of_def)

text \<open>
  The values the tagless codec carries: integers of whole bytes, lengths that fit the 32-bit prefix and, for
  vectors of strings, vectors or described types, the bounds of the checked reader.
\<close>

fun tagless_ok :: "mtype \<Rightarrow> mval \<Rightarrow> bool" and tagless_oks :: "mtype \<Rightarrow> mval list \<Rightarrow> bool" and tagless_fields_ok :: "field_list \<Rightarrow> mval list \<Rightarrow> bool" where
  "tagless_ok t (VStr bs) = (t = MString \<and> length bs < 2 ^ 32)"
| "tagless_ok t (VVec vs) =
     (case t of
        MVec u \<Rightarrow> tagless_oks u vs \<and> length vs < 2 ^ 32 \<and>
          (trivially_copyable u \<or> length vs \<le> kMaxTaglessElements \<and> length vs \<le> length (tagless_write_elems u vs))
      | _ \<Rightarrow> False)"
| "tagless_ok t (VObj vs) = (case t of MObj s fs \<Rightarrow> tagless_fields_ok fs vs | _ \<Rightarrow> False)"
| "tagless_ok t (VBool b) = (t = MBool)"
| "tagless_ok t (VInt i) =
     (case t of MEnum w s \<Rightarrow> int_fits w s i \<and> w mod 8 = 0 | MInt w s \<Rightarrow> int_fits w s i \<and> w mod 8 = 0 | _ \<Rightarrow> False)"
| "tagless_ok t (VF64 x) = (t = MDouble)"
| "tagless_ok t (VF32 x) = (t = MFloat)"
| "tagless_oks t [] = True"
| "tagless_oks t (v # vs) = (tagless_ok t v \<and> tagless_oks t vs)"
| "tagless_fields_ok fs [] = (fs = [])"
| "tagless_fields_ok fs (v # vs) = (case fs of [] \<Rightarrow> False | f # fs' \<Rightarrow> tagless_ok (snd f) v \<and> tagless_fields_ok fs' vs)"

lemma get_le_put_le_mod:
  fixes v :: u64
  assumes "n \<le> 8"
  shows "uint (get_le (put_le n v) :: u64) = take_bit (8 * n) (uint v)"
proof -
  have "(get_le (put_le n v) :: u64) = take_bit (8 * n) v"
  proof (rule bit_word_eqI)
    fix k
    assume k: "k < LENGTH(64)"
    have e: "8 * (k div 8) + k mod 8 = k" by simp
    show "bit (get_le (put_le n v) :: u64) k = bit (take_bit (8 * n) v) k"
    proof (cases "k div 8 < n")
      case True
      then have "k < 8 * n" by auto
      with True k e show ?thesis by (simp add: bit_get_le bit_nth_put_le bit_take_bit_iff div_less_iff_less_mult)
    next
      case False
      then have "\<not> k < 8 * n" by auto
      with False k show ?thesis by (simp add: bit_get_le bit_take_bit_iff)
    qed
  qed
  then show ?thesis by (simp add: unsigned_take_bit_eq)
qed

lemma native_int_value:
  assumes "int_fits w s i" and "w mod 8 = 0"
  shows "read_int w s (uint (get_le (put_le (w div 8) (of_int i :: u64)) :: u64)) = i"
proof -
  have w: "0 < w" "w \<le> 64" "8 * (w div 8) = w" using assms by (auto simp: int_fits_def)
  have "uint (of_int i :: u64) = take_bit 64 i" by (simp add: unsigned_of_int)
  with w have "uint (get_le (put_le (w div 8) (of_int i :: u64)) :: u64) = take_bit w i"
    by (subst get_le_put_le_mod) (auto simp: take_bit_take_bit min_def)
  moreover have "read_int w s (take_bit w i) = i"
  proof (cases s)
    case True
    have "signed_take_bit (w - 1) (take_bit w i) = signed_take_bit (w - 1) i"
      using w by (intro signed_take_bit_eq_iff_take_bit_eq [THEN iffD2]) (simp add: take_bit_take_bit)
    then show ?thesis using True assms by (auto simp: read_int_def int_fits_def signed_take_bit_int_eq_self)
  next
    case False
    then show ?thesis using assms by (simp add: read_int_def int_fits_def take_bit_int_eq_self)
  qed
  ultimately show ?thesis by simp
qed

lemma native_round_trip:
  assumes "tagless_ok t v" and "trivially_copyable t"
  shows "native_value t (native_bytes t v) = v" and "length (native_bytes t v) = size_of t"
    and "tagless_write_value t v = native_bytes t v"
  using assms by (cases t; cases v; simp add: native_value_def native_bytes_def native_int_value)+

lemma size_of_le: "tagless_ok t v \<Longrightarrow> trivially_copyable t \<Longrightarrow> size_of t \<le> 8"
proof (cases v)
  case (VInt i)
  assume "tagless_ok t v"
  with VInt obtain w s where "t = MEnum w s \<or> t = MInt w s" "int_fits w s i" by (auto split: mtype.splits)
  moreover from this(2) have "w div 8 \<le> 64 div 8" by (intro div_le_mono) (simp add: int_fits_def)
  ultimately show ?thesis by auto
qed (auto split: mtype.splits)

lemma bulk_round_trip:
  assumes "tagless_oks t vs" and "trivially_copyable t"
  shows "length (tagless_write_elems t vs) = length vs * size_of t"
    and "bulk_values t (length vs) (tagless_write_elems t vs) = vs"
proof -
  show l: "length (tagless_write_elems t vs) = length vs * size_of t"
    using assms by (induction vs) (simp_all add: native_round_trip)
  show "bulk_values t (length vs) (tagless_write_elems t vs) = vs"
    using assms
  proof (induction vs)
    case (Cons v vs)
    note n = native_round_trip [of t v]
    have "bulk_values t (Suc (length vs)) (native_bytes t v @ tagless_write_elems t vs) =
        native_value t (native_bytes t v) # bulk_values t (length vs) (tagless_write_elems t vs)"
      unfolding bulk_values_def upt_conv_Cons [OF zero_less_Suc] map_Suc_upt [symmetric]
      using n Cons.prems by (simp add: comp_def)
    then show ?case using Cons n by simp
  qed (simp add: bulk_values_def)
qed

lemma tagless_round_trip_aux:
  shows "tagless_ok t v \<Longrightarrow> tagless_read_value_checked t (tagless_write_value t v @ r) = Some (v, r)"
    and "tagless_oks t vs \<Longrightarrow> tagless_read_elems_checked (length vs) t (tagless_write_elems t vs @ r) = Some (vs, r)"
    and "tagless_fields_ok fs vs \<Longrightarrow> tagless_read_object_checked fs (tagless_write_object fs vs @ r) = Some (vs, r)"
proof (induction t v and t vs and fs vs arbitrary: r and r and r rule: tagless_ok_tagless_oks_tagless_fields_ok.induct)
  case (1 t bs)
  then show ?case by (simp add: unat_of_nat Let_def)
next
  case (2 t vs)
  then obtain u where t: "t = MVec u" "tagless_oks u vs" "length vs < 2 ^ 32" by (cases t) auto
  have n: "unat (of_nat (length vs) :: u32) = length vs" using t(3) by (simp add: unat_of_nat)
  show ?case
  proof (cases "trivially_copyable u")
    case True
    have s: "size_of u < 2 ^ 4" if "vs \<noteq> []"
      using t(2) True that size_of_le [of u "hd vs"] by (cases vs) auto
    have "length vs * size_of u < 2 ^ 64"
    proof (cases "vs = []")
      case False
      have "length vs * size_of u < 2 ^ 32 * 2 ^ 4" using t(3) s [OF False] by (intro mult_strict_mono) auto
      then show ?thesis by simp
    qed simp
    then have k: "unat (of_nat (length vs) * of_nat (size_of u) :: u64) = length vs * size_of u"
      by (simp add: unat_of_nat flip: of_nat_mult)
    show ?thesis using t True n k bulk_round_trip [OF t(2) True] by (simp add: Let_def)
  next
    case False
    with 2(2) t have "length vs \<le> kMaxTaglessElements" "length vs \<le> length (tagless_write_elems u vs)" by simp_all
    with 2(1) [OF t(1)] t False n show ?thesis by (simp add: Let_def)
  qed
next
  case (3 t vs)
  then show ?case by (cases t) auto
next
  case (5 t i)
  then have "trivially_copyable t" by (cases t) auto
  with 5 native_round_trip [of t "VInt i"] show ?case by (cases t) auto
next
  case (6 t x)
  with native_round_trip [of t "VF64 x"] show ?case by auto
next
  case (7 t x)
  with native_round_trip [of t "VF32 x"] show ?case by auto
next
  case (4 t b)
  with native_round_trip [of t "VBool b"] show ?case by auto
next
  case (9 t v vs)
  then show ?case by simp
next
  case (11 fs v vs)
  then show ?case by (cases fs) auto
qed auto

lemma tagless_size_exact:
  shows "tagless_ok t v \<Longrightarrow> length (tagless_write_value t v) = tagless_value_size t v"
    and "tagless_oks t vs \<Longrightarrow> length (tagless_write_elems t vs) = tagless_elems_size t vs"
    and "tagless_fields_ok fs vs \<Longrightarrow> length (tagless_write_object fs vs) = tagless_object_size fs vs"
proof (induction t v and t vs and fs vs rule: tagless_ok_tagless_oks_tagless_fields_ok.induct)
  case (2 t vs)
  then show ?case by (cases t) (auto simp: bulk_round_trip)
qed (auto simp: native_bytes_def split: mtype.splits list.splits)

section \<open>What a fingerprint separates\<close>

lemma fnv_step_cancel: "x * fnv_prime = y * fnv_prime \<longleftrightarrow> x = y"
proof
  assume "x * fnv_prime = y * fnv_prime"
  then have "x * fnv_prime * 14886173955864302971 = y * fnv_prime * 14886173955864302971" by simp
  moreover have "fnv_prime * 14886173955864302971 = (1 :: u64)" by (simp add: fnv_prime_def)
  ultimately show "x = y" by (simp add: mult.assoc)
qed simp

lemma word_xor_cancel:
  fixes a b c :: "'a::len word"
  shows "a XOR c = b XOR c \<longleftrightarrow> a = b" and "c XOR a = c XOR b \<longleftrightarrow> a = b"
  by (metis word_bw_assocs(3) word_log_esimps(6) xor.right_neutral word_bw_same(3))
     (metis word_bw_assocs(3) word_bw_same(3) xor.left_neutral)

lemma ucast_u8_inj: "(ucast (a :: u8) :: u64) = ucast b \<longleftrightarrow> a = b"
proof
  assume e: "(ucast a :: u64) = ucast b"
  show "a = b"
  proof (rule bit_word_eqI)
    fix k
    assume "k < LENGTH(8)"
    then show "bit a k = bit b k" using arg_cong [OF e, of "\<lambda>w. bit w k"] by (simp add: bit_ucast_iff)
  qed
qed simp

lemma fold_byte_inj: "fold_byte h b = fold_byte k b \<longleftrightarrow> h = k" and fold_byte_byte: "fold_byte h a = fold_byte h b \<longleftrightarrow> a = b"
  unfolding fold_byte_def fnv_step_cancel by (simp_all add: word_xor_cancel ucast_u8_inj)

lemma fold_list_inj: "foldl fold_byte h bs = foldl fold_byte k bs \<longleftrightarrow> h = k"
  by (induction bs arbitrary: h k) (simp_all add: fold_byte_inj)

lemma fold_bytes_inj: "fold_bytes h v = fold_bytes k v \<longleftrightarrow> h = k"
  by (simp add: fold_bytes_def fold_list_inj)

lemma fold_type_inj: "fold_type t h = fold_type t k \<longleftrightarrow> h = k"
  by (induction t arbitrary: h k rule: measure_induct_rule [of size])
     (case_tac x; simp add: fold_byte_inj fold_bytes_inj)

lemma fold_fields_inj: "fold_fields fs h = fold_fields fs k \<longleftrightarrow> h = k"
  by (induction fs arbitrary: h k) (auto simp: fold_type_inj fold_byte_inj fold_list_inj)

lemma fold_salt_inj: "fold_salt salt h = fold_salt salt k \<longleftrightarrow> h = k"
  by (simp add: fold_salt_def fold_byte_inj fold_bytes_inj split: option.split)

lemma fold_fields_append: "fold_fields (fs @ gs) h = fold_fields gs (fold_fields fs h)"
  by (induction fs arbitrary: h) auto

lemma put_le_8_small:
  fixes n :: nat
  assumes "n < 256"
  shows "put_le 8 (of_nat n :: u64) = of_nat n # replicate 7 0"
proof -
  have d: "drop_bit (8 * i) (of_nat n :: u64) = 0" if "0 < i" for i
  proof -
    have "(2::nat) ^ 8 \<le> 2 ^ (8 * i)" using that by (intro power_increasing) simp_all
    with assms have "n div 2 ^ (8 * i) = 0" by simp
    then show ?thesis using assms by (simp add: unat_eq_0 [symmetric] unat_drop_bit_div unat_of_nat)
  qed
  have "ucast (of_nat n :: u64) = (of_nat n :: u8)" by (rule word_unat_eq_iff [THEN iffD2]) (simp add: unat_of_nat unsigned_ucast_eq take_bit_eq_mod mod_mod_cancel)
  then have "put_le 8 (of_nat n :: u64) = of_nat n # map (\<lambda>i. ucast (drop_bit (8 * i) (of_nat n :: u64))) [1..<8]"
    unfolding put_le_def by (subst upt_conv_Cons) simp_all
  also have "map (\<lambda>i. ucast (drop_bit (8 * i) (of_nat n :: u64))) [1..<8] = replicate 7 (0 :: u8)"
    using d [of "Suc i" for i] by (intro nth_equalityI) auto
  finally show ?thesis .
qed

lemma fold_bytes_small: "m < 256 \<Longrightarrow> n < 256 \<Longrightarrow> fold_bytes h (of_nat m) = fold_bytes h (of_nat n) \<longleftrightarrow> m = n"
proof -
  assume l: "m < 256" "n < 256"
  then have "(of_nat m :: u8) = of_nat n \<longleftrightarrow> m = n" by (simp add: word_unat_eq_iff unat_of_nat)
  then show ?thesis using l
    by (simp add: fold_bytes_def put_le_8_small fold_list_inj fold_byte_byte del: replicate.simps)
qed

section \<open>Properties\<close>

text \<open>
  Property C19.  The checked decoder accepts everything the tagless encoder produces from values within its
  bounds and gives the value back, and whatever it accepts, on any input, the unchecked decoder reads
  identically inside the buffer.
\<close>

theorem tagless_checked_correct:
  assumes "tagless_fields_ok fs vs"
  shows "decode_tagless_checked fs (encode_tagless fs vs) = Some vs \<and>
    length (encode_tagless fs vs) = tagless_object_size fs vs \<and>
    (\<forall>buf us. decode_tagless_checked fs buf = Some us \<longrightarrow> (\<exists>n. decode_tagless fs buf = Some (us, n) \<and> n \<le> length buf))"
proof (intro conjI allI impI)
  show "decode_tagless_checked fs (encode_tagless fs vs) = Some vs"
    using tagless_round_trip_aux(3) [OF assms, of "[]"] by (simp add: decode_tagless_checked_def encode_tagless_def)
  show "length (encode_tagless fs vs) = tagless_object_size fs vs"
    using tagless_size_exact(3) [OF assms] by (simp add: encode_tagless_def)
  fix buf us
  assume "decode_tagless_checked fs buf = Some us"
  then obtain p where "tagless_read_object_checked fs buf = Some (us, p)"
    by (auto simp: decode_tagless_checked_def)
  then show "\<exists>n. decode_tagless fs buf = Some (us, n) \<and> n \<le> length buf"
    using checked_imp_unchecked(3) by (force simp: decode_tagless_def)
qed

definition order_fields :: field_list where
  "order_fields = [(1, MInt 32 True), (2, MString), (3, MVec (MInt 16 False)), (7, MVec (MObj None [(1, MInt 64 False), (3, MBool)]))]"

definition order_vals :: "mval list" where
  "order_vals = [VInt (- 5), VStr [65, 66], VVec [VInt 1, VInt 65535], VVec [VObj [VInt 300, VBool True]]]"

theorem tagless_checked_correct_witness:
  "decode_tagless_checked order_fields (encode_tagless order_fields order_vals) = Some order_vals \<and>
    length (encode_tagless order_fields order_vals) = tagless_object_size order_fields order_vals \<and>
    (\<exists>n. decode_tagless order_fields (encode_tagless order_fields order_vals) = Some (order_vals, n))"
proof -
  have "tagless_fields_ok order_fields order_vals"
    by (simp add: order_fields_def order_vals_def int_fits_def kMaxTaglessElements_def native_bytes_def)
  from tagless_checked_correct [OF this] show ?thesis by blast
qed

text \<open>
  The fingerprint separates the width of a reused integer field from every other width, and its
  signedness, wherever the field stands in the list.
\<close>

theorem fingerprint_separates_integers:
  assumes "w div 8 \<le> 8" and "w' div 8 \<le> 8" and "(w div 8 = w' div 8) \<noteq> (s = s')"
  shows "compute_fingerprint salt (pre @ (tag, MInt w s) # post) \<noteq> compute_fingerprint salt (pre @ (tag, MInt w' s') # post)"
proof -
  have "fold_type (MInt w s) h \<noteq> fold_type (MInt w' s') h" for h
  proof (cases "w div 8 = w' div 8")
    case True
    then have "(if s then 1 else 0 :: u8) \<noteq> (if s' then 1 else 0)" using assms(3) by (cases s; cases s') simp_all
    then show ?thesis unfolding fold_type.simps True fold_byte_byte .
  next
    case False
    then have "fold_bytes (fold_byte h 6) (of_nat (w div 8)) \<noteq> fold_bytes (fold_byte h 6) (of_nat (w' div 8))"
      using assms(1,2) by (subst fold_bytes_small) simp_all
    moreover have "s = s'" using False assms(3) by simp
    ultimately show ?thesis unfolding fold_type.simps by (simp only: fold_byte_inj) simp
  qed
  then show ?thesis
    unfolding compute_fingerprint_def fold_salt_inj fold_fields_append fold_fields.simps fold_fields_inj wire_type_of.simps
    by blast
qed

theorem fingerprint_separates_integers_witness:
  "compute_fingerprint None ([(1, MString)] @ (2, MInt 32 True) # []) \<noteq>
   compute_fingerprint None ([(1, MString)] @ (2, MInt 64 True) # [])"
  by (rule fingerprint_separates_integers) simp_all

text \<open>
  Property C22.  It does not separate a vector of doubles from a vector of 64-bit signed integers: the element
  is folded by size and signedness alone, and both are signed in C++.  Two peers that disagree on such a field
  negotiate the tagless codec, and the checked decoder reads the bits of a double as an integer.
\<close>

theorem fingerprint_collision_reinterprets:
  "compute_fingerprint salt (pre @ (tag, MVec MDouble) # post) = compute_fingerprint salt (pre @ (tag, MVec (MInt 64 True)) # post) \<and>
   negotiate (local_schema (compute_fingerprint salt (pre @ (tag, MVec MDouble) # post)) abi)
     (compute_fingerprint salt (pre @ (tag, MVec (MInt 64 True)) # post)) abi = Tagless \<and>
   decode_tagless_checked [(tag, MVec (MInt 64 True))] (encode_tagless [(tag, MVec MDouble)] [VVec [VF64 0x3FF0000000000000]]) =
     Some [VVec [VInt 0x3FF0000000000000]]"
proof -
  have f: "compute_fingerprint salt (pre @ (tag, MVec MDouble) # post) = compute_fingerprint salt (pre @ (tag, MVec (MInt 64 True)) # post)"
    by (simp add: compute_fingerprint_def fold_fields_append)
  have "decode_tagless_checked [(0, MVec (MInt 64 True))] (encode_tagless [(0, MVec MDouble)] [VVec [VF64 0x3FF0000000000000]]) =
     Some [VVec [VInt 0x3FF0000000000000]]" by code_simp
  moreover have "decode_tagless_checked [(tag, MVec (MInt 64 True))] (encode_tagless [(tag, MVec MDouble)] vs) =
    decode_tagless_checked [(0, MVec (MInt 64 True))] (encode_tagless [(0, MVec MDouble)] vs)" for vs
    by (cases vs) (simp_all add: decode_tagless_checked_def encode_tagless_def)
  ultimately show ?thesis using f by (simp add: negotiate_def local_schema_def)
qed

text \<open>
  The tagless path is taken only when both the fingerprint and the ABI tag of the peer are the
  local ones.
\<close>

lemma negotiate_gate: "negotiate peer fp abi = Tagless \<longleftrightarrow> peer = local_schema fp abi"
  by (cases peer) (simp add: negotiate_def local_schema_def)

lemma advert_types_concat: "advert_types (length ts) (concat (map (put_le 8) ts) @ r) = ts"
  by (induction ts) simp_all

text \<open>
  A schema advertisement is read back exactly when it lists at most 4096 types; a longer one is
  refused, and so is a buffer too short for its header or for the count it declares.
\<close>

theorem schema_advert_round_trip:
  assumes "length (sa_types adv) < 2 ^ 64"
  shows "decode_schema_advert (encode_schema_advert adv) = (if length (sa_types adv) \<le> 4096 then Some adv else None) \<and>
    (\<forall>buf a. decode_schema_advert buf = Some a \<longrightarrow> length (sa_types a) \<le> 4096 \<and> 16 + 8 * length (sa_types a) \<le> length buf)"
proof (intro conjI allI impI)
  let ?n = "length (sa_types adv)"
  have n: "unat (of_nat ?n :: u64) = ?n" using assms by (simp add: unat_of_nat)
  have "length (concat (map (put_le 8) ts)) = 8 * length (ts :: u64 list)" for ts by (induction ts) simp_all
  then have len: "length (encode_schema_advert adv) = 16 + 8 * ?n" by (simp add: encode_schema_advert_def)
  have t: "take 8 (encode_schema_advert adv) = put_le 8 (ucast (sa_abi_tag adv) :: u64)"
    "take 8 (drop 8 (encode_schema_advert adv)) = put_le 8 (of_nat ?n :: u64)"
    "drop 16 (encode_schema_advert adv) = concat (map (put_le 8) (sa_types adv))"
    by (simp_all add: encode_schema_advert_def)
  have abi: "ucast (ucast (sa_abi_tag adv) :: u64) = sa_abi_tag adv" by (rule bit_word_eqI) (simp add: bit_ucast_iff)
  have types: "advert_types ?n (concat (map (put_le 8) (sa_types adv))) = sa_types adv"
    using advert_types_concat [of "sa_types adv" "[]"] by simp
  show "decode_schema_advert (encode_schema_advert adv) = (if ?n \<le> 4096 then Some adv else None)"
    unfolding decode_schema_advert_def t len get_le_put_le_64 Let_def abi n types by simp
next
  fix buf a
  assume d: "decode_schema_advert buf = Some a"
  have l: "length (advert_types k p) = k" for k p by (induction k arbitrary: p) simp_all
  show "length (sa_types a) \<le> 4096" using d by (auto simp: decode_schema_advert_def Let_def l split: if_splits)
  have "length (sa_types a) \<le> (length buf - 16) div 8" "16 \<le> length buf"
    using d by (auto simp: decode_schema_advert_def Let_def l split: if_splits)
  then show "16 + 8 * length (sa_types a) \<le> length buf" by linarith
qed

theorem schema_advert_round_trip_witness:
  "decode_schema_advert (encode_schema_advert \<lparr> sa_abi_tag = 0x7886644C, sa_types = [1, 2 ^ 63] \<rparr>) =
    (if length (sa_types \<lparr> sa_abi_tag = 0x7886644C, sa_types = [1, 2 ^ 63] \<rparr>) \<le> 4096
     then Some \<lparr> sa_abi_tag = 0x7886644C, sa_types = [1, 2 ^ 63] \<rparr> else None)"
proof -
  have "length (sa_types \<lparr> sa_abi_tag = 0x7886644C, sa_types = [1, 2 ^ 63] \<rparr>) < 2 ^ 64" by simp
  from conjunct1 [OF schema_advert_round_trip [OF this]] show ?thesis .
qed

end
