(* ===== verification/Event_Log.thy ===== *)
theory Event_Log
  imports Store
begin

text \<open>
  \<open>include/quark/core/snapshot.hpp\<close> and \<open>event_log.hpp\<close>: writing and recovering snapshots, the per-actor
  staging buffer with its commit gate, compaction and event-sourced recovery.  The templates' parameters
  are arguments: the store's operations, and the codec of the actor's event and state types with the
  actor's own fold of an event into its state.
\<close>

section \<open>Snapshots\<close>

record ('ev, 'st) actor_codec =
  enc_event :: "'ev \<Rightarrow> bytes result"
  dec_event :: "bytes \<Rightarrow> 'ev result"
  enc_state :: "'st \<Rightarrow> bytes result"
  dec_state :: "bytes \<Rightarrow> 'st result"
  apply_event :: "'st \<Rightarrow> 'ev \<Rightarrow> 'st"

record 'st recovered_snapshot =
  rsn_state :: 'st
  rsn_through :: u64
  rsn_fence :: fence_token

record 'st recovered_state =
  rec_state :: 'st
  rec_last_seq :: u64
  rec_fence :: fence_token

definition save_state ::
  "'s store_ops \<Rightarrow> ('ev, 'st) actor_codec \<Rightarrow> actor_id \<Rightarrow> fence_token \<Rightarrow> u64 \<Rightarrow> 'st \<Rightarrow> 's \<Rightarrow> unit result \<times> 's" where
  "save_state st cd k tok q x s =
     (case enc_state cd x of
        Inl er \<Rightarrow> (Inl er, s)
      | Inr bs \<Rightarrow> so_save st k tok \<lparr> snap_fence = tok, through_seq = q, snap_bytes = bs \<rparr> s)"

text \<open>\<open>quiescent\<close> is whether the activation reached its drain point synchronously.\<close>

definition snapshot_sequential ::
  "bool \<Rightarrow> 's store_ops \<Rightarrow> ('ev, 'st) actor_codec \<Rightarrow> actor_id \<Rightarrow> fence_token \<Rightarrow> u64 \<Rightarrow> 'st \<Rightarrow> 's \<Rightarrow> unit result \<times> 's" where
  "snapshot_sequential quiescent st cd k tok q x s =
     (if \<not> quiescent then (fail Unavailable ''snapshot_sequential: actor not at a synchronous quiescent point'', s)
      else save_state st cd k tok q x s)"

definition load_state ::
  "'s store_ops \<Rightarrow> ('ev, 'st) actor_codec \<Rightarrow> actor_id \<Rightarrow> 's \<Rightarrow> 'st recovered_snapshot option result" where
  "load_state st cd k s =
     (case so_load st k s of
        Inl er \<Rightarrow> Inl er
      | Inr None \<Rightarrow> Inr None
      | Inr (Some sn) \<Rightarrow>
          case dec_state cd (snap_bytes sn) of
            Inl er \<Rightarrow> Inl er
          | Inr x \<Rightarrow> Inr (Some \<lparr> rsn_state = x, rsn_through = through_seq sn, rsn_fence = snap_fence sn \<rparr>))"

definition recover_snapshot ::
  "'s store_ops \<Rightarrow> ('ev, 'st) actor_codec \<Rightarrow> actor_id \<Rightarrow> 'st \<Rightarrow> 's \<Rightarrow> 'st recovered_state result" where
  "recover_snapshot st cd k initial s =
     (case load_state st cd k s of
        Inl er \<Rightarrow> Inl er
      | Inr (Some rs) \<Rightarrow> Inr \<lparr> rec_state = rsn_state rs, rec_last_seq = rsn_through rs, rec_fence = rsn_fence rs \<rparr>
      | Inr None \<Rightarrow> Inr \<lparr> rec_state = initial, rec_last_seq = 0, rec_fence = FenceToken 0 \<rparr>)"

section \<open>The event log\<close>

record 'ev event_log =
  el_id :: actor_id
  el_fence :: fence_token
  el_next_seq :: u64
  el_snap_seq :: u64
  el_staged :: "'ev list"

definition el_create :: "actor_id \<Rightarrow> fence_token \<Rightarrow> u64 \<Rightarrow> 'ev event_log" where
  "el_create k tok q = \<lparr> el_id = k, el_fence = tok, el_next_seq = q, el_snap_seq = 0, el_staged = [] \<rparr>"

definition el_stage :: "'ev \<Rightarrow> 'ev event_log \<Rightarrow> 'ev event_log" where
  "el_stage ev l = l\<lparr> el_staged := el_staged l @ [ev] \<rparr>"

definition el_rollback :: "'ev event_log \<Rightarrow> 'ev event_log" where
  "el_rollback l = l\<lparr> el_staged := [] \<rparr>"

fun encode_batch :: "('ev \<Rightarrow> bytes result) \<Rightarrow> u64 \<Rightarrow> 'ev list \<Rightarrow> (event_record list \<times> u64) result" where
  "encode_batch enc q [] = Inr ([], q)"
| "encode_batch enc q (ev # evs) =
     (case enc ev of
        Inl er \<Rightarrow> Inl er
      | Inr bs \<Rightarrow>
          case encode_batch enc (q + 1) evs of
            Inl er \<Rightarrow> Inl er
          | Inr (rs, q') \<Rightarrow> Inr (\<lparr> ev_seq = q, ev_bytes = bs \<rparr> # rs, q'))"

definition el_commit ::
  "'s store_ops \<Rightarrow> ('ev, 'st) actor_codec \<Rightarrow> 'ev event_log \<Rightarrow> 's \<Rightarrow> u64 result \<times> 'ev event_log \<times> 's" where
  "el_commit st cd l s =
     (if el_staged l = [] then (Inr (if el_next_seq l = 0 then 0 else el_next_seq l - 1), l, s)
      else
        case encode_batch (enc_event cd) (el_next_seq l) (el_staged l) of
          Inl er \<Rightarrow> (Inl er, l, s)
        | Inr (batch, q) \<Rightarrow>
            case so_append_batch st (el_id l) (el_fence l) batch s of
              (Inl er, s') \<Rightarrow> (Inl er, l, s')
            | (Inr _, s') \<Rightarrow> (Inr (q - 1), l\<lparr> el_next_seq := q, el_staged := [] \<rparr>, s'))"

definition compact_if_due ::
  "'s store_ops \<Rightarrow> ('ev, 'st) actor_codec \<Rightarrow> u64 \<Rightarrow> 'st \<Rightarrow> 'ev event_log \<Rightarrow> 's \<Rightarrow> bool result \<times> 'ev event_log \<times> 's" where
  "compact_if_due st cd every x l s =
     (let last = (if el_next_seq l = 0 then 0 else el_next_seq l - 1) in
      if last - el_snap_seq l < every then (Inr False, l, s)
      else
        case save_state st cd (el_id l) (el_fence l) last x s of
          (Inl er, s1) \<Rightarrow> (Inl er, l, s1)
        | (Inr _, s1) \<Rightarrow>
            let l1 = l\<lparr> el_snap_seq := last \<rparr> in
            case so_truncate st (el_id l) (el_fence l) last s1 of
              (Inl er, s2) \<Rightarrow> (Inl er, l1, s2)
            | (Inr _, s2) \<Rightarrow> (Inr True, l1, s2))"

section \<open>Recovery\<close>

fun replay_loop :: "('ev, 'st) actor_codec \<Rightarrow> u64 \<Rightarrow> 'st \<Rightarrow> event_record list \<Rightarrow> (u64 \<times> 'st) result" where
  "replay_loop cd q x [] = Inr (q, x)"
| "replay_loop cd q x (r # rs) =
     (case dec_event cd (ev_bytes r) of
        Inl er \<Rightarrow> Inl er
      | Inr ev \<Rightarrow> replay_loop cd (ev_seq r) (apply_event cd x ev) rs)"

definition replay_tail ::
  "'s store_ops \<Rightarrow> ('ev, 'st) actor_codec \<Rightarrow> actor_id \<Rightarrow> u64 \<Rightarrow> 'st \<Rightarrow> 's \<Rightarrow> (u64 \<times> 'st) result" where
  "replay_tail st cd k q x s =
     (case so_read_log st k (q + 1) s of
        Inl er \<Rightarrow> Inl er
      | Inr rs \<Rightarrow> replay_loop cd q x rs)"

definition recover_event_sourced ::
  "'s store_ops \<Rightarrow> ('ev, 'st) actor_codec \<Rightarrow> actor_id \<Rightarrow> 'st \<Rightarrow> 's \<Rightarrow> 'st recovered_state result" where
  "recover_event_sourced st cd k initial s =
     (case load_state st cd k s of
        Inl er \<Rightarrow> Inl er
      | Inr snap \<Rightarrow>
          let (x, tok, q) = (case snap of
                Some rs \<Rightarrow> (rsn_state rs, rsn_fence rs, rsn_through rs)
              | None \<Rightarrow> (initial, FenceToken 0, 0))
          in case replay_tail st cd k q x s of
               Inl er \<Rightarrow> Inl er
             | Inr (q', x') \<Rightarrow> Inr \<lparr> rec_state = x', rec_last_seq = q', rec_fence = tok \<rparr>)"

section \<open>The life of an event-sourced actor\<close>

text \<open>
  The actor stages events, commits or rolls back, compacts, and crashes: a restart recovers, takes a new
  fence and continues after the last committed sequence.  The incarnations it replaces stay around as
  zombies that may still commit or compact under their old fence.  \<open>es_done\<close> records the events of the
  commits that reported success; no operation reads it, save that compaction is handed the actor's state.
\<close>

record ('s, 'ev) es_state =
  es_log :: "'ev event_log"
  es_store :: 's
  es_done :: "'ev list"
  es_zombies :: "'ev event_log list"

datatype 'ev es_op =
    StageEv 'ev | CommitEvs | RollbackEvs | CompactLog u64 | CrashRestart
  | ZombieCommit nat "'ev list" | ZombieCompact nat u64

definition es_folded :: "('ev, 'st) actor_codec \<Rightarrow> 'st \<Rightarrow> 'ev list \<Rightarrow> 'st" where
  "es_folded cd initial evs = foldl (apply_event cd) initial evs"

fun es_step :: "'s store_ops \<Rightarrow> ('ev, 'st) actor_codec \<Rightarrow> 'st \<Rightarrow> 'ev es_op \<Rightarrow> ('s, 'ev) es_state \<Rightarrow> ('s, 'ev) es_state" where
  "es_step st cd i (StageEv ev) x = x\<lparr> es_log := el_stage ev (es_log x) \<rparr>"
| "es_step st cd i RollbackEvs x = x\<lparr> es_log := el_rollback (es_log x) \<rparr>"
| "es_step st cd i CommitEvs x =
     (case el_commit st cd (es_log x) (es_store x) of
        (r, l, s) \<Rightarrow>
          x\<lparr> es_log := l, es_store := s,
             es_done := (case r of Inl _ \<Rightarrow> es_done x | Inr _ \<Rightarrow> es_done x @ el_staged (es_log x)) \<rparr>)"
| "es_step st cd i (CompactLog n) x =
     (case compact_if_due st cd n (es_folded cd i (es_done x)) (es_log x) (es_store x) of
        (_, l, s) \<Rightarrow> x\<lparr> es_log := l, es_store := s \<rparr>)"
| "es_step st cd i CrashRestart x =
     (case so_acquire st (el_id (es_log x)) (es_store x) of
        (Inl _, s) \<Rightarrow> x\<lparr> es_store := s \<rparr>
      | (Inr t, s) \<Rightarrow>
          x\<lparr> es_log := el_create (el_id (es_log x)) t (so_last_seq st (el_id (es_log x)) s + 1),
             es_store := s, es_zombies := es_log x # es_zombies x \<rparr>)"
| "es_step st cd i (ZombieCommit n evs) x =
     (if n < length (es_zombies x)
      then x\<lparr> es_store := snd (snd (el_commit st cd ((es_zombies x ! n)\<lparr> el_staged := evs \<rparr>) (es_store x))) \<rparr>
      else x)"
| "es_step st cd i (ZombieCompact n q) x =
     (if n < length (es_zombies x)
      then x\<lparr> es_store := snd (snd (compact_if_due st cd q (es_folded cd i []) (es_zombies x ! n) (es_store x))) \<rparr>
      else x)"

definition es_run :: "'s store_ops \<Rightarrow> ('ev, 'st) actor_codec \<Rightarrow> 'st \<Rightarrow> 'ev es_op list \<Rightarrow> ('s, 'ev) es_state \<Rightarrow> ('s, 'ev) es_state" where
  "es_run st cd i ops x = foldl (\<lambda>x op. es_step st cd i op x) x ops"

text \<open>The number of events a history stages, and of its restarts.\<close>

definition stage_count :: "'ev es_op list \<Rightarrow> nat" where
  "stage_count ops = length (filter (\<lambda>op. case op of StageEv _ \<Rightarrow> True | _ \<Rightarrow> False) ops)"

definition restart_count :: "'ev es_op list \<Rightarrow> nat" where
  "restart_count ops = length (filter (\<lambda>op. case op of CrashRestart \<Rightarrow> True | _ \<Rightarrow> False) ops)"

section \<open>What the store holds\<close>

text \<open>A record is the encoding of the \<open>i\<close>-th committed event.\<close>

definition rec_of :: "('ev, 'st) actor_codec \<Rightarrow> event_record \<Rightarrow> nat \<times> 'ev \<Rightarrow> bool" where
  "rec_of cd r p \<longleftrightarrow> ev_seq r = of_nat (fst p) \<and> fst p < 2 ^ 64 \<and> dec_event cd (ev_bytes r) = Inr (snd p)"

definition holds :: "('ev, 'st) actor_codec \<Rightarrow> 'st \<Rightarrow> 'ev list \<Rightarrow> store_entry \<Rightarrow> bool" where
  "holds cd i evs e \<longleftrightarrow>
     length evs < 2 ^ 64 - 1 \<and> se_last_seq e = of_nat (length evs) \<and>
     (\<exists>m d. m \<le> length evs \<and> d \<le> m \<and>
        (case se_snapshot e of
           None \<Rightarrow> m = 0
         | Some sn \<Rightarrow> through_seq sn = of_nat m \<and> dec_state cd (snap_bytes sn) = Inr (es_folded cd i (take m evs))) \<and>
        list_all2 (rec_of cd) (se_log e) (enumerate (Suc d) (drop d evs)))"

definition codec_ok :: "('ev, 'st) actor_codec \<Rightarrow> bool" where
  "codec_ok cd \<longleftrightarrow> (\<forall>ev bs. enc_event cd ev = Inr bs \<longrightarrow> dec_event cd bs = Inr ev) \<and>
     (\<forall>x bs. enc_state cd x = Inr bs \<longrightarrow> dec_state cd bs = Inr x)"

lemma filter_enumerate:
  assumes "d \<le> m"
  shows "filter (\<lambda>p. m < fst p) (enumerate (Suc d) xs) = enumerate (Suc m) (drop (m - d) xs)"
  using assms
proof (induction xs arbitrary: d)
  case (Cons x xs)
  show ?case
  proof (cases "d = m")
    case True
    have "\<forall>p\<in>set (enumerate (Suc m) (x # xs)). m < fst p" by (auto simp: in_set_enumerate_eq)
    then show ?thesis using True by (simp only: filter_True) simp
  next
    case False
    then have "m - d = Suc (m - Suc d)" using Cons.prems by simp
    with Cons.IH [of "Suc d"] False Cons.prems show ?thesis by simp
  qed
qed simp

lemma list_all2_filterI:
  assumes "list_all2 R xs ys" and "\<And>x y. R x y \<Longrightarrow> P x = Q y"
  shows "list_all2 R (filter P xs) (filter Q ys)"
  using assms(1) by (induction rule: list_all2_induct) (auto simp: assms(2))

lemma of_nat_less_u64:
  assumes "a < 2 ^ 64" and "b < 2 ^ 64"
  shows "(of_nat a :: u64) < of_nat b \<longleftrightarrow> a < b" and "(of_nat a :: u64) \<le> of_nat b \<longleftrightarrow> a \<le> b"
  using assms by (simp_all add: word_less_nat_alt word_le_nat_alt unat_of_nat)

lemma holds_filter:
  assumes "list_all2 (rec_of cd) rs (enumerate (Suc d) evs)" and "d \<le> m" and "m < 2 ^ 64 - 1"
  shows "list_all2 (rec_of cd) (filter (\<lambda>r. of_nat m + 1 \<le> ev_seq r) rs) (enumerate (Suc m) (drop (m - d) evs))"
    and "list_all2 (rec_of cd) (filter (\<lambda>r. of_nat m < ev_seq r) rs) (enumerate (Suc m) (drop (m - d) evs))"
proof -
  have s: "(of_nat m + 1 :: u64) = of_nat (Suc m)" by simp
  have 1: "(of_nat m + 1 \<le> ev_seq r) = (m < fst p)" if "rec_of cd r p" for r p
    using that of_nat_less_u64(2) [of "Suc m" "fst p"] assms(3) unfolding s by (simp add: rec_of_def Suc_le_eq)
  have 2: "(of_nat m < ev_seq r) = (m < fst p)" if "rec_of cd r p" for r p
    using that of_nat_less_u64(1) [of m "fst p"] assms(3) by (simp add: rec_of_def)
  show "list_all2 (rec_of cd) (filter (\<lambda>r. of_nat m + 1 \<le> ev_seq r) rs) (enumerate (Suc m) (drop (m - d) evs))"
    unfolding filter_enumerate [OF assms(2), symmetric] by (rule list_all2_filterI [OF assms(1) 1])
  show "list_all2 (rec_of cd) (filter (\<lambda>r. of_nat m < ev_seq r) rs) (enumerate (Suc m) (drop (m - d) evs))"
    unfolding filter_enumerate [OF assms(2), symmetric] by (rule list_all2_filterI [OF assms(1) 2])
qed

lemma replay_loop_list:
  assumes "list_all2 (rec_of cd) rs (enumerate n evs)"
  shows "replay_loop cd q x rs =
    Inr (if evs = [] then q else of_nat (n + length evs - 1), foldl (apply_event cd) x evs)"
  using assms
proof (induction evs arbitrary: rs n q x)
  case (Cons ev evs)
  then obtain r rs' where r: "rs = r # rs'" "rec_of cd r (n, ev)" "list_all2 (rec_of cd) rs' (enumerate (Suc n) evs)"
    by (auto simp: list_all2_Cons2)
  from Cons.IH [OF r(3)] r(1,2) show ?case by (simp add: rec_of_def)
qed simp

text \<open>Recovery reads back exactly the committed events.\<close>

lemma encode_batch_ok:
  assumes "codec_ok cd" and "encode_batch (enc_event cd) (of_nat n) evs = Inr (rs, q)" and "n + length evs \<le> 2 ^ 64"
  shows "q = of_nat (n + length evs) \<and> list_all2 (rec_of cd) rs (enumerate n evs)"
  using assms(2,3)
proof (induction evs arbitrary: n rs)
  case (Cons ev evs)
  then obtain bs rs' where e: "enc_event cd ev = Inr bs" "encode_batch (enc_event cd) (of_nat n + 1) evs = Inr (rs', q)"
    "rs = \<lparr> ev_seq = of_nat n, ev_bytes = bs \<rparr> # rs'"
    by (auto split: sum.splits)
  then have "encode_batch (enc_event cd) (of_nat (Suc n)) evs = Inr (rs', q)" by (simp add: add.commute)
  from Cons.IH [OF this] Cons.prems(2) e assms(1) show ?case by (simp add: rec_of_def codec_ok_def)
qed simp

lemma advance_seq_batch:
  assumes "list_all2 (rec_of cd) rs (enumerate (Suc n) evs)" and "n + length evs < 2 ^ 64"
  shows "advance_seq (of_nat n) rs = Some (of_nat (n + length evs))"
  using assms
proof (induction evs arbitrary: rs n)
  case (Cons ev evs)
  then obtain r rs' where r: "rs = r # rs'" "rec_of cd r (Suc n, ev)" "list_all2 (rec_of cd) rs' (enumerate (Suc (Suc n)) evs)"
    by (auto simp: list_all2_Cons2)
  have "\<not> (of_nat (Suc n) :: u64) \<le> of_nat n"
    using of_nat_less_u64(2) [of "Suc n" n] Cons.prems(2) by simp
  with Cons.IH [OF r(3)] Cons.prems(2) r(1,2) show ?case by (simp add: rec_of_def)
qed simp

lemma holds_append:
  assumes "holds cd i evs e" and "list_all2 (rec_of cd) rs (enumerate (Suc (length evs)) evs')"
    and "length evs + length evs' < 2 ^ 64 - 1" and "spec_append tok rs e = Some e'"
  shows "holds cd i (evs @ evs') e'"
proof -
  obtain m d where md: "m \<le> length evs" "d \<le> m"
    and sn: "case se_snapshot e of None \<Rightarrow> m = 0
         | Some sn \<Rightarrow> through_seq sn = of_nat m \<and> dec_state cd (snap_bytes sn) = Inr (es_folded cd i (take m evs))"
    and lg: "list_all2 (rec_of cd) (se_log e) (enumerate (Suc d) (drop d evs))"
    and l: "se_last_seq e = of_nat (length evs)"
    using assms(1) unfolding holds_def by blast
  have "e' = e\<lparr> se_log := se_log e @ rs, se_last_seq := of_nat (length evs + length evs') \<rparr>"
    using assms(4) advance_seq_batch [OF assms(2)] assms(3) by (simp add: spec_append_def l split: if_splits)
  moreover have "list_all2 (rec_of cd) (se_log e @ rs) (enumerate (Suc d) (drop d (evs @ evs')))"
    using list_all2_appendI [OF lg assms(2)] md by (simp add: enumerate_append_eq)
  ultimately show ?thesis
    unfolding holds_def using assms(3) sn md by (intro conjI exI [of _ m] exI [of _ d]) (simp_all split: option.splits)
qed

lemma holds_save:
  assumes "holds cd i evs e" and "dec_state cd bs = Inr (es_folded cd i evs)"
    and "spec_save tok \<lparr> snap_fence = t, through_seq = of_nat (length evs), snap_bytes = bs \<rparr> e = Some e'"
  shows "holds cd i evs e'"
proof -
  obtain m d where md: "m \<le> length evs" "d \<le> m"
    and lg: "list_all2 (rec_of cd) (se_log e) (enumerate (Suc d) (drop d evs))"
    and l: "length evs < 2 ^ 64 - 1" "se_last_seq e = of_nat (length evs)"
    using assms(1) unfolding holds_def by blast
  have "e' = e\<lparr> se_snapshot := Some \<lparr> snap_fence = tok, through_seq = of_nat (length evs), snap_bytes = bs \<rparr> \<rparr>"
    using assms(3) by (auto simp: spec_save_def split: if_splits)
  then show ?thesis
    unfolding holds_def using md l lg assms(2) by (intro conjI exI [of _ "length evs"] exI [of _ d]) simp_all
qed

lemma holds_truncate:
  assumes "holds cd i evs e" and "spec_truncate tok (of_nat (length evs)) e = Some e'"
  shows "holds cd i evs e'"
proof -
  let ?n = "length evs"
  obtain m d where md: "m \<le> ?n" "d \<le> m"
    and sn: "case se_snapshot e of None \<Rightarrow> m = 0
         | Some sn \<Rightarrow> through_seq sn = of_nat m \<and> dec_state cd (snap_bytes sn) = Inr (es_folded cd i (take m evs))"
    and lg: "list_all2 (rec_of cd) (se_log e) (enumerate (Suc d) (drop d evs))"
    and l: "?n < 2 ^ 64 - 1" "se_last_seq e = of_nat ?n"
    using assms(1) unfolding holds_def by blast
  obtain sn' where s: "se_snapshot e = Some sn'" "of_nat ?n \<le> through_seq sn'"
    and e': "e' = e\<lparr> se_log := filter (\<lambda>r. of_nat ?n < ev_seq r) (se_log e) \<rparr>"
    using assms(2) by (auto simp: spec_truncate_def split: if_splits)
  have "m = ?n" using s sn md(1) of_nat_less_u64(2) [of ?n m] l(1) by simp
  moreover have "list_all2 (rec_of cd) (se_log e') (enumerate (Suc ?n) (drop ?n evs))"
    using holds_filter(2) [OF lg, of ?n] md l(1) by (simp add: e')
  ultimately show ?thesis
    unfolding holds_def using sn l s(1) by (intro conjI exI [of _ ?n]) (simp_all add: e')
qed

context store_seam begin

lemma recover_holds:
  assumes "ok s" and "holds cd i evs (view k s)"
  shows "\<exists>tok. recover_event_sourced st cd k i s =
    Inr \<lparr> rec_state = es_folded cd i evs, rec_last_seq = of_nat (length evs), rec_fence = tok \<rparr>"
proof -
  obtain m d where md: "m \<le> length evs" "d \<le> m"
    and sn: "case se_snapshot (view k s) of None \<Rightarrow> m = 0
         | Some sn \<Rightarrow> through_seq sn = of_nat m \<and> dec_state cd (snap_bytes sn) = Inr (es_folded cd i (take m evs))"
    and lg: "list_all2 (rec_of cd) (se_log (view k s)) (enumerate (Suc d) (drop d evs))"
    and n: "length evs < 2 ^ 64 - 1"
    using assms(2) unfolding holds_def by blast
  have "list_all2 (rec_of cd) (filter (\<lambda>r. of_nat m + 1 \<le> ev_seq r) (se_log (view k s))) (enumerate (Suc m) (drop m evs))"
    using holds_filter(1) [OF lg md(2)] md n by simp
  from replay_loop_list [OF this]
  have rt: "replay_tail st cd k (of_nat m) x s =
      Inr (if drop m evs = [] then of_nat m else of_nat (length evs), foldl (apply_event cd) x (drop m evs))" for x
    using md(1) by (simp add: replay_tail_def read_view [OF assms(1)] del: drop_eq_Nil)
  have last: "(if drop m evs = [] then of_nat m else of_nat (length evs) :: u64) = of_nat (length evs)"
    using md(1) by simp
  have fold: "foldl (apply_event cd) (es_folded cd i (take m evs)) (drop m evs) = es_folded cd i evs"
    unfolding es_folded_def by (metis append_take_drop_id foldl_append)
  show ?thesis
  proof (cases "se_snapshot (view k s)")
    case None
    then have "m = 0" using sn by simp
    then have "replay_tail st cd k 0 i s = Inr (of_nat (length evs), es_folded cd i evs)"
      using rt [of i] last fold by (simp add: es_folded_def)
    then show ?thesis using None by (simp add: recover_event_sourced_def load_state_def load_view [OF assms(1)])
  next
    case (Some sn')
    then show ?thesis
      using sn rt last fold by (simp add: recover_event_sourced_def load_state_def load_view [OF assms(1)])
  qed
qed


end

definition es_inv ::
  "('ev, 'st) actor_codec \<Rightarrow> 'st \<Rightarrow> (actor_id \<Rightarrow> 's \<Rightarrow> store_entry) \<Rightarrow> ('s \<Rightarrow> bool) \<Rightarrow> actor_id \<Rightarrow> nat \<Rightarrow> nat \<Rightarrow>
     ('s, 'ev) es_state \<Rightarrow> bool" where
  "es_inv cd i view ok k S R x \<longleftrightarrow>
     (let e = view k (es_store x); l = es_log x in
      ok (es_store x) \<and> holds cd i (es_done x) e \<and> el_id l = k \<and> el_next_seq l = of_nat (Suc (length (es_done x))) \<and>
      el_fence l = se_owner e \<and> (\<forall>z\<in>set (es_zombies x). el_id z = k \<and> fenced_out (el_fence z) e) \<and>
      length (es_done x) + length (el_staged l) + S < 2 ^ 64 - 1 \<and> unat (token_value (se_owner e)) + R < 2 ^ 64 \<and>
      token_value (se_owner e) \<noteq> 0)"

lemma es_inv_entry:
  assumes "es_inv cd i view ok k S R x" and "ok s'" and "holds cd i (es_done x) (view k s')"
    and "se_owner (view k s') = se_owner (view k (es_store x))"
  shows "es_inv cd i view ok k S R (x\<lparr> es_store := s' \<rparr>)"
  using assms by (simp add: es_inv_def Let_def fenced_out_def)

context store_seam begin

lemma fenced_writes_noop:
  assumes "ok s" and "fenced_out tok (view k s)"
  shows "ok (snd (so_append_batch st k tok rs s)) \<and> view k' (snd (so_append_batch st k tok rs s)) = view k' s"
    and "ok (snd (so_save st k tok sn s)) \<and> view k' (snd (so_save st k tok sn s)) = view k' s \<and>
         fst (so_save st k tok sn s) \<noteq> Inr ()"
proof -
  obtain r s' where a: "so_append_batch st k tok rs s = (r, s')" by (rule prod.exhaust)
  show "ok (snd (so_append_batch st k tok rs s)) \<and> view k' (snd (so_append_batch st k tok rs s)) = view k' s"
    using append_ok [OF assms(1) a] append_view [OF assms(1) a] assms(2)
    by (auto simp: a spec_append_def split: if_splits)
  obtain r s' where b: "so_save st k tok sn s = (r, s')" by (rule prod.exhaust)
  show "ok (snd (so_save st k tok sn s)) \<and> view k' (snd (so_save st k tok sn s)) = view k' s \<and>
      fst (so_save st k tok sn s) \<noteq> Inr ()"
    using save_ok [OF assms(1) b] save_view [OF assms(1) b] assms(2)
    by (auto simp: b spec_save_def split: if_splits)
qed

text \<open>A superseded incarnation does nothing.\<close>

lemma zombie_noop:
  assumes "ok s" and "fenced_out (el_fence z) (view (el_id z) s)"
  shows "ok (snd (snd (el_commit st cd z s))) \<and> view k' (snd (snd (el_commit st cd z s))) = view k' s"
    and "ok (snd (snd (compact_if_due st cd n x z s))) \<and> view k' (snd (snd (compact_if_due st cd n x z s))) = view k' s"
proof -
  show "ok (snd (snd (el_commit st cd z s))) \<and> view k' (snd (snd (el_commit st cd z s))) = view k' s"
    using assms(1) fenced_writes_noop(1) [OF assms] unfolding el_commit_def
    by (auto split: sum.splits prod.splits) (metis snd_conv)+
  have "fst (so_save st (el_id z) (el_fence z) sn s) = Inr u \<Longrightarrow> False" for sn and u :: unit
    using fenced_writes_noop(2) [OF assms] by (metis old.unit.exhaust)
  then show "ok (snd (snd (compact_if_due st cd n x z s))) \<and> view k' (snd (snd (compact_if_due st cd n x z s))) = view k' s"
    using assms(1) fenced_writes_noop(2) [OF assms] unfolding compact_if_due_def save_state_def Let_def
    by (auto split: sum.splits prod.splits) (metis fst_conv snd_conv)+
qed

end


definition stage_one :: "'ev es_op \<Rightarrow> nat" where
  "stage_one op = (case op of StageEv _ \<Rightarrow> 1 | _ \<Rightarrow> 0)"

definition restart_one :: "'ev es_op \<Rightarrow> nat" where
  "restart_one op = (case op of CrashRestart \<Rightarrow> 1 | _ \<Rightarrow> 0)"

lemma next_token_less:
  assumes "unat (token_value (se_owner e)) + 1 < 2 ^ 64"
  shows "se_owner e < next_token e" and "unat (token_value (next_token e)) = unat (token_value (se_owner e)) + 1"
  using unat_plus_1_no_wrap [of "token_value (se_owner e)"] assms
  by (simp_all add: next_token_def less_fence_token_def word_less_nat_alt)

context store_seam begin

lemma es_step_inv:
  assumes cok: "codec_ok cd" and inv: "es_inv cd i view ok k (S + stage_one op) (R + restart_one op) x"
  shows "es_inv cd i view ok k S R (es_step st cd i op x)"
proof -
  let ?s = "es_store x" and ?l = "es_log x" and ?d = "es_done x"
  let ?e = "view k ?s"
  have I: "ok ?s" "holds cd i ?d ?e" "el_id ?l = k" "el_next_seq ?l = of_nat (Suc (length ?d))" "el_fence ?l = se_owner ?e"
    "\<forall>z\<in>set (es_zombies x). el_id z = k \<and> fenced_out (el_fence z) ?e"
    "length ?d + length (el_staged ?l) + (S + stage_one op) < 2 ^ 64 - 1"
    "unat (token_value (se_owner ?e)) + (R + restart_one op) < 2 ^ 64" "token_value (se_owner ?e) \<noteq> 0"
    using inv unfolding es_inv_def Let_def by blast+
  have same: "es_inv cd i view ok k S R x" using I by (simp add: es_inv_def Let_def)
  have nz: "(of_nat (Suc (length ?d)) :: u64) \<noteq> 0"
    using of_nat_less_u64(1) [of 0 "Suc (length ?d)"] I(7) by auto
  show ?thesis
  proof (cases op)
    case (StageEv ev)
    with I show ?thesis by (simp add: es_inv_def Let_def el_stage_def stage_one_def restart_one_def)
  next
    case RollbackEvs
    with I show ?thesis by (simp add: es_inv_def Let_def el_rollback_def)
  next
    case CommitEvs
    show ?thesis
    proof (cases "el_staged ?l = []")
      case True
      with CommitEvs same show ?thesis by (simp add: el_commit_def)
    next
      case False
      show ?thesis
      proof (cases "encode_batch (enc_event cd) (el_next_seq ?l) (el_staged ?l)")
        case (Inl er)
        with CommitEvs False same show ?thesis by (simp add: el_commit_def)
      next
        case (Inr b)
        obtain rs q where b: "b = (rs, q)" by (rule prod.exhaust)
        have "encode_batch (enc_event cd) (of_nat (Suc (length ?d))) (el_staged ?l) = Inr (rs, q)"
          using Inr I(4) b by simp
        from encode_batch_ok [OF cok this] I(7)
        have q: "q = of_nat (Suc (length ?d + length (el_staged ?l)))"
          and rs: "list_all2 (rec_of cd) rs (enumerate (Suc (length ?d)) (el_staged ?l))" by simp_all
        obtain r s' where a: "so_append_batch st k (el_fence ?l) rs ?s = (r, s')" by (rule prod.exhaust)
        note av = append_view [OF I(1) a]
        show ?thesis
        proof (cases r)
          case (Inl er)
          then have "es_inv cd i view ok k S R (x\<lparr> es_store := s' \<rparr>)"
            using es_inv_entry [OF same append_ok [OF I(1) a]] av I(2) by simp
          with CommitEvs False \<open>_ = Inr b\<close> b a Inl I(3) show ?thesis by (simp add: el_commit_def)
        next
          case (Inr u)
          then have sp: "spec_append (el_fence ?l) rs ?e = Some (view k s')" using av by simp
          have bd: "length ?d + length (el_staged ?l) < 2 ^ 64 - 1" using I(7) by simp
          note h = holds_append [OF I(2) rs bd sp]
          have "es_step st cd i op x = x\<lparr> es_log := ?l\<lparr> el_next_seq := q, el_staged := [] \<rparr>, es_store := s',
              es_done := ?d @ el_staged ?l \<rparr>"
            using CommitEvs False \<open>encode_batch _ _ _ = Inr b\<close> b a Inr I(3) by (simp add: el_commit_def)
          with h append_ok [OF I(1) a] I(3,5-9) spec_owner(2) [OF sp] q show ?thesis
            by (simp add: es_inv_def Let_def fenced_out_def)
        qed
      qed
    qed
  next
    case (CompactLog n)
    let ?last = "of_nat (length ?d) :: u64"
    have last: "(if el_next_seq ?l = 0 then 0 else el_next_seq ?l - 1) = ?last" using nz I(4) by simp
    show ?thesis
    proof (cases "?last - el_snap_seq ?l < n")
      case True
      with CompactLog same last show ?thesis by (simp add: compact_if_due_def Let_def)
    next
      case False
      show ?thesis
      proof (cases "enc_state cd (es_folded cd i ?d)")
        case (Inl er)
        with CompactLog False same last show ?thesis by (simp add: compact_if_due_def save_state_def Let_def)
      next
        case (Inr bs)
        let ?sn = "\<lparr> snap_fence = el_fence ?l, through_seq = ?last, snap_bytes = bs \<rparr>"
        obtain r1 s1 where a: "so_save st k (el_fence ?l) ?sn ?s = (r1, s1)" by (rule prod.exhaust)
        have dec: "dec_state cd bs = Inr (es_folded cd i ?d)" using cok Inr by (simp add: codec_ok_def)
        have s1: "es_inv cd i view ok k S R (x\<lparr> es_store := s1 \<rparr>)"
          using save_view [OF I(1) a] holds_save [OF I(2) dec] spec_owner(1) I(2)
          by (intro es_inv_entry [OF same save_ok [OF I(1) a]]) (auto split: if_splits)
        have step: "es_step st cd i op x = (case r1 of Inl er \<Rightarrow> x\<lparr> es_store := s1 \<rparr>
          | Inr _ \<Rightarrow> x\<lparr> es_log := ?l\<lparr> el_snap_seq := ?last \<rparr>, es_store := snd (so_truncate st k (el_fence ?l) ?last s1) \<rparr>)"
          using CompactLog False last Inr a I(3) by (auto simp: compact_if_due_def save_state_def Let_def split: sum.splits prod.splits)
        show ?thesis
        proof (cases r1)
          case (Inl er)
          with s1 step show ?thesis by simp
        next
          case r1: (Inr u)
          obtain r2 s2 where b: "so_truncate st k (el_fence ?l) ?last s1 = (r2, s2)" by (rule prod.exhaust)
          have J: "ok s1" "holds cd i ?d (view k s1)" using s1 by (simp_all add: es_inv_def Let_def)
          have "es_inv cd i view ok k S R ((x\<lparr> es_store := s1 \<rparr>)\<lparr> es_store := s2 \<rparr>)"
            using truncate_view [OF J(1) b] holds_truncate [OF J(2)] spec_owner(3) J(2)
            by (intro es_inv_entry [OF s1 truncate_ok [OF J(1) b]]) (auto split: if_splits)
          moreover have "snd (so_truncate st k (el_fence ?l) ?last s1) = s2" by (simp add: b)
          ultimately show ?thesis unfolding step r1 sum.case by (simp add: es_inv_def Let_def)
        qed
      qed
    qed
  next
    case CrashRestart
    obtain a s' where aq: "so_acquire st k ?s = (a, s')" by (rule prod.exhaust)
    note av = acquire_view [OF I(1) aq] and ao = acquire_ok [OF I(1) aq]
    show ?thesis
    proof (cases a)
      case (Inl er)
      with av I(2) es_inv_entry [OF same ao] have "es_inv cd i view ok k S R (x\<lparr> es_store := s' \<rparr>)" by simp
      with CrashRestart Inl aq I(3) show ?thesis by simp
    next
      case (Inr t)
      then have t: "t = next_token ?e" and e': "view k s' = ?e\<lparr> se_owner := t \<rparr>" using av by simp_all
      have R: "restart_one op = 1" "stage_one op = 0" using CrashRestart by (simp_all add: restart_one_def stage_one_def)
      have "unat (token_value (se_owner ?e)) + 1 < 2 ^ 64" using I(8) R by simp
      note nt = next_token_less [OF this]
      have nz': "token_value (next_token ?e) \<noteq> 0" using nt(2) by auto
      have h: "holds cd i ?d (view k s')" using I(2) by (simp add: e' holds_def)
      then have last: "so_last_seq st k s' = of_nat (length ?d)" using last_view [OF ao] by (simp add: holds_def)
      have z: "\<forall>z\<in>set (es_zombies x). fenced_out (el_fence z) (view k s')"
        using I(6) nt(1) by (auto simp: fenced_out_def e' t intro: less_trans)
      have z0: "fenced_out (el_fence ?l) (view k s')" using I(5) nt(1) by (simp add: fenced_out_def e' t)
      have step: "es_step st cd i op x =
          x\<lparr> es_log := el_create k t (of_nat (length ?d) + 1), es_store := s', es_zombies := ?l # es_zombies x \<rparr>"
        using CrashRestart Inr aq I(3) last by simp
      show ?thesis
        unfolding step es_inv_def Let_def using ao h z z0 I(3,6-8) R nt(2) nz' e' t
        by (simp add: el_create_def add.commute)
    qed
  next
    case (ZombieCommit n evs)
    show ?thesis
    proof (cases "n < length (es_zombies x)")
      case True
      let ?z = "(es_zombies x ! n)\<lparr> el_staged := evs \<rparr>"
      have "fenced_out (el_fence ?z) (view (el_id ?z) ?s)" using I(6) nth_mem [OF True] by simp
      from zombie_noop(1) [OF I(1) this, of cd] have "es_inv cd i view ok k S R (x\<lparr> es_store := snd (snd (el_commit st cd ?z ?s)) \<rparr>)"
        using I(2) by (intro es_inv_entry [OF same]) simp_all
      with ZombieCommit True show ?thesis by simp
    next
      case False
      with ZombieCommit same show ?thesis by simp
    qed
  next
    case (ZombieCompact n q)
    show ?thesis
    proof (cases "n < length (es_zombies x)")
      case True
      let ?z = "es_zombies x ! n"
      have "fenced_out (el_fence ?z) (view (el_id ?z) ?s)" using I(6) nth_mem [OF True] by simp
      from zombie_noop(2) [OF I(1) this, of cd q "es_folded cd i []"]
      have "es_inv cd i view ok k S R (x\<lparr> es_store := snd (snd (compact_if_due st cd q (es_folded cd i []) ?z ?s)) \<rparr>)"
        using I(2) by (intro es_inv_entry [OF same]) simp_all
      with ZombieCompact True show ?thesis by simp
    next
      case False
      with ZombieCompact same show ?thesis by simp
    qed
  qed
qed

lemma es_run_inv:
  assumes "codec_ok cd" and "es_inv cd i view ok k (stage_count ops) (restart_count ops) x"
  shows "es_inv cd i view ok k 0 0 (es_run st cd i ops x)"
  using assms(2)
proof (induction ops arbitrary: x)
  case Nil
  then show ?case by (simp add: es_run_def stage_count_def restart_count_def)
next
  case (Cons op ops)
  have n: "stage_count (op # ops) = stage_count ops + stage_one op" "restart_count (op # ops) = restart_count ops + restart_one op"
    by (auto simp: stage_count_def restart_count_def stage_one_def restart_one_def split: es_op.splits)
  from Cons.IH [OF es_step_inv [OF assms(1)]] Cons.prems show ?case by (simp add: n es_run_def)
qed

end

section \<open>Event-sourced actors on the reference store\<close>

lemma mem_commit_succeeds:
  assumes "es_inv cd i entry_of store_wf k S R x" and "codec_ok cd"
    and "\<forall>ev\<in>set (el_staged (es_log x)). \<exists>bs. enc_event cd ev = Inr bs"
  shows "\<exists>q. fst (el_commit mem_ops cd (es_log x) (es_store x)) = Inr q"
proof (cases "el_staged (es_log x) = []")
  case True
  then show ?thesis by (simp add: el_commit_def)
next
  case False
  let ?l = "es_log x" and ?d = "es_done x"
  let ?e = "entry_of k (es_store x)"
  have I: "holds cd i ?d ?e" "el_id ?l = k" "el_next_seq ?l = of_nat (Suc (length ?d))" "el_fence ?l = se_owner ?e"
    "length ?d + length (el_staged ?l) < 2 ^ 64 - 1" "token_value (se_owner ?e) \<noteq> 0"
    using assms(1) by (simp_all add: es_inv_def Let_def)
  have enc: "\<exists>rs q. encode_batch (enc_event cd) n evs = Inr (rs, q)"
    if "\<forall>ev\<in>set evs. \<exists>bs. enc_event cd ev = Inr bs" for n evs
    using that
  proof (induction evs arbitrary: n)
    case (Cons ev evs)
    then obtain bs where "enc_event cd ev = Inr bs" by auto
    moreover obtain rs q where "encode_batch (enc_event cd) (n + 1) evs = Inr (rs, q)" using Cons by fastforce
    ultimately show ?case by simp
  qed simp
  obtain rs q where b: "encode_batch (enc_event cd) (of_nat (Suc (length ?d))) (el_staged ?l) = Inr (rs, q)"
    using enc assms(3) by blast
  have "list_all2 (rec_of cd) rs (enumerate (Suc (length ?d)) (el_staged ?l))"
    using encode_batch_ok [OF assms(2) b] I(5) by simp
  from advance_seq_batch [OF this] I(1,5) obtain q' where a: "advance_seq (se_last_seq ?e) rs = Some q'"
    by (simp add: holds_def)
  have "fst (append_batch k (se_owner ?e) rs (es_store x)) = Inr ()"
    using a I(6) by (simp add: append_batch_def Let_def fenced_out_def is_unfenced_def)
  then obtain s' where "append_batch k (se_owner ?e) rs (es_store x) = (Inr (), s')" by (metis prod.collapse)
  then show ?thesis using b False I(2-4) by (simp add: el_commit_def mem_ops_def)
qed

text \<open>
  Property C24.  Event sourcing loses nothing and invents nothing: take an actor never stored before, let it
  stage, commit, roll back, compact, crash and restart in any order, while every superseded incarnation
  keeps committing and compacting under its old fence.  At every point recovery returns the fold of exactly
  the events of the commits that reported success, in order, and their number as the last sequence; and the
  current incarnation can always commit its staged events, provided they can be encoded.
\<close>

theorem event_sourced_recovery_exact:
  fixes cd :: "('ev, 'st) actor_codec" and i :: 'st
  assumes "codec_ok cd" and "store_wf s0" and "entry_of k s0 = fresh_entry" and "acquire_fence k s0 = (Inr t, s1)"
    and "stage_count ops < 2 ^ 64 - 1" and "restart_count ops + 1 < 2 ^ 64"
  defines "x \<equiv> es_run mem_ops cd i ops
    \<lparr> es_log = el_create k t (last_seq k s1 + 1), es_store = s1, es_done = [], es_zombies = [] \<rparr>"
  shows "(\<exists>tok. recover_event_sourced mem_ops cd k i (es_store x) =
            Inr \<lparr> rec_state = es_folded cd i (es_done x), rec_last_seq = of_nat (length (es_done x)), rec_fence = tok \<rparr>) \<and>
         ((\<forall>ev\<in>set (el_staged (es_log x)). \<exists>bs. enc_event cd ev = Inr bs) \<longrightarrow>
            (\<exists>q. fst (el_commit mem_ops cd (es_log x) (es_store x)) = Inr q))"
proof -
  have t: "t = FenceToken 1" and s1: "s1 = put_entry k (fresh_entry\<lparr> se_owner := t \<rparr>) s0"
    using assms(3,4) by (auto simp: acquire_fence_def Let_def fresh_entry_def)
  have "store_wf s1" using mem.acquire_ok [OF assms(2)] assms(4) by (simp add: mem_ops_def)
  moreover have e: "entry_of k s1 = fresh_entry\<lparr> se_owner := t \<rparr>" by (simp add: s1)
  moreover have "holds cd i [] (entry_of k s1)" by (simp add: e holds_def fresh_entry_def)
  ultimately have "es_inv cd i entry_of store_wf k (stage_count ops) (restart_count ops)
      \<lparr> es_log = el_create k t (last_seq k s1 + 1), es_store = s1, es_done = [], es_zombies = [] \<rparr>"
    using assms(5,6) by (simp add: es_inv_def Let_def el_create_def last_seq_entry fresh_entry_def t)
  from mem.es_run_inv [OF assms(1) this] have x: "es_inv cd i entry_of store_wf k 0 0 x" by (simp add: x_def)
  then have "store_wf (es_store x)" "holds cd i (es_done x) (entry_of k (es_store x))"
    by (simp_all add: es_inv_def Let_def)
  from mem.recover_holds [OF this] mem_commit_succeeds [OF x assms(1)] show ?thesis by blast
qed

definition byte_codec :: "(u8, u8 list) actor_codec" where
  "byte_codec = \<lparr> enc_event = (\<lambda>b. Inr [b]), dec_event = (\<lambda>bs. case bs of [b] \<Rightarrow> Inr b | _ \<Rightarrow> fail Serialization ''''),
     enc_state = Inr, dec_state = Inr, apply_event = (\<lambda>x b. x @ [b]) \<rparr>"

theorem event_sourced_recovery_exact_witness:
  "let x = es_run mem_ops byte_codec []
        [StageEv 3, StageEv 4, CommitEvs, CompactLog 1, StageEv 9, CrashRestart, ZombieCommit 0 [8], StageEv 5, CommitEvs]
        \<lparr> es_log = el_create (ActorId 1 2) (FenceToken 1) 1, es_store = snd (acquire_fence (ActorId 1 2) []),
          es_done = [], es_zombies = [] \<rparr>
   in \<exists>tok. recover_event_sourced mem_ops byte_codec (ActorId 1 2) [] (es_store x) =
        Inr \<lparr> rec_state = es_folded byte_codec [] (es_done x), rec_last_seq = of_nat (length (es_done x)), rec_fence = tok \<rparr>"
proof -
  let ?k = "ActorId 1 2" and ?ops = "[StageEv 3, StageEv 4, CommitEvs, CompactLog 1, StageEv 9, CrashRestart,
      ZombieCommit 0 [8], StageEv 5, CommitEvs] :: u8 es_op list"
  have c: "codec_ok byte_codec" by (auto simp: codec_ok_def byte_codec_def)
  have a: "acquire_fence ?k [] = (Inr (FenceToken 1), snd (acquire_fence ?k []))"
    by (simp add: acquire_fence_def Let_def fresh_entry_def)
  have "last_seq ?k (snd (acquire_fence ?k [])) = 0" by (simp add: last_seq_entry acquire_fence_def Let_def fresh_entry_def)
  with event_sourced_recovery_exact [OF c _ _ a, of ?ops "[]"] show ?thesis
    by (simp add: Let_def stage_count_def restart_count_def)
qed

end
