(* ===== verification/Durable.thy ===== *)
theory Durable
  imports Tagged_Evolution Tagless_Wire Event_Log
begin

text \<open>
  Durable records: \<open>include/quark/core/serialize.hpp\<close> and the encoding half of
  \<open>include/quark/core/snapshot.hpp\<close>.  A described type is its field list with its salt, its schema version and
  the value of \<open>T{}\<close>; a migration chain is the list of its older versions, each with the upcaster to the
  next, and the current type.  The last section gives the codec the event log and the snapshots rely on.
\<close>

section \<open>Records\<close>

record durable_type =
  dt_salt :: "u64 option"
  dt_fields :: field_list
  dt_version :: u32
  dt_default :: "mval list"

record durable_record =
  dr_type :: u64
  dr_schema_version :: u32

definition durable_type_key :: "durable_type \<Rightarrow> u64" where
  "durable_type_key T = compute_fingerprint (dt_salt T) (dt_fields T)"

definition durable_header_size :: nat where
  [simp]: "durable_header_size = 12"

definition encode_record :: "durable_type \<Rightarrow> mval list \<Rightarrow> u64 \<Rightarrow> nat \<Rightarrow> bytes result" where
  "encode_record T vs type cap =
     (case put_fixed_le 8 type (bw_create cap) of (ok, w) \<Rightarrow>
        if \<not> ok then fail Serialization ''record buffer too small (header)''
        else (case put_fixed_le 4 (dt_version T) w of (ok, w) \<Rightarrow>
          if \<not> ok then fail Serialization ''record buffer too small (header)''
          else (let w = snd (tagged_write_object (dt_fields T) vs w)
                in if \<not> bw_ok w then fail Serialization ''record buffer too small (body)'' else Inr (bw_out w))))"

definition peek_record_header :: "bytes \<Rightarrow> durable_record result" where
  "peek_record_header buf =
     (case get_fixed_le 8 buf of
        None \<Rightarrow> fail Serialization ''truncated record header''
      | Some (tk, r) \<Rightarrow>
          (case get_fixed_le 4 r of
             None \<Rightarrow> fail Serialization ''truncated record header''
           | Some (ver, r') \<Rightarrow> Inr \<lparr> dr_type = tk, dr_schema_version = ver \<rparr>))"

definition decode_record :: "(mtype \<Rightarrow> mval) \<Rightarrow> durable_type \<Rightarrow> bytes \<Rightarrow> mval list result" where
  "decode_record mk T buf =
     (case peek_record_header buf of
        Inl e \<Rightarrow> Inl e
      | Inr hdr \<Rightarrow>
          if dr_type hdr \<noteq> durable_type_key T
          then fail Serialization ''durable record type_key mismatch (decoding as the wrong type)''
          else decode_tagged mk (dt_fields T) (drop durable_header_size buf) (dt_default T))"

section \<open>Migration\<close>

type_synonym migration_chain = "(durable_type \<times> (mval list \<Rightarrow> mval list)) list"

definition migrate_to :: "migration_chain \<Rightarrow> mval list \<Rightarrow> mval list" where
  "migrate_to chain vs = foldl (\<lambda>v (T, upcast). upcast v) vs chain"

fun read_from_chain ::
  "(mtype \<Rightarrow> mval) \<Rightarrow> migration_chain \<Rightarrow> durable_type \<Rightarrow> u64 \<Rightarrow> u32 \<Rightarrow> bytes \<Rightarrow> mval list result" where
  "read_from_chain mk [] cur type_key version body =
     (if dt_version cur = version
      then if type_key \<noteq> durable_type_key cur
           then fail Serialization ''durable record type_key mismatch at its schema version''
           else decode_tagged mk (dt_fields cur) body (dt_default cur)
      else fail Serialization ''unknown schema version (not in migration chain)'')"
| "read_from_chain mk ((T, upcast) # chain) cur type_key version body =
     (if dt_version T = version
      then if type_key \<noteq> durable_type_key T
           then fail Serialization ''durable record type_key mismatch at its schema version''
           else (case decode_tagged mk (dt_fields T) body (dt_default T) of
                   Inl e \<Rightarrow> Inl e
                 | Inr old \<Rightarrow> Inr (migrate_to ((T, upcast) # chain) old))
      else read_from_chain mk chain cur type_key version body)"

definition read_migrated :: "(mtype \<Rightarrow> mval) \<Rightarrow> migration_chain \<Rightarrow> durable_type \<Rightarrow> bytes \<Rightarrow> mval list result" where
  "read_migrated mk chain cur buf =
     (case peek_record_header buf of
        Inl e \<Rightarrow> Inl e
      | Inr hdr \<Rightarrow>
          read_from_chain mk chain cur (dr_type hdr) (dr_schema_version hdr) (drop durable_header_size buf))"

section \<open>Encoding of snapshots and events\<close>

definition encode_durable :: "durable_type \<Rightarrow> mval list \<Rightarrow> bytes result" where
  "encode_durable T vs =
     (let need = durable_header_size + tagged_object_size (dt_fields T) vs
      in case encode_record T vs (durable_type_key T) need of Inl e \<Rightarrow> Inl e | Inr out \<Rightarrow> Inr out)"

definition decode_durable :: "(mtype \<Rightarrow> mval) \<Rightarrow> durable_type \<Rightarrow> bytes \<Rightarrow> mval list result" where
  "decode_durable mk T bs = decode_record mk T bs"

definition decode_durable_migrated :: "(mtype \<Rightarrow> mval) \<Rightarrow> migration_chain \<Rightarrow> durable_type \<Rightarrow> bytes \<Rightarrow> mval list result" where
  "decode_durable_migrated mk chain cur bs = read_migrated mk chain cur bs"

section \<open>Round trips\<close>

text \<open>The static facts about a described type that the C++ type system and the field list guarantee.\<close>

definition described :: "(mtype \<Rightarrow> mval) \<Rightarrow> durable_type \<Rightarrow> bool" where
  "described mk T \<longleftrightarrow> distinct (map fst (dt_fields T)) \<and> fields_distinct (dt_fields T) \<and>
     has_types (dt_fields T) (dt_default T) \<and> defaults_oks mk (dt_fields T)"

lemma written_record:
  assumes "has_types (dt_fields T) vs"
  shows "encode_record T vs key cap =
    (if 12 + length (object_bytes (dt_fields T) vs) \<le> cap then Inr (put_le 8 key @ put_le 4 (dt_version T) @ object_bytes (dt_fields T) vs)
     else if cap < 12 then fail Serialization ''record buffer too small (header)''
     else fail Serialization ''record buffer too small (body)'')"
proof -
  let ?w = "bw_create cap" and ?o = "object_bytes (dt_fields T) vs"
  have b: "bw_ok ?w" "bw_out ?w = []" "bw_cap ?w = cap" by (simp_all add: bw_create_def)
  have W: "writes ?o (tagged_write_object (dt_fields T) vs)" using writes_value(3) [OF assms] by (simp add: pours_def)
  let ?h = "?w\<lparr> bw_out := put_le 8 key @ put_le 4 (dt_version T) \<rparr>"
  note O = W [unfolded writes_def, rule_format, of ?h]
  show ?thesis
  proof (cases "12 \<le> cap")
    case True
    then have p: "put_fixed_le 8 key ?w = (True, ?w\<lparr> bw_out := put_le 8 key \<rparr>)"
      "put_fixed_le 4 (dt_version T) (?w\<lparr> bw_out := put_le 8 key \<rparr>) = (True, ?h)"
      using b by (simp_all add: put_fixed_le_def put_bytes_def)
    have e: "encode_record T vs key cap =
        (let w = snd (tagged_write_object (dt_fields T) vs ?h)
         in if \<not> bw_ok w then fail Serialization ''record buffer too small (body)'' else Inr (bw_out w))"
      by (simp add: encode_record_def p)
    show ?thesis
    proof (cases "12 + length ?o \<le> cap")
      case True
      then have "snd (tagged_write_object (dt_fields T) vs ?h) = ?h\<lparr> bw_out := (put_le 8 key @ put_le 4 (dt_version T)) @ ?o \<rparr>"
        using O b by simp
      with True b show ?thesis by (simp add: e Let_def)
    next
      case False
      then have "\<not> bw_ok (snd (tagged_write_object (dt_fields T) vs ?h))" using O b \<open>12 \<le> cap\<close> by simp
      with False \<open>12 \<le> cap\<close> show ?thesis by (simp add: e Let_def)
    qed
  next
    case False
    then have "\<not> fst (put_fixed_le 8 key ?w) \<or>
        \<not> fst (put_fixed_le 4 (dt_version T) (snd (put_fixed_le 8 key ?w)))"
      using b by (auto simp: put_fixed_le_def put_bytes_def)
    with False show ?thesis by (auto simp: encode_record_def split: prod.splits)
  qed
qed

lemma written_durable:
  assumes "has_types (dt_fields T) vs"
  shows "encode_durable T vs =
    Inr (put_le 8 (durable_type_key T) @ put_le 4 (dt_version T) @ object_bytes (dt_fields T) vs)"
  using assms by (simp add: encode_durable_def written_record length_value_bytes durable_header_size_def)

lemma peek_written [simp]:
  "peek_record_header (put_le 8 key @ put_le 4 ver @ body) = Inr \<lparr> dr_type = key, dr_schema_version = ver \<rparr>"
  by (simp add: peek_record_header_def)

lemma drop_header [simp]: "drop durable_header_size (put_le 8 key @ put_le 4 ver @ body) = body"
  by (simp add: durable_header_size_def)

lemma decode_written_body:
  assumes "described mk T" and "has_types (dt_fields T) vs" and "tagged_object_size (dt_fields T) vs < 2 ^ 64"
  shows "decode_tagged mk (dt_fields T) (object_bytes (dt_fields T) vs) (dt_default T) = Inr vs"
proof -
  let ?fs = "dt_fields T" and ?buf = "object_bytes (dt_fields T) vs"
  have len: "length ?buf = tagged_object_size ?fs vs" using length_value_bytes(3) assms(2) .
  have "compat (MObj None ?fs) (MObj None ?fs)" using assms(1) by (intro compat_refl) (simp add: described_def)
  then have "tagged_object_loop mk (length ?buf) ?fs ?buf (dt_default T) = Some (absorb_fields mk ?fs (dt_default T) ?fs vs)"
    using assms len by (intro tagged_read_absorbs(3)) (auto simp: described_def)
  moreover have "absorb mk (MObj None ?fs) (VObj (dt_default T)) (MObj None ?fs) (VObj vs) = VObj vs"
    using assms by (intro absorb_same) (simp_all add: described_def)
  ultimately show ?thesis by (simp add: decode_tagged_def tagged_read_object_def)
qed

lemma decode_encode_durable:
  assumes "described mk T" and "has_types (dt_fields T) vs" and "tagged_object_size (dt_fields T) vs < 2 ^ 64"
    and "encode_durable T vs = Inr bs"
  shows "decode_durable mk T bs = Inr vs"
  using assms(4) decode_written_body [OF assms(1-3)]
  by (auto simp: written_durable [OF assms(2)] decode_durable_def decode_record_def)

lemma read_from_chain_skips:
  assumes "\<forall>T up. (T, up) \<in> set older \<longrightarrow> dt_version T \<noteq> ver"
  shows "read_from_chain mk (older @ chain) cur key ver body = read_from_chain mk chain cur key ver body"
  using assms
proof (induction older)
  case (Cons x older)
  obtain T up where x: "x = (T, up)" by (rule prod.exhaust)
  have "dt_version T \<noteq> ver" "\<forall>T up. (T, up) \<in> set older \<longrightarrow> dt_version T \<noteq> ver" using Cons.prems x by auto
  with Cons.IH x show ?case by simp
qed simp

section \<open>Properties\<close>


definition sample_type :: durable_type where
  "sample_type = \<lparr> dt_salt = None, dt_fields = [(1, MInt 64 True), (2, MString)], dt_version = 1, dt_default = [VInt 0, VStr []] \<rparr>"


text \<open>
  Property C21.  A record written by any version of a type is read as the current one: the link of the chain with
  the record's schema version decodes it, and every later upcaster is applied in order.
\<close>

theorem durable_migration:
  assumes "described mk T" and "has_types (dt_fields T) vs" and "tagged_object_size (dt_fields T) vs < 2 ^ 64"
    and "\<forall>T' up'. (T', up') \<in> set older \<longrightarrow> dt_version T' \<noteq> dt_version T"
  shows "\<exists>bs. encode_durable T vs = Inr bs \<and>
    decode_durable_migrated mk (older @ (T, up) # newer) cur bs = Inr (migrate_to newer (up vs)) \<and>
    decode_durable_migrated mk older T bs = Inr vs"
proof -
  let ?bs = "put_le 8 (durable_type_key T) @ put_le 4 (dt_version T) @ object_bytes (dt_fields T) vs"
  note body = decode_written_body [OF assms(1-3)]
  note skip = assms(4)
  have "decode_durable_migrated mk (older @ (T, up) # newer) cur ?bs = Inr (migrate_to newer (up vs))"
    using body by (simp add: decode_durable_migrated_def read_migrated_def read_from_chain_skips [OF skip] migrate_to_def)
  moreover have "decode_durable_migrated mk older T ?bs = Inr vs"
    using body read_from_chain_skips [OF skip, where chain = "[]"]
    by (simp add: decode_durable_migrated_def read_migrated_def)
  ultimately show ?thesis using written_durable [OF assms(2)] by blast
qed

definition sample_type_v2 :: durable_type where
  "sample_type_v2 = \<lparr> dt_salt = None, dt_fields = [(1, MInt 64 True), (2, MString), (3, MBool)], dt_version = 2,
     dt_default = [VInt 0, VStr [], VBool False] \<rparr>"

theorem durable_migration_witness:
  "\<exists>bs. encode_durable sample_type [VInt (- 7), VStr [65]] = Inr bs \<and>
    decode_durable_migrated sample_default ([] @ (sample_type, \<lambda>v. v @ [VBool True]) # []) sample_type_v2 bs =
      Inr (migrate_to [] ([VInt (- 7), VStr [65]] @ [VBool True])) \<and>
    decode_durable_migrated sample_default [] sample_type bs = Inr [VInt (- 7), VStr [65]]"
proof (rule durable_migration)
  show "described sample_default sample_type" by code_simp
  show "has_types (dt_fields sample_type) [VInt (- 7), VStr [65]]" by code_simp
  have "tagged_object_size (dt_fields sample_type) [VInt (- 7), VStr [65]] = 5" by code_simp
  then show "tagged_object_size (dt_fields sample_type) [VInt (- 7), VStr [65]] < 2 ^ 64" by simp
qed simp

text \<open>
  Additive evolution does not reach durable data: a field added without a new schema version
  changes the fingerprint, so the old record is refused both by the plain and by the migrating reader although
  its body decodes.
\<close>

theorem durable_additive_refused:
  "let T = sample_type; U = sample_type_v2\<lparr> dt_version := 1 \<rparr>; v = [VInt (- 7), VStr [65]];
       bs = (case encode_durable T v of Inr bs \<Rightarrow> bs | Inl _ \<Rightarrow> [])
   in decode_tagged sample_default (dt_fields U) (drop durable_header_size bs) (dt_default U) = Inr [VInt (- 7), VStr [65], VBool False] \<and>
      decode_durable sample_default U bs = fail Serialization ''durable record type_key mismatch (decoding as the wrong type)'' \<and>
      decode_durable_migrated sample_default [] U bs = fail Serialization ''durable record type_key mismatch at its schema version''"
  by code_simp

section \<open>The codec of the event log\<close>

text \<open>
  Events and states are described values.  In C++ a value of the wrong type cannot be passed, and no object
  has \<open>2 ^ 64\<close> bytes; the guard says so.
\<close>

definition typed_encode :: "durable_type \<Rightarrow> mval list \<Rightarrow> bytes result" where
  "typed_encode T vs =
     (if has_types (dt_fields T) vs \<and> tagged_object_size (dt_fields T) vs < 2 ^ 64 then encode_durable T vs
      else fail Validation ''type has no QUARK_SERIALIZE description'')"

definition durable_codec ::
  "(mtype \<Rightarrow> mval) \<Rightarrow> migration_chain \<Rightarrow> durable_type \<Rightarrow> migration_chain \<Rightarrow> durable_type \<Rightarrow>
   (mval list \<Rightarrow> mval list \<Rightarrow> mval list) \<Rightarrow> (mval list, mval list) actor_codec" where
  "durable_codec mk ev_chain EvT st_chain StT app =
     \<lparr> enc_event = typed_encode EvT, dec_event = decode_durable_migrated mk ev_chain EvT,
       enc_state = typed_encode StT, dec_state = decode_durable_migrated mk st_chain StT, apply_event = app \<rparr>"

text \<open>
  The durable records discharge what event sourcing asks of its codec, whatever older versions
  the migration chains of the event and of the state name.
\<close>

theorem durable_codec_ok:
  assumes "described mk EvT" and "described mk StT"
    and "\<forall>T up. (T, up) \<in> set ev_chain \<longrightarrow> dt_version T \<noteq> dt_version EvT"
    and "\<forall>T up. (T, up) \<in> set st_chain \<longrightarrow> dt_version T \<noteq> dt_version StT"
  shows "codec_ok (durable_codec mk ev_chain EvT st_chain StT app)"
proof -
  have main: "decode_durable_migrated mk chain T bs = Inr vs"
    if T: "described mk T" and c: "\<forall>T' up. (T', up) \<in> set chain \<longrightarrow> dt_version T' \<noteq> dt_version T"
      and e: "typed_encode T vs = Inr bs" for T chain vs bs
  proof -
    have ty: "has_types (dt_fields T) vs" "tagged_object_size (dt_fields T) vs < 2 ^ 64" and e': "encode_durable T vs = Inr bs"
      using e by (auto simp: typed_encode_def split: if_splits)
    show ?thesis
      using e' decode_written_body [OF T ty] read_from_chain_skips [OF c, where chain = "[]"]
      by (auto simp: written_durable [OF ty(1)] decode_durable_migrated_def read_migrated_def)
  qed
  show ?thesis using main [OF assms(1,3)] main [OF assms(2,4)] by (simp add: codec_ok_def durable_codec_def)
qed

theorem durable_codec_ok_witness:
  "codec_ok (durable_codec sample_default [(sample_type, \<lambda>v. v @ [VBool True])] sample_type_v2 [] sample_type (\<lambda>st ev. st))"
proof (rule durable_codec_ok)
  show "described sample_default sample_type_v2" by code_simp
  show "described sample_default sample_type" by code_simp
qed (simp_all add: sample_type_def sample_type_v2_def)

end
