(* ===== verification/Reliable_Delivery.thy ===== *)
theory Reliable_Delivery
  imports Quark_Prelude
begin

text \<open>
  The transport-agnostic retry layer of \<open>include/quark/core/delivery.hpp\<close>: the capped map with
  oldest-touched-first eviction, the go-back-N sender with its deferred acknowledgements and the receiver.
  A sink is a function on its own state and the sender it is called from; it may call \<open>enqueue\<close> and \<open>on_ack\<close>
  on that sender.  \<open>pump\<close> with an unlimited window runs as long as its sink keeps enqueueing, so its loop has
  fuel and \<open>None\<close> means that the fuel did not suffice.  The last sections put a sender and a receiver on a
  network that loses, repeats and reorders frames and acknowledgements.
\<close>

section \<open>The bounded map\<close>

text \<open>The entries in the order of their last touch, the oldest first; a cap of 0 is none.\<close>

record 'v bounded_map =
  bm_cap :: nat
  bm_evictions :: nat
  bm_entries :: "(u64 \<times> 'v) list"

definition bm_empty :: "'v bounded_map" where
  "bm_empty = \<lparr> bm_cap = 0, bm_evictions = 0, bm_entries = [] \<rparr>"

definition bm_trim :: "'v bounded_map \<Rightarrow> 'v bounded_map" where
  "bm_trim m =
     (if bm_cap m = 0 then m
      else let k = length (bm_entries m) - bm_cap m
           in m\<lparr> bm_evictions := bm_evictions m + k, bm_entries := drop k (bm_entries m) \<rparr>)"

definition bm_set_cap :: "nat \<Rightarrow> 'v bounded_map \<Rightarrow> 'v bounded_map" where
  "bm_set_cap c m = bm_trim (m\<lparr> bm_cap := c \<rparr>)"

definition bm_find :: "u64 \<Rightarrow> 'v bounded_map \<Rightarrow> 'v option" where
  "bm_find k m = map_of (bm_entries m) k"

text \<open>\<open>touch(k)\<close> and the assignment of \<open>f\<close> of the old value through the reference it returns.\<close>

definition bm_touch :: "u64 \<Rightarrow> 'v \<Rightarrow> ('v \<Rightarrow> 'v) \<Rightarrow> 'v bounded_map \<Rightarrow> 'v bounded_map" where
  "bm_touch k fresh f m =
     bm_trim (m\<lparr> bm_entries := filter (\<lambda>e. fst e \<noteq> k) (bm_entries m) @
       [(k, f (case bm_find k m of None \<Rightarrow> fresh | Some v \<Rightarrow> v))] \<rparr>)"

definition bm_size :: "'v bounded_map \<Rightarrow> nat" where
  "bm_size m = length (bm_entries m)"

definition bm_wf :: "'v bounded_map \<Rightarrow> bool" where
  "bm_wf m \<longleftrightarrow> distinct (map fst (bm_entries m)) \<and> (bm_cap m = 0 \<or> bm_size m \<le> bm_cap m)"

lemma bm_wf_trim: "distinct (map fst (bm_entries m)) \<Longrightarrow> bm_wf (bm_trim m)"
  by (auto simp: bm_wf_def bm_trim_def bm_size_def Let_def drop_map [symmetric] intro: distinct_drop)

lemma bm_wf_empty [simp]: "bm_wf bm_empty"
  by (simp add: bm_wf_def bm_empty_def)

lemma bm_touch_distinct:
  assumes "distinct (map fst (bm_entries m))"
  shows "distinct (map fst (filter (\<lambda>e. fst e \<noteq> k) (bm_entries m) @ [(k, v)]))"
  using assms by (auto simp: distinct_map_filter)

lemma bm_wf_touch: "bm_wf m \<Longrightarrow> bm_wf (bm_touch k fresh f m)"
  unfolding bm_touch_def by (rule bm_wf_trim) (auto simp: bm_wf_def distinct_map_filter)

text \<open>The touched key survives the trim, and without a cap so does every other.\<close>

lemma bm_find_touch_same: "bm_find k (bm_touch k fresh f m) = Some (f (case bm_find k m of None \<Rightarrow> fresh | Some v \<Rightarrow> v))"
proof -
  let ?xs = "filter (\<lambda>e. fst e \<noteq> k) (bm_entries m)" and ?v = "f (case bm_find k m of None \<Rightarrow> fresh | Some v \<Rightarrow> v)"
  have "map_of (drop j (?xs @ [(k, ?v)])) k = Some ?v" if "j \<le> length ?xs" for j
  proof -
    have "drop j (?xs @ [(k, ?v)]) = drop j ?xs @ [(k, ?v)]" using that by simp
    moreover have "map_of (drop j ?xs) k = None" by (auto simp: map_of_eq_None_iff dest!: in_set_dropD)
    ultimately show ?thesis by (simp add: map_add_def)
  qed
  from this [of 0] this [of "length (?xs @ [(k, ?v)]) - bm_cap m"] show ?thesis
    by (auto simp: bm_touch_def bm_trim_def bm_find_def Let_def)
qed

lemma bm_find_touch_other:
  assumes "bm_cap m = 0" and "k' \<noteq> k"
  shows "bm_find k' (bm_touch k fresh f m) = bm_find k' m"
proof -
  have "map_of (filter (\<lambda>e. fst e \<noteq> k) xs) k' = map_of xs k'" for xs :: "(u64 \<times> 'a) list"
    using assms(2) by (induction xs) auto
  then show ?thesis using assms by (simp add: bm_touch_def bm_trim_def bm_find_def map_add_def split: option.split)
qed

lemma bm_cap_touch [simp]: "bm_cap (bm_touch k fresh f m) = bm_cap m"
  by (simp add: bm_touch_def bm_trim_def Let_def)

section \<open>The sender\<close>

record reliable_frame =
  rf_sender :: u64
  rf_seq :: u64
  rf_base :: u64

record reliable_sender =
  rs_sender :: u64
  rs_next :: u64
  rs_pending :: "(u64 \<times> bytes) list"
  rs_in_pump :: bool
  rs_deferred_ack :: u64
  rs_has_deferred_ack :: bool

definition rs_create :: "u64 \<Rightarrow> reliable_sender" where
  "rs_create h = \<lparr> rs_sender = h, rs_next = 1, rs_pending = [], rs_in_pump = False, rs_deferred_ack = 0, rs_has_deferred_ack = False \<rparr>"

definition rs_enqueue :: "bytes \<Rightarrow> reliable_sender \<Rightarrow> u64 \<times> reliable_sender" where
  "rs_enqueue body s = (rs_next s, s\<lparr> rs_pending := rs_pending s @ [(rs_next s, body)], rs_next := rs_next s + 1 \<rparr>)"

definition rs_on_ack :: "u64 \<Rightarrow> reliable_sender \<Rightarrow> reliable_sender" where
  "rs_on_ack c s =
     (if rs_in_pump s then s\<lparr> rs_deferred_ack := max (rs_deferred_ack s) c, rs_has_deferred_ack := True \<rparr>
      else s\<lparr> rs_pending := dropWhile (\<lambda>(q, body). q \<le> c) (rs_pending s) \<rparr>)"

definition pump_scope_end :: "bool \<Rightarrow> reliable_sender \<Rightarrow> reliable_sender" where
  "pump_scope_end outermost s =
     (if \<not> outermost then s
      else let s = s\<lparr> rs_in_pump := False \<rparr>
           in if rs_has_deferred_ack s then rs_on_ack (rs_deferred_ack s) (s\<lparr> rs_has_deferred_ack := False \<rparr>) else s)"

type_synonym 'e sink = "reliable_frame \<Rightarrow> bytes \<Rightarrow> 'e \<times> reliable_sender \<Rightarrow> 'e \<times> reliable_sender"

text \<open>\<open>std::lower_bound\<close> on the pending items, which are sorted, is the first one not below the cursor.\<close>

fun pump_loop :: "nat \<Rightarrow> 'e sink \<Rightarrow> nat \<Rightarrow> nat \<Rightarrow> u64 \<Rightarrow> 'e \<times> reliable_sender \<Rightarrow> (nat \<times> 'e \<times> reliable_sender) option" where
  "pump_loop 0 sink window n cursor (e, s) = None"
| "pump_loop (Suc fuel) sink window n cursor (e, s) =
     (if window \<noteq> 0 \<and> n = window then Some (n, e, s)
      else case dropWhile (\<lambda>(q, body). q < cursor) (rs_pending s) of
             [] \<Rightarrow> Some (n, e, s)
           | (q, body) # rest \<Rightarrow>
               pump_loop fuel sink window (Suc n) (q + 1)
                 (sink \<lparr> rf_sender = rs_sender s, rf_seq = q, rf_base = fst (hd (rs_pending s)) \<rparr> body (e, s)))"

definition pump :: "nat \<Rightarrow> 'e sink \<Rightarrow> nat \<Rightarrow> 'e \<Rightarrow> reliable_sender \<Rightarrow> (nat \<times> 'e \<times> reliable_sender) option" where
  "pump fuel sink window e s =
     (if rs_pending s = [] then Some (0, e, s)
      else let outermost = \<not> rs_in_pump s
           in map_option (\<lambda>(n, e, s). (n, e, pump_scope_end outermost s))
                (pump_loop fuel sink window 0 (fst (hd (rs_pending s))) (e, s\<lparr> rs_in_pump := True \<rparr>)))"

section \<open>The receiver\<close>

datatype verdict = Deliver | Duplicate | Gap

type_synonym reliable_receiver = "u64 bounded_map"

definition rr_create :: "nat \<Rightarrow> reliable_receiver" where
  "rr_create max_senders = bm_set_cap max_senders bm_empty"

definition rr_accept :: "reliable_frame \<Rightarrow> reliable_receiver \<Rightarrow> verdict \<times> reliable_receiver" where
  "rr_accept f r =
     (case bm_find (rf_sender f) r of
        None \<Rightarrow>
          if rf_seq f \<noteq> rf_base f then (Gap, r)
          else (Deliver, bm_touch (rf_sender f) 0 (\<lambda>_. rf_seq f) r)
      | Some w \<Rightarrow>
          if rf_seq f \<le> w then (Duplicate, r)
          else if rf_seq f \<noteq> w + 1 then (Gap, r)
          else (Deliver, bm_touch (rf_sender f) 0 (\<lambda>_. rf_seq f) r))"

definition rr_ack_for :: "u64 \<Rightarrow> reliable_receiver \<Rightarrow> u64" where
  "rr_ack_for h r = (case bm_find h r of None \<Rightarrow> 0 | Some w \<Rightarrow> w)"

section \<open>A lossy network\<close>

text \<open>
  One sender, one receiver.  Every frame and every cumulative acknowledgement ever sent stays in the network,
  from where it may be delivered any number of times, in any order, or never.  \<open>NetPump w cs\<close> pumps with a sink
  that puts the frame on the network and, during each call, hands the acknowledgements \<open>cs\<close> that are already on
  the network to the sender.  \<open>NetOther\<close> is a frame of some other sender.  \<open>nt_sent\<close> and \<open>nt_delivered\<close> are
  what the application enqueued and what the receiver let through.
\<close>

record network =
  nt_sender :: reliable_sender
  nt_receiver :: reliable_receiver
  nt_frames :: "(reliable_frame \<times> bytes) list"
  nt_acks :: "u64 list"
  nt_sent :: "bytes list"
  nt_delivered :: "bytes list"

datatype net_op =
    NetEnqueue bytes
  | NetPump nat "u64 list"
  | NetFrame nat
  | NetAck nat
  | NetOther reliable_frame

definition net_sink :: "u64 list \<Rightarrow> (reliable_frame \<times> bytes) list sink" where
  "net_sink cs f body es = (case es of (out, s) \<Rightarrow> (out @ [(f, body)], fold rs_on_ack cs s))"

definition net_start :: "u64 \<Rightarrow> network" where
  "net_start h = \<lparr> nt_sender = rs_create h, nt_receiver = rr_create 0, nt_frames = [], nt_acks = [], nt_sent = [], nt_delivered = [] \<rparr>"

fun net_step :: "net_op \<Rightarrow> network \<Rightarrow> network" where
  "net_step (NetEnqueue body) x =
     x\<lparr> nt_sender := snd (rs_enqueue body (nt_sender x)), nt_sent := nt_sent x @ [body] \<rparr>"
| "net_step (NetPump w cs) x =
     (case pump (Suc (length (rs_pending (nt_sender x)))) (net_sink (filter (\<lambda>c. c \<in> set (nt_acks x)) cs)) w (nt_frames x) (nt_sender x) of
        None \<Rightarrow> x
      | Some (n, frames, s) \<Rightarrow> x\<lparr> nt_sender := s, nt_frames := frames \<rparr>)"
| "net_step (NetFrame i) x =
     (if i < length (nt_frames x)
      then let (f, body) = nt_frames x ! i; (v, r) = rr_accept f (nt_receiver x)
           in x\<lparr> nt_receiver := r, nt_acks := nt_acks x @ [rr_ack_for (rf_sender f) r],
                 nt_delivered := (if v = Deliver then nt_delivered x @ [body] else nt_delivered x) \<rparr>
      else x)"
| "net_step (NetAck i) x =
     (if i < length (nt_acks x) then x\<lparr> nt_sender := rs_on_ack (nt_acks x ! i) (nt_sender x) \<rparr> else x)"
| "net_step (NetOther f) x =
     (if rf_sender f = rs_sender (nt_sender x) then x else x\<lparr> nt_receiver := snd (rr_accept f (nt_receiver x)) \<rparr>)"

definition net_run :: "net_op list \<Rightarrow> network \<Rightarrow> network" where
  "net_run ops x = foldl (\<lambda>x op. net_step op x) x ops"

definition enqueues :: "net_op list \<Rightarrow> nat" where
  "enqueues ops = length (filter (\<lambda>op. case op of NetEnqueue _ \<Rightarrow> True | _ \<Rightarrow> False) ops)"

section \<open>Its invariant\<close>

text \<open>The items \<open>a + 1, \<dots>, n\<close> of what was sent.\<close>

definition items_from :: "nat \<Rightarrow> bytes list \<Rightarrow> (u64 \<times> bytes) list" where
  "items_from a xs = map (\<lambda>i. (of_nat (Suc i), xs ! i)) [a..<length xs]"

definition frame_ok :: "u64 \<Rightarrow> bytes list \<Rightarrow> nat \<Rightarrow> reliable_frame \<Rightarrow> bytes \<Rightarrow> bool" where
  "frame_ok h sent a f body \<longleftrightarrow> rf_sender f = h \<and>
     (\<exists>i b. i < length sent \<and> b \<le> a \<and> b \<le> i \<and> rf_seq f = of_nat (Suc i) \<and> rf_base f = of_nat (Suc b) \<and> body = sent ! i)"

definition sender_ok :: "u64 \<Rightarrow> bytes list \<Rightarrow> nat \<Rightarrow> reliable_sender \<Rightarrow> bool" where
  "sender_ok h sent a s \<longleftrightarrow> rs_sender s = h \<and> rs_next s = of_nat (Suc (length sent)) \<and> a \<le> length sent \<and>
     rs_pending s = items_from a sent"

definition link_inv :: "u64 \<Rightarrow> network \<Rightarrow> bool" where
  "link_inv h x \<longleftrightarrow>
     (let d = length (nt_delivered x); n = length (nt_sent x) in
      \<exists>a. Suc n < 2 ^ 64 \<and> sender_ok h (nt_sent x) a (nt_sender x) \<and>
        \<not> rs_in_pump (nt_sender x) \<and> \<not> rs_has_deferred_ack (nt_sender x) \<and> unat (rs_deferred_ack (nt_sender x)) \<le> d \<and>
        a \<le> d \<and> d \<le> n \<and> nt_delivered x = take d (nt_sent x) \<and>
        bm_cap (nt_receiver x) = 0 \<and> bm_find h (nt_receiver x) = (if d = 0 then None else Some (of_nat d)) \<and>
        (\<forall>f body. (f, body) \<in> set (nt_frames x) \<longrightarrow> frame_ok h (nt_sent x) a f body) \<and>
        (\<forall>c. c \<in> set (nt_acks x) \<longrightarrow> unat c \<le> d))"

lemma u64_less_of_nat:
  assumes "i < 2 ^ 64" and "j < 2 ^ 64"
  shows "(of_nat i :: u64) < of_nat j \<longleftrightarrow> i < j" and "(of_nat i :: u64) \<le> of_nat j \<longleftrightarrow> i \<le> j" and "(of_nat i :: u64) = of_nat j \<longleftrightarrow> i = j"
  using assms by (simp_all add: word_less_nat_alt word_le_nat_alt unat_of_nat word_unat_eq_iff)

lemma items_from_Cons: "c < length xs \<Longrightarrow> items_from c xs = (of_nat (Suc c), xs ! c) # items_from (Suc c) xs"
  by (simp add: items_from_def upt_conv_Cons)

lemma items_from_end [simp]: "length xs \<le> c \<Longrightarrow> items_from c xs = []"
  by (simp add: items_from_def)

lemma length_items_from [simp]: "length (items_from a xs) = length xs - a"
  by (simp add: items_from_def)

lemma items_from_snoc: "a \<le> length xs \<Longrightarrow> items_from a (xs @ [x]) = items_from a xs @ [(of_nat (Suc (length xs)), x)]"
  by (auto simp: items_from_def nth_append)

lemma dropWhile_items:
  assumes "a \<le> c" and "c \<le> length xs" and "\<And>i. a \<le> i \<Longrightarrow> i < c \<Longrightarrow> P (of_nat (Suc i))"
    and "c < length xs \<Longrightarrow> \<not> P (of_nat (Suc c))"
  shows "dropWhile (\<lambda>(q, body). P q) (items_from a xs) = items_from c xs"
  using assms(1,3)
proof (induction "c - a" arbitrary: a)
  case 0
  then have "a = c" by simp
  then show ?case using assms(4) by (cases "c < length xs") (simp_all add: items_from_Cons)
next
  case (Suc k)
  then have a: "a < c" "a < length xs" using assms(2) by simp_all
  moreover have "dropWhile (\<lambda>(q, body). P q) (items_from (Suc a) xs) = items_from c xs"
    using Suc a by (intro Suc.hyps(1)) auto
  ultimately show ?case using Suc.prems(2) [of a] by (simp add: items_from_Cons)
qed

lemma ack_items:
  assumes "Suc (length xs) < 2 ^ 64" and "a \<le> length xs" and "unat c \<le> length xs"
  shows "dropWhile (\<lambda>(q, body). q \<le> c) (items_from a xs) = items_from (max a (unat c)) xs"
proof (rule dropWhile_items)
  have c: "c = of_nat (unat c)" by simp
  show "of_nat (Suc i) \<le> c" if "i < max a (unat c)" "a \<le> i" for i
    using that assms by (subst c) (subst u64_less_of_nat(2), auto)
  show "\<not> of_nat (Suc (max a (unat c))) \<le> c" if "max a (unat c) < length xs"
    using that assms by (subst c) (subst u64_less_of_nat(2), auto)
qed (use assms in simp_all)

lemma cursor_items:
  assumes "Suc (length xs) < 2 ^ 64" and "a \<le> c" and "c \<le> length xs"
  shows "dropWhile (\<lambda>(q, body). q < of_nat (Suc c)) (items_from a xs) = items_from c xs"
proof (rule dropWhile_items)
  show "(of_nat (Suc i) :: u64) < of_nat (Suc c)" if "i < c" for i
    using that assms by (subst u64_less_of_nat(1)) auto
qed (use assms in simp_all)

text \<open>During a pump the sink's acknowledgements are only noted down.\<close>

lemma fold_deferred_acks:
  assumes "rs_in_pump s"
  shows "\<exists>d b. fold rs_on_ack cs s = s\<lparr> rs_deferred_ack := d, rs_has_deferred_ack := b \<rparr> \<and>
    (\<forall>m. unat (rs_deferred_ack s) \<le> m \<longrightarrow> (\<forall>c. c \<in> set cs \<longrightarrow> unat c \<le> m) \<longrightarrow> unat d \<le> m)"
  using assms
proof (induction cs arbitrary: s)
  case Nil
  have "s = s\<lparr> rs_deferred_ack := rs_deferred_ack s, rs_has_deferred_ack := rs_has_deferred_ack s \<rparr>" by simp
  then show ?case by (metis fold_simps(1))
next
  case (Cons c cs)
  let ?s = "s\<lparr> rs_deferred_ack := max (rs_deferred_ack s) c, rs_has_deferred_ack := True \<rparr>"
  from Cons.IH [of ?s] Cons.prems obtain d b where d: "fold rs_on_ack cs ?s = ?s\<lparr> rs_deferred_ack := d, rs_has_deferred_ack := b \<rparr>"
    "\<forall>m. unat (max (rs_deferred_ack s) c) \<le> m \<longrightarrow> (\<forall>c. c \<in> set cs \<longrightarrow> unat c \<le> m) \<longrightarrow> unat d \<le> m" by auto
  have "fold rs_on_ack (c # cs) s = s\<lparr> rs_deferred_ack := d, rs_has_deferred_ack := b \<rparr>"
    using d(1) Cons.prems by (simp add: rs_on_ack_def)
  moreover have "unat d \<le> m" if "unat (rs_deferred_ack s) \<le> m" "\<forall>c'. c' \<in> set (c # cs) \<longrightarrow> unat c' \<le> m" for m
    using d(2) that by (simp add: max_def)
  ultimately show ?case by blast
qed

definition frame_of :: "u64 \<Rightarrow> bytes list \<Rightarrow> nat \<Rightarrow> nat \<Rightarrow> reliable_frame \<times> bytes" where
  "frame_of h xs a i = (\<lparr> rf_sender = h, rf_seq = of_nat (Suc i), rf_base = of_nat (Suc a) \<rparr>, xs ! i)"

text \<open>A pump sends a run of the pending items from the oldest on, all of them when the window is 0.\<close>

lemma pump_loop_net:
  assumes "Suc (length xs) < 2 ^ 64" and "rs_in_pump s" and "rs_pending s = items_from a xs" and "a < length xs"
    and "a \<le> c" and "c \<le> length xs" and "length xs - c < fuel"
  shows "\<exists>m k d b. pump_loop fuel (net_sink cs) w n (of_nat (Suc c)) (out, s) =
      Some (m, out @ map (frame_of (rs_sender s) xs a) [c..<k], s\<lparr> rs_deferred_ack := d, rs_has_deferred_ack := b \<rparr>) \<and>
    c \<le> k \<and> k \<le> length xs \<and> (w = 0 \<longrightarrow> k = length xs) \<and>
    (\<forall>m. unat (rs_deferred_ack s) \<le> m \<longrightarrow> (\<forall>c. c \<in> set cs \<longrightarrow> unat c \<le> m) \<longrightarrow> unat d \<le> m)"
  using assms(2,3,5-7)
proof (induction fuel arbitrary: s c n out)
  case (Suc fuel)
  have triv: "out @ map g [c..<c] = out" "s = s\<lparr> rs_deferred_ack := rs_deferred_ack s, rs_has_deferred_ack := rs_has_deferred_ack s \<rparr>" for g by simp_all
  show ?case
  proof (cases "w \<noteq> 0 \<and> n = w")
    case True
    then have "pump_loop (Suc fuel) (net_sink cs) w n (of_nat (Suc c)) (out, s) = Some (n, out, s)" by simp
    then show ?thesis using triv True Suc.prems(4) by (metis order_refl)
  next
    case False
    note drop = cursor_items [OF assms(1) Suc.prems(3,4)]
    show ?thesis
    proof (cases "c < length xs")
      case less: True
      let ?f = "\<lparr> rf_sender = rs_sender s, rf_seq = of_nat (Suc c), rf_base = of_nat (Suc a) \<rparr>"
      obtain d b where s': "fold rs_on_ack cs s = s\<lparr> rs_deferred_ack := d, rs_has_deferred_ack := b \<rparr>"
        "\<forall>m. unat (rs_deferred_ack s) \<le> m \<longrightarrow> (\<forall>c. c \<in> set cs \<longrightarrow> unat c \<le> m) \<longrightarrow> unat d \<le> m"
        using fold_deferred_acks [OF Suc.prems(1)] by blast
      let ?s = "s\<lparr> rs_deferred_ack := d, rs_has_deferred_ack := b \<rparr>"
      have hd: "fst (hd (items_from a xs)) = of_nat (Suc a)" using assms(4) by (simp add: items_from_Cons)
      have q: "of_nat (Suc c) + 1 = (of_nat (Suc (Suc c)) :: u64)" by simp
      have step: "pump_loop (Suc fuel) (net_sink cs) w n (of_nat (Suc c)) (out, s) =
          pump_loop fuel (net_sink cs) w (Suc n) (of_nat (Suc (Suc c))) (out @ [(?f, xs ! c)], ?s)"
        unfolding pump_loop.simps if_not_P [OF False]
        by (simp only: Suc.prems(2) drop items_from_Cons [OF less] list.case prod.case q hd net_sink_def s'(1))
      obtain m k d' b' where r: "pump_loop fuel (net_sink cs) w (Suc n) (of_nat (Suc (Suc c))) (out @ [(?f, xs ! c)], ?s) =
          Some (m, (out @ [(?f, xs ! c)]) @ map (frame_of (rs_sender s) xs a) [Suc c..<k], s\<lparr> rs_deferred_ack := d', rs_has_deferred_ack := b' \<rparr>)"
        "Suc c \<le> k" "k \<le> length xs" "w = 0 \<longrightarrow> k = length xs"
        "\<forall>m. unat d \<le> m \<longrightarrow> (\<forall>c. c \<in> set cs \<longrightarrow> unat c \<le> m) \<longrightarrow> unat d' \<le> m"
      proof -
        have p: "rs_in_pump ?s" "rs_pending ?s = items_from a xs" "a \<le> Suc c" "Suc c \<le> length xs" "length xs - Suc c < fuel"
          using Suc.prems less by simp_all
        have e: "rs_sender ?s = rs_sender s" "?s\<lparr> rs_deferred_ack := d', rs_has_deferred_ack := b' \<rparr> =
            s\<lparr> rs_deferred_ack := d', rs_has_deferred_ack := b' \<rparr>" "rs_deferred_ack ?s = d" for d' b' by simp_all
        show thesis using Suc.IH [OF p, of "Suc n" "out @ [(?f, xs ! c)]"] that unfolding e by blast
      qed
      have "(out @ [(?f, xs ! c)]) @ map (frame_of (rs_sender s) xs a) [Suc c..<k] = out @ map (frame_of (rs_sender s) xs a) [c..<k]"
        using r(2) by (simp add: upt_conv_Cons frame_of_def)
      with r(1) step have "pump_loop (Suc fuel) (net_sink cs) w n (of_nat (Suc c)) (out, s) =
          Some (m, out @ map (frame_of (rs_sender s) xs a) [c..<k], s\<lparr> rs_deferred_ack := d', rs_has_deferred_ack := b' \<rparr>)" by simp
      moreover have "c \<le> k" using r(2) by simp
      ultimately show ?thesis using r(3-5) s'(2) by blast
    next
      case c: False
      then have "pump_loop (Suc fuel) (net_sink cs) w n (of_nat (Suc c)) (out, s) = Some (n, out, s)"
        unfolding pump_loop.simps if_not_P [OF False] Suc.prems(2) drop by simp
      moreover have "c = length xs" using c Suc.prems(4) by simp
      ultimately show ?thesis using triv by (metis order_refl)
    qed
  qed
qed simp

lemma pump_net:
  assumes "Suc (length xs) < 2 ^ 64" and "\<not> rs_in_pump s" and "\<not> rs_has_deferred_ack s" and "a \<le> length xs"
    and "rs_pending s = items_from a xs" and "unat (rs_deferred_ack s) \<le> d" and "\<forall>c. c \<in> set cs \<longrightarrow> unat c \<le> d" and "d \<le> length xs"
  shows "\<exists>m k s' a'. pump (Suc (length (rs_pending s))) (net_sink cs) w out s = Some (m, out @ map (frame_of (rs_sender s) xs a) [a..<k], s') \<and>
    k \<le> length xs \<and> (w = 0 \<longrightarrow> a < length xs \<longrightarrow> k = length xs) \<and> rs_sender s' = rs_sender s \<and> rs_next s' = rs_next s \<and> \<not> rs_in_pump s' \<and> \<not> rs_has_deferred_ack s' \<and>
    unat (rs_deferred_ack s') \<le> d \<and> a \<le> a' \<and> a' \<le> max a d \<and> rs_pending s' = items_from a' xs"
proof (cases "a < length xs")
  case False
  then have "pump (Suc (length (rs_pending s))) (net_sink cs) w out s = Some (0, out @ map (frame_of (rs_sender s) xs a) [a..<a], s)"
    using assms(5) by (simp add: pump_def)
  with False assms show ?thesis by (metis max.cobounded1 order_refl)
next
  case True
  let ?s = "s\<lparr> rs_in_pump := True \<rparr>"
  have p: "rs_in_pump ?s" "rs_pending ?s = items_from a xs" "length xs - a < Suc (length (rs_pending s))" using assms(5) by simp_all
  obtain m k x b where l: "pump_loop (Suc (length (rs_pending s))) (net_sink cs) w 0 (of_nat (Suc a)) (out, ?s) =
      Some (m, out @ map (frame_of (rs_sender s) xs a) [a..<k], ?s\<lparr> rs_deferred_ack := x, rs_has_deferred_ack := b \<rparr>)"
    "a \<le> k" "k \<le> length xs" "w = 0 \<longrightarrow> k = length xs" "unat x \<le> d"
  proof -
    have e: "rs_sender ?s = rs_sender s" "rs_deferred_ack ?s = rs_deferred_ack s" by simp_all
    show thesis
      using pump_loop_net [OF assms(1) p(1,2) True order_refl assms(4) p(3), of cs w 0 out] assms(6,7) that unfolding e by blast
  qed
  let ?t = "?s\<lparr> rs_deferred_ack := x, rs_has_deferred_ack := b \<rparr>"
  have hd: "fst (hd (rs_pending s)) = of_nat (Suc a)" "rs_pending s \<noteq> []" using True assms(5) by (simp_all add: items_from_Cons)
  have "pump (Suc (length (rs_pending s))) (net_sink cs) w out s =
      Some (m, out @ map (frame_of (rs_sender s) xs a) [a..<k], pump_scope_end True ?t)"
    unfolding pump_def if_not_P [OF hd(2)] Let_def hd(1) l(1) using assms(2) by simp
  moreover have "\<exists>a'. rs_sender (pump_scope_end True ?t) = rs_sender s \<and> rs_next (pump_scope_end True ?t) = rs_next s \<and>
      \<not> rs_in_pump (pump_scope_end True ?t) \<and> \<not> rs_has_deferred_ack (pump_scope_end True ?t) \<and>
      unat (rs_deferred_ack (pump_scope_end True ?t)) \<le> d \<and> a \<le> a' \<and> a' \<le> max a d \<and> rs_pending (pump_scope_end True ?t) = items_from a' xs"
  proof (cases b)
    case True
    have "unat x \<le> length xs" using l(5) assms(8) by simp
    from ack_items [OF assms(1,4) this] True l(5) show ?thesis
      by (intro exI [of _ "max a (unat x)"]) (simp add: pump_scope_end_def rs_on_ack_def assms(5) max_def)
  next
    case False
    with l(5) show ?thesis by (intro exI [of _ a]) (simp add: pump_scope_end_def assms(5))
  qed
  ultimately show ?thesis using l(3,4) by blast
qed

lemma link_invI:
  assumes "Suc (length (nt_sent x)) < 2 ^ 64" and "sender_ok h (nt_sent x) a (nt_sender x)"
    and "\<not> rs_in_pump (nt_sender x)" and "\<not> rs_has_deferred_ack (nt_sender x)"
    and "unat (rs_deferred_ack (nt_sender x)) \<le> length (nt_delivered x)"
    and "a \<le> length (nt_delivered x)" and "length (nt_delivered x) \<le> length (nt_sent x)"
    and "nt_delivered x = take (length (nt_delivered x)) (nt_sent x)"
    and "bm_cap (nt_receiver x) = 0"
    and "bm_find h (nt_receiver x) = (if nt_delivered x = [] then None else Some (of_nat (length (nt_delivered x))))"
    and "\<And>f body. (f, body) \<in> set (nt_frames x) \<Longrightarrow> frame_ok h (nt_sent x) a f body"
    and "\<And>c. c \<in> set (nt_acks x) \<Longrightarrow> unat c \<le> length (nt_delivered x)"
  shows "link_inv h x"
  unfolding link_inv_def Let_def using assms by (intro exI [of _ a] conjI) auto

lemma link_invD:
  assumes "link_inv h x"
  obtains a where "Suc (length (nt_sent x)) < 2 ^ 64" and "sender_ok h (nt_sent x) a (nt_sender x)"
    and "\<not> rs_in_pump (nt_sender x)" and "\<not> rs_has_deferred_ack (nt_sender x)"
    and "unat (rs_deferred_ack (nt_sender x)) \<le> length (nt_delivered x)"
    and "a \<le> length (nt_delivered x)" and "length (nt_delivered x) \<le> length (nt_sent x)"
    and "nt_delivered x = take (length (nt_delivered x)) (nt_sent x)"
    and "bm_cap (nt_receiver x) = 0"
    and "bm_find h (nt_receiver x) = (if nt_delivered x = [] then None else Some (of_nat (length (nt_delivered x))))"
    and "\<And>f body. (f, body) \<in> set (nt_frames x) \<Longrightarrow> frame_ok h (nt_sent x) a f body"
    and "\<And>c. c \<in> set (nt_acks x) \<Longrightarrow> unat c \<le> length (nt_delivered x)"
  using assms unfolding link_inv_def Let_def by auto

lemma frame_ok_mono: "frame_ok h sent a f body \<Longrightarrow> a \<le> a' \<Longrightarrow> frame_ok h sent a' f body"
  unfolding frame_ok_def by (metis le_trans)

lemma frame_ok_snoc: "frame_ok h sent a f body \<Longrightarrow> frame_ok h (sent @ [b]) a f body"
  unfolding frame_ok_def by (auto simp: nth_append)

lemma frame_ok_frame_of: "a \<le> i \<Longrightarrow> i < length sent \<Longrightarrow> frame_ok h sent a (fst (frame_of h sent a i)) (snd (frame_of h sent a i))"
  by (auto simp: frame_ok_def frame_of_def)

lemma link_inv_start: "link_inv h (net_start h)"
  by (rule link_invI [of _ _ 0])
     (simp_all add: net_start_def sender_ok_def rs_create_def rr_create_def bm_set_cap_def bm_trim_def bm_empty_def bm_find_def)

lemma link_inv_enqueue:
  assumes "link_inv h x" and "Suc (Suc (length (nt_sent x))) < 2 ^ 64"
  shows "link_inv h (net_step (NetEnqueue body) x)"
  using assms(1)
proof (rule link_invD)
  fix a
  assume i: "sender_ok h (nt_sent x) a (nt_sender x)" "\<not> rs_in_pump (nt_sender x)" "\<not> rs_has_deferred_ack (nt_sender x)"
    "unat (rs_deferred_ack (nt_sender x)) \<le> length (nt_delivered x)" "a \<le> length (nt_delivered x)"
    "length (nt_delivered x) \<le> length (nt_sent x)" "nt_delivered x = take (length (nt_delivered x)) (nt_sent x)"
    "bm_cap (nt_receiver x) = 0"
    "bm_find h (nt_receiver x) = (if nt_delivered x = [] then None else Some (of_nat (length (nt_delivered x))))"
    "\<And>f body. (f, body) \<in> set (nt_frames x) \<Longrightarrow> frame_ok h (nt_sent x) a f body"
    "\<And>c. c \<in> set (nt_acks x) \<Longrightarrow> unat c \<le> length (nt_delivered x)"
  have "sender_ok h (nt_sent x @ [body]) a (snd (rs_enqueue body (nt_sender x)))"
    using i(1) by (simp add: sender_ok_def rs_enqueue_def items_from_snoc)
  with i assms(2) show ?thesis by (intro link_invI [of _ _ a]) (auto simp: rs_enqueue_def frame_ok_snoc)
qed

lemma link_inv_pump:
  assumes "link_inv h x"
  shows "link_inv h (net_step (NetPump w cs) x)"
  using assms
proof (rule link_invD)
  fix a
  assume i: "Suc (length (nt_sent x)) < 2 ^ 64" "sender_ok h (nt_sent x) a (nt_sender x)" "\<not> rs_in_pump (nt_sender x)" "\<not> rs_has_deferred_ack (nt_sender x)"
    "unat (rs_deferred_ack (nt_sender x)) \<le> length (nt_delivered x)" "a \<le> length (nt_delivered x)"
    "length (nt_delivered x) \<le> length (nt_sent x)" "nt_delivered x = take (length (nt_delivered x)) (nt_sent x)"
    "bm_cap (nt_receiver x) = 0"
    "bm_find h (nt_receiver x) = (if nt_delivered x = [] then None else Some (of_nat (length (nt_delivered x))))"
    "\<And>f body. (f, body) \<in> set (nt_frames x) \<Longrightarrow> frame_ok h (nt_sent x) a f body"
    "\<And>c. c \<in> set (nt_acks x) \<Longrightarrow> unat c \<le> length (nt_delivered x)"
  let ?cs = "filter (\<lambda>c. c \<in> set (nt_acks x)) cs" and ?s = "nt_sender x"
  have cs: "\<forall>c. c \<in> set ?cs \<longrightarrow> unat c \<le> length (nt_delivered x)" using i(12) by simp
  have s: "a \<le> length (nt_sent x)" "rs_pending ?s = items_from a (nt_sent x)" "rs_sender ?s = h"
    "rs_next ?s = of_nat (Suc (length (nt_sent x)))" using i(2) by (simp_all add: sender_ok_def)
  obtain m k s' a' where p: "pump (Suc (length (rs_pending ?s))) (net_sink ?cs) w (nt_frames x) ?s =
      Some (m, nt_frames x @ map (frame_of h (nt_sent x) a) [a..<k], s')" "k \<le> length (nt_sent x)"
    "rs_sender s' = h" "rs_next s' = rs_next ?s" "\<not> rs_in_pump s'" "\<not> rs_has_deferred_ack s'"
    "unat (rs_deferred_ack s') \<le> length (nt_delivered x)" "a \<le> a'" "a' \<le> max a (length (nt_delivered x))" "rs_pending s' = items_from a' (nt_sent x)"
    using pump_net [OF i(1,3,4) s(1,2) i(5) cs i(7), of w "nt_frames x"] s(3) by blast
  have step: "net_step (NetPump w cs) x = x\<lparr> nt_sender := s', nt_frames := nt_frames x @ map (frame_of h (nt_sent x) a) [a..<k] \<rparr>"
    unfolding net_step.simps p(1) by simp
  have a': "a' \<le> length (nt_delivered x)" using p(9) i(6) by simp
  then have "sender_ok h (nt_sent x) a' s'" using p s i(7) by (simp add: sender_ok_def)
  moreover have "frame_ok h (nt_sent x) a' f body" if "(f, body) \<in> set (nt_frames x @ map (frame_of h (nt_sent x) a) [a..<k])" for f body
  proof -
    have "frame_ok h (nt_sent x) a f body"
      using that
    proof (auto dest: i(11))
      fix j
      assume "(f, body) = frame_of h (nt_sent x) a j" "a \<le> j" "j < k"
      then show "frame_ok h (nt_sent x) a f body" using frame_ok_frame_of [of a j "nt_sent x" h] p(2) by (metis fst_conv order_less_le_trans snd_conv)
    qed
    then show ?thesis by (rule frame_ok_mono [OF _ p(8)])
  qed
  ultimately show ?thesis
    unfolding step using i p a' by (intro link_invI [of _ _ a']) auto
qed

lemma link_inv_ack:
  assumes "link_inv h x"
  shows "link_inv h (net_step (NetAck j) x)"
  using assms
proof (rule link_invD)
  fix a
  assume i: "Suc (length (nt_sent x)) < 2 ^ 64" "sender_ok h (nt_sent x) a (nt_sender x)" "\<not> rs_in_pump (nt_sender x)" "\<not> rs_has_deferred_ack (nt_sender x)"
    "unat (rs_deferred_ack (nt_sender x)) \<le> length (nt_delivered x)" "a \<le> length (nt_delivered x)"
    "length (nt_delivered x) \<le> length (nt_sent x)" "nt_delivered x = take (length (nt_delivered x)) (nt_sent x)"
    "bm_cap (nt_receiver x) = 0"
    "bm_find h (nt_receiver x) = (if nt_delivered x = [] then None else Some (of_nat (length (nt_delivered x))))"
    "\<And>f body. (f, body) \<in> set (nt_frames x) \<Longrightarrow> frame_ok h (nt_sent x) a f body"
    "\<And>c. c \<in> set (nt_acks x) \<Longrightarrow> unat c \<le> length (nt_delivered x)"
  show ?thesis
  proof (cases "j < length (nt_acks x)")
    case True
    let ?c = "nt_acks x ! j"
    have c: "unat ?c \<le> length (nt_delivered x)" using True i(12) by simp
    have "a \<le> length (nt_sent x)" "unat ?c \<le> length (nt_sent x)" using i(6,7) c by simp_all
    from ack_items [OF i(1) this] have "sender_ok h (nt_sent x) (max a (unat ?c)) (rs_on_ack ?c (nt_sender x))"
      using i(2,3,7) c by (simp add: sender_ok_def rs_on_ack_def)
    moreover have "frame_ok h (nt_sent x) (max a (unat ?c)) f body" if "(f, body) \<in> set (nt_frames x)" for f body
      by (rule frame_ok_mono [OF i(11) [OF that]]) simp
    ultimately show ?thesis using i c True by (intro link_invI [of _ _ "max a (unat ?c)"]) (auto simp: rs_on_ack_def)
  next
    case False
    with assms show ?thesis by simp
  qed
qed

lemma link_inv_other:
  assumes "link_inv h x"
  shows "link_inv h (net_step (NetOther f) x)"
  using assms
proof (rule link_invD)
  fix a
  assume i: "Suc (length (nt_sent x)) < 2 ^ 64" "sender_ok h (nt_sent x) a (nt_sender x)" "\<not> rs_in_pump (nt_sender x)" "\<not> rs_has_deferred_ack (nt_sender x)"
    "unat (rs_deferred_ack (nt_sender x)) \<le> length (nt_delivered x)" "a \<le> length (nt_delivered x)"
    "length (nt_delivered x) \<le> length (nt_sent x)" "nt_delivered x = take (length (nt_delivered x)) (nt_sent x)"
    "bm_cap (nt_receiver x) = 0"
    "bm_find h (nt_receiver x) = (if nt_delivered x = [] then None else Some (of_nat (length (nt_delivered x))))"
    "\<And>f body. (f, body) \<in> set (nt_frames x) \<Longrightarrow> frame_ok h (nt_sent x) a f body"
    "\<And>c. c \<in> set (nt_acks x) \<Longrightarrow> unat c \<le> length (nt_delivered x)"
  show ?thesis
  proof (cases "rf_sender f = rs_sender (nt_sender x)")
    case True
    with assms show ?thesis by simp
  next
    case False
    then have h: "h \<noteq> rf_sender f" using i(2) by (auto simp: sender_ok_def)
    have "bm_find h (snd (rr_accept f (nt_receiver x))) = bm_find h (nt_receiver x)"
      "bm_cap (snd (rr_accept f (nt_receiver x))) = 0"
      using bm_find_touch_other [OF i(9) h] i(9) by (auto simp: rr_accept_def split: option.split)
    with i False show ?thesis by (intro link_invI [of _ _ a]) auto
  qed
qed

text \<open>The frame the receiver lets through is the next one, whatever the network hands it.\<close>

lemma accept_next:
  assumes "Suc (length sent) < 2 ^ 64" and "a \<le> d" and "d \<le> length sent" and "frame_ok h sent a f body" and "bm_cap r = 0"
    and "bm_find h r = (if d = 0 then None else Some (of_nat d))"
  shows "case rr_accept f r of (v, r') \<Rightarrow> bm_cap r' = 0 \<and>
    (if v = Deliver then rf_seq f = of_nat (Suc d) \<and> d < length sent \<and> body = sent ! d \<and> bm_find h r' = Some (of_nat (Suc d)) else r' = r) \<and>
    (v = Deliver \<longleftrightarrow> rf_seq f = of_nat (Suc d))"
proof -
  obtain i b where f: "rf_sender f = h" "i < length sent" "b \<le> a" "b \<le> i" "rf_seq f = of_nat (Suc i)"
    "rf_base f = of_nat (Suc b)" "body = sent ! i" using assms(4) unfolding frame_ok_def by blast
  have eq: "(of_nat (Suc i) :: u64) = of_nat (Suc j) \<longleftrightarrow> i = j" if "j \<le> length sent" for j
    using u64_less_of_nat(3) [of "Suc i" "Suc j"] f(2) assms(1) that by simp
  have touch: "bm_find h (bm_touch h 0 (\<lambda>_. x) r) = Some x" for x by (simp add: bm_find_touch_same)
  show ?thesis
  proof (cases "d = 0")
    case True
    then have "b = 0" using f(3) assms(2) by simp
    with True f assms(5,6) eq [of 0] touch show ?thesis by (auto simp: rr_accept_def)
  next
    case False
    have "(of_nat (Suc i) :: u64) \<le> of_nat d \<longleftrightarrow> Suc i \<le> d"
      using u64_less_of_nat(2) [of "Suc i" d] f(2) assms(1,3) by simp
    moreover have "of_nat d + 1 = (of_nat (Suc d) :: u64)" by simp
    ultimately show ?thesis
      using False f assms(3,5,6) eq [OF assms(3)] touch by (auto simp: rr_accept_def simp del: of_nat_Suc)
  qed
qed

lemma link_inv_frame:
  assumes "link_inv h x"
  shows "link_inv h (net_step (NetFrame j) x)"
  using assms
proof (rule link_invD)
  fix a
  assume i: "Suc (length (nt_sent x)) < 2 ^ 64" "sender_ok h (nt_sent x) a (nt_sender x)" "\<not> rs_in_pump (nt_sender x)" "\<not> rs_has_deferred_ack (nt_sender x)"
    "unat (rs_deferred_ack (nt_sender x)) \<le> length (nt_delivered x)" "a \<le> length (nt_delivered x)"
    "length (nt_delivered x) \<le> length (nt_sent x)" "nt_delivered x = take (length (nt_delivered x)) (nt_sent x)"
    "bm_cap (nt_receiver x) = 0"
    "bm_find h (nt_receiver x) = (if nt_delivered x = [] then None else Some (of_nat (length (nt_delivered x))))"
    "\<And>f body. (f, body) \<in> set (nt_frames x) \<Longrightarrow> frame_ok h (nt_sent x) a f body"
    "\<And>c. c \<in> set (nt_acks x) \<Longrightarrow> unat c \<le> length (nt_delivered x)"
  show ?thesis
  proof (cases "j < length (nt_frames x)")
    case True
    let ?d = "length (nt_delivered x)"
    obtain f body where f: "nt_frames x ! j = (f, body)" by (rule prod.exhaust)
    obtain v r where r: "rr_accept f (nt_receiver x) = (v, r)" by (rule prod.exhaust)
    have ok: "frame_ok h (nt_sent x) a f body" using i(11) True f by (metis nth_mem)
    have find: "bm_find h (nt_receiver x) = (if ?d = 0 then None else Some (of_nat ?d))" using i(10) by simp
    note A = accept_next [OF i(1,6,7) ok i(9) find, unfolded r prod.case]
    have hs: "rf_sender f = h" using ok by (simp add: frame_ok_def)
    show ?thesis
    proof (cases "v = Deliver")
      case v: True
      then have d: "?d < length (nt_sent x)" "body = nt_sent x ! ?d" "bm_find h r = Some (of_nat (Suc ?d))" "bm_cap r = 0" using A by auto
      have u: "unat (of_nat (Suc ?d) :: u64) = Suc ?d" using d(1) i(1) by (simp add: unat_of_nat del: of_nat_Suc)
      have t: "nt_delivered x @ [body] = take (Suc ?d) (nt_sent x)"
        using d(1,2) i(8) take_Suc_conv_app_nth [of ?d "nt_sent x"] by simp
      have step: "net_step (NetFrame j) x = x\<lparr> nt_receiver := r, nt_acks := nt_acks x @ [of_nat (Suc ?d)], nt_delivered := nt_delivered x @ [body] \<rparr>"
        using True v by (simp add: f r hs rr_ack_for_def d(3) del: of_nat_Suc)
      show ?thesis
        unfolding step using i d(1,3,4) t u by (intro link_invI [of _ _ a]) (auto simp del: of_nat_Suc simp: le_SucI)
    next
      case v: False
      then have rr: "r = nt_receiver x" using A by simp
      have "unat (rr_ack_for h (nt_receiver x)) \<le> ?d" using i(1,7) find by (simp add: rr_ack_for_def unat_of_nat)
      with True v i hs show ?thesis by (intro link_invI [of _ _ a]) (auto simp: f r rr)
    qed
  next
    case False
    with assms show ?thesis by simp
  qed
qed

lemma net_sent_step: "length (nt_sent (net_step op x)) = length (nt_sent x) + (case op of NetEnqueue _ \<Rightarrow> 1 | _ \<Rightarrow> 0)"
  by (cases op) (auto simp: Let_def split: option.split prod.split)

lemma link_inv_run:
  assumes "link_inv h x" and "Suc (length (nt_sent x) + enqueues ops) < 2 ^ 64"
  shows "link_inv h (net_run ops x)"
  using assms
proof (induction ops arbitrary: x)
  case (Cons op ops)
  have "link_inv h (net_step op x)"
  proof (cases op)
    case (NetEnqueue body)
    then show ?thesis using link_inv_enqueue [OF Cons.prems(1)] Cons.prems(2) by (simp add: enqueues_def)
  qed (use link_inv_pump link_inv_frame link_inv_ack link_inv_other Cons.prems(1) in simp_all)
  moreover have "Suc (length (nt_sent (net_step op x)) + enqueues ops) < 2 ^ 64"
    using Cons.prems(2) net_sent_step [of op x] by (cases op) (simp_all add: enqueues_def)
  ultimately have "link_inv h (net_run ops (net_step op x))" by (rule Cons.IH)
  then show ?case by (simp add: net_run_def)
qed (simp add: net_run_def)

section \<open>Properties\<close>

lemma net_step_frame_keeps: "nt_sent (net_step (NetFrame j) x) = nt_sent x" "nt_frames (net_step (NetFrame j) x) = nt_frames x"
  "nt_sender (net_step (NetFrame j) x) = nt_sender x"
  by (simp_all add: Let_def split: prod.split)

lemma net_run_frames_keep: "nt_sent (net_run (map NetFrame js) x) = nt_sent x" "nt_frames (net_run (map NetFrame js) x) = nt_frames x"
  "nt_sender (net_run (map NetFrame js) x) = nt_sender x"
  by (induction js rule: rev_induct) (simp_all only: net_run_def map_append foldl_append list.map foldl.simps net_step_frame_keeps)

lemma link_inv_frames: "link_inv h x \<Longrightarrow> link_inv h (net_run (map NetFrame js) x)"
  by (induction js arbitrary: x) (simp_all add: net_run_def link_inv_frame del: net_step.simps)

lemma frame_delivered:
  assumes "link_inv h x" and "j < length (nt_frames x)" and "nt_frames x ! j = frame_of h (nt_sent x) b i" and "i \<le> length (nt_delivered x)"
    and "i < length (nt_sent x)"
  shows "Suc i \<le> length (nt_delivered (net_step (NetFrame j) x))"
  using assms(1)
proof (rule link_invD)
  fix a
  assume i: "Suc (length (nt_sent x)) < 2 ^ 64" "a \<le> length (nt_delivered x)" "length (nt_delivered x) \<le> length (nt_sent x)" "bm_cap (nt_receiver x) = 0"
    "bm_find h (nt_receiver x) = (if nt_delivered x = [] then None else Some (of_nat (length (nt_delivered x))))"
    "\<And>f body. (f, body) \<in> set (nt_frames x) \<Longrightarrow> frame_ok h (nt_sent x) a f body"
  obtain f body where f: "nt_frames x ! j = (f, body)" by (rule prod.exhaust)
  obtain v r where r: "rr_accept f (nt_receiver x) = (v, r)" by (rule prod.exhaust)
  have ok: "frame_ok h (nt_sent x) a f body" using i(6) assms(2) f by (metis nth_mem)
  have "bm_find h (nt_receiver x) = (if length (nt_delivered x) = 0 then None else Some (of_nat (length (nt_delivered x))))" using i(5) by simp
  note A = accept_next [OF i(1-3) ok i(4) this, unfolded r prod.case]
  have "rf_seq f = of_nat (Suc i)" using f assms(3) by (auto simp: frame_of_def)
  then have "v = Deliver" if "i = length (nt_delivered x)" using A that by simp
  with assms(2,4) f r show ?thesis by (cases "i = length (nt_delivered x)") (auto simp: Let_def)
qed

lemma frames_delivered:
  assumes "link_inv h x" and "a \<le> length (nt_delivered x)" and "a + m \<le> length (nt_sent x)"
    and "\<And>j. j < m \<Longrightarrow> p + j < length (nt_frames x) \<and> nt_frames x ! (p + j) = frame_of h (nt_sent x) a (a + j)"
  shows "a + m \<le> length (nt_delivered (net_run (map NetFrame [p..<p + m]) x))"
  using assms(3,4)
proof (induction m)
  case 0
  then show ?case using assms(2) by (simp add: net_run_def)
next
  case (Suc m)
  let ?y = "net_run (map NetFrame [p..<p + m]) x"
  have y: "link_inv h ?y" "nt_frames ?y = nt_frames x" "nt_sent ?y = nt_sent x"
    using assms(1) link_inv_frames net_run_frames_keep by blast+
  have "a + m \<le> length (nt_delivered ?y)" using Suc by auto
  moreover have "net_run (map NetFrame [p..<p + Suc m]) x = net_step (NetFrame (p + m)) ?y" by (simp add: net_run_def)
  ultimately show ?case
    using frame_delivered [OF y(1), of "p + m" a "a + m"] Suc.prems(1) Suc.prems(2) [of m] y(2,3) by simp
qed

text \<open>
  Property C2.  Go-back-N is exactly once and in order over a network that loses, repeats and reorders: what the
  receiver let through is always a prefix of what was enqueued, and everything beyond what was let through is
  still pending at the sender, whatever acknowledgements arrive, inside a pump or outside.
\<close>

theorem reliable_exactly_once:
  assumes "enqueues ops < 2 ^ 64 - 1"
  shows "(let x = net_run ops (net_start h); d = length (nt_delivered x) in
    nt_delivered x = take d (nt_sent x) \<and> d \<le> length (nt_sent x) \<and>
    (\<exists>a. a \<le> d \<and> map snd (rs_pending (nt_sender x)) = drop a (nt_sent x)))"
proof -
  let ?x = "net_run ops (net_start h)"
  have "Suc (length (nt_sent (net_start h)) + enqueues ops) < 2 ^ 64" using assms by (simp add: net_start_def)
  from link_inv_run [OF link_inv_start this] have "link_inv h ?x" .
  then show ?thesis
  proof (rule link_invD)
    fix a
    assume i: "sender_ok h (nt_sent ?x) a (nt_sender ?x)" "a \<le> length (nt_delivered ?x)" "length (nt_delivered ?x) \<le> length (nt_sent ?x)"
      "nt_delivered ?x = take (length (nt_delivered ?x)) (nt_sent ?x)"
    have "map snd (items_from a xs) = drop a xs" for xs
      by (rule nth_equalityI) (simp_all add: items_from_def)
    with i show ?thesis unfolding Let_def sender_ok_def by metis
  qed
qed

theorem reliable_exactly_once_witness:
  "let x = net_run [NetEnqueue [1], NetEnqueue [2], NetPump 0 [], NetFrame 1, NetFrame 0, NetFrame 0, NetAck 1, NetEnqueue [3],
      NetPump 1 [0], NetOther \<lparr> rf_sender = 8, rf_seq = 4, rf_base = 4 \<rparr>, NetFrame 2, NetFrame 2] (net_start 7);
       d = length (nt_delivered x) in
    nt_delivered x = take d (nt_sent x) \<and> d \<le> length (nt_sent x) \<and>
    (\<exists>a. a \<le> d \<and> map snd (rs_pending (nt_sender x)) = drop a (nt_sent x))"
  by (rule reliable_exactly_once) (simp add: enqueues_def)

text \<open>
  It makes progress: from any reachable state one full pump whose frames arrive in order gets
  everything enqueued so far delivered, and the last acknowledgement then empties the sender.
\<close>

theorem reliable_progress:
  assumes "enqueues ops < 2 ^ 64 - 1"
  shows "(let x = net_run ops (net_start h); y = net_step (NetPump 0 []) x;
       z = net_run (map NetFrame [length (nt_frames x)..<length (nt_frames y)]) y in
    nt_delivered z = nt_sent x \<and>
    rs_pending (rs_on_ack (rr_ack_for h (nt_receiver z)) (nt_sender z)) = [])"
proof -
  define x where "x = net_run ops (net_start h)"
  define y where "y = net_step (NetPump 0 []) x"
  define z where "z = net_run (map NetFrame [length (nt_frames x)..<length (nt_frames y)]) y"
  have "Suc (length (nt_sent (net_start h)) + enqueues ops) < 2 ^ 64" using assms by (simp add: net_start_def)
  from link_inv_run [OF link_inv_start this] have x: "link_inv h x" by (simp add: x_def)
  then obtain a where i: "Suc (length (nt_sent x)) < 2 ^ 64" "sender_ok h (nt_sent x) a (nt_sender x)"
    "\<not> rs_in_pump (nt_sender x)" "\<not> rs_has_deferred_ack (nt_sender x)"
    "unat (rs_deferred_ack (nt_sender x)) \<le> length (nt_delivered x)" "a \<le> length (nt_delivered x)"
    "length (nt_delivered x) \<le> length (nt_sent x)" by (rule link_invD)
  have s: "a \<le> length (nt_sent x)" "rs_pending (nt_sender x) = items_from a (nt_sent x)" "rs_sender (nt_sender x) = h"
    using i(2) by (simp_all add: sender_ok_def)
  obtain m k s' where p: "pump (Suc (length (rs_pending (nt_sender x)))) (net_sink []) 0 (nt_frames x) (nt_sender x) =
      Some (m, nt_frames x @ map (frame_of h (nt_sent x) a) [a..<k], s')" "k \<le> length (nt_sent x)"
    "a < length (nt_sent x) \<longrightarrow> k = length (nt_sent x)"
    using pump_net [OF i(1,3,4) s(1,2) i(5) _ i(7), of "[]" 0 "nt_frames x"] s(3) by auto
  have y': "nt_frames y = nt_frames x @ map (frame_of h (nt_sent x) a) [a..<k]" "nt_sent y = nt_sent x" "nt_delivered y = nt_delivered x"
    unfolding y_def by (simp_all add: p(1))
  have yi: "link_inv h y" unfolding y_def by (rule link_inv_pump [OF x])
  have zi: "link_inv h z" "nt_sent z = nt_sent x" unfolding z_def using link_inv_frames [OF yi] net_run_frames_keep y'(2) by auto
  have "length (nt_sent x) \<le> length (nt_delivered z)"
  proof (cases "a < length (nt_sent x)")
    case True
    with p have k: "k = length (nt_sent x)" by simp
    have "a + (k - a) \<le> length (nt_delivered (net_run (map NetFrame [length (nt_frames x)..<length (nt_frames x) + (k - a)]) y))"
      using True k i(6) y' by (intro frames_delivered [OF yi, of a]) (auto simp: nth_append)
    with True k y' show ?thesis by (simp add: z_def)
  next
    case False
    then have "k \<le> a" using p(2) s(1) by simp
    with False i(6) y' show ?thesis by (simp add: z_def net_run_def)
  qed
  with zi show ?thesis
  proof (elim link_invD)
    fix c
    assume c: "length (nt_sent x) \<le> length (nt_delivered z)" "nt_sent z = nt_sent x" "Suc (length (nt_sent z)) < 2 ^ 64"
      "sender_ok h (nt_sent z) c (nt_sender z)" "\<not> rs_in_pump (nt_sender z)" "c \<le> length (nt_delivered z)" "length (nt_delivered z) \<le> length (nt_sent z)"
      "nt_delivered z = take (length (nt_delivered z)) (nt_sent z)"
      "bm_find h (nt_receiver z) = (if nt_delivered z = [] then None else Some (of_nat (length (nt_delivered z))))"
    then have d: "nt_delivered z = nt_sent x" by simp
    have "unat (rr_ack_for h (nt_receiver z)) = length (nt_sent z)"
      using c(2,3,9) d by (auto simp: rr_ack_for_def unat_of_nat)
    with ack_items [OF c(3), of c "rr_ack_for h (nt_receiver z)"] c(4-7)
    have "rs_pending (rs_on_ack (rr_ack_for h (nt_receiver z)) (nt_sender z)) = []"
      by (simp add: rs_on_ack_def sender_ok_def max_def)
    with d show ?thesis unfolding Let_def x_def [symmetric] y_def [symmetric] z_def [symmetric] by blast
  qed
qed

theorem reliable_progress_witness:
  "let x = net_run [NetEnqueue [1], NetEnqueue [2], NetPump 0 []] (net_start 7); y = net_step (NetPump 0 []) x;
       z = net_run (map NetFrame [length (nt_frames x)..<length (nt_frames y)]) y in
    nt_delivered z = nt_sent x \<and>
    rs_pending (rs_on_ack (rr_ack_for 7 (nt_receiver z)) (nt_sender z)) = []"
  by (rule reliable_progress) (simp add: enqueues_def)

end
