(* ===== verification/Effectively_Once.thy ===== *)
theory Effectively_Once
  imports Durable Reliable_Delivery
begin

text \<open>
  The effectively-once lane of \<open>include/quark/core/delivery.hpp\<close>: deterministic outbound identities, the commit
  of one inbound message (its events, the watermark, the outbox and the reply in one fenced batch), the
  dispatch of the outbox and the recovery of the mirrors from the log.  The four records of the mechanism are
  described values (\<open>Durable\<close>), the log is a store (\<open>Store\<close>), the mirrors are bounded maps
  (\<open>Reliable_Delivery\<close>).  A sink and the callback of the recovery are functions on a state of their own.
\<close>

section \<open>Identities\<close>

record msg_key =
  mk_sender :: u64
  mk_seq :: u64

definition outbound_derivation_stride :: u64 where
  "outbound_derivation_stride = push_bit 20 1"

definition derive_outbound :: "u64 \<Rightarrow> msg_key \<Rightarrow> u32 \<Rightarrow> msg_key" where
  "derive_outbound self_hash inbound index =
     \<lparr> mk_sender = self_hash, mk_seq = mk_seq inbound * outbound_derivation_stride + ucast index + 1 \<rparr>"

section \<open>The durable records of the mechanism\<close>

definition watermark_type :: durable_type where
  "watermark_type = \<lparr> dt_salt = Some 0x51574D5231, dt_fields = [(1, MInt 64 False), (2, MInt 64 False)],
     dt_version = 1, dt_default = [VInt 0, VInt 0] \<rparr>"

definition watermark_values :: "u64 \<Rightarrow> u64 \<Rightarrow> mval list" where
  "watermark_values sender sq = [VInt (uint sender), VInt (uint sq)]"

record outbox_record =
  ob_target_type :: u64
  ob_target_key :: u64
  ob_sender :: u64
  ob_seq :: u64
  ob_body :: bytes

definition outbox_type :: durable_type where
  "outbox_type = \<lparr> dt_salt = Some 0x51574F5231,
     dt_fields = [(1, MInt 64 False), (2, MInt 64 False), (3, MInt 64 False), (4, MInt 64 False), (5, MString)],
     dt_version = 1, dt_default = [VInt 0, VInt 0, VInt 0, VInt 0, VStr []] \<rparr>"

definition outbox_values :: "outbox_record \<Rightarrow> mval list" where
  "outbox_values o' = [VInt (uint (ob_target_type o')), VInt (uint (ob_target_key o')), VInt (uint (ob_sender o')),
     VInt (uint (ob_seq o')), VStr (ob_body o')]"

record reply_record =
  rp_reply_to :: u64
  rp_in_seq :: u64
  rp_body :: bytes

definition reply_type :: durable_type where
  "reply_type = \<lparr> dt_salt = Some 0x5157525031, dt_fields = [(1, MInt 64 False), (2, MInt 64 False), (3, MString)],
     dt_version = 1, dt_default = [VInt 0, VInt 0, VStr []] \<rparr>"

definition reply_values :: "reply_record \<Rightarrow> mval list" where
  "reply_values r = [VInt (uint (rp_reply_to r)), VInt (uint (rp_in_seq r)), VStr (rp_body r)]"

definition delivered_type :: durable_type where
  "delivered_type = \<lparr> dt_salt = Some 0x5157444C31, dt_fields = [(1, MInt 64 False), (2, MInt 64 False)],
     dt_version = 1, dt_default = [VInt 0, VInt 0] \<rparr>"

text \<open>Reading the members of a decoded record.\<close>

definition word_at :: "nat \<Rightarrow> mval list \<Rightarrow> u64" where
  "word_at i vs = (case vs ! i of VInt n \<Rightarrow> of_int n | _ \<Rightarrow> 0)"

definition blob_at :: "nat \<Rightarrow> mval list \<Rightarrow> bytes" where
  "blob_at i vs = (case vs ! i of VStr b \<Rightarrow> b | _ \<Rightarrow> [])"

definition outbox_of :: "mval list \<Rightarrow> outbox_record" where
  "outbox_of vs = \<lparr> ob_target_type = word_at 0 vs, ob_target_key = word_at 1 vs, ob_sender = word_at 2 vs,
     ob_seq = word_at 3 vs, ob_body = blob_at 4 vs \<rparr>"

text \<open>None of the four types has a vector, so there are no elements to initialise.\<close>

definition no_elems :: "mtype \<Rightarrow> mval" where
  "no_elems t = VObj []"

section \<open>The lane\<close>

record cached_reply =
  cr_in_seq :: u64
  cr_body :: bytes

record lane =
  ln_self :: actor_id
  ln_self_hash :: u64
  ln_fence :: fence_token
  ln_next_seq :: u64
  ln_watermark :: "u64 bounded_map"
  ln_reply_cache :: "cached_reply bounded_map"
  ln_outbox :: "outbox_record list"

definition lane_create :: "actor_id \<Rightarrow> fence_token \<Rightarrow> u64 \<Rightarrow> lane" where
  "lane_create self fence next_seq =
     \<lparr> ln_self = self, ln_self_hash = actor_hash self, ln_fence = fence, ln_next_seq = next_seq,
       ln_watermark = bm_empty, ln_reply_cache = bm_empty, ln_outbox = [] \<rparr>"

definition set_limits :: "nat \<Rightarrow> nat \<Rightarrow> lane \<Rightarrow> lane" where
  "set_limits watermark_cap reply_cache_cap l =
     l\<lparr> ln_watermark := bm_set_cap watermark_cap (ln_watermark l),
        ln_reply_cache := bm_set_cap reply_cache_cap (ln_reply_cache l) \<rparr>"

definition is_duplicate :: "u64 \<Rightarrow> u64 \<Rightarrow> lane \<Rightarrow> bool" where
  "is_duplicate sender in_seq l = (case bm_find sender (ln_watermark l) of None \<Rightarrow> False | Some w \<Rightarrow> in_seq \<le> w)"

definition watermark_of :: "u64 \<Rightarrow> lane \<Rightarrow> u64" where
  "watermark_of sender l = (case bm_find sender (ln_watermark l) of None \<Rightarrow> 0 | Some w \<Rightarrow> w)"

definition lane_cached_reply :: "u64 \<Rightarrow> lane \<Rightarrow> cached_reply option" where
  "lane_cached_reply sender l = bm_find sender (ln_reply_cache l)"

definition decode_reply :: "(mtype \<Rightarrow> mval) \<Rightarrow> durable_type \<Rightarrow> cached_reply \<Rightarrow> mval list result" where
  "decode_reply mk T c = decode_durable mk T (cr_body c)"

section \<open>One commit\<close>

record commit =
  cm_inbound :: msg_key
  cm_out_index :: u32
  cm_events :: "bytes list"
  cm_outbox :: "outbox_record list"
  cm_reply :: "reply_record option"

definition lane_begin :: "msg_key \<Rightarrow> commit" where
  "lane_begin inbound = \<lparr> cm_inbound = inbound, cm_out_index = 0, cm_events = [], cm_outbox = [], cm_reply = None \<rparr>"

definition commit_event :: "durable_type \<Rightarrow> mval list \<Rightarrow> commit \<Rightarrow> unit result \<times> commit" where
  "commit_event T ev c =
     (case encode_durable T ev of
        Inl er \<Rightarrow> (Inl er, c)
      | Inr bs \<Rightarrow> (Inr (), c\<lparr> cm_events := cm_events c @ [bs] \<rparr>))"

definition commit_send :: "lane \<Rightarrow> actor_id \<Rightarrow> durable_type \<Rightarrow> mval list \<Rightarrow> commit \<Rightarrow> msg_key result \<times> commit" where
  "commit_send l target T msg c =
     (let oid = derive_outbound (ln_self_hash l) (cm_inbound c) (cm_out_index c);
          c = c\<lparr> cm_out_index := cm_out_index c + 1 \<rparr>
      in case encode_durable T msg of
           Inl er \<Rightarrow> (Inl er, c)
         | Inr bs \<Rightarrow>
             (Inr oid, c\<lparr> cm_outbox := cm_outbox c @
                [\<lparr> ob_target_type = aid_type target, ob_target_key = aid_key target, ob_sender = mk_sender oid,
                   ob_seq = mk_seq oid, ob_body = bs \<rparr>] \<rparr>))"

definition commit_reply :: "durable_type \<Rightarrow> mval list \<Rightarrow> commit \<Rightarrow> unit result \<times> commit" where
  "commit_reply T r c =
     (case encode_durable T r of
        Inl er \<Rightarrow> (Inl er, c)
      | Inr bs \<Rightarrow>
          (Inr (), c\<lparr> cm_reply := Some \<lparr> rp_reply_to = mk_sender (cm_inbound c), rp_in_seq = mk_seq (cm_inbound c), rp_body = bs \<rparr> \<rparr>))"

fun encode_all :: "durable_type \<Rightarrow> mval list list \<Rightarrow> bytes list result" where
  "encode_all T [] = Inr []"
| "encode_all T (v # vs) =
     (case encode_durable T v of
        Inl er \<Rightarrow> Inl er
      | Inr bs \<Rightarrow> (case encode_all T vs of Inl er \<Rightarrow> Inl er | Inr rest \<Rightarrow> Inr (bs # rest)))"

text \<open>\<open>EventRecord{seq++, bytes}\<close> for every record of the batch.\<close>

fun number_records :: "u64 \<Rightarrow> bytes list \<Rightarrow> event_record list" where
  "number_records q [] = []"
| "number_records q (b # bs) = \<lparr> ev_seq = q, ev_bytes = b \<rparr> # number_records (q + 1) bs"

definition commit_batch :: "commit \<Rightarrow> bytes list result" where
  "commit_batch c =
     (case encode_durable watermark_type (watermark_values (mk_sender (cm_inbound c)) (mk_seq (cm_inbound c))) of
        Inl er \<Rightarrow> Inl er
      | Inr wm \<Rightarrow>
          (case encode_all outbox_type (map outbox_values (cm_outbox c)) of
             Inl er \<Rightarrow> Inl er
           | Inr obs \<Rightarrow>
               (case (case cm_reply c of None \<Rightarrow> Inr [] | Some r \<Rightarrow> encode_all reply_type [reply_values r]) of
                  Inl er \<Rightarrow> Inl er
                | Inr rp \<Rightarrow> Inr (cm_events c @ [wm] @ obs @ rp))))"

record commit_result =
  cx_last_seq :: u64
  cx_record_count :: nat

definition advance_mark :: "u64 \<Rightarrow> u64 \<Rightarrow> u64" where
  "advance_mark sq wm = (if wm < sq then sq else wm)"

definition commit_commit :: "'s store_ops \<Rightarrow> commit \<Rightarrow> lane \<Rightarrow> 's \<Rightarrow> commit_result result \<times> lane \<times> 's" where
  "commit_commit st c l s =
     (case commit_batch c of
        Inl er \<Rightarrow> (Inl er, l, s)
      | Inr batch \<Rightarrow>
          (let sq = ln_next_seq l + of_nat (length batch); sender = mk_sender (cm_inbound c)
           in case so_append_batch st (ln_self l) (ln_fence l) (number_records (ln_next_seq l) batch) s of
                (Inl er, s') \<Rightarrow> (Inl er, l, s')
              | (Inr _, s') \<Rightarrow>
                  (Inr \<lparr> cx_last_seq = (if sq = 0 then 0 else sq - 1), cx_record_count = length batch \<rparr>,
                   l\<lparr> ln_next_seq := sq,
                      ln_watermark := bm_touch sender 0 (advance_mark (mk_seq (cm_inbound c))) (ln_watermark l),
                      ln_reply_cache :=
                        (case cm_reply c of
                           None \<Rightarrow> ln_reply_cache l
                         | Some r \<Rightarrow> bm_touch sender \<lparr> cr_in_seq = 0, cr_body = [] \<rparr>
                                       (\<lambda>_. \<lparr> cr_in_seq = rp_in_seq r, cr_body = rp_body r \<rparr>) (ln_reply_cache l)),
                      ln_outbox := ln_outbox l @ cm_outbox c \<rparr>, s')))"

section \<open>Dispatch of the outbox\<close>

fun drain_loop :: "(outbox_record \<Rightarrow> 'e \<Rightarrow> unit result \<times> 'e) \<Rightarrow> outbox_record list \<Rightarrow> nat \<Rightarrow> 'e \<Rightarrow> nat result \<times> 'e" where
  "drain_loop sink [] sent e = (Inr sent, e)"
| "drain_loop sink (o' # os) sent e =
     (case sink o' e of (Inl er, e') \<Rightarrow> (Inl er, e') | (Inr _, e') \<Rightarrow> drain_loop sink os (Suc sent) e')"

definition drain_outbox :: "(outbox_record \<Rightarrow> 'e \<Rightarrow> unit result \<times> 'e) \<Rightarrow> lane \<Rightarrow> 'e \<Rightarrow> nat result \<times> 'e" where
  "drain_outbox sink l e = drain_loop sink (ln_outbox l) 0 e"

definition has_id :: "u64 \<Rightarrow> u64 \<Rightarrow> outbox_record \<Rightarrow> bool" where
  "has_id sender sq o' \<longleftrightarrow> ob_sender o' = sender \<and> ob_seq o' = sq"

text \<open>\<open>outbox_.erase(it)\<close> removes the first match only.\<close>

fun erase_first :: "(outbox_record \<Rightarrow> bool) \<Rightarrow> outbox_record list \<Rightarrow> outbox_record list" where
  "erase_first P [] = []"
| "erase_first P (o' # os) = (if P o' then os else o' # erase_first P os)"

definition mark_delivered :: "'s store_ops \<Rightarrow> u64 \<Rightarrow> u64 \<Rightarrow> lane \<Rightarrow> 's \<Rightarrow> unit result \<times> lane \<times> 's" where
  "mark_delivered st sender sq l s =
     (if \<not> list_ex (has_id sender sq) (ln_outbox l) then (Inr (), l, s)
      else (case encode_durable delivered_type (watermark_values sender sq) of
              Inl er \<Rightarrow> (Inl er, l, s)
            | Inr b \<Rightarrow>
                (case so_append_batch st (ln_self l) (ln_fence l) [\<lparr> ev_seq = ln_next_seq l, ev_bytes = b \<rparr>] s of
                   (Inl er, s') \<Rightarrow> (Inl er, l, s')
                 | (Inr _, s') \<Rightarrow>
                     (Inr (), l\<lparr> ln_next_seq := ln_next_seq l + 1, ln_outbox := erase_first (has_id sender sq) (ln_outbox l) \<rparr>, s'))))"

fun deliver_loop ::
  "'s store_ops \<Rightarrow> (outbox_record \<Rightarrow> 'e \<Rightarrow> bool result \<times> 'e) \<Rightarrow> (u64 \<times> u64) list \<Rightarrow> nat \<Rightarrow> lane \<Rightarrow> 's \<Rightarrow> 'e \<Rightarrow> nat result \<times> lane \<times> 's \<times> 'e" where
  "deliver_loop st sink [] acked l s e = (Inr acked, l, s, e)"
| "deliver_loop st sink ((snd', sq) # ids) acked l s e =
     (case filter (has_id snd' sq) (ln_outbox l) of
        [] \<Rightarrow> deliver_loop st sink ids acked l s e
      | rec # _ \<Rightarrow>
          (case sink rec e of
             (Inl er, e') \<Rightarrow> (Inl er, l, s, e')
           | (Inr ack, e') \<Rightarrow>
               if ack
               then (case mark_delivered st snd' sq l s of
                       (Inl er, l', s') \<Rightarrow> (Inl er, l', s', e')
                     | (Inr _, l', s') \<Rightarrow> deliver_loop st sink ids (Suc acked) l' s' e')
               else deliver_loop st sink ids acked l s e'))"

definition deliver_outbox ::
  "'s store_ops \<Rightarrow> (outbox_record \<Rightarrow> 'e \<Rightarrow> bool result \<times> 'e) \<Rightarrow> lane \<Rightarrow> 's \<Rightarrow> 'e \<Rightarrow> nat result \<times> lane \<times> 's \<times> 'e" where
  "deliver_outbox st sink l s e = deliver_loop st sink (map (\<lambda>o'. (ob_sender o', ob_seq o')) (ln_outbox l)) 0 l s e"

section \<open>Recovery\<close>

definition recover_record :: "(bytes \<Rightarrow> 'e \<Rightarrow> 'e result) \<Rightarrow> bytes \<Rightarrow> 'e \<times> lane \<Rightarrow> ('e \<times> lane) result" where
  "recover_record on_event bs el =
     (case el of (e, l) \<Rightarrow>
        case peek_record_header bs of
          Inl er \<Rightarrow> Inl er
        | Inr hdr \<Rightarrow>
            if dr_type hdr = durable_type_key watermark_type then
              (case decode_durable no_elems watermark_type bs of
                 Inl er \<Rightarrow> Inl er
               | Inr vs \<Rightarrow> Inr (e, l\<lparr> ln_watermark := bm_touch (word_at 0 vs) 0 (advance_mark (word_at 1 vs)) (ln_watermark l) \<rparr>))
            else if dr_type hdr = durable_type_key outbox_type then
              (case decode_durable no_elems outbox_type bs of
                 Inl er \<Rightarrow> Inl er
               | Inr vs \<Rightarrow> Inr (e, l\<lparr> ln_outbox := ln_outbox l @ [outbox_of vs] \<rparr>))
            else if dr_type hdr = durable_type_key reply_type then
              (case decode_durable no_elems reply_type bs of
                 Inl er \<Rightarrow> Inl er
               | Inr vs \<Rightarrow>
                   Inr (e, l\<lparr> ln_reply_cache := bm_touch (word_at 0 vs) \<lparr> cr_in_seq = 0, cr_body = [] \<rparr>
                                (\<lambda>_. \<lparr> cr_in_seq = word_at 1 vs, cr_body = blob_at 2 vs \<rparr>) (ln_reply_cache l) \<rparr>))
            else if dr_type hdr = durable_type_key delivered_type then
              (case decode_durable no_elems delivered_type bs of
                 Inl er \<Rightarrow> Inl er
               | Inr vs \<Rightarrow> Inr (e, l\<lparr> ln_outbox := filter (\<lambda>o'. \<not> has_id (word_at 0 vs) (word_at 1 vs) o') (ln_outbox l) \<rparr>))
            else (case on_event bs e of Inl er \<Rightarrow> Inl er | Inr e' \<Rightarrow> Inr (e', l)))"

fun recover_loop :: "(bytes \<Rightarrow> 'e \<Rightarrow> 'e result) \<Rightarrow> event_record list \<Rightarrow> 'e \<times> lane \<Rightarrow> ('e \<times> lane) result" where
  "recover_loop on_event [] el = Inr el"
| "recover_loop on_event (r # rs) el =
     (case recover_record on_event (ev_bytes r) el of Inl er \<Rightarrow> Inl er | Inr el' \<Rightarrow> recover_loop on_event rs el')"

definition lane_recover :: "'s store_ops \<Rightarrow> (bytes \<Rightarrow> 'e \<Rightarrow> 'e result) \<Rightarrow> 'e \<Rightarrow> lane \<Rightarrow> 's \<Rightarrow> ('e \<times> lane) result" where
  "lane_recover st on_event e l s =
     (case so_read_log st (ln_self l) 0 s of
        Inl er \<Rightarrow> Inl er
      | Inr cur \<Rightarrow>
          (case recover_loop on_event cur (e, l) of
             Inl er \<Rightarrow> Inl er
           | Inr (e', l') \<Rightarrow> Inr (e', l'\<lparr> ln_next_seq := so_last_seq st (ln_self l) s + 1 \<rparr>)))"

section \<open>Reading back one record\<close>

lemma uleb_size_le: "unat v < 2 ^ (7 * n) \<Longrightarrow> 0 < n \<Longrightarrow> uleb_size v \<le> n"
proof (induction n arbitrary: v)
  case (Suc n)
  show ?case
  proof (cases "v < 0x80")
    case True
    then show ?thesis by (simp add: uleb_size.simps)
  next
    case False
    have "unat (drop_bit 7 v) = unat v div 2 ^ 7" by (rule unat_drop_bit_div)
    also have "\<dots> < 2 ^ (7 * n)"
      using Suc.prems(1) by (intro less_mult_imp_div_less) (simp add: power_add mult.commute)
    finally have "unat (drop_bit 7 v) < 2 ^ (7 * n)" .
    moreover have "0 < n" using False Suc.prems(1) by (cases n) (auto simp: word_less_nat_alt)
    ultimately have "uleb_size (drop_bit 7 v) \<le> n" by (rule Suc.IH)
    with False show ?thesis by (simp add: uleb_size.simps [of v])
  qed
qed simp

lemma uleb_size_le_10: "uleb_size v \<le> 10"
  using uleb_size_le [of v 10] unat_less_exp [of v] by simp

lemma object_size_le:
  "tagged_object_size ((tag, MInt 64 False) # fs) (VInt i # vs) \<le> 20 + tagged_object_size fs vs"
  "tagged_object_size ((tag, MString) # fs) (VStr b # vs) \<le> 20 + length b + tagged_object_size fs vs"
  using uleb_size_le_10 [of "field_key tag (MInt 64 False)"] uleb_size_le_10 [of "of_int i"]
    uleb_size_le_10 [of "field_key tag MString"] uleb_size_le_10 [of "of_nat (length b)"]
  by simp_all

lemma record_sizes:
  "tagged_object_size (dt_fields watermark_type) (watermark_values a b) \<le> 40"
  "tagged_object_size (dt_fields delivered_type) (watermark_values a b) \<le> 40"
  "tagged_object_size (dt_fields outbox_type) (outbox_values o') \<le> 100 + length (ob_body o')"
  "tagged_object_size (dt_fields reply_type) (reply_values r) \<le> 60 + length (rp_body r)"
proof -
  have i: "tagged_object_size fs vs \<le> n \<Longrightarrow> tagged_object_size ((tag, MInt 64 False) # fs) (VInt i # vs) \<le> 20 + n" for tag fs i vs n
    using object_size_le(1) [of tag fs i vs] by linarith
  have s: "tagged_object_size ((tag, MString) # []) (VStr x # []) \<le> 20 + length x" for tag x
    using object_size_le(2) [of tag "[]" x "[]"] by simp
  have e: "tagged_object_size [] [] \<le> 0" by simp
  note d = watermark_type_def delivered_type_def outbox_type_def reply_type_def watermark_values_def outbox_values_def reply_values_def
    durable_type.simps
  show "tagged_object_size (dt_fields watermark_type) (watermark_values a b) \<le> 40"
    "tagged_object_size (dt_fields delivered_type) (watermark_values a b) \<le> 40"
    unfolding d by (rule order_trans [OF i [OF i [OF e]]], simp)+
  show "tagged_object_size (dt_fields outbox_type) (outbox_values o') \<le> 100 + length (ob_body o')"
    unfolding d by (rule order_trans [OF i [OF i [OF i [OF i [OF s]]]]], simp)
  show "tagged_object_size (dt_fields reply_type) (reply_values r) \<le> 60 + length (rp_body r)"
    unfolding d by (rule order_trans [OF i [OF i [OF s]]], simp)
qed

lemma internal_described:
  "described no_elems watermark_type" "described no_elems outbox_type" "described no_elems reply_type" "described no_elems delivered_type"
  by code_simp+

lemma internal_keys: "distinct (map durable_type_key [watermark_type, outbox_type, reply_type, delivered_type])"
  by code_simp

lemma internal_typed:
  "has_types (dt_fields watermark_type) (watermark_values a b)" "has_types (dt_fields delivered_type) (watermark_values a b)"
  "has_types (dt_fields outbox_type) (outbox_values o')" "has_types (dt_fields reply_type) (reply_values r)"
proof -
  have "uint (x :: u64) < 2 ^ LENGTH(64)" for x by (rule unsigned_less)
  then have u: "uint (x :: u64) < 18446744073709551616" for x by simp
  show "has_types (dt_fields watermark_type) (watermark_values a b)" "has_types (dt_fields delivered_type) (watermark_values a b)"
    "has_types (dt_fields outbox_type) (outbox_values o')" "has_types (dt_fields reply_type) (reply_values r)"
    by (simp_all add: u watermark_type_def delivered_type_def outbox_type_def reply_type_def watermark_values_def outbox_values_def
      reply_values_def int_fits_def)
qed

text \<open>The bytes of a durable record.\<close>

definition record_bytes :: "durable_type \<Rightarrow> mval list \<Rightarrow> bytes" where
  "record_bytes T vs = put_le 8 (durable_type_key T) @ put_le 4 (dt_version T) @ object_bytes (dt_fields T) vs"

lemma encode_record_bytes: "has_types (dt_fields T) vs \<Longrightarrow> encode_durable T vs = Inr (record_bytes T vs)"
  by (simp add: written_durable record_bytes_def)

lemma peek_record_bytes: "peek_record_header (record_bytes T vs) = Inr \<lparr> dr_type = durable_type_key T, dr_schema_version = dt_version T \<rparr>"
  by (simp add: record_bytes_def)

lemma decode_record_bytes:
  assumes "described mk T" and "has_types (dt_fields T) vs" and "tagged_object_size (dt_fields T) vs < 2 ^ 64"
  shows "decode_durable mk T (record_bytes T vs) = Inr vs"
  by (rule decode_encode_durable [OF assms encode_record_bytes [OF assms(2)]])

text \<open>A record of the user: its type key is none of the mechanism's.\<close>

definition user_key :: "u64 \<Rightarrow> bool" where
  "user_key key \<longleftrightarrow> key \<notin> set (map durable_type_key [watermark_type, outbox_type, reply_type, delivered_type])"

definition collect :: "bytes \<Rightarrow> bytes list \<Rightarrow> bytes list result" where
  "collect bs e = Inr (e @ [bs])"

lemma recover_internal:
  "recover_record on_event (record_bytes watermark_type (watermark_values a b)) (e, l) =
     Inr (e, l\<lparr> ln_watermark := bm_touch a 0 (advance_mark b) (ln_watermark l) \<rparr>)"
  "length (ob_body o') < 2 ^ 63 \<Longrightarrow> recover_record on_event (record_bytes outbox_type (outbox_values o')) (e, l) =
     Inr (e, l\<lparr> ln_outbox := ln_outbox l @ [o'] \<rparr>)"
  "length (rp_body r) < 2 ^ 63 \<Longrightarrow> recover_record on_event (record_bytes reply_type (reply_values r)) (e, l) =
     Inr (e, l\<lparr> ln_reply_cache := bm_touch (rp_reply_to r) \<lparr> cr_in_seq = 0, cr_body = [] \<rparr>
       (\<lambda>_. \<lparr> cr_in_seq = rp_in_seq r, cr_body = rp_body r \<rparr>) (ln_reply_cache l) \<rparr>)"
  "recover_record on_event (record_bytes delivered_type (watermark_values a b)) (e, l) =
     Inr (e, l\<lparr> ln_outbox := filter (\<lambda>o'. \<not> has_id a b o') (ln_outbox l) \<rparr>)"
proof -
  have k: "durable_type_key outbox_type \<noteq> durable_type_key watermark_type" "durable_type_key reply_type \<noteq> durable_type_key watermark_type"
    "durable_type_key reply_type \<noteq> durable_type_key outbox_type" "durable_type_key delivered_type \<noteq> durable_type_key watermark_type"
    "durable_type_key delivered_type \<noteq> durable_type_key outbox_type" "durable_type_key delivered_type \<noteq> durable_type_key reply_type"
    using internal_keys by auto
  note dec = decode_record_bytes [OF internal_described(1) internal_typed(1)] decode_record_bytes [OF internal_described(4) internal_typed(2)]
    decode_record_bytes [OF internal_described(2) internal_typed(3)] decode_record_bytes [OF internal_described(3) internal_typed(4)]
  have w: "decode_durable no_elems watermark_type (record_bytes watermark_type (watermark_values a b)) = Inr (watermark_values a b)"
    using record_sizes(1) [of a b] by (intro dec(1)) simp
  have d: "decode_durable no_elems delivered_type (record_bytes delivered_type (watermark_values a b)) = Inr (watermark_values a b)"
    using record_sizes(2) [of a b] by (intro dec(2)) simp
  have at: "word_at 0 (watermark_values a b) = a" "word_at (Suc 0) (watermark_values a b) = b"
    by (simp_all add: word_at_def watermark_values_def)
  show "recover_record on_event (record_bytes watermark_type (watermark_values a b)) (e, l) =
     Inr (e, l\<lparr> ln_watermark := bm_touch a 0 (advance_mark b) (ln_watermark l) \<rparr>)"
    by (simp add: recover_record_def peek_record_bytes w at)
  show "recover_record on_event (record_bytes delivered_type (watermark_values a b)) (e, l) =
     Inr (e, l\<lparr> ln_outbox := filter (\<lambda>o'. \<not> has_id a b o') (ln_outbox l) \<rparr>)"
    by (simp add: recover_record_def peek_record_bytes d at k)
  show "recover_record on_event (record_bytes outbox_type (outbox_values o')) (e, l) = Inr (e, l\<lparr> ln_outbox := ln_outbox l @ [o'] \<rparr>)"
    if "length (ob_body o') < 2 ^ 63"
  proof -
    have "decode_durable no_elems outbox_type (record_bytes outbox_type (outbox_values o')) = Inr (outbox_values o')"
      using record_sizes(3) [of o'] that by (intro dec(3)) simp
    moreover have "outbox_of (outbox_values o') = o'" by (simp add: outbox_of_def outbox_values_def word_at_def blob_at_def)
    ultimately show ?thesis by (simp add: recover_record_def peek_record_bytes k)
  qed
  show "recover_record on_event (record_bytes reply_type (reply_values r)) (e, l) =
     Inr (e, l\<lparr> ln_reply_cache := bm_touch (rp_reply_to r) \<lparr> cr_in_seq = 0, cr_body = [] \<rparr>
       (\<lambda>_. \<lparr> cr_in_seq = rp_in_seq r, cr_body = rp_body r \<rparr>) (ln_reply_cache l) \<rparr>)"
    if "length (rp_body r) < 2 ^ 63"
  proof -
    have "decode_durable no_elems reply_type (record_bytes reply_type (reply_values r)) = Inr (reply_values r)"
      using record_sizes(4) [of r] that by (intro dec(4)) simp
    moreover have "word_at 0 (reply_values r) = rp_reply_to r" "word_at (Suc 0) (reply_values r) = rp_in_seq r" "blob_at 2 (reply_values r) = rp_body r"
      by (simp_all add: reply_values_def word_at_def blob_at_def)
    ultimately show ?thesis by (simp add: recover_record_def peek_record_bytes k)
  qed
qed

lemma recover_user: "user_key (durable_type_key T) \<Longrightarrow> recover_record collect (record_bytes T vs) (e, l) = Inr (e @ [record_bytes T vs], l)"
  by (auto simp: recover_record_def peek_record_bytes user_key_def collect_def)

end
