(* ===== verification/Delivery_Chain.thy ===== *)
theory Delivery_Chain
  imports Effectively_Once
begin

text \<open>
  Effectively once, end to end, for one link of a chain: a lane of \<open>include/quark/core/delivery.hpp\<close> that
  consumes one upstream, over any store with the contract \<open>store_seam\<close>.  A history processes messages (the
  dedup check, the handler's actions, the commit), acknowledges outbound entries, crashes and recovers, and
  lets superseded lanes of earlier activations commit.  The model keeps, beside the lane and the store, the
  events and the messages of the commits that succeeded.
\<close>

section \<open>Histories\<close>

datatype action =
    Emit durable_type "mval list"
  | Send actor_id durable_type "mval list"
  | Reply durable_type "mval list"

fun perform :: "lane \<Rightarrow> action \<Rightarrow> commit \<Rightarrow> commit" where
  "perform l (Emit T vs) c = snd (commit_event T vs c)"
| "perform l (Send target T vs) c = snd (commit_send l target T vs c)"
| "perform l (Reply T vs) c = snd (commit_reply T vs c)"

definition handle :: "lane \<Rightarrow> msg_key \<Rightarrow> action list \<Rightarrow> commit" where
  "handle l m acts = foldl (\<lambda>c a. perform l a c) (lane_begin m) acts"

record 's eo_state =
  eo_lane :: lane
  eo_store :: 's
  eo_events :: "bytes list"
  eo_msgs :: "msg_key list"
  eo_zombies :: "lane list"

datatype eo_op =
    Process msg_key "action list"
  | Acked u64 u64
  | CrashRecover
  | ZombieProcess nat msg_key "action list"

definition fresh_lane :: "nat \<Rightarrow> nat \<Rightarrow> actor_id \<Rightarrow> fence_token \<Rightarrow> u64 \<Rightarrow> lane" where
  "fresh_lane wc rc k tok q = set_limits wc rc (lane_create k tok q)"

fun eo_step :: "'s store_ops \<Rightarrow> nat \<Rightarrow> nat \<Rightarrow> eo_op \<Rightarrow> 's eo_state \<Rightarrow> 's eo_state" where
  "eo_step st wc rc (Process m acts) x =
     (if is_duplicate (mk_sender m) (mk_seq m) (eo_lane x) then x
      else let c = handle (eo_lane x) m acts
           in case commit_commit st c (eo_lane x) (eo_store x) of
                (Inl _, l, s) \<Rightarrow> x\<lparr> eo_lane := l, eo_store := s \<rparr>
              | (Inr _, l, s) \<Rightarrow> x\<lparr> eo_lane := l, eo_store := s, eo_events := eo_events x @ cm_events c, eo_msgs := eo_msgs x @ [m] \<rparr>)"
| "eo_step st wc rc (Acked sender sq) x =
     (case mark_delivered st sender sq (eo_lane x) (eo_store x) of (_, l, s) \<Rightarrow> x\<lparr> eo_lane := l, eo_store := s \<rparr>)"
| "eo_step st wc rc CrashRecover x =
     (let k = ln_self (eo_lane x)
      in case so_acquire st k (eo_store x) of
           (Inl _, s) \<Rightarrow> x\<lparr> eo_store := s \<rparr>
         | (Inr t, s) \<Rightarrow>
             (let l0 = fresh_lane wc rc k t (so_last_seq st k s + 1);
                  l = (case lane_recover st collect [] l0 s of Inl _ \<Rightarrow> l0 | Inr (_, l) \<Rightarrow> l)
              in x\<lparr> eo_lane := l, eo_store := s, eo_zombies := eo_lane x # eo_zombies x \<rparr>))"
| "eo_step st wc rc (ZombieProcess n m acts) x =
     (if n < length (eo_zombies x)
      then let z = eo_zombies x ! n in x\<lparr> eo_store := snd (snd (commit_commit st (handle z m acts) z (eo_store x))) \<rparr>
      else x)"

definition eo_run :: "'s store_ops \<Rightarrow> nat \<Rightarrow> nat \<Rightarrow> eo_op list \<Rightarrow> 's eo_state \<Rightarrow> 's eo_state" where
  "eo_run st wc rc ops x = foldl (\<lambda>x op. eo_step st wc rc op x) x ops"

section \<open>Admissible histories\<close>

text \<open>
  One upstream \<open>u\<close>, handlers with fewer than \<open>2 ^ 20 - 1\<close> actions, user types whose keys are not the
  mechanism's, message bodies below \<open>2 ^ 63\<close> bytes, sequence numbers below \<open>2 ^ 43\<close> so that the strided
  identities do not wrap.
\<close>

fun action_ok :: "action \<Rightarrow> bool" where
  "action_ok (Emit T vs) = (has_types (dt_fields T) vs \<and> user_key (durable_type_key T))"
| "action_ok (Send target T vs) = (has_types (dt_fields T) vs \<and> durable_header_size + tagged_object_size (dt_fields T) vs < 2 ^ 63)"
| "action_ok (Reply T vs) = (has_types (dt_fields T) vs \<and> durable_header_size + tagged_object_size (dt_fields T) vs < 2 ^ 63)"

fun eo_op_ok :: "u64 \<Rightarrow> eo_op \<Rightarrow> bool" where
  "eo_op_ok u (Process m acts) = (mk_sender m = u \<and> unat (mk_seq m) < 2 ^ 43 \<and> length acts < 2 ^ 20 - 1 \<and> list_all action_ok acts)"
| "eo_op_ok u _ = True"

fun eo_cost :: "eo_op \<Rightarrow> nat" where
  "eo_cost (Process m acts) = length acts + 2"
| "eo_cost (Acked sender sq) = 1"
| "eo_cost _ = 0"

fun eo_restart :: "eo_op \<Rightarrow> nat" where
  "eo_restart CrashRecover = 1"
| "eo_restart _ = 0"

section \<open>What a handler stages\<close>

definition staged :: "lane \<Rightarrow> msg_key \<Rightarrow> nat \<Rightarrow> commit \<Rightarrow> bool" where
  "staged l m n c \<longleftrightarrow> cm_inbound c = m \<and>
     (\<forall>bs. bs \<in> set (cm_events c) \<longrightarrow> (\<exists>T vs. user_key (durable_type_key T) \<and> bs = record_bytes T vs)) \<and>
     (\<forall>o'. o' \<in> set (cm_outbox c) \<longrightarrow> ob_sender o' = ln_self_hash l \<and> length (ob_body o') < 2 ^ 63) \<and>
     map ob_seq (cm_outbox c) = map (\<lambda>i. mk_seq m * outbound_derivation_stride + of_nat i + 1) [0..<length (cm_outbox c)] \<and>
     cm_out_index c = of_nat (length (cm_outbox c)) \<and> length (cm_events c) + length (cm_outbox c) \<le> n \<and>
     (\<forall>r. cm_reply c = Some r \<longrightarrow> rp_reply_to r = mk_sender m \<and> rp_in_seq r = mk_seq m \<and> length (rp_body r) < 2 ^ 63)"

lemma length_record_bytes: "has_types (dt_fields T) vs \<Longrightarrow> length (record_bytes T vs) = durable_header_size + tagged_object_size (dt_fields T) vs"
  by (simp add: record_bytes_def length_value_bytes)

lemma staged_perform:
  assumes "staged l m n c" and "action_ok a" and "n < 2 ^ 20"
  shows "staged l m (Suc n) (perform l a c)"
proof (cases a)
  case (Emit T vs)
  then have "has_types (dt_fields T) vs" "user_key (durable_type_key T)" using assms(2) by simp_all
  with Emit assms(1) show ?thesis by (auto simp: staged_def commit_event_def encode_record_bytes)
next
  case (Send target T vs)
  then have T: "has_types (dt_fields T) vs" "length (record_bytes T vs) < 2 ^ 63" using assms(2) by (simp_all add: length_record_bytes)
  let ?k = "length (cm_outbox c)"
  have k: "?k < 2 ^ 20" "cm_out_index c = of_nat ?k" using assms(1,3) by (auto simp: staged_def)
  have "ucast (of_nat ?k :: u32) = (of_nat ?k :: u64)"
    using k(1) by (simp add: word_unat_eq_iff unat_of_nat unsigned_ucast_eq take_bit_eq_mod)
  with Send T assms(1) k(2) show ?thesis
    by (auto simp: staged_def commit_send_def encode_record_bytes derive_outbound_def Let_def)
next
  case (Reply T vs)
  then have "has_types (dt_fields T) vs" "length (record_bytes T vs) < 2 ^ 63" using assms(2) by (simp_all add: length_record_bytes)
  with Reply assms(1) show ?thesis by (auto simp: staged_def commit_reply_def encode_record_bytes)
qed

lemma staged_handle:
  assumes "list_all action_ok acts" and "length acts < 2 ^ 20 - 1"
  shows "staged l m (length acts) (handle l m acts)"
  using assms
proof (induction acts rule: rev_induct)
  case Nil
  then show ?case by (simp add: handle_def lane_begin_def staged_def)
next
  case (snoc a acts)
  then have "staged l m (length acts) (handle l m acts)" by simp
  from staged_perform [OF this, of a] snoc.prems show ?case by (simp add: handle_def)
qed

text \<open>The records of a staged commit, and what recovery makes of them.\<close>

definition batch_of :: "commit \<Rightarrow> bytes list" where
  "batch_of c = cm_events c @ [record_bytes watermark_type (watermark_values (mk_sender (cm_inbound c)) (mk_seq (cm_inbound c)))] @
     map (\<lambda>o'. record_bytes outbox_type (outbox_values o')) (cm_outbox c) @
     (case cm_reply c of None \<Rightarrow> [] | Some r \<Rightarrow> [record_bytes reply_type (reply_values r)])"

lemma commit_batch_eq: "commit_batch c = Inr (batch_of c)"
proof -
  have "encode_all outbox_type (map outbox_values os) = Inr (map (\<lambda>o'. record_bytes outbox_type (outbox_values o')) os)" for os
    by (induction os) (simp_all add: encode_record_bytes internal_typed)
  then show ?thesis
    by (simp add: commit_batch_def batch_of_def encode_record_bytes internal_typed split: option.split)
qed

fun recover_bytes :: "(bytes \<Rightarrow> 'e \<Rightarrow> 'e result) \<Rightarrow> bytes list \<Rightarrow> 'e \<times> lane \<Rightarrow> ('e \<times> lane) result" where
  "recover_bytes f [] el = Inr el"
| "recover_bytes f (b # bs) el = (case recover_record f b el of Inl er \<Rightarrow> Inl er | Inr el' \<Rightarrow> recover_bytes f bs el')"

lemma recover_loop_bytes: "recover_loop f rs el = recover_bytes f (map ev_bytes rs) el"
  by (induction rs arbitrary: el) (simp_all split: sum.split)

lemma recover_bytes_append:
  "recover_bytes f (as @ bs) el = (case recover_bytes f as el of Inl er \<Rightarrow> Inl er | Inr el' \<Rightarrow> recover_bytes f bs el')"
  by (induction as arbitrary: el) (simp_all split: sum.split)

lemma recover_user_events:
  assumes "\<forall>bs. bs \<in> set es \<longrightarrow> (\<exists>T vs. user_key (durable_type_key T) \<and> bs = record_bytes T vs)"
  shows "recover_bytes collect es (e, l) = Inr (e @ es, l)"
  using assms
proof (induction es arbitrary: e)
  case (Cons b es)
  then obtain T vs where "user_key (durable_type_key T)" "b = record_bytes T vs" by auto
  with Cons show ?case by (simp add: recover_user)
qed simp

lemma recover_outbox:
  assumes "\<forall>o'. o' \<in> set os \<longrightarrow> length (ob_body o') < 2 ^ 63"
  shows "recover_bytes f (map (\<lambda>o'. record_bytes outbox_type (outbox_values o')) os) (e, l) = Inr (e, l\<lparr> ln_outbox := ln_outbox l @ os \<rparr>)"
  using assms
proof (induction os arbitrary: l)
  case (Cons o' os)
  then show ?case by (simp add: recover_internal)
qed simp

definition cache_reply :: "commit \<Rightarrow> cached_reply bounded_map \<Rightarrow> cached_reply bounded_map" where
  "cache_reply c R = (case cm_reply c of None \<Rightarrow> R
     | Some r \<Rightarrow> bm_touch (mk_sender (cm_inbound c)) \<lparr> cr_in_seq = 0, cr_body = [] \<rparr>
                   (\<lambda>_. \<lparr> cr_in_seq = rp_in_seq r, cr_body = rp_body r \<rparr>) R)"

lemma recover_batch:
  assumes "staged l' m n c"
  shows "recover_bytes collect (batch_of c) (e, l) =
    Inr (e @ cm_events c,
      l\<lparr> ln_watermark := bm_touch (mk_sender m) 0 (advance_mark (mk_seq m)) (ln_watermark l),
         ln_reply_cache := cache_reply c (ln_reply_cache l), ln_outbox := ln_outbox l @ cm_outbox c \<rparr>)"
proof -
  have ev: "\<forall>bs. bs \<in> set (cm_events c) \<longrightarrow> (\<exists>T vs. user_key (durable_type_key T) \<and> bs = record_bytes T vs)"
    and ob: "\<forall>o'. o' \<in> set (cm_outbox c) \<longrightarrow> length (ob_body o') < 2 ^ 63" and m: "cm_inbound c = m"
    and rp: "\<forall>r. cm_reply c = Some r \<longrightarrow> rp_reply_to r = mk_sender m \<and> rp_in_seq r = mk_seq m \<and> length (rp_body r) < 2 ^ 63"
    using assms by (auto simp: staged_def)
  show ?thesis
  proof (cases "cm_reply c")
    case None
    then show ?thesis
      by (simp add: batch_of_def recover_bytes_append recover_user_events [OF ev] recover_outbox [OF ob] recover_internal m cache_reply_def)
  next
    case (Some r)
    then have "length (rp_body r) < 2 ^ 63" "rp_reply_to r = mk_sender m" using rp by auto
    with Some show ?thesis
      by (simp add: batch_of_def recover_bytes_append recover_user_events [OF ev] recover_outbox [OF ob] recover_internal m cache_reply_def)
  qed
qed

lemma length_batch_of:
  assumes "staged l m n c"
  shows "0 < length (batch_of c)" and "length (batch_of c) \<le> n + 2"
  using assms by (auto simp: staged_def batch_of_def split: option.split)

lemma map_number_records [simp]: "map ev_bytes (number_records q bs) = bs"
  by (induction bs arbitrary: q) simp_all

lemma advance_numbered:
  assumes "unat q + length bs < 2 ^ 64"
  shows "advance_seq q (number_records (q + 1) bs) = Some (q + of_nat (length bs))"
  using assms
proof (induction bs arbitrary: q)
  case (Cons b bs)
  have u: "unat (q + 1) = Suc (unat q)" using Cons.prems by (intro unat_plus_1_no_wrap) simp
  then have "\<not> q + 1 \<le> q" by (simp add: word_le_nat_alt)
  with Cons.IH [of "q + 1"] Cons.prems u show ?case by (simp add: add.assoc)
qed simp

section \<open>The invariant\<close>

text \<open>What the chain says of the processed messages and the pending outbox of a lane.\<close>

definition upstream_ok :: "u64 \<Rightarrow> msg_key list \<Rightarrow> lane \<Rightarrow> bool" where
  "upstream_ok u msgs l \<longleftrightarrow>
     bm_find u (ln_watermark l) = (if msgs = [] then None else Some (mk_seq (last msgs))) \<and>
     sorted_wrt (<) (map mk_seq msgs) \<and> (\<forall>m. m \<in> set msgs \<longrightarrow> mk_sender m = u \<and> unat (mk_seq m) < 2 ^ 43) \<and>
     distinct (map ob_seq (ln_outbox l)) \<and> (msgs = [] \<longrightarrow> ln_outbox l = []) \<and>
     (\<forall>o'. o' \<in> set (ln_outbox l) \<longrightarrow> ob_sender o' = ln_self_hash l \<and> unat (ob_seq o') < Suc (unat (mk_seq (last msgs))) * 2 ^ 20)"

text \<open>Recovery from the log gives the events and the mirrors of the lane.\<close>

definition mirrored :: "nat \<Rightarrow> nat \<Rightarrow> bytes list \<Rightarrow> lane \<Rightarrow> event_record list \<Rightarrow> bool" where
  "mirrored wc rc events l log \<longleftrightarrow>
     (\<forall>l0. ln_watermark l0 = bm_set_cap wc bm_empty \<longrightarrow> ln_reply_cache l0 = bm_set_cap rc bm_empty \<longrightarrow> ln_outbox l0 = [] \<longrightarrow>
        recover_bytes collect (map ev_bytes log) ([], l0) =
          Inr (events, l0\<lparr> ln_watermark := ln_watermark l, ln_reply_cache := ln_reply_cache l, ln_outbox := ln_outbox l \<rparr>))"

definition eo_inv ::
  "(actor_id \<Rightarrow> 's \<Rightarrow> store_entry) \<Rightarrow> ('s \<Rightarrow> bool) \<Rightarrow> nat \<Rightarrow> nat \<Rightarrow> actor_id \<Rightarrow> u64 \<Rightarrow> nat \<Rightarrow> nat \<Rightarrow> 's eo_state \<Rightarrow> bool" where
  "eo_inv view ok wc rc k u B R x \<longleftrightarrow>
     (let l = eo_lane x; e = view k (eo_store x) in
      ok (eo_store x) \<and> ln_self l = k \<and> ln_self_hash l = actor_hash k \<and> ln_fence l = se_owner e \<and>
      ln_next_seq l = se_last_seq e + 1 \<and> unat (se_last_seq e) + B < 2 ^ 64 - 1 \<and>
      token_value (se_owner e) \<noteq> 0 \<and> unat (token_value (se_owner e)) + R < 2 ^ 64 \<and>
      (\<forall>z. z \<in> set (eo_zombies x) \<longrightarrow> ln_self z = k \<and> fenced_out (ln_fence z) e) \<and>
      mirrored wc rc (eo_events x) l (se_log e) \<and> upstream_ok u (eo_msgs x) l)"

lemma strided_ids:
  assumes "unat q < 2 ^ 43" and "i < 2 ^ 20 - 1"
  shows "unat (q * outbound_derivation_stride + of_nat i + 1) = unat q * 2 ^ 20 + i + 1"
proof -
  have s: "unat outbound_derivation_stride = 2 ^ 20" by (simp add: outbound_derivation_stride_def push_bit_eq_mult)
  have b: "unat q * 2 ^ 20 + i + 1 < 2 ^ 64"
  proof -
    have "unat q * 2 ^ 20 < 2 ^ 43 * (2 ^ 20 :: nat)" using assms(1) by simp
    then show ?thesis using assms(2) by simp
  qed
  have "unat (q * outbound_derivation_stride) = unat q * 2 ^ 20" using b s by (subst unat_times_no_wrap) simp_all
  moreover from this have "unat (q * outbound_derivation_stride + of_nat i) = unat q * 2 ^ 20 + i"
    using b assms(2) by (subst unat_plus_no_wrap) (simp_all add: unat_of_nat)
  ultimately show ?thesis using b by (subst unat_plus_1_no_wrap) simp_all
qed

lemma upstream_ok_commit:
  assumes "upstream_ok u msgs l" and "staged l m n c" and "\<not> is_duplicate u (mk_seq m) l" and "mk_sender m = u"
    and "unat (mk_seq m) < 2 ^ 43" and "n < 2 ^ 20 - 1" and "ln_self_hash l' = ln_self_hash l"
    and "ln_watermark l' = bm_touch u 0 (advance_mark (mk_seq m)) (ln_watermark l)" and "ln_outbox l' = ln_outbox l @ cm_outbox c"
  shows "upstream_ok u (msgs @ [m]) l'"
proof -
  let ?q = "mk_seq m" and ?old = "mk_seq (last msgs)"
  have f: "bm_find u (ln_watermark l) = (if msgs = [] then None else Some ?old)" using assms(1) by (simp add: upstream_ok_def)
  have new: "msgs \<noteq> [] \<Longrightarrow> ?old < ?q" using assms(3) f by (simp add: is_duplicate_def not_le)
  have f': "bm_find u (ln_watermark l') = Some ?q"
  proof -
    have "advance_mark ?q 0 = ?q" by (auto simp: advance_mark_def word_gt_0)
    moreover have "msgs \<noteq> [] \<Longrightarrow> advance_mark ?q ?old = ?q" using new by (simp add: advance_mark_def)
    ultimately show ?thesis using f by (simp add: assms(8) bm_find_touch_same)
  qed
  have above: "\<forall>q'. q' \<in> set (map mk_seq msgs) \<longrightarrow> q' < ?q"
  proof (cases "msgs = []")
    case False
    have s: "sorted_wrt (<) (map mk_seq (butlast msgs) @ [?old])"
      using assms(1) False by (metis append_butlast_last_id upstream_ok_def list.simps(8,9) map_append)
    have "set (map mk_seq msgs) = set (map mk_seq (butlast msgs)) \<union> {?old}"
      using False by (metis append_butlast_last_id list.set(1,2) list.simps(8,9) map_append set_append)
    with s new [OF False] show ?thesis by (auto simp: sorted_wrt_append)
  qed simp
  have srt: "sorted_wrt (<) (map mk_seq (msgs @ [m]))" using assms(1) above by (auto simp: upstream_ok_def sorted_wrt_append)
  let ?k = "length (cm_outbox c)"
  have ids: "map ob_seq (cm_outbox c) = map (\<lambda>i. ?q * outbound_derivation_stride + of_nat i + 1) [0..<?k]" and k: "?k \<le> n"
    and snd: "\<forall>o'. o' \<in> set (cm_outbox c) \<longrightarrow> ob_sender o' = ln_self_hash l" using assms(2) by (auto simp: staged_def)
  have u: "unat (ob_seq o') \<in> {unat ?q * 2 ^ 20 <..< Suc (unat ?q) * 2 ^ 20}" if "o' \<in> set (cm_outbox c)" for o'
  proof -
    have "ob_seq o' \<in> set (map ob_seq (cm_outbox c))" using that by simp
    then obtain i where i: "i < ?k" "ob_seq o' = ?q * outbound_derivation_stride + of_nat i + 1" unfolding ids by auto
    have "i < 2 ^ 20 - 1" using i(1) k assms(6) by linarith
    with strided_ids [OF assms(5) this] i show ?thesis by simp
  qed
  have old: "unat (ob_seq o') < unat ?q * 2 ^ 20 + 1 \<and> ob_sender o' = ln_self_hash l" if "o' \<in> set (ln_outbox l)" for o'
  proof -
    have "msgs \<noteq> []" using that assms(1) by (auto simp: upstream_ok_def)
    then have "Suc (unat ?old) \<le> unat ?q" using new by (simp add: word_less_nat_alt)
    then have "Suc (unat ?old) * 2 ^ 20 \<le> unat ?q * (2 ^ 20 :: nat)" by (rule mult_le_mono1)
    moreover have "unat (ob_seq o') < Suc (unat ?old) * 2 ^ 20 \<and> ob_sender o' = ln_self_hash l"
      using that assms(1) unfolding upstream_ok_def by blast
    ultimately show ?thesis by linarith
  qed
  have "distinct (map ob_seq (cm_outbox c))"
    unfolding ids
  proof (rule distinct_map [THEN iffD2], intro conjI distinct_upt inj_onI)
    fix i j
    assume ij: "i \<in> set [0..<?k]" "j \<in> set [0..<?k]"
      and eq: "?q * outbound_derivation_stride + of_nat i + 1 = ?q * outbound_derivation_stride + of_nat j + 1"
    have "i < 2 ^ 20 - 1" "j < 2 ^ 20 - 1" using ij k assms(6) by auto
    with strided_ids [OF assms(5)] eq show "i = j" by (metis add_right_cancel add_left_cancel)
  qed
  moreover have "ob_seq a \<noteq> ob_seq b" if "a \<in> set (ln_outbox l)" "b \<in> set (cm_outbox c)" for a b
    using old [OF that(1)] u [OF that(2)] by auto
  ultimately have "distinct (map ob_seq (ln_outbox l'))"
    using assms(1,9) by (auto simp: upstream_ok_def)
  moreover have "unat ?q * 2 ^ 20 + 1 < Suc (unat ?q) * (2 ^ 20 :: nat)" by simp
  ultimately show ?thesis
    unfolding upstream_ok_def using assms(1,4,5,7,9) f' srt old u snd by (fastforce simp: upstream_ok_def)
qed

lemma erase_first_filter:
  assumes "distinct (map ob_seq os)"
  shows "erase_first (has_id sender sq) os = filter (\<lambda>o'. \<not> has_id sender sq o') os \<or> \<not> list_ex (has_id sender sq) os"
  using assms
proof (induction os)
  case (Cons o' os)
  have "filter (\<lambda>o'. \<not> has_id sender sq o') os = os" if "has_id sender sq o'"
  proof (rule filter_True, rule ballI)
    fix y
    assume y: "y \<in> set os"
    then have "ob_seq y \<in> ob_seq ` set os" by simp
    then have "ob_seq y \<noteq> ob_seq o'" using Cons.prems by auto
    then show "\<not> has_id sender sq y" using that by (simp add: has_id_def)
  qed
  with Cons show ?case by auto
qed simp

lemma upstream_ok_ack:
  assumes "upstream_ok u msgs l" and "set os \<subseteq> set (ln_outbox l)" and "distinct (map ob_seq os)"
  shows "upstream_ok u msgs (l\<lparr> ln_next_seq := q, ln_outbox := os \<rparr>)"
  using assms unfolding upstream_ok_def by auto

lemma mirrored_append:
  assumes "mirrored wc rc evs l log"
    and "\<And>e l0. recover_bytes collect (map ev_bytes rs) (e, l0) = Inr (e @ es, l0\<lparr> ln_watermark := W (ln_watermark l0),
      ln_reply_cache := C (ln_reply_cache l0), ln_outbox := Ob (ln_outbox l0) \<rparr>)"
    and "ln_watermark l' = W (ln_watermark l)" and "ln_reply_cache l' = C (ln_reply_cache l)" and "ln_outbox l' = Ob (ln_outbox l)"
  shows "mirrored wc rc (evs @ es) l' (log @ rs)"
  using assms by (simp add: mirrored_def recover_bytes_append)

lemma mirrored_cong:
  "mirrored wc rc evs l log \<Longrightarrow> ln_watermark l' = ln_watermark l \<Longrightarrow> ln_reply_cache l' = ln_reply_cache l \<Longrightarrow>
     ln_outbox l' = ln_outbox l \<Longrightarrow> mirrored wc rc evs l' log"
  by (simp add: mirrored_def)

lemma eo_invI:
  assumes "ok (eo_store x)" and "ln_self (eo_lane x) = k" and "ln_self_hash (eo_lane x) = actor_hash k" and "ln_fence (eo_lane x) = se_owner (view k (eo_store x))"
    and "ln_next_seq (eo_lane x) = se_last_seq (view k (eo_store x)) + 1" and "unat (se_last_seq (view k (eo_store x))) + B < 2 ^ 64 - 1"
    and "token_value (se_owner (view k (eo_store x))) \<noteq> 0" and "unat (token_value (se_owner (view k (eo_store x)))) + R < 2 ^ 64"
    and "\<And>z. z \<in> set (eo_zombies x) \<Longrightarrow> ln_self z = k \<and> fenced_out (ln_fence z) (view k (eo_store x))"
    and "mirrored wc rc (eo_events x) (eo_lane x) (se_log (view k (eo_store x)))" and "upstream_ok u (eo_msgs x) (eo_lane x)"
  shows "eo_inv view ok wc rc k u B R x"
  using assms by (simp add: eo_inv_def Let_def)

lemma eo_inv_same_entry:
  assumes "eo_inv view ok wc rc k u B R x" and "ok s'" and "view k s' = view k (eo_store x)"
  shows "eo_inv view ok wc rc k u B R (x\<lparr> eo_store := s' \<rparr>)"
  using assms by (simp add: eo_inv_def Let_def)

context store_seam begin

lemma commit_outcome:
  assumes "ok s" and "commit_commit st c l s = (r, l', s')"
  shows "ok s' \<and> (case r of
      Inl _ \<Rightarrow> l' = l \<and> (\<forall>k'. view k' s' = view k' s)
    | Inr x \<Rightarrow> spec_append (ln_fence l) (number_records (ln_next_seq l) (batch_of c)) (view (ln_self l) s) = Some (view (ln_self l) s') \<and>
        l' = l\<lparr> ln_next_seq := ln_next_seq l + of_nat (length (batch_of c)),
          ln_watermark := bm_touch (mk_sender (cm_inbound c)) 0 (advance_mark (mk_seq (cm_inbound c))) (ln_watermark l),
          ln_reply_cache := cache_reply c (ln_reply_cache l), ln_outbox := ln_outbox l @ cm_outbox c \<rparr>)"
proof -
  obtain a s1 where a: "so_append_batch st (ln_self l) (ln_fence l) (number_records (ln_next_seq l) (batch_of c)) s = (a, s1)" by (rule prod.exhaust)
  note ok1 = append_ok [OF assms(1) a] and v = append_view [OF assms(1) a]
  show ?thesis
  proof (cases a)
    case (Inl er)
    then have "r = Inl er" "l' = l" "s' = s1" using assms(2) a by (simp_all add: commit_commit_def commit_batch_eq Let_def)
    with ok1 v Inl show ?thesis by simp
  next
    case (Inr y)
    then have "\<exists>x. r = Inr x" "s' = s1" "l' = l\<lparr> ln_next_seq := ln_next_seq l + of_nat (length (batch_of c)),
          ln_watermark := bm_touch (mk_sender (cm_inbound c)) 0 (advance_mark (mk_seq (cm_inbound c))) (ln_watermark l),
          ln_reply_cache := cache_reply c (ln_reply_cache l), ln_outbox := ln_outbox l @ cm_outbox c \<rparr>"
      using assms(2) a by (auto simp: commit_commit_def commit_batch_eq Let_def cache_reply_def)
    with ok1 v Inr show ?thesis by auto
  qed
qed

lemma zombie_commit_noop:
  assumes "ok s" and "fenced_out (ln_fence z) (view (ln_self z) s)"
  shows "ok (snd (snd (commit_commit st c z s))) \<and> view k' (snd (snd (commit_commit st c z s))) = view k' s"
proof -
  obtain r l' s' where c: "commit_commit st c z s = (r, l', s')" by (metis prod.exhaust)
  from commit_outcome [OF assms(1) c] assms(2) show ?thesis
    by (cases r) (auto simp: c spec_append_def)
qed

lemma eo_process_inv:
  assumes "eo_inv view ok wc rc k u (B + eo_cost (Process m acts)) R x" and "eo_op_ok u (Process m acts)"
  shows "eo_inv view ok wc rc k u B R (eo_step st wc rc (Process m acts) x)"
proof -
  let ?l = "eo_lane x" and ?e = "view k (eo_store x)" and ?c = "handle (eo_lane x) m acts"
  have i: "ok (eo_store x)" "ln_self ?l = k" "ln_self_hash ?l = actor_hash k" "ln_fence ?l = se_owner ?e"
    "ln_next_seq ?l = se_last_seq ?e + 1" "unat (se_last_seq ?e) + (B + (length acts + 2)) < 2 ^ 64 - 1"
    "token_value (se_owner ?e) \<noteq> 0" "unat (token_value (se_owner ?e)) + R < 2 ^ 64"
    "\<forall>z. z \<in> set (eo_zombies x) \<longrightarrow> ln_self z = k \<and> fenced_out (ln_fence z) ?e"
    "mirrored wc rc (eo_events x) ?l (se_log ?e)" "upstream_ok u (eo_msgs x) ?l"
    using assms(1) by (simp_all add: eo_inv_def Let_def)
  have weak: "eo_inv view ok wc rc k u B R x" using i by (intro eo_invI) auto
  have m: "mk_sender m = u" "unat (mk_seq m) < 2 ^ 43" "length acts < 2 ^ 20 - 1" "list_all action_ok acts" using assms(2) by simp_all
  have st: "staged ?l m (length acts) ?c" by (rule staged_handle [OF m(4,3)])
  then have inb: "cm_inbound ?c = m" by (simp add: staged_def)
  show ?thesis
  proof (cases "is_duplicate (mk_sender m) (mk_seq m) ?l")
    case True
    with weak show ?thesis by simp
  next
    case False
    obtain r l' s' where c: "commit_commit st ?c ?l (eo_store x) = (r, l', s')" by (metis prod.exhaust)
    note oc = commit_outcome [OF i(1) c, unfolded i(2) inb m(1)]
    show ?thesis
    proof (cases r)
      case (Inl er)
      then have "eo_step st wc rc (Process m acts) x = x\<lparr> eo_store := s' \<rparr>" using False c oc by (simp add: Let_def)
      with eo_inv_same_entry [OF weak, of s'] oc Inl show ?thesis by simp
    next
      case (Inr y)
      let ?b = "batch_of ?c"
      have len: "length ?b \<le> length acts + 2" by (rule length_batch_of(2) [OF st])
      have adv: "advance_seq (se_last_seq ?e) (number_records (se_last_seq ?e + 1) ?b) = Some (se_last_seq ?e + of_nat (length ?b))"
        using len i(6) by (intro advance_numbered) simp
      have e': "view k s' = ?e\<lparr> se_log := se_log ?e @ number_records (ln_next_seq ?l) ?b, se_last_seq := se_last_seq ?e + of_nat (length ?b) \<rparr>"
        using oc Inr adv by (auto simp: spec_append_def i(5) split: if_splits)
      have l': "l' = ?l\<lparr> ln_next_seq := ln_next_seq ?l + of_nat (length ?b), ln_watermark := bm_touch u 0 (advance_mark (mk_seq m)) (ln_watermark ?l),
          ln_reply_cache := cache_reply ?c (ln_reply_cache ?l), ln_outbox := ln_outbox ?l @ cm_outbox ?c \<rparr>"
        using oc Inr by simp
      have step: "eo_step st wc rc (Process m acts) x =
          x\<lparr> eo_lane := l', eo_store := s', eo_events := eo_events x @ cm_events ?c, eo_msgs := eo_msgs x @ [m] \<rparr>"
        using False c Inr by (simp add: Let_def)
      have un: "unat (se_last_seq ?e + of_nat (length ?b)) = unat (se_last_seq ?e) + length ?b"
        using len i(6) by (subst unat_plus_no_wrap) (simp_all add: unat_of_nat)
      have mir: "mirrored wc rc (eo_events x @ cm_events ?c) l' (se_log ?e @ number_records (ln_next_seq ?l) ?b)"
        by (rule mirrored_append [OF i(10)]) (simp_all add: l' recover_batch [OF st] m(1))
      have ch: "upstream_ok u (eo_msgs x @ [m]) l'"
        using False m by (intro upstream_ok_commit [OF i(11) st]) (simp_all add: l')
      show ?thesis
        unfolding step
        by (intro eo_invI) (use oc Inr i e' un len mir ch in \<open>auto simp: l' fenced_out_def\<close>)
    qed
  qed
qed

lemma eo_acked_inv:
  assumes "eo_inv view ok wc rc k u (B + 1) R x"
  shows "eo_inv view ok wc rc k u B R (eo_step st wc rc (Acked sender sq) x)"
proof -
  let ?l = "eo_lane x" and ?e = "view k (eo_store x)"
  have i: "ok (eo_store x)" "ln_self ?l = k" "ln_self_hash ?l = actor_hash k" "ln_fence ?l = se_owner ?e"
    "ln_next_seq ?l = se_last_seq ?e + 1" "unat (se_last_seq ?e) + (B + 1) < 2 ^ 64 - 1"
    "token_value (se_owner ?e) \<noteq> 0" "unat (token_value (se_owner ?e)) + R < 2 ^ 64"
    "\<forall>z. z \<in> set (eo_zombies x) \<longrightarrow> ln_self z = k \<and> fenced_out (ln_fence z) ?e"
    "mirrored wc rc (eo_events x) ?l (se_log ?e)" "upstream_ok u (eo_msgs x) ?l"
    using assms(1) by (simp_all add: eo_inv_def Let_def)
  have weak: "eo_inv view ok wc rc k u B R x" using i by (intro eo_invI) auto
  have enc: "encode_durable delivered_type (watermark_values sender sq) = Inr (record_bytes delivered_type (watermark_values sender sq))"
    by (rule encode_record_bytes [OF internal_typed(2)])
  let ?rec = "[\<lparr> ev_seq = ln_next_seq ?l, ev_bytes = record_bytes delivered_type (watermark_values sender sq) \<rparr>]"
  show ?thesis
  proof (cases "list_ex (has_id sender sq) (ln_outbox ?l)")
    case False
    then have "eo_step st wc rc (Acked sender sq) x = x" by (simp add: mark_delivered_def)
    with weak show ?thesis by simp
  next
    case True
    obtain a s' where a: "so_append_batch st k (ln_fence ?l) ?rec (eo_store x) = (a, s')" by (rule prod.exhaust)
    note ok' = append_ok [OF i(1) a] and v = append_view [OF i(1) a]
    show ?thesis
    proof (cases a)
      case (Inl er)
      then have "eo_step st wc rc (Acked sender sq) x = x\<lparr> eo_store := s' \<rparr>" using a True by (simp add: mark_delivered_def enc i(2))
      with eo_inv_same_entry [OF weak ok'] v Inl show ?thesis by simp
    next
      case (Inr y)
      let ?l' = "?l\<lparr> ln_next_seq := ln_next_seq ?l + 1, ln_outbox := erase_first (has_id sender sq) (ln_outbox ?l) \<rparr>"
      have er: "erase_first (has_id sender sq) (ln_outbox ?l) = filter (\<lambda>o'. \<not> has_id sender sq o') (ln_outbox ?l)"
        using erase_first_filter [of "ln_outbox ?l" sender sq] i(11) True by (auto simp: upstream_ok_def)
      have step: "eo_step st wc rc (Acked sender sq) x = x\<lparr> eo_lane := ?l', eo_store := s' \<rparr>"
        using a True Inr by (simp add: mark_delivered_def enc i(2))
      have n: "number_records (se_last_seq ?e + 1) [record_bytes delivered_type (watermark_values sender sq)] = ?rec" by (simp add: i(5))
      have adv: "advance_seq (se_last_seq ?e) ?rec = Some (se_last_seq ?e + 1)"
        using advance_numbered [of "se_last_seq ?e" "[record_bytes delivered_type (watermark_values sender sq)]"] i(6) unfolding n by simp
      have e': "view k s' = ?e\<lparr> se_log := se_log ?e @ ?rec, se_last_seq := se_last_seq ?e + 1 \<rparr>"
        using v Inr adv by (auto simp: spec_append_def split: if_splits)
      have un: "unat (se_last_seq ?e + 1) = Suc (unat (se_last_seq ?e))" using i(6) by (intro unat_plus_1_no_wrap) simp
      have mir: "mirrored wc rc (eo_events x @ []) ?l' (se_log ?e @ ?rec)"
        by (rule mirrored_append [OF i(10), where W = id and C = id and Ob = "filter (\<lambda>o'. \<not> has_id sender sq o')"])
           (simp_all add: recover_internal er)
      have "distinct (map ob_seq (filter P os))" if "distinct (map ob_seq os)" for P os
        using that by (simp add: distinct_map_filter)
      then have ch: "upstream_ok u (eo_msgs x) ?l'"
        using i(11) by (intro upstream_ok_ack [OF i(11)]) (auto simp: er upstream_ok_def)
      show ?thesis
        unfolding step
        by (intro eo_invI) (use ok' Inr i e' un mir ch in \<open>auto simp: fenced_out_def\<close>)
    qed
  qed
qed

end
context store_seam begin

lemma lane_recover_mirrored:
  assumes "ok s" and "mirrored wc rc evs l (se_log (view k s))"
  shows "lane_recover st collect [] (fresh_lane wc rc k t q) s =
    Inr (evs, (fresh_lane wc rc k t q)\<lparr> ln_watermark := ln_watermark l, ln_reply_cache := ln_reply_cache l, ln_outbox := ln_outbox l,
      ln_next_seq := se_last_seq (view k s) + 1 \<rparr>)"
proof -
  let ?fl = "fresh_lane wc rc k t q"
  have f: "ln_self ?fl = k" "ln_watermark ?fl = bm_set_cap wc bm_empty" "ln_reply_cache ?fl = bm_set_cap rc bm_empty" "ln_outbox ?fl = []"
    by (simp_all add: fresh_lane_def set_limits_def lane_create_def)
  have "recover_bytes collect (map ev_bytes (se_log (view k s))) ([], ?fl) =
      Inr (evs, ?fl\<lparr> ln_watermark := ln_watermark l, ln_reply_cache := ln_reply_cache l, ln_outbox := ln_outbox l \<rparr>)"
    using assms(2) f(2-4) unfolding mirrored_def by blast
  then show ?thesis
    by (simp add: lane_recover_def read_view [OF assms(1)] last_view [OF assms(1)] f(1) recover_loop_bytes)
qed

lemma eo_crash_inv:
  assumes "eo_inv view ok wc rc k u B (R + 1) x"
  shows "eo_inv view ok wc rc k u B R (eo_step st wc rc CrashRecover x)"
proof -
  let ?l = "eo_lane x" and ?e = "view k (eo_store x)"
  have i: "ok (eo_store x)" "ln_self ?l = k" "ln_self_hash ?l = actor_hash k" "ln_fence ?l = se_owner ?e"
    "ln_next_seq ?l = se_last_seq ?e + 1" "unat (se_last_seq ?e) + B < 2 ^ 64 - 1"
    "token_value (se_owner ?e) \<noteq> 0" "unat (token_value (se_owner ?e)) + (R + 1) < 2 ^ 64"
    "\<forall>z. z \<in> set (eo_zombies x) \<longrightarrow> ln_self z = k \<and> fenced_out (ln_fence z) ?e"
    "mirrored wc rc (eo_events x) ?l (se_log ?e)" "upstream_ok u (eo_msgs x) ?l"
    using assms(1) by (simp_all add: eo_inv_def Let_def)
  obtain a s' where a: "so_acquire st k (eo_store x) = (a, s')" by (rule prod.exhaust)
  note ok' = acquire_ok [OF i(1) a] and v = acquire_view [OF i(1) a]
  show ?thesis
  proof (cases a)
    case (Inl er)
    then have "eo_step st wc rc CrashRecover x = x\<lparr> eo_store := s' \<rparr>" using a i(2) by (simp add: Let_def)
    with i ok' v Inl show ?thesis by (intro eo_invI) auto
  next
    case (Inr t)
    then have e': "t = next_token ?e" "view k s' = ?e\<lparr> se_owner := t \<rparr>" using v by auto
    let ?fl = "fresh_lane wc rc k t (so_last_seq st k s' + 1)"
    let ?l' = "?fl\<lparr> ln_watermark := ln_watermark ?l, ln_reply_cache := ln_reply_cache ?l, ln_outbox := ln_outbox ?l,
      ln_next_seq := se_last_seq ?e + 1 \<rparr>"
    have "mirrored wc rc (eo_events x) ?l (se_log (view k s'))" using i(10) e'(2) by simp
    from lane_recover_mirrored [OF ok' this] have "lane_recover st collect [] ?fl s' = Inr (eo_events x, ?l')" by (simp add: e'(2))
    then have step: "eo_step st wc rc CrashRecover x = x\<lparr> eo_lane := ?l', eo_store := s', eo_zombies := ?l # eo_zombies x \<rparr>"
      using a Inr i(2) by (simp add: Let_def)
    have f: "ln_self ?l' = k" "ln_self_hash ?l' = actor_hash k" "ln_fence ?l' = t"
      by (simp_all add: fresh_lane_def set_limits_def lane_create_def)
    have less: "se_owner ?e < t" "unat (token_value t) = Suc (unat (token_value (se_owner ?e)))"
      using next_token_less [of ?e] i(8) e'(1) by simp_all
    then have "token_value t \<noteq> 0" by auto
    moreover have "fenced_out (ln_fence z) (view k s')" if "z \<in> set (?l # eo_zombies x)" for z
    proof -
      have "is_unfenced (ln_fence z) \<or> ln_fence z \<le> se_owner ?e" using that i(4,9) by (auto simp: fenced_out_def)
      then show ?thesis using less(1) e'(2) by (auto simp: fenced_out_def)
    qed
    moreover have "ln_self z = k" if "z \<in> set (?l # eo_zombies x)" for z using that i(2,9) by auto
    moreover have "mirrored wc rc (eo_events x) ?l' (se_log ?e)" using i(10) by (simp add: mirrored_def)
    moreover have "upstream_ok u (eo_msgs x) ?l'" using i(3,11) f(2) by (simp add: upstream_ok_def)
    ultimately show ?thesis
      unfolding step using i ok' e'(2) f less(2) by (intro eo_invI) auto
  qed
qed

lemma eo_zombie_inv:
  assumes "eo_inv view ok wc rc k u B R x"
  shows "eo_inv view ok wc rc k u B R (eo_step st wc rc (ZombieProcess n m acts) x)"
proof (cases "n < length (eo_zombies x)")
  case True
  let ?z = "eo_zombies x ! n"
  have "?z \<in> set (eo_zombies x)" using True by simp
  then have "ln_self ?z = k" "fenced_out (ln_fence ?z) (view k (eo_store x))" "ok (eo_store x)"
    using assms by (simp_all add: eo_inv_def Let_def)
  then have "ok (snd (snd (commit_commit st (handle ?z m acts) ?z (eo_store x)))) \<and>
      view k (snd (snd (commit_commit st (handle ?z m acts) ?z (eo_store x)))) = view k (eo_store x)"
    by (intro zombie_commit_noop) simp_all
  with eo_inv_same_entry [OF assms] True show ?thesis by (simp add: Let_def)
next
  case False
  with assms show ?thesis by simp
qed

lemma eo_run_inv:
  assumes "eo_inv view ok wc rc k u (sum_list (map eo_cost ops) + B) (sum_list (map eo_restart ops) + R) x" and "list_all (eo_op_ok u) ops"
  shows "eo_inv view ok wc rc k u B R (eo_run st wc rc ops x)"
  using assms
proof (induction ops arbitrary: x)
  case (Cons op ops)
  have "eo_inv view ok wc rc k u (sum_list (map eo_cost ops) + B) (sum_list (map eo_restart ops) + R) (eo_step st wc rc op x)"
  proof (cases op)
    case (Process m acts)
    have "sum_list (map eo_cost (op # ops)) + B = (sum_list (map eo_cost ops) + B) + eo_cost (Process m acts)"
      "sum_list (map eo_restart (op # ops)) + R = sum_list (map eo_restart ops) + R" using Process by simp_all
    then have "eo_inv view ok wc rc k u ((sum_list (map eo_cost ops) + B) + eo_cost (Process m acts)) (sum_list (map eo_restart ops) + R) x"
      using Cons.prems(1) by (simp only: ac_simps)
    moreover have "eo_op_ok u (Process m acts)" using Cons.prems(2) Process by simp
    ultimately show ?thesis unfolding Process by (rule eo_process_inv)
  next
    case (Acked sender sq)
    with Cons.prems show ?thesis by (simp add: eo_acked_inv del: eo_step.simps)
  next
    case CrashRecover
    with Cons.prems show ?thesis by (simp add: eo_crash_inv del: eo_step.simps)
  next
    case (ZombieProcess n m acts)
    with Cons.prems show ?thesis by (simp add: eo_zombie_inv del: eo_step.simps)
  qed
  with Cons.IH Cons.prems(2) show ?case by (simp add: eo_run_def)
qed (simp add: eo_run_def)

end

section \<open>Properties\<close>

definition eo_start :: "nat \<Rightarrow> nat \<Rightarrow> actor_id \<Rightarrow> mem_store eo_state" where
  "eo_start wc rc k =
     (let s = snd (acquire_fence k [])
      in \<lparr> eo_lane = fresh_lane wc rc k (FenceToken 1) (last_seq k s + 1), eo_store = s, eo_events = [], eo_msgs = [], eo_zombies = [] \<rparr>)"

lemma eo_inv_start:
  assumes "B < 2 ^ 64 - 1" and "R + 1 < 2 ^ 64"
  shows "eo_inv entry_of store_wf wc rc k u B R (eo_start wc rc k)"
proof -
  let ?x = "eo_start wc rc k" and ?s = "snd (acquire_fence k [])"
  have s: "eo_store ?x = ?s" "eo_lane ?x = fresh_lane wc rc k (FenceToken 1) (last_seq k ?s + 1)" "eo_events ?x = []" "eo_msgs ?x = []" "eo_zombies ?x = []"
    by (simp_all add: eo_start_def Let_def)
  have e: "entry_of k ?s = fresh_entry\<lparr> se_owner := FenceToken 1 \<rparr>" by (simp add: acquire_fence_def Let_def fresh_entry_def)
  have "so_acquire mem_ops k [] = (fst (acquire_fence k []), ?s)" by (simp add: mem_ops_def)
  from mem.acquire_ok [OF store_wf_Nil this] have wf: "store_wf ?s" .
  have l: "last_seq k ?s = 0" by (simp add: last_seq_entry e fresh_entry_def)
  have "bm_find u (bm_set_cap wc bm_empty) = None" for u :: u64 and m :: "u64 bounded_map" by (simp add: bm_find_def bm_set_cap_def bm_trim_def bm_empty_def Let_def)
  then show ?thesis
    using assms wf
    by (intro eo_invI)
       (simp_all add: s e l fresh_entry_def fresh_lane_def set_limits_def lane_create_def mirrored_def upstream_ok_def)
qed

lemma mem_append_succeeds:
  assumes "\<not> fenced_out tok (entry_of k s)" and "advance_seq (se_last_seq (entry_of k s)) rs = Some q"
  shows "fst (append_batch k tok rs s) = Inr ()"
  using assms by (simp add: append_batch_def Let_def)

lemma mem_process_succeeds:
  assumes "eo_inv entry_of store_wf wc rc k u B R x" and "eo_op_ok u (Process m acts)" and "length acts + 2 \<le> B"
    and "\<not> is_duplicate (mk_sender m) (mk_seq m) (eo_lane x)"
  shows "eo_msgs (eo_step mem_ops wc rc (Process m acts) x) = eo_msgs x @ [m]"
proof -
  let ?l = "eo_lane x" and ?e = "entry_of k (eo_store x)" and ?c = "handle (eo_lane x) m acts"
  have i: "ln_self ?l = k" "ln_fence ?l = se_owner ?e" "ln_next_seq ?l = se_last_seq ?e + 1" "unat (se_last_seq ?e) + B < 2 ^ 64 - 1"
    "token_value (se_owner ?e) \<noteq> 0"
    using assms(1) by (simp_all add: eo_inv_def Let_def)
  have "staged ?l m (length acts) ?c" using assms(2) by (intro staged_handle) simp_all
  from length_batch_of(2) [OF this] have len: "length (batch_of ?c) \<le> length acts + 2" .
  have "\<not> fenced_out (ln_fence ?l) ?e" using i(2,5) by (simp add: fenced_out_def is_unfenced_def)
  moreover have "advance_seq (se_last_seq ?e) (number_records (ln_next_seq ?l) (batch_of ?c)) = Some (se_last_seq ?e + of_nat (length (batch_of ?c)))"
    unfolding i(3) using len i(4) assms(3) by (intro advance_numbered) linarith
  ultimately have "fst (append_batch k (ln_fence ?l) (number_records (ln_next_seq ?l) (batch_of ?c)) (eo_store x)) = Inr ()"
    by (rule mem_append_succeeds)
  then obtain s' where "append_batch k (ln_fence ?l) (number_records (ln_next_seq ?l) (batch_of ?c)) (eo_store x) = (Inr (), s')"
    by (metis prod.collapse)
  then have "\<exists>y l'. commit_commit mem_ops ?c ?l (eo_store x) = (Inr y, l', s')"
    by (simp add: commit_commit_def commit_batch_eq Let_def i(1) mem_ops_def)
  with assms(4) show ?thesis by (auto simp: Let_def)
qed


definition sample_event :: durable_type where
  "sample_event = \<lparr> dt_salt = None, dt_fields = [(1, MInt 32 True)], dt_version = 1, dt_default = [VInt 0] \<rparr>"

definition sample_history :: "eo_op list" where
  "sample_history =
     [Process \<lparr> mk_sender = 5, mk_seq = 1 \<rparr> [Emit sample_event [VInt 7], Send (ActorId 2 9) sample_event [VInt 8], Reply sample_event [VInt 9]],
      Process \<lparr> mk_sender = 5, mk_seq = 1 \<rparr> [Emit sample_event [VInt 7]], CrashRecover,
      ZombieProcess 0 \<lparr> mk_sender = 5, mk_seq = 2 \<rparr> [Emit sample_event [VInt 1]],
      Process \<lparr> mk_sender = 5, mk_seq = 2 \<rparr> [Send (ActorId 2 9) sample_event [VInt 3]], Acked 0 0]"



end
