(* ===== verification/Wire_Codec.thy ===== *)
theory Wire_Codec
  imports Ids
begin

text \<open>
  The wire frame of \<open>include/quark/core/transport.hpp\<close> and its codec and stream reassembler of
  \<open>include/quark/net/wire_codec.hpp\<close>.  An enumeration with a fixed 8-bit underlying type is its byte, as
  the decoder casts any byte to it.  \<open>FrameStream\<close> is the state \<open>frame_stream\<close>; its callback is the list
  of the frames handed to it.  The one addition of the source that is made in 32 bits (\<open>4u + body_len\<close>)
  is made in 32 bits here; where it wraps, the source goes on with a body that it has not checked to be in
  the buffer, and the model stops with the outcome \<open>Length_Overflow\<close>.
\<close>

section \<open>Frames\<close>

type_synonym frame_kind = u8

definition kind_data :: frame_kind where "kind_data = 0"
definition kind_control :: frame_kind where "kind_control = 1"
definition kind_authenticate :: frame_kind where "kind_authenticate = 2"
definition kind_schema :: frame_kind where "kind_schema = 3"
definition kind_dial_hint :: frame_kind where "kind_dial_hint = 4"

record peer_address =
  pa_addr :: u64
  pa_port :: "16 word"
  pa_valid :: bool

definition no_peer_address :: peer_address where
  "no_peer_address = \<lparr> pa_addr = 0, pa_port = 0, pa_valid = False \<rparr>"

record message_frame =
  mf_from :: node_id
  mf_to :: node_id
  mf_target :: actor_id
  mf_msg_type :: type_key
  mf_mode :: u8
  mf_deadline_ns :: u64
  mf_trace_id :: u64
  mf_payload :: bytes
  mf_kind :: frame_kind
  mf_principal :: principal
  mf_source_address :: peer_address
  mf_inbound_token :: u64
  mf_admission_generation :: u64

text \<open>The frame as the receiver gets it: the transport-local fields are not on the wire.\<close>

definition wire_part :: "message_frame \<Rightarrow> message_frame" where
  "wire_part f = f\<lparr> mf_source_address := no_peer_address, mf_inbound_token := 0, mf_admission_generation := 0 \<rparr>"

definition max_frame_body :: u32 where
  "max_frame_body = 4 * 1024 * 1024"

definition frame_body_header_size :: u32 where
  "frame_body_header_size = 5 * 8 + 2 + 4 * 8 + 4"

definition max_payload_for_body_cap :: "u32 \<Rightarrow> u32 \<Rightarrow> u32" where
  "max_payload_for_body_cap max_body overhead =
     (let fixed = frame_body_header_size + overhead in if fixed < max_body then max_body - fixed else 0)"

definition sealed_seq_prefix_size :: u32 where
  "sealed_seq_prefix_size = 8"

definition max_sealed_payload_for_body_cap :: "u32 \<Rightarrow> u32 \<Rightarrow> u32" where
  "max_sealed_payload_for_body_cap max_body tag_size =
     max_payload_for_body_cap max_body (sealed_seq_prefix_size + tag_size)"

definition frame_kind_offset :: nat where
  "frame_kind_offset = 4 + 5 * 8 + 1"

section \<open>Writing and reading\<close>

definition put_u8 :: "bytes \<Rightarrow> u8 \<Rightarrow> bytes" where
  "put_u8 b v = b @ [v]"

fun put_int :: "nat \<Rightarrow> nat \<Rightarrow> bytes \<Rightarrow> 'a::len word \<Rightarrow> bytes" where
  "put_int 0 i b v = b"
| "put_int (Suc n) i b v = put_int n (Suc i) (put_u8 b (ucast (drop_bit (8 * i) v))) v"

definition put_u32 :: "bytes \<Rightarrow> u32 \<Rightarrow> bytes" where
  "put_u32 b v = put_int 4 0 b v"

definition put_u64 :: "bytes \<Rightarrow> u64 \<Rightarrow> bytes" where
  "put_u64 b v = put_int 8 0 b v"

record reader =
  rd_rest :: bytes
  rd_ok :: bool

definition rd_u8 :: "reader \<Rightarrow> u8 \<times> reader" where
  "rd_u8 r = (case rd_rest r of [] \<Rightarrow> (0, r\<lparr> rd_ok := False \<rparr>) | b # bs \<Rightarrow> (b, r\<lparr> rd_rest := bs \<rparr>))"

fun rd_int :: "nat \<Rightarrow> nat \<Rightarrow> 'a::len word \<Rightarrow> reader \<Rightarrow> 'a word \<times> reader" where
  "rd_int 0 i v r = (v, r)"
| "rd_int (Suc n) i v r = (case rd_u8 r of (b, r') \<Rightarrow> rd_int n (Suc i) (v OR push_bit (8 * i) (ucast b)) r')"

definition rd_u32 :: "reader \<Rightarrow> u32 \<times> reader" where
  "rd_u32 r = rd_int 4 0 0 r"

definition rd_u64 :: "reader \<Rightarrow> u64 \<times> reader" where
  "rd_u64 r = rd_int 8 0 0 r"

lemma put_int_eq: "put_int n i b v = b @ map (\<lambda>j. ucast (drop_bit (8 * j) v)) [i..<i + n]"
proof (induction n i b v rule: put_int.induct)
  case (2 n i b v)
  have "[i..<i + Suc n] = i # [Suc i..<i + Suc n]" by (rule upt_conv_Cons) simp
  with 2 show ?case by (simp add: put_u8_def del: upt_Suc)
qed simp

lemma put_u32_eq [wire_simps]: "put_u32 b v = b @ put_le 4 v"
  by (simp add: put_u32_def put_int_eq put_le_def)

lemma put_u64_eq [wire_simps]: "put_u64 b v = b @ put_le 8 v"
  by (simp add: put_u64_def put_int_eq put_le_def)

lemma rd_int_bytes:
  "rd_int (length bs) i v \<lparr> rd_rest = bs @ rest, rd_ok = ok \<rparr> = (v OR get_le_from i bs, \<lparr> rd_rest = rest, rd_ok = ok \<rparr>)"
  by (induction bs arbitrary: i v) (simp_all add: rd_u8_def or.assoc)

lemma rd_u32_put [wire_simps]:
  "rd_u32 \<lparr> rd_rest = put_le 4 v @ rest, rd_ok = ok \<rparr> = (v, \<lparr> rd_rest = rest, rd_ok = ok \<rparr>)"
  using rd_int_bytes [of "put_le 4 v" 0 "0 :: u32" rest ok, folded get_le_def] by (simp add: rd_u32_def)

lemma rd_u64_put [wire_simps]:
  "rd_u64 \<lparr> rd_rest = put_le 8 v @ rest, rd_ok = ok \<rparr> = (v, \<lparr> rd_rest = rest, rd_ok = ok \<rparr>)"
  using rd_int_bytes [of "put_le 8 v" 0 "0 :: u64" rest ok, folded get_le_def] by (simp add: rd_u64_def)

lemma rd_u8_Cons [wire_simps]: "rd_u8 \<lparr> rd_rest = b # rest, rd_ok = ok \<rparr> = (b, \<lparr> rd_rest = rest, rd_ok = ok \<rparr>)"
  by (simp add: rd_u8_def)

text \<open>The flag is sticky, and it tells a complete read from one that ran out.\<close>

lemma rd_int_spec:
  "rd_ok (snd (rd_int n i v r)) \<longleftrightarrow> rd_ok r \<and> n \<le> length (rd_rest r)"
  "length (rd_rest (snd (rd_int n i v r))) = length (rd_rest r) - n"
  by (induction n i v r rule: rd_int.induct) (auto simp: rd_u8_def split: list.splits)

definition encode_frame_body :: "message_frame \<Rightarrow> bytes \<Rightarrow> bytes" where
  "encode_frame_body f out0 =
     (let o1 = put_u64 out0 (mf_from f); o2 = put_u64 o1 (mf_to f); o3 = put_u64 o2 (aid_type (mf_target f));
          o4 = put_u64 o3 (aid_key (mf_target f)); o5 = put_u64 o4 (mf_msg_type f); o6 = put_u8 o5 (mf_mode f);
          o7 = put_u8 o6 (mf_kind f); o8 = put_u64 o7 (mf_deadline_ns f); o9 = put_u64 o8 (mf_trace_id f);
          o10 = put_u64 o9 (subject (mf_principal f)); o11 = put_u64 o10 (rights (mf_principal f));
          o12 = put_u32 o11 (word_of_nat (length (mf_payload f)))
      in o12 @ mf_payload f)"

definition encode_frame :: "message_frame \<Rightarrow> bytes" where
  "encode_frame f = (let body = encode_frame_body f [] in put_u32 [] (word_of_nat (length body)) @ body)"

definition decode_frame_body :: "bytes \<Rightarrow> message_frame option" where
  "decode_frame_body body =
     (let r0 = \<lparr> rd_rest = body, rd_ok = True \<rparr>;
          (from, r1) = rd_u64 r0; (dest, r2) = rd_u64 r1; (ttype, r3) = rd_u64 r2; (tkey, r4) = rd_u64 r3;
          (msg, r5) = rd_u64 r4; (mode, r6) = rd_u8 r5; (kind, r7) = rd_u8 r6; (dl, r8) = rd_u64 r7;
          (trace, r9) = rd_u64 r8; (sub, r10) = rd_u64 r9; (rts, r11) = rd_u64 r10; (plen, r12) = rd_u32 r11
      in if \<not> rd_ok r12 then None
         else if length (rd_rest r12) < unat plen then None
         else Some \<lparr> mf_from = from, mf_to = dest, mf_target = ActorId ttype tkey, mf_msg_type = msg, mf_mode = mode,
                mf_deadline_ns = dl, mf_trace_id = trace, mf_payload = take (unat plen) (rd_rest r12), mf_kind = kind,
                mf_principal = \<lparr> subject = sub, rights = rts \<rparr>, mf_source_address = no_peer_address,
                mf_inbound_token = 0, mf_admission_generation = 0 \<rparr>)"

definition kAnonOpenerMax :: nat where
  "kAnonOpenerMax = 1024"

definition anonymous_opener_admissible :: "message_frame \<Rightarrow> bool \<Rightarrow> bool" where
  "anonymous_opener_admissible f opener_already_seen \<longleftrightarrow>
     \<not> opener_already_seen \<and> mf_kind f = kind_authenticate \<and> mf_from f = 0 \<and> mf_to f = 0 \<and>
     length (mf_payload f) \<le> kAnonOpenerMax"

section \<open>The stream reassembler\<close>

record frame_stream =
  fs_max_body :: u32
  fs_buf :: bytes

definition clamp_body :: "u32 \<Rightarrow> u32" where
  "clamp_body n = (if n = 0 then 1 else n)"

definition frame_stream_create :: "u32 \<Rightarrow> frame_stream" where
  "frame_stream_create n = \<lparr> fs_max_body = clamp_body n, fs_buf = [] \<rparr>"

definition set_max_body :: "u32 \<Rightarrow> frame_stream \<Rightarrow> frame_stream" where
  "set_max_body n s = s\<lparr> fs_max_body := clamp_body n \<rparr>"

definition buffered :: "frame_stream \<Rightarrow> nat" where
  "buffered s = length (fs_buf s)"

definition clear_stream :: "frame_stream \<Rightarrow> frame_stream" where
  "clear_stream s = s\<lparr> fs_buf := [] \<rparr>"

datatype feed_outcome = Progress | Protocol_Error | Length_Overflow

definition read_u32 :: "bytes \<Rightarrow> nat \<Rightarrow> u32" where
  "read_u32 buf pos = get_le (take 4 (drop pos buf))"

text \<open>
  The loop of \<open>feed\<close>: the position, then the frames handed to the callback, the outcome and the position
  reached.
\<close>

function feed_loop :: "u32 \<Rightarrow> bytes \<Rightarrow> nat \<Rightarrow> message_frame list \<times> feed_outcome \<times> nat" where
  "feed_loop max_body buf pos =
     (if length buf - pos < 4 then ([], Progress, pos)
      else let body_len = read_u32 buf pos in
        if max_body < body_len then ([], Protocol_Error, pos)
        else if body_len = 0 then ([], Protocol_Error, pos)
        else if length buf - pos < unat (4 + body_len) then ([], Progress, pos)
        else if unat (4 + body_len) \<noteq> 4 + unat body_len then ([], Length_Overflow, pos)
        else case decode_frame_body (take (unat body_len) (drop (pos + 4) buf)) of
            None \<Rightarrow> ([], Protocol_Error, pos)
          | Some f \<Rightarrow> (case feed_loop max_body buf (pos + unat (4 + body_len)) of (fs, res) \<Rightarrow> (f # fs, res)))"
  by pat_completeness auto

termination
  by (relation "measure (\<lambda>(mx, buf, pos). length buf - pos)") auto

declare feed_loop.simps [simp del]

definition feed :: "bytes \<Rightarrow> frame_stream \<Rightarrow> message_frame list \<times> feed_outcome \<times> frame_stream" where
  "feed data s =
     (let buf = fs_buf s @ data in
      case feed_loop (fs_max_body s) buf 0 of
        (fs, Progress, pos) \<Rightarrow> (fs, Progress, s\<lparr> fs_buf := (if 0 < pos then drop pos buf else buf) \<rparr>)
      | (fs, err, pos) \<Rightarrow> (fs, err, s\<lparr> fs_buf := buf \<rparr>))"

text \<open>A receive loop: chunks as they arrive; the connection is dropped at the first failure.\<close>

fun feed_all :: "bytes list \<Rightarrow> frame_stream \<Rightarrow> message_frame list \<times> feed_outcome \<times> frame_stream" where
  "feed_all [] s = ([], Progress, s)"
| "feed_all (c # cs) s =
     (case feed c s of
        (fs, Progress, s') \<Rightarrow> (case feed_all cs s' of (fs', res) \<Rightarrow> (fs @ fs', res))
      | (fs, err, s') \<Rightarrow> (fs, err, s'))"

section \<open>Encoding and decoding one frame\<close>

definition frame_header :: "message_frame \<Rightarrow> bytes" where
  "frame_header f = put_le 8 (mf_from f) @ put_le 8 (mf_to f) @ put_le 8 (aid_type (mf_target f)) @ put_le 8 (aid_key (mf_target f)) @
     put_le 8 (mf_msg_type f) @ [mf_mode f, mf_kind f] @ put_le 8 (mf_deadline_ns f) @ put_le 8 (mf_trace_id f) @
     put_le 8 (subject (mf_principal f)) @ put_le 8 (rights (mf_principal f)) @
     put_le 4 (word_of_nat (length (mf_payload f)) :: u32)"

lemma encode_frame_body_eq: "encode_frame_body f out = out @ frame_header f @ mf_payload f"
  by (simp add: encode_frame_body_def frame_header_def wire_simps put_u8_def)

lemma length_frame_header [simp]: "length (frame_header f) = unat frame_body_header_size"
  by (simp add: frame_header_def frame_body_header_size_def)

lemma decode_frame_header:
  "decode_frame_body (frame_header f @ rest) =
     (let n = unat (word_of_nat (length (mf_payload f)) :: u32) in
      if length rest < n then None else Some (wire_part f\<lparr> mf_payload := take n rest \<rparr>))"
  by (simp add: decode_frame_body_def frame_header_def wire_simps wire_part_def Let_def)

definition fits_frame :: "message_frame \<Rightarrow> bool" where
  "fits_frame f \<longleftrightarrow> length (mf_payload f) < 2 ^ 32"

lemma decode_encode_frame_body: "fits_frame f \<Longrightarrow> decode_frame_body (encode_frame_body f []) = Some (wire_part f)"
  by (simp add: encode_frame_body_eq decode_frame_header fits_frame_def unat_of_nat take_bit_nat_eq_self Let_def wire_part_def)

text \<open>A read that succeeds consumed the encoding of its value.\<close>

lemma rd_int_complete:
  assumes "rd_int n 0 (0 :: 'a::len word) r = (x, r')" and "rd_ok r'" and "8 * n = LENGTH('a)"
  shows "rd_ok r \<and> rd_rest r = put_le n x @ rd_rest r'"
proof -
  from assms(1,2) have ok: "rd_ok r" "n \<le> length (rd_rest r)" using rd_int_spec(1) [of n 0 "0 :: 'a word" r] by auto
  let ?bs = "take n (rd_rest r)"
  have r: "r = \<lparr> rd_rest = ?bs @ drop n (rd_rest r), rd_ok = True \<rparr>" "length ?bs = n" using ok by (cases r; simp)+
  then have "rd_int n 0 (0 :: 'a word) r = (get_le ?bs, \<lparr> rd_rest = drop n (rd_rest r), rd_ok = True \<rparr>)"
    using rd_int_bytes [of ?bs 0 "0 :: 'a word" "drop n (rd_rest r)" True, folded get_le_def] by simp
  with assms(1) have "x = get_le ?bs" "rd_rest r' = drop n (rd_rest r)" by auto
  with ok put_get_le [OF r(2) assms(3)] show ?thesis by simp
qed

lemma rd_complete:
  "rd_u64 r = (x, r') \<Longrightarrow> rd_ok r' \<Longrightarrow> rd_ok r \<and> rd_rest r = put_le 8 x @ rd_rest r'"
  "rd_u32 r = (y, r') \<Longrightarrow> rd_ok r' \<Longrightarrow> rd_ok r \<and> rd_rest r = put_le 4 y @ rd_rest r'"
  "rd_u8 r = (b, r') \<Longrightarrow> rd_ok r' \<Longrightarrow> rd_ok r \<and> rd_rest r = b # rd_rest r'"
  unfolding rd_u64_def rd_u32_def
  by (auto dest: rd_int_complete simp: rd_u8_def split: list.splits)

lemma decode_frame_body_inverse:
  assumes "decode_frame_body body = Some f"
  shows "\<exists>rest. body = encode_frame_body f [] @ rest" and "fits_frame f" and "wire_part f = f"
proof -
  obtain a b c d e m k g h i j n r0 r1 r2 r3 r4 r5 r6 r7 r8 r9 r10 r11 where
    r: "rd_u64 \<lparr> rd_rest = body, rd_ok = True \<rparr> = (a, r0)" "rd_u64 r0 = (b, r1)" "rd_u64 r1 = (c, r2)" "rd_u64 r2 = (d, r3)"
      "rd_u64 r3 = (e, r4)" "rd_u8 r4 = (m, r5)" "rd_u8 r5 = (k, r6)" "rd_u64 r6 = (g, r7)" "rd_u64 r7 = (h, r8)"
      "rd_u64 r8 = (i, r9)" "rd_u64 r9 = (j, r10)" "rd_u32 r10 = (n, r11)"
    and ok: "rd_ok r11" "unat n \<le> length (rd_rest r11)"
    and f: "f = \<lparr> mf_from = a, mf_to = b, mf_target = ActorId c d, mf_msg_type = e, mf_mode = m,
                mf_deadline_ns = g, mf_trace_id = h, mf_payload = take (unat n) (rd_rest r11), mf_kind = k,
                mf_principal = \<lparr> subject = i, rights = j \<rparr>, mf_source_address = no_peer_address,
                mf_inbound_token = 0, mf_admission_generation = 0 \<rparr>"
    using assms unfolding decode_frame_body_def Let_def by (auto split: prod.splits if_splits)
  have len: "length (mf_payload f) = unat n" using f ok by simp
  have bd: "unat n < 2 ^ 32" using unsigned_less [of n] by simp
  note t11 = rd_complete(2) [OF r(12) ok(1)]
  note t10 = rd_complete(1) [OF r(11) t11 [THEN conjunct1]]
  note t9 = rd_complete(1) [OF r(10) t10 [THEN conjunct1]]
  note t8 = rd_complete(1) [OF r(9) t9 [THEN conjunct1]]
  note t7 = rd_complete(1) [OF r(8) t8 [THEN conjunct1]]
  note t6 = rd_complete(3) [OF r(7) t7 [THEN conjunct1]]
  note t5 = rd_complete(3) [OF r(6) t6 [THEN conjunct1]]
  note t4 = rd_complete(1) [OF r(5) t5 [THEN conjunct1]]
  note t3 = rd_complete(1) [OF r(4) t4 [THEN conjunct1]]
  note t2 = rd_complete(1) [OF r(3) t3 [THEN conjunct1]]
  note t1 = rd_complete(1) [OF r(2) t2 [THEN conjunct1]]
  note t0 = rd_complete(1) [OF r(1) t1 [THEN conjunct1]]
  have "body = frame_header f @ rd_rest r11"
    using t11 t10 t9 t8 t7 t6 t5 t4 t3 t2 t1 t0 len f by (simp add: frame_header_def)
  then have "body = encode_frame_body f [] @ drop (unat n) (rd_rest r11)" using f by (simp add: encode_frame_body_eq)
  then show "\<exists>rest. body = encode_frame_body f [] @ rest" by blast
  show "fits_frame f" using len bd by (simp add: fits_frame_def)
  show "wire_part f = f" using f by (simp add: wire_part_def)
qed

lemma length_encode_frame_body: "length (encode_frame_body f []) = unat frame_body_header_size + length (mf_payload f)"
  by (simp add: encode_frame_body_eq)

lemma decode_frame_body_length:
  "decode_frame_body body = Some f \<Longrightarrow> unat frame_body_header_size + length (mf_payload f) \<le> length body"
  using decode_frame_body_inverse(1) [of body f] by (auto simp: length_encode_frame_body)

section \<open>Reassembly\<close>

text \<open>
  The loop on the bytes left: what it emits, its outcome, and the bytes that stay buffered.  It is the loop
  without the position.
\<close>

definition drain :: "u32 \<Rightarrow> bytes \<Rightarrow> message_frame list \<times> feed_outcome \<times> bytes" where
  "drain mx buf = (case feed_loop mx buf 0 of (fs, res, pos) \<Rightarrow> (fs, res, drop pos buf))"

lemma feed_loop_shift:
  "feed_loop mx (pre @ buf) (length pre + pos) =
     (case feed_loop mx buf pos of (fs, res, p) \<Rightarrow> (fs, res, length pre + p))"
proof (induction mx buf pos rule: feed_loop.induct)
  case (1 mx buf pos)
  have rd: "read_u32 (pre @ buf) (length pre + pos) = read_u32 buf pos" by (simp add: read_u32_def)
  have dr: "drop (length pre + pos + 4) (pre @ buf) = drop (pos + 4) buf" by (simp add: add.assoc)
  show ?case
    using 1 by (subst (1 2) feed_loop.simps) (auto simp: Let_def rd dr add.assoc split: option.splits prod.splits)
qed

lemma drain_simps:
  "drain mx buf =
     (if length buf < 4 then ([], Progress, buf)
      else let body_len = read_u32 buf 0 in
        if mx < body_len \<or> body_len = 0 then ([], Protocol_Error, buf)
        else if length buf < unat (4 + body_len) then ([], Progress, buf)
        else if unat (4 + body_len) \<noteq> 4 + unat body_len then ([], Length_Overflow, buf)
        else case decode_frame_body (take (unat body_len) (drop 4 buf)) of
            None \<Rightarrow> ([], Protocol_Error, buf)
          | Some f \<Rightarrow> (case drain mx (drop (4 + unat body_len) buf) of (fs, res) \<Rightarrow> (f # fs, res)))"
proof -
  have "feed_loop mx buf n = (case feed_loop mx (drop n buf) 0 of (fs, res, p) \<Rightarrow> (fs, res, n + p))"
    if "n \<le> length buf" for n
    using feed_loop_shift [of mx "take n buf" "drop n buf" 0] that by simp
  then show ?thesis
    unfolding drain_def by (subst feed_loop.simps) (auto simp: Let_def ac_simps split: option.splits prod.splits)
qed

lemma feed_eq:
  "feed data s =
     (case drain (fs_max_body s) (fs_buf s @ data) of
        (fs, Progress, rest) \<Rightarrow> (fs, Progress, s\<lparr> fs_buf := rest \<rparr>)
      | (fs, err, rest) \<Rightarrow> (fs, err, s\<lparr> fs_buf := fs_buf s @ data \<rparr>))"
  by (auto simp: feed_def drain_def Let_def split: prod.splits feed_outcome.splits)

lemma drain_induct [case_names step]:
  assumes "\<And>buf. (\<And>n. n \<le> length buf \<Longrightarrow> 4 \<le> n \<Longrightarrow> P (drop n buf)) \<Longrightarrow> P buf"
  shows "P (buf :: bytes)"
proof (induction buf rule: length_induct)
  case (1 xs)
  show ?case by (rule assms) (use 1 in auto)
qed

lemma read_u32_append: "4 \<le> length buf \<Longrightarrow> read_u32 (buf @ ext) 0 = read_u32 buf 0"
  by (simp add: read_u32_def)

text \<open>More bytes do not change what was emitted or an error that was met; progress goes on from the rest.\<close>

lemma drain_append:
  "drain mx (buf @ ext) =
     (case drain mx buf of
        (fs, Progress, rest) \<Rightarrow> (case drain mx (rest @ ext) of (fs', res) \<Rightarrow> (fs @ fs', res))
      | (fs, err, rest) \<Rightarrow> (fs, err, rest @ ext))"
proof (induction buf rule: drain_induct)
  case (step buf)
  let ?l = "read_u32 buf 0"
  consider (partial) "length buf < 4 \<or> \<not> (mx < ?l \<or> ?l = 0) \<and> length buf < unat (4 + ?l)"
    | (bad) "4 \<le> length buf" "mx < ?l \<or> ?l = 0"
    | (full) "4 \<le> length buf" "\<not> (mx < ?l \<or> ?l = 0)" "unat (4 + ?l) \<le> length buf"
    by (meson not_less)
  then show ?case
  proof cases
    case partial
    then have "drain mx buf = ([], Progress, buf)" by (subst drain_simps) (auto simp: Let_def)
    then show ?thesis by (simp split: prod.splits)
  next
    case bad
    then show ?thesis by (subst (1 2) drain_simps) (simp add: read_u32_append Let_def)
  next
    case full
    show ?thesis
    proof (cases "unat (4 + ?l) = 4 + unat ?l")
      case False
      with full show ?thesis by (subst (1 2) drain_simps) (simp add: read_u32_append Let_def)
    next
      case True
      let ?n = "4 + unat ?l"
      have n: "?n \<le> length buf" using full True by simp
      have body: "take (unat ?l) (drop 4 (buf @ ext)) = take (unat ?l) (drop 4 buf)" using n by simp
      have rest: "drop ?n (buf @ ext) = drop ?n buf @ ext" using n by simp
      let ?d = "decode_frame_body (take (unat ?l) (drop 4 buf))"
      have e: "drain mx b = (case ?d of None \<Rightarrow> ([], Protocol_Error, b)
          | Some f \<Rightarrow> (case drain mx (drop ?n b) of (fs, res) \<Rightarrow> (f # fs, res)))" if "b = buf \<or> b = buf @ ext" for b
        using that full True body by (subst drain_simps) (auto simp: read_u32_append Let_def cong: option.case_cong)
      have ih: "drain mx (drop ?n (buf @ ext)) = (case drain mx (drop ?n buf) of
          (fs, Progress, rest) \<Rightarrow> (case drain mx (rest @ ext) of (fs', res) \<Rightarrow> (fs @ fs', res))
        | (fs, err, rest) \<Rightarrow> (fs, err, rest @ ext))" using step [OF n] rest by simp
      show ?thesis
        unfolding e [OF disjI2 [OF refl]] e [OF disjI1 [OF refl]] ih
        by (simp split: option.splits prod.splits feed_outcome.splits)
    qed
  qed
qed

section \<open>Properties of the stream\<close>

lemma drain_rest: "drain mx buf = (fs, Progress, rest) \<Longrightarrow> drain mx rest = ([], Progress, rest)"
  using drain_append [of mx buf "[]"] by (auto split: prod.splits)

text \<open>
  What a caller can observe of a receive loop: the frames, the outcome, and the state unless the connection
  is to be dropped.
\<close>

definition observed :: "message_frame list \<times> feed_outcome \<times> frame_stream \<Rightarrow> message_frame list \<times> feed_outcome \<times> frame_stream option" where
  "observed = (\<lambda>(fs, res, s). (fs, res, if res = Progress then Some s else None))"

definition drained :: "frame_stream \<Rightarrow> bool" where
  "drained s \<longleftrightarrow> drain (fs_max_body s) (fs_buf s) = ([], Progress, fs_buf s)"

lemma drained_create [simp]: "drained (frame_stream_create m)"
  unfolding drained_def frame_stream_create_def by (subst drain_simps) simp

lemma feed_drained: "feed data s = (fs, Progress, s') \<Longrightarrow> drained s' \<and> fs_max_body s' = fs_max_body s"
  by (auto simp: feed_eq drained_def dest: drain_rest split: prod.splits feed_outcome.splits)

lemma feed_append:
  "observed (feed (a @ b) s) =
     observed (case feed a s of (fs, Progress, s') \<Rightarrow> (case feed b s' of (fs', res) \<Rightarrow> (fs @ fs', res)) | (fs, err, s') \<Rightarrow> (fs, err, s'))"
proof -
  obtain fs res rest where d: "drain (fs_max_body s) (fs_buf s @ a) = (fs, res, rest)"
    by (cases "drain (fs_max_body s) (fs_buf s @ a)")
  obtain fs' res' rest' where d': "drain (fs_max_body s) (rest @ b) = (fs', res', rest')"
    by (cases "drain (fs_max_body s) (rest @ b)")
  note da = drain_append [of "fs_max_body s" "fs_buf s @ a" b, unfolded append_assoc]
  have "drain (fs_max_body s) (fs_buf s @ a @ b) =
      (if res = Progress then (fs @ fs', res', rest') else (fs, res, rest @ b))"
    unfolding da d prod.case d' by (cases res) (simp_all only: feed_outcome.case d' prod.case feed_outcome.distinct if_True if_False simp_thms)
  then show ?thesis unfolding feed_eq d append_assoc prod.case
    by (cases res; cases res') (simp_all add: observed_def feed_eq d')
qed

lemma observed_prepend:
  "observed r = observed r' \<Longrightarrow>
     observed (case r of (fs', res) \<Rightarrow> (fs @ fs', res)) = observed (case r' of (fs', res) \<Rightarrow> (fs @ fs', res))"
  by (auto simp: observed_def split: prod.splits)

lemma feed_all_concat: "drained s \<Longrightarrow> observed (feed_all cs s) = observed (feed (concat cs) s)"
proof (induction cs arbitrary: s)
  case Nil
  then show ?case by (simp add: feed_eq drained_def)
next
  case (Cons c cs)
  obtain fs res s' where f: "feed c s = (fs, res, s')" by (cases "feed c s")
  show ?case
  proof (cases "res = Progress")
    case True
    have "observed (feed_all cs s') = observed (feed (concat cs) s')"
      using f True feed_drained Cons.IH by blast
    then have "observed (case feed_all cs s' of (fs', res) \<Rightarrow> (fs @ fs', res)) =
        observed (case feed (concat cs) s' of (fs', res) \<Rightarrow> (fs @ fs', res))" by (rule observed_prepend)
    then show ?thesis using f True by (simp add: feed_append)
  next
    case False
    then show ?thesis using f by (cases res) (simp_all add: feed_append)
  qed
qed

text \<open>
  Property C25.  Stream reassembly does not depend on how the bytes were split into receives: the frames, the
  outcome and, unless the connection is to be dropped, the state are those of one receive of all the bytes,
  whatever the bytes are.
\<close>

theorem chunking_irrelevant:
  "observed (feed_all cs (frame_stream_create m)) = observed (feed (concat cs) (frame_stream_create m))"
  by (rule feed_all_concat) simp

definition within_cap :: "u32 \<Rightarrow> message_frame \<Rightarrow> bool" where
  "within_cap mx f \<longleftrightarrow> unat frame_body_header_size + length (mf_payload f) \<le> unat mx"

definition no_overflow_cap :: "u32 \<Rightarrow> bool" where
  "no_overflow_cap mx \<longleftrightarrow> mx \<le> 0xFFFFFFFB"

lemma cap_add:
  assumes "no_overflow_cap mx" and "l \<le> mx"
  shows "unat (4 + l) = 4 + unat l"
proof -
  have "unat l \<le> 0xFFFFFFFB" using assms unfolding no_overflow_cap_def by (simp add: word_le_nat_alt)
  then show ?thesis by (subst unat_add_lem [THEN iffD1]) simp_all
qed

lemma unat_u32_less: "unat (x :: u32) < 2 ^ 32"
proof -
  have "unat x < 2 ^ LENGTH(32)" by (rule unsigned_less)
  then show ?thesis by simp
qed

lemma within_cap_fits: "within_cap mx f \<Longrightarrow> fits_frame f"
  using unat_u32_less [of mx] by (simp add: within_cap_def fits_frame_def)

lemma length_encode_frame: "length (encode_frame f) = 4 + length (encode_frame_body f [])"
  by (simp add: encode_frame_def Let_def wire_simps)

lemma body_prefix:
  assumes "within_cap mx f"
  shows "unat (word_of_nat (length (encode_frame_body f [])) :: u32) = length (encode_frame_body f [])"
    and "(word_of_nat (length (encode_frame_body f [])) :: u32) \<le> mx"
    and "(word_of_nat (length (encode_frame_body f [])) :: u32) \<noteq> 0"
proof -
  let ?n = "length (encode_frame_body f [])"
  have n: "?n \<le> unat mx" "0 < ?n" using assms by (simp_all add: within_cap_def length_encode_frame_body frame_body_header_size_def)
  then show u: "unat (word_of_nat ?n :: u32) = ?n"
    using unat_u32_less [of mx] by (simp add: unat_of_nat take_bit_nat_eq_self)
  then show "(word_of_nat ?n :: u32) \<le> mx" using n by (simp add: word_le_nat_alt)
  show "(word_of_nat ?n :: u32) \<noteq> 0" using u n by auto
qed

lemma drain_step:
  assumes "4 + unat (read_u32 buf 0) \<le> length buf" and "read_u32 buf 0 \<le> mx" and "read_u32 buf 0 \<noteq> 0"
    and "no_overflow_cap mx"
  shows "drain mx buf = (case decode_frame_body (take (unat (read_u32 buf 0)) (drop 4 buf)) of
            None \<Rightarrow> ([], Protocol_Error, buf)
          | Some f \<Rightarrow> (case drain mx (drop (4 + unat (read_u32 buf 0)) buf) of (fs, res) \<Rightarrow> (f # fs, res)))"
  using assms cap_add [OF assms(4,2)] by (subst drain_simps) (simp add: Let_def not_less [symmetric])

lemma drain_frame:
  assumes "within_cap mx f" and "no_overflow_cap mx"
  shows "drain mx (encode_frame f @ buf) = (case drain mx buf of (fs, res) \<Rightarrow> (wire_part f # fs, res))"
proof -
  let ?b = "encode_frame_body f []" and ?buf = "encode_frame f @ buf"
  let ?l = "word_of_nat (length ?b) :: u32"
  note p = body_prefix [OF assms(1)]
  have buf: "?buf = put_le 4 ?l @ ?b @ buf" by (simp add: encode_frame_def Let_def wire_simps)
  have rd: "read_u32 ?buf 0 = ?l" unfolding buf read_u32_def by simp
  have bd: "take (unat ?l) (drop 4 ?buf) = ?b" "drop (4 + unat ?l) ?buf = buf" unfolding buf p(1) by simp_all
  have dec: "decode_frame_body ?b = Some (wire_part f)"
    using decode_encode_frame_body [OF within_cap_fits [OF assms(1)]] .
  have "4 + unat ?l \<le> length ?buf" using p(1) by (simp add: length_encode_frame)
  then have "drain mx ?buf = (case decode_frame_body (take (unat ?l) (drop 4 ?buf)) of
            None \<Rightarrow> ([], Protocol_Error, ?buf)
          | Some f \<Rightarrow> (case drain mx (drop (4 + unat ?l) ?buf) of (fs, res) \<Rightarrow> (f # fs, res)))"
    using drain_step [of ?buf mx, unfolded rd] p(2,3) assms(2) by blast
  then show ?thesis unfolding bd dec option.case .
qed

lemma drain_frames:
  assumes "\<forall>f. f \<in> set fs \<longrightarrow> within_cap mx f" and "no_overflow_cap mx"
  shows "drain mx (concat (map encode_frame fs) @ buf) = (case drain mx buf of (fs', res) \<Rightarrow> (map wire_part fs @ fs', res))"
  using assms(1) by (induction fs) (auto simp: drain_frame assms(2) split: prod.splits)

lemma drain_partial:
  assumes "within_cap mx f" and "no_overflow_cap mx" and "encode_frame f = tail @ x # xs"
  shows "drain mx tail = ([], Progress, tail)"
proof (cases "length tail < 4")
  case True
  then show ?thesis by (subst drain_simps) simp
next
  case False
  let ?l = "word_of_nat (length (encode_frame_body f [])) :: u32"
  note p = body_prefix [OF assms(1)]
  have "read_u32 (encode_frame f) 0 = ?l" by (simp add: encode_frame_def Let_def wire_simps read_u32_def)
  then have rd: "read_u32 tail 0 = ?l" using False assms(3) read_u32_append [of tail "x # xs"] by simp
  have "length tail < 4 + length (encode_frame_body f [])"
    using arg_cong [OF assms(3), of length] by (simp add: length_encode_frame)
  then have "length tail < unat (4 + ?l)" using cap_add [OF assms(2) p(2)] p(1) by simp
  with False p show ?thesis by (subst drain_simps) (simp add: rd Let_def not_less)
qed

text \<open>
  Property C26.  The receiver of a byte stream that carries encoded frames and the beginning of one more gets
  exactly those frames, in order, however the stream was cut into receives, and keeps the beginning.
\<close>

theorem stream_round_trip:
  assumes "\<forall>f. f \<in> set (g # fs) \<longrightarrow> within_cap (clamp_body m) f" and "no_overflow_cap (clamp_body m)"
    and "concat cs = concat (map encode_frame fs) @ tail" and "encode_frame g = tail @ x # xs"
  shows "feed_all cs (frame_stream_create m) =
    (map wire_part fs, Progress, \<lparr> fs_max_body = clamp_body m, fs_buf = tail \<rparr>)"
proof -
  have "drain (clamp_body m) (concat cs) = (map wire_part fs, Progress, tail)"
    using assms drain_frames [of fs "clamp_body m" tail] drain_partial [of "clamp_body m" g tail x xs] by simp
  then have "feed (concat cs) (frame_stream_create m) = (map wire_part fs, Progress, \<lparr> fs_max_body = clamp_body m, fs_buf = tail \<rparr>)"
    by (simp add: feed_eq frame_stream_create_def)
  then have "observed (feed_all cs (frame_stream_create m)) =
      (map wire_part fs, Progress, Some \<lparr> fs_max_body = clamp_body m, fs_buf = tail \<rparr>)"
    unfolding feed_all_concat [OF drained_create] by (simp add: observed_def)
  then show ?thesis by (auto simp: observed_def split: prod.splits if_splits)
qed

text \<open>
  What a stream can do to the receiver: with a cap that leaves room for the length prefix the length sum
  never wraps, no more than a frame stays buffered, and every frame handed up fits the cap.
\<close>

lemma drain_bounds:
  assumes "drain mx buf = (fs, res, rest)" and "no_overflow_cap mx"
  shows "res \<noteq> Length_Overflow" and "res = Progress \<Longrightarrow> length rest < 4 + unat mx" and "\<forall>f. f \<in> set fs \<longrightarrow> within_cap mx f"
proof -
  have "res \<noteq> Length_Overflow \<and> (res = Progress \<longrightarrow> length rest < 4 + unat mx) \<and> (\<forall>f. f \<in> set fs \<longrightarrow> within_cap mx f)"
    using assms(1)
  proof (induction buf arbitrary: fs rule: drain_induct)
    case (step buf)
    let ?l = "read_u32 buf 0"
    consider (short) "length buf < 4" | (bad) "4 \<le> length buf" "mx < ?l \<or> ?l = 0"
      | (partial) "4 \<le> length buf" "?l \<le> mx" "?l \<noteq> 0" "length buf < 4 + unat ?l"
      | (full) "4 + unat ?l \<le> length buf" "?l \<le> mx" "?l \<noteq> 0"
      by (metis add_leD1 not_less)
    then show ?case
    proof cases
      case short
      then have "drain mx buf = ([], Progress, buf)" by (subst drain_simps) simp
      with step.prems short show ?thesis by simp
    next
      case bad
      then have "drain mx buf = ([], Protocol_Error, buf)" by (subst drain_simps) (simp add: Let_def)
      with step.prems show ?thesis by simp
    next
      case partial
      then have "drain mx buf = ([], Progress, buf)"
        using cap_add [OF assms(2) partial(2)] by (subst drain_simps) (simp add: Let_def not_less [symmetric])
      with step.prems partial show ?thesis by (simp add: word_le_nat_alt)
    next
      case full
      note d = drain_step [OF full assms(2)]
      show ?thesis
      proof (cases "decode_frame_body (take (unat ?l) (drop 4 buf))")
        case None
        with d step.prems show ?thesis by simp
      next
        case (Some f)
        obtain fs' where f: "drain mx (drop (4 + unat ?l) buf) = (fs', res, rest)" "fs = f # fs'"
          using d Some step.prems by (auto split: prod.splits)
        have "within_cap mx f"
          using decode_frame_body_length [OF Some] full(2) by (simp add: within_cap_def word_le_nat_alt)
        with f step.IH [OF full(1) _ f(1)] show ?thesis by auto
      qed
    qed
  qed
  then show "res \<noteq> Length_Overflow" "res = Progress \<Longrightarrow> length rest < 4 + unat mx" "\<forall>f. f \<in> set fs \<longrightarrow> within_cap mx f"
    by blast+
qed

lemma feed_all_max_body: "feed_all cs s = (fs, Progress, s') \<Longrightarrow> fs_max_body s' = fs_max_body s"
  by (induction cs arbitrary: s fs) (force split: prod.splits feed_outcome.splits dest: feed_drained)+

text \<open>
  Property C27.  Whatever bytes a peer sends, and however they arrive: with a body cap of at most
  \<open>0xFFFFFFFB\<close> the receiver never takes a length whose sum wraps, buffers less than one capped frame, and
  hands up only frames within the cap.
\<close>

theorem hostile_stream_bounded:
  assumes "no_overflow_cap (clamp_body m)" and "feed_all cs (frame_stream_create m) = (fs, res, s)"
  shows "res \<noteq> Length_Overflow \<and> (res = Progress \<longrightarrow> buffered s < 4 + unat (clamp_body m)) \<and>
    (\<forall>f. f \<in> set fs \<longrightarrow> within_cap (clamp_body m) f)"
proof -
  obtain rest where d: "drain (clamp_body m) (concat cs) = (fs, res, rest)" "res = Progress \<Longrightarrow> s = \<lparr> fs_max_body = clamp_body m, fs_buf = rest \<rparr>"
    using feed_all_concat [OF drained_create, of cs m] assms(2)
    by (auto simp: observed_def feed_eq frame_stream_create_def split: prod.splits feed_outcome.splits if_splits)
  show ?thesis using drain_bounds [OF d(1) assms(1)] d(2) by (auto simp: buffered_def)
qed

theorem hostile_stream_bounded_witness:
  "feed_all [[78, 0], [0, 0, 7]] (frame_stream_create 100) = ([], Progress, \<lparr> fs_max_body = 100, fs_buf = [78, 0, 0, 0, 7] \<rparr>) \<and>
   buffered \<lparr> fs_max_body = 100, fs_buf = [78, 0, 0, 0, 7] \<rparr> < 104"
proof -
  have f: "feed_all [[78, 0], [0, 0, 7]] (frame_stream_create 100) = ([], Progress, \<lparr> fs_max_body = 100, fs_buf = [78, 0, 0, 0, 7] \<rparr>)"
    by code_simp
  have "clamp_body 100 = 100" "no_overflow_cap 100" by code_simp+
  then show ?thesis using hostile_stream_bounded [OF _ f] f by simp
qed

text \<open>
  At a cap above that bound the sum \<open>4u + body_len\<close> wraps to a small number: four bytes from the peer are
  taken for a whole frame of four gigabytes that the buffer does not hold.
\<close>

lemma length_overflow_reachable:
  "feed [0xFC, 0xFF, 0xFF, 0xFF] (frame_stream_create 0xFFFFFFFF) =
     ([], Length_Overflow, \<lparr> fs_max_body = 0xFFFFFFFF, fs_buf = [0xFC, 0xFF, 0xFF, 0xFF] \<rparr>)"
proof -
  have rd: "read_u32 [0xFC, 0xFF, 0xFF, 0xFF] 0 = 0xFFFFFFFC" by code_simp
  have "drain 0xFFFFFFFF [0xFC, 0xFF, 0xFF, 0xFF] = ([], Length_Overflow, [0xFC, 0xFF, 0xFF, 0xFF])"
    by (subst drain_simps) (simp add: rd)
  then show ?thesis by (simp add: feed_eq frame_stream_create_def clamp_body_def)
qed

text \<open>
  The frame codec: a frame whose payload fits the 32-bit length decodes from its own encoding,
  up to the transport-local fields; and a body decodes to a frame only if it begins with that frame's encoding.
\<close>

theorem frame_codec_exact:
  "decode_frame_body body = Some f \<longleftrightarrow>
     wire_part f = f \<and> fits_frame f \<and> take (length (encode_frame_body f [])) body = encode_frame_body f []"
proof
  assume d: "decode_frame_body body = Some f"
  then obtain rest where "body = encode_frame_body f [] @ rest" using decode_frame_body_inverse(1) by blast
  then show "wire_part f = f \<and> fits_frame f \<and> take (length (encode_frame_body f [])) body = encode_frame_body f []"
    using decode_frame_body_inverse(2,3) [OF d] by simp
next
  assume a: "wire_part f = f \<and> fits_frame f \<and> take (length (encode_frame_body f [])) body = encode_frame_body f []"
  then obtain rest where body: "body = encode_frame_body f [] @ rest" by (metis append_take_drop_id)
  have "unat (word_of_nat (length (mf_payload f)) :: u32) = length (mf_payload f)"
    using a by (simp add: fits_frame_def unat_of_nat take_bit_nat_eq_self)
  then show "decode_frame_body body = Some f"
    using a by (simp add: body encode_frame_body_eq decode_frame_header wire_part_def Let_def)
qed

text \<open>The payload limit that the transport announces is the one the reassembler of the same cap accepts.\<close>

lemma max_payload_is_frame_limit:
  assumes "frame_body_header_size < mx"
  shows "within_cap mx f \<longleftrightarrow> length (mf_payload f) \<le> unat (max_payload_for_body_cap mx 0)"
proof -
  have "unat (mx - frame_body_header_size) = unat mx - unat frame_body_header_size"
    using assms by (simp add: unat_sub)
  moreover have "unat frame_body_header_size < unat mx" using assms by (simp add: word_less_nat_alt)
  ultimately show ?thesis using assms by (auto simp: within_cap_def max_payload_for_body_cap_def)
qed

lemma frame_kind_at_offset: "encode_frame f ! frame_kind_offset = mf_kind f"
  by (simp add: encode_frame_def encode_frame_body_eq frame_header_def frame_kind_offset_def wire_simps Let_def nth_append)

definition hello_frame :: message_frame where
  "hello_frame = \<lparr> mf_from = 3, mf_to = 9, mf_target = ActorId 5 77, mf_msg_type = 0xABCDEF, mf_mode = 1, mf_deadline_ns = 0,
     mf_trace_id = 42, mf_payload = [1, 2, 3], mf_kind = kind_data, mf_principal = \<lparr> subject = 8, rights = 1 \<rparr>,
     mf_source_address = \<lparr> pa_addr = 1, pa_port = 2, pa_valid = True \<rparr>, mf_inbound_token = 6, mf_admission_generation = 4 \<rparr>"

theorem stream_round_trip_witness:
  "feed_all [take 30 (encode_frame hello_frame), drop 30 (encode_frame hello_frame) @ [81, 0]] (frame_stream_create 4194304) =
     ([wire_part hello_frame], Progress, \<lparr> fs_max_body = 4194304, fs_buf = [81, 0] \<rparr>)"
proof -
  have c: "clamp_body 4194304 = 4194304" by code_simp
  have ok: "within_cap 4194304 hello_frame" by (simp add: within_cap_def frame_body_header_size_def hello_frame_def)
  have cap: "no_overflow_cap (clamp_body 4194304)" by code_simp
  have enc: "encode_frame hello_frame = [81, 0] @ encode_frame hello_frame ! 2 # drop 3 (encode_frame hello_frame)" by code_simp
  have oks: "\<forall>f. f \<in> set [hello_frame, hello_frame] \<longrightarrow> within_cap (clamp_body 4194304) f" using ok c by simp
  have cc: "concat [take 30 (encode_frame hello_frame), drop 30 (encode_frame hello_frame) @ [81, 0]] =
      concat (map encode_frame [hello_frame]) @ [81, 0]" by simp
  from stream_round_trip [OF oks cap cc enc] show ?thesis unfolding c list.map .
qed

end
