(* ===== verification/Swim_Wire.thy ===== *)
theory Swim_Wire
  imports Wire_Codec
begin

text \<open>
  The control messages of the SWIM failure detector and their codec, from
  \<open>include/quark/core/cluster.hpp\<close>.  A kind and a status are the bytes the wire carries, since the decoder
  casts any byte to them.  The reader and the writers of that file are those of the frame codec.
\<close>

section \<open>Messages\<close>

definition kSwimWireVersion :: u8 where "kSwimWireVersion = 2"
definition kSwimWireWindow :: u8 where "kSwimWireWindow = 1"

type_synonym control_kind = u8

definition ck_ping :: control_kind where "ck_ping = 1"
definition ck_ack :: control_kind where "ck_ack = 2"
definition ck_ping_req :: control_kind where "ck_ping_req = 3"
definition ck_ping_req_ack :: control_kind where "ck_ping_req_ack = 4"
definition ck_gossip :: control_kind where "ck_gossip = 5"
definition ck_join :: control_kind where "ck_join = 6"
definition ck_join_ack :: control_kind where "ck_join_ack = 7"
definition ck_join_reject :: control_kind where "ck_join_reject = 8"
definition ck_congested :: control_kind where "ck_congested = 9"
definition ck_suspend :: control_kind where "ck_suspend = 10"

record member_update =
  mu_node :: u64
  mu_incarnation :: u64
  mu_status :: u8

record capability_entry =
  ce_node :: node_id
  ce_incarnation :: u64
  ce_local_seq :: u32
  ce_blob :: bytes

record pressure_entry =
  pe_node :: node_id
  pe_incarnation :: u64
  pe_resident_total :: u64

definition kMaxDecodedCapabilityBytes :: nat where "kMaxDecodedCapabilityBytes = 65536"
definition kMaxSignedRevocationsPerFrame :: nat where "kMaxSignedRevocationsPerFrame = 64"
definition kMaxSignedRevocationBlobBytes :: nat where "kMaxSignedRevocationBlobBytes = 256"

record control_msg =
  cm_kind :: control_kind
  cm_cluster :: cluster_id
  cm_from :: node_id
  cm_from_incarnation :: u64
  cm_subject :: node_id
  cm_subject_incarnation :: u64
  cm_seq :: u64
  cm_updates :: "member_update list"
  cm_revocations :: "bytes list"
  cm_signed_revocations :: "bytes list"
  cm_capabilities :: "capability_entry list"
  cm_pressure :: "pressure_entry list"
  cm_congestion_remaining_ns :: u64
  cm_wire_version :: u8

definition control_msg_init :: control_msg where
  "control_msg_init = \<lparr> cm_kind = 0, cm_cluster = 0, cm_from = 0, cm_from_incarnation = 0, cm_subject = 0,
     cm_subject_incarnation = 0, cm_seq = 0, cm_updates = [], cm_revocations = [], cm_signed_revocations = [],
     cm_capabilities = [], cm_pressure = [], cm_congestion_remaining_ns = 0, cm_wire_version = 1 \<rparr>"

section \<open>Encoding\<close>

definition put_u16 :: "bytes \<Rightarrow> 16 word \<Rightarrow> bytes" where
  "put_u16 b v = put_u8 (put_u8 b (ucast v)) (ucast (drop_bit 8 v))"

definition put_raw :: "bytes \<Rightarrow> bytes \<Rightarrow> bytes" where
  "put_raw xs b = fold (\<lambda>x b. put_u8 b x) xs b"

definition put_update :: "member_update \<Rightarrow> bytes \<Rightarrow> bytes" where
  "put_update u b = put_u8 (put_u64 (put_u64 b (mu_node u)) (mu_incarnation u)) (mu_status u)"

definition put_capability :: "capability_entry \<Rightarrow> bytes \<Rightarrow> bytes" where
  "put_capability e b =
     put_raw (ce_blob e) (put_u16 (put_u32 (put_u64 (put_u64 b (ce_node e)) (ce_incarnation e)) (ce_local_seq e))
       (word_of_nat (length (ce_blob e))))"

definition put_pressure :: "pressure_entry \<Rightarrow> bytes \<Rightarrow> bytes" where
  "put_pressure e b = put_u64 (put_u64 (put_u64 b (pe_node e)) (pe_incarnation e)) (pe_resident_total e)"

definition put_blob :: "bytes \<Rightarrow> bytes \<Rightarrow> bytes" where
  "put_blob blob b = put_raw blob (put_u16 b (word_of_nat (length blob)))"

definition signed_kept :: "bytes list \<Rightarrow> bytes list" where
  "signed_kept blobs =
     take kMaxSignedRevocationsPerFrame (filter (\<lambda>b. b \<noteq> [] \<and> length b \<le> kMaxSignedRevocationBlobBytes) blobs)"

definition encode_control :: "control_msg \<Rightarrow> bytes" where
  "encode_control m =
     (let b = put_u8 [] (cm_kind m);
          b = put_u64 b (cm_cluster m);
          b = put_u64 b (cm_from m);
          b = put_u64 b (cm_from_incarnation m);
          b = put_u64 b (cm_subject m);
          b = put_u64 b (cm_subject_incarnation m);
          b = put_u64 b (cm_seq m);
          b = put_u16 b (word_of_nat (length (cm_updates m)));
          b = fold put_update (cm_updates m) b;
          b = put_u16 b (word_of_nat (length (cm_revocations m)));
          b = fold put_raw (cm_revocations m) b;
          b = put_u16 b (word_of_nat (length (cm_capabilities m)));
          b = fold put_capability (cm_capabilities m) b;
          b = put_u16 b (word_of_nat (length (cm_pressure m)));
          b = fold put_pressure (cm_pressure m) b;
          b = put_u64 b (cm_congestion_remaining_ns m);
          b = (if cm_wire_version m \<noteq> 1 then put_u8 b (cm_wire_version m) else b)
      in if cm_wire_version m \<noteq> 1 \<and> cm_signed_revocations m \<noteq> []
         then let kept = signed_kept (cm_signed_revocations m)
              in fold put_blob kept (put_u16 b (word_of_nat (length kept)))
         else b)"

section \<open>Decoding\<close>

definition rd_u16 :: "reader \<Rightarrow> 16 word \<times> reader" where
  "rd_u16 r = (case rd_u8 r of (lo, r1) \<Rightarrow> case rd_u8 r1 of (hi, r2) \<Rightarrow> (ucast lo OR push_bit 8 (ucast hi), r2))"

fun rd_raw :: "nat \<Rightarrow> reader \<Rightarrow> bytes \<times> reader" where
  "rd_raw 0 r = ([], r)"
| "rd_raw (Suc n) r = (case rd_u8 r of (x, r1) \<Rightarrow> case rd_raw n r1 of (xs, r2) \<Rightarrow> (x # xs, r2))"

text \<open>\<open>for (i = 0; i < count && r.ok; ++i) out.push_back(read(r))\<close>\<close>

fun rd_list :: "(reader \<Rightarrow> 'a \<times> reader) \<Rightarrow> nat \<Rightarrow> reader \<Rightarrow> 'a list \<times> reader" where
  "rd_list f 0 r = ([], r)"
| "rd_list f (Suc n) r =
     (if rd_ok r then case f r of (x, r1) \<Rightarrow> (case rd_list f n r1 of (xs, r2) \<Rightarrow> (x # xs, r2)) else ([], r))"

definition rd_update :: "reader \<Rightarrow> member_update \<times> reader" where
  "rd_update r =
     (let (n, r1) = rd_u64 r; (i, r2) = rd_u64 r1; (s, r3) = rd_u8 r2
      in (\<lparr> mu_node = n, mu_incarnation = i, mu_status = s \<rparr>, r3))"

definition rd_pressure :: "reader \<Rightarrow> pressure_entry \<times> reader" where
  "rd_pressure r =
     (let (n, r1) = rd_u64 r; (i, r2) = rd_u64 r1; (t, r3) = rd_u64 r2
      in (\<lparr> pe_node = n, pe_incarnation = i, pe_resident_total = t \<rparr>, r3))"

text \<open>The number of blob bytes accepted so far is checked before each blob is read.\<close>

fun rd_capabilities :: "nat \<Rightarrow> nat \<Rightarrow> reader \<Rightarrow> capability_entry list \<times> reader" where
  "rd_capabilities 0 seen r = ([], r)"
| "rd_capabilities (Suc k) seen r =
     (if \<not> rd_ok r then ([], r)
      else
        let (n, r1) = rd_u64 r; (i, r2) = rd_u64 r1; (q, r3) = rd_u32 r2; (len, r4) = rd_u16 r3;
            seen' = seen + unat len
        in if \<not> rd_ok r4 \<or> kMaxDecodedCapabilityBytes < seen' then ([], r4\<lparr> rd_ok := False \<rparr>)
           else case rd_raw (unat len) r4 of
             (blob, r5) \<Rightarrow> (case rd_capabilities k seen' r5 of
               (es, r6) \<Rightarrow> (\<lparr> ce_node = n, ce_incarnation = i, ce_local_seq = q, ce_blob = blob \<rparr> # es, r6)))"

fun rd_signed :: "nat \<Rightarrow> reader \<Rightarrow> bytes list \<times> reader" where
  "rd_signed 0 r = ([], r)"
| "rd_signed (Suc n) r =
     (if \<not> rd_ok r then ([], r)
      else case rd_u16 r of
        (len, r1) \<Rightarrow>
          if \<not> rd_ok r1 \<or> len = 0 \<or> kMaxSignedRevocationBlobBytes < unat len \<or> length (rd_rest r1) < unat len
          then ([], r1\<lparr> rd_ok := False \<rparr>)
          else case rd_signed n (r1\<lparr> rd_rest := drop (unat len) (rd_rest r1) \<rparr>) of
            (bs, r2) \<Rightarrow> (take (unat len) (rd_rest r1) # bs, r2))"

definition rd_signed_section :: "bool \<Rightarrow> reader \<Rightarrow> bytes list \<times> reader" where
  "rd_signed_section has_trailer r =
     (if has_trailer \<and> rd_ok r \<and> rd_rest r \<noteq> []
      then case rd_u16 r of
        (count, r1) \<Rightarrow>
          rd_signed (unat count) (if kMaxSignedRevocationsPerFrame < unat count then r1\<lparr> rd_ok := False \<rparr> else r1)
      else ([], r))"

definition decode_control :: "bytes \<Rightarrow> control_msg option" where
  "decode_control data =
     (let r = \<lparr> rd_rest = data, rd_ok = True \<rparr>;
          (kind, r) = rd_u8 r;
          (cluster, r) = rd_u64 r;
          (from, r) = rd_u64 r;
          (from_inc, r) = rd_u64 r;
          (subj, r) = rd_u64 r;
          (subj_inc, r) = rd_u64 r;
          (sq, r) = rd_u64 r;
          (count, r) = rd_u16 r;
          (updates, r) = rd_list rd_update (unat count) r;
          (rcount, r) = rd_u16 r;
          (revs, r) = rd_list (rd_raw 32) (unat rcount) r;
          (ccount, r) = rd_u16 r;
          (caps, r) = rd_capabilities (unat ccount) 0 r;
          (pcount, r) = rd_u16 r;
          (press, r) = rd_list rd_pressure (unat pcount) r;
          (cong, r) = rd_u64 r;
          has_trailer = (rd_ok r \<and> rd_rest r \<noteq> []);
          (ver, r) = (if has_trailer then rd_u8 r else (1, r));
          (sgn, r) = rd_signed_section has_trailer r
      in if rd_ok r
         then Some \<lparr> cm_kind = kind, cm_cluster = cluster, cm_from = from, cm_from_incarnation = from_inc, cm_subject = subj,
                cm_subject_incarnation = subj_inc, cm_seq = sq, cm_updates = updates, cm_revocations = revs,
                cm_signed_revocations = sgn, cm_capabilities = caps, cm_pressure = press,
                cm_congestion_remaining_ns = cong, cm_wire_version = ver \<rparr>
         else None)"

section \<open>Round trip\<close>

lemma put_u16_eq [wire_simps]: "put_u16 b v = b @ put_le 2 v"
  by (simp add: put_u16_def put_u8_def put_le_def numeral_2_eq_2)

lemma put_raw_eq [wire_simps]: "put_raw xs b = b @ xs"
proof -
  have "fold (\<lambda>x b. put_u8 b x) xs b = b @ xs" for b
    by (induction xs arbitrary: b) (simp_all add: put_u8_def)
  then show ?thesis by (simp add: put_raw_def)
qed

lemma rd_u16_eq: "rd_u16 r = rd_int 2 0 0 r"
  by (simp add: rd_u16_def numeral_2_eq_2 split: prod.split)

lemma rd_u16_put [wire_simps]:
  "rd_u16 \<lparr> rd_rest = put_le 2 v @ rest, rd_ok = ok \<rparr> = (v, \<lparr> rd_rest = rest, rd_ok = ok \<rparr>)"
  using rd_int_bytes [of "put_le 2 v" 0 "0 :: 16 word" rest ok, folded get_le_def] by (simp add: rd_u16_eq)

lemma rd_raw_append:
  "rd_raw (length xs) \<lparr> rd_rest = xs @ rest, rd_ok = ok \<rparr> = (xs, \<lparr> rd_rest = rest, rd_ok = ok \<rparr>)"
  by (induction xs) (simp_all add: rd_u8_def)

definition item_bytes :: "('a \<Rightarrow> bytes \<Rightarrow> bytes) \<Rightarrow> 'a \<Rightarrow> bytes" where
  "item_bytes put x = put x []"

text \<open>A writer that appends the bytes of its item, and a reader that takes them off again.\<close>

definition codec :: "('a \<Rightarrow> bytes \<Rightarrow> bytes) \<Rightarrow> (reader \<Rightarrow> 'a \<times> reader) \<Rightarrow> 'a \<Rightarrow> bool" where
  "codec put rd x \<longleftrightarrow> (\<forall>b. put x b = b @ item_bytes put x) \<and>
     (\<forall>rest. rd \<lparr> rd_rest = item_bytes put x @ rest, rd_ok = True \<rparr> = (x, \<lparr> rd_rest = rest, rd_ok = True \<rparr>))"

lemma fold_codec:
  assumes "\<forall>x. x \<in> set xs \<longrightarrow> codec put rd x"
  shows "fold put xs b = b @ concat (map (item_bytes put) xs)"
    and "rd_list rd (length xs) \<lparr> rd_rest = concat (map (item_bytes put) xs) @ rest, rd_ok = True \<rparr> =
      (xs, \<lparr> rd_rest = rest, rd_ok = True \<rparr>)"
proof -
  show "fold put xs b = b @ concat (map (item_bytes put) xs)"
    using assms by (induction xs arbitrary: b) (auto simp: codec_def)
  show "rd_list rd (length xs) \<lparr> rd_rest = concat (map (item_bytes put) xs) @ rest, rd_ok = True \<rparr> =
      (xs, \<lparr> rd_rest = rest, rd_ok = True \<rparr>)"
    using assms by (induction xs) (auto simp: codec_def)
qed

lemma codec_update: "codec put_update rd_update u"
  by (simp add: codec_def item_bytes_def put_update_def rd_update_def wire_simps put_u8_def)

lemma codec_pressure: "codec put_pressure rd_pressure e"
  by (simp add: codec_def item_bytes_def put_pressure_def rd_pressure_def wire_simps)

lemma codec_fingerprint: "length fp = 32 \<Longrightarrow> codec put_raw (rd_raw 32) fp"
  using rd_raw_append [of fp] by (simp add: codec_def item_bytes_def wire_simps)

lemma unat_len_u16: "n < 2 ^ 16 \<Longrightarrow> unat (word_of_nat n :: 16 word) = n"
  by (simp add: unat_of_nat take_bit_nat_eq_self)

definition capabilities_fit :: "capability_entry list \<Rightarrow> bool" where
  "capabilities_fit es \<longleftrightarrow> (\<forall>e. e \<in> set es \<longrightarrow> length (ce_blob e) < 2 ^ 16) \<and>
     sum_list (map (\<lambda>e. length (ce_blob e)) es) \<le> kMaxDecodedCapabilityBytes"

lemma put_capability_eq: "put_capability e b = b @ item_bytes put_capability e"
  by (simp add: put_capability_def item_bytes_def wire_simps)

lemma item_capability:
  "item_bytes put_capability e = put_le 8 (ce_node e) @ put_le 8 (ce_incarnation e) @ put_le 4 (ce_local_seq e) @
     put_le 2 (word_of_nat (length (ce_blob e)) :: 16 word) @ ce_blob e"
  by (simp add: put_capability_def item_bytes_def wire_simps)

lemma item_blob: "item_bytes put_blob b = put_le 2 (word_of_nat (length b) :: 16 word) @ b"
  by (simp add: put_blob_def item_bytes_def wire_simps)

lemma rd_capabilities_put:
  assumes "\<forall>e. e \<in> set es \<longrightarrow> length (ce_blob e) < 2 ^ 16"
    and "seen + sum_list (map (\<lambda>e. length (ce_blob e)) es) \<le> kMaxDecodedCapabilityBytes"
  shows "rd_capabilities (length es) seen
      \<lparr> rd_rest = concat (map (item_bytes put_capability) es) @ rest, rd_ok = True \<rparr> = (es, \<lparr> rd_rest = rest, rd_ok = True \<rparr>)"
  using assms
proof (induction es arbitrary: seen)
  case (Cons e es)
  have len: "unat (word_of_nat (length (ce_blob e)) :: 16 word) = length (ce_blob e)"
    using Cons.prems(1) by (intro unat_len_u16) simp
  have ih: "rd_capabilities (length es) (seen + length (ce_blob e))
      \<lparr> rd_rest = concat (map (item_bytes put_capability) es) @ rest, rd_ok = True \<rparr> = (es, \<lparr> rd_rest = rest, rd_ok = True \<rparr>)"
    using Cons.prems by (intro Cons.IH) auto
  have bd: "seen + length (ce_blob e) \<le> kMaxDecodedCapabilityBytes" using Cons.prems(2) by simp
  show ?case
    using bd by (simp add: item_capability [of e] wire_simps len rd_raw_append ih Let_def del: unat_of_nat)
qed simp

lemma fold_put_capability: "fold put_capability es b = b @ concat (map (item_bytes put_capability) es)"
  by (induction es arbitrary: b) (simp_all add: put_capability_eq)

lemma fold_put_blob: "fold put_blob bs b = b @ concat (map (item_bytes put_blob) bs)"
  by (induction bs arbitrary: b) (simp_all add: put_blob_def item_bytes_def wire_simps)

lemma rd_signed_put:
  assumes "\<forall>b. b \<in> set bs \<longrightarrow> b \<noteq> [] \<and> length b \<le> kMaxSignedRevocationBlobBytes"
  shows "rd_signed (length bs) \<lparr> rd_rest = concat (map (item_bytes put_blob) bs) @ rest, rd_ok = True \<rparr> =
    (bs, \<lparr> rd_rest = rest, rd_ok = True \<rparr>)"
  using assms
proof (induction bs)
  case (Cons b bs)
  have len: "unat (word_of_nat (length b) :: 16 word) = length b"
    using Cons.prems by (intro unat_len_u16) (auto simp: kMaxSignedRevocationBlobBytes_def)
  then have "(word_of_nat (length b) :: 16 word) \<noteq> 0" using Cons.prems by force
  moreover have "\<not> kMaxSignedRevocationBlobBytes < length b" using Cons.prems by force
  ultimately show ?case using Cons by (simp add: item_blob [of b] wire_simps len del: unat_of_nat)
qed simp

definition control_fits :: "control_msg \<Rightarrow> bool" where
  "control_fits m \<longleftrightarrow> length (cm_updates m) < 2 ^ 16 \<and> length (cm_revocations m) < 2 ^ 16 \<and>
     (\<forall>fp. fp \<in> set (cm_revocations m) \<longrightarrow> length fp = 32) \<and>
     length (cm_capabilities m) < 2 ^ 16 \<and> capabilities_fit (cm_capabilities m) \<and> length (cm_pressure m) < 2 ^ 16"

text \<open>What a receiver sees: a legacy frame has no signed records, and any other keeps those within the bounds.\<close>

definition control_seen :: "control_msg \<Rightarrow> control_msg" where
  "control_seen m = m\<lparr> cm_signed_revocations :=
     (if cm_wire_version m = 1 then [] else signed_kept (cm_signed_revocations m)) \<rparr>"

definition control_bytes :: "control_msg \<Rightarrow> bytes" where
  "control_bytes m =
     [cm_kind m] @ put_le 8 (cm_cluster m) @ put_le 8 (cm_from m) @ put_le 8 (cm_from_incarnation m) @
     put_le 8 (cm_subject m) @ put_le 8 (cm_subject_incarnation m) @ put_le 8 (cm_seq m) @
     put_le 2 (word_of_nat (length (cm_updates m)) :: 16 word) @ concat (map (item_bytes put_update) (cm_updates m)) @
     put_le 2 (word_of_nat (length (cm_revocations m)) :: 16 word) @ concat (map (item_bytes put_raw) (cm_revocations m)) @
     put_le 2 (word_of_nat (length (cm_capabilities m)) :: 16 word) @ concat (map (item_bytes put_capability) (cm_capabilities m)) @
     put_le 2 (word_of_nat (length (cm_pressure m)) :: 16 word) @ concat (map (item_bytes put_pressure) (cm_pressure m)) @
     put_le 8 (cm_congestion_remaining_ns m)"

definition trailer_bytes :: "control_msg \<Rightarrow> bytes" where
  "trailer_bytes m =
     (if cm_wire_version m = 1 then []
      else cm_wire_version m #
        (if cm_signed_revocations m = [] then []
         else let kept = signed_kept (cm_signed_revocations m)
              in put_le 2 (word_of_nat (length kept) :: 16 word) @ concat (map (item_bytes put_blob) kept)))"

lemma fold_put_update: "fold put_update us b = b @ concat (map (item_bytes put_update) us)"
  using fold_codec(1) [of us put_update rd_update] by (simp add: codec_update)

lemma fold_put_pressure: "fold put_pressure us b = b @ concat (map (item_bytes put_pressure) us)"
  using fold_codec(1) [of us put_pressure rd_pressure] by (simp add: codec_pressure)

lemma fold_put_raw: "fold put_raw us b = b @ concat (map (item_bytes put_raw) us)"
  by (induction us arbitrary: b) (simp_all add: item_bytes_def wire_simps)

lemma encode_control_eq: "encode_control m = control_bytes m @ trailer_bytes m"
  by (simp add: encode_control_def control_bytes_def trailer_bytes_def Let_def wire_simps put_u8_def
      fold_put_update fold_put_pressure fold_put_raw fold_put_capability fold_put_blob)

lemma decode_encode_control:
  assumes "control_fits m"
  shows "decode_control (encode_control m) = Some (control_seen m)"
proof -
  have len: "unat (word_of_nat (length (cm_updates m)) :: 16 word) = length (cm_updates m)"
    "unat (word_of_nat (length (cm_revocations m)) :: 16 word) = length (cm_revocations m)"
    "unat (word_of_nat (length (cm_capabilities m)) :: 16 word) = length (cm_capabilities m)"
    "unat (word_of_nat (length (cm_pressure m)) :: 16 word) = length (cm_pressure m)"
    using assms by (auto intro!: unat_len_u16 simp: control_fits_def)
  let ?kept = "signed_kept (cm_signed_revocations m)"
  have kl: "length ?kept \<le> kMaxSignedRevocationsPerFrame" by (simp add: signed_kept_def)
  then have k16: "unat (word_of_nat (length ?kept) :: 16 word) = length ?kept"
    by (intro unat_len_u16) (simp add: kMaxSignedRevocationsPerFrame_def)
  have kb: "\<forall>b. b \<in> set ?kept \<longrightarrow> b \<noteq> [] \<and> length b \<le> kMaxSignedRevocationBlobBytes"
    by (auto simp: signed_kept_def dest: in_set_takeD)
  have u: "rd_list rd_update (length (cm_updates m)) \<lparr> rd_rest = concat (map (item_bytes put_update) (cm_updates m)) @ rest, rd_ok = True \<rparr> =
      (cm_updates m, \<lparr> rd_rest = rest, rd_ok = True \<rparr>)" for rest
    by (rule fold_codec(2)) (simp add: codec_update)
  have r: "rd_list (rd_raw 32) (length (cm_revocations m)) \<lparr> rd_rest = concat (map (item_bytes put_raw) (cm_revocations m)) @ rest, rd_ok = True \<rparr> =
      (cm_revocations m, \<lparr> rd_rest = rest, rd_ok = True \<rparr>)" for rest
    using assms by (intro fold_codec(2)) (simp add: codec_fingerprint control_fits_def)
  have p: "rd_list rd_pressure (length (cm_pressure m)) \<lparr> rd_rest = concat (map (item_bytes put_pressure) (cm_pressure m)) @ rest, rd_ok = True \<rparr> =
      (cm_pressure m, \<lparr> rd_rest = rest, rd_ok = True \<rparr>)" for rest
    by (rule fold_codec(2)) (simp add: codec_pressure)
  have c: "rd_capabilities (length (cm_capabilities m)) 0 \<lparr> rd_rest = concat (map (item_bytes put_capability) (cm_capabilities m)) @ rest, rd_ok = True \<rparr> =
      (cm_capabilities m, \<lparr> rd_rest = rest, rd_ok = True \<rparr>)" for rest
    using assms by (intro rd_capabilities_put) (auto simp: control_fits_def capabilities_fit_def)
  have s: "rd_signed_section True \<lparr> rd_rest = put_le 2 (word_of_nat (length ?kept) :: 16 word) @ concat (map (item_bytes put_blob) ?kept), rd_ok = True \<rparr> =
      (?kept, \<lparr> rd_rest = [], rd_ok = True \<rparr>)"
  proof -
    have "put_le 2 (word_of_nat (length ?kept) :: 16 word) \<noteq> []" by (metis length_0_conv length_put_le zero_neq_numeral)
    then show ?thesis using kl rd_signed_put [OF kb, of "[]"]
      by (simp add: rd_signed_section_def wire_simps k16 del: unat_of_nat)
  qed
  show ?thesis
    unfolding encode_control_eq decode_control_def control_bytes_def
    by (cases "cm_wire_version m = 1"; cases "cm_signed_revocations m = []")
      (simp_all add: wire_simps rd_u64_put [where rest = "[]", simplified] len u r c p Let_def trailer_bytes_def s control_seen_def rd_signed_section_def [of False]
        rd_signed_section_def [of _ "\<lparr> rd_rest = [], rd_ok = _ \<rparr>"] signed_kept_def [of "[]"] del: unat_of_nat)
qed

text \<open>
  Property C14.  The control codec: what \<open>encode_control\<close> writes is decoded to the same message, with the
  signed revocation records that fit the bounds, and without them in the legacy layout.
\<close>

theorem control_round_trip:
  assumes "control_fits m"
  shows "decode_control (encode_control m) = Some (control_seen m)"
  using assms by (rule decode_encode_control)

text \<open>
  What a frame can make the decoder hold, whatever its bytes: every list is paid for by bytes of the frame,
  the capability blobs stay within their budget and the signed records within theirs.
\<close>

definition consumes :: "(reader \<Rightarrow> 'a \<times> reader) \<Rightarrow> nat \<Rightarrow> bool" where
  "consumes f n \<longleftrightarrow> (\<forall>r x r'. f r = (x, r') \<longrightarrow> rd_ok r' \<longrightarrow> rd_ok r \<and> length (rd_rest r) = n + length (rd_rest r'))"

lemma consumes_rd_int: "consumes (rd_int n 0 (0 :: 'a::len word)) n"
  unfolding consumes_def using rd_int_spec [of n 0 "0 :: 'a word"] by (metis add_diff_inverse_nat not_less snd_conv)

lemma consumesD:
  "consumes f n \<Longrightarrow> f r = (x, r') \<Longrightarrow> rd_ok r' \<Longrightarrow> rd_ok r \<and> length (rd_rest r) = n + length (rd_rest r')"
  by (auto simp: consumes_def)

lemma consumes_u: "consumes rd_u64 8" "consumes rd_u32 4" "consumes rd_u16 2" "consumes rd_u8 1"
  using consumes_rd_int [of 8, where 'a = 64] consumes_rd_int [of 4, where 'a = 32] consumes_rd_int [of 2, where 'a = 16]
  by (auto simp: consumes_def rd_u64_def rd_u32_def rd_u16_eq rd_u8_def split: list.splits)

lemma rd_raw_length: "rd_raw n r = (xs, r') \<Longrightarrow> length xs = n"
  by (induction n arbitrary: r xs r') (auto split: prod.splits)

lemma rd_capabilities_bound:
  "rd_capabilities k seen r = (es, r') \<Longrightarrow> seen \<le> kMaxDecodedCapabilityBytes \<Longrightarrow>
     seen + sum_list (map (\<lambda>e. length (ce_blob e)) es) \<le> kMaxDecodedCapabilityBytes"
  by (induction k seen r arbitrary: es r' rule: rd_capabilities.induct)
    (fastforce simp: Let_def split: if_splits prod.splits dest: rd_raw_length)+

lemma rd_signed_bound:
  "rd_signed n r = (bs, r') \<Longrightarrow> length bs \<le> n \<and> (\<forall>b. b \<in> set bs \<longrightarrow> b \<noteq> [] \<and> length b \<le> kMaxSignedRevocationBlobBytes)"
  by (induction n arbitrary: r bs r') (fastforce simp: unat_eq_0 split: if_splits prod.splits)+

lemma rd_list_length: "rd_list f n r = (xs, r') \<Longrightarrow> length xs \<le> n"
  by (induction f n r arbitrary: xs r' rule: rd_list.induct) (fastforce split: if_splits prod.splits)+

lemma rd_list_consumes:
  assumes "consumes f k" and "rd_list f n r = (xs, r')" and "rd_ok r'"
  shows "rd_ok r \<and> k * length xs + length (rd_rest r') = length (rd_rest r)"
  using assms(2,3)
proof (induction n arbitrary: r xs)
  case (Suc n)
  then show ?case
    by (fastforce split: if_splits prod.splits dest: consumesD [OF assms(1)])
qed simp

lemma rd_list_all: "rd_list f n r = (xs, r') \<Longrightarrow> (\<And>r x r'. f r = (x, r') \<Longrightarrow> P x) \<Longrightarrow> \<forall>x. x \<in> set xs \<longrightarrow> P x"
  by (induction f n r arbitrary: xs r' rule: rd_list.induct) (fastforce split: if_splits prod.splits)+

lemma rd_list_ok: "rd_list f n r = (xs, r') \<Longrightarrow> (\<And>r x r'. f r = (x, r') \<Longrightarrow> rd_ok r' \<Longrightarrow> rd_ok r) \<Longrightarrow> rd_ok r' \<Longrightarrow> rd_ok r"
  by (induction f n r arbitrary: xs r' rule: rd_list.induct) (auto split: if_splits prod.splits)

lemma consumes_update: "consumes rd_update 17"
  using consumes_u unfolding consumes_def rd_update_def Let_def by (fastforce split: prod.splits)

lemma consumes_pressure: "consumes rd_pressure 24"
  using consumes_u unfolding consumes_def rd_pressure_def Let_def by (fastforce split: prod.splits)

lemma consumes_raw: "consumes (rd_raw n) n"
  unfolding consumes_def
proof (induction n)
  case (Suc n)
  then show ?case using consumes_u(4) unfolding consumes_def by (fastforce split: prod.splits)
qed simp

lemma rd_capabilities_ok: "rd_capabilities k seen r = (es, r') \<Longrightarrow> rd_ok r' \<Longrightarrow> rd_ok r"
  by (induction k seen r arbitrary: es r' rule: rd_capabilities.induct) (auto simp: Let_def split: if_splits prod.splits)

lemma rd_signed_section_bound:
  assumes "rd_signed_section b r = (bs, r')" and "rd_ok r'"
  shows "rd_ok r \<and> length bs \<le> kMaxSignedRevocationsPerFrame \<and> (\<forall>b. b \<in> set bs \<longrightarrow> b \<noteq> [] \<and> length b \<le> kMaxSignedRevocationBlobBytes)"
proof (cases "b \<and> rd_ok r \<and> rd_rest r \<noteq> []")
  case True
  obtain c r1 where c: "rd_u16 r = (c, r1)" by (cases "rd_u16 r")
  show ?thesis
  proof (cases "kMaxSignedRevocationsPerFrame < unat c")
    case True
    have "rd_signed n (r1\<lparr> rd_ok := False \<rparr>) = ([], r1\<lparr> rd_ok := False \<rparr>)" for n by (cases n) auto
    with True c assms show ?thesis by (simp add: rd_signed_section_def split: if_splits)
  next
    case False
    with True c assms(1) have "rd_signed (unat c) r1 = (bs, r')" by (simp add: rd_signed_section_def)
    from rd_signed_bound [OF this] False True show ?thesis by auto
  qed
next
  case False
  with assms show ?thesis by (auto simp: rd_signed_section_def split: if_splits)
qed

text \<open>
  Hostile control frames: whatever the bytes, decoding returns, and a message that it returns
  holds at most 65536 bytes of capability blobs, at most 64 signed records of 1 to 256 bytes, fingerprints of
  32 bytes, and no more member updates than the frame has bytes for.
\<close>

theorem control_decode_bounded:
  assumes "decode_control data = Some m"
  shows "sum_list (map (\<lambda>e. length (ce_blob e)) (cm_capabilities m)) \<le> kMaxDecodedCapabilityBytes \<and>
    length (cm_signed_revocations m) \<le> kMaxSignedRevocationsPerFrame \<and>
    (\<forall>b. b \<in> set (cm_signed_revocations m) \<longrightarrow> b \<noteq> [] \<and> length b \<le> kMaxSignedRevocationBlobBytes) \<and>
    (\<forall>fp. fp \<in> set (cm_revocations m) \<longrightarrow> length fp = 32) \<and>
    17 * length (cm_updates m) \<le> length data"
proof -
  obtain k c f fi sj si sq n r0 r1 r2 r3 r4 r5 r6 r7 us r8 rc r9 rv r10 cc r11 cs r12 pc r13 pr r14 cg r15 v r16 sg r17 where
    r: "rd_u8 \<lparr> rd_rest = data, rd_ok = True \<rparr> = (k, r0)" "rd_u64 r0 = (c, r1)" "rd_u64 r1 = (f, r2)" "rd_u64 r2 = (fi, r3)"
      "rd_u64 r3 = (sj, r4)" "rd_u64 r4 = (si, r5)" "rd_u64 r5 = (sq, r6)" "rd_u16 r6 = (n, r7)"
    and us: "rd_list rd_update (unat n) r7 = (us, r8)"
    and rv: "rd_u16 r8 = (rc, r9)" "rd_list (rd_raw 32) (unat rc) r9 = (rv, r10)"
    and cs: "rd_u16 r10 = (cc, r11)" "rd_capabilities (unat cc) 0 r11 = (cs, r12)"
    and pr: "rd_u16 r12 = (pc, r13)" "rd_list rd_pressure (unat pc) r13 = (pr, r14)"
    and cg: "rd_u64 r14 = (cg, r15)" "(if rd_ok r15 \<and> rd_rest r15 \<noteq> [] then rd_u8 r15 else (1, r15)) = (v, r16)"
    and sg: "rd_signed_section (rd_ok r15 \<and> rd_rest r15 \<noteq> []) r16 = (sg, r17)"
    and ok: "rd_ok r17"
    and m: "cm_updates m = us" "cm_revocations m = rv" "cm_capabilities m = cs" "cm_signed_revocations m = sg"
    using assms unfolding decode_control_def Let_def by (auto split: prod.splits if_splits)
  have ok16: "rd_ok r16" using rd_signed_section_bound [OF sg ok] by blast
  then have "rd_ok r15" using cg(2) by (auto split: if_splits simp: rd_u8_def)
  then have "rd_ok r14" using consumesD [OF consumes_u(1) cg(1)] by blast
  then have "rd_ok r13" using rd_list_consumes [OF consumes_pressure pr(2)] by blast
  then have "rd_ok r12" using consumesD [OF consumes_u(3) pr(1)] by blast
  then have "rd_ok r11" using rd_capabilities_ok [OF cs(2)] by blast
  then have "rd_ok r10" using consumesD [OF consumes_u(3) cs(1)] by blast
  then have "rd_ok r9" using rd_list_consumes [OF consumes_raw rv(2)] by blast
  then have ok8: "rd_ok r8" using consumesD [OF consumes_u(3) rv(1)] by blast
  have l7: "rd_ok r7 \<and> 17 * length us \<le> length (rd_rest r7)" using rd_list_consumes [OF consumes_update us ok8] by simp
  have l6: "rd_ok r6 \<and> length (rd_rest r7) \<le> length (rd_rest r6)" using l7 consumesD [OF consumes_u(3) r(8)] by auto
  have l5: "rd_ok r5 \<and> length (rd_rest r6) \<le> length (rd_rest r5)" using l6 consumesD [OF consumes_u(1) r(7)] by auto
  have l4: "rd_ok r4 \<and> length (rd_rest r5) \<le> length (rd_rest r4)" using l5 consumesD [OF consumes_u(1) r(6)] by auto
  have l3: "rd_ok r3 \<and> length (rd_rest r4) \<le> length (rd_rest r3)" using l4 consumesD [OF consumes_u(1) r(5)] by auto
  have l2: "rd_ok r2 \<and> length (rd_rest r3) \<le> length (rd_rest r2)" using l3 consumesD [OF consumes_u(1) r(4)] by auto
  have l1: "rd_ok r1 \<and> length (rd_rest r2) \<le> length (rd_rest r1)" using l2 consumesD [OF consumes_u(1) r(3)] by auto
  have l0: "rd_ok r0 \<and> length (rd_rest r1) \<le> length (rd_rest r0)" using l1 consumesD [OF consumes_u(1) r(2)] by auto
  have "length (rd_rest r0) \<le> length data" using l0 consumesD [OF consumes_u(4) r(1)] by auto
  then have "17 * length us \<le> length data" using l7 l6 l5 l4 l3 l2 l1 l0 by linarith
  moreover have "sum_list (map (\<lambda>e. length (ce_blob e)) cs) \<le> kMaxDecodedCapabilityBytes"
    using rd_capabilities_bound [OF cs(2)] by simp
  moreover have "\<forall>fp. fp \<in> set rv \<longrightarrow> length fp = 32" by (rule rd_list_all [OF rv(2)]) (rule rd_raw_length)
  ultimately show ?thesis using rd_signed_section_bound [OF sg ok] m by blast
qed

definition sample_control :: control_msg where
  "sample_control = control_msg_init\<lparr> cm_kind := ck_gossip, cm_cluster := 11, cm_from := 3, cm_from_incarnation := 4,
     cm_updates := [\<lparr> mu_node = 5, mu_incarnation = 2, mu_status = 1 \<rparr>],
     cm_capabilities := [\<lparr> ce_node = 3, ce_incarnation = 4, ce_local_seq = 1, ce_blob = [9, 9] \<rparr>],
     cm_signed_revocations := [[], [1, 2]], cm_wire_version := 2 \<rparr>"

lemma sample_control_fits: "control_fits sample_control"
  by (simp add: control_fits_def capabilities_fit_def sample_control_def control_msg_init_def kMaxDecodedCapabilityBytes_def)

lemma sample_control_seen: "control_seen sample_control = sample_control\<lparr> cm_signed_revocations := [[1, 2]] \<rparr>"
  by (simp add: control_seen_def sample_control_def control_msg_init_def signed_kept_def
      kMaxSignedRevocationsPerFrame_def kMaxSignedRevocationBlobBytes_def)

theorem control_round_trip_witness:
  "decode_control (encode_control sample_control) = Some (sample_control\<lparr> cm_signed_revocations := [[1, 2]] \<rparr>)"
  using control_round_trip [OF sample_control_fits] sample_control_seen by simp

theorem control_decode_bounded_witness:
  "decode_control (encode_control sample_control) = Some (sample_control\<lparr> cm_signed_revocations := [[1, 2]] \<rparr>) \<and>
   17 * length (cm_updates (sample_control\<lparr> cm_signed_revocations := [[1, 2]] \<rparr>)) \<le> length (encode_control sample_control)"
proof -
  have d: "decode_control (encode_control sample_control) = Some (sample_control\<lparr> cm_signed_revocations := [[1, 2]] \<rparr>)"
    using decode_encode_control [OF sample_control_fits] sample_control_seen by simp
  with control_decode_bounded [OF d] show ?thesis by blast
qed

end
