(* ===== verification/Admission.thy ===== *)
theory Admission
  imports Placement
begin

text \<open>
  Application-driven admission: the snapshots, their builder and the authority of
  \<open>include/quark/core/admission.hpp\<close>, and the trust-anchor seam of \<open>include/quark/core/node_authority.hpp\<close>
  with the placement that consults it.  An authority is any predicate on nodes.  A listener is its
  registration number; a publish returns the calls it makes, in order, each with the snapshot it passes.
\<close>

section \<open>Snapshots\<close>

datatype admission_verdict = Deny | Admit | LogExchangeOnly

record admission_snapshot =
  as_generation :: u64
  as_entries :: "(node_id \<times> admission_verdict) list"

record snapshot_builder =
  sb_generation :: u64
  sb_entries :: "(node_id \<times> admission_verdict) list"

definition builder_create :: "u64 \<Rightarrow> snapshot_builder" where
  "builder_create g = \<lparr> sb_generation = g, sb_entries = [] \<rparr>"

fun set_entry :: "node_id \<Rightarrow> admission_verdict \<Rightarrow> (node_id \<times> admission_verdict) list \<Rightarrow> (node_id \<times> admission_verdict) list" where
  "set_entry k v [] = [(k, v)]"
| "set_entry k v ((k', v') # es) = (if k' = k then (k', v) # es else (k', v') # set_entry k v es)"

definition builder_set :: "node_id \<Rightarrow> admission_verdict \<Rightarrow> snapshot_builder \<Rightarrow> snapshot_builder" where
  "builder_set k v b = b\<lparr> sb_entries := set_entry k v (sb_entries b) \<rparr>"

definition builder_build :: "snapshot_builder \<Rightarrow> admission_snapshot" where
  "builder_build b = \<lparr> as_generation = sb_generation b, as_entries = sort_key fst (sb_entries b) \<rparr>"

definition entries_lower_bound :: "(node_id \<times> admission_verdict) list \<Rightarrow> node_id \<Rightarrow> nat" where
  "entries_lower_bound es k = length (takeWhile (\<lambda>e. fst e < k) es)"

definition snapshot_lookup :: "admission_snapshot \<Rightarrow> node_id \<Rightarrow> admission_verdict" where
  "snapshot_lookup s k =
     (let es = as_entries s; i = entries_lower_bound es k in
      if i < length es \<and> fst (es ! i) = k then snd (es ! i) else Deny)"

definition keys_with :: "admission_snapshot \<Rightarrow> admission_verdict \<Rightarrow> node_id list" where
  "keys_with s v = map fst (filter (\<lambda>e. snd e = v) (as_entries s))"

lemma map_of_set_entry: "map_of (set_entry k v es) = (map_of es)(k \<mapsto> v)"
  by (induction k v es rule: set_entry.induct) auto

lemma fst_set_entry: "set (map fst (set_entry k v es)) = insert k (set (map fst es))"
  by (induction k v es rule: set_entry.induct) auto

lemma distinct_set_entry: "distinct (map fst es) \<Longrightarrow> distinct (map fst (set_entry k v es))"
  by (induction k v es rule: set_entry.induct) (use fst_set_entry in force)+

lemma lower_bound_lookup:
  assumes "sorted (map fst es)"
  shows "(let i = entries_lower_bound es k in if i < length es \<and> fst (es ! i) = k then snd (es ! i) else Deny) =
    (case map_of es k of None \<Rightarrow> Deny | Some v \<Rightarrow> v)"
  using assms
proof (induction es)
  case Nil
  then show ?case by (simp add: entries_lower_bound_def)
next
  case (Cons e es)
  consider "fst e < k" | "fst e = k" | "k < fst e" by (meson linorder_less_linear)
  then show ?case
  proof cases
    case 1
    with Cons show ?thesis by (cases e) (auto simp: entries_lower_bound_def Let_def)
  next
    case 2
    then show ?thesis by (cases e) (simp add: entries_lower_bound_def)
  next
    case 3
    with Cons.prems have "map_of es k = None" by (force simp: map_of_eq_None_iff)
    moreover have "\<not> fst e < k" "fst e \<noteq> k" using 3 by auto
    ultimately show ?thesis by (cases e) (auto simp: entries_lower_bound_def)
  qed
qed

definition built_from :: "snapshot_builder \<Rightarrow> bool" where
  "built_from b \<longleftrightarrow> distinct (map fst (sb_entries b))"

lemma built_from_create [simp]: "built_from (builder_create g)"
  by (simp add: built_from_def builder_create_def)

lemma built_from_set [simp]: "built_from b \<Longrightarrow> built_from (builder_set k v b)"
  by (simp add: built_from_def builder_set_def distinct_set_entry)

lemma map_of_sort_key: "distinct (map fst es) \<Longrightarrow> map_of (sort_key fst es) = map_of es"
  by (rule map_of_inject_set [THEN iffD2]) (auto simp: distinct_map inj_on_def)

lemma lookup_build:
  assumes "built_from b"
  shows "snapshot_lookup (builder_build b) k = (case map_of (sb_entries b) k of None \<Rightarrow> Deny | Some v \<Rightarrow> v)"
  using lower_bound_lookup [of "sort_key fst (sb_entries b)" k] assms
  by (simp add: snapshot_lookup_def builder_build_def map_of_sort_key built_from_def Let_def)

text \<open>The application's calls on a builder: the last one for a key decides, and no call means denied.\<close>

definition run_builder :: "u64 \<Rightarrow> (node_id \<times> admission_verdict) list \<Rightarrow> snapshot_builder" where
  "run_builder g calls = fold (\<lambda>(k, v). builder_set k v) calls (builder_create g)"

lemma fold_builder:
  "built_from b \<Longrightarrow> built_from (fold (\<lambda>(k, v). builder_set k v) calls b) \<and>
     map_of (sb_entries (fold (\<lambda>(k, v). builder_set k v) calls b)) = map_of (rev calls @ sb_entries b)"
  by (induction calls arbitrary: b) (auto simp: builder_set_def map_of_set_entry built_from_def distinct_set_entry map_add_upd_left dest: sym)

text \<open>
  A built snapshot answers with the verdict of the last call for the key, and denies every key
  that was never named, although it searches a sorted table.
\<close>

theorem snapshot_closed_world:
  "snapshot_lookup (builder_build (run_builder g calls)) k = (case map_of (rev calls) k of None \<Rightarrow> Deny | Some v \<Rightarrow> v)"
  using fold_builder [of "builder_create g" calls]
  by (simp add: run_builder_def lookup_build) (simp add: builder_create_def)

section \<open>The authority\<close>

text \<open>
  \<open>aa_publishing\<close> is the thread-local flag that is set while the listeners run: it refuses a publish from
  inside a listener.
\<close>

record admission_authority =
  aa_current :: admission_snapshot
  aa_listeners :: "u64 list"
  aa_next_listener :: u64
  aa_publishes :: u64
  aa_refused :: u64
  aa_publishing :: bool

definition authority_create :: admission_authority where
  "authority_create = \<lparr> aa_current = builder_build (builder_create 0), aa_listeners = [], aa_next_listener = 0,
     aa_publishes = 0, aa_refused = 0, aa_publishing = False \<rparr>"

definition authority_generation :: "admission_authority \<Rightarrow> u64" where
  "authority_generation a = as_generation (aa_current a)"

definition authority_verdict :: "admission_authority \<Rightarrow> node_id \<Rightarrow> admission_verdict" where
  "authority_verdict a k = snapshot_lookup (aa_current a) k"

definition authority_admitted :: "admission_authority \<Rightarrow> node_id \<Rightarrow> bool" where
  "authority_admitted a n \<longleftrightarrow> authority_verdict a n = Admit"

definition add_listener :: "admission_authority \<Rightarrow> u64 \<times> admission_authority" where
  "add_listener a =
     (let i = aa_next_listener a + 1 in (i, a\<lparr> aa_next_listener := i, aa_listeners := aa_listeners a @ [i] \<rparr>))"

definition remove_listener :: "u64 \<Rightarrow> admission_authority \<Rightarrow> admission_authority" where
  "remove_listener i a = a\<lparr> aa_listeners := filter (\<lambda>j. j \<noteq> i) (aa_listeners a) \<rparr>"

text \<open>A publish returns its result, the authority after it and the listeners it has called with the snapshot.\<close>

definition publish ::
  "admission_snapshot option \<Rightarrow> admission_authority \<Rightarrow> bool \<times> admission_authority \<times> (u64 \<times> admission_snapshot) list" where
  "publish next a =
     (case next of
        None \<Rightarrow> (False, a\<lparr> aa_refused := aa_refused a + 1 \<rparr>, [])
      | Some s \<Rightarrow>
          if aa_publishing a then (False, a\<lparr> aa_refused := aa_refused a + 1 \<rparr>, [])
          else if as_generation s \<le> as_generation (aa_current a) then (False, a\<lparr> aa_refused := aa_refused a + 1 \<rparr>, [])
          else (True, a\<lparr> aa_current := s, aa_publishes := aa_publishes a + 1 \<rparr>, map (\<lambda>i. (i, s)) (aa_listeners a)))"

fun publish_all :: "admission_snapshot option list \<Rightarrow> admission_authority \<Rightarrow> admission_authority" where
  "publish_all [] a = a"
| "publish_all (s # ss) a = publish_all ss (fst (snd (publish s a)))"

lemma publish_generation:
  "as_generation (aa_current a) \<le> as_generation (aa_current (fst (snd (publish s a))))"
  by (auto simp: publish_def split: option.splits)

lemma publish_current:
  "aa_current (fst (snd (publish s a))) = aa_current a \<or>
     (\<exists>t. s = Some t \<and> as_generation (aa_current a) < as_generation t \<and> aa_current (fst (snd (publish s a))) = t)"
  by (auto simp: publish_def split: option.splits)

lemma publish_all_current:
  "aa_current (publish_all ss a) = aa_current a \<or>
     (\<exists>t. Some t \<in> set ss \<and> as_generation (aa_current a) < as_generation t \<and> aa_current (publish_all ss a) = t)"
proof (induction ss arbitrary: a)
  case (Cons s ss)
  let ?a = "fst (snd (publish s a))"
  from Cons [of ?a] publish_current [of s a] publish_generation [of a s] show ?case
    by (auto intro: order_le_less_trans)
qed simp

text \<open>
  Property C16.  No publish that comes late or again re-admits a peer: from the moment a generation is in
  force, any sequence of publishes, of which none denies less above that generation, leaves a denied peer
  denied.
\<close>

theorem stale_publish_cannot_readmit:
  assumes "authority_verdict a n = Deny"
    and "\<forall>t. Some t \<in> set ss \<longrightarrow> as_generation (aa_current a) < as_generation t \<longrightarrow> snapshot_lookup t n = Deny"
  shows "authority_verdict (publish_all ss a) n = Deny \<and>
    authority_generation a \<le> authority_generation (publish_all ss a)"
  using publish_all_current [of ss a] assms
  by (auto simp: authority_verdict_def authority_generation_def)

theorem stale_publish_cannot_readmit_witness:
  "authority_verdict (publish_all [Some (builder_build (run_builder 4 [(7, Admit)])), None]
     (fst (snd (publish (Some (builder_build (run_builder 5 [(7, Admit), (7, Deny)]))) authority_create)))) 7 = Deny"
proof -
  let ?a = "fst (snd (publish (Some (builder_build (run_builder 5 [(7, Admit), (7, Deny)]))) authority_create))"
  have "authority_verdict ?a 7 = Deny" by code_simp
  moreover have "as_generation (aa_current ?a) = 5" by code_simp
  moreover have "as_generation (builder_build (run_builder 4 [(7, Admit)])) = 4" by code_simp
  ultimately show ?thesis
    using stale_publish_cannot_readmit [of ?a 7 "[Some (builder_build (run_builder 4 [(7, Admit)])), None]"] by simp
qed

text \<open>Every listener that is registered has been called, in order of registration, when a publish succeeds.\<close>

lemma publish_notifies:
  "publish s a = (True, a', calls) \<Longrightarrow>
     \<exists>t. s = Some t \<and> map fst calls = aa_listeners a \<and> (\<forall>c. c \<in> set calls \<longrightarrow> snd c = t) \<and> aa_current a' = t"
  by (auto simp: publish_def comp_def split: option.splits if_splits)

section \<open>Admission-gated placement\<close>

text \<open>The authorities of the seam: the one that admits everything and the allowlist.\<close>

definition admit_all :: "node_id \<Rightarrow> bool" where
  "admit_all n = True"

definition allowlist_admit :: "node_id \<Rightarrow> node_id set \<Rightarrow> node_id set" where
  "allowlist_admit n s = insert n s"

definition allowlist_revoke :: "node_id \<Rightarrow> node_id set \<Rightarrow> node_id set" where
  "allowlist_revoke n s = s - {n}"

definition allowlist_admitted :: "node_id set \<Rightarrow> node_id \<Rightarrow> bool" where
  "allowlist_admitted s n \<longleftrightarrow> n \<in> s"

definition admitted_nodes :: "membership_view \<Rightarrow> (node_id \<Rightarrow> bool) \<Rightarrow> node_id list" where
  "admitted_nodes view authority = filter (\<lambda>n. \<not> is_client_node n \<and> authority n) (view_nodes view)"

definition place_admitted :: "actor_id \<Rightarrow> membership_view \<Rightarrow> (node_id \<Rightarrow> bool) \<Rightarrow> node_id option" where
  "place_admitted i view authority = place_hash (actor_hash i) (admitted_nodes view authority)"

lemma place_admitted_iff:
  "place_admitted i view authority = Some n \<longleftrightarrow>
     is_winner (actor_hash i) {m. m \<in> set (view_nodes view) \<and> \<not> is_client_node m \<and> authority m} n"
  by (simp add: place_admitted_def place_hash_eq_Some_iff admitted_nodes_def)

text \<open>
  Placement under an authority chooses a live node that the authority admits and that is no
  client, the one of highest weight among them, and it finds one whenever there is one.
\<close>

theorem place_admitted_correct:
  "place_admitted i view authority = Some n \<longleftrightarrow>
     is_winner (actor_hash i) {m. m \<in> set (view_nodes view) \<and> \<not> is_client_node m \<and> authority m} n"
  by (rule place_admitted_iff)

lemma denied_never_placed: "authority_verdict a n \<noteq> Admit \<Longrightarrow> place_admitted i view (authority_admitted a) \<noteq> Some n"
  by (auto simp: place_admitted_iff is_winner_def authority_admitted_def)

end
