(* ===== verification/Mobile_Lease.thy ===== *)
theory Mobile_Lease
  imports Ids "HOL-Library.AList"
begin

text \<open>
  The suspension leases of \<open>include/quark/core/mobile_lease.hpp\<close>: what a member keeps for peers that have
  announced a graceful suspend.  The table is an association list with distinct keys.  Times are the
  nanoseconds of the injected clock, as integers.
\<close>

section \<open>The lease table\<close>

text \<open>The reason travels as its code; a code outside the enumeration is kept as it came.\<close>

type_synonym suspend_reason = u8

definition sr_app_background :: suspend_reason where "sr_app_background = 1"
definition sr_doze :: suspend_reason where "sr_doze = 2"
definition sr_network_lost :: suspend_reason where "sr_network_lost = 3"
definition sr_other :: suspend_reason where "sr_other = 4"

record mobile_profile =
  max_lease_ns :: int
  max_suspended :: nat
  default_lease_ns :: int

definition mobile_profile_default :: mobile_profile where
  "mobile_profile_default = \<lparr> max_lease_ns = 15 * 60 * 1000000000, max_suspended = 64, default_lease_ns = 10 * 60 * 1000000000 \<rparr>"

record lease_entry =
  le_until_ns :: int
  le_incarnation :: u64
  le_reason :: suspend_reason

type_synonym suspend_leases = "(u64 \<times> lease_entry) list"

definition sl_find :: "u64 \<Rightarrow> suspend_leases \<Rightarrow> lease_entry option" where
  "sl_find node m = map_of m node"

definition sl_contains :: "u64 \<Rightarrow> suspend_leases \<Rightarrow> bool" where
  "sl_contains node m \<longleftrightarrow> sl_find node m \<noteq> None"

definition sl_clear :: "u64 \<Rightarrow> suspend_leases \<Rightarrow> suspend_leases" where
  "sl_clear node m = AList.delete node m"

definition sl_grant ::
  "u64 \<Rightarrow> u64 \<Rightarrow> int \<Rightarrow> suspend_reason \<Rightarrow> int \<Rightarrow> mobile_profile \<Rightarrow> suspend_leases \<Rightarrow> bool \<times> suspend_leases" where
  "sl_grant node inc lease_ns why now profile m =
     (if lease_ns \<le> 0 then (False, m)
      else if sl_find node m = None \<and> max_suspended profile \<le> length m then (False, m)
      else (True, AList.update node \<lparr> le_until_ns = now + min lease_ns (max_lease_ns profile), le_incarnation = inc, le_reason = why \<rparr> m))"

definition sl_expire :: "int \<Rightarrow> suspend_leases \<Rightarrow> u64 list \<times> suspend_leases" where
  "sl_expire now m =
     (let out = sort (map fst (filter (\<lambda>e. le_until_ns (snd e) \<le> now) m)) in (out, fold sl_clear out m))"

section \<open>Its laws\<close>

definition leases_ok :: "mobile_profile \<Rightarrow> suspend_leases \<Rightarrow> bool" where
  "leases_ok profile m \<longleftrightarrow> distinct (map fst m) \<and> length m \<le> max_suspended profile"

lemma sl_find_clear: "sl_find n (sl_clear k m) = (if n = k then None else sl_find n m)"
  by (simp add: sl_find_def sl_clear_def delete_conv')

lemma length_sl_clear: "length (sl_clear k m) \<le> length m"
  by (induction m) (auto simp: sl_clear_def)

lemma leases_ok_clear: "leases_ok p m \<Longrightarrow> leases_ok p (sl_clear k m)"
  using length_sl_clear [of k m] by (auto simp: leases_ok_def sl_clear_def distinct_delete)

lemma find_None_fst: "sl_find n m = None \<longleftrightarrow> n \<notin> fst ` set m"
  by (simp add: sl_find_def map_of_eq_None_iff)

lemma length_update_present: "k \<in> fst ` set m \<Longrightarrow> length (AList.update k v m) = length m"
  by (induction m) auto

lemma length_update_absent: "k \<notin> fst ` set m \<Longrightarrow> length (AList.update k v m) = Suc (length m)"
  by (induction m) auto

lemma leases_ok_grant: "leases_ok p m \<Longrightarrow> leases_ok p (snd (sl_grant n i l w now p m))"
  by (cases "n \<in> fst ` set m")
    (auto simp: leases_ok_def sl_grant_def find_None_fst distinct_update length_update_present length_update_absent)

lemma sl_find_grant:
  "sl_find k (snd (sl_grant n i l w now p m)) =
     (if fst (sl_grant n i l w now p m) \<and> k = n
      then Some \<lparr> le_until_ns = now + min l (max_lease_ns p), le_incarnation = i, le_reason = w \<rparr> else sl_find k m)"
  by (simp add: sl_grant_def sl_find_def update_conv')

lemma find_fold_clear: "sl_find n (fold sl_clear ks m) = (if n \<in> set ks then None else sl_find n m)"
  by (induction ks arbitrary: m) (auto simp: sl_find_clear)

lemma leases_ok_fold_clear: "leases_ok p m \<Longrightarrow> leases_ok p (fold sl_clear ks m)"
  by (induction ks arbitrary: m) (auto simp: leases_ok_clear)

lemma sl_expire_correct:
  assumes "distinct (map fst m)"
  shows "set (fst (sl_expire now m)) = {n. \<exists>e. sl_find n m = Some e \<and> le_until_ns e \<le> now}"
    and "sorted_wrt (<) (fst (sl_expire now m))"
    and "sl_find n (snd (sl_expire now m)) =
      (case sl_find n m of None \<Rightarrow> None | Some e \<Rightarrow> if le_until_ns e \<le> now then None else Some e)"
proof -
  let ?out = "map fst (filter (\<lambda>e. le_until_ns (snd e) \<le> now) m)"
  have mem: "k \<in> set ?out \<longleftrightarrow> (\<exists>e. sl_find k m = Some e \<and> le_until_ns e \<le> now)" for k
    using assms by (force simp: sl_find_def map_of_eq_Some_iff)
  then show "set (fst (sl_expire now m)) = {n. \<exists>e. sl_find n m = Some e \<and> le_until_ns e \<le> now}"
    by (auto simp: sl_expire_def Let_def)
  show "sorted_wrt (<) (fst (sl_expire now m))"
    using assms by (simp add: sl_expire_def strict_sorted_iff distinct_map_filter Let_def)
  show "sl_find n (snd (sl_expire now m)) =
      (case sl_find n m of None \<Rightarrow> None | Some e \<Rightarrow> if le_until_ns e \<le> now then None else Some e)"
    using mem [of n] by (auto simp: sl_expire_def find_fold_clear Let_def split: option.splits)
qed

lemma leases_ok_expire: "leases_ok p m \<Longrightarrow> leases_ok p (snd (sl_expire now m))"
  by (simp add: sl_expire_def leases_ok_fold_clear Let_def)

end
