(* ===== verification/Swim_State.thy ===== *)
theory Swim_State
  imports Swim_Wire Admission Mobile_Lease Governance
begin

text \<open>
  The member table of \<open>SwimMembership\<close> (\<open>include/quark/core/cluster.hpp\<close>): the precedence and refutation
  rules, tombstones, the published snapshots, events and eviction.  The hash maps are association lists with
  distinct keys, iterated in list order; a new key goes to the end.  \<open>kNever\<close> is \<open>None\<close>; times are integers
  (nanoseconds of the injected clock, read once per operation), incarnations 64-bit words.  The test-only
  switches of the configuration are at their default.
\<close>

section \<open>Configuration and state\<close>

record swim_config =
  sc_cluster_id :: cluster_id
  sc_ack_timeout :: int
  sc_suspicion_timeout :: int
  sc_indirect_k :: nat
  sc_gossip_fanout :: nat
  sc_max_gossip_updates :: nat
  sc_max_capability_bytes :: u64
  sc_max_signed :: nat
  sc_seed :: u64
  sc_high_watermark :: u64
  sc_low_watermark :: u64
  sc_congestion_window :: int
  sc_congestion_refresh :: int
  sc_indirect_timeout :: int
  sc_tombstone_ttl :: int
  sc_max_tombstones :: nat
  sc_max_live :: nat
  sc_tomb_probe_interval :: int
  sc_tomb_probe_budget :: nat
  sc_verify_budget :: nat
  sc_control_rate :: u64
  sc_control_burst :: u64
  sc_unverified_ttl :: int
  sc_wire_version :: u8
  sc_authority_only :: bool
  sc_mobile :: mobile_profile

definition sanitize :: "swim_config \<Rightarrow> swim_config" where
  "sanitize c = c\<lparr>
     sc_ack_timeout := (if sc_ack_timeout c \<le> 0 then 1 else sc_ack_timeout c),
     sc_indirect_timeout := (if sc_indirect_timeout c < 0 then 0 else sc_indirect_timeout c),
     sc_max_live := (if sc_max_live c = 0 then 4096 else sc_max_live c),
     sc_control_burst := (if sc_control_burst c = 0 then 1 else sc_control_burst c),
     sc_unverified_ttl := (if sc_unverified_ttl c < 0 then 0 else sc_unverified_ttl c) \<rparr>"

definition kLeftBand :: u64 where
  "kLeftBand = push_bit 32 1"

datatype update_src = SrcLocal | SrcGossip | SrcDirect | SrcJoin | SrcJoinSnapshot

record member =
  mb_incarnation :: u64
  mb_suspect_deadline :: int
  mb_death :: int
  mb_last_direct :: "int option"
  mb_last_probe :: "int option"
  mb_cluster :: cluster_id
  mb_status :: member_status
  mb_tx_left :: nat
  mb_verify_pending :: bool
  mb_verified :: bool
  mb_first_seen :: int
  mb_wire_version :: u8
  mb_reported :: nat
  mb_lease_expired_inc :: u64

definition member_init :: member where
  "member_init = \<lparr> mb_incarnation = 0, mb_suspect_deadline = 0, mb_death = 0, mb_last_direct = None, mb_last_probe = None,
     mb_cluster = 0, mb_status = Alive, mb_tx_left = 0, mb_verify_pending = False, mb_verified = False,
     mb_first_seen = 0, mb_wire_version = 0, mb_reported = 0, mb_lease_expired_inc = 0 \<rparr>"

datatype probe_phase = DirectPhase | IndirectPhase

record swim_probe =
  pb_active :: bool
  pb_phase :: probe_phase
  pb_target :: node_id
  pb_deadline :: int
  pb_seq :: u64
  pb_acked :: bool

definition probe_init :: swim_probe where
  "probe_init = \<lparr> pb_active = False, pb_phase = DirectPhase, pb_target = 0, pb_deadline = 0, pb_seq = 0, pb_acked = False \<rparr>"

record swim =
  sw_self :: node_id
  sw_cfg :: swim_config
  sw_self_inc :: u64
  sw_members :: "(u64 \<times> member) list"
  sw_probe :: swim_probe
  sw_probe_seq :: u64
  sw_probe_order :: "u64 list"
  sw_probe_idx :: nat
  sw_probe_round :: u64
  sw_relay_key :: u64
  sw_cursor :: u64
  sw_sorted :: "u64 list"
  sw_ids_dirty :: bool
  sw_tomb_count :: nat
  sw_tx_pending :: nat
  sw_self_left :: bool
  sw_online :: bool
  sw_leases :: suspend_leases
  sw_suspended :: bool
  sw_network_changes :: u64
  sw_suppressed :: u64
  sw_pressure :: "(u64 \<times> u64) list"
  sw_congested_edge :: bool
  sw_next_refresh :: int
  sw_snapshot :: "node_id list"
  sw_verified_snapshot :: "node_id list"
  sw_epoch :: u64
  sw_has_sinks :: bool
  sw_events :: "membership_event list"
  sw_evicting :: bool
  sw_refusals :: "(u64 \<times> refusal_reason \<times> u8) list"
  sw_ctx_from :: node_id
  sw_ctx_version :: u8
  sw_ext_refusals :: "(node_id \<times> u8 \<times> refusal_reason) list"
  sw_version_refusals :: u64
  sw_admission :: "admission_snapshot option"
  sw_admission_dirty :: bool
  sw_evictions :: u64
  sw_admission_refusals :: u64
  sw_revocations_ignored :: u64
  sw_budgets :: "rate_bucket list"
  sw_control_sheds :: u64
  sw_client_drops :: u64
  sw_gossip_rejected :: u64

definition member_of :: "swim \<Rightarrow> u64 \<Rightarrow> member option" where
  "member_of s n = map_of (sw_members s) n"

definition put_member :: "u64 \<Rightarrow> member \<Rightarrow> swim \<Rightarrow> swim" where
  "put_member n m s = s\<lparr> sw_members := AList.update n m (sw_members s) \<rparr>"

lemma put_member_frame [simp]:
  "sw_self (put_member n m s) = sw_self s" "sw_cfg (put_member n m s) = sw_cfg s"
  "sw_self_inc (put_member n m s) = sw_self_inc s" "sw_probe (put_member n m s) = sw_probe s"
  "sw_probe_seq (put_member n m s) = sw_probe_seq s" "sw_probe_order (put_member n m s) = sw_probe_order s"
  "sw_probe_idx (put_member n m s) = sw_probe_idx s" "sw_probe_round (put_member n m s) = sw_probe_round s"
  "sw_relay_key (put_member n m s) = sw_relay_key s" "sw_cursor (put_member n m s) = sw_cursor s"
  "sw_sorted (put_member n m s) = sw_sorted s" "sw_ids_dirty (put_member n m s) = sw_ids_dirty s"
  "sw_tomb_count (put_member n m s) = sw_tomb_count s" "sw_tx_pending (put_member n m s) = sw_tx_pending s"
  "sw_self_left (put_member n m s) = sw_self_left s" "sw_online (put_member n m s) = sw_online s"
  "sw_leases (put_member n m s) = sw_leases s" "sw_suspended (put_member n m s) = sw_suspended s"
  "sw_network_changes (put_member n m s) = sw_network_changes s" "sw_suppressed (put_member n m s) = sw_suppressed s"
  "sw_pressure (put_member n m s) = sw_pressure s" "sw_congested_edge (put_member n m s) = sw_congested_edge s"
  "sw_next_refresh (put_member n m s) = sw_next_refresh s" "sw_snapshot (put_member n m s) = sw_snapshot s"
  "sw_verified_snapshot (put_member n m s) = sw_verified_snapshot s" "sw_epoch (put_member n m s) = sw_epoch s"
  "sw_has_sinks (put_member n m s) = sw_has_sinks s" "sw_events (put_member n m s) = sw_events s"
  "sw_evicting (put_member n m s) = sw_evicting s" "sw_refusals (put_member n m s) = sw_refusals s"
  "sw_ctx_from (put_member n m s) = sw_ctx_from s" "sw_ctx_version (put_member n m s) = sw_ctx_version s"
  "sw_ext_refusals (put_member n m s) = sw_ext_refusals s"
  "sw_version_refusals (put_member n m s) = sw_version_refusals s" "sw_admission (put_member n m s) = sw_admission s"
  "sw_admission_dirty (put_member n m s) = sw_admission_dirty s" "sw_evictions (put_member n m s) = sw_evictions s"
  "sw_admission_refusals (put_member n m s) = sw_admission_refusals s"
  "sw_revocations_ignored (put_member n m s) = sw_revocations_ignored s"
  "sw_budgets (put_member n m s) = sw_budgets s" "sw_control_sheds (put_member n m s) = sw_control_sheds s"
  "sw_client_drops (put_member n m s) = sw_client_drops s"
  "sw_gossip_rejected (put_member n m s) = sw_gossip_rejected s"
  by (simp_all add: put_member_def)

definition is_tomb :: "member_status \<Rightarrow> bool" where
  "is_tomb st \<longleftrightarrow> st = Dead \<or> st = Left"

definition indirect_ns :: "swim_config \<Rightarrow> int" where
  "indirect_ns c = max 1 (if sc_indirect_timeout c \<noteq> 0 then sc_indirect_timeout c else sc_ack_timeout c)"

fun bit_width :: "nat \<Rightarrow> nat" where
  "bit_width n = (if n = 0 then 0 else Suc (bit_width (n div 2)))"

declare bit_width.simps [simp del]

definition piggyback_count :: "swim \<Rightarrow> nat" where
  "piggyback_count s = min (3 * bit_width (length (sw_members s))) 255"

definition set_tx :: "nat \<Rightarrow> member \<Rightarrow> nat \<Rightarrow> member \<times> nat" where
  "set_tx v m pending =
     (m\<lparr> mb_tx_left := v \<rparr>,
      if mb_tx_left m = 0 \<and> v \<noteq> 0 then pending + 1
      else if mb_tx_left m \<noteq> 0 \<and> v = 0 then pending - 1 else pending)"

text \<open>\<open>set_tx\<close> on the entry of a member in the table.\<close>

definition set_tx_of :: "u64 \<Rightarrow> nat \<Rightarrow> swim \<Rightarrow> swim" where
  "set_tx_of n v s =
     (case member_of s n of None \<Rightarrow> s
      | Some m \<Rightarrow> (case set_tx v m (sw_tx_pending s) of (m', p) \<Rightarrow> (put_member n m' s)\<lparr> sw_tx_pending := p \<rparr>))"

lemma set_tx_of_frame [simp]:
  "sw_self (set_tx_of n v s) = sw_self s" "sw_cfg (set_tx_of n v s) = sw_cfg s"
  "sw_self_inc (set_tx_of n v s) = sw_self_inc s" "sw_probe (set_tx_of n v s) = sw_probe s"
  "sw_probe_seq (set_tx_of n v s) = sw_probe_seq s" "sw_probe_order (set_tx_of n v s) = sw_probe_order s"
  "sw_probe_idx (set_tx_of n v s) = sw_probe_idx s" "sw_probe_round (set_tx_of n v s) = sw_probe_round s"
  "sw_relay_key (set_tx_of n v s) = sw_relay_key s" "sw_cursor (set_tx_of n v s) = sw_cursor s"
  "sw_sorted (set_tx_of n v s) = sw_sorted s" "sw_ids_dirty (set_tx_of n v s) = sw_ids_dirty s"
  "sw_tomb_count (set_tx_of n v s) = sw_tomb_count s" "sw_self_left (set_tx_of n v s) = sw_self_left s"
  "sw_online (set_tx_of n v s) = sw_online s" "sw_leases (set_tx_of n v s) = sw_leases s"
  "sw_suspended (set_tx_of n v s) = sw_suspended s" "sw_network_changes (set_tx_of n v s) = sw_network_changes s"
  "sw_suppressed (set_tx_of n v s) = sw_suppressed s" "sw_pressure (set_tx_of n v s) = sw_pressure s"
  "sw_congested_edge (set_tx_of n v s) = sw_congested_edge s" "sw_next_refresh (set_tx_of n v s) = sw_next_refresh s"
  "sw_snapshot (set_tx_of n v s) = sw_snapshot s" "sw_verified_snapshot (set_tx_of n v s) = sw_verified_snapshot s"
  "sw_epoch (set_tx_of n v s) = sw_epoch s" "sw_has_sinks (set_tx_of n v s) = sw_has_sinks s"
  "sw_events (set_tx_of n v s) = sw_events s" "sw_evicting (set_tx_of n v s) = sw_evicting s"
  "sw_refusals (set_tx_of n v s) = sw_refusals s" "sw_ctx_from (set_tx_of n v s) = sw_ctx_from s"
  "sw_ctx_version (set_tx_of n v s) = sw_ctx_version s" "sw_ext_refusals (set_tx_of n v s) = sw_ext_refusals s"
  "sw_version_refusals (set_tx_of n v s) = sw_version_refusals s" "sw_admission (set_tx_of n v s) = sw_admission s"
  "sw_admission_dirty (set_tx_of n v s) = sw_admission_dirty s" "sw_evictions (set_tx_of n v s) = sw_evictions s"
  "sw_admission_refusals (set_tx_of n v s) = sw_admission_refusals s"
  "sw_revocations_ignored (set_tx_of n v s) = sw_revocations_ignored s" "sw_budgets (set_tx_of n v s) = sw_budgets s"
  "sw_control_sheds (set_tx_of n v s) = sw_control_sheds s" "sw_client_drops (set_tx_of n v s) = sw_client_drops s"
  "sw_gossip_rejected (set_tx_of n v s) = sw_gossip_rejected s"
  by (simp_all add: set_tx_of_def split: option.split prod.split)

section \<open>Snapshots and events\<close>

definition live_ids :: "swim \<Rightarrow> u64 list" where
  "live_ids s = map fst (filter (\<lambda>(i, m). \<not> is_tomb (mb_status m)) (sw_members s))"

definition verified_ids :: "swim \<Rightarrow> u64 list" where
  "verified_ids s =
     map fst (filter (\<lambda>(i, m). \<not> is_tomb (mb_status m) \<and> (mb_verified m \<or> i = sw_self s)) (sw_members s))"

definition republish :: "swim \<Rightarrow> swim" where
  "republish s = s\<lparr> sw_snapshot := sort (live_ids s), sw_verified_snapshot := sort (verified_ids s), sw_epoch := sw_epoch s + 1 \<rparr>"

lemma republish_frame [simp]:
  "sw_self (republish s) = sw_self s" "sw_cfg (republish s) = sw_cfg s" "sw_self_inc (republish s) = sw_self_inc s"
  "sw_members (republish s) = sw_members s" "sw_probe (republish s) = sw_probe s"
  "sw_probe_seq (republish s) = sw_probe_seq s" "sw_probe_order (republish s) = sw_probe_order s"
  "sw_probe_idx (republish s) = sw_probe_idx s" "sw_probe_round (republish s) = sw_probe_round s"
  "sw_relay_key (republish s) = sw_relay_key s" "sw_cursor (republish s) = sw_cursor s"
  "sw_sorted (republish s) = sw_sorted s" "sw_ids_dirty (republish s) = sw_ids_dirty s"
  "sw_tomb_count (republish s) = sw_tomb_count s" "sw_tx_pending (republish s) = sw_tx_pending s"
  "sw_self_left (republish s) = sw_self_left s" "sw_online (republish s) = sw_online s"
  "sw_leases (republish s) = sw_leases s" "sw_suspended (republish s) = sw_suspended s"
  "sw_network_changes (republish s) = sw_network_changes s" "sw_suppressed (republish s) = sw_suppressed s"
  "sw_pressure (republish s) = sw_pressure s" "sw_congested_edge (republish s) = sw_congested_edge s"
  "sw_next_refresh (republish s) = sw_next_refresh s" "sw_has_sinks (republish s) = sw_has_sinks s"
  "sw_events (republish s) = sw_events s" "sw_evicting (republish s) = sw_evicting s"
  "sw_refusals (republish s) = sw_refusals s" "sw_ctx_from (republish s) = sw_ctx_from s"
  "sw_ctx_version (republish s) = sw_ctx_version s" "sw_ext_refusals (republish s) = sw_ext_refusals s"
  "sw_version_refusals (republish s) = sw_version_refusals s" "sw_admission (republish s) = sw_admission s"
  "sw_admission_dirty (republish s) = sw_admission_dirty s" "sw_evictions (republish s) = sw_evictions s"
  "sw_admission_refusals (republish s) = sw_admission_refusals s"
  "sw_revocations_ignored (republish s) = sw_revocations_ignored s" "sw_budgets (republish s) = sw_budgets s"
  "sw_control_sheds (republish s) = sw_control_sheds s" "sw_client_drops (republish s) = sw_client_drops s"
  "sw_gossip_rejected (republish s) = sw_gossip_rejected s"
  by (simp_all add: republish_def)

definition swim_view :: "swim \<Rightarrow> membership_view" where
  "swim_view s = \<lparr> view_nodes = sw_snapshot s, view_epoch = sw_epoch s \<rparr>"

definition placement_view :: "swim \<Rightarrow> membership_view" where
  "placement_view s = \<lparr> view_nodes = sw_verified_snapshot s, view_epoch = sw_epoch s \<rparr>"

definition push_event :: "int \<Rightarrow> membership_event_kind \<Rightarrow> node_id \<Rightarrow> member \<Rightarrow> swim \<Rightarrow> swim" where
  "push_event now k n m s =
     (if \<not> sw_has_sinks s then s
      else s\<lparr> sw_events := sw_events s @ [\<lparr> ev_kind = k, ev_node = n, ev_incarnation = mb_incarnation m, ev_epoch = sw_epoch s,
             ev_protocol_version = mb_wire_version m, ev_at_ns = now, ev_refusal = NoRefusal, ev_refused_by_peer = False \<rparr>] \<rparr>)"

lemma push_event_frame [simp]:
  "sw_self (push_event now k n m s) = sw_self s" "sw_cfg (push_event now k n m s) = sw_cfg s"
  "sw_self_inc (push_event now k n m s) = sw_self_inc s" "sw_members (push_event now k n m s) = sw_members s"
  "sw_probe (push_event now k n m s) = sw_probe s" "sw_probe_seq (push_event now k n m s) = sw_probe_seq s"
  "sw_probe_order (push_event now k n m s) = sw_probe_order s"
  "sw_probe_idx (push_event now k n m s) = sw_probe_idx s"
  "sw_probe_round (push_event now k n m s) = sw_probe_round s"
  "sw_relay_key (push_event now k n m s) = sw_relay_key s" "sw_cursor (push_event now k n m s) = sw_cursor s"
  "sw_sorted (push_event now k n m s) = sw_sorted s" "sw_ids_dirty (push_event now k n m s) = sw_ids_dirty s"
  "sw_tomb_count (push_event now k n m s) = sw_tomb_count s"
  "sw_tx_pending (push_event now k n m s) = sw_tx_pending s" "sw_self_left (push_event now k n m s) = sw_self_left s"
  "sw_online (push_event now k n m s) = sw_online s" "sw_leases (push_event now k n m s) = sw_leases s"
  "sw_suspended (push_event now k n m s) = sw_suspended s"
  "sw_network_changes (push_event now k n m s) = sw_network_changes s"
  "sw_suppressed (push_event now k n m s) = sw_suppressed s" "sw_pressure (push_event now k n m s) = sw_pressure s"
  "sw_congested_edge (push_event now k n m s) = sw_congested_edge s"
  "sw_next_refresh (push_event now k n m s) = sw_next_refresh s"
  "sw_snapshot (push_event now k n m s) = sw_snapshot s"
  "sw_verified_snapshot (push_event now k n m s) = sw_verified_snapshot s"
  "sw_epoch (push_event now k n m s) = sw_epoch s" "sw_has_sinks (push_event now k n m s) = sw_has_sinks s"
  "sw_evicting (push_event now k n m s) = sw_evicting s" "sw_refusals (push_event now k n m s) = sw_refusals s"
  "sw_ctx_from (push_event now k n m s) = sw_ctx_from s" "sw_ctx_version (push_event now k n m s) = sw_ctx_version s"
  "sw_ext_refusals (push_event now k n m s) = sw_ext_refusals s"
  "sw_version_refusals (push_event now k n m s) = sw_version_refusals s"
  "sw_admission (push_event now k n m s) = sw_admission s"
  "sw_admission_dirty (push_event now k n m s) = sw_admission_dirty s"
  "sw_evictions (push_event now k n m s) = sw_evictions s"
  "sw_admission_refusals (push_event now k n m s) = sw_admission_refusals s"
  "sw_revocations_ignored (push_event now k n m s) = sw_revocations_ignored s"
  "sw_budgets (push_event now k n m s) = sw_budgets s"
  "sw_control_sheds (push_event now k n m s) = sw_control_sheds s"
  "sw_client_drops (push_event now k n m s) = sw_client_drops s"
  "sw_gossip_rejected (push_event now k n m s) = sw_gossip_rejected s"
  by (simp_all add: push_event_def)

definition status_code :: "member_status \<Rightarrow> nat" where
  "status_code st = (case st of Alive \<Rightarrow> 0 | Suspect \<Rightarrow> 1 | Dead \<Rightarrow> 2 | Left \<Rightarrow> 3)"

definition note_transition :: "int \<Rightarrow> node_id \<Rightarrow> member_status \<Rightarrow> swim \<Rightarrow> swim" where
  "note_transition now n prev s =
     (case member_of s n of None \<Rightarrow> s
      | Some m \<Rightarrow>
         if is_tomb (mb_status m) then
           let s1 = s\<lparr> sw_leases := sl_clear n (sw_leases s) \<rparr> in
           if mb_reported m \<noteq> 0 \<and> mb_reported m \<noteq> status_code (mb_status m) then
             let m' = m\<lparr> mb_reported := status_code (mb_status m) \<rparr>
             in push_event now (if mb_status m = Left then LeftEvent else if sw_evicting s then Evicted else DeadEvent) n m'
                  (put_member n m' s1)
           else s1
         else if \<not> mb_verified m \<and> n \<noteq> sw_self s then s
         else if mb_reported m \<noteq> 1 then
           let m' = m\<lparr> mb_reported := 1 \<rparr> in push_event now Joined n m' (put_member n m' s)
         else if mb_status m = Suspect \<and> prev \<noteq> Suspect then push_event now SuspectEvent n m s
         else if mb_status m = Alive \<and> prev = Suspect then push_event now Recovered n m s
         else s)"

text \<open>A state that differs from another one at most in the table, the leases and the events.\<close>

definition touched :: "swim \<Rightarrow> swim \<Rightarrow> bool" where
  "touched s t \<longleftrightarrow> t = s\<lparr> sw_members := sw_members t, sw_leases := sw_leases t, sw_events := sw_events t \<rparr>"

lemma touchedE:
  assumes "touched s t"
  obtains M L E where "t = s\<lparr> sw_members := M, sw_leases := L, sw_events := E \<rparr>"
  using assms by (auto simp: touched_def)

lemma touched_refl: "touched s s"
  by (simp add: touched_def)

lemma touched_put: "touched s t \<Longrightarrow> touched s (put_member n m t)"
  by (elim touchedE) (simp add: touched_def put_member_def)

lemma touched_leases: "touched s t \<Longrightarrow> touched s (t\<lparr> sw_leases := L \<rparr>)"
  by (elim touchedE) (simp add: touched_def)

lemma touched_push: "touched s t \<Longrightarrow> touched s (push_event now k n m t)"
  by (elim touchedE) (simp add: touched_def push_event_def)

lemma touched_note: "touched s (note_transition now n prev s)"
  unfolding note_transition_def Let_def
  by (simp add: touched_refl touched_put touched_leases touched_push split: option.split)

lemma touched_frame:
  "touched s t \<Longrightarrow> sw_self (t) = sw_self s"
  "touched s t \<Longrightarrow> sw_cfg (t) = sw_cfg s"
  "touched s t \<Longrightarrow> sw_self_inc (t) = sw_self_inc s"
  "touched s t \<Longrightarrow> sw_probe (t) = sw_probe s"
  "touched s t \<Longrightarrow> sw_probe_seq (t) = sw_probe_seq s"
  "touched s t \<Longrightarrow> sw_probe_order (t) = sw_probe_order s"
  "touched s t \<Longrightarrow> sw_probe_idx (t) = sw_probe_idx s"
  "touched s t \<Longrightarrow> sw_probe_round (t) = sw_probe_round s"
  "touched s t \<Longrightarrow> sw_relay_key (t) = sw_relay_key s"
  "touched s t \<Longrightarrow> sw_cursor (t) = sw_cursor s"
  "touched s t \<Longrightarrow> sw_sorted (t) = sw_sorted s"
  "touched s t \<Longrightarrow> sw_ids_dirty (t) = sw_ids_dirty s"
  "touched s t \<Longrightarrow> sw_tomb_count (t) = sw_tomb_count s"
  "touched s t \<Longrightarrow> sw_tx_pending (t) = sw_tx_pending s"
  "touched s t \<Longrightarrow> sw_self_left (t) = sw_self_left s"
  "touched s t \<Longrightarrow> sw_online (t) = sw_online s"
  "touched s t \<Longrightarrow> sw_suspended (t) = sw_suspended s"
  "touched s t \<Longrightarrow> sw_network_changes (t) = sw_network_changes s"
  "touched s t \<Longrightarrow> sw_suppressed (t) = sw_suppressed s"
  "touched s t \<Longrightarrow> sw_pressure (t) = sw_pressure s"
  "touched s t \<Longrightarrow> sw_congested_edge (t) = sw_congested_edge s"
  "touched s t \<Longrightarrow> sw_next_refresh (t) = sw_next_refresh s"
  "touched s t \<Longrightarrow> sw_snapshot (t) = sw_snapshot s"
  "touched s t \<Longrightarrow> sw_verified_snapshot (t) = sw_verified_snapshot s"
  "touched s t \<Longrightarrow> sw_epoch (t) = sw_epoch s"
  "touched s t \<Longrightarrow> sw_has_sinks (t) = sw_has_sinks s"
  "touched s t \<Longrightarrow> sw_evicting (t) = sw_evicting s"
  "touched s t \<Longrightarrow> sw_refusals (t) = sw_refusals s"
  "touched s t \<Longrightarrow> sw_ctx_from (t) = sw_ctx_from s"
  "touched s t \<Longrightarrow> sw_ctx_version (t) = sw_ctx_version s"
  "touched s t \<Longrightarrow> sw_ext_refusals (t) = sw_ext_refusals s"
  "touched s t \<Longrightarrow> sw_version_refusals (t) = sw_version_refusals s"
  "touched s t \<Longrightarrow> sw_admission (t) = sw_admission s"
  "touched s t \<Longrightarrow> sw_admission_dirty (t) = sw_admission_dirty s"
  "touched s t \<Longrightarrow> sw_evictions (t) = sw_evictions s"
  "touched s t \<Longrightarrow> sw_admission_refusals (t) = sw_admission_refusals s"
  "touched s t \<Longrightarrow> sw_revocations_ignored (t) = sw_revocations_ignored s"
  "touched s t \<Longrightarrow> sw_budgets (t) = sw_budgets s"
  "touched s t \<Longrightarrow> sw_control_sheds (t) = sw_control_sheds s"
  "touched s t \<Longrightarrow> sw_client_drops (t) = sw_client_drops s"
  "touched s t \<Longrightarrow> sw_gossip_rejected (t) = sw_gossip_rejected s"
  by (elim touchedE, simp)+

lemmas note_transition_frame [simp] = touched_frame [OF touched_note]

section \<open>Tombstones\<close>

text \<open>Of two tombstones the one to evict first: a Dead one, then the oldest, then the lower identifier.\<close>

definition evict_before :: "u64 \<times> member \<Rightarrow> u64 \<times> member \<Rightarrow> bool" where
  "evict_before it victim =
     (let it_dead = (mb_status (snd it) = Dead); victim_dead = (mb_status (snd victim) = Dead) in
      if it_dead \<noteq> victim_dead then it_dead
      else mb_death (snd it) < mb_death (snd victim) \<or>
           (mb_death (snd it) = mb_death (snd victim) \<and> fst it < fst victim))"

fun tomb_victim :: "u64 \<Rightarrow> (u64 \<times> member) list \<Rightarrow> (u64 \<times> member) option \<Rightarrow> (u64 \<times> member) option" where
  "tomb_victim self [] victim = victim"
| "tomb_victim self (it # ms) victim =
     tomb_victim self ms
       (if fst it = self \<or> \<not> is_tomb (mb_status (snd it)) then victim
        else case victim of None \<Rightarrow> Some it | Some v \<Rightarrow> if evict_before it v then Some it else victim)"

lemma tomb_victim_in: "tomb_victim self ms v = Some x \<Longrightarrow> x \<in> set ms \<or> v = Some x"
  by (induction self ms v rule: tomb_victim.induct) (auto split: if_splits option.splits)

definition erase_member :: "u64 \<Rightarrow> swim \<Rightarrow> swim" where
  "erase_member n s = s\<lparr> sw_members := AList.delete n (sw_members s) \<rparr>"

lemma erase_member_frame [simp]:
  "sw_self (erase_member n s) = sw_self s" "sw_cfg (erase_member n s) = sw_cfg s"
  "sw_self_inc (erase_member n s) = sw_self_inc s" "sw_probe (erase_member n s) = sw_probe s"
  "sw_probe_seq (erase_member n s) = sw_probe_seq s" "sw_probe_order (erase_member n s) = sw_probe_order s"
  "sw_probe_idx (erase_member n s) = sw_probe_idx s" "sw_probe_round (erase_member n s) = sw_probe_round s"
  "sw_relay_key (erase_member n s) = sw_relay_key s" "sw_cursor (erase_member n s) = sw_cursor s"
  "sw_sorted (erase_member n s) = sw_sorted s" "sw_ids_dirty (erase_member n s) = sw_ids_dirty s"
  "sw_tomb_count (erase_member n s) = sw_tomb_count s" "sw_tx_pending (erase_member n s) = sw_tx_pending s"
  "sw_self_left (erase_member n s) = sw_self_left s" "sw_online (erase_member n s) = sw_online s"
  "sw_leases (erase_member n s) = sw_leases s" "sw_suspended (erase_member n s) = sw_suspended s"
  "sw_network_changes (erase_member n s) = sw_network_changes s" "sw_suppressed (erase_member n s) = sw_suppressed s"
  "sw_pressure (erase_member n s) = sw_pressure s" "sw_congested_edge (erase_member n s) = sw_congested_edge s"
  "sw_next_refresh (erase_member n s) = sw_next_refresh s" "sw_snapshot (erase_member n s) = sw_snapshot s"
  "sw_verified_snapshot (erase_member n s) = sw_verified_snapshot s" "sw_epoch (erase_member n s) = sw_epoch s"
  "sw_has_sinks (erase_member n s) = sw_has_sinks s" "sw_events (erase_member n s) = sw_events s"
  "sw_evicting (erase_member n s) = sw_evicting s" "sw_refusals (erase_member n s) = sw_refusals s"
  "sw_ctx_from (erase_member n s) = sw_ctx_from s" "sw_ctx_version (erase_member n s) = sw_ctx_version s"
  "sw_ext_refusals (erase_member n s) = sw_ext_refusals s"
  "sw_version_refusals (erase_member n s) = sw_version_refusals s" "sw_admission (erase_member n s) = sw_admission s"
  "sw_admission_dirty (erase_member n s) = sw_admission_dirty s" "sw_evictions (erase_member n s) = sw_evictions s"
  "sw_admission_refusals (erase_member n s) = sw_admission_refusals s"
  "sw_revocations_ignored (erase_member n s) = sw_revocations_ignored s"
  "sw_budgets (erase_member n s) = sw_budgets s" "sw_control_sheds (erase_member n s) = sw_control_sheds s"
  "sw_client_drops (erase_member n s) = sw_client_drops s"
  "sw_gossip_rejected (erase_member n s) = sw_gossip_rejected s"
  by (simp_all add: erase_member_def)

function enforce_tomb_cap :: "swim \<Rightarrow> swim" where
  "enforce_tomb_cap s =
     (if sc_max_tombstones (sw_cfg s) < sw_tomb_count s then
        case tomb_victim (sw_self s) (sw_members s) None of
          None \<Rightarrow> s
        | Some (i, m) \<Rightarrow>
            enforce_tomb_cap ((erase_member i s)\<lparr>
              sw_tx_pending := (if mb_tx_left m \<noteq> 0 then sw_tx_pending s - 1 else sw_tx_pending s),
              sw_tomb_count := sw_tomb_count s - 1, sw_ids_dirty := True \<rparr>)
      else s)"
  by pat_completeness auto

termination
proof (relation "measure sw_tomb_count")
qed auto

declare enforce_tomb_cap.simps [simp del]

section \<open>Merging an update\<close>

text \<open>The node itself: a departure is never refuted, and an accusation is refuted at a higher incarnation.\<close>

definition apply_self :: "u64 \<Rightarrow> member_status \<Rightarrow> swim \<Rightarrow> swim" where
  "apply_self inc st s =
     (if sw_self_left s \<or> st = Left then s
      else if st \<noteq> Alive \<and> sw_self_inc s \<le> inc then
        let me = (case member_of s (sw_self s) of None \<Rightarrow> member_init | Some m \<Rightarrow> m)
        in put_member (sw_self s) (me\<lparr> mb_incarnation := inc + 1, mb_status := Alive \<rparr>) (s\<lparr> sw_self_inc := inc + 1 \<rparr>)
      else s)"

definition first_hand :: "update_src \<Rightarrow> member_status \<Rightarrow> bool" where
  "first_hand src st \<longleftrightarrow> src = SrcDirect \<or> src = SrcJoin \<or> (src = SrcLocal \<and> st = Alive)"

definition apply_unknown :: "int \<Rightarrow> update_src \<Rightarrow> node_id \<Rightarrow> u64 \<Rightarrow> member_status \<Rightarrow> swim \<Rightarrow> swim" where
  "apply_unknown now src n inc st s =
     (if is_tomb st \<and> src \<noteq> SrcLocal then s
      else if st = Suspect then s
      else if \<not> first_hand src st \<and> sc_max_live (sw_cfg s) \<le> length (sw_members s) then s
      else
        let v = first_hand src st;
            m0 = member_init\<lparr> mb_cluster := sc_cluster_id (sw_cfg s), mb_incarnation := inc, mb_status := st, mb_verified := v,
                   mb_first_seen := now \<rparr>;
            (m1, p) = set_tx (if v then piggyback_count s else 0) m0 (sw_tx_pending s);
            m2 = (if is_tomb st then m1\<lparr> mb_death := now, mb_last_probe := Some now \<rparr> else m1);
            m3 = (if n = sw_ctx_from s then m2\<lparr> mb_wire_version := sw_ctx_version s \<rparr> else m2);
            s1 = (put_member n m3 s)\<lparr> sw_tx_pending := p, sw_ids_dirty := True,
                   sw_tomb_count := (if is_tomb st then sw_tomb_count s + 1 else sw_tomb_count s) \<rparr>;
            s2 = (if is_tomb st then s1 else republish s1)
        in enforce_tomb_cap (note_transition now n Alive s2))"

text \<open>Whether an update is taken, and the status it leads to.\<close>

definition decide :: "int \<Rightarrow> int \<Rightarrow> update_src \<Rightarrow> member \<Rightarrow> u64 \<Rightarrow> member_status \<Rightarrow> member_status option" where
  "decide now suspicion src cur inc st =
     (case st of
        Alive \<Rightarrow>
          if src = SrcJoinSnapshot \<and> mb_status cur = Dead \<and> mb_incarnation cur \<le> inc then Some Suspect
          else if mb_incarnation cur < inc then Some Alive else None
      | Suspect \<Rightarrow>
          if mb_incarnation cur < inc \<or> (inc = mb_incarnation cur \<and> mb_status cur = Alive) then Some Suspect else None
      | Dead \<Rightarrow>
          if src = SrcLocal then (if mb_status cur \<noteq> Left \<and> mb_incarnation cur \<le> inc then Some Dead else None)
          else if is_tomb (mb_status cur) then None
          else if inc = mb_incarnation cur \<and> mb_status cur = Alive \<and>
              (case mb_last_direct cur of None \<Rightarrow> False | Some d \<Rightarrow> now - d < suspicion) then None
          else if mb_incarnation cur < inc \<or> (inc = mb_incarnation cur \<and> mb_status cur = Alive) then Some Suspect else None
      | Left \<Rightarrow>
          if (if mb_status cur = Left then mb_incarnation cur < inc else mb_incarnation cur \<le> inc) then Some Left else None)"

definition apply_known :: "int \<Rightarrow> update_src \<Rightarrow> node_id \<Rightarrow> u64 \<Rightarrow> member_status \<Rightarrow> member \<Rightarrow> swim \<Rightarrow> swim" where
  "apply_known now src n inc st cur0 s =
     (let was_live = (\<not> is_tomb (mb_status cur0)); was_verified = mb_verified cur0;
          cur = (if first_hand src st then cur0\<lparr> mb_verified := True \<rparr> else cur0);
          s0 = put_member n cur s
      in case decide now (sc_suspicion_timeout (sw_cfg s)) src cur inc st of
           None \<Rightarrow>
             if \<not> was_verified \<and> mb_verified cur
             then note_transition now n (mb_status cur) (republish (set_tx_of n (piggyback_count s0) s0))
             else s0
         | Some next \<Rightarrow>
             let (cur1, p) = (if mb_incarnation cur \<noteq> inc \<or> mb_status cur \<noteq> next
                              then set_tx (piggyback_count s0) cur (sw_tx_pending s0) else (cur, sw_tx_pending s0));
                 cur2 = cur1\<lparr> mb_incarnation := inc, mb_status := next, mb_verify_pending := False \<rparr>;
                 cur3 = (if next = Suspect
                         then cur2\<lparr> mb_suspect_deadline := now + sc_suspicion_timeout (sw_cfg s),
                                mb_verify_pending := (src = SrcGossip \<or> src = SrcJoinSnapshot) \<rparr>
                         else cur2);
                 now_live = (\<not> is_tomb next);
                 cur4 = (if now_live then cur3
                         else cur3\<lparr> mb_death := now, mb_last_probe := (if was_live then Some now else mb_last_probe cur3) \<rparr>);
                 s1 = (put_member n cur4 s0)\<lparr> sw_tx_pending := p,
                        sw_tomb_count := (if was_live \<and> \<not> now_live then sw_tomb_count s0 + 1
                                          else if \<not> was_live \<and> now_live then sw_tomb_count s0 - 1 else sw_tomb_count s0) \<rparr>;
                 s2 = (if was_live \<noteq> now_live then republish s1 else s1);
                 s3 = (if \<not> was_verified \<and> mb_verified cur then republish (set_tx_of n (piggyback_count s2) s2) else s2)
             in enforce_tomb_cap (note_transition now n (mb_status cur) s3))"

definition denied_by :: "admission_snapshot option \<Rightarrow> node_id \<Rightarrow> bool" where
  "denied_by adm n \<longleftrightarrow> (case adm of None \<Rightarrow> False | Some snap \<Rightarrow> snapshot_lookup snap n = Deny)"

definition apply_update :: "int \<Rightarrow> update_src \<Rightarrow> node_id \<Rightarrow> u64 \<Rightarrow> member_status \<Rightarrow> swim \<Rightarrow> swim" where
  "apply_update now src n inc st s =
     (if is_client_node n then s
      else if n \<noteq> sw_self s \<and> \<not> is_tomb st \<and> denied_by (sw_admission s) n
        then s\<lparr> sw_admission_refusals := sw_admission_refusals s + 1 \<rparr>
      else if n = sw_self s then apply_self inc st s
      else if (st = Suspect \<or> st = Dead) \<and> src \<noteq> SrcLocal \<and> sl_contains n (sw_leases s)
        then s\<lparr> sw_suppressed := sw_suppressed s + 1 \<rparr>
      else case member_of s n of None \<Rightarrow> apply_unknown now src n inc st s | Some cur \<Rightarrow> apply_known now src n inc st cur s)"

section \<open>Construction\<close>

text \<open>The relay secret is the one of the configuration, or a fresh random number: an argument.\<close>

definition mix3 :: "u64 \<Rightarrow> u64 \<Rightarrow> u64 \<Rightarrow> u64" where
  "mix3 a b c = splitmix64 (splitmix64 (a XOR (b + 0x9E3779B97F4A7C15)) XOR c)"

definition swim_create :: "node_id \<Rightarrow> swim_config \<Rightarrow> u64 \<Rightarrow> bool \<Rightarrow> swim" where
  "swim_create self cfg0 secret sinks =
     (let cfg = sanitize cfg0;
          me = member_init\<lparr> mb_cluster := sc_cluster_id cfg, mb_incarnation := 1, mb_verified := True, mb_reported := 1,
                 mb_wire_version := sc_wire_version cfg \<rparr>
      in republish \<lparr> sw_self = self, sw_cfg = cfg, sw_self_inc = 1, sw_members = [(self, me)], sw_probe = probe_init,
           sw_probe_seq = 0, sw_probe_order = [], sw_probe_idx = 0, sw_probe_round = 0,
           sw_relay_key = splitmix64 (((sc_seed cfg XOR self) XOR secret) XOR 0x5E1A7), sw_cursor = 0, sw_sorted = [],
           sw_ids_dirty = True, sw_tomb_count = 0, sw_tx_pending = 0, sw_self_left = False, sw_online = True,
           sw_leases = [], sw_suspended = False, sw_network_changes = 0, sw_suppressed = 0, sw_pressure = [],
           sw_congested_edge = False, sw_next_refresh = 0, sw_snapshot = [], sw_verified_snapshot = [], sw_epoch = 0,
           sw_has_sinks = sinks, sw_events = [], sw_evicting = False, sw_refusals = [], sw_ctx_from = 0, sw_ctx_version = 0,
           sw_ext_refusals = [], sw_version_refusals = 0, sw_admission = None, sw_admission_dirty = False,
           sw_evictions = 0, sw_admission_refusals = 0, sw_revocations_ignored = 0, sw_budgets = replicate 256 rb_fresh,
           sw_control_sheds = 0, sw_client_drops = 0, sw_gossip_rejected = 0 \<rparr>)"

definition set_online :: "bool \<Rightarrow> swim \<Rightarrow> swim" where
  "set_online b s = s\<lparr> sw_online := b \<rparr>"

definition status_of :: "swim \<Rightarrow> node_id \<Rightarrow> member_status" where
  "status_of s n = (case member_of s n of None \<Rightarrow> Dead | Some m \<Rightarrow> mb_status m)"

definition incarnation_of :: "swim \<Rightarrow> node_id \<Rightarrow> u64" where
  "incarnation_of s n = (case member_of s n of None \<Rightarrow> 0 | Some m \<Rightarrow> mb_incarnation m)"

definition swim_health :: "swim \<Rightarrow> node_id \<Rightarrow> node_health option" where
  "swim_health s n =
     (let r = map_of (sw_refusals s) n in
      case member_of s n of
        None \<Rightarrow> (case r of None \<Rightarrow> None
          | Some (why, ver) \<Rightarrow> Some \<lparr> nh_node = n, nh_state = Alive, nh_incarnation = 0, nh_protocol_version = 0,
              nh_verified = False, nh_last_refusal = why, nh_refused_version = ver, nh_suspended = False \<rparr>)
      | Some m \<Rightarrow> Some \<lparr> nh_node = n, nh_state = mb_status m, nh_incarnation = mb_incarnation m,
          nh_protocol_version = mb_wire_version m, nh_verified = mb_verified m,
          nh_last_refusal = (case r of None \<Rightarrow> NoRefusal | Some (why, ver) \<Rightarrow> why),
          nh_refused_version = (case r of None \<Rightarrow> 0 | Some (why, ver) \<Rightarrow> ver),
          nh_suspended = sl_contains n (sw_leases s) \<rparr>)"

section \<open>Timers of the table\<close>

text \<open>Suspect to Dead once the suspicion has run out; all of them in one pass.\<close>

definition suspicion_over :: "int \<Rightarrow> swim \<Rightarrow> u64 \<times> member \<Rightarrow> bool" where
  "suspicion_over now s e \<longleftrightarrow>
     mb_status (snd e) = Suspect \<and> mb_suspect_deadline (snd e) \<le> now \<and> \<not> sl_contains (fst e) (sw_leases s)"

definition kill_suspect :: "int \<Rightarrow> nat \<Rightarrow> u64 \<Rightarrow> swim \<Rightarrow> swim" where
  "kill_suspect now tx n s =
     (case member_of s n of None \<Rightarrow> s
      | Some m \<Rightarrow>
          (case set_tx tx (m\<lparr> mb_status := Dead, mb_death := now, mb_last_probe := Some now \<rparr>) (sw_tx_pending s) of
             (m', p) \<Rightarrow> (put_member n (m'\<lparr> mb_verify_pending := False \<rparr>) s)\<lparr> sw_tx_pending := p, sw_tomb_count := sw_tomb_count s + 1 \<rparr>))"

definition reap_suspects :: "int \<Rightarrow> swim \<Rightarrow> swim" where
  "reap_suspects now s =
     (let tx = piggyback_count s;
          died = map fst (filter (suspicion_over now s) (sw_members s));
          s1 = fold (kill_suspect now tx) died s;
          s2 = (if died \<noteq> [] then republish s1 else s1)
      in enforce_tomb_cap (fold (\<lambda>n. note_transition now n Suspect) (sort died) s2))"

definition tombstone_expired :: "int \<Rightarrow> swim \<Rightarrow> u64 \<times> member \<Rightarrow> bool" where
  "tombstone_expired now s e \<longleftrightarrow>
     fst e \<noteq> sw_self s \<and> is_tomb (mb_status (snd e)) \<and> sc_tombstone_ttl (sw_cfg s) \<le> now - mb_death (snd e)"

definition reap_tombstones :: "int \<Rightarrow> swim \<Rightarrow> swim" where
  "reap_tombstones now s =
     (if sw_tomb_count s = 0 then s
      else
        let gone = filter (tombstone_expired now s) (sw_members s);
            s1 = s\<lparr> sw_members := filter (\<lambda>e. \<not> tombstone_expired now s e) (sw_members s),
                   sw_tx_pending := sw_tx_pending s - length (filter (\<lambda>e. mb_tx_left (snd e) \<noteq> 0) gone) \<rparr>
        in if gone \<noteq> [] then s1\<lparr> sw_tomb_count := sw_tomb_count s - length gone, sw_ids_dirty := True \<rparr> else s1)"

definition unverified_expired :: "int \<Rightarrow> swim \<Rightarrow> u64 \<times> member \<Rightarrow> bool" where
  "unverified_expired now s e \<longleftrightarrow>
     fst e \<noteq> sw_self s \<and> \<not> mb_verified (snd e) \<and> \<not> is_tomb (mb_status (snd e)) \<and>
     sc_unverified_ttl (sw_cfg s) \<le> now - mb_first_seen (snd e)"

definition reap_unverified :: "int \<Rightarrow> swim \<Rightarrow> swim" where
  "reap_unverified now s =
     (if sc_unverified_ttl (sw_cfg s) \<le> 0 then s
      else
        let s1 = s\<lparr> sw_members := filter (\<lambda>e. \<not> unverified_expired now s e) (sw_members s) \<rparr>
        in if filter (unverified_expired now s) (sw_members s) = [] then s1 else republish (s1\<lparr> sw_ids_dirty := True \<rparr>))"

section \<open>Eviction, refusals and the event queue\<close>

definition evict_one :: "int \<Rightarrow> node_id \<Rightarrow> swim \<Rightarrow> swim" where
  "evict_one now v s =
     (let s1 = apply_update now SrcLocal v (incarnation_of s v) Dead (s\<lparr> sw_evicting := True \<rparr>)
      in s1\<lparr> sw_evicting := False, sw_evictions := sw_evictions s1 + 1 \<rparr>)"

definition evict_denied :: "int \<Rightarrow> swim \<Rightarrow> swim" where
  "evict_denied now s =
     (case sw_admission s of None \<Rightarrow> s
      | Some snap \<Rightarrow>
          fold (evict_one now)
            (map fst (filter (\<lambda>(i, m). i \<noteq> sw_self s \<and> \<not> is_tomb (mb_status m) \<and> snapshot_lookup snap i = Deny) (sw_members s))) s)"

definition wire_verdict :: "swim \<Rightarrow> u8 \<Rightarrow> refusal_reason" where
  "wire_verdict s peer =
     (let self = unat (sc_wire_version (sw_cfg s)); p = unat peer; w = unat kSwimWireWindow in
      if p + w < self then WireVersionTooOld else if self + w < p then WireVersionTooNew else NoRefusal)"

definition record_refusal :: "node_id \<Rightarrow> u8 \<Rightarrow> refusal_reason \<Rightarrow> swim \<Rightarrow> swim" where
  "record_refusal n ver why s =
     (if map_of (sw_refusals s) n \<noteq> None \<or> length (sw_refusals s) < sc_max_live (sw_cfg s)
      then s\<lparr> sw_refusals := AList.update n (why, ver) (sw_refusals s) \<rparr> else s)"

definition push_refusal :: "int \<Rightarrow> node_id \<Rightarrow> u8 \<Rightarrow> refusal_reason \<Rightarrow> bool \<Rightarrow> swim \<Rightarrow> swim" where
  "push_refusal now n ver why by_peer s =
     (if \<not> sw_has_sinks s then s
      else s\<lparr> sw_events := sw_events s @ [\<lparr> ev_kind = VersionRefused, ev_node = n, ev_incarnation = incarnation_of s n,
             ev_epoch = sw_epoch s, ev_protocol_version = ver, ev_at_ns = now, ev_refusal = why, ev_refused_by_peer = by_peer \<rparr>] \<rparr>)"

definition refuse :: "int \<Rightarrow> node_id \<Rightarrow> u8 \<Rightarrow> refusal_reason \<Rightarrow> bool \<Rightarrow> swim \<Rightarrow> swim" where
  "refuse now n ver why by_peer s0 =
     (let s = s0\<lparr> sw_version_refusals := sw_version_refusals s0 + 1 \<rparr> in
      if map_of (sw_refusals s) n = Some (why, ver) then s
      else push_refusal now n ver why by_peer (record_refusal n ver why s))"

text \<open>Queued by the transport's thread; bounded.\<close>

definition note_transport_refusal :: "node_id \<Rightarrow> 16 word \<Rightarrow> bool \<Rightarrow> swim \<Rightarrow> swim" where
  "note_transport_refusal peer version too_old s =
     (if length (sw_ext_refusals s) < 256
      then s\<lparr> sw_ext_refusals := sw_ext_refusals s @
             [(peer, ucast (min version 255), if too_old then WireVersionTooOld else WireVersionTooNew)] \<rparr>
      else s)"

text \<open>The delivered events are the first component.\<close>

definition flush_events :: "int \<Rightarrow> swim \<Rightarrow> membership_event list \<times> swim" where
  "flush_events now s =
     (let s1 = (if sw_admission_dirty s then evict_denied now (s\<lparr> sw_admission_dirty := False \<rparr>) else s);
          s2 = fold (\<lambda>(n, ver, why). refuse now n ver why False) (sw_ext_refusals s1) (s1\<lparr> sw_ext_refusals := [] \<rparr>)
      in (sw_events s2, s2\<lparr> sw_events := [] \<rparr>))"

text \<open>The authority published a snapshot: its listener sets the flag, and every later read sees it.\<close>

definition admission_published :: "admission_snapshot \<Rightarrow> swim \<Rightarrow> swim" where
  "admission_published snap s = s\<lparr> sw_admission := Some snap, sw_admission_dirty := True \<rparr>"

section \<open>Join and leave\<close>

definition swim_admit :: "int \<Rightarrow> node_id \<Rightarrow> cluster_id \<Rightarrow> swim \<Rightarrow> bool \<times> membership_event list \<times> swim" where
  "swim_admit now joiner presented s =
     (if presented \<noteq> sc_cluster_id (sw_cfg s) then (False, [], s)
      else if is_client_node joiner then (False, [], s)
      else
        let inc = (case member_of s joiner of None \<Rightarrow> 0 | Some m \<Rightarrow> if is_tomb (mb_status m) then mb_incarnation m + 1 else 0)
        in (True, flush_events now (apply_update now SrcJoin joiner inc Alive s)))"

definition leave :: "int \<Rightarrow> node_id \<Rightarrow> swim \<Rightarrow> membership_event list \<times> swim" where
  "leave now who s =
     (if who = sw_self s then
        let me = (case member_of s who of None \<Rightarrow> member_init | Some m \<Rightarrow> m); inc = mb_incarnation me + kLeftBand;
            s1 = (put_member who (me\<lparr> mb_incarnation := inc, mb_status := Left \<rparr>) s)\<lparr> sw_self_inc := inc, sw_self_left := True \<rparr>
        in flush_events now (note_transition now who Alive (republish s1))
      else flush_events now (apply_update now SrcLocal who (incarnation_of s who + kLeftBand) Left s))"

end
