(* ===== verification/Swim_Invariant.thy ===== *)
theory Swim_Invariant
  imports Swim_State
begin

text \<open>
  The invariant of the member table of \<open>Swim_State\<close> and its preservation by every operation on the table:
  the published snapshots are exactly the live and the placeable members, the counters are exact, no client
  is a member, the tombstones stay within their cap and only live, verified members hold leases.
\<close>

section \<open>Counting entries\<close>

lemma length_filter_update:
  assumes "distinct (map fst al)"
  shows "length (filter P (AList.update k v al)) + (case map_of al k of None \<Rightarrow> 0 | Some w \<Rightarrow> of_bool (P (k, w))) =
    length (filter P al) + of_bool (P (k, v))"
  using assms
proof (induction al)
  case (Cons e al)
  obtain k' w where e: "e = (k', w)" by (cases e)
  show ?case
  proof (cases "k' = k")
    case True
    then show ?thesis by (simp add: e)
  next
    case False
    with Cons show ?thesis by (auto simp: e split: option.splits)
  qed
qed simp

lemma length_filter_delete:
  assumes "distinct (map fst al)"
  shows "length (filter P (AList.delete k al)) + (case map_of al k of None \<Rightarrow> 0 | Some w \<Rightarrow> of_bool (P (k, w))) = length (filter P al)"
  using assms
proof (induction al)
  case (Cons e al)
  obtain k' w where e: "e = (k', w)" by (cases e)
  show ?case
  proof (cases "k' = k")
    case True
    with Cons.prems have "k \<notin> fst ` set al" by (simp add: e)
    then show ?thesis using True by (simp add: e)
  next
    case False
    with Cons show ?thesis by (auto simp: e split: option.splits)
  qed
qed simp

definition tombs :: "swim \<Rightarrow> nat" where
  "tombs s = length (filter (\<lambda>(i, m). i \<noteq> sw_self s \<and> is_tomb (mb_status m)) (sw_members s))"

definition txs :: "swim \<Rightarrow> nat" where
  "txs s = length (filter (\<lambda>(i, m). mb_tx_left m \<noteq> 0) (sw_members s))"

definition keys_ok :: "swim \<Rightarrow> bool" where
  "keys_ok s \<longleftrightarrow> distinct (map fst (sw_members s))"

lemma member_of_put: "member_of (put_member n m s) i = (if i = n then Some m else member_of s i)"
  by (simp add: member_of_def put_member_def update_conv')

lemma keys_ok_put [simp]: "keys_ok s \<Longrightarrow> keys_ok (put_member n m s)"
  by (simp add: keys_ok_def put_member_def distinct_update)

lemma member_of_erase: "member_of (erase_member n s) i = (if i = n then None else member_of s i)"
  by (simp add: member_of_def erase_member_def delete_conv')

lemma keys_ok_erase [simp]: "keys_ok s \<Longrightarrow> keys_ok (erase_member n s)"
  by (simp add: keys_ok_def erase_member_def distinct_delete)

lemma tombs_put:
  assumes "keys_ok s"
  shows "tombs (put_member n m s) + (case member_of s n of None \<Rightarrow> 0 | Some w \<Rightarrow> of_bool (n \<noteq> sw_self s \<and> is_tomb (mb_status w))) =
    tombs s + of_bool (n \<noteq> sw_self s \<and> is_tomb (mb_status m))"
  using length_filter_update [of "sw_members s" "\<lambda>(i, m). i \<noteq> sw_self s \<and> is_tomb (mb_status m)" n m] assms
  by (simp add: tombs_def put_member_def keys_ok_def member_of_def cong: option.case_cong)

lemma txs_put:
  assumes "keys_ok s"
  shows "txs (put_member n m s) + (case member_of s n of None \<Rightarrow> 0 | Some w \<Rightarrow> of_bool (mb_tx_left w \<noteq> 0)) =
    txs s + of_bool (mb_tx_left m \<noteq> 0)"
  using length_filter_update [of "sw_members s" "\<lambda>(i, m). mb_tx_left m \<noteq> 0" n m] assms
  by (simp add: txs_def put_member_def keys_ok_def member_of_def cong: option.case_cong)

lemma tombs_erase:
  assumes "keys_ok s"
  shows "tombs (erase_member n s) + (case member_of s n of None \<Rightarrow> 0 | Some w \<Rightarrow> of_bool (n \<noteq> sw_self s \<and> is_tomb (mb_status w))) = tombs s"
  using length_filter_delete [of "sw_members s" "\<lambda>(i, m). i \<noteq> sw_self s \<and> is_tomb (mb_status m)" n] assms
  by (simp add: tombs_def erase_member_def keys_ok_def member_of_def cong: option.case_cong)

lemma txs_erase:
  assumes "keys_ok s"
  shows "txs (erase_member n s) + (case member_of s n of None \<Rightarrow> 0 | Some w \<Rightarrow> of_bool (mb_tx_left w \<noteq> 0)) = txs s"
  using length_filter_delete [of "sw_members s" "\<lambda>(i, m). mb_tx_left m \<noteq> 0" n] assms
  by (simp add: txs_def erase_member_def keys_ok_def member_of_def cong: option.case_cong)

section \<open>The invariant\<close>

definition self_entry :: "swim \<Rightarrow> bool" where
  "self_entry s \<longleftrightarrow> (\<exists>me. member_of s (sw_self s) = Some me \<and> mb_verified me \<and> mb_incarnation me = sw_self_inc s \<and>
     mb_status me = (if sw_self_left s then Left else Alive))"

definition no_clients :: "swim \<Rightarrow> bool" where
  "no_clients s \<longleftrightarrow> (\<forall>i m. member_of s i = Some m \<longrightarrow> i \<noteq> sw_self s \<longrightarrow> \<not> is_client_node i)"

definition table_ok :: "swim \<Rightarrow> bool" where
  "table_ok s \<longleftrightarrow> keys_ok s \<and> self_entry s \<and> no_clients s \<and> sw_tomb_count s = tombs s \<and> txs s \<le> sw_tx_pending s"

definition live_set :: "swim \<Rightarrow> u64 set" where
  "live_set s = {i. \<exists>m. member_of s i = Some m \<and> \<not> is_tomb (mb_status m)}"

definition verified_set :: "swim \<Rightarrow> u64 set" where
  "verified_set s = {i. \<exists>m. member_of s i = Some m \<and> \<not> is_tomb (mb_status m) \<and> (mb_verified m \<or> i = sw_self s)}"

definition views_ok :: "swim \<Rightarrow> bool" where
  "views_ok s \<longleftrightarrow> sw_snapshot s = sorted_list_of_set (live_set s) \<and>
     sw_verified_snapshot s = sorted_list_of_set (verified_set s)"

text \<open>Every lease, but for those of the given nodes, is held for a live, verified peer.\<close>

definition leases_inv :: "u64 set \<Rightarrow> swim \<Rightarrow> bool" where
  "leases_inv X s \<longleftrightarrow> leases_ok (sc_mobile (sw_cfg s)) (sw_leases s) \<and>
     (\<forall>k. sl_contains k (sw_leases s) \<longrightarrow> k \<notin> X \<longrightarrow> k \<in> verified_set s \<and> k \<noteq> sw_self s)"

definition swim_inv :: "swim \<Rightarrow> bool" where
  "swim_inv s \<longleftrightarrow> table_ok s \<and> views_ok s \<and> leases_inv {} s \<and> sw_tomb_count s \<le> sc_max_tombstones (sw_cfg s)"

lemma member_of_set: "keys_ok s \<Longrightarrow> member_of s i = Some m \<longleftrightarrow> (i, m) \<in> set (sw_members s)"
  by (simp add: keys_ok_def member_of_def map_of_eq_Some_iff)

lemma sort_ids:
  assumes "distinct (map fst al)"
  shows "sort (map fst (filter P al)) = sorted_list_of_set (fst ` {e \<in> set al. P e})"
proof -
  have "distinct (map fst (filter P al))" using assms by (simp add: distinct_map_filter)
  then show ?thesis by (metis distinct_remdups_id list.set_map set_filter sorted_list_of_set_sort_remdups)
qed

lemma views_ok_republish: "keys_ok s \<Longrightarrow> views_ok (republish s)"
proof -
  assume k: "keys_ok s"
  have "fst ` {e \<in> set (sw_members s). (\<lambda>(i, m). \<not> is_tomb (mb_status m)) e} = live_set s"
    using member_of_set [OF k] by (force simp: live_set_def)
  moreover have "fst ` {e \<in> set (sw_members s). (\<lambda>(i, m). \<not> is_tomb (mb_status m) \<and> (mb_verified m \<or> i = sw_self s)) e} = verified_set s"
    using member_of_set [OF k] by (force simp: verified_set_def)
  moreover have "live_set (republish s) = live_set s" "verified_set (republish s) = verified_set s"
    by (simp_all add: live_set_def verified_set_def republish_def member_of_def)
  ultimately show ?thesis
    using k unfolding views_ok_def live_ids_def verified_ids_def republish_def keys_ok_def
    by (simp add: sort_ids)
qed

text \<open>Two states with the same table, counters and leases.\<close>

lemma table_ok_cong:
  assumes "sw_members s' = sw_members s" "sw_self s' = sw_self s" "sw_self_inc s' = sw_self_inc s"
    "sw_self_left s' = sw_self_left s" "sw_tomb_count s' = sw_tomb_count s" "sw_tx_pending s' = sw_tx_pending s"
  shows "table_ok s' = table_ok s"
  using assms by (simp add: table_ok_def keys_ok_def self_entry_def no_clients_def member_of_def tombs_def txs_def)

lemma sets_cong:
  assumes "sw_members s' = sw_members s" "sw_self s' = sw_self s"
  shows "live_set s' = live_set s" "verified_set s' = verified_set s"
  using assms by (simp_all add: live_set_def verified_set_def member_of_def)

lemma table_ok_republish [simp]: "table_ok (republish s) = table_ok s"
  by (rule table_ok_cong) (simp_all add: republish_def)

lemma leases_inv_republish [simp]: "leases_inv X (republish s) = leases_inv X s"
proof -
  have "verified_set (republish s) = verified_set s" by (rule sets_cong) (simp_all add: republish_def)
  then show ?thesis by (simp add: leases_inv_def)
qed

text \<open>An entry that is replaced by one with the same status and incarnation, no less verified.\<close>

lemma table_ok_put:
  assumes "table_ok s" and "member_of s n = Some w" and "mb_status m = mb_status w" and "mb_incarnation m = mb_incarnation w"
    and "mb_verified w \<longrightarrow> mb_verified m" and "mb_tx_left m = mb_tx_left w"
  shows "table_ok (put_member n m s)"
proof -
  have k: "keys_ok s" using assms(1) by (simp add: table_ok_def)
  have "tombs (put_member n m s) = tombs s" "txs (put_member n m s) = txs s"
    using tombs_put [OF k, of n m] txs_put [OF k, of n m] assms by simp_all
  moreover have "self_entry (put_member n m s)"
    using assms unfolding table_ok_def self_entry_def by (auto simp: member_of_put)
  moreover have "no_clients (put_member n m s)"
    using assms unfolding table_ok_def no_clients_def by (auto simp: member_of_put)
  ultimately show ?thesis using assms k by (simp add: table_ok_def)
qed

section \<open>Events\<close>

lemma push_event_members: "sw_members (push_event now k n m s) = sw_members s"
  by simp

lemma put_member_members: "sw_members (put_member n m s) = AList.update n m (sw_members s)"
  by (simp add: put_member_def)

lemma note_transition_members:
  "sw_members (note_transition now n p s) = sw_members s \<or>
   (\<exists>m r. member_of s n = Some m \<and> sw_members (note_transition now n p s) = sw_members (put_member n (m\<lparr> mb_reported := r \<rparr>) s))"
  by (cases "member_of s n") (simp_all add: note_transition_def push_event_members put_member_members Let_def, blast)

lemma member_of_note:
  "\<exists>r. member_of (note_transition now n p s) i = map_option (\<lambda>m. m\<lparr> mb_reported := r \<rparr>) (member_of s i)"
proof -
  have id: "\<exists>r. x = map_option (\<lambda>m. m\<lparr> mb_reported := r \<rparr>) x" for x :: "member option"
    by (cases x) (simp, rule exI [of _ "mb_reported (the x)"], simp)
  from note_transition_members [of now n p s] show ?thesis
  proof (elim disjE exE conjE)
    assume "sw_members (note_transition now n p s) = sw_members s"
    then have "member_of (note_transition now n p s) i = member_of s i" by (simp add: member_of_def)
    then show ?thesis using id by simp
  next
    fix m r
    assume m: "member_of s n = Some m"
      and "sw_members (note_transition now n p s) = sw_members (put_member n (m\<lparr> mb_reported := r \<rparr>) s)"
    then have e: "member_of (note_transition now n p s) i = (if i = n then Some (m\<lparr> mb_reported := r \<rparr>) else member_of s i)"
      using member_of_put [of n "m\<lparr> mb_reported := r \<rparr>" s i] by (simp add: member_of_def)
    show ?thesis
    proof (cases "i = n")
      case True
      then show ?thesis using e m by (intro exI [of _ r]) simp
    next
      case False
      then show ?thesis unfolding e using id by simp
    qed
  qed
qed

lemma note_transition_sets [simp]:
  "live_set (note_transition now n p s) = live_set s" "verified_set (note_transition now n p s) = verified_set s"
proof -
  have a: "(\<exists>m. member_of (note_transition now n p s) i = Some m \<and> P (mb_status m) (mb_verified m)) \<longleftrightarrow>
      (\<exists>m. member_of s i = Some m \<and> P (mb_status m) (mb_verified m))" for i P
    using member_of_note [of now n p s i] by (cases "member_of s i") auto
  show "live_set (note_transition now n p s) = live_set s"
    using a [of _ "\<lambda>st v. \<not> is_tomb st"] by (simp add: live_set_def)
  show "verified_set (note_transition now n p s) = verified_set s"
    using a [of i "\<lambda>st v. \<not> is_tomb st \<and> (v \<or> i = sw_self s)" for i] by (simp add: verified_set_def)
qed

lemma table_ok_note [simp]:
  assumes "table_ok s"
  shows "table_ok (note_transition now n p s)"
  using note_transition_members [of now n p s]
proof (elim disjE exE conjE)
  assume "sw_members (note_transition now n p s) = sw_members s"
  then show ?thesis using assms table_ok_cong [of "note_transition now n p s" s] by simp
next
  fix m r
  assume m: "member_of s n = Some m"
    and e: "sw_members (note_transition now n p s) = sw_members (put_member n (m\<lparr> mb_reported := r \<rparr>) s)"
  have "table_ok (put_member n (m\<lparr> mb_reported := r \<rparr>) s)" by (rule table_ok_put [OF assms m]) simp_all
  then show ?thesis using e table_ok_cong [of "note_transition now n p s" "put_member n (m\<lparr> mb_reported := r \<rparr>) s"]
    by (simp add: put_member_def)
qed

lemma views_ok_note [simp]: "views_ok (note_transition now n p s) = views_ok s"
  by (simp add: views_ok_def)

lemma note_transition_leases:
  "sw_leases (note_transition now n p s) =
     (case member_of s n of None \<Rightarrow> sw_leases s | Some m \<Rightarrow> if is_tomb (mb_status m) then sl_clear n (sw_leases s) else sw_leases s)"
  by (cases "member_of s n") (auto simp: note_transition_def Let_def)

lemma leases_inv_note:
  assumes "leases_inv X s" and "X = {} \<or> X = {n} \<and> (\<exists>m. member_of s n = Some m \<and> is_tomb (mb_status m))"
  shows "leases_inv {} (note_transition now n p s)"
proof -
  let ?t = "note_transition now n p s"
  have l: "sw_leases ?t = sw_leases s \<or> sw_leases ?t = sl_clear n (sw_leases s)"
    unfolding note_transition_leases by (simp split: option.split)
  have x: "sw_leases ?t = sl_clear n (sw_leases s)" if "X \<noteq> {}"
    using that assms(2) unfolding note_transition_leases by auto
  have ok: "leases_ok (sc_mobile (sw_cfg ?t)) (sw_leases ?t)"
    using l assms(1) leases_ok_clear unfolding leases_inv_def by force
  moreover have "k \<in> verified_set ?t \<and> k \<noteq> sw_self ?t" if "sl_contains k (sw_leases ?t)" for k
  proof -
    have "sl_contains k (sw_leases s)" using l that by (auto simp: sl_contains_def sl_find_clear split: if_splits)
    moreover have "k \<notin> X" using x assms(2) that by (auto simp: sl_contains_def sl_find_clear)
    ultimately show ?thesis using assms(1) unfolding leases_inv_def by simp
  qed
  ultimately show ?thesis unfolding leases_inv_def by blast
qed

section \<open>The tombstone cap\<close>

lemma tomb_victim_tomb:
  fixes self :: u64 and victim :: "(u64 \<times> member) option"
  shows "(case victim of None \<Rightarrow> True | Some v \<Rightarrow> fst v \<noteq> self \<and> is_tomb (mb_status (snd v))) \<Longrightarrow>
     (case tomb_victim self ms victim of None \<Rightarrow> True | Some v \<Rightarrow> fst v \<noteq> self \<and> is_tomb (mb_status (snd v)))"
proof (induction self ms victim rule: tomb_victim.induct)
  case (2 self it ms victim)
  have "case tomb_victim self ms (if fst it = self \<or> \<not> is_tomb (mb_status (snd it)) then victim
        else case victim of None \<Rightarrow> Some it | Some v \<Rightarrow> if evict_before it v then Some it else victim) of
      None \<Rightarrow> True | Some v \<Rightarrow> fst v \<noteq> self \<and> is_tomb (mb_status (snd v))"
    by (rule 2(1)) (use 2(2) in \<open>cases victim; simp\<close>)
  then show ?case by simp
qed simp

lemma tomb_victim_None: "tomb_victim self ms victim = None \<Longrightarrow> victim = None \<and> filter (\<lambda>(i, m). i \<noteq> self \<and> is_tomb (mb_status m)) ms = []"
  by (induction self ms victim rule: tomb_victim.induct) (auto split: if_splits option.splits)

lemma erase_tomb_sets:
  assumes "member_of s n = Some m" and "is_tomb (mb_status m)"
  shows "live_set (erase_member n s) = live_set s" and "verified_set (erase_member n s) = verified_set s"
  using assms by (auto simp: live_set_def verified_set_def member_of_erase)

lemma table_ok_erase_tomb:
  assumes "table_ok s" and "member_of s n = Some m" and "n \<noteq> sw_self s" and "is_tomb (mb_status m)"
  shows "table_ok ((erase_member n s)\<lparr> sw_tx_pending := (if mb_tx_left m \<noteq> 0 then sw_tx_pending s - 1 else sw_tx_pending s),
      sw_tomb_count := sw_tomb_count s - 1, sw_ids_dirty := True \<rparr>)" (is "table_ok ?s")
proof -
  have k: "keys_ok s" using assms(1) by (simp add: table_ok_def)
  have "tombs (erase_member n s) + 1 = tombs s" using tombs_erase [OF k, of n] assms by simp
  moreover have "txs (erase_member n s) + of_bool (mb_tx_left m \<noteq> 0) = txs s" using txs_erase [OF k, of n] assms by simp
  moreover have "tombs ?s = tombs (erase_member n s)" "txs ?s = txs (erase_member n s)" by (simp_all add: tombs_def txs_def)
  moreover have "keys_ok ?s" using keys_ok_erase [OF k, of n] by (simp add: keys_ok_def)
  moreover have m: "member_of ?s i = (if i = n then None else member_of s i)" for i
    using member_of_erase [of n s i] by (simp add: member_of_def)
  have "self_entry ?s" using assms(1,3) unfolding self_entry_def table_ok_def m by simp
  moreover have "no_clients ?s" using assms(1) unfolding no_clients_def table_ok_def m by simp
  ultimately show ?thesis using assms(1) by (auto simp: table_ok_def split: if_splits)
qed

lemma enforce_tomb_cap_inv:
  assumes "table_ok s" and "views_ok s" and "leases_inv {} s"
  shows "swim_inv (enforce_tomb_cap s)"
  using assms
proof (induction s rule: enforce_tomb_cap.induct)
  case (1 s)
  show ?case
  proof (cases "sc_max_tombstones (sw_cfg s) < sw_tomb_count s")
    case False
    with 1(2-) show ?thesis by (subst enforce_tomb_cap.simps) (simp add: swim_inv_def)
  next
    case over: True
    show ?thesis
    proof (cases "tomb_victim (sw_self s) (sw_members s) None")
      case None
      then have "tombs s = 0" using tomb_victim_None by (fastforce simp: tombs_def)
      with over 1(2) show ?thesis by (simp add: table_ok_def)
    next
      case (Some v)
      obtain i m where v: "v = (i, m)" by (cases v)
      have k: "keys_ok s" using 1(2) by (simp add: table_ok_def)
      have m: "member_of s i = Some m" using tomb_victim_in [OF Some] v member_of_set [OF k] by auto
      have t: "i \<noteq> sw_self s" "is_tomb (mb_status m)"
        using tomb_victim_tomb [where victim = None and self = "sw_self s" and ms = "sw_members s"] Some v by simp_all
      let ?s = "(erase_member i s)\<lparr> sw_tx_pending := (if mb_tx_left m \<noteq> 0 then sw_tx_pending s - 1 else sw_tx_pending s),
          sw_tomb_count := sw_tomb_count s - 1, sw_ids_dirty := True \<rparr>"
      have sets: "live_set ?s = live_set s" "verified_set ?s = verified_set s"
        using erase_tomb_sets [OF m t(2)] sets_cong [of ?s "erase_member i s"] by simp_all
      have "views_ok ?s" using 1(3) sets by (simp add: views_ok_def)
      moreover have "leases_inv {} ?s" using 1(4) sets by (simp add: leases_inv_def)
      ultimately have "swim_inv (enforce_tomb_cap ?s)"
        using 1(1) [OF over Some v [symmetric]] table_ok_erase_tomb [OF 1(2) m t] by blast
      with over Some v show ?thesis by (subst enforce_tomb_cap.simps) simp
    qed
  qed
qed

section \<open>Changing one entry\<close>

lemma live_set_put: "live_set (put_member n m s) = (if is_tomb (mb_status m) then live_set s - {n} else insert n (live_set s))"
  by (auto simp: live_set_def member_of_put)

lemma verified_set_put:
  "verified_set (put_member n m s) =
     (if \<not> is_tomb (mb_status m) \<and> (mb_verified m \<or> n = sw_self s) then insert n (verified_set s) else verified_set s - {n})"
  by (auto simp: verified_set_def member_of_put)

lemma put_same_sets:
  assumes "member_of s n = Some w" and "mb_status m = mb_status w" and "mb_verified m = mb_verified w"
  shows "live_set (put_member n m s) = live_set s" and "verified_set (put_member n m s) = verified_set s"
  using assms unfolding live_set_put verified_set_put by (auto simp: live_set_def verified_set_def)

lemma set_tx_spec:
  "set_tx v m p = (m', p') \<Longrightarrow> m' = m\<lparr> mb_tx_left := v \<rparr> \<and> p + of_bool (v \<noteq> 0) \<le> p' + of_bool (mb_tx_left m \<noteq> 0)"
  by (auto simp: set_tx_def)

lemma table_ok_change:
  assumes "table_ok s" and "n \<noteq> sw_self s" and "\<not> is_client_node n"
    and c: "c + (case member_of s n of None \<Rightarrow> 0 | Some w \<Rightarrow> of_bool (is_tomb (mb_status w))) = sw_tomb_count s + of_bool (is_tomb (mb_status m))"
    and p: "sw_tx_pending s + of_bool (mb_tx_left m \<noteq> 0) \<le> p + (case member_of s n of None \<Rightarrow> 0 | Some w \<Rightarrow> of_bool (mb_tx_left w \<noteq> 0))"
    and t: "sw_members t = sw_members (put_member n m s)" "sw_self t = sw_self s" "sw_self_inc t = sw_self_inc s"
      "sw_self_left t = sw_self_left s" "sw_tomb_count t = c" "sw_tx_pending t = p"
  shows "table_ok t"
proof -
  let ?u = "put_member n m s"
  have k: "keys_ok s" using assms(1) by (simp add: table_ok_def)
  have m: "member_of t i = (if i = n then Some m else member_of s i)" for i
    using t(1) member_of_put [of n m s i] by (simp add: member_of_def)
  have "tombs t = tombs ?u" "txs t = txs ?u" using t by (simp_all add: tombs_def txs_def)
  moreover have "keys_ok t" using keys_ok_put [OF k, of n m] t(1) by (simp add: keys_ok_def)
  moreover have "tombs t = c"
    using tombs_put [OF k, of n m] c assms(1,2) calculation by (auto simp: table_ok_def split: option.splits)
  moreover have "txs t \<le> p"
    using txs_put [OF k, of n m] p assms(1) calculation by (auto simp: table_ok_def split: option.splits)
  moreover have "self_entry t" using assms(1,2) t unfolding table_ok_def self_entry_def m by simp
  moreover have "no_clients t" using assms(1,3) t unfolding table_ok_def no_clients_def m by simp
  ultimately show ?thesis using t by (simp add: table_ok_def)
qed

lemma table_ok_set_tx_of [simp]:
  assumes "table_ok s"
  shows "table_ok (set_tx_of n v s)"
proof (cases "member_of s n")
  case None
  then show ?thesis using assms by (simp add: set_tx_of_def)
next
  case (Some m)
  obtain m' p where x: "set_tx v m (sw_tx_pending s) = (m', p)" by (cases "set_tx v m (sw_tx_pending s)")
  note sp = set_tx_spec [OF x]
  let ?t = "(put_member n m' s)\<lparr> sw_tx_pending := p \<rparr>"
  have k: "keys_ok s" using assms by (simp add: table_ok_def)
  have mm: "member_of ?t i = (if i = n then Some m' else member_of s i)" for i
    using member_of_put [of n m' s i] by (simp add: member_of_def)
  have "tombs ?t = tombs (put_member n m' s)" "txs ?t = txs (put_member n m' s)" by (simp_all add: tombs_def txs_def)
  moreover have "tombs (put_member n m' s) = tombs s" using tombs_put [OF k, of n m'] Some sp by simp
  moreover have "txs (put_member n m' s) \<le> p" using txs_put [OF k, of n m'] Some sp assms by (auto simp: table_ok_def)
  moreover have "keys_ok ?t" using keys_ok_put [OF k, of n m'] by (simp add: keys_ok_def)
  moreover have "self_entry ?t" using assms Some sp unfolding table_ok_def self_entry_def mm by auto
  moreover have "no_clients ?t" using assms Some sp unfolding table_ok_def no_clients_def mm by auto
  ultimately have "table_ok ?t" using assms by (simp add: table_ok_def)
  then show ?thesis using Some x by (simp add: set_tx_of_def)
qed

lemma set_tx_of_sets [simp]:
  "live_set (set_tx_of n v s) = live_set s" "verified_set (set_tx_of n v s) = verified_set s"
proof -
  have "live_set (set_tx_of n v s) = live_set s \<and> verified_set (set_tx_of n v s) = verified_set s"
  proof (cases "member_of s n")
    case None
    then show ?thesis by (simp add: set_tx_of_def)
  next
    case (Some m)
    obtain m' p where x: "set_tx v m (sw_tx_pending s) = (m', p)" by (cases "set_tx v m (sw_tx_pending s)")
    note sp = set_tx_spec [OF x]
    have "live_set (set_tx_of n v s) = live_set (put_member n m' s)" "verified_set (set_tx_of n v s) = verified_set (put_member n m' s)"
      using Some x sets_cong [of "(put_member n m' s)\<lparr> sw_tx_pending := p \<rparr>" "put_member n m' s"]
      by (simp_all add: set_tx_of_def)
    then show ?thesis using put_same_sets [OF Some, of m'] sp by simp
  qed
  then show "live_set (set_tx_of n v s) = live_set s" "verified_set (set_tx_of n v s) = verified_set s" by blast+
qed

lemma set_tx_of_leases [simp]: "leases_inv X (set_tx_of n v s) = leases_inv X s"
  by (simp add: leases_inv_def)

lemma views_ok_set_tx_of [simp]: "views_ok (set_tx_of n v s) = views_ok s"
  by (simp add: views_ok_def)

lemma leases_inv_mono:
  assumes "leases_inv X s" and "sw_leases t = sw_leases s" and "sw_cfg t = sw_cfg s" and "sw_self t = sw_self s"
    and "verified_set s - Y \<subseteq> verified_set t"
  shows "leases_inv (X \<union> Y) t"
  using assms unfolding leases_inv_def by auto

lemma not_leased: "leases_inv {} s \<Longrightarrow> member_of s n = None \<Longrightarrow> \<not> sl_contains n (sw_leases s)"
  by (auto simp: leases_inv_def verified_set_def)

lemma views_ok_cong:
  assumes "views_ok s" and "live_set t = live_set s" and "verified_set t = verified_set s" and "sw_snapshot t = sw_snapshot s"
    and "sw_verified_snapshot t = sw_verified_snapshot s"
  shows "views_ok t"
  using assms by (simp add: views_ok_def)

section \<open>Updates\<close>

lemma apply_self_inv:
  assumes "swim_inv s" and "\<not> is_client_node (sw_self s)"
  shows "swim_inv (apply_self inc st s)"
proof (cases "sw_self_left s \<or> st = Left \<or> st = Alive \<or> \<not> sw_self_inc s \<le> inc")
  case True
  then show ?thesis using assms by (auto simp: apply_self_def)
next
  case False
  have tab: "table_ok s" and v: "views_ok s" and l: "leases_inv {} s" and c: "sw_tomb_count s \<le> sc_max_tombstones (sw_cfg s)"
    using assms(1) by (simp_all add: swim_inv_def)
  then have k: "keys_ok s" by (simp add: table_ok_def)
  obtain me where me: "member_of s (sw_self s) = Some me" "mb_verified me" "mb_status me = Alive"
    using tab False by (auto simp: table_ok_def self_entry_def)
  let ?m = "me\<lparr> mb_incarnation := inc + 1, mb_status := Alive \<rparr>"
  let ?u = "s\<lparr> sw_self_inc := inc + 1 \<rparr>"
  have t: "apply_self inc st s = put_member (sw_self s) ?m ?u" using False me by (simp add: apply_self_def)
  have ku: "keys_ok ?u" and mu: "member_of ?u i = member_of s i" for i using k by (simp_all add: keys_ok_def member_of_def)
  have "tombs ?u = tombs s" "txs ?u = txs s" by (simp_all add: tombs_def txs_def)
  then have "tombs (put_member (sw_self s) ?m ?u) = tombs s" "txs (put_member (sw_self s) ?m ?u) = txs s"
    using tombs_put [OF ku, of "sw_self s" ?m] txs_put [OF ku, of "sw_self s" ?m] me mu by simp_all
  then have "table_ok (apply_self inc st s)"
    using tab ku False unfolding t table_ok_def self_entry_def no_clients_def by (auto simp: member_of_put mu me)
  moreover have sets: "live_set (apply_self inc st s) = live_set s" "verified_set (apply_self inc st s) = verified_set s"
    using me unfolding t live_set_put verified_set_put
    by (auto simp: is_tomb_def live_set_def verified_set_def mu)
  then have "views_ok (apply_self inc st s)" using v unfolding t by (simp add: views_ok_def)
  moreover have "leases_inv {} (apply_self inc st s)" using l sets unfolding t by (simp add: leases_inv_def)
  ultimately show ?thesis using c unfolding t by (simp add: swim_inv_def)
qed

lemma apply_unknown_inv:
  assumes inv: "swim_inv s" and n: "n \<noteq> sw_self s" "\<not> is_client_node n" "member_of s n = None"
  shows "swim_inv (apply_unknown now src n inc st s)"
proof (cases "is_tomb st \<and> src \<noteq> SrcLocal \<or> st = Suspect \<or> \<not> first_hand src st \<and> sc_max_live (sw_cfg s) \<le> length (sw_members s)")
  case True
  then show ?thesis using inv by (auto simp: apply_unknown_def)
next
  case False
  have tab: "table_ok s" and v: "views_ok s" and l: "leases_inv {} s" using inv by (simp_all add: swim_inv_def)
  let ?v = "first_hand src st"
  let ?m0 = "member_init\<lparr> mb_cluster := sc_cluster_id (sw_cfg s), mb_incarnation := inc, mb_status := st, mb_verified := ?v, mb_first_seen := now \<rparr>"
  obtain m1 p where x: "set_tx (if ?v then piggyback_count s else 0) ?m0 (sw_tx_pending s) = (m1, p)" by fastforce
  note sp = set_tx_spec [OF x]
  let ?m2 = "if is_tomb st then m1\<lparr> mb_death := now, mb_last_probe := Some now \<rparr> else m1"
  let ?m3 = "if n = sw_ctx_from s then ?m2\<lparr> mb_wire_version := sw_ctx_version s \<rparr> else ?m2"
  let ?s1 = "(put_member n ?m3 s)\<lparr> sw_tx_pending := p, sw_ids_dirty := True,
      sw_tomb_count := (if is_tomb st then sw_tomb_count s + 1 else sw_tomb_count s) \<rparr>"
  let ?s2 = "if is_tomb st then ?s1 else republish ?s1"
  have e: "apply_unknown now src n inc st s = enforce_tomb_cap (note_transition now n Alive ?s2)"
    using False x by (auto simp: apply_unknown_def Let_def)
  have m3: "mb_status ?m3 = st" "mb_verified ?m3 = ?v" "mb_tx_left ?m3 = mb_tx_left m1" using sp by (simp_all add: member_init_def)
  have t1: "table_ok ?s1"
    by (rule table_ok_change [OF tab n(1,2), where m = ?m3]) (use sp m3 n(3) in \<open>auto simp: member_init_def\<close>)
  have sets: "live_set ?s1 = live_set (put_member n ?m3 s)" "verified_set ?s1 = verified_set (put_member n ?m3 s)"
    by (rule sets_cong; simp)+
  have out: "n \<notin> live_set s" "n \<notin> verified_set s" using n(3) by (simp_all add: live_set_def verified_set_def)
  have v2: "views_ok ?s2"
  proof (cases "is_tomb st")
    case True
    then have "live_set ?s1 = live_set s" "verified_set ?s1 = verified_set s"
      unfolding sets live_set_put verified_set_put m3 using out by auto
    then show ?thesis using True views_ok_cong [OF v] by simp
  next
    case False
    then show ?thesis using t1 views_ok_republish by (simp add: table_ok_def)
  qed
  have "leases_inv ({} \<union> {}) ?s1"
    by (rule leases_inv_mono [OF l]) (unfold sets verified_set_put, use out in auto)
  then have l2: "leases_inv {} ?s2" by (cases "is_tomb st") (simp_all only: if_True if_False Un_empty_left leases_inv_republish)
  have t2: "table_ok ?s2" using t1 by (cases "is_tomb st") (simp_all only: if_True if_False table_ok_republish)
  show ?thesis unfolding e
    by (rule enforce_tomb_cap_inv) (use t2 v2 leases_inv_note [OF l2] in simp_all)
qed

lemma apply_known_untaken:
  assumes inv: "swim_inv s" and n: "n \<noteq> sw_self s" "\<not> is_client_node n" "member_of s n = Some cur0"
    and cur: "cur = (if first_hand src st then cur0\<lparr> mb_verified := True \<rparr> else cur0)"
    and d: "decide now (sc_suspicion_timeout (sw_cfg s)) src cur inc st = None"
  shows "swim_inv (apply_known now src n inc st cur0 s)"
proof -
  have tab: "table_ok s" and v: "views_ok s" and l: "leases_inv {} s" and c: "sw_tomb_count s \<le> sc_max_tombstones (sw_cfg s)"
    using inv by (simp_all add: swim_inv_def)
  let ?s0 = "put_member n cur s"
  have t0: "table_ok ?s0" by (rule table_ok_put [OF tab n(3)]) (simp_all add: cur)
  then have k0: "keys_ok ?s0" by (simp add: table_ok_def)
  have vs: "verified_set s \<subseteq> verified_set ?s0" unfolding verified_set_put using n(3) by (auto simp: cur verified_set_def)
  have l0: "leases_inv {} ?s0" using leases_inv_mono [OF l, of ?s0 "{}"] vs by simp
  show ?thesis
  proof (cases "\<not> mb_verified cur0 \<and> mb_verified cur")
    case True
    let ?t = "republish (set_tx_of n (piggyback_count ?s0) ?s0)"
    have "table_ok ?t" "leases_inv {} ?t" using t0 l0 by simp_all
    moreover have "views_ok ?t" using t0 table_ok_set_tx_of [OF t0] by (intro views_ok_republish) (simp add: table_ok_def)
    ultimately have "swim_inv (note_transition now n (mb_status cur) ?t)"
      using leases_inv_note [of "{}" ?t] c by (simp add: swim_inv_def)
    then show ?thesis using True d by (simp add: apply_known_def Let_def flip: cur)
  next
    case False
    then have "cur = cur0" using cur by auto
    then have "views_ok ?s0" using put_same_sets [OF n(3), of cur] views_ok_cong [OF v, of ?s0] by simp
    with t0 l0 c False d show ?thesis by (auto simp: apply_known_def swim_inv_def Let_def simp flip: cur)
  qed
qed

lemma decide_status:
  "decide now susp src cur inc st = Some nx \<Longrightarrow>
     (nx = Dead \<longrightarrow> st = Dead \<and> src = SrcLocal) \<and> (nx = Left \<longrightarrow> st = Left) \<and> mb_incarnation cur \<le> inc"
  by (auto simp: decide_def split: member_status.splits if_splits option.splits)

lemma apply_known_taken:
  assumes inv: "swim_inv s" and n: "n \<noteq> sw_self s" "\<not> is_client_node n" "member_of s n = Some cur0"
    and cur: "cur = (if first_hand src st then cur0\<lparr> mb_verified := True \<rparr> else cur0)"
    and d: "decide now (sc_suspicion_timeout (sw_cfg s)) src cur inc st = Some nx"
  shows "swim_inv (apply_known now src n inc st cur0 s)"
proof -
  have tab: "table_ok s" and v: "views_ok s" and l: "leases_inv {} s" using inv by (simp_all add: swim_inv_def)
  let ?s0 = "put_member n cur s"
  have t0: "table_ok ?s0" by (rule table_ok_put [OF tab n(3)]) (simp_all add: cur)
  let ?wl = "\<not> is_tomb (mb_status cur0)" and ?nl = "\<not> is_tomb nx"
  obtain cur1 p where x: "(if mb_incarnation cur \<noteq> inc \<or> mb_status cur \<noteq> nx
      then set_tx (piggyback_count ?s0) cur (sw_tx_pending ?s0) else (cur, sw_tx_pending ?s0)) = (cur1, p)" by fastforce
  have sp: "mb_verified cur1 = mb_verified cur"
    "sw_tx_pending ?s0 + of_bool (mb_tx_left cur1 \<noteq> 0) \<le> p + of_bool (mb_tx_left cur \<noteq> 0)"
    using x set_tx_spec [of "piggyback_count ?s0" cur "sw_tx_pending ?s0" cur1 p] by (auto split: if_splits)
  define cur2 where "cur2 = cur1\<lparr> mb_incarnation := inc, mb_status := nx, mb_verify_pending := False \<rparr>"
  define cur3 where "cur3 = (if nx = Suspect
      then cur2\<lparr> mb_suspect_deadline := now + sc_suspicion_timeout (sw_cfg s), mb_verify_pending := (src = SrcGossip \<or> src = SrcJoinSnapshot) \<rparr>
      else cur2)"
  define cur4 where "cur4 = (if ?nl then cur3 else cur3\<lparr> mb_death := now, mb_last_probe := (if ?wl then Some now else mb_last_probe cur3) \<rparr>)"
  have c4: "mb_status cur4 = nx" "mb_verified cur4 = mb_verified cur" "mb_tx_left cur4 = mb_tx_left cur1"
    by (simp_all add: cur4_def cur3_def cur2_def sp(1))
  define c where "c = (if ?wl \<and> \<not> ?nl then sw_tomb_count ?s0 + 1 else if \<not> ?wl \<and> ?nl then sw_tomb_count ?s0 - 1 else sw_tomb_count ?s0)"
  define s1 where "s1 = (put_member n cur4 ?s0)\<lparr> sw_tx_pending := p, sw_tomb_count := c \<rparr>"
  define s2 where "s2 = (if ?wl \<noteq> ?nl then republish s1 else s1)"
  define s3 where "s3 = (if \<not> mb_verified cur0 \<and> mb_verified cur then republish (set_tx_of n (piggyback_count s2) s2) else s2)"
  have e: "apply_known now src n inc st cur0 s = enforce_tomb_cap (note_transition now n (mb_status cur) s3)"
    unfolding apply_known_def Let_def cur [symmetric] d option.case x prod.case s3_def s2_def s1_def cur4_def cur3_def cur2_def c_def
    by simp
  have m0: "member_of ?s0 n = Some cur" by (simp add: member_of_put)
  have pos: "0 < sw_tomb_count ?s0" if "\<not> ?wl"
    using that tab n tombs_erase [of s n] by (simp add: table_ok_def)
  have st: "mb_status cur = mb_status cur0" by (simp add: cur)
  have t1: "table_ok s1"
  proof (rule table_ok_change [OF t0, of n c cur4 p])
    show "c + (case member_of ?s0 n of None \<Rightarrow> 0 | Some w \<Rightarrow> of_bool (is_tomb (mb_status w))) = sw_tomb_count ?s0 + of_bool (is_tomb (mb_status cur4))"
      using pos by (auto simp: m0 c4 c_def st)
    show "sw_tx_pending ?s0 + of_bool (mb_tx_left cur4 \<noteq> 0) \<le> p + (case member_of ?s0 n of None \<Rightarrow> 0 | Some w \<Rightarrow> of_bool (mb_tx_left w \<noteq> 0))"
      using sp(2) by (simp add: m0 c4)
  qed (use n in \<open>simp_all add: s1_def\<close>)
  have sets1: "live_set s1 = live_set (put_member n cur4 s)" "verified_set s1 = verified_set (put_member n cur4 s)"
    using sets_cong [of s1 "put_member n cur4 ?s0"] unfolding s1_def live_set_put verified_set_put by auto
  have t3: "table_ok s3" using t1 by (simp add: s3_def s2_def)
  have v3: "views_ok s3"
  proof (cases "(?wl \<noteq> ?nl) \<or> \<not> mb_verified cur0 \<and> mb_verified cur")
    case True
    have r1: "views_ok (republish s1)" using t1 views_ok_republish by (simp add: table_ok_def)
    have "table_ok s2" using t1 by (simp add: s2_def)
    then have "table_ok (set_tx_of n (piggyback_count s2) s2)" by (rule table_ok_set_tx_of)
    then have r2: "views_ok (republish (set_tx_of n (piggyback_count s2) s2))" by (intro views_ok_republish) (simp add: table_ok_def)
    show ?thesis using True r1 r2 by (auto simp: s3_def s2_def)
  next
    case False
    then have "mb_verified cur = mb_verified cur0" using cur by auto
    then have "live_set s1 = live_set s" "verified_set s1 = verified_set s"
      using False n(3) unfolding sets1 live_set_put verified_set_put c4 by (auto simp: live_set_def verified_set_def)
    then have "views_ok s1" using views_ok_cong [OF v, of s1] by (simp add: s1_def)
    then show ?thesis using False by (auto simp: s3_def s2_def)
  qed
  let ?X = "if ?nl then {} else {n}"
  have vv: "verified_set s - ?X \<subseteq> verified_set s1"
    unfolding sets1 verified_set_put c4 using n(3) cur by (auto simp: verified_set_def)
  have "leases_inv ({} \<union> ?X) s1" by (rule leases_inv_mono [OF l]) (use vv in \<open>simp_all add: s1_def\<close>)
  then have l3: "leases_inv ?X s3" by (simp add: s3_def s2_def)
  have "\<exists>m. member_of s1 n = Some m \<and> mb_status m = nx" using c4 by (simp add: s1_def member_of_def put_member_def update_conv')
  then have "\<exists>m. member_of s3 n = Some m \<and> mb_status m = nx"
    by (auto simp: s3_def s2_def set_tx_of_def member_of_def put_member_def update_conv' set_tx_def republish_def split: option.split)
  then have "leases_inv {} (note_transition now n (mb_status cur) s3)"
    by (intro leases_inv_note [OF l3]) auto
  then show ?thesis unfolding e by (intro enforce_tomb_cap_inv) (simp_all add: t3 v3)
qed

lemma apply_update_inv:
  assumes "swim_inv s"
  shows "swim_inv (apply_update now src n inc st s)"
proof -
  have c: "swim_inv (s\<lparr> sw_admission_refusals := a \<rparr>) = swim_inv s" "swim_inv (s\<lparr> sw_suppressed := a \<rparr>) = swim_inv s" for a
    by (simp_all add: swim_inv_def views_ok_def leases_inv_def table_ok_def keys_ok_def self_entry_def no_clients_def
        member_of_def tombs_def txs_def live_set_def verified_set_def)
  show ?thesis
  proof (cases "member_of s n")
    case None
    then show ?thesis using assms apply_self_inv [OF assms] apply_unknown_inv [OF assms _ _ None] by (simp add: apply_update_def c)
  next
    case (Some cur0)
    have "swim_inv (apply_known now src n inc st cur0 s)" if "n \<noteq> sw_self s" "\<not> is_client_node n"
      using apply_known_untaken [OF assms that Some refl] apply_known_taken [OF assms that Some refl]
      by (cases "decide now (sc_suspicion_timeout (sw_cfg s)) src (if first_hand src st then cur0\<lparr> mb_verified := True \<rparr> else cur0) inc st")
        blast+
    with Some show ?thesis using assms apply_self_inv [OF assms] by (simp add: apply_update_def c)
  qed
qed

section \<open>The other operations on the table\<close>

lemma swim_inv_cong:
  assumes "sw_members t = sw_members s" "sw_self t = sw_self s" "sw_cfg t = sw_cfg s" "sw_self_inc t = sw_self_inc s"
    "sw_self_left t = sw_self_left s" "sw_tomb_count t = sw_tomb_count s" "sw_tx_pending t = sw_tx_pending s"
    "sw_leases t = sw_leases s" "sw_snapshot t = sw_snapshot s" "sw_verified_snapshot t = sw_verified_snapshot s"
  shows "swim_inv t = swim_inv s"
proof -
  have "table_ok t = table_ok s" using assms by (intro table_ok_cong)
  moreover have "live_set t = live_set s" "verified_set t = verified_set s" using assms by (intro sets_cong; simp)+
  ultimately show ?thesis using assms by (simp add: swim_inv_def views_ok_def leases_inv_def)
qed

lemma create_inv: "swim_inv (swim_create self cfg secret sinks)"
proof -
  let ?s = "swim_create self cfg secret sinks"
  have m: "sw_members ?s = [(self, member_init\<lparr> mb_cluster := sc_cluster_id (sanitize cfg), mb_incarnation := 1, mb_verified := True,
      mb_reported := 1, mb_wire_version := sc_wire_version (sanitize cfg) \<rparr>)]"
    by (simp add: swim_create_def Let_def)
  have f: "sw_self ?s = self" "sw_self_inc ?s = 1" "\<not> sw_self_left ?s" "sw_tomb_count ?s = 0" "sw_tx_pending ?s = 0" "sw_leases ?s = []"
    by (simp_all add: swim_create_def Let_def)
  have "table_ok ?s"
    using m f by (simp add: table_ok_def keys_ok_def self_entry_def no_clients_def tombs_def txs_def member_of_def member_init_def is_tomb_def)
  moreover have "views_ok ?s" unfolding swim_create_def Let_def by (rule views_ok_republish) (simp add: keys_ok_def)
  ultimately show ?thesis using f by (simp add: swim_inv_def leases_inv_def leases_ok_def sl_contains_def sl_find_def)
qed

lemma kill_suspect_inv:
  assumes "table_ok s" and "leases_inv {} s" and "member_of s n = Some m" and "mb_status m = Suspect" and "\<not> sl_contains n (sw_leases s)"
  shows "table_ok (kill_suspect now tx n s)" and "leases_inv {} (kill_suspect now tx n s)"
    and "sw_leases (kill_suspect now tx n s) = sw_leases s"
    and "i \<noteq> n \<Longrightarrow> member_of (kill_suspect now tx n s) i = member_of s i"
    and "sw_cfg (kill_suspect now tx n s) = sw_cfg s"
proof -
  let ?m0 = "m\<lparr> mb_status := Dead, mb_death := now, mb_last_probe := Some now \<rparr>"
  obtain m' p where x: "set_tx tx ?m0 (sw_tx_pending s) = (m', p)" by (cases "set_tx tx ?m0 (sw_tx_pending s)")
  note sp = set_tx_spec [OF x]
  let ?m = "m'\<lparr> mb_verify_pending := False \<rparr>"
  have e: "kill_suspect now tx n s = (put_member n ?m s)\<lparr> sw_tx_pending := p, sw_tomb_count := sw_tomb_count s + 1 \<rparr>"
    using assms(3) x by (simp add: kill_suspect_def)
  have ns: "n \<noteq> sw_self s" using assms(1,3,4) by (auto simp: table_ok_def self_entry_def split: if_splits)
  have nc: "\<not> is_client_node n" using assms(1,3) ns by (auto simp: table_ok_def no_clients_def)
  show "table_ok (kill_suspect now tx n s)"
    by (rule table_ok_change [OF assms(1) ns nc, of _ ?m]) (use sp assms(3,4) in \<open>auto simp: e is_tomb_def\<close>)
  show l: "sw_leases (kill_suspect now tx n s) = sw_leases s" and "sw_cfg (kill_suspect now tx n s) = sw_cfg s"
    by (simp_all add: e)
  have "verified_set (kill_suspect now tx n s) = verified_set (put_member n ?m s)" unfolding e by (rule sets_cong) simp_all
  then have "verified_set s - {n} \<subseteq> verified_set (kill_suspect now tx n s)" unfolding verified_set_put by auto
  then have "leases_inv ({} \<union> {n}) (kill_suspect now tx n s)" by (intro leases_inv_mono [OF assms(2)]) (simp_all add: e)
  then show "leases_inv {} (kill_suspect now tx n s)" using assms(5) l by (auto simp: leases_inv_def)
  show "i \<noteq> n \<Longrightarrow> member_of (kill_suspect now tx n s) i = member_of s i"
    unfolding e using member_of_put [of n ?m s i] by (simp add: member_of_def)
qed

lemma kill_suspects_inv:
  assumes "table_ok s" and "leases_inv {} s" and "distinct ns"
    and "\<forall>n. n \<in> set ns \<longrightarrow> (\<exists>m. member_of s n = Some m \<and> mb_status m = Suspect) \<and> \<not> sl_contains n (sw_leases s)"
  shows "table_ok (fold (kill_suspect now tx) ns s) \<and> leases_inv {} (fold (kill_suspect now tx) ns s)"
  using assms
proof (induction ns arbitrary: s)
  case (Cons n ns)
  obtain m where m: "member_of s n = Some m" "mb_status m = Suspect" "\<not> sl_contains n (sw_leases s)" using Cons.prems(4) by auto
  note k = kill_suspect_inv [OF Cons.prems(1,2) m, where now = now and tx = tx]
  have "table_ok (fold (kill_suspect now tx) ns (kill_suspect now tx n s)) \<and> leases_inv {} (fold (kill_suspect now tx) ns (kill_suspect now tx n s))"
  proof (rule Cons.IH [OF k(1,2)])
    show "distinct ns" using Cons.prems(3) by simp
    show "\<forall>i. i \<in> set ns \<longrightarrow> (\<exists>m. member_of (kill_suspect now tx n s) i = Some m \<and> mb_status m = Suspect) \<and>
        \<not> sl_contains i (sw_leases (kill_suspect now tx n s))"
    proof (intro allI impI)
      fix i
      assume i: "i \<in> set ns"
      then have "i \<noteq> n" using Cons.prems(3) by auto
      then show "(\<exists>m. member_of (kill_suspect now tx n s) i = Some m \<and> mb_status m = Suspect) \<and>
          \<not> sl_contains i (sw_leases (kill_suspect now tx n s))"
        using Cons.prems(4) i unfolding k(3) k(4) [OF \<open>i \<noteq> n\<close>] by simp
    qed
  qed
  then show ?case by simp
qed simp

lemma notes_inv:
  assumes "table_ok s" and "views_ok s" and "leases_inv {} s"
  shows "table_ok (fold (\<lambda>n. note_transition now n p) ns s) \<and> views_ok (fold (\<lambda>n. note_transition now n p) ns s) \<and>
    leases_inv {} (fold (\<lambda>n. note_transition now n p) ns s)"
  using assms by (induction ns arbitrary: s) (simp_all add: leases_inv_note)

lemma over_ids:
  assumes "keys_ok s"
  shows "n \<in> set (map fst (filter P (sw_members s))) \<longleftrightarrow> (\<exists>m. member_of s n = Some m \<and> P (n, m))"
  using member_of_set [OF assms] by force

lemma reap_suspects_inv:
  assumes "swim_inv s"
  shows "swim_inv (reap_suspects now s)"
proof -
  have tab: "table_ok s" and v: "views_ok s" and l: "leases_inv {} s" using assms by (simp_all add: swim_inv_def)
  then have k: "keys_ok s" by (simp add: table_ok_def)
  define died where "died = map fst (filter (suspicion_over now s) (sw_members s))"
  define s1 where "s1 = fold (kill_suspect now (piggyback_count s)) died s"
  have "distinct died" using k by (simp add: died_def keys_ok_def distinct_map_filter)
  then have s1: "table_ok s1 \<and> leases_inv {} s1" unfolding s1_def
    by (intro kill_suspects_inv [OF tab l]) (auto simp: died_def suspicion_over_def member_of_set [OF k])
  define s2 where "s2 = (if died \<noteq> [] then republish s1 else s1)"
  have "views_ok s2"
    using v s1 views_ok_republish [of s1] by (auto simp: s2_def s1_def table_ok_def)
  moreover have "table_ok s2" "leases_inv {} s2" using s1 by (simp_all add: s2_def)
  ultimately show ?thesis
    unfolding reap_suspects_def Let_def died_def [symmetric] s1_def [symmetric] s2_def [symmetric]
    using notes_inv [of s2 now Suspect "sort died"] by (intro enforce_tomb_cap_inv) blast+
qed

lemma filtered_member:
  assumes "keys_ok s" and "sw_members t = filter P (sw_members s)"
  shows "member_of t i = (case member_of s i of None \<Rightarrow> None | Some m \<Rightarrow> if P (i, m) then Some m else None)"
proof -
  have k: "keys_ok t" using assms by (simp add: keys_ok_def distinct_map_filter)
  have iff: "member_of t i = Some m \<longleftrightarrow> member_of s i = Some m \<and> P (i, m)" for m
    unfolding member_of_set [OF assms(1)] member_of_set [OF k] assms(2) by auto
  show ?thesis
  proof (cases "member_of t i")
    case None
    then have "\<not> (member_of s i = Some m \<and> P (i, m))" for m using iff by simp
    with None show ?thesis by (cases "member_of s i") auto
  next
    case (Some m)
    then show ?thesis using iff by simp
  qed
qed

lemma length_filter_split: "length (filter P xs) = length (filter P (filter Q xs)) + length (filter P (filter (\<lambda>x. \<not> Q x) xs))"
  by (induction xs) auto

lemma reap_tombstones_inv:
  assumes "swim_inv s"
  shows "swim_inv (reap_tombstones now s)"
proof (cases "sw_tomb_count s = 0")
  case True
  then show ?thesis using assms by (simp add: reap_tombstones_def)
next
  case False
  have tab: "table_ok s" and v: "views_ok s" and l: "leases_inv {} s" and c: "sw_tomb_count s \<le> sc_max_tombstones (sw_cfg s)"
    using assms by (simp_all add: swim_inv_def)
  then have k: "keys_ok s" by (simp add: table_ok_def)
  define gone where "gone = filter (tombstone_expired now s) (sw_members s)"
  let ?t = "reap_tombstones now s"
  have mem: "sw_members ?t = filter (\<lambda>e. \<not> tombstone_expired now s e) (sw_members s)"
    and f: "sw_self ?t = sw_self s" "sw_cfg ?t = sw_cfg s" "sw_self_inc ?t = sw_self_inc s" "sw_self_left ?t = sw_self_left s"
      "sw_leases ?t = sw_leases s" "sw_snapshot ?t = sw_snapshot s" "sw_verified_snapshot ?t = sw_verified_snapshot s"
      "sw_tomb_count ?t = sw_tomb_count s - length gone"
      "sw_tx_pending ?t = sw_tx_pending s - length (filter (\<lambda>e. mb_tx_left (snd e) \<noteq> 0) gone)"
    using False by (simp_all add: reap_tombstones_def Let_def flip: gone_def)
  note mo = filtered_member [OF k mem]
  have "keys_ok ?t" using k mem by (simp add: keys_ok_def distinct_map_filter)
  moreover have "self_entry ?t" using tab f unfolding table_ok_def self_entry_def mo by (auto simp: tombstone_expired_def)
  moreover have "no_clients ?t" using tab f unfolding table_ok_def no_clients_def mo by (auto split: option.splits if_splits)
  moreover have "sw_tomb_count ?t = tombs ?t"
  proof -
    have "filter (\<lambda>(i, m). i \<noteq> sw_self s \<and> is_tomb (mb_status m)) gone = gone"
      unfolding gone_def filter_filter by (rule filter_cong) (auto simp: tombstone_expired_def)
    then have "tombs s = length gone + tombs ?t"
      unfolding tombs_def mem f gone_def
      by (subst length_filter_split [of _ _ "tombstone_expired now s"]) simp
    then show ?thesis using tab f by (simp add: table_ok_def)
  qed
  moreover have "txs ?t \<le> sw_tx_pending ?t"
  proof -
    have "txs s = length (filter (\<lambda>e. mb_tx_left (snd e) \<noteq> 0) gone) + txs ?t"
      unfolding txs_def mem gone_def case_prod_unfold
      by (rule length_filter_split)
    moreover have "txs s \<le> sw_tx_pending s" using tab by (simp add: table_ok_def)
    ultimately show ?thesis unfolding f by linarith
  qed
  ultimately have t: "table_ok ?t" by (simp add: table_ok_def)
  have sets: "live_set ?t = live_set s" "verified_set ?t = verified_set s"
    unfolding live_set_def verified_set_def mo f by (auto simp: tombstone_expired_def split: option.splits if_splits)
  show ?thesis using t c f views_ok_cong [OF v sets f(6,7)] l sets by (auto simp: swim_inv_def leases_inv_def)
qed

lemma reap_unverified_inv:
  assumes "swim_inv s"
  shows "swim_inv (reap_unverified now s)"
proof (cases "sc_unverified_ttl (sw_cfg s) \<le> 0 \<or> filter (unverified_expired now s) (sw_members s) = []")
  case True
  then have "sc_unverified_ttl (sw_cfg s) \<le> 0 \<or> filter (\<lambda>e. \<not> unverified_expired now s e) (sw_members s) = sw_members s"
    by (auto simp: filter_empty_conv filter_id_conv)
  then show ?thesis using assms True by (auto simp: reap_unverified_def)
next
  case False
  have tab: "table_ok s" and l: "leases_inv {} s" and c: "sw_tomb_count s \<le> sc_max_tombstones (sw_cfg s)"
    using assms by (simp_all add: swim_inv_def)
  then have k: "keys_ok s" by (simp add: table_ok_def)
  define t where "t = s\<lparr> sw_members := filter (\<lambda>e. \<not> unverified_expired now s e) (sw_members s), sw_ids_dirty := True \<rparr>"
  have e: "reap_unverified now s = republish t" using False by (simp add: reap_unverified_def Let_def t_def)
  have mem: "sw_members t = filter (\<lambda>e. \<not> unverified_expired now s e) (sw_members s)" by (simp add: t_def)
  note mo = filtered_member [OF k mem]
  have kt: "keys_ok t" using k mem by (simp add: keys_ok_def distinct_map_filter)
  moreover have "self_entry t" using tab unfolding table_ok_def self_entry_def mo by (auto simp: unverified_expired_def t_def)
  moreover have "no_clients t" using tab unfolding table_ok_def no_clients_def mo by (auto simp: t_def split: option.splits if_splits)
  moreover have "tombs t = tombs s"
    unfolding tombs_def mem filter_filter by (rule arg_cong [of _ _ length], rule filter_cong) (auto simp: unverified_expired_def t_def)
  moreover have "txs t \<le> txs s"
    unfolding txs_def mem by (subst length_filter_split [of _ "sw_members s" "\<lambda>e. \<not> unverified_expired now s e"]) simp
  moreover have tf: "sw_tomb_count t = sw_tomb_count s" "sw_tx_pending t = sw_tx_pending s" "sw_cfg t = sw_cfg s" by (simp_all add: t_def)
  ultimately have t: "table_ok t" using tab by (simp add: table_ok_def)
  have "verified_set s - {sw_self s} \<subseteq> verified_set t"
    unfolding verified_set_def mo by (auto simp: unverified_expired_def)
  then have "leases_inv {} t" using l unfolding leases_inv_def by (auto simp: t_def)
  then show ?thesis unfolding e using t c views_ok_republish [OF kt] tf by (simp add: swim_inv_def)
qed

lemma evict_one_inv: "swim_inv s \<Longrightarrow> swim_inv (evict_one now v s)"
proof -
  assume "swim_inv s"
  then have "swim_inv (s\<lparr> sw_evicting := True \<rparr>)" using swim_inv_cong [of "s\<lparr> sw_evicting := True \<rparr>" s] by simp
  then have a: "swim_inv (apply_update now SrcLocal v (incarnation_of s v) Dead (s\<lparr> sw_evicting := True \<rparr>))" by (rule apply_update_inv)
  show ?thesis unfolding evict_one_def Let_def by (rule iffD2 [OF swim_inv_cong a]) simp_all
qed

lemma evict_denied_inv: "swim_inv s \<Longrightarrow> swim_inv (evict_denied now s)"
proof -
  assume s: "swim_inv s"
  have "swim_inv (fold (evict_one now) ns s)" for ns
    using s by (induction ns arbitrary: s) (simp_all add: evict_one_inv)
  then show ?thesis using s by (simp add: evict_denied_def split: option.split)
qed

text \<open>A refusal leaves the table, the counters, the leases and the snapshots alone.\<close>

definition same_table :: "swim \<Rightarrow> swim \<Rightarrow> bool" where
  "same_table s t \<longleftrightarrow> sw_members t = sw_members s \<and> sw_self t = sw_self s \<and> sw_cfg t = sw_cfg s \<and> sw_self_inc t = sw_self_inc s \<and>
     sw_self_left t = sw_self_left s \<and> sw_tomb_count t = sw_tomb_count s \<and> sw_tx_pending t = sw_tx_pending s \<and>
     sw_leases t = sw_leases s \<and> sw_snapshot t = sw_snapshot s \<and> sw_verified_snapshot t = sw_verified_snapshot s \<and>
     sw_epoch t = sw_epoch s \<and> sw_admission t = sw_admission s"

lemma same_table_refl [simp]: "same_table s s"
  by (simp add: same_table_def)

lemma same_table_trans: "same_table r s \<Longrightarrow> same_table s t \<Longrightarrow> same_table r t"
  by (simp add: same_table_def)

lemma same_table_inv: "same_table s t \<Longrightarrow> swim_inv t = swim_inv s"
  unfolding same_table_def by (rule swim_inv_cong) simp_all

lemma same_table_members: "same_table s t \<Longrightarrow> member_of t i = member_of s i"
  by (simp add: same_table_def member_of_def)

lemma same_table_refuse: "same_table s (refuse now n ver why b s)"
proof -
  let ?s = "s\<lparr> sw_version_refusals := sw_version_refusals s + 1 \<rparr>"
  have a: "same_table s ?s" by (simp add: same_table_def)
  have p: "same_table t (push_refusal now n ver why b t)" for t by (simp add: push_refusal_def same_table_def)
  have r: "same_table t (record_refusal n ver why t)" for t by (simp add: record_refusal_def same_table_def)
  have "same_table s (push_refusal now n ver why b (record_refusal n ver why ?s))"
    by (rule same_table_trans [OF same_table_trans [OF a r] p])
  with a show ?thesis unfolding refuse_def Let_def by simp
qed

lemma refuse_inv [simp]: "swim_inv (refuse now n ver why b s) = swim_inv s"
  by (rule same_table_inv [OF same_table_refuse])

lemma fold_refuse: "same_table s (fold (\<lambda>(n, ver, why). refuse now n ver why False) xs s)"
proof (induction xs arbitrary: s)
  case (Cons x xs)
  obtain n ver why where x: "x = (n, ver, why)" by (cases x)
  show ?case using same_table_trans [OF same_table_refuse Cons.IH] by (simp add: x)
qed simp

text \<open>Flushing delivers the events and changes the table only by a pending eviction.\<close>

definition evicted :: "int \<Rightarrow> swim \<Rightarrow> swim" where
  "evicted now s = (if sw_admission_dirty s then evict_denied now (s\<lparr> sw_admission_dirty := False \<rparr>) else s)"

lemma flush_same_table: "same_table (evicted now s) (snd (flush_events now s))"
proof -
  let ?s1 = "evicted now s"
  have a: "same_table ?s1 (?s1\<lparr> sw_ext_refusals := [] \<rparr>)" by (simp add: same_table_def)
  have b: "same_table t (t\<lparr> sw_events := [] \<rparr>)" for t by (simp add: same_table_def)
  show ?thesis unfolding flush_events_def Let_def evicted_def [symmetric] snd_conv
    by (rule same_table_trans [OF same_table_trans [OF a fold_refuse] b])
qed

lemma evicted_inv: "swim_inv s \<Longrightarrow> swim_inv (evicted now s)"
proof -
  assume s: "swim_inv s"
  have "same_table s (s\<lparr> sw_admission_dirty := False \<rparr>)" by (simp add: same_table_def)
  then have "swim_inv (s\<lparr> sw_admission_dirty := False \<rparr>)" using s same_table_inv by blast
  then show ?thesis using s evict_denied_inv by (simp add: evicted_def)
qed

lemma flush_events_inv: "swim_inv s \<Longrightarrow> swim_inv (snd (flush_events now s))"
  using same_table_inv [OF flush_same_table] evicted_inv by blast

lemma admission_published_inv [simp]: "swim_inv (admission_published snap s) = swim_inv s"
  by (rule swim_inv_cong) (simp_all add: admission_published_def)

lemma note_transport_refusal_inv [simp]: "swim_inv (note_transport_refusal p v b s) = swim_inv s"
  by (rule swim_inv_cong) (simp_all add: note_transport_refusal_def)

lemma set_online_inv [simp]: "swim_inv (set_online b s) = swim_inv s"
  by (rule swim_inv_cong) (simp_all add: set_online_def)

lemma admit_inv: "swim_inv s \<Longrightarrow> swim_inv (snd (snd (swim_admit now j c s)))"
  by (simp add: swim_admit_def flush_events_inv apply_update_inv)

definition left_self :: "swim \<Rightarrow> swim" where
  "left_self s =
     (let me = (case member_of s (sw_self s) of None \<Rightarrow> member_init | Some m \<Rightarrow> m); inc = mb_incarnation me + kLeftBand
      in (put_member (sw_self s) (me\<lparr> mb_incarnation := inc, mb_status := Left \<rparr>) s)\<lparr> sw_self_inc := inc, sw_self_left := True \<rparr>)"

lemma leave_self_eq: "leave now (sw_self s) s = flush_events now (note_transition now (sw_self s) Alive (republish (left_self s)))"
  by (simp add: leave_def left_self_def Let_def)

lemma left_self_inv:
  assumes "swim_inv s"
  shows "swim_inv (note_transition now (sw_self s) Alive (republish (left_self s)))"
proof -
  have tab: "table_ok s" and l: "leases_inv {} s" and c: "sw_tomb_count s \<le> sc_max_tombstones (sw_cfg s)"
    using assms by (simp_all add: swim_inv_def)
  then have k: "keys_ok s" by (simp add: table_ok_def)
  obtain me where me: "member_of s (sw_self s) = Some me" "mb_verified me" using tab by (auto simp: table_ok_def self_entry_def)
  let ?inc = "mb_incarnation me + kLeftBand"
  let ?m = "me\<lparr> mb_incarnation := ?inc, mb_status := Left \<rparr>"
  define t where "t = left_self s"
  have t_def: "t = (put_member (sw_self s) ?m s)\<lparr> sw_self_inc := ?inc, sw_self_left := True \<rparr>"
    using me by (simp add: t_def left_self_def Let_def)
  have mo: "member_of t i = (if i = sw_self s then Some ?m else member_of s i)" for i
    using member_of_put [of "sw_self s" ?m s i] by (simp add: t_def member_of_def)
  have kt: "keys_ok t" using keys_ok_put [OF k, of "sw_self s" ?m] by (simp add: t_def keys_ok_def)
  have "tombs t = tombs (put_member (sw_self s) ?m s)" "txs t = txs (put_member (sw_self s) ?m s)" by (simp_all add: t_def tombs_def txs_def)
  then have "tombs t = tombs s" "txs t = txs s"
    using tombs_put [OF k, of "sw_self s" ?m] txs_put [OF k, of "sw_self s" ?m] me by simp_all
  moreover have "self_entry t" using me unfolding self_entry_def mo by (simp add: t_def)
  moreover have "no_clients t" using tab unfolding table_ok_def no_clients_def mo by (simp add: t_def)
  ultimately have tt: "table_ok t" using tab kt by (simp add: table_ok_def) (simp add: t_def)
  have "verified_set s - {sw_self s} \<subseteq> verified_set t" unfolding verified_set_def mo by (auto simp: t_def)
  then have lt: "leases_inv {} t" using l unfolding leases_inv_def by (auto simp: t_def)
  have "swim_inv (note_transition now (sw_self s) Alive (republish t))"
    using tt lt views_ok_republish [OF kt] leases_inv_note [of "{}" "republish t"] c by (simp add: swim_inv_def) (simp add: t_def)
  then show ?thesis unfolding t_def [symmetric] using me by (simp add: t_def left_self_def Let_def)
qed

lemma leave_inv: "swim_inv s \<Longrightarrow> swim_inv (snd (leave now who s))"
proof (cases "who = sw_self s")
  case True
  then show "swim_inv s \<Longrightarrow> swim_inv (snd (leave now who s))" using left_self_inv flush_events_inv by (simp add: leave_self_eq)
qed (simp add: leave_def flush_events_inv apply_update_inv)

end
