(* ===== verification/Swim_Rules.thy ===== *)
theory Swim_Rules
  imports Swim_Invariant
begin

text \<open>
  What one update does to the member table of \<open>Swim_State\<close>, seen through the status, the incarnation and
  the first-hand flag of each entry: the precedence rules of the failure detector, refutation, tombstones and
  the placement guard.
\<close>

section \<open>The effect on the table\<close>

definition entry_view :: "member \<Rightarrow> member_status \<times> u64 \<times> bool" where
  "entry_view m = (mb_status m, mb_incarnation m, mb_verified m)"

definition table_view :: "swim \<Rightarrow> u64 \<Rightarrow> (member_status \<times> u64 \<times> bool) option" where
  "table_view s i = map_option entry_view (member_of s i)"

lemma table_view_put: "table_view (put_member n m s) i = (if i = n then Some (entry_view m) else table_view s i)"
  by (simp add: table_view_def member_of_put)

lemma table_view_cong: "sw_members t = sw_members s \<Longrightarrow> table_view t = table_view s"
  by (simp add: table_view_def member_of_def fun_eq_iff)

lemma table_view_note [simp]: "table_view (note_transition now n p s) = table_view s"
proof
  fix i
  show "table_view (note_transition now n p s) i = table_view s i"
    using member_of_note [of now n p s i] by (cases "member_of s i") (auto simp: table_view_def entry_view_def)
qed

lemma table_view_set_tx [simp]: "table_view (set_tx_of n v s) = table_view s"
proof (cases "member_of s n")
  case None
  then show ?thesis by (simp add: set_tx_of_def)
next
  case (Some m)
  obtain m' p where x: "set_tx v m (sw_tx_pending s) = (m', p)" by (cases "set_tx v m (sw_tx_pending s)")
  have "table_view (set_tx_of n v s) = table_view (put_member n m' s)"
    using Some x by (intro table_view_cong) (simp add: set_tx_of_def)
  moreover have "entry_view m' = entry_view m" using set_tx_spec [OF x] by (simp add: entry_view_def)
  ultimately show ?thesis using Some by (auto simp: fun_eq_iff table_view_put) (simp add: table_view_def)
qed

lemma table_view_republish [simp]: "table_view (republish s) = table_view s"
  by (rule table_view_cong) (simp add: republish_def)

text \<open>The cap only erases tombstones.\<close>

lemma enforce_view:
  assumes "keys_ok s"
  shows "table_view (enforce_tomb_cap s) i = table_view s i \<or>
    table_view (enforce_tomb_cap s) i = None \<and> i \<noteq> sw_self s \<and> (\<exists>st k v. table_view s i = Some (st, k, v) \<and> is_tomb st)"
    and "keys_ok (enforce_tomb_cap s)" and "sw_self (enforce_tomb_cap s) = sw_self s"
proof -
  have "(table_view (enforce_tomb_cap s) i = table_view s i \<or>
      table_view (enforce_tomb_cap s) i = None \<and> i \<noteq> sw_self s \<and> (\<exists>st k v. table_view s i = Some (st, k, v) \<and> is_tomb st)) \<and>
      keys_ok (enforce_tomb_cap s) \<and> sw_self (enforce_tomb_cap s) = sw_self s"
    using assms
  proof (induction s rule: enforce_tomb_cap.induct)
    case (1 s)
    show ?case
    proof (cases "sc_max_tombstones (sw_cfg s) < sw_tomb_count s \<and> tomb_victim (sw_self s) (sw_members s) None \<noteq> None")
      case False
      then have "enforce_tomb_cap s = s" by (subst enforce_tomb_cap.simps) (auto split: option.split)
      then show ?thesis using 1(2) by simp
    next
      case True
      then obtain j m where v: "tomb_victim (sw_self s) (sw_members s) None = Some (j, m)" by auto
      have m: "member_of s j = Some m" using tomb_victim_in [OF v] member_of_set [OF 1(2)] by auto
      have t: "j \<noteq> sw_self s" "is_tomb (mb_status m)"
        using tomb_victim_tomb [where victim = None and self = "sw_self s" and ms = "sw_members s"] v by simp_all
      let ?s = "(erase_member j s)\<lparr> sw_tx_pending := (if mb_tx_left m \<noteq> 0 then sw_tx_pending s - 1 else sw_tx_pending s),
          sw_tomb_count := sw_tomb_count s - 1, sw_ids_dirty := True \<rparr>"
      have e: "enforce_tomb_cap s = enforce_tomb_cap ?s" using True v by (subst enforce_tomb_cap.simps) simp
      have k: "keys_ok ?s" using keys_ok_erase [OF 1(2), of j] by (simp add: keys_ok_def)
      have vw: "table_view ?s i = (if i = j then None else table_view s i)"
        using member_of_erase [of j s i] by (simp add: table_view_def member_of_def)
      have "table_view s j = Some (mb_status m, mb_incarnation m, mb_verified m)" using m by (simp add: table_view_def entry_view_def)
      then show ?thesis using 1(1) [OF conjunct1 [OF True] v refl k] vw t unfolding e by (cases "i = j") auto
    qed
  qed
  then show "table_view (enforce_tomb_cap s) i = table_view s i \<or>
      table_view (enforce_tomb_cap s) i = None \<and> i \<noteq> sw_self s \<and> (\<exists>st k v. table_view s i = Some (st, k, v) \<and> is_tomb st)"
    "keys_ok (enforce_tomb_cap s)" "sw_self (enforce_tomb_cap s) = sw_self s" by blast+
qed

text \<open>What becomes of the entry an update is about.\<close>

definition created :: "update_src \<Rightarrow> member_status \<Rightarrow> swim \<Rightarrow> bool" where
  "created src st s \<longleftrightarrow> \<not> (is_tomb st \<and> src \<noteq> SrcLocal) \<and> st \<noteq> Suspect \<and>
     (first_hand src st \<or> length (sw_members s) < sc_max_live (sw_cfg s))"

definition outcome :: "int \<Rightarrow> update_src \<Rightarrow> node_id \<Rightarrow> u64 \<Rightarrow> member_status \<Rightarrow> swim \<Rightarrow> (member_status \<times> u64 \<times> bool) option" where
  "outcome now src n inc st s =
     (case member_of s n of
        None \<Rightarrow> if created src st s then Some (st, inc, first_hand src st) else None
      | Some cur \<Rightarrow>
          Some (case decide now (sc_suspicion_timeout (sw_cfg s)) src cur inc st of
                  None \<Rightarrow> (mb_status cur, mb_incarnation cur, mb_verified cur \<or> first_hand src st)
                | Some nx \<Rightarrow> (nx, inc, mb_verified cur \<or> first_hand src st)))"

lemma decide_verified: "decide now susp src (cur\<lparr> mb_verified := v \<rparr>) inc st = decide now susp src cur inc st"
  by (cases st) (simp_all add: decide_def)

lemma apply_unknown_view:
  assumes "keys_ok s" and "member_of s n = None"
  shows "\<exists>u. (apply_unknown now src n inc st s = u \<or> apply_unknown now src n inc st s = enforce_tomb_cap u) \<and> keys_ok u \<and> sw_self u = sw_self s \<and>
    (\<forall>i. table_view u i = (if i = n then outcome now src n inc st s else table_view s i))"
proof (cases "created src st s")
  case False
  then have "apply_unknown now src n inc st s = s" by (auto simp: apply_unknown_def created_def)
  then show ?thesis using assms False by (intro exI [of _ s]) (simp add: outcome_def table_view_def)
next
  case True
  let ?m0 = "member_init\<lparr> mb_cluster := sc_cluster_id (sw_cfg s), mb_incarnation := inc, mb_status := st, mb_verified := first_hand src st, mb_first_seen := now \<rparr>"
  obtain m1 p where x: "set_tx (if first_hand src st then piggyback_count s else 0) ?m0 (sw_tx_pending s) = (m1, p)" by fastforce
  define m3 where "m3 = (let m2 = if is_tomb st then m1\<lparr> mb_death := now, mb_last_probe := Some now \<rparr> else m1 in
      if n = sw_ctx_from s then m2\<lparr> mb_wire_version := sw_ctx_version s \<rparr> else m2)"
  define s1 where "s1 = (put_member n m3 s)\<lparr> sw_tx_pending := p, sw_ids_dirty := True,
      sw_tomb_count := (if is_tomb st then sw_tomb_count s + 1 else sw_tomb_count s) \<rparr>"
  have e: "apply_unknown now src n inc st s = enforce_tomb_cap (note_transition now n Alive (if is_tomb st then s1 else republish s1))"
    using True x by (auto simp: apply_unknown_def created_def Let_def s1_def m3_def)
  have v3: "entry_view m3 = (st, inc, first_hand src st)"
    using set_tx_spec [OF x] by (simp add: m3_def entry_view_def Let_def)
  have v1: "table_view s1 = table_view (put_member n m3 s)" by (rule table_view_cong) (simp add: s1_def)
  have k1: "keys_ok s1" using keys_ok_put [OF assms(1), of n m3] by (simp add: s1_def keys_ok_def)
  let ?u = "note_transition now n Alive (if is_tomb st then s1 else republish s1)"
  have "keys_ok (republish s1)" using k1 by (simp add: keys_ok_def republish_def)
  then have ku: "keys_ok ?u"
    using k1 note_transition_members [of now n Alive "if is_tomb st then s1 else republish s1"] keys_ok_put
    by (auto simp: keys_ok_def split: if_splits)
  have "\<forall>i. table_view ?u i = (if i = n then outcome now src n inc st s else table_view s i)"
    using True assms(2) by (simp add: v1 table_view_put v3 outcome_def)
  then show ?thesis using e ku by (intro exI [of _ ?u]) (simp add: s1_def)
qed

lemma keys_ok_cong: "sw_members t = sw_members s \<Longrightarrow> keys_ok t = keys_ok s"
  by (simp add: keys_ok_def)

lemma keys_ok_set_tx [simp]: "keys_ok s \<Longrightarrow> keys_ok (set_tx_of n v s)"
  using keys_ok_put [of s n] by (auto simp: set_tx_of_def keys_ok_def split: option.split prod.split)

lemma keys_ok_republish [simp]: "keys_ok (republish s) = keys_ok s"
  by (rule keys_ok_cong) (simp add: republish_def)

lemma keys_ok_note [simp]: "keys_ok s \<Longrightarrow> keys_ok (note_transition now n p s)"
  using note_transition_members [of now n p s] keys_ok_put [of s n] by (auto simp: keys_ok_def)

lemma apply_known_view:
  assumes "keys_ok s" and "member_of s n = Some cur0"
  shows "\<exists>u. (apply_known now src n inc st cur0 s = u \<or> apply_known now src n inc st cur0 s = enforce_tomb_cap u) \<and> keys_ok u \<and>
    sw_self u = sw_self s \<and> (\<forall>i. table_view u i = (if i = n then outcome now src n inc st s else table_view s i))"
proof -
  define cur where "cur = (if first_hand src st then cur0\<lparr> mb_verified := True \<rparr> else cur0)"
  have vc: "mb_verified cur = (mb_verified cur0 \<or> first_hand src st)" "mb_status cur = mb_status cur0" "mb_incarnation cur = mb_incarnation cur0"
    by (simp_all add: cur_def)
  have dc: "decide now susp src cur inc st = decide now susp src cur0 inc st" for susp
    using decide_verified [where cur = cur0 and v = True] by (simp add: cur_def)
  let ?s0 = "put_member n cur s"
  have k0: "keys_ok ?s0" using assms(1) by simp
  show ?thesis
  proof (cases "decide now (sc_suspicion_timeout (sw_cfg s)) src cur inc st")
    case None
    let ?u = "if \<not> mb_verified cur0 \<and> mb_verified cur
      then note_transition now n (mb_status cur) (republish (set_tx_of n (piggyback_count ?s0) ?s0)) else ?s0"
    have "apply_known now src n inc st cur0 s = ?u" using None by (simp add: apply_known_def Let_def flip: cur_def)
    moreover have "keys_ok ?u" "sw_self ?u = sw_self s" using k0 by simp_all
    moreover have "\<forall>i. table_view ?u i = (if i = n then outcome now src n inc st s else table_view s i)"
      using assms(2) None by (simp add: table_view_put outcome_def dc [symmetric] entry_view_def vc)
    ultimately show ?thesis by blast
  next
    case (Some nx)
    let ?wl = "\<not> is_tomb (mb_status cur0)" and ?nl = "\<not> is_tomb nx"
    obtain cur1 p where x: "(if mb_incarnation cur \<noteq> inc \<or> mb_status cur \<noteq> nx
        then set_tx (piggyback_count ?s0) cur (sw_tx_pending ?s0) else (cur, sw_tx_pending ?s0)) = (cur1, p)" by fastforce
    have c1: "mb_verified cur1 = mb_verified cur"
      using x set_tx_spec [of "piggyback_count ?s0" cur "sw_tx_pending ?s0" cur1 p] by (auto split: if_splits)
    define cur2 where "cur2 = cur1\<lparr> mb_incarnation := inc, mb_status := nx, mb_verify_pending := False \<rparr>"
    define cur3 where "cur3 = (if nx = Suspect
        then cur2\<lparr> mb_suspect_deadline := now + sc_suspicion_timeout (sw_cfg s), mb_verify_pending := (src = SrcGossip \<or> src = SrcJoinSnapshot) \<rparr>
        else cur2)"
    define cur4 where "cur4 = (if ?nl then cur3 else cur3\<lparr> mb_death := now, mb_last_probe := (if ?wl then Some now else mb_last_probe cur3) \<rparr>)"
    have v4: "entry_view cur4 = (nx, inc, mb_verified cur)" by (simp add: entry_view_def cur4_def cur3_def cur2_def c1)
    define c where "c = (if ?wl \<and> \<not> ?nl then sw_tomb_count ?s0 + 1 else if \<not> ?wl \<and> ?nl then sw_tomb_count ?s0 - 1 else sw_tomb_count ?s0)"
    define s1 where "s1 = (put_member n cur4 ?s0)\<lparr> sw_tx_pending := p, sw_tomb_count := c \<rparr>"
    define s2 where "s2 = (if ?wl \<noteq> ?nl then republish s1 else s1)"
    define s3 where "s3 = (if \<not> mb_verified cur0 \<and> mb_verified cur then republish (set_tx_of n (piggyback_count s2) s2) else s2)"
    have e: "apply_known now src n inc st cur0 s = enforce_tomb_cap (note_transition now n (mb_status cur) s3)"
      unfolding apply_known_def Let_def cur_def [symmetric] Some option.case x prod.case s3_def s2_def s1_def cur4_def cur3_def cur2_def c_def
      by simp
    have k1: "keys_ok s1" using keys_ok_put [OF k0, of n cur4] keys_ok_cong [of s1 "put_member n cur4 ?s0"] by (simp add: s1_def)
    have tv: "table_view s1 = table_view (put_member n cur4 ?s0)" by (rule table_view_cong) (simp add: s1_def)
    have "table_view s3 = table_view s1" "keys_ok s3" "sw_self s3 = sw_self s"
      using k1 by (simp_all add: s3_def s2_def) (simp add: s1_def)
    moreover have "outcome now src n inc st s = Some (nx, inc, mb_verified cur)"
      using assms(2) Some by (simp add: outcome_def dc [symmetric] vc)
    ultimately show ?thesis using e v4 tv
      by (intro exI [of _ "note_transition now n (mb_status cur) s3"]) (auto simp: table_view_put)
  qed
qed

text \<open>
  One update of another node: its own entry becomes the outcome, the others stay, and the cap may erase
  tombstones.
\<close>

definition refused_update :: "update_src \<Rightarrow> node_id \<Rightarrow> member_status \<Rightarrow> swim \<Rightarrow> bool" where
  "refused_update src n st s \<longleftrightarrow> is_client_node n \<or> \<not> is_tomb st \<and> denied_by (sw_admission s) n \<or>
     (st = Suspect \<or> st = Dead) \<and> src \<noteq> SrcLocal \<and> sl_contains n (sw_leases s)"

definition expected :: "int \<Rightarrow> update_src \<Rightarrow> node_id \<Rightarrow> u64 \<Rightarrow> member_status \<Rightarrow> swim \<Rightarrow> u64 \<Rightarrow> (member_status \<times> u64 \<times> bool) option" where
  "expected now src n inc st s i =
     (if i = n \<and> \<not> refused_update src n st s then outcome now src n inc st s else table_view s i)"

lemma apply_update_view:
  assumes "keys_ok s" and "n \<noteq> sw_self s" and t_def: "t = apply_update now src n inc st s"
  shows "table_view t i = expected now src n inc st s i \<or>
    table_view t i = None \<and> i \<noteq> sw_self s \<and> (\<exists>st' k v. expected now src n inc st s i = Some (st', k, v) \<and> is_tomb st')"
proof (cases "refused_update src n st s")
  case True
  then have "sw_members t = sw_members s" using assms(2) unfolding t_def refused_update_def apply_update_def by auto
  then show ?thesis using True table_view_cong [of t s] by (simp add: expected_def)
next
  case False
  have "\<exists>u. (t = u \<or> t = enforce_tomb_cap u) \<and> keys_ok u \<and> sw_self u = sw_self s \<and> (\<forall>i. table_view u i = expected now src n inc st s i)"
  proof (cases "member_of s n")
    case None
    then have "t = apply_unknown now src n inc st s" using False assms(2) unfolding t_def apply_update_def refused_update_def by auto
    then show ?thesis using apply_unknown_view [OF assms(1) None, of now src inc st] False by (simp add: expected_def)
  next
    case (Some cur)
    then have "t = apply_known now src n inc st cur s" using False assms(2) unfolding t_def apply_update_def refused_update_def by auto
    then show ?thesis using apply_known_view [OF assms(1) Some, of now src inc st] False by (simp add: expected_def)
  qed
  then obtain u where u: "t = u \<or> t = enforce_tomb_cap u" "keys_ok u" "sw_self u = sw_self s" "\<forall>i. table_view u i = expected now src n inc st s i" by blast
  then show ?thesis using enforce_view(1) [OF u(2), of i] by auto
qed

section \<open>The rules\<close>

lemma apply_self_view:
  assumes "member_of s (sw_self s) = Some me"
  shows "table_view (apply_self inc st s) i = table_view s i \<or>
    i = sw_self s \<and> table_view (apply_self inc st s) i = Some (Alive, inc + 1, mb_verified me) \<and> sw_self_inc s \<le> inc"
proof (cases "sw_self_left s \<or> st = Left \<or> st = Alive \<or> \<not> sw_self_inc s \<le> inc")
  case True
  then show ?thesis by (auto simp: apply_self_def)
next
  case False
  let ?u = "s\<lparr> sw_self_inc := inc + 1 \<rparr>"
  have "table_view ?u = table_view s" by (rule table_view_cong) simp
  then show ?thesis using False assms by (simp add: apply_self_def table_view_put entry_view_def)
qed

lemma outcome_cases:
  assumes "outcome now src n inc st s = Some (st', k', v')"
  shows "table_view s n = None \<and> st' = st \<and> k' = inc \<and> v' = first_hand src st \<and> (is_tomb st \<longrightarrow> src = SrcLocal) \<or>
    (\<exists>st0 k v. table_view s n = Some (st0, k, v) \<and> v' = (v \<or> first_hand src st) \<and>
       (st' = st0 \<and> k' = k \<or>
        k' = inc \<and> k \<le> inc \<and> (st' = Dead \<longrightarrow> st = Dead \<and> src = SrcLocal) \<and> (st' = Left \<longrightarrow> st = Left)))"
proof (cases "member_of s n")
  case None
  with assms show ?thesis by (auto simp: outcome_def table_view_def created_def split: if_splits)
next
  case (Some cur)
  show ?thesis
  proof (cases "decide now (sc_suspicion_timeout (sw_cfg s)) src cur inc st")
    case None
    with assms Some show ?thesis by (simp add: outcome_def table_view_def entry_view_def)
  next
    fix nx
    assume d: "decide now (sc_suspicion_timeout (sw_cfg s)) src cur inc st = Some nx"
    from decide_status [OF d] assms Some d show ?thesis by (auto simp: outcome_def table_view_def entry_view_def)
  qed
qed

lemma table_ok_self: "swim_inv s \<Longrightarrow> keys_ok s \<and> (\<exists>me. member_of s (sw_self s) = Some me \<and> mb_verified me)"
  by (auto simp: swim_inv_def table_ok_def self_entry_def)

lemma apply_update_sw_self [simp]:
  assumes "keys_ok s"
  shows "sw_self (apply_update now src n inc st s) = sw_self s"
proof -
  have "sw_self (apply_self inc st s) = sw_self s" by (simp add: apply_self_def Let_def)
  moreover have "sw_self (apply_unknown now src n inc st s) = sw_self s" if "member_of s n = None"
    using apply_unknown_view [OF assms that, of now src inc st] enforce_view(3) by auto
  moreover have "sw_self (apply_known now src n inc st cur s) = sw_self s" if "member_of s n = Some cur" for cur
    using apply_known_view [OF assms that, of now src inc st] enforce_view(3) by auto
  ultimately show ?thesis unfolding apply_update_def by (auto split: option.split)
qed

text \<open>Everything that one update can do to the entry of any node.\<close>

lemma apply_update_entry:
  assumes inv: "swim_inv s" and t: "table_view (apply_update now src n inc st s) i = Some (st', k', v')"
  obtains (same) "table_view s i = Some (st', k', v')"
    | (own) "i = sw_self s" "n = sw_self s" "st' = Alive" "k' = inc + 1" "sw_self_inc s \<le> inc" "v'"
    | (new) "i = n" "i \<noteq> sw_self s" "table_view s i = None" "st' = st" "k' = inc" "v' = first_hand src st" "is_tomb st \<longrightarrow> src = SrcLocal"
    | (old) st0 k v where "i = n" "i \<noteq> sw_self s" "table_view s i = Some (st0, k, v)" "v' = (v \<or> first_hand src st)" "st' = st0" "k' = k"
    | (taken) st0 k v where "i = n" "i \<noteq> sw_self s" "table_view s i = Some (st0, k, v)" "v' = (v \<or> first_hand src st)" "k' = inc" "k \<le> inc"
        "st' = Dead \<longrightarrow> st = Dead \<and> src = SrcLocal" "st' = Left \<longrightarrow> st = Left"
proof (cases "n = sw_self s")
  case True
  obtain me where me: "member_of s (sw_self s) = Some me" "mb_verified me" using table_ok_self [OF inv] by blast
  have "apply_update now src n inc st s = (if is_client_node n then s else apply_self inc st s)" using True by (simp add: apply_update_def)
  then show ?thesis using apply_self_view [OF me(1), of inc st i] t True me(2) same own by (auto split: if_splits)
next
  case False
  have k: "keys_ok s" using table_ok_self [OF inv] by blast
  from apply_update_view [OF k False refl, of now src inc st i] t
  have e: "expected now src n inc st s i = Some (st', k', v')" by auto
  show ?thesis
  proof (cases "i = n \<and> \<not> refused_update src n st s")
    case True
    with e have "outcome now src n inc st s = Some (st', k', v')" by (simp add: expected_def)
    from outcome_cases [OF this] True \<open>n \<noteq> sw_self s\<close> show ?thesis using new old taken by auto
  next
    case no: False
    with e have "table_view s i = Some (st', k', v')" by (auto simp: expected_def)
    then show ?thesis by (rule same)
  qed
qed

lemma no_second_hand_death:
  assumes "swim_inv s" and "src \<noteq> SrcLocal" and "table_view (apply_update now src n inc st s) i = Some (Dead, k', v')"
  shows "\<exists>k v. table_view s i = Some (Dead, k, v)"
  using assms(2) by (cases rule: apply_update_entry [OF assms(1,3)]) (auto simp: is_tomb_def)

lemma left_only_announced:
  assumes "swim_inv s" and "table_view (apply_update now src n inc st s) i = Some (Left, k', v')"
  shows "(\<exists>k v. table_view s i = Some (Left, k, v)) \<or> i = n \<and> st = Left"
  by (cases rule: apply_update_entry [OF assms]) auto

lemma incarnation_monotone:
  assumes "swim_inv s" and "i \<noteq> sw_self s" and "table_view s i = Some (st0, k, v)"
    and "table_view (apply_update now src n inc st s) i = Some (st', k', v')"
  shows "k \<le> k'"
  using assms(2,3) by (cases rule: apply_update_entry [OF assms(1,4)]) auto

lemma verified_first_hand:
  assumes "swim_inv s" and "table_view (apply_update now src n inc st s) i = Some (st', k', True)"
  shows "(\<exists>st0 k. table_view s i = Some (st0, k, True)) \<or> i = sw_self s \<or> i = n \<and> first_hand src st"
  by (cases rule: apply_update_entry [OF assms]) auto

lemma live_not_erased:
  assumes inv: "swim_inv s" and s: "table_view s i = Some (st0, k, v)" and "\<not> is_tomb st0" and st: "\<not> is_tomb st"
  shows "\<exists>st' k' v'. table_view (apply_update now src n inc st s) i = Some (st', k', v') \<and> \<not> is_tomb st'"
proof (cases "n = sw_self s")
  case True
  obtain me where me: "member_of s (sw_self s) = Some me" using table_ok_self [OF inv] by blast
  have "apply_update now src n inc st s = (if is_client_node n then s else apply_self inc st s)" using True by (simp add: apply_update_def)
  then show ?thesis using apply_self_view [OF me, of inc st i] s assms(3) by (auto simp: is_tomb_def)
next
  case False
  have k: "keys_ok s" using table_ok_self [OF inv] by blast
  have "\<exists>st' k' v'. expected now src n inc st s i = Some (st', k', v') \<and> \<not> is_tomb st'"
  proof (cases "i = n \<and> \<not> refused_update src n st s")
    case True
    with s obtain cur where "member_of s n = Some cur" by (auto simp: table_view_def)
    then obtain st' k' v' where o: "outcome now src n inc st s = Some (st', k', v')"
      by (cases "outcome now src n inc st s") (simp add: outcome_def, metis prod_cases3)
    from outcome_cases [OF o] s True assms(3) st have "\<not> is_tomb st'" by (auto simp: is_tomb_def)
    with o True show ?thesis by (simp add: expected_def)
  next
    case no: False
    then show ?thesis using s assms(3) by (auto simp: expected_def)
  qed
  then show ?thesis using apply_update_view [OF k False refl, of now src inc st i] by auto
qed

end
