(* ===== verification/Swim_Protocol.thy ===== *)
theory Swim_Protocol
  imports Swim_Rules
begin

text \<open>
  The protocol of \<open>SwimMembership\<close> (\<open>include/quark/core/cluster.hpp\<close>): the gossip digest, outbound frames,
  the probe state machine, the tick, and the handling of inbound frames.  A send hands the message to the
  transport, which delivers it later (the transport's threaded mode); the messages sent and the calls of the
  hooks are the effects an operation returns, in order.  The values the pull hooks return are arguments.
\<close>

section \<open>Effects and hooks\<close>

datatype swim_effect =
    SendControl node_id control_msg
  | MergeRevocations "bytes list"
  | MergeSigned "bytes list"
  | MergeCapabilities "capability_entry list"
  | MergePressure "pressure_entry list"
  | MarkCongested node_id u64
  | SweepHook int
  | DataFrame message_frame

text \<open>The hooks that are set: what the pull functions return now, and which merge functions there are.\<close>

record swim_hooks =
  hk_reachable :: "node_id \<Rightarrow> bool"
  hk_revocations :: "(nat \<Rightarrow> bytes list) option"
  hk_signed :: "(nat \<Rightarrow> bytes list) option"
  hk_capabilities :: "(node_id \<Rightarrow> u64 \<Rightarrow> u64 \<Rightarrow> capability_entry list) option"
  hk_pressure :: "u64 option"
  hk_merge_revocations :: bool
  hk_merge_signed :: bool
  hk_merge_capabilities :: bool
  hk_merge_pressure :: bool
  hk_sweep :: bool
  hk_data :: bool

section \<open>The gossip digest\<close>

definition status_byte :: "member_status \<Rightarrow> u8" where
  "status_byte st = of_nat (status_code st)"

definition update_of :: "u64 \<Rightarrow> member \<Rightarrow> member_update" where
  "update_of n m = \<lparr> mu_node = n, mu_incarnation = mb_incarnation m, mu_status = status_byte (mb_status m) \<rparr>"

text \<open>\<open>push\<close> of \<open>fill_digest\<close>: the entry is sent and has one frame less to ride on.\<close>

definition push_entry :: "u64 \<Rightarrow> member_update list \<times> swim \<Rightarrow> member_update list \<times> swim" where
  "push_entry n = (\<lambda>(out, s).
     case member_of s n of None \<Rightarrow> (out, s)
     | Some m \<Rightarrow> (out @ [update_of n m], if mb_tx_left m \<noteq> 0 then set_tx_of n (mb_tx_left m - 1) s else s))"

text \<open>One piggyback pass over the table: the Suspect entries first, then the others.\<close>

fun piggyback_pass :: "bool \<Rightarrow> node_id \<Rightarrow> nat \<Rightarrow> u64 list \<Rightarrow> member_update list \<times> swim \<Rightarrow> member_update list \<times> swim" where
  "piggyback_pass suspects dest room [] os = os"
| "piggyback_pass suspects dest room (i # is) os =
     (if room \<le> length (fst os) then os
      else piggyback_pass suspects dest room is
        (case member_of (snd os) i of None \<Rightarrow> os
         | Some m \<Rightarrow>
             if i = dest \<or> i = sw_self (snd os) \<or> mb_tx_left m = 0 then os
             else if \<not> mb_verified m then os
             else if (mb_status m = Suspect) \<noteq> suspects then os
             else push_entry i os))"

definition piggyback_passes :: "node_id \<Rightarrow> nat \<Rightarrow> member_update list \<times> swim \<Rightarrow> member_update list \<times> swim" where
  "piggyback_passes dest room os =
     (let ids = map fst (sw_members (snd os));
          pass = (\<lambda>b os. if 0 < sw_tx_pending (snd os) \<and> length (fst os) < room then piggyback_pass b dest room ids os else os)
      in pass False (pass True os))"

definition refresh_sorted_ids :: "swim \<Rightarrow> swim" where
  "refresh_sorted_ids s =
     (if \<not> sw_ids_dirty s then s
      else s\<lparr> sw_sorted := sort (map fst (filter (\<lambda>(i, m). \<not> is_tomb (mb_status m) \<and> (mb_verified m \<or> i = sw_self s)) (sw_members s))),
             sw_ids_dirty := False \<rparr>)"

text \<open>
  The rotating cursor.  The source dereferences the table's entry of every identifier in the sorted list;
  an entry that is no longer in the table is skipped here.
\<close>

fun cursor_pass :: "node_id \<Rightarrow> nat \<Rightarrow> nat \<Rightarrow> u64 list \<Rightarrow> member_update list \<times> swim \<Rightarrow> member_update list \<times> swim" where
  "cursor_pass dest cap fixed [] os = os"
| "cursor_pass dest cap fixed (i # is) (out, s) =
     (if cap \<le> length out then (out, s)
      else cursor_pass dest cap fixed is
        (if i = dest \<or> i = sw_self s then (out, s)
         else if i \<in> set (map mu_node (drop fixed out)) then (out, s)
         else case member_of s i of None \<Rightarrow> (out, s)
           | Some m \<Rightarrow> if \<not> mb_verified m then (out, s) else (out @ [update_of i m], s\<lparr> sw_cursor := i \<rparr>)))"

definition fill_digest :: "node_id \<Rightarrow> swim \<Rightarrow> member_update list \<times> swim" where
  "fill_digest dest s =
     (let cap = sc_max_gossip_updates (sw_cfg s) in
      if cap = 0 then ([], s)
      else
        let (out1, s1) = (if dest \<noteq> sw_self s then push_entry dest ([], s) else ([], s));
            (out2, s2) = (if length out1 < cap then push_entry (sw_self s1) (out1, s1) else (out1, s1));
            fixed = length out2;
            others = length (sw_members s2) - fixed;
            reserved = min others (if 2 < cap then (cap - 1) div 2 else 0);
            (out3, s3) = piggyback_passes dest (cap - reserved) (out2, s2)
        in if cap \<le> length out3 then (out3, s3)
           else
             let s4 = refresh_sorted_ids s3;
                 start = length (takeWhile (\<lambda>i. i \<le> sw_cursor s4) (sw_sorted s4))
             in cursor_pass dest cap fixed (rotate start (sw_sorted s4)) (out3, s4))"

section \<open>Sending\<close>

definition send_control :: "swim_hooks \<Rightarrow> node_id \<Rightarrow> control_msg \<Rightarrow> swim \<Rightarrow> swim_effect list \<times> swim" where
  "send_control hk dest m s =
     (if \<not> sw_online s then ([], s)
      else if \<not> hk_reachable hk dest then ([], s)
      else
        let (updates, s1) = fill_digest dest s;
            m1 = m\<lparr> cm_cluster := sc_cluster_id (sw_cfg s), cm_from := sw_self s, cm_from_incarnation := sw_self_inc s,
                   cm_wire_version := sc_wire_version (sw_cfg s), cm_updates := updates \<rparr>;
            m2 = (case hk_revocations hk of None \<Rightarrow> m1
                  | Some f \<Rightarrow> if sc_authority_only (sw_cfg s) then m1 else m1\<lparr> cm_revocations := f (sc_max_gossip_updates (sw_cfg s)) \<rparr>);
            m3 = (case hk_signed hk of None \<Rightarrow> m2
                  | Some f \<Rightarrow> m2\<lparr> cm_signed_revocations := f (min (sc_max_signed (sw_cfg s)) kMaxSignedRevocationsPerFrame) \<rparr>);
            m4 = (case hk_capabilities hk of None \<Rightarrow> m3
                  | Some f \<Rightarrow> m3\<lparr> cm_capabilities := f (sw_self s) (sw_self_inc s) (sc_max_capability_bytes (sw_cfg s)) \<rparr>);
            m5 = (case hk_pressure hk of None \<Rightarrow> m4
                  | Some t \<Rightarrow> m4\<lparr> cm_pressure := [\<lparr> pe_node = sw_self s, pe_incarnation = sw_self_inc s, pe_resident_total = t \<rparr>] \<rparr>)
        in ([SendControl dest m5], s1))"

text \<open>The frame a sent message travels in.\<close>

definition control_frame :: "node_id \<Rightarrow> node_id \<Rightarrow> control_msg \<Rightarrow> message_frame" where
  "control_frame from dest m =
     \<lparr> mf_from = from, mf_to = dest, mf_target = ActorId 0 0, mf_msg_type = 0, mf_mode = 1, mf_deadline_ns = 0,
       mf_trace_id = 0, mf_payload = encode_control m, mf_kind = kind_control, mf_principal = \<lparr> subject = 0, rights = 0 \<rparr>,
       mf_source_address = no_peer_address, mf_inbound_token = 0, mf_admission_generation = 0 \<rparr>"

fun send_all :: "swim_hooks \<Rightarrow> (node_id \<times> control_msg) list \<Rightarrow> swim \<Rightarrow> swim_effect list \<times> swim" where
  "send_all hk [] s = ([], s)"
| "send_all hk ((dest, m) # ms) s =
     (case send_control hk dest m s of (e, s1) \<Rightarrow> (case send_all hk ms s1 of (es, s2) \<Rightarrow> (e @ es, s2)))"

definition live_peers_excluding :: "node_id \<Rightarrow> swim \<Rightarrow> node_id list" where
  "live_peers_excluding excl s =
     sort (map fst (filter (\<lambda>(i, m). i \<noteq> sw_self s \<and> i \<noteq> excl \<and> \<not> is_tomb (mb_status m)) (sw_members s)))"

definition awake_peers_excluding :: "node_id \<Rightarrow> swim \<Rightarrow> node_id list" where
  "awake_peers_excluding excl s = filter (\<lambda>n. \<not> sl_contains n (sw_leases s)) (live_peers_excluding excl s)"

section \<open>Probing\<close>

text \<open>The round order: the seeded Fisher--Yates shuffle.\<close>

fun shuffle :: "nat \<Rightarrow> u64 \<Rightarrow> u64 list \<Rightarrow> u64 list" where
  "shuffle i r xs =
     (if i \<le> 1 then xs
      else
        let r' = splitmix64 r; j = unat (r' mod of_nat i); a = xs ! (i - 1); b = xs ! j
        in shuffle (i - 1) r' (xs[i - 1 := b, j := a]))"

declare shuffle.simps [simp del]

definition rebuild_order :: "swim \<Rightarrow> swim" where
  "rebuild_order s =
     (let peers = live_peers_excluding (sw_self s) s
      in s\<lparr> sw_probe_order := shuffle (length peers) (mix3 (sc_seed (sw_cfg s)) (sw_self s) (sw_probe_round s)) peers,
            sw_probe_round := sw_probe_round s + 1, sw_probe_idx := 0 \<rparr>)"

definition probeable :: "swim \<Rightarrow> u64 \<Rightarrow> bool" where
  "probeable s n \<longleftrightarrow>
     (case member_of s n of None \<Rightarrow> False | Some m \<Rightarrow> \<not> is_tomb (mb_status m) \<and> \<not> sl_contains n (sw_leases s))"

text \<open>The inner loop: the next probeable entry of the order and the index behind it.\<close>

fun scan_order :: "swim \<Rightarrow> u64 list \<Rightarrow> nat \<Rightarrow> node_id option \<times> nat" where
  "scan_order s [] idx = (None, idx)"
| "scan_order s (n # ns) idx = (if probeable s n then (Some n, Suc idx) else scan_order s ns (Suc idx))"

definition probe_attempt :: "swim \<Rightarrow> node_id option \<times> swim" where
  "probe_attempt s =
     (let s1 = (if length (sw_probe_order s) \<le> sw_probe_idx s then rebuild_order s else s)
      in case scan_order s1 (drop (sw_probe_idx s1) (sw_probe_order s1)) (sw_probe_idx s1) of
        (t, idx) \<Rightarrow> (t, s1\<lparr> sw_probe_idx := idx \<rparr>))"

definition next_probe_target :: "swim \<Rightarrow> node_id option \<times> swim" where
  "next_probe_target s = (case probe_attempt s of (Some n, s1) \<Rightarrow> (Some n, s1) | (None, s1) \<Rightarrow> probe_attempt s1)"

definition ping_msg :: "u64 \<Rightarrow> control_msg" where
  "ping_msg sq = control_msg_init\<lparr> cm_kind := ck_ping, cm_seq := sq \<rparr>"

definition start_probe :: "swim_hooks \<Rightarrow> int \<Rightarrow> swim \<Rightarrow> swim_effect list \<times> swim" where
  "start_probe hk now s =
     (if pb_active (sw_probe s) then ([], s)
      else case next_probe_target s of
        (None, s1) \<Rightarrow> ([], s1)
      | (Some t, s1) \<Rightarrow>
          let sq = sw_probe_seq s1 + 1
          in send_control hk t (ping_msg sq)
               (s1\<lparr> sw_probe_seq := sq,
                    sw_probe := \<lparr> pb_active = True, pb_phase = DirectPhase, pb_target = t,
                      pb_deadline = now + sc_ack_timeout (sw_cfg s1), pb_seq = sq, pb_acked = False \<rparr> \<rparr>))"

definition indirect_requests :: "node_id \<Rightarrow> u64 \<Rightarrow> swim \<Rightarrow> (node_id \<times> control_msg) list" where
  "indirect_requests target sq s =
     (let relays = awake_peers_excluding target s; r = mix3 (sw_self s) sq 0x51D3; n = length relays in
      map (\<lambda>i. (relays ! unat ((r + of_nat i) mod of_nat n), control_msg_init\<lparr> cm_kind := ck_ping_req, cm_subject := target, cm_seq := sq \<rparr>))
        [0..<min n (sc_indirect_k (sw_cfg s))])"

definition drive_probe :: "swim_hooks \<Rightarrow> int \<Rightarrow> swim \<Rightarrow> swim_effect list \<times> swim" where
  "drive_probe hk now s =
     (let p = sw_probe s; idle = s\<lparr> sw_probe := p\<lparr> pb_active := False \<rparr> \<rparr> in
      if \<not> pb_active p then ([], s)
      else if pb_acked p then ([], idle)
      else if \<not> probeable s (pb_target p) then ([], idle)
      else if now < pb_deadline p then ([], s)
      else if pb_phase p = DirectPhase then
        send_all hk (indirect_requests (pb_target p) (pb_seq p) s)
          (s\<lparr> sw_probe := p\<lparr> pb_phase := IndirectPhase, pb_deadline := now + indirect_ns (sw_cfg s) \<rparr> \<rparr>)
      else
        let s1 = apply_update now SrcLocal (pb_target p) (incarnation_of s (pb_target p)) Suspect s
        in ([], s1\<lparr> sw_probe := (sw_probe s1)\<lparr> pb_active := False \<rparr> \<rparr>))"

end
