(* ===== verification/Swim_Handlers.thy ===== *)
theory Swim_Handlers
  imports Swim_Protocol
begin

text \<open>
  The tick and the frame handler of \<open>SwimMembership\<close> (\<open>include/quark/core/cluster.hpp\<close>), with suspension,
  resumption and the other operations that send.  An operation returns the effects, the delivered events where
  it flushes them, and the state.  A frame whose kind byte is none of the ten is merged and then ignored, as
  the \<open>switch\<close> without a default does.
\<close>

section \<open>Periodic work\<close>

text \<open>\<open>send_verifies\<close>: at most the budget of Suspects known at second hand; the flag of every visited entry is reset.\<close>

fun verify_scan :: "nat \<Rightarrow> u64 list \<Rightarrow> node_id list \<times> swim \<Rightarrow> node_id list \<times> swim" where
  "verify_scan budget [] ts = ts"
| "verify_scan budget (i # is) (out, s) =
     (if budget \<le> length out then (out, s)
      else verify_scan budget is
        (case member_of s i of None \<Rightarrow> (out, s)
         | Some m \<Rightarrow>
             if \<not> mb_verify_pending m then (out, s)
             else (if mb_status m = Suspect \<and> i \<noteq> sw_self s then out @ [i] else out,
                   put_member i (m\<lparr> mb_verify_pending := False \<rparr>) s)))"

definition send_verifies :: "swim_hooks \<Rightarrow> swim \<Rightarrow> swim_effect list \<times> swim" where
  "send_verifies hk s =
     (if sc_verify_budget (sw_cfg s) = 0 then ([], s)
      else case verify_scan (sc_verify_budget (sw_cfg s)) (map fst (sw_members s)) ([], s) of
        (out, s1) \<Rightarrow> send_all hk (map (\<lambda>t. (t, ping_msg 0)) out) s1)"

definition probe_time :: "member \<Rightarrow> int" where
  "probe_time m = (case mb_last_probe m of None \<Rightarrow> - (2 ^ 63) | Some t \<Rightarrow> t)"

definition tomb_candidate :: "int \<Rightarrow> swim \<Rightarrow> u64 \<times> member \<Rightarrow> bool" where
  "tomb_candidate now s e \<longleftrightarrow>
     mb_status (snd e) = Dead \<and> fst e \<noteq> sw_self s \<and>
     (case mb_last_probe (snd e) of None \<Rightarrow> True | Some t \<Rightarrow> sc_tomb_probe_interval (sw_cfg s) \<le> now - t)"

text \<open>Ordered by the time of the last probe, then by identifier (the sorts are stable).\<close>

definition tomb_targets :: "int \<Rightarrow> swim \<Rightarrow> node_id list" where
  "tomb_targets now s =
     take (sc_tomb_probe_budget (sw_cfg s))
       (map fst (sort_key (\<lambda>e. probe_time (snd e)) (sort_key fst (filter (tomb_candidate now s) (sw_members s)))))"

definition stamp_probe :: "int \<Rightarrow> u64 \<Rightarrow> swim \<Rightarrow> swim" where
  "stamp_probe now n s =
     (case member_of s n of None \<Rightarrow> s | Some m \<Rightarrow> put_member n (m\<lparr> mb_last_probe := Some now \<rparr>) s)"

definition probe_tombstones :: "swim_hooks \<Rightarrow> int \<Rightarrow> swim \<Rightarrow> swim_effect list \<times> swim" where
  "probe_tombstones hk now s =
     (if sw_tomb_count s = 0 \<or> sc_tomb_probe_budget (sw_cfg s) = 0 then ([], s)
      else
        let ts = tomb_targets now s
        in send_all hk (map (\<lambda>t. (t, ping_msg 0)) ts) (fold (stamp_probe now) ts s))"

definition gossip_msg :: control_msg where
  "gossip_msg = control_msg_init\<lparr> cm_kind := ck_gossip \<rparr>"

definition gossip_targets :: "int \<Rightarrow> swim \<Rightarrow> node_id list" where
  "gossip_targets now s =
     (let peers = awake_peers_excluding (sw_self s) s; r = mix3 (sw_self s) (of_int now) 0xF00D; n = length peers in
      map (\<lambda>i. peers ! unat ((r + of_nat i) mod of_nat n)) [0..<min n (sc_gossip_fanout (sw_cfg s))])"

definition gossip_round :: "swim_hooks \<Rightarrow> int \<Rightarrow> swim \<Rightarrow> swim_effect list \<times> swim" where
  "gossip_round hk now s = send_all hk (map (\<lambda>p. (p, gossip_msg)) (gossip_targets now s)) s"

definition broadcast_congested :: "swim_hooks \<Rightarrow> int \<Rightarrow> swim \<Rightarrow> swim_effect list \<times> swim" where
  "broadcast_congested hk remaining s =
     send_all hk (map (\<lambda>p. (p, control_msg_init\<lparr> cm_kind := ck_congested, cm_congestion_remaining_ns := of_int remaining \<rparr>))
       (live_peers_excluding (sw_self s) s)) s"

definition monitor_congestion :: "swim_hooks \<Rightarrow> int \<Rightarrow> swim \<Rightarrow> swim_effect list \<times> swim" where
  "monitor_congestion hk now s =
     (case hk_pressure hk of None \<Rightarrow> ([], s)
      | Some pressure \<Rightarrow>
          if sc_high_watermark (sw_cfg s) \<le> pressure then
            if \<not> sw_congested_edge s \<or> sw_next_refresh s \<le> now
            then broadcast_congested hk (sc_congestion_window (sw_cfg s))
                   (s\<lparr> sw_congested_edge := True, sw_next_refresh := now + sc_congestion_refresh (sw_cfg s) \<rparr>)
            else ([], s)
          else if pressure < sc_low_watermark (sw_cfg s) then ([], s\<lparr> sw_congested_edge := False \<rparr>)
          else ([], s))"

section \<open>Suspension leases\<close>

definition expire_one :: "int \<Rightarrow> u64 \<Rightarrow> swim \<Rightarrow> swim" where
  "expire_one now n s =
     (case member_of s n of None \<Rightarrow> s
      | Some m \<Rightarrow>
          if is_tomb (mb_status m) then s
          else apply_update now SrcLocal n (mb_incarnation m) Suspect
                 (put_member n (m\<lparr> mb_lease_expired_inc := mb_incarnation m \<rparr>) s))"

definition expire_suspend_leases :: "int \<Rightarrow> swim \<Rightarrow> swim" where
  "expire_suspend_leases now s =
     (if sw_leases s = [] then s
      else case sl_expire now (sw_leases s) of (ids, l) \<Rightarrow> fold (expire_one now) ids (s\<lparr> sw_leases := l \<rparr>))"

definition forgive_local_state :: "int \<Rightarrow> swim \<Rightarrow> swim" where
  "forgive_local_state now s =
     s\<lparr> sw_probe := probe_init,
        sw_members := map (\<lambda>(i, m). (i, if mb_status m = Suspect \<and> i \<noteq> sw_self s
                        then m\<lparr> mb_suspect_deadline := now + sc_suspicion_timeout (sw_cfg s) \<rparr> else m)) (sw_members s) \<rparr>"

definition reason_of :: "u64 \<Rightarrow> suspend_reason" where
  "reason_of c = ucast (min c (ucast sr_other))"

definition suspend :: "swim_hooks \<Rightarrow> suspend_reason \<Rightarrow> int \<Rightarrow> swim \<Rightarrow> swim_effect list \<times> swim" where
  "suspend hk why lease_ns s =
     (if sw_suspended s \<or> sw_self_left s \<or> \<not> sw_online s then ([], s)
      else
        let lease = (if lease_ns \<le> 0 then default_lease_ns (sc_mobile (sw_cfg s)) else lease_ns);
            m = control_msg_init\<lparr> cm_kind := ck_suspend, cm_seq := of_int lease, cm_subject_incarnation := ucast why \<rparr>
        in case send_all hk (map (\<lambda>p. (p, m)) (live_peers_excluding (sw_self s) s)) s of
             (es, s1) \<Rightarrow> (es, s1\<lparr> sw_suspended := True \<rparr>))"

text \<open>The incarnation of the node itself, in the counter and in its entry.\<close>

definition set_self_inc :: "u64 \<Rightarrow> swim \<Rightarrow> swim" where
  "set_self_inc inc s =
     (let me = (case member_of s (sw_self s) of None \<Rightarrow> member_init | Some m \<Rightarrow> m)
      in put_member (sw_self s) (me\<lparr> mb_incarnation := inc \<rparr>) (s\<lparr> sw_self_inc := inc \<rparr>))"

definition resume :: "swim_hooks \<Rightarrow> int \<Rightarrow> swim \<Rightarrow> swim_effect list \<times> membership_event list \<times> swim" where
  "resume hk now s =
     (if \<not> sw_suspended s then ([], [], s)
      else
        let s1 = evict_denied now (s\<lparr> sw_suspended := False \<rparr>);
            s2 = forgive_local_state now (set_self_inc (sw_self_inc s1 + 1) s1)
        in case send_all hk (map (\<lambda>p. (p, gossip_msg)) (live_peers_excluding (sw_self s2) s2)) s2 of
             (es, s3) \<Rightarrow> (es, flush_events now s3))"

definition network_changed :: "int \<Rightarrow> swim \<Rightarrow> swim" where
  "network_changed now s =
     (if sw_suspended s \<or> \<not> sw_online s then s
      else let s1 = forgive_local_state now s in s1\<lparr> sw_network_changes := sw_network_changes s1 + 1 \<rparr>)"

definition request_join :: "swim_hooks \<Rightarrow> node_id \<Rightarrow> swim \<Rightarrow> swim_effect list \<times> swim" where
  "request_join hk seed s =
     send_control hk seed (control_msg_init\<lparr> cm_kind := ck_join, cm_subject := sw_self s, cm_subject_incarnation := sw_self_inc s \<rparr>) s"

definition apply_admission :: "int \<Rightarrow> swim \<Rightarrow> membership_event list \<times> swim" where
  "apply_admission now s = flush_events now (evict_denied now s)"

section \<open>The tick\<close>

definition sweep :: "swim_hooks \<Rightarrow> int \<Rightarrow> swim_effect list" where
  "sweep hk now = (if hk_sweep hk then [SweepHook now] else [])"

definition swim_tick :: "swim_hooks \<Rightarrow> int \<Rightarrow> swim \<Rightarrow> swim_effect list \<times> membership_event list \<times> swim" where
  "swim_tick hk now s =
     (if \<not> sw_online s then ([], [], s)
      else if sw_suspended s then ([], flush_events now s)
      else
        let s1 = reap_unverified now (reap_tombstones now (reap_suspects now (expire_suspend_leases now s)));
            (e2, s2) = drive_probe hk now s1;
            (e3, s3) = start_probe hk now s2;
            (e4, s4) = send_verifies hk s3;
            (e5, s5) = probe_tombstones hk now s4;
            (e6, s6) = gossip_round hk now s5;
            (e7, s7) = monitor_congestion hk now s6
        in (e2 @ e3 @ e4 @ e5 @ e6 @ e7 @ sweep hk now, flush_events now s7))"

section \<open>Inbound frames\<close>

definition gossip_subject_ok :: "node_id \<Rightarrow> node_id \<Rightarrow> swim \<Rightarrow> bool" where
  "gossip_subject_ok n from s \<longleftrightarrow>
     n \<noteq> sw_self s \<and>
     (n = from \<or> (case member_of s n of None \<Rightarrow> False | Some m \<Rightarrow> mb_verified m \<and> \<not> is_tomb (mb_status m)))"

text \<open>The entries of a piggyback list about acceptable subjects; every other one is counted.\<close>

definition filter_subjects :: "('e \<Rightarrow> node_id) \<Rightarrow> node_id \<Rightarrow> 'e list \<Rightarrow> swim \<Rightarrow> 'e list \<times> swim" where
  "filter_subjects subj from es s =
     (filter (\<lambda>e. gossip_subject_ok (subj e) from s) es,
      s\<lparr> sw_gossip_rejected :=
          sw_gossip_rejected s + of_nat (length (filter (\<lambda>e. \<not> gossip_subject_ok (subj e) from s) es)) \<rparr>)"

definition record_pressure :: "pressure_entry \<Rightarrow> swim \<Rightarrow> swim" where
  "record_pressure e s =
     (let full = (\<lambda>p. sc_max_live (sw_cfg s) \<le> length p);
          store = (\<lambda>s. s\<lparr> sw_pressure := AList.update (pe_node e) (pe_resident_total e) (sw_pressure s) \<rparr>)
      in if full (sw_pressure s) \<and> map_of (sw_pressure s) (pe_node e) = None then
           let s1 = s\<lparr> sw_pressure := filter (\<lambda>(i, v). member_of s i \<noteq> None) (sw_pressure s) \<rparr>
           in if full (sw_pressure s1) then s1\<lparr> sw_gossip_rejected := sw_gossip_rejected s1 + 1 \<rparr> else store s1
         else store s)"

definition pressure_of :: "node_id \<Rightarrow> swim \<Rightarrow> u64" where
  "pressure_of n s = (case map_of (sw_pressure s) n of None \<Rightarrow> 0 | Some v \<Rightarrow> v)"

definition admit_control :: "node_id \<Rightarrow> int \<Rightarrow> swim \<Rightarrow> bool \<times> swim" where
  "admit_control from now s =
     (if sc_control_rate (sw_cfg s) = 0 then (True, s)
      else
        let idx = unat (drop_bit 56 (from * 0x9E3779B97F4A7C15)) mod 256
        in case rb_admit now (sc_control_rate (sw_cfg s)) (sc_control_burst (sw_cfg s)) (sw_budgets s ! idx) of
             (ok, b) \<Rightarrow> (ok, s\<lparr> sw_budgets := (sw_budgets s)[idx := b] \<rparr>))"

definition relay_token :: "swim \<Rightarrow> node_id \<Rightarrow> node_id \<Rightarrow> u64 \<Rightarrow> int \<Rightarrow> u64" where
  "relay_token s req subj sq bucket = splitmix64 (sw_relay_key s XOR mix3 req subj (sq XOR of_int bucket)) OR 1"

text \<open>Division truncates towards zero.\<close>

definition relay_bucket :: "swim \<Rightarrow> int \<Rightarrow> int" where
  "relay_bucket s now = (let d = indirect_ns (sw_cfg s) in if now < 0 then - ((- now) div d) else now div d)"

definition status_of_byte :: "u8 \<Rightarrow> member_status option" where
  "status_of_byte b =
     (if b = 0 then Some Alive else if b = 1 then Some Suspect else if b = 2 then Some Dead else if b = 3 then Some Left else None)"

text \<open>A gossiped entry: a departure is taken from the departing node only.\<close>

definition merge_update :: "int \<Rightarrow> node_id \<Rightarrow> member_update \<Rightarrow> swim \<Rightarrow> swim" where
  "merge_update now from u s =
     (case status_of_byte (mu_status u) of
        None \<Rightarrow> s
      | Some st \<Rightarrow> if st = Left \<and> mu_node u \<noteq> from then s else apply_update now SrcGossip (mu_node u) (mu_incarnation u) st s)"

definition clear_lease_on_proof_of_life :: "int \<Rightarrow> node_id \<Rightarrow> swim \<Rightarrow> swim" where
  "clear_lease_on_proof_of_life now n s =
     (if \<not> sl_contains n (sw_leases s) then s
      else
        let s1 = s\<lparr> sw_leases := sl_clear n (sw_leases s) \<rparr>
        in case member_of s1 n of None \<Rightarrow> s1 | Some m \<Rightarrow> if is_tomb (mb_status m) then s1 else push_event now Resumed n m s1)"

definition on_leased_peer_spoke :: "int \<Rightarrow> control_msg \<Rightarrow> swim \<Rightarrow> swim" where
  "on_leased_peer_spoke now m s =
     (case sl_find (cm_from m) (sw_leases s) of None \<Rightarrow> s
      | Some e \<Rightarrow>
          if cm_from_incarnation m \<le> le_incarnation e then s
          else
            let s1 = s\<lparr> sw_leases := sl_clear (cm_from m) (sw_leases s) \<rparr>
            in case member_of s1 (cm_from m) of None \<Rightarrow> s1 | Some mb \<Rightarrow> push_event now Resumed (cm_from m) mb s1)"

text \<open>The lease is granted before the entry is revived, the probe dropped and the event queued.\<close>

definition revive_suspect :: "int \<Rightarrow> node_id \<Rightarrow> swim \<Rightarrow> swim" where
  "revive_suspect now n s =
     (case member_of s n of None \<Rightarrow> s
      | Some m \<Rightarrow>
          if mb_status m = Suspect
          then note_transition now n Suspect
                 (set_tx_of n (piggyback_count s) (put_member n (m\<lparr> mb_status := Alive, mb_verify_pending := False \<rparr>) s))
          else s)"

definition drop_probe_of :: "node_id \<Rightarrow> swim \<Rightarrow> swim" where
  "drop_probe_of n s =
     (if pb_active (sw_probe s) \<and> pb_target (sw_probe s) = n then s\<lparr> sw_probe := (sw_probe s)\<lparr> pb_active := False \<rparr> \<rparr> else s)"

definition asked_lease :: "control_msg \<Rightarrow> swim \<Rightarrow> int" where
  "asked_lease m s = sint (min (cm_seq m) (of_int (max_lease_ns (sc_mobile (sw_cfg s)))))"

definition suspend_acceptable :: "control_msg \<Rightarrow> member \<Rightarrow> bool" where
  "suspend_acceptable m cur \<longleftrightarrow>
     \<not> is_tomb (mb_status cur) \<and> mb_verified cur \<and> mb_incarnation cur \<le> cm_from_incarnation m \<and>
     (mb_lease_expired_inc cur = 0 \<or> mb_lease_expired_inc cur < cm_from_incarnation m)"

definition on_suspend_announced :: "int \<Rightarrow> control_msg \<Rightarrow> swim \<Rightarrow> swim" where
  "on_suspend_announced now m s =
     (let n = cm_from m in
      case member_of s n of None \<Rightarrow> s
      | Some cur \<Rightarrow>
          if n = sw_self s then s
          else if \<not> suspend_acceptable m cur then s
          else
            let was_leased = sl_contains n (sw_leases s);
                (granted, l) = sl_grant n (cm_from_incarnation m) (asked_lease m s) (reason_of (cm_subject_incarnation m)) now
                                 (sc_mobile (sw_cfg s)) (sw_leases s)
            in if \<not> granted then s
               else
                 let s1 = drop_probe_of n (revive_suspect now n (s\<lparr> sw_leases := l \<rparr>))
                 in case member_of s1 n of None \<Rightarrow> s1
                    | Some cur1 \<Rightarrow> if was_leased then s1 else push_event now Suspended n cur1 s1)"

text \<open>The sender is in the window: an old refusal is forgotten and its version noted.\<close>

definition note_sender :: "control_msg \<Rightarrow> swim \<Rightarrow> swim" where
  "note_sender m s =
     (if cm_from m = sw_self s then s
      else
        let s1 = s\<lparr> sw_refusals := AList.delete (cm_from m) (sw_refusals s) \<rparr>;
            s2 = (case member_of s1 (cm_from m) of None \<Rightarrow> s1
                  | Some mb \<Rightarrow> put_member (cm_from m) (mb\<lparr> mb_wire_version := cm_wire_version m \<rparr>) s1)
        in s2\<lparr> sw_ctx_from := cm_from m, sw_ctx_version := cm_wire_version m \<rparr>)"

text \<open>The frame is first-hand evidence of its sender, if that is a member already.\<close>

definition hear_sender :: "int \<Rightarrow> control_msg \<Rightarrow> swim \<Rightarrow> swim" where
  "hear_sender now m s =
     (if cm_from m = sw_self s then s
      else case member_of s (cm_from m) of None \<Rightarrow> s
        | Some mb \<Rightarrow>
            let s1 = apply_update now SrcDirect (cm_from m) (cm_from_incarnation m) Alive
                       (put_member (cm_from m) (mb\<lparr> mb_last_direct := Some now \<rparr>) s)
            in if cm_kind m = ck_suspend then s1 else on_leased_peer_spoke now m s1)"

definition merge_revocations :: "swim_hooks \<Rightarrow> control_msg \<Rightarrow> swim \<Rightarrow> swim_effect list \<times> swim" where
  "merge_revocations hk m s =
     (if \<not> hk_merge_revocations hk \<or> cm_revocations m = [] then ([], s)
      else if sc_authority_only (sw_cfg s)
        then ([], s\<lparr> sw_revocations_ignored := sw_revocations_ignored s + of_nat (length (cm_revocations m)) \<rparr>)
      else ([MergeRevocations (cm_revocations m)], s))"

definition merge_signed :: "swim_hooks \<Rightarrow> control_msg \<Rightarrow> swim_effect list" where
  "merge_signed hk m =
     (if hk_merge_signed hk \<and> cm_signed_revocations m \<noteq> [] then [MergeSigned (cm_signed_revocations m)] else [])"

definition merge_capabilities :: "swim_hooks \<Rightarrow> control_msg \<Rightarrow> swim \<Rightarrow> swim_effect list \<times> swim" where
  "merge_capabilities hk m s =
     (if \<not> hk_merge_capabilities hk then ([], s)
      else case filter_subjects ce_node (cm_from m) (cm_capabilities m) s of
        (caps, s1) \<Rightarrow> (if caps = [] then [] else [MergeCapabilities caps], s1))"

definition merge_pressure :: "swim_hooks \<Rightarrow> control_msg \<Rightarrow> swim \<Rightarrow> swim_effect list \<times> swim" where
  "merge_pressure hk m s =
     (case filter_subjects pe_node (cm_from m) (cm_pressure m) s of
        (press, s1) \<Rightarrow> (if hk_merge_pressure hk \<and> press \<noteq> [] then [MergePressure press] else [], fold record_pressure press s1))"

text \<open>What every frame of the cluster carries, whatever its kind.\<close>

definition merge_piggyback :: "swim_hooks \<Rightarrow> int \<Rightarrow> control_msg \<Rightarrow> swim \<Rightarrow> swim_effect list \<times> swim" where
  "merge_piggyback hk now m s =
     (let s1 = fold (merge_update now (cm_from m)) (cm_updates m) (hear_sender now m s);
          (e2, s2) = merge_revocations hk m s1;
          (e3, s3) = merge_capabilities hk m s2;
          (e4, s4) = merge_pressure hk m s3
      in (e2 @ merge_signed hk m @ e3 @ e4, s4))"

section \<open>The frame handler\<close>

definition ping_reply :: "control_msg \<Rightarrow> control_msg" where
  "ping_reply m = control_msg_init\<lparr> cm_kind := ck_ack, cm_seq := cm_seq m, cm_subject := cm_subject m,
     cm_subject_incarnation := cm_subject_incarnation m \<rparr>"

definition relay_ping :: "int \<Rightarrow> control_msg \<Rightarrow> swim \<Rightarrow> control_msg" where
  "relay_ping now m s = control_msg_init\<lparr> cm_kind := ck_ping, cm_seq := cm_seq m, cm_subject := cm_from m,
     cm_subject_incarnation := relay_token s (cm_from m) (cm_subject m) (cm_seq m) (relay_bucket s now) \<rparr>"

definition relay_report :: "control_msg \<Rightarrow> control_msg" where
  "relay_report m = control_msg_init\<lparr> cm_kind := ck_ping_req_ack, cm_subject := cm_from m,
     cm_subject_incarnation := cm_from_incarnation m, cm_seq := cm_seq m \<rparr>"

definition mark_acked :: "node_id \<Rightarrow> u64 \<Rightarrow> swim \<Rightarrow> swim" where
  "mark_acked n sq s =
     (if pb_active (sw_probe s) \<and> pb_target (sw_probe s) = n \<and> sq = pb_seq (sw_probe s)
      then s\<lparr> sw_probe := (sw_probe s)\<lparr> pb_acked := True \<rparr> \<rparr> else s)"

definition token_valid :: "int \<Rightarrow> control_msg \<Rightarrow> swim \<Rightarrow> bool" where
  "token_valid now m s \<longleftrightarrow>
     (let b = relay_bucket s now; tok = (\<lambda>b. relay_token s (cm_subject m) (cm_from m) (cm_seq m) b) in
      cm_subject_incarnation m = tok b \<or> cm_subject_incarnation m = tok (b - 1))"

definition handle_ack :: "swim_hooks \<Rightarrow> int \<Rightarrow> control_msg \<Rightarrow> swim \<Rightarrow> swim_effect list \<times> swim" where
  "handle_ack hk now m s0 =
     (let s = apply_update now SrcDirect (cm_from m) (cm_from_incarnation m) Alive s0 in
      if cm_subject_incarnation m = 0 then ([], mark_acked (cm_from m) (cm_seq m) s)
      else if cm_subject m \<noteq> sw_self s \<and> token_valid now m s then send_control hk (cm_subject m) (relay_report m) s
      else ([], s))"

definition handle_join :: "swim_hooks \<Rightarrow> int \<Rightarrow> control_msg \<Rightarrow> swim \<Rightarrow> swim_effect list \<times> swim" where
  "handle_join hk now m s =
     (if cm_cluster m \<noteq> sc_cluster_id (sw_cfg s)
      then send_control hk (cm_from m) (control_msg_init\<lparr> cm_kind := ck_join_reject, cm_subject := cm_subject m \<rparr>) s
      else if cm_subject m \<noteq> cm_from m then ([], s)
      else
        let inc = (case member_of s (cm_subject m) of
                None \<Rightarrow> cm_subject_incarnation m
              | Some mb \<Rightarrow> if is_tomb (mb_status mb) then max (cm_subject_incarnation m) (mb_incarnation mb + 1)
                          else cm_subject_incarnation m);
            s1 = clear_lease_on_proof_of_life now (cm_from m) (apply_update now SrcJoin (cm_subject m) inc Alive s)
        in send_control hk (cm_from m)
             (control_msg_init\<lparr> cm_kind := ck_join_ack, cm_subject_incarnation := incarnation_of s1 (cm_subject m),
                cm_subject := cm_subject m \<rparr>) s1)"

definition merge_snapshot_entry :: "int \<Rightarrow> member_update \<Rightarrow> swim \<Rightarrow> swim" where
  "merge_snapshot_entry now u s =
     (if mu_status u = 0 then apply_update now SrcJoinSnapshot (mu_node u) (mu_incarnation u) Alive s else s)"

definition handle_join_ack :: "int \<Rightarrow> control_msg \<Rightarrow> swim \<Rightarrow> swim" where
  "handle_join_ack now m s =
     (let s1 = (if cm_subject m = sw_self s \<and> \<not> sw_self_left s \<and> sw_self_inc s < cm_subject_incarnation m
                then set_self_inc (cm_subject_incarnation m) s else s)
      in fold (merge_snapshot_entry now) (cm_updates m) s1)"

definition handle_kind :: "swim_hooks \<Rightarrow> int \<Rightarrow> control_msg \<Rightarrow> swim \<Rightarrow> swim_effect list \<times> swim" where
  "handle_kind hk now m s =
     (if cm_kind m = ck_ping then send_control hk (cm_from m) (ping_reply m) s
      else if cm_kind m = ck_ack then handle_ack hk now m s
      else if cm_kind m = ck_ping_req then send_control hk (cm_subject m) (relay_ping now m s) s
      else if cm_kind m = ck_ping_req_ack then
        ([], apply_update now SrcGossip (cm_subject m) (cm_subject_incarnation m) Alive (mark_acked (cm_subject m) (cm_seq m) s))
      else if cm_kind m = ck_join then handle_join hk now m s
      else if cm_kind m = ck_join_ack then ([], handle_join_ack now m s)
      else if cm_kind m = ck_suspend then ([], on_suspend_announced now m s)
      else if cm_kind m = ck_congested then
        (if incarnation_of s (cm_from m) \<le> cm_from_incarnation m then [MarkCongested (cm_from m) (cm_congestion_remaining_ns m)] else [], s)
      else ([], s))"

text \<open>The reason a JoinReject carries: the low byte of its sequence number.\<close>

definition reject_reason :: "control_msg \<Rightarrow> refusal_reason option" where
  "reject_reason m =
     (let c = (ucast (cm_seq m) :: u8) in
      if c = 2 then Some WireVersionTooOld else if c = 3 then Some WireVersionTooNew else None)"

definition refusal_code :: "refusal_reason \<Rightarrow> u64" where
  "refusal_code r = (case r of NoRefusal \<Rightarrow> 0 | ClusterMismatch \<Rightarrow> 1 | WireVersionTooOld \<Rightarrow> 2 | WireVersionTooNew \<Rightarrow> 3)"

definition handle_control :: "swim_hooks \<Rightarrow> int \<Rightarrow> node_id \<Rightarrow> control_msg \<Rightarrow> swim \<Rightarrow> swim_effect list \<times> swim" where
  "handle_control hk now authenticated_from m s =
     (if cm_from m \<noteq> authenticated_from then ([], s)
      else if cm_kind m = ck_join \<and> cm_subject m \<noteq> cm_from m then ([], s)
      else if cm_kind m \<noteq> ck_join \<and> cm_cluster m \<noteq> sc_cluster_id (sw_cfg s) then ([], s)
      else if cm_kind m = ck_join_reject then
        ([], case reject_reason m of None \<Rightarrow> s | Some why \<Rightarrow> refuse now (cm_from m) (cm_wire_version m) why True s)
      else
        let s0 = s\<lparr> sw_ctx_from := 0 \<rparr> in
        if cm_cluster m \<noteq> sc_cluster_id (sw_cfg s0) then handle_kind hk now m s0
        else
          let why = wire_verdict s0 (cm_wire_version m) in
          if why \<noteq> NoRefusal then
            let s1 = refuse now (cm_from m) (cm_wire_version m) why False s0
            in if cm_kind m = ck_join
               then send_control hk (cm_from m)
                      (control_msg_init\<lparr> cm_kind := ck_join_reject, cm_subject := cm_subject m, cm_seq := refusal_code why \<rparr>) s1
               else ([], s1)
          else
            let (e1, s1) = merge_piggyback hk now m (note_sender m s0);
                (e2, s2) = handle_kind hk now m s1
            in (e1 @ e2, s2))"

definition on_frame :: "swim_hooks \<Rightarrow> int \<Rightarrow> message_frame \<Rightarrow> swim \<Rightarrow> swim_effect list \<times> membership_event list \<times> swim" where
  "on_frame hk now f s =
     (if mf_to f \<noteq> sw_self s then ([], [], s)
      else if mf_kind f \<noteq> kind_control then (if hk_data hk then [DataFrame f] else [], [], s)
      else if is_client_node (mf_from f) then ([], [], s\<lparr> sw_client_drops := sw_client_drops s + 1 \<rparr>)
      else if \<not> sw_online s then ([], [], s)
      else if sw_suspended s then ([], flush_events now s)
      else case admit_control (mf_from f) now s of
        (ok, s1) \<Rightarrow>
          if \<not> ok then ([], [], s1\<lparr> sw_control_sheds := sw_control_sheds s1 + 1 \<rparr>)
          else case decode_control (mf_payload f) of
            None \<Rightarrow> ([], [], s1)
          | Some m \<Rightarrow> (case handle_control hk now (mf_from f) m s1 of (es, s2) \<Rightarrow> (es, flush_events now s2)))"

end
