(* ===== verification/Swim_Safety.thy ===== *)
theory Swim_Safety
  imports Swim_Handlers
begin

text \<open>
  What the tick and the frame handler of \<open>Swim_Handlers\<close> preserve: the invariant of the table under every
  operation, and the authority of a frame: which entries a peer can change, and how.
\<close>

section \<open>Steps that leave the table alone\<close>

text \<open>What the rules look at, apart from the table.\<close>

definition context_of :: "swim \<Rightarrow> (node_id \<times> swim_config \<times> u64 \<times> bool) \<times> (bool \<times> bool \<times> suspend_leases) \<times>
    (admission_snapshot option \<times> bool) \<times> node_id list \<times> node_id list \<times> u64" where
  "context_of s =
     ((sw_self s, sw_cfg s, sw_self_inc s, sw_self_left s), (sw_online s, sw_suspended s, sw_leases s),
      (sw_admission s, sw_admission_dirty s), sw_snapshot s, sw_verified_snapshot s, sw_epoch s)"

definition deadlines :: "swim \<Rightarrow> u64 \<Rightarrow> int option" where
  "deadlines s i = map_option mb_suspect_deadline (member_of s i)"

text \<open>Transmission counts, probe times and the like may change; statuses, leases and views do not.\<close>

definition quiet :: "swim \<Rightarrow> swim \<Rightarrow> bool" where
  "quiet s t \<longleftrightarrow> context_of t = context_of s \<and>
     (swim_inv s \<longrightarrow> swim_inv t \<and> table_view t = table_view s \<and> deadlines t = deadlines s)"

lemma quiet_refl [simp]: "quiet s s"
  by (simp add: quiet_def)

lemma quiet_trans [trans]: "quiet r s \<Longrightarrow> quiet s t \<Longrightarrow> quiet r t"
  by (simp add: quiet_def)

lemma quiet_fields:
  assumes "quiet s t"
  shows "sw_self t = sw_self s" "sw_cfg t = sw_cfg s" "sw_self_inc t = sw_self_inc s" "sw_self_left t = sw_self_left s"
    "sw_online t = sw_online s" "sw_suspended t = sw_suspended s" "sw_leases t = sw_leases s" "sw_admission t = sw_admission s"
    "sw_admission_dirty t = sw_admission_dirty s" "sw_snapshot t = sw_snapshot s" "sw_verified_snapshot t = sw_verified_snapshot s"
    "sw_epoch t = sw_epoch s"
  using assms by (simp_all add: quiet_def context_of_def)

lemma quiet_inv: "quiet s t \<Longrightarrow> swim_inv s \<Longrightarrow> swim_inv t"
  by (simp add: quiet_def)

lemma quiet_view: "quiet s t \<Longrightarrow> swim_inv s \<Longrightarrow> table_view t = table_view s"
  by (simp add: quiet_def)

lemma quiet_deadlines: "quiet s t \<Longrightarrow> swim_inv s \<Longrightarrow> deadlines t = deadlines s"
  by (simp add: quiet_def)

text \<open>An update of fields outside the table and the context.\<close>

lemma quiet_record:
  assumes "sw_members t = sw_members s" "context_of t = context_of s" "sw_tomb_count t = sw_tomb_count s" "sw_tx_pending t = sw_tx_pending s"
  shows "quiet s t"
proof -
  have c: "sw_self t = sw_self s" "sw_cfg t = sw_cfg s" "sw_self_inc t = sw_self_inc s" "sw_self_left t = sw_self_left s"
    "sw_leases t = sw_leases s" "sw_snapshot t = sw_snapshot s" "sw_verified_snapshot t = sw_verified_snapshot s"
    using assms(2) by (simp_all add: context_of_def)
  have "swim_inv t = swim_inv s" by (rule swim_inv_cong) (simp_all add: assms c)
  moreover have "deadlines t = deadlines s" using assms(1) by (simp add: deadlines_def member_of_def fun_eq_iff)
  ultimately show ?thesis using assms(2) table_view_cong [OF assms(1)] by (simp add: quiet_def)
qed

lemma quiet_put:
  assumes "member_of s n = Some w" and "entry_view m = entry_view w" and "mb_tx_left m = mb_tx_left w"
    and "mb_suspect_deadline m = mb_suspect_deadline w"
  shows "quiet s (put_member n m s)"
proof -
  have e: "mb_status m = mb_status w" "mb_incarnation m = mb_incarnation w" "mb_verified m = mb_verified w"
    using assms(2) by (simp_all add: entry_view_def)
  have "swim_inv (put_member n m s)" if "swim_inv s"
  proof -
    have "table_ok (put_member n m s)" using that e assms by (intro table_ok_put [OF _ assms(1)]) (simp_all add: swim_inv_def)
    moreover have s: "live_set (put_member n m s) = live_set s" "verified_set (put_member n m s) = verified_set s"
      using put_same_sets [OF assms(1), of m] e by simp_all
    ultimately show ?thesis using that by (simp add: swim_inv_def views_ok_def leases_inv_def)
  qed
  moreover have "table_view (put_member n m s) = table_view s"
    using assms by (auto simp: fun_eq_iff table_view_put) (simp add: table_view_def)
  moreover have "deadlines (put_member n m s) = deadlines s"
    using assms by (auto simp: fun_eq_iff deadlines_def member_of_put)
  ultimately show ?thesis by (simp add: quiet_def context_of_def)
qed

lemma quiet_set_tx: "quiet s (set_tx_of n v s)"
proof -
  have "deadlines (set_tx_of n v s) = deadlines s"
  proof (cases "member_of s n")
    case (Some m)
    obtain m' p where x: "set_tx v m (sw_tx_pending s) = (m', p)" by (cases "set_tx v m (sw_tx_pending s)")
    have "deadlines (set_tx_of n v s) = deadlines (put_member n m' s)"
      using Some x by (simp add: set_tx_of_def deadlines_def fun_eq_iff member_of_def)
    moreover have "mb_suspect_deadline m' = mb_suspect_deadline m" using x by (auto simp: set_tx_def)
    ultimately show ?thesis using Some by (auto simp: fun_eq_iff deadlines_def member_of_put)
  qed (simp add: set_tx_of_def)
  moreover have "swim_inv (set_tx_of n v s)" if "swim_inv s"
    using that by (simp add: swim_inv_def)
  ultimately show ?thesis by (simp add: quiet_def context_of_def)
qed

section \<open>Sending and probing are quiet\<close>

lemma quiet_push: "quiet s (snd (push_entry n (out, s)))"
  by (simp add: push_entry_def quiet_set_tx split: option.split)

lemma quiet_piggyback_pass: "quiet (snd os) (snd (piggyback_pass b dest room is os))"
proof (induction b dest room "is" os rule: piggyback_pass.induct)
  case (2 b dest room i "is" os)
  let ?os = "case member_of (snd os) i of None \<Rightarrow> os
         | Some m \<Rightarrow>
             if i = dest \<or> i = sw_self (snd os) \<or> mb_tx_left m = 0 then os
             else if \<not> mb_verified m then os
             else if (mb_status m = Suspect) \<noteq> b then os
             else push_entry i os"
  have a: "quiet (snd os) (snd ?os)" using quiet_push [of "snd os" i "fst os"] by (simp split: option.split)
  show ?case
  proof (cases "room \<le> length (fst os)")
    case False
    then have "piggyback_pass b dest room (i # is) os = piggyback_pass b dest room is ?os" by (simp only: piggyback_pass.simps if_False)
    then show ?thesis using quiet_trans [OF a 2 [OF False]] by (simp only:)
  qed simp
qed simp

lemma quiet_passes: "quiet (snd os) (snd (piggyback_passes dest room os))"
proof -
  have "quiet (snd os) (snd (if P then piggyback_pass b dest room is os else os))" for P b "is" os
    using quiet_piggyback_pass by simp
  then show ?thesis unfolding piggyback_passes_def Let_def using quiet_trans by meson
qed

lemma quiet_refresh: "quiet s (refresh_sorted_ids s)"
  by (rule quiet_record) (simp_all add: refresh_sorted_ids_def context_of_def)

lemma quiet_cursor: "quiet (snd os) (snd (cursor_pass dest cap fixed is os))"
proof (induction dest cap fixed "is" os rule: cursor_pass.induct)
  case (2 dest cap fixed i "is" out s)
  have a: "quiet s (s\<lparr> sw_cursor := i \<rparr>)" by (rule quiet_record) (simp_all add: context_of_def)
  let ?os = "if i = dest \<or> i = sw_self s then (out, s)
         else if i \<in> set (map mu_node (drop fixed out)) then (out, s)
         else case member_of s i of None \<Rightarrow> (out, s)
           | Some m \<Rightarrow> if \<not> mb_verified m then (out, s) else (out @ [update_of i m], s\<lparr> sw_cursor := i \<rparr>)"
  have b: "quiet s (snd ?os)" using a by (simp split: option.split)
  show ?case
  proof (cases "cap \<le> length out")
    case False
    then have "cursor_pass dest cap fixed (i # is) (out, s) = cursor_pass dest cap fixed is ?os" by (simp only: cursor_pass.simps if_False)
    then show ?thesis using quiet_trans [OF b 2 [OF False]] by (simp only: snd_conv)
  qed simp
qed simp

lemma quiet_fill: "quiet s (snd (fill_digest dest s))"
proof (cases "sc_max_gossip_updates (sw_cfg s) = 0")
  case True
  then show ?thesis by (simp add: fill_digest_def)
next
  case False
  let ?cap = "sc_max_gossip_updates (sw_cfg s)"
  obtain o1 s1 where 1: "(if dest \<noteq> sw_self s then push_entry dest ([], s) else ([], s)) = (o1, s1)" by fastforce
  obtain o2 s2 where 2: "(if length o1 < ?cap then push_entry (sw_self s1) (o1, s1) else (o1, s1)) = (o2, s2)" by fastforce
  define room where "room = ?cap - min (length (sw_members s2) - length o2) (if 2 < ?cap then (?cap - 1) div 2 else 0)"
  obtain o3 s3 where 3: "piggyback_passes dest room (o2, s2) = (o3, s3)" by fastforce
  have "quiet s s1" using quiet_push [of s dest "[]"] 1 by (auto split: if_splits)
  moreover have "quiet s1 s2" using quiet_push [of s1 "sw_self s1" o1] 2 by (auto split: if_splits)
  moreover have "quiet s2 s3" using quiet_passes [of "(o2, s2)" dest room] 3 by simp
  ultimately have q: "quiet s s3" using quiet_trans by blast
  let ?s4 = "refresh_sorted_ids s3"
  have "quiet s ?s4" using q quiet_refresh quiet_trans by blast
  moreover have "quiet ?s4 (snd (cursor_pass dest ?cap (length o2) is (o3, ?s4)))" for "is"
    using quiet_cursor [of "(o3, ?s4)"] by simp
  ultimately have "quiet s (snd (cursor_pass dest ?cap (length o2) is (o3, ?s4)))" for "is" using quiet_trans by blast
  then show ?thesis using False q
    unfolding fill_digest_def Let_def 1 2 prod.case room_def [symmetric] 3 by simp
qed

lemma quiet_send: "quiet s (snd (send_control hk dest m s))"
  using quiet_fill [of s dest] by (cases "fill_digest dest s") (simp add: send_control_def Let_def)

lemma quiet_send_all: "quiet s (snd (send_all hk ms s))"
proof (induction ms arbitrary: s)
  case (Cons x ms)
  obtain dest m where x: "x = (dest, m)" by (cases x)
  obtain e s1 where 1: "send_control hk dest m s = (e, s1)" by fastforce
  then have "quiet s s1" using quiet_send [of s hk dest m] by simp
  then show ?case using Cons.IH [of s1] quiet_trans by (cases "send_all hk ms s1") (auto simp: x 1)
qed simp

lemma quiet_rebuild: "quiet s (rebuild_order s)"
  by (rule quiet_record) (simp_all add: rebuild_order_def context_of_def Let_def)

lemma quiet_attempt: "quiet s (snd (probe_attempt s))"
proof -
  define s1 where "s1 = (if length (sw_probe_order s) \<le> sw_probe_idx s then rebuild_order s else s)"
  have a: "quiet s s1" using quiet_rebuild by (simp add: s1_def)
  have b: "quiet t (t\<lparr> sw_probe_idx := i \<rparr>)" for t i by (rule quiet_record) (simp_all add: context_of_def)
  show ?thesis unfolding probe_attempt_def Let_def s1_def [symmetric] using quiet_trans [OF a b] by (simp split: prod.split)
qed

lemma quiet_next_probe: "quiet s (snd (next_probe_target s))"
proof -
  obtain t s1 where 1: "probe_attempt s = (t, s1)" by fastforce
  then have "quiet s s1" using quiet_attempt [of s] by simp
  then show ?thesis using 1 quiet_attempt [of s1] quiet_trans by (cases t) (auto simp: next_probe_target_def)
qed

lemma quiet_probe [simp]: "quiet s (s\<lparr> sw_probe := p \<rparr>)"
  by (rule quiet_record) (simp_all add: context_of_def)

lemma quiet_start_probe: "quiet s (snd (start_probe hk now s))"
proof (cases "pb_active (sw_probe s)")
  case True
  then show ?thesis by (simp add: start_probe_def)
next
  case False
  obtain t s1 where 1: "next_probe_target s = (t, s1)" by fastforce
  then have q: "quiet s s1" using quiet_next_probe [of s] by simp
  show ?thesis
  proof (cases t)
    case None
    then show ?thesis using 1 q False by (simp add: start_probe_def)
  next
    case (Some n)
    have "quiet s1 (s1\<lparr> sw_probe_seq := x, sw_probe := p \<rparr>)" for x p by (rule quiet_record) (simp_all add: context_of_def)
    then show ?thesis using 1 Some False quiet_trans [OF quiet_trans [OF q] quiet_send] by (simp add: start_probe_def Let_def)
  qed
qed

lemma quiet_verify_scan: "quiet (snd ts) (snd (verify_scan b is ts))"
proof (induction b "is" ts rule: verify_scan.induct)
  case (2 b i "is" out s)
  let ?ts = "case member_of s i of None \<Rightarrow> (out, s)
         | Some m \<Rightarrow>
             if \<not> mb_verify_pending m then (out, s)
             else (if mb_status m = Suspect \<and> i \<noteq> sw_self s then out @ [i] else out,
                   put_member i (m\<lparr> mb_verify_pending := False \<rparr>) s)"
  have "quiet s (put_member i (m\<lparr> mb_verify_pending := False \<rparr>) s)" if "member_of s i = Some m" for m
    by (rule quiet_put [OF that]) (simp_all add: entry_view_def)
  then have a: "quiet s (snd ?ts)" by (simp split: option.split)
  show ?case
  proof (cases "b \<le> length out")
    case False
    then have "verify_scan b (i # is) (out, s) = verify_scan b is ?ts" by (simp only: verify_scan.simps if_False)
    then show ?thesis using quiet_trans [OF a 2 [OF False]] by (simp only: snd_conv)
  qed simp
qed simp

lemma quiet_send_verifies: "quiet s (snd (send_verifies hk s))"
proof -
  obtain out s1 where 1: "verify_scan (sc_verify_budget (sw_cfg s)) (map fst (sw_members s)) ([], s) = (out, s1)" by fastforce
  have "quiet s s1" using quiet_verify_scan [of "([], s)"] 1 by (metis snd_conv)
  then show ?thesis using quiet_trans [OF _ quiet_send_all] by (simp add: send_verifies_def 1)
qed

lemma quiet_stamps: "quiet s (fold (stamp_probe now) ns s)"
proof (induction ns arbitrary: s)
  case (Cons n ns)
  have "quiet s (stamp_probe now n s)"
    by (auto simp: stamp_probe_def entry_view_def split: option.split intro: quiet_put)
  then show ?case using Cons.IH quiet_trans by auto
qed simp

lemma quiet_probe_tombstones: "quiet s (snd (probe_tombstones hk now s))"
  unfolding probe_tombstones_def Let_def
  using quiet_trans [OF quiet_stamps quiet_send_all] by simp

lemma quiet_gossip_round: "quiet s (snd (gossip_round hk now s))"
  by (simp add: gossip_round_def quiet_send_all)

lemma quiet_monitor: "quiet s (snd (monitor_congestion hk now s))"
proof -
  have a: "quiet s (s\<lparr> sw_congested_edge := x, sw_next_refresh := y \<rparr>)" "quiet s (s\<lparr> sw_congested_edge := x \<rparr>)" for x y
    by (rule quiet_record; simp add: context_of_def)+
  show ?thesis using a(2) quiet_trans [OF a(1) quiet_send_all]
    by (simp add: monitor_congestion_def broadcast_congested_def split: option.split)
qed

section \<open>Steps that change the table, and the invariant\<close>

lemma quiet_note_sender: "quiet s (note_sender m s)"
proof -
  let ?s1 = "s\<lparr> sw_refusals := AList.delete (cm_from m) (sw_refusals s) \<rparr>"
  let ?s2 = "case member_of ?s1 (cm_from m) of None \<Rightarrow> ?s1
    | Some mb \<Rightarrow> put_member (cm_from m) (mb\<lparr> mb_wire_version := cm_wire_version m \<rparr>) ?s1"
  have a: "quiet s ?s1" by (rule quiet_record) (simp_all add: context_of_def)
  have b: "quiet ?s1 ?s2" by (auto simp: entry_view_def split: option.split intro: quiet_put)
  have c: "quiet t (t\<lparr> sw_ctx_from := x, sw_ctx_version := y \<rparr>)" for t x y by (rule quiet_record) (simp_all add: context_of_def)
  show ?thesis using quiet_trans [OF quiet_trans [OF a b] c] by (simp add: note_sender_def Let_def)
qed

lemma quiet_filter: "quiet s (snd (filter_subjects f from es s))"
  by (rule quiet_record) (simp_all add: filter_subjects_def context_of_def)

lemma quiet_record_pressure: "quiet s (record_pressure e s)"
  by (rule quiet_record) (simp_all add: record_pressure_def context_of_def Let_def)

lemma quiet_record_pressures: "quiet s (fold record_pressure es s)"
proof (induction es arbitrary: s)
  case (Cons e es)
  then show ?case using quiet_trans [OF quiet_record_pressure Cons.IH] by simp
qed simp

lemma quiet_merges:
  "quiet s (snd (merge_revocations hk m s))" "quiet s (snd (merge_capabilities hk m s))" "quiet s (snd (merge_pressure hk m s))"
proof -
  have "quiet s (s\<lparr> sw_revocations_ignored := x \<rparr>)" for x by (rule quiet_record) (simp_all add: context_of_def)
  then show "quiet s (snd (merge_revocations hk m s))" by (simp add: merge_revocations_def)
  show "quiet s (snd (merge_capabilities hk m s))"
    using quiet_filter [of s ce_node "cm_from m" "cm_capabilities m"] by (auto simp: merge_capabilities_def split: prod.split)
  show "quiet s (snd (merge_pressure hk m s))"
    using quiet_filter [of s pe_node "cm_from m" "cm_pressure m"] quiet_trans [OF _ quiet_record_pressures]
    by (auto simp: merge_pressure_def split: prod.split)
qed

lemma quiet_mark_acked: "quiet s (mark_acked n sq s)"
  by (simp add: mark_acked_def)

lemma quiet_drop_probe: "quiet s (drop_probe_of n s)"
  by (simp add: drop_probe_of_def)

lemma quiet_admit_control: "quiet s (snd (admit_control from now s))"
  by (rule quiet_record) (simp_all add: admit_control_def context_of_def Let_def split: prod.split)

text \<open>Dropping a lease.\<close>

lemma drop_lease_inv:
  assumes "swim_inv s"
  shows "swim_inv (s\<lparr> sw_leases := sl_clear n (sw_leases s) \<rparr>)"
proof -
  let ?t = "s\<lparr> sw_leases := sl_clear n (sw_leases s) \<rparr>"
  have "table_ok ?t = table_ok s" by (rule table_ok_cong) simp_all
  moreover have sets: "live_set ?t = live_set s" "verified_set ?t = verified_set s" by (rule sets_cong; simp)+
  moreover have "leases_inv {} ?t"
    using assms leases_ok_clear unfolding swim_inv_def leases_inv_def sets by (auto simp: sl_contains_def sl_find_clear)
  ultimately show ?thesis using assms by (simp add: swim_inv_def views_ok_def)
qed

lemma push_event_inv [simp]: "swim_inv (push_event now k n m s) = swim_inv s"
  by (rule swim_inv_cong) simp_all

lemma table_view_push [simp]: "table_view (push_event now k n m s) = table_view s"
  by (rule table_view_cong) simp

lemma clear_lease_inv: "swim_inv s \<Longrightarrow> swim_inv (clear_lease_on_proof_of_life now n s)"
  using drop_lease_inv [of s n] by (simp add: clear_lease_on_proof_of_life_def Let_def split: option.split)

lemma leased_spoke_inv: "swim_inv s \<Longrightarrow> swim_inv (on_leased_peer_spoke now m s)"
  using drop_lease_inv [of s "cm_from m"] by (simp add: on_leased_peer_spoke_def Let_def split: option.split)

lemma drop_lease_view [simp]:
  "table_view (clear_lease_on_proof_of_life now n s) = table_view s" "table_view (on_leased_peer_spoke now m s) = table_view s"
proof -
  have a: "table_view (s\<lparr> sw_leases := l \<rparr>) = table_view s" for l by (rule table_view_cong) simp
  show "table_view (clear_lease_on_proof_of_life now n s) = table_view s"
    using a by (simp add: clear_lease_on_proof_of_life_def Let_def split: option.split)
  show "table_view (on_leased_peer_spoke now m s) = table_view s"
    using a by (simp add: on_leased_peer_spoke_def Let_def split: option.split)
qed

lemma drop_lease_admission [simp]:
  "sw_admission_dirty (clear_lease_on_proof_of_life now n s) = sw_admission_dirty s"
  "sw_admission_dirty (on_leased_peer_spoke now m s) = sw_admission_dirty s"
  by (simp_all add: clear_lease_on_proof_of_life_def on_leased_peer_spoke_def Let_def split: option.split)

lemma drop_lease_self [simp]:
  "sw_self (clear_lease_on_proof_of_life now n s) = sw_self s" "sw_self (on_leased_peer_spoke now m s) = sw_self s"
  "sw_admission (clear_lease_on_proof_of_life now n s) = sw_admission s" "sw_admission (on_leased_peer_spoke now m s) = sw_admission s"
  by (simp_all add: clear_lease_on_proof_of_life_def on_leased_peer_spoke_def Let_def split: option.split)

text \<open>A new incarnation of the node itself.\<close>

lemma set_self_inc_inv:
  assumes "swim_inv s"
  shows "swim_inv (set_self_inc inc s)"
proof -
  have tab: "table_ok s" using assms by (simp add: swim_inv_def)
  then obtain me where me: "member_of s (sw_self s) = Some me" "mb_verified me" "mb_status me = (if sw_self_left s then Left else Alive)"
    unfolding table_ok_def self_entry_def by blast
  have k: "keys_ok s" using tab by (simp add: table_ok_def)
  let ?m = "me\<lparr> mb_incarnation := inc \<rparr>"
  let ?p = "put_member (sw_self s) ?m s"
  define t where "t = set_self_inc inc s"
  have t: "t = put_member (sw_self s) ?m (s\<lparr> sw_self_inc := inc \<rparr>)"
    using me(1) by (simp add: t_def set_self_inc_def member_of_def)
  have mem: "sw_members t = sw_members ?p" by (simp add: t put_member_members)
  have mo: "member_of t i = (if i = sw_self s then Some ?m else member_of s i)" for i
    using member_of_put [of "sw_self s" ?m s i] mem by (simp add: member_of_def)
  have kt: "keys_ok t" using keys_ok_put [OF k] mem by (simp add: keys_ok_def)
  have "tombs t = tombs ?p" "txs t = txs ?p" by (simp_all add: tombs_def txs_def mem) (simp add: t)
  then have "tombs t = tombs s" "txs t = txs s"
    using tombs_put [OF k, of "sw_self s" ?m] txs_put [OF k, of "sw_self s" ?m] me by simp_all
  moreover have "self_entry t" unfolding self_entry_def mo using me by (simp add: t)
  moreover have "no_clients t" using tab unfolding table_ok_def no_clients_def mo by (simp add: t)
  ultimately have tt: "table_ok t" using tab kt by (simp add: table_ok_def) (simp add: t)
  have "live_set t = live_set ?p" "verified_set t = verified_set ?p" by (rule sets_cong; simp add: mem; simp add: t)+
  then have sets: "live_set t = live_set s" "verified_set t = verified_set s" using put_same_sets [OF me(1), of ?m] by simp_all
  have "views_ok t" "leases_inv {} t" using assms unfolding swim_inv_def views_ok_def leases_inv_def sets by (simp_all add: t)
  moreover have "sw_tomb_count t \<le> sc_max_tombstones (sw_cfg t)" using assms by (simp add: swim_inv_def t)
  ultimately show ?thesis using tt unfolding t_def [symmetric] by (simp add: swim_inv_def)
qed

text \<open>Suspicions that start over.\<close>

lemma map_of_keyed: "map_of (map (\<lambda>(i, m). (i, g i m)) al) i = map_option (g i) (map_of al i)"
  by (induction al) auto

lemma filter_keyed:
  assumes "\<And>i m. P (i, g i m) = Q (i, m)"
  shows "length (filter P (map (\<lambda>(i, m). (i, g i m)) al)) = length (filter Q al)"
  using assms by (induction al) auto

lemma forgive_inv:
  assumes "swim_inv s"
  shows "swim_inv (forgive_local_state now s)" and "table_view (forgive_local_state now s) = table_view s"
proof -
  define g where "g = (\<lambda>(i :: u64) (m :: member). if mb_status m = Suspect \<and> i \<noteq> sw_self s then m\<lparr> mb_suspect_deadline := now + sc_suspicion_timeout (sw_cfg s) \<rparr> else m)"
  define t where "t = forgive_local_state now s"
  have mem: "sw_members t = map (\<lambda>(i, m). (i, g i m)) (sw_members s)" by (simp add: t_def forgive_local_state_def g_def)
  have mo: "member_of t i = map_option (g i) (member_of s i)" for i
    unfolding member_of_def mem by (rule map_of_keyed)
  have f: "mb_status (g i m) = mb_status m" "mb_incarnation (g i m) = mb_incarnation m" "mb_verified (g i m) = mb_verified m"
    "mb_tx_left (g i m) = mb_tx_left m" for i m by (simp_all add: g_def)
  have tf: "sw_self t = sw_self s" "sw_cfg t = sw_cfg s" "sw_self_inc t = sw_self_inc s" "sw_self_left t = sw_self_left s"
    "sw_tomb_count t = sw_tomb_count s" "sw_tx_pending t = sw_tx_pending s" "sw_leases t = sw_leases s" "sw_snapshot t = sw_snapshot s"
    "sw_verified_snapshot t = sw_verified_snapshot s" by (simp_all add: t_def forgive_local_state_def)
  have k: "keys_ok s" using assms by (simp add: swim_inv_def table_ok_def)
  have "map fst (sw_members t) = map fst (sw_members s)" by (simp add: mem comp_def case_prod_beta)
  then have "keys_ok t" using k by (simp add: keys_ok_def)
  moreover have "tombs t = tombs s" "txs t = txs s"
    unfolding tombs_def txs_def mem tf by (rule filter_keyed; simp add: f)+
  moreover have "self_entry t" "no_clients t"
    using assms unfolding swim_inv_def table_ok_def self_entry_def no_clients_def mo tf by (auto simp: f)
  ultimately have tt: "table_ok t" using assms by (simp add: swim_inv_def table_ok_def tf)
  have sets: "live_set t = live_set s" "verified_set t = verified_set s" unfolding live_set_def verified_set_def mo tf by (auto simp: f)
  show "swim_inv (forgive_local_state now s)" unfolding t_def [symmetric]
    using tt assms unfolding swim_inv_def views_ok_def leases_inv_def sets tf by simp
  show "table_view (forgive_local_state now s) = table_view s" unfolding t_def [symmetric]
    by (rule ext) (simp add: table_view_def mo option.map_comp comp_def entry_view_def f cong: option.map_cong)
qed

section \<open>The environment of an update\<close>

definition env_of :: "swim \<Rightarrow> (admission_snapshot option \<times> bool) \<times> swim_config \<times> (bool \<times> bool) \<times> swim_probe" where
  "env_of s = ((sw_admission s, sw_admission_dirty s), sw_cfg s, (sw_online s, sw_suspended s), sw_probe s)"

lemma env_of_steps [simp]:
  "env_of (put_member n m s) = env_of s" "env_of (set_tx_of n v s) = env_of s" "env_of (republish s) = env_of s"
  "env_of (note_transition now n p s) = env_of s" "env_of (erase_member n s) = env_of s" "env_of (push_event now k n m s) = env_of s"
  by (simp_all add: env_of_def)

lemma env_of_updates [simp]:
  "env_of (s\<lparr> sw_tx_pending := a, sw_tomb_count := b \<rparr>) = env_of s"
  "env_of (s\<lparr> sw_tx_pending := a, sw_ids_dirty := c, sw_tomb_count := b \<rparr>) = env_of s"
  "env_of (s\<lparr> sw_tx_pending := a, sw_tomb_count := b, sw_ids_dirty := c \<rparr>) = env_of s"
  "env_of (s\<lparr> sw_self_inc := d \<rparr>) = env_of s" "env_of (s\<lparr> sw_admission_refusals := d \<rparr>) = env_of s"
  "env_of (s\<lparr> sw_suppressed := d \<rparr>) = env_of s" "env_of (s\<lparr> sw_evicting := e \<rparr>) = env_of s"
  "env_of (s\<lparr> sw_evicting := e, sw_evictions := d \<rparr>) = env_of s" "env_of (s\<lparr> sw_leases := l \<rparr>) = env_of s"
  by (simp_all add: env_of_def)

lemma env_of_enforce [simp]: "env_of (enforce_tomb_cap s) = env_of s"
proof (induction s rule: enforce_tomb_cap.induct)
  case (1 s)
  show ?case
  proof (cases "sc_max_tombstones (sw_cfg s) < sw_tomb_count s \<and> tomb_victim (sw_self s) (sw_members s) None \<noteq> None")
    case False
    then have "enforce_tomb_cap s = s" by (subst enforce_tomb_cap.simps) (auto split: option.split)
    then show ?thesis by simp
  next
    case True
    then obtain j m where v: "tomb_victim (sw_self s) (sw_members s) None = Some (j, m)" by auto
    then show ?thesis using 1 [OF conjunct1 [OF True] v refl] True by (subst enforce_tomb_cap.simps) simp
  qed
qed

lemma env_of_if [simp]: "env_of (if b then s else t) = (if b then env_of s else env_of t)"
  by simp

lemma env_of_apply_known [simp]: "env_of (apply_known now src n inc st cur s) = env_of s"
  unfolding apply_known_def Let_def by (simp split: option.split prod.split del: if_image_distrib)

lemma env_of_apply_unknown [simp]: "env_of (apply_unknown now src n inc st s) = env_of s"
  unfolding apply_unknown_def Let_def by (simp split: prod.split)

lemma env_of_apply_update [simp]: "env_of (apply_update now src n inc st s) = env_of s"
proof -
  have "env_of (apply_self inc st s) = env_of s" by (simp add: apply_self_def Let_def)
  then show ?thesis unfolding apply_update_def by (simp split: option.split)
qed

text \<open>The nodes an eviction is pending for.\<close>

definition pending :: "swim \<Rightarrow> u64 set" where
  "pending s = {i. sw_admission_dirty s \<and> denied_by (sw_admission s) i}"

lemma pending_env: "env_of t = env_of s \<Longrightarrow> pending t = pending s"
  by (simp add: pending_def env_of_def)

lemma pending_apply_update [simp]: "pending (apply_update now src n inc st s) = pending s"
  by (rule pending_env) simp

lemma pending_quiet: "quiet s t \<Longrightarrow> pending t = pending s"
  using quiet_fields(8,9) [of s t] by (simp add: pending_def)

section \<open>What a frame may change\<close>

text \<open>
  How the entry of a node other than this one may change by a frame: it never becomes Dead; unless the node
  speaks for itself it does not become Left, verified or, when it was live, anything but live with an
  incarnation no lower; an entry that vanishes was a tombstone.
\<close>

definition entry_allowed :: "bool \<Rightarrow> (member_status \<times> u64 \<times> bool) option \<Rightarrow> (member_status \<times> u64 \<times> bool) option \<Rightarrow> bool" where
  "entry_allowed own old new \<longleftrightarrow>
     (case new of
        None \<Rightarrow> (case old of None \<Rightarrow> True | Some (st, k, v) \<Rightarrow> own \<or> is_tomb st)
      | Some (st', k', v') \<Rightarrow>
          (st' = Dead \<longrightarrow> (\<exists>k v. old = Some (Dead, k, v))) \<and>
          (own \<or> (st' = Left \<longrightarrow> (\<exists>k v. old = Some (Left, k, v))) \<and>
                 (v' \<longrightarrow> (\<exists>st k. old = Some (st, k, True))) \<and>
                 (case old of None \<Rightarrow> True | Some (st, k, v) \<Rightarrow> is_tomb st \<or> \<not> is_tomb st' \<and> k \<le> k')))"

lemma entry_allowed_refl [simp]: "entry_allowed own x x"
  by (auto simp: entry_allowed_def split: option.split prod.split)

lemma entry_allowed_trans: "entry_allowed own x y \<Longrightarrow> entry_allowed own y z \<Longrightarrow> entry_allowed own x z"
  by (cases x; cases y; cases z; cases own) (auto simp: entry_allowed_def is_tomb_def)

text \<open>The nodes of \<open>D\<close> are exempt: those an eviction is pending for.\<close>

definition permitted :: "u64 set \<Rightarrow> node_id \<Rightarrow> swim \<Rightarrow> swim \<Rightarrow> bool" where
  "permitted D from s t \<longleftrightarrow>
     (swim_inv s \<longrightarrow> swim_inv t \<and> sw_self t = sw_self s \<and> pending t = pending s \<and>
        (\<forall>i. i \<noteq> sw_self s \<longrightarrow> i \<notin> D \<longrightarrow> entry_allowed (i = from) (table_view s i) (table_view t i)))"

lemma permitted_trans [trans]: "permitted D from r s \<Longrightarrow> permitted D from s t \<Longrightarrow> permitted D from r t"
  unfolding permitted_def using entry_allowed_trans by metis

lemma permitted_same:
  assumes "swim_inv s \<Longrightarrow> swim_inv t" and "table_view t = table_view s" and "sw_self t = sw_self s" and "pending t = pending s"
  shows "permitted D from s t"
  using assms by (simp add: permitted_def)

lemma permitted_refl [simp]: "permitted D from s s"
  by (rule permitted_same) simp_all

lemma permitted_quiet: "quiet s t \<Longrightarrow> permitted D from s t"
  using quiet_fields(1) [of s t] pending_quiet [of s t] by (simp add: permitted_def quiet_def)

lemma apply_update_vanish:
  assumes inv: "swim_inv s" and "i \<noteq> sw_self s" and old: "table_view s i = Some (st0, k, v)"
    and new: "table_view (apply_update now src n inc st s) i = None"
  shows "is_tomb st0 \<or> i = n \<and> (st = Left \<or> st = Dead \<and> src = SrcLocal)"
proof (cases "n = sw_self s")
  case True
  obtain me where me: "member_of s (sw_self s) = Some me" using table_ok_self [OF inv] by blast
  have "apply_update now src n inc st s = (if is_client_node n then s else apply_self inc st s)" using True by (simp add: apply_update_def)
  then show ?thesis using apply_self_view [OF me, of inc st i] old new by (auto split: if_splits)
next
  case False
  have k: "keys_ok s" using table_ok_self [OF inv] by blast
  have o: "outcome now src n inc st s \<noteq> None" if "i = n"
    using that old by (auto simp: outcome_def table_view_def split: option.split)
  then have e: "expected now src n inc st s i \<noteq> None" using old by (auto simp: expected_def)
  then obtain st' k' v' where x: "expected now src n inc st s i = Some (st', k', v')" "is_tomb st'"
    using apply_update_view [OF k False refl, of now src inc st i] new by auto
  show ?thesis
  proof (cases "i = n \<and> \<not> refused_update src n st s")
    case no: False
    then show ?thesis using x old by (auto simp: expected_def)
  next
    case True
    then have "outcome now src n inc st s = Some (st', k', v')" using x by (simp add: expected_def)
    from outcome_cases [OF this] show ?thesis using True x(2) old by (auto simp: is_tomb_def)
  qed
qed

text \<open>An update that is not local, speaks of a departure only for the sender, and first-hand of the sender only.\<close>

lemma permitted_update:
  assumes "src \<noteq> SrcLocal" and "st = Left \<longrightarrow> n = from" and "first_hand src st \<longrightarrow> n = from"
  shows "permitted D from s (apply_update now src n inc st s)"
  unfolding permitted_def
proof (intro impI conjI allI)
  assume inv: "swim_inv s"
  show "swim_inv (apply_update now src n inc st s)" by (rule apply_update_inv [OF inv])
  show "sw_self (apply_update now src n inc st s) = sw_self s" using table_ok_self [OF inv] by simp
  show "pending (apply_update now src n inc st s) = pending s" by simp
  fix i
  assume i: "i \<noteq> sw_self s"
  show "entry_allowed (i = from) (table_view s i) (table_view (apply_update now src n inc st s) i)"
  proof (cases "table_view (apply_update now src n inc st s) i")
    case None
    then show ?thesis using apply_update_vanish [OF inv i _ None] assms
      by (auto simp: entry_allowed_def split: option.split)
  next
    case (Some e)
    obtain st' k' v' where e: "e = (st', k', v')" by (cases e)
    have t: "table_view (apply_update now src n inc st s) i = Some (st', k', v')" using Some e by simp
    have "entry_allowed (i = from) (table_view s i) (Some (st', k', v'))"
    proof (cases rule: apply_update_entry [OF inv t, case_names same own new old taken])
      case same
      then show ?thesis by simp
    next
      case own
      then show ?thesis using i by simp
    next
      case new
      then have "\<not> is_tomb st" "v' \<longrightarrow> i = from" using assms by auto
      then show ?thesis using new by (auto simp: entry_allowed_def is_tomb_def)
    next
      case (old st0 k v)
      then have "v' \<longrightarrow> v \<or> i = from" using assms by auto
      then show ?thesis using old(3,5,6) by (cases v') (auto simp: entry_allowed_def)
    next
      case (taken st0 k v)
      then have "v' \<longrightarrow> v \<or> i = from" "st' \<noteq> Dead" "st' = Left \<longrightarrow> i = from" using assms by auto
      then show ?thesis using taken(3,5,6) by (cases v') (auto simp: entry_allowed_def is_tomb_def)
    qed
    then show ?thesis unfolding t .
  qed
qed

lemma permitted_fold:
  assumes "\<And>x s. x \<in> set xs \<Longrightarrow> permitted D from s (f x s)"
  shows "permitted D from s (fold f xs s)"
  using assms
proof (induction xs arbitrary: s)
  case (Cons x xs)
  have "permitted D from s (f x s)" by (rule Cons.prems) simp
  moreover have "permitted D from (f x s) (fold f xs (f x s))" using Cons by simp
  ultimately have "permitted D from s (fold f xs (f x s))" by (rule permitted_trans)
  then show ?case by simp
qed simp

lemma permitted_merge: "permitted D from s (merge_update now from u s)"
  by (auto simp: merge_update_def first_hand_def split: option.split intro: permitted_update)

lemma permitted_hear: "permitted D (cm_from m) s (hear_sender now m s)"
proof (cases "member_of s (cm_from m)")
  case (Some mb)
  let ?s1 = "put_member (cm_from m) (mb\<lparr> mb_last_direct := Some now \<rparr>) s"
  let ?s2 = "apply_update now SrcDirect (cm_from m) (cm_from_incarnation m) Alive ?s1"
  have "quiet s ?s1" by (rule quiet_put [OF Some]) (simp_all add: entry_view_def)
  then have a: "permitted D (cm_from m) s ?s1" by (rule permitted_quiet)
  have b: "permitted D (cm_from m) ?s1 ?s2" by (rule permitted_update) simp_all
  have c: "permitted D (cm_from m) ?s2 (on_leased_peer_spoke now m ?s2)"
    by (rule permitted_same) (simp_all add: leased_spoke_inv pending_def)
  show ?thesis using Some permitted_trans [OF a b] permitted_trans [OF permitted_trans [OF a b] c]
    by (simp add: hear_sender_def Let_def)
qed (simp add: hear_sender_def)

lemma permitted_piggyback: "permitted D (cm_from m) s (snd (merge_piggyback hk now m s))"
proof -
  define s1 where "s1 = fold (merge_update now (cm_from m)) (cm_updates m) (hear_sender now m s)"
  obtain e2 s2 where 2: "merge_revocations hk m s1 = (e2, s2)" by fastforce
  obtain e3 s3 where 3: "merge_capabilities hk m s2 = (e3, s3)" by fastforce
  obtain e4 s4 where 4: "merge_pressure hk m s3 = (e4, s4)" by fastforce
  have "permitted D (cm_from m) s s1"
    unfolding s1_def by (rule permitted_trans [OF permitted_hear permitted_fold]) (rule permitted_merge)
  moreover have "quiet s1 s2" "quiet s2 s3" "quiet s3 s4"
    using quiet_merges(1) [of s1 hk m] quiet_merges(2) [of s2 hk m] quiet_merges(3) [of s3 hk m] by (simp_all add: 2 3 4)
  ultimately have "permitted D (cm_from m) s s4" using permitted_trans [OF _ permitted_quiet] by blast
  then show ?thesis unfolding merge_piggyback_def Let_def s1_def [symmetric] 2 prod.case 3 4 by simp
qed

lemma quiet_context_members:
  assumes "sw_members t = sw_members s" and "sw_tomb_count t = sw_tomb_count s" and "sw_tx_pending t = sw_tx_pending s"
    and "sw_self t = sw_self s" "sw_cfg t = sw_cfg s" "sw_self_inc t = sw_self_inc s" "sw_self_left t = sw_self_left s"
    "sw_snapshot t = sw_snapshot s" "sw_verified_snapshot t = sw_verified_snapshot s"
    and "swim_inv s" and "leases_inv {} t"
  shows "swim_inv t"
proof -
  have "table_ok t = table_ok s" by (rule table_ok_cong) (simp_all add: assms)
  moreover have "live_set t = live_set s" "verified_set t = verified_set s" by (rule sets_cong; simp add: assms)+
  ultimately show ?thesis using assms by (simp add: swim_inv_def views_ok_def)
qed

text \<open>A lease for a verified live peer.\<close>

lemma grant_inv:
  assumes inv: "swim_inv s" and n: "member_of s n = Some cur" "\<not> is_tomb (mb_status cur)" "mb_verified cur" "n \<noteq> sw_self s"
    and g: "sl_grant n i l w now (sc_mobile (sw_cfg s)) (sw_leases s) = (True, ls)"
  shows "swim_inv (s\<lparr> sw_leases := ls \<rparr>)"
proof (rule quiet_context_members [OF _ _ _ _ _ _ _ _ _ inv])
  let ?t = "s\<lparr> sw_leases := ls \<rparr>"
  have v: "verified_set ?t = verified_set s" by (rule sets_cong) simp_all
  have l: "leases_inv {} s" using inv by (simp add: swim_inv_def)
  have nv: "n \<in> verified_set s" using n by (simp add: verified_set_def)
  have "leases_ok (sc_mobile (sw_cfg s)) ls"
    using leases_ok_grant [of "sc_mobile (sw_cfg s)" "sw_leases s" n i l w now] l g by (simp add: leases_inv_def)
  moreover have "k \<in> verified_set s \<and> k \<noteq> sw_self s" if "sl_contains k ls" for k
    using sl_find_grant [of k n i l w now "sc_mobile (sw_cfg s)" "sw_leases s"] that l nv n(4) g
    by (auto simp: sl_contains_def leases_inv_def split: if_splits)
  ultimately show "leases_inv {} ?t" unfolding leases_inv_def v by simp
qed simp_all

lemma revive_inv:
  assumes inv: "swim_inv s" and "n \<noteq> sw_self s"
  shows "swim_inv (revive_suspect now n s)"
proof (cases "\<exists>m. member_of s n = Some m \<and> mb_status m = Suspect")
  case False
  then show ?thesis using inv by (auto simp: revive_suspect_def split: option.split)
next
  case True
  then obtain m where m: "member_of s n = Some m" "mb_status m = Suspect" by blast
  let ?m = "m\<lparr> mb_status := Alive, mb_verify_pending := False \<rparr>"
  define s1 where "s1 = put_member n ?m s"
  have tab: "table_ok s" and v: "views_ok s" and l: "leases_inv {} s" and c: "sw_tomb_count s \<le> sc_max_tombstones (sw_cfg s)"
    using inv by (simp_all add: swim_inv_def)
  have nc: "\<not> is_client_node n" using tab m(1) assms(2) by (auto simp: table_ok_def no_clients_def)
  have "table_ok s1" unfolding s1_def
    by (rule table_ok_change [OF tab assms(2) nc, where c = "sw_tomb_count s" and m = ?m and p = "sw_tx_pending s"]) (simp_all add: m is_tomb_def)
  moreover have sets: "live_set s1 = live_set s" "verified_set s1 = verified_set s"
    using m unfolding s1_def live_set_put verified_set_put by (auto simp: is_tomb_def live_set_def verified_set_def)
  then have "views_ok s1" "leases_inv {} s1" using v l by (simp_all add: views_ok_def leases_inv_def) (simp_all add: s1_def)
  ultimately have "swim_inv (set_tx_of n (piggyback_count s) s1)" using c by (simp add: swim_inv_def) (simp add: s1_def)
  then have "swim_inv (note_transition now n Suspect (set_tx_of n (piggyback_count s) s1))"
    using leases_inv_note [of "{}" "set_tx_of n (piggyback_count s) s1"] by (simp add: swim_inv_def)
  then show ?thesis using m by (simp add: revive_suspect_def s1_def)
qed

lemma revive_view:
  "table_view (revive_suspect now n s) i =
     (case table_view s i of None \<Rightarrow> None
      | Some (st, k, v) \<Rightarrow> Some (if i = n \<and> st = Suspect then Alive else st, k, v))"
proof (cases "\<exists>m. member_of s n = Some m \<and> mb_status m = Suspect")
  case True
  then obtain m where m: "member_of s n = Some m" "mb_status m = Suspect" by blast
  then have "table_view s n = Some (Suspect, mb_incarnation m, mb_verified m)" by (simp add: table_view_def entry_view_def)
  then show ?thesis using m by (auto simp: revive_suspect_def table_view_put entry_view_def split: option.split)
next
  case False
  then have "revive_suspect now n s = s" by (auto simp: revive_suspect_def split: option.split)
  moreover have "table_view s n \<noteq> Some (Suspect, k, v)" for k v using False by (auto simp: table_view_def entry_view_def)
  ultimately show ?thesis by (auto split: option.split)
qed

lemma revive_self [simp]: "sw_self (revive_suspect now n s) = sw_self s"
  by (simp add: revive_suspect_def split: option.split)

lemma suspend_announced_cases:
  obtains (ignored) "on_suspend_announced now m s = s"
  | (taken) cur l t where "member_of s (cm_from m) = Some cur" "cm_from m \<noteq> sw_self s" "suspend_acceptable m cur"
      "sl_grant (cm_from m) (cm_from_incarnation m) (asked_lease m s) (reason_of (cm_subject_incarnation m)) now
         (sc_mobile (sw_cfg s)) (sw_leases s) = (True, l)"
      "t = drop_probe_of (cm_from m) (revive_suspect now (cm_from m) (s\<lparr> sw_leases := l \<rparr>))"
      "on_suspend_announced now m s = t \<or> (\<exists>c. on_suspend_announced now m s = push_event now Suspended (cm_from m) c t)"
proof (cases "member_of s (cm_from m)")
  case None
  then show ?thesis using ignored by (simp add: on_suspend_announced_def)
next
  case (Some cur)
  obtain g l where gl: "sl_grant (cm_from m) (cm_from_incarnation m) (asked_lease m s) (reason_of (cm_subject_incarnation m)) now
      (sc_mobile (sw_cfg s)) (sw_leases s) = (g, l)" by fastforce
  let ?t = "drop_probe_of (cm_from m) (revive_suspect now (cm_from m) (s\<lparr> sw_leases := l \<rparr>))"
  show ?thesis
  proof (cases "cm_from m \<noteq> sw_self s \<and> suspend_acceptable m cur \<and> g")
    case False
    then have "on_suspend_announced now m s = s" using Some gl by (auto simp: on_suspend_announced_def Let_def)
    then show ?thesis by (rule ignored)
  next
    case True
    then have "on_suspend_announced now m s = ?t \<or> (\<exists>c. on_suspend_announced now m s = push_event now Suspended (cm_from m) c ?t)"
      using Some gl unfolding on_suspend_announced_def Let_def by (auto split: option.split)
    then show ?thesis using True gl by (intro taken [OF Some _ _ _ refl]) simp_all
  qed
qed

lemma env_of_revive [simp]: "env_of (revive_suspect now n s) = env_of s"
  by (simp add: revive_suspect_def split: option.split)

lemma permitted_suspend: "permitted D (cm_from m) s (on_suspend_announced now m s)"
proof (cases rule: suspend_announced_cases [of now m s, case_names ignored taken])
  case ignored
  then show ?thesis by simp
next
  case 2: (taken cur l t)
  let ?s0 = "s\<lparr> sw_leases := l \<rparr>"
  let ?r = "revive_suspect now (cm_from m) ?s0"
  have q: "quiet ?r t" unfolding 2(5) by (rule quiet_drop_probe)
  have s0: "table_view ?s0 = table_view s" by (rule table_view_cong) simp
  have "permitted D (cm_from m) s t"
    unfolding permitted_def
  proof (intro impI conjI allI)
    assume inv: "swim_inv s"
    have "swim_inv ?s0" by (rule grant_inv [OF inv 2(1) _ _ 2(2,4)]) (use 2(3) in \<open>simp_all add: suspend_acceptable_def\<close>)
    then have r: "swim_inv ?r" by (rule revive_inv) (simp add: 2(2))
    show "swim_inv t" by (rule quiet_inv [OF q r])
    show "sw_self t = sw_self s" using quiet_fields(1) [OF q] by simp
    show "pending t = pending s" using pending_quiet [OF q] pending_env [of ?r s] by simp
    fix i
    have "table_view t i = table_view ?r i" using quiet_view [OF q r] by simp
    then show "entry_allowed (i = cm_from m) (table_view s i) (table_view t i)"
      unfolding revive_view s0 by (auto simp: entry_allowed_def is_tomb_def split: option.split)
  qed
  moreover have "permitted D (cm_from m) t (push_event now Suspended (cm_from m) c t)" for c
    by (rule permitted_same) (simp_all add: pending_def)
  ultimately show ?thesis using 2(6) permitted_trans by fastforce
qed

lemma permitted_handle_ack: "permitted D (cm_from m) s (snd (handle_ack hk now m s))"
proof -
  let ?s = "apply_update now SrcDirect (cm_from m) (cm_from_incarnation m) Alive s"
  have a: "permitted D (cm_from m) s ?s" by (rule permitted_update) simp_all
  have b: "quiet ?s (mark_acked n sq ?s)" "quiet ?s (snd (send_control hk dest msg ?s))" for n sq dest msg
    by (rule quiet_mark_acked quiet_send)+
  have "quiet ?s (snd (handle_ack hk now m s))" using b by (simp add: handle_ack_def Let_def)
  then show ?thesis using permitted_trans [OF a permitted_quiet] by blast
qed

lemma permitted_handle_join:
  assumes "cm_subject m = cm_from m"
  shows "permitted D (cm_from m) s (snd (handle_join hk now m s))"
proof (cases "cm_cluster m = sc_cluster_id (sw_cfg s)")
  case False
  then show ?thesis by (simp add: handle_join_def permitted_quiet quiet_send)
next
  case True
  have a: "permitted D (cm_from m) s (apply_update now SrcJoin (cm_from m) inc Alive s)" for inc
    by (rule permitted_update) simp_all
  have b: "permitted D (cm_from m) t (clear_lease_on_proof_of_life now n t)" for t n
    by (rule permitted_same) (simp_all add: clear_lease_inv pending_def)
  have c: "permitted D (cm_from m) t (snd (send_control hk dest msg t))" for t dest msg
    by (rule permitted_quiet [OF quiet_send])
  show ?thesis using True assms permitted_trans [OF permitted_trans [OF a b] c]
    by (simp add: handle_join_def Let_def)
qed

lemma set_self_inc_view: "i \<noteq> sw_self s \<Longrightarrow> table_view (set_self_inc inc s) i = table_view s i"
proof -
  have "table_view (s\<lparr> sw_self_inc := inc \<rparr>) = table_view s" by (rule table_view_cong) simp
  then show "i \<noteq> sw_self s \<Longrightarrow> table_view (set_self_inc inc s) i = table_view s i"
    by (simp add: set_self_inc_def table_view_put)
qed

lemma set_self_inc_self [simp]: "sw_self (set_self_inc inc s) = sw_self s"
  by (simp add: set_self_inc_def)

lemma permitted_self_inc: "permitted D from s (set_self_inc inc s)"
proof -
  have "pending (set_self_inc inc s) = pending s" by (rule pending_env) (simp add: set_self_inc_def)
  then show ?thesis by (simp add: permitted_def set_self_inc_view set_self_inc_inv)
qed

lemma permitted_join_ack: "permitted D from s (handle_join_ack now m s)"
proof -
  have "permitted D from t (merge_snapshot_entry now u t)" for t u
    by (auto simp: merge_snapshot_entry_def first_hand_def intro: permitted_update)
  then have f: "permitted D from t (fold (merge_snapshot_entry now) us t)" for t us by (rule permitted_fold)
  show ?thesis unfolding handle_join_ack_def Let_def
    using permitted_trans [OF permitted_self_inc f] f by simp
qed

lemma permitted_kind:
  assumes "cm_kind m = ck_join \<longrightarrow> cm_subject m = cm_from m"
  shows "permitted D (cm_from m) s (snd (handle_kind hk now m s))"
proof -
  have send: "permitted D p t (snd (send_control hk dest msg t))" for t dest msg p
    by (rule permitted_quiet [OF quiet_send])
  have relay: "permitted D p s (apply_update now SrcGossip n inc Alive (mark_acked n sq s))" for p n inc sq
    by (rule permitted_trans [OF permitted_quiet [OF quiet_mark_acked] permitted_update]) (simp_all add: first_hand_def)
  show ?thesis
    using assms send relay permitted_handle_ack permitted_handle_join permitted_join_ack permitted_suspend
    by (simp add: handle_kind_def)
qed

lemma quiet_refuse: "quiet s (refuse now n ver why b s)"
proof (rule quiet_record)
  let ?t = "refuse now n ver why b s"
  show "sw_members ?t = sw_members s" "sw_tomb_count ?t = sw_tomb_count s" "sw_tx_pending ?t = sw_tx_pending s"
    "context_of ?t = context_of s"
    by (simp_all add: refuse_def push_refusal_def record_refusal_def context_of_def Let_def)
qed

lemma permitted_control: "permitted D from s (snd (handle_control hk now from m s))"
proof -
  let ?s0 = "s\<lparr> sw_ctx_from := 0 \<rparr>"
  have c: "quiet s ?s0" by (rule quiet_record) (simp_all add: context_of_def)
  show ?thesis
  proof (cases "cm_from m = from \<and> \<not> (cm_kind m = ck_join \<and> cm_subject m \<noteq> cm_from m) \<and> cm_kind m \<noteq> ck_join_reject \<and>
      (cm_cluster m = sc_cluster_id (sw_cfg s) \<longrightarrow> wire_verdict ?s0 (cm_wire_version m) = NoRefusal)")
    case False
    let ?r = "\<lambda>why b s. refuse now (cm_from m) (cm_wire_version m) why b s"
    have "quiet s t \<Longrightarrow> quiet s (?r why b t)" for t why b using quiet_refuse quiet_trans by blast
    moreover have "quiet s t \<Longrightarrow> quiet s (snd (send_control hk dest msg t))" for t dest msg using quiet_send quiet_trans by blast
    ultimately have "quiet s (snd (handle_control hk now from m s))"
      using False c unfolding handle_control_def Let_def by (auto split: option.split)
    then show ?thesis by (rule permitted_quiet)
  next
    case True
    have k: "permitted D from t (snd (handle_kind hk now m t))" for t using permitted_kind [of m D t hk now] True by auto
    have n: "permitted D from s (note_sender m ?s0)" by (rule permitted_quiet [OF quiet_trans [OF c quiet_note_sender]])
    obtain e1 s1 where 1: "merge_piggyback hk now m (note_sender m ?s0) = (e1, s1)" by fastforce
    have "permitted D from (note_sender m ?s0) s1" using permitted_piggyback [of D m "note_sender m ?s0" hk now] True 1 by simp
    then have a: "permitted D from s (snd (handle_kind hk now m s1))" using permitted_trans [OF permitted_trans [OF n] k] by blast
    have b: "permitted D from s (snd (handle_kind hk now m ?s0))" by (rule permitted_trans [OF permitted_quiet [OF c] k])
    show ?thesis using True a b unfolding handle_control_def Let_def 1 prod.case
      by (cases "handle_kind hk now m s1") auto
  qed
qed


section \<open>Evictions, frames and every other operation\<close>

lemma evict_one_permitted:
  assumes "v \<in> D"
  shows "permitted D p s (evict_one now v s)"
  unfolding permitted_def
proof (intro impI conjI allI)
  let ?e = "s\<lparr> sw_evicting := True \<rparr>"
  let ?t = "apply_update now SrcLocal v (incarnation_of s v) Dead ?e"
  assume inv: "swim_inv s"
  then show "swim_inv (evict_one now v s)" by (rule evict_one_inv)
  have e: "swim_inv ?e" using inv swim_inv_cong [of ?e s] by simp
  have k: "keys_ok ?e" using table_ok_self [OF e] by blast
  show "sw_self (evict_one now v s) = sw_self s" using k by (simp add: evict_one_def Let_def)
  show "pending (evict_one now v s) = pending s"
    by (rule pending_env) (simp add: evict_one_def Let_def)
  fix i
  assume i: "i \<noteq> sw_self s" "i \<notin> D"
  have "table_view (evict_one now v s) = table_view ?t" by (rule table_view_cong) (simp add: evict_one_def Let_def)
  moreover have ve: "table_view ?e = table_view s" by (rule table_view_cong) simp
  moreover have "table_view ?t i = table_view s i \<or> table_view ?t i = None \<and> (\<exists>st k w. table_view s i = Some (st, k, w) \<and> is_tomb st)"
  proof (cases "v = sw_self s")
    case True
    obtain me where "member_of ?e (sw_self ?e) = Some me" using table_ok_self [OF e] by blast
    then show ?thesis using True i apply_self_view [of ?e me "incarnation_of s v" Dead i] ve by (simp add: apply_update_def)
  next
    case False
    have "i \<noteq> v" using assms i by auto
    then have "expected now SrcLocal v (incarnation_of s v) Dead ?e i = table_view s i" by (simp add: expected_def ve)
    then show ?thesis using apply_update_view [OF k _ refl, of v now SrcLocal "incarnation_of s v" Dead i] False by auto
  qed
  moreover have "entry_allowed own (Some (st, k, w)) None" if "is_tomb st" for own st k w
    using that by (simp add: entry_allowed_def)
  ultimately show "entry_allowed (i = p) (table_view s i) (table_view (evict_one now v s) i)" by fastforce
qed

lemma evict_denied_permitted:
  assumes "{i. denied_by (sw_admission s) i} \<subseteq> D"
  shows "permitted D p s (evict_denied now s)"
proof (cases "sw_admission s")
  case None
  then show ?thesis by (simp add: evict_denied_def)
next
  case (Some snap)
  have "permitted D p s (fold (evict_one now) (map fst (filter (\<lambda>(i, m). i \<noteq> sw_self s \<and> \<not> is_tomb (mb_status m) \<and> snapshot_lookup snap i = Deny) (sw_members s))) s)"
    using assms Some by (intro permitted_fold evict_one_permitted) (auto simp: denied_by_def)
  then show ?thesis using Some by (simp add: evict_denied_def)
qed

lemma same_table_view: "same_table s t \<Longrightarrow> table_view t = table_view s \<and> sw_self t = sw_self s"
  using table_view_cong [of t s] by (simp add: same_table_def)

text \<open>After a flush no eviction is pending.\<close>

definition settled :: "u64 set \<Rightarrow> node_id \<Rightarrow> swim \<Rightarrow> swim \<Rightarrow> bool" where
  "settled D p s t \<longleftrightarrow>
     (swim_inv s \<longrightarrow> swim_inv t \<and> sw_self t = sw_self s \<and>
        (\<forall>i. i \<noteq> sw_self s \<longrightarrow> i \<notin> D \<longrightarrow> entry_allowed (i = p) (table_view s i) (table_view t i)))"

lemma settled_flush: "settled (pending s) p s (snd (flush_events now s))"
proof -
  have f: "swim_inv s \<Longrightarrow> swim_inv (snd (flush_events now s))" by (rule flush_events_inv)
  have t: "table_view (snd (flush_events now s)) = table_view (evicted now s)" "sw_self (snd (flush_events now s)) = sw_self (evicted now s)"
    using same_table_view [OF flush_same_table] by blast+
  show ?thesis
  proof (cases "sw_admission_dirty s")
    case False
    then have "evicted now s = s" by (simp add: evicted_def)
    then show ?thesis using f t by (simp add: settled_def)
  next
    case True
    let ?u = "s\<lparr> sw_admission_dirty := False \<rparr>"
    have u: "swim_inv ?u = swim_inv s" "table_view ?u = table_view s" by (rule swim_inv_cong table_view_cong; simp)+
    have "permitted (pending s) p ?u (evict_denied now ?u)"
      using True by (intro evict_denied_permitted) (auto simp: pending_def)
    then show ?thesis using True f t u unfolding settled_def permitted_def evicted_def by simp
  qed
qed

lemma permitted_settled: "permitted D p r s \<Longrightarrow> settled D p s t \<Longrightarrow> settled D p r t"
  unfolding permitted_def settled_def using entry_allowed_trans by metis

lemma permitted_imp_settled: "permitted D p s t \<Longrightarrow> settled D p s t"
  by (simp add: permitted_def settled_def)

lemma permitted_pending: "permitted D p s t \<Longrightarrow> swim_inv s \<Longrightarrow> pending t = pending s"
  by (simp add: permitted_def)

lemma settled_then_flush:
  assumes "permitted (pending s) p s t"
  shows "settled (pending s) p s (snd (flush_events now t))"
proof (cases "swim_inv s")
  case True
  then have "settled (pending s) p t (snd (flush_events now t))"
    using settled_flush [of t p now] permitted_pending [OF assms] by simp
  then show ?thesis using permitted_settled [OF assms] by blast
qed (simp add: settled_def)

lemma settled_frame: "settled (pending s) (mf_from f) s (snd (snd (on_frame hk now f s)))"
proof -
  obtain ok s1 where 1: "admit_control (mf_from f) now s = (ok, s1)" by fastforce
  have q: "quiet s s1" using quiet_admit_control [of s "mf_from f" now] 1 by simp
  have drop: "settled (pending s) (mf_from f) s (s\<lparr> sw_client_drops := x \<rparr>)" for x
    by (rule permitted_imp_settled [OF permitted_quiet [OF quiet_record]]) (simp_all add: context_of_def)
  have "quiet s1 (s1\<lparr> sw_control_sheds := x \<rparr>)" for x by (rule quiet_record) (simp_all add: context_of_def)
  then have shed: "settled (pending s) (mf_from f) s (s1\<lparr> sw_control_sheds := x \<rparr>)" for x
    by (rule permitted_imp_settled [OF permitted_quiet [OF quiet_trans [OF q]]])
  have bad: "settled (pending s) (mf_from f) s s1" by (rule permitted_imp_settled [OF permitted_quiet [OF q]])
  have ref: "settled (pending s) (mf_from f) s s" by (rule permitted_imp_settled) simp
  have main: "settled (pending s) (mf_from f) s (snd (flush_events now (snd (handle_control hk now (mf_from f) m s1))))" for m
    by (rule settled_then_flush [OF permitted_trans [OF permitted_quiet [OF q] permitted_control]])
  show ?thesis
    using drop shed bad ref main settled_flush [of s "mf_from f" now]
    unfolding on_frame_def 1 prod.case by (auto simp: case_prod_unfold split: option.split)
qed

end
