(* ===== verification/Swim_Cluster.thy ===== *)
theory Swim_Cluster
  imports Swim_Safety
begin

text \<open>
  Runs of one node of the cluster protocol: every operation of \<open>SwimMembership\<close> keeps the invariant of its
  table, and what a node believes at the end of a run is bounded by what it has heard.  The run is any list of
  operations; hooks, clock readings, frames and published snapshots are arbitrary.
\<close>

section \<open>The timers and what they do to an entry\<close>

lemma kill_suspect_view:
  "table_view (kill_suspect now tx n s) i =
     (if i = n then map_option (\<lambda>(st, k, v). (Dead, k, v)) (table_view s n) else table_view s i)"
proof (cases "member_of s n")
  case None
  then show ?thesis by (auto simp: kill_suspect_def table_view_def)
next
  case (Some m)
  let ?m0 = "m\<lparr> mb_status := Dead, mb_death := now, mb_last_probe := Some now \<rparr>"
  obtain m' p where x: "set_tx tx ?m0 (sw_tx_pending s) = (m', p)" by (cases "set_tx tx ?m0 (sw_tx_pending s)")
  have "table_view (kill_suspect now tx n s) = table_view (put_member n (m'\<lparr> mb_verify_pending := False \<rparr>) s)"
    using Some x by (intro table_view_cong) (simp add: kill_suspect_def)
  moreover have "entry_view (m'\<lparr> mb_verify_pending := False \<rparr>) = (Dead, mb_incarnation m, mb_verified m)"
    using set_tx_spec [OF x] by (simp add: entry_view_def)
  ultimately show ?thesis using Some by (simp add: table_view_put) (simp add: table_view_def entry_view_def)
qed

lemma kill_suspects_view:
  "table_view (fold (kill_suspect now tx) ns s) i =
     (if i \<in> set ns then map_option (\<lambda>(st, k, v). (Dead, k, v)) (table_view s i) else table_view s i)"
proof (induction ns arbitrary: s)
  case (Cons n ns)
  then show ?case by (cases "table_view s i") (auto simp: kill_suspect_view)
qed simp

lemma notes_view: "table_view (fold (\<lambda>n. note_transition now n p) ns s) = table_view s"
  by (induction ns arbitrary: s) simp_all

lemma notes_self: "sw_self (fold (\<lambda>n. note_transition now n p) ns s) = sw_self s \<and> (keys_ok s \<longrightarrow> keys_ok (fold (\<lambda>n. note_transition now n p) ns s))"
  by (induction ns arbitrary: s) simp_all

lemma kills_self: "sw_self (fold (kill_suspect now tx) ns s) = sw_self s \<and> (keys_ok s \<longrightarrow> keys_ok (fold (kill_suspect now tx) ns s))"
proof (induction ns arbitrary: s)
  case (Cons n ns)
  have "sw_self (kill_suspect now tx n s) = sw_self s"
    by (simp add: kill_suspect_def split: option.split prod.split)
  moreover have "keys_ok s \<longrightarrow> keys_ok (kill_suspect now tx n s)"
    using keys_ok_put [of s n] by (auto simp: kill_suspect_def keys_ok_def split: option.split prod.split)
  ultimately show ?case using Cons by simp
qed simp

text \<open>A reaped Suspect is Dead, or has made room for another tombstone; nobody else changes but for that.\<close>

definition reaped :: "int \<Rightarrow> swim \<Rightarrow> u64 \<Rightarrow> (member_status \<times> u64 \<times> bool) option" where
  "reaped now s i =
     (case member_of s i of None \<Rightarrow> None
      | Some m \<Rightarrow> if suspicion_over now s (i, m) then Some (Dead, mb_incarnation m, mb_verified m) else Some (entry_view m))"

lemma reap_suspects_view:
  assumes "swim_inv s"
  shows "table_view (reap_suspects now s) i = reaped now s i \<or>
    table_view (reap_suspects now s) i = None \<and> i \<noteq> sw_self s \<and> (\<exists>st k v. reaped now s i = Some (st, k, v) \<and> is_tomb st)"
    and "sw_self (reap_suspects now s) = sw_self s"
proof -
  have k: "keys_ok s" using table_ok_self [OF assms] by blast
  define died where "died = map fst (filter (suspicion_over now s) (sw_members s))"
  define s1 where "s1 = fold (kill_suspect now (piggyback_count s)) died s"
  define s2 where "s2 = (if died \<noteq> [] then republish s1 else s1)"
  define s3 where "s3 = fold (\<lambda>n. note_transition now n Suspect) (sort died) s2"
  have e: "reap_suspects now s = enforce_tomb_cap s3"
    unfolding reap_suspects_def Let_def died_def [symmetric] s1_def [symmetric] s2_def [symmetric] s3_def by simp
  have "table_view s3 i = table_view s1 i" by (simp add: s3_def notes_view s2_def)
  moreover have "i \<in> set died \<longleftrightarrow> (\<exists>m. member_of s i = Some m \<and> suspicion_over now s (i, m))"
    unfolding died_def by (rule over_ids [OF k])
  ultimately have v: "table_view s3 i = reaped now s i"
    unfolding s1_def kill_suspects_view by (cases "member_of s i") (auto simp: reaped_def table_view_def entry_view_def)
  have k1: "keys_ok s1 \<and> sw_self s1 = sw_self s" using kills_self k unfolding s1_def by blast
  then have "keys_ok s2 \<and> sw_self s2 = sw_self s" by (simp add: s2_def)
  then have k3: "keys_ok s3 \<and> sw_self s3 = sw_self s" using notes_self unfolding s3_def by metis
  show "table_view (reap_suspects now s) i = reaped now s i \<or>
    table_view (reap_suspects now s) i = None \<and> i \<noteq> sw_self s \<and> (\<exists>st k v. reaped now s i = Some (st, k, v) \<and> is_tomb st)"
    using enforce_view(1) [of s3 i] k3 v unfolding e by auto
  show "sw_self (reap_suspects now s) = sw_self s" using enforce_view(3) [of s3] k3 unfolding e by simp
qed

lemma reap_tombstones_view:
  assumes "swim_inv s"
  shows "table_view (reap_tombstones now s) i = table_view s i \<or>
    table_view (reap_tombstones now s) i = None \<and> i \<noteq> sw_self s \<and> (\<exists>st k v. table_view s i = Some (st, k, v) \<and> is_tomb st)"
    and "sw_self (reap_tombstones now s) = sw_self s"
proof -
  have k: "keys_ok s" using table_ok_self [OF assms] by blast
  show "sw_self (reap_tombstones now s) = sw_self s" by (simp add: reap_tombstones_def Let_def)
  show "table_view (reap_tombstones now s) i = table_view s i \<or>
    table_view (reap_tombstones now s) i = None \<and> i \<noteq> sw_self s \<and> (\<exists>st k v. table_view s i = Some (st, k, v) \<and> is_tomb st)"
  proof (cases "sw_tomb_count s = 0")
    case False
    then have "sw_members (reap_tombstones now s) = filter (\<lambda>e. \<not> tombstone_expired now s e) (sw_members s)"
      by (simp add: reap_tombstones_def Let_def)
    from filtered_member [OF k this, of i] show ?thesis
      by (cases "member_of s i") (auto simp: table_view_def entry_view_def tombstone_expired_def)
  qed (simp add: reap_tombstones_def)
qed

lemma reap_unverified_view:
  assumes "swim_inv s"
  shows "table_view (reap_unverified now s) i = table_view s i \<or>
    table_view (reap_unverified now s) i = None \<and> i \<noteq> sw_self s \<and> (\<exists>st k. table_view s i = Some (st, k, False))"
    and "sw_self (reap_unverified now s) = sw_self s"
proof -
  have k: "keys_ok s" using table_ok_self [OF assms] by blast
  show "sw_self (reap_unverified now s) = sw_self s" by (simp add: reap_unverified_def Let_def)
  show "table_view (reap_unverified now s) i = table_view s i \<or>
    table_view (reap_unverified now s) i = None \<and> i \<noteq> sw_self s \<and> (\<exists>st k. table_view s i = Some (st, k, False))"
  proof (cases "sc_unverified_ttl (sw_cfg s) \<le> 0")
    case False
    then have "sw_members (reap_unverified now s) = filter (\<lambda>e. \<not> unverified_expired now s e) (sw_members s)"
      by (simp add: reap_unverified_def Let_def)
    from filtered_member [OF k this, of i] show ?thesis
      by (cases "member_of s i") (auto simp: table_view_def entry_view_def unverified_expired_def)
  qed (simp add: reap_unverified_def)
qed

section \<open>First-hand evidence\<close>

text \<open>The nodes this one has heard from itself.\<close>

definition heard :: "swim \<Rightarrow> u64 set" where
  "heard s = {i. \<exists>st k. table_view s i = Some (st, k, True)}"

definition hears :: "u64 set \<Rightarrow> swim \<Rightarrow> swim \<Rightarrow> bool" where
  "hears A s t \<longleftrightarrow> (swim_inv s \<longrightarrow> swim_inv t \<and> sw_self t = sw_self s \<and> heard t \<subseteq> heard s \<union> A \<union> {sw_self s})"

lemma hears_trans [trans]: "hears A r s \<Longrightarrow> hears B s t \<Longrightarrow> hears (A \<union> B) r t"
  by (cases "swim_inv r"; cases "swim_inv s") (auto simp: hears_def)

lemma hears_trans_same: "hears A r s \<Longrightarrow> hears A s t \<Longrightarrow> hears A r t"
  using hears_trans [of A r s A t] by simp

lemma hears_mono: "hears A s t \<Longrightarrow> A \<subseteq> B \<Longrightarrow> hears B s t"
  unfolding hears_def by blast

lemma hears_refl [simp]: "hears A s s"
  by (auto simp: hears_def)

lemma hears_quiet: "quiet s t \<Longrightarrow> hears A s t"
  using quiet_fields(1) [of s t] by (auto simp: hears_def quiet_def heard_def)

lemma hears_same:
  assumes "swim_inv s \<Longrightarrow> swim_inv t" and "table_view t = table_view s" and "sw_self t = sw_self s"
  shows "hears A s t"
  using assms by (auto simp: hears_def heard_def)

lemma hears_permitted: "permitted {} p s t \<Longrightarrow> hears {p} s t"
  unfolding hears_def
proof (intro impI conjI)
  assume p: "permitted {} p s t" and inv: "swim_inv s"
  then show "swim_inv t" "sw_self t = sw_self s" by (simp_all add: permitted_def)
  show "heard t \<subseteq> heard s \<union> {p} \<union> {sw_self s}"
  proof
    fix i
    assume "i \<in> heard t"
    then obtain st k where i: "table_view t i = Some (st, k, True)" by (auto simp: heard_def)
    show "i \<in> heard s \<union> {p} \<union> {sw_self s}"
    proof (cases "i = p \<or> i = sw_self s")
      case False
      then have "entry_allowed False (table_view s i) (Some (st, k, True))" using p inv i unfolding permitted_def by auto
      then show ?thesis by (auto simp: entry_allowed_def heard_def)
    qed auto
  qed
qed

lemma hears_update: "hears (if first_hand src st then {n} else {}) s (apply_update now src n inc st s)"
  unfolding hears_def
proof (intro impI conjI subsetI)
  assume inv: "swim_inv s"
  then show "swim_inv (apply_update now src n inc st s)" by (rule apply_update_inv)
  show "sw_self (apply_update now src n inc st s) = sw_self s" using table_ok_self [OF inv] by simp
  fix i
  assume "i \<in> heard (apply_update now src n inc st s)"
  then show "i \<in> heard s \<union> (if first_hand src st then {n} else {}) \<union> {sw_self s}"
    using verified_first_hand [OF inv] by (fastforce simp: heard_def)
qed

lemma hears_second_hand: "\<not> first_hand src st \<Longrightarrow> hears A s (apply_update now src n inc st s)"
  using hears_mono [OF hears_update [of src st n s now inc], of A] by simp

lemma hears_fold:
  assumes "\<And>x s. hears A s (f x s)"
  shows "hears A s (fold f xs s)"
proof (induction xs arbitrary: s)
  case (Cons x xs)
  show ?case using hears_trans_same [OF assms [of s x] Cons.IH] by simp
qed simp

text \<open>A step whose every entry is an old one, possibly with another status, or gone.\<close>

lemma hears_view:
  assumes "swim_inv s \<Longrightarrow> swim_inv t" and "sw_self t = sw_self s"
    and "\<And>i st k. swim_inv s \<Longrightarrow> table_view t i = Some (st, k, True) \<Longrightarrow> \<exists>st k. table_view s i = Some (st, k, True)"
  shows "hears A s t"
  using assms by (auto simp: hears_def heard_def)

lemma hears_evict_one: "hears A s (evict_one now v s)"
proof -
  let ?e = "s\<lparr> sw_evicting := True \<rparr>"
  let ?t = "apply_update now SrcLocal v (incarnation_of s v) Dead ?e"
  have a: "hears A s ?e" by (rule hears_quiet [OF quiet_record]) (simp_all add: context_of_def)
  have b: "hears A ?e ?t" by (rule hears_second_hand) (simp add: first_hand_def)
  have c: "hears A ?t (evict_one now v s)"
    unfolding evict_one_def Let_def by (rule hears_quiet [OF quiet_record]) (simp_all add: context_of_def)
  show ?thesis by (rule hears_trans_same [OF hears_trans_same [OF a b] c])
qed

lemma hears_evict_denied: "hears A s (evict_denied now s)"
  by (auto simp: evict_denied_def split: option.split intro: hears_fold hears_evict_one)

lemma hears_flush: "hears A s (snd (flush_events now s))"
proof -
  let ?u = "s\<lparr> sw_admission_dirty := False \<rparr>"
  have "table_view ?u = table_view s" by (rule table_view_cong) simp
  moreover have "swim_inv ?u = swim_inv s" by (rule swim_inv_cong) simp_all
  ultimately have "hears A s ?u" by (intro hears_same) simp_all
  then have a: "hears A s (evicted now s)"
    using hears_trans_same [OF _ hears_evict_denied] by (simp add: evicted_def)
  have b: "hears A (evicted now s) (snd (flush_events now s))"
    using same_table_inv [OF flush_same_table, of now s] same_table_view [OF flush_same_table, of now s] by (intro hears_same) auto
  show ?thesis by (rule hears_trans_same [OF a b])
qed

section \<open>The operations\<close>

lemma expired_leases_inv:
  assumes "swim_inv s" and "sl_expire now (sw_leases s) = (ids, l)"
  shows "swim_inv (s\<lparr> sw_leases := l \<rparr>)"
proof (rule quiet_context_members [OF _ _ _ _ _ _ _ _ _ assms(1)])
  let ?t = "s\<lparr> sw_leases := l \<rparr>"
  have v: "verified_set ?t = verified_set s" by (rule sets_cong) simp_all
  have ok: "leases_inv {} s" using assms(1) by (simp add: swim_inv_def)
  then have "leases_ok (sc_mobile (sw_cfg s)) l"
    using leases_ok_expire [of "sc_mobile (sw_cfg s)" "sw_leases s" now] assms(2) by (simp add: leases_inv_def)
  moreover have d: "distinct (map fst (sw_leases s))" using ok by (simp add: leases_inv_def leases_ok_def)
  have "k \<in> verified_set s \<and> k \<noteq> sw_self s" if "sl_contains k l" for k
  proof -
    have "sl_find k (sw_leases s) \<noteq> None"
      using sl_expire_correct(3) [OF d, of k now] that assms(2) by (auto simp: sl_contains_def split: option.splits)
    then show ?thesis using ok by (simp add: leases_inv_def sl_contains_def)
  qed
  ultimately show "leases_inv {} ?t" unfolding leases_inv_def v by simp
qed simp_all

lemma hears_expire: "hears A s (expire_suspend_leases now s)"
proof (cases "sw_leases s = []")
  case True
  then show ?thesis by (simp add: expire_suspend_leases_def)
next
  case False
  obtain ids l where e: "sl_expire now (sw_leases s) = (ids, l)" by fastforce
  let ?s = "s\<lparr> sw_leases := l \<rparr>"
  have one: "hears A t (expire_one now n t)" for n t
  proof (cases "\<exists>m. member_of t n = Some m \<and> \<not> is_tomb (mb_status m)")
    case False
    then show ?thesis by (auto simp: expire_one_def split: option.split)
  next
    case True
    then obtain m where m: "member_of t n = Some m" "\<not> is_tomb (mb_status m)" by blast
    let ?t = "put_member n (m\<lparr> mb_lease_expired_inc := mb_incarnation m \<rparr>) t"
    have "hears A t ?t" by (rule hears_quiet [OF quiet_put [OF m(1)]]) (simp_all add: entry_view_def)
    moreover have "hears A ?t (apply_update now SrcLocal n (mb_incarnation m) Suspect ?t)"
      by (rule hears_second_hand) (simp add: first_hand_def)
    ultimately show ?thesis using m hears_trans_same by (simp add: expire_one_def)
  qed
  have "table_view ?s = table_view s" by (rule table_view_cong) simp
  then have "hears A s ?s" using expired_leases_inv [OF _ e] by (intro hears_same) simp_all
  then show ?thesis using False e hears_trans_same [OF _ hears_fold [OF one]] by (simp add: expire_suspend_leases_def)
qed

lemma hears_reap_suspects: "hears A s (reap_suspects now s)"
  unfolding hears_def
proof (intro impI conjI subsetI)
  assume inv: "swim_inv s"
  show "swim_inv (reap_suspects now s)" by (rule reap_suspects_inv [OF inv])
  show "sw_self (reap_suspects now s) = sw_self s" by (rule reap_suspects_view(2) [OF inv])
  fix i
  assume "i \<in> heard (reap_suspects now s)"
  then obtain st k where "reaped now s i = Some (st, k, True)" using reap_suspects_view(1) [OF inv, of now i] by (auto simp: heard_def)
  then show "i \<in> heard s \<union> A \<union> {sw_self s}"
    by (auto simp: heard_def reaped_def table_view_def entry_view_def split: option.splits if_splits)
qed

lemma hears_reap_rest: "hears A s (reap_tombstones now s)" "hears A s (reap_unverified now s)"
proof -
  show "hears A s (reap_tombstones now s)"
  proof (cases "swim_inv s")
    case True
    have "table_view s i = Some (st, k, True)" if "table_view (reap_tombstones now s) i = Some (st, k, True)" for i st k
      using reap_tombstones_view(1) [OF True, of now i] that by auto
    then show ?thesis
      using reap_tombstones_inv [OF True, of now] reap_tombstones_view(2) [OF True, of now] by (auto simp: hears_def heard_def)
  qed (simp add: hears_def)
  show "hears A s (reap_unverified now s)"
  proof (cases "swim_inv s")
    case True
    have "table_view s i = Some (st, k, True)" if "table_view (reap_unverified now s) i = Some (st, k, True)" for i st k
      using reap_unverified_view(1) [OF True, of now i] that by auto
    then show ?thesis
      using reap_unverified_inv [OF True, of now] reap_unverified_view(2) [OF True, of now] by (auto simp: hears_def heard_def)
  qed (simp add: hears_def)
qed

lemma hears_drive: "hears A s (snd (drive_probe hk now s))"
proof -
  let ?t = "apply_update now SrcLocal (pb_target (sw_probe s)) (incarnation_of s (pb_target (sw_probe s))) Suspect s"
  have q: "hears A u (u\<lparr> sw_probe := p \<rparr>)" for u p by (rule hears_quiet) simp
  have "hears A s ?t" by (rule hears_second_hand) (simp add: first_hand_def)
  then have a: "hears A s (?t\<lparr> sw_probe := p \<rparr>)" for p using hears_trans_same [OF _ q] by blast
  have b: "hears A s (snd (send_all hk ms (s\<lparr> sw_probe := p \<rparr>)))" for ms p
    by (rule hears_trans_same [OF q hears_quiet [OF quiet_send_all]])
  show ?thesis using q a b by (simp add: drive_probe_def Let_def)
qed

lemma hears_tick: "hears A s (snd (snd (swim_tick hk now s)))"
proof (cases "\<not> sw_online s \<or> sw_suspended s")
  case True
  then show ?thesis using hears_flush by (cases "sw_online s") (simp_all add: swim_tick_def)
next
  case False
  define s1 where "s1 = reap_unverified now (reap_tombstones now (reap_suspects now (expire_suspend_leases now s)))"
  have 1: "hears A s s1" unfolding s1_def
    using hears_trans_same [OF hears_trans_same [OF hears_trans_same [OF hears_expire hears_reap_suspects] hears_reap_rest(1)] hears_reap_rest(2)] .
  obtain e2 s2 where 2: "drive_probe hk now s1 = (e2, s2)" by fastforce
  obtain e3 s3 where 3: "start_probe hk now s2 = (e3, s3)" by fastforce
  obtain e4 s4 where 4: "send_verifies hk s3 = (e4, s4)" by fastforce
  obtain e5 s5 where 5: "probe_tombstones hk now s4 = (e5, s5)" by fastforce
  obtain e6 s6 where 6: "gossip_round hk now s5 = (e6, s6)" by fastforce
  obtain e7 s7 where 7: "monitor_congestion hk now s6 = (e7, s7)" by fastforce
  have q3: "quiet s2 s3" using quiet_start_probe [of s2 hk now] by (simp only: 3 snd_conv)
  have q4: "quiet s3 s4" using quiet_send_verifies [of s3 hk] by (simp only: 4 snd_conv)
  have q5: "quiet s4 s5" using quiet_probe_tombstones [of s4 hk now] by (simp only: 5 snd_conv)
  have q6: "quiet s5 s6" using quiet_gossip_round [of s5 hk now] by (simp only: 6 snd_conv)
  have q7: "quiet s6 s7" using quiet_monitor [of s6 hk now] by (simp only: 7 snd_conv)
  have q: "quiet s2 s7" by (rule quiet_trans [OF quiet_trans [OF quiet_trans [OF quiet_trans [OF q3 q4] q5] q6] q7])
  have d: "hears A s1 s2" using hears_drive [of A s1 hk now] by (simp only: 2 snd_conv)
  have "hears A s (snd (flush_events now s7))"
    by (rule hears_trans_same [OF hears_trans_same [OF hears_trans_same [OF 1 d] hears_quiet [OF q]] hears_flush])
  moreover have "snd (snd (swim_tick hk now s)) = snd (flush_events now s7)"
    using False by (simp only: swim_tick_def Let_def s1_def [symmetric] 2 prod.case 3 4 5 6 7 if_False snd_conv de_Morgan_disj not_not simp_thms)
  ultimately show ?thesis by (simp only:)
qed

lemma hears_frame: "hears {mf_from f} s (snd (snd (on_frame hk now f s)))"
proof -
  obtain ok s1 where 1: "admit_control (mf_from f) now s = (ok, s1)" by fastforce
  have q: "hears {mf_from f} s s1" using hears_quiet [OF quiet_admit_control, of _ s "mf_from f" now] 1 by simp
  have drop: "hears {mf_from f} s (s\<lparr> sw_client_drops := x \<rparr>)" for x
    by (rule hears_quiet [OF quiet_record]) (simp_all add: context_of_def)
  have "hears {mf_from f} s1 (s1\<lparr> sw_control_sheds := x \<rparr>)" for x by (rule hears_quiet [OF quiet_record]) (simp_all add: context_of_def)
  then have shed: "hears {mf_from f} s (s1\<lparr> sw_control_sheds := x \<rparr>)" for x by (rule hears_trans_same [OF q])
  have main: "hears {mf_from f} s (snd (flush_events now (snd (handle_control hk now (mf_from f) m s1))))" for m
    by (rule hears_trans_same [OF hears_trans_same [OF q hears_permitted [OF permitted_control]] hears_flush])
  show ?thesis using drop shed q main hears_flush unfolding on_frame_def 1 prod.case
    by (auto simp: case_prod_unfold split: option.split)
qed

end
