(* ===== verification/Swim_Runs.thy ===== *)
theory Swim_Runs
  imports Swim_Cluster
begin

text \<open>
  Runs of a node: any list of operations of \<open>SwimMembership\<close>, from construction on, with arbitrary hooks,
  clock readings, frames and admission snapshots.  The properties of the published views, of the placement
  guard and of the authority of a single frame.
\<close>

section \<open>Operations and runs\<close>

datatype swim_op =
    OpTick swim_hooks int
  | OpFrame swim_hooks int message_frame
  | OpAdmit int node_id cluster_id
  | OpLeave int node_id
  | OpSuspend swim_hooks suspend_reason int
  | OpResume swim_hooks int
  | OpNetworkChanged int
  | OpRequestJoin swim_hooks node_id
  | OpApplyAdmission int
  | OpPublished admission_snapshot
  | OpTransportRefusal node_id "16 word" bool
  | OpOnline bool

fun swim_step :: "swim_op \<Rightarrow> swim \<Rightarrow> swim" where
  "swim_step (OpTick hk now) s = snd (snd (swim_tick hk now s))"
| "swim_step (OpFrame hk now f) s = snd (snd (on_frame hk now f s))"
| "swim_step (OpAdmit now j c) s = snd (snd (swim_admit now j c s))"
| "swim_step (OpLeave now w) s = snd (leave now w s)"
| "swim_step (OpSuspend hk why l) s = snd (suspend hk why l s)"
| "swim_step (OpResume hk now) s = snd (snd (resume hk now s))"
| "swim_step (OpNetworkChanged now) s = network_changed now s"
| "swim_step (OpRequestJoin hk seed) s = snd (request_join hk seed s)"
| "swim_step (OpApplyAdmission now) s = snd (apply_admission now s)"
| "swim_step (OpPublished snap) s = admission_published snap s"
| "swim_step (OpTransportRefusal p v b) s = note_transport_refusal p v b s"
| "swim_step (OpOnline b) s = set_online b s"

text \<open>The nodes an operation is first-hand evidence of.\<close>

fun speakers :: "swim_op \<Rightarrow> u64 set" where
  "speakers (OpFrame hk now f) = {mf_from f}"
| "speakers (OpAdmit now j c) = {j}"
| "speakers _ = {}"

definition swim_run :: "node_id \<Rightarrow> swim_config \<Rightarrow> u64 \<Rightarrow> bool \<Rightarrow> swim_op list \<Rightarrow> swim" where
  "swim_run self cfg secret sinks ops = fold swim_step ops (swim_create self cfg secret sinks)"

lemma hears_admit: "hears {j} s (snd (snd (swim_admit now j c s)))"
proof -
  have "hears {j} s (apply_update now SrcJoin j inc Alive s)" for inc
    using hears_update [of SrcJoin Alive j s now inc] by (simp add: first_hand_def)
  then show ?thesis using hears_trans_same [OF _ hears_flush] by (simp add: swim_admit_def)
qed

lemma hears_leave: "hears A s (snd (leave now w s))"
proof (cases "w = sw_self s")
  case False
  have "hears A s (apply_update now SrcLocal w (incarnation_of s w + kLeftBand) Left s)"
    by (rule hears_second_hand) (simp add: first_hand_def)
  then show ?thesis using False hears_trans_same [OF _ hears_flush] by (simp add: leave_def)
next
  case True
  let ?n = "note_transition now (sw_self s) Alive (republish (left_self s))"
  have "hears A s ?n"
  proof (rule hears_view)
    show "swim_inv s \<Longrightarrow> swim_inv ?n" by (rule left_self_inv)
    show "sw_self ?n = sw_self s" by (simp add: left_self_def Let_def)
    have u: "table_view (u\<lparr> sw_self_inc := x, sw_self_left := b \<rparr>) = table_view u" for u x b by (rule table_view_cong) simp
    fix i st k
    assume inv: "swim_inv s" and v: "table_view ?n i = Some (st, k, True)"
    obtain me where "member_of s (sw_self s) = Some me" "mb_verified me" using table_ok_self [OF inv] by blast
    then show "\<exists>st k. table_view s i = Some (st, k, True)"
      using v by (auto simp: left_self_def Let_def u table_view_def member_of_put entry_view_def split: if_splits)
  qed
  then show ?thesis unfolding True leave_self_eq by (rule hears_trans_same [OF _ hears_flush])
qed

lemma hears_suspend: "hears A s (snd (suspend hk why l s))"
proof -
  have q: "hears A s (snd (send_all hk ms s))" for ms by (rule hears_quiet [OF quiet_send_all])
  have u: "hears A t (t\<lparr> sw_suspended := b \<rparr>)" for t b
  proof (rule hears_same)
    show "swim_inv (t\<lparr> sw_suspended := b \<rparr>)" if "swim_inv t" by (rule iffD2 [OF swim_inv_cong that]) simp_all
    show "table_view (t\<lparr> sw_suspended := b \<rparr>) = table_view t" by (rule table_view_cong) simp
  qed simp
  show ?thesis using hears_trans_same [OF q u] by (simp add: suspend_def Let_def case_prod_unfold)
qed

lemma hears_forgive: "hears A s (forgive_local_state now s)"
proof (rule hears_view)
  have "sw_self (forgive_local_state now s) = sw_self s" by (simp add: forgive_local_state_def)
  then show "sw_self (forgive_local_state now s) = sw_self s" .
qed (simp_all add: forgive_inv)

lemma hears_set_self_inc: "hears A s (set_self_inc inc s)"
proof (rule hears_view)
  show "swim_inv s \<Longrightarrow> swim_inv (set_self_inc inc s)" by (rule set_self_inc_inv)
  fix i st k
  assume inv: "swim_inv s" and v: "table_view (set_self_inc inc s) i = Some (st, k, True)"
  obtain me where "member_of s (sw_self s) = Some me" "mb_verified me" using table_ok_self [OF inv] by blast
  then show "\<exists>st k. table_view s i = Some (st, k, True)"
  proof (cases "i = sw_self s")
    case True
    then show ?thesis using \<open>member_of s (sw_self s) = Some me\<close> \<open>mb_verified me\<close> by (simp add: table_view_def entry_view_def)
  next
    case False
    then show ?thesis using v set_self_inc_view [of i s inc] by simp
  qed
qed simp

lemma hears_resume: "hears A s (snd (snd (resume hk now s)))"
proof -
  have u: "hears A s (s\<lparr> sw_suspended := False \<rparr>)"
  proof (rule hears_same)
    show "swim_inv (s\<lparr> sw_suspended := False \<rparr>)" if "swim_inv s" by (rule iffD2 [OF swim_inv_cong that]) simp_all
    show "table_view (s\<lparr> sw_suspended := False \<rparr>) = table_view s" by (rule table_view_cong) simp
  qed simp
  define s1 where "s1 = evict_denied now (s\<lparr> sw_suspended := False \<rparr>)"
  define s2 where "s2 = forgive_local_state now (set_self_inc (sw_self_inc s1 + 1) s1)"
  have "hears A s s2" unfolding s2_def s1_def
    by (rule hears_trans_same [OF hears_trans_same [OF hears_trans_same [OF u hears_evict_denied] hears_set_self_inc] hears_forgive])
  then have "hears A s (snd (flush_events now (snd (send_all hk ms s2))))" for ms
    by (rule hears_trans_same [OF hears_trans_same [OF _ hears_quiet [OF quiet_send_all]] hears_flush])
  then show ?thesis by (simp add: resume_def Let_def s1_def [symmetric] s2_def [symmetric] case_prod_unfold)
qed

lemma hears_network_changed: "hears A s (network_changed now s)"
proof -
  have "hears A t (t\<lparr> sw_network_changes := x \<rparr>)" for t x
    by (rule hears_quiet [OF quiet_record]) (simp_all add: context_of_def)
  then have "hears A s ((forgive_local_state now s)\<lparr> sw_network_changes := x \<rparr>)" for x
    by (rule hears_trans_same [OF hears_forgive])
  then show ?thesis by (simp add: network_changed_def Let_def)
qed

lemma hears_step: "hears (speakers op) s (swim_step op s)"
proof (cases op)
  case (OpRequestJoin hk seed)
  then show ?thesis by (simp add: request_join_def hears_quiet quiet_send)
next
  case (OpApplyAdmission now)
  then show ?thesis using hears_trans_same [OF hears_evict_denied hears_flush] by (simp add: apply_admission_def)
next
  case (OpPublished snap)
  have "table_view (admission_published snap s) = table_view s" by (rule table_view_cong) (simp add: admission_published_def)
  moreover have "sw_self (admission_published snap s) = sw_self s" by (simp add: admission_published_def)
  ultimately show ?thesis using OpPublished by (simp add: hears_same)
next
  case (OpTransportRefusal p v b)
  have "table_view (note_transport_refusal p v b s) = table_view s" by (rule table_view_cong) (simp add: note_transport_refusal_def)
  moreover have "sw_self (note_transport_refusal p v b s) = sw_self s" by (simp add: note_transport_refusal_def)
  ultimately show ?thesis using OpTransportRefusal by (simp add: hears_same)
next
  case (OpOnline b)
  have "table_view (set_online b s) = table_view s" by (rule table_view_cong) (simp add: set_online_def)
  moreover have "sw_self (set_online b s) = sw_self s" by (simp add: set_online_def)
  ultimately show ?thesis using OpOnline by (simp add: hears_same)
qed (simp_all add: hears_tick hears_frame hears_admit hears_leave hears_suspend hears_resume hears_network_changed)

lemma run_hears:
  assumes "swim_inv s"
  shows "swim_inv (fold swim_step ops s) \<and> sw_self (fold swim_step ops s) = sw_self s \<and>
    heard (fold swim_step ops s) \<subseteq> heard s \<union> \<Union> (speakers ` set ops) \<union> {sw_self s}"
  using assms
proof (induction ops arbitrary: s)
  case (Cons op ops)
  have h: "hears (speakers op) s (swim_step op s)" by (rule hears_step)
  then have "swim_inv (swim_step op s)" "sw_self (swim_step op s) = sw_self s"
    "heard (swim_step op s) \<subseteq> heard s \<union> speakers op \<union> {sw_self s}" using Cons.prems by (simp_all add: hears_def)
  then show ?case using Cons.IH [of "swim_step op s"] by auto
qed auto

lemma run_inv: "swim_inv (swim_run self cfg secret sinks ops)"
  unfolding swim_run_def using run_hears [OF create_inv] by blast

lemma create_self [simp]: "sw_self (swim_create self cfg secret sinks) = self"
  by (simp add: swim_create_def Let_def)

lemma run_self: "sw_self (swim_run self cfg secret sinks ops) = self"
  unfolding swim_run_def using run_hears [OF create_inv] by simp

lemma create_heard: "heard (swim_create self cfg secret sinks) \<subseteq> {self}"
proof -
  have "sw_members (swim_create self cfg secret sinks) = [(self, member_init\<lparr> mb_cluster := sc_cluster_id (sanitize cfg), mb_incarnation := 1,
      mb_verified := True, mb_reported := 1, mb_wire_version := sc_wire_version (sanitize cfg) \<rparr>)]"
    by (simp add: swim_create_def Let_def)
  then show ?thesis by (auto simp: heard_def table_view_def member_of_def split: if_splits)
qed

section \<open>Properties of runs\<close>

text \<open>
  Property C9.  Well-formed tables.  At the end of any run the published views are the sorted live members, and
  for placement the live members heard at first hand, without repetitions; clients are never members; the node
  itself is live until it has left; tombstones stay within their cap and are counted exactly; suspended peers are
  live, heard at first hand and within the cap of the profile.
\<close>

theorem swim_tables_well_formed:
  "let s = swim_run self cfg secret sinks ops;
       live = {i. \<exists>m. member_of s i = Some m \<and> \<not> is_tomb (mb_status m)};
       placed = {i. i \<in> live \<and> (i = self \<or> i \<in> heard s)};
       tombs = {i. i \<noteq> self \<and> (\<exists>m. member_of s i = Some m \<and> is_tomb (mb_status m))};
       leased = {i. sl_contains i (sw_leases s)}
   in view_nodes (swim_view s) = sorted_list_of_set live \<and>
      view_nodes (placement_view s) = sorted_list_of_set placed \<and>
      {i. member_of s i \<noteq> None} \<inter> {i. is_client_node i} \<subseteq> {self} \<and>
      (self \<in> live) = (\<not> sw_self_left s) \<and>
      card tombs = sw_tomb_count s \<and> card tombs \<le> sc_max_tombstones (sw_cfg s) \<and>
      leased \<subseteq> placed - {self} \<and> card leased \<le> max_suspended (sc_mobile (sw_cfg s))"
proof -
  define s where "s = swim_run self cfg secret sinks ops"
  have inv: "swim_inv s" and self: "sw_self s = self" by (simp_all add: s_def run_inv run_self)
  have k: "keys_ok s" using inv by (simp add: swim_inv_def table_ok_def)
  have live: "live_set s = {i. \<exists>m. member_of s i = Some m \<and> \<not> is_tomb (mb_status m)}" by (simp add: live_set_def)
  have placed: "verified_set s = {i. i \<in> live_set s \<and> (i = self \<or> i \<in> heard s)}"
    by (auto simp: verified_set_def live_set_def heard_def table_view_def entry_view_def self)
  have tombs: "card {i. i \<noteq> self \<and> (\<exists>m. member_of s i = Some m \<and> is_tomb (mb_status m))} = sw_tomb_count s"
  proof -
    let ?l = "filter (\<lambda>(i, m). i \<noteq> sw_self s \<and> is_tomb (mb_status m)) (sw_members s)"
    have "{i. i \<noteq> self \<and> (\<exists>m. member_of s i = Some m \<and> is_tomb (mb_status m))} = set (map fst ?l)"
      using member_of_set [OF k] self by force
    moreover have "distinct (map fst ?l)" using k by (simp add: keys_ok_def distinct_map_filter)
    ultimately have "card {i. i \<noteq> self \<and> (\<exists>m. member_of s i = Some m \<and> is_tomb (mb_status m))} = tombs s"
      using distinct_card [of "map fst ?l"] by (simp add: tombs_def)
    then show ?thesis using inv by (simp add: swim_inv_def table_ok_def)
  qed
  have leased: "{i. sl_contains i (sw_leases s)} \<subseteq> verified_set s - {self}"
    using inv self by (auto simp: swim_inv_def leases_inv_def)
  have "card {i. sl_contains i (sw_leases s)} \<le> max_suspended (sc_mobile (sw_cfg s))"
  proof -
    have ok: "leases_ok (sc_mobile (sw_cfg s)) (sw_leases s)" using inv by (simp add: swim_inv_def leases_inv_def)
    have "{i. sl_contains i (sw_leases s)} = fst ` set (sw_leases s)" by (auto simp: sl_contains_def find_None_fst)
    then have "card {i. sl_contains i (sw_leases s)} \<le> length (sw_leases s)" using card_length [of "map fst (sw_leases s)"] by simp
    then show ?thesis using ok by (simp add: leases_ok_def)
  qed
  moreover have "{i. member_of s i \<noteq> None} \<inter> {i. is_client_node i} \<subseteq> {self}"
    using inv self by (auto simp: swim_inv_def table_ok_def no_clients_def)
  moreover have "(self \<in> live_set s) = (\<not> sw_self_left s)"
    using inv self by (auto simp: swim_inv_def table_ok_def self_entry_def live_set_def is_tomb_def split: if_splits)
  moreover have "view_nodes (swim_view s) = sorted_list_of_set (live_set s)" "view_nodes (placement_view s) = sorted_list_of_set (verified_set s)"
    "sw_tomb_count s \<le> sc_max_tombstones (sw_cfg s)"
    using inv by (simp_all add: swim_inv_def views_ok_def swim_view_def placement_view_def)
  ultimately show ?thesis
    using tombs leased unfolding s_def [symmetric] Let_def live [symmetric] placed [symmetric] by simp
qed

text \<open>
  Property C3.  The placement guard.  Whatever peers gossip, the placement view of a node holds, besides the
  node itself, only nodes that sent it a frame in their own name or that it admitted itself.
\<close>

theorem placement_only_of_speakers:
  "set (view_nodes (placement_view (swim_run self cfg secret sinks ops))) \<subseteq> insert self (\<Union> (speakers ` set ops))"
proof -
  let ?s = "swim_run self cfg secret sinks ops"
  have inv: "swim_inv ?s" and self: "sw_self ?s = self" by (simp_all add: run_inv run_self)
  have "heard ?s \<subseteq> insert self (\<Union> (speakers ` set ops))"
    using run_hears [OF create_inv, of ops self cfg secret sinks] create_heard [of self cfg secret sinks]
    unfolding swim_run_def by auto
  moreover have "verified_set ?s \<subseteq> insert self (heard ?s)"
    by (auto simp: verified_set_def heard_def table_view_def entry_view_def self)
  moreover have "set (view_nodes (placement_view ?s)) \<subseteq> verified_set ?s"
  proof -
    have "finite (verified_set ?s)"
    proof -
      have "keys_ok ?s" using inv by (simp add: swim_inv_def table_ok_def)
      then have "verified_set ?s \<subseteq> fst ` set (sw_members ?s)" by (force simp: verified_set_def member_of_set)
      then show ?thesis by (rule finite_subset) simp
    qed
    then show ?thesis using inv by (simp add: swim_inv_def views_ok_def placement_view_def)
  qed
  ultimately show ?thesis by blast
qed

section \<open>The authority of a frame\<close>

definition with_status :: "member_status \<Rightarrow> swim \<Rightarrow> u64 set" where
  "with_status st s = {i. \<exists>m. member_of s i = Some m \<and> mb_status m = st}"

lemma with_status_view: "i \<in> with_status st s \<longleftrightarrow> (\<exists>k v. table_view s i = Some (st, k, v))"
  by (auto simp: with_status_def table_view_def entry_view_def)

lemma live_set_view: "i \<in> live_set s \<longleftrightarrow> (\<exists>st k v. table_view s i = Some (st, k, v) \<and> \<not> is_tomb st)"
  by (auto simp: live_set_def table_view_def entry_view_def)

lemma frame_allowed:
  assumes "i \<noteq> self" and "i \<notin> pending (swim_run self cfg secret sinks ops)"
  shows "entry_allowed (i = mf_from f) (table_view (swim_run self cfg secret sinks ops) i)
    (table_view (snd (snd (on_frame hk now f (swim_run self cfg secret sinks ops)))) i)"
  using settled_frame [of "swim_run self cfg secret sinks ops" f hk now] run_inv [of self cfg secret sinks ops]
    run_self [of self cfg secret sinks ops] assms by (simp add: settled_def)

text \<open>
  Property C4.  What a peer can do to others.  In any reachable state one frame, whatever it says, leaves every
  third node that was live in the view live, with an incarnation no lower; it makes no node Dead; and it can make
  only its own sender Left or, for placement, first-hand.  Exempt are the nodes that an admission snapshot just
  denied, which this node evicts itself with the same call.
\<close>

theorem frame_authority:
  "let s = swim_run self cfg secret sinks ops; t = snd (snd (on_frame hk now f s)); own = {self, mf_from f}; evicted = pending s
   in live_set s - own - evicted \<subseteq> live_set t \<and>
      with_status Dead t - {self} \<subseteq> with_status Dead s \<union> evicted \<and>
      with_status Left t - own \<subseteq> with_status Left s \<union> evicted \<and>
      heard t - own \<subseteq> heard s \<union> evicted \<and>
      {i. i \<in> live_set s - own - evicted \<and> incarnation_of t i < incarnation_of s i} = {}"
proof -
  define s where "s = swim_run self cfg secret sinks ops"
  define t where "t = snd (snd (on_frame hk now f s))"
  have a: "entry_allowed (i = mf_from f) (table_view s i) (table_view t i)" if "i \<noteq> self" "i \<notin> pending s" for i
    using frame_allowed [of i self cfg secret sinks ops f hk now] that unfolding s_def t_def by simp
  have o: "entry_allowed False (table_view s i) (table_view t i)" if "i \<noteq> self" "i \<noteq> mf_from f" "i \<notin> pending s" for i
    using a [OF that(1,3)] that(2) by simp
  have live: "i \<in> live_set t \<and> incarnation_of s i \<le> incarnation_of t i"
    if i: "i \<in> live_set s" "i \<noteq> self" "i \<noteq> mf_from f" "i \<notin> pending s" for i
  proof -
    obtain m where m: "member_of s i = Some m" "\<not> is_tomb (mb_status m)" using i(1) by (auto simp: live_set_def)
    then have "table_view s i = Some (mb_status m, mb_incarnation m, mb_verified m)" by (simp add: table_view_def entry_view_def)
    with o [OF i(2-4)] m(2) obtain st k v where "table_view t i = Some (st, k, v)" "\<not> is_tomb st" "mb_incarnation m \<le> k"
      by (cases "table_view t i") (auto simp: entry_allowed_def)
    then show ?thesis using m(1) by (auto simp: live_set_def table_view_def entry_view_def incarnation_of_def)
  qed
  have dead: "i \<in> with_status Dead s" if "i \<in> with_status Dead t" "i \<noteq> self" "i \<notin> pending s" for i
    using a [OF that(2,3)] that(1) unfolding with_status_view by (auto simp: entry_allowed_def)
  have left: "i \<in> with_status Left s" if "i \<in> with_status Left t" "i \<noteq> self" "i \<noteq> mf_from f" "i \<notin> pending s" for i
    using o [OF that(2-4)] that(1) unfolding with_status_view by (auto simp: entry_allowed_def)
  have hd: "i \<in> heard s" if "i \<in> heard t" "i \<noteq> self" "i \<noteq> mf_from f" "i \<notin> pending s" for i
    using o [OF that(2-4)] that(1) unfolding heard_def by (auto simp: entry_allowed_def)
  have "live_set s - {self, mf_from f} - pending s \<subseteq> live_set t" using live by blast
  moreover have "with_status Dead t - {self} \<subseteq> with_status Dead s \<union> pending s" using dead by blast
  moreover have "with_status Left t - {self, mf_from f} \<subseteq> with_status Left s \<union> pending s" using left by blast
  moreover have "heard t - {self, mf_from f} \<subseteq> heard s \<union> pending s" using hd by blast
  moreover have "{i. i \<in> live_set s - {self, mf_from f} - pending s \<and> incarnation_of t i < incarnation_of s i} = {}"
    using live by (force simp: not_less [symmetric])
  ultimately show ?thesis unfolding s_def [symmetric] Let_def t_def [symmetric] by (intro conjI)
qed

end
