(* ===== verification/Swim_Digest.thy ===== *)
theory Swim_Digest
  imports Swim_Runs
begin

text \<open>
  The gossip digest that rides on every control frame, and the refutation of an accusation by two nodes that
  exchange frames.
\<close>

section \<open>What a digest says\<close>

text \<open>An entry is what the table says now, about the receiver, the sender or a peer heard at first hand.\<close>

definition truthful :: "node_id \<Rightarrow> swim \<Rightarrow> member_update \<Rightarrow> bool" where
  "truthful dest s u \<longleftrightarrow>
     (\<exists>st k v. table_view s (mu_node u) = Some (st, k, v) \<and> mu_incarnation u = k \<and> mu_status u = status_byte st \<and>
        (v \<or> mu_node u = dest \<or> mu_node u = sw_self s))"

lemma mu_node_update_of [simp]: "mu_node (update_of n m) = n"
  by (simp add: update_of_def)

text \<open>A digest under construction: no node twice, all entries truthful in the state it was started in.\<close>

definition digest_ok :: "node_id \<Rightarrow> swim \<Rightarrow> member_update list \<times> swim \<Rightarrow> bool" where
  "digest_ok dest s0 os \<longleftrightarrow>
     distinct (map mu_node (fst os)) \<and> (\<forall>u \<in> set (fst os). truthful dest s0 u) \<and>
     table_view (snd os) = table_view s0 \<and> sw_self (snd os) = sw_self s0"

lemma push_entry_view [simp]:
  "table_view (snd (push_entry n os)) = table_view (snd os)" "sw_self (snd (push_entry n os)) = sw_self (snd os)"
  "sw_probe (snd (push_entry n os)) = sw_probe (snd os)" "sw_cfg (snd (push_entry n os)) = sw_cfg (snd os)"
  by (cases os; simp add: push_entry_def split: option.split)+

lemma push_entry_out:
  "fst (push_entry n os) = (case member_of (snd os) n of None \<Rightarrow> fst os | Some m \<Rightarrow> fst os @ [update_of n m])"
  by (cases os) (simp add: push_entry_def split: option.split)

lemma digest_ok_append:
  assumes "digest_ok dest s0 os" and "member_of (snd os) n = Some m" and "n \<notin> mu_node ` set (fst os)"
    and "mb_verified m \<or> n = dest \<or> n = sw_self s0" and "table_view t = table_view (snd os)" and "sw_self t = sw_self (snd os)"
  shows "digest_ok dest s0 (fst os @ [update_of n m], t)"
proof -
  have "table_view s0 n = Some (mb_status m, mb_incarnation m, mb_verified m)"
    using assms(1,2) unfolding digest_ok_def by (metis entry_view_def option.simps(9) table_view_def)
  then have "truthful dest s0 (update_of n m)" using assms(4) by (simp add: truthful_def update_of_def)
  then show ?thesis using assms by (auto simp: digest_ok_def)
qed

lemma digest_ok_push:
  assumes "digest_ok dest s0 os" and "n \<notin> mu_node ` set (fst os)"
    and "\<And>m. member_of (snd os) n = Some m \<Longrightarrow> mb_verified m \<or> n = dest \<or> n = sw_self s0"
  shows "digest_ok dest s0 (push_entry n os)"
proof (cases "member_of (snd os) n")
  case None
  then show ?thesis using assms(1) by (cases os) (simp add: push_entry_def)
next
  case (Some m)
  have "digest_ok dest s0 (fst os @ [update_of n m], snd (push_entry n os))"
    using Some assms by (intro digest_ok_append [OF assms(1)]) auto
  moreover have "push_entry n os = (fst os @ [update_of n m], snd (push_entry n os))"
    using Some push_entry_out [of n os] by (metis option.simps(5) prod.collapse)
  ultimately show ?thesis by (simp only:)
qed

text \<open>A node that is in the output was visited by this pass, or belongs to the other one.\<close>

definition visited :: "bool \<Rightarrow> node_id \<Rightarrow> swim \<Rightarrow> u64 list \<Rightarrow> member_update list \<Rightarrow> bool" where
  "visited suspects dest s0 ids out \<longleftrightarrow>
     (\<forall>n \<in> mu_node ` set out. n = dest \<or> n = sw_self s0 \<or> n \<notin> set ids \<or>
        (\<exists>st k v. table_view s0 n = Some (st, k, v) \<and> (st = Suspect) \<noteq> suspects))"

lemma digest_ok_pass:
  assumes "digest_ok dest s0 os" and "visited suspects dest s0 ids (fst os)" and "distinct ids" and "length (fst os) \<le> room"
  shows "digest_ok dest s0 (piggyback_pass suspects dest room ids os) \<and> length (fst (piggyback_pass suspects dest room ids os)) \<le> room"
  using assms
proof (induction suspects dest room ids os rule: piggyback_pass.induct)
  case (2 suspects dest room i "is" os)
  show ?case
  proof (cases "room \<le> length (fst os)")
    case True
    then show ?thesis using "2.prems" by simp
  next
    case False
    let ?os = "case member_of (snd os) i of None \<Rightarrow> os
         | Some m \<Rightarrow>
             if i = dest \<or> i = sw_self (snd os) \<or> mb_tx_left m = 0 then os
             else if \<not> mb_verified m then os
             else if (mb_status m = Suspect) \<noteq> suspects then os
             else push_entry i os"
    have e: "piggyback_pass suspects dest room (i # is) os = piggyback_pass suspects dest room is ?os"
      using False by (simp only: piggyback_pass.simps if_False)
    have d: "distinct is" "i \<notin> set is" using "2.prems"(3) by auto
    have v: "visited suspects dest s0 is (fst os)" using "2.prems"(2) by (auto simp: visited_def)
    have self: "sw_self (snd os) = sw_self s0" using "2.prems"(1) by (simp add: digest_ok_def)
    have "digest_ok dest s0 ?os \<and> visited suspects dest s0 is (fst ?os) \<and> length (fst ?os) \<le> room"
    proof (cases "?os = os")
      case True
      then show ?thesis using "2.prems" v by (simp only:)
    next
      case push: False
      then obtain m where m: "member_of (snd os) i = Some m" "i \<noteq> dest" "i \<noteq> sw_self s0" "mb_verified m" "(mb_status m = Suspect) = suspects"
        using self by (auto split: option.splits if_splits)
      have os: "?os = push_entry i os" using push m by (auto split: if_splits)
      have tv: "table_view s0 i = Some (mb_status m, mb_incarnation m, mb_verified m)"
        using "2.prems"(1) m(1) unfolding digest_ok_def by (metis entry_view_def option.simps(9) table_view_def)
      have new: "i \<notin> mu_node ` set (fst os)" using "2.prems"(2) m tv by (auto simp: visited_def)
      have a: "digest_ok dest s0 ?os" unfolding os by (rule digest_ok_push [OF "2.prems"(1) new]) (use m in auto)
      have "fst (push_entry i os) = fst os @ [update_of i m]" by (simp add: push_entry_out m(1))
      then have o: "fst ?os = fst os @ [update_of i m]" by (subst os)
      have b: "visited suspects dest s0 is (fst ?os)" unfolding o using v d(2) by (auto simp: visited_def update_of_def)
      have c: "length (fst ?os) \<le> room" unfolding o using False by simp
      show ?thesis using a b c by blast
    qed
    then show ?thesis unfolding e using "2.IH" [OF False _ _ d(1)] by blast
  qed
qed simp

lemma pass_adds:
  assumes "table_view (snd os) = table_view s0"
  shows "\<exists>xs. fst (piggyback_pass suspects dest room ids os) = fst os @ xs \<and>
    (\<forall>u \<in> set xs. \<exists>st k v. table_view s0 (mu_node u) = Some (st, k, v) \<and> (st = Suspect) = suspects)"
  using assms
proof (induction suspects dest room ids os rule: piggyback_pass.induct)
  case (2 suspects dest room i "is" os)
  show ?case
  proof (cases "room \<le> length (fst os)")
    case False
    let ?os = "case member_of (snd os) i of None \<Rightarrow> os
         | Some m \<Rightarrow>
             if i = dest \<or> i = sw_self (snd os) \<or> mb_tx_left m = 0 then os
             else if \<not> mb_verified m then os
             else if (mb_status m = Suspect) \<noteq> suspects then os
             else push_entry i os"
    have e: "piggyback_pass suspects dest room (i # is) os = piggyback_pass suspects dest room is ?os"
      using False by (simp only: piggyback_pass.simps if_False)
    have "?os = os \<or> ?os = push_entry i os" by (auto split: option.split)
    then have tv: "table_view (snd ?os) = table_view s0" using "2.prems" by auto
    have "\<exists>ys. fst ?os = fst os @ ys \<and> (\<forall>u \<in> set ys. \<exists>st k v. table_view s0 (mu_node u) = Some (st, k, v) \<and> (st = Suspect) = suspects)"
    proof (cases "?os = os")
      case True
      then show ?thesis by (simp only: append_Nil2 [symmetric]) (intro exI [of _ "[]"], simp)
    next
      case push: False
      then obtain m where m: "member_of (snd os) i = Some m" "(mb_status m = Suspect) = suspects" "?os = push_entry i os"
        by (auto split: option.splits if_splits)
      then have "fst ?os = fst os @ [update_of i m]" by (simp only: push_entry_out option.case)
      moreover have "table_view s0 i = Some (mb_status m, mb_incarnation m, mb_verified m)"
        using "2.prems" m(1) by (metis entry_view_def option.simps(9) table_view_def)
      ultimately show ?thesis using m(2) by (intro exI [of _ "[update_of i m]"]) (simp add: update_of_def)
    qed
    then obtain ys where ys: "fst ?os = fst os @ ys" "\<forall>u \<in> set ys. \<exists>st k v. table_view s0 (mu_node u) = Some (st, k, v) \<and> (st = Suspect) = suspects"
      by blast
    from "2.IH" [OF False tv] obtain xs where "fst (piggyback_pass suspects dest room is ?os) = fst ?os @ xs"
      "\<forall>u \<in> set xs. \<exists>st k v. table_view s0 (mu_node u) = Some (st, k, v) \<and> (st = Suspect) = suspects" by blast
    then show ?thesis unfolding e using ys by (intro exI [of _ "ys @ xs"]) auto
  qed simp
qed simp

lemma digest_ok_passes:
  assumes ok: "digest_ok dest s0 os" and n: "set (map mu_node (fst os)) \<subseteq> {dest, sw_self s0}" and k: "keys_ok (snd os)"
    and len: "length (fst os) \<le> cap" "room \<le> cap"
  shows "digest_ok dest s0 (piggyback_passes dest room os)" and "length (fst (piggyback_passes dest room os)) \<le> cap"
    and "\<exists>xs. fst (piggyback_passes dest room os) = fst os @ xs"
proof -
  define ids where "ids = map fst (sw_members (snd os))"
  define pass where "pass = (\<lambda>b os. if 0 < sw_tx_pending (snd os) \<and> length (fst os) < room then piggyback_pass b dest room ids os else os)"
  have d: "distinct ids" using k by (simp add: ids_def keys_ok_def)
  define os1 where "os1 = pass True os"
  have tv: "table_view (snd os) = table_view s0" using ok by (simp add: digest_ok_def)
  have v: "visited True dest s0 ids (fst os)" using n by (auto simp: visited_def)
  have 1: "digest_ok dest s0 os1 \<and> length (fst os1) \<le> cap"
    using digest_ok_pass [OF ok v d, of room] ok len by (auto simp: os1_def pass_def intro: le_trans)
  obtain xs where xs: "fst os1 = fst os @ xs" "\<forall>u \<in> set xs. \<exists>st k v. table_view s0 (mu_node u) = Some (st, k, v) \<and> st = Suspect"
  proof (cases "os1 = os")
    case True
    then show ?thesis using that [of "[]"] by simp
  next
    case False
    then have "os1 = piggyback_pass True dest room ids os" by (auto simp: os1_def pass_def)
    then show ?thesis using pass_adds [OF tv, of True dest room ids] that by auto
  qed
  have v1: "visited False dest s0 ids (fst os1)" unfolding visited_def
  proof
    fix i
    assume "i \<in> mu_node ` set (fst os1)"
    then consider "i \<in> set (map mu_node (fst os))" | u where "u \<in> set xs" "i = mu_node u" using xs(1) by auto
    then show "i = dest \<or> i = sw_self s0 \<or> i \<notin> set ids \<or> (\<exists>st k v. table_view s0 i = Some (st, k, v) \<and> (st = Suspect) \<noteq> False)"
    proof cases
      case 1
      then show ?thesis using n by auto
    next
      case 2
      then show ?thesis using xs(2) by auto
    qed
  qed
  have e: "piggyback_passes dest room os = pass False os1"
    unfolding piggyback_passes_def Let_def os1_def pass_def ids_def by simp
  show "digest_ok dest s0 (piggyback_passes dest room os)" "length (fst (piggyback_passes dest room os)) \<le> cap"
    unfolding e using digest_ok_pass [OF _ v1 d, of room] 1 len by (auto simp: pass_def intro: le_trans)
  have "table_view (snd os1) = table_view s0" using 1 by (simp add: digest_ok_def)
  then have "\<exists>ys. fst (pass False os1) = fst os1 @ ys" using pass_adds [of os1 s0 False dest room ids] by (auto simp: pass_def)
  then show "\<exists>xs. fst (piggyback_passes dest room os) = fst os @ xs" unfolding e xs(1) by auto
qed

lemma digest_ok_cursor:
  assumes "digest_ok dest s0 os" and "length (fst os) \<le> cap" and "\<forall>n \<in> set (take fixed (map mu_node (fst os))). n = dest \<or> n = sw_self s0"
    and "fixed \<le> length (fst os)"
  shows "digest_ok dest s0 (cursor_pass dest cap fixed is os) \<and> length (fst (cursor_pass dest cap fixed is os)) \<le> cap"
  using assms
proof (induction dest cap fixed "is" os rule: cursor_pass.induct)
  case (2 dest cap fixed i "is" out s)
  show ?case
  proof (cases "cap \<le> length out")
    case True
    then show ?thesis using "2.prems" by simp
  next
    case False
    let ?os = "if i = dest \<or> i = sw_self s then (out, s)
         else if i \<in> set (map mu_node (drop fixed out)) then (out, s)
         else case member_of s i of None \<Rightarrow> (out, s)
           | Some m \<Rightarrow> if \<not> mb_verified m then (out, s) else (out @ [update_of i m], s\<lparr> sw_cursor := i \<rparr>)"
    have e: "cursor_pass dest cap fixed (i # is) (out, s) = cursor_pass dest cap fixed is ?os"
      using False by (simp only: cursor_pass.simps if_False)
    have self: "sw_self s = sw_self s0" using "2.prems"(1) by (simp add: digest_ok_def)
    have "digest_ok dest s0 ?os \<and> length (fst ?os) \<le> cap \<and> (\<forall>n \<in> set (take fixed (map mu_node (fst ?os))). n = dest \<or> n = sw_self s0) \<and>
        fixed \<le> length (fst ?os)"
    proof (cases "?os = (out, s)")
      case True
      then show ?thesis using "2.prems" by (simp only:)
    next
      case push: False
      then obtain m where m: "member_of s i = Some m" "mb_verified m" "i \<noteq> dest" "i \<noteq> sw_self s0" "i \<notin> set (map mu_node (drop fixed out))"
        using self by (auto split: option.splits if_splits)
      have os: "?os = (out @ [update_of i m], s\<lparr> sw_cursor := i \<rparr>)" using push m self by (auto split: if_splits)
      have split: "set (map mu_node out) = set (take fixed (map mu_node out)) \<union> set (map mu_node (drop fixed out))"
        by (metis append_take_drop_id drop_map set_append)
      have new: "i \<notin> mu_node ` set out" using m(3,4,5) "2.prems"(3) split by auto
      have tv: "table_view (s\<lparr> sw_cursor := i \<rparr>) = table_view s" by (rule table_view_cong) simp
      have a: "digest_ok dest s0 ?os" unfolding os
        using digest_ok_append [OF "2.prems"(1), of i m "s\<lparr> sw_cursor := i \<rparr>"] m new tv by simp
      show ?thesis using a False "2.prems"(3,4) unfolding os by simp
    qed
    then show ?thesis unfolding e using "2.IH" [OF False] by blast
  qed
qed simp

text \<open>
  Property C12.  The digest of a control frame fits its cap, names no node twice, and says of each what the
  sender's table says, about the receiver, the sender itself or a peer heard at first hand: what was only
  gossiped is never passed on.
\<close>

theorem digest_truthful_and_bounded:
  "length (fst (fill_digest dest (swim_run self cfg secret sinks ops))) \<le> sc_max_gossip_updates (sw_cfg (swim_run self cfg secret sinks ops)) \<and>
   distinct (map mu_node (fst (fill_digest dest (swim_run self cfg secret sinks ops)))) \<and>
   list_all (truthful dest (swim_run self cfg secret sinks ops)) (fst (fill_digest dest (swim_run self cfg secret sinks ops)))"
proof -
  define s where "s = swim_run self cfg secret sinks ops"
  let ?cap = "sc_max_gossip_updates (sw_cfg s)"
  have inv: "swim_inv s" by (simp add: s_def run_inv)
  have k: "keys_ok s" using table_ok_self [OF inv] by blast
  have "length (fst (fill_digest dest s)) \<le> ?cap \<and> digest_ok dest s (fill_digest dest s)"
  proof (cases "?cap = 0")
    case True
    then show ?thesis by (simp add: fill_digest_def digest_ok_def)
  next
    case False
    obtain o1 s1 where 1: "(if dest \<noteq> sw_self s then push_entry dest ([], s) else ([], s)) = (o1, s1)" by fastforce
    obtain o2 s2 where 2: "(if length o1 < ?cap then push_entry (sw_self s1) (o1, s1) else (o1, s1)) = (o2, s2)" by fastforce
    define room where "room = ?cap - min (length (sw_members s2) - length o2) (if 2 < ?cap then (?cap - 1) div 2 else 0)"
    obtain o3 s3 where 3: "piggyback_passes dest room (o2, s2) = (o3, s3)" by fastforce
    have "digest_ok dest s ([], s)" by (simp add: digest_ok_def)
    then have "digest_ok dest s (if dest \<noteq> sw_self s then push_entry dest ([], s) else ([], s))"
      using digest_ok_push [of dest s "([], s)" dest] by auto
    then have ok1: "digest_ok dest s (o1, s1)" unfolding 1 .
    have o1: "set (map mu_node o1) \<subseteq> {dest}" "length o1 \<le> 1" "dest = sw_self s \<Longrightarrow> o1 = []"
      using 1 push_entry_out [of dest "([], s)"] by (auto simp: update_of_def split: if_splits option.splits)
    have self1: "sw_self s1 = sw_self s" using ok1 by (simp add: digest_ok_def)
    have new: "sw_self s1 \<notin> mu_node ` set o1" using o1 self1 by (cases "dest = sw_self s") auto
    have "digest_ok dest s (if length o1 < ?cap then push_entry (sw_self s1) (o1, s1) else (o1, s1))"
      using digest_ok_push [OF ok1, of "sw_self s1"] new ok1 self1 by simp
    then have ok2: "digest_ok dest s (o2, s2)" unfolding 2 .
    have o2: "set (map mu_node o2) \<subseteq> {dest, sw_self s}" "length o2 \<le> ?cap"
      using 2 push_entry_out [of "sw_self s1" "(o1, s1)"] o1 self1 False by (auto simp: update_of_def split: if_splits option.splits)
    have room: "room \<le> ?cap" by (simp add: room_def)
    have tv2: "table_view s2 = table_view s" "sw_self s2 = sw_self s" using ok2 by (simp_all add: digest_ok_def)
    have "quiet s s2"
      using quiet_push [of s dest "[]"] quiet_push [of s1 "sw_self s1" o1] 1 2 quiet_trans [of s s1 s2] by (auto split: if_splits)
    then have k2: "keys_ok s2" using quiet_inv [OF _ inv] table_ok_self by blast
    note p = digest_ok_passes [of dest s "(o2, s2)" ?cap room, unfolded fst_conv snd_conv 3, OF ok2 o2(1) k2 o2(2) room]
    let ?s4 = "refresh_sorted_ids s3"
    let ?ids = "rotate (length (takeWhile (\<lambda>i. i \<le> sw_cursor ?s4) (sw_sorted ?s4))) (sw_sorted ?s4)"
    obtain xs where xs: "o3 = o2 @ xs" using p(3) by auto
    have "table_view ?s4 = table_view s3" by (rule table_view_cong) (simp add: refresh_sorted_ids_def)
    then have ok4: "digest_ok dest s (o3, ?s4)" using p(1) by (auto simp: digest_ok_def refresh_sorted_ids_def)
    have c: "digest_ok dest s (cursor_pass dest ?cap (length o2) ?ids (o3, ?s4)) \<and>
        length (fst (cursor_pass dest ?cap (length o2) ?ids (o3, ?s4))) \<le> ?cap"
      using digest_ok_cursor [OF ok4, of ?cap "length o2" ?ids] p(2) o2(1) by (auto simp: xs)
    have "fill_digest dest s = (if ?cap \<le> length o3 then (o3, s3) else cursor_pass dest ?cap (length o2) ?ids (o3, ?s4))"
      using False unfolding fill_digest_def Let_def 1 2 prod.case room_def [symmetric] 3 by simp
    then show ?thesis using p(1,2) c by auto
  qed
  then show ?thesis unfolding s_def [symmetric] by (auto simp: digest_ok_def list_all_iff)
qed

end
