(* ===== verification/Swim_Detection.thy ===== *)
theory Swim_Detection
  imports Swim_Digest
begin

text \<open>
  Failure detection and refutation: a silent peer is taken out of the view by the ticks alone, an accused peer
  that answers is cleared, and the one corner in which it is not.
\<close>

section \<open>Refutation\<close>

text \<open>The defaults of the configuration.\<close>

definition swim_config_default :: swim_config where
  "swim_config_default = \<lparr> sc_cluster_id = 0, sc_ack_timeout = 200000000, sc_suspicion_timeout = 1000000000, sc_indirect_k = 2,
     sc_gossip_fanout = 3, sc_max_gossip_updates = 32, sc_max_capability_bytes = 4096, sc_max_signed = 8, sc_seed = 0,
     sc_high_watermark = 10000, sc_low_watermark = 5000, sc_congestion_window = 2000000000, sc_congestion_refresh = 500000000,
     sc_indirect_timeout = 0, sc_tombstone_ttl = 60000000000, sc_max_tombstones = 256, sc_max_live = 4096,
     sc_tomb_probe_interval = 500000000, sc_tomb_probe_budget = 2, sc_verify_budget = 16, sc_control_rate = 4096,
     sc_control_burst = 1024, sc_unverified_ttl = 30000000000, sc_wire_version = kSwimWireVersion, sc_authority_only = False,
     sc_mobile = mobile_profile_default \<rparr>"

lemma word_less_succ: "(x :: 64 word) \<noteq> -1 \<Longrightarrow> x < x + 1"
proof -
  assume "x \<noteq> -1"
  then have "1 + x \<noteq> 0" by (metis add.commute eq_neg_iff_add_eq_0)
  then have "unat (1 + x) = Suc (unat x)" by (rule unatSuc)
  then show "x < x + 1" by (simp add: word_less_nat_alt add.commute)
qed

lemma status_of_status_byte [simp]: "status_of_byte (status_byte st) = Some st"
  by (cases st) (simp_all add: status_of_byte_def status_byte_def status_code_def)

text \<open>What a frame of the accused says of its incarnation after it has seen the accusation.\<close>

lemma accused_incarnation:
  assumes "\<not> is_client_node (sw_self b)" and "\<not> sw_self_left b" and "mb_status e = Suspect"
  shows "sw_self_inc (merge_update now from (update_of (sw_self b) e) b) =
    (if sw_self_inc b \<le> mb_incarnation e then mb_incarnation e + 1 else sw_self_inc b)"
  using assms by (simp add: merge_update_def update_of_def apply_update_def apply_self_def Let_def)

text \<open>What the accuser makes of a frame of the accused.\<close>

lemma hear_accused:
  assumes "keys_ok a" and "B \<noteq> sw_self a" and "\<not> is_client_node B" and "\<not> denied_by (sw_admission a) B"
    and e: "member_of a B = Some e" "mb_status e = Suspect" and m: "cm_from m = B"
  shows "table_view (hear_sender now m a) B =
    (if mb_incarnation e < cm_from_incarnation m then Some (Alive, cm_from_incarnation m, True) else Some (Suspect, mb_incarnation e, True))"
proof -
  let ?e = "e\<lparr> mb_last_direct := Some now \<rparr>"
  let ?a = "put_member B ?e a"
  let ?t = "apply_update now SrcDirect B (cm_from_incarnation m) Alive ?a"
  have k: "keys_ok ?a" using assms(1) by simp
  have ma: "member_of ?a B = Some ?e" by (simp add: member_of_put)
  have "outcome now SrcDirect B (cm_from_incarnation m) Alive ?a =
      (if mb_incarnation e < cm_from_incarnation m then Some (Alive, cm_from_incarnation m, True) else Some (Suspect, mb_incarnation e, True))"
    using e(2) by (simp add: outcome_def ma decide_def first_hand_def)
  moreover have "\<not> refused_update SrcDirect B Alive ?a" using assms(3,4) by (simp add: refused_update_def)
  ultimately have "expected now SrcDirect B (cm_from_incarnation m) Alive ?a B =
      (if mb_incarnation e < cm_from_incarnation m then Some (Alive, cm_from_incarnation m, True) else Some (Suspect, mb_incarnation e, True))"
    by (simp add: expected_def)
  then have "table_view ?t B =
      (if mb_incarnation e < cm_from_incarnation m then Some (Alive, cm_from_incarnation m, True) else Some (Suspect, mb_incarnation e, True))"
    using apply_update_view [OF k _ refl, of B now SrcDirect "cm_from_incarnation m" Alive B] assms(2) by (auto simp: is_tomb_def split: if_splits)
  moreover have "table_view (hear_sender now m a) = table_view ?t"
    using e(1) m assms(2) by (simp add: hear_sender_def Let_def)
  ultimately show ?thesis by simp
qed

lemma table_view_status: "table_view s n = Some (st, k, v) \<Longrightarrow> status_of s n = st \<and> incarnation_of s n = k"
  by (auto simp: table_view_def entry_view_def status_of_def incarnation_of_def)

text \<open>
  Property C11.  Refutation.  Let one node suspect another at an incarnation below the largest.  Once the accused
  has merged the accuser's entry about it, its next frame clears it: the accuser has it Alive at the higher
  incarnation the frame carries.
\<close>

theorem refutation_wins:
  assumes "keys_ok a" and "B \<noteq> sw_self a" and "\<not> denied_by (sw_admission a) B"
    and "member_of a B = Some e" and "mb_status e = Suspect" and "mb_incarnation e \<noteq> -1"
    and "sw_self b = B" and "\<not> sw_self_left b" and "\<not> is_client_node B"
    and "cm_from m = B" and "cm_from_incarnation m = sw_self_inc (merge_update now_b (sw_self a) (update_of B e) b)"
  shows "status_of (hear_sender now_a m a) B = Alive \<and> mb_incarnation e < incarnation_of (hear_sender now_a m a) B"
proof -
  have inc: "cm_from_incarnation m = (if sw_self_inc b \<le> mb_incarnation e then mb_incarnation e + 1 else sw_self_inc b)"
    using accused_incarnation [of b e now_b "sw_self a"] assms by simp
  have "mb_incarnation e < mb_incarnation e + 1" using assms(6) by (rule word_less_succ)
  then have lt: "mb_incarnation e < cm_from_incarnation m" unfolding inc by auto
  then have "table_view (hear_sender now_a m a) B = Some (Alive, cm_from_incarnation m, True)"
    using hear_accused [OF assms(1,2,9,3,4,5,10), of now_a] by simp
  then show ?thesis using table_view_status lt by fastforce
qed


definition suspecting_node :: "u64 \<Rightarrow> swim" where
  "suspecting_node inc = put_member 2 (member_init\<lparr> mb_incarnation := inc, mb_status := Suspect \<rparr>) (swim_create 1 swim_config_default 7 False)"

lemma suspecting_node_facts:
  "keys_ok (suspecting_node inc)" "sw_self (suspecting_node inc) = 1" "sw_admission (suspecting_node inc) = None"
  "member_of (suspecting_node inc) 2 = Some (member_init\<lparr> mb_incarnation := inc, mb_status := Suspect \<rparr>)"
  "\<not> sw_self_left (swim_create 2 swim_config_default 7 False)" "\<not> is_client_node 2"
proof -
  have "keys_ok (swim_create 1 swim_config_default 7 False)" using table_ok_self [OF create_inv] by blast
  then show "keys_ok (suspecting_node inc)" by (simp add: suspecting_node_def)
  show "sw_admission (suspecting_node inc) = None" by (simp add: suspecting_node_def swim_create_def Let_def)
  show "\<not> sw_self_left (swim_create 2 swim_config_default 7 False)" by (simp add: swim_create_def Let_def)
  show "\<not> is_client_node 2" by (simp add: is_client_node_iff_bit)
qed (simp_all add: suspecting_node_def member_of_put)

lemma refutation_wins_witness:
  "status_of (hear_sender 9 (control_msg_init\<lparr> cm_from := 2, cm_from_incarnation := sw_self_inc (merge_update 8 1
      (update_of 2 (member_init\<lparr> mb_incarnation := 5, mb_status := Suspect \<rparr>)) (swim_create 2 swim_config_default 7 False)) \<rparr>)
      (suspecting_node 5)) 2 = Alive"
  using refutation_wins [of "suspecting_node 5" 2 "member_init\<lparr> mb_incarnation := 5, mb_status := Suspect \<rparr>"
      "swim_create 2 swim_config_default 7 False"
      "control_msg_init\<lparr> cm_from := 2, cm_from_incarnation := sw_self_inc (merge_update 8 1
        (update_of 2 (member_init\<lparr> mb_incarnation := 5, mb_status := Suspect \<rparr>)) (swim_create 2 swim_config_default 7 False)) \<rparr>" 8 9]
    suspecting_node_facts by (simp add: denied_by_def)


section \<open>Other nodes' entries\<close>

lemma enforce_member:
  assumes "keys_ok s"
  shows "member_of (enforce_tomb_cap s) i = member_of s i \<or>
    member_of (enforce_tomb_cap s) i = None \<and> (\<exists>m. member_of s i = Some m \<and> is_tomb (mb_status m))"
    and "sw_leases (enforce_tomb_cap s) = sw_leases s"
proof -
  have "(member_of (enforce_tomb_cap s) i = member_of s i \<or>
      member_of (enforce_tomb_cap s) i = None \<and> (\<exists>m. member_of s i = Some m \<and> is_tomb (mb_status m))) \<and>
      sw_leases (enforce_tomb_cap s) = sw_leases s"
    using assms
  proof (induction s rule: enforce_tomb_cap.induct)
    case (1 s)
    show ?case
    proof (cases "sc_max_tombstones (sw_cfg s) < sw_tomb_count s \<and> tomb_victim (sw_self s) (sw_members s) None \<noteq> None")
      case False
      then have "enforce_tomb_cap s = s" by (subst enforce_tomb_cap.simps) (auto split: option.split)
      then show ?thesis by simp
    next
      case True
      then obtain j m where v: "tomb_victim (sw_self s) (sw_members s) None = Some (j, m)" by auto
      have m: "member_of s j = Some m" using tomb_victim_in [OF v] member_of_set [OF 1(2)] by auto
      have t: "is_tomb (mb_status m)"
        using tomb_victim_tomb [where victim = None and self = "sw_self s" and ms = "sw_members s"] v by simp
      let ?s = "(erase_member j s)\<lparr> sw_tx_pending := (if mb_tx_left m \<noteq> 0 then sw_tx_pending s - 1 else sw_tx_pending s),
          sw_tomb_count := sw_tomb_count s - 1, sw_ids_dirty := True \<rparr>"
      have e: "enforce_tomb_cap s = enforce_tomb_cap ?s" using True v by (subst enforce_tomb_cap.simps) simp
      have k: "keys_ok ?s" using keys_ok_erase [OF 1(2), of j] by (simp add: keys_ok_def)
      have vw: "member_of ?s i = (if i = j then None else member_of s i)"
        using member_of_erase [of j s i] by (simp add: member_of_def)
      show ?thesis using 1(1) [OF conjunct1 [OF True] v refl k] vw m t unfolding e by (cases "i = j") auto
    qed
  qed
  then show "member_of (enforce_tomb_cap s) i = member_of s i \<or>
      member_of (enforce_tomb_cap s) i = None \<and> (\<exists>m. member_of s i = Some m \<and> is_tomb (mb_status m))"
    "sw_leases (enforce_tomb_cap s) = sw_leases s" by blast+
qed

lemma note_other: "i \<noteq> n \<Longrightarrow> member_of (note_transition now n p s) i = member_of s i"
  using note_transition_members [of now n p s] by (auto simp: member_of_def member_of_put [unfolded member_of_def])

lemma set_tx_other: "i \<noteq> n \<Longrightarrow> member_of (set_tx_of n v s) i = member_of s i"
  using member_of_put [of n _ s i] by (auto simp: set_tx_of_def member_of_def split: option.split prod.split)

text \<open>An update leaves the entries of other live nodes and takes no lease.\<close>

definition apart :: "node_id \<Rightarrow> swim \<Rightarrow> swim \<Rightarrow> bool" where
  "apart n s t \<longleftrightarrow> keys_ok t \<and> (\<forall>i. i \<noteq> n \<longrightarrow> member_of t i = member_of s i) \<and>
     (sw_leases t = sw_leases s \<or> sw_leases t = sl_clear n (sw_leases s))"

lemma apart_put: "keys_ok s \<Longrightarrow> apart n s (put_member n m s)"
  by (simp add: apart_def member_of_put)

lemma apart_record:
  assumes "apart n s t" and "sw_members u = sw_members t" and "sw_leases u = sw_leases t"
  shows "apart n s u"
  using assms keys_ok_cong [of u t] by (simp add: apart_def member_of_def)

lemma apart_set_tx: "apart n s t \<Longrightarrow> apart n s (set_tx_of n v t)"
  by (simp add: apart_def set_tx_other)

lemma apart_note: "apart n s t \<Longrightarrow> sw_leases t = sw_leases s \<Longrightarrow> apart n s (note_transition now n p t)"
  by (simp add: apart_def note_other note_transition_leases split: option.split)

lemma apart_unknown:
  assumes "keys_ok s" and "member_of s n = None"
  shows "\<exists>u. (apply_unknown now src n inc st s = u \<or> apply_unknown now src n inc st s = enforce_tomb_cap u) \<and> apart n s u"
proof (cases "created src st s")
  case False
  then have "apply_unknown now src n inc st s = s" by (auto simp: apply_unknown_def created_def)
  then show ?thesis using assms by (intro exI [of _ s]) (simp add: apart_def)
next
  case True
  let ?m0 = "member_init\<lparr> mb_cluster := sc_cluster_id (sw_cfg s), mb_incarnation := inc, mb_status := st, mb_verified := first_hand src st, mb_first_seen := now \<rparr>"
  obtain m1 p where x: "set_tx (if first_hand src st then piggyback_count s else 0) ?m0 (sw_tx_pending s) = (m1, p)" by fastforce
  define m3 where "m3 = (let m2 = if is_tomb st then m1\<lparr> mb_death := now, mb_last_probe := Some now \<rparr> else m1 in
      if n = sw_ctx_from s then m2\<lparr> mb_wire_version := sw_ctx_version s \<rparr> else m2)"
  define s1 where "s1 = (put_member n m3 s)\<lparr> sw_tx_pending := p, sw_ids_dirty := True,
      sw_tomb_count := (if is_tomb st then sw_tomb_count s + 1 else sw_tomb_count s) \<rparr>"
  have e: "apply_unknown now src n inc st s = enforce_tomb_cap (note_transition now n Alive (if is_tomb st then s1 else republish s1))"
    using True x by (auto simp: apply_unknown_def created_def Let_def s1_def m3_def)
  have a: "apart n s s1" by (rule apart_record [OF apart_put [OF assms(1), of n m3]]) (simp_all add: s1_def)
  have "apart n s (republish s1)" by (rule apart_record [OF a]) simp_all
  with a have "apart n s (if is_tomb st then s1 else republish s1)" by simp
  moreover have "sw_leases s1 = sw_leases s" by (simp add: s1_def)
  then have "sw_leases (if is_tomb st then s1 else republish s1) = sw_leases s" by simp
  ultimately have "apart n s (note_transition now n Alive (if is_tomb st then s1 else republish s1))" by (rule apart_note)
  then show ?thesis using e by blast
qed

lemma apart_known:
  assumes "keys_ok s"
  shows "\<exists>u. (apply_known now src n inc st cur0 s = u \<or> apply_known now src n inc st cur0 s = enforce_tomb_cap u) \<and> apart n s u"
proof -
  define cur where "cur = (if first_hand src st then cur0\<lparr> mb_verified := True \<rparr> else cur0)"
  let ?s0 = "put_member n cur s"
  have a0: "apart n s ?s0" by (rule apart_put [OF assms])
  have pub: "apart n s (republish t)" if "apart n s t" for t by (rule apart_record [OF that]) simp_all
  show ?thesis
  proof (cases "decide now (sc_suspicion_timeout (sw_cfg s)) src cur inc st")
    case None
    let ?u = "if \<not> mb_verified cur0 \<and> mb_verified cur
      then note_transition now n (mb_status cur) (republish (set_tx_of n (piggyback_count ?s0) ?s0)) else ?s0"
    have "apply_known now src n inc st cur0 s = ?u" using None by (simp add: apply_known_def Let_def flip: cur_def)
    moreover have "apart n s ?u" using a0 apart_note [OF pub [OF apart_set_tx [OF a0]]] by simp
    ultimately show ?thesis by blast
  next
    case (Some nx)
    let ?wl = "\<not> is_tomb (mb_status cur0)" and ?nl = "\<not> is_tomb nx"
    obtain cur1 p where x: "(if mb_incarnation cur \<noteq> inc \<or> mb_status cur \<noteq> nx
        then set_tx (piggyback_count ?s0) cur (sw_tx_pending ?s0) else (cur, sw_tx_pending ?s0)) = (cur1, p)" by fastforce
    define cur2 where "cur2 = cur1\<lparr> mb_incarnation := inc, mb_status := nx, mb_verify_pending := False \<rparr>"
    define cur3 where "cur3 = (if nx = Suspect
        then cur2\<lparr> mb_suspect_deadline := now + sc_suspicion_timeout (sw_cfg s), mb_verify_pending := (src = SrcGossip \<or> src = SrcJoinSnapshot) \<rparr>
        else cur2)"
    define cur4 where "cur4 = (if ?nl then cur3 else cur3\<lparr> mb_death := now, mb_last_probe := (if ?wl then Some now else mb_last_probe cur3) \<rparr>)"
    define c where "c = (if ?wl \<and> \<not> ?nl then sw_tomb_count ?s0 + 1 else if \<not> ?wl \<and> ?nl then sw_tomb_count ?s0 - 1 else sw_tomb_count ?s0)"
    define s1 where "s1 = (put_member n cur4 ?s0)\<lparr> sw_tx_pending := p, sw_tomb_count := c \<rparr>"
    define s2 where "s2 = (if ?wl \<noteq> ?nl then republish s1 else s1)"
    define s3 where "s3 = (if \<not> mb_verified cur0 \<and> mb_verified cur then republish (set_tx_of n (piggyback_count s2) s2) else s2)"
    have e: "apply_known now src n inc st cur0 s = enforce_tomb_cap (note_transition now n (mb_status cur) s3)"
      unfolding apply_known_def Let_def cur_def [symmetric] Some option.case x prod.case s3_def s2_def s1_def cur4_def cur3_def cur2_def c_def
      by simp
    have "apart n s (put_member n cur4 ?s0)" using a0 by (simp add: apart_def member_of_put)
    then have "apart n s s1" by (rule apart_record) (simp_all add: s1_def)
    then have "apart n s s2" using pub by (simp add: s2_def)
    then have "apart n s s3" using pub apart_set_tx by (simp add: s3_def)
    moreover have "sw_leases s3 = sw_leases s" by (simp add: s3_def s2_def) (simp add: s1_def)
    ultimately show ?thesis using e apart_note by blast
  qed
qed

lemma apply_update_other:
  assumes "keys_ok s" and "n \<noteq> sw_self s" and "i \<noteq> n" and "member_of s i = Some m" and "\<not> is_tomb (mb_status m)"
  shows "member_of (apply_update now src n inc st s) i = Some m"
proof -
  have refused: "member_of (s\<lparr> sw_admission_refusals := a \<rparr>) i = Some m" "member_of (s\<lparr> sw_suppressed := a \<rparr>) i = Some m" for a
    using assms(4) by (simp_all add: member_of_def)
  have main: "member_of t i = Some m" if "t = u \<or> t = enforce_tomb_cap u" "apart n s u" for t u
    using that enforce_member(1) [of u i] assms by (auto simp: apart_def)
  show ?thesis
  proof (cases "member_of s n")
    case None
    then show ?thesis using refused main apart_unknown [OF assms(1) None, of now src inc st] assms(2,4) by (auto simp: apply_update_def)
  next
    case (Some cur)
    then show ?thesis using refused main apart_known [OF assms(1), of now src n inc st cur] assms(2,4) by (auto simp: apply_update_def)
  qed
qed

lemma apply_update_leases:
  assumes "keys_ok s" and "n \<noteq> sw_self s" and "sl_contains i (sw_leases (apply_update now src n inc st s))"
  shows "sl_contains i (sw_leases s)"
proof -
  have main: "sl_contains i (sw_leases s)" if "t = u \<or> t = enforce_tomb_cap u" "apart n s u" "sl_contains i (sw_leases t)" for t u
    using that enforce_member(2) [of u] by (auto simp: apart_def sl_contains_def sl_find_clear split: if_splits)
  show ?thesis
  proof (cases "member_of s n")
    case None
    then show ?thesis using assms(2,3) main apart_unknown [OF assms(1) None, of now src inc st] by (auto simp: apply_update_def split: if_splits)
  next
    case (Some cur)
    then show ?thesis using assms(2,3) main apart_known [OF assms(1), of now src n inc st cur] by (auto simp: apply_update_def split: if_splits)
  qed
qed

section \<open>The ticks that take out a silent peer\<close>

lemma expire_one_other:
  assumes "swim_inv s" and "n \<noteq> sw_self s" and "i \<noteq> n" and "member_of s i = Some m" and "\<not> is_tomb (mb_status m)"
  shows "member_of (expire_one now n s) i = Some m" and "swim_inv (expire_one now n s)" and "sw_self (expire_one now n s) = sw_self s"
    and "env_of (expire_one now n s) = env_of s" and "sl_contains j (sw_leases (expire_one now n s)) \<Longrightarrow> sl_contains j (sw_leases s)"
proof -
  have "member_of (expire_one now n s) i = Some m \<and> swim_inv (expire_one now n s) \<and> sw_self (expire_one now n s) = sw_self s \<and>
    env_of (expire_one now n s) = env_of s \<and> (sl_contains j (sw_leases (expire_one now n s)) \<longrightarrow> sl_contains j (sw_leases s))"
  proof (cases "\<exists>w. member_of s n = Some w \<and> \<not> is_tomb (mb_status w)")
    case False
    then have "expire_one now n s = s" by (auto simp: expire_one_def split: option.split)
    then show ?thesis using assms by simp
  next
    case True
    then obtain w where w: "member_of s n = Some w" "\<not> is_tomb (mb_status w)" by blast
    let ?t = "put_member n (w\<lparr> mb_lease_expired_inc := mb_incarnation w \<rparr>) s"
    have e: "expire_one now n s = apply_update now SrcLocal n (mb_incarnation w) Suspect ?t" using w by (simp add: expire_one_def)
    have q: "quiet s ?t" by (rule quiet_put [OF w(1)]) (simp_all add: entry_view_def)
    have inv: "swim_inv ?t" by (rule quiet_inv [OF q assms(1)])
    then have k: "keys_ok ?t" using table_ok_self by blast
    have self: "sw_self ?t = sw_self s" by simp
    have mi: "member_of ?t i = Some m" using assms(3,4) by (simp add: member_of_put)
    show ?thesis unfolding e
      using apply_update_other [OF k _ assms(3) mi assms(5)] apply_update_inv [OF inv] k assms(2) self
        apply_update_leases [OF k, of n j now SrcLocal "mb_incarnation w" Suspect] by auto
  qed
  then show "member_of (expire_one now n s) i = Some m" "swim_inv (expire_one now n s)" "sw_self (expire_one now n s) = sw_self s"
    "env_of (expire_one now n s) = env_of s" "sl_contains j (sw_leases (expire_one now n s)) \<Longrightarrow> sl_contains j (sw_leases s)" by blast+
qed

lemma expire_ones_other:
  assumes "swim_inv s" and "\<forall>n \<in> set ns. n \<noteq> sw_self s \<and> n \<noteq> i" and "member_of s i = Some m" and "\<not> is_tomb (mb_status m)"
  shows "member_of (fold (expire_one now) ns s) i = Some m \<and> swim_inv (fold (expire_one now) ns s) \<and>
    sw_self (fold (expire_one now) ns s) = sw_self s \<and> env_of (fold (expire_one now) ns s) = env_of s \<and>
    (sl_contains i (sw_leases (fold (expire_one now) ns s)) \<longrightarrow> sl_contains i (sw_leases s))"
  using assms
proof (induction ns arbitrary: s)
  case (Cons n ns)
  have n: "n \<noteq> sw_self s" "i \<noteq> n" using Cons.prems(2) by auto
  note o = expire_one_other [OF Cons.prems(1) n Cons.prems(3,4), where now = now]
  have "\<forall>k \<in> set ns. k \<noteq> sw_self (expire_one now n s) \<and> k \<noteq> i" using Cons.prems(2) o(3) by auto
  from Cons.IH [OF o(2) this o(1) Cons.prems(4)] show ?case using o(3,4,5) by auto
qed simp

text \<open>A live peer without a lease is not touched by the expiry of the leases of others.\<close>

lemma expire_leases_other:
  assumes inv: "swim_inv s" and m: "member_of s i = Some m" "\<not> is_tomb (mb_status m)" and l: "\<not> sl_contains i (sw_leases s)"
  shows "member_of (expire_suspend_leases now s) i = Some m \<and> swim_inv (expire_suspend_leases now s) \<and>
    sw_self (expire_suspend_leases now s) = sw_self s \<and> env_of (expire_suspend_leases now s) = env_of s \<and>
    \<not> sl_contains i (sw_leases (expire_suspend_leases now s))"
proof (cases "sw_leases s = []")
  case True
  then show ?thesis using assms by (simp add: expire_suspend_leases_def)
next
  case False
  obtain ids ls where x: "sl_expire now (sw_leases s) = (ids, ls)" by fastforce
  let ?s = "s\<lparr> sw_leases := ls \<rparr>"
  have li: "leases_inv {} s" using inv by (simp add: swim_inv_def)
  then have d: "distinct (map fst (sw_leases s))" by (simp add: leases_inv_def leases_ok_def)
  have ids: "\<forall>n \<in> set ids. n \<noteq> sw_self ?s \<and> n \<noteq> i"
  proof
    fix n
    assume "n \<in> set ids"
    then have "sl_contains n (sw_leases s)" using sl_expire_correct(1) [OF d, of now] x by (auto simp: sl_contains_def)
    then show "n \<noteq> sw_self ?s \<and> n \<noteq> i" using l li by (auto simp: leases_inv_def)
  qed
  have "\<not> sl_contains i ls" using sl_expire_correct(3) [OF d, of i now] l x by (auto simp: sl_contains_def split: option.splits)
  moreover have "member_of ?s i = Some m" using m(1) by (simp add: member_of_def)
  ultimately show ?thesis
    using expire_ones_other [OF expired_leases_inv [OF inv x] ids _ m(2), where now = now] False x by (simp add: expire_suspend_leases_def)
qed

text \<open>The table work of a tick, before anything is sent.\<close>

definition reap_all :: "int \<Rightarrow> swim \<Rightarrow> swim" where
  "reap_all now s = reap_unverified now (reap_tombstones now (reap_suspects now (expire_suspend_leases now s)))"

lemma env_of_kills: "env_of (fold (kill_suspect now tx) ns s) = env_of s \<and> sw_leases (fold (kill_suspect now tx) ns s) = sw_leases s"
proof (induction ns arbitrary: s)
  case (Cons n ns)
  have "env_of (kill_suspect now tx n s) = env_of s \<and> sw_leases (kill_suspect now tx n s) = sw_leases s"
    by (simp add: kill_suspect_def split: option.split prod.split)
  then show ?case using Cons.IH [of "kill_suspect now tx n s"] by simp
qed simp

lemma env_of_notes:
  "env_of (fold (\<lambda>n. note_transition now n p) ns s) = env_of s \<and>
   (sl_contains i (sw_leases (fold (\<lambda>n. note_transition now n p) ns s)) \<longrightarrow> sl_contains i (sw_leases s))"
proof (induction ns arbitrary: s)
  case (Cons n ns)
  have "sl_contains i (sw_leases (note_transition now n p s)) \<longrightarrow> sl_contains i (sw_leases s)"
    by (auto simp: note_transition_leases sl_contains_def sl_find_clear split: option.splits if_splits)
  then show ?case using Cons.IH [of "note_transition now n p s"] by simp
qed simp

lemma reap_suspects_env:
  assumes "swim_inv s"
  shows "env_of (reap_suspects now s) = env_of s"
    and "sl_contains i (sw_leases (reap_suspects now s)) \<Longrightarrow> sl_contains i (sw_leases s)"
proof -
  have k: "keys_ok s" using table_ok_self [OF assms] by blast
  define died where "died = map fst (filter (suspicion_over now s) (sw_members s))"
  define s1 where "s1 = fold (kill_suspect now (piggyback_count s)) died s"
  define s2 where "s2 = (if died \<noteq> [] then republish s1 else s1)"
  define s3 where "s3 = fold (\<lambda>n. note_transition now n Suspect) (sort died) s2"
  have e: "reap_suspects now s = enforce_tomb_cap s3"
    unfolding reap_suspects_def Let_def died_def [symmetric] s1_def [symmetric] s2_def [symmetric] s3_def by simp
  have 2: "env_of s2 = env_of s" "sw_leases s2 = sw_leases s"
    using env_of_kills [of now "piggyback_count s" died s] by (simp_all add: s2_def s1_def)
  have "keys_ok s1" using kills_self k unfolding s1_def by blast
  then have "keys_ok s3" using notes_self unfolding s3_def s2_def by simp
  then have l: "sw_leases (enforce_tomb_cap s3) = sw_leases s3" by (rule enforce_member(2))
  show "env_of (reap_suspects now s) = env_of s" using env_of_notes [of now Suspect "sort died" s2] 2 unfolding e s3_def by simp
  show "sl_contains i (sw_leases (reap_suspects now s)) \<Longrightarrow> sl_contains i (sw_leases s)"
    using env_of_notes [of now Suspect "sort died" s2 i] 2 l unfolding e s3_def by simp
qed

lemma reap_rest_env:
  "env_of (reap_tombstones now s) = env_of s" "sw_leases (reap_tombstones now s) = sw_leases s"
  "env_of (reap_unverified now s) = env_of s" "sw_leases (reap_unverified now s) = sw_leases s"
  by (simp_all add: reap_tombstones_def reap_unverified_def env_of_def Let_def)

text \<open>A peer that is Alive, heard at first hand and has no lease passes through.\<close>

lemma reap_all_alive:
  assumes inv: "swim_inv s" and v: "table_view s p = Some (Alive, k, True)" and l: "\<not> sl_contains p (sw_leases s)"
  shows "table_view (reap_all now s) p = Some (Alive, k, True)" and "swim_inv (reap_all now s)" and "sw_self (reap_all now s) = sw_self s"
    and "env_of (reap_all now s) = env_of s" and "\<not> sl_contains p (sw_leases (reap_all now s))"
proof -
  obtain m where m: "member_of s p = Some m" "entry_view m = (Alive, k, True)" using v by (auto simp: table_view_def)
  then have nt: "\<not> is_tomb (mb_status m)" "mb_status m = Alive" by (simp_all add: entry_view_def is_tomb_def)
  let ?s1 = "expire_suspend_leases now s"
  let ?s2 = "reap_suspects now ?s1"
  let ?s3 = "reap_tombstones now ?s2"
  have 1: "member_of ?s1 p = Some m" "swim_inv ?s1" "sw_self ?s1 = sw_self s" "env_of ?s1 = env_of s" "\<not> sl_contains p (sw_leases ?s1)"
    using expire_leases_other [OF inv m(1) nt(1) l, of now] by simp_all
  have "reaped now ?s1 p = Some (Alive, k, True)" using 1(1) m(2) nt(2) by (simp add: reaped_def suspicion_over_def)
  then have 2: "table_view ?s2 p = Some (Alive, k, True)" using reap_suspects_view(1) [OF 1(2), where now = now and i = p] by (auto simp: is_tomb_def)
  have b2: "swim_inv ?s2" "sw_self ?s2 = sw_self s" "env_of ?s2 = env_of s" "\<not> sl_contains p (sw_leases ?s2)"
    using reap_suspects_inv [OF 1(2), where now = now] reap_suspects_view(2) [OF 1(2), where now = now]
      reap_suspects_env(1) [OF 1(2), where now = now] reap_suspects_env(2) [OF 1(2), where now = now and i = p] 1 by auto
  have 3: "table_view ?s3 p = Some (Alive, k, True)" using reap_tombstones_view(1) [OF b2(1), where now = now and i = p] 2 by (auto simp: is_tomb_def)
  have b3: "swim_inv ?s3" "sw_self ?s3 = sw_self s" using reap_tombstones_inv [OF b2(1), where now = now] reap_tombstones_view(2) [OF b2(1), where now = now] b2 by auto
  show "table_view (reap_all now s) p = Some (Alive, k, True)"
    using reap_unverified_view(1) [OF b3(1), where now = now and i = p] 3 by (auto simp: reap_all_def)
  show "swim_inv (reap_all now s)" unfolding reap_all_def by (rule reap_unverified_inv [OF b3(1)])
  show "sw_self (reap_all now s) = sw_self s" unfolding reap_all_def using reap_unverified_view(2) [OF b3(1), where now = now] b3 by simp
  show "env_of (reap_all now s) = env_of s" "\<not> sl_contains p (sw_leases (reap_all now s))"
    using b2 by (simp_all add: reap_all_def reap_rest_env)
qed

text \<open>A suspicion that has run out takes the peer out of the view.\<close>

lemma reap_all_over:
  assumes inv: "swim_inv s" and m: "member_of s p = Some m" "mb_status m = Suspect" "mb_suspect_deadline m \<le> now"
    and l: "\<not> sl_contains p (sw_leases s)"
  shows "p \<notin> live_set (reap_all now s)" and "swim_inv (reap_all now s)"
proof -
  let ?s1 = "expire_suspend_leases now s"
  let ?s2 = "reap_suspects now ?s1"
  let ?s3 = "reap_tombstones now ?s2"
  have nt: "\<not> is_tomb (mb_status m)" using m(2) by (simp add: is_tomb_def)
  have 1: "member_of ?s1 p = Some m" "swim_inv ?s1" "\<not> sl_contains p (sw_leases ?s1)"
    using expire_leases_other [OF inv m(1) nt l, of now] by simp_all
  then have r: "reaped now ?s1 p = Some (Dead, mb_incarnation m, mb_verified m)" using m by (simp add: reaped_def suspicion_over_def)
  have i2: "swim_inv ?s2" by (rule reap_suspects_inv [OF 1(2)])
  have i3: "swim_inv ?s3" by (rule reap_tombstones_inv [OF i2])
  have "p \<notin> live_set ?s2" using reap_suspects_view(1) [OF 1(2), where now = now and i = p] r by (auto simp: live_set_view is_tomb_def)
  then have "p \<notin> live_set ?s3" using reap_tombstones_view(1) [OF i2, where now = now and i = p] by (auto simp: live_set_view)
  then show "p \<notin> live_set (reap_all now s)"
    using reap_unverified_view(1) [OF i3, where now = now and i = p] by (auto simp: reap_all_def live_set_view)
  show "swim_inv (reap_all now s)" unfolding reap_all_def by (rule reap_unverified_inv [OF i3])
qed

text \<open>The rest of a tick sends, and keeps the probe in flight.\<close>

lemma probe_pass [simp]: "sw_probe (snd (piggyback_pass b dest room is os)) = sw_probe (snd os)"
proof (induction b dest room "is" os rule: piggyback_pass.induct)
  case (2 b dest room i "is" os)
  let ?os = "case member_of (snd os) i of None \<Rightarrow> os
         | Some m \<Rightarrow>
             if i = dest \<or> i = sw_self (snd os) \<or> mb_tx_left m = 0 then os
             else if \<not> mb_verified m then os
             else if (mb_status m = Suspect) \<noteq> b then os
             else push_entry i os"
  have a: "sw_probe (snd ?os) = sw_probe (snd os)" by (simp split: option.split)
  show ?case
  proof (cases "room \<le> length (fst os)")
    case False
    then have "piggyback_pass b dest room (i # is) os = piggyback_pass b dest room is ?os" by (simp only: piggyback_pass.simps if_False)
    then show ?thesis using a 2 [OF False] by (simp only:)
  qed simp
qed simp

lemma probe_cursor [simp]: "sw_probe (snd (cursor_pass dest cap fixed is os)) = sw_probe (snd os)"
proof (induction dest cap fixed "is" os rule: cursor_pass.induct)
  case (2 dest cap fixed i "is" out s)
  let ?os = "if i = dest \<or> i = sw_self s then (out, s)
         else if i \<in> set (map mu_node (drop fixed out)) then (out, s)
         else case member_of s i of None \<Rightarrow> (out, s)
           | Some m \<Rightarrow> if \<not> mb_verified m then (out, s) else (out @ [update_of i m], s\<lparr> sw_cursor := i \<rparr>)"
  have a: "sw_probe (snd ?os) = sw_probe s" by (simp split: option.split)
  show ?case
  proof (cases "cap \<le> length out")
    case False
    then have "cursor_pass dest cap fixed (i # is) (out, s) = cursor_pass dest cap fixed is ?os" by (simp only: cursor_pass.simps if_False)
    then show ?thesis using a 2 [OF False] by (simp only: snd_conv)
  qed simp
qed simp

lemma probe_fill [simp]: "sw_probe (snd (fill_digest dest s)) = sw_probe s"
proof (cases "sc_max_gossip_updates (sw_cfg s) = 0")
  case True
  then show ?thesis by (simp add: fill_digest_def)
next
  case False
  let ?cap = "sc_max_gossip_updates (sw_cfg s)"
  obtain o1 s1 where 1: "(if dest \<noteq> sw_self s then push_entry dest ([], s) else ([], s)) = (o1, s1)" by fastforce
  obtain o2 s2 where 2: "(if length o1 < ?cap then push_entry (sw_self s1) (o1, s1) else (o1, s1)) = (o2, s2)" by fastforce
  define room where "room = ?cap - min (length (sw_members s2) - length o2) (if 2 < ?cap then (?cap - 1) div 2 else 0)"
  obtain o3 s3 where 3: "piggyback_passes dest room (o2, s2) = (o3, s3)" by fastforce
  have "sw_probe (snd (if dest \<noteq> sw_self s then push_entry dest ([], s) else ([], s))) = sw_probe s" by simp
  then have p1: "sw_probe s1 = sw_probe s" unfolding 1 by simp
  have "sw_probe (snd (if length o1 < ?cap then push_entry (sw_self s1) (o1, s1) else (o1, s1))) = sw_probe s1" by simp
  then have p2: "sw_probe s2 = sw_probe s1" unfolding 2 by simp
  have "sw_probe (snd (piggyback_passes dest room (o2, s2))) = sw_probe s2" by (simp add: piggyback_passes_def Let_def)
  then have p3: "sw_probe s3 = sw_probe s2" by (simp add: 3)
  have "sw_probe (refresh_sorted_ids s3) = sw_probe s3" by (simp add: refresh_sorted_ids_def)
  then show ?thesis using False p1 p2 p3 unfolding fill_digest_def Let_def 1 2 prod.case room_def [symmetric] 3 by simp
qed

lemma probe_send [simp]: "sw_probe (snd (send_control hk dest m s)) = sw_probe s"
  using probe_fill [of dest s] by (cases "fill_digest dest s") (simp add: send_control_def Let_def)

lemma probe_send_all [simp]: "sw_probe (snd (send_all hk ms s)) = sw_probe s"
proof (induction ms arbitrary: s)
  case (Cons x ms)
  obtain dest m where x: "x = (dest, m)" by (cases x)
  have "sw_probe (snd (send_control hk dest m s)) = sw_probe s" by simp
  then show ?case using Cons.IH [of "snd (send_control hk dest m s)"] by (simp add: x case_prod_unfold)
qed simp

lemma probe_verify_scan: "sw_probe (snd (verify_scan b is ts)) = sw_probe (snd ts)"
proof (induction b "is" ts rule: verify_scan.induct)
  case (2 b i "is" out s)
  let ?ts = "case member_of s i of None \<Rightarrow> (out, s)
         | Some m \<Rightarrow>
             if \<not> mb_verify_pending m then (out, s)
             else (if mb_status m = Suspect \<and> i \<noteq> sw_self s then out @ [i] else out,
                   put_member i (m\<lparr> mb_verify_pending := False \<rparr>) s)"
  have a: "sw_probe (snd ?ts) = sw_probe s" by (simp split: option.split)
  show ?case
  proof (cases "b \<le> length out")
    case False
    then have "verify_scan b (i # is) (out, s) = verify_scan b is ?ts" by (simp only: verify_scan.simps if_False)
    then show ?thesis using a 2 [OF False] by (simp only: snd_conv)
  qed simp
qed simp

lemma probe_stamps: "sw_probe (fold (stamp_probe now) ns s) = sw_probe s"
proof (induction ns arbitrary: s)
  case (Cons n ns)
  have "sw_probe (stamp_probe now n s) = sw_probe s" by (simp add: stamp_probe_def split: option.split)
  then show ?case using Cons.IH [of "stamp_probe now n s"] by simp
qed simp

definition send_phase :: "swim_hooks \<Rightarrow> int \<Rightarrow> swim \<Rightarrow> swim" where
  "send_phase hk now s =
     snd (monitor_congestion hk now (snd (gossip_round hk now (snd (probe_tombstones hk now (snd (send_verifies hk s)))))))"

lemma send_phase_quiet: "quiet s (send_phase hk now s)"
  unfolding send_phase_def
  by (rule quiet_trans [OF quiet_trans [OF quiet_trans [OF quiet_send_verifies quiet_probe_tombstones] quiet_gossip_round] quiet_monitor])

lemma send_phase_probe: "sw_probe (send_phase hk now s) = sw_probe s"
proof -
  have v: "sw_probe (snd (send_verifies hk t)) = sw_probe t" for t
  proof -
    obtain out u where x: "verify_scan (sc_verify_budget (sw_cfg t)) (map fst (sw_members t)) ([], t) = (out, u)" by fastforce
    have "sw_probe u = sw_probe t" using probe_verify_scan [of "sc_verify_budget (sw_cfg t)" "map fst (sw_members t)" "([], t)"] by (simp add: x)
    then show ?thesis by (simp add: send_verifies_def x)
  qed
  have m: "sw_probe (snd (monitor_congestion hk now t)) = sw_probe t" for t
    by (simp add: monitor_congestion_def broadcast_congested_def split: option.split)
  show ?thesis by (simp add: send_phase_def m gossip_round_def probe_tombstones_def Let_def probe_stamps v)
qed

text \<open>A tick in four parts.\<close>

lemma tick_parts:
  assumes "sw_online s" and "\<not> sw_suspended s"
  shows "snd (snd (swim_tick hk now s)) =
    snd (flush_events now (send_phase hk now (snd (start_probe hk now (snd (drive_probe hk now (reap_all now s)))))))"
  using assms unfolding swim_tick_def Let_def reap_all_def send_phase_def by (simp add: case_prod_unfold)

lemma env_of_refuse: "env_of (refuse now n ver why b s) = env_of s"
  by (simp add: refuse_def push_refusal_def record_refusal_def env_of_def Let_def)

lemma env_of_refuses: "env_of (fold (\<lambda>(n, ver, why). refuse now n ver why False) xs s) = env_of s"
proof (induction xs arbitrary: s)
  case (Cons x xs)
  then show ?case by (cases x) (simp add: env_of_refuse)
qed simp

lemma flush_idle:
  assumes "\<not> sw_admission_dirty s"
  shows "env_of (snd (flush_events now s)) = env_of s" and "same_table s (snd (flush_events now s))"
proof -
  have u: "env_of (t\<lparr> sw_ext_refusals := x \<rparr>) = env_of t" "env_of (t\<lparr> sw_events := y \<rparr>) = env_of t" for t x y
    by (simp_all add: env_of_def)
  show "env_of (snd (flush_events now s)) = env_of s"
    using assms by (simp add: flush_events_def Let_def u env_of_refuses)
  show "same_table s (snd (flush_events now s))" using flush_same_table [of now s] assms by (simp add: evicted_def)
qed

text \<open>What survives the sending half of a tick.\<close>

definition settles :: "swim \<Rightarrow> swim \<Rightarrow> bool" where
  "settles s t \<longleftrightarrow> swim_inv t \<and> sw_self t = sw_self s \<and> table_view t = table_view s \<and> deadlines t = deadlines s \<and>
     sw_leases t = sw_leases s \<and> sw_cfg t = sw_cfg s \<and> sw_online t = sw_online s \<and> sw_suspended t = sw_suspended s \<and>
     sw_admission t = sw_admission s \<and> sw_admission_dirty t = sw_admission_dirty s"

lemma settles_half:
  assumes inv: "swim_inv s" and "\<not> sw_admission_dirty s"
  shows "settles s (snd (flush_events now (send_phase hk now (snd (start_probe hk now s)))))"
    and "pb_active (sw_probe s) \<Longrightarrow> sw_probe (snd (flush_events now (send_phase hk now (snd (start_probe hk now s))))) = sw_probe s"
proof -
  let ?u = "send_phase hk now (snd (start_probe hk now s))"
  let ?t = "snd (flush_events now ?u)"
  have q: "quiet s ?u" by (rule quiet_trans [OF quiet_start_probe send_phase_quiet])
  note f = quiet_fields [OF q]
  have nd: "\<not> sw_admission_dirty ?u" using f(9) assms(2) by simp
  note i = flush_idle [OF nd, of now]
  have "table_view ?t = table_view ?u" "sw_self ?t = sw_self ?u" using same_table_view [OF i(2)] by simp_all
  moreover have "deadlines ?t = deadlines ?u" using same_table_members [OF i(2)] by (simp add: deadlines_def fun_eq_iff)
  moreover have "swim_inv ?t" using same_table_inv [OF i(2)] quiet_inv [OF q inv] by simp
  moreover have "sw_leases ?t = sw_leases ?u" "sw_cfg ?t = sw_cfg ?u" "sw_admission ?t = sw_admission ?u"
    using i(2) by (simp_all add: same_table_def)
  moreover have "sw_online ?t = sw_online ?u" "sw_suspended ?t = sw_suspended ?u" "sw_admission_dirty ?t = sw_admission_dirty ?u" "sw_probe ?t = sw_probe ?u"
    using i(1) by (simp_all add: env_of_def)
  ultimately show "settles s ?t" unfolding settles_def using f quiet_view [OF q inv] quiet_deadlines [OF q inv] by simp
  show "sw_probe ?t = sw_probe s" if "pb_active (sw_probe s)"
    using \<open>sw_probe ?t = sw_probe ?u\<close> that by (simp add: send_phase_probe start_probe_def)
qed

text \<open>A peer under observation: in the view, and the target of the probe in flight.\<close>

definition observed_by :: "node_id \<Rightarrow> u64 \<Rightarrow> probe_phase \<Rightarrow> int \<Rightarrow> swim \<Rightarrow> bool" where
  "observed_by p k ph d s \<longleftrightarrow> swim_inv s \<and> sw_online s \<and> \<not> sw_suspended s \<and> \<not> sw_admission_dirty s \<and> p \<noteq> sw_self s \<and>
     table_view s p = Some (Alive, k, True) \<and> \<not> sl_contains p (sw_leases s) \<and> \<not> denied_by (sw_admission s) p \<and>
     pb_active (sw_probe s) \<and> pb_target (sw_probe s) = p \<and> \<not> pb_acked (sw_probe s) \<and> pb_phase (sw_probe s) = ph \<and>
     pb_deadline (sw_probe s) = d"

lemma observed_reaped:
  assumes "observed_by p k ph d s"
  shows "observed_by p k ph d (reap_all now s)" and "sw_cfg (reap_all now s) = sw_cfg s" and "probeable (reap_all now s) p"
proof -
  have o: "swim_inv s" "table_view s p = Some (Alive, k, True)" "\<not> sl_contains p (sw_leases s)" using assms by (simp_all add: observed_by_def)
  note r = reap_all_alive [OF o, of now]
  show "sw_cfg (reap_all now s) = sw_cfg s" using r(4) by (simp add: env_of_def)
  show "observed_by p k ph d (reap_all now s)" using assms r by (simp add: observed_by_def env_of_def)
  show "probeable (reap_all now s) p" using r(1,5) by (auto simp: probeable_def table_view_def entry_view_def is_tomb_def)
qed

text \<open>First the probe goes to the relays.\<close>

lemma tick_escalates:
  assumes o: "observed_by p k DirectPhase d s" and "d \<le> now"
  shows "observed_by p k IndirectPhase (now + indirect_ns (sw_cfg s)) (snd (snd (swim_tick hk now s)))"
    and "sw_cfg (snd (snd (swim_tick hk now s))) = sw_cfg s"
proof -
  define s1 where "s1 = reap_all now s"
  note o1 = observed_reaped [OF o, of now, folded s1_def]
  let ?pr = "(sw_probe s1)\<lparr> pb_phase := IndirectPhase, pb_deadline := now + indirect_ns (sw_cfg s1) \<rparr>"
  let ?ms = "indirect_requests (pb_target (sw_probe s1)) (pb_seq (sw_probe s1)) s1"
  define s2 where "s2 = snd (send_all hk ?ms (s1\<lparr> sw_probe := ?pr \<rparr>))"
  have d: "snd (drive_probe hk now s1) = s2"
    using o1(1,3) assms(2) by (simp add: drive_probe_def Let_def observed_by_def s2_def)
  have q: "quiet s1 s2" unfolding s2_def by (rule quiet_trans [OF quiet_probe quiet_send_all])
  have pr: "sw_probe s2 = ?pr" by (simp add: s2_def)
  have inv1: "swim_inv s1" using o1(1) by (simp add: observed_by_def)
  note f = quiet_fields [OF q] quiet_inv [OF q inv1] quiet_view [OF q inv1]
  have "\<not> sw_admission_dirty s2" "pb_active (sw_probe s2)" using o1(1) f(9) by (simp_all add: observed_by_def pr)
  note h = settles_half [OF f(13) this(1), where now = now and hk = hk] settles_half(2) [OF f(13) this, where now = now and hk = hk]
  have e: "snd (snd (swim_tick hk now s)) = snd (flush_events now (send_phase hk now (snd (start_probe hk now s2))))"
    using o tick_parts [of s hk now] d by (simp add: observed_by_def s1_def)
  show "observed_by p k IndirectPhase (now + indirect_ns (sw_cfg s)) (snd (snd (swim_tick hk now s)))"
    using o1(1,2) f h(1) h(3) pr unfolding e observed_by_def settles_def by simp
  show "sw_cfg (snd (snd (swim_tick hk now s))) = sw_cfg s" using h(1) f(2) o1(2) unfolding e settles_def by simp
qed

text \<open>Then the peer is suspected, with a new deadline.\<close>

lemma suspect_deadline_set:
  assumes k: "keys_ok s" and m: "member_of s p = Some m" "mb_status m = Alive" and n: "p \<noteq> sw_self s" "\<not> is_client_node p" "\<not> denied_by (sw_admission s) p"
  shows "\<exists>w. member_of (apply_update now SrcLocal p (mb_incarnation m) Suspect s) p = Some w \<and> mb_status w = Suspect \<and>
    mb_suspect_deadline w = now + sc_suspicion_timeout (sw_cfg s)"
proof -
  let ?s0 = "put_member p m s"
  obtain cur1 q where x: "set_tx (piggyback_count ?s0) m (sw_tx_pending ?s0) = (cur1, q)" by fastforce
  let ?w = "cur1\<lparr> mb_incarnation := mb_incarnation m, mb_status := Suspect,
      mb_suspect_deadline := now + sc_suspicion_timeout (sw_cfg s), mb_verify_pending := False \<rparr>"
  define s1 where "s1 = (put_member p ?w ?s0)\<lparr> sw_tx_pending := q, sw_tomb_count := sw_tomb_count ?s0 \<rparr>"
  have e: "apply_update now SrcLocal p (mb_incarnation m) Suspect s = enforce_tomb_cap (note_transition now p Alive s1)"
    using m n x by (simp add: apply_update_def apply_known_def decide_def first_hand_def is_tomb_def s1_def Let_def)
  have "member_of s1 p = Some ?w" using member_of_put [of p ?w ?s0 p] by (simp add: s1_def member_of_def)
  then obtain r where w: "member_of (note_transition now p Alive s1) p = Some (?w\<lparr> mb_reported := r \<rparr>)"
    using member_of_note [of now p Alive s1 p] by auto
  have "keys_ok s1" using keys_ok_cong [of s1 "put_member p ?w ?s0"] k by (simp add: s1_def)
  then have "keys_ok (note_transition now p Alive s1)" by simp
  from enforce_member(1) [OF this, of p] w show ?thesis unfolding e by (auto simp: is_tomb_def)
qed

lemma tick_suspects:
  fixes t and hk
  assumes o: "observed_by p k IndirectPhase d s" and "d \<le> now"
  defines "t \<equiv> snd (snd (swim_tick hk now s))"
  shows "table_view t p = Some (Suspect, k, True) \<and> deadlines t p = Some (now + sc_suspicion_timeout (sw_cfg s)) \<and>
    swim_inv t \<and> sw_online t \<and> \<not> sw_suspended t \<and> \<not> sw_admission_dirty t \<and> \<not> sl_contains p (sw_leases t)"
proof -
  define s1 where "s1 = reap_all now s"
  note o1 = observed_reaped [OF o, of now, folded s1_def]
  have inv1: "swim_inv s1" and k1: "keys_ok s1" using o1(1) table_ok_self [of s1] by (simp_all add: observed_by_def)
  have p1: "p \<noteq> sw_self s1" "\<not> denied_by (sw_admission s1) p" "table_view s1 p = Some (Alive, k, True)" using o1(1) by (simp_all add: observed_by_def)
  obtain m where m: "member_of s1 p = Some m" "mb_status m = Alive" "mb_incarnation m = k" "mb_verified m"
    using p1(3) by (auto simp: table_view_def entry_view_def)
  have nc: "\<not> is_client_node p" using inv1 m(1) p1(1) by (auto simp: swim_inv_def table_ok_def no_clients_def)
  let ?a = "apply_update now SrcLocal p k Suspect s1"
  define s2 where "s2 = ?a\<lparr> sw_probe := (sw_probe ?a)\<lparr> pb_active := False \<rparr> \<rparr>"
  have "incarnation_of s1 p = k" using m by (simp add: incarnation_of_def)
  then have d: "snd (drive_probe hk now s1) = s2"
    using o1(1,3) assms(2) by (simp add: drive_probe_def Let_def observed_by_def s2_def)
  obtain w where w: "member_of ?a p = Some w" "mb_status w = Suspect" "mb_suspect_deadline w = now + sc_suspicion_timeout (sw_cfg s1)"
    using suspect_deadline_set [OF k1 m(1,2) p1(1) nc p1(2), of now] m(3) by auto
  have "table_view ?a p = Some (Suspect, k, True)"
  proof -
    have "expected now SrcLocal p k Suspect s1 p = Some (Suspect, k, True)"
      using m nc p1(2) by (simp add: expected_def refused_update_def outcome_def decide_def first_hand_def)
    then show ?thesis using apply_update_view [OF k1 p1(1) refl, of now SrcLocal k Suspect p] by (auto simp: is_tomb_def)
  qed
  moreover have inva: "swim_inv ?a" by (rule apply_update_inv [OF inv1])
  moreover have q: "quiet ?a s2" unfolding s2_def by (rule quiet_probe)
  ultimately have 2: "table_view s2 p = Some (Suspect, k, True)" "swim_inv s2" "deadlines s2 p = Some (now + sc_suspicion_timeout (sw_cfg s1))"
    using quiet_view [OF q inva] quiet_inv [OF q inva] quiet_deadlines [OF q inva] w by (simp_all add: deadlines_def)
  have l2: "\<not> sl_contains p (sw_leases s2)"
    using apply_update_leases [OF k1 p1(1), of p now SrcLocal k Suspect] o1(1) quiet_fields(7) [OF q] by (auto simp: observed_by_def)
  have "env_of ?a = env_of s1" by simp
  then have e2: "sw_online s2" "\<not> sw_suspended s2" "\<not> sw_admission_dirty s2"
    using o1(1) quiet_fields [OF q] by (simp_all add: env_of_def observed_by_def)
  note h = settles_half(1) [OF 2(2) e2(3), where now = now and hk = hk]
  have e: "t = snd (flush_events now (send_phase hk now (snd (start_probe hk now s2))))"
    using o tick_parts [of s hk now] d by (simp add: observed_by_def s1_def t_def)
  show ?thesis using h 2 l2 e2 o1(2) unfolding e settles_def by simp
qed

text \<open>And then it is gone.\<close>

lemma apply_update_elsewhere:
  assumes inv: "swim_inv s" and i: "i \<noteq> n" and out: "i \<notin> live_set s"
  shows "i \<notin> live_set (apply_update now src n inc st s)"
proof -
  let ?t = "apply_update now src n inc st s"
  have k: "keys_ok s" using table_ok_self [OF inv] by blast
  show ?thesis
  proof (cases "n = sw_self s")
    case False
    then have "expected now src n inc st s i = table_view s i" using i by (simp add: expected_def)
    with apply_update_view [OF k False refl, of now src inc st i] out show ?thesis by (auto simp: live_set_view)
  next
    case True
    obtain me where me: "member_of s (sw_self s) = Some me" using table_ok_self [OF inv] by auto
    have "?t = (if is_client_node n then s else apply_self inc st s)" using True by (simp add: apply_update_def)
    then show ?thesis using apply_self_view [OF me, of inc st i] i True out by (auto simp: live_set_view split: if_splits)
  qed
qed

lemma probeable_live: "probeable s n \<Longrightarrow> n \<in> live_set s"
  by (auto simp: probeable_def live_set_def split: option.splits)

lemma drive_keeps_out:
  assumes inv: "swim_inv s" and out: "p \<notin> live_set s"
  shows "p \<notin> live_set (snd (drive_probe hk now s))" and "swim_inv (snd (drive_probe hk now s))"
    and "sw_admission_dirty (snd (drive_probe hk now s)) = sw_admission_dirty s"
proof -
  have live: "live_set t = live_set s" if "quiet s t" for t using quiet_view [OF that inv] by (auto simp: live_set_view)
  let ?tg = "pb_target (sw_probe s)"
  let ?a = "apply_update now SrcLocal ?tg (incarnation_of s ?tg) Suspect s"
  have u: "swim_inv (?a\<lparr> sw_probe := q \<rparr>)" for q by (rule quiet_inv [OF quiet_probe apply_update_inv [OF inv]])
  have v: "live_set (?a\<lparr> sw_probe := q \<rparr>) = live_set ?a" for q
    using quiet_view [OF quiet_probe [where s = ?a and p = q] apply_update_inv [OF inv]] by (auto simp: live_set_view)
  have w: "sw_admission_dirty ?a = sw_admission_dirty s"
    using arg_cong [OF env_of_apply_update [of now SrcLocal ?tg "incarnation_of s ?tg" Suspect s], of "\<lambda>e. snd (fst e)"] by (simp add: env_of_def)
  have i: "quiet s (s\<lparr> sw_probe := q \<rparr>)" for q by (rule quiet_probe)
  have x: "quiet s (snd (send_all hk ms (s\<lparr> sw_probe := q \<rparr>)))" for q ms by (rule quiet_trans [OF quiet_probe quiet_send_all])
  have o: "probeable s ?tg \<Longrightarrow> p \<notin> live_set ?a"
    using apply_update_elsewhere [OF inv _ out] probeable_live [of s ?tg] out by metis
  show "p \<notin> live_set (snd (drive_probe hk now s))"
    using out o live [OF i] live [OF x] v by (simp add: drive_probe_def Let_def)
  show "swim_inv (snd (drive_probe hk now s))"
    using inv u quiet_inv [OF i inv] quiet_inv [OF x inv] by (simp add: drive_probe_def Let_def)
  show "sw_admission_dirty (snd (drive_probe hk now s)) = sw_admission_dirty s"
    using w quiet_fields(9) [OF x] by (simp add: drive_probe_def Let_def)
qed

lemma tick_removes:
  assumes inv: "swim_inv s" and on: "sw_online s" "\<not> sw_suspended s" and nd: "\<not> sw_admission_dirty s"
    and sus: "table_view s p = Some (Suspect, k, v)" "deadlines s p = Some d" "d \<le> now" and l: "\<not> sl_contains p (sw_leases s)"
  shows "p \<notin> live_set (snd (snd (swim_tick hk now s)))" and "swim_inv (snd (snd (swim_tick hk now s)))"
proof -
  define s1 where "s1 = reap_all now s"
  define s2 where "s2 = snd (drive_probe hk now s1)"
  obtain m where m: "member_of s p = Some m" "mb_status m = Suspect" "mb_suspect_deadline m \<le> now"
    using sus by (auto simp: table_view_def entry_view_def deadlines_def)
  note r = reap_all_over [OF inv m l, folded s1_def]
  have "env_of s1 = env_of s"
    using reap_suspects_env(1) [where s = "expire_suspend_leases now s" and now = now] expire_leases_other [OF inv m(1) _ l, of now] m(2)
    unfolding s1_def reap_all_def by (simp add: reap_rest_env is_tomb_def)
  then have "\<not> sw_admission_dirty s1" using nd by (simp add: env_of_def)
  with drive_keeps_out [OF r(2,1), where hk = hk and now = now]
  have 2: "p \<notin> live_set s2" "swim_inv s2" "\<not> sw_admission_dirty s2" by (simp_all add: s2_def)
  note h = settles_half(1) [OF 2(2,3), where now = now and hk = hk]
  have e: "snd (snd (swim_tick hk now s)) = snd (flush_events now (send_phase hk now (snd (start_probe hk now s2))))"
    using tick_parts [OF on] by (simp add: s1_def s2_def)
  show "p \<notin> live_set (snd (snd (swim_tick hk now s)))" "swim_inv (snd (snd (swim_tick hk now s)))"
    using h 2(1) unfolding e settles_def by (simp_all add: live_set_view)
qed

lemma view_nodes_live: "swim_inv s \<Longrightarrow> set (view_nodes (swim_view s)) = live_set s"
proof -
  assume inv: "swim_inv s"
  then have "keys_ok s" by (simp add: swim_inv_def table_ok_def)
  then have "live_set s \<subseteq> fst ` set (sw_members s)" by (force simp: live_set_def member_of_set)
  then have "finite (live_set s)" by (rule finite_subset) simp
  then show ?thesis using inv by (simp add: swim_inv_def views_ok_def swim_view_def)
qed


definition watching_node :: swim where
  "watching_node = (apply_update 5 SrcDirect 2 1 Alive (swim_create 1 swim_config_default 7 False))\<lparr> sw_probe :=
     \<lparr> pb_active = True, pb_phase = DirectPhase, pb_target = 2, pb_deadline = 10, pb_seq = 1, pb_acked = False \<rparr> \<rparr>"

lemma watching_node_observed: "observed_by 2 1 DirectPhase 10 watching_node" and watching_node_cfg: "sw_cfg watching_node = swim_config_default"
proof -
  let ?c = "swim_create 1 swim_config_default 7 False"
  let ?a = "apply_update 5 SrcDirect 2 1 Alive ?c"
  have k: "keys_ok ?c" using table_ok_self [OF create_inv] by blast
  have self: "sw_self ?c = 1" by (simp add: swim_create_def Let_def)
  have ad: "sw_admission ?c = None" and m: "member_of ?c 2 = None" and l: "sw_leases ?c = []"
    by (simp_all add: swim_create_def Let_def member_of_def)
  have "sanitize swim_config_default = swim_config_default" by (simp add: sanitize_def swim_config_default_def)
  then have "env_of ?c = ((None, False), swim_config_default, (True, False), probe_init)"
    by (simp add: env_of_def swim_create_def Let_def)
  then have env: "env_of ?a = ((None, False), swim_config_default, (True, False), probe_init)"
    by (simp only: env_of_apply_update)
  have nc: "\<not> is_client_node 2" by (simp add: is_client_node_iff_bit)
  have "expected 5 SrcDirect 2 1 Alive ?c 2 = Some (Alive, 1, True)"
    using nc by (simp add: expected_def refused_update_def outcome_def m created_def first_hand_def is_tomb_def ad denied_by_def)
  then have v: "table_view ?a 2 = Some (Alive, 1, True)"
    using apply_update_view [OF k _ refl, of 2 5 SrcDirect 1 Alive 2] self by (auto simp: is_tomb_def)
  have "\<not> sl_contains 2 (sw_leases ?a)"
  proof
    assume "sl_contains 2 (sw_leases ?a)"
    then have "sl_contains 2 (sw_leases ?c)" by (rule apply_update_leases [OF k, rotated]) (simp add: self)
    then show False by (simp add: l sl_contains_def sl_find_def)
  qed
  then show "observed_by 2 1 DirectPhase 10 watching_node"
    using env v quiet_inv [OF quiet_probe apply_update_inv [OF create_inv]] k self
    by (simp add: observed_by_def watching_node_def env_of_def table_view_def member_of_def denied_by_def)
  show "sw_cfg watching_node = swim_config_default" using env by (simp add: watching_node_def env_of_def)
qed

definition silent_hooks :: swim_hooks where
  "silent_hooks = \<lparr> hk_reachable = (\<lambda>_. False), hk_revocations = None, hk_signed = None, hk_capabilities = None, hk_pressure = None,
     hk_merge_revocations = False, hk_merge_signed = False, hk_merge_capabilities = False, hk_merge_pressure = False, hk_sweep = False, hk_data = False \<rparr>"


end
