(* ===== verification/Wal_Frame.thy ===== *)
theory Wal_Frame
  imports Byte_Codec
begin

text \<open>
  The record framing that the two append-only logs share (\<open>include/quark/core/file_store.hpp\<close> and
  \<open>include/quark/core/reminder_service.hpp\<close>): a 32-bit length, the CRC-32 of the body and the body.  The
  integers are little-endian.  What is left of a frame whose write was cut short is recognised as such by its
  length alone.
\<close>

section \<open>The checksum\<close>

primrec crc_shift :: "nat \<Rightarrow> u32 \<Rightarrow> u32" where
  "crc_shift 0 c = c"
| "crc_shift (Suc n) c = crc_shift n (if c AND 1 \<noteq> 0 then 0xEDB88320 XOR drop_bit 1 c else drop_bit 1 c)"

definition crc_table :: "u32 \<Rightarrow> u32" where
  "crc_table i = crc_shift 8 i"

definition crc32 :: "bytes \<Rightarrow> u32" where
  "crc32 data = fold (\<lambda>b c. crc_table ((c XOR ucast b) AND 0xFF) XOR drop_bit 8 c) data 0xFFFFFFFF XOR 0xFFFFFFFF"

lemma crc32_Nil [simp]: "crc32 [] = 0"
  by (simp add: crc32_def)

section \<open>Frames\<close>

definition frame_bytes :: "bytes \<Rightarrow> bytes" where
  "frame_bytes body = put_le 4 (of_nat (length body) :: u32) @ put_le 4 (crc32 body) @ body"

definition frame_len :: "bytes \<Rightarrow> nat" where
  "frame_len r = unat (get_le (take 4 r) :: u32)"

definition frame_crc :: "bytes \<Rightarrow> u32" where
  "frame_crc r = get_le (take 4 (drop 4 r))"

definition frame_body :: "bytes \<Rightarrow> bytes" where
  "frame_body r = take (frame_len r) (drop 8 r)"

lemma length_frame [simp, wire_simps]: "length (frame_bytes body) = 8 + length body"
  by (simp add: frame_bytes_def)

lemma unat_len_u32: "n < 2 ^ 32 \<Longrightarrow> unat (of_nat n :: u32) = n"
  by (simp add: unat_of_nat)

text \<open>Reading a whole frame, whatever follows it.\<close>

lemma frame_read:
  assumes "length body < 2 ^ 32"
  shows "frame_len (frame_bytes body @ r) = length body" and "frame_crc (frame_bytes body @ r) = crc32 body"
    and "frame_body (frame_bytes body @ r) = body" and "drop (8 + length body) (frame_bytes body @ r) = r"
proof -
  show l: "frame_len (frame_bytes body @ r) = length body"
    using assms by (simp add: frame_len_def frame_bytes_def unat_len_u32)
  show "frame_crc (frame_bytes body @ r) = crc32 body" by (simp add: frame_crc_def frame_bytes_def)
  show "frame_body (frame_bytes body @ r) = body" unfolding frame_body_def l by (simp add: frame_bytes_def)
  show "drop (8 + length body) (frame_bytes body @ r) = r" by (simp add: frame_bytes_def)
qed

text \<open>What is left of a frame when its write stops before the end.\<close>

lemma frame_torn:
  assumes "length body < 2 ^ 32" and "n < length (frame_bytes body)"
  shows "length (take n (frame_bytes body)) < 8 \<or>
    length (take n (frame_bytes body)) < 8 + frame_len (take n (frame_bytes body))"
proof (cases "n < 8")
  case False
  then have "take 4 (take n (frame_bytes body)) = take 4 (frame_bytes body)" by (simp add: min_def)
  then have "frame_len (take n (frame_bytes body)) = length body"
    using frame_read(1) [OF assms(1), of "[]"] by (simp add: frame_len_def)
  then show ?thesis using assms(2) by simp
qed simp

section \<open>Scanning a log\<close>

text \<open>
  The replay loop of both logs: \<open>ap\<close> applies the body of a record and refuses a malformed one; \<open>zero_ends\<close> says
  whether a length of zero ends the log.  The result is the state, the offset behind the last good record, and
  whether the log is corrupt.
\<close>

function frame_scan :: "bool \<Rightarrow> (bytes \<Rightarrow> 's \<Rightarrow> 's option) \<Rightarrow> bytes \<Rightarrow> 's \<Rightarrow> nat \<Rightarrow> 's \<times> nat \<times> bool" where
  "frame_scan zero_ends ap r e off =
     (if length r < 8 then (e, off, False)
      else if zero_ends \<and> frame_len r = 0 \<or> length r < 8 + frame_len r then (e, off, False)
      else if crc32 (frame_body r) \<noteq> frame_crc r then (e, off, 8 + frame_len r < length r)
      else case ap (frame_body r) e of
          None \<Rightarrow> (e, off, True)
        | Some e' \<Rightarrow> frame_scan zero_ends ap (drop (8 + frame_len r) r) e' (off + (8 + frame_len r)))"
  by pat_completeness auto
termination by (relation "measure (\<lambda>(_, _, r, _, _). length r)") auto

declare frame_scan.simps [simp del]

definition good_body :: "bool \<Rightarrow> bytes \<Rightarrow> bool" where
  "good_body z body \<longleftrightarrow> length body < 2 ^ 32 \<and> (z \<longrightarrow> body \<noteq> [])"

lemma scan_frame:
  assumes "good_body z body"
  shows "frame_scan z ap (frame_bytes body @ r) e off =
    (case ap body e of None \<Rightarrow> (e, off, True) | Some e' \<Rightarrow> frame_scan z ap r e' (off + length (frame_bytes body)))"
  using frame_read [of body r] assms
  by (subst frame_scan.simps) (auto simp: good_body_def add.assoc split: option.split)

lemma scan_torn:
  assumes "length r < 8 \<or> length r < 8 + frame_len r"
  shows "frame_scan z ap r e off = (e, off, False)"
  using assms by (subst frame_scan.simps) auto

lemma scan_Nil [simp]: "frame_scan z ap [] e off = (e, off, False)"
  by (rule scan_torn) simp

lemma scan_cut:
  assumes "good_body z body" and "n < length (frame_bytes body)"
  shows "frame_scan z ap (take n (frame_bytes body)) e off = (e, off, False)"
  using frame_torn [of body n] assms by (intro scan_torn) (simp add: good_body_def)

text \<open>The heads on which the loop goes on.\<close>

definition scan_goes :: "bool \<Rightarrow> bytes \<Rightarrow> bool" where
  "scan_goes z r \<longleftrightarrow> \<not> length r < 8 \<and> \<not> (z \<and> frame_len r = 0 \<or> length r < 8 + frame_len r) \<and> crc32 (frame_body r) = frame_crc r"

lemma scan_step:
  assumes "scan_goes z r" and "ap (frame_body r) e = Some e1"
  shows "frame_scan z ap r e off = frame_scan z ap (drop (8 + frame_len r) r) e1 (off + (8 + frame_len r))"
  using assms by (subst frame_scan.simps) (auto simp: scan_goes_def)

lemma scan_stop:
  assumes "\<not> (scan_goes z r \<and> (\<exists>e1. ap (frame_body r) e = Some e1))" and "frame_scan z ap r e off = (e', off', False)"
  shows "e' = e \<and> off' = off"
  using assms by (subst (asm) frame_scan.simps) (auto simp: scan_goes_def split: if_splits option.splits)

text \<open>The head of a record does not depend on what lies behind the record.\<close>

lemma head_prefix:
  assumes "take (8 + frame_len r) r = take (8 + frame_len r) r'" and "8 \<le> length r" and "8 + frame_len r \<le> length r'"
  shows "frame_len r' = frame_len r" and "frame_crc r' = frame_crc r" and "frame_body r' = frame_body r"
proof -
  have a: "take i r = take i r'" if "i \<le> 8 + frame_len r" for i using assms(1) that by (metis min.absorb1 take_take)
  show l: "frame_len r' = frame_len r" using a [of 4] by (simp add: frame_len_def)
  have "drop 4 (take 8 r) = drop 4 (take 8 r')" using a [of 8] by simp
  then have "take 4 (drop 4 r) = take 4 (drop 4 r')" by (simp add: drop_take)
  then show "frame_crc r' = frame_crc r" by (simp add: frame_crc_def)
  have "drop 8 (take (8 + frame_len r) r) = drop 8 (take (8 + frame_len r) r')" using assms(1) by simp
  then show "frame_body r' = frame_body r" unfolding frame_body_def l by (simp add: drop_take)
qed

text \<open>A log that is read to its end is a prefix of every log that continues it.\<close>

lemma scan_append:
  assumes "frame_scan z ap a e off = (e', off + length a, False)"
  shows "frame_scan z ap (a @ b) e off = frame_scan z ap b e' (off + length a)"
  using assms
proof (induction z ap a e off rule: frame_scan.induct)
  case (1 z ap r e off)
  show ?case
  proof (cases "scan_goes z r \<and> (\<exists>e1. ap (frame_body r) e = Some e1)")
    case False
    from scan_stop [OF this 1(2)] show ?thesis using 1(2) by simp
  next
    case True
    then obtain e1 where g: "scan_goes z r" and a: "ap (frame_body r) e = Some e1" by blast
    then have l: "8 \<le> length r" "8 + frame_len r \<le> length r" by (auto simp: scan_goes_def)
    have "frame_scan z ap (drop (8 + frame_len r) r) e1 (off + (8 + frame_len r)) =
        (e', (off + (8 + frame_len r)) + length (drop (8 + frame_len r) r), False)"
      using 1(2) l unfolding scan_step [of z r ap e e1 off, OF g a] by simp
    from 1(1) [OF _ _ _ a this] g
    have ih: "frame_scan z ap (drop (8 + frame_len r) r @ b) e1 (off + (8 + frame_len r)) =
        frame_scan z ap b e' (off + (8 + frame_len r) + length (drop (8 + frame_len r) r))" by (auto simp: scan_goes_def)
    have h: "frame_len (r @ b) = frame_len r" "frame_crc (r @ b) = frame_crc r" "frame_body (r @ b) = frame_body r"
      using head_prefix [of r "r @ b"] l by simp_all
    have "scan_goes z (r @ b)" using g l unfolding scan_goes_def h by auto
    from scan_step [of z "r @ b" ap e e1 off, OF this] a ih l show ?thesis by (simp add: h)
  qed
qed

text \<open>What was scanned is a log of its own.\<close>

lemma scan_take:
  assumes "frame_scan z ap r e off = (e', off', False)"
  shows "off \<le> off' \<and> off' - off \<le> length r \<and> frame_scan z ap (take (off' - off) r) e off = (e', off', False)"
  using assms
proof (induction z ap r e off rule: frame_scan.induct)
  case (1 z ap r e off)
  show ?case
  proof (cases "scan_goes z r \<and> (\<exists>e1. ap (frame_body r) e = Some e1)")
    case False
    from scan_stop [OF this 1(2)] show ?thesis by simp
  next
    case True
    then obtain e1 where g: "scan_goes z r" and a: "ap (frame_body r) e = Some e1" by blast
    let ?n = "8 + frame_len r"
    have l: "8 \<le> length r" "?n \<le> length r" using g by (auto simp: scan_goes_def)
    have "frame_scan z ap (drop ?n r) e1 (off + ?n) = (e', off', False)" using 1(2) scan_step [of z r ap e e1 off, OF g a] by simp
    from 1(1) [OF _ _ _ a this] g
    have ih: "off + ?n \<le> off'" "off' - (off + ?n) \<le> length (drop ?n r)"
      "frame_scan z ap (take (off' - (off + ?n)) (drop ?n r)) e1 (off + ?n) = (e', off', False)" by (auto simp: scan_goes_def)
    let ?t = "take (off' - off) r"
    have m: "?n \<le> off' - off" using ih(1) by simp
    have lt: "?n \<le> length ?t" using m l by simp
    have h: "frame_len ?t = frame_len r" "frame_crc ?t = frame_crc r" "frame_body ?t = frame_body r"
      using head_prefix [of r ?t] m l lt by (simp_all add: min_absorb1)
    have "scan_goes z ?t" using g lt unfolding scan_goes_def h by auto
    from scan_step [of z ?t ap e e1 off, OF this] a
    have "frame_scan z ap ?t e off = frame_scan z ap (drop ?n ?t) e1 (off + ?n)" by (simp add: h)
    moreover have "drop ?n ?t = take (off' - (off + ?n)) (drop ?n r)" by (simp add: drop_take)
    ultimately show ?thesis using ih l by simp
  qed
qed

text \<open>A journal of a state: a log that replays to it and has no tail.\<close>

definition journal_of :: "bool \<Rightarrow> (bytes \<Rightarrow> 's \<Rightarrow> 's option) \<Rightarrow> 's \<Rightarrow> bytes \<Rightarrow> 's \<Rightarrow> bool" where
  "journal_of z ap e0 b e \<longleftrightarrow> frame_scan z ap b e0 0 = (e, length b, False)"

lemma journal_of_Nil [simp]: "journal_of z ap e0 [] e0"
  by (simp add: journal_of_def)

lemma journal_of_scan: "journal_of z ap e0 a e \<Longrightarrow> frame_scan z ap (a @ b) e0 0 = frame_scan z ap b e (length a)"
  using scan_append [where z = z and ap = ap and a = a and e = e0 and off = 0 and e' = e and b = b] by (simp add: journal_of_def)

lemma journal_of_frame:
  assumes "journal_of z ap e0 a e" and "good_body z body" and "ap body e = Some e'"
  shows "journal_of z ap e0 (a @ frame_bytes body) e'"
proof -
  have "frame_scan z ap (frame_bytes body @ []) e (length a) = (e', length (a @ frame_bytes body), False)"
    unfolding scan_frame [OF assms(2)] using assms(3) by simp
  then show ?thesis using journal_of_scan [OF assms(1), of "frame_bytes body"] unfolding journal_of_def by simp
qed

lemma journal_of_cut:
  assumes "journal_of z ap e0 a e" and "good_body z body" and "n < length (frame_bytes body)"
  shows "frame_scan z ap (a @ take n (frame_bytes body)) e0 0 = (e, length a, False)"
  using journal_of_scan [OF assms(1)] scan_cut [OF assms(2,3)] by simp

lemma journal_of_prefix: "frame_scan z ap b e0 0 = (e, off, False) \<Longrightarrow> journal_of z ap e0 (take off b) e"
  using scan_take [of z ap b e0 0 e off] by (simp add: journal_of_def)

section \<open>Blobs\<close>

definition wal_put_blob :: "bytes \<Rightarrow> bytes" where
  "wal_put_blob v = put_le 4 (of_nat (length v) :: u32) @ v"

definition wal_get_blob :: "bytes \<Rightarrow> (bytes \<times> bytes) option" where
  "wal_get_blob r = (case get_fixed_le 4 r of None \<Rightarrow> None | Some (n :: u32, r1) \<Rightarrow> get_bytes (unat n) r1)"

lemma length_put_blob [simp, wire_simps]: "length (wal_put_blob v) = 4 + length v"
  by (simp add: wal_put_blob_def)

lemma get_put_blob:
  assumes "length v < 2 ^ 32"
  shows "wal_get_blob (wal_put_blob v @ r) = Some (v, r)"
  using assms by (simp add: wal_get_blob_def wal_put_blob_def unat_len_u32 get_bytes_def)

lemma get_blob_shorter: "wal_get_blob r = Some (v, r') \<Longrightarrow> length r' < length r"
  by (auto simp: wal_get_blob_def get_bytes_def dest!: get_fixed_le_shorter split: option.splits if_splits)

end
