(* ===== verification/File_Store.thy ===== *)
theory File_Store
  imports Store Wal_Frame
begin

text \<open>
  \<open>include/quark/core/file_store.hpp\<close>: the crash-durable store.  One append-only log file per actor; a table
  holds the entries replayed so far.  The disk is an association list from file names to contents.  The files
  \<open>.compact\<close> that a rewrite goes through are never read (\<open>parse_name\<close> skips them) and are not kept in it.

  What the file system does with a call is an argument of every operation: \<open>faults\<close> says whether a file opens,
  how many bytes a read yields before it stops, how many bytes of a write reach the file, and whether the
  flush, the truncation and the rename succeed.  Contents are what a later process would read: a write whose
  flush fails may or may not be among them, which the number of bytes written covers.
\<close>

section \<open>File names\<close>

definition hex_digit :: "u64 \<Rightarrow> char" where
  "hex_digit d = ''0123456789abcdef'' ! unat d"

definition hex16 :: "u64 \<Rightarrow> string" where
  "hex16 w = map (\<lambda>i. hex_digit (drop_bit (60 - 4 * i) w AND 15)) [0..<16]"

definition path_for :: "actor_id \<Rightarrow> string" where
  "path_for k = hex16 (aid_type k) @ ''-'' @ hex16 (aid_key k) @ ''.qwal''"

definition hex_value :: "char \<Rightarrow> u64 option" where
  "hex_value c = map_of (zip ''0123456789abcdefABCDEF'' [0,1,2,3,4,5,6,7,8,9,10,11,12,13,14,15,10,11,12,13,14,15]) c"

definition is_xdigit :: "char \<Rightarrow> bool" where
  "is_xdigit c \<longleftrightarrow> hex_value c \<noteq> None"

definition strtoull16 :: "string \<Rightarrow> u64" where
  "strtoull16 = foldl (\<lambda>a c. 16 * a + the (hex_value c)) 0"

definition parse_name :: "string \<Rightarrow> actor_id option" where
  "parse_name n =
     (if length n \<noteq> 38 \<or> n ! 16 \<noteq> CHR ''-'' \<or> drop 33 n \<noteq> ''.qwal'' then None
      else if \<not> list_all (\<lambda>i. i = 16 \<or> is_xdigit (n ! i)) [0..<33] then None
      else Some (ActorId (strtoull16 (take 16 n)) (strtoull16 (take 16 (drop 17 n)))))"

section \<open>State\<close>

record faults =
  ft_open :: bool
  ft_read :: "nat option"
  ft_cut :: bool
  ft_write :: "nat option"
  ft_flush :: bool
  ft_tmp :: bool
  ft_rename :: bool
  ft_reopen :: bool

definition no_faults :: faults where
  "no_faults = \<lparr> ft_open = True, ft_read = None, ft_cut = True, ft_write = None, ft_flush = True, ft_tmp = True,
     ft_rename = True, ft_reopen = True \<rparr>"

record file_entry =
  fe_open :: bool
  fe_off :: nat
  fe_state :: store_entry
  fe_corrupt :: bool

record file_store =
  fs_disk :: "(string \<times> bytes) list"
  fs_table :: "(actor_id \<times> file_entry) list"

definition fs_create :: file_store where
  "fs_create = \<lparr> fs_disk = [], fs_table = [] \<rparr>"

definition log_corrupt :: "'a result" where
  "log_corrupt = fail Internal (''FileStore: log is corrupt mid-file (CRC mismatch before intact records); '' @
     ''refusing to serve or truncate it; restore from backup / repair offline'')"

definition file_of :: "actor_id \<Rightarrow> file_store \<Rightarrow> bytes" where
  "file_of k s = (case map_of (fs_disk s) (path_for k) of None \<Rightarrow> [] | Some b \<Rightarrow> b)"

definition set_file :: "actor_id \<Rightarrow> bytes \<Rightarrow> file_store \<Rightarrow> file_store" where
  "set_file k b s = s\<lparr> fs_disk := AList.update (path_for k) b (fs_disk s) \<rparr>"

definition put_file_entry :: "actor_id \<Rightarrow> file_entry \<Rightarrow> file_store \<Rightarrow> file_store" where
  "put_file_entry k e s = s\<lparr> fs_table := AList.update k e (fs_table s) \<rparr>"

section \<open>Records\<close>

definition kFence :: u8 where "kFence = 1"
definition kSnapshot :: u8 where "kSnapshot = 2"
definition kBatch :: u8 where "kBatch = 3"

definition fence_body :: "fence_token \<Rightarrow> bytes" where
  "fence_body t = kFence # put_le 8 (token_value t)"

definition snapshot_body :: "fence_token \<Rightarrow> u64 \<Rightarrow> bytes \<Rightarrow> bytes" where
  "snapshot_body t q b = kSnapshot # put_le 8 (token_value t) @ put_le 8 q @ wal_put_blob b"

definition put_event :: "event_record \<Rightarrow> bytes" where
  "put_event r = put_le 8 (ev_seq r) @ wal_put_blob (ev_bytes r)"

definition batch_body :: "event_record list \<Rightarrow> bytes" where
  "batch_body rs = kBatch # put_le 4 (of_nat (length rs) :: u32) @ concat (map put_event rs)"

text \<open>The events of a batch: \<open>None\<close> when a field is cut off or a sequence number does not advance.\<close>

fun get_events :: "nat \<Rightarrow> u64 \<Rightarrow> bytes \<Rightarrow> (event_record list \<times> u64 \<times> bytes) option" where
  "get_events 0 prev r = Some ([], prev, r)"
| "get_events (Suc n) prev r =
     (case get_fixed_le 8 r of None \<Rightarrow> None
      | Some (q, r1) \<Rightarrow> (case wal_get_blob r1 of None \<Rightarrow> None
        | Some (b, r2) \<Rightarrow>
            if q \<le> prev then None
            else case get_events n q r2 of None \<Rightarrow> None
              | Some (evs, p, r3) \<Rightarrow> Some (\<lparr> ev_seq = q, ev_bytes = b \<rparr> # evs, p, r3)))"

definition apply_record :: "bytes \<Rightarrow> store_entry \<Rightarrow> store_entry option" where
  "apply_record body e =
     (case body of [] \<Rightarrow> None
      | kind # r \<Rightarrow>
          if kind = kFence then
            (case get_fixed_le 8 r of
               Some (t, []) \<Rightarrow> Some (e\<lparr> se_owner := FenceToken t \<rparr>)
             | _ \<Rightarrow> None)
          else if kind = kSnapshot then
            (case get_fixed_le 8 r of None \<Rightarrow> None
             | Some (t, r1) \<Rightarrow> (case get_fixed_le 8 r1 of None \<Rightarrow> None
               | Some (q, r2) \<Rightarrow> (case wal_get_blob r2 of
                     Some (b, []) \<Rightarrow>
                       Some (e\<lparr> se_last_seq := (if se_last_seq e < q then q else se_last_seq e),
                               se_snapshot := Some \<lparr> snap_fence = FenceToken t, through_seq = q, snap_bytes = b \<rparr> \<rparr>)
                   | _ \<Rightarrow> None)))
          else if kind = kBatch then
            (case get_fixed_le 4 r of None \<Rightarrow> None
             | Some (n :: u32, r1) \<Rightarrow> (case get_events (unat n) (se_last_seq e) r1 of
                   Some (evs, p, []) \<Rightarrow> Some (e\<lparr> se_log := se_log e @ evs, se_last_seq := p \<rparr>)
                 | _ \<Rightarrow> None))
          else None)"

section \<open>Replay\<close>

text \<open>The entry, the offset behind the last good record, and whether the log is corrupt.\<close>

abbreviation wal_scan :: "bytes \<Rightarrow> store_entry \<Rightarrow> nat \<Rightarrow> store_entry \<times> nat \<times> bool" where
  "wal_scan \<equiv> frame_scan False apply_record"

definition fs_replay :: "faults \<Rightarrow> bytes \<Rightarrow> file_entry \<times> bytes" where
  "fs_replay f file =
     (let seen = (case ft_read f of None \<Rightarrow> file | Some n \<Rightarrow> take n file); n = length seen;
          (e, off, bad) = wal_scan seen fresh_entry 0
      in if bad then (\<lparr> fe_open = True, fe_off = n, fe_state = e, fe_corrupt = True \<rparr>, file)
         else (\<lparr> fe_open = True, fe_off = off, fe_state = e, fe_corrupt = False \<rparr>,
               if off \<noteq> n \<and> ft_cut f then take off file else file))"

definition fs_entry :: "faults \<Rightarrow> actor_id \<Rightarrow> file_store \<Rightarrow> file_entry \<times> file_store" where
  "fs_entry f k s =
     (case map_of (fs_table s) k of
        Some e \<Rightarrow> (e, s)
      | None \<Rightarrow>
          if ft_open f then
            let (e, file) = fs_replay f (file_of k s) in (e, put_file_entry k e (set_file k file s))
          else
            let e = \<lparr> fe_open = False, fe_off = 0, fe_state = fresh_entry, fe_corrupt = False \<rparr>
            in (e, put_file_entry k e s))"

section \<open>Appending\<close>

definition written :: "faults \<Rightarrow> bytes \<Rightarrow> nat" where
  "written f fr = (case ft_write f of None \<Rightarrow> length fr | Some n \<Rightarrow> min n (length fr))"

definition durable_append :: "faults \<Rightarrow> actor_id \<Rightarrow> file_entry \<Rightarrow> bytes \<Rightarrow> file_store \<Rightarrow> bool \<times> file_entry \<times> file_store" where
  "durable_append f k e body s =
     (if \<not> fe_open e then (False, e, s)
      else
        let fr = frame_bytes body; n = written f fr; file = file_of k s;
            s1 = set_file k (take (fe_off e) file @ take n fr @ drop (fe_off e + n) file) s
        in if n \<noteq> length fr \<or> \<not> ft_flush f then (False, e, s1)
           else (True, e\<lparr> fe_off := fe_off e + length fr \<rparr>, s1))"

definition write_failed :: "'a result" where
  "write_failed = fail Internal ''FileStore: durable write failed''"

section \<open>The operations of \<open>FileStore\<close>\<close>

definition fs_acquire_fence :: "faults \<Rightarrow> actor_id \<Rightarrow> file_store \<Rightarrow> fence_token result \<times> file_store" where
  "fs_acquire_fence f k s0 =
     (let (e, s) = fs_entry f k s0 in
      if fe_corrupt e then (log_corrupt, s)
      else
        let next = FenceToken (token_value (se_owner (fe_state e)) + 1);
            (done, e1, s1) = durable_append f k e (fence_body next) s
        in if \<not> done then (fail Internal ''FileStore: could not durably record the new fence owner'', s1)
           else (Inr next, put_file_entry k (e1\<lparr> fe_state := (fe_state e1)\<lparr> se_owner := next \<rparr> \<rparr>) s1))"

definition fs_last_seq :: "faults \<Rightarrow> actor_id \<Rightarrow> file_store \<Rightarrow> u64 \<times> file_store" where
  "fs_last_seq f k s0 = (let (e, s) = fs_entry f k s0 in (se_last_seq (fe_state e), s))"

definition fs_load_snapshot :: "faults \<Rightarrow> actor_id \<Rightarrow> file_store \<Rightarrow> snapshot_record option result \<times> file_store" where
  "fs_load_snapshot f k s0 =
     (let (e, s) = fs_entry f k s0 in (if fe_corrupt e then log_corrupt else Inr (se_snapshot (fe_state e)), s))"

definition fs_save_snapshot ::
  "faults \<Rightarrow> actor_id \<Rightarrow> fence_token \<Rightarrow> snapshot_record \<Rightarrow> file_store \<Rightarrow> unit result \<times> file_store" where
  "fs_save_snapshot f k tok snap s0 =
     (let (e, s) = fs_entry f k s0; st = fe_state e in
      if fe_corrupt e then (log_corrupt, s)
      else if fenced_out tok st then (fenced_error, s)
      else if (case se_snapshot st of None \<Rightarrow> False | Some sn \<Rightarrow> through_seq snap < through_seq sn)
        then (fail Internal ''stale snapshot: through_seq older than the stored snapshot'', s)
      else if se_last_seq st < through_seq snap
        then (fail Internal ''snapshot through_seq ahead of the appended tail'', s)
      else
        let (done, e1, s1) = durable_append f k e (snapshot_body tok (through_seq snap) (snap_bytes snap)) s
        in if \<not> done then (write_failed, s1)
           else (Inr (), put_file_entry k (e1\<lparr> fe_state := (fe_state e1)\<lparr> se_snapshot := Some (snap\<lparr> snap_fence := tok \<rparr>) \<rparr> \<rparr>) s1))"

definition fs_append_batch ::
  "faults \<Rightarrow> actor_id \<Rightarrow> fence_token \<Rightarrow> event_record list \<Rightarrow> file_store \<Rightarrow> unit result \<times> file_store" where
  "fs_append_batch f k tok batch s0 =
     (let (e, s) = fs_entry f k s0; st = fe_state e in
      if fe_corrupt e then (log_corrupt, s)
      else if fenced_out tok st then (fenced_error, s)
      else case advance_seq (se_last_seq st) batch of
        None \<Rightarrow> (fail Internal ''commit sequence not strictly increasing'', s)
      | Some q \<Rightarrow>
          let (done, e1, s1) = durable_append f k e (batch_body batch) s
          in if \<not> done then (write_failed, s1)
             else (Inr (), put_file_entry k
               (e1\<lparr> fe_state := (fe_state e1)\<lparr> se_log := se_log (fe_state e1) @ batch, se_last_seq := q \<rparr> \<rparr>) s1))"

definition fs_append :: "faults \<Rightarrow> actor_id \<Rightarrow> fence_token \<Rightarrow> u64 \<Rightarrow> bytes \<Rightarrow> file_store \<Rightarrow> unit result \<times> file_store" where
  "fs_append f k tok q bs s = fs_append_batch f k tok [\<lparr> ev_seq = q, ev_bytes = bs \<rparr>] s"

definition fs_read_log :: "faults \<Rightarrow> actor_id \<Rightarrow> u64 \<Rightarrow> file_store \<Rightarrow> event_record list result \<times> file_store" where
  "fs_read_log f k q s0 =
     (let (e, s) = fs_entry f k s0
      in (if fe_corrupt e then log_corrupt else Inr (filter (\<lambda>r. q \<le> ev_seq r) (se_log (fe_state e))), s))"

text \<open>The rewritten log: the owner, the snapshot and the events that survive.\<close>

definition compact_image :: "fence_token \<Rightarrow> snapshot_record \<Rightarrow> event_record list \<Rightarrow> bytes" where
  "compact_image own sn rest =
     frame_bytes (fence_body own) @ frame_bytes (snapshot_body (snap_fence sn) (through_seq sn) (snap_bytes sn)) @
     (if rest \<noteq> [] then frame_bytes (batch_body rest) else [])"

definition fs_truncate_log :: "faults \<Rightarrow> actor_id \<Rightarrow> fence_token \<Rightarrow> u64 \<Rightarrow> file_store \<Rightarrow> unit result \<times> file_store" where
  "fs_truncate_log f k tok q s0 =
     (let (e, s) = fs_entry f k s0; st = fe_state e in
      if fe_corrupt e then (log_corrupt, s)
      else if fenced_out tok st then (fenced_error, s)
      else case se_snapshot st of
        None \<Rightarrow> (fail Internal ''truncate_log: no snapshot subsumes the requested prefix'', s)
      | Some sn \<Rightarrow>
          if through_seq sn < q then (fail Internal ''truncate_log: no snapshot subsumes the requested prefix'', s)
          else
            let rest = dropWhile (\<lambda>r. ev_seq r \<le> q) (se_log st) in
            if length rest = length (se_log st) then (Inr (), s)
            else if \<not> ft_tmp f then (fail Internal ''FileStore: compact: open tmp failed'', s)
            else if \<not> ft_rename f then (fail Internal ''FileStore: compact: rewrite failed (old log intact)'', s)
            else
              let out = compact_image (se_owner st) sn rest; s1 = set_file k out s in
              if \<not> ft_reopen f
              then (fail Internal ''FileStore: compact: reopen failed'',
                    put_file_entry k (e\<lparr> fe_open := False, fe_corrupt := True \<rparr>) s1)
              else (Inr (), put_file_entry k (e\<lparr> fe_off := length out, fe_state := st\<lparr> se_log := rest \<rparr> \<rparr>) s1))"

section \<open>Backup and restore\<close>

text \<open>
  The actors of the directory, in order; each is loaded on the way.  \<open>fl\<close> gives the faults actor by actor,
  \<open>dir_ok\<close> says whether the directory could be enumerated.
\<close>

definition actor_rank :: "actor_id \<Rightarrow> nat" where
  "actor_rank k = unat (aid_type k) * 2 ^ 64 + unat (aid_key k)"

definition stored_actors :: "file_store \<Rightarrow> actor_id list" where
  "stored_actors s = sort_key actor_rank (List.map_filter (\<lambda>(n, _). parse_name n) (fs_disk s))"

definition backup_of :: "actor_id \<Rightarrow> store_entry \<Rightarrow> actor_backup" where
  "backup_of k e = \<lparr> ab_id = k, ab_owner = se_owner e, ab_last_seq = se_last_seq e, ab_snapshot = se_snapshot e, ab_log = se_log e \<rparr>"

fun backup_loop :: "(actor_id \<Rightarrow> faults) \<Rightarrow> actor_id list \<Rightarrow> backup_image \<Rightarrow> file_store \<Rightarrow> backup_image result \<times> file_store" where
  "backup_loop fl [] out s = (Inr out, s)"
| "backup_loop fl (k # ks) out s0 =
     (let (e, s) = fs_entry (fl k) k s0; st = fe_state e in
      if fe_corrupt e then (log_corrupt, s)
      else backup_loop fl ks \<lparr> bi_epoch = max (bi_epoch out) (se_owner st), bi_actors = bi_actors out @ [backup_of k st] \<rparr> s)"

definition fs_snapshot_to :: "bool \<Rightarrow> (actor_id \<Rightarrow> faults) \<Rightarrow> file_store \<Rightarrow> backup_image result \<times> file_store" where
  "fs_snapshot_to dir_ok fl s =
     (if \<not> dir_ok then (fail Internal ''FileStore: backup: cannot enumerate the store directory'', s)
      else backup_loop fl (stored_actors s) \<lparr> bi_epoch = FenceToken 0, bi_actors = [] \<rparr> s)"

text \<open>The log of one restored actor: the events come before the snapshot.\<close>

definition restore_image :: "fence_token \<Rightarrow> actor_backup \<Rightarrow> bytes" where
  "restore_image ep a =
     frame_bytes (fence_body ep) @
     (if ab_log a \<noteq> [] then frame_bytes (batch_body (ab_log a)) else []) @
     (case ab_snapshot a of None \<Rightarrow> []
      | Some sn \<Rightarrow> frame_bytes (snapshot_body (snap_fence sn) (through_seq sn) (snap_bytes sn)))"

definition restored_entry :: "fence_token \<Rightarrow> actor_backup \<Rightarrow> store_entry" where
  "restored_entry ep a =
     \<lparr> se_owner = ep, se_last_seq = ab_last_seq a, se_snapshot = ab_snapshot a, se_log = ab_log a \<rparr>"

text \<open>The files written so far are removed again when one cannot be created or written.\<close>

definition remove_files :: "actor_id list \<Rightarrow> file_store \<Rightarrow> file_store" where
  "remove_files ks s = s\<lparr> fs_disk := filter (\<lambda>(n, _). n \<notin> set (map path_for ks)) (fs_disk s) \<rparr>"

fun restore_loop ::
  "(actor_id \<Rightarrow> faults) \<Rightarrow> fence_token \<Rightarrow> actor_backup list \<Rightarrow> actor_id list \<Rightarrow> (actor_id \<times> file_entry) list \<Rightarrow> file_store
     \<Rightarrow> fence_token result \<times> file_store" where
  "restore_loop fl ep [] done staged s = (Inr ep, s\<lparr> fs_table := staged \<rparr>)"
| "restore_loop fl ep (a # as) done staged s =
     (let f = fl (ab_id a); out = restore_image ep a; n = written f out; file = file_of (ab_id a) s in
      if \<not> ft_open f then (fail Internal ''FileStore: restore: cannot create actor log'', remove_files done s)
      else if n \<noteq> length out \<or> \<not> ft_flush f
        then (fail Internal ''FileStore: restore: durable write failed'', remove_files (ab_id a # done) s)
      else restore_loop fl ep as (ab_id a # done)
        (AList.update (ab_id a) \<lparr> fe_open = True, fe_off = length out, fe_state = restored_entry ep a, fe_corrupt = False \<rparr> staged)
        (set_file (ab_id a) (out @ drop (length out) file) s))"

definition fs_restore_from ::
  "bool \<Rightarrow> (actor_id \<Rightarrow> faults) \<Rightarrow> backup_image \<Rightarrow> fence_token \<Rightarrow> file_store \<Rightarrow> fence_token result \<times> file_store" where
  "fs_restore_from dir_ok fl img min_epoch s =
     (if fs_table s \<noteq> [] then (fail Validation ''restore_from: target store is not empty'', s)
      else case validate_backup img of
        Inl er \<Rightarrow> (Inl er, s)
      | Inr _ \<Rightarrow>
          if dir_ok \<and> list_ex (\<lambda>(n, b). parse_name n \<noteq> None \<and> b \<noteq> []) (fs_disk s)
          then (fail Validation ''restore_from: target directory already holds actor logs'', s)
          else restore_loop fl (restore_epoch img min_epoch) (bi_actors img) [] [] s)"

section \<open>Introspection\<close>

definition fs_current_owner :: "faults \<Rightarrow> actor_id \<Rightarrow> file_store \<Rightarrow> fence_token \<times> file_store" where
  "fs_current_owner f k s0 = (let (e, s) = fs_entry f k s0 in (se_owner (fe_state e), s))"

definition fs_log_size :: "faults \<Rightarrow> actor_id \<Rightarrow> file_store \<Rightarrow> nat \<times> file_store" where
  "fs_log_size f k s0 = (let (e, s) = fs_entry f k s0 in (length (se_log (fe_state e)), s))"

definition fs_corrupted :: "faults \<Rightarrow> actor_id \<Rightarrow> file_store \<Rightarrow> bool \<times> file_store" where
  "fs_corrupted f k s0 = (let (e, s) = fs_entry f k s0 in (fe_corrupt e, s))"

text \<open>The process dies and a new one opens the directory: only the files are left.\<close>

definition fs_reboot :: "file_store \<Rightarrow> file_store" where
  "fs_reboot s = s\<lparr> fs_table := [] \<rparr>"

end
