(* ===== verification/File_Store_Safety.thy ===== *)
theory File_Store_Safety
  imports File_Store
begin

text \<open>
  What the durable store keeps over crashes: the replay of a log inverts its appends, a torn tail is cut off,
  and a store that is reopened after any sequence of calls and crashes holds what the in-memory store would.
\<close>

section \<open>Records are read back\<close>

lemma apply_fence: "apply_record (fence_body t) e = Some (e\<lparr> se_owner := t \<rparr>)"
  using get_fixed_le_put [where v = "token_value t" and n = 8 and r = "[]"]
  by (simp add: apply_record_def fence_body_def)

lemma apply_snapshot:
  assumes "length b < 2 ^ 32"
  shows "apply_record (snapshot_body t q b) e =
    Some (e\<lparr> se_last_seq := max (se_last_seq e) q, se_snapshot := Some \<lparr> snap_fence = t, through_seq = q, snap_bytes = b \<rparr> \<rparr>)"
  using get_put_blob [OF assms, of "[]"]
  by (simp add: apply_record_def snapshot_body_def kSnapshot_def kFence_def max_def not_le not_less)

lemma get_put_events:
  assumes "\<forall>r\<in>set rs. length (ev_bytes r) < 2 ^ 32"
  shows "get_events (length rs) prev (concat (map put_event rs) @ x) =
    map_option (\<lambda>p. (rs, p, x)) (advance_seq prev rs)"
  using assms
proof (induction rs arbitrary: prev)
  case (Cons r rs)
  then show ?case by (cases "advance_seq (ev_seq r) rs") (simp_all add: put_event_def get_put_blob)
qed simp

lemma put_events_length: "r \<in> set rs \<Longrightarrow> 12 + length (ev_bytes r) \<le> length (concat (map put_event rs))"
  by (induction rs) (auto simp: put_event_def)

lemma put_events_count: "length rs \<le> length (concat (map put_event rs))"
  by (induction rs) (auto simp: put_event_def)

lemma length_batch: "length (batch_body rs) = 5 + length (concat (map put_event rs))"
  by (simp add: batch_body_def)

lemma apply_batch:
  assumes "length (batch_body rs) < 2 ^ 32"
  shows "apply_record (batch_body rs) e =
    map_option (\<lambda>p. e\<lparr> se_log := se_log e @ rs, se_last_seq := p \<rparr>) (advance_seq (se_last_seq e) rs)"
proof -
  have b: "\<forall>r\<in>set rs. length (ev_bytes r) < 2 ^ 32" using put_events_length [of _ rs] assms by (fastforce simp: length_batch)
  have n: "length rs < 2 ^ 32" using put_events_count [of rs] assms by (simp add: length_batch)
  show ?thesis
    using get_put_events [OF b, of "se_last_seq e" "[]"] n
    by (cases "advance_seq (se_last_seq e) rs")
      (simp_all add: apply_record_def batch_body_def kBatch_def kSnapshot_def kFence_def unat_len_u32)
qed

section \<open>Journals\<close>

abbreviation journal :: "bytes \<Rightarrow> store_entry \<Rightarrow> bool" where
  "journal \<equiv> journal_of False apply_record fresh_entry"

lemma good_small [simp]: "good_body False body \<longleftrightarrow> length body < 2 ^ 32"
  by (simp add: good_body_def)

lemma journal_frame:
  assumes "journal file e" and "length body < 2 ^ 32" and "apply_record body e = Some e'"
  shows "journal (file @ frame_bytes body) e'"
  using assms by (intro journal_of_frame) (simp_all add: good_body_def)

section \<open>File names determine actors\<close>

lemma hex_round:
  assumes "unat d < 16"
  shows "hex_value (hex_digit d) = Some d"
proof -
  obtain n where d: "d = of_nat n" "n < 16" using assms that [of "unat d"] by simp
  have "n \<in> set (upt 0 16)" using d(2) by simp
  then show ?thesis unfolding d(1)
    by (simp add: upt_rec) (elim disjE, simp_all add: hex_digit_def hex_value_def)
qed

lemma nibble: "unat ((x :: u64) AND 15) < 16"
  using unat_and_mask [of x 4] by (simp add: mask_eq_decr_exp)

lemma nibble_split: "16 * drop_bit 4 x + (x AND 15) = (x :: u64)"
proof -
  have a: "unat (x AND 15) = unat x mod 16" using unat_and_mask [of x 4] by (simp add: mask_eq_decr_exp)
  have b: "unat (drop_bit 4 x) = unat x div 16" using unat_drop_bit_div [of 4 x] by simp
  have "unat x < 2 ^ 64" using unsigned_less [of x] by simp
  then have c: "unat (16 * drop_bit 4 x) = 16 * (unat x div 16)" by (simp add: unat_word_ariths b)
  have "unat (16 * drop_bit 4 x + (x AND 15)) = 16 * (unat x div 16) + unat x mod 16"
    using \<open>unat x < 2 ^ 64\<close> by (simp only: unat_word_ariths(1) a c) simp
  also have "\<dots> = unat x" by simp
  finally show ?thesis by (rule unsigned_word_eqI)
qed

lemma strtoull_hex: "strtoull16 (hex16 w) = w"
proof -
  have "strtoull16 (map (\<lambda>i. hex_digit (drop_bit (60 - 4 * i) w AND 15)) [0..<n]) = drop_bit (64 - 4 * n) w" if "n \<le> 16" for n
    using that
  proof (induction n)
    case (Suc n)
    have "drop_bit (64 - 4 * n) w = drop_bit 4 (drop_bit (60 - 4 * n) w)" using Suc.prems by (simp add: drop_bit_drop_bit)
    then have "16 * drop_bit (64 - 4 * n) w + (drop_bit (60 - 4 * n) w AND 15) = drop_bit (60 - 4 * n) w"
      using nibble_split [of "drop_bit (60 - 4 * n) w"] by simp
    then show ?case using Suc hex_round [OF nibble] by (simp add: strtoull16_def)
  qed (simp add: strtoull16_def)
  from this [of 16] show ?thesis by (simp add: hex16_def)
qed

lemma length_hex16 [simp]: "length (hex16 w) = 16"
  by (simp add: hex16_def)

lemma hex16_digits: "i < 16 \<Longrightarrow> is_xdigit (hex16 w ! i)"
  by (simp add: hex16_def is_xdigit_def hex_round [OF nibble])

lemma parse_path [simp]: "parse_name (path_for k) = Some k"
proof -
  let ?p = "path_for k"
  have l: "length ?p = 38" "?p ! 16 = CHR ''-''" "drop 33 ?p = ''.qwal''" "take 16 ?p = hex16 (aid_type k)" "take 16 (drop 17 ?p) = hex16 (aid_key k)"
    by (simp_all add: path_for_def nth_append)
  have "is_xdigit (?p ! i)" if "i < 33" "i \<noteq> 16" for i
  proof (cases "i < 16")
    case True
    then show ?thesis using hex16_digits [of i "aid_type k"] by (simp add: path_for_def nth_append)
  next
    case False
    have less: "i - 17 < 16" using that by linarith
    have "?p ! i = (hex16 (aid_key k) @ ''.qwal'') ! (i - 17)" using that False by (simp add: path_for_def nth_append nth_Cons')
    then have "?p ! i = hex16 (aid_key k) ! (i - 17)" using less by (simp add: nth_append)
    then show ?thesis using hex16_digits [OF less, of "aid_key k"] by simp
  qed
  then have "\<forall>i < 33. i = 16 \<or> is_xdigit (?p ! i)" by metis
  then have "list_all (\<lambda>i. i = 16 \<or> is_xdigit (?p ! i)) [0..<33]" by (simp add: list_all_iff)
  then show ?thesis using l by (simp add: parse_name_def strtoull_hex)
qed

lemma path_for_inj [simp]: "path_for k = path_for k' \<longleftrightarrow> k = k'"
  by (metis option.inject parse_path)

lemma file_of_set [simp]: "file_of k' (set_file k b s) = (if k' = k then b else file_of k' s)"
  by (simp add: file_of_def set_file_def update_conv)

lemma table_of_steps [simp]:
  "fs_table (set_file k b s) = fs_table s" "file_of k' (put_file_entry k e s) = file_of k' s"
  "map_of (fs_table (put_file_entry k e s)) k' = (if k' = k then Some e else map_of (fs_table s) k')"
  by (simp_all add: set_file_def put_file_entry_def file_of_def update_conv)

section \<open>A clean store\<close>

text \<open>
  The entry of an actor as a caller sees it: the loaded one, or what a replay of the file gives.  The store is
  clean when every loaded entry is open and its file a journal of it, and every other file at worst has a torn
  tail.
\<close>

definition fs_view :: "actor_id \<Rightarrow> file_store \<Rightarrow> store_entry" where
  "fs_view k s = (case map_of (fs_table s) k of Some e \<Rightarrow> fe_state e | None \<Rightarrow> fst (wal_scan (file_of k s) fresh_entry 0))"

definition actor_clean :: "actor_id \<Rightarrow> file_store \<Rightarrow> bool" where
  "actor_clean k s \<longleftrightarrow>
     (case map_of (fs_table s) k of
        Some e \<Rightarrow> fe_open e \<and> \<not> fe_corrupt e \<and> fe_off e = length (file_of k s) \<and> journal (file_of k s) (fe_state e)
      | None \<Rightarrow> \<exists>e off. wal_scan (file_of k s) fresh_entry 0 = (e, off, False))"

definition store_clean :: "file_store \<Rightarrow> bool" where
  "store_clean s \<longleftrightarrow> (\<forall>k. actor_clean k s)"

text \<open>A step for one actor leaves the others alone.\<close>

definition elsewhere :: "actor_id \<Rightarrow> file_store \<Rightarrow> file_store \<Rightarrow> bool" where
  "elsewhere k s t \<longleftrightarrow> (\<forall>k'. k' \<noteq> k \<longrightarrow> map_of (fs_table t) k' = map_of (fs_table s) k' \<and> file_of k' t = file_of k' s)"

lemma elsewhere_refl [simp]: "elsewhere k s s"
  by (simp add: elsewhere_def)

lemma elsewhere_trans: "elsewhere k r s \<Longrightarrow> elsewhere k s t \<Longrightarrow> elsewhere k r t"
  by (simp add: elsewhere_def)

lemma elsewhere_steps [simp]: "elsewhere k s (set_file k b s)" "elsewhere k s (put_file_entry k e s)"
  by (simp_all add: elsewhere_def)

lemma elsewhere_view: "elsewhere k s t \<Longrightarrow> k' \<noteq> k \<Longrightarrow> fs_view k' t = fs_view k' s"
  by (auto simp: elsewhere_def fs_view_def split: option.split)

lemma elsewhere_clean: "store_clean s \<Longrightarrow> elsewhere k s t \<Longrightarrow> actor_clean k t \<Longrightarrow> store_clean t"
proof -
  assume a: "store_clean s" "elsewhere k s t" "actor_clean k t"
  have "actor_clean k' t" for k'
  proof (cases "k' = k")
    case False
    then have "map_of (fs_table t) k' = map_of (fs_table s) k'" "file_of k' t = file_of k' s" using a(2) by (simp_all add: elsewhere_def)
    then have "actor_clean k' t = actor_clean k' s" by (simp only: actor_clean_def)
    then show ?thesis using a(1) by (simp add: store_clean_def)
  qed (simp add: a(3))
  then show "store_clean t" by (simp add: store_clean_def)
qed

text \<open>Loading an actor of a clean store cuts off the torn tail and shows what was there.\<close>

definition loaded :: "actor_id \<Rightarrow> file_entry \<Rightarrow> file_store \<Rightarrow> bool" where
  "loaded k e s \<longleftrightarrow> map_of (fs_table s) k = Some e \<and> fe_open e \<and> \<not> fe_corrupt e \<and> fe_off e = length (file_of k s) \<and>
     journal (file_of k s) (fe_state e)"

lemma loaded_clean: "loaded k e s \<Longrightarrow> actor_clean k s \<and> fs_view k s = fe_state e"
  by (simp add: loaded_def actor_clean_def fs_view_def)

lemma load_entry:
  assumes "store_clean s" and "ft_open f" and "ft_read f = None" and "ft_cut f" and x: "fs_entry f k s = (e, s')"
  shows "loaded k e s' \<and> fe_state e = fs_view k s \<and> elsewhere k s s'"
proof (cases "map_of (fs_table s) k")
  case (Some e0)
  moreover have "actor_clean k s" using assms(1) by (simp add: store_clean_def)
  ultimately show ?thesis using x by (auto simp: fs_entry_def actor_clean_def loaded_def fs_view_def)
next
  case None
  then obtain st off where w: "wal_scan (file_of k s) fresh_entry 0 = (st, off, False)"
    using assms(1) None spec [of "\<lambda>k. actor_clean k s" k] by (auto simp: store_clean_def actor_clean_def)
  from scan_take [OF w] have t: "off \<le> length (file_of k s)" "wal_scan (take off (file_of k s)) fresh_entry 0 = (st, off, False)" by simp_all
  let ?b = "if off \<noteq> length (file_of k s) then take off (file_of k s) else file_of k s"
  have b: "?b = take off (file_of k s)" by simp
  have e: "e = \<lparr> fe_open = True, fe_off = off, fe_state = st, fe_corrupt = False \<rparr>" "s' = put_file_entry k e (set_file k ?b s)"
    using None x assms(2-4) w by (auto simp: fs_entry_def fs_replay_def Let_def)
  have "elsewhere k s s'" unfolding e(2) by (rule elsewhere_trans [OF elsewhere_steps])
  moreover have "fs_view k s = st" using None w by (simp add: fs_view_def)
  moreover have "loaded k e s'" using t unfolding loaded_def e b by (simp add: journal_of_def)
  ultimately show ?thesis by (simp add: e(1))
qed

text \<open>One record is appended to a loaded actor: all of it and flushed, or cut short by the end of the process.\<close>

lemma append_done:
  assumes "loaded k e s" and "length body < 2 ^ 32" and "apply_record body (fe_state e) = Some st"
    and "ft_write f = None" and "ft_flush f"
  shows "durable_append f k e body s =
      (True, e\<lparr> fe_off := fe_off e + length (frame_bytes body) \<rparr>, set_file k (file_of k s @ frame_bytes body) s)"
    and "journal (file_of k s @ frame_bytes body) st"
  using assms journal_frame [of "file_of k s" "fe_state e" body st]
  by (simp_all add: durable_append_def written_def loaded_def Let_def)

lemma append_killed:
  assumes l: "loaded k e s" and b: "length body < 2 ^ 32" "apply_record body (fe_state e) = Some st"
    and f: "ft_write f = Some n" and x: "durable_append f k e body s = (ok, e1, s1)"
  shows "elsewhere k s s1 \<and> wal_scan (file_of k s1) fresh_entry 0 =
    (if n < length (frame_bytes body) then (fe_state e, length (file_of k s), False) else (st, length (file_of k s1), False))"
proof -
  have j: "journal (file_of k s) (fe_state e)" using l by (simp add: loaded_def)
  have s1: "s1 = set_file k (file_of k s @ take n (frame_bytes body)) s"
    using l f x by (auto simp: durable_append_def written_def loaded_def Let_def min_def split: if_splits)
  show ?thesis
  proof (cases "n < length (frame_bytes body)")
    case True
    then show ?thesis using journal_of_cut [OF j _ True] b(1) s1 by simp
  next
    case False
    then show ?thesis using journal_frame [OF j b] s1 by (simp add: journal_of_def)
  qed
qed

text \<open>What the process leaves behind, and what the next one sees.\<close>

lemma reboot_simps [simp]: "fs_table (fs_reboot s) = []" "file_of k (fs_reboot s) = file_of k s" "fs_disk (fs_reboot s) = fs_disk s"
  by (simp_all add: fs_reboot_def file_of_def)

lemma reboot_view: "fs_view k (fs_reboot s) = fst (wal_scan (file_of k s) fresh_entry 0)"
  by (simp add: fs_view_def)

lemma clean_scan:
  assumes "store_clean s"
  shows "\<exists>off. wal_scan (file_of k s) fresh_entry 0 = (fs_view k s, off, False)"
proof -
  have "actor_clean k s" using assms by (simp add: store_clean_def)
  then show ?thesis by (cases "map_of (fs_table s) k") (auto simp: actor_clean_def fs_view_def journal_of_def)
qed

definition leaves :: "actor_id \<Rightarrow> store_entry set \<Rightarrow> file_store \<Rightarrow> file_store \<Rightarrow> bool" where
  "leaves k sts s t \<longleftrightarrow> elsewhere k s t \<and> (\<exists>st off. st \<in> sts \<and> wal_scan (file_of k t) fresh_entry 0 = (st, off, False))"

lemma leaves_trans: "elsewhere k r s \<Longrightarrow> leaves k sts s t \<Longrightarrow> leaves k sts r t"
  by (auto simp: leaves_def intro: elsewhere_trans)

lemma leaves_mono: "leaves k A s t \<Longrightarrow> A \<subseteq> B \<Longrightarrow> leaves k B s t"
  by (auto simp: leaves_def)

lemma leaves_reboot:
  assumes "store_clean s" and "leaves k sts s t"
  shows "store_clean (fs_reboot t) \<and> fs_view k (fs_reboot t) \<in> sts \<and> (\<forall>k'. k' \<noteq> k \<longrightarrow> fs_view k' (fs_reboot t) = fs_view k' s)"
proof (intro conjI allI impI)
  obtain st off where k: "elsewhere k s t" "st \<in> sts" "wal_scan (file_of k t) fresh_entry 0 = (st, off, False)"
    using assms(2) by (auto simp: leaves_def)
  have o: "\<exists>off. wal_scan (file_of k' t) fresh_entry 0 = (fs_view k' s, off, False)" if "k' \<noteq> k" for k'
    using clean_scan [OF assms(1), of k'] k(1) that by (simp add: elsewhere_def)
  have "actor_clean k' (fs_reboot t)" for k' using k(3) o [of k'] by (cases "k' = k") (auto simp: actor_clean_def)
  then show "store_clean (fs_reboot t)" by (simp add: store_clean_def)
  show "fs_view k (fs_reboot t) \<in> sts" using k by (simp add: reboot_view)
  show "fs_view k' (fs_reboot t) = fs_view k' s" if "k' \<noteq> k" for k' using o [OF that] by (auto simp: reboot_view)
qed

lemma loaded_leaves: "loaded k e s \<Longrightarrow> leaves k {fe_state e} s s"
  by (auto simp: leaves_def loaded_def journal_of_def)

lemma killed_leaves:
  assumes "loaded k e s" and "length body < 2 ^ 32" and "apply_record body (fe_state e) = Some st"
    and "ft_write f = Some n" and "durable_append f k e body s = (ok, e1, s1)"
  shows "leaves k {fe_state e, st} s s1"
  using append_killed [OF assms] by (auto simp: leaves_def split: if_splits)

lemma leaves_put [simp]: "leaves k A s (put_file_entry k e t) = leaves k A s t"
  by (simp add: leaves_def elsewhere_def)

section \<open>The operations\<close>

text \<open>The faults of a call that goes through, and of one during which the process dies.\<close>

definition crash_faults :: "nat \<Rightarrow> bool \<Rightarrow> faults" where
  "crash_faults n renamed = no_faults\<lparr> ft_write := Some n, ft_rename := renamed \<rparr>"

lemma load_no_faults:
  assumes "store_clean s" and "fs_entry no_faults k s = (e, s')"
  shows "loaded k e s'" and "fe_state e = fs_view k s" and "elsewhere k s s'"
  using load_entry [OF assms(1) _ _ _ assms(2)] by (simp_all add: no_faults_def)

lemma load_crash:
  assumes "store_clean s" and "fs_entry (crash_faults n b) k s = (e, s')"
  shows "loaded k e s'" and "fe_state e = fs_view k s" and "elsewhere k s s'"
  using load_entry [OF assms(1) _ _ _ assms(2)] by (simp_all add: no_faults_def crash_faults_def)

text \<open>What a call that goes through has done.\<close>

definition moves :: "actor_id \<Rightarrow> store_entry \<Rightarrow> file_store \<Rightarrow> file_store \<Rightarrow> bool" where
  "moves k st s t \<longleftrightarrow> store_clean t \<and> fs_view k t = st \<and> (\<forall>k'. k' \<noteq> k \<longrightarrow> fs_view k' t = fs_view k' s)"

lemma movesI:
  assumes "store_clean s" and "elsewhere k s t" and "loaded k e t" and "fe_state e = st"
  shows "moves k st s t"
  using elsewhere_clean [OF assms(1,2)] loaded_clean [OF assms(3)] elsewhere_view [OF assms(2)] assms(4) by (simp add: moves_def)

lemma stored:
  assumes l: "loaded k e s1" and el: "elsewhere k s s1" and c: "store_clean s" and b: "length body < 2 ^ 32" "apply_record body (fe_state e) = Some st"
  shows "moves k st s (put_file_entry k (e\<lparr> fe_off := fe_off e + length (frame_bytes body), fe_state := st \<rparr>)
    (set_file k (file_of k s1 @ frame_bytes body) s1))"
proof (rule movesI [OF c])
  let ?e = "e\<lparr> fe_off := fe_off e + length (frame_bytes body), fe_state := st \<rparr>"
  let ?t = "put_file_entry k ?e (set_file k (file_of k s1 @ frame_bytes body) s1)"
  show "elsewhere k s ?t" by (rule elsewhere_trans [OF elsewhere_trans [OF el elsewhere_steps(1)] elsewhere_steps(2)])
  show "loaded k ?e ?t" using l journal_frame [of "file_of k s1" "fe_state e" body st] b by (simp add: loaded_def)
qed simp

lemma no_faults_write [simp]: "ft_write no_faults = None" "ft_flush no_faults" "ft_tmp no_faults" "ft_rename no_faults" "ft_reopen no_faults"
  by (simp_all add: no_faults_def)

lemma crash_write [simp]: "ft_write (crash_faults n b) = Some n" "ft_tmp (crash_faults n b)" "ft_reopen (crash_faults n b)"
    "ft_rename (crash_faults n b) = b"
  by (simp_all add: crash_faults_def no_faults_def)

lemma fence_body_small [simp]: "length (fence_body t) < 2 ^ 32"
  by (simp add: fence_body_def)

definition with_owner :: "fence_token \<Rightarrow> store_entry \<Rightarrow> store_entry" where
  "with_owner t st = st\<lparr> se_owner := t \<rparr>"

lemma mem_acquire_eq:
  "acquire_fence k m = (Inr (next_token (entry_of k m)), put_entry k (with_owner (next_token (entry_of k m)) (entry_of k m)) m)"
  by (simp add: acquire_fence_def next_token_def with_owner_def Let_def)

lemma fs_acquire_eq:
  assumes "fs_entry f k s = (e, s1)" and "\<not> fe_corrupt e"
  shows "fs_acquire_fence f k s =
    (case durable_append f k e (fence_body (next_token (fe_state e))) s1 of
       (done, e1, s2) \<Rightarrow> if \<not> done then (fail Internal ''FileStore: could not durably record the new fence owner'', s2)
         else (Inr (next_token (fe_state e)), put_file_entry k (e1\<lparr> fe_state := with_owner (next_token (fe_state e)) (fe_state e1) \<rparr>) s2))"
  using assms by (simp add: fs_acquire_fence_def next_token_def with_owner_def Let_def case_prod_unfold)

lemma apply_acquire: "apply_record (fence_body t) st = Some (with_owner t st)"
  by (simp add: apply_fence with_owner_def)

lemma acquire_done:
  assumes c: "store_clean s" and m: "entry_of k m = fs_view k s"
    and x: "fs_acquire_fence no_faults k s = (r, t)" and y: "acquire_fence k m = (r', m')"
  shows "r = r' \<and> moves k (entry_of k m') s t"
proof -
  obtain e s1 where e: "fs_entry no_faults k s = (e, s1)" by fastforce
  note l = load_no_faults [OF c e]
  have nc: "\<not> fe_corrupt e" using l(1) by (simp add: loaded_def)
  note x' = x [unfolded fs_acquire_eq [OF e nc]] and y' = y [unfolded mem_acquire_eq m, folded l(2)]
  show ?thesis
    using x' y' stored [OF l(1,3) c fence_body_small apply_acquire] append_done(1) [OF l(1) fence_body_small apply_acquire, of no_faults]
    by auto
qed

lemma acquire_killed:
  assumes c: "store_clean s" and m: "entry_of k m = fs_view k s"
    and x: "fs_acquire_fence (crash_faults n b) k s = (r, t)" and y: "acquire_fence k m = (r', m')"
  shows "leaves k {fs_view k s, entry_of k m'} s t"
proof -
  obtain e s1 where e: "fs_entry (crash_faults n b) k s = (e, s1)" by fastforce
  note l = load_crash [OF c e]
  have nc: "\<not> fe_corrupt e" using l(1) by (simp add: loaded_def)
  note x' = x [unfolded fs_acquire_eq [OF e nc]] and y' = y [unfolded mem_acquire_eq m, folded l(2)]
  let ?t = "next_token (fe_state e)"
  obtain ok e1 s2 where a: "durable_append (crash_faults n b) k e (fence_body ?t) s1 = (ok, e1, s2)" by (metis prod_cases3)
  have "leaves k {fe_state e, with_owner ?t (fe_state e)} s s2"
    by (rule leaves_trans [OF l(3) killed_leaves [OF l(1) fence_body_small apply_acquire _ a]]) simp
  moreover have "leaves k A s t = leaves k A s s2" for A using x' a by (auto split: if_splits)
  moreover have "entry_of k m' = with_owner ?t (fe_state e)" using y' by auto
  ultimately show ?thesis using l(2) by simp
qed

lemma refused_done:
  assumes "store_clean s" and "fs_entry no_faults k s = (e, s1)"
  shows "moves k (fs_view k s) s s1"
  using movesI [OF assms(1)] load_no_faults [OF assms] by simp

lemma refused_killed:
  assumes "store_clean s" and "fs_entry (crash_faults n b) k s = (e, s1)"
  shows "leaves k {fs_view k s} s s1"
proof -
  note l = load_crash [OF assms]
  show ?thesis using leaves_trans [OF l(3) loaded_leaves [OF l(1)]] by (simp add: l(2))
qed

lemma snapshot_body_small: "length b < 2 ^ 31 \<Longrightarrow> length (snapshot_body t q b) < 2 ^ 32"
  by (simp add: snapshot_body_def)

text \<open>Why a snapshot is refused, in either store.\<close>

definition save_refusal :: "fence_token \<Rightarrow> snapshot_record \<Rightarrow> store_entry \<Rightarrow> unit result option" where
  "save_refusal tok sn st =
     (if fenced_out tok st then Some fenced_error
      else if (case se_snapshot st of None \<Rightarrow> False | Some sn' \<Rightarrow> through_seq sn < through_seq sn')
        then Some (fail Internal ''stale snapshot: through_seq older than the stored snapshot'')
      else if se_last_seq st < through_seq sn
        then Some (fail Internal ''snapshot through_seq ahead of the appended tail'')
      else None)"

definition with_snapshot :: "fence_token \<Rightarrow> snapshot_record \<Rightarrow> store_entry \<Rightarrow> store_entry" where
  "with_snapshot tok sn st = st\<lparr> se_snapshot := Some (sn\<lparr> snap_fence := tok \<rparr>) \<rparr>"

lemma mem_save_eq:
  "save_snapshot k tok sn m =
     (case save_refusal tok sn (entry_of k m) of
        Some er \<Rightarrow> (er, put_entry k (entry_of k m) m)
      | None \<Rightarrow> (Inr (), put_entry k (with_snapshot tok sn (entry_of k m)) (put_entry k (entry_of k m) m)))"
  by (simp add: save_snapshot_def save_refusal_def with_snapshot_def Let_def)

lemma fs_save_eq:
  assumes "fs_entry f k s = (e, s1)" and "\<not> fe_corrupt e"
  shows "fs_save_snapshot f k tok sn s =
     (case save_refusal tok sn (fe_state e) of
        Some er \<Rightarrow> (er, s1)
      | None \<Rightarrow> (case durable_append f k e (snapshot_body tok (through_seq sn) (snap_bytes sn)) s1 of
          (done, e1, s2) \<Rightarrow> if \<not> done then (write_failed, s2)
            else (Inr (), put_file_entry k (e1\<lparr> fe_state := with_snapshot tok sn (fe_state e1) \<rparr>) s2)))"
  using assms by (simp add: fs_save_snapshot_def save_refusal_def with_snapshot_def Let_def case_prod_unfold)

lemma apply_save:
  assumes "save_refusal tok sn st = None" and "length (snap_bytes sn) < 2 ^ 31"
  shows "apply_record (snapshot_body tok (through_seq sn) (snap_bytes sn)) st = Some (with_snapshot tok sn st)"
proof -
  have "through_seq sn \<le> se_last_seq st" using assms(1) by (auto simp: save_refusal_def split: if_splits)
  then show ?thesis using apply_snapshot [of "snap_bytes sn" tok "through_seq sn" st] assms(2)
    by (cases sn) (simp add: with_snapshot_def max_def)
qed

lemma save_done:
  assumes c: "store_clean s" and m: "entry_of k m = fs_view k s" and small: "length (snap_bytes sn) < 2 ^ 31"
    and x: "fs_save_snapshot no_faults k tok sn s = (r, t)" and y: "save_snapshot k tok sn m = (r', m')"
  shows "r = r' \<and> moves k (entry_of k m') s t"
proof -
  obtain e s1 where e: "fs_entry no_faults k s = (e, s1)" by fastforce
  note l = load_no_faults [OF c e]
  have nc: "\<not> fe_corrupt e" using l(1) by (simp add: loaded_def)
  note x' = x [unfolded fs_save_eq [OF e nc]] and y' = y [unfolded mem_save_eq m, folded l(2)]
  show ?thesis
  proof (cases "save_refusal tok sn (fe_state e)")
    case (Some er)
    then show ?thesis using x' y' refused_done [OF c e] l(2) by auto
  next
    case None
    note b = snapshot_body_small [OF small] apply_save [OF None small]
    show ?thesis
      using x' y' None stored [OF l(1,3) c b] append_done(1) [OF l(1) b, of no_faults] by auto
  qed
qed

lemma save_killed:
  assumes c: "store_clean s" and m: "entry_of k m = fs_view k s" and small: "length (snap_bytes sn) < 2 ^ 31"
    and x: "fs_save_snapshot (crash_faults n b) k tok sn s = (r, t)" and y: "save_snapshot k tok sn m = (r', m')"
  shows "leaves k {fs_view k s, entry_of k m'} s t"
proof -
  obtain e s1 where e: "fs_entry (crash_faults n b) k s = (e, s1)" by fastforce
  note l = load_crash [OF c e]
  have nc: "\<not> fe_corrupt e" using l(1) by (simp add: loaded_def)
  note x' = x [unfolded fs_save_eq [OF e nc]] and y' = y [unfolded mem_save_eq m, folded l(2)]
  show ?thesis
  proof (cases "save_refusal tok sn (fe_state e)")
    case (Some er)
    then have "t = s1" using x' by simp
    then show ?thesis using refused_killed [OF c e, THEN leaves_mono] by simp
  next
    case None
    obtain ok e1 s2 where a: "durable_append (crash_faults n b) k e (snapshot_body tok (through_seq sn) (snap_bytes sn)) s1 = (ok, e1, s2)"
      by (metis prod_cases3)
    have "leaves k {fe_state e, with_snapshot tok sn (fe_state e)} s s2"
      by (rule leaves_trans [OF l(3) killed_leaves [OF l(1) snapshot_body_small [OF small] apply_save [OF None small] _ a]]) simp
    moreover have "leaves k A s t = leaves k A s s2" for A using x' None a by (auto split: if_splits)
    moreover have "entry_of k m' = with_snapshot tok sn (fe_state e)" using y' None by auto
    ultimately show ?thesis using l(2) by simp
  qed
qed

definition append_refusal :: "fence_token \<Rightarrow> event_record list \<Rightarrow> store_entry \<Rightarrow> unit result option" where
  "append_refusal tok rs st =
     (if fenced_out tok st then Some fenced_error
      else if advance_seq (se_last_seq st) rs = None then Some (fail Internal ''commit sequence not strictly increasing'')
      else None)"

definition with_events :: "event_record list \<Rightarrow> store_entry \<Rightarrow> store_entry" where
  "with_events rs st = st\<lparr> se_log := se_log st @ rs, se_last_seq := the (advance_seq (se_last_seq st) rs) \<rparr>"

lemma mem_append_eq:
  "append_batch k tok rs m =
     (case append_refusal tok rs (entry_of k m) of
        Some er \<Rightarrow> (er, put_entry k (entry_of k m) m)
      | None \<Rightarrow> (Inr (), put_entry k (with_events rs (entry_of k m)) (put_entry k (entry_of k m) m)))"
  by (auto simp: append_batch_def append_refusal_def with_events_def Let_def split: option.split)

lemma fs_append_eq:
  assumes "fs_entry f k s = (e, s1)" and "\<not> fe_corrupt e"
  shows "fs_append_batch f k tok rs s =
     (case append_refusal tok rs (fe_state e) of
        Some er \<Rightarrow> (er, s1)
      | None \<Rightarrow> (case durable_append f k e (batch_body rs) s1 of
          (done, e1, s2) \<Rightarrow> if \<not> done then (write_failed, s2)
            else (Inr (), put_file_entry k
              (e1\<lparr> fe_state := (fe_state e1)\<lparr> se_log := se_log (fe_state e1) @ rs, se_last_seq := the (advance_seq (se_last_seq (fe_state e)) rs) \<rparr> \<rparr>) s2)))"
  using assms by (auto simp: fs_append_batch_def append_refusal_def Let_def case_prod_unfold split: option.split)

lemma apply_append:
  assumes "append_refusal tok rs st = None" and "length (batch_body rs) < 2 ^ 32"
  shows "apply_record (batch_body rs) st = Some (with_events rs st)"
  using assms apply_batch [OF assms(2), of st] by (auto simp: append_refusal_def with_events_def split: if_splits)

lemma append_batch_done:
  assumes c: "store_clean s" and m: "entry_of k m = fs_view k s" and small: "length (batch_body rs) < 2 ^ 32"
    and x: "fs_append_batch no_faults k tok rs s = (r, t)" and y: "append_batch k tok rs m = (r', m')"
  shows "r = r' \<and> moves k (entry_of k m') s t"
proof -
  obtain e s1 where e: "fs_entry no_faults k s = (e, s1)" by fastforce
  note l = load_no_faults [OF c e]
  have nc: "\<not> fe_corrupt e" using l(1) by (simp add: loaded_def)
  note x' = x [unfolded fs_append_eq [OF e nc]] and y' = y [unfolded mem_append_eq m, folded l(2)]
  show ?thesis
  proof (cases "append_refusal tok rs (fe_state e)")
    case (Some er)
    then show ?thesis using x' y' refused_done [OF c e] l(2) by auto
  next
    case None
    note b = small apply_append [OF None small]
    have "t = put_file_entry k (e\<lparr> fe_off := fe_off e + length (frame_bytes (batch_body rs)), fe_state := with_events rs (fe_state e) \<rparr>)
        (set_file k (file_of k s1 @ frame_bytes (batch_body rs)) s1)" and r: "r = Inr ()"
      using x' None append_done(1) [OF l(1) b, of no_faults] by (simp_all add: with_events_def)
    then have "moves k (with_events rs (fe_state e)) s t" using stored [OF l(1,3) c b] by simp
    moreover have "r' = Inr ()" "entry_of k m' = with_events rs (fe_state e)" using y' None by auto
    ultimately show ?thesis by (simp add: r)
  qed
qed

lemma append_batch_killed:
  assumes c: "store_clean s" and m: "entry_of k m = fs_view k s" and small: "length (batch_body rs) < 2 ^ 32"
    and x: "fs_append_batch (crash_faults n b) k tok rs s = (r, t)" and y: "append_batch k tok rs m = (r', m')"
  shows "leaves k {fs_view k s, entry_of k m'} s t"
proof -
  obtain e s1 where e: "fs_entry (crash_faults n b) k s = (e, s1)" by fastforce
  note l = load_crash [OF c e]
  have nc: "\<not> fe_corrupt e" using l(1) by (simp add: loaded_def)
  note x' = x [unfolded fs_append_eq [OF e nc]] and y' = y [unfolded mem_append_eq m, folded l(2)]
  show ?thesis
  proof (cases "append_refusal tok rs (fe_state e)")
    case (Some er)
    then have "t = s1" using x' by simp
    then show ?thesis using refused_killed [OF c e, THEN leaves_mono] by simp
  next
    case None
    obtain ok e1 s2 where a: "durable_append (crash_faults n b) k e (batch_body rs) s1 = (ok, e1, s2)" by (metis prod_cases3)
    have "leaves k {fe_state e, with_events rs (fe_state e)} s s2"
      by (rule leaves_trans [OF l(3) killed_leaves [OF l(1) small apply_append [OF None small] _ a]]) simp
    moreover have "leaves k A s t = leaves k A s s2" for A using x' None a by (auto split: if_splits)
    moreover have "entry_of k m' = with_events rs (fe_state e)" using y' None by auto
    ultimately show ?thesis using l(2) by simp
  qed
qed

text \<open>
  Compaction.  The last sequence number survives a reopen because it is that of the last event or, when there
  is none, of the snapshot; and an image replays when no event that survives lies under the snapshot.
\<close>

definition seq_known :: "store_entry \<Rightarrow> bool" where
  "seq_known e \<longleftrightarrow> se_last_seq e =
     (if se_log e \<noteq> [] then ev_seq (last (se_log e)) else case se_snapshot e of None \<Rightarrow> 0 | Some sn \<Rightarrow> through_seq sn)"

lemma last_dropWhile: "dropWhile P xs \<noteq> [] \<Longrightarrow> last (dropWhile P xs) = last xs"
  by (induction xs) (auto split: if_splits)

lemma image_journal:
  assumes sn: "se_snapshot st = Some sn" and wf: "entry_wf st" and sk: "seq_known st"
    and rest: "rest = dropWhile (\<lambda>r. ev_seq r \<le> through_seq sn) (se_log st)"
    and small: "length (snap_bytes sn) < 2 ^ 31" "length (batch_body rest) < 2 ^ 32"
  shows "journal (compact_image (se_owner st) sn rest) (st\<lparr> se_log := rest \<rparr>)"
proof -
  have srt: "sorted_wrt (<) (map ev_seq (se_log st))" using wf by (simp add: entry_wf_def)
  have fl: "rest = filter (\<lambda>r. through_seq sn < ev_seq r) (se_log st)" unfolding rest by (rule sorted_dropWhile_filter [OF srt])
  have srt': "sorted_wrt (<) (map ev_seq rest)" unfolding fl using srt by (auto simp: sorted_wrt_map intro: sorted_wrt_filter)
  have gt: "\<forall>r\<in>set rest. through_seq sn < ev_seq r" by (simp add: fl)
  let ?e1 = "fresh_entry\<lparr> se_owner := se_owner st \<rparr>"
  have j1: "journal (frame_bytes (fence_body (se_owner st))) ?e1"
    using journal_frame [OF journal_of_Nil fence_body_small apply_fence] by simp
  let ?e2 = "?e1\<lparr> se_last_seq := through_seq sn, se_snapshot := Some sn \<rparr>"
  have "apply_record (snapshot_body (snap_fence sn) (through_seq sn) (snap_bytes sn)) ?e1 = Some ?e2"
    using apply_snapshot [of "snap_bytes sn" "snap_fence sn" "through_seq sn" ?e1] small(1) by (simp add: fresh_entry_def)
  note j2 = journal_frame [OF j1 snapshot_body_small [OF small(1)] this]
  have last: "se_last_seq st = (if rest = [] then through_seq sn else ev_seq (last rest))"
  proof (cases "rest = []")
    case True
    have "se_last_seq st \<le> through_seq sn"
    proof (cases "se_log st = []")
      case False
      then have "last (se_log st) \<in> set (se_log st)" by simp
      moreover have "\<forall>r\<in>set (se_log st). ev_seq r \<le> through_seq sn" using True fl by (auto simp: filter_empty_conv not_less)
      ultimately show ?thesis using sk False by (auto simp: seq_known_def)
    qed (use sk sn in \<open>simp add: seq_known_def\<close>)
    moreover have "through_seq sn \<le> se_last_seq st" using wf sn by (simp add: entry_wf_def)
    ultimately show ?thesis using True by simp
  next
    case False
    then have ne: "se_log st \<noteq> []" by (auto simp: rest)
    have "last rest = last (se_log st)" using False unfolding rest by (rule last_dropWhile)
    then show ?thesis using sk ne False by (simp add: seq_known_def)
  qed
  show ?thesis
  proof (cases "rest = []")
    case True
    then have "?e2 = st\<lparr> se_log := rest \<rparr>" using last sn by (simp add: fresh_entry_def)
    then show ?thesis using j2 True by (simp add: compact_image_def)
  next
    case False
    have "apply_record (batch_body rest) ?e2 = Some (st\<lparr> se_log := rest \<rparr>)"
      using apply_batch [OF small(2), of ?e2] advance_seq_eq [OF srt' gt] False last sn by (simp add: fresh_entry_def)
    from journal_frame [OF j2 small(2) this] show ?thesis using False by (simp add: compact_image_def)
  qed
qed

definition compacted :: "snapshot_record \<Rightarrow> store_entry \<Rightarrow> store_entry" where
  "compacted sn st = st\<lparr> se_log := dropWhile (\<lambda>r. ev_seq r \<le> through_seq sn) (se_log st) \<rparr>"

lemma mem_compact_eq:
  assumes "se_snapshot (entry_of k m) = Some sn"
  shows "truncate_log k tok (through_seq sn) m =
    (if fenced_out tok (entry_of k m) then (fenced_error, put_entry k (entry_of k m) m)
     else (Inr (), put_entry k (compacted sn (entry_of k m)) (put_entry k (entry_of k m) m)))"
  using assms by (simp add: truncate_log_def compacted_def Let_def)

lemma fs_compact_eq:
  assumes "fs_entry f k s = (e, s1)" and "\<not> fe_corrupt e" and "se_snapshot (fe_state e) = Some sn" and "ft_tmp f" and "ft_reopen f"
  shows "fs_truncate_log f k tok (through_seq sn) s =
    (if fenced_out tok (fe_state e) then (fenced_error, s1)
     else if length (se_log (compacted sn (fe_state e))) = length (se_log (fe_state e)) then (Inr (), s1)
     else if \<not> ft_rename f then (fail Internal ''FileStore: compact: rewrite failed (old log intact)'', s1)
     else let out = compact_image (se_owner (fe_state e)) sn (se_log (compacted sn (fe_state e)))
       in (Inr (), put_file_entry k (e\<lparr> fe_off := length out, fe_state := compacted sn (fe_state e) \<rparr>) (set_file k out s1)))"
  using assms by (simp add: fs_truncate_log_def compacted_def Let_def)

lemma compacted_same: "length (se_log (compacted sn st)) = length (se_log st) \<Longrightarrow> compacted sn st = st"
proof -
  assume a: "length (se_log (compacted sn st)) = length (se_log st)"
  have "se_log st = takeWhile (\<lambda>r. ev_seq r \<le> through_seq sn) (se_log st) @ se_log (compacted sn st)"
    by (simp add: compacted_def)
  then have "length (takeWhile (\<lambda>r. ev_seq r \<le> through_seq sn) (se_log st)) = 0"
    using a by (metis add_diff_cancel_right' diff_self_eq_0 length_append)
  then have "se_log (compacted sn st) = se_log st" using \<open>se_log st = _ @ _\<close> by simp
  then show ?thesis by (simp add: compacted_def)
qed

lemma compact_done:
  assumes c: "store_clean s" and m: "entry_of k m = fs_view k s" and sn: "se_snapshot (fs_view k s) = Some sn"
    and wf: "entry_wf (fs_view k s)" "seq_known (fs_view k s)"
    and small: "length (snap_bytes sn) < 2 ^ 31" "length (batch_body (se_log (compacted sn (fs_view k s)))) < 2 ^ 32"
    and x: "fs_truncate_log no_faults k tok (through_seq sn) s = (r, t)" and y: "truncate_log k tok (through_seq sn) m = (r', m')"
  shows "r = r' \<and> moves k (entry_of k m') s t"
proof -
  obtain e s1 where e: "fs_entry no_faults k s = (e, s1)" by fastforce
  note l = load_no_faults [OF c e]
  have nc: "\<not> fe_corrupt e" using l(1) by (simp add: loaded_def)
  have sn': "se_snapshot (fe_state e) = Some sn" "se_snapshot (entry_of k m) = Some sn" using sn l(2) m by simp_all
  let ?st = "compacted sn (fe_state e)" and ?out = "compact_image (se_owner (fe_state e)) sn (se_log (compacted sn (fe_state e)))"
  let ?e = "e\<lparr> fe_off := length ?out, fe_state := ?st \<rparr>"
  let ?t = "put_file_entry k ?e (set_file k ?out s1)"
  have "journal ?out ?st"
    using image_journal [OF sn'(1), of "se_log ?st"] wf small l(2) by (simp add: compacted_def)
  then have "loaded k ?e ?t" using l(1) by (simp add: loaded_def)
  moreover have "elsewhere k s ?t" by (rule elsewhere_trans [OF elsewhere_trans [OF l(3) elsewhere_steps(1)] elsewhere_steps(2)])
  ultimately have mv: "moves k ?st s ?t" using movesI [OF c] by simp
  have x': "(r, t) = (if fenced_out tok (fe_state e) then (fenced_error, s1)
      else if length (se_log ?st) = length (se_log (fe_state e)) then (Inr (), s1) else (Inr (), ?t))"
    unfolding x [symmetric] by (simp add: fs_compact_eq [OF e nc sn'(1)] Let_def)
  have y': "(r', m') = (if fenced_out tok (fe_state e) then (fenced_error, put_entry k (fe_state e) m)
      else (Inr (), put_entry k ?st (put_entry k (fe_state e) m)))"
    unfolding y [symmetric] using mem_compact_eq [OF sn'(2), of tok] m l(2) by simp
  show ?thesis
    using x' y' mv refused_done [OF c e] compacted_same [of sn "fe_state e"] l(2) by (auto split: if_splits)
qed

lemma compact_killed:
  assumes c: "store_clean s" and m: "entry_of k m = fs_view k s" and sn: "se_snapshot (fs_view k s) = Some sn"
    and wf: "entry_wf (fs_view k s)" "seq_known (fs_view k s)"
    and small: "length (snap_bytes sn) < 2 ^ 31" "length (batch_body (se_log (compacted sn (fs_view k s)))) < 2 ^ 32"
    and x: "fs_truncate_log (crash_faults n b) k tok (through_seq sn) s = (r, t)" and y: "truncate_log k tok (through_seq sn) m = (r', m')"
  shows "leaves k {fs_view k s, entry_of k m'} s t"
proof -
  obtain e s1 where e: "fs_entry (crash_faults n b) k s = (e, s1)" by fastforce
  note l = load_crash [OF c e]
  have nc: "\<not> fe_corrupt e" using l(1) by (simp add: loaded_def)
  have sn': "se_snapshot (fe_state e) = Some sn" "se_snapshot (entry_of k m) = Some sn" using sn l(2) m by simp_all
  let ?st = "compacted sn (fe_state e)" and ?out = "compact_image (se_owner (fe_state e)) sn (se_log (compacted sn (fe_state e)))"
  let ?e = "e\<lparr> fe_off := length ?out, fe_state := ?st \<rparr>"
  let ?t = "put_file_entry k ?e (set_file k ?out s1)"
  have "journal ?out ?st"
    using image_journal [OF sn'(1), of "se_log ?st"] wf small l(2) by (simp add: compacted_def)
  moreover have "elsewhere k s1 ?t" by (rule elsewhere_trans [OF elsewhere_steps])
  ultimately have "leaves k {?st} s1 ?t" by (simp add: leaves_def journal_of_def)
  then have lv: "leaves k {?st} s ?t" by (rule leaves_trans [OF l(3)])
  have "t = s1 \<or> t = ?t \<and> \<not> fenced_out tok (fe_state e)"
    using x by (auto simp: fs_compact_eq [OF e nc sn'(1)] Let_def split: if_splits)
  moreover have "entry_of k m' = ?st" if "\<not> fenced_out tok (fe_state e)"
    using y mem_compact_eq [OF sn'(2), of tok] m l(2) that by auto
  ultimately show ?thesis using leaves_mono [OF lv] leaves_mono [OF refused_killed [OF c e]] by auto
qed

end
