(* ===== verification/File_Store_Runs.thy ===== *)
theory File_Store_Runs
  imports File_Store_Safety
begin

text \<open>
  Histories of calls and crashes on the durable store, compared with the in-memory store; and what a failing
  disk, or a truncation below the snapshot, does to a log.
\<close>

section \<open>Histories\<close>

text \<open>
  The calls a client makes.  Compaction truncates at the snapshot that is stored, as the event log does.
\<close>

datatype fs_op =
    FsAcquire actor_id
  | FsSave actor_id fence_token snapshot_record
  | FsBatch actor_id fence_token "event_record list"
  | FsCompact actor_id fence_token
  | FsLoad actor_id
  | FsRead actor_id u64

datatype fs_reply =
    FenceReply "fence_token result"
  | WriteReply "unit result"
  | SnapshotReply "snapshot_record option result"
  | LogReply "event_record list result"

definition fs_compact :: "faults \<Rightarrow> actor_id \<Rightarrow> fence_token \<Rightarrow> file_store \<Rightarrow> unit result \<times> file_store" where
  "fs_compact f k tok s =
     (case fs_load_snapshot f k s of
        (Inl er, s1) \<Rightarrow> (Inl er, s1)
      | (Inr None, s1) \<Rightarrow> (Inr (), s1)
      | (Inr (Some sn), s1) \<Rightarrow> fs_truncate_log f k tok (through_seq sn) s1)"

definition mem_compact :: "actor_id \<Rightarrow> fence_token \<Rightarrow> mem_store \<Rightarrow> unit result \<times> mem_store" where
  "mem_compact k tok m =
     (case load_snapshot k m of
        Inl er \<Rightarrow> (Inl er, m)
      | Inr None \<Rightarrow> (Inr (), m)
      | Inr (Some sn) \<Rightarrow> truncate_log k tok (through_seq sn) m)"

fun fs_do :: "faults \<Rightarrow> fs_op \<Rightarrow> file_store \<Rightarrow> fs_reply \<times> file_store" where
  "fs_do f (FsAcquire k) s = map_prod FenceReply id (fs_acquire_fence f k s)"
| "fs_do f (FsSave k tok sn) s = map_prod WriteReply id (fs_save_snapshot f k tok sn s)"
| "fs_do f (FsBatch k tok rs) s = map_prod WriteReply id (fs_append_batch f k tok rs s)"
| "fs_do f (FsCompact k tok) s = map_prod WriteReply id (fs_compact f k tok s)"
| "fs_do f (FsLoad k) s = map_prod SnapshotReply id (fs_load_snapshot f k s)"
| "fs_do f (FsRead k q) s = map_prod LogReply id (fs_read_log f k q s)"

fun mem_do :: "fs_op \<Rightarrow> mem_store \<Rightarrow> fs_reply \<times> mem_store" where
  "mem_do (FsAcquire k) m = map_prod FenceReply id (acquire_fence k m)"
| "mem_do (FsSave k tok sn) m = map_prod WriteReply id (save_snapshot k tok sn m)"
| "mem_do (FsBatch k tok rs) m = map_prod WriteReply id (append_batch k tok rs m)"
| "mem_do (FsCompact k tok) m = map_prod WriteReply id (mem_compact k tok m)"
| "mem_do (FsLoad k) m = (SnapshotReply (load_snapshot k m), m)"
| "mem_do (FsRead k q) m = (LogReply (read_log k q m), m)"

text \<open>
  A call that returns; a call during which the process dies, after so many bytes of a log write and before or
  after the rename of a compaction; and a restart between calls.
\<close>

datatype fs_event = Returns fs_op | Dies fs_op nat bool | Restarts

fun fs_history :: "fs_event list \<Rightarrow> file_store \<Rightarrow> fs_reply list \<times> file_store" where
  "fs_history [] s = ([], s)"
| "fs_history (Returns op # evs) s =
     (case fs_do no_faults op s of (r, s1) \<Rightarrow> case fs_history evs s1 of (rs, s2) \<Rightarrow> (r # rs, s2))"
| "fs_history (Dies op n b # evs) s = fs_history evs (fs_reboot (snd (fs_do (crash_faults n b) op s)))"
| "fs_history (Restarts # evs) s = fs_history evs (fs_reboot s)"

text \<open>The same history in memory: a call that did not return took effect or did not; only returns are answered.\<close>

fun outcomes :: "fs_event list \<Rightarrow> (bool \<times> fs_op) list list" where
  "outcomes [] = [[]]"
| "outcomes (Returns op # evs) = map (Cons (True, op)) (outcomes evs)"
| "outcomes (Dies op n b # evs) = outcomes evs @ map (Cons (False, op)) (outcomes evs)"
| "outcomes (Restarts # evs) = outcomes evs"

fun mem_history :: "(bool \<times> fs_op) list \<Rightarrow> mem_store \<Rightarrow> fs_reply list \<times> mem_store" where
  "mem_history [] m = ([], m)"
| "mem_history ((answered, op) # ops) m =
     (case mem_do op m of (r, m1) \<Rightarrow> case mem_history ops m1 of (rs, m2) \<Rightarrow> (if answered then r # rs else rs, m2))"

fun op_bytes :: "fs_op \<Rightarrow> nat" where
  "op_bytes (FsSave k tok sn) = length (snap_bytes sn)"
| "op_bytes (FsBatch k tok rs) = length (concat (map put_event rs))"
| "op_bytes op = 0"

fun event_bytes :: "fs_event \<Rightarrow> nat" where
  "event_bytes (Returns op) = op_bytes op"
| "event_bytes (Dies op n b) = op_bytes op"
| "event_bytes Restarts = 0"

definition history_bytes :: "fs_event list \<Rightarrow> nat" where
  "history_bytes evs = sum_list (map event_bytes evs)"

section \<open>What stays true of an entry\<close>

definition entry_fit :: "nat \<Rightarrow> store_entry \<Rightarrow> bool" where
  "entry_fit B e \<longleftrightarrow> entry_wf e \<and> seq_known e \<and> length (concat (map put_event (se_log e))) \<le> B \<and>
     (\<forall>sn. se_snapshot e = Some sn \<longrightarrow> length (snap_bytes sn) \<le> B)"

lemma entry_fit_mono: "entry_fit B e \<Longrightarrow> B \<le> C \<Longrightarrow> entry_fit C e"
  by (fastforce simp: entry_fit_def)

lemma fresh_fit [simp]: "entry_fit B fresh_entry"
  by (simp add: entry_fit_def seq_known_def) (simp add: fresh_entry_def)

lemma fit_owner: "entry_fit B e \<Longrightarrow> entry_fit B (with_owner t e)"
proof -
  assume "entry_fit B e"
  moreover have "entry_wf (with_owner t e) = entry_wf e" by (simp add: entry_wf_def with_owner_def)
  moreover have "seq_known (with_owner t e) = seq_known e" by (simp add: seq_known_def with_owner_def)
  ultimately show ?thesis by (simp add: entry_fit_def) (simp add: with_owner_def)
qed

lemma fit_snapshot:
  assumes "entry_fit B e" and "save_refusal tok sn e = None"
  shows "entry_fit (B + length (snap_bytes sn)) (with_snapshot tok sn e)"
proof -
  have q: "through_seq sn \<le> se_last_seq e" "\<And>sn'. se_snapshot e = Some sn' \<Longrightarrow> through_seq sn' \<le> through_seq sn"
    using assms(2) by (auto simp: save_refusal_def split: if_splits)
  have "se_log e = [] \<Longrightarrow> se_last_seq e = through_seq sn"
    using assms(1) q by (cases "se_snapshot e") (auto simp: entry_fit_def seq_known_def intro: antisym)
  then show ?thesis using assms(1) q(1) by (auto simp: entry_fit_def with_snapshot_def entry_wf_def seq_known_def)
qed

lemma advance_last: "advance_seq p rs = Some q \<Longrightarrow> q = (if rs = [] then p else ev_seq (last rs))"
  by (induction rs arbitrary: p) (auto split: if_splits)

lemma fit_events:
  assumes "entry_fit B e" and "append_refusal tok rs e = None"
  shows "entry_fit (B + length (concat (map put_event rs))) (with_events rs e)"
proof -
  obtain q where q: "advance_seq (se_last_seq e) rs = Some q" using assms(2) by (auto simp: append_refusal_def split: if_splits)
  have "entry_wf (with_events rs e)" using entry_wf_append [OF _ q] assms(1) by (simp add: entry_fit_def with_events_def q)
  moreover have w: "se_last_seq (with_events rs e) = q" "se_log (with_events rs e) = se_log e @ rs" "se_snapshot (with_events rs e) = se_snapshot e"
    by (simp_all add: with_events_def q)
  have "seq_known e" using assms(1) by (simp add: entry_fit_def)
  then have "seq_known (with_events rs e)" unfolding seq_known_def w using advance_last [OF q] by (cases "rs = []") simp_all
  moreover have "length (snap_bytes sn) \<le> B" if "se_snapshot e = Some sn" for sn using assms(1) that by (simp add: entry_fit_def)
  ultimately show ?thesis using assms(1) by (auto simp: entry_fit_def w intro: trans_le_add1)
qed

lemma put_events_dropWhile: "length (concat (map put_event (dropWhile P rs))) \<le> length (concat (map put_event rs))"
  by (induction rs) auto

lemma fit_compacted:
  assumes "entry_fit B e" and sn: "se_snapshot e = Some sn"
  shows "entry_fit B (compacted sn e)"
proof -
  have wf: "entry_wf e" and sk: "seq_known e" using assms(1) by (simp_all add: entry_fit_def)
  have srt: "sorted_wrt (<) (map ev_seq (se_log e))" using wf by (simp add: entry_wf_def)
  let ?rest = "dropWhile (\<lambda>r. ev_seq r \<le> through_seq sn) (se_log e)"
  have fl: "?rest = filter (\<lambda>r. through_seq sn < ev_seq r) (se_log e)" by (rule sorted_dropWhile_filter [OF srt])
  have "entry_wf (compacted sn e)"
    using wf srt by (auto simp: entry_wf_def compacted_def fl sorted_wrt_map intro: sorted_wrt_filter)
  moreover have "seq_known (compacted sn e)"
  proof (cases "?rest = []")
    case True
    have "se_last_seq e \<le> through_seq sn"
    proof (cases "se_log e = []")
      case False
      then have "last (se_log e) \<in> set (se_log e)" by simp
      moreover have "\<forall>r\<in>set (se_log e). ev_seq r \<le> through_seq sn" using True unfolding fl by (auto simp: filter_empty_conv not_less)
      ultimately show ?thesis using sk False by (auto simp: seq_known_def)
    qed (use sk sn in \<open>simp add: seq_known_def\<close>)
    moreover have "through_seq sn \<le> se_last_seq e" using wf sn by (simp add: entry_wf_def)
    ultimately show ?thesis using True sn by (simp add: seq_known_def compacted_def)
  next
    case False
    then have "last ?rest = last (se_log e)" by (rule last_dropWhile)
    then show ?thesis using sk False by (auto simp: seq_known_def compacted_def)
  qed
  ultimately show ?thesis
    using assms(1) put_events_dropWhile [of "\<lambda>r. ev_seq r \<le> through_seq sn" "se_log e"] by (auto simp: entry_fit_def compacted_def)
qed

section \<open>The durable store simulates the in-memory one\<close>

definition fs_sim :: "nat \<Rightarrow> file_store \<Rightarrow> mem_store \<Rightarrow> bool" where
  "fs_sim B s m \<longleftrightarrow> store_clean s \<and> (\<forall>k. entry_of k m = fs_view k s \<and> entry_fit B (fs_view k s))"

fun op_actor :: "fs_op \<Rightarrow> actor_id" where
  "op_actor (FsAcquire k) = k"
| "op_actor (FsSave k tok sn) = k"
| "op_actor (FsBatch k tok rs) = k"
| "op_actor (FsCompact k tok) = k"
| "op_actor (FsLoad k) = k"
| "op_actor (FsRead k q) = k"

lemma mem_elsewhere:
  assumes "k \<noteq> op_actor op"
  shows "entry_of k (snd (mem_do op m)) = entry_of k m"
proof (cases op)
  case (FsCompact k' tok)
  then show ?thesis using assms
    by (cases "se_snapshot (entry_of k' m)") (simp_all add: mem_compact_def load_snapshot_entry mem_compact_eq)
qed (use assms in \<open>simp_all add: mem_acquire_eq mem_save_eq mem_append_eq split: option.split\<close>)

lemma mem_fit:
  assumes "entry_fit B (entry_of (op_actor op) m)"
  shows "entry_fit (B + op_bytes op) (entry_of (op_actor op) (snd (mem_do op m)))"
proof (cases op)
  case (FsAcquire k)
  then show ?thesis using assms fit_owner by (simp add: mem_acquire_eq)
next
  case (FsSave k tok sn)
  then show ?thesis using assms fit_snapshot [of B "entry_of k m" tok sn] entry_fit_mono [of B "entry_of k m" "B + length (snap_bytes sn)"]
    by (simp add: mem_save_eq split: option.split)
next
  case (FsBatch k tok rs)
  then show ?thesis using assms fit_events [of B "entry_of k m" tok rs] entry_fit_mono [of B "entry_of k m" "B + op_bytes op"]
    by (simp add: mem_append_eq split: option.split)
next
  case (FsCompact k tok)
  then show ?thesis using assms fit_compacted [of B "entry_of k m"]
    by (cases "se_snapshot (entry_of k m)") (simp_all add: mem_compact_def load_snapshot_entry mem_compact_eq)
qed (use assms in simp_all)

text \<open>The writes of a compaction fit a frame.\<close>

lemma fit_small:
  assumes "entry_fit B e" and "B < 2 ^ 31" and "se_snapshot e = Some sn"
  shows "length (snap_bytes sn) < 2 ^ 31" and "length (batch_body (se_log (compacted sn e))) < 2 ^ 32"
proof -
  show "length (snap_bytes sn) < 2 ^ 31" using assms by (auto simp: entry_fit_def)
  have "length (batch_body (se_log (compacted sn e))) \<le> 5 + B"
    using put_events_dropWhile [of "\<lambda>r. ev_seq r \<le> through_seq sn" "se_log e"] assms(1) by (simp add: entry_fit_def length_batch compacted_def)
  then show "length (batch_body (se_log (compacted sn e))) < 2 ^ 32" using assms(2) by simp
qed

lemma read_done:
  assumes "store_clean s"
  shows "fs_load_snapshot no_faults k s = (Inr (se_snapshot (fs_view k s)), snd (fs_entry no_faults k s))"
    and "fs_read_log no_faults k q s = (Inr (filter (\<lambda>r. q \<le> ev_seq r) (se_log (fs_view k s))), snd (fs_entry no_faults k s))"
    and "moves k (fs_view k s) s (snd (fs_entry no_faults k s))"
proof -
  obtain e s1 where e: "fs_entry no_faults k s = (e, s1)" by fastforce
  note l = load_no_faults [OF assms e]
  have "\<not> fe_corrupt e" using l(1) by (simp add: loaded_def)
  then show "fs_load_snapshot no_faults k s = (Inr (se_snapshot (fs_view k s)), snd (fs_entry no_faults k s))"
    "fs_read_log no_faults k q s = (Inr (filter (\<lambda>r. q \<le> ev_seq r) (se_log (fs_view k s))), snd (fs_entry no_faults k s))"
    using l(2) by (simp_all add: fs_load_snapshot_def fs_read_log_def e)
  show "moves k (fs_view k s) s (snd (fs_entry no_faults k s))" using refused_done [OF assms e] by (simp add: e)
qed

lemma read_killed:
  assumes "store_clean s"
  shows "fs_load_snapshot (crash_faults n b) k s = (Inr (se_snapshot (fs_view k s)), snd (fs_entry (crash_faults n b) k s))"
    and "snd (fs_read_log (crash_faults n b) k q s) = snd (fs_entry (crash_faults n b) k s)"
    and "leaves k {fs_view k s} s (snd (fs_entry (crash_faults n b) k s))"
    and "store_clean (snd (fs_entry (crash_faults n b) k s))" and "fs_view k (snd (fs_entry (crash_faults n b) k s)) = fs_view k s"
    and "elsewhere k s (snd (fs_entry (crash_faults n b) k s))"
proof -
  obtain e s1 where e: "fs_entry (crash_faults n b) k s = (e, s1)" by fastforce
  note l = load_crash [OF assms e]
  have "\<not> fe_corrupt e" using l(1) by (simp add: loaded_def)
  then show "fs_load_snapshot (crash_faults n b) k s = (Inr (se_snapshot (fs_view k s)), snd (fs_entry (crash_faults n b) k s))"
    "snd (fs_read_log (crash_faults n b) k q s) = snd (fs_entry (crash_faults n b) k s)"
    using l(2) by (simp_all add: fs_load_snapshot_def fs_read_log_def e)
  show "leaves k {fs_view k s} s (snd (fs_entry (crash_faults n b) k s))" using refused_killed [OF assms e] by (simp add: e)
  show "store_clean (snd (fs_entry (crash_faults n b) k s))"
    using elsewhere_clean [OF assms l(3)] loaded_clean [OF l(1)] by (simp add: e)
  show "fs_view k (snd (fs_entry (crash_faults n b) k s)) = fs_view k s" using loaded_clean [OF l(1)] l(2) by (simp add: e)
  show "elsewhere k s (snd (fs_entry (crash_faults n b) k s))" using l(3) by (simp add: e)
qed

lemma moves_trans:
  assumes "moves k (fs_view k s) s s1" and "moves k st s1 t"
  shows "moves k st s t"
  using assms by (simp add: moves_def)

lemma do_returns:
  assumes sim: "fs_sim B s m" and B: "B + op_bytes op < 2 ^ 31"
  shows "fst (fs_do no_faults op s) = fst (mem_do op m) \<and>
    moves (op_actor op) (entry_of (op_actor op) (snd (mem_do op m))) s (snd (fs_do no_faults op s))"
proof -
  have c: "store_clean s" and v: "entry_of k m = fs_view k s" and f: "entry_fit B (fs_view k s)" for k using sim by (simp_all add: fs_sim_def)
  show ?thesis
  proof (cases op)
    case (FsAcquire k)
    then show ?thesis using acquire_done [OF c v] by (cases "fs_acquire_fence no_faults k s"; cases "acquire_fence k m") auto
  next
    case (FsSave k tok sn)
    then have "length (snap_bytes sn) < 2 ^ 31" using B by simp
    then show ?thesis using FsSave save_done [OF c v] by (cases "fs_save_snapshot no_faults k tok sn s"; cases "save_snapshot k tok sn m") auto
  next
    case (FsBatch k tok rs)
    then have "length (batch_body rs) < 2 ^ 32" using B by (simp add: length_batch)
    then show ?thesis using FsBatch append_batch_done [OF c v] by (cases "fs_append_batch no_faults k tok rs s"; cases "append_batch k tok rs m") auto
  next
    case (FsLoad k)
    then show ?thesis using read_done(1,3) [OF c, of k] v by (simp add: load_snapshot_entry)
  next
    case (FsRead k q)
    then show ?thesis using read_done(2,3) [OF c, of k] v by (simp add: read_log_entry)
  next
    case (FsCompact k tok)
    note rd = read_done(1,3) [OF c, of k]
    let ?s1 = "snd (fs_entry no_faults k s)"
    have fs: "fs_compact no_faults k tok s = (case se_snapshot (fs_view k s) of None \<Rightarrow> (Inr (), ?s1) | Some sn \<Rightarrow> fs_truncate_log no_faults k tok (through_seq sn) ?s1)"
      by (simp add: fs_compact_def rd(1) split: option.split)
    have mem: "mem_compact k tok m = (case se_snapshot (fs_view k s) of None \<Rightarrow> (Inr (), m) | Some sn \<Rightarrow> truncate_log k tok (through_seq sn) m)"
      by (simp add: mem_compact_def load_snapshot_entry v split: option.split)
    show ?thesis
    proof (cases "se_snapshot (fs_view k s)")
      case None
      then show ?thesis using FsCompact fs mem rd(2) v by simp
    next
      case (Some sn)
      have c1: "store_clean ?s1" and v1: "fs_view k ?s1 = fs_view k s" using rd(2) by (simp_all add: moves_def)
      have wf: "entry_wf (fs_view k s)" "seq_known (fs_view k s)" using f by (simp_all add: entry_fit_def)
      have B': "B < 2 ^ 31" using B by simp
      have "fst (fs_truncate_log no_faults k tok (through_seq sn) ?s1) = fst (truncate_log k tok (through_seq sn) m) \<and>
          moves k (entry_of k (snd (truncate_log k tok (through_seq sn) m))) ?s1 (snd (fs_truncate_log no_faults k tok (through_seq sn) ?s1))"
        using compact_done [OF c1, of k m sn tok] v v1 Some wf fit_small [OF f B' Some] by (metis prod.collapse)
      then show ?thesis using FsCompact fs mem Some moves_trans [OF rd(2)] by simp
    qed
  qed
qed

lemma do_dies:
  assumes sim: "fs_sim B s m" and B: "B + op_bytes op < 2 ^ 31"
  shows "leaves (op_actor op) {fs_view (op_actor op) s, entry_of (op_actor op) (snd (mem_do op m))} s (snd (fs_do (crash_faults n b) op s))"
proof -
  have c: "store_clean s" and v: "entry_of k m = fs_view k s" and f: "entry_fit B (fs_view k s)" for k using sim by (simp_all add: fs_sim_def)
  show ?thesis
  proof (cases op)
    case (FsAcquire k)
    then show ?thesis using acquire_killed [OF c v] by (cases "fs_acquire_fence (crash_faults n b) k s"; cases "acquire_fence k m") auto
  next
    case (FsSave k tok sn)
    then have "length (snap_bytes sn) < 2 ^ 31" using B by simp
    then show ?thesis using FsSave save_killed [OF c v] by (cases "fs_save_snapshot (crash_faults n b) k tok sn s"; cases "save_snapshot k tok sn m") auto
  next
    case (FsBatch k tok rs)
    then have "length (batch_body rs) < 2 ^ 32" using B by (simp add: length_batch)
    then show ?thesis using FsBatch append_batch_killed [OF c v] by (cases "fs_append_batch (crash_faults n b) k tok rs s"; cases "append_batch k tok rs m") auto
  next
    case (FsLoad k)
    then show ?thesis using leaves_mono [OF read_killed(3) [OF c, of k n b]] by (simp add: read_killed(1) [OF c])
  next
    case (FsRead k q)
    then show ?thesis using leaves_mono [OF read_killed(3) [OF c, of k n b]] by (simp add: read_killed(2) [OF c])
  next
    case (FsCompact k tok)
    note rd = read_killed [OF c, where n = n and b = b and k = k]
    let ?s1 = "snd (fs_entry (crash_faults n b) k s)"
    have fs: "fs_compact (crash_faults n b) k tok s = (case se_snapshot (fs_view k s) of None \<Rightarrow> (Inr (), ?s1) | Some sn \<Rightarrow> fs_truncate_log (crash_faults n b) k tok (through_seq sn) ?s1)"
      by (simp add: fs_compact_def rd(1) split: option.split)
    have mem: "mem_compact k tok m = (case se_snapshot (fs_view k s) of None \<Rightarrow> (Inr (), m) | Some sn \<Rightarrow> truncate_log k tok (through_seq sn) m)"
      by (simp add: mem_compact_def load_snapshot_entry v split: option.split)
    show ?thesis
    proof (cases "se_snapshot (fs_view k s)")
      case None
      then show ?thesis using FsCompact fs leaves_mono [OF rd(3)] by simp
    next
      case (Some sn)
      have wf: "entry_wf (fs_view k s)" "seq_known (fs_view k s)" using f by (simp_all add: entry_fit_def)
      have B': "B < 2 ^ 31" using B by simp
      have "leaves k {fs_view k s, entry_of k (snd (truncate_log k tok (through_seq sn) m))} ?s1 (snd (fs_truncate_log (crash_faults n b) k tok (through_seq sn) ?s1))"
        using compact_killed [OF rd(4), of k m sn n b tok] v rd(5) Some wf fit_small [OF f B' Some] by (metis prod.collapse)
      then show ?thesis using FsCompact fs mem Some leaves_trans [OF rd(6)] by simp
    qed
  qed
qed

lemma sim_returns:
  assumes "fs_sim B s m" and "B + op_bytes op < 2 ^ 31"
  shows "fst (fs_do no_faults op s) = fst (mem_do op m)"
    and "fs_sim (B + op_bytes op) (snd (fs_do no_faults op s)) (snd (mem_do op m))"
proof -
  note d = do_returns [OF assms]
  show "fst (fs_do no_faults op s) = fst (mem_do op m)" using d by blast
  have "entry_of k m = fs_view k s" "entry_fit B (fs_view k s)" for k using assms(1) by (simp_all add: fs_sim_def)
  then show "fs_sim (B + op_bytes op) (snd (fs_do no_faults op s)) (snd (mem_do op m))"
    using d mem_fit [of B op m] mem_elsewhere [of _ op m] entry_fit_mono [of B _ "B + op_bytes op"]
    unfolding fs_sim_def moves_def by (metis le_add1)
qed

lemma sim_restart:
  assumes "fs_sim B s m"
  shows "fs_sim B (fs_reboot s) m"
proof -
  have c: "store_clean s" using assms by (simp add: fs_sim_def)
  have "leaves k {fs_view k s} s s" for k using clean_scan [OF c, of k] by (auto simp: leaves_def)
  then have "store_clean (fs_reboot s) \<and> fs_view k (fs_reboot s) = fs_view k s" for k using leaves_reboot [OF c] by blast
  then show ?thesis using assms by (simp add: fs_sim_def)
qed

lemma sim_dies:
  fixes n and b
  assumes "fs_sim B s m" and "B + op_bytes op < 2 ^ 31"
  defines "t \<equiv> fs_reboot (snd (fs_do (crash_faults n b) op s))"
  shows "fs_sim (B + op_bytes op) t m \<or> fs_sim (B + op_bytes op) t (snd (mem_do op m))"
proof -
  let ?k = "op_actor op"
  have c: "store_clean s" and e: "entry_of k m = fs_view k s" "entry_fit B (fs_view k s)" for k using assms(1) by (simp_all add: fs_sim_def)
  note r = leaves_reboot [OF c do_dies [OF assms(1,2), of n b], folded t_def]
  have fit: "entry_fit (B + op_bytes op) (fs_view k s)" for k using entry_fit_mono [OF e(2)] by simp
  have fit': "entry_fit (B + op_bytes op) (entry_of ?k (snd (mem_do op m)))" using mem_fit [of B op m] e by simp
  consider "fs_view ?k t = fs_view ?k s" | "fs_view ?k t = entry_of ?k (snd (mem_do op m))" using r by blast
  then show ?thesis
  proof cases
    case 1
    then have "fs_view k t = fs_view k s" for k using r by (cases "k = ?k") auto
    then show ?thesis using r e fit by (simp add: fs_sim_def)
  next
    case 2
    then have "entry_of k (snd (mem_do op m)) = fs_view k t \<and> entry_fit (B + op_bytes op) (fs_view k t)" for k
      using r e fit fit' mem_elsewhere [of k op m] by (cases "k = ?k") auto
    then show ?thesis using r by (simp add: fs_sim_def)
  qed
qed

lemma history_sim:
  assumes "fs_sim B s m" and "B + history_bytes evs < 2 ^ 31"
  shows "\<exists>h \<in> set (outcomes evs). \<exists>C. fst (mem_history h m) = fst (fs_history evs s) \<and>
    fs_sim C (snd (fs_history evs s)) (snd (mem_history h m))"
  using assms
proof (induction evs s arbitrary: B m rule: fs_history.induct)
  case (1 s)
  then show ?case by auto
next
  case (2 op evs s)
  have B: "B + op_bytes op < 2 ^ 31" "B + op_bytes op + history_bytes evs < 2 ^ 31" using 2(3) by (simp_all add: history_bytes_def)
  note d = sim_returns [OF 2(2) B(1)]
  obtain r s1 where f: "fs_do no_faults op s = (r, s1)" by fastforce
  obtain m1 where m: "mem_do op m = (r, m1)" using d(1) by (cases "mem_do op m") (simp add: f)
  have s1: "fs_sim (B + op_bytes op) s1 m1" using d(2) by (simp add: f m)
  from 2(1) [OF f [symmetric] s1 B(2)] obtain h C where h: "h \<in> set (outcomes evs)" "fst (mem_history h m1) = fst (fs_history evs s1)"
    "fs_sim C (snd (fs_history evs s1)) (snd (mem_history h m1))" by blast
  then show ?case by (intro bexI [of _ "(True, op) # h"] exI [of _ C]) (auto simp: f m case_prod_unfold)
next
  case (3 op n b evs s)
  have B: "B + op_bytes op < 2 ^ 31" "B + op_bytes op + history_bytes evs < 2 ^ 31" using 3(3) by (simp_all add: history_bytes_def)
  let ?t = "fs_reboot (snd (fs_do (crash_faults n b) op s))"
  from sim_dies [OF 3(2) B(1), of n b] show ?case
  proof
    assume "fs_sim (B + op_bytes op) ?t m"
    from 3(1) [OF this B(2)] show ?thesis by auto
  next
    assume "fs_sim (B + op_bytes op) ?t (snd (mem_do op m))"
    from 3(1) [OF this B(2)] obtain h C where h: "h \<in> set (outcomes evs)" "fst (mem_history h (snd (mem_do op m))) = fst (fs_history evs ?t)"
      "fs_sim C (snd (fs_history evs ?t)) (snd (mem_history h (snd (mem_do op m))))" by auto
    then show ?thesis by (intro bexI [of _ "(False, op) # h"] exI [of _ C]) (auto simp: case_prod_unfold)
  qed
next
  case (4 evs s)
  from 4(1) [OF sim_restart [OF 4(2)]] 4(3) show ?case by (simp add: history_bytes_def)
qed

lemma create_sim: "fs_sim 0 fs_create []"
  by (simp add: fs_sim_def store_clean_def actor_clean_def fs_view_def fs_create_def file_of_def)

text \<open>
  Property C28.  Durability.  Over any history of calls, restarts and crashes in the middle of a call, the store on
  disk answers every call that returns exactly as the in-memory store does, and ends with its entries: of the calls
  during which the process died each either took effect as a whole or not at all, and nothing that was
  acknowledged is lost, reordered or torn.
\<close>

theorem file_store_crash_safe:
  assumes "history_bytes evs < 2 ^ 31"
  shows "\<exists>h \<in> set (outcomes evs). fst (fs_history evs fs_create) = fst (mem_history h []) \<and>
    (\<forall>k. fs_view k (snd (fs_history evs fs_create)) = entry_of k (snd (mem_history h [])))"
proof -
  obtain h C where "h \<in> set (outcomes evs)" "fst (mem_history h []) = fst (fs_history evs fs_create)"
    "fs_sim C (snd (fs_history evs fs_create)) (snd (mem_history h []))"
    using history_sim [OF create_sim, of evs] assms by auto
  then show ?thesis by (intro bexI [of _ h]) (simp_all add: fs_sim_def)
qed

lemma file_store_crash_safe_witness:
  "let k = ActorId 1 2; evs = [Returns (FsAcquire k), Dies (FsBatch k (FenceToken 1) [\<lparr> ev_seq = 1, ev_bytes = [7] \<rparr>]) 9 True, Returns (FsRead k 0)]
   in \<exists>h \<in> set (outcomes evs). fst (fs_history evs fs_create) = fst (mem_history h []) \<and>
     (\<forall>k. fs_view k (snd (fs_history evs fs_create)) = entry_of k (snd (mem_history h [])))"
  using file_store_crash_safe [of "[Returns (FsAcquire (ActorId 1 2)),
      Dies (FsBatch (ActorId 1 2) (FenceToken 1) [\<lparr> ev_seq = 1, ev_bytes = [7] \<rparr>]) 9 True, Returns (FsRead (ActorId 1 2) 0)]"]
  unfolding Let_def by (simp add: history_bytes_def put_event_def del: outcomes.simps)

section \<open>What a failing disk does\<close>

lemma reopened_corrupt:
  assumes "wal_scan (file_of k s) fresh_entry 0 = (e, off, True)"
  shows "fst (fs_read_log no_faults k q (fs_reboot s)) = log_corrupt" and "fst (fs_acquire_fence no_faults k (fs_reboot s)) = log_corrupt"
  using assms by (simp_all add: fs_read_log_def fs_acquire_fence_def fs_entry_def fs_replay_def no_faults_def Let_def)

lemma crc32_zero_frame: "wal_scan (replicate n 0) e off = (e, off, 8 \<le> n)"
proof (cases "n < 8")
  case False
  have z: "take 4 (replicate n (0 :: u8)) = replicate 4 0" "take 4 (drop 4 (replicate n (0 :: u8))) = replicate 4 0" using False by simp_all
  have "frame_len (replicate n 0) = 0" "frame_crc (replicate n 0) = 0"
    unfolding frame_len_def frame_crc_def z by (simp_all add: get_le_def eval_nat_numeral)
  then show ?thesis using False by (subst frame_scan.simps) (simp add: frame_body_def apply_record_def)
qed (simp add: scan_torn)

lemma single_batch: "batch_body [\<lparr> ev_seq = q, ev_bytes = b \<rparr>] = kBatch # put_le 4 (1 :: u32) @ put_le 8 q @ put_le 4 (of_nat (length b) :: u32) @ b"
  by (simp add: batch_body_def put_event_def wal_put_blob_def)

lemma length_single: "length (batch_body [\<lparr> ev_seq = q, ev_bytes = b \<rparr>]) = 17 + length b"
  by (simp add: single_batch)

lemma failed_tail:
  "drop 25 (frame_bytes (batch_body [\<lparr> ev_seq = q, ev_bytes = b \<rparr>])) = b"
  by (simp add: frame_bytes_def single_batch eval_nat_numeral)

text \<open>
  Property C31.  A failed write is not taken back.  Let an append of an event of at least eight zero bytes be
  written but its flush fail, so that the caller is told it failed, and let the retry with an empty event succeed.
  The rest of the failed record stays behind the new one, and when the store is opened again the actor's log,
  acknowledged events and all, is refused as corrupt.
\<close>

theorem failed_write_poisons_log:
  assumes c: "store_clean s" and ok: "\<not> fenced_out tok (fs_view k s)" "se_last_seq (fs_view k s) < q" and n: "8 \<le> n" "n < 2 ^ 31"
  defines "bad \<equiv> fs_append_batch (no_faults\<lparr> ft_flush := False \<rparr>) k tok [\<lparr> ev_seq = q, ev_bytes = replicate n 0 \<rparr>] s"
  defines "good \<equiv> fs_append_batch no_faults k tok [\<lparr> ev_seq = q, ev_bytes = [] \<rparr>] (snd bad)"
  shows "fst bad = write_failed \<and> fst good = Inr () \<and> fst (fs_read_log no_faults k 0 (fs_reboot (snd good))) = log_corrupt"
proof -
  let ?f = "no_faults\<lparr> ft_flush := False \<rparr>"
  let ?b1 = "batch_body [\<lparr> ev_seq = q, ev_bytes = replicate n 0 \<rparr>]" and ?b2 = "batch_body [\<lparr> ev_seq = q, ev_bytes = [] \<rparr>]"
  obtain e s1 where e: "fs_entry ?f k s = (e, s1)" by fastforce
  have "loaded k e s1 \<and> fe_state e = fs_view k s \<and> elsewhere k s s1"
    by (rule load_entry [OF c _ _ _ e]) (simp_all add: no_faults_def)
  then have l: "fe_state e = fs_view k s" and ld: "loaded k e s1" by simp_all
  from ld have nc: "\<not> fe_corrupt e" and fo: "fe_open e" "fe_off e = length (file_of k s1)" "map_of (fs_table s1) k = Some e"
    and j: "journal (file_of k s1) (fe_state e)" by (simp_all add: loaded_def)
  have nr: "append_refusal tok [\<lparr> ev_seq = q, ev_bytes = b \<rparr>] (fe_state e) = None" for b
    using ok l by (simp add: append_refusal_def)
  let ?s2 = "set_file k (file_of k s1 @ frame_bytes ?b1) s1"
  have "durable_append ?f k e ?b1 s1 = (False, e, ?s2)"
    using fo by (simp add: durable_append_def written_def Let_def)
  then have b: "bad = (write_failed, ?s2)" unfolding bad_def fs_append_eq [OF e nc] nr by simp
  have e2: "fs_entry no_faults k ?s2 = (e, ?s2)" using fo(3) by (simp add: fs_entry_def set_file_def)
  let ?file = "file_of k s1 @ frame_bytes ?b2 @ replicate n 0"
  have tail: "drop (fe_off e + length (frame_bytes ?b2)) (file_of k ?s2) = replicate n 0"
    using failed_tail [of q "replicate n 0"] fo(2) by (simp add: length_single)
  have g: "fst good = Inr ()" "file_of k (snd good) = ?file"
  proof -
    have "durable_append no_faults k e ?b2 ?s2 =
        (True, e\<lparr> fe_off := fe_off e + length (frame_bytes ?b2) \<rparr>, set_file k ?file ?s2)"
      using fo tail by (simp add: durable_append_def written_def Let_def)
    then show "fst good = Inr ()" "file_of k (snd good) = ?file"
      unfolding good_def b snd_conv fs_append_eq [OF e2 nc] nr by simp_all
  qed
  have small: "length ?b2 < 2 ^ 32" by (simp add: length_single)
  have "apply_record ?b2 (fe_state e) = Some (with_events [\<lparr> ev_seq = q, ev_bytes = [] \<rparr>] (fe_state e))" by (rule apply_append [OF nr small])
  note j2 = journal_frame [OF j small this]
  have "wal_scan (file_of k (snd good)) fresh_entry 0 =
      (with_events [\<lparr> ev_seq = q, ev_bytes = [] \<rparr>] (fe_state e), length (file_of k s1 @ frame_bytes ?b2), True)"
    using journal_of_scan [OF j2, of "replicate n 0"] n(1) unfolding g(2) by (simp add: crc32_zero_frame)
  then show ?thesis using reopened_corrupt(1) b g(1) by simp
qed

text \<open>
  Property C32.  Truncation below the snapshot loses the log.  A call that drops only a part of the events that
  the snapshot covers succeeds, but writes an image that the next process refuses as corrupt: the snapshot comes
  first and its sequence number is taken for that of the last event.
\<close>

theorem partial_truncation_poisons_log:
  assumes c: "store_clean s" and wf: "entry_wf (fs_view k s)" and ok: "\<not> fenced_out tok (fs_view k s)"
    and sn: "se_snapshot (fs_view k s) = Some sn" "q \<le> through_seq sn"
    and r: "r1 \<in> set (se_log (fs_view k s))" "ev_seq r1 \<le> q" "r2 \<in> set (se_log (fs_view k s))" "q < ev_seq r2" "ev_seq r2 \<le> through_seq sn"
    and small: "length (snap_bytes sn) < 2 ^ 31" "length (batch_body (se_log (fs_view k s))) < 2 ^ 32"
  shows "fst (fs_truncate_log no_faults k tok q s) = Inr () \<and>
    fst (fs_read_log no_faults k 0 (fs_reboot (snd (fs_truncate_log no_faults k tok q s)))) = log_corrupt"
proof -
  obtain e s1 where e: "fs_entry no_faults k s = (e, s1)" by fastforce
  note l = load_no_faults [OF c e]
  have nc: "\<not> fe_corrupt e" using l(1) by (simp add: loaded_def)
  let ?st = "fs_view k s"
  let ?rest = "dropWhile (\<lambda>r. ev_seq r \<le> q) (se_log ?st)"
  have fl: "?rest = filter (\<lambda>r. q < ev_seq r) (se_log ?st)"
    by (rule sorted_dropWhile_filter) (use wf in \<open>simp add: entry_wf_def\<close>)
  have in2: "r2 \<in> set ?rest" using r unfolding fl by simp
  have "length ?rest < length (se_log ?st)"
    using r(1,2) length_filter_less [of r1 "se_log ?st" "\<lambda>r. q < ev_seq r"] unfolding fl by (simp add: not_less)
  then have t: "fs_truncate_log no_faults k tok q s = (Inr (), put_file_entry k
      (e\<lparr> fe_off := length (compact_image (se_owner ?st) sn ?rest), fe_state := ?st\<lparr> se_log := ?rest \<rparr> \<rparr>)
      (set_file k (compact_image (se_owner ?st) sn ?rest) s1))"
    using nc ok sn l(2) by (simp add: fs_truncate_log_def e Let_def)
  let ?e1 = "fresh_entry\<lparr> se_owner := se_owner ?st \<rparr>"
  let ?e2 = "?e1\<lparr> se_last_seq := through_seq sn, se_snapshot := Some sn \<rparr>"
  have "apply_record (snapshot_body (snap_fence sn) (through_seq sn) (snap_bytes sn)) ?e1 = Some ?e2"
    using apply_snapshot [of "snap_bytes sn" "snap_fence sn" "through_seq sn" ?e1] small(1) by (simp add: fresh_entry_def)
  note j = journal_frame [OF journal_frame [OF journal_of_Nil fence_body_small apply_fence, simplified] snapshot_body_small [OF small(1)] this]
  have sm: "length (batch_body ?rest) < 2 ^ 32"
    using small(2) put_events_dropWhile [of "\<lambda>r. ev_seq r \<le> q" "se_log ?st"] by (simp add: length_batch)
  have "advance_seq (through_seq sn) ?rest = None"
  proof (cases "advance_seq (through_seq sn) ?rest")
    case (Some p)
    from advance_seq_sorted [OF this] in2 r(5) show ?thesis by (auto simp: not_less [symmetric])
  qed
  then have "apply_record (batch_body ?rest) ?e2 = None" using apply_batch [OF sm, of ?e2] by simp
  then have "\<exists>off. wal_scan (compact_image (se_owner ?st) sn ?rest) fresh_entry 0 = (?e2, off, True)"
    using journal_of_scan [OF j, of "frame_bytes (batch_body ?rest)"] scan_frame [OF good_small [THEN iffD2, OF sm], of apply_record "[]" ?e2] in2
    by (cases ?rest) (auto simp: compact_image_def)
  then show ?thesis using reopened_corrupt(1) t by auto
qed

text \<open>
  Property C33.  A failed read deletes acknowledged records.  The replay takes a read that fails for the end of the
  file, and what it has then for a torn tail: when the failure is inside the last record, that record is cut off
  the file, with no error to anyone.
\<close>

theorem failed_read_deletes_record:
  assumes un: "map_of (fs_table s) k = None" and f: "file_of k s = a @ frame_bytes body" and j: "journal a e"
    and b: "length body < 2 ^ 32" "apply_record body e = Some e'" and n: "length a < n" "n < length (file_of k s)"
  defines "t \<equiv> fs_read_log (no_faults\<lparr> ft_read := Some n \<rparr>) k 0 s"
  shows "fs_view k s = e' \<and> fst t = Inr (se_log e) \<and> file_of k (snd t) = a \<and> fs_view k (fs_reboot (snd t)) = e"
proof -
  have v: "fs_view k s = e'" using un journal_frame [OF j b] f by (simp add: fs_view_def journal_of_def)
  have tk: "take n (file_of k s) = a @ take (n - length a) (frame_bytes body)" using n f by simp
  have "n - length a < length (frame_bytes body)" using n f by simp
  then have w: "wal_scan (take n (file_of k s)) fresh_entry 0 = (e, length a, False)"
    unfolding tk by (rule journal_of_cut [OF j good_small [THEN iffD2, OF b(1)]])
  have en: "fs_entry (no_faults\<lparr> ft_read := Some n \<rparr>) k s =
      (\<lparr> fe_open = True, fe_off = length a, fe_state = e, fe_corrupt = False \<rparr>,
       put_file_entry k \<lparr> fe_open = True, fe_off = length a, fe_state = e, fe_corrupt = False \<rparr> (set_file k a s))"
    using un w n f by (simp add: fs_entry_def fs_replay_def no_faults_def Let_def)
  have "t = (Inr (filter (\<lambda>r. 0 \<le> ev_seq r) (se_log e)), snd (fs_entry (no_faults\<lparr> ft_read := Some n \<rparr>) k s))"
    unfolding t_def fs_read_log_def en by simp
  then have t: "fst t = Inr (se_log e)" "file_of k (snd t) = a" unfolding en by (simp_all add: filter_id_conv)
  then show ?thesis using v j by (simp add: reboot_view journal_of_def)
qed

lemma backup_unopened:
  assumes "\<forall>k \<in> set ks. map_of (fs_table s) k = None \<or> map_of (fs_table s) k =
    Some \<lparr> fe_open = False, fe_off = 0, fe_state = fresh_entry, fe_corrupt = False \<rparr>"
  shows "fst (backup_loop (\<lambda>_. no_faults\<lparr> ft_open := False \<rparr>) ks \<lparr> bi_epoch = FenceToken 0, bi_actors = as \<rparr> s) =
    Inr \<lparr> bi_epoch = FenceToken 0, bi_actors = as @ map (\<lambda>k. backup_of k fresh_entry) ks \<rparr>"
  using assms
proof (induction ks arbitrary: s as)
  case (Cons k ks)
  let ?e = "\<lparr> fe_open = False, fe_off = 0, fe_state = fresh_entry, fe_corrupt = False \<rparr>"
  obtain s1 where e: "fs_entry (no_faults\<lparr> ft_open := False \<rparr>) k s = (?e, s1)"
    and t: "\<And>k'. map_of (fs_table s1) k' = (if k' = k then Some ?e else map_of (fs_table s) k')"
    using Cons.prems by (cases "map_of (fs_table s) k") (auto simp: fs_entry_def no_faults_def Let_def)
  have "max (FenceToken 0) (FenceToken 0) = FenceToken 0" by simp
  then show ?case using Cons.IH [of s1 "as @ [backup_of k fresh_entry]"] Cons.prems t
    by (simp add: e fresh_entry_def)
qed simp

text \<open>
  A backup of nothing.  When the logs of a store that was just opened cannot be opened, a backup reports
  success and holds every actor as if it had never been stored.
\<close>

theorem unopened_logs_backed_up_empty:
  assumes "fs_table s = []"
  shows "fst (fs_snapshot_to True (\<lambda>_. no_faults\<lparr> ft_open := False \<rparr>) s) =
    Inr \<lparr> bi_epoch = FenceToken 0, bi_actors = map (\<lambda>k. backup_of k fresh_entry) (stored_actors s) \<rparr>"
  using backup_unopened [of "stored_actors s" s "[]"] assms by (simp add: fs_snapshot_to_def)

section \<open>Witnesses\<close>

lemma plain_history:
  assumes "history_bytes (map Returns ops) < 2 ^ 31"
  shows "store_clean (snd (fs_history (map Returns ops) fs_create)) \<and>
    fs_view k (snd (fs_history (map Returns ops) fs_create)) = entry_of k (snd (mem_history (map (Pair True) ops) []))"
proof -
  have "outcomes (map Returns ops) = [map (Pair True) ops]" by (induction ops) simp_all
  then show ?thesis using history_sim [OF create_sim, of "map Returns ops"] assms by (auto simp: fs_sim_def)
qed

lemma failed_write_poisons_log_witness:
  "let k = ActorId 1 2; s = snd (fs_history [Returns (FsAcquire k)] fs_create);
     bad = fs_append_batch (no_faults\<lparr> ft_flush := False \<rparr>) k (FenceToken 1) [\<lparr> ev_seq = 1, ev_bytes = replicate 9 0 \<rparr>] s;
     good = fs_append_batch no_faults k (FenceToken 1) [\<lparr> ev_seq = 1, ev_bytes = [] \<rparr>] (snd bad)
   in fst good = Inr () \<and> fst (fs_read_log no_faults k 0 (fs_reboot (snd good))) = log_corrupt"
proof -
  let ?k = "ActorId 1 2" and ?s = "snd (fs_history [Returns (FsAcquire (ActorId 1 2))] fs_create)"
  have "store_clean ?s" "fs_view ?k ?s = fresh_entry\<lparr> se_owner := FenceToken 1 \<rparr>"
    using plain_history [of "[FsAcquire ?k]" ?k]
    by (simp_all add: history_bytes_def mem_acquire_eq with_owner_def next_token_def) (simp_all add: fresh_entry_def)
  then show ?thesis
    using failed_write_poisons_log [of ?s "FenceToken 1" ?k 1 9] by (simp add: Let_def fenced_out_def is_unfenced_def fresh_entry_def)
qed

lemma partial_truncation_poisons_log_witness:
  "let k = ActorId 1 2; sn = \<lparr> snap_fence = FenceToken 1, through_seq = 2, snap_bytes = [5] \<rparr>;
     s = snd (fs_history [Returns (FsAcquire k), Returns (FsBatch k (FenceToken 1) [\<lparr> ev_seq = 1, ev_bytes = [] \<rparr>, \<lparr> ev_seq = 2, ev_bytes = [] \<rparr>]),
       Returns (FsSave k (FenceToken 1) sn)] fs_create)
   in fst (fs_truncate_log no_faults k (FenceToken 1) 1 s) = Inr () \<and>
      fst (fs_read_log no_faults k 0 (fs_reboot (snd (fs_truncate_log no_faults k (FenceToken 1) 1 s)))) = log_corrupt"
proof -
  let ?k = "ActorId 1 2" and ?sn = "\<lparr> snap_fence = FenceToken 1, through_seq = 2, snap_bytes = [5] \<rparr> :: snapshot_record"
  let ?rs = "[\<lparr> ev_seq = 1, ev_bytes = [] \<rparr>, \<lparr> ev_seq = 2, ev_bytes = [] \<rparr>] :: event_record list"
  let ?ops = "[FsAcquire ?k, FsBatch ?k (FenceToken 1) ?rs, FsSave ?k (FenceToken 1) ?sn]"
  let ?s = "snd (fs_history (map Returns ?ops) fs_create)"
  have small: "history_bytes (map Returns ?ops) < 2 ^ 31" by (simp add: history_bytes_def put_event_def)
  have two: "\<not> (2 :: u64) \<le> 1" by (simp add: word_le_nat_alt)
  have m: "entry_of ?k (snd (mem_history (map (Pair True) ?ops) [])) =
      \<lparr> se_owner = FenceToken 1, se_last_seq = 2, se_snapshot = Some ?sn, se_log = ?rs \<rparr>"
    by (simp add: mem_acquire_eq mem_append_eq mem_save_eq append_refusal_def save_refusal_def with_owner_def with_events_def with_snapshot_def
        next_token_def fenced_out_def is_unfenced_def fresh_entry_def two)
  note v = plain_history [OF small, of ?k, unfolded m]
  have "entry_wf (fs_view ?k ?s)" using v by (simp add: entry_wf_def)
  moreover have "(1 :: u64) < 2" by simp
  ultimately show ?thesis
    using partial_truncation_poisons_log [of ?s ?k "FenceToken 1" ?sn 1 "?rs ! 0" "?rs ! 1"] v
    by (simp add: Let_def fenced_out_def is_unfenced_def length_batch put_event_def)
qed

lemma failed_read_deletes_record_witness:
  "let k = ActorId 1 2; s = fs_reboot (snd (fs_history [Returns (FsAcquire k)] fs_create)) in
   file_of k (snd (fs_read_log (no_faults\<lparr> ft_read := Some 3 \<rparr>) k 0 s)) = []"
proof -
  let ?k = "ActorId 1 2" and ?s = "snd (fs_history [Returns (FsAcquire (ActorId 1 2))] fs_create)"
  have e: "fs_entry no_faults ?k fs_create = (\<lparr> fe_open = True, fe_off = 0, fe_state = fresh_entry, fe_corrupt = False \<rparr>,
      put_file_entry ?k \<lparr> fe_open = True, fe_off = 0, fe_state = fresh_entry, fe_corrupt = False \<rparr> (set_file ?k [] fs_create))"
    by (simp add: fs_entry_def fs_replay_def fs_create_def file_of_def no_faults_def Let_def)
  have f: "file_of ?k (fs_reboot ?s) = [] @ frame_bytes (fence_body (FenceToken 1))"
    by (simp add: fs_acquire_eq [OF e] durable_append_def written_def next_token_def fresh_entry_def Let_def)
  have "3 < length (file_of ?k (fs_reboot ?s))" unfolding f by (simp add: fence_body_def)
  from failed_read_deletes_record [OF _ f journal_of_Nil fence_body_small apply_fence _ this] show ?thesis by (simp only: Let_def reboot_simps) simp
qed

lemma unopened_logs_backed_up_empty_witness:
  "\<exists>img. fst (fs_snapshot_to True (\<lambda>_. no_faults\<lparr> ft_open := False \<rparr>)
     (fs_reboot (snd (fs_history [Returns (FsAcquire (ActorId 1 2))] fs_create)))) = Inr img"
  using unopened_logs_backed_up_empty [of "fs_reboot (snd (fs_history [Returns (FsAcquire (ActorId 1 2))] fs_create))"] by auto

end
