(* ===== verification/Reminder_Log.thy ===== *)
theory Reminder_Log
  imports Ids Wal_Frame "HOL-Library.AList"
begin

text \<open>
  \<open>include/quark/core/reminder_service.hpp\<close>, the durable half: reminder rows and their keys, the in-memory store
  and the append-only log \<open>FileReminderStore\<close> with its rollback of failed appends, replay and compaction.  Civil
  times are integers of 64 bits (\<open>row_ok\<close>), names are byte strings; the hash tables are association lists.

  As in \<open>File_Store\<close> what the file system does is an argument.  A write goes to the end of the file, as the
  append mode of the log demands.
\<close>

section \<open>Rows and keys\<close>

record reminder_key =
  rk_actor :: actor_id
  rk_name_hash :: u64

record reminder_row =
  rw_actor :: actor_id
  rw_name :: bytes
  rw_due :: int
  rw_period :: int
  rw_payload :: bytes

definition reminder_name_hash :: "bytes \<Rightarrow> u64" where
  "reminder_name_hash name = foldl (\<lambda>h c. (h XOR ucast c) * 0x100000001B3) 0xCBF29CE484222325 name"

definition reminder_key_hash :: "reminder_key \<Rightarrow> u64" where
  "reminder_key_hash k = splitmix64 (actor_hash (rk_actor k) XOR (rk_name_hash k * 0x9E3779B97F4A7C15))"

definition row_key :: "reminder_row \<Rightarrow> reminder_key" where
  "row_key r = \<lparr> rk_actor = rw_actor r, rk_name_hash = reminder_name_hash (rw_name r) \<rparr>"

type_synonym reminder_rows = "(reminder_key \<times> reminder_row) list"

section \<open>The in-memory store\<close>

record memory_reminders =
  mr_rows :: reminder_rows
  mr_checkpoint :: int

definition mr_create :: memory_reminders where
  "mr_create = \<lparr> mr_rows = [], mr_checkpoint = -1 \<rparr>"

definition mr_put :: "reminder_row \<Rightarrow> memory_reminders \<Rightarrow> unit result \<times> memory_reminders" where
  "mr_put r s = (Inr (), s\<lparr> mr_rows := AList.update (row_key r) r (mr_rows s) \<rparr>)"

definition mr_remove :: "reminder_key \<Rightarrow> memory_reminders \<Rightarrow> unit result \<times> memory_reminders" where
  "mr_remove k s = (Inr (), s\<lparr> mr_rows := AList.delete k (mr_rows s) \<rparr>)"

definition mr_load_all :: "memory_reminders \<Rightarrow> reminder_row list result" where
  "mr_load_all s = Inr (map snd (mr_rows s))"

definition mr_save_checkpoint :: "int \<Rightarrow> memory_reminders \<Rightarrow> unit result \<times> memory_reminders" where
  "mr_save_checkpoint b s = (Inr (), s\<lparr> mr_checkpoint := b \<rparr>)"

section \<open>Records of the log\<close>

definition kPut :: u8 where "kPut = 1"
definition kRemove :: u8 where "kRemove = 2"
definition kCheckpoint :: u8 where "kCheckpoint = 3"

definition put_i64 :: "int \<Rightarrow> bytes" where
  "put_i64 v = put_le 8 (word_of_int v :: u64)"

definition get_i64 :: "bytes \<Rightarrow> int" where
  "get_i64 b = sint (get_le (take 8 b) :: u64)"

definition get_u64_at :: "nat \<Rightarrow> bytes \<Rightarrow> u64" where
  "get_u64_at i b = get_le (take 8 (drop i b))"

definition get_u32_at :: "nat \<Rightarrow> bytes \<Rightarrow> nat" where
  "get_u32_at i b = unat (get_le (take 4 (drop i b)) :: u32)"

definition encode_key :: "reminder_key \<Rightarrow> bytes" where
  "encode_key k = put_le 8 (aid_type (rk_actor k)) @ put_le 8 (aid_key (rk_actor k)) @ put_le 8 (rk_name_hash k)"

definition encode_put :: "reminder_row \<Rightarrow> bytes" where
  "encode_put r = put_le 8 (aid_type (rw_actor r)) @ put_le 8 (aid_key (rw_actor r)) @ put_i64 (rw_due r) @ put_i64 (rw_period r) @
     put_le 4 (of_nat (length (rw_name r)) :: u32) @ rw_name r @ put_le 4 (of_nat (length (rw_payload r)) :: u32) @ rw_payload r"

definition decode_put :: "bytes \<Rightarrow> reminder_row option" where
  "decode_put b =
     (if length b < 8 * 4 + 4 then None
      else
        let nlen = get_u32_at 32 b in
        if length b < 36 + nlen + 4 then None
        else
          let plen = get_u32_at (36 + nlen) b; p = 40 + nlen in
          if length b < p + plen then None
          else Some \<lparr> rw_actor = ActorId (get_u64_at 0 b) (get_u64_at 8 b), rw_name = take nlen (drop 36 b),
                      rw_due = get_i64 (drop 16 b), rw_period = get_i64 (drop 24 b), rw_payload = take plen (drop p b) \<rparr>)"

definition decode_key :: "bytes \<Rightarrow> reminder_key option" where
  "decode_key b =
     (if length b < 24 then None
      else Some \<lparr> rk_actor = ActorId (get_u64_at 0 b) (get_u64_at 8 b), rk_name_hash = get_u64_at 16 b \<rparr>)"

section \<open>The log\<close>

record log_faults =
  lf_read :: "nat option"
  lf_cut :: bool
  lf_open :: bool
  lf_size :: bool
  lf_write :: "nat option"
  lf_flush :: bool
  lf_tmp :: bool
  lf_rename :: bool

definition no_log_faults :: log_faults where
  "no_log_faults = \<lparr> lf_read = None, lf_cut = True, lf_open = True, lf_size = True, lf_write = None, lf_flush = True,
     lf_tmp = True, lf_rename = True \<rparr>"

record reminder_file =
  rl_file :: bytes
  rl_open :: bool
  rl_off :: nat
  rl_corrupt :: bool
  rl_rows :: reminder_rows
  rl_checkpoint :: int

text \<open>One record applied to the rows and the checkpoint; \<open>None\<close> when it is malformed under a valid checksum.\<close>

definition replay_record :: "bytes \<Rightarrow> reminder_rows \<times> int \<Rightarrow> (reminder_rows \<times> int) option" where
  "replay_record kb st =
     (case kb of [] \<Rightarrow> None
      | kind # body \<Rightarrow>
          if kind = kPut then (case decode_put body of None \<Rightarrow> None | Some r \<Rightarrow> Some (AList.update (row_key r) r (fst st), snd st))
          else if kind = kRemove then (case decode_key body of None \<Rightarrow> None | Some k \<Rightarrow> Some (AList.delete k (fst st), snd st))
          else if kind = kCheckpoint then (if length body < 8 then None else Some (fst st, get_i64 body))
          else None)"

text \<open>The replay ends at a record of length zero.\<close>

abbreviation log_scan :: "bytes \<Rightarrow> reminder_rows \<times> int \<Rightarrow> nat \<Rightarrow> (reminder_rows \<times> int) \<times> nat \<times> bool" where
  "log_scan \<equiv> frame_scan True replay_record"

text \<open>\<open>open_append\<close>: the file is created if need be, and the rollback point is its size.\<close>

definition open_append :: "log_faults \<Rightarrow> reminder_file \<Rightarrow> reminder_file" where
  "open_append f s =
     (if lf_open f then s\<lparr> rl_open := True, rl_off := (if lf_size f then length (rl_file s) else 0) \<rparr>
      else s\<lparr> rl_open := False \<rparr>)"

text \<open>The constructor: replay, cut off a torn tail, and open for appending unless the log is corrupt.\<close>

definition rl_replay :: "log_faults \<Rightarrow> bytes \<Rightarrow> reminder_file" where
  "rl_replay f b =
     (let seen = (case lf_read f of None \<Rightarrow> b | Some n \<Rightarrow> take n b);
          ((rows, cp), good, bad) = log_scan seen ([], -1) 0
      in \<lparr> rl_file = (if \<not> bad \<and> good < length seen \<and> lf_cut f then take good b else b), rl_open = False, rl_off = 0,
           rl_corrupt = bad, rl_rows = rows, rl_checkpoint = cp \<rparr>)"

definition rl_create :: "log_faults \<Rightarrow> bytes \<Rightarrow> reminder_file" where
  "rl_create f b = (let s = rl_replay f b in if rl_corrupt s then s else open_append f s)"

definition reminder_corrupt :: "'a result" where
  "reminder_corrupt = fail Internal (''FileReminderStore: log is corrupt mid-file (bad record before intact records); '' @
     ''refusing to serve, append or truncate it; restore from backup / repair offline'')"

text \<open>\<open>durable_append\<close>: on any failure the file is cut back; when even that fails the store stops appending.\<close>

definition log_append :: "log_faults \<Rightarrow> bytes \<Rightarrow> reminder_file \<Rightarrow> unit result \<times> reminder_file" where
  "log_append f kb s =
     (if rl_corrupt s then (reminder_corrupt, s)
      else if \<not> rl_open s then (fail Internal ''reminder store: not open'', s)
      else
        let fr = frame_bytes kb; n = (case lf_write f of None \<Rightarrow> length fr | Some n \<Rightarrow> min n (length fr));
            s1 = s\<lparr> rl_file := rl_file s @ take n fr \<rparr>
        in if n = length fr \<and> lf_flush f
           then (Inr (), if lf_size f then s1\<lparr> rl_off := length (rl_file s1) \<rparr> else s1)
           else
             (fail Internal (if n = length fr then ''reminder store: flush failed'' else ''reminder store: write failed''),
              if lf_cut f then s1\<lparr> rl_file := take (rl_off s1) (rl_file s1) \<rparr> else s1\<lparr> rl_open := False \<rparr>))"

definition rl_put :: "log_faults \<Rightarrow> reminder_row \<Rightarrow> reminder_file \<Rightarrow> unit result \<times> reminder_file" where
  "rl_put f r s =
     (case log_append f (kPut # encode_put r) s of
        (Inl er, s1) \<Rightarrow> (Inl er, s1)
      | (Inr _, s1) \<Rightarrow> (Inr (), s1\<lparr> rl_rows := AList.update (row_key r) r (rl_rows s1) \<rparr>))"

definition rl_remove :: "log_faults \<Rightarrow> reminder_key \<Rightarrow> reminder_file \<Rightarrow> unit result \<times> reminder_file" where
  "rl_remove f k s =
     (case log_append f (kRemove # encode_key k) s of
        (Inl er, s1) \<Rightarrow> (Inl er, s1)
      | (Inr _, s1) \<Rightarrow> (Inr (), s1\<lparr> rl_rows := AList.delete k (rl_rows s1) \<rparr>))"

definition rl_load_all :: "reminder_file \<Rightarrow> reminder_row list result" where
  "rl_load_all s = (if rl_corrupt s then reminder_corrupt else Inr (map snd (rl_rows s)))"

definition rl_save_checkpoint :: "log_faults \<Rightarrow> int \<Rightarrow> reminder_file \<Rightarrow> unit result \<times> reminder_file" where
  "rl_save_checkpoint f b s =
     (case log_append f (kCheckpoint # put_i64 b) s of
        (Inl er, s1) \<Rightarrow> (Inl er, s1)
      | (Inr _, s1) \<Rightarrow> (Inr (), s1\<lparr> rl_checkpoint := b \<rparr>))"

definition compact_log :: "reminder_rows \<Rightarrow> int \<Rightarrow> bytes" where
  "compact_log rows cp = concat (map (\<lambda>(k, r). frame_bytes (kPut # encode_put r)) rows) @ frame_bytes (kCheckpoint # put_i64 cp)"

definition rl_compact :: "log_faults \<Rightarrow> reminder_file \<Rightarrow> unit result \<times> reminder_file" where
  "rl_compact f s =
     (if rl_corrupt s then (reminder_corrupt, s)
      else if \<not> rl_open s then (fail Internal ''reminder store: not open'', s)
      else if \<not> lf_tmp f then (fail Internal ''reminder compact: open tmp failed'', s)
      else if lf_write f \<noteq> None then (fail Internal ''reminder store: write failed'', s)
      else if \<not> lf_flush f then (fail Internal ''reminder compact: flush failed'', s)
      else if \<not> lf_rename f then (fail Internal ''reminder compact: rename failed'', s)
      else
        let s1 = open_append f (s\<lparr> rl_file := compact_log (rl_rows s) (rl_checkpoint s), rl_open := False \<rparr>)
        in (if rl_open s1 then Inr () else fail Internal ''reminder compact: reopen failed'', s1))"

end
