(* ===== verification/Reminder_Recovery.thy ===== *)
theory Reminder_Recovery
  imports Reminder_Log
begin

text \<open>
  What the reminder log keeps: rows and keys are read back from their records, a failed append leaves no trace
  when its rollback succeeds, a torn tail is cut off, and compaction keeps the rows.
\<close>

section \<open>Records are read back\<close>

definition int64 :: "int \<Rightarrow> bool" where
  "int64 v \<longleftrightarrow> - (2 ^ 63) \<le> v \<and> v < 2 ^ 63"

definition row_ok :: "reminder_row \<Rightarrow> bool" where
  "row_ok r \<longleftrightarrow> int64 (rw_due r) \<and> int64 (rw_period r) \<and> length (rw_name r) + length (rw_payload r) < 2 ^ 31"

lemma get_put_i64: "int64 v \<Longrightarrow> get_i64 (put_i64 v @ r) = v"
  using signed_take_bit_int_eq_self [of 63 v] by (simp add: get_i64_def put_i64_def int64_def signed_of_int)

lemma length_put_i64 [simp]: "length (put_i64 v) = 8"
  by (simp add: put_i64_def)

lemma length_encode: "length (encode_put r) = 40 + length (rw_name r) + length (rw_payload r)" "length (encode_key k) = 24"
  by (simp_all add: encode_put_def encode_key_def)

lemma decode_encode_put:
  assumes "row_ok r"
  shows "decode_put (encode_put r) = Some r"
proof -
  have l: "length (rw_name r) < 2 ^ 32" "length (rw_payload r) < 2 ^ 32" and i: "int64 (rw_due r)" "int64 (rw_period r)"
    using assms by (simp_all add: row_ok_def)
  let ?e = "encode_put r"
  have n: "get_u32_at 32 ?e = length (rw_name r)"
    using l(1) by (simp add: get_u32_at_def encode_put_def unat_len_u32)
  have p: "get_u32_at (36 + length (rw_name r)) ?e = length (rw_payload r)"
    using l(2) by (simp add: get_u32_at_def encode_put_def unat_len_u32)
  have a: "get_u64_at 0 ?e = aid_type (rw_actor r)" "get_u64_at 8 ?e = aid_key (rw_actor r)"
    by (simp_all add: get_u64_at_def encode_put_def)
  have d: "get_i64 (drop 16 ?e) = rw_due r" "get_i64 (drop 24 ?e) = rw_period r"
    using get_put_i64 i by (simp_all add: encode_put_def)
  have "take (length (rw_name r)) (drop 36 ?e) = rw_name r" "take (length (rw_payload r)) (drop (40 + length (rw_name r)) ?e) = rw_payload r"
    by (simp_all add: encode_put_def)
  then show ?thesis by (simp add: decode_put_def Let_def n p a d length_encode)
qed

lemma decode_encode_key: "decode_key (encode_key k) = Some k"
  by (simp add: decode_key_def length_encode) (simp add: encode_key_def get_u64_at_def)

lemma good_records:
  "row_ok r \<Longrightarrow> good_body True (kPut # encode_put r)" "good_body True (kRemove # encode_key k)" "good_body True (kCheckpoint # put_i64 b)"
  by (simp_all add: good_body_def length_encode row_ok_def)

lemma replay_records:
  "row_ok r \<Longrightarrow> replay_record (kPut # encode_put r) (rows, cp) = Some (AList.update (row_key r) r rows, cp)"
  "replay_record (kRemove # encode_key k) (rows, cp) = Some (AList.delete k rows, cp)"
  "int64 b \<Longrightarrow> replay_record (kCheckpoint # put_i64 b) (rows, cp) = Some (rows, b)"
  using get_put_i64 [of b "[]"]
  by (simp_all add: replay_record_def decode_encode_put decode_encode_key kPut_def kRemove_def kCheckpoint_def)

section \<open>The log mirrors the rows\<close>

abbreviation log_journal :: "bytes \<Rightarrow> reminder_rows \<times> int \<Rightarrow> bool" where
  "log_journal \<equiv> journal_of True replay_record ([], -1)"

definition rows_ok :: "reminder_rows \<Rightarrow> bool" where
  "rows_ok rows \<longleftrightarrow> distinct (map fst rows) \<and> list_all (\<lambda>(k, r). k = row_key r \<and> row_ok r) rows"

definition rl_inv :: "reminder_file \<Rightarrow> bool" where
  "rl_inv s \<longleftrightarrow> \<not> rl_corrupt s \<and> (rl_open s \<longrightarrow> rl_off s = length (rl_file s)) \<and> log_journal (rl_file s) (rl_rows s, rl_checkpoint s) \<and>
     rows_ok (rl_rows s) \<and> int64 (rl_checkpoint s)"

text \<open>The faults that are survived: any write or flush may fail, the rollback and the sizes may not.\<close>

definition tame :: "log_faults \<Rightarrow> bool" where
  "tame f \<longleftrightarrow> lf_read f = None \<and> lf_cut f \<and> lf_size f"

lemma set_update: "set (AList.update k v al) \<subseteq> insert (k, v) (set al)"
  by (induction al) auto

lemma set_delete: "set (AList.delete k al) \<subseteq> set al"
  by (auto simp: AList.delete_eq)

lemma update_nonkey: "k \<notin> fst ` set al \<Longrightarrow> AList.update k v al = al @ [(k, v)]"
  by (induction al) auto

lemma rows_ok_update: "rows_ok rows \<Longrightarrow> row_ok r \<Longrightarrow> rows_ok (AList.update (row_key r) r rows)"
  using set_update [of "row_key r" r rows] by (auto simp: rows_ok_def distinct_update list_all_iff)

lemma rows_ok_delete: "rows_ok rows \<Longrightarrow> rows_ok (AList.delete k rows)"
  using set_delete [of k rows] by (auto simp: rows_ok_def list_all_iff distinct_delete)

text \<open>An append succeeds and extends the journal, or fails and leaves the file as it was.\<close>

lemma log_append_cases:
  assumes inv: "rl_inv s" and t: "tame f" and kb: "good_body True kb" "replay_record kb (rl_rows s, rl_checkpoint s) = Some (rows, cp)"
    and x: "log_append f kb s = (x, s')"
  shows "if x = Inr () then log_journal (rl_file s') (rows, cp) \<and> rl_open s' \<and> rl_off s' = length (rl_file s') \<and> \<not> rl_corrupt s'
    else rl_inv s' \<and> rl_rows s' = rl_rows s \<and> rl_checkpoint s' = rl_checkpoint s"
proof -
  have j: "log_journal (rl_file s) (rl_rows s, rl_checkpoint s)" and c: "\<not> rl_corrupt s" and o: "rl_open s \<longrightarrow> rl_off s = length (rl_file s)"
    using inv by (simp_all add: rl_inv_def)
  have j2: "log_journal (rl_file s @ frame_bytes kb) (rows, cp)" by (rule journal_of_frame [OF j kb])
  show ?thesis
  proof (cases "rl_open s")
    case False
    then show ?thesis using x c inv by (auto simp: log_append_def)
  next
    case True
    let ?n = "case lf_write f of None \<Rightarrow> length (frame_bytes kb) | Some n \<Rightarrow> min n (length (frame_bytes kb))"
    show ?thesis
    proof (cases "?n = length (frame_bytes kb) \<and> lf_flush f")
      case True
      then show ?thesis using x c t j2 \<open>rl_open s\<close> by (auto simp: log_append_def Let_def tame_def)
    next
      case no: False
      then have "s' = s\<lparr> rl_file := rl_file s \<rparr>" "x \<noteq> Inr ()"
        using x c t o True by (auto simp: log_append_def Let_def tame_def split: if_splits)
      then show ?thesis using inv by simp
    qed
  qed
qed

lemma rl_put_cases:
  assumes inv: "rl_inv s" and "tame f" and "row_ok r" and x: "rl_put f r s = (x, s')"
  shows "rl_inv s' \<and> rl_rows s' = (if x = Inr () then AList.update (row_key r) r (rl_rows s) else rl_rows s)"
proof -
  obtain y s1 where a: "log_append f (kPut # encode_put r) s = (y, s1)" by fastforce
  note c = log_append_cases [OF inv assms(2) good_records(1) [OF assms(3)] replay_records(1) [OF assms(3)] a]
  have k: "rl_rows s1 = rl_rows s \<and> rl_checkpoint s1 = rl_checkpoint s" using a by (auto simp: log_append_def Let_def split: if_splits)
  have inv0: "rows_ok (rl_rows s)" "int64 (rl_checkpoint s)" using inv by (simp_all add: rl_inv_def)
  show ?thesis
  proof (cases y)
    case (Inl er)
    then show ?thesis using c x a by (auto simp: rl_put_def)
  next
    case (Inr u)
    then have "x = Inr ()" "s' = s1\<lparr> rl_rows := AList.update (row_key r) r (rl_rows s) \<rparr>" using x a k by (auto simp: rl_put_def)
    then show ?thesis using c Inr k inv0 rows_ok_update [OF inv0(1) assms(3)] by (simp add: rl_inv_def)
  qed
qed

lemma rl_remove_cases:
  assumes inv: "rl_inv s" and "tame f" and x: "rl_remove f k s = (x, s')"
  shows "rl_inv s' \<and> rl_rows s' = (if x = Inr () then AList.delete k (rl_rows s) else rl_rows s)"
proof -
  obtain y s1 where a: "log_append f (kRemove # encode_key k) s = (y, s1)" by fastforce
  note c = log_append_cases [OF inv assms(2) good_records(2) replay_records(2) a]
  have k: "rl_rows s1 = rl_rows s \<and> rl_checkpoint s1 = rl_checkpoint s" using a by (auto simp: log_append_def Let_def split: if_splits)
  have inv0: "rows_ok (rl_rows s)" "int64 (rl_checkpoint s)" using inv by (simp_all add: rl_inv_def)
  show ?thesis
  proof (cases y)
    case (Inl er)
    then show ?thesis using c x a by (auto simp: rl_remove_def)
  next
    case (Inr u)
    then have "x = Inr ()" "s' = s1\<lparr> rl_rows := AList.delete k (rl_rows s) \<rparr>" using x a k by (auto simp: rl_remove_def)
    then show ?thesis using c Inr k inv0 rows_ok_delete [OF inv0(1)] by (simp add: rl_inv_def)
  qed
qed

lemma rl_checkpoint_cases:
  assumes inv: "rl_inv s" and "tame f" and "int64 b" and x: "rl_save_checkpoint f b s = (x, s')"
  shows "rl_inv s' \<and> rl_rows s' = rl_rows s"
proof -
  obtain y s1 where a: "log_append f (kCheckpoint # put_i64 b) s = (y, s1)" by fastforce
  note c = log_append_cases [OF inv assms(2) good_records(3) replay_records(3) [OF assms(3)] a]
  have k: "rl_rows s1 = rl_rows s" using a by (auto simp: log_append_def Let_def split: if_splits)
  have inv0: "rows_ok (rl_rows s)" using inv by (simp add: rl_inv_def)
  show ?thesis
  proof (cases y)
    case (Inl er)
    then show ?thesis using c x a by (auto simp: rl_save_checkpoint_def)
  next
    case (Inr u)
    then have "s' = s1\<lparr> rl_checkpoint := b \<rparr>" using x a by (auto simp: rl_save_checkpoint_def)
    then show ?thesis using c Inr k inv0 assms(3) by (simp add: rl_inv_def)
  qed
qed

section \<open>Reopening\<close>

lemma create_journal:
  assumes "log_scan b ([], -1) 0 = ((rows, cp), good, False)" and "rows_ok rows" and "int64 cp" and "tame f"
  shows "rl_inv (rl_create f b) \<and> rl_rows (rl_create f b) = rows \<and> rl_file (rl_create f b) = take good b"
proof -
  from scan_take [OF assms(1)] have g: "good \<le> length b" by simp
  have "rl_replay f b = \<lparr> rl_file = take good b, rl_open = False, rl_off = 0, rl_corrupt = False, rl_rows = rows, rl_checkpoint = cp \<rparr>"
    using assms g by (simp add: rl_replay_def tame_def Let_def)
  then show ?thesis using assms g journal_of_prefix [OF assms(1)]
    by (auto simp: rl_create_def open_append_def tame_def rl_inv_def Let_def)
qed

lemma reopen_rows:
  assumes "rl_inv s" and "tame f"
  shows "rl_inv (rl_create f (rl_file s)) \<and> rl_rows (rl_create f (rl_file s)) = rl_rows s"
proof -
  have "log_scan (rl_file s) ([], -1) 0 = ((rl_rows s, rl_checkpoint s), length (rl_file s), False)"
    and "rows_ok (rl_rows s)" "int64 (rl_checkpoint s)" using assms(1) by (simp_all only: rl_inv_def journal_of_def)
  from create_journal [OF this assms(2)] show ?thesis by blast
qed

text \<open>The process dies while a record is being written: the next one finds the rows of before or of after.\<close>

lemma reopen_torn:
  assumes inv: "rl_inv s" and t: "tame f" and kb: "good_body True kb" "replay_record kb (rl_rows s, rl_checkpoint s) = Some (rows, cp)"
    and ok: "rows_ok rows" "int64 cp"
  shows "rl_inv (rl_create f (rl_file s @ take n (frame_bytes kb))) \<and>
    rl_rows (rl_create f (rl_file s @ take n (frame_bytes kb))) = (if n < length (frame_bytes kb) then rl_rows s else rows)"
proof -
  have j: "log_journal (rl_file s) (rl_rows s, rl_checkpoint s)" and o: "rows_ok (rl_rows s)" "int64 (rl_checkpoint s)"
    using inv by (simp_all add: rl_inv_def)
  show ?thesis
  proof (cases "n < length (frame_bytes kb)")
    case True
    then show ?thesis using create_journal [OF journal_of_cut [OF j kb(1) True] o t] by simp
  next
    case False
    have "log_scan (rl_file s @ frame_bytes kb) ([], -1) 0 = ((rows, cp), length (rl_file s @ frame_bytes kb), False)"
      using journal_of_frame [OF j kb] by (simp only: journal_of_def)
    from create_journal [OF this ok t] False show ?thesis by simp
  qed
qed

text \<open>Compaction writes the rows again.\<close>

lemma journal_puts:
  assumes "rows_ok (done @ rows)" and "log_journal b (done, cp)"
  shows "log_journal (b @ concat (map (\<lambda>(k, r). frame_bytes (kPut # encode_put r)) rows)) (done @ rows, cp)"
  using assms
proof (induction rows arbitrary: "done" b)
  case (Cons x rows)
  obtain k r where x: "x = (k, r)" by (cases x)
  have ok: "row_ok r" "k = row_key r" "k \<notin> fst ` set done" using Cons.prems(1) by (auto simp: x rows_ok_def)
  then have u: "AList.update (row_key r) r done = done @ [(k, r)]" by (simp add: update_nonkey)
  have "log_journal (b @ frame_bytes (kPut # encode_put r)) (done @ [(k, r)], cp)"
    using journal_of_frame [OF Cons.prems(2) good_records(1) [OF ok(1)] replay_records(1) [OF ok(1)]] by (simp add: u)
  from Cons.IH [OF _ this] Cons.prems(1) show ?case by (simp add: x)
qed simp

lemma compact_journal:
  assumes "rows_ok rows" and "int64 cp"
  shows "log_journal (compact_log rows cp) (rows, cp)"
  using journal_of_frame [OF journal_puts [of "[]" rows "[]" "-1"] good_records(3) replay_records(3) [OF assms(2)]] assms(1)
  by (simp add: compact_log_def)

lemma rl_compact_cases:
  assumes "rl_inv s" and "tame f" and "rl_compact f s = (x, s')"
  shows "rl_inv s' \<and> rl_rows s' = rl_rows s \<and> rl_checkpoint s' = rl_checkpoint s"
proof -
  have "rows_ok (rl_rows s)" "int64 (rl_checkpoint s)" using assms(1) by (simp_all add: rl_inv_def)
  note j = compact_journal [OF this]
  show ?thesis
    using assms j by (auto simp: rl_compact_def rl_inv_def open_append_def tame_def Let_def split: if_splits)
qed

end
