(* ===== verification/Reminder_Service.thy ===== *)
theory Reminder_Service
  imports Reminder_Recovery "HOL-Library.Signed_Division"
begin

text \<open>
  \<open>ReminderService\<close> of \<open>include/quark/core/reminder_service.hpp\<close>: the ordered due index, the ready segment drained
  under a token bucket, and the confirmation of a fire after its callback.  The store is an argument, a record of
  operations under the contract \<open>reminder_store\<close>.  The token bucket counts in \<open>double\<close>: its two computations are
  an argument as well.  The callback is a function from the event to the calls it makes back into the service.
\<close>

section \<open>The contract of a reminder store\<close>

record 's reminder_ops =
  ro_put :: "reminder_row \<Rightarrow> 's \<Rightarrow> unit result \<times> 's"
  ro_remove :: "reminder_key \<Rightarrow> 's \<Rightarrow> unit result \<times> 's"
  ro_load :: "'s \<Rightarrow> reminder_row list result"
  ro_checkpoint :: "int \<Rightarrow> 's \<Rightarrow> unit result \<times> 's"
  ro_reopen :: "'s \<Rightarrow> 's"

locale reminder_store =
  fixes st :: "'s reminder_ops"
    and rows :: "'s \<Rightarrow> reminder_key \<Rightarrow> reminder_row option"
    and ok :: "'s \<Rightarrow> bool"
  assumes rows_fit: "ok s \<Longrightarrow> rows s k = Some r \<Longrightarrow> row_key r = k \<and> row_ok r"
    and put_law: "ok s \<Longrightarrow> row_ok r \<Longrightarrow> ro_put st r s = (x, s') \<Longrightarrow>
      ok s' \<and> rows s' = (if x = Inr () then (rows s)(row_key r \<mapsto> r) else rows s)"
    and remove_law: "ok s \<Longrightarrow> ro_remove st k s = (x, s') \<Longrightarrow>
      ok s' \<and> rows s' = (if x = Inr () then (rows s)(k := None) else rows s)"
    and load_law: "ok s \<Longrightarrow> \<exists>l. ro_load st s = Inr l \<and> map_of (map (\<lambda>r. (row_key r, r)) l) = rows s \<and> distinct (map row_key l)"
    and checkpoint_law: "ok s \<Longrightarrow> int64 b \<Longrightarrow> ro_checkpoint st b s = (x, s') \<Longrightarrow> ok s' \<and> rows s' = rows s"
    and reopen_law: "ok s \<Longrightarrow> ok (ro_reopen st s) \<and> rows (ro_reopen st s) = rows s"

definition memory_ops :: "memory_reminders reminder_ops" where
  "memory_ops = \<lparr> ro_put = mr_put, ro_remove = mr_remove, ro_load = mr_load_all, ro_checkpoint = mr_save_checkpoint, ro_reopen = id \<rparr>"

text \<open>The log with a schedule of faults, one for each call.\<close>

type_synonym faulty_log = "reminder_file \<times> (nat \<Rightarrow> log_faults)"

definition faulty :: "(log_faults \<Rightarrow> reminder_file \<Rightarrow> 'a \<times> reminder_file) \<Rightarrow> faulty_log \<Rightarrow> 'a \<times> faulty_log" where
  "faulty op s = (case op (snd s 0) (fst s) of (x, t) \<Rightarrow> (x, t, \<lambda>n. snd s (Suc n)))"

definition file_ops :: "faulty_log reminder_ops" where
  "file_ops = \<lparr> ro_put = \<lambda>r. faulty (\<lambda>f. rl_put f r), ro_remove = \<lambda>k. faulty (\<lambda>f. rl_remove f k), ro_load = \<lambda>s. rl_load_all (fst s),
     ro_checkpoint = \<lambda>b. faulty (\<lambda>f. rl_save_checkpoint f b),
     ro_reopen = \<lambda>s. (rl_create (snd s 0) (rl_file (fst s)), \<lambda>n. snd s (Suc n)) \<rparr>"

definition log_ok :: "faulty_log \<Rightarrow> bool" where
  "log_ok s \<longleftrightarrow> rl_inv (fst s) \<and> (\<forall>n. tame (snd s n))"

lemma rows_ok_facts:
  assumes "rows_ok rows"
  shows "map_of rows k = Some r \<Longrightarrow> row_key r = k \<and> row_ok r"
    and "map_of (map (\<lambda>r. (row_key r, r)) (map snd rows)) = map_of rows" and "distinct (map row_key (map snd rows))"
proof -
  have k: "map row_key (map snd rows) = map fst rows" using assms by (auto simp: rows_ok_def list_all_iff)
  show "distinct (map row_key (map snd rows))" using assms unfolding k by (simp add: rows_ok_def)
  have "map (\<lambda>r. (row_key r, r)) (map snd rows) = map id rows"
    unfolding map_map using assms by (intro map_cong) (auto simp: rows_ok_def list_all_iff)
  then show "map_of (map (\<lambda>r. (row_key r, r)) (map snd rows)) = map_of rows" by simp
  show "map_of rows k = Some r \<Longrightarrow> row_key r = k \<and> row_ok r" using assms by (auto simp: rows_ok_def list_all_iff dest!: map_of_SomeD)
qed

lemma update_map: "map_of (AList.update k v al) = (map_of al)(k \<mapsto> v)" "map_of (AList.delete k al) = (map_of al)(k := None)"
  by (simp_all add: update_conv' delete_conv')

interpretation mem_rem: reminder_store memory_ops "\<lambda>s. map_of (mr_rows s)" "\<lambda>s. rows_ok (mr_rows s)"
proof (unfold_locales, simp_all only: memory_ops_def reminder_ops.simps)
  fix s s' :: memory_reminders and k r b and x :: "unit result"
  assume o: "rows_ok (mr_rows s)"
  note f = rows_ok_facts [OF o]
  show "map_of (mr_rows s) k = Some r \<Longrightarrow> row_key r = k \<and> row_ok r" by (rule f)
  show "rows_ok (mr_rows s') \<and> map_of (mr_rows s') = (if x = Inr () then (map_of (mr_rows s))(row_key r \<mapsto> r) else map_of (mr_rows s))"
    if "row_ok r" "mr_put r s = (x, s')" using that rows_ok_update [OF o] by (auto simp: mr_put_def update_map)
  show "rows_ok (mr_rows s') \<and> map_of (mr_rows s') = (if x = Inr () then (map_of (mr_rows s))(k := None) else map_of (mr_rows s))"
    if "mr_remove k s = (x, s')" using that rows_ok_delete [OF o] by (auto simp: mr_remove_def update_map)
  show "\<exists>l. mr_load_all s = Inr l \<and> map_of (map (\<lambda>r. (row_key r, r)) l) = map_of (mr_rows s) \<and> distinct (map row_key l)"
    using f(2,3) by (simp add: mr_load_all_def)
  show "rows_ok (mr_rows s') \<and> map_of (mr_rows s') = map_of (mr_rows s)" if "mr_save_checkpoint b s = (x, s')"
    using that o by (auto simp: mr_save_checkpoint_def)
  show "rows_ok (mr_rows (id s)) \<and> map_of (mr_rows (id s)) = map_of (mr_rows s)" using o by simp
qed

interpretation file_rem: reminder_store file_ops "\<lambda>s. map_of (rl_rows (fst s))" log_ok
proof (unfold_locales, simp_all only: file_ops_def reminder_ops.simps)
  fix s s' :: faulty_log and k r b and x :: "unit result"
  assume o: "log_ok s"
  then have i: "rl_inv (fst s)" and t: "tame (snd s n)" for n by (simp_all add: log_ok_def)
  then have ro: "rows_ok (rl_rows (fst s))" by (simp add: rl_inv_def)
  note f = rows_ok_facts [OF ro]
  show "map_of (rl_rows (fst s)) k = Some r \<Longrightarrow> row_key r = k \<and> row_ok r" by (rule f)
  show "log_ok s' \<and> map_of (rl_rows (fst s')) = (if x = Inr () then (map_of (rl_rows (fst s)))(row_key r \<mapsto> r) else map_of (rl_rows (fst s)))"
    if "row_ok r" "faulty (\<lambda>f. rl_put f r) s = (x, s')"
    using rl_put_cases [OF i t that(1)] that(2) o by (auto simp: faulty_def log_ok_def update_map split: prod.splits)
  show "log_ok s' \<and> map_of (rl_rows (fst s')) = (if x = Inr () then (map_of (rl_rows (fst s)))(k := None) else map_of (rl_rows (fst s)))"
    if "faulty (\<lambda>f. rl_remove f k) s = (x, s')"
    using rl_remove_cases [OF i t] that o by (auto simp: faulty_def log_ok_def update_map split: prod.splits)
  show "\<exists>l. rl_load_all (fst s) = Inr l \<and> map_of (map (\<lambda>r. (row_key r, r)) l) = map_of (rl_rows (fst s)) \<and> distinct (map row_key l)"
    using f(2,3) i by (simp add: rl_load_all_def rl_inv_def)
  show "log_ok s' \<and> map_of (rl_rows (fst s')) = map_of (rl_rows (fst s))" if "int64 b" "faulty (\<lambda>f. rl_save_checkpoint f b) s = (x, s')"
    using rl_checkpoint_cases [OF i t that(1)] that(2) o by (auto simp: faulty_def log_ok_def split: prod.splits)
  show "log_ok (rl_create (snd s 0) (rl_file (fst s)), \<lambda>n. snd s (Suc n)) \<and>
      map_of (rl_rows (fst (rl_create (snd s 0) (rl_file (fst s)), \<lambda>n. snd s (Suc n)))) = map_of (rl_rows (fst s))"
    using reopen_rows [OF i t] o by (simp add: log_ok_def)
qed

section \<open>State\<close>

record reminder_config =
  cf_bucket_ns :: int
  cf_fire_rate :: nat
  cf_credit :: nat

definition reminder_config_default :: reminder_config where
  "reminder_config_default = \<lparr> cf_bucket_ns = 1000000000, cf_fire_rate = 0, cf_credit = 4096 \<rparr>"

record fire_event =
  fv_actor :: actor_id
  fv_name :: bytes
  fv_name_hash :: u64
  fv_due :: int
  fv_fired_at :: int
  fv_payload :: bytes

text \<open>The two computations on the token count: accrual over a time span, with the grant it yields, and spending one.\<close>

record 't token_math =
  tm_accrue :: "int \<Rightarrow> 't \<Rightarrow> 't \<times> nat"
  tm_spend :: "'t \<Rightarrow> 't"

type_synonym index_entry = "reminder_key \<times> nat"
type_synonym ready_item = "reminder_key \<times> nat \<times> u64"

record ('s, 't) reminder_service =
  sv_store :: 's
  sv_index :: "(int \<times> index_entry list) list"
  sv_live :: "(reminder_key \<times> reminder_row \<times> nat) list"
  sv_ready :: "ready_item list"
  sv_epoch :: nat
  sv_tokens :: 't
  sv_last_tick :: int
  sv_fired :: nat
  sv_replayed :: nat

definition sv_create :: "'s \<Rightarrow> 't \<Rightarrow> ('s, 't) reminder_service" where
  "sv_create s t = \<lparr> sv_store = s, sv_index = [], sv_live = [], sv_ready = [], sv_epoch = 0, sv_tokens = t, sv_last_tick = -1,
     sv_fired = 0, sv_replayed = 0 \<rparr>"

definition due_bucket :: "reminder_config \<Rightarrow> int \<Rightarrow> int" where
  "due_bucket cfg ns = ns sdiv cf_bucket_ns cfg"

definition drain_rank :: "reminder_key \<Rightarrow> u64" where
  "drain_rank k = splitmix64 (actor_hash (rk_actor k) XOR (rk_name_hash k * 0x9E3779B97F4A7C15))"

text \<open>\<open>index_[b].push_back\<close> on the ordered map.\<close>

fun index_add :: "int \<Rightarrow> index_entry \<Rightarrow> (int \<times> index_entry list) list \<Rightarrow> (int \<times> index_entry list) list" where
  "index_add b x [] = [(b, [x])]"
| "index_add b x ((c, xs) # rest) =
     (if b < c then (b, [x]) # (c, xs) # rest
      else if b = c then (c, xs @ [x]) # rest
      else (c, xs) # index_add b x rest)"

definition insert_index :: "reminder_config \<Rightarrow> reminder_row \<Rightarrow> ('s, 't) reminder_service \<Rightarrow> ('s, 't) reminder_service" where
  "insert_index cfg row s =
     (let ep = sv_epoch s + 1 in
      s\<lparr> sv_epoch := ep, sv_live := AList.update (row_key row) (row, ep) (sv_live s),
         sv_index := index_add (due_bucket cfg (rw_due row)) (row_key row, ep) (sv_index s) \<rparr>)"

section \<open>Operations\<close>

definition sv_open :: "'s reminder_ops \<Rightarrow> reminder_config \<Rightarrow> ('s, 't) reminder_service \<Rightarrow> ('s, 't) reminder_service" where
  "sv_open st cfg s0 =
     (let s = s0\<lparr> sv_index := [], sv_live := [], sv_ready := [] \<rparr> in
      case ro_load st (sv_store s) of
        Inl _ \<Rightarrow> s
      | Inr rows \<Rightarrow> (fold (insert_index cfg) rows s)\<lparr> sv_replayed := length rows \<rparr>)"

definition remind_at ::
  "'s reminder_ops \<Rightarrow> reminder_config \<Rightarrow> reminder_row \<Rightarrow> ('s, 't) reminder_service \<Rightarrow> unit result \<times> ('s, 't) reminder_service" where
  "remind_at st cfg row s =
     (case ro_put st row (sv_store s) of
        (Inl er, s') \<Rightarrow> (Inl er, s\<lparr> sv_store := s' \<rparr>)
      | (Inr _, s') \<Rightarrow> (Inr (), insert_index cfg row (s\<lparr> sv_store := s' \<rparr>)))"

definition remind_after ::
  "'s reminder_ops \<Rightarrow> reminder_config \<Rightarrow> actor_id \<Rightarrow> bytes \<Rightarrow> int \<Rightarrow> int \<Rightarrow> int \<Rightarrow> bytes \<Rightarrow> ('s, 't) reminder_service
     \<Rightarrow> unit result \<times> ('s, 't) reminder_service" where
  "remind_after st cfg actor name now after period payload =
     remind_at st cfg \<lparr> rw_actor = actor, rw_name = name, rw_due = now + after, rw_period = period, rw_payload = payload \<rparr>"

definition sv_cancel ::
  "'s reminder_ops \<Rightarrow> reminder_key \<Rightarrow> ('s, 't) reminder_service \<Rightarrow> unit result \<times> ('s, 't) reminder_service" where
  "sv_cancel st k s =
     (case ro_remove st k (sv_store s) of
        (r, s') \<Rightarrow> (r, s\<lparr> sv_store := s', sv_live := AList.delete k (sv_live s) \<rparr>))"

definition cancel_named ::
  "'s reminder_ops \<Rightarrow> actor_id \<Rightarrow> bytes \<Rightarrow> ('s, 't) reminder_service \<Rightarrow> unit result \<times> ('s, 't) reminder_service" where
  "cancel_named st actor name = sv_cancel st \<lparr> rk_actor = actor, rk_name_hash = reminder_name_hash name \<rparr>"

section \<open>The tick\<close>

text \<open>The buckets that have come due, in order, and the index that is left.\<close>

fun pull_due :: "int \<Rightarrow> (int \<times> index_entry list) list \<Rightarrow> ready_item list \<times> (int \<times> index_entry list) list" where
  "pull_due b [] = ([], [])"
| "pull_due b ((c, xs) # rest) =
     (if c \<le> b then (case pull_due b rest of (items, left) \<Rightarrow> (map (\<lambda>(k, e). (k, e, drain_rank k)) xs @ items, left))
      else ([], (c, xs) # rest))"

definition pull_ready :: "reminder_config \<Rightarrow> int \<Rightarrow> ('s, 't) reminder_service \<Rightarrow> ('s, 't) reminder_service" where
  "pull_ready cfg now s =
     (case pull_due (due_bucket cfg now) (sv_index s) of (items, left) \<Rightarrow>
        let ready = sv_ready s @ items in
        s\<lparr> sv_index := left, sv_ready := (if items \<noteq> [] then sort_key (\<lambda>(_, _, r). r) ready else ready) \<rparr>)"

definition tick_budget :: "'t token_math \<Rightarrow> reminder_config \<Rightarrow> int \<Rightarrow> ('s, 't) reminder_service \<Rightarrow> nat \<times> ('s, 't) reminder_service" where
  "tick_budget tm cfg now s =
     (if cf_fire_rate cfg = 0 then (min (length (sv_ready s)) (cf_credit cfg), s\<lparr> sv_last_tick := now \<rparr>)
      else
        let dt = (if sv_last_tick s < 0 then cf_bucket_ns cfg else now - sv_last_tick s);
            (t, grant) = tm_accrue tm dt (sv_tokens s)
        in (min grant (cf_credit cfg), s\<lparr> sv_tokens := t, sv_last_tick := now \<rparr>))"

datatype handler_call = HRemind reminder_row | HCancel reminder_key

definition handler_step ::
  "'s reminder_ops \<Rightarrow> reminder_config \<Rightarrow> handler_call \<Rightarrow> ('s, 't) reminder_service \<Rightarrow> ('s, 't) reminder_service" where
  "handler_step st cfg c s = (case c of HRemind row \<Rightarrow> snd (remind_at st cfg row s) | HCancel k \<Rightarrow> snd (sv_cancel st k s))"

definition fire_of :: "int \<Rightarrow> reminder_key \<Rightarrow> reminder_row \<Rightarrow> fire_event" where
  "fire_of now k row = \<lparr> fv_actor = rw_actor row, fv_name = rw_name row, fv_name_hash = rk_name_hash k, fv_due = rw_due row,
     fv_fired_at = now, fv_payload = rw_payload row \<rparr>"

text \<open>The durable confirmation, after the callback.\<close>

definition confirm ::
  "'s reminder_ops \<Rightarrow> reminder_config \<Rightarrow> reminder_key \<Rightarrow> nat \<Rightarrow> reminder_row \<Rightarrow> ('s, 't) reminder_service \<Rightarrow> ('s, 't) reminder_service" where
  "confirm st cfg k ep row s =
     (case map_of (sv_live s) k of
        None \<Rightarrow> s
      | Some (_, ep') \<Rightarrow>
          if ep' \<noteq> ep then s
          else if 0 < rw_period row then
            let next = row\<lparr> rw_due := rw_due row + rw_period row \<rparr> in
            (case ro_put st next (sv_store s) of
               (Inr _, s') \<Rightarrow> insert_index cfg next (s\<lparr> sv_store := s' \<rparr>)
             | (Inl _, s') \<Rightarrow> insert_index cfg row (s\<lparr> sv_store := s' \<rparr>))
          else
            (case ro_remove st k (sv_store s) of
               (Inr _, s') \<Rightarrow> s\<lparr> sv_store := s', sv_live := AList.delete k (sv_live s) \<rparr>
             | (Inl _, s') \<Rightarrow> insert_index cfg row (s\<lparr> sv_store := s' \<rparr>)))"

definition fire_item ::
  "'s reminder_ops \<Rightarrow> 't token_math \<Rightarrow> reminder_config \<Rightarrow> (fire_event \<Rightarrow> handler_call list) \<Rightarrow> int \<Rightarrow> reminder_key \<Rightarrow> nat \<Rightarrow>
     reminder_row \<Rightarrow> ('s, 't) reminder_service \<Rightarrow> ('s, 't) reminder_service" where
  "fire_item st tm cfg handler now k ep row s =
     (let s1 = fold (handler_step st cfg) (handler (fire_of now k row)) s;
          s2 = confirm st cfg k ep row (s1\<lparr> sv_fired := sv_fired s1 + 1 \<rparr>)
      in if cf_fire_rate cfg \<noteq> 0 then s2\<lparr> sv_tokens := tm_spend tm (sv_tokens s2) \<rparr> else s2)"

text \<open>The events fired, how many ready items were consumed, and the service.\<close>

fun drain_ready ::
  "'s reminder_ops \<Rightarrow> 't token_math \<Rightarrow> reminder_config \<Rightarrow> (fire_event \<Rightarrow> handler_call list) \<Rightarrow> int \<Rightarrow> ready_item list \<Rightarrow> nat \<Rightarrow>
     ('s, 't) reminder_service \<Rightarrow> fire_event list \<times> nat \<times> ('s, 't) reminder_service" where
  "drain_ready st tm cfg handler now [] budget s = ([], 0, s)"
| "drain_ready st tm cfg handler now ((k, ep, _) # items) budget s =
     (if budget = 0 then ([], 0, s)
      else case map_of (sv_live s) k of
        None \<Rightarrow> (case drain_ready st tm cfg handler now items budget s of (evs, d, s') \<Rightarrow> (evs, d + 1, s'))
      | Some (row, ep') \<Rightarrow>
          if ep' \<noteq> ep then (case drain_ready st tm cfg handler now items budget s of (evs, d, s') \<Rightarrow> (evs, d + 1, s'))
          else
            (case drain_ready st tm cfg handler now items (budget - 1) (fire_item st tm cfg handler now k ep row s) of
               (evs, d, s') \<Rightarrow> (fire_of now k row # evs, d + 1, s')))"

text \<open>The first two phases and the drain with a given limit; the tick adds the checkpoint.\<close>

definition drain_due ::
  "'s reminder_ops \<Rightarrow> 't token_math \<Rightarrow> reminder_config \<Rightarrow> (fire_event \<Rightarrow> handler_call list) \<Rightarrow> int \<Rightarrow> nat option \<Rightarrow>
     ('s, 't) reminder_service \<Rightarrow> fire_event list \<times> ('s, 't) reminder_service" where
  "drain_due st tm cfg handler now most s0 =
     (let (budget, s1) = tick_budget tm cfg now (pull_ready cfg now s0);
          limit = (case most of None \<Rightarrow> budget | Some n \<Rightarrow> min n budget);
          (evs, d, s2) = drain_ready st tm cfg handler now (sv_ready s1) limit s1
      in (evs, s2\<lparr> sv_ready := drop d (sv_ready s2) \<rparr>))"

definition sv_tick ::
  "'s reminder_ops \<Rightarrow> 't token_math \<Rightarrow> reminder_config \<Rightarrow> (fire_event \<Rightarrow> handler_call list) \<Rightarrow> int \<Rightarrow>
     ('s, 't) reminder_service \<Rightarrow> fire_event list \<times> ('s, 't) reminder_service" where
  "sv_tick st tm cfg handler now s0 =
     (let (evs, s) = drain_due st tm cfg handler now None s0 in
      (evs, if sv_ready s = [] \<and> sv_index s = []
            then s\<lparr> sv_store := snd (ro_checkpoint st (due_bucket cfg now) (sv_store s)) \<rparr> else s))"

text \<open>
  The process dies and is started again; it may die in the middle of a tick, after so many fires.  A death between a
  fire and its confirmation leaves the row as a death before the fire does, with one fire more.
\<close>

definition sv_restart :: "'s reminder_ops \<Rightarrow> reminder_config \<Rightarrow> 't \<Rightarrow> ('s, 't) reminder_service \<Rightarrow> ('s, 't) reminder_service" where
  "sv_restart st cfg t s = sv_open st cfg (sv_create (ro_reopen st (sv_store s)) t)"

end
