(* ===== verification/Reminder_Delivery.thy ===== *)
theory Reminder_Delivery
  imports Reminder_Service
begin

text \<open>
  At-least-once delivery of reminders: over any history of registrations, cancellations, ticks, failing store
  writes, restarts and deaths in the middle of a tick, an occurrence leaves the store only after it has fired.
\<close>

section \<open>The schedule\<close>

definition index_set :: "(int \<times> index_entry list) list \<Rightarrow> (int \<times> reminder_key \<times> nat) set" where
  "index_set ix = {(b, x). \<exists>xs. (b, xs) \<in> set ix \<and> x \<in> set xs}"

lemma index_set_simps [simp]: "index_set [] = {}" "index_set ((b, xs) # ix) = Pair b ` set xs \<union> index_set ix"
  by (auto simp: index_set_def)

lemma index_add_set [simp]: "index_set (index_add b x ix) = insert (b, x) (index_set ix)"
  by (induction b x ix rule: index_add.induct) auto

lemma index_add_bounds: "set (map fst (index_add b x ix)) = insert b (set (map fst ix))"
  by (induction b x ix rule: index_add.induct) auto

lemma index_add_sorted: "sorted_wrt (<) (map fst ix) \<Longrightarrow> sorted_wrt (<) (map fst (index_add b x ix))"
proof (induction ix)
  case (Cons y ix)
  obtain c xs where y: "y = (c, xs)" by (cases y)
  then show ?case using Cons index_add_bounds [of b x ix] by (auto simp del: set_map)
qed simp

lemma pull_due_facts:
  assumes "pull_due b ix = (items, left)"
  shows "(k, e, r) \<in> set items \<Longrightarrow> \<exists>c \<le> b. (c, k, e) \<in> index_set ix" and "index_set left \<subseteq> index_set ix"
    and "sorted_wrt (<) (map fst ix) \<Longrightarrow> sorted_wrt (<) (map fst left)"
    and "sorted_wrt (<) (map fst ix) \<Longrightarrow> (c, k, e) \<in> index_set ix \<Longrightarrow> (c, k, e) \<in> index_set left \<and> b < c \<or> (k, e, drain_rank k) \<in> set items"
proof -
  have "(\<forall>k e r. (k, e, r) \<in> set items \<longrightarrow> (\<exists>c \<le> b. (c, k, e) \<in> index_set ix)) \<and> index_set left \<subseteq> index_set ix \<and>
      (sorted_wrt (<) (map fst ix) \<longrightarrow> sorted_wrt (<) (map fst left) \<and>
        (\<forall>c k e. (c, k, e) \<in> index_set ix \<longrightarrow> (c, k, e) \<in> index_set left \<and> b < c \<or> (k, e, drain_rank k) \<in> set items))"
    using assms
  proof (induction ix arbitrary: items left)
    case (Cons y ix)
    obtain c xs where y: "y = (c, xs)" by (cases y)
    show ?case
    proof (cases "c \<le> b")
      case True
      obtain items' where p: "pull_due b ix = (items', left)" and i: "items = map (\<lambda>(k, e). (k, e, drain_rank k)) xs @ items'"
        using Cons.prems True by (auto simp: y split: prod.splits)
      from Cons.IH [OF p] True show ?thesis by (fastforce simp: y i image_iff)
    next
      case False
      then have il: "items = []" "left = y # ix" using Cons.prems by (auto simp: y)
      have "b < c'" if "sorted_wrt (<) (map fst (y # ix))" "(c', k, e) \<in> index_set (y # ix)" for c' k e
        using that False by (force simp: y index_set_def)
      then show ?thesis by (auto simp: il)
    qed
  qed simp
  then show "(k, e, r) \<in> set items \<Longrightarrow> \<exists>c \<le> b. (c, k, e) \<in> index_set ix" "index_set left \<subseteq> index_set ix"
    "sorted_wrt (<) (map fst ix) \<Longrightarrow> sorted_wrt (<) (map fst left)"
    "sorted_wrt (<) (map fst ix) \<Longrightarrow> (c, k, e) \<in> index_set ix \<Longrightarrow> (c, k, e) \<in> index_set left \<and> b < c \<or> (k, e, drain_rank k) \<in> set items"
    by blast+
qed

text \<open>
  The schedule of a service, with the ready items that are left: a live row has an entry under its epoch, in its
  bucket or among the ready items; entries of older epochs are void; and nothing that is ready is due beyond the
  horizon.
\<close>

definition sched_rel ::
  "reminder_config \<Rightarrow> int \<Rightarrow> int \<Rightarrow> (reminder_key \<Rightarrow> (reminder_row \<times> nat) option) \<Rightarrow> (int \<times> reminder_key \<times> nat) set \<Rightarrow>
     (reminder_key \<times> nat) set \<Rightarrow> nat \<Rightarrow> bool" where
  "sched_rel cfg H P L I R n \<longleftrightarrow>
     (\<forall>k r e. L k = Some (r, e) \<longrightarrow> row_key r = k \<and> row_ok r \<and> rw_period r \<le> P \<and> e \<le> n \<and>
        ((due_bucket cfg (rw_due r), k, e) \<in> I \<or> (k, e) \<in> R)) \<and>
     (\<forall>b k e. (b, k, e) \<in> I \<longrightarrow> e \<le> n \<and> (\<forall>r. L k = Some (r, e) \<longrightarrow> b = due_bucket cfg (rw_due r))) \<and>
     (\<forall>k e. (k, e) \<in> R \<longrightarrow> e \<le> n \<and> (\<forall>r. L k = Some (r, e) \<longrightarrow> due_bucket cfg (rw_due r) \<le> due_bucket cfg H))"

lemma sched_relD:
  assumes "sched_rel cfg H P L I R n"
  shows "L k = Some (r, e) \<Longrightarrow> row_key r = k" "L k = Some (r, e) \<Longrightarrow> row_ok r" "L k = Some (r, e) \<Longrightarrow> rw_period r \<le> P"
    "L k = Some (r, e) \<Longrightarrow> e \<le> n" "L k = Some (r, e) \<Longrightarrow> (due_bucket cfg (rw_due r), k, e) \<in> I \<or> (k, e) \<in> R"
    "(b, k, e) \<in> I \<Longrightarrow> e \<le> n" "(b, k, e) \<in> I \<Longrightarrow> L k = Some (r, e) \<Longrightarrow> b = due_bucket cfg (rw_due r)"
    "(k, e) \<in> R \<Longrightarrow> e \<le> n" "(k, e) \<in> R \<Longrightarrow> L k = Some (r, e) \<Longrightarrow> due_bucket cfg (rw_due r) \<le> due_bucket cfg H"
  using assms unfolding sched_rel_def by blast+

lemma sched_rel_insert:
  assumes s: "sched_rel cfg H P L I R n" and r: "row_ok r" "rw_period r \<le> P"
  shows "sched_rel cfg H P (L(row_key r \<mapsto> (r, n + 1))) (insert (due_bucket cfg (rw_due r), row_key r, n + 1) I) R (n + 1)"
proof -
  note d = sched_relD [OF s]
  let ?L = "L(row_key r \<mapsto> (r, n + 1))" and ?I = "insert (due_bucket cfg (rw_due r), row_key r, n + 1) I"
  have old: "L k = Some (r', e)" if "?L k = Some (r', e)" "e \<le> n" for k r' e using that by (auto split: if_splits)
  have 1: "row_key r' = k \<and> row_ok r' \<and> rw_period r' \<le> P \<and> e \<le> n + 1 \<and> ((due_bucket cfg (rw_due r'), k, e) \<in> ?I \<or> (k, e) \<in> R)"
    if "?L k = Some (r', e)" for k r' e
  proof (cases "k = row_key r")
    case False
    then have "L k = Some (r', e)" using that by simp
    then show ?thesis using d(1-5) [of k r' e] by auto
  qed (use that r in auto)
  have 2: "e \<le> n + 1 \<and> (\<forall>r'. ?L k = Some (r', e) \<longrightarrow> b = due_bucket cfg (rw_due r'))" if "(b, k, e) \<in> ?I" for b k e
  proof (cases "(b, k, e) \<in> I")
    case True
    have e: "e \<le> n" by (rule d(6) [OF True])
    have "b = due_bucket cfg (rw_due r')" if "?L k = Some (r', e)" for r' by (rule d(7) [OF True old [OF that e]])
    then show ?thesis using e by simp
  qed (use that in auto)
  have 3: "e \<le> n + 1 \<and> (\<forall>r'. ?L k = Some (r', e) \<longrightarrow> due_bucket cfg (rw_due r') \<le> due_bucket cfg H)" if R: "(k, e) \<in> R" for k e
  proof -
    have e: "e \<le> n" by (rule d(8) [OF R])
    have "due_bucket cfg (rw_due r') \<le> due_bucket cfg H" if L: "?L k = Some (r', e)" for r'
      by (rule d(9) [OF R old [OF L e]])
    then show ?thesis using e by simp
  qed
  show ?thesis unfolding sched_rel_def using 1 2 3 by blast
qed

lemma sched_rel_mono:
  assumes s: "sched_rel cfg H P L I R n" and L: "\<And>k x. L' k = Some x \<Longrightarrow> L k = Some x" and I: "I' \<subseteq> I"
    and R: "\<And>k e. (k, e) \<in> R' \<Longrightarrow> (k, e) \<in> R \<or> (\<exists>b \<le> due_bucket cfg H. (b, k, e) \<in> I)"
    and K: "\<And>k r e. L' k = Some (r, e) \<Longrightarrow> (due_bucket cfg (rw_due r), k, e) \<in> I \<or> (k, e) \<in> R \<Longrightarrow> (due_bucket cfg (rw_due r), k, e) \<in> I' \<or> (k, e) \<in> R'"
  shows "sched_rel cfg H P L' I' R' n"
proof -
  note d = sched_relD [OF s]
  have 1: "row_key r = k \<and> row_ok r \<and> rw_period r \<le> P \<and> e \<le> n \<and> ((due_bucket cfg (rw_due r), k, e) \<in> I' \<or> (k, e) \<in> R')"
    if "L' k = Some (r, e)" for k r e using d(1-5) [OF L [OF that]] K [OF that] by blast
  have 2: "e \<le> n \<and> (\<forall>r. L' k = Some (r, e) \<longrightarrow> b = due_bucket cfg (rw_due r))" if "(b, k, e) \<in> I'" for b k e
    using d(6,7) [of b k e] that I L by blast
  have 3: "e \<le> n \<and> (\<forall>r. L' k = Some (r, e) \<longrightarrow> due_bucket cfg (rw_due r) \<le> due_bucket cfg H)" if "(k, e) \<in> R'" for k e
    using R [OF that]
  proof
    assume r: "(k, e) \<in> R"
    show ?thesis using d(8) [OF r] d(9) [OF r L] by blast
  next
    assume "\<exists>b \<le> due_bucket cfg H. (b, k, e) \<in> I"
    then obtain b where b: "b \<le> due_bucket cfg H" "(b, k, e) \<in> I" by blast
    show ?thesis using d(6) [OF b(2)] d(7) [OF b(2) L] b(1) by blast
  qed
  show ?thesis unfolding sched_rel_def using 1 2 3 by blast
qed

definition ready_set :: "ready_item list \<Rightarrow> (reminder_key \<times> nat) set" where
  "ready_set items = (\<lambda>(k, e, _). (k, e)) ` set items"

lemma ready_set_simps [simp]: "ready_set [] = {}" "ready_set ((k, e, x) # items) = insert (k, e) (ready_set items)"
    "ready_set (xs @ ys) = ready_set xs \<union> ready_set ys"
  by (simp_all add: ready_set_def image_Un)

definition sched_ok :: "reminder_config \<Rightarrow> int \<Rightarrow> int \<Rightarrow> ready_item list \<Rightarrow> ('s, 't) reminder_service \<Rightarrow> bool" where
  "sched_ok cfg H P items s \<longleftrightarrow> sorted_wrt (<) (map fst (sv_index s)) \<and>
     sched_rel cfg H P (map_of (sv_live s)) (index_set (sv_index s)) (ready_set items) (sv_epoch s)"

lemma sched_cong:
  assumes "sv_index t = sv_index s" and "sv_live t = sv_live s" and "sv_epoch t = sv_epoch s"
  shows "sched_ok cfg H P items t = sched_ok cfg H P items s"
  using assms by (simp add: sched_ok_def)

lemma sched_insert:
  assumes "sched_ok cfg H P items s" and "row_ok r" and "rw_period r \<le> P"
  shows "sched_ok cfg H P items (insert_index cfg r s)"
  using assms sched_rel_insert [OF _ assms(2,3)] by (simp add: sched_ok_def insert_index_def update_map index_add_sorted)

lemma sched_delete:
  assumes "sched_ok cfg H P items s" and "map_of (sv_live t) = (map_of (sv_live s))(k := None)" and "sv_index t = sv_index s" and "sv_epoch t = sv_epoch s"
  shows "sched_ok cfg H P items t"
proof -
  have d: "sched_rel cfg H P ((map_of (sv_live s))(k := None)) (index_set (sv_index s)) (ready_set items) (sv_epoch s)"
  proof -
    have o: "sched_rel cfg H P (map_of (sv_live s)) (index_set (sv_index s)) (ready_set items) (sv_epoch s)"
      using assms(1) by (simp add: sched_ok_def)
    show ?thesis by (rule sched_rel_mono [OF o]) (auto split: if_splits)
  qed
  show ?thesis unfolding sched_ok_def assms(2-4) using d assms(1) by (simp add: sched_ok_def)
qed

text \<open>A void item can be dropped.\<close>

lemma sched_void:
  assumes "sched_ok cfg H P ((k, e, x) # items) s" and "\<nexists>r. map_of (sv_live s) k = Some (r, e)"
  shows "sched_ok cfg H P items s"
proof -
  have o: "sched_rel cfg H P (map_of (sv_live s)) (index_set (sv_index s)) (ready_set ((k, e, x) # items)) (sv_epoch s)"
    using assms(1) by (simp add: sched_ok_def)
  have "sched_rel cfg H P (map_of (sv_live s)) (index_set (sv_index s)) (ready_set items) (sv_epoch s)"
    by (rule sched_rel_mono [OF o]) (use assms(2) in auto)
  then show ?thesis using assms by (simp add: sched_ok_def)
qed

section \<open>Time\<close>

lemma sdiv_mono: "0 < (b :: int) \<Longrightarrow> x \<le> y \<Longrightarrow> x sdiv b \<le> y sdiv b"
proof -
  assume b: "0 < b" and xy: "x \<le> y"
  show ?thesis
  proof (cases "0 \<le> x")
    case True
    then have "x sdiv b = x div b" "y sdiv b = y div b" using b xy by (auto simp: signed_divide_int_def sgn_if)
    then show ?thesis using b xy by (simp add: zdiv_mono1)
  next
    case False
    show ?thesis
    proof (cases "0 \<le> y")
      case True
      have "0 \<le> (- x) div b" using b False by (simp add: pos_imp_zdiv_nonneg_iff)
      moreover have "x sdiv b = - ((- x) div b)" "y sdiv b = y div b" using b False True by (auto simp: signed_divide_int_def sgn_if)
      moreover have "0 \<le> y div b" using b True by (simp add: pos_imp_zdiv_nonneg_iff)
      ultimately show ?thesis by simp
    next
      case no: False
      have "(- y) div b \<le> (- x) div b" using b xy by (intro zdiv_mono1) simp_all
      then show ?thesis using False no b by (simp add: signed_divide_int_def sgn_if)
    qed
  qed
qed

text \<open>A row that is ready by the horizon is due less than one bucket after it.\<close>

lemma due_bound:
  assumes b: "0 < (b :: int)" and "0 \<le> H" and "x sdiv b \<le> H sdiv b"
  shows "x < H + b"
proof (rule ccontr)
  assume "\<not> x < H + b"
  then have x: "H + b \<le> x" by simp
  then have "(H + b) div b \<le> x div b" by (rule zdiv_mono1 [OF _ b])
  moreover have "(H + b) div b = H div b + 1" using b div_add_self2 [of b H] by simp
  ultimately have "H div b + 1 \<le> x div b" by simp
  moreover have "x sdiv b = x div b" "H sdiv b = H div b" using assms x by (auto simp: signed_divide_int_def sgn_if)
  ultimately show False using assms(3) by simp
qed

lemma div_shrinks: "0 < (b :: int) \<Longrightarrow> 0 \<le> x \<Longrightarrow> 0 \<le> x div b \<and> x div b \<le> x"
  using zdiv_mono2 [of x 1 b] by (simp add: pos_imp_zdiv_nonneg_iff)

lemma sdiv_int64: "0 < b \<Longrightarrow> int64 x \<Longrightarrow> int64 (x sdiv b)"
proof -
  assume b: "0 < b" and x: "int64 x"
  show ?thesis
  proof (cases "0 \<le> x")
    case True
    then have "x sdiv b = x div b" using b by (auto simp: signed_divide_int_def sgn_if)
    then show ?thesis using div_shrinks [OF b True] x by (auto simp: int64_def)
  next
    case False
    then have "x sdiv b = - ((- x) div b)" using b by (auto simp: signed_divide_int_def sgn_if)
    then show ?thesis using div_shrinks [OF b, of "- x"] False x by (auto simp: int64_def)
  qed
qed

section \<open>Operations and runs\<close>

datatype 't service_op =
    SvRemind reminder_row
  | SvCancel reminder_key
  | SvTick int
  | SvRestart 't
  | SvDie int nat 't

text \<open>One operation, with the events it fires.  \<open>SvDie\<close> is a death in a tick after so many fires, and the restart.\<close>

fun sv_step ::
  "'s reminder_ops \<Rightarrow> 't token_math \<Rightarrow> reminder_config \<Rightarrow> (fire_event \<Rightarrow> handler_call list) \<Rightarrow> 't service_op \<Rightarrow>
     ('s, 't) reminder_service \<Rightarrow> fire_event list \<times> ('s, 't) reminder_service" where
  "sv_step st tm cfg handler (SvRemind row) s = ([], snd (remind_at st cfg row s))"
| "sv_step st tm cfg handler (SvCancel k) s = ([], snd (sv_cancel st k s))"
| "sv_step st tm cfg handler (SvTick now) s = sv_tick st tm cfg handler now s"
| "sv_step st tm cfg handler (SvRestart t) s = ([], sv_restart st cfg t s)"
| "sv_step st tm cfg handler (SvDie now most t) s =
     (case drain_due st tm cfg handler now (Some most) s of (evs, s1) \<Rightarrow> (evs, sv_restart st cfg t s1))"

fun sv_run ::
  "'s reminder_ops \<Rightarrow> 't token_math \<Rightarrow> reminder_config \<Rightarrow> (fire_event \<Rightarrow> handler_call list) \<Rightarrow> 't service_op list \<Rightarrow>
     ('s, 't) reminder_service \<Rightarrow> fire_event list \<times> ('s, 't) reminder_service" where
  "sv_run st tm cfg handler [] s = ([], s)"
| "sv_run st tm cfg handler (op # ops) s =
     (case sv_step st tm cfg handler op s of (evs, s1) \<Rightarrow>
        case sv_run st tm cfg handler ops s1 of (evs', s2) \<Rightarrow> (evs @ evs', s2))"

text \<open>What a run may contain: rows of the right shape with bounded periods, and ticks up to the horizon.\<close>

definition row_fits :: "int \<Rightarrow> reminder_row \<Rightarrow> bool" where
  "row_fits P r \<longleftrightarrow> row_ok r \<and> rw_period r \<le> P"

definition call_fits :: "int \<Rightarrow> handler_call \<Rightarrow> bool" where
  "call_fits P c = (case c of HRemind r \<Rightarrow> row_fits P r | HCancel _ \<Rightarrow> True)"

fun op_fits :: "int \<Rightarrow> int \<Rightarrow> 't service_op \<Rightarrow> bool" where
  "op_fits H P (SvRemind r) = row_fits P r"
| "op_fits H P (SvTick now) = (int64 now \<and> now \<le> H)"
| "op_fits H P (SvDie now _ _) = (int64 now \<and> now \<le> H)"
| "op_fits H P _ = True"

definition call_key :: "handler_call \<Rightarrow> reminder_key" where
  "call_key c = (case c of HRemind r \<Rightarrow> row_key r | HCancel k \<Rightarrow> k)"

fun spares :: "reminder_key \<Rightarrow> 't service_op \<Rightarrow> bool" where
  "spares k (SvRemind r) = (row_key r \<noteq> k)"
| "spares k (SvCancel k') = (k' \<noteq> k)"
| "spares k _ = True"

definition handler_fits :: "int \<Rightarrow> (fire_event \<Rightarrow> handler_call list) \<Rightarrow> bool" where
  "handler_fits P handler \<longleftrightarrow> (\<forall>ev. list_all (call_fits P) (handler ev))"

definition handler_spares :: "reminder_key \<Rightarrow> (fire_event \<Rightarrow> handler_call list) \<Rightarrow> bool" where
  "handler_spares k handler \<longleftrightarrow> (\<forall>ev. list_all (\<lambda>c. call_key c \<noteq> k) (handler ev))"

definition time_fits :: "reminder_config \<Rightarrow> int \<Rightarrow> int \<Rightarrow> bool" where
  "time_fits cfg H P \<longleftrightarrow> 0 < cf_bucket_ns cfg \<and> 0 \<le> H \<and> H + cf_bucket_ns cfg + P < 2 ^ 63"

section \<open>The invariant of the service\<close>

definition sv_inv ::
  "('s \<Rightarrow> reminder_key \<Rightarrow> reminder_row option) \<Rightarrow> ('s \<Rightarrow> bool) \<Rightarrow> reminder_config \<Rightarrow> int \<Rightarrow> int \<Rightarrow> ready_item list \<Rightarrow>
     ('s, 't) reminder_service \<Rightarrow> bool" where
  "sv_inv rows ok cfg H P items s \<longleftrightarrow>
     ok (sv_store s) \<and> (\<forall>k r. rows (sv_store s) k = Some r \<longrightarrow> rw_period r \<le> P) \<and>
     (\<forall>k r e. map_of (sv_live s) k = Some (r, e) \<longrightarrow> rows (sv_store s) k = Some r) \<and> sched_ok cfg H P items s"

definition live_row :: "('s, 't) reminder_service \<Rightarrow> reminder_key \<Rightarrow> reminder_row option" where
  "live_row s k = map_option fst (map_of (sv_live s) k)"

lemma sv_inv_cong:
  assumes "sv_store t = sv_store s" and "sv_index t = sv_index s" and "sv_live t = sv_live s" and "sv_epoch t = sv_epoch s"
  shows "sv_inv rows ok cfg H P items t = sv_inv rows ok cfg H P items s"
  using assms sched_cong [OF assms(2-4)] by (simp add: sv_inv_def)

lemma sv_inv_live:
  assumes "sv_inv rows ok cfg H P items s" and "map_of (sv_live s) k = Some (r, e)"
  shows "row_key r = k" and "row_fits P r" and "e \<le> sv_epoch s" and "rows (sv_store s) k = Some r"
  using assms sched_relD [of cfg H P "map_of (sv_live s)" "index_set (sv_index s)" "ready_set items" "sv_epoch s"]
  unfolding sv_inv_def sched_ok_def row_fits_def by blast+

lemma sv_inv_ready:
  assumes "sv_inv rows ok cfg H P ((k, e, x) # items) s" and "map_of (sv_live s) k = Some (r, e)"
  shows "due_bucket cfg (rw_due r) \<le> due_bucket cfg H"
  using assms sched_relD(9) [of cfg H P "map_of (sv_live s)" "index_set (sv_index s)" "ready_set ((k, e, x) # items)" "sv_epoch s" k e r]
  unfolding sv_inv_def sched_ok_def by simp

lemma sv_inv_reindex:
  assumes "sv_inv rows ok cfg H P items s" and "row_fits P r" and "ok s'" and "rows s' = (rows (sv_store s))(row_key r \<mapsto> r)"
  shows "sv_inv rows ok cfg H P items (insert_index cfg r (s\<lparr> sv_store := s' \<rparr>))"
proof -
  have "sched_ok cfg H P items (insert_index cfg r (s\<lparr> sv_store := s' \<rparr>))"
    using assms(1,2) by (intro sched_insert) (simp_all add: sv_inv_def row_fits_def sched_ok_def)
  moreover have "rw_period r' \<le> P" if "rows s' k' = Some r'" for k' r'
    using that assms(1,2,4) by (auto simp: sv_inv_def row_fits_def split: if_splits)
  moreover have "rows s' k' = Some r'" if "((map_of (sv_live s))(row_key r \<mapsto> (r, sv_epoch s + 1))) k' = Some (r', e)" for k' r' e
    using that assms(1,4) by (auto simp: sv_inv_def split: if_splits)
  ultimately show ?thesis using assms(3) by (simp add: sv_inv_def insert_index_def update_map del: fun_upd_apply)
qed

lemma sv_inv_unlist:
  assumes "sv_inv rows ok cfg H P items s" and "ok s'" and s': "rows s' = rows (sv_store s) \<or> rows s' = (rows (sv_store s))(k := None)"
  shows "sv_inv rows ok cfg H P items (s\<lparr> sv_store := s', sv_live := AList.delete k (sv_live s) \<rparr>)"
proof -
  have "sched_ok cfg H P items (s\<lparr> sv_store := s', sv_live := AList.delete k (sv_live s) \<rparr>)"
    by (rule sched_delete [where s = s and k = k]) (use assms(1) in \<open>simp_all add: sv_inv_def update_map\<close>)
  moreover have "rw_period r \<le> P" if "rows s' k' = Some r" for k' r
    using s' that assms(1) by (auto simp: sv_inv_def split: if_splits)
  moreover have "rows s' k' = Some r" if "((map_of (sv_live s))(k := None)) k' = Some (r, e)" for k' r e
    using s' that assms(1) by (auto simp: sv_inv_def split: if_splits)
  ultimately show ?thesis using assms(2) by (simp add: sv_inv_def update_map del: fun_upd_apply)
qed

lemma sv_inv_stored:
  assumes "sv_inv rows ok cfg H P items s" and "ok s'" and "rows s' = rows (sv_store s)"
  shows "sv_inv rows ok cfg H P items (s\<lparr> sv_store := s' \<rparr>)"
  using assms by (simp add: sv_inv_def sched_ok_def)

lemma sv_inv_void:
  assumes "sv_inv rows ok cfg H P ((k, e, x) # items) s" and "\<nexists>r. map_of (sv_live s) k = Some (r, e)"
  shows "sv_inv rows ok cfg H P items s"
  using assms sched_void [OF _ assms(2)] by (auto simp: sv_inv_def)

lemma live_simps [simp]:
  "live_row (insert_index cfg r s) k = (if k = row_key r then Some r else live_row s k)"
  "live_row (s\<lparr> sv_store := s', sv_live := AList.delete k' (sv_live s) \<rparr>) k = (if k = k' then None else live_row s k)"
  "live_row (s\<lparr> sv_store := s' \<rparr>) k = live_row s k"
  "sv_store (insert_index cfg r s) = sv_store s"
  by (simp_all add: live_row_def insert_index_def update_map)

section \<open>Progress of a reminder\<close>

text \<open>The row of a reminder after \<open>n\<close> occurrences, and whether an occurrence has fired.\<close>

definition occurrence :: "reminder_row \<Rightarrow> nat \<Rightarrow> reminder_row" where
  "occurrence r n = r\<lparr> rw_due := rw_due r + int n * rw_period r \<rparr>"

definition has_fired :: "reminder_row \<Rightarrow> nat \<Rightarrow> fire_event list \<Rightarrow> bool" where
  "has_fired r n evs \<longleftrightarrow> (\<exists>ev \<in> set evs. ev = fire_of (fv_fired_at ev) (row_key r) (occurrence r n))"

text \<open>
  At least once: what is stored is the occurrence after those that fired, or nothing, when the reminder was for one
  time and has fired.
\<close>

definition progress :: "reminder_row \<Rightarrow> fire_event list \<Rightarrow> reminder_row option \<Rightarrow> bool" where
  "progress r evs x \<longleftrightarrow>
     (\<exists>n. x = Some (occurrence r n) \<and> (\<forall>i<n. has_fired r i evs) \<and> (n = 0 \<or> 0 < rw_period r)) \<or>
     x = None \<and> rw_period r \<le> 0 \<and> has_fired r 0 evs"

lemma occurrence_simps [simp]: "occurrence r 0 = r" "row_key (occurrence r n) = row_key r" "rw_period (occurrence r n) = rw_period r"
  "(occurrence r n)\<lparr> rw_due := rw_due (occurrence r n) + rw_period r \<rparr> = occurrence r (Suc n)"
  by (simp_all add: occurrence_def row_key_def algebra_simps)

lemma fire_of_fields [simp]: "fv_fired_at (fire_of now k r) = now"
  by (simp add: fire_of_def)

lemma has_fired_mono: "has_fired r n evs \<Longrightarrow> set evs \<subseteq> set evs' \<Longrightarrow> has_fired r n evs'"
  by (auto simp: has_fired_def)

lemma progress_mono: "progress r evs x \<Longrightarrow> set evs \<subseteq> set evs' \<Longrightarrow> progress r evs' x"
  unfolding progress_def by (blast intro: has_fired_mono)

lemma progress_start: "progress r [] (Some r)"
  unfolding progress_def by (intro disjI1 exI [of _ 0]) simp

lemma progress_fired:
  assumes p: "progress r evs (Some row)" and k: "k = row_key r"
  shows "rw_period row = rw_period r" and "0 < rw_period r \<Longrightarrow> progress r (evs @ [fire_of now k row]) (Some (row\<lparr> rw_due := rw_due row + rw_period row \<rparr>))"
    and "rw_period r \<le> 0 \<Longrightarrow> progress r (evs @ [fire_of now k row]) None"
proof -
  obtain n where n: "row = occurrence r n" "\<forall>i<n. has_fired r i evs" "n = 0 \<or> 0 < rw_period r"
    using p by (auto simp: progress_def)
  let ?evs = "evs @ [fire_of now k row]"
  have now: "has_fired r n ?evs" by (auto simp: has_fired_def n(1) k)
  have all: "\<forall>i<Suc n. has_fired r i ?evs" using n(2) now by (auto simp: less_Suc_eq intro: has_fired_mono)
  show "rw_period row = rw_period r" by (simp add: n(1))
  show "progress r ?evs (Some (row\<lparr> rw_due := rw_due row + rw_period row \<rparr>))" if "0 < rw_period r"
    unfolding progress_def using all that n(1) by (intro disjI1 exI [of _ "Suc n"]) simp
  show "progress r ?evs None" if "rw_period r \<le> 0" using n(3) now that by (auto simp: progress_def)
qed

section \<open>Every operation keeps the invariant and the progress\<close>

text \<open>A row that is ready can be put off by its period without overflow.\<close>

lemma next_row_ok:
  assumes t: "time_fits cfg H P" and r: "row_fits P r" "0 < rw_period r" "due_bucket cfg (rw_due r) \<le> due_bucket cfg H"
  shows "row_fits P (r\<lparr> rw_due := rw_due r + rw_period r \<rparr>)"
proof -
  have "rw_due r < H + cf_bucket_ns cfg" using t r(3) by (intro due_bound) (auto simp: time_fits_def due_bucket_def)
  then show ?thesis using t r by (auto simp: time_fits_def row_fits_def row_ok_def int64_def)
qed

text \<open>The store and the live map agree on a row: neither a failing cancellation nor anything else has parted them.\<close>

definition agree :: "('s \<Rightarrow> reminder_key \<Rightarrow> reminder_row option) \<Rightarrow> reminder_key \<Rightarrow> ('s, 't) reminder_service \<Rightarrow> bool" where
  "agree rows k s \<longleftrightarrow> rows (sv_store s) k = live_row s k"

lemma agree_cong: "sv_store t = sv_store s \<Longrightarrow> sv_live t = sv_live s \<Longrightarrow> agree rows k t = agree rows k s"
  by (simp add: agree_def live_row_def)

context reminder_store
begin

lemma remind_inv:
  assumes "sv_inv rows ok cfg H P items s" and "row_fits P r" and "remind_at st cfg r s = (x, t)"
  shows "sv_inv rows ok cfg H P items t" and "x \<noteq> Inr () \<Longrightarrow> live_row t = live_row s \<and> rows (sv_store t) = rows (sv_store s)"
    and "x = Inr () \<Longrightarrow> live_row t = (live_row s)(row_key r \<mapsto> r) \<and> rows (sv_store t) = (rows (sv_store s))(row_key r \<mapsto> r)"
    and "sv_epoch s \<le> sv_epoch t" and "sv_ready t = sv_ready s"
    and "map_of (sv_live t) k = Some (r', e) \<Longrightarrow> e \<le> sv_epoch s \<Longrightarrow> map_of (sv_live s) k = Some (r', e)"
proof -
  obtain y s' where p: "ro_put st r (sv_store s) = (y, s')" by fastforce
  have o: "ok (sv_store s)" "row_ok r" using assms(1,2) by (simp_all add: sv_inv_def row_fits_def)
  note law = put_law [OF o p]
  have t: "t = (if y = Inr () then insert_index cfg r (s\<lparr> sv_store := s' \<rparr>) else s\<lparr> sv_store := s' \<rparr>)" "x = y"
    using assms(3) p by (auto simp: remind_at_def split: sum.splits)
  show "sv_inv rows ok cfg H P items t"
    using sv_inv_reindex [OF assms(1,2), where s' = s'] sv_inv_stored [OF assms(1), where s' = s'] law by (simp add: t)
  show "x \<noteq> Inr () \<Longrightarrow> live_row t = live_row s \<and> rows (sv_store t) = rows (sv_store s)" using law by (auto simp: t)
  show "x = Inr () \<Longrightarrow> live_row t = (live_row s)(row_key r \<mapsto> r) \<and> rows (sv_store t) = (rows (sv_store s))(row_key r \<mapsto> r)"
    using law by (auto simp: t)
  show "sv_epoch s \<le> sv_epoch t" "sv_ready t = sv_ready s" by (simp_all add: t insert_index_def)
  show "map_of (sv_live s) k = Some (r', e)" if "map_of (sv_live t) k = Some (r', e)" "e \<le> sv_epoch s"
    using that by (auto simp: t insert_index_def update_map split: if_splits)
qed

lemma cancel_inv:
  assumes "sv_inv rows ok cfg H P items s" and "sv_cancel st k s = (x, t)"
  shows "sv_inv rows ok cfg H P items t" and "k' \<noteq> k \<Longrightarrow> live_row t k' = live_row s k' \<and> rows (sv_store t) k' = rows (sv_store s) k'"
    and "sv_epoch t = sv_epoch s" and "sv_ready t = sv_ready s"
    and "map_of (sv_live t) k' = Some (r', e) \<Longrightarrow> map_of (sv_live s) k' = Some (r', e)"
proof -
  obtain y s' where p: "ro_remove st k (sv_store s) = (y, s')" by fastforce
  have o: "ok (sv_store s)" using assms(1) by (simp add: sv_inv_def)
  note law = remove_law [OF o p]
  have t: "t = s\<lparr> sv_store := s', sv_live := AList.delete k (sv_live s) \<rparr>" using assms(2) p by (simp add: sv_cancel_def)
  show "sv_inv rows ok cfg H P items t" unfolding t by (rule sv_inv_unlist [OF assms(1)]) (use law in \<open>auto split: if_splits\<close>)
  show "k' \<noteq> k \<Longrightarrow> live_row t k' = live_row s k' \<and> rows (sv_store t) k' = rows (sv_store s) k'" using law by (auto simp: t)
  show "sv_epoch t = sv_epoch s" "sv_ready t = sv_ready s" by (simp_all add: t)
  show "map_of (sv_live s) k' = Some (r', e)" if "map_of (sv_live t) k' = Some (r', e)"
    using that by (auto simp: t update_map split: if_splits)
qed

lemma handler_step_inv:
  assumes "sv_inv rows ok cfg H P items s" and "call_fits P c"
  shows "sv_inv rows ok cfg H P items (handler_step st cfg c s)"
    and "k \<noteq> call_key c \<Longrightarrow> live_row (handler_step st cfg c s) k = live_row s k \<and> rows (sv_store (handler_step st cfg c s)) k = rows (sv_store s) k"
    and "sv_epoch s \<le> sv_epoch (handler_step st cfg c s)" and "sv_ready (handler_step st cfg c s) = sv_ready s"
    and "map_of (sv_live (handler_step st cfg c s)) k = Some (r', e) \<Longrightarrow> e \<le> sv_epoch s \<Longrightarrow> map_of (sv_live s) k = Some (r', e)"
proof -
  have "sv_inv rows ok cfg H P items (handler_step st cfg c s) \<and>
     (k \<noteq> call_key c \<longrightarrow> live_row (handler_step st cfg c s) k = live_row s k \<and> rows (sv_store (handler_step st cfg c s)) k = rows (sv_store s) k) \<and>
     sv_epoch s \<le> sv_epoch (handler_step st cfg c s) \<and> sv_ready (handler_step st cfg c s) = sv_ready s \<and>
     (map_of (sv_live (handler_step st cfg c s)) k = Some (r', e) \<longrightarrow> e \<le> sv_epoch s \<longrightarrow> map_of (sv_live s) k = Some (r', e))"
  proof (cases c)
    case (HRemind r)
    obtain x t where p: "remind_at st cfg r s = (x, t)" by fastforce
    have f: "row_fits P r" using assms(2) by (simp add: HRemind call_fits_def)
    note i = remind_inv [OF assms(1) f p]
    have "live_row t k = live_row s k \<and> rows (sv_store t) k = rows (sv_store s) k" if "k \<noteq> row_key r"
      using i(2,3) that by (cases "x = Inr ()") auto
    then show ?thesis using i(1,4,5) i(6) [of k r' e] by (simp add: HRemind handler_step_def p call_key_def)
  next
    case (HCancel k1)
    obtain x t where p: "sv_cancel st k1 s = (x, t)" by fastforce
    note i = cancel_inv [OF assms(1) p]
    show ?thesis using i(1,3,4) i(2) [of k] i(5) [of k r' e] by (simp add: HCancel handler_step_def p call_key_def)
  qed
  then show "sv_inv rows ok cfg H P items (handler_step st cfg c s)"
    "k \<noteq> call_key c \<Longrightarrow> live_row (handler_step st cfg c s) k = live_row s k \<and> rows (sv_store (handler_step st cfg c s)) k = rows (sv_store s) k"
    "sv_epoch s \<le> sv_epoch (handler_step st cfg c s)" "sv_ready (handler_step st cfg c s) = sv_ready s"
    "map_of (sv_live (handler_step st cfg c s)) k = Some (r', e) \<Longrightarrow> e \<le> sv_epoch s \<Longrightarrow> map_of (sv_live s) k = Some (r', e)"
    by blast+
qed

lemma handler_inv:
  assumes "sv_inv rows ok cfg H P items s" and "list_all (call_fits P) cs"
  shows "sv_inv rows ok cfg H P items (fold (handler_step st cfg) cs s) \<and>
    (list_all (\<lambda>c. call_key c \<noteq> k) cs \<longrightarrow> live_row (fold (handler_step st cfg) cs s) k = live_row s k \<and>
       rows (sv_store (fold (handler_step st cfg) cs s)) k = rows (sv_store s) k) \<and>
    sv_epoch s \<le> sv_epoch (fold (handler_step st cfg) cs s) \<and> sv_ready (fold (handler_step st cfg) cs s) = sv_ready s \<and>
    (map_of (sv_live (fold (handler_step st cfg) cs s)) k1 = Some (r', e) \<longrightarrow> e \<le> sv_epoch s \<longrightarrow> map_of (sv_live s) k1 = Some (r', e))"
  using assms
proof (induction cs arbitrary: s)
  case (Cons c cs)
  have c: "call_fits P c" and cs: "list_all (call_fits P) cs" using Cons.prems(2) by simp_all
  note i = handler_step_inv [OF Cons.prems(1) c]
  note ih = Cons.IH [OF i(1) cs]
  show ?case
    unfolding fold_simps using ih i(2) [of k] i(3,4) i(5) [of k1 r' e] by (intro conjI impI) auto
qed simp

end

lemma ready_simp: "sv_ready (insert_index cfg r s) = sv_ready s" "sv_epoch (insert_index cfg r s) = sv_epoch s + 1"
  by (simp_all add: insert_index_def)

context reminder_store
begin

lemma confirm_inv:
  assumes i: "sv_inv rows ok cfg H P ((k, e, x) # items) s" and t: "time_fits cfg H P" and r: "row_fits P row" "row_key row = k"
    and l: "\<forall>r'. map_of (sv_live s) k = Some (r', e) \<longrightarrow> r' = row"
  shows "sv_inv rows ok cfg H P items (confirm st cfg k e row s)" and "sv_ready (confirm st cfg k e row s) = sv_ready s"
    and "k' \<noteq> k \<Longrightarrow> live_row (confirm st cfg k e row s) k' = live_row s k' \<and> rows (sv_store (confirm st cfg k e row s)) k' = rows (sv_store s) k'"
    and "agree rows k s \<Longrightarrow> agree rows k (confirm st cfg k e row s) \<and>
      (live_row (confirm st cfg k e row s) k = live_row s k \<or>
       live_row (confirm st cfg k e row s) k = (if 0 < rw_period row then Some (row\<lparr> rw_due := rw_due row + rw_period row \<rparr>) else None))"
proof -
  let ?t = "confirm st cfg k e row s"
  have goal: "sv_inv rows ok cfg H P items ?t \<and> sv_ready ?t = sv_ready s \<and>
     (k' \<noteq> k \<longrightarrow> live_row ?t k' = live_row s k' \<and> rows (sv_store ?t) k' = rows (sv_store s) k') \<and>
     (agree rows k s \<longrightarrow> agree rows k ?t \<and>
       (live_row ?t k = live_row s k \<or>
        live_row ?t k = (if 0 < rw_period row then Some (row\<lparr> rw_due := rw_due row + rw_period row \<rparr>) else None)))"
  proof (cases "map_of (sv_live s) k = Some (row, e)")
    case False
    then have v: "\<nexists>r'. map_of (sv_live s) k = Some (r', e)" using l by blast
    then have "?t = s" by (auto simp: confirm_def split: option.splits)
    then show ?thesis using sv_inv_void [OF i v] by simp
  next
    case True
    have o: "ok (sv_store s)" using i by (simp add: sv_inv_def)
    have e: "e \<le> sv_epoch s" by (rule sv_inv_live(3) [OF i True])
    have lr: "live_row s k = Some row" and rs: "rows (sv_store s) k = Some row"
      using True sv_inv_live(4) [OF i True] by (simp_all add: live_row_def)
    have same: "(rows (sv_store s))(k \<mapsto> row) = rows (sv_store s)" using rs by auto
    text \<open>The row is indexed again, under a fresh epoch.\<close>
    have re: "sv_inv rows ok cfg H P items (insert_index cfg q (s\<lparr> sv_store := s' \<rparr>))"
      if "row_fits P q" "row_key q = k" "ok s'" "rows s' = (rows (sv_store s))(k \<mapsto> q)" for q s'
    proof (rule sv_inv_void)
      show "sv_inv rows ok cfg H P ((k, e, x) # items) (insert_index cfg q (s\<lparr> sv_store := s' \<rparr>))"
        using that by (intro sv_inv_reindex [OF i]) simp_all
      show "\<nexists>r. map_of (sv_live (insert_index cfg q (s\<lparr> sv_store := s' \<rparr>))) k = Some (r, e)"
        using e that(2) by (simp add: insert_index_def update_map)
    qed
    show ?thesis
    proof (cases "0 < rw_period row")
      case per: True
      let ?q = "row\<lparr> rw_due := rw_due row + rw_period row \<rparr>"
      have q: "row_fits P ?q" "row_key ?q = k"
        using next_row_ok [OF t r(1) per sv_inv_ready [OF i True]] r(2) by (simp_all add: row_key_def)
      obtain y s' where p: "ro_put st ?q (sv_store s) = (y, s')" by fastforce
      have law: "ok s' \<and> rows s' = (if y = Inr () then (rows (sv_store s))(k \<mapsto> ?q) else rows (sv_store s))"
        using put_law [OF o _ p] q by (simp add: row_fits_def)
      show ?thesis
      proof (cases y)
        case (Inl er)
        then have t': "?t = insert_index cfg row (s\<lparr> sv_store := s' \<rparr>)" using True per p by (simp add: confirm_def)
        have "sv_inv rows ok cfg H P items ?t" unfolding t' using law Inl same by (intro re [OF r]) simp_all
        then show ?thesis using law Inl r(2) lr rs by (auto simp: t' agree_def ready_simp)
      next
        case (Inr u)
        then have t': "?t = insert_index cfg ?q (s\<lparr> sv_store := s' \<rparr>)" using True per p by (simp add: confirm_def)
        have "sv_inv rows ok cfg H P items ?t" unfolding t' using law Inr by (intro re [OF q]) simp_all
        then show ?thesis using law Inr q(2) lr rs per by (auto simp: t' agree_def ready_simp)
      qed
    next
      case per: False
      obtain y s' where p: "ro_remove st k (sv_store s) = (y, s')" by fastforce
      note law = remove_law [OF o p]
      show ?thesis
      proof (cases y)
        case (Inl er)
        then have t': "?t = insert_index cfg row (s\<lparr> sv_store := s' \<rparr>)" using True per p by (simp add: confirm_def)
        have "sv_inv rows ok cfg H P items ?t" unfolding t' using law Inl same by (intro re [OF r]) simp_all
        then show ?thesis using law Inl r(2) lr rs by (auto simp: t' agree_def ready_simp)
      next
        case (Inr u)
        then have t': "?t = s\<lparr> sv_store := s', sv_live := AList.delete k (sv_live s) \<rparr>" using True per p by (simp add: confirm_def)
        have "sv_inv rows ok cfg H P ((k, e, x) # items) ?t" unfolding t' using law Inr by (intro sv_inv_unlist [OF i]) simp_all
        then have "sv_inv rows ok cfg H P items ?t" by (rule sv_inv_void) (simp add: t' update_map)
        then show ?thesis using law Inr lr rs per by (auto simp: t' agree_def)
      qed
    qed
  qed
  from goal show "sv_inv rows ok cfg H P items ?t" "sv_ready ?t = sv_ready s"
    "k' \<noteq> k \<Longrightarrow> live_row ?t k' = live_row s k' \<and> rows (sv_store ?t) k' = rows (sv_store s) k'"
    "agree rows k s \<Longrightarrow> agree rows k ?t \<and> (live_row ?t k = live_row s k \<or>
       live_row ?t k = (if 0 < rw_period row then Some (row\<lparr> rw_due := rw_due row + rw_period row \<rparr>) else None))" by blast+
qed

end

text \<open>A change of the counters or the tokens is no change.\<close>

lemma counters_same:
  "sv_inv rows ok cfg H P items (s\<lparr> sv_fired := n \<rparr>) = sv_inv rows ok cfg H P items s" "live_row (s\<lparr> sv_fired := n \<rparr>) = live_row s"
  "sv_inv rows ok cfg H P items (s\<lparr> sv_tokens := tk \<rparr>) = sv_inv rows ok cfg H P items s" "live_row (s\<lparr> sv_tokens := tk \<rparr>) = live_row s"
  "sv_inv rows ok cfg H P items (s\<lparr> sv_last_tick := d \<rparr>) = sv_inv rows ok cfg H P items s" "live_row (s\<lparr> sv_last_tick := d \<rparr>) = live_row s"
  "sv_inv rows ok cfg H P items (s\<lparr> sv_ready := q \<rparr>) = sv_inv rows ok cfg H P items s" "live_row (s\<lparr> sv_ready := q \<rparr>) = live_row s"
  by (simp_all add: sv_inv_def sched_ok_def live_row_def fun_eq_iff)

text \<open>A reminder is followed: the store and the live map agree on its row, which is as the fired events say.\<close>

definition follows ::
  "('s \<Rightarrow> reminder_key \<Rightarrow> reminder_row option) \<Rightarrow> reminder_row \<Rightarrow> fire_event list \<Rightarrow> ('s, 't) reminder_service \<Rightarrow> bool" where
  "follows rows r evs s \<longleftrightarrow> agree rows (row_key r) s \<and> progress r evs (live_row s (row_key r))"

lemma follows_cong:
  assumes "rows (sv_store t) (row_key r) = rows (sv_store s) (row_key r)" and "live_row t (row_key r) = live_row s (row_key r)"
  shows "follows rows r evs t = follows rows r evs s"
  using assms by (simp add: follows_def agree_def)

lemma follows_mono: "follows rows r evs s \<Longrightarrow> set evs \<subseteq> set evs' \<Longrightarrow> follows rows r evs' s"
  by (auto simp: follows_def intro: progress_mono)

context reminder_store
begin

lemma fire_item_inv:
  assumes i: "sv_inv rows ok cfg H P ((k, e, x) # items) s" and t: "time_fits cfg H P" and h: "handler_fits P handler"
    and l: "map_of (sv_live s) k = Some (row, e)"
  shows "sv_inv rows ok cfg H P items (fire_item st tm cfg handler now k e row s)"
    and "sv_ready (fire_item st tm cfg handler now k e row s) = sv_ready s"
    and "handler_spares (row_key r) handler \<Longrightarrow> follows rows r evs s \<Longrightarrow>
      follows rows r (evs @ [fire_of now k row]) (fire_item st tm cfg handler now k e row s)"
proof -
  define s1 where "s1 = fold (handler_step st cfg) (handler (fire_of now k row)) s"
  define s2 where "s2 = s1\<lparr> sv_fired := sv_fired s1 + 1 \<rparr>"
  define s3 where "s3 = confirm st cfg k e row s2"
  let ?t = "fire_item st tm cfg handler now k e row s"
  have t': "?t = (if cf_fire_rate cfg \<noteq> 0 then s3\<lparr> sv_tokens := tm_spend tm (sv_tokens s3) \<rparr> else s3)"
    by (simp add: fire_item_def s1_def s2_def s3_def Let_def)
  have c: "list_all (call_fits P) (handler (fire_of now k row))" using h by (simp add: handler_fits_def)
  note hi = handler_inv [OF i c, folded s1_def]
  note row = sv_inv_live [OF i l]
  have i2: "sv_inv rows ok cfg H P ((k, e, x) # items) s2" using hi by (simp add: s2_def counters_same)
  have l2: "\<forall>r'. map_of (sv_live s2) k = Some (r', e) \<longrightarrow> r' = row"
    using hi [where ?k1.0 = k and e = e] row(3) l by (simp add: s2_def)
  note ci = confirm_inv [OF i2 t row(2,1) l2]
  show "sv_inv rows ok cfg H P items ?t" using ci(1) by (simp add: t' s3_def counters_same)
  show "sv_ready ?t = sv_ready s" using ci(2) hi by (simp add: t' s3_def s2_def)
  show "follows rows r (evs @ [fire_of now k row]) ?t" if hs: "handler_spares (row_key r) handler" and tr: "follows rows r evs s"
  proof -
    have cs: "list_all (\<lambda>c. call_key c \<noteq> row_key r) (handler (fire_of now k row))" using hs by (simp add: handler_spares_def)
    have tr2: "follows rows r evs s2"
      using tr hi [where k = "row_key r"] cs by (simp add: s2_def follows_def agree_def counters_same)
    have "follows rows r (evs @ [fire_of now k row]) s3"
    proof (cases "k = row_key r")
      case False
      then have "follows rows r evs s3" using ci(3) [of "row_key r"] tr2 by (simp add: s3_def follows_def agree_def)
      then show ?thesis by (rule follows_mono) auto
    next
      case True
      have "live_row s2 k = live_row s k" using hi [where k = "row_key r"] cs True by (simp add: s2_def counters_same)
      then have lr: "live_row s2 k = Some row" using l by (simp add: live_row_def)
      then have p: "progress r evs (Some row)" using tr2 True by (simp add: follows_def)
      note pf = progress_fired [OF p True]
      have a: "agree rows k s2" using tr2 True by (simp add: follows_def)
      have "progress r (evs @ [fire_of now k row]) (Some row)" by (rule progress_mono [OF p]) auto
      then show ?thesis using ci(4) [OF a, folded s3_def] pf lr True by (cases "0 < rw_period r") (auto simp: follows_def)
    qed
    then show ?thesis by (simp add: t' follows_def agree_def counters_same)
  qed
qed

lemma drain_inv:
  assumes "sv_inv rows ok cfg H P items s" and t: "time_fits cfg H P" and h: "handler_fits P handler"
    and "drain_ready st tm cfg handler now items budget s = (evs, d, s')"
  shows "sv_inv rows ok cfg H P (drop d items) s' \<and> sv_ready s' = sv_ready s \<and>
    (handler_spares (row_key r) handler \<longrightarrow> follows rows r evs0 s \<longrightarrow> follows rows r (evs0 @ evs) s')"
  using assms(1,4)
proof (induction items arbitrary: budget s evs d s' evs0)
  case (Cons it items)
  obtain k e x where it: "it = (k, e, x)" by (cases it)
  note i = Cons.prems(1) [unfolded it] and d = Cons.prems(2) [unfolded it]
  show ?case
  proof (cases "budget = 0")
    case True
    then show ?thesis using d i by (auto simp: it)
  next
    case b: False
    show ?thesis
    proof (cases "\<exists>row. map_of (sv_live s) k = Some (row, e)")
      case True
      then obtain row where l: "map_of (sv_live s) k = Some (row, e)" by blast
      define s1 where "s1 = fire_item st tm cfg handler now k e row s"
      obtain evs1 d1 where p: "drain_ready st tm cfg handler now items (budget - 1) s1 = (evs1, d1, s')"
        and ev: "evs = fire_of now k row # evs1" "d = d1 + 1"
        using d b l by (auto simp: s1_def split: prod.splits)
      note f = fire_item_inv [OF i t h l, where tm = tm and now = now, folded s1_def]
      note ih = Cons.IH [OF f(1) p]
      have "follows rows r (evs0 @ evs) s'" if hs: "handler_spares (row_key r) handler" and tr: "follows rows r evs0 s"
        using ih [of "evs0 @ [fire_of now k row]"] f(3) [OF hs tr] hs by (simp add: ev)
      then show ?thesis using ih f(2) by (simp add: ev it)
    next
      case False
      then have v: "\<nexists>r. map_of (sv_live s) k = Some (r, e)" by blast
      obtain d1 where p: "drain_ready st tm cfg handler now items budget s = (evs, d1, s')" and ev: "d = d1 + 1"
        using d b v by (cases "map_of (sv_live s) k") (auto split: prod.splits if_splits)
      show ?thesis using Cons.IH [OF sv_inv_void [OF i v] p] by (simp add: ev it)
    qed
  qed
qed simp

end

section \<open>Ticks and restarts\<close>

lemma pull_ready_inv:
  assumes "sv_inv rows ok cfg H P (sv_ready s) s" and t: "0 < cf_bucket_ns cfg" and now: "now \<le> H"
  shows "sv_inv rows ok cfg H P (sv_ready (pull_ready cfg now s)) (pull_ready cfg now s)"
    and "sv_store (pull_ready cfg now s) = sv_store s" and "live_row (pull_ready cfg now s) = live_row s"
proof -
  let ?t = "pull_ready cfg now s"
  obtain items left where p: "pull_due (due_bucket cfg now) (sv_index s) = (items, left)" by fastforce
  note f = pull_due_facts [OF p]
  have t': "sv_index ?t = left" "sv_store ?t = sv_store s" "sv_live ?t = sv_live s" "sv_epoch ?t = sv_epoch s"
    by (simp_all add: pull_ready_def p Let_def)
  have rd: "ready_set (sv_ready ?t) = ready_set (sv_ready s) \<union> ready_set items"
    by (simp add: pull_ready_def p Let_def ready_set_def image_Un)
  have b: "due_bucket cfg now \<le> due_bucket cfg H" unfolding due_bucket_def by (rule sdiv_mono [OF t now])
  have o: "sched_ok cfg H P (sv_ready s) s" using assms(1) by (simp add: sv_inv_def)
  then have srt: "sorted_wrt (<) (map fst (sv_index s))"
    and rel: "sched_rel cfg H P (map_of (sv_live s)) (index_set (sv_index s)) (ready_set (sv_ready s)) (sv_epoch s)"
    by (simp_all add: sched_ok_def)
  have r1: "(k, e) \<in> ready_set items" if "(k, e, x) \<in> set items" for k e x
    using that by (force simp: ready_set_def)
  have "sched_rel cfg H P (map_of (sv_live ?t)) (index_set left) (ready_set (sv_ready ?t)) (sv_epoch ?t)"
    unfolding rd t'(3,4)
  proof (rule sched_rel_mono [OF rel])
    show "index_set left \<subseteq> index_set (sv_index s)" by (rule f(2))
    show "(k, e) \<in> ready_set (sv_ready s) \<or> (\<exists>b \<le> due_bucket cfg H. (b, k, e) \<in> index_set (sv_index s))"
      if "(k, e) \<in> ready_set (sv_ready s) \<union> ready_set items" for k e
    proof (cases "(k, e) \<in> ready_set (sv_ready s)")
      case False
      then have "(k, e) \<in> ready_set items" using that by blast
      then obtain x where "(k, e, x) \<in> set items" by (auto simp: ready_set_def)
      then show ?thesis using f(1) b order_trans by blast
    qed simp
    show "(due_bucket cfg (rw_due r), k, e) \<in> index_set left \<or> (k, e) \<in> ready_set (sv_ready s) \<union> ready_set items"
      if "(due_bucket cfg (rw_due r), k, e) \<in> index_set (sv_index s) \<or> (k, e) \<in> ready_set (sv_ready s)" for k r e
      using that f(4) [OF srt] r1 by blast
  qed simp
  then have "sched_ok cfg H P (sv_ready ?t) ?t" using f(3) [OF srt] by (simp add: sched_ok_def t')
  then show "sv_inv rows ok cfg H P (sv_ready ?t) ?t" using assms(1) by (simp add: sv_inv_def t')
  show "sv_store ?t = sv_store s" "live_row ?t = live_row s" by (simp_all add: t' live_row_def fun_eq_iff)
qed

lemma budget_same:
  assumes "tick_budget tm cfg now s = (b, t)"
  shows "sv_inv rows ok cfg H P items t = sv_inv rows ok cfg H P items s" and "live_row t = live_row s" and "sv_store t = sv_store s"
    and "sv_ready t = sv_ready s"
proof -
  have "sv_store t = sv_store s \<and> sv_index t = sv_index s \<and> sv_live t = sv_live s \<and> sv_epoch t = sv_epoch s \<and> sv_ready t = sv_ready s"
    using assms by (auto simp: tick_budget_def Let_def split: if_splits prod.splits)
  then show "sv_inv rows ok cfg H P items t = sv_inv rows ok cfg H P items s" "live_row t = live_row s" "sv_store t = sv_store s"
    "sv_ready t = sv_ready s" using sv_inv_cong [of t s] by (auto simp: live_row_def fun_eq_iff)
qed

text \<open>The index is built from the rows of the store.\<close>

lemma fold_insert:
  assumes "sched_ok cfg H P items s" and "list_all (row_fits P) l" and "distinct (map row_key l)"
  shows "sched_ok cfg H P items (fold (insert_index cfg) l s) \<and> sv_store (fold (insert_index cfg) l s) = sv_store s \<and>
    sv_ready (fold (insert_index cfg) l s) = sv_ready s \<and>
    live_row (fold (insert_index cfg) l s) k = (case map_of (map (\<lambda>r. (row_key r, r)) l) k of None \<Rightarrow> live_row s k | Some r \<Rightarrow> Some r)"
  using assms
proof (induction l arbitrary: s)
  case (Cons r l)
  have "sched_ok cfg H P items (insert_index cfg r s)" using Cons.prems by (intro sched_insert) (simp_all add: row_fits_def)
  note ih = Cons.IH [OF this]
  have "map_of (map (\<lambda>r. (row_key r, r)) l) (row_key r) = None" using Cons.prems(3) by (auto simp: map_of_eq_None_iff)
  then show ?case using ih Cons.prems(2,3) by (auto simp: ready_simp split: option.splits)
qed simp

context reminder_store
begin

lemma open_inv:
  assumes o: "ok (sv_store s0)" and P: "\<forall>k r. rows (sv_store s0) k = Some r \<longrightarrow> rw_period r \<le> P"
  shows "sv_inv rows ok cfg H P (sv_ready (sv_open st cfg s0)) (sv_open st cfg s0)" and "agree rows k (sv_open st cfg s0)"
    and "sv_store (sv_open st cfg s0) = sv_store s0"
proof -
  define s where "s = s0\<lparr> sv_index := [], sv_live := [], sv_ready := [] \<rparr>"
  obtain l where l: "ro_load st (sv_store s0) = Inr l" "map_of (map (\<lambda>r. (row_key r, r)) l) = rows (sv_store s0)" "distinct (map row_key l)"
    using load_law [OF o] by blast
  let ?u = "fold (insert_index cfg) l s" let ?t = "sv_open st cfg s0"
  have t: "?t = ?u\<lparr> sv_replayed := length l \<rparr>" by (simp add: sv_open_def Let_def s_def l(1))
  have "row_fits P r" if "r \<in> set l" for r
  proof -
    have "map_of (map (\<lambda>r. (row_key r, r)) l) (row_key r) = Some r" using that l(3) by (intro map_of_is_SomeI) (auto simp: o_def)
    then show ?thesis using rows_fit [OF o] P l(2) by (auto simp: row_fits_def)
  qed
  then have fits: "list_all (row_fits P) l" by (simp add: list_all_iff)
  have "sched_ok cfg H P [] s" by (simp add: sched_ok_def sched_rel_def s_def)
  note f = fold_insert [OF this fits l(3)]
  have e: "sv_store ?u = sv_store s0" "sv_ready ?u = []" "sched_ok cfg H P [] ?u" using f by (simp_all add: s_def)
  have lr: "live_row ?u k' = rows (sv_store s0) k'" for k'
    using f [of k'] by (simp add: l(2) s_def live_row_def split: option.splits)
  show "sv_store ?t = sv_store s0" by (simp add: t e)
  show "agree rows k ?t" using lr by (simp add: agree_def t e live_row_def)
  have "rows (sv_store s0) k' = Some r" if "map_of (sv_live ?u) k' = Some (r, x)" for k' r x
    using that lr [of k'] by (simp add: live_row_def)
  then show "sv_inv rows ok cfg H P (sv_ready ?t) ?t" using e o P by (simp add: sv_inv_def t sched_ok_def)
qed

lemma svc_restart_inv:
  assumes "sv_inv rows ok cfg H P items s"
  shows "sv_inv rows ok cfg H P (sv_ready (sv_restart st cfg tk s)) (sv_restart st cfg tk s)"
    and "follows rows r evs s \<Longrightarrow> follows rows r evs (sv_restart st cfg tk s)"
proof -
  let ?c = "sv_create (ro_reopen st (sv_store s)) tk"
  have o: "ok (sv_store ?c)" "rows (sv_store ?c) = rows (sv_store s)"
    using assms reopen_law [of "sv_store s"] by (simp_all add: sv_inv_def sv_create_def)
  have P: "\<forall>k r. rows (sv_store ?c) k = Some r \<longrightarrow> rw_period r \<le> P" using assms by (simp add: o(2) sv_inv_def)
  note i = open_inv [OF o(1) P, where cfg = cfg]
  show "sv_inv rows ok cfg H P (sv_ready (sv_restart st cfg tk s)) (sv_restart st cfg tk s)" using i(1) by (simp add: sv_restart_def)
  show "follows rows r evs (sv_restart st cfg tk s)" if "follows rows r evs s"
    using that i(2) [of "row_key r"] i(3) o(2) by (simp add: follows_def agree_def sv_restart_def)
qed

end

context reminder_store
begin

lemma drain_due_inv:
  assumes i: "sv_inv rows ok cfg H P (sv_ready s) s" and t: "time_fits cfg H P" and h: "handler_fits P handler" and now: "now \<le> H"
    and d: "drain_due st tm cfg handler now most s = (evs, s')"
  shows "sv_inv rows ok cfg H P (sv_ready s') s'" and "handler_spares (row_key r) handler \<Longrightarrow> follows rows r evs0 s \<Longrightarrow> follows rows r (evs0 @ evs) s'"
proof -
  obtain budget s1 where b: "tick_budget tm cfg now (pull_ready cfg now s) = (budget, s1)" by fastforce
  define limit where "limit = (case most of None \<Rightarrow> budget | Some n \<Rightarrow> min n budget)"
  obtain n s2 where dr: "drain_ready st tm cfg handler now (sv_ready s1) limit s1 = (evs, n, s2)" and s': "s' = s2\<lparr> sv_ready := drop n (sv_ready s2) \<rparr>"
    using d by (auto simp: drain_due_def b limit_def Let_def split: prod.splits)
  have p: "0 < cf_bucket_ns cfg" using t by (simp add: time_fits_def)
  note pr = pull_ready_inv [OF i p now] and bs = budget_same [OF b]
  have i1: "sv_inv rows ok cfg H P (sv_ready s1) s1" using pr(1) bs(1,4) by simp
  note di = drain_inv [OF i1 t h dr]
  show "sv_inv rows ok cfg H P (sv_ready s') s'" using di by (simp add: s' counters_same)
  show "follows rows r (evs0 @ evs) s'" if "handler_spares (row_key r) handler" and "follows rows r evs0 s"
  proof -
    have "follows rows r evs0 s1" using that(2) pr(2,3) bs(2,3) by (simp add: follows_def agree_def)
    then have "follows rows r (evs0 @ evs) s2" using di [where r = r and ?evs0.0 = evs0] that(1) by blast
    then show ?thesis by (simp add: s' follows_def agree_def counters_same)
  qed
qed

lemma svc_tick_inv:
  assumes i: "sv_inv rows ok cfg H P (sv_ready s) s" and t: "time_fits cfg H P" and h: "handler_fits P handler" and now: "int64 now" "now \<le> H"
    and d: "sv_tick st tm cfg handler now s = (evs, s')"
  shows "sv_inv rows ok cfg H P (sv_ready s') s'" and "handler_spares (row_key r) handler \<Longrightarrow> follows rows r evs0 s \<Longrightarrow> follows rows r (evs0 @ evs) s'"
proof -
  obtain s1 where dd: "drain_due st tm cfg handler now None s = (evs, s1)"
    and s': "s' = (if sv_ready s1 = [] \<and> sv_index s1 = [] then s1\<lparr> sv_store := snd (ro_checkpoint st (due_bucket cfg now) (sv_store s1)) \<rparr> else s1)"
    using d by (auto simp: sv_tick_def split: prod.splits)
  note i1 = drain_due_inv [OF i t h now(2) dd]
  obtain x c where c: "ro_checkpoint st (due_bucket cfg now) (sv_store s1) = (x, c)" by fastforce
  have "int64 (due_bucket cfg now)" using t now(1) by (simp add: due_bucket_def sdiv_int64 time_fits_def)
  then have law: "ok c \<and> rows c = rows (sv_store s1)" using i1(1) c by (intro checkpoint_law) (simp_all add: sv_inv_def)
  show "sv_inv rows ok cfg H P (sv_ready s') s'" using i1(1) sv_inv_stored [OF i1(1), of c] law
    by (cases "sv_ready s1 = [] \<and> sv_index s1 = []") (auto simp: s' c)
  show "follows rows r (evs0 @ evs) s'" if "handler_spares (row_key r) handler" and "follows rows r evs0 s"
    using i1(2) [OF that] law by (simp add: s' c follows_def agree_def)
qed

lemma step_inv:
  assumes i: "sv_inv rows ok cfg H P (sv_ready s) s" and t: "time_fits cfg H P" and h: "handler_fits P handler" and f: "op_fits H P op"
    and d: "sv_step st tm cfg handler op s = (evs, s')"
  shows "sv_inv rows ok cfg H P (sv_ready s') s'"
    and "handler_spares (row_key r) handler \<Longrightarrow> spares (row_key r) op \<Longrightarrow> follows rows r evs0 s \<Longrightarrow> follows rows r (evs0 @ evs) s'"
proof -
  have "sv_inv rows ok cfg H P (sv_ready s') s' \<and>
     (handler_spares (row_key r) handler \<longrightarrow> spares (row_key r) op \<longrightarrow> follows rows r evs0 s \<longrightarrow> follows rows r (evs0 @ evs) s')"
  proof (cases op)
    case (SvRemind q)
    obtain x where p: "remind_at st cfg q s = (x, s')" and ev: "evs = []"
      using d SvRemind by (cases "remind_at st cfg q s") auto
    have q: "row_fits P q" using f SvRemind by simp
    note ri = remind_inv [OF i q p]
    have "follows rows r evs0 s'" if "row_key q \<noteq> row_key r" "follows rows r evs0 s"
      using that ri(2,3) by (cases "x = Inr ()") (auto simp: follows_def agree_def)
    then show ?thesis using ri(1,5) by (simp add: SvRemind ev)
  next
    case (SvCancel k)
    obtain x where p: "sv_cancel st k s = (x, s')" and ev: "evs = []"
      using d SvCancel by (cases "sv_cancel st k s") auto
    note ci = cancel_inv [OF i p]
    have "follows rows r evs0 s'" if "k \<noteq> row_key r" "follows rows r evs0 s"
      using that ci(2) [of "row_key r"] by (auto simp: follows_def agree_def)
    then show ?thesis using ci(1,4) by (simp add: SvCancel ev)
  next
    case (SvTick now)
    have n: "int64 now" "now \<le> H" using f SvTick by simp_all
    note ti = svc_tick_inv [OF i t h n d [unfolded SvTick sv_step.simps]]
    show ?thesis using ti(1) ti(2) [of r evs0] by blast
  next
    case (SvRestart tk)
    then have "s' = sv_restart st cfg tk s" "evs = []" using d by simp_all
    then show ?thesis using svc_restart_inv [OF i] by simp
  next
    case (SvDie now most tk)
    obtain s1 where p: "drain_due st tm cfg handler now (Some most) s = (evs, s1)" and s': "s' = sv_restart st cfg tk s1"
      using d SvDie by (auto split: prod.splits)
    have "now \<le> H" using f SvDie by simp
    note di = drain_due_inv [OF i t h this p]
    show ?thesis using svc_restart_inv [OF di(1)] di(2) [of r evs0] by (simp add: s')
  qed
  then show "sv_inv rows ok cfg H P (sv_ready s') s'"
    "handler_spares (row_key r) handler \<Longrightarrow> spares (row_key r) op \<Longrightarrow> follows rows r evs0 s \<Longrightarrow> follows rows r (evs0 @ evs) s'" by blast+
qed

lemma svc_run_inv:
  assumes "sv_inv rows ok cfg H P (sv_ready s) s" and t: "time_fits cfg H P" and h: "handler_fits P handler" and "list_all (op_fits H P) ops"
    and "sv_run st tm cfg handler ops s = (evs, s')"
  shows "sv_inv rows ok cfg H P (sv_ready s') s' \<and>
    (handler_spares (row_key r) handler \<longrightarrow> list_all (spares (row_key r)) ops \<longrightarrow> follows rows r evs0 s \<longrightarrow> follows rows r (evs0 @ evs) s')"
  using assms(1,4,5)
proof (induction ops arbitrary: s evs evs0)
  case (Cons op ops)
  obtain e1 s1 where d: "sv_step st tm cfg handler op s = (e1, s1)" by fastforce
  obtain e2 where p: "sv_run st tm cfg handler ops s1 = (e2, s')" and ev: "evs = e1 @ e2"
    using Cons.prems(3) d by (auto split: prod.splits)
  have f: "op_fits H P op" "list_all (op_fits H P) ops" using Cons.prems(2) by simp_all
  note si = step_inv [OF Cons.prems(1) t h f(1) d]
  note ih = Cons.IH [OF si(1) f(2) p]
  show ?case using ih [of "evs0 @ e1"] si(2) [of r evs0] by (simp add: ev)
qed simp

text \<open>A reminder that was accepted is follows from then on.\<close>

lemma accepted_tracked:
  assumes i: "sv_inv rows ok cfg H P (sv_ready s) s" and r: "row_fits P r" and p: "remind_at st cfg r s = (Inr (), s')"
  shows "sv_inv rows ok cfg H P (sv_ready s') s'" and "follows rows r [] s'"
  using remind_inv [OF i r p] by (auto simp: follows_def agree_def progress_start)

end

end
