(* ===== verification/Reminder_Runs.thy ===== *)
theory Reminder_Runs
  imports Reminder_Delivery
begin

text \<open>
  Properties of the reminder service over the durable log: at-least-once delivery, firing in the tick that is due,
  recovery after a torn write, and two behaviours at the edges.
\<close>

section \<open>What is due fires\<close>

text \<open>Calls that spare a key leave its live entry alone.\<close>

lemma handler_frame:
  "list_all (\<lambda>c. call_key c \<noteq> k) cs \<Longrightarrow> map_of (sv_live (fold (handler_step st cfg) cs s)) k = map_of (sv_live s) k"
proof (induction cs arbitrary: s)
  case (Cons c cs)
  have "map_of (sv_live (handler_step st cfg c s)) k = map_of (sv_live s) k"
    using Cons.prems by (auto simp: handler_step_def remind_at_def sv_cancel_def insert_index_def update_map call_key_def
        split: handler_call.splits sum.splits prod.splits)
  then show ?case using Cons by simp
qed simp

lemma fire_item_frame:
  fixes s :: "('s, 't) reminder_service"
  assumes "handler_spares k handler" and "row_key row = k'" and "k \<noteq> k'"
  shows "map_of (sv_live (fire_item st tm cfg handler now k' e row s)) k = map_of (sv_live s) k"
proof -
  define s1 where "s1 = fold (handler_step st cfg) (handler (fire_of now k' row)) s"
  have f: "map_of (sv_live s1) k = map_of (sv_live s) k"
    unfolding s1_def using assms(1) by (intro handler_frame) (simp add: handler_spares_def)
  have "row_key (row\<lparr> rw_due := d \<rparr>) = k'" for d using assms(2) by (simp add: row_key_def)
  then have "map_of (sv_live (confirm st cfg k' e row u)) k = map_of (sv_live u) k" for u :: "('s, 't) reminder_service"
    using assms(2,3) by (auto simp: confirm_def Let_def insert_index_def update_map split: option.splits sum.splits prod.splits)
  then show ?thesis using f by (simp add: fire_item_def s1_def [symmetric] Let_def)
qed

context reminder_store
begin

lemma drain_fires:
  assumes "sv_inv rows ok cfg H P items s" and t: "time_fits cfg H P" and h: "handler_fits P handler" "handler_spares k handler"
    and "(k, e, x) \<in> set items" and "map_of (sv_live s) k = Some (row, e)" and "length items \<le> budget"
  shows "fire_of now k row \<in> set (fst (drain_ready st tm cfg handler now items budget s))"
  using assms(1,5-7)
proof (induction items arbitrary: budget s)
  case (Cons it items)
  obtain k1 e1 x1 where it: "it = (k1, e1, x1)" by (cases it)
  note i = Cons.prems(1) [unfolded it]
  have b: "budget \<noteq> 0" "length items \<le> budget" "length items \<le> budget - 1" using Cons.prems(4) by auto
  show ?case
  proof (cases "\<exists>r1. map_of (sv_live s) k1 = Some (r1, e1)")
    case True
    then obtain r1 where l: "map_of (sv_live s) k1 = Some (r1, e1)" by blast
    let ?s1 = "fire_item st tm cfg handler now k1 e1 r1 s"
    have d: "fst (drain_ready st tm cfg handler now (it # items) budget s) =
        fire_of now k1 r1 # fst (drain_ready st tm cfg handler now items (budget - 1) ?s1)"
      using b l by (simp add: it split: prod.splits)
    show ?thesis
    proof (cases "k1 = k")
      case True
      then show ?thesis using l Cons.prems(3) by (simp add: d)
    next
      case False
      then have m: "(k, e, x) \<in> set items" using Cons.prems(2) by (simp add: it)
      have "map_of (sv_live ?s1) k = Some (row, e)"
        using fire_item_frame [OF h(2) sv_inv_live(1) [OF i l], where st = st and tm = tm and s = s] False Cons.prems(3) by simp
      from Cons.IH [OF fire_item_inv(1) [OF i t h(1) l] m this b(3)] show ?thesis by (simp add: d)
    qed
  next
    case False
    then have v: "\<nexists>r. map_of (sv_live s) k1 = Some (r, e1)" by blast
    have d: "fst (drain_ready st tm cfg handler now (it # items) budget s) = fst (drain_ready st tm cfg handler now items budget s)"
      using b v by (cases "map_of (sv_live s) k1") (auto simp: it split: prod.splits)
    have m: "(k, e, x) \<in> set items" using Cons.prems(2,3) v by (auto simp: it)
    from Cons.IH [OF sv_inv_void [OF i v] m Cons.prems(3) b(2)] show ?thesis by (simp add: d)
  qed
qed simp

lemma tick_fires:
  assumes i: "sv_inv rows ok cfg H P (sv_ready s) s" and t: "time_fits cfg H P" and h: "handler_fits P handler" "handler_spares k handler"
    and now: "now \<le> H" and l: "live_row s k = Some row" and due: "rw_due row \<le> now"
    and c: "cf_fire_rate cfg = 0" "length (sv_ready (pull_ready cfg now s)) \<le> cf_credit cfg"
  shows "fire_of now k row \<in> set (fst (sv_tick st tm cfg handler now s))"
proof -
  let ?p = "pull_ready cfg now s"
  define s1 where "s1 = ?p\<lparr> sv_last_tick := now \<rparr>"
  have p: "0 < cf_bucket_ns cfg" using t by (simp add: time_fits_def)
  note pr = pull_ready_inv [OF i p now]
  have i1: "sv_inv rows ok cfg H P (sv_ready ?p) s1" using pr(1) by (simp add: s1_def counters_same)
  have b: "tick_budget tm cfg now ?p = (length (sv_ready ?p), s1)" using c by (simp add: tick_budget_def s1_def)
  obtain e where e: "map_of (sv_live s) k = Some (row, e)" using l by (auto simp: live_row_def)
  have lv: "sv_live s1 = sv_live s" by (simp add: s1_def pull_ready_def Let_def split: prod.splits)
  text \<open>The entry of the live row has left the index for the ready items.\<close>
  have "(k, e) \<in> ready_set (sv_ready ?p)"
  proof -
    obtain items left where q: "pull_due (due_bucket cfg now) (sv_index s) = (items, left)" by fastforce
    have rd: "set (sv_ready ?p) = set (sv_ready s) \<union> set items" by (simp add: pull_ready_def q Let_def)
    have srt: "sorted_wrt (<) (map fst (sv_index s))"
      and rel: "sched_rel cfg H P (map_of (sv_live s)) (index_set (sv_index s)) (ready_set (sv_ready s)) (sv_epoch s)"
      using i by (simp_all add: sv_inv_def sched_ok_def)
    have "due_bucket cfg (rw_due row) \<le> due_bucket cfg now" unfolding due_bucket_def by (rule sdiv_mono [OF p due])
    then have "(due_bucket cfg (rw_due row), k, e) \<in> index_set (sv_index s) \<Longrightarrow> (k, e, drain_rank k) \<in> set items"
      using pull_due_facts(4) [OF q srt] by fastforce
    moreover have "(due_bucket cfg (rw_due row), k, e) \<in> index_set (sv_index s) \<or> (k, e) \<in> ready_set (sv_ready s)"
      by (rule sched_relD(5) [OF rel e])
    ultimately show ?thesis unfolding ready_set_def rd by (force simp: image_iff)
  qed
  then obtain x where m: "(k, e, x) \<in> set (sv_ready ?p)" by (auto simp: ready_set_def)
  have "fire_of now k row \<in> set (fst (drain_ready st tm cfg handler now (sv_ready s1) (length (sv_ready ?p)) s1))"
    using drain_fires [OF i1 t h m, of row "length (sv_ready ?p)"] e lv by (simp add: s1_def)
  then show ?thesis by (auto simp: sv_tick_def drain_due_def b Let_def split: prod.splits)
qed

end

section \<open>The service over the durable log\<close>

text \<open>A service on a log created on an empty file, and the fires and the service after a history.\<close>

definition started :: "reminder_config \<Rightarrow> log_faults \<Rightarrow> (nat \<Rightarrow> log_faults) \<Rightarrow> 't \<Rightarrow> (faulty_log, 't) reminder_service" where
  "started cfg f fs tk = sv_open file_ops cfg (sv_create (rl_create f [], fs) tk)"

lemma started_inv:
  assumes "tame f" and "\<forall>n. tame (fs n)"
  shows "sv_inv (\<lambda>s. map_of (rl_rows (fst s))) log_ok cfg H P (sv_ready (started cfg f fs tk)) (started cfg f fs tk)"
proof -
  have "log_scan [] ([], -1) 0 = (([], -1), 0, False)" by (simp add: frame_scan.simps)
  then have "rl_inv (rl_create f []) \<and> rl_rows (rl_create f []) = []"
    using create_journal [of "[]" "[]" "-1" 0 f] assms(1) by (simp add: rows_ok_def int64_def)
  then show ?thesis unfolding started_def
    by (intro file_rem.open_inv) (use assms(2) in \<open>simp_all add: sv_create_def log_ok_def\<close>)
qed

abbreviation stored :: "(faulty_log, 't) reminder_service \<Rightarrow> reminder_key \<Rightarrow> reminder_row option" where
  "stored s \<equiv> map_of (rl_rows (fst (sv_store s)))"

lemma history_inv:
  assumes t: "time_fits cfg H P" and f: "tame f" "\<forall>n. tame (fs n)" and h: "handler_fits P handler" "handler_spares (row_key r) handler"
    and ops: "list_all (op_fits H P) (before @ SvRemind r # after)" "list_all (spares (row_key r)) after"
    and r: "remind_at file_ops cfg r (snd (sv_run file_ops tm cfg handler before (started cfg f fs tk))) = (Inr (), s)"
    and run: "sv_run file_ops tm cfg handler after s = (evs, s')"
  shows "sv_inv (\<lambda>s. map_of (rl_rows (fst s))) log_ok cfg H P (sv_ready s') s'" and "follows (\<lambda>s. map_of (rl_rows (fst s))) r evs s'"
proof -
  obtain e1 s1 where p: "sv_run file_ops tm cfg handler before (started cfg f fs tk) = (e1, s1)" by fastforce
  have o: "list_all (op_fits H P) before" "row_fits P r" "list_all (op_fits H P) after" using ops(1) by simp_all
  have i1: "sv_inv (\<lambda>s. map_of (rl_rows (fst s))) log_ok cfg H P (sv_ready s1) s1"
    using file_rem.svc_run_inv [OF started_inv [OF f] t h(1) o(1) p] by blast
  have r1: "remind_at file_ops cfg r s1 = (Inr (), s)" using r p by simp
  note a = file_rem.accepted_tracked [OF i1 o(2) r1]
  note ri = file_rem.svc_run_inv [OF a(1) t h(1) o(3) run]
  show "sv_inv (\<lambda>s. map_of (rl_rows (fst s))) log_ok cfg H P (sv_ready s') s'" using ri by blast
  show "follows (\<lambda>s. map_of (rl_rows (fst s))) r evs s'" using ri [of r "[]"] a(2) h(2) ops(2) by simp
qed


text \<open>A service with one reminder, and a history with a failing write, a restart and a death in a tick.\<close>

definition demo_row :: reminder_row where
  "demo_row = \<lparr> rw_actor = ActorId 1 2, rw_name = [], rw_due = 5, rw_period = 10, rw_payload = [] \<rparr>"

definition demo_config :: reminder_config where
  "demo_config = \<lparr> cf_bucket_ns = 10, cf_fire_rate = 0, cf_credit = 8 \<rparr>"

definition demo_tokens :: "unit token_math" where
  "demo_tokens = \<lparr> tm_accrue = \<lambda>_ _. ((), 0), tm_spend = id \<rparr>"

definition demo_faults :: "nat \<Rightarrow> log_faults" where
  "demo_faults n = (if n = 1 then no_log_faults\<lparr> lf_write := Some 3 \<rparr> else no_log_faults)"

definition demo_start :: "(faulty_log, unit) reminder_service" where
  "demo_start = started demo_config no_log_faults demo_faults ()"

definition demo_service :: "(faulty_log, unit) reminder_service" where
  "demo_service = snd (remind_at file_ops demo_config demo_row demo_start)"

definition demo_run :: "fire_event list \<times> (faulty_log, unit) reminder_service" where
  "demo_run = sv_run file_ops demo_tokens demo_config (\<lambda>_. []) [SvTick 20, SvRestart (), SvDie 30 1 (), SvTick 40] demo_service"

lemma put_fine:
  assumes "\<not> rl_corrupt s" and "rl_open s"
  shows "fst (rl_put no_log_faults r s) = Inr () \<and> rl_rows (snd (rl_put no_log_faults r s)) = AList.update (row_key r) r (rl_rows s)"
  using assms by (simp add: rl_put_def log_append_def no_log_faults_def Let_def)

lemma demo_start_facts:
  "sv_store demo_start = (rl_create no_log_faults [], demo_faults)" "sv_index demo_start = []" "sv_ready demo_start = []"
  "\<not> rl_corrupt (rl_create no_log_faults [])" "rl_open (rl_create no_log_faults [])" "rl_rows (rl_create no_log_faults []) = []"
proof -
  have c: "rl_create no_log_faults [] = \<lparr> rl_file = [], rl_open = True, rl_off = 0, rl_corrupt = False, rl_rows = [], rl_checkpoint = -1 \<rparr>"
    by (simp add: rl_create_def rl_replay_def open_append_def no_log_faults_def)
  show "sv_store demo_start = (rl_create no_log_faults [], demo_faults)" "sv_index demo_start = []" "sv_ready demo_start = []"
    by (simp_all add: demo_start_def started_def sv_open_def sv_create_def file_ops_def rl_load_all_def c)
  show "\<not> rl_corrupt (rl_create no_log_faults [])" "rl_open (rl_create no_log_faults [])" "rl_rows (rl_create no_log_faults []) = []"
    by (simp_all add: c)
qed

lemma demo_put:
  "\<exists>s'. ro_put file_ops demo_row (sv_store demo_start) = (Inr (), s') \<and> rl_rows (fst s') = [(row_key demo_row, demo_row)]"
proof -
  have "demo_faults 0 = no_log_faults" by (simp add: demo_faults_def)
  then show ?thesis using put_fine [OF demo_start_facts(4,5), of demo_row]
    by (cases "rl_put no_log_faults demo_row (rl_create no_log_faults [])")
      (auto simp: file_ops_def faulty_def demo_start_facts)
qed

lemma demo_accepted:
  "remind_at file_ops demo_config demo_row (snd (sv_run file_ops demo_tokens demo_config (\<lambda>_. []) [] (started demo_config no_log_faults demo_faults ()))) =
     (Inr (), demo_service)"
  using demo_put by (auto simp: demo_service_def remind_at_def demo_start_def [symmetric])

lemma demo_facts:
  "time_fits demo_config 1000 100" "tame no_log_faults" "\<forall>n. tame (demo_faults n)" "handler_fits 100 (\<lambda>_. [])" "handler_spares k (\<lambda>_. [])"
  "row_fits 100 demo_row"
  by (simp_all add: time_fits_def demo_config_def tame_def no_log_faults_def demo_faults_def handler_fits_def handler_spares_def
      row_fits_def row_ok_def demo_row_def int64_def)


text \<open>
  Property C30.  A reminder whose instant has come fires in the tick: without a fire rate, and with credit for all that
  is ready, the tick at an instant at or after the due one fires the stored occurrence.
\<close>

theorem due_reminders_fire:
  assumes "time_fits cfg H P" and "tame f" "\<forall>n. tame (fs n)"
    and "handler_fits P handler" "handler_spares (row_key r) handler"
    and "list_all (op_fits H P) (before @ SvRemind r # after)" "list_all (spares (row_key r)) after"
    and "remind_at file_ops cfg r (snd (sv_run file_ops tm cfg handler before (started cfg f fs tk))) = (Inr (), s)"
    and "sv_run file_ops tm cfg handler after s = (evs, s')"
    and "stored s' (row_key r) = Some row" and "rw_due row \<le> now" and "now \<le> H"
    and "cf_fire_rate cfg = 0" and "length (sv_ready (pull_ready cfg now s')) \<le> cf_credit cfg"
  shows "fire_of now (row_key r) row \<in> set (fst (sv_tick file_ops tm cfg handler now s'))"
proof -
  note h = history_inv [OF assms(1-9)]
  have l: "live_row s' (row_key r) = Some row" using h(2) assms(10) by (simp add: follows_def agree_def)
  show ?thesis by (rule file_rem.tick_fires [OF h(1) assms(1,4,5,12) l assms(11,13,14)])
qed

lemma due_reminders_fire_witness:
  "fire_of 7 (row_key demo_row) demo_row \<in> set (fst (sv_tick file_ops demo_tokens demo_config (\<lambda>_. []) 7 demo_service))"
proof -
  have "stored demo_service (row_key demo_row) = Some demo_row \<and> length (sv_ready (pull_ready demo_config 7 demo_service)) \<le> cf_credit demo_config"
    using demo_put by (auto simp: demo_service_def remind_at_def demo_start_facts pull_ready_def insert_index_def demo_config_def Let_def
        split: prod.splits if_splits)
  moreover have "rw_due demo_row \<le> 7" "cf_fire_rate demo_config = 0" by (simp_all add: demo_row_def demo_config_def)
  ultimately show ?thesis
    by (intro due_reminders_fire [OF demo_facts(1-5) _ _ demo_accepted, where after = "[]" and evs = "[]"])
      (simp_all add: demo_facts(6))
qed

text \<open>
  A reminder can fire before its instant: the index rounds to whole buckets.  By default a reminder that
  is due at 1.999999999 s fires in the tick at 1 s.
\<close>

theorem reminder_fires_early:
  "let r = \<lparr> rw_actor = a, rw_name = name, rw_due = 1999999999, rw_period = 0, rw_payload = payload \<rparr>;
       s = snd (remind_at memory_ops reminder_config_default r (sv_create mr_create ()));
       evs = fst (sv_tick memory_ops tm reminder_config_default (\<lambda>_. []) 1000000000 s)
   in evs = [fire_of 1000000000 (row_key r) r] \<and> fv_fired_at (hd evs) + 999999999 = fv_due (hd evs)"
  by (simp add: Let_def remind_at_def memory_ops_def mr_put_def sv_create_def mr_create_def insert_index_def sv_tick_def drain_due_def
      pull_ready_def tick_budget_def reminder_config_default_def due_bucket_def fire_item_def confirm_def mr_remove_def fire_of_def
      signed_divide_int_def split: prod.splits)

section \<open>Faults outside the contract\<close>

text \<open>
  Replay takes a record length of zero for the torn end of the log wherever it stands: a log whose first
  length field is damaged to zero is cut to nothing, with every record after it, and is not reported as corrupt.
\<close>

theorem zeroed_length_erases_log:
  "let s = rl_create no_log_faults (0 # 0 # 0 # 0 # rest) in
     rl_file s = [] \<and> rl_rows s = [] \<and> \<not> rl_corrupt s \<and> rl_load_all s = Inr []"
proof -
  have l: "frame_len (0 # 0 # 0 # 0 # rest) = 0" by (simp add: frame_len_def get_le_def)
  have "frame_scan True replay_record (0 # 0 # 0 # 0 # rest) ([], -1) 0 = (([], -1), 0, False)"
    by (subst frame_scan.simps) (use l in \<open>simp add: Let_def\<close>)
  then show ?thesis
    by (simp add: rl_create_def rl_replay_def no_log_faults_def open_append_def rl_load_all_def Let_def)
qed

text \<open>
  When the size of the log cannot be read at opening, the rollback point is the start of the file: the
  next append that fails cuts an intact log to nothing, while the store goes on serving the rows it lost.
\<close>

theorem unknown_size_erases_log:
  assumes "rl_inv s" and "lf_read f = None" "lf_cut f" "lf_open f" "\<not> lf_size f"
    and "lf_write g = Some 0" "lf_cut g"
  shows "let s1 = rl_create f (rl_file s); s2 = snd (rl_put g r s1) in
    rl_rows s1 = rl_rows s \<and> isl (fst (rl_put g r s1)) \<and> rl_file s2 = [] \<and> rl_rows s2 = rl_rows s \<and> rl_open s2"
proof -
  have sc: "log_scan (rl_file s) ([], -1) 0 = ((rl_rows s, rl_checkpoint s), length (rl_file s), False)"
    using assms(1) by (simp_all only: rl_inv_def journal_of_def)
  have c: "rl_create f (rl_file s) = \<lparr> rl_file = rl_file s, rl_open = True, rl_off = 0, rl_corrupt = False, rl_rows = rl_rows s,
      rl_checkpoint = rl_checkpoint s \<rparr>"
    using sc assms(2-5) by (simp add: rl_create_def rl_replay_def open_append_def Let_def)
  have "put_le 4 w \<noteq> []" for w :: u32 by (metis length_put_le list.size(3) zero_neq_numeral)
  then have "frame_bytes kb \<noteq> []" for kb by (simp add: frame_bytes_def)
  then show ?thesis using assms(6,7) by (simp add: c rl_put_def log_append_def Let_def fail_def)
qed

lemma unknown_size_erases_log_witness:
  "let s1 = rl_create (no_log_faults\<lparr> lf_size := False \<rparr>) (rl_file (rl_create no_log_faults [])) in
     rl_file (snd (rl_put (no_log_faults\<lparr> lf_write := Some 0 \<rparr>) demo_row s1)) = []"
proof -
  have "rl_inv (rl_create no_log_faults [])"
    using create_journal [of "[]" "[]" "-1" 0 no_log_faults] demo_facts(2) by (simp add: rows_ok_def int64_def)
  from unknown_size_erases_log [OF this, of "no_log_faults\<lparr> lf_size := False \<rparr>" "no_log_faults\<lparr> lf_write := Some 0 \<rparr>" demo_row]
  show ?thesis by (simp add: no_log_faults_def Let_def)
qed

end
