(* ===== verification/Revocation.thy ===== *)
theory Revocation
  imports Ids "HOL-Library.AList"
begin

text \<open>
  \<open>include/quark/core/signed_revocation.hpp\<close> and \<open>include/quark/core/revocation_registry.hpp\<close>: revocation records
  signed by the trust anchor, their wire form, and the registry of revoked certificates with its unsigned and its
  signed mode.  The verifier of signatures is an argument.  Hash sets are lists without repetition, the hash table
  of records an association list; the token bucket, which the code keeps at 32 bits and below its capacity, and the
  counters are natural numbers, instants are seconds at 64 bits.

  The operations that check signatures release the lock in between.  They are modelled in their two critical
  sections, and the check that comes between them; other operations can come in between.
\<close>

section \<open>Records and their wire form\<close>

type_synonym fingerprint = bytes
type_synonym anchor_key_id = bytes

record signed_revocation =
  rv_cluster :: cluster_id
  rv_fingerprint :: fingerprint
  rv_not_after :: u64
  rv_issued_at :: u64
  rv_anchor :: anchor_key_id
  rv_signature :: bytes

text \<open>\<open>"QUARK-REVOKE-v1"\<close> with a terminating zero.\<close>

definition kRevocationDomain :: bytes where
  "kRevocationDomain = [0x51, 0x55, 0x41, 0x52, 0x4B, 0x2D, 0x52, 0x45, 0x56, 0x4F, 0x4B, 0x45, 0x2D, 0x76, 0x31, 0]"

definition kRevocationSignedBytes :: nat where "kRevocationSignedBytes = 16 + 8 + 32 + 8 + 8 + 32"
definition kMaxRevocationSignatureBytes :: nat where "kMaxRevocationSignatureBytes = 72"
definition kMaxSignedRevocationWireBytes :: nat where
  "kMaxSignedRevocationWireBytes = kRevocationSignedBytes + 1 + kMaxRevocationSignatureBytes"

definition revocation_signed_bytes :: "signed_revocation \<Rightarrow> bytes" where
  "revocation_signed_bytes r =
     kRevocationDomain @ put_le 8 (rv_cluster r) @ rv_fingerprint r @ put_le 8 (rv_not_after r) @ put_le 8 (rv_issued_at r) @ rv_anchor r"

definition encode_signed_revocation :: "signed_revocation \<Rightarrow> bytes" where
  "encode_signed_revocation r = revocation_signed_bytes r @ of_nat (length (rv_signature r)) # rv_signature r"

definition decode_signed_revocation :: "bytes \<Rightarrow> signed_revocation option" where
  "decode_signed_revocation b =
     (if length b < kRevocationSignedBytes + 1 \<or> kMaxSignedRevocationWireBytes < length b then None
      else if take 16 b \<noteq> kRevocationDomain then None
      else
        let n = unat (b ! 104) in
        if n = 0 \<or> kMaxRevocationSignatureBytes < n \<or> length b \<noteq> kRevocationSignedBytes + 1 + n then None
        else Some \<lparr> rv_cluster = get_le (take 8 (drop 16 b)), rv_fingerprint = take 32 (drop 24 b),
                    rv_not_after = get_le (take 8 (drop 56 b)), rv_issued_at = get_le (take 8 (drop 64 b)),
                    rv_anchor = take 32 (drop 72 b), rv_signature = drop 105 b \<rparr>)"

record trust_anchor =
  ta_verify :: "anchor_key_id \<Rightarrow> bytes \<Rightarrow> bytes \<Rightarrow> bool"
  ta_is_current_root :: "anchor_key_id \<Rightarrow> bool"

definition verify_signed_revocation :: "signed_revocation \<Rightarrow> cluster_id \<Rightarrow> trust_anchor \<Rightarrow> bool" where
  "verify_signed_revocation r cl ta \<longleftrightarrow>
     \<not> (rv_cluster r \<noteq> cl \<or> rv_signature r = [] \<or> kMaxRevocationSignatureBytes < length (rv_signature r)) \<and>
     ta_verify ta (rv_anchor r) (revocation_signed_bytes r) (rv_signature r)"

section \<open>State\<close>

record revocation_limits =
  lm_max_signed :: nat
  lm_max_verifies :: nat
  lm_verify_burst :: nat
  lm_verify_rate :: nat
  lm_expiry_skew :: u64

definition revocation_limits_default :: revocation_limits where
  "revocation_limits_default = \<lparr> lm_max_signed = 4096, lm_max_verifies = 8, lm_verify_burst = 32, lm_verify_rate = 32, lm_expiry_skew = 300 \<rparr>"

record revocation_registry =
  rr_local :: "fingerprint list"
  rr_gossiped :: "fingerprint list"
  rr_signed :: "(fingerprint \<times> signed_revocation) list"
  rr_order :: "fingerprint list"
  rr_cursor :: nat
  rr_protected :: "fingerprint list"
  rr_max_entries :: nat
  rr_rejected :: nat
  rr_signed_mode :: bool
  rr_cluster :: cluster_id
  rr_limits :: revocation_limits
  rr_tokens :: nat
  rr_last_refill :: u64
  rr_last_prune :: u64
  rr_signed_rejected :: nat
  rr_cap_refused :: nat
  rr_signed_expired :: nat
  rr_signed_deferred :: nat
  rr_authority_only :: bool
  rr_ignored_gossip :: nat
  rr_snapshot :: "fingerprint list"

definition republish_revoked :: "revocation_registry \<Rightarrow> revocation_registry" where
  "republish_revoked s = s\<lparr> rr_snapshot := remdups (rr_local s @ rr_gossiped s @ map fst (rr_signed s)) \<rparr>"

definition registry_create :: "nat \<Rightarrow> revocation_registry" where
  "registry_create max_entries = republish_revoked
     \<lparr> rr_local = [], rr_gossiped = [], rr_signed = [], rr_order = [], rr_cursor = 0, rr_protected = [], rr_max_entries = max_entries,
       rr_rejected = 0, rr_signed_mode = False, rr_cluster = 0, rr_limits = revocation_limits_default, rr_tokens = 0,
       rr_last_refill = 0, rr_last_prune = 0, rr_signed_rejected = 0, rr_cap_refused = 0, rr_signed_expired = 0,
       rr_signed_deferred = 0, rr_authority_only = False, rr_ignored_gossip = 0, rr_snapshot = [] \<rparr>"

section \<open>The unsigned mode\<close>

definition is_revoked :: "fingerprint \<Rightarrow> revocation_registry \<Rightarrow> bool" where
  "is_revoked fp s \<longleftrightarrow> fp \<in> set (rr_local s) \<or> fp \<in> set (rr_gossiped s) \<or> map_of (rr_signed s) fp \<noteq> None"

definition protect_fingerprint :: "fingerprint \<Rightarrow> revocation_registry \<Rightarrow> revocation_registry" where
  "protect_fingerprint fp s = s\<lparr> rr_protected := List.insert fp (rr_protected s) \<rparr>"

definition set_authority_only :: "bool \<Rightarrow> revocation_registry \<Rightarrow> revocation_registry" where
  "set_authority_only on s = s\<lparr> rr_authority_only := on \<rparr>"

text \<open>The loop over a gossiped set.\<close>

fun merge_entries :: "fingerprint list \<Rightarrow> bool \<Rightarrow> revocation_registry \<Rightarrow> bool \<times> revocation_registry" where
  "merge_entries [] changed s = (changed, s)"
| "merge_entries (fp # fps) changed s =
     (if is_revoked fp s then merge_entries fps changed s
      else if fp \<in> set (rr_protected s) \<or> rr_max_entries s \<le> length (rr_gossiped s)
      then merge_entries fps changed (s\<lparr> rr_rejected := rr_rejected s + 1 \<rparr>)
      else merge_entries fps True (s\<lparr> rr_gossiped := rr_gossiped s @ [fp] \<rparr>))"

definition merge_revoked :: "fingerprint list \<Rightarrow> revocation_registry \<Rightarrow> bool \<times> revocation_registry" where
  "merge_revoked incoming s =
     (if incoming = [] then (False, s)
      else if rr_signed_mode s then (False, s\<lparr> rr_rejected := rr_rejected s + length incoming \<rparr>)
      else if rr_authority_only s then (False, s\<lparr> rr_ignored_gossip := rr_ignored_gossip s + length incoming \<rparr>)
      else case merge_entries incoming False s of (changed, s1) \<Rightarrow> (changed, if changed then republish_revoked s1 else s1))"

definition revoke_locally :: "fingerprint \<Rightarrow> revocation_registry \<Rightarrow> revocation_registry" where
  "revoke_locally fp s =
     (if fp \<in> set (rr_local s) then s else republish_revoked (s\<lparr> rr_local := rr_local s @ [fp] \<rparr>))"

definition sample_revoked :: "nat \<Rightarrow> revocation_registry \<Rightarrow> fingerprint list" where
  "sample_revoked most s = (if rr_signed_mode s \<or> rr_authority_only s then [] else take most (rr_local s @ rr_gossiped s))"

section \<open>The signed mode\<close>

definition enable_signed :: "bool \<Rightarrow> cluster_id \<Rightarrow> revocation_limits \<Rightarrow> revocation_registry \<Rightarrow> unit result \<times> revocation_registry" where
  "enable_signed verifier cl lm s =
     (if \<not> verifier then (fail Validation ''enable_signed needs a TrustAnchorVerifier'', s)
      else if lm_max_signed lm = 0 \<or> lm_max_verifies lm = 0 \<or> lm_verify_burst lm = 0 \<or> lm_verify_rate lm = 0
      then (fail Validation ''SignedRevocationLimits must all be non-zero'', s)
      else if rr_signed_mode s then (fail Validation ''signed revocation mode is already enabled'', s)
      else (Inr (), republish_revoked (s\<lparr> rr_signed_mode := True, rr_cluster := cl, rr_limits := lm, rr_tokens := lm_verify_burst lm,
                                          rr_gossiped := [] \<rparr>)))"

definition record_expired :: "revocation_registry \<Rightarrow> signed_revocation \<Rightarrow> u64 \<Rightarrow> bool" where
  "record_expired s r now \<longleftrightarrow> rv_not_after r \<le> now \<and> lm_expiry_skew (rr_limits s) < now - rv_not_after r"

record candidate =
  cd_rec :: signed_revocation
  cd_held :: "anchor_key_id option"

text \<open>A held copy is replaced only by a copy of a current root when its own root is not current.\<close>

definition rotates :: "trust_anchor \<Rightarrow> candidate \<Rightarrow> bool" where
  "rotates ta c \<longleftrightarrow> ta_is_current_root ta (rv_anchor (cd_rec c)) \<and> (\<forall>a \<in> set_option (cd_held c). \<not> ta_is_current_root ta a)"

datatype apply_outcome = Apply_Changed | Apply_Unchanged | Apply_Cap_Full

definition apply_candidate :: "candidate \<Rightarrow> u64 \<Rightarrow> revocation_registry \<Rightarrow> apply_outcome \<times> revocation_registry" where
  "apply_candidate c now s =
     (let r = cd_rec c; fp = rv_fingerprint r in
      if record_expired s r (max now (rr_last_prune s)) then (Apply_Unchanged, s)
      else case map_of (rr_signed s) fp of
        Some held \<Rightarrow> (Apply_Unchanged, if cd_held c = Some (rv_anchor held) then s\<lparr> rr_signed := AList.update fp r (rr_signed s) \<rparr> else s)
      | None \<Rightarrow>
          if lm_max_signed (rr_limits s) \<le> length (rr_signed s) then (Apply_Cap_Full, s)
          else (Apply_Changed, s\<lparr> rr_signed := rr_signed s @ [(fp, r)], rr_order := rr_order s @ [fp] \<rparr>))"

definition refill_tokens :: "u64 \<Rightarrow> revocation_registry \<Rightarrow> revocation_registry" where
  "refill_tokens now s =
     (if now < rr_last_refill s then s\<lparr> rr_last_refill := now \<rparr>
      else
        let elapsed = unat (now - rr_last_refill s); burst = lm_verify_burst (rr_limits s) in
        s\<lparr> rr_last_refill := now,
           rr_tokens := (if burst \<le> elapsed then burst else min burst (rr_tokens s + elapsed * lm_verify_rate (rr_limits s))) \<rparr>)"

text \<open>\<open>revoke\<close>: the first critical section ends with a result or with a candidate to be checked.\<close>

definition revoke_select :: "signed_revocation \<Rightarrow> u64 \<Rightarrow> revocation_registry \<Rightarrow> unit result + candidate" where
  "revoke_select r now s =
     (if \<not> rr_signed_mode s then Inl (fail Unavailable ''signed revocation needs a TrustAnchorVerifier'')
      else if record_expired s r now then Inl (fail Validation ''revocation record already expired'')
      else case map_of (rr_signed s) (rv_fingerprint r) of
        Some held \<Rightarrow>
          if rv_anchor held = rv_anchor r then Inl (Inr ()) else Inr \<lparr> cd_rec = r, cd_held = Some (rv_anchor held) \<rparr>
      | None \<Rightarrow>
          if lm_max_signed (rr_limits s) \<le> length (rr_signed s) then Inl (fail Overloaded ''signed revocation cap is full'')
          else Inr \<lparr> cd_rec = r, cd_held = None \<rparr>)"

text \<open>What follows without the lock, and the second critical section.\<close>

definition revoke_apply :: "trust_anchor \<Rightarrow> candidate \<Rightarrow> u64 \<Rightarrow> revocation_registry \<Rightarrow> unit result \<times> revocation_registry" where
  "revoke_apply ta c now s =
     (if cd_held c \<noteq> None \<and> \<not> rotates ta c then (Inr (), s)
      else if \<not> verify_signed_revocation (cd_rec c) (rr_cluster s) ta
      then (fail Validation ''revocation record does not verify under a trusted root'', s\<lparr> rr_signed_rejected := rr_signed_rejected s + 1 \<rparr>)
      else case apply_candidate c now s of
        (Apply_Changed, s1) \<Rightarrow> (Inr (), republish_revoked s1)
      | (Apply_Unchanged, s1) \<Rightarrow> (Inr (), s1)
      | (Apply_Cap_Full, s1) \<Rightarrow> (fail Overloaded ''signed revocation cap is full'', s1))"

definition revoke_signed :: "trust_anchor \<Rightarrow> signed_revocation \<Rightarrow> u64 \<Rightarrow> revocation_registry \<Rightarrow> unit result \<times> revocation_registry" where
  "revoke_signed ta r now s = (case revoke_select r now s of Inl x \<Rightarrow> (x, s) | Inr c \<Rightarrow> revoke_apply ta c now s)"

text \<open>
  \<open>merge_signed\<close>: the body of the loop that selects the candidates, over the fingerprints seen, the candidates so far and
  the number of new entries among them.
\<close>

type_synonym selection = "fingerprint list \<times> candidate list \<times> nat \<times> revocation_registry"

definition select_one :: "u64 \<Rightarrow> bytes \<Rightarrow> selection \<Rightarrow> selection" where
  "select_one now b x =
     (case x of (seen, cs, news, s) \<Rightarrow>
      case decode_signed_revocation b of
        None \<Rightarrow> (seen, cs, news, s\<lparr> rr_signed_rejected := rr_signed_rejected s + 1 \<rparr>)
      | Some r \<Rightarrow>
          let fp = rv_fingerprint r; held = map_option rv_anchor (map_of (rr_signed s) fp) in
          if rv_cluster r \<noteq> rr_cluster s then (seen, cs, news, s\<lparr> rr_signed_rejected := rr_signed_rejected s + 1 \<rparr>)
          else if fp \<in> set seen then (seen, cs, news, s)
          else if record_expired s r now then (fp # seen, cs, news, s\<lparr> rr_signed_expired := rr_signed_expired s + 1 \<rparr>)
          else if held = Some (rv_anchor r) then (fp # seen, cs, news, s)
          else if held = None \<and> lm_max_signed (rr_limits s) \<le> length (rr_signed s) + news
          then (fp # seen, cs, news, s\<lparr> rr_cap_refused := rr_cap_refused s + 1 \<rparr>)
          else if lm_max_verifies (rr_limits s) \<le> length cs \<or> rr_tokens s = 0
          then (fp # seen, cs, news, s\<lparr> rr_signed_deferred := rr_signed_deferred s + 1 \<rparr>)
          else (fp # seen, cs @ [\<lparr> cd_rec = r, cd_held = held \<rparr>], if held = None then news + 1 else news,
                s\<lparr> rr_tokens := rr_tokens s - 1 \<rparr>))"

definition select_candidates :: "u64 \<Rightarrow> bytes list \<Rightarrow> revocation_registry \<Rightarrow> candidate list \<times> revocation_registry" where
  "select_candidates now bs s = (case fold (select_one now) bs ([], [], 0, s) of (_, cs, _, s') \<Rightarrow> (cs, s'))"

definition merge_select :: "bytes list \<Rightarrow> u64 \<Rightarrow> revocation_registry \<Rightarrow> candidate list \<times> revocation_registry" where
  "merge_select blobs now s =
     (if blobs = [] \<or> \<not> rr_signed_mode s then ([], s) else select_candidates now blobs (refill_tokens now s))"

text \<open>The signature checks: the candidates that need none, those that verify and those that do not.\<close>

definition needs_check :: "trust_anchor \<Rightarrow> candidate \<Rightarrow> bool" where
  "needs_check ta c \<longleftrightarrow> \<not> (cd_held c \<noteq> None \<and> \<not> rotates ta c)"

fun apply_verified :: "candidate list \<Rightarrow> u64 \<Rightarrow> bool \<Rightarrow> revocation_registry \<Rightarrow> bool \<times> revocation_registry" where
  "apply_verified [] now changed s = (changed, s)"
| "apply_verified (c # cs) now changed s =
     (case apply_candidate c now s of
        (Apply_Changed, s1) \<Rightarrow> apply_verified cs now True s1
      | (Apply_Unchanged, s1) \<Rightarrow> apply_verified cs now changed s1
      | (Apply_Cap_Full, s1) \<Rightarrow> apply_verified cs now changed (s1\<lparr> rr_cap_refused := rr_cap_refused s1 + 1 \<rparr>))"

definition merge_apply :: "trust_anchor \<Rightarrow> candidate list \<Rightarrow> u64 \<Rightarrow> revocation_registry \<Rightarrow> bool \<times> revocation_registry" where
  "merge_apply ta cs now s =
     (let checked = filter (needs_check ta) cs;
          good = filter (\<lambda>c. verify_signed_revocation (cd_rec c) (rr_cluster s) ta) checked;
          refund = length cs - length checked;
          s1 = s\<lparr> rr_signed_rejected := rr_signed_rejected s + (length checked - length good),
                  rr_tokens := min (lm_verify_burst (rr_limits s)) (rr_tokens s + refund) \<rparr>
      in case apply_verified good now False s1 of (changed, s2) \<Rightarrow> (changed, if changed then republish_revoked s2 else s2))"

definition merge_signed_records :: "trust_anchor \<Rightarrow> bytes list \<Rightarrow> u64 \<Rightarrow> revocation_registry \<Rightarrow> bool \<times> revocation_registry" where
  "merge_signed_records ta blobs now s =
     (if blobs = [] \<or> \<not> rr_signed_mode s then (False, s)
      else case merge_select blobs now s of (cs, s1) \<Rightarrow> merge_apply ta cs now s1)"

definition sample_signed :: "nat \<Rightarrow> revocation_registry \<Rightarrow> bytes list \<times> revocation_registry" where
  "sample_signed most s =
     (let m = length (rr_order s); n = min most m in
      if n = 0 then ([], s)
      else
        let start = rr_cursor s mod m in
        (map (\<lambda>i. encode_signed_revocation (the (map_of (rr_signed s) (rr_order s ! ((start + i) mod m))))) [0..<n],
         s\<lparr> rr_cursor := (start + n) mod m \<rparr>))"

definition signed_revocations :: "revocation_registry \<Rightarrow> signed_revocation list" where
  "signed_revocations s = map snd (rr_signed s)"

definition prune_expired :: "u64 \<Rightarrow> revocation_registry \<Rightarrow> nat \<times> revocation_registry" where
  "prune_expired now s0 =
     (let s = s0\<lparr> rr_last_prune := max (rr_last_prune s0) now \<rparr>;
          kept = filter (\<lambda>(_, r). \<not> record_expired s r now) (rr_signed s);
          pruned = length (rr_signed s) - length kept
      in if pruned = 0 then (0, s\<lparr> rr_signed := kept \<rparr>)
         else (pruned, republish_revoked (s\<lparr> rr_signed := kept, rr_order := filter (\<lambda>fp. map_of kept fp \<noteq> None) (rr_order s) \<rparr>)))"

end
