(* ===== verification/Revocation_Safety.thy ===== *)
theory Revocation_Safety
  imports Revocation
begin

text \<open>
  The revocation registry under any interleaving of its operations: its records are canonical on the wire, its tables
  agree, a revocation is removed only where the code means to, only what the trust anchor signed is taken from
  gossip in signed mode, and the signature checks stay within their budget.
\<close>

section \<open>The wire form\<close>

definition record_wf :: "signed_revocation \<Rightarrow> bool" where
  "record_wf r \<longleftrightarrow> length (rv_fingerprint r) = 32 \<and> length (rv_anchor r) = 32 \<and> rv_signature r \<noteq> [] \<and>
     length (rv_signature r) \<le> kMaxRevocationSignatureBytes"

lemma length_domain [simp]: "length kRevocationDomain = 16"
  by (simp add: kRevocationDomain_def)

lemma length_signed_bytes: "record_wf r \<Longrightarrow> length (revocation_signed_bytes r) = 104"
  by (simp add: revocation_signed_bytes_def record_wf_def)

lemma decode_encode_record:
  assumes "record_wf r"
  shows "decode_signed_revocation (encode_signed_revocation r) = Some r"
proof -
  let ?b = "encode_signed_revocation r"
  have l: "length (revocation_signed_bytes r) = 104" by (rule length_signed_bytes [OF assms])
  have w: "length (rv_fingerprint r) = 32" "length (rv_anchor r) = 32" "rv_signature r \<noteq> []" "length (rv_signature r) \<le> 72"
    using assms by (simp_all add: record_wf_def kMaxRevocationSignatureBytes_def)
  have n: "unat (?b ! 104) = length (rv_signature r)"
    using w(4) by (simp add: encode_signed_revocation_def nth_append l unat_of_nat)
  have d: "drop 105 ?b = rv_signature r" "length ?b = 105 + length (rv_signature r)"
    by (simp_all add: encode_signed_revocation_def l)
  have f: "take 16 ?b = kRevocationDomain" "take 8 (drop 16 ?b) = put_le 8 (rv_cluster r)" "take 32 (drop 24 ?b) = rv_fingerprint r"
    "take 8 (drop 56 ?b) = put_le 8 (rv_not_after r)" "take 8 (drop 64 ?b) = put_le 8 (rv_issued_at r)" "take 32 (drop 72 ?b) = rv_anchor r"
    using w by (simp_all add: encode_signed_revocation_def revocation_signed_bytes_def)
  show ?thesis
    using w n d f by (simp add: decode_signed_revocation_def kRevocationSignedBytes_def kMaxSignedRevocationWireBytes_def
        kMaxRevocationSignatureBytes_def Let_def)
qed

lemma encode_decode_record:
  assumes "decode_signed_revocation b = Some r"
  shows "record_wf r \<and> encode_signed_revocation r = b"
proof -
  define n where "n = unat (b ! 104)"
  have c: "take 16 b = kRevocationDomain" "n \<noteq> 0" "n \<le> 72" "length b = 105 + n"
    and r: "r = \<lparr> rv_cluster = get_le (take 8 (drop 16 b)), rv_fingerprint = take 32 (drop 24 b),
                    rv_not_after = get_le (take 8 (drop 56 b)), rv_issued_at = get_le (take 8 (drop 64 b)),
                    rv_anchor = take 32 (drop 72 b), rv_signature = drop 105 b \<rparr>"
    using assms by (auto simp: decode_signed_revocation_def kRevocationSignedBytes_def kMaxSignedRevocationWireBytes_def
        kMaxRevocationSignatureBytes_def Let_def n_def split: if_splits)
  have wf: "record_wf r" using c by (simp add: r record_wf_def kMaxRevocationSignatureBytes_def)
  have p: "put_le 8 (get_le (take 8 (drop i b)) :: u64) = take 8 (drop i b)" if "i + 8 \<le> 105" for i
    using that c(4) by (intro put_get_le) simp_all
  have "length (drop 105 b) = n" using c(4) by simp
  then have len: "of_nat (length (drop 105 b)) = b ! 104" by (simp add: n_def)
  have split: "take i (drop k b) @ drop (k + i) b = drop k b" for i k
    by (metis append_take_drop_id drop_drop add.commute)
  have "encode_signed_revocation r = take 16 b @ take 8 (drop 16 b) @ take 32 (drop 24 b) @ take 8 (drop 56 b) @ take 8 (drop 64 b) @
      take 32 (drop 72 b) @ b ! 104 # drop 105 b"
    using len c(1) p [of 16] p [of 56] p [of 64] by (simp add: encode_signed_revocation_def revocation_signed_bytes_def r)
  also have "b ! 104 # drop 105 b = drop 104 b" using Cons_nth_drop_Suc [of 104 b] c(4) by simp
  also have "take 16 b @ take 8 (drop 16 b) @ take 32 (drop 24 b) @ take 8 (drop 56 b) @ take 8 (drop 64 b) @ take 32 (drop 72 b) @ drop 104 b = b"
    using split [of 8 16] split [of 32 24] split [of 8 56] split [of 8 64] split [of 32 72] by (simp add: append_take_drop_id)
  finally show ?thesis using wf by simp
qed

text \<open>
  The wire form of a revocation record is canonical: a byte string decodes to a record exactly when it is
  the encoding of that record and the record is well formed, so no two byte strings carry the same record.
\<close>

theorem revocation_codec_canonical:
  "decode_signed_revocation b = Some r \<longleftrightarrow> record_wf r \<and> b = encode_signed_revocation r"
  using decode_encode_record encode_decode_record by blast

section \<open>Interleaved operations\<close>

text \<open>Calls whose signature checks are under way.\<close>

datatype revocation_job = Job_Revoke candidate u64 | Job_Merge "candidate list" u64

datatype registry_op =
    Rv_Protect fingerprint
  | Rv_Authority bool
  | Rv_Merge "fingerprint list"
  | Rv_Revoke_Locally fingerprint
  | Rv_Enable bool cluster_id revocation_limits
  | Rv_Revoke signed_revocation u64
  | Rv_Merge_Signed "bytes list" u64
  | Rv_Finish nat trust_anchor
  | Rv_Sample nat
  | Rv_Prune u64

fun finish_job :: "trust_anchor \<Rightarrow> revocation_job \<Rightarrow> revocation_registry \<Rightarrow> revocation_registry" where
  "finish_job ta (Job_Revoke c now) s = snd (revoke_apply ta c now s)"
| "finish_job ta (Job_Merge cs now) s = snd (merge_apply ta cs now s)"

fun registry_step :: "registry_op \<Rightarrow> revocation_registry \<times> revocation_job list \<Rightarrow> revocation_registry \<times> revocation_job list" where
  "registry_step (Rv_Protect fp) (s, js) = (protect_fingerprint fp s, js)"
| "registry_step (Rv_Authority on) (s, js) = (set_authority_only on s, js)"
| "registry_step (Rv_Merge fps) (s, js) = (snd (merge_revoked fps s), js)"
| "registry_step (Rv_Revoke_Locally fp) (s, js) = (revoke_locally fp s, js)"
| "registry_step (Rv_Enable v cl lm) (s, js) = (snd (enable_signed v cl lm s), js)"
| "registry_step (Rv_Revoke r now) (s, js) = (case revoke_select r now s of Inl _ \<Rightarrow> (s, js) | Inr c \<Rightarrow> (s, js @ [Job_Revoke c now]))"
| "registry_step (Rv_Merge_Signed bs now) (s, js) =
     (if bs = [] \<or> \<not> rr_signed_mode s then (s, js)
      else case merge_select bs now s of (cs, s1) \<Rightarrow> (s1, js @ [Job_Merge cs now]))"
| "registry_step (Rv_Finish i ta) (s, js) =
     (if i < length js then (finish_job ta (js ! i) s, take i js @ drop (Suc i) js) else (s, js))"
| "registry_step (Rv_Sample most) (s, js) = (snd (sample_signed most s), js)"
| "registry_step (Rv_Prune now) (s, js) = (snd (prune_expired now s), js)"

definition registry_run :: "registry_op list \<Rightarrow> revocation_registry \<times> revocation_job list \<Rightarrow> revocation_registry \<times> revocation_job list" where
  "registry_run ops x = fold registry_step ops x"

section \<open>The tables agree\<close>

definition tables_agree ::
  "fingerprint list \<Rightarrow> fingerprint list \<Rightarrow> (fingerprint \<times> signed_revocation) list \<Rightarrow> fingerprint list \<Rightarrow> bool \<Rightarrow> nat \<Rightarrow>
     revocation_limits \<Rightarrow> nat \<Rightarrow> bool" where
  "tables_agree loc gos recs order signed_mode most lm tokens \<longleftrightarrow>
     distinct loc \<and> distinct gos \<and> distinct (map fst recs) \<and> distinct order \<and>
     set order = fst ` set recs \<and> list_all (\<lambda>(fp, r). rv_fingerprint r = fp) recs \<and>
     length gos \<le> most \<and> (signed_mode \<longrightarrow> gos = []) \<and> (\<not> signed_mode \<longrightarrow> recs = []) \<and>
     length recs \<le> lm_max_signed lm \<and> tokens \<le> lm_verify_burst lm"

definition tables_ok :: "revocation_registry \<Rightarrow> bool" where
  "tables_ok s \<longleftrightarrow> tables_agree (rr_local s) (rr_gossiped s) (rr_signed s) (rr_order s) (rr_signed_mode s) (rr_max_entries s) (rr_limits s) (rr_tokens s)"

text \<open>The published snapshot is the union of the three sources.\<close>

definition registry_ok :: "revocation_registry \<Rightarrow> bool" where
  "registry_ok s \<longleftrightarrow> tables_ok s \<and> distinct (rr_snapshot s) \<and>
     set (rr_snapshot s) = set (rr_local s) \<union> set (rr_gossiped s) \<union> fst ` set (rr_signed s)"

lemma republish_simps [simp]:
  "rr_local (republish_revoked s) = rr_local s" "rr_gossiped (republish_revoked s) = rr_gossiped s"
  "rr_signed (republish_revoked s) = rr_signed s" "rr_order (republish_revoked s) = rr_order s"
  "rr_signed_mode (republish_revoked s) = rr_signed_mode s" "rr_max_entries (republish_revoked s) = rr_max_entries s"
  "rr_limits (republish_revoked s) = rr_limits s" "rr_tokens (republish_revoked s) = rr_tokens s"
  "rr_cluster (republish_revoked s) = rr_cluster s" "rr_last_refill (republish_revoked s) = rr_last_refill s"
  "rr_last_prune (republish_revoked s) = rr_last_prune s" "rr_protected (republish_revoked s) = rr_protected s"
  by (simp_all add: republish_revoked_def)

lemmas ok_iff_tables = registry_ok_def

lemma tables_republish [simp]: "registry_ok (republish_revoked s) = tables_ok s" "tables_ok (republish_revoked s) = tables_ok s"
  by (auto simp: registry_ok_def tables_ok_def republish_revoked_def)

lemma is_revoked_republish [simp]: "is_revoked fp (republish_revoked s) = is_revoked fp s"
  by (simp add: is_revoked_def)

lemma is_revoked_iff: "is_revoked fp s \<longleftrightarrow> fp \<in> set (rr_local s) \<union> set (rr_gossiped s) \<union> fst ` set (rr_signed s)"
  unfolding is_revoked_def map_of_eq_None_iff by auto

lemma is_revoked_simps [simp]:
  "is_revoked fp (s\<lparr> rr_rejected := n \<rparr>) = is_revoked fp s" "is_revoked fp (s\<lparr> rr_ignored_gossip := n \<rparr>) = is_revoked fp s"
  "is_revoked fp (s\<lparr> rr_gossiped := rr_gossiped s @ [fp'] \<rparr>) = (fp = fp' \<or> is_revoked fp s)"
  "is_revoked fp (s\<lparr> rr_local := rr_local s @ [fp'] \<rparr>) = (fp = fp' \<or> is_revoked fp s)"
  by (auto simp: is_revoked_def)

lemma counters_ok [simp]:
  "tables_ok (s\<lparr> rr_rejected := n \<rparr>) = tables_ok s" "tables_ok (s\<lparr> rr_ignored_gossip := n \<rparr>) = tables_ok s"
  "registry_ok (s\<lparr> rr_rejected := n \<rparr>) = registry_ok s" "registry_ok (s\<lparr> rr_ignored_gossip := n \<rparr>) = registry_ok s"
  by (simp_all add: tables_ok_def registry_ok_def)

lemma create_ok: "registry_ok (registry_create n)"
  by (simp add: registry_create_def tables_ok_def tables_agree_def revocation_limits_default_def)

lemma merge_entries_ok:
  assumes "tables_ok s" and "\<not> rr_signed_mode s" and "merge_entries fps ch s = (ch', s')"
  shows "tables_ok s' \<and> \<not> rr_signed_mode s' \<and> (\<forall>fp. is_revoked fp s \<longrightarrow> is_revoked fp s') \<and> (ch \<longrightarrow> ch') \<and>
    (\<not> ch' \<longrightarrow> rr_gossiped s' = rr_gossiped s) \<and> rr_local s' = rr_local s \<and> rr_signed s' = rr_signed s \<and> rr_snapshot s' = rr_snapshot s \<and>
    rr_limits s' = rr_limits s \<and> rr_tokens s' = rr_tokens s \<and> rr_last_refill s' = rr_last_refill s \<and> rr_cluster s' = rr_cluster s \<and> rr_max_entries s' = rr_max_entries s"
  using assms
proof (induction fps arbitrary: ch s)
  case (Cons fp fps)
  show ?case
  proof (cases "is_revoked fp s")
    case True
    then have "merge_entries fps ch s = (ch', s')" using Cons.prems(3) by simp
    then show ?thesis by (rule Cons.IH [OF Cons.prems(1,2)])
  next
    case False
    show ?thesis
    proof (cases "fp \<in> set (rr_protected s) \<or> rr_max_entries s \<le> length (rr_gossiped s)")
      case True
      let ?t = "s\<lparr> rr_rejected := rr_rejected s + 1 \<rparr>"
      have "tables_ok ?t" "\<not> rr_signed_mode ?t" using Cons.prems(1,2) by simp_all
      moreover have "merge_entries fps ch ?t = (ch', s')" using Cons.prems(3) True False by simp
      ultimately show ?thesis using Cons.IH [of ?t ch] by simp
    next
      case room: False
      let ?t = "s\<lparr> rr_gossiped := rr_gossiped s @ [fp] \<rparr>"
      have "tables_ok ?t" using Cons.prems(1,2) False room by (auto simp: tables_ok_def registry_ok_def tables_agree_def is_revoked_def)
      moreover have "\<not> rr_signed_mode ?t" using Cons.prems(2) by simp
      moreover have "merge_entries fps True ?t = (ch', s')" using Cons.prems(3) room False by simp
      ultimately show ?thesis using Cons.IH [of ?t True] by auto
    qed
  qed
qed auto

lemma merge_revoked_cases:
  assumes "merge_revoked fps s = (ch, s')"
  obtains "s' = s" | n where "s' = s\<lparr> rr_rejected := n \<rparr>" | n where "s' = s\<lparr> rr_ignored_gossip := n \<rparr>"
    | s1 where "\<not> rr_signed_mode s" "merge_entries fps False s = (ch, s1)" "s' = (if ch then republish_revoked s1 else s1)"
proof -
  obtain c s1 where m: "merge_entries fps False s = (c, s1)" by fastforce
  show thesis
  proof (cases "fps = []")
    case True
    then show thesis using assms that(1) by (simp add: merge_revoked_def)
  next
    case False
    show thesis
    proof (cases "rr_signed_mode s")
      case True
      then show thesis using assms False that(2) [of "rr_rejected s + length fps"] by (simp add: merge_revoked_def)
    next
      case sm: False
      show thesis
      proof (cases "rr_authority_only s")
        case True
        then show thesis using assms False sm that(3) [of "rr_ignored_gossip s + length fps"] by (simp add: merge_revoked_def)
      next
        case ao: False
        have "c = ch" "s' = (if c then republish_revoked s1 else s1)" using assms False sm ao m by (auto simp: merge_revoked_def)
        then show thesis using that(4) [OF sm, of s1] m by simp
      qed
    qed
  qed
qed

lemma merge_revoked_ok:
  assumes "registry_ok s" and "merge_revoked fps s = (ch, s')"
  shows "registry_ok s' \<and> (\<forall>fp. is_revoked fp s \<longrightarrow> is_revoked fp s') \<and> rr_signed s' = rr_signed s \<and> rr_local s' = rr_local s \<and>
    rr_limits s' = rr_limits s \<and> rr_tokens s' = rr_tokens s \<and> rr_last_refill s' = rr_last_refill s \<and> rr_cluster s' = rr_cluster s \<and>
    rr_signed_mode s' = rr_signed_mode s \<and> rr_max_entries s' = rr_max_entries s"
  using assms(2)
proof (cases rule: merge_revoked_cases)
  case (4 s1)
  have t: "tables_ok s" using assms(1) ok_iff_tables by blast
  note m = merge_entries_ok [OF t 4(1,2)]
  show ?thesis
  proof (cases ch)
    case True
    then show ?thesis using 4(1,3) m by simp
  next
    case False
    have "registry_ok s1" using False m assms(1) ok_iff_tables [of s1] ok_iff_tables [of s] by simp
    then show ?thesis using False 4(1,3) m by simp
  qed
qed (use assms(1) in simp_all)

lemma revoke_locally_ok:
  assumes "registry_ok s"
  shows "registry_ok (revoke_locally fp s) \<and> (\<forall>fp'. is_revoked fp' (revoke_locally fp s) = (fp' = fp \<or> is_revoked fp' s)) \<and>
    rr_signed (revoke_locally fp s) = rr_signed s \<and> set (rr_local (revoke_locally fp s)) = insert fp (set (rr_local s)) \<and>
    rr_limits (revoke_locally fp s) = rr_limits s \<and> rr_tokens (revoke_locally fp s) = rr_tokens s \<and>
    rr_last_refill (revoke_locally fp s) = rr_last_refill s \<and> rr_cluster (revoke_locally fp s) = rr_cluster s \<and>
    rr_signed_mode (revoke_locally fp s) = rr_signed_mode s \<and> rr_max_entries (revoke_locally fp s) = rr_max_entries s"
proof (cases "fp \<in> set (rr_local s)")
  case True
  then show ?thesis using assms by (auto simp: revoke_locally_def is_revoked_def)
next
  case False
  have "tables_ok (s\<lparr> rr_local := rr_local s @ [fp] \<rparr>)"
    using assms False by (auto simp: tables_ok_def registry_ok_def tables_agree_def)
  then show ?thesis using False by (simp add: revoke_locally_def)
qed

lemma enable_signed_ok:
  assumes "registry_ok s" and "enable_signed v cl lm s = (x, s')"
  shows "registry_ok s' \<and> rr_local s' = rr_local s \<and> rr_signed s' = rr_signed s \<and> rr_max_entries s' = rr_max_entries s \<and> rr_last_refill s' = rr_last_refill s \<and>
    (s' = s \<or> \<not> rr_signed_mode s \<and> rr_signed_mode s' \<and> rr_gossiped s' = [] \<and> rr_signed s = [] \<and> 0 < lm_verify_rate (rr_limits s'))"
proof -
  let ?t = "s\<lparr> rr_signed_mode := True, rr_cluster := cl, rr_limits := lm, rr_tokens := lm_verify_burst lm, rr_gossiped := [] \<rparr>"
  define off where "off \<longleftrightarrow> \<not> v \<or> lm_max_signed lm = 0 \<or> lm_max_verifies lm = 0 \<or> lm_verify_burst lm = 0 \<or> lm_verify_rate lm = 0 \<or> rr_signed_mode s"
  show ?thesis
  proof (cases off)
    case True
    then have "snd (enable_signed v cl lm s) = s" unfolding off_def enable_signed_def by auto
    then show ?thesis using assms by simp
  next
    case False
    then have s': "s' = republish_revoked ?t" and f: "\<not> rr_signed_mode s" "0 < lm_verify_rate lm"
      using assms(2) unfolding off_def enable_signed_def by simp_all
    have e: "rr_signed s = []" using assms(1) f(1) by (simp add: registry_ok_def tables_ok_def tables_agree_def)
    have "tables_ok ?t" using assms(1) e by (simp add: tables_ok_def registry_ok_def tables_agree_def)
    then show ?thesis using f e by (simp add: s')
  qed
qed

lemma length_update_old: "k \<in> fst ` set al \<Longrightarrow> length (AList.update k v al) = length al"
  by (induction al) auto

lemma set_update_entries: "set (AList.update k v al) \<subseteq> insert (k, v) (set al)"
  by (induction al) auto

text \<open>
  What the second critical section does with the verified records \<open>C\<close>: the records grow by some of them, or are
  replaced by some of them; the other tables stay.
\<close>

definition frame_same :: "revocation_registry \<Rightarrow> revocation_registry \<Rightarrow> bool" where
  "frame_same s t \<longleftrightarrow> rr_local t = rr_local s \<and> rr_gossiped t = rr_gossiped s \<and> rr_snapshot t = rr_snapshot s \<and> rr_limits t = rr_limits s \<and>
     rr_tokens t = rr_tokens s \<and> rr_last_refill t = rr_last_refill s \<and> rr_cluster t = rr_cluster s \<and> rr_max_entries t = rr_max_entries s \<and>
     rr_signed_mode t = rr_signed_mode s"

lemma frame_same_trans: "frame_same s t \<Longrightarrow> frame_same t u \<Longrightarrow> frame_same s u"
  by (simp add: frame_same_def)

definition grows :: "signed_revocation set \<Rightarrow> revocation_registry \<Rightarrow> revocation_registry \<Rightarrow> bool" where
  "grows C s t \<longleftrightarrow> frame_same s t \<and> (tables_ok s \<longrightarrow> rr_signed_mode s \<longrightarrow> tables_ok t) \<and> fst ` set (rr_signed s) \<subseteq> fst ` set (rr_signed t) \<and>
     (\<forall>x \<in> set (rr_signed t). x \<in> set (rr_signed s) \<or> snd x \<in> C \<and> fst x = rv_fingerprint (snd x))"

lemma growsD:
  assumes "grows C s t"
  shows "frame_same s t" and "tables_ok s \<Longrightarrow> rr_signed_mode s \<Longrightarrow> tables_ok t" and "fst ` set (rr_signed s) \<subseteq> fst ` set (rr_signed t)"
    and "x \<in> set (rr_signed t) \<Longrightarrow> x \<in> set (rr_signed s) \<or> snd x \<in> C \<and> fst x = rv_fingerprint (snd x)"
  using assms unfolding grows_def by simp_all

lemma grows_refl: "grows C s s"
  by (simp add: grows_def frame_same_def)

lemma grows_trans: "grows C s t \<Longrightarrow> grows C t u \<Longrightarrow> grows C s u"
proof -
  assume a: "grows C s t" and b: "grows C t u"
  note a = growsD [OF a] and b = growsD [OF b]
  have m: "rr_signed_mode t = rr_signed_mode s" using a(1) by (simp add: frame_same_def)
  show ?thesis unfolding grows_def
  proof (intro conjI impI ballI)
    show "frame_same s u" by (rule frame_same_trans [OF a(1) b(1)])
    show "tables_ok u" if "tables_ok s" "rr_signed_mode s" using b(2) a(2) that m by simp
    show "fst ` set (rr_signed s) \<subseteq> fst ` set (rr_signed u)" using a(3) b(3) by (rule order_trans)
    show "x \<in> set (rr_signed s) \<or> snd x \<in> C \<and> fst x = rv_fingerprint (snd x)" if "x \<in> set (rr_signed u)" for x
      using b(4) [OF that] a(4) [of x] by blast
  qed
qed

lemma grows_mono: "grows C s t \<Longrightarrow> C \<subseteq> D \<Longrightarrow> grows D s t"
  unfolding grows_def by blast

lemma grows_count: "grows C s (t\<lparr> rr_cap_refused := n \<rparr>) = grows C s t"
  by (simp add: grows_def frame_same_def tables_ok_def)

lemma grows_revoked: "grows C s t \<Longrightarrow> is_revoked fp s \<Longrightarrow> is_revoked fp t"
  by (auto simp: grows_def frame_same_def is_revoked_iff)

lemma apply_candidate_ok:
  assumes "apply_candidate c now s = (x, t)"
  shows "grows {cd_rec c} s t" and "x \<noteq> Apply_Changed \<Longrightarrow> fst ` set (rr_signed t) = fst ` set (rr_signed s)"
proof -
  let ?r = "cd_rec c" let ?fp = "rv_fingerprint ?r"
  have "grows {?r} s t \<and> (x \<noteq> Apply_Changed \<longrightarrow> fst ` set (rr_signed t) = fst ` set (rr_signed s))"
  proof (cases "record_expired s ?r (max now (rr_last_prune s))")
    case True
    then have "t = s" using assms by (simp add: apply_candidate_def)
    then show ?thesis by (simp add: grows_refl)
  next
    case live: False
    show ?thesis
    proof (cases "map_of (rr_signed s) ?fp")
      case (Some held)
      let ?u = "s\<lparr> rr_signed := AList.update ?fp ?r (rr_signed s) \<rparr>"
      have t: "t = ?u \<or> t = s" using assms live Some by (auto simp: apply_candidate_def Let_def)
      have m: "?fp \<in> fst ` set (rr_signed s)" using Some by (force dest: map_of_SomeD)
      have f: "fst ` set (AList.update ?fp ?r (rr_signed s)) = fst ` set (rr_signed s)" using m by (auto simp: dom_update)
      have e: "set (AList.update ?fp ?r (rr_signed s)) \<subseteq> insert (?fp, ?r) (set (rr_signed s))" by (rule set_update_entries)
      have "tables_ok ?u" if ok: "tables_ok s" "rr_signed_mode s"
      proof -
        have "list_all (\<lambda>(fp, r). rv_fingerprint r = fp) (AList.update ?fp ?r (rr_signed s))"
        proof -
          have "\<forall>y \<in> set (rr_signed s). (\<lambda>(fp, r). rv_fingerprint r = fp) y" using ok(1) by (simp add: tables_ok_def tables_agree_def list_all_iff)
          then have "\<forall>y \<in> insert (?fp, ?r) (set (rr_signed s)). (\<lambda>(fp, r). rv_fingerprint r = fp) y" by simp
          then show ?thesis unfolding list_all_iff using e by blast
        qed
        then show ?thesis using ok f length_update_old [OF m] by (simp add: tables_ok_def tables_agree_def distinct_update)
      qed
      moreover have "\<forall>y \<in> set (rr_signed ?u). y \<in> set (rr_signed s) \<or> snd y \<in> {?r} \<and> fst y = rv_fingerprint (snd y)"
        using e by fastforce
      ultimately have "grows {?r} s ?u" using f unfolding grows_def by (simp add: frame_same_def)
      moreover have "fst ` set (rr_signed ?u) = fst ` set (rr_signed s)" using f by simp
      ultimately show ?thesis using t grows_refl by metis
    next
      case None
      show ?thesis
      proof (cases "lm_max_signed (rr_limits s) \<le> length (rr_signed s)")
        case True
        then have "t = s" using assms live None by (simp add: apply_candidate_def Let_def)
        then show ?thesis by (simp add: grows_refl)
      next
        case room: False
        let ?u = "s\<lparr> rr_signed := rr_signed s @ [(?fp, ?r)], rr_order := rr_order s @ [?fp] \<rparr>"
        have t: "x = Apply_Changed" "t = ?u" using assms live None room by (simp_all add: apply_candidate_def Let_def)
        have n: "?fp \<notin> fst ` set (rr_signed s)" using None by (simp add: map_of_eq_None_iff)
        have "tables_ok ?u" if "tables_ok s" "rr_signed_mode s"
          using that room n by (simp add: tables_ok_def tables_agree_def)
        then show ?thesis by (auto simp: t grows_def frame_same_def)
      qed
    qed
  qed
  then show "grows {?r} s t" "x \<noteq> Apply_Changed \<Longrightarrow> fst ` set (rr_signed t) = fst ` set (rr_signed s)" by blast+
qed

text \<open>The fields that the counting operations leave alone.\<close>

definition same_tables :: "revocation_registry \<Rightarrow> revocation_registry \<Rightarrow> bool" where
  "same_tables s t \<longleftrightarrow> rr_local t = rr_local s \<and> rr_gossiped t = rr_gossiped s \<and> rr_signed t = rr_signed s \<and> rr_order t = rr_order s \<and>
     rr_signed_mode t = rr_signed_mode s \<and> rr_max_entries t = rr_max_entries s \<and> rr_limits t = rr_limits s \<and> rr_cluster t = rr_cluster s \<and>
     rr_snapshot t = rr_snapshot s \<and> rr_last_prune t = rr_last_prune s"

lemma same_tables_ok:
  assumes "same_tables s t" and "rr_tokens t \<le> lm_verify_burst (rr_limits s)"
  shows "registry_ok s \<Longrightarrow> registry_ok t" and "is_revoked fp t = is_revoked fp s"
  using assms by (simp_all add: same_tables_def registry_ok_def tables_ok_def tables_agree_def is_revoked_def)

lemma apply_verified_ok:
  assumes "apply_verified cs now ch s = (ch', t)"
  shows "grows (cd_rec ` set cs) s t \<and> (ch \<longrightarrow> ch') \<and> (\<not> ch' \<longrightarrow> fst ` set (rr_signed t) = fst ` set (rr_signed s))"
  using assms
proof (induction cs arbitrary: ch s)
  case (Cons c cs)
  obtain x s1 where a: "apply_candidate c now s = (x, s1)" by fastforce
  note ok = apply_candidate_ok [OF a]
  define s2 where "s2 = (if x = Apply_Cap_Full then s1\<lparr> rr_cap_refused := rr_cap_refused s1 + 1 \<rparr> else s1)"
  have "apply_verified cs now (ch \<or> x = Apply_Changed) s2 = (ch', t)" using Cons.prems a by (cases x) (simp_all add: s2_def)
  note ih = Cons.IH [OF this]
  have "grows (cd_rec ` set (c # cs)) s s2" using grows_mono [OF ok(1)] by (simp add: s2_def grows_count)
  moreover have "grows (cd_rec ` set (c # cs)) s2 t" using ih grows_mono by (metis list.set_intros(2) image_mono subsetI)
  ultimately have "grows (cd_rec ` set (c # cs)) s t" by (rule grows_trans)
  moreover have "rr_signed s2 = rr_signed s1" by (simp add: s2_def)
  ultimately show ?case using ih ok(2) by auto
qed (simp add: grows_refl)

text \<open>The second critical section of a merge.\<close>

lemma merge_apply_ok:
  assumes "registry_ok s" and "rr_signed_mode s" and "merge_apply ta cs now s = (ch, s')"
  shows "registry_ok s' \<and> rr_signed_mode s' \<and> (\<forall>fp. is_revoked fp s \<longrightarrow> is_revoked fp s') \<and> rr_local s' = rr_local s \<and>
    (\<forall>x \<in> set (rr_signed s'). x \<in> set (rr_signed s) \<or>
       verify_signed_revocation (snd x) (rr_cluster s) ta \<and> fst x = rv_fingerprint (snd x)) \<and>
    rr_limits s' = rr_limits s \<and> rr_last_refill s' = rr_last_refill s \<and> rr_cluster s' = rr_cluster s \<and> rr_max_entries s' = rr_max_entries s \<and>
    rr_tokens s' = min (lm_verify_burst (rr_limits s)) (rr_tokens s + (length cs - length (filter (needs_check ta) cs)))"
proof -
  define good where "good = filter (\<lambda>c. verify_signed_revocation (cd_rec c) (rr_cluster s) ta) (filter (needs_check ta) cs)"
  define n where "n = rr_signed_rejected s + (length (filter (needs_check ta) cs) - length good)"
  define tk where "tk = min (lm_verify_burst (rr_limits s)) (rr_tokens s + (length cs - length (filter (needs_check ta) cs)))"
  define s1 where "s1 = s\<lparr> rr_signed_rejected := n, rr_tokens := tk \<rparr>"
  obtain c2 s2 where a: "apply_verified good now False s1 = (c2, s2)" by fastforce
  have s': "ch = c2" "s' = (if c2 then republish_revoked s2 else s2)"
    using assms(3) a unfolding merge_apply_def Let_def good_def [symmetric] n_def [symmetric] tk_def [symmetric] s1_def [symmetric] by auto
  have st: "same_tables s s1" by (simp add: same_tables_def s1_def)
  have "rr_tokens s1 \<le> lm_verify_burst (rr_limits s)" by (simp add: s1_def tk_def)
  note k1 = same_tables_ok [OF st this]
  have t1: "registry_ok s1" "rr_signed_mode s1" using k1(1) [OF assms(1)] assms(2) by (simp_all add: s1_def)
  note av = apply_verified_ok [OF a]
  have fr: "frame_same s1 s2" and t2: "tables_ok s2" using av t1 by (auto simp: grows_def registry_ok_def)
  have "registry_ok s'"
  proof (cases c2)
    case False
    then show ?thesis using av fr t1(1) t2 by (simp add: s' registry_ok_def frame_same_def)
  qed (use t2 in \<open>simp add: s'\<close>)
  moreover have "is_revoked fp s'" if "is_revoked fp s" for fp using that av k1(2) grows_revoked by (auto simp: s')
  moreover have "x \<in> set (rr_signed s) \<or> verify_signed_revocation (snd x) (rr_cluster s) ta \<and> fst x = rv_fingerprint (snd x)"
    if "x \<in> set (rr_signed s')" for x
  proof -
    have "x \<in> set (rr_signed s2)" using that by (simp add: s' split: if_splits)
    with av have "x \<in> set (rr_signed s1) \<or> snd x \<in> cd_rec ` set good \<and> fst x = rv_fingerprint (snd x)" using growsD(4) by blast
    then show ?thesis by (auto simp: good_def s1_def)
  qed
  moreover have "rr_signed_mode s'" "rr_local s' = rr_local s" "rr_limits s' = rr_limits s" "rr_last_refill s' = rr_last_refill s"
    "rr_cluster s' = rr_cluster s" "rr_max_entries s' = rr_max_entries s" "rr_tokens s' = tk"
    using fr t1(2) by (simp_all add: s' frame_same_def s1_def)
  ultimately show ?thesis by (simp add: tk_def)
qed

lemma same_tables_refl: "same_tables s s"
  by (simp add: same_tables_def)

lemma same_tables_trans: "same_tables s t \<Longrightarrow> same_tables t u \<Longrightarrow> same_tables s u"
  by (simp add: same_tables_def)

lemma same_tables_counts:
  "same_tables s (t\<lparr> rr_signed_rejected := n \<rparr>) = same_tables s t" "same_tables s (t\<lparr> rr_signed_expired := n \<rparr>) = same_tables s t"
  "same_tables s (t\<lparr> rr_cap_refused := n \<rparr>) = same_tables s t" "same_tables s (t\<lparr> rr_signed_deferred := n \<rparr>) = same_tables s t"
  "same_tables s (t\<lparr> rr_tokens := n \<rparr>) = same_tables s t" "same_tables s (t\<lparr> rr_last_refill := w \<rparr>) = same_tables s t"
  "same_tables s (t\<lparr> rr_cursor := n \<rparr>) = same_tables s t" "same_tables s (t\<lparr> rr_protected := p \<rparr>) = same_tables s t"
  "same_tables s (t\<lparr> rr_authority_only := b \<rparr>) = same_tables s t"
  by (simp_all add: same_tables_def)

text \<open>The selection spends one token for each candidate and stays within the limit of one merge.\<close>

definition selecting :: "revocation_registry \<Rightarrow> selection \<Rightarrow> bool" where
  "selecting s0 x \<longleftrightarrow> (case x of (seen, cs, news, s) \<Rightarrow> same_tables s0 s \<and> rr_tokens s + length cs = rr_tokens s0 \<and>
     rr_last_refill s = rr_last_refill s0 \<and> length cs \<le> lm_max_verifies (rr_limits s0))"

lemma select_one_ok:
  assumes "selecting s0 x"
  shows "selecting s0 (select_one now b x)"
proof -
  obtain seen cs news s where x: "x = (seen, cs, news, s)" by (cases x)
  have "rr_limits s = rr_limits s0" using assms by (simp add: x selecting_def same_tables_def)
  then show ?thesis using assms
    by (simp add: x selecting_def select_one_def Let_def same_tables_counts split: option.split)
qed

lemma select_candidates_ok:
  assumes "select_candidates now bs s = (cs, s')"
  shows "same_tables s s' \<and> rr_tokens s' + length cs = rr_tokens s \<and> rr_last_refill s' = rr_last_refill s \<and>
    length cs \<le> lm_max_verifies (rr_limits s)"
proof -
  have "selecting s x \<Longrightarrow> selecting s (fold (select_one now) bs x)" for x
    by (induction bs arbitrary: x) (simp_all add: select_one_ok)
  moreover have "selecting s ([], [], 0, s)" by (simp add: selecting_def same_tables_refl)
  ultimately have "selecting s (fold (select_one now) bs ([], [], 0, s))" by blast
  then show ?thesis using assms by (auto simp: select_candidates_def selecting_def split: prod.splits)
qed

lemma refill_ok:
  assumes "rr_tokens s \<le> lm_verify_burst (rr_limits s)"
  shows "same_tables s (refill_tokens now s) \<and> rr_tokens (refill_tokens now s) \<le> lm_verify_burst (rr_limits s) \<and>
    rr_last_refill (refill_tokens now s) = now"
  using assms by (simp add: refill_tokens_def same_tables_counts same_tables_refl Let_def)

lemma merge_select_ok:
  assumes "registry_ok s" and "merge_select bs now s = (cs, s')"
  shows "same_tables s s' \<and> registry_ok s' \<and> length cs \<le> lm_max_verifies (rr_limits s) \<and>
    (if bs = [] \<or> \<not> rr_signed_mode s then s' = s \<and> cs = []
     else rr_last_refill s' = now \<and> rr_tokens s' + length cs = rr_tokens (refill_tokens now s))"
proof (cases "bs = [] \<or> \<not> rr_signed_mode s")
  case True
  then show ?thesis using assms by (auto simp: merge_select_def same_tables_refl)
next
  case False
  have tk: "rr_tokens s \<le> lm_verify_burst (rr_limits s)" using assms(1) by (simp add: registry_ok_def tables_ok_def tables_agree_def)
  note rf = refill_ok [OF tk, of now]
  have "select_candidates now bs (refill_tokens now s) = (cs, s')" using assms(2) False by (simp add: merge_select_def)
  note sc = select_candidates_ok [OF this]
  have st: "same_tables s s'" using rf sc same_tables_trans by blast
  have "rr_tokens s' \<le> lm_verify_burst (rr_limits s)" using rf sc by simp
  then have "registry_ok s'" using same_tables_ok(1) [OF st] assms(1) by blast
  moreover have "rr_limits (refill_tokens now s) = rr_limits s" using rf by (simp add: same_tables_def)
  ultimately show ?thesis using st sc rf False by simp
qed

lemma revoke_apply_cases:
  assumes "revoke_apply ta c now s = (x, s')"
  obtains (kept) "s' = s"
    | (bad) "s' = s\<lparr> rr_signed_rejected := rr_signed_rejected s + 1 \<rparr>"
    | (good) y s1 where "verify_signed_revocation (cd_rec c) (rr_cluster s) ta" and "apply_candidate c now s = (y, s1)"
        and "s' = (if y = Apply_Changed then republish_revoked s1 else s1)"
proof (cases "cd_held c \<noteq> None \<and> \<not> rotates ta c")
  case True
  have "revoke_apply ta c now s = (Inr (), s)" unfolding revoke_apply_def by (rule if_P [OF True])
  then show ?thesis using assms kept by (simp del: not_None_eq)
next
  case skip: False
  show ?thesis
  proof (cases "verify_signed_revocation (cd_rec c) (rr_cluster s) ta")
    case False
    then have "snd (revoke_apply ta c now s) = s\<lparr> rr_signed_rejected := rr_signed_rejected s + 1 \<rparr>"
      unfolding revoke_apply_def if_not_P [OF skip] by (simp del: not_None_eq)
    then show ?thesis using assms bad by simp
  next
    case True
    obtain y s1 where a: "apply_candidate c now s = (y, s1)" by fastforce
    have "snd (revoke_apply ta c now s) = (if y = Apply_Changed then republish_revoked s1 else s1)"
      unfolding revoke_apply_def if_not_P [OF skip] a using True by (cases y) (simp_all del: not_None_eq)
    then show ?thesis using assms good [OF True a] by simp
  qed
qed

text \<open>What one call of \<open>revoke\<close> may do to the registry.\<close>

definition absorbs :: "(signed_revocation \<Rightarrow> bool) \<Rightarrow> revocation_registry \<Rightarrow> revocation_registry \<Rightarrow> bool" where
  "absorbs verifies s s' \<longleftrightarrow> registry_ok s' \<and> (\<forall>fp. is_revoked fp s \<longrightarrow> is_revoked fp s') \<and> frame_same (s\<lparr> rr_snapshot := rr_snapshot s' \<rparr>) s' \<and> rr_tokens s' = rr_tokens s \<and>
     (\<forall>x \<in> set (rr_signed s'). x \<in> set (rr_signed s) \<or> verifies (snd x) \<and> fst x = rv_fingerprint (snd x))"

lemma revoke_apply_absorbs:
  assumes "registry_ok s" and "rr_signed_mode s" and "revoke_apply ta c now s = (x, s')"
  shows "absorbs (\<lambda>r. verify_signed_revocation r (rr_cluster s) ta) s s'"
  using assms(3)
proof (cases rule: revoke_apply_cases)
  case kept
  then show ?thesis using assms(1) by (simp add: absorbs_def frame_same_def)
next
  case bad
  then have st: "same_tables s s'" and tk: "rr_tokens s' = rr_tokens s" and fr: "frame_same (s\<lparr> rr_snapshot := rr_snapshot s' \<rparr>) s'"
    by (simp_all add: same_tables_counts same_tables_refl frame_same_def)
  have "rr_tokens s' \<le> lm_verify_burst (rr_limits s)" using assms(1) tk by (simp add: registry_ok_def tables_ok_def tables_agree_def)
  from same_tables_ok [OF st this] assms(1) have "registry_ok s'" by blast
  moreover have "is_revoked fp s' \<longleftrightarrow> is_revoked fp s" for fp using bad by (simp add: is_revoked_def)
  moreover have "rr_signed s' = rr_signed s" using bad by simp
  ultimately show ?thesis using tk fr by (simp add: absorbs_def)
next
  case (good y s1)
  note ac = apply_candidate_ok [OF good(2)]
  note fr = growsD(1) [OF ac(1)]
  have t1: "tables_ok s1" using growsD(2) [OF ac(1)] assms(1,2) by (simp add: registry_ok_def)
  have ok: "registry_ok s'"
  proof (cases "y = Apply_Changed")
    case False
    then show ?thesis using ac(2) t1 fr assms(1) good(3) by (simp add: registry_ok_def frame_same_def)
  qed (use t1 good(3) in simp)
  have same: "frame_same (s\<lparr> rr_snapshot := rr_snapshot s' \<rparr>) s'" using fr good(3) by (simp add: frame_same_def)
  have rev: "is_revoked fp s'" if "is_revoked fp s" for fp using grows_revoked [OF ac(1) that] good(3) by simp
  have tok: "rr_tokens s' = rr_tokens s" using fr good(3) by (simp add: frame_same_def)
  have recs: "rr_signed s' = rr_signed s1" using good(3) by simp
  have "x \<in> set (rr_signed s) \<or> verify_signed_revocation (snd x) (rr_cluster s) ta \<and> fst x = rv_fingerprint (snd x)"
    if "x \<in> set (rr_signed s')" for x
    using growsD(4) [OF ac(1), of x] that good(1) recs by auto
  then show ?thesis using ok same rev tok by (simp add: absorbs_def)
qed

lemma revoke_apply_ok:
  assumes "registry_ok s" and "rr_signed_mode s" and "revoke_apply ta c now s = (x, s')"
  shows "registry_ok s' \<and> rr_signed_mode s' \<and> (\<forall>fp. is_revoked fp s \<longrightarrow> is_revoked fp s') \<and> rr_local s' = rr_local s \<and>
    (\<forall>x \<in> set (rr_signed s'). x \<in> set (rr_signed s) \<or>
       verify_signed_revocation (snd x) (rr_cluster s) ta \<and> fst x = rv_fingerprint (snd x)) \<and>
    rr_limits s' = rr_limits s \<and> rr_last_refill s' = rr_last_refill s \<and> rr_cluster s' = rr_cluster s \<and> rr_max_entries s' = rr_max_entries s \<and>
    rr_tokens s' = rr_tokens s"
proof -
  note ab = revoke_apply_absorbs [OF assms, unfolded absorbs_def]
  show ?thesis using ab assms(2) unfolding frame_same_def by simp
qed

lemma prune_ok:
  assumes "registry_ok s" and "prune_expired now s = (n, s')"
  shows "registry_ok s' \<and> set (rr_signed s') \<subseteq> set (rr_signed s) \<and> rr_local s' = rr_local s \<and> rr_gossiped s' = rr_gossiped s \<and>
    (\<forall>x \<in> set (rr_signed s) - set (rr_signed s'). record_expired s (snd x) now) \<and> rr_signed_mode s' = rr_signed_mode s \<and>
    rr_limits s' = rr_limits s \<and> rr_tokens s' = rr_tokens s \<and> rr_last_refill s' = rr_last_refill s \<and> rr_cluster s' = rr_cluster s \<and>
    rr_max_entries s' = rr_max_entries s"
proof -
  define kept where "kept = filter (\<lambda>(_, r). \<not> record_expired s r now) (rr_signed s)"
  define t where "t = s\<lparr> rr_last_prune := max (rr_last_prune s) now \<rparr>"
  have e: "record_expired t r now = record_expired s r now" for r by (simp add: t_def record_expired_def)
  define u where "u = t\<lparr> rr_signed := kept, rr_order := filter (\<lambda>fp. map_of kept fp \<noteq> None) (rr_order t) \<rparr>"
  have s': "s' = (if length (rr_signed s) - length kept = 0 then t\<lparr> rr_signed := kept \<rparr> else republish_revoked u)"
    using assms(2) unfolding prune_expired_def Let_def t_def [symmetric] e by (simp add: kept_def u_def t_def split: if_splits)
  have ok: "tables_ok s" using assms(1) by (simp add: registry_ok_def)
  have "map fst kept = map fst (filter (\<lambda>x. \<not> record_expired s (snd x) now) (rr_signed s))" by (simp add: kept_def case_prod_beta')
  then have dk: "distinct (map fst kept)" using ok by (simp add: tables_ok_def tables_agree_def distinct_map_filter)
  have sub: "set kept \<subseteq> set (rr_signed s)" by (auto simp: kept_def)
  have keys: "{fp \<in> fst ` set (rr_signed s). map_of kept fp \<noteq> None} = fst ` set kept"
    using sub by (auto simp: map_of_eq_None_iff)
  have u: "tables_ok u"
  proof -
    have "set (rr_order u) = fst ` set kept" using ok keys by (auto simp: u_def t_def tables_ok_def tables_agree_def map_of_eq_None_iff)
    moreover have "list_all (\<lambda>(fp, r). rv_fingerprint r = fp) kept" using ok sub by (auto simp: tables_ok_def tables_agree_def list_all_iff)
    moreover have "length kept \<le> lm_max_signed (rr_limits s)"
      using ok order_trans [OF length_filter_le] by (auto simp: kept_def tables_ok_def tables_agree_def)
    ultimately show ?thesis using ok dk by (auto simp: u_def t_def tables_ok_def tables_agree_def kept_def)
  qed
  have r: "registry_ok s' \<and> rr_signed s' = kept"
  proof (cases "length (rr_signed s) - length kept = 0")
    case True
    have "length kept = length (rr_signed s)"
      using True length_filter_le [of "\<lambda>(_, r). \<not> record_expired s r now" "rr_signed s"] by (simp add: kept_def)
    then have k: "kept = rr_signed s" unfolding kept_def by (metis (no_types, lifting) length_filter_less less_irrefl filter_True)
    then have "s' = t" using True by (simp add: s' t_def)
    then show ?thesis using assms(1) k by (simp add: t_def registry_ok_def tables_ok_def)
  next
    case False
    then show ?thesis using u by (simp add: s' u_def)
  qed
  have x: "record_expired s (snd x) now" if "x \<in> set (rr_signed s) - set kept" for x using that by (auto simp: kept_def)
  have "rr_local s' = rr_local s" "rr_gossiped s' = rr_gossiped s" "rr_signed_mode s' = rr_signed_mode s" "rr_limits s' = rr_limits s"
    "rr_tokens s' = rr_tokens s" "rr_last_refill s' = rr_last_refill s" "rr_cluster s' = rr_cluster s" "rr_max_entries s' = rr_max_entries s"
    by (simp_all add: s' u_def t_def)
  then show ?thesis using r sub x by simp
qed

lemma sample_ok: "same_tables s (snd (sample_signed most s)) \<and> rr_tokens (snd (sample_signed most s)) = rr_tokens s \<and>
    rr_last_refill (snd (sample_signed most s)) = rr_last_refill s"
  by (simp add: sample_signed_def Let_def same_tables_counts same_tables_refl)

section \<open>Runs\<close>

text \<open>Every way in which an operation may take a revocation away.\<close>

definition may_drop :: "registry_op \<Rightarrow> fingerprint \<Rightarrow> revocation_registry \<Rightarrow> bool" where
  "may_drop op fp s = (case op of
      Rv_Enable _ _ _ \<Rightarrow> \<not> rr_signed_mode s \<and> fp \<in> set (rr_gossiped s) \<and> fp \<notin> set (rr_local s)
    | Rv_Prune now \<Rightarrow> fp \<notin> set (rr_local s) \<and> (\<exists>r. map_of (rr_signed s) fp = Some r \<and> record_expired s r now)
    | _ \<Rightarrow> False)"

text \<open>The records an operation may add.\<close>

definition vouched :: "registry_op \<Rightarrow> cluster_id \<Rightarrow> signed_revocation \<Rightarrow> bool" where
  "vouched op cl r = (case op of Rv_Finish _ ta \<Rightarrow> verify_signed_revocation r cl ta | _ \<Rightarrow> False)"

definition system_ok :: "revocation_registry \<times> revocation_job list \<Rightarrow> bool" where
  "system_ok x \<longleftrightarrow> registry_ok (fst x) \<and> (snd x \<noteq> [] \<longrightarrow> rr_signed_mode (fst x))"

text \<open>What one operation can do.\<close>

definition step_facts :: "registry_op \<Rightarrow> revocation_registry \<Rightarrow> revocation_registry \<Rightarrow> bool" where
  "step_facts op s s' \<longleftrightarrow> (\<forall>fp. is_revoked fp s \<longrightarrow> \<not> is_revoked fp s' \<longrightarrow> may_drop op fp s) \<and>
     (\<forall>x \<in> set (rr_signed s'). x \<in> set (rr_signed s) \<or> vouched op (rr_cluster s) (snd x) \<and> fst x = rv_fingerprint (snd x)) \<and>
     (rr_signed_mode s \<longrightarrow> rr_signed_mode s' \<and> rr_cluster s' = rr_cluster s \<and> rr_limits s' = rr_limits s) \<and>
     rr_max_entries s' = rr_max_entries s \<and> (\<forall>fp \<in> set (rr_local s'). fp \<in> set (rr_local s) \<or> op = Rv_Revoke_Locally fp)"

lemma same_step_facts: "same_tables s s' \<Longrightarrow> step_facts op s s'"
  by (simp add: step_facts_def same_tables_def is_revoked_def)

lemma finish_facts:
  assumes "registry_ok s" and "rr_signed_mode s"
  shows "registry_ok (finish_job ta j s) \<and> rr_signed_mode (finish_job ta j s) \<and> step_facts (Rv_Finish i ta) s (finish_job ta j s)"
proof (cases j)
  case (Job_Revoke c now)
  obtain x s' where p: "revoke_apply ta c now s = (x, s')" by fastforce
  note ok = revoke_apply_ok [OF assms p]
  have "step_facts (Rv_Finish i ta) s s'" using ok unfolding step_facts_def vouched_def by auto
  then show ?thesis using ok by (simp add: Job_Revoke p)
next
  case (Job_Merge cs now)
  obtain x s' where p: "merge_apply ta cs now s = (x, s')" by fastforce
  note ok = merge_apply_ok [OF assms p]
  have "step_facts (Rv_Finish i ta) s s'" using ok unfolding step_facts_def vouched_def by auto
  then show ?thesis using ok by (simp add: Job_Merge p)
qed

lemma registry_step_facts:
  assumes "system_ok (s, js)" and "registry_step op (s, js) = (s', js')"
  shows "system_ok (s', js') \<and> step_facts op s s'"
proof -
  have ok: "registry_ok s" and live: "js \<noteq> [] \<Longrightarrow> rr_signed_mode s" using assms(1) by (simp_all add: system_ok_def)
  have tk: "rr_tokens s \<le> lm_verify_burst (rr_limits s)" using ok by (simp add: registry_ok_def tables_ok_def tables_agree_def)
  have same: ?thesis if "same_tables s s'" "rr_tokens s' = rr_tokens s" "js' = js"
  proof -
    have "rr_tokens s' \<le> lm_verify_burst (rr_limits s)" using tk that(2) by simp
    from same_tables_ok(1) [OF that(1) this ok] show ?thesis
      using same_step_facts [OF that(1)] live that(1,3) by (auto simp: system_ok_def same_tables_def)
  qed
  show ?thesis
  proof (cases op)
    case (Rv_Protect fp)
    then show ?thesis using assms(2) by (intro same) (auto simp: protect_fingerprint_def same_tables_counts same_tables_refl)
  next
    case (Rv_Authority on)
    then show ?thesis using assms(2) by (intro same) (auto simp: set_authority_only_def same_tables_counts same_tables_refl)
  next
    case (Rv_Merge fps)
    obtain ch where p: "merge_revoked fps s = (ch, s')" and js: "js' = js" using assms(2) Rv_Merge by (cases "merge_revoked fps s") auto
    note m = merge_revoked_ok [OF ok p]
    then show ?thesis using live js by (auto simp: system_ok_def step_facts_def)
  next
    case (Rv_Revoke_Locally fp)
    note m = revoke_locally_ok [OF ok, of fp]
    have "s' = revoke_locally fp s" "js' = js" using assms(2) Rv_Revoke_Locally by auto
    then show ?thesis using live m Rv_Revoke_Locally by (auto simp: system_ok_def step_facts_def)
  next
    case (Rv_Enable v cl lm)
    obtain x where p: "enable_signed v cl lm s = (x, s')" and js: "js' = js" using assms(2) Rv_Enable by (cases "enable_signed v cl lm s") auto
    note m = enable_signed_ok [OF ok p]
    show ?thesis
    proof (cases "s' = s")
      case True
      then show ?thesis using same_step_facts [OF same_tables_refl] assms(1) js by simp
    next
      case False
      then have n: "\<not> rr_signed_mode s" "rr_signed_mode s'" "rr_gossiped s' = []" "rr_signed s = []" using m by simp_all
      have "may_drop op fp s" if "is_revoked fp s" "\<not> is_revoked fp s'" for fp
        using that m n by (auto simp: may_drop_def Rv_Enable is_revoked_def)
      then show ?thesis using m n live js by (auto simp: system_ok_def step_facts_def)
    qed
  next
    case (Rv_Revoke r now)
    show ?thesis
    proof (cases "revoke_select r now s")
      case (Inl x)
      then show ?thesis using assms(2) Rv_Revoke by (intro same) (auto simp: same_tables_refl)
    next
      case (Inr c)
      then have e: "s' = s" "js' = js @ [Job_Revoke c now]" using assms(2) Rv_Revoke by auto
      have "rr_signed_mode s" using Inr by (auto simp: revoke_select_def split: if_splits)
      then show ?thesis using ok same_step_facts [OF same_tables_refl] by (simp add: system_ok_def e)
    qed
  next
    case (Rv_Merge_Signed bs now)
    show ?thesis
    proof (cases "bs = [] \<or> \<not> rr_signed_mode s")
      case True
      then show ?thesis using assms(2) Rv_Merge_Signed by (intro same) (auto simp: same_tables_refl)
    next
      case False
      obtain cs where p: "merge_select bs now s = (cs, s')" and js: "js' = js @ [Job_Merge cs now]"
        using assms(2) Rv_Merge_Signed False by (auto split: prod.splits)
      note m = merge_select_ok [OF ok p]
      have "rr_signed_mode s'" using m False by (simp add: same_tables_def)
      then show ?thesis using m same_step_facts by (simp add: system_ok_def)
    qed
  next
    case (Rv_Finish i ta)
    show ?thesis
    proof (cases "i < length js")
      case True
      then have "js \<noteq> []" by auto
      from finish_facts [OF ok live [OF this], of ta "js ! i" i] show ?thesis
        using assms(2) Rv_Finish True by (auto simp: system_ok_def)
    next
      case False
      then show ?thesis using assms(2) Rv_Finish by (intro same) (auto simp: same_tables_refl)
    qed
  next
    case (Rv_Sample most)
    then show ?thesis using assms(2) sample_ok [of s most] by (intro same) auto
  next
    case (Rv_Prune now)
    obtain n where p: "prune_expired now s = (n, s')" and js: "js' = js" using assms(2) Rv_Prune by (cases "prune_expired now s") auto
    note m = prune_ok [OF ok p]
    have "may_drop op fp s" if f: "is_revoked fp s" "\<not> is_revoked fp s'" for fp
    proof -
      obtain r where r: "map_of (rr_signed s) fp = Some r" and l: "fp \<notin> set (rr_local s)" using f m by (auto simp: is_revoked_def)
      have "(fp, r) \<in> set (rr_signed s)" using r by (rule map_of_SomeD)
      moreover have "(fp, r) \<notin> set (rr_signed s')" using f(2) by (force simp: is_revoked_iff)
      ultimately have "record_expired s r now" using m by force
      then show ?thesis using r l by (simp add: may_drop_def Rv_Prune)
    qed
    then show ?thesis using m live js by (auto simp: system_ok_def step_facts_def)
  qed
qed

end
