(* ===== verification/Revocation_Runs.thy ===== *)
theory Revocation_Runs
  imports Revocation_Safety
begin

text \<open>
  What runs of the revocation registry guarantee: revocations stay, gossip in signed mode adds only what the trust
  anchor has signed, signature checks stay within the budget, every record is gossiped in turn; and a call to
  \<open>revoke\<close> that reports success without effect.
\<close>

lemma run_Cons: "registry_run (op # ops) x = registry_run ops (registry_step op x)"
  and run_Nil: "registry_run [] x = x" and run_append: "registry_run (ops @ ops') x = registry_run ops' (registry_run ops x)"
  by (simp_all add: registry_run_def)

lemma system_create: "system_ok (registry_create n, [])"
  by (simp add: system_ok_def create_ok)

text \<open>The facts of a run from a start state, for a set of genuine records.\<close>

definition run_facts :: "registry_op list \<Rightarrow> (signed_revocation \<Rightarrow> bool) \<Rightarrow> revocation_registry \<Rightarrow> revocation_registry \<Rightarrow> bool" where
  "run_facts ops genuine s s' \<longleftrightarrow>
     rr_max_entries s' = rr_max_entries s \<and> (\<forall>fp \<in> set (rr_local s'). fp \<in> set (rr_local s) \<or> Rv_Revoke_Locally fp \<in> set ops) \<and>
     (rr_signed_mode s \<longrightarrow> rr_signed_mode s' \<and> rr_cluster s' = rr_cluster s \<and> rr_limits s' = rr_limits s) \<and>
     (\<forall>x \<in> set (rr_signed s'). x \<in> set (rr_signed s) \<or> genuine (snd x) \<and> fst x = rv_fingerprint (snd x) \<and> rv_cluster (snd x) = rr_cluster s')"

lemma registry_run_facts:
  assumes "system_ok (s, js)" and "\<forall>i ta cl r. Rv_Finish i ta \<in> set ops \<longrightarrow> verify_signed_revocation r cl ta \<longrightarrow> genuine r"
    and "registry_run ops (s, js) = (s', js')"
  shows "system_ok (s', js') \<and> run_facts ops genuine s s'"
  using assms
proof (induction ops arbitrary: s js)
  case Nil
  then show ?case by (simp add: run_Nil run_facts_def)
next
  case (Cons op ops)
  obtain s1 js1 where p: "registry_step op (s, js) = (s1, js1)" by fastforce
  note st = registry_step_facts [OF Cons.prems(1) p]
  have g: "\<forall>i ta cl r. Rv_Finish i ta \<in> set ops \<longrightarrow> verify_signed_revocation r cl ta \<longrightarrow> genuine r"
    using Cons.prems(2) by (meson list.set_intros(2))
  have ok1: "system_ok (s1, js1)" using st by blast
  have r1: "registry_run ops (s1, js1) = (s', js')" using Cons.prems(3) p by (simp add: run_Cons)
  have rf: "system_ok (s', js')" "run_facts ops genuine s1 s'" using Cons.IH [OF ok1 g r1] by blast+
  have sf: "step_facts op s s1" using st by blast
  have m1: "rr_signed_mode s \<Longrightarrow> rr_signed_mode s1 \<and> rr_cluster s1 = rr_cluster s \<and> rr_limits s1 = rr_limits s"
    and e1: "rr_max_entries s1 = rr_max_entries s" using sf unfolding step_facts_def by blast+
  have m2: "rr_signed_mode s1 \<Longrightarrow> rr_signed_mode s' \<and> rr_cluster s' = rr_cluster s1 \<and> rr_limits s' = rr_limits s1"
    and e2: "rr_max_entries s' = rr_max_entries s1" using rf(2) unfolding run_facts_def by blast+
  have loc: "fp \<in> set (rr_local s) \<or> Rv_Revoke_Locally fp \<in> set (op # ops)" if "fp \<in> set (rr_local s')" for fp
  proof -
    have "fp \<in> set (rr_local s1) \<or> Rv_Revoke_Locally fp \<in> set ops" using that rf(2) unfolding run_facts_def by blast
    moreover have "fp \<in> set (rr_local s1) \<Longrightarrow> fp \<in> set (rr_local s) \<or> op = Rv_Revoke_Locally fp" using sf unfolding step_facts_def by blast
    ultimately show ?thesis by auto
  qed
  have rec: "x \<in> set (rr_signed s) \<or> genuine (snd x) \<and> fst x = rv_fingerprint (snd x) \<and> rv_cluster (snd x) = rr_cluster s'"
    if "x \<in> set (rr_signed s')" for x
  proof -
    have "x \<in> set (rr_signed s1) \<or> genuine (snd x) \<and> fst x = rv_fingerprint (snd x) \<and> rv_cluster (snd x) = rr_cluster s'"
      using that rf(2) unfolding run_facts_def by blast
    moreover have "x \<in> set (rr_signed s1) \<Longrightarrow>
        x \<in> set (rr_signed s) \<or> vouched op (rr_cluster s) (snd x) \<and> fst x = rv_fingerprint (snd x)"
      using sf unfolding step_facts_def by blast
    ultimately consider "x \<in> set (rr_signed s)" | "x \<in> set (rr_signed s1)" "vouched op (rr_cluster s) (snd x)" "fst x = rv_fingerprint (snd x)"
      | "genuine (snd x)" "fst x = rv_fingerprint (snd x)" "rv_cluster (snd x) = rr_cluster s'"
      by blast
    then show ?thesis
    proof cases
      case 2
      obtain i ta where op: "op = Rv_Finish i ta" and v: "verify_signed_revocation (snd x) (rr_cluster s) ta"
        using 2(2) by (cases op) (auto simp: vouched_def)
      have "rv_cluster (snd x) = rr_cluster s" using v by (simp add: verify_signed_revocation_def)
      moreover have "rr_cluster s' = rr_cluster s"
      proof (cases "rr_signed_mode s")
        case True
        then show ?thesis using m1 m2 by simp
      next
        case False
        have "js = []" using Cons.prems(1) False by (auto simp: system_ok_def)
        then have "s1 = s" using p op by simp
        moreover have "rr_signed s = []" using Cons.prems(1) False by (simp add: system_ok_def registry_ok_def tables_ok_def tables_agree_def)
        ultimately show ?thesis using 2(1) by simp
      qed
      moreover have "genuine (snd x)" using Cons.prems(2) op v by (metis list.set_intros(1))
      ultimately show ?thesis using 2(3) by simp
    qed simp_all
  qed
  show ?case using rf(1) m1 m2 e1 e2 loc rec unfolding run_facts_def by simp
qed

text \<open>
  Property C6.  The ratchet.  In any interleaving of calls, what is revoked stays revoked and in the published snapshot,
  except that switching to signed mode drops what is known from unsigned gossip only, and pruning drops what is known
  from a record of an expired certificate only.
\<close>

theorem revocations_are_kept:
  assumes "registry_run ops (registry_create n, []) = (s, js)" and "is_revoked fp s"
    and "registry_step op (s, js) = (s', js')" and "\<not> may_drop op fp s"
  shows "is_revoked fp s' \<and> fp \<in> set (rr_snapshot s')"
proof -
  have ok: "system_ok (s, js)" using registry_run_facts [OF system_create _ assms(1), of "\<lambda>_. True"] by simp
  note st = registry_step_facts [OF ok assms(3)]
  have "is_revoked fp s'" using st assms(2,4) unfolding step_facts_def by blast
  then show ?thesis using st by (auto simp: system_ok_def registry_ok_def is_revoked_iff)
qed

text \<open>
  Property C5.  No member can revoke a third party.  If every verifier that was in use accepts only what the trust
  anchor has signed, then in signed mode a fingerprint is revoked only by this node's own operator or by a record of
  the trust anchor for this cluster and that certificate, whatever was gossiped, before or after the switch.
\<close>

theorem signed_mode_authentic:
  assumes "registry_run ops (registry_create n, []) = (s, js)" and "rr_signed_mode s" and "is_revoked fp s"
    and "\<And>i ta cl r. Rv_Finish i ta \<in> set ops \<Longrightarrow> verify_signed_revocation r cl ta \<Longrightarrow> genuine r"
  shows "Rv_Revoke_Locally fp \<in> set ops \<or> (\<exists>r. genuine r \<and> rv_fingerprint r = fp \<and> rv_cluster r = rr_cluster s)"
proof -
  have "\<forall>i ta cl r. Rv_Finish i ta \<in> set ops \<longrightarrow> verify_signed_revocation r cl ta \<longrightarrow> genuine r" using assms(4) by blast
  note rf = registry_run_facts [OF system_create this assms(1)]
  have e: "rr_signed (registry_create n) = []" "rr_local (registry_create n) = []" by (simp_all add: registry_create_def)
  have "rr_gossiped s = []" using rf assms(2) by (simp add: system_ok_def registry_ok_def tables_ok_def tables_agree_def)
  then consider "fp \<in> set (rr_local s)" | r where "(fp, r) \<in> set (rr_signed s)" using assms(3) by (auto simp: is_revoked_iff)
  then show ?thesis
  proof cases
    case 1
    then show ?thesis using rf e(2) by (auto simp: run_facts_def)
  next
    case 2
    then have "genuine r \<and> fp = rv_fingerprint r \<and> rv_cluster r = rr_cluster s" using rf e(1) by (fastforce simp: run_facts_def)
    then show ?thesis by blast
  qed
qed

text \<open>
  The tables of the registry agree and stay within their caps in any interleaving, and the published
  snapshot is the union of the local, the gossiped and the signed revocations.
\<close>

theorem registry_tables_agree:
  assumes "registry_run ops (registry_create n, []) = (s, js)"
  shows "registry_ok s \<and> length (rr_gossiped s) \<le> n \<and> length (rr_signed s) \<le> lm_max_signed (rr_limits s) \<and>
    (\<forall>fp. fp \<in> set (rr_snapshot s) \<longleftrightarrow> is_revoked fp s)"
proof -
  note rf = registry_run_facts [OF system_create _ assms, of "\<lambda>_. True"]
  have "rr_max_entries (registry_create n) = n" by (simp add: registry_create_def)
  then have "rr_max_entries s = n" "registry_ok s" using rf by (simp_all add: run_facts_def system_ok_def)
  then show ?thesis by (auto simp: registry_ok_def tables_ok_def tables_agree_def is_revoked_iff)
qed

section \<open>The budget of signature checks\<close>

text \<open>
  The signature checks that an operation makes on behalf of gossip, those that the merges under way have paid for,
  and what the clock readings of a sequence of operations refill, from a last reading.
\<close>

fun job_candidates :: "revocation_job \<Rightarrow> candidate list" where
  "job_candidates (Job_Merge cs _) = cs"
| "job_candidates (Job_Revoke _ _) = []"

fun gossip_checks :: "registry_op \<Rightarrow> revocation_registry \<times> revocation_job list \<Rightarrow> nat" where
  "gossip_checks (Rv_Finish i ta) (s, js) = (if i < length js then length (filter (needs_check ta) (job_candidates (js ! i))) else 0)"
| "gossip_checks _ _ = 0"

fun run_checks :: "registry_op list \<Rightarrow> revocation_registry \<times> revocation_job list \<Rightarrow> nat" where
  "run_checks [] x = 0"
| "run_checks (op # ops) x = gossip_checks op x + run_checks ops (registry_step op x)"

definition pending_checks :: "revocation_job list \<Rightarrow> nat" where
  "pending_checks js = (\<Sum>j \<leftarrow> js. length (job_candidates j))"

fun refilled :: "revocation_limits \<Rightarrow> u64 \<Rightarrow> registry_op list \<Rightarrow> nat" where
  "refilled lm prev [] = 0"
| "refilled lm prev (Rv_Merge_Signed bs now # ops) =
     (if bs = [] then refilled lm prev ops
      else min (lm_verify_burst lm) (lm_verify_rate lm * (unat now - unat prev)) + refilled lm now ops)"
| "refilled lm prev (_ # ops) = refilled lm prev ops"

text \<open>Clock readings that do not go back, up to a last one.\<close>

fun clock_forward :: "u64 \<Rightarrow> u64 \<Rightarrow> registry_op list \<Rightarrow> bool" where
  "clock_forward prev t [] = (prev \<le> t)"
| "clock_forward prev t (Rv_Merge_Signed bs now # ops) = (if bs = [] then clock_forward prev t ops else prev \<le> now \<and> clock_forward now t ops)"
| "clock_forward prev t (_ # ops) = clock_forward prev t ops"

lemma clock_forward_le: "clock_forward prev t ops \<Longrightarrow> prev \<le> t"
  by (induction prev t ops rule: clock_forward.induct) (auto split: if_splits)

lemma refilled_forward: "clock_forward prev t ops \<Longrightarrow> refilled lm prev ops \<le> lm_verify_rate lm * (unat t - unat prev)"
proof (induction lm prev ops rule: refilled.induct)
  case (2 lm prev bs now ops)
  show ?case
  proof (cases "bs = []")
    case False
    then have c: "clock_forward now t ops" "prev \<le> now" using 2 by auto
    then have "unat prev \<le> unat now" "unat now \<le> unat t" using clock_forward_le [OF c(1)] by (simp_all add: word_le_nat_alt)
    then have e: "unat t - unat prev = (unat now - unat prev) + (unat t - unat now)" by simp
    have "refilled lm now ops \<le> lm_verify_rate lm * (unat t - unat now)" using 2 False c by blast
    then show ?thesis unfolding e distrib_left using False by simp
  qed (use 2 in simp)
qed auto

lemma pending_simps [simp]: "pending_checks [] = 0" "pending_checks (j # js) = length (job_candidates j) + pending_checks js"
  "pending_checks (js @ js') = pending_checks js + pending_checks js'"
  by (simp_all add: pending_checks_def)

lemma pending_split: "i < length js \<Longrightarrow>
    pending_checks js = pending_checks (take i js @ drop (Suc i) js) + length (job_candidates (js ! i))"
  by (subst id_take_nth_drop [of i js]) simp_all

lemma refill_bound:
  fixes rate :: nat
  assumes "0 < rate"
  shows "(if burst \<le> e then burst else min burst (tk + rate * e)) \<le> tk + min burst (rate * e)"
proof -
  define q where "q = rate * e"
  have "e \<le> q" using assms by (cases rate) (simp_all add: q_def)
  then show ?thesis unfolding q_def [symmetric] by (simp add: min_def)
qed

lemma refill_gain:
  assumes "0 < lm_verify_rate (rr_limits s)"
  shows "rr_tokens (refill_tokens now s) \<le>
     rr_tokens s + min (lm_verify_burst (rr_limits s)) (lm_verify_rate (rr_limits s) * (unat now - unat (rr_last_refill s)))"
proof (cases "now < rr_last_refill s")
  case False
  let ?b = "lm_verify_burst (rr_limits s)" and ?r = "lm_verify_rate (rr_limits s)" and ?e = "unat now - unat (rr_last_refill s)"
  have "unat (now - rr_last_refill s) = ?e" using False by (simp add: unat_sub not_less)
  then have t: "rr_tokens (refill_tokens now s) = (if ?b \<le> ?e then ?b else min ?b (rr_tokens s + ?r * ?e))"
    using False by (simp add: refill_tokens_def Let_def mult.commute)
  show ?thesis unfolding t by (rule refill_bound [OF assms])
qed (simp add: refill_tokens_def)

text \<open>Tokens are paid when a merge selects its candidates, and paid back for those that need no check.\<close>

lemma finish_tokens:
  assumes "registry_ok s" and "rr_signed_mode s"
  shows "rr_tokens (finish_job ta j s) + length (filter (needs_check ta) (job_candidates j)) \<le> rr_tokens s + length (job_candidates j) \<and>
    rr_last_refill (finish_job ta j s) = rr_last_refill s"
proof (cases j)
  case (Job_Revoke c now)
  obtain x s' where "revoke_apply ta c now s = (x, s')" by fastforce
  then show ?thesis using revoke_apply_ok [OF assms] Job_Revoke by simp
next
  case (Job_Merge cs now)
  obtain ch s' where m: "merge_apply ta cs now s = (ch, s')" by fastforce
  have "length (filter (needs_check ta) cs) \<le> length cs" by (rule length_filter_le)
  moreover have "rr_tokens s' \<le> rr_tokens s + (length cs - length (filter (needs_check ta) cs))" "rr_last_refill s' = rr_last_refill s"
    using merge_apply_ok [OF assms m] by simp_all
  ultimately have "rr_tokens s' + length (filter (needs_check ta) cs) \<le> rr_tokens s + length cs" by arith
  then show ?thesis using \<open>rr_last_refill s' = rr_last_refill s\<close> by (simp add: Job_Merge m)
qed

definition step_gain :: "registry_op \<Rightarrow> revocation_registry \<Rightarrow> nat" where
  "step_gain op s = refilled (rr_limits s) (rr_last_refill s) [op]"

definition next_reading :: "registry_op \<Rightarrow> u64 \<Rightarrow> u64" where
  "next_reading op prev = (case op of Rv_Merge_Signed bs now \<Rightarrow> if bs = [] then prev else now | _ \<Rightarrow> prev)"

lemma refilled_Cons: "refilled lm prev (op # ops) = refilled lm prev [op] + refilled lm (next_reading op prev) ops"
  by (cases op) (simp_all add: next_reading_def)

lemma budget_step:
  assumes "system_ok (s, js)" and "rr_signed_mode s" and "0 < lm_verify_rate (rr_limits s)" and "registry_step op (s, js) = (s', js')"
  shows "rr_tokens s' + pending_checks js' + gossip_checks op (s, js) \<le> rr_tokens s + pending_checks js + step_gain op s \<and>
    rr_last_refill s' = next_reading op (rr_last_refill s)"
proof -
  have ok: "registry_ok s" using assms(1) by (simp add: system_ok_def)
  have idle: ?thesis if "rr_tokens s' = rr_tokens s" "rr_last_refill s' = rr_last_refill s" "pending_checks js' = pending_checks js"
    "gossip_checks op (s, js) = 0" "next_reading op (rr_last_refill s) = rr_last_refill s"
    using that by simp
  show ?thesis
  proof (cases op)
    case (Rv_Merge fps)
    then show ?thesis using assms by (intro idle) (auto simp: merge_revoked_def next_reading_def)
  next
    case (Rv_Revoke_Locally fp)
    then show ?thesis using assms by (intro idle) (auto simp: revoke_locally_def next_reading_def)
  next
    case (Rv_Enable v cl lm)
    then show ?thesis using assms by (intro idle) (auto simp: enable_signed_def next_reading_def)
  next
    case (Rv_Revoke r now)
    then show ?thesis using assms(4) by (cases "revoke_select r now s"; intro idle) (auto simp: next_reading_def)
  next
    case (Rv_Merge_Signed bs now)
    show ?thesis
    proof (cases "bs = []")
      case True
      then show ?thesis using assms(4) Rv_Merge_Signed by (intro idle) (auto simp: next_reading_def)
    next
      case False
      obtain cs where p: "merge_select bs now s = (cs, s')" and js: "js' = js @ [Job_Merge cs now]"
        using assms(2,4) Rv_Merge_Signed False by (auto split: prod.splits)
      then show ?thesis using merge_select_ok [OF ok p] refill_gain [OF assms(3), of now] assms(2) False
        by (simp add: Rv_Merge_Signed step_gain_def next_reading_def)
    qed
  next
    case (Rv_Finish i ta)
    show ?thesis
    proof (cases "i < length js")
      case True
      then have "s' = finish_job ta (js ! i) s" "js' = take i js @ drop (Suc i) js" using assms(4) Rv_Finish by auto
      then show ?thesis using finish_tokens [OF ok assms(2), of ta "js ! i"] pending_split [OF True] True Rv_Finish
        by (simp add: next_reading_def)
    next
      case False
      then show ?thesis using assms(4) Rv_Finish by (intro idle) (auto simp: next_reading_def)
    qed
  next
    case (Rv_Sample most)
    then show ?thesis using assms(4) sample_ok [of s most] by (intro idle) (auto simp: next_reading_def)
  next
    case (Rv_Prune now)
    obtain n where "prune_expired now s = (n, s')" "js' = js" using assms(4) Rv_Prune by (cases "prune_expired now s") auto
    then show ?thesis using prune_ok [OF ok] Rv_Prune by (intro idle) (auto simp: next_reading_def)
  qed (use assms(4) in \<open>intro idle; auto simp: next_reading_def protect_fingerprint_def set_authority_only_def\<close>)+
qed

lemma budget_run:
  assumes "system_ok (s, js)" and "rr_signed_mode s" and "0 < lm_verify_rate (rr_limits s)"
  shows "run_checks ops (s, js) \<le> rr_tokens s + pending_checks js + refilled (rr_limits s) (rr_last_refill s) ops"
  using assms
proof (induction ops arbitrary: s js)
  case (Cons op ops)
  obtain s1 js1 where p: "registry_step op (s, js) = (s1, js1)" by fastforce
  note b = budget_step [OF Cons.prems p] and st = registry_step_facts [OF Cons.prems(1) p]
  have ok1: "system_ok (s1, js1)" and sf: "step_facts op s s1" using st by blast+
  have m: "rr_signed_mode s1" "rr_limits s1 = rr_limits s" using sf Cons.prems(2) unfolding step_facts_def by blast+
  have "0 < lm_verify_rate (rr_limits s1)" using m Cons.prems(3) by simp
  note ih = Cons.IH [OF ok1 m(1) this]
  show ?case using ih b unfolding refilled_Cons [of _ _ op ops] by (simp add: p m step_gain_def)
qed simp

text \<open>The limits in use are not zero.\<close>

definition limits_ok :: "revocation_registry \<Rightarrow> bool" where
  "limits_ok s \<longleftrightarrow> 0 < lm_max_signed (rr_limits s) \<and> 0 < lm_max_verifies (rr_limits s) \<and> 0 < lm_verify_burst (rr_limits s) \<and>
     0 < lm_verify_rate (rr_limits s)"

lemma limits_ok_step:
  assumes "system_ok (s, js)" and "limits_ok s" and "registry_step op (s, js) = (s', js')"
  shows "limits_ok s'"
proof (cases "rr_signed_mode s")
  case True
  then have "rr_limits s' = rr_limits s" using registry_step_facts [OF assms(1,3)] by (simp add: step_facts_def)
  then show ?thesis using assms(2) by (simp add: limits_ok_def)
next
  case False
  then have js: "js = []" using assms(1) by (auto simp: system_ok_def)
  show ?thesis
  proof (cases op)
    case (Rv_Enable v cl lm)
    then show ?thesis using assms(2,3) False by (auto simp: limits_ok_def enable_signed_def)
  next
    case (Rv_Merge fps)
    obtain ch where p: "merge_revoked fps s = (ch, s')" using assms(3) Rv_Merge by (cases "merge_revoked fps s") auto
    have "rr_limits s' = rr_limits s" using merge_revoked_ok [OF _ p] assms(1) by (simp add: system_ok_def)
    then show ?thesis using assms(2) by (simp add: limits_ok_def)
  next
    case (Rv_Prune now)
    obtain n where p: "prune_expired now s = (n, s')" using assms(3) Rv_Prune by (cases "prune_expired now s") auto
    have "rr_limits s' = rr_limits s" using prune_ok [OF _ p] assms(1) by (simp add: system_ok_def)
    then show ?thesis using assms(2) by (simp add: limits_ok_def)
  next
    case (Rv_Sample most)
    then show ?thesis using assms(2,3) sample_ok [of s most] by (auto simp: limits_ok_def same_tables_def)
  next
    case (Rv_Revoke_Locally fp)
    then show ?thesis using assms(2,3) by (auto simp: limits_ok_def revoke_locally_def)
  next
    case (Rv_Revoke r now)
    then show ?thesis using assms(2,3) False by (auto simp: limits_ok_def revoke_select_def)
  qed (use assms(2,3) js False in \<open>auto simp: limits_ok_def protect_fingerprint_def set_authority_only_def\<close>)
qed

lemma limits_ok_run: "system_ok (s, js) \<Longrightarrow> limits_ok s \<Longrightarrow> registry_run ops (s, js) = (s', js') \<Longrightarrow> limits_ok s'"
proof (induction ops arbitrary: s js)
  case (Cons op ops)
  obtain s1 js1 where p: "registry_step op (s, js) = (s1, js1)" by fastforce
  have "registry_run ops (s1, js1) = (s', js')" using Cons.prems(3) p by (simp add: run_Cons)
  then show ?case using Cons.IH limits_ok_step [OF Cons.prems(1,2) p] registry_step_facts [OF Cons.prems(1) p] by blast
qed (simp add: run_Nil)

text \<open>
  Property C7.  Forged gossip cannot spend unbounded signature checks: from any state in signed mode, the checks made on
  behalf of gossip are at most the burst, what the merges under way have paid for, and what the clock refills, which is
  the rate times the time that passed if the clock never goes back.
\<close>

theorem gossip_checks_budgeted:
  assumes "registry_run ops (registry_create n, []) = (s, js)" and "rr_signed_mode s"
  shows "run_checks later (s, js) \<le> lm_verify_burst (rr_limits s) + pending_checks js + refilled (rr_limits s) (rr_last_refill s) later \<and>
    (clock_forward (rr_last_refill s) t later \<longrightarrow>
       run_checks later (s, js) \<le> lm_verify_burst (rr_limits s) + pending_checks js + lm_verify_rate (rr_limits s) * (unat t - unat (rr_last_refill s)))"
proof -
  have "system_ok (s, js)" using registry_run_facts [OF system_create _ assms(1), of "\<lambda>_. True"] by simp
  moreover have "limits_ok (registry_create n)" by (simp add: limits_ok_def registry_create_def revocation_limits_default_def)
  then have lo: "limits_ok s" using limits_ok_run [OF system_create _ assms(1)] by blast
  then have "0 < lm_verify_rate (rr_limits s)" by (simp add: limits_ok_def)
  ultimately have b: "run_checks later (s, js) \<le> rr_tokens s + pending_checks js + refilled (rr_limits s) (rr_last_refill s) later"
    using budget_run assms(2) by blast
  moreover have "rr_tokens s \<le> lm_verify_burst (rr_limits s)"
    using \<open>system_ok (s, js)\<close> by (simp add: system_ok_def registry_ok_def tables_ok_def tables_agree_def)
  moreover have "clock_forward (rr_last_refill s) t later \<Longrightarrow>
      refilled (rr_limits s) (rr_last_refill s) later \<le> lm_verify_rate (rr_limits s) * (unat t - unat (rr_last_refill s))"
    by (rule refilled_forward)
  ultimately show ?thesis by (meson add_le_mono le_refl le_trans)
qed

section \<open>Every record is gossiped in turn\<close>

text \<open>What a number of consecutive calls of \<open>sample_signed\<close> hand out.\<close>

fun sample_rounds :: "nat \<Rightarrow> nat \<Rightarrow> revocation_registry \<Rightarrow> bytes list" where
  "sample_rounds most 0 s = []"
| "sample_rounds most (Suc k) s = (case sample_signed most s of (bs, s') \<Rightarrow> bs @ sample_rounds most k s')"

definition held_blob :: "revocation_registry \<Rightarrow> nat \<Rightarrow> bytes" where
  "held_blob s i = encode_signed_revocation (the (map_of (rr_signed s) (rr_order s ! i)))"

lemma map_upt_shift: "map (\<lambda>i. f (n + i)) [0..<q] = map f [n..<n + q]"
  by (induction q) simp_all

lemma sample_rounds_eq:
  assumes "rr_order s \<noteq> []"
  shows "sample_rounds most k s =
    map (\<lambda>i. held_blob s ((rr_cursor s + i) mod length (rr_order s))) [0..<k * min most (length (rr_order s))]"
  using assms
proof (induction k arbitrary: s)
  case (Suc k)
  let ?m = "length (rr_order s)"
  define n where "n = min most ?m"
  show ?case
  proof (cases "n = 0")
    case True
    then have "most = 0" using Suc.prems by (simp add: n_def min_def split: if_splits)
    then show ?thesis using Suc by (simp add: sample_signed_def)
  next
    case False
    define s' where "s' = s\<lparr> rr_cursor := (rr_cursor s mod ?m + n) mod ?m \<rparr>"
    have e: "sample_signed most s = (map (\<lambda>i. held_blob s ((rr_cursor s + i) mod ?m)) [0..<n], s')"
      using False by (simp add: sample_signed_def Let_def n_def [symmetric] s'_def held_blob_def mod_add_left_eq)
    have o: "rr_order s' = rr_order s" "held_blob s' = held_blob s" by (simp_all add: s'_def held_blob_def fun_eq_iff)
    have c: "(rr_cursor s' + i) mod ?m = (rr_cursor s + (n + i)) mod ?m" for i
    proof -
      have "(rr_cursor s' + i) mod ?m = (rr_cursor s mod ?m + (n + i)) mod ?m" by (simp add: s'_def mod_add_left_eq add.assoc)
      then show ?thesis by (simp only: mod_add_left_eq)
    qed
    have "sample_rounds most k s' = map (\<lambda>i. held_blob s ((rr_cursor s + (n + i)) mod ?m)) [0..<k * n]"
      using Suc.IH [of s'] Suc.prems by (simp add: o c n_def)
    also have "\<dots> = map (\<lambda>i. held_blob s ((rr_cursor s + i) mod ?m)) [n..<n + k * n]"
      by (rule map_upt_shift)
    finally have "sample_rounds most (Suc k) s = map (\<lambda>i. held_blob s ((rr_cursor s + i) mod ?m)) ([0..<n] @ [n..<n + k * n])"
      by (simp add: e)
    also have "[0..<n] @ [n..<n + k * n] = [0..<Suc k * n]" using upt_add_eq_append [of 0 n "k * n"] by simp
    finally show ?thesis unfolding n_def .
  qed
qed simp

lemma residues_covered:
  assumes "0 < (m::nat)" and "m \<le> k" and "j < m"
  shows "\<exists>i < k. (c + i) mod m = j"
proof -
  have "(c + (j + (m - c mod m)) mod m) mod m = j"
  proof -
    have "(c + (j + (m - c mod m)) mod m) mod m = (c mod m + (j + (m - c mod m))) mod m" by (simp add: mod_simps)
    also have "c mod m + (j + (m - c mod m)) = j + m" using less_imp_le [OF mod_less_divisor [OF assms(1), of c]] by arith
    finally show ?thesis using assms(3) by simp
  qed
  moreover have "(j + (m - c mod m)) mod m < k" using assms(1,2) by (meson less_le_trans mod_less_divisor)
  ultimately show ?thesis by blast
qed

text \<open>
  Property C8.  No held record starves: however small the samples, as many consecutive samples as it takes to count all held
  records hand out every one of them, so a record deferred by a peer's budget is offered again.
\<close>

theorem every_record_is_gossiped:
  assumes "registry_run ops (registry_create n, []) = (s, js)" and "length (rr_order s) \<le> k * most" and "(fp, r) \<in> set (rr_signed s)"
  shows "encode_signed_revocation r \<in> set (sample_rounds most k s)"
proof -
  have "system_ok (s, js)" using registry_run_facts [OF system_create _ assms(1), of "\<lambda>_. True"] by simp
  then have t: "set (rr_order s) = fst ` set (rr_signed s)" "distinct (map fst (rr_signed s))"
    by (simp_all add: system_ok_def registry_ok_def tables_ok_def tables_agree_def)
  then have "fp \<in> set (rr_order s)" using assms(3) by force
  then obtain j where j: "j < length (rr_order s)" "rr_order s ! j = fp" by (auto simp: in_set_conv_nth)
  let ?m = "length (rr_order s)"
  have "0 < k" using j(1) assms(2) by (cases k) auto
  then have "?m \<le> k * ?m" by simp
  then have "?m \<le> k * min most ?m" using assms(2) by (simp add: min_def)
  then obtain i where i: "i < k * min most ?m" "(rr_cursor s + i) mod ?m = j" using residues_covered j(1) by (metis gr_zeroI not_less_zero)
  have "held_blob s j = encode_signed_revocation r" using t(2) assms(3) j(2) by (simp add: held_blob_def)
  moreover have "rr_order s \<noteq> []" using j(1) by auto
  ultimately show ?thesis using i by (force simp: sample_rounds_eq)
qed

section \<open>A call that reports success and has no effect\<close>

lemma record_expired_iff: "record_expired s r t \<longleftrightarrow> unat (rv_not_after r) + unat (lm_expiry_skew (rr_limits s)) < unat t"
proof (cases "rv_not_after r \<le> t")
  case True
  then show ?thesis by (simp add: record_expired_def word_less_nat_alt unat_sub) arith
next
  case False
  then show ?thesis by (simp add: record_expired_def word_le_nat_alt)
qed

lemma record_expired_mono: "record_expired s r t \<Longrightarrow> t \<le> t' \<Longrightarrow> record_expired s r t'"
  by (simp add: record_expired_iff word_le_nat_alt)

text \<open>
  When the registry was pruned with a later clock reading than the one \<open>revoke\<close> is called with, a genuine record
  between the two horizons is neither refused as expired nor applied: the call reports success, and the fingerprint is not revoked.
\<close>

theorem revoke_reports_unapplied:
  assumes "rr_signed_mode s" and "prune_expired later s = (m, t)" and "length (rr_signed t) < lm_max_signed (rr_limits t)"
    and "verify_signed_revocation r (rr_cluster t) ta" and "\<not> is_revoked (rv_fingerprint r) t"
    and "\<not> record_expired t r now" and "record_expired t r later" and "rr_last_prune s \<le> later"
  shows "revoke_signed ta r now t = (Inr (), t)"
proof -
  have e: "rr_last_prune t = later" "rr_signed_mode t" using assms(1,2,8) by (auto simp: prune_expired_def Let_def republish_revoked_def max_def split: if_splits)
  have h: "map_of (rr_signed t) (rv_fingerprint r) = None" using assms(5) by (simp add: is_revoked_def)
  have sel: "revoke_select r now t = Inr \<lparr> cd_rec = r, cd_held = None \<rparr>" using e(2) h assms(3,6) by (simp add: revoke_select_def)
  have "record_expired t r (max now (rr_last_prune t))" unfolding e(1) by (rule record_expired_mono [OF assms(7)]) simp
  then show ?thesis using assms(4) by (simp add: revoke_signed_def sel revoke_apply_def apply_candidate_def Let_def)
qed

section \<open>Witnesses\<close>

text \<open>A registry in signed mode that holds one record, which is revoked by the calls of a run.\<close>

definition leaf_record :: signed_revocation where
  "leaf_record = \<lparr> rv_cluster = 1, rv_fingerprint = [7], rv_not_after = 1000, rv_issued_at = 400, rv_anchor = [1], rv_signature = [9] \<rparr>"

definition root_anchor :: trust_anchor where
  "root_anchor = \<lparr> ta_verify = \<lambda>k m sig. k = [1] \<and> sig = [9], ta_is_current_root = \<lambda>k. k = [1] \<rparr>"

definition leaf_ops :: "registry_op list" where
  "leaf_ops = [Rv_Enable True 1 revocation_limits_default, Rv_Revoke leaf_record 500, Rv_Finish 0 root_anchor]"

definition leaf_registry :: revocation_registry where
  "leaf_registry = (registry_create 4)\<lparr> rr_signed_mode := True, rr_cluster := 1, rr_tokens := 32,
     rr_signed := [([7], leaf_record)], rr_order := [[7]], rr_snapshot := [[7]] \<rparr>"

lemmas leaf_defs = leaf_record_def root_anchor_def registry_create_def republish_revoked_def revocation_limits_default_def

lemma leaf_verifies: "verify_signed_revocation leaf_record 1 root_anchor"
  by (simp add: verify_signed_revocation_def leaf_record_def root_anchor_def kMaxRevocationSignatureBytes_def)

lemma leaf_run: "registry_run leaf_ops (registry_create 4, []) = (leaf_registry, [])"
proof -
  define s1 where "s1 = (registry_create 4)\<lparr> rr_signed_mode := True, rr_cluster := 1, rr_tokens := 32 \<rparr>"
  have en: "enable_signed True 1 revocation_limits_default (registry_create 4) = (Inr (), s1)"
    by (simp add: enable_signed_def leaf_defs s1_def)
  have s1: "rr_signed_mode s1" "rr_signed s1 = []" "rr_limits s1 = revocation_limits_default" "rr_cluster s1 = 1" "rr_last_prune s1 = 0"
    by (simp_all add: s1_def registry_create_def republish_revoked_def)
  have fresh: "\<not> record_expired s1 leaf_record 500" by (simp add: record_expired_def leaf_record_def)
  have sel: "revoke_select leaf_record 500 s1 = Inr \<lparr> cd_rec = leaf_record, cd_held = None \<rparr>"
    using fresh by (simp add: revoke_select_def s1 revocation_limits_default_def)
  have "apply_candidate \<lparr> cd_rec = leaf_record, cd_held = None \<rparr> 500 s1 =
      (Apply_Changed, s1\<lparr> rr_signed := [([7], leaf_record)], rr_order := rr_order s1 @ [[7]] \<rparr>)"
    using fresh by (simp add: apply_candidate_def Let_def s1 revocation_limits_default_def max_def) (simp add: leaf_record_def)
  then have "revoke_apply root_anchor \<lparr> cd_rec = leaf_record, cd_held = None \<rparr> 500 s1 = (Inr (), leaf_registry)"
    using leaf_verifies
    by (simp add: revoke_apply_def s1) (simp add: leaf_registry_def s1_def registry_create_def republish_revoked_def)
  then show ?thesis by (simp add: leaf_ops_def run_Cons run_Nil en sel)
qed

lemma leaf_simps [simp]:
  "rr_signed_mode leaf_registry" "rr_cluster leaf_registry = 1" "rr_signed leaf_registry = [([7], leaf_record)]" "rr_order leaf_registry = [[7]]"
  "rr_limits leaf_registry = revocation_limits_default" "rr_last_refill leaf_registry = 0" "rr_last_prune leaf_registry = 0"
  by (simp_all add: leaf_registry_def registry_create_def republish_revoked_def)

lemma leaf_revoked: "is_revoked [7] leaf_registry"
  by (simp add: is_revoked_def)

theorem revocations_are_kept_witness:
  "is_revoked [7] (fst (registry_step (Rv_Prune 1100) (leaf_registry, [])))"
proof -
  have "\<not> may_drop (Rv_Prune 1100) [7] leaf_registry"
    by (simp add: may_drop_def record_expired_def leaf_record_def revocation_limits_default_def)
  moreover obtain s' js' where "registry_step (Rv_Prune 1100) (leaf_registry, []) = (s', js')" by fastforce
  ultimately show ?thesis using revocations_are_kept [OF leaf_run leaf_revoked] by fastforce
qed

theorem signed_mode_authentic_witness:
  "\<exists>r :: signed_revocation. (rv_anchor r = [1] \<and> rv_signature r = [9]) \<and> rv_fingerprint r = [7] \<and> rv_cluster r = 1"
proof -
  have "Rv_Revoke_Locally [7] \<in> set leaf_ops \<or>
      (\<exists>r :: signed_revocation. (rv_anchor r = [1] \<and> rv_signature r = [9]) \<and> rv_fingerprint r = [7] \<and> rv_cluster r = rr_cluster leaf_registry)"
    by (rule signed_mode_authentic [OF leaf_run _ leaf_revoked]) (auto simp: leaf_ops_def verify_signed_revocation_def root_anchor_def)
  then show ?thesis by (simp add: leaf_ops_def)
qed

theorem registry_tables_agree_witness: "registry_ok leaf_registry"
  using registry_tables_agree [OF leaf_run] by simp

theorem gossip_checks_budgeted_witness: "run_checks [Rv_Merge_Signed [[]] 1000, Rv_Finish 0 root_anchor] (leaf_registry, []) \<le> 64"
  using gossip_checks_budgeted [OF leaf_run, of "[Rv_Merge_Signed [[]] 1000, Rv_Finish 0 root_anchor]" 0]
  by (simp add: revocation_limits_default_def)

theorem every_record_is_gossiped_witness: "encode_signed_revocation leaf_record \<in> set (sample_rounds 2 1 leaf_registry)"
  by (rule every_record_is_gossiped [OF leaf_run, of 1 2 "[7]"]) simp_all

theorem revoke_reports_unapplied_witness:
  "revoke_signed root_anchor (leaf_record\<lparr> rv_fingerprint := [8] \<rparr>) 1200 (snd (prune_expired 2000 leaf_registry)) =
     (Inr (), snd (prune_expired 2000 leaf_registry))"
proof -
  let ?t = "snd (prune_expired 2000 leaf_registry)"
  have e: "rr_signed ?t = []" "rr_limits ?t = revocation_limits_default" "rr_cluster ?t = 1" "rr_local ?t = []" "rr_gossiped ?t = []"
    by (simp_all add: prune_expired_def Let_def record_expired_def leaf_record_def revocation_limits_default_def republish_revoked_def
        leaf_registry_def registry_create_def)
  have p: "prune_expired 2000 leaf_registry = (fst (prune_expired 2000 leaf_registry), ?t)" by simp
  show ?thesis
    by (rule revoke_reports_unapplied [OF _ p])
      (simp_all add: e is_revoked_def record_expired_def verify_signed_revocation_def leaf_record_def root_anchor_def
        revocation_limits_default_def kMaxRevocationSignatureBytes_def)
qed

end
