(* ===== verification/Spec2Isabelle.thy ===== *)
theory Spec2Isabelle
  imports Flat_Actor_Map Topology Deadline Governance Mailbox Exec_State Timer_Service Lease Delivery_Chain Wire_Codec Swim_Detection File_Store_Runs Reminder_Runs Revocation_Runs
begin

text \<open>
  A verification library for the core of the Quark actor engine (\<open>include/quark\<close>).
\<close>

end
